(* ===== verification/Prelude.thy ===== *)
theory Prelude
  imports Main "HOL-Library.Word"
begin

text \<open>
  Shared vocabulary of the development: the machine types of the Rust sources, results and
  their sequencing (\<^verbatim>\<open>?\<close> and early returns), checked, saturating and little-endian operations on
  machine words, fixed-size chunking of byte strings, and the lemma collections that the
  component theories use.

  A Rust \<^verbatim>\<open>Result<T, E>\<close> is a value of \<open>'e + 'a\<close>: \<open>Inl e\<close> is \<^verbatim>\<open>Err(e)\<close>, \<open>Inr v\<close> is \<^verbatim>\<open>Ok(v)\<close>.
  A panic is a constructor of the error type (or \<open>None\<close> where the function has no other
  failure), so that it is a branch of the model and not an unspecified value.
\<close>

section \<open>Machine types\<close>

type_synonym u8 = "8 word"
type_synonym u32 = "32 word"
type_synonym u64 = "64 word"
type_synonym bytes = "u8 list"

unbundle bit_operations_syntax

named_theorems result_simps \<open>inversion rules of the result combinators\<close>
named_theorems checked_simps \<open>values of the checked and saturating word operations\<close>

section \<open>Results\<close>

definition bind_r :: "'e + 'a \<Rightarrow> ('a \<Rightarrow> 'e + 'b) \<Rightarrow> 'e + 'b" where
  "bind_r m f = (case m of Inl e \<Rightarrow> Inl e | Inr v \<Rightarrow> f v)"

definition ok_or :: "'a option \<Rightarrow> 'e \<Rightarrow> 'e + 'a" where
  "ok_or m e = (case m of None \<Rightarrow> Inl e | Some v \<Rightarrow> Inr v)"

definition map_err :: "('e \<Rightarrow> 'f) \<Rightarrow> 'e + 'a \<Rightarrow> 'f + 'a" where
  "map_err h m = (case m of Inl e \<Rightarrow> Inl (h e) | Inr v \<Rightarrow> Inr v)"

definition ensure :: "bool \<Rightarrow> 'e \<Rightarrow> 'e + unit" where
  "ensure b e = (if b then Inr () else Inl e)"

definition is_ok :: "'e + 'a \<Rightarrow> bool" where
  "is_ok m = (case m of Inl _ \<Rightarrow> False | Inr _ \<Rightarrow> True)"

text \<open>A \<^verbatim>\<open>for\<close> loop whose body may return early with an error.\<close>

fun fold_r :: "('s \<Rightarrow> 'a \<Rightarrow> 'e + 's) \<Rightarrow> 's \<Rightarrow> 'a list \<Rightarrow> 'e + 's" where
  "fold_r f s [] = Inr s"
| "fold_r f s (x # xs) = bind_r (f s x) (\<lambda>s'. fold_r f s' xs)"

lemma bind_r_Inl [simp]: "bind_r (Inl e) f = Inl e"
  by (simp add: bind_r_def)

lemma bind_r_Inr [simp]: "bind_r (Inr v) f = f v"
  by (simp add: bind_r_def)

lemma bind_r_eq_Inr [result_simps]:
  "bind_r m f = Inr y \<longleftrightarrow> (\<exists>v. m = Inr v \<and> f v = Inr y)"
  by (cases m) (simp_all add: bind_r_def)

lemma bind_r_eq_Inl:
  "bind_r m f = Inl e \<longleftrightarrow> m = Inl e \<or> (\<exists>v. m = Inr v \<and> f v = Inl e)"
  by (cases m) (simp_all add: bind_r_def)

lemma ok_or_simps [simp]: "ok_or None e = Inl e" "ok_or (Some v) e = Inr v"
  by (simp_all add: ok_or_def)

lemma ok_or_eq_Inr [result_simps]: "ok_or m e = Inr v \<longleftrightarrow> m = Some v"
  by (cases m) simp_all

lemma map_err_simps [simp]: "map_err h (Inl e) = Inl (h e)" "map_err h (Inr v) = Inr v"
  by (simp_all add: map_err_def)

lemma map_err_eq_Inr [result_simps]: "map_err h m = Inr v \<longleftrightarrow> m = Inr v"
  by (cases m) simp_all

lemma ensure_simps [simp]: "ensure True e = Inr ()" "ensure False e = Inl e"
  by (simp_all add: ensure_def)

lemma ensure_eq_Inr [result_simps]: "ensure b e = Inr u \<longleftrightarrow> b"
  by (simp add: ensure_def)

lemma is_ok_simps [simp]: "is_ok (Inl e) = False" "is_ok (Inr v) = True"
  by (simp_all add: is_ok_def)

lemma if_err_eq_Inr [result_simps]:
  "(if b then Inl e else m) = Inr v \<longleftrightarrow> \<not> b \<and> m = Inr v"
  by simp

lemma fold_r_append:
  "fold_r f s (xs @ ys) = bind_r (fold_r f s xs) (\<lambda>s'. fold_r f s' ys)"
proof (induction xs arbitrary: s)
  case (Cons x xs)
  then show ?case by (cases "f s x") simp_all
qed simp

lemma fold_r_invariant:
  assumes "fold_r f s xs = Inr t" and "I s"
    and "\<And>s x s'. x \<in> set xs \<Longrightarrow> I s \<Longrightarrow> f s x = Inr s' \<Longrightarrow> I s'"
  shows "I t"
  using assms
proof (induction xs arbitrary: s)
  case (Cons x xs)
  from Cons.prems(1) obtain s' where s': "f s x = Inr s'" "fold_r f s' xs = Inr t"
    by (auto simp: result_simps)
  then have "I s'" using Cons.prems(2,3) by (meson list.set_intros(1))
  from Cons.IH [OF s'(2) this] Cons.prems(3) show ?case by (meson list.set_intros(2))
qed simp

text \<open>Invariants that also mention the elements already processed.\<close>

lemma fold_r_prefix_invariant:
  assumes "fold_r f s xs = Inr t" and "I [] s"
    and "\<And>ys x s s'. I ys s \<Longrightarrow> f s x = Inr s' \<Longrightarrow> x \<in> set xs \<Longrightarrow> I (ys @ [x]) s'"
  shows "I xs t"
proof -
  have "fold_r f s zs = Inr t \<Longrightarrow> set zs \<subseteq> set xs \<Longrightarrow> I ys s \<Longrightarrow> I (ys @ zs) t" for zs ys s t
  proof (induction zs arbitrary: s ys)
    case (Cons z zs)
    from Cons.prems(1) obtain s' where s': "f s z = Inr s'" "fold_r f s' zs = Inr t"
      by (auto simp: result_simps)
    have "I (ys @ [z]) s'"
      using assms(3) [OF Cons.prems(3) s'(1)] Cons.prems(2) by simp
    from Cons.IH [OF s'(2) _ this] Cons.prems(2) show ?case by simp
  qed simp
  from this [OF assms(1) _ assms(2)] show ?thesis by simp
qed

lemma fold_r_upt_invariant:
  assumes "fold_r f s [0..<n] = Inr t" and "I 0 s"
    and "\<And>k s s'. k < n \<Longrightarrow> I k s \<Longrightarrow> f s k = Inr s' \<Longrightarrow> I (Suc k) s'"
  shows "I n t"
proof -
  have "fold_r f s [0..<m] = Inr u \<Longrightarrow> m \<le> n \<Longrightarrow> I m u" for m u
  proof (induction m arbitrary: u)
    case (Suc m)
    from Suc.prems(1) obtain v where v: "fold_r f s [0..<m] = Inr v" "f v m = Inr u"
      by (auto simp: fold_r_append bind_r_eq_Inr)
    from Suc.IH [OF v(1)] assms(3) [OF _ _ v(2)] Suc.prems(2) show ?case by simp
  qed (use assms(2) in simp)
  from this [OF assms(1) order_refl] show ?thesis .
qed

section \<open>Checked and saturating arithmetic\<close>

definition checked_add :: "'a::len word \<Rightarrow> 'a word \<Rightarrow> 'a word option" where
  "checked_add a b = (if unat a + unat b < 2 ^ LENGTH('a) then Some (a + b) else None)"

definition checked_sub :: "'a::len word \<Rightarrow> 'a word \<Rightarrow> 'a word option" where
  "checked_sub a b = (if b \<le> a then Some (a - b) else None)"

definition saturating_add :: "'a::len word \<Rightarrow> 'a word \<Rightarrow> 'a word" where
  "saturating_add a b = (if unat a + unat b < 2 ^ LENGTH('a) then a + b else - 1)"

definition saturating_sub :: "'a::len word \<Rightarrow> 'a word \<Rightarrow> 'a word" where
  "saturating_sub a b = (if b \<le> a then a - b else 0)"

definition saturating_mul :: "'a::len word \<Rightarrow> 'a word \<Rightarrow> 'a word" where
  "saturating_mul a b = (if unat a * unat b < 2 ^ LENGTH('a) then a * b else - 1)"

lemma unat_bound: "unat w < 2 ^ LENGTH('a)" for w :: "'a::len word"
  by (rule unsigned_less)

lemma unat_add_exact: "unat a + unat b < 2 ^ LENGTH('a) \<Longrightarrow> unat (a + b) = unat a + unat b"
  for a b :: "'a::len word"
  by (simp add: unat_word_ariths)

lemma unat_mul_exact: "unat a * unat b < 2 ^ LENGTH('a) \<Longrightarrow> unat (a * b) = unat a * unat b"
  for a b :: "'a::len word"
  by (simp add: unat_word_ariths)

lemma unat_sub_exact: "b \<le> a \<Longrightarrow> unat (a - b) = unat a - unat b"
  for a b :: "'a::len word"
  by (simp add: unat_sub word_le_nat_alt)

lemma unat_max_word [simp]: "unat (- 1 :: 'a::len word) = 2 ^ LENGTH('a) - 1"
  by (simp add: unsigned_minus_1_eq_mask mask_eq_exp_minus_1)

lemma checked_add_Some [checked_simps]:
  "checked_add a b = Some c \<longleftrightarrow> unat a + unat b < 2 ^ LENGTH('a) \<and> c = a + b"
  for a b c :: "'a::len word"
  by (auto simp: checked_add_def)

lemma checked_sub_Some [checked_simps]:
  "checked_sub a b = Some c \<longleftrightarrow> b \<le> a \<and> c = a - b"
  by (auto simp: checked_sub_def)

lemma checked_add_unat: "checked_add a b = Some v \<Longrightarrow> unat v = unat a + unat b"
  by (simp add: checked_add_Some unat_add_exact del: len_num1 len_bit0 len_bit1)

lemma checked_sub_unat: "checked_sub a b = Some v \<Longrightarrow> unat v + unat b = unat a"
  by (auto simp: checked_sub_Some unat_sub_exact word_le_nat_alt)

lemma unat_saturating_sub [checked_simps]: "unat (saturating_sub a b) = unat a - unat b"
  by (auto simp: saturating_sub_def unat_sub_exact word_le_nat_alt)

lemma unat_saturating_add [checked_simps]:
  "unat (saturating_add a b) = min (unat a + unat b) (2 ^ LENGTH('a) - 1)"
  for a b :: "'a::len word"
  by (auto simp: saturating_add_def unat_add_exact)

lemma unat_saturating_mul [checked_simps]:
  "unat (saturating_mul a b) = min (unat a * unat b) (2 ^ LENGTH('a) - 1)"
  for a b :: "'a::len word"
  by (auto simp: saturating_mul_def unat_mul_exact)

section \<open>Bytes\<close>

text \<open>\<^verbatim>\<open>u32::to_le_bytes\<close>, \<^verbatim>\<open>u32::from_le_bytes\<close> and their 64-bit and big-endian counterparts.\<close>

definition to_le32 :: "u32 \<Rightarrow> bytes" where
  "to_le32 x = map (\<lambda>i. ucast (drop_bit (8 * i) x)) [0..<4]"

definition to_le64 :: "u64 \<Rightarrow> bytes" where
  "to_le64 x = map (\<lambda>i. ucast (drop_bit (8 * i) x)) [0..<8]"

definition to_be32 :: "u32 \<Rightarrow> bytes" where
  "to_be32 x = rev (to_le32 x)"

fun from_le :: "bytes \<Rightarrow> 'a::len word" where
  "from_le [] = 0"
| "from_le (b # bs) = ucast b OR push_bit 8 (from_le bs)"

definition from_le32 :: "bytes \<Rightarrow> u32" where
  "from_le32 bs = from_le bs"

lemma length_to_le [simp]:
  "length (to_le32 x) = 4" "length (to_le64 y) = 8" "length (to_be32 x) = 4"
  by (simp_all add: to_le32_def to_le64_def to_be32_def)

lemma bit_from_le:
  "bit (from_le bs :: 'a::len word) n \<longleftrightarrow>
    n < LENGTH('a) \<and> n div 8 < length bs \<and> bit (bs ! (n div 8)) (n mod 8)"
proof (induction bs arbitrary: n)
  case (Cons b bs)
  show ?case
  proof (cases "n < 8")
    case True
    then show ?thesis by (auto simp: bit_or_iff bit_push_bit_iff bit_unsigned_iff)
  next
    case False
    then obtain m where n: "n = m + 8" by (metis add.commute le_add_diff_inverse not_less)
    then have q: "(m + 8) div 8 = Suc (m div 8)" "(m + 8) mod 8 = m mod 8" by simp_all
    have "\<not> bit b n" using False bit_imp_le_length [of b n] by auto
    then show ?thesis
      using Cons.IH [of m] False n
      by (auto simp: q bit_or_iff bit_push_bit_iff bit_unsigned_iff less_diff_conv2
          dest: bit_imp_le_length)
  qed
qed simp

lemma nth_to_le32: "i < 4 \<Longrightarrow> to_le32 x ! i = ucast (drop_bit (8 * i) x)"
  by (simp add: to_le32_def)

lemma nth_to_le64: "i < 8 \<Longrightarrow> to_le64 x ! i = ucast (drop_bit (8 * i) x)"
  by (simp add: to_le64_def)

lemma from_to_le32 [simp]: "from_le32 (to_le32 x) = x"
proof (rule bit_word_eqI)
  fix n assume "n < LENGTH(32)"
  then have "n < 32" "n div 8 < 4" "n mod 8 < 8" by simp_all
  then show "bit (from_le32 (to_le32 x)) n = bit x n"
    by (simp add: from_le32_def bit_from_le nth_to_le32 bit_unsigned_iff bit_drop_bit_eq)
qed

lemma from_to_le64 [simp]: "from_le (to_le64 x) = x"
proof (rule bit_word_eqI)
  fix n assume "n < LENGTH(64)"
  then have "n < 64" "n div 8 < 8" "n mod 8 < 8" by simp_all
  then show "bit (from_le (to_le64 x) :: u64) n = bit x n"
    by (simp add: bit_from_le nth_to_le64 bit_unsigned_iff bit_drop_bit_eq)
qed

lemma to_from_le32:
  assumes "length bs = 4"
  shows "to_le32 (from_le32 bs) = bs"
proof (rule nth_equalityI)
  fix i assume "i < length (to_le32 (from_le32 bs))"
  then have i: "i < 4" by simp
  show "to_le32 (from_le32 bs) ! i = bs ! i"
  proof (rule bit_word_eqI)
    fix n assume "n < LENGTH(8)"
    then have "n < 8" "(8 * i + n) div 8 = i" "(8 * i + n) mod 8 = n" by simp_all
    then show "bit (to_le32 (from_le32 bs) ! i) n = bit (bs ! i) n"
      using i assms
      by (simp add: from_le32_def bit_from_le nth_to_le32 bit_unsigned_iff bit_drop_bit_eq)
  qed
qed (simp add: assms)

lemma to_le64_inj [simp]: "to_le64 x = to_le64 y \<longleftrightarrow> x = y"
  by (metis from_to_le64)

lemma to_le32_inj [simp]: "to_le32 x = to_le32 y \<longleftrightarrow> x = y"
  by (metis from_to_le32)

section \<open>Chunks\<close>

text \<open>\<^verbatim>\<open>slice::chunks(n)\<close>: consecutive blocks of \<open>n\<close>, the last one possibly shorter.\<close>

function chunks :: "nat \<Rightarrow> 'a list \<Rightarrow> 'a list list" where
  "chunks n xs = (if xs = [] \<or> n = 0 then [] else take n xs # chunks n (drop n xs))"
  by pat_completeness auto
termination by (relation "measure (\<lambda>(n, xs). length xs)") auto

declare chunks.simps [simp del]

lemma chunks_Nil [simp]: "chunks n [] = []"
  by (subst chunks.simps) simp

lemma chunks_append: "length xs = n \<Longrightarrow> 0 < n \<Longrightarrow> chunks n (xs @ ys) = xs # chunks n ys"
  by (subst chunks.simps) auto

lemma concat_chunks: "0 < n \<Longrightarrow> concat (chunks n xs) = xs"
proof (induction n xs rule: chunks.induct)
  case (1 n xs)
  then show ?case by (subst chunks.simps) auto
qed

lemma length_chunks_exact: "0 < n \<Longrightarrow> length xs = k * n \<Longrightarrow> length (chunks n xs) = k"
proof (induction k arbitrary: xs)
  case (Suc k)
  then have "xs = take n xs @ drop n xs" "length (take n xs) = n" "length (drop n xs) = k * n"
    by simp_all
  with Suc show ?case using chunks_append [of "take n xs" n "drop n xs"] by simp
qed (subst chunks.simps, simp)

lemma chunks_exact_elem:
  "0 < n \<Longrightarrow> n dvd length xs \<Longrightarrow> c \<in> set (chunks n xs) \<Longrightarrow> length c = n"
proof (induction n xs rule: chunks.induct)
  case (1 n xs)
  show ?case
  proof (cases "xs = []")
    case False
    then have "n \<le> length xs" using 1 by (simp add: dvd_imp_le)
    then show ?thesis using 1 False by (subst (asm) (2) chunks.simps) (auto simp: dvd_minus_self)
  qed (use 1 in simp)
qed

lemma chunks_concat: "0 < n \<Longrightarrow> \<forall>c \<in> set cs. length c = n \<Longrightarrow> chunks n (concat cs) = cs"
  by (induction cs) (simp_all add: chunks_append)

section \<open>Lists\<close>

text \<open>Two lists of blocks of equal widths are equal when their concatenations are.\<close>

lemma concat_eq_concat_widths:
  "map length xs = map length ys \<Longrightarrow> concat xs = concat ys \<Longrightarrow> xs = ys"
  by (induction xs arbitrary: ys) auto

lemma map_inj_on_eq: "map f xs = map f ys \<Longrightarrow> inj_on f (set xs \<union> set ys) \<Longrightarrow> xs = ys"
  by (simp add: inj_on_map_eq_map)

text \<open>The last \<open>n\<close> elements: what a bounded \<^verbatim>\<open>VecDeque\<close> window keeps.\<close>

definition take_last :: "nat \<Rightarrow> 'a list \<Rightarrow> 'a list" where
  "take_last n xs = drop (length xs - n) xs"

lemma take_last_all: "length xs \<le> n \<Longrightarrow> take_last n xs = xs"
  by (simp add: take_last_def)

lemma take_last_subset: "set (take_last n xs) \<subseteq> set xs"
  by (simp add: take_last_def set_drop_subset)

lemma length_take_last: "length (take_last n xs) = min n (length xs)"
  by (auto simp: take_last_def)

lemma take_last_split: "\<exists>ys. xs = ys @ take_last n xs"
  by (metis append_take_drop_id take_last_def)

lemma take_last_snoc:
  assumes "0 < n"
  shows "take_last n (xs @ [x]) =
    (if length (take_last n xs) = n then tl (take_last n xs) @ [x] else take_last n xs @ [x])"
proof (cases "n \<le> length xs")
  case True
  have "tl (drop (length xs - n) xs) = drop (Suc (length xs) - n) xs"
    using True by (simp add: Suc_diff_le drop_Suc tl_drop)
  then show ?thesis using True assms by (simp add: take_last_def)
qed (use assms in \<open>auto simp: take_last_def not_le Suc_diff_le\<close>)

end
