(* ===== verification/Poseidon.thy ===== *)
theory Poseidon
  imports Prelude
begin

text \<open>
  The hash layer of the engine (\<^verbatim>\<open>engine/src/poseidon.rs\<close>): field elements, digests, the two-to-one
  compression, the domain-separated sponge and the two wire forms of a digest.

  The field is BabyBear, an external crate: an element is modelled by its canonical
  representative, a natural number below the modulus \<open>babybear_p\<close>, and \<^verbatim>\<open>F::from_u32\<close>,
  \<^verbatim>\<open>F::from_u64\<close> reduce modulo it. The Poseidon2 permutation is the external crate's as well: it
  is the parameter \<open>perm\<close> of every hash. Nothing is assumed of it; statements that depend on
  collision resistance name the inputs among which a collision would have to exist.
\<close>

section \<open>Field elements and digests\<close>

type_synonym F = nat
type_synonym digest = "F list"
type_synonym perm = "F list \<Rightarrow> F list"

definition babybear_p :: nat where
  "babybear_p = 2013265921"

definition f_of_u32 :: "u32 \<Rightarrow> F" where
  "f_of_u32 x = unat x mod babybear_p"

definition f_of_u64 :: "u64 \<Rightarrow> F" where
  "f_of_u64 x = unat x mod babybear_p"

definition f_add :: "F \<Rightarrow> F \<Rightarrow> F" where
  "f_add a b = (a + b) mod babybear_p"

definition as_canonical_u32 :: "F \<Rightarrow> u32" where
  "as_canonical_u32 x = of_nat x"

definition width :: nat where "width = 16"
definition rate :: nat where "rate = 8"
definition digest_elems :: nat where "digest_elems = 8"

text \<open>The arrays \<^verbatim>\<open>[F; 8]\<close>, \<^verbatim>\<open>[u32; 8]\<close> and \<^verbatim>\<open>[u8; 32]\<close> carry their length in the Rust type.\<close>

definition wf_digest :: "digest \<Rightarrow> bool" where
  "wf_digest d \<longleftrightarrow> length d = digest_elems \<and> (\<forall>x \<in> set d. x < babybear_p)"

definition domain_owner :: u32 where "domain_owner = 0x0A01"
definition domain_nullifier :: u32 where "domain_nullifier = 0x0A02"
definition domain_commitment :: u32 where "domain_commitment = 0x0A13"
definition domain_frontier :: u32 where "domain_frontier = 0x0A04"

section \<open>Compression and sponge\<close>

definition compress :: "perm \<Rightarrow> digest \<Rightarrow> digest \<Rightarrow> digest" where
  "compress perm l r = take digest_elems (perm (l @ r))"

definition sponge_init :: "u32 \<Rightarrow> nat \<Rightarrow> F list" where
  "sponge_init tag len =
     (replicate width 0) [rate := f_of_u32 tag, width - 1 := len mod babybear_p]"

definition absorb :: "F list \<Rightarrow> F list \<Rightarrow> F list" where
  "absorb state chunk =
     map2 f_add (take (length chunk) state) chunk @ drop (length chunk) state"

definition hash_domain :: "perm \<Rightarrow> u32 \<Rightarrow> F list \<Rightarrow> digest" where
  "hash_domain perm tag input =
     take digest_elems
       (fold (\<lambda>chunk state. perm (absorb state chunk)) (chunks rate input)
         (sponge_init tag (length input)))"

section \<open>Wire forms\<close>

definition digest_to_bytes :: "digest \<Rightarrow> bytes" where
  "digest_to_bytes d = concat (map (\<lambda>limb. to_le32 (as_canonical_u32 limb)) d)"

definition digest_to_limbs :: "digest \<Rightarrow> u32 list" where
  "digest_to_limbs d = map as_canonical_u32 d"

definition parse_limb :: "bytes \<Rightarrow> F option" where
  "parse_limb chunk =
     (let v = from_le32 chunk in if unat v \<ge> babybear_p then None else Some (f_of_u32 v))"

definition digest_from_bytes :: "bytes \<Rightarrow> digest option" where
  "digest_from_bytes bs = those (map parse_limb (chunks 4 bs))"

definition limbs_to_digest :: "u32 list \<Rightarrow> digest" where
  "limbs_to_digest l = map f_of_u32 l"

text \<open>A 32-byte id as eight little-endian limbs, each reduced into the field: the packing that
  \<^verbatim>\<open>id_field\<close>, \<^verbatim>\<open>pegin_used_key\<close> and \<^verbatim>\<open>push_id_bytes\<close> share.\<close>

definition id_limbs :: "bytes \<Rightarrow> F list" where
  "id_limbs bs = map (\<lambda>c. f_of_u32 (from_le32 c)) (chunks 4 bs)"

definition hash_id_domain :: "perm \<Rightarrow> u32 \<Rightarrow> u64 \<Rightarrow> digest \<Rightarrow> bytes" where
  "hash_id_domain perm tag n limbs =
     digest_to_bytes (hash_domain perm tag
       (f_of_u64 (n AND 0xFFFFFFFF) # f_of_u64 (drop_bit 32 n) # limbs))"

section \<open>Facts\<close>

named_theorems field_simps_bb \<open>field elements and limbs\<close>

lemma babybear_p_bounds [simp]: "0 < babybear_p" "babybear_p < 2 ^ 32" "babybear_p < 2 ^ 31"
  by (simp_all add: babybear_p_def)

lemma f_of_u32_lt [simp]: "f_of_u32 x < babybear_p"
  by (simp add: f_of_u32_def)

lemma f_of_u64_lt [simp]: "f_of_u64 x < babybear_p"
  by (simp add: f_of_u64_def)

lemma unat_as_canonical [field_simps_bb]: "x < babybear_p \<Longrightarrow> unat (as_canonical_u32 x) = x"
  by (simp add: as_canonical_u32_def unat_of_nat take_bit_nat_eq_self babybear_p_def)

lemma f_of_u32_canonical [field_simps_bb]: "x < babybear_p \<Longrightarrow> f_of_u32 (as_canonical_u32 x) = x"
  by (simp add: f_of_u32_def unat_as_canonical)

lemma as_canonical_inj: "x < babybear_p \<Longrightarrow> y < babybear_p \<Longrightarrow>
    as_canonical_u32 x = as_canonical_u32 y \<longleftrightarrow> x = y"
  by (metis unat_as_canonical)

lemma as_canonical_f_of_u32 [field_simps_bb]:
  "unat v < babybear_p \<Longrightarrow> as_canonical_u32 (f_of_u32 v) = v"
  by (simp add: as_canonical_u32_def f_of_u32_def)

lemma wf_digestD: "wf_digest d \<Longrightarrow> length d = 8" "wf_digest d \<Longrightarrow> x \<in> set d \<Longrightarrow> x < babybear_p"
  by (auto simp: wf_digest_def digest_elems_def)

lemma wf_limbs_to_digest [simp]: "wf_digest (limbs_to_digest l) \<longleftrightarrow> length l = 8"
  by (auto simp: wf_digest_def limbs_to_digest_def digest_elems_def)

lemma length_digest_to_limbs [simp]: "length (digest_to_limbs d) = length d"
  by (simp add: digest_to_limbs_def)

lemma limbs_to_digest_to_limbs [simp]:
  "wf_digest d \<Longrightarrow> limbs_to_digest (digest_to_limbs d) = d"
  by (auto simp: limbs_to_digest_def digest_to_limbs_def f_of_u32_canonical wf_digestD
      intro!: map_idI)

lemma digest_to_limbs_inj:
  "wf_digest a \<Longrightarrow> wf_digest b \<Longrightarrow> digest_to_limbs a = digest_to_limbs b \<longleftrightarrow> a = b"
  by (metis limbs_to_digest_to_limbs)

lemma length_digest_to_bytes [simp]: "length (digest_to_bytes d) = 4 * length d"
  by (induction d) (simp_all add: digest_to_bytes_def)

lemma chunks_digest_to_bytes:
  "chunks 4 (digest_to_bytes d) = map (\<lambda>limb. to_le32 (as_canonical_u32 limb)) d"
  by (simp add: digest_to_bytes_def chunks_concat)

lemma those_map_Some: "those (map f xs) = Some ys \<longleftrightarrow>
    length ys = length xs \<and> (\<forall>i < length xs. f (xs ! i) = Some (ys ! i))"
proof (induction xs arbitrary: ys)
  case (Cons x xs)
  show ?case
    by (cases ys) (auto simp: Cons.IH less_Suc_eq_0_disj split: option.splits)
qed auto

lemma parse_limb_to_le32 [simp]:
  "x < babybear_p \<Longrightarrow> parse_limb (to_le32 (as_canonical_u32 x)) = Some x"
  by (simp add: parse_limb_def field_simps_bb)

lemma parse_limb_SomeD:
  assumes "parse_limb c = Some x" and "length c = 4"
  shows "x < babybear_p" and "to_le32 (as_canonical_u32 x) = c"
  using assms
  by (auto simp: parse_limb_def Let_def as_canonical_f_of_u32 to_from_le32 split: if_splits)

lemma digest_bytes_roundtrip_aux: "wf_digest d \<Longrightarrow> digest_from_bytes (digest_to_bytes d) = Some d"
  by (auto simp: digest_from_bytes_def chunks_digest_to_bytes those_map_Some wf_digest_def)

lemma digest_from_bytes_SomeD:
  assumes "digest_from_bytes bs = Some d" and "length bs = 32"
  shows "wf_digest d" and "digest_to_bytes d = bs"
proof -
  let ?cs = "chunks 4 bs"
  have len: "length ?cs = 8" using assms(2) length_chunks_exact [of 4 bs 8] by simp
  have four: "length c = 4" if "c \<in> set ?cs" for c
    using chunks_exact_elem [of 4 bs c] assms(2) that by simp
  from assms(1) len have d: "length d = 8" "\<And>i. i < 8 \<Longrightarrow> parse_limb (?cs ! i) = Some (d ! i)"
    by (simp_all add: digest_from_bytes_def those_map_Some)
  show "wf_digest d"
    unfolding wf_digest_def digest_elems_def
    using d len four parse_limb_SomeD(1) by (metis in_set_conv_nth nth_mem)
  have "to_le32 (as_canonical_u32 (d ! i)) = ?cs ! i" if "i < 8" for i
    using parse_limb_SomeD(2) [OF d(2) [OF that]] four [of "?cs ! i"] len that by simp
  then have "map (\<lambda>limb. to_le32 (as_canonical_u32 limb)) d = ?cs"
    by (intro list_eq_iff_nth_eq [THEN iffD2]) (simp add: d(1) len)
  then show "digest_to_bytes d = bs"
    by (simp add: digest_to_bytes_def concat_chunks)
qed

lemma digest_to_bytes_inj:
  "wf_digest a \<Longrightarrow> wf_digest b \<Longrightarrow> digest_to_bytes a = digest_to_bytes b \<longleftrightarrow> a = b"
  by (metis digest_bytes_roundtrip_aux option.inject)

text \<open>\<open>perm_ok\<close>: a permutation of width 16 maps 16 canonical elements to 16 canonical elements.\<close>

definition perm_ok :: "perm \<Rightarrow> bool" where
  "perm_ok perm \<longleftrightarrow> (\<forall>s. length s = width \<longrightarrow> (\<forall>x \<in> set s. x < babybear_p) \<longrightarrow>
     length (perm s) = width \<and> (\<forall>x \<in> set (perm s). x < babybear_p))"

lemma wf_compress: "perm_ok perm \<Longrightarrow> wf_digest l \<Longrightarrow> wf_digest r \<Longrightarrow> wf_digest (compress perm l r)"
proof -
  assume "perm_ok perm" "wf_digest l" "wf_digest r"
  then have "length (l @ r) = width \<and> (\<forall>x \<in> set (l @ r). x < babybear_p)"
    by (auto simp: wf_digest_def width_def digest_elems_def)
  with \<open>perm_ok perm\<close>
  have "length (perm (l @ r)) = 16 \<and> (\<forall>x \<in> set (perm (l @ r)). x < babybear_p)"
    unfolding perm_ok_def width_def by blast
  then show "wf_digest (compress perm l r)"
    by (auto simp: wf_digest_def compress_def digest_elems_def dest: in_set_takeD)
qed


definition wf_state :: "F list \<Rightarrow> bool" where
  "wf_state s \<longleftrightarrow> length s = width \<and> (\<forall>x \<in> set s. x < babybear_p)"

lemma wf_sponge_init: "wf_state (sponge_init tag n)"
proof -
  have upd: "\<forall>x \<in> set (xs[i := v]). x < babybear_p" if "\<forall>x \<in> set xs. x < babybear_p" "v < babybear_p"
    for xs :: "nat list" and i v
    using that set_update_subset_insert [of xs i v] by auto
  show ?thesis
    unfolding wf_state_def sponge_init_def by (intro conjI upd) simp_all
qed

lemma wf_absorb: "wf_state s \<Longrightarrow> length c \<le> width \<Longrightarrow> wf_state (absorb s c)"
  by (auto simp: wf_state_def absorb_def f_add_def dest: in_set_dropD set_zip_rightD)

lemma chunks_elem_length: "c \<in> set (chunks n xs) \<Longrightarrow> length c \<le> n"
proof (induction n xs rule: chunks.induct)
  case (1 n xs)
  then show ?case by (subst (asm) (2) chunks.simps) (auto split: if_splits)
qed

lemma wf_hash_domain:
  assumes "perm_ok perm"
  shows "wf_digest (hash_domain perm tag input)"
proof -
  have perm: "wf_state (perm s)" if "wf_state s" for s
    using assms that by (auto simp: perm_ok_def wf_state_def)
  have "wf_state (fold (\<lambda>chunk state. perm (absorb state chunk)) cs s)"
    if "wf_state s" "\<forall>c \<in> set cs. length c \<le> width" for cs s
    using that by (induction cs arbitrary: s) (simp_all add: perm wf_absorb)
  from this [OF wf_sponge_init, of "chunks rate input"] chunks_elem_length [of _ rate input]
  have "wf_state (fold (\<lambda>chunk state. perm (absorb state chunk)) (chunks rate input)
      (sponge_init tag (length input)))"
    by (force simp: rate_def width_def)
  then show ?thesis
    by (auto simp: wf_digest_def hash_domain_def wf_state_def digest_elems_def width_def dest: in_set_takeD)
qed

text \<open>
  Binding statements name the collision they would need: two different inputs with the same
  digest among two given collections of inputs that the two parties really hash.
\<close>

definition sponge_collides :: "perm \<Rightarrow> (u32 \<times> F list) list \<Rightarrow> (u32 \<times> F list) list \<Rightarrow> bool" where
  "sponge_collides perm xs ys \<longleftrightarrow>
     (\<exists>(tag, x) \<in> set xs. \<exists>(tag', y) \<in> set ys.
        tag = tag' \<and> x \<noteq> y \<and> hash_domain perm tag x = hash_domain perm tag y)"

definition compress_collides :: "perm \<Rightarrow> (digest \<times> digest) set \<Rightarrow> (digest \<times> digest) set \<Rightarrow> bool" where
  "compress_collides perm xs ys \<longleftrightarrow>
     (\<exists>x \<in> xs. \<exists>y \<in> ys. x \<noteq> y \<and> compress perm (fst x) (snd x) = compress perm (fst y) (snd y))"

lemma hash_domain_eqD:
  "hash_domain perm tag x = hash_domain perm tag y \<Longrightarrow> (tag, x) \<in> set xs \<Longrightarrow> (tag, y) \<in> set ys \<Longrightarrow>
    x = y \<or> sponge_collides perm xs ys"
  unfolding sponge_collides_def by fastforce

lemma compress_eqD:
  "compress perm l r = compress perm l' r' \<Longrightarrow> (l, r) \<in> xs \<Longrightarrow> (l', r') \<in> ys \<Longrightarrow>
    (l = l' \<and> r = r') \<or> compress_collides perm xs ys"
  unfolding compress_collides_def by fastforce

lemma compress_collides_mono:
  "compress_collides perm xs ys \<Longrightarrow> xs \<subseteq> xs' \<Longrightarrow> ys \<subseteq> ys' \<Longrightarrow> compress_collides perm xs' ys'"
  unfolding compress_collides_def by blast

end
