(* ===== verification/Notes.thy ===== *)
theory Notes
  imports Poseidon
begin

text \<open>
  Note derivations of the engine: value limbs, owner keys and note commitments
  (\<^verbatim>\<open>engine/src/commit.rs\<close>), nullifiers (\<^verbatim>\<open>engine/src/nullifier.rs\<close>), the burn note of a peg-out
  (\<^verbatim>\<open>engine/src/burn.rs\<close>) and the deterministic mint notes, in the engine's copy
  (\<^verbatim>\<open>engine/src/mint.rs\<close>) and in the node's (\<^verbatim>\<open>aegis-node/src/hn/mint.rs\<close>).
  The last part shows the value encoding to be a bijection and the burn preimage to be injective.
\<close>

section \<open>Value limbs, owner keys, commitments\<close>

definition limb_bits :: nat where "limb_bits = 16"
definition n_limbs :: nat where "n_limbs = 4"
definition limb_bound :: u64 where "limb_bound = push_bit limb_bits 1"

definition value_limbs :: "u64 \<Rightarrow> F list" where
  "value_limbs v =
     map (\<lambda>j. f_of_u64 (drop_bit (limb_bits * j) v AND (limb_bound - 1))) [0..<n_limbs]"

text \<open>\<open>None\<close> is the panic of the assertion on a non-canonical limb.\<close>

fun limbs_to_u64_from :: "nat \<Rightarrow> u64 \<Rightarrow> F list \<Rightarrow> u64 option" where
  "limbs_to_u64_from j acc [] = Some acc"
| "limbs_to_u64_from j acc (limb # limbs) =
     (let v = ucast (as_canonical_u32 limb) :: u64 in
      if v < limb_bound then limbs_to_u64_from (Suc j) (acc OR push_bit (limb_bits * j) v) limbs
      else None)"

definition limbs_to_u64 :: "F list \<Rightarrow> u64 option" where
  "limbs_to_u64 limbs = limbs_to_u64_from 0 0 limbs"

definition owner_key :: "perm \<Rightarrow> digest \<Rightarrow> digest" where
  "owner_key perm nk = hash_domain perm domain_owner nk"

definition commitment_blocks :: "u64 \<Rightarrow> digest \<Rightarrow> digest \<Rightarrow> digest \<Rightarrow> F list list" where
  "commitment_blocks v owner rho r =
     [value_limbs v @ replicate (digest_elems - n_limbs) 0, owner, rho, r]"

definition note_commitment :: "perm \<Rightarrow> u64 \<Rightarrow> digest \<Rightarrow> digest \<Rightarrow> digest \<Rightarrow> digest" where
  "note_commitment perm v owner rho r =
     hash_domain perm domain_commitment (concat (commitment_blocks v owner rho r))"

section \<open>Nullifiers\<close>

definition nullifier_blocks :: "digest \<Rightarrow> digest \<Rightarrow> F list list" where
  "nullifier_blocks nk rho = [nk, rho]"

definition nullifier :: "perm \<Rightarrow> digest \<Rightarrow> digest \<Rightarrow> digest" where
  "nullifier perm nk rho = hash_domain perm domain_nullifier (concat (nullifier_blocks nk rho))"

section \<open>The burn note of a peg-out\<close>

definition domain_burn_owner :: u32 where "domain_burn_owner = 0x0BDE"
definition domain_burn_rho :: u32 where "domain_burn_rho = 0x0BD1"
definition domain_burn_r :: u32 where "domain_burn_r = 0x0BD2"
definition domain_burn_bind :: u32 where "domain_burn_bind = 0x0BD3"

definition f_of_byte :: "u8 \<Rightarrow> F" where
  "f_of_byte b = f_of_u32 (ucast b)"

text \<open>The ASCII codes of \<^verbatim>\<open>b"aegis-hn-burn-v1"\<close>.\<close>

definition burn_owner_tag :: bytes where
  "burn_owner_tag =
     [0x61, 0x65, 0x67, 0x69, 0x73, 0x2d, 0x68, 0x6e, 0x2d, 0x62, 0x75, 0x72, 0x6e, 0x2d, 0x76, 0x31]"

definition burn_owner :: "perm \<Rightarrow> digest" where
  "burn_owner perm = hash_domain perm domain_burn_owner (map f_of_byte burn_owner_tag)"

definition burn_preimage :: "bytes \<Rightarrow> u64 \<Rightarrow> F list" where
  "burn_preimage recipient_prop amount = map f_of_byte recipient_prop @ value_limbs amount"

definition burn_binding :: "perm \<Rightarrow> bytes \<Rightarrow> u64 \<Rightarrow> digest" where
  "burn_binding perm recipient_prop amount =
     hash_domain perm domain_burn_bind (burn_preimage recipient_prop amount)"

definition burn_nonces :: "perm \<Rightarrow> digest \<Rightarrow> bytes \<Rightarrow> u64 \<Rightarrow> digest \<times> digest" where
  "burn_nonces perm nf0 recipient_prop amount =
     (let bind = burn_binding perm recipient_prop amount;
          input = nf0 @ bind
      in (hash_domain perm domain_burn_rho input, hash_domain perm domain_burn_r input))"

definition burn_cm_expected :: "perm \<Rightarrow> u64 \<Rightarrow> digest \<Rightarrow> bytes \<Rightarrow> u64 \<Rightarrow> digest" where
  "burn_cm_expected perm burn_value nf0 recipient_prop amount =
     (let (rho, r) = burn_nonces perm nf0 recipient_prop amount
      in note_commitment perm burn_value (burn_owner perm) rho r)"

section \<open>Mint notes: the engine's copy\<close>

definition domain_mint_rho :: u32 where "domain_mint_rho = 0x0B01"
definition domain_mint_r :: u32 where "domain_mint_r = 0x0B02"
definition purpose_coinbase :: u32 where "purpose_coinbase = 1"
definition purpose_pegin :: u32 where "purpose_pegin = 2"

definition id_field :: "bytes \<Rightarrow> u32 \<Rightarrow> F list" where
  "id_field ident purpose = id_limbs ident @ [f_of_u32 purpose]"

definition mint_nonces :: "perm \<Rightarrow> bytes \<Rightarrow> u32 \<Rightarrow> digest \<times> digest" where
  "mint_nonces perm ident purpose =
     (let f = id_field ident purpose
      in (hash_domain perm domain_mint_rho f, hash_domain perm domain_mint_r f))"

definition coinbase_cm_expected :: "perm \<Rightarrow> digest \<Rightarrow> u64 \<Rightarrow> bytes \<Rightarrow> digest" where
  "coinbase_cm_expected perm owner amount block_id =
     (let (rho, r) = mint_nonces perm block_id purpose_coinbase
      in note_commitment perm amount owner rho r)"

definition pegmint_cm_expected :: "perm \<Rightarrow> digest \<Rightarrow> u64 \<Rightarrow> bytes \<Rightarrow> digest" where
  "pegmint_cm_expected perm owner amount box_id =
     (let (rho, r) = mint_nonces perm box_id purpose_pegin
      in note_commitment perm amount owner rho r)"

section \<open>Mint notes: the node's copy\<close>

definition hn_id_field :: "bytes \<Rightarrow> u32 \<Rightarrow> F list" where
  "hn_id_field ident purpose =
     map (\<lambda>c. f_of_u32 (from_le32 c)) (chunks 4 ident) @ [f_of_u32 purpose]"

definition hn_mint_nonces :: "perm \<Rightarrow> bytes \<Rightarrow> u32 \<Rightarrow> digest \<times> digest" where
  "hn_mint_nonces perm ident purpose =
     (let f = hn_id_field ident purpose
      in (hash_domain perm domain_mint_rho f, hash_domain perm domain_mint_r f))"

definition hn_coinbase_cm_expected :: "perm \<Rightarrow> digest \<Rightarrow> u64 \<Rightarrow> bytes \<Rightarrow> digest" where
  "hn_coinbase_cm_expected perm owner amount block_id =
     (let (rho, r) = hn_mint_nonces perm block_id purpose_coinbase
      in note_commitment perm amount owner rho r)"

definition hn_pegmint_cm_expected :: "perm \<Rightarrow> digest \<Rightarrow> u64 \<Rightarrow> bytes \<Rightarrow> digest" where
  "hn_pegmint_cm_expected perm owner amount box_id =
     (let (rho, r) = hn_mint_nonces perm box_id purpose_pegin
      in note_commitment perm amount owner rho r)"

text \<open>The two copies derive the same commitments (the lockstep the module documents).\<close>

lemma mint_parity:
  "hn_coinbase_cm_expected = coinbase_cm_expected"
  "hn_pegmint_cm_expected = pegmint_cm_expected"
  by (simp_all add: fun_eq_iff hn_coinbase_cm_expected_def coinbase_cm_expected_def
      hn_pegmint_cm_expected_def pegmint_cm_expected_def hn_mint_nonces_def mint_nonces_def
      hn_id_field_def id_field_def id_limbs_def)

section \<open>The value encoding is a bijection\<close>

lemma limb_bound_unat [simp]: "unat limb_bound = 65536" "limb_bound - 1 = mask 16"
  by (simp_all add: limb_bound_def limb_bits_def push_bit_eq_mult mask_eq_exp_minus_1)

lemma length_value_limbs [simp]: "length (value_limbs v) = 4"
  by (simp add: value_limbs_def n_limbs_def)

lemma unat_and_mask: "unat (w AND mask 16 :: u64) = take_bit 16 (unat w)"
  by (simp only: unsigned_take_bit_eq flip: take_bit_eq_mask)

lemma unat_and_mask16: "unat (w AND mask 16 :: u64) < 65536"
  using take_bit_nat_less_exp [of 16 "unat w"] by (simp only: unat_and_mask) simp

lemma small_limb:
  assumes "unat w < 65536"
  shows "f_of_u64 w = unat w" and "ucast (as_canonical_u32 (unat w)) = (w :: u64)"
proof -
  show "f_of_u64 w = unat w" using assms by (simp add: f_of_u64_def babybear_p_def)
  have "unat (as_canonical_u32 (unat w)) = unat w"
    using assms by (simp add: unat_as_canonical babybear_p_def)
  then have "unat (ucast (as_canonical_u32 (unat w)) :: u64) = unat w"
    using assms by (simp add: unsigned_ucast_eq take_bit_nat_eq_self)
  then show "ucast (as_canonical_u32 (unat w)) = w"
    by (simp add: word_unat_eq_iff)
qed

lemma value_limbs_unfold:
  "value_limbs v = map (\<lambda>j. unat (drop_bit (16 * j) v AND mask 16)) [0..<4]"
  by (simp add: value_limbs_def limb_bits_def n_limbs_def small_limb(1) [OF unat_and_mask16])


lemma and_mask16_fix: "unat v < 65536 \<Longrightarrow> v AND mask 16 = (v :: u64)"
  by (simp only: word_unat_eq_iff unat_and_mask) (simp add: take_bit_nat_eq_self)

lemma limbs_to_u64_unfold:
  "limbs_to_u64 [a, b, c, d] =
    (let w = (\<lambda>x. ucast (as_canonical_u32 x) :: u64) in
     if w a < limb_bound \<and> w b < limb_bound \<and> w c < limb_bound \<and> w d < limb_bound
     then Some (w a OR push_bit 16 (w b) OR push_bit 32 (w c) OR push_bit 48 (w d)) else None)"
  by (simp add: limbs_to_u64_def Let_def limb_bits_def or.assoc)

lemma bit_limb_split:
  "bit (v AND mask 16 OR push_bit 16 (drop_bit 16 v AND mask 16)
     OR push_bit 32 (drop_bit 32 v AND mask 16) OR push_bit 48 (drop_bit 48 v AND mask 16)) n
   \<longleftrightarrow> bit (v :: u64) n"
proof -
  have len: "bit v n \<Longrightarrow> n < 64" using bit_imp_le_length [of v n] by simp
  consider "n < 16" | "16 \<le> n" "n < 32" | "32 \<le> n" "n < 48" | "48 \<le> n" by linarith
  then show ?thesis
    by cases (use len in \<open>auto simp: bit_or_iff bit_and_iff bit_mask_iff bit_push_bit_iff
        bit_drop_bit_eq\<close>)
qed

lemma limbs_roundtrip: "limbs_to_u64 (value_limbs v) = Some v"
proof -
  let ?l = "\<lambda>j. drop_bit (16 * j) v AND mask 16"
  have small: "ucast (as_canonical_u32 (unat (?l j))) = ?l j" "?l j < limb_bound" for j
    using small_limb(2) [OF unat_and_mask16] unat_and_mask16 [of "drop_bit (16 * j) v"]
    by (simp_all add: word_less_nat_alt del: limb_bound_unat(2))
  have "value_limbs v = [unat (?l 0), unat (?l 1), unat (?l 2), unat (?l 3)]"
    by (simp add: value_limbs_unfold upt_conv_Cons)
  then have "limbs_to_u64 (value_limbs v) =
      Some (?l 0 OR push_bit 16 (?l 1) OR push_bit 32 (?l 2) OR push_bit 48 (?l 3))"
    by (simp only: limbs_to_u64_unfold Let_def small if_True simp_thms)
  moreover have "?l 0 OR push_bit 16 (?l 1) OR push_bit 32 (?l 2) OR push_bit 48 (?l 3) = v"
    by (rule bit_eqI) (use bit_limb_split [of v] in simp)
  ultimately show ?thesis by simp
qed

lemma small_bit: "unat (w :: u64) < 65536 \<Longrightarrow> bit w n \<Longrightarrow> n < 16"
  using and_mask16_fix [of w] by (metis bit_and_iff bit_mask_iff)

lemma join_limb_bits:
  assumes "unat a < 65536" "unat b < 65536" "unat c < 65536" "unat (d :: u64) < 65536"
  defines "v \<equiv> a OR push_bit 16 b OR push_bit 32 c OR push_bit 48 d"
  shows "drop_bit 0 v AND mask 16 = a" "drop_bit 16 v AND mask 16 = b"
    "drop_bit 32 v AND mask 16 = c" "drop_bit 48 v AND mask 16 = d"
  unfolding v_def
  by (rule bit_word_eqI; use small_bit [OF assms(1)] small_bit [OF assms(2)] small_bit [OF assms(3)]
      small_bit [OF assms(4)] in
      \<open>fastforce simp: bit_or_iff bit_and_iff bit_mask_iff bit_push_bit_iff bit_drop_bit_eq\<close>)+

lemma limbs_to_u64_canonical:
  assumes "length l = 4" and "\<forall>x \<in> set l. x < babybear_p" and "limbs_to_u64 l = Some v"
  shows "value_limbs v = l"
proof -
  from assms(1) obtain a b c d where l: "l = [a, b, c, d]"
    by (auto simp: length_Suc_conv numeral_eq_Suc)
  let ?w = "\<lambda>x. ucast (as_canonical_u32 x) :: u64"
  have w: "unat (?w x) = x" if "x \<in> set l" for x
  proof -
    have x: "x < babybear_p" using assms(2) that by blast
    then have "x < 2 ^ 64" by (simp add: babybear_p_def)
    with x show ?thesis by (simp add: unsigned_ucast_eq unat_as_canonical take_bit_nat_eq_self)
  qed
  from assms(3) have lt: "?w x < limb_bound" if "x \<in> set l" for x
    using that unfolding l limbs_to_u64_unfold by (auto simp: Let_def split: if_splits)
  from assms(3) have v: "v = ?w a OR push_bit 16 (?w b) OR push_bit 32 (?w c) OR push_bit 48 (?w d)"
    unfolding l limbs_to_u64_unfold by (simp add: Let_def split: if_splits)
  have "unat (?w x) < 65536" if "x \<in> set l" for x
    using lt [OF that] by (simp add: word_less_nat_alt)
  then have j: "drop_bit 0 v AND mask 16 = ?w a" "drop_bit 16 v AND mask 16 = ?w b"
    "drop_bit 32 v AND mask 16 = ?w c" "drop_bit 48 v AND mask 16 = ?w d"
    unfolding v by (intro join_limb_bits; simp add: l)+
  have "value_limbs v = map unat [drop_bit 0 v AND mask 16, drop_bit 16 v AND mask 16,
      drop_bit 32 v AND mask 16, drop_bit 48 v AND mask 16]"
    by (simp add: value_limbs_unfold upt_conv_Cons)
  also have "\<dots> = l" unfolding j using w by (simp add: l)
  finally show ?thesis .
qed

lemma value_limbs_inj [simp]: "value_limbs v = value_limbs w \<longleftrightarrow> v = w"
  by (metis limbs_roundtrip option.inject)

lemma f_of_byte_inj [simp]: "f_of_byte a = f_of_byte b \<longleftrightarrow> a = b"
proof -
  have "unat (ucast b :: u32) = unat b" "unat b < 256" for b :: u8
    using unat_bound [of b] by (simp_all add: unsigned_ucast_eq take_bit_nat_eq_self)
  then have "f_of_byte b = unat b" for b
    using order_less_trans [of "unat b" 256 babybear_p]
    by (simp add: f_of_byte_def f_of_u32_def babybear_p_def)
  then show ?thesis by (simp add: word_unat_eq_iff)
qed

text \<open>
  The value encoding of the engine is a bijection between 64-bit amounts and lists of four
  canonical 16-bit limbs: the encoding of a value parses back to it, and a list of four field
  elements parses only if every limb is below \<open>2^16\<close>, and then only to the amount it encodes.
  No amount has a second limb form.
\<close>

theorem value_limbs_bijective:
  "limbs_to_u64 (value_limbs v) = Some v \<and>
   (length l = 4 \<longrightarrow> (\<forall>x \<in> set l. x < babybear_p) \<longrightarrow>
     (limbs_to_u64 l = Some v \<longleftrightarrow> l = value_limbs v))"
  using limbs_roundtrip limbs_to_u64_canonical by blast

theorem value_limbs_bijective_witness:
  "limbs_to_u64 [1, 2, 0, 0] = Some 0x20001 \<longleftrightarrow> [1, 2, 0, 0] = value_limbs 0x20001"
  using value_limbs_bijective [of "0x20001" "[1, 2, 0, 0]"] by (simp add: babybear_p_def)

text \<open>
  The preimage of the burn binding determines the withdrawal: two (recipient, amount) pairs
  with the same preimage are equal, whatever the lengths of the recipient scripts. A settler that
  swaps the recipient changes the hashed input.
\<close>

theorem burn_preimage_injective:
  "burn_preimage recipient amount = burn_preimage recipient' amount'
     \<longleftrightarrow> recipient = recipient' \<and> amount = amount'"
proof -
  have "map f_of_byte p = map f_of_byte q \<longleftrightarrow> p = q" for p q
    by (metis f_of_byte_inj inj_map_eq_map injI)
  moreover have "length p = length q" if "map f_of_byte p @ value_limbs a = map f_of_byte q @ value_limbs b"
    for p q a b
    using that by (metis add_right_cancel length_append length_map length_value_limbs)
  ultimately show ?thesis
    by (auto simp: burn_preimage_def)
qed

end
