(* ===== verification/HeaderId.thy ===== *)
theory HeaderId
  imports Notes
begin

text \<open>
  The suffix types the settlement guest sees (\<^verbatim>\<open>engine/src/epoch/types.rs\<close>), the circuit sponge and
  the recipient commitment (\<^verbatim>\<open>engine/src/settlement_digest.rs\<close>), and the header id with its body
  commitment (\<^verbatim>\<open>engine/src/epoch/header_id.rs\<close>), which the aux-PoW commits and the seam chains.

  The lemmas show what the two preimages determine. Every 64-bit field is packed in 16-bit limbs,
  so it is determined; a 32-byte id is packed in 32-bit limbs reduced into the field, so it is
  determined only among ids whose limbs are below the modulus (\<open>canonical_id\<close>).
\<close>

section \<open>Consensus constants of the guest\<close>

definition flat_fee_const :: u64 where "flat_fee_const = 3"
definition coinbase_base_const :: u64 where "coinbase_base_const = 1"
definition coinbase_per_tx_const :: u64 where "coinbase_per_tx_const = 1"
definition peg_fee_percent_const :: u64 where "peg_fee_percent_const = 1"
definition pegout_delay_const :: u64 where "pegout_delay_const = 10"
definition root_window_const :: nat where "root_window_const = 100"
definition daa_window_const :: nat where "daa_window_const = 90"
definition seam_len :: nat where
  "seam_len = (if root_window_const > daa_window_const + 1 then root_window_const else daa_window_const + 1)"
definition genesis_header_id :: bytes where "genesis_header_id = replicate 32 0"

definition guest_peg_fee :: "u64 \<Rightarrow> u64" where
  "guest_peg_fee amount = max (saturating_mul amount peg_fee_percent_const div 100) 1"

definition guest_coinbase_amount :: "u64 \<Rightarrow> nat \<Rightarrow> u64" where
  "guest_coinbase_amount pot_parent n_spends =
     min (saturating_add coinbase_base_const (saturating_mul coinbase_per_tx_const (of_nat n_spends)))
       pot_parent"

section \<open>Suffix blocks\<close>

record spend_publics =
  sp_root :: digest
  sp_nf0 :: digest
  sp_nf1 :: digest
  sp_cm0 :: digest
  sp_cm1 :: digest
  sp_fee :: u64

record peg_out =
  po_spend :: spend_publics
  po_amount :: u64
  po_recipient :: bytes

record peg_in =
  pi_box_id :: bytes
  pi_dest_owner :: digest
  pi_amount :: u64

record suffix_block =
  sb_height :: u64
  sb_prev_header_id :: bytes
  sb_prev_root :: digest
  sb_state_root :: digest
  sb_timestamp_ms :: u64
  sb_nbits :: u32
  sb_txs :: "spend_publics list"
  sb_pegouts :: "peg_out list"
  sb_pegins :: "peg_in list"
  sb_miner_owner :: digest
  sb_coinbase_amount :: u64
  sb_coinbase_cm :: digest
  sb_coinbase_is_reward :: bool
  sb_pot_after :: u64
  sb_shielded_after :: u64

definition spends_in_order :: "suffix_block \<Rightarrow> spend_publics list" where
  "spends_in_order b = sb_txs b @ map po_spend (sb_pegouts b)"

definition n_spends :: "suffix_block \<Rightarrow> nat" where
  "n_spends b = length (sb_txs b) + length (sb_pegouts b)"

section \<open>The circuit sponge and the recipient commitment\<close>

definition domain_settle_recipient :: u32 where "domain_settle_recipient = 0x0A20"

definition overwrite :: "F list \<Rightarrow> F list \<Rightarrow> F list" where
  "overwrite state chunk = chunk @ drop (length chunk) state"

definition circuit_sponge :: "perm \<Rightarrow> F list \<Rightarrow> digest" where
  "circuit_sponge perm inputs =
     (let absorbed = concat (map (\<lambda>v. [v, 0, 0, 0]) inputs)
      in take 8 (fold (\<lambda>chunk state. perm (overwrite state chunk)) (chunks 8 absorbed)
           (replicate width 0)))"

definition recipient_commit :: "perm \<Rightarrow> bytes \<Rightarrow> digest" where
  "recipient_commit perm recipient_prop =
     hash_domain perm domain_settle_recipient (map f_of_byte recipient_prop)"

definition amount_limbs :: "u64 \<Rightarrow> F list" where
  "amount_limbs amount = map f_of_byte (rev (to_le64 amount))"

section \<open>Field packing\<close>

definition domain_hn_header :: u32 where "domain_hn_header = 0x0B11"
definition domain_hn_body :: u32 where "domain_hn_body = 0x0B12"
definition domain_block_id :: u32 where "domain_block_id = 0x0B10"

definition push_u64 :: "u64 \<Rightarrow> F list" where
  "push_u64 v = map (\<lambda>i. f_of_u32 (ucast (drop_bit (16 * i) v AND 0xFFFF))) [0..<4]"

definition push_u32 :: "u32 \<Rightarrow> F list" where
  "push_u32 v = [f_of_u32 (v AND 0xFFFF), f_of_u32 (drop_bit 16 v)]"

definition push_id_bytes :: "bytes \<Rightarrow> F list" where
  "push_id_bytes ident = map (\<lambda>c. f_of_u32 (from_le32 c)) (chunks 4 ident)"

definition push_spend :: "spend_publics \<Rightarrow> F list" where
  "push_spend s = sp_root s @ sp_nf0 s @ sp_nf1 s @ sp_cm0 s @ sp_cm1 s @ push_u64 (sp_fee s)"

definition push_pegout :: "perm \<Rightarrow> peg_out \<Rightarrow> F list" where
  "push_pegout perm po =
     push_spend (po_spend po) @ push_u64 (po_amount po) @ recipient_commit perm (po_recipient po)"

definition push_pegin :: "peg_in \<Rightarrow> F list" where
  "push_pegin p = push_id_bytes (pi_box_id p) @ pi_dest_owner p @ push_u64 (pi_amount p)"

definition f_of_bool :: "bool \<Rightarrow> F" where
  "f_of_bool b = f_of_u32 (of_bool b)"

definition body_preimage :: "perm \<Rightarrow> suffix_block \<Rightarrow> F list" where
  "body_preimage perm b =
     push_u64 (of_nat (length (sb_txs b))) @ concat (map push_spend (sb_txs b))
     @ push_u64 (of_nat (length (sb_pegouts b))) @ concat (map (push_pegout perm) (sb_pegouts b))
     @ push_u64 (of_nat (length (sb_pegins b))) @ concat (map push_pegin (sb_pegins b))
     @ sb_miner_owner b @ push_u64 (sb_coinbase_amount b) @ sb_coinbase_cm b
     @ [f_of_bool (sb_coinbase_is_reward b)]"

definition body_commitment :: "perm \<Rightarrow> suffix_block \<Rightarrow> digest" where
  "body_commitment perm b = hash_domain perm domain_hn_body (body_preimage perm b)"

section \<open>Header ids\<close>

record seam_header =
  sh_height :: u64
  sh_prev_header_id :: bytes
  sh_prev_root :: digest
  sh_state_root :: digest
  sh_timestamp_ms :: u64
  sh_nbits :: u32
  sh_miner_owner :: digest
  sh_coinbase_amount :: u64
  sh_coinbase_cm :: digest
  sh_coinbase_is_reward :: bool
  sh_pot_after :: u64
  sh_shielded_after :: u64
  sh_body_cm :: digest

definition header_preimage :: "u32 \<Rightarrow> seam_header \<Rightarrow> F list" where
  "header_preimage chain_id h =
     push_u32 chain_id @ push_u64 (sh_height h) @ push_id_bytes (sh_prev_header_id h)
     @ sh_prev_root h @ sh_state_root h @ push_u64 (sh_pot_after h) @ push_u64 (sh_shielded_after h)
     @ push_u32 (sh_nbits h) @ push_u64 (sh_timestamp_ms h) @ sh_miner_owner h
     @ push_u64 (sh_coinbase_amount h) @ sh_coinbase_cm h
     @ [f_of_bool (sh_coinbase_is_reward h)] @ sh_body_cm h"

definition header_id_from_fields :: "perm \<Rightarrow> u32 \<Rightarrow> seam_header \<Rightarrow> bytes" where
  "header_id_from_fields perm chain_id h =
     digest_to_bytes (hash_domain perm domain_hn_header (header_preimage chain_id h))"

definition seam_header_of :: "perm \<Rightarrow> suffix_block \<Rightarrow> seam_header" where
  "seam_header_of perm b =
     \<lparr> sh_height = sb_height b, sh_prev_header_id = sb_prev_header_id b,
       sh_prev_root = sb_prev_root b, sh_state_root = sb_state_root b,
       sh_timestamp_ms = sb_timestamp_ms b, sh_nbits = sb_nbits b,
       sh_miner_owner = sb_miner_owner b, sh_coinbase_amount = sb_coinbase_amount b,
       sh_coinbase_cm = sb_coinbase_cm b, sh_coinbase_is_reward = sb_coinbase_is_reward b,
       sh_pot_after = sb_pot_after b, sh_shielded_after = sb_shielded_after b,
       sh_body_cm = body_commitment perm b \<rparr>"

definition header_id :: "perm \<Rightarrow> u32 \<Rightarrow> suffix_block \<Rightarrow> bytes" where
  "header_id perm chain_id b = header_id_from_fields perm chain_id (seam_header_of perm b)"

definition guest_block_id :: "perm \<Rightarrow> u64 \<Rightarrow> digest \<Rightarrow> bytes" where
  "guest_block_id perm height prev_root = hash_id_domain perm domain_block_id height prev_root"

section \<open>The packing is injective\<close>

lemma push_u64_alt: "push_u64 v = value_limbs v"
proof -
  have m: "(0xFFFF :: u64) = mask 16" by (simp add: mask_eq_exp_minus_1)
  have "unat (ucast (w AND mask 16 :: u64) :: u32) = unat (w AND mask 16)" for w
    using unat_and_mask16 [of w] by (simp add: unsigned_ucast_eq take_bit_nat_eq_self)
  moreover have "unat (w AND mask 16 :: u64) mod babybear_p = unat (w AND mask 16)" for w
    using order_less_trans [OF unat_and_mask16 [of w], of babybear_p] by (simp add: babybear_p_def)
  ultimately show ?thesis
    unfolding push_u64_def value_limbs_unfold m f_of_u32_def by simp
qed

lemma length_push_u64 [simp]: "length (push_u64 v) = 4"
  by (simp add: push_u64_alt)

lemma push_u64_inj [simp]: "push_u64 v = push_u64 w \<longleftrightarrow> v = w"
  by (simp add: push_u64_alt)

lemma length_push_u32 [simp]: "length (push_u32 v) = 2"
  by (simp add: push_u32_def)

lemma push_u32_inj [simp]: "push_u32 v = push_u32 w \<longleftrightarrow> v = w"
proof
  assume eq: "push_u32 v = push_u32 w"
  have m: "(0xFFFF :: u32) = mask 16" by (simp add: mask_eq_exp_minus_1)
  have lo: "unat (x AND mask 16) < 2 ^ 16" for x :: u32
    using take_bit_nat_less_exp [of 16 "unat x"]
    by (simp only: unsigned_take_bit_eq flip: take_bit_eq_mask)
  have "drop_bit 16 x AND mask 16 = drop_bit 16 x" for x :: u32
    by (rule bit_word_eqI) (auto simp: bit_and_iff bit_mask_iff bit_drop_bit_eq dest: bit_imp_le_length)
  then have hi: "unat (drop_bit 16 x) < 2 ^ 16" for x :: u32
    using lo [of "drop_bit 16 x"] by metis
  have id: "f_of_u32 x = unat x" if "unat x < 2 ^ 16" for x
    using that order_less_trans [of "unat x" "2 ^ 16" babybear_p] by (simp add: f_of_u32_def babybear_p_def)
  from eq have "v AND mask 16 = w AND mask 16" "drop_bit 16 v = drop_bit 16 w"
    by (simp_all add: push_u32_def m id [OF lo] id [OF hi] word_unat_eq_iff)
  then show "v = w"
    by (metis bits_ident take_bit_eq_mask)
qed simp

text \<open>A 32-byte id whose limbs are canonical field elements; every header id is one.\<close>

definition canonical_id :: "bytes \<Rightarrow> bool" where
  "canonical_id b \<longleftrightarrow> length b = 32 \<and> (\<forall>c \<in> set (chunks 4 b). unat (from_le32 c) < babybear_p)"

lemma length_push_id_bytes: "length b = 32 \<Longrightarrow> length (push_id_bytes b) = 8"
  using length_chunks_exact [of 4 b 8] by (simp add: push_id_bytes_def)

lemma canonical_idD: "canonical_id b \<Longrightarrow> length b = 32"
  by (simp add: canonical_id_def)

lemma push_id_bytes_inj:
  assumes "canonical_id a" "canonical_id b"
  shows "push_id_bytes a = push_id_bytes b \<longleftrightarrow> a = b"
proof
  assume eq: "push_id_bytes a = push_id_bytes b"
  have four: "length c = 4" if "c \<in> set (chunks 4 x)" "canonical_id x" for c x
    using that chunks_exact_elem [of 4 x c] by (simp add: canonical_id_def)
  have "chunks 4 a = chunks 4 b"
  proof (rule map_inj_on_eq [OF eq [unfolded push_id_bytes_def]], rule inj_onI)
    fix c d assume c: "c \<in> set (chunks 4 a) \<union> set (chunks 4 b)" "d \<in> set (chunks 4 a) \<union> set (chunks 4 b)"
      and e: "f_of_u32 (from_le32 c) = f_of_u32 (from_le32 d)"
    have "unat (from_le32 c) < babybear_p" "unat (from_le32 d) < babybear_p"
      using c assms by (auto simp: canonical_id_def)
    with e have "from_le32 c = from_le32 d" by (simp add: f_of_u32_def word_unat_eq_iff)
    moreover have "length c = 4" "length d = 4" using c four assms by blast+
    ultimately show "c = d" by (metis to_from_le32)
  qed
  then show "a = b" by (metis concat_chunks zero_less_numeral)
qed simp

lemma f_of_bool_inj [simp]: "f_of_bool a = f_of_bool b \<longleftrightarrow> a = b"
  by (cases a; cases b) (simp_all add: f_of_bool_def f_of_u32_def babybear_p_def)

definition wf_seam_header :: "seam_header \<Rightarrow> bool" where
  "wf_seam_header h \<longleftrightarrow> canonical_id (sh_prev_header_id h) \<and>
     length (sh_prev_root h) = 8 \<and> length (sh_state_root h) = 8 \<and> length (sh_miner_owner h) = 8 \<and>
     length (sh_coinbase_cm h) = 8 \<and> length (sh_body_cm h) = 8"

lemma header_preimage_inj:
  assumes "wf_seam_header h" "wf_seam_header h'" "header_preimage c h = header_preimage c' h'"
  shows "c = c' \<and> h = h'"
  using assms
  by (auto simp: wf_seam_header_def header_preimage_def length_push_id_bytes canonical_idD
      push_id_bytes_inj append_eq_append_conv intro!: seam_header.equality)


section \<open>What the header id determines\<close>

definition wf_spend :: "spend_publics \<Rightarrow> bool" where
  "wf_spend s \<longleftrightarrow> length (sp_root s) = 8 \<and> length (sp_nf0 s) = 8 \<and> length (sp_nf1 s) = 8 \<and>
     length (sp_cm0 s) = 8 \<and> length (sp_cm1 s) = 8"

definition wf_pegin :: "peg_in \<Rightarrow> bool" where
  "wf_pegin p \<longleftrightarrow> canonical_id (pi_box_id p) \<and> length (pi_dest_owner p) = 8"

definition wf_block :: "suffix_block \<Rightarrow> bool" where
  "wf_block b \<longleftrightarrow> canonical_id (sb_prev_header_id b) \<and>
     length (sb_prev_root b) = 8 \<and> length (sb_state_root b) = 8 \<and> length (sb_miner_owner b) = 8 \<and>
     length (sb_coinbase_cm b) = 8 \<and>
     (\<forall>s \<in> set (sb_txs b). wf_spend s) \<and> (\<forall>p \<in> set (sb_pegouts b). wf_spend (po_spend p)) \<and>
     (\<forall>p \<in> set (sb_pegins b). wf_pegin p) \<and>
     length (sb_txs b) < 2 ^ 64 \<and> length (sb_pegouts b) < 2 ^ 64 \<and> length (sb_pegins b) < 2 ^ 64"

lemma length_prefixed_inj:
  assumes "push_u64 (of_nat (length xs)) @ concat (map f xs) @ r
         = push_u64 (of_nat (length ys)) @ concat (map f ys) @ r'"
    and "length xs < 2 ^ 64" "length ys < 2 ^ 64"
    and "\<forall>x \<in> set xs \<union> set ys. length (f x) = w"
  shows "map f xs = map f ys \<and> r = r'"
proof -
  from assms(1) have "(of_nat (length xs) :: u64) = of_nat (length ys)"
    and rest: "concat (map f xs) @ r = concat (map f ys) @ r'"
    by (simp_all add: append_eq_append_conv)
  then have "unat (of_nat (length xs) :: u64) = unat (of_nat (length ys) :: u64)" by simp
  with assms(2,3) have len: "length xs = length ys"
    by (simp add: unat_of_nat take_bit_nat_eq_self)
  have "length (concat (map f zs)) = w * length zs" if "set zs \<subseteq> set xs \<union> set ys" for zs
    using that assms(4) by (induction zs) auto
  then have "length (concat (map f xs)) = length (concat (map f ys))" using len by simp
  with rest have "concat (map f xs) = concat (map f ys)" "r = r'" by (simp_all add: append_eq_append_conv)
  moreover have "map length (map f xs) = map length (map f ys)"
    using assms(4) len by (intro nth_equalityI) auto
  ultimately show ?thesis using concat_eq_concat_widths by blast
qed

lemma push_spend_length: "wf_spend s \<Longrightarrow> length (push_spend s) = 44"
  by (simp add: wf_spend_def push_spend_def)

lemma push_spend_inj: "wf_spend s \<Longrightarrow> wf_spend t \<Longrightarrow> push_spend s = push_spend t \<longleftrightarrow> s = t"
  by (auto simp: wf_spend_def push_spend_def append_eq_append_conv intro!: spend_publics.equality)

lemma push_pegin_length: "wf_pegin p \<Longrightarrow> length (push_pegin p) = 20"
  by (simp add: wf_pegin_def push_pegin_def length_push_id_bytes canonical_idD)

lemma push_pegin_inj: "wf_pegin p \<Longrightarrow> wf_pegin q \<Longrightarrow> push_pegin p = push_pegin q \<longleftrightarrow> p = q"
  by (auto simp: wf_pegin_def push_pegin_def append_eq_append_conv push_id_bytes_inj
      length_push_id_bytes canonical_idD intro!: peg_in.equality)

lemma wf_recipient_commit: "perm_ok perm \<Longrightarrow> length (recipient_commit perm r) = 8"
  using wf_hash_domain wf_digestD(1) by (auto simp: recipient_commit_def)

text \<open>Everything the sponge hashes on the way to a header id.\<close>

definition header_hashes :: "perm \<Rightarrow> u32 \<Rightarrow> suffix_block \<Rightarrow> (u32 \<times> F list) list" where
  "header_hashes perm c b =
     [(domain_hn_header, header_preimage c (seam_header_of perm b)), (domain_hn_body, body_preimage perm b)]
     @ map (\<lambda>po. (domain_settle_recipient, map f_of_byte (po_recipient po))) (sb_pegouts b)"

definition header_collision :: "perm \<Rightarrow> u32 \<Rightarrow> suffix_block \<Rightarrow> u32 \<Rightarrow> suffix_block \<Rightarrow> bool" where
  "header_collision perm c b c' b' \<longleftrightarrow> sponge_collides perm (header_hashes perm c b) (header_hashes perm c' b')"

lemma recipient_commit_eqD:
  assumes "recipient_commit perm r = recipient_commit perm r'"
    and "(domain_settle_recipient, map f_of_byte r) \<in> set xs" "(domain_settle_recipient, map f_of_byte r') \<in> set ys"
  shows "r = r' \<or> sponge_collides perm xs ys"
proof -
  have "map f_of_byte r = map f_of_byte r' \<or> sponge_collides perm xs ys"
    using assms unfolding recipient_commit_def by (rule hash_domain_eqD)
  then show ?thesis by (metis f_of_byte_inj inj_map_eq_map injI)
qed

lemma push_pegout_inj:
  assumes "perm_ok perm" "wf_spend (po_spend p)" "wf_spend (po_spend q)"
    and "push_pegout perm p = push_pegout perm q"
    and m: "(domain_settle_recipient, map f_of_byte (po_recipient p)) \<in> set xs"
      "(domain_settle_recipient, map f_of_byte (po_recipient q)) \<in> set ys"
  shows "p = q \<or> sponge_collides perm xs ys"
proof -
  from assms(1-4) have "push_spend (po_spend p) = push_spend (po_spend q)" "po_amount p = po_amount q"
    "recipient_commit perm (po_recipient p) = recipient_commit perm (po_recipient q)"
    by (simp_all add: push_pegout_def append_eq_append_conv push_spend_length wf_recipient_commit)
  then show ?thesis
    using assms(2,3) recipient_commit_eqD [OF _ m]
    by (auto simp: push_spend_inj intro!: peg_out.equality)
qed

lemma map_eq_collision:
  assumes "map f xs = map f ys" and "\<And>x y. x \<in> set xs \<Longrightarrow> y \<in> set ys \<Longrightarrow> f x = f y \<Longrightarrow> x = y \<or> C"
  shows "xs = ys \<or> C"
  using assms
proof (induction xs arbitrary: ys)
  case (Cons x xs)
  then obtain y zs where ys: "ys = y # zs" "f x = f y" "map f xs = map f zs" by (cases ys) auto
  then have "x = y \<or> C" using Cons.prems(2) by simp
  moreover have "xs = zs \<or> C" by (rule Cons.IH) (use ys Cons.prems(2) in auto)
  ultimately show ?case using ys by auto
qed simp

lemma body_preimage_inj:
  assumes "perm_ok perm" and b: "wf_block b" and b': "wf_block b'"
    and "body_preimage perm b = body_preimage perm b'"
  shows "(sb_txs b = sb_txs b' \<and> sb_pegouts b = sb_pegouts b' \<and> sb_pegins b = sb_pegins b')
    \<or> header_collision perm c b c' b'"
proof -
  have po: "length (push_pegout perm p) = 56" if "wf_spend (po_spend p)" for p
    using that assms(1) by (simp add: push_pegout_def push_spend_length wf_recipient_commit)
  note wb = b [unfolded wf_block_def] b' [unfolded wf_block_def]
  have "\<forall>x \<in> set (sb_txs b) \<union> set (sb_txs b'). length (push_spend x) = 44"
    using wb push_spend_length by blast
  note s1 = length_prefixed_inj [OF assms(4) [unfolded body_preimage_def] _ _ this]
  have "\<forall>x \<in> set (sb_pegouts b) \<union> set (sb_pegouts b'). length (push_pegout perm x) = 56"
    using wb po by blast
  note s2 = length_prefixed_inj [OF s1 [THEN conjunct2] _ _ this]
  have "\<forall>x \<in> set (sb_pegins b) \<union> set (sb_pegins b'). length (push_pegin x) = 20"
    using wb push_pegin_length by blast
  note s3 = length_prefixed_inj [OF s2 [THEN conjunct2] _ _ this]
  have txs: "map push_spend (sb_txs b) = map push_spend (sb_txs b')"
    and pos: "map (push_pegout perm) (sb_pegouts b) = map (push_pegout perm) (sb_pegouts b')"
    and pis: "map push_pegin (sb_pegins b) = map push_pegin (sb_pegins b')"
    using s1 s2 s3 wb by blast+
  have "sb_txs b = sb_txs b' \<or> False"
    by (rule map_eq_collision [OF txs]) (use b b' in \<open>auto simp: wf_block_def push_spend_inj\<close>)
  moreover have "sb_pegins b = sb_pegins b' \<or> False"
    by (rule map_eq_collision [OF pis]) (use b b' in \<open>auto simp: wf_block_def push_pegin_inj\<close>)
  moreover have "sb_pegouts b = sb_pegouts b' \<or> header_collision perm c b c' b'"
    unfolding header_collision_def
    by (rule map_eq_collision [OF pos], rule push_pegout_inj [OF assms(1)])
      (use b b' in \<open>auto simp: wf_block_def header_hashes_def\<close>)
  ultimately show ?thesis by blast
qed

text \<open>
  The header id determines the whole block. Two well-formed blocks (ids of 32 bytes with
  canonical limbs, digests of eight limbs) whose header ids agree, under any two chain ids, have
  the same chain id and are equal in every header field, transaction, peg-out with its recipient
  script, peg-in and coinbase field; otherwise two different inputs
  the sponge hashes on the way to these two ids collide.
\<close>

theorem header_id_binds_block:
  assumes "perm_ok perm" and "wf_block b" and "wf_block b'"
    and "header_id perm c b = header_id perm c' b'"
  shows "(c = c' \<and> b = b') \<or> header_collision perm c b c' b'"
proof -
  have len: "length (body_commitment perm x) = 8" for x
    using wf_hash_domain [OF assms(1)] wf_digestD(1) by (auto simp: body_commitment_def)
  have wf: "wf_seam_header (seam_header_of perm x)" if "wf_block x" for x
    using that by (simp add: wf_seam_header_def seam_header_of_def wf_block_def len)
  from assms(4) have "header_preimage c (seam_header_of perm b) = header_preimage c' (seam_header_of perm b')
      \<or> header_collision perm c b c' b'"
    unfolding header_id_def header_id_from_fields_def header_collision_def
      digest_to_bytes_inj [OF wf_hash_domain wf_hash_domain, OF assms(1,1)]
    by (rule hash_domain_eqD) (simp_all add: header_hashes_def)
  then show ?thesis
  proof
    assume "header_preimage c (seam_header_of perm b) = header_preimage c' (seam_header_of perm b')"
    from header_preimage_inj [OF wf wf this] assms(2,3)
    have cc: "c = c'" and h: "seam_header_of perm b = seam_header_of perm b'" by blast+
    from h have "hash_domain perm domain_hn_body (body_preimage perm b)
        = hash_domain perm domain_hn_body (body_preimage perm b')"
      by (simp add: seam_header_of_def body_commitment_def)
    then have "body_preimage perm b = body_preimage perm b' \<or> header_collision perm c b c' b'"
      unfolding header_collision_def by (rule hash_domain_eqD) (simp_all add: header_hashes_def)
    then show ?thesis
      using body_preimage_inj [OF assms(1-3), of c c'] cc h
      by (auto simp: seam_header_of_def intro!: suffix_block.equality)
  qed simp
qed

text \<open>
  Without the canonicity of the box id the body commitment does not determine the block: a box id
  and the id whose first limb is larger by the field modulus are packed alike.
\<close>

definition alias_id :: bytes where
  "alias_id = to_le32 0x78000001 @ replicate 28 0"

lemma box_id_alias:
  "push_id_bytes alias_id = push_id_bytes (replicate 32 0)" "alias_id \<noteq> replicate 32 0"
  "length alias_id = 32"
proof -
  have z: "replicate 32 (0 :: u8) = to_le32 0 @ replicate 28 0"
    by (simp add: to_le32_def upt_conv_Cons numeral_eq_Suc)
  have c: "chunks 4 (to_le32 x @ ys) = to_le32 x # chunks 4 ys" for x ys
    by (simp add: chunks_append)
  show "push_id_bytes alias_id = push_id_bytes (replicate 32 0)"
    unfolding z alias_id_def push_id_bytes_def c by (simp add: f_of_u32_def babybear_p_def)
  show "alias_id \<noteq> replicate 32 0"
    unfolding z alias_id_def append_same_eq to_le32_inj by simp
  show "length alias_id = 32" by (simp add: alias_id_def)
qed

lemma body_commitment_box_id_alias:
  "body_commitment perm (b \<lparr> sb_pegins := [p \<lparr> pi_box_id := alias_id \<rparr>] \<rparr>)
   = body_commitment perm (b \<lparr> sb_pegins := [p \<lparr> pi_box_id := replicate 32 0 \<rparr>] \<rparr>)"
  by (simp add: body_commitment_def body_preimage_def push_pegin_def box_id_alias)

end
