(* ===== verification/Merkle.thy ===== *)
theory Merkle
  imports Notes
begin

text \<open>
  The note accumulator (\<^verbatim>\<open>engine/src/merkle.rs\<close>): the incremental tree \<^verbatim>\<open>NoteTree\<close> that stores
  every touched node, the append boundary \<^verbatim>\<open>Frontier\<close> that the settlement guest carries instead,
  membership paths, and the epoch transition.

  Leaf indices are natural numbers: the code keeps them below \<open>2^32\<close> by an assertion in both
  \<^verbatim>\<open>append\<close> functions, whose panic is the value \<open>None\<close> here.

  The reference definition is \<open>subroot\<close>, the Merkle root of a perfect tree over a function from
  leaf positions to digests. Both accumulators represent a list of leaves (\<open>nt_rep\<close>, \<open>fr_rep\<close>),
  both interpret the locale \<open>leaf_log\<close>, and both report the reference root of their leaves.
\<close>

definition depth :: nat where "depth = 32"
definition empty_leaf :: digest where "empty_leaf = replicate 8 0"

definition compress_self :: "perm \<Rightarrow> digest \<Rightarrow> digest" where
  "compress_self perm z = compress perm z z"

fun zeros :: "perm \<Rightarrow> nat \<Rightarrow> digest" where
  "zeros perm 0 = empty_leaf"
| "zeros perm (Suc level) = compress_self perm (zeros perm level)"

section \<open>NoteTree\<close>

record note_tree =
  nodes :: "nat \<times> nat \<Rightarrow> digest option"
  next_index :: nat

record merkle_path =
  siblings :: "digest list"
  path_index :: nat

definition nt_new :: note_tree where
  "nt_new = \<lparr> nodes = Map.empty, next_index = 0 \<rparr>"

definition nt_len :: "note_tree \<Rightarrow> nat" where
  "nt_len t = next_index t"

definition node_of :: "perm \<Rightarrow> (nat \<times> nat \<Rightarrow> digest option) \<Rightarrow> nat \<Rightarrow> nat \<Rightarrow> digest" where
  "node_of perm ns level index = (case ns (level, index) of Some d \<Rightarrow> d | None \<Rightarrow> zeros perm level)"

definition nt_root :: "perm \<Rightarrow> note_tree \<Rightarrow> digest" where
  "nt_root perm t = node_of perm (nodes t) depth 0"

definition nt_parent :: "perm \<Rightarrow> (nat \<times> nat \<Rightarrow> digest option) \<Rightarrow> nat \<Rightarrow> nat \<Rightarrow> digest" where
  "nt_parent perm ns level idx =
     (if idx AND 1 = 0
      then compress perm (node_of perm ns level idx) (node_of perm ns level (idx XOR 1))
      else compress perm (node_of perm ns level (idx XOR 1)) (node_of perm ns level idx))"

fun nt_append_level ::
  "perm \<Rightarrow> nat \<Rightarrow> (nat \<times> nat \<Rightarrow> digest option) \<times> nat \<Rightarrow> (nat \<times> nat \<Rightarrow> digest option) \<times> nat" where
  "nt_append_level perm level (ns, idx) =
     (ns ((level + 1, idx div 2) \<mapsto> nt_parent perm ns level idx), idx div 2)"

definition nt_append :: "perm \<Rightarrow> note_tree \<Rightarrow> digest \<Rightarrow> (note_tree \<times> nat) option" where
  "nt_append perm t leaf =
     (if next_index t < 2 ^ depth then
        let index = next_index t;
            (ns, _) = fold (nt_append_level perm) [0..<depth] ((nodes t) ((0, index) \<mapsto> leaf), index)
        in Some (\<lparr> nodes = ns, next_index = index + 1 \<rparr>, index)
      else None)"

fun sibling_levels :: "(nat \<Rightarrow> nat \<Rightarrow> digest) \<Rightarrow> nat \<Rightarrow> nat list \<Rightarrow> digest list" where
  "sibling_levels nd idx [] = []"
| "sibling_levels nd idx (level # levels) = nd level (idx XOR 1) # sibling_levels nd (idx div 2) levels"

definition authentication_path :: "perm \<Rightarrow> note_tree \<Rightarrow> nat \<Rightarrow> merkle_path option" where
  "authentication_path perm t index =
     (if index < next_index t then
        Some \<lparr> siblings = sibling_levels (node_of perm (nodes t)) index [0..<depth],
               path_index = index \<rparr>
      else None)"

fun path_fold :: "perm \<Rightarrow> digest \<Rightarrow> nat \<Rightarrow> digest list \<Rightarrow> digest" where
  "path_fold perm node idx [] = node"
| "path_fold perm node idx (sib # sibs) =
     path_fold perm (if idx AND 1 = 0 then compress perm node sib else compress perm sib node)
       (idx div 2) sibs"

definition root_from_path :: "perm \<Rightarrow> digest \<Rightarrow> merkle_path \<Rightarrow> digest" where
  "root_from_path perm leaf path = path_fold perm leaf (path_index path) (siblings path)"

section \<open>Frontier\<close>

record frontier =
  filled :: "digest list"
  leaf_count :: nat

definition fr_new :: "perm \<Rightarrow> frontier" where
  "fr_new perm = \<lparr> filled = map (zeros perm) [0..<depth], leaf_count = 0 \<rparr>"

fun fr_root_level :: "perm \<Rightarrow> digest list \<Rightarrow> nat \<Rightarrow> digest \<times> nat \<Rightarrow> digest \<times> nat" where
  "fr_root_level perm fl level (node, idx) =
     (if idx AND 1 = 1 then compress perm (fl ! level) node
      else compress perm node (zeros perm level), idx div 2)"

definition fr_root :: "perm \<Rightarrow> frontier \<Rightarrow> digest" where
  "fr_root perm f = fst (fold (fr_root_level perm (filled f)) [0..<depth] (zeros perm 0, leaf_count f))"

fun fr_append_level :: "perm \<Rightarrow> nat \<Rightarrow> digest list \<times> digest \<times> nat \<Rightarrow> digest list \<times> digest \<times> nat" where
  "fr_append_level perm level (fl, node, idx) =
     (if idx AND 1 = 0 then (fl [level := node], compress perm node (zeros perm level), idx div 2)
      else (fl, compress perm (fl ! level) node, idx div 2))"

definition fr_append :: "perm \<Rightarrow> frontier \<Rightarrow> digest \<Rightarrow> (frontier \<times> digest) option" where
  "fr_append perm f leaf =
     (if leaf_count f < 2 ^ depth then
        let (fl, node, _) = fold (fr_append_level perm) [0..<depth] (filled f, leaf, leaf_count f)
        in Some (\<lparr> filled = fl, leaf_count = leaf_count f + 1 \<rparr>, node)
      else None)"

text \<open>The loop \<^verbatim>\<open>for leaf in leaves { let _ = t.append(*leaf); }\<close>, over either accumulator.\<close>

fun append_all :: "('t \<Rightarrow> digest \<Rightarrow> ('t \<times> 'r) option) \<Rightarrow> 't \<Rightarrow> digest list \<Rightarrow> 't option" where
  "append_all app t [] = Some t"
| "append_all app t (leaf # leaves) =
     (case app t leaf of None \<Rightarrow> None | Some (t', _) \<Rightarrow> append_all app t' leaves)"

definition fr_from_leaves :: "perm \<Rightarrow> digest list \<Rightarrow> frontier option" where
  "fr_from_leaves perm leaves = append_all (fr_append perm) (fr_new perm) leaves"

definition fr_commit :: "perm \<Rightarrow> frontier \<Rightarrow> digest" where
  "fr_commit perm f =
     hash_domain perm domain_frontier
       (leaf_count f mod 2 ^ 32 mod babybear_p # leaf_count f div 2 ^ 32 mod babybear_p
        # concat (filled f))"

definition settle_tree_transition ::
  "perm \<Rightarrow> frontier \<Rightarrow> digest list \<Rightarrow> (digest \<times> frontier) option" where
  "settle_tree_transition perm f epoch_leaves =
     (let prev_root = fr_root perm f in
      map_option (\<lambda>nxt. (prev_root, nxt)) (append_all (fr_append perm) f epoch_leaves))"

section \<open>The reference root\<close>

fun subroot :: "perm \<Rightarrow> (nat \<Rightarrow> digest) \<Rightarrow> nat \<Rightarrow> nat \<Rightarrow> digest" where
  "subroot perm f 0 i = f i"
| "subroot perm f (Suc h) i = compress perm (subroot perm f h (2 * i)) (subroot perm f h (2 * i + 1))"

definition leaf_at :: "digest list \<Rightarrow> nat \<Rightarrow> digest" where
  "leaf_at ls i = (if i < length ls then ls ! i else empty_leaf)"

definition merkle_root :: "perm \<Rightarrow> digest list \<Rightarrow> digest" where
  "merkle_root perm ls = subroot perm (leaf_at ls) depth 0"

lemma subroot_cong:
  "(\<And>j. j div 2 ^ h = i \<Longrightarrow> f j = g j) \<Longrightarrow> subroot perm f h i = subroot perm g h i"
proof (induction h arbitrary: i)
  case (Suc h)
  have "j div 2 ^ Suc h = i" if "j div 2 ^ h = 2 * i \<or> j div 2 ^ h = 2 * i + 1" for j
    using that by (auto simp: div_mult2_eq mult.commute [of 2])
  with Suc.prems have "subroot perm f h (2 * i) = subroot perm g h (2 * i)"
    "subroot perm f h (2 * i + 1) = subroot perm g h (2 * i + 1)"
    by (intro Suc.IH; blast)+
  then show ?case by simp
qed simp

lemma subroot_empty: "(\<And>j. j div 2 ^ h = i \<Longrightarrow> f j = empty_leaf) \<Longrightarrow> subroot perm f h i = zeros perm h"
proof (induction h arbitrary: i)
  case (Suc h)
  have "j div 2 ^ Suc h = i" if "j div 2 ^ h = 2 * i \<or> j div 2 ^ h = 2 * i + 1" for j
    using that by (auto simp: div_mult2_eq mult.commute [of 2])
  with Suc.prems have "subroot perm f h (2 * i) = zeros perm h"
    "subroot perm f h (2 * i + 1) = zeros perm h"
    by (intro Suc.IH; blast)+
  then show ?case by (simp add: compress_self_def)
qed simp

lemma subroot_fun_upd:
  "i \<noteq> n div 2 ^ h \<Longrightarrow> subroot perm (f (n := x)) h i = subroot perm f h i"
  by (rule subroot_cong) auto

lemma subroot_Suc_div:
  "subroot perm f (Suc h) (i div 2) =
    (if even i then compress perm (subroot perm f h i) (subroot perm f h (i + 1))
     else compress perm (subroot perm f h (i - 1)) (subroot perm f h i))"
  by (auto elim!: evenE oddE)

lemma leaf_at_snoc: "leaf_at (ls @ [x]) = (leaf_at ls) (length ls := x)"
  by (auto simp: leaf_at_def fun_eq_iff nth_append)

lemma subroot_beyond:
  assumes "length ls div 2 ^ h < i"
  shows "subroot perm (leaf_at ls) h i = zeros perm h"
proof (rule subroot_empty)
  fix j assume "j div 2 ^ h = i"
  with assms have "\<not> j < length ls"
    by (meson div_le_mono leD less_imp_le_nat)
  then show "leaf_at ls j = empty_leaf" by (simp add: leaf_at_def)
qed

lemma idx_bits:
  "(idx :: nat) AND 1 = 0 \<longleftrightarrow> even idx" "(idx :: nat) AND 1 = 1 \<longleftrightarrow> odd idx"
  "even idx \<Longrightarrow> idx XOR 1 = idx + 1" "odd idx \<Longrightarrow> idx XOR 1 = idx - 1"
  by (simp_all add: and_one_eq mod_2_eq_odd xor_Suc_0_eq)

lemmas idx_simps = idx_bits idx_bits [unfolded One_nat_def] mod_2_eq_odd

lemma fold_upt_Suc: "fold f [0..<Suc k] s = f k (fold f [0..<k] s)"
  by simp


section \<open>NoteTree represents its leaves\<close>

definition nt_rep :: "perm \<Rightarrow> note_tree \<Rightarrow> digest list \<Rightarrow> bool" where
  "nt_rep perm t ls \<longleftrightarrow> next_index t = length ls \<and> length ls \<le> 2 ^ depth \<and>
     (\<forall>level \<le> depth. \<forall>i. node_of perm (nodes t) level i = subroot perm (leaf_at ls) level i)"

lemma node_of_upd: "node_of perm (ns (k \<mapsto> d)) level i = (if (level, i) = k then d else node_of perm ns level i)"
  by (simp add: node_of_def)

lemma nt_parent_subroot:
  assumes "\<And>i. node_of perm ns level i = subroot perm f level i"
  shows "nt_parent perm ns level idx = subroot perm f (Suc level) (idx div 2)"
  unfolding nt_parent_def assms subroot_Suc_div idx_bits(1)
  by (cases "even idx") (simp_all add: idx_simps del: and_one_eq)

lemma nt_append_levels:
  fixes f :: "nat \<Rightarrow> digest" and n :: nat and x :: digest
  assumes rep: "\<And>level i. level \<le> depth \<Longrightarrow> node_of perm ns level i = subroot perm f level i"
    and k: "k \<le> depth"
  defines "f' \<equiv> f (n := x)"
  shows "\<exists>ns'. fold (nt_append_level perm) [0..<k] (ns ((0, n) \<mapsto> x), n) = (ns', n div 2 ^ k) \<and>
    (\<forall>level i. level \<le> k \<longrightarrow> node_of perm ns' level i = subroot perm f' level i) \<and>
    (\<forall>level i. k < level \<longrightarrow> level \<le> depth \<longrightarrow> node_of perm ns' level i = subroot perm f level i)"
  using k
proof (induction k)
  case 0
  have "node_of perm (ns ((0, n) \<mapsto> x)) level i = subroot perm f' level i" if "level \<le> 0" for level i
    using rep [of 0 i] that unfolding node_of_upd f'_def by simp
  moreover have "node_of perm (ns ((0, n) \<mapsto> x)) level i = subroot perm f level i"
    if "0 < level" "level \<le> depth" for level i
    using rep [of level i] that unfolding node_of_upd by simp
  moreover have "fold (nt_append_level perm) [0..<0] (ns ((0, n) \<mapsto> x), n)
      = (ns ((0, n) \<mapsto> x), n div 2 ^ 0)"
    by simp
  ultimately show ?case by blast
next
  case (Suc k)
  from Suc.prems have "k \<le> depth" by simp
  from Suc.IH [OF this] obtain ns'
    where ns': "fold (nt_append_level perm) [0..<k] (ns ((0, n) \<mapsto> x), n) = (ns', n div 2 ^ k)"
    and lo: "\<And>level i. level \<le> k \<Longrightarrow> node_of perm ns' level i = subroot perm f' level i"
    and hi: "\<And>level i. k < level \<Longrightarrow> level \<le> depth \<Longrightarrow> node_of perm ns' level i = subroot perm f level i"
    by blast
  let ?idx = "n div 2 ^ k div 2"
  let ?ns = "ns' ((Suc k, ?idx) \<mapsto> nt_parent perm ns' k (n div 2 ^ k))"
  have idx: "?idx = n div 2 ^ Suc k" by (simp add: div_mult2_eq mult.commute [of 2])
  have par: "nt_parent perm ns' k (n div 2 ^ k) = subroot perm f' (Suc k) ?idx"
    by (rule nt_parent_subroot) (simp add: lo)
  have "node_of perm ?ns level i = subroot perm f' level i" if "level \<le> Suc k" for level i
    using that lo hi [of "Suc k" i] par Suc.prems
    by (cases "level = Suc k") (auto simp: node_of_upd f'_def idx subroot_fun_upd simp del: subroot.simps)
  moreover have "node_of perm ?ns level i = subroot perm f level i"
    if "Suc k < level" "level \<le> depth" for level i
    using that hi by (auto simp: node_of_upd)
  moreover have "fold (nt_append_level perm) [0..<Suc k] (ns ((0, n) \<mapsto> x), n) = (?ns, n div 2 ^ Suc k)"
    unfolding fold_upt_Suc ns' idx [symmetric] by simp
  ultimately show ?case by blast
qed

lemma nt_rep_new: "nt_rep perm nt_new []"
  by (auto simp: nt_rep_def nt_new_def node_of_def leaf_at_def intro!: subroot_empty [symmetric])

lemma nt_rep_append:
  assumes "nt_rep perm t ls" and "length ls < 2 ^ depth"
  shows "\<exists>t'. nt_append perm t x = Some (t', length ls) \<and> nt_rep perm t' (ls @ [x])"
proof -
  from assms(1) have n: "next_index t = length ls"
    and rep: "\<And>level i. level \<le> depth \<Longrightarrow> node_of perm (nodes t) level i = subroot perm (leaf_at ls) level i"
    by (auto simp: nt_rep_def)
  obtain ns' where "fold (nt_append_level perm) [0..<depth] ((nodes t) ((0, length ls) \<mapsto> x), length ls)
      = (ns', length ls div 2 ^ depth)"
    and "\<And>level i. level \<le> depth \<Longrightarrow> node_of perm ns' level i = subroot perm ((leaf_at ls) (length ls := x)) level i"
    using nt_append_levels [of perm "nodes t" "leaf_at ls" depth "length ls" x] rep by auto
  then show ?thesis
    using assms(2)
    by (intro exI [of _ "\<lparr> nodes = ns', next_index = length ls + 1 \<rparr>"])
      (simp add: nt_append_def n nt_rep_def leaf_at_snoc Let_def)
qed

lemma nt_append_full: "nt_rep perm t ls \<Longrightarrow> \<not> length ls < 2 ^ depth \<Longrightarrow> nt_append perm t x = None"
  by (simp add: nt_append_def nt_rep_def)

lemma nt_root_rep: "nt_rep perm t ls \<Longrightarrow> nt_root perm t = merkle_root perm ls"
  by (simp add: nt_rep_def nt_root_def merkle_root_def)

section \<open>Frontier represents its leaves\<close>

definition fr_rep :: "perm \<Rightarrow> frontier \<Rightarrow> digest list \<Rightarrow> bool" where
  "fr_rep perm f ls \<longleftrightarrow> leaf_count f = length ls \<and> length ls \<le> 2 ^ depth \<and> length (filled f) = depth \<and>
     (\<forall>level < depth. odd (length ls div 2 ^ level) \<longrightarrow>
        filled f ! level = subroot perm (leaf_at ls) level (length ls div 2 ^ level - 1))"

lemma div_pow_Suc: "(n :: nat) div 2 ^ Suc k = n div 2 ^ k div 2"
  by (simp add: div_mult2_eq mult.commute [of 2])

lemma fr_root_levels:
  assumes rep: "\<And>level. level < depth \<Longrightarrow> odd (length ls div 2 ^ level) \<Longrightarrow>
      fl ! level = subroot perm (leaf_at ls) level (length ls div 2 ^ level - 1)"
    and k: "k \<le> depth"
  shows "fold (fr_root_level perm fl) [0..<k] (zeros perm 0, length ls)
    = (subroot perm (leaf_at ls) k (length ls div 2 ^ k), length ls div 2 ^ k)"
  using k
proof (induction k)
  case 0
  then show ?case by (simp add: leaf_at_def)
next
  case (Suc k)
  let ?i = "length ls div 2 ^ k"
  have "subroot perm (leaf_at ls) k (?i + 1) = zeros perm k"
    by (rule subroot_beyond) simp
  then show ?case
    using Suc rep [of k] unfolding fold_upt_Suc div_pow_Suc subroot_Suc_div
    by (simp add: idx_simps Suc_le_eq del: subroot.simps and_one_eq)
qed

lemma fr_root_rep:
  assumes "fr_rep perm f ls" and "length ls < 2 ^ depth"
  shows "fr_root perm f = merkle_root perm ls"
  using fr_root_levels [of ls "filled f" perm depth] assms
  by (simp add: fr_root_def fr_rep_def merkle_root_def)

lemma fr_rep_new: "fr_rep perm (fr_new perm) []"
  by (simp add: fr_rep_def fr_new_def)

lemma fr_append_levels:
  fixes ls :: "digest list" and x :: digest
  assumes rep: "\<And>level. level < depth \<Longrightarrow> odd (length ls div 2 ^ level) \<Longrightarrow>
      fl ! level = subroot perm (leaf_at ls) level (length ls div 2 ^ level - 1)"
    and len: "length fl = depth" and k: "k \<le> depth"
  defines "n \<equiv> length ls" and "f' \<equiv> leaf_at (ls @ [x])"
  shows "\<exists>fl'. fold (fr_append_level perm) [0..<k] (fl, x, n) = (fl', subroot perm f' k (n div 2 ^ k), n div 2 ^ k)
    \<and> length fl' = depth
    \<and> (\<forall>level < depth. fl' ! level =
        (if level < k \<and> even (n div 2 ^ level) then subroot perm f' level (n div 2 ^ level) else fl ! level))"
  using k
proof (induction k)
  case 0
  then show ?case using len by (simp add: f'_def n_def leaf_at_def)
next
  case (Suc k)
  let ?i = "n div 2 ^ k"
  from Suc obtain fl' where fl': "fold (fr_append_level perm) [0..<k] (fl, x, n) = (fl', subroot perm f' k ?i, ?i)"
    and len': "length fl' = depth"
    and nth: "\<And>level. level < depth \<Longrightarrow> fl' ! level =
        (if level < k \<and> even (n div 2 ^ level) then subroot perm f' level (n div 2 ^ level) else fl ! level)"
    by auto
  have right: "subroot perm f' k (?i + 1) = zeros perm k" if "even ?i"
  proof (unfold f'_def, rule subroot_empty)
    fix j assume "j div 2 ^ k = ?i + 1"
    then have "\<not> j \<le> n" by (metis Suc_eq_plus1 div_le_mono not_less_eq_eq order_refl)
    then show "leaf_at (ls @ [x]) j = empty_leaf" by (simp add: leaf_at_def n_def)
  qed
  have left: "fl' ! k = subroot perm f' k (?i - 1)" if "odd ?i"
  proof -
    have "?i - 1 \<noteq> ?i" using that by (metis Suc_pred n_not_Suc_n odd_pos One_nat_def)
    then show ?thesis
      using nth [of k] rep [of k] that Suc.prems
      by (simp add: n_def f'_def leaf_at_snoc subroot_fun_upd)
  qed
  have "subroot perm f' (Suc k) (?i div 2) =
      (if even ?i then compress perm (subroot perm f' k ?i) (zeros perm k)
       else compress perm (fl' ! k) (subroot perm f' k ?i))"
    unfolding subroot_Suc_div using right left by simp
  then show ?case
    using fl' len' nth Suc.prems unfolding fold_upt_Suc div_pow_Suc
    by (auto simp: idx_simps nth_list_update less_Suc_eq simp del: subroot.simps and_one_eq)
qed

lemma succ_div_pow:
  assumes "odd (Suc n div 2 ^ k)"
  shows "(even (n div 2 ^ k) \<and> Suc n div 2 ^ k - 1 = n div 2 ^ k) \<or>
         (odd (n div 2 ^ k) \<and> Suc n div 2 ^ k = n div 2 ^ k)"
proof -
  have "Suc n div 2 ^ k = (if 2 ^ k dvd Suc n then Suc (n div 2 ^ k) else n div 2 ^ k)"
    by (simp add: div_Suc dvd_eq_mod_eq_0)
  with assms show ?thesis by (auto split: if_splits)
qed

lemma fr_rep_append:
  assumes "fr_rep perm f ls" and lt: "length ls < 2 ^ depth"
  shows "\<exists>f'. fr_append perm f x = Some (f', merkle_root perm (ls @ [x])) \<and> fr_rep perm f' (ls @ [x])"
proof -
  let ?n = "length ls" and ?l = "leaf_at (ls @ [x])"
  from assms(1) have n: "leaf_count f = ?n" and len: "length (filled f) = depth"
    and rep: "\<And>level. level < depth \<Longrightarrow> odd (?n div 2 ^ level) \<Longrightarrow>
      filled f ! level = subroot perm (leaf_at ls) level (?n div 2 ^ level - 1)"
    by (auto simp: fr_rep_def)
  obtain fl' where fl': "fold (fr_append_level perm) [0..<depth] (filled f, x, ?n)
      = (fl', subroot perm ?l depth (?n div 2 ^ depth), ?n div 2 ^ depth)"
    and len': "length fl' = depth"
    and nth: "\<And>level. level < depth \<Longrightarrow> fl' ! level =
        (if even (?n div 2 ^ level) then subroot perm ?l level (?n div 2 ^ level) else filled f ! level)"
    using fr_append_levels [OF rep len, of depth x] by auto
  have "fl' ! level = subroot perm ?l level (Suc ?n div 2 ^ level - 1)"
    if "level < depth" "odd (Suc ?n div 2 ^ level)" for level
    using succ_div_pow [OF that(2)]
  proof (elim disjE conjE)
    assume o: "odd (?n div 2 ^ level)" and e: "Suc ?n div 2 ^ level = ?n div 2 ^ level"
    then have "?n div 2 ^ level - 1 \<noteq> ?n div 2 ^ level"
      by (metis Suc_pred n_not_Suc_n odd_pos One_nat_def)
    with o e show ?thesis
      using nth [OF that(1)] rep [OF that(1) o] by (simp add: leaf_at_snoc subroot_fun_upd)
  qed (use nth [OF that(1)] in simp)
  then show ?thesis
    using fl' len' lt by (simp add: fr_append_def n fr_rep_def merkle_root_def)
qed

lemma fr_append_full: "fr_rep perm f ls \<Longrightarrow> \<not> length ls < 2 ^ depth \<Longrightarrow> fr_append perm f x = None"
  by (simp add: fr_append_def fr_rep_def)


section \<open>The interface of an append log\<close>

text \<open>
  What the settlement transition, the node's rebuild and the epoch verifier rely on: a log
  represents a list of leaves, appending extends it until the capacity is reached and panics
  there, and the reported root is the reference root while at most \<open>root_cap\<close> leaves are in it.
\<close>

locale leaf_log =
  fixes new_log :: 't
    and app :: "'t \<Rightarrow> digest \<Rightarrow> ('t \<times> 'r) option"
    and log_root :: "'t \<Rightarrow> digest"
    and rep :: "'t \<Rightarrow> digest list \<Rightarrow> bool"
    and perm :: perm
    and root_cap :: nat
  assumes rep_new: "rep new_log []"
    and rep_app: "rep t ls \<Longrightarrow> length ls < 2 ^ depth \<Longrightarrow> \<exists>t' r. app t x = Some (t', r) \<and> rep t' (ls @ [x])"
    and app_full: "rep t ls \<Longrightarrow> \<not> length ls < 2 ^ depth \<Longrightarrow> app t x = None"
    and root_rep: "rep t ls \<Longrightarrow> length ls \<le> root_cap \<Longrightarrow> log_root t = merkle_root perm ls"
    and rep_length: "rep t ls \<Longrightarrow> length ls \<le> 2 ^ depth"
begin

lemma append_all_SomeD: "rep t ls \<Longrightarrow> append_all app t xs = Some t' \<Longrightarrow> rep t' (ls @ xs)"
proof (induction xs arbitrary: t ls)
  case (Cons x xs)
  from Cons.prems obtain u r where u: "app t x = Some (u, r)" "append_all app u xs = Some t'"
    by (auto split: option.splits)
  have "length ls < 2 ^ depth" using app_full [OF Cons.prems(1), of x] u(1) by auto
  then have "rep u (ls @ [x])" using rep_app [OF Cons.prems(1), of x] u(1) by auto
  from Cons.IH [OF this u(2)] show ?case by simp
qed simp

lemma append_all_fits:
  "rep t ls \<Longrightarrow> length ls + length xs \<le> 2 ^ depth \<Longrightarrow> \<exists>t'. append_all app t xs = Some t' \<and> rep t' (ls @ xs)"
proof (induction xs arbitrary: t ls)
  case (Cons x xs)
  then have "length ls < 2 ^ depth" by simp
  with rep_app [OF Cons.prems(1), of x] obtain u r where u: "app t x = Some (u, r)" "rep u (ls @ [x])"
    by auto
  from Cons.IH [OF u(2)] Cons.prems(2) u(1) show ?case by auto
qed simp

lemma append_all_iff:
  assumes "rep t ls"
  shows "(\<exists>t'. append_all app t xs = Some t') \<longleftrightarrow> length ls + length xs \<le> 2 ^ depth"
proof
  assume "\<exists>t'. append_all app t xs = Some t'"
  then obtain t' where "append_all app t xs = Some t'" by blast
  from rep_length [OF append_all_SomeD [OF assms this]] show "length ls + length xs \<le> 2 ^ depth" by simp
qed (use append_all_fits [OF assms] in blast)

lemma append_all_root:
  "rep t ls \<Longrightarrow> append_all app t xs = Some t' \<Longrightarrow> length ls + length xs \<le> root_cap \<Longrightarrow>
     log_root t' = merkle_root perm (ls @ xs)"
  using root_rep [OF append_all_SomeD] by simp

end

interpretation nt: leaf_log nt_new "nt_append perm" "nt_root perm" "nt_rep perm" perm "2 ^ depth"
  for perm
proof unfold_locales
  show "nt_rep perm nt_new []" by (rule nt_rep_new)
  show "\<exists>t' r. nt_append perm t x = Some (t', r) \<and> nt_rep perm t' (ls @ [x])"
    if "nt_rep perm t ls" "length ls < 2 ^ depth" for t ls x
    using nt_rep_append [OF that, of x] by blast
qed (simp_all add: nt_append_full nt_root_rep, simp add: nt_rep_def)

interpretation fr: leaf_log "fr_new perm" "fr_append perm" "fr_root perm" "fr_rep perm" perm "2 ^ depth - 1"
  for perm
proof unfold_locales
  show "fr_rep perm (fr_new perm) []" by (rule fr_rep_new)
  show "\<exists>t' r. fr_append perm t x = Some (t', r) \<and> fr_rep perm t' (ls @ [x])"
    if "fr_rep perm t ls" "length ls < 2 ^ depth" for t ls x
    using fr_rep_append [OF that, of x] by blast
  show "fr_root perm t = merkle_root perm ls" if "fr_rep perm t ls" "length ls \<le> 2 ^ depth - 1" for t ls
    using that by (intro fr_root_rep) (auto simp: less_eq_Suc_le [symmetric] Suc_le_eq intro: le_less_trans)
qed (simp_all add: fr_append_full, simp add: fr_rep_def)

section \<open>Membership paths\<close>

text \<open>The inputs of the compression in a path fold, and inside the reference tree.\<close>

fun path_inputs :: "perm \<Rightarrow> digest \<Rightarrow> nat \<Rightarrow> digest list \<Rightarrow> (digest \<times> digest) list" where
  "path_inputs perm node idx [] = []"
| "path_inputs perm node idx (sib # sibs) =
     (let (l, r) = (if even idx then (node, sib) else (sib, node))
      in (l, r) # path_inputs perm (compress perm l r) (idx div 2) sibs)"

definition tree_inputs :: "perm \<Rightarrow> (nat \<Rightarrow> digest) \<Rightarrow> (digest \<times> digest) set" where
  "tree_inputs perm f = {(subroot perm f h (2 * i), subroot perm f h (2 * i + 1)) | h i. h < depth}"

lemma path_fold_levels:
  assumes "\<And>level i. level < k + m \<Longrightarrow> nd level i = subroot perm f level i"
  shows "path_fold perm (subroot perm f k idx) idx (sibling_levels nd idx [k..<k + m])
    = subroot perm f (k + m) (idx div 2 ^ m)"
  using assms
proof (induction m arbitrary: k idx)
  case (Suc m)
  have nd: "nd k i = subroot perm f k i" for i using Suc.prems [of k] by simp
  have upt: "[k..<k + Suc m] = k # [Suc k..<Suc k + m]" by (simp add: upt_conv_Cons)
  have step: "(if idx AND 1 = 0 then compress perm (subroot perm f k idx) (nd k (idx XOR 1))
      else compress perm (nd k (idx XOR 1)) (subroot perm f k idx)) = subroot perm f (Suc k) (idx div 2)"
    unfolding nd subroot_Suc_div by (cases "even idx") (simp_all add: idx_simps)
  have "path_fold perm (subroot perm f (Suc k) (idx div 2)) (idx div 2)
      (sibling_levels nd (idx div 2) [Suc k..<Suc k + m]) = subroot perm f (Suc k + m) (idx div 2 div 2 ^ m)"
    using Suc.prems by (intro Suc.IH) simp
  then show ?case
    unfolding upt sibling_levels.simps path_fold.simps step by (simp add: div_mult2_eq del: subroot.simps)
qed simp

lemma authentication_path_root:
  assumes "nt_rep perm t ls" and "i < length ls"
  shows "\<exists>path. authentication_path perm t i = Some path \<and> path_index path = i \<and>
    length (siblings path) = depth \<and> root_from_path perm (ls ! i) path = nt_root perm t"
proof -
  let ?sibs = "sibling_levels (node_of perm (nodes t)) i [0..<depth]"
  have len: "length (sibling_levels nd j ks) = length ks" for nd :: "nat \<Rightarrow> nat \<Rightarrow> digest" and j ks
    by (induction ks arbitrary: j) simp_all
  have nd: "node_of perm (nodes t) level j = subroot perm (leaf_at ls) level j" if "level < 0 + depth" for level j
    using assms(1) that by (simp add: nt_rep_def)
  have "i < 2 ^ depth" using assms by (auto simp: nt_rep_def)
  then have "path_fold perm (ls ! i) i ?sibs = subroot perm (leaf_at ls) depth 0"
    using path_fold_levels [of 0 depth "node_of perm (nodes t)" perm "leaf_at ls" i, OF nd] assms(2)
    by (simp add: leaf_at_def)
  then show ?thesis
    using assms nt_root_rep [OF assms(1)]
    by (auto simp: authentication_path_def root_from_path_def merkle_root_def nt_rep_def len)
qed


lemma tree_inputsI:
  "h < depth \<Longrightarrow> even i \<Longrightarrow> (subroot perm f h i, subroot perm f h (i + 1)) \<in> tree_inputs perm f"
  "h < depth \<Longrightarrow> odd i \<Longrightarrow> (subroot perm f h (i - 1), subroot perm f h i) \<in> tree_inputs perm f"
  unfolding tree_inputs_def by (fastforce elim!: evenE oddE)+

lemma path_fold_binding:
  assumes "k + length sibs \<le> depth"
    and "path_fold perm a idx sibs = subroot perm f (k + length sibs) (idx div 2 ^ length sibs)"
  shows "a = subroot perm f k idx \<or> compress_collides perm (set (path_inputs perm a idx sibs)) (tree_inputs perm f)"
  using assms
proof (induction sibs arbitrary: k a idx)
  case (Cons s sibs)
  let ?l = "if even idx then a else s" and ?r = "if even idx then s else a"
  let ?C = "\<lambda>xs. compress_collides perm (set xs) (tree_inputs perm f)"
  have inputs: "path_inputs perm a idx (s # sibs) = (?l, ?r) # path_inputs perm (compress perm ?l ?r) (idx div 2) sibs"
    by simp
  have "path_fold perm (compress perm ?l ?r) (idx div 2) sibs
      = subroot perm f (Suc k + length sibs) (idx div 2 div 2 ^ length sibs)"
    using Cons.prems(2) by (cases "even idx") (simp_all add: idx_simps div_mult2_eq del: subroot.simps and_one_eq)
  then have "compress perm ?l ?r = subroot perm f (Suc k) (idx div 2)
      \<or> ?C (path_inputs perm (compress perm ?l ?r) (idx div 2) sibs)"
    using Cons.prems(1) by (intro Cons.IH) simp_all
  then show ?case
  proof
    assume eq: "compress perm ?l ?r = subroot perm f (Suc k) (idx div 2)"
    have k: "k < depth" using Cons.prems(1) by simp
    show ?thesis
    proof (cases "even idx")
      case True
      with eq have "compress perm a s = compress perm (subroot perm f k idx) (subroot perm f k (idx + 1))"
        unfolding subroot_Suc_div by simp
      from compress_eqD [OF this _ tree_inputsI(1) [OF k True]] inputs True show ?thesis by auto
    next
      case False
      with eq have "compress perm s a = compress perm (subroot perm f k (idx - 1)) (subroot perm f k idx)"
        unfolding subroot_Suc_div by simp
      from compress_eqD [OF this _ tree_inputsI(2) [OF k False]] inputs False show ?thesis by auto
    qed
  next
    assume "?C (path_inputs perm (compress perm ?l ?r) (idx div 2) sibs)"
    then have "?C (path_inputs perm a idx (s # sibs))"
      unfolding inputs by (rule compress_collides_mono) auto
    then show ?thesis ..
  qed
qed simp

section \<open>Properties of the accumulator\<close>

text \<open>
  Appending a list of leaves to an empty \<^verbatim>\<open>NoteTree\<close> succeeds exactly when it has at most
  \<open>2^32\<close> leaves, and then the root the tree reports is the root of the perfect depth-32 tree
  over the leaves, padded with empty leaves.
\<close>

theorem note_tree_root_correct:
  "case append_all (nt_append perm) nt_new leaves of
     None \<Rightarrow> 2 ^ depth < length leaves
   | Some t \<Rightarrow> length leaves \<le> 2 ^ depth \<and> nt_len t = length leaves \<and>
       nt_root perm t = merkle_root perm leaves"
proof (cases "append_all (nt_append perm) nt_new leaves")
  case None
  then show ?thesis using nt.append_all_iff [OF nt.rep_new, of perm leaves] by auto
next
  case (Some t)
  from nt.append_all_SomeD [OF nt.rep_new Some] have "nt_rep perm t leaves" by simp
  then show ?thesis using Some by (simp add: nt_root_rep nt_len_def nt_rep_def)
qed

text \<open>
  C39: The frontier transition of the settlement guest is the full rebuild. From the frontier of
  the leaves before the epoch, \<^verbatim>\<open>settle_tree_transition\<close> over the epoch's leaves returns the root
  before the epoch and the frontier of all leaves, whose root is the root of the note tree
  rebuilt from all leaves, as long as the tree is not completely full.
\<close>

theorem settle_tree_transition_is_rebuild:
  assumes "fr_from_leaves perm old = Some f" and "length (old @ epoch) < 2 ^ depth"
  shows "\<exists>f' t. settle_tree_transition perm f epoch = Some (merkle_root perm old, f')
    \<and> fr_from_leaves perm (old @ epoch) = Some f'
    \<and> append_all (nt_append perm) nt_new (old @ epoch) = Some t
    \<and> fr_root perm f' = nt_root perm t"
proof -
  have app: "append_all a s (xs @ ys) = Option.bind (append_all a s xs) (\<lambda>u. append_all a u ys)"
    for a :: "frontier \<Rightarrow> digest \<Rightarrow> (frontier \<times> digest) option" and s xs ys
    by (induction xs arbitrary: s) (auto split: option.splits)
  have f: "fr_rep perm f old"
    using fr.append_all_SomeD [OF fr.rep_new] assms(1) by (simp add: fr_from_leaves_def)
  obtain f' where f': "append_all (fr_append perm) f epoch = Some f'" "fr_rep perm f' (old @ epoch)"
    using fr.append_all_fits [OF f, of epoch] assms(2) by auto
  obtain t where "append_all (nt_append perm) nt_new (old @ epoch) = Some t" "nt_rep perm t (old @ epoch)"
    using nt.append_all_fits [OF nt.rep_new, of "old @ epoch" perm] assms(2) by auto
  then show ?thesis
    using assms f' fr_root_rep [OF f] fr_root_rep [OF f'(2)]
    by (simp add: settle_tree_transition_def fr_from_leaves_def app nt_root_rep)
qed

text \<open>
  Membership proofs are sound. Any path of 32 siblings that recomputes the tree's root proves
  the leaf that really is at the path's index (the empty leaf beyond the last one), unless one of
  the pairs it hashes collides with a different pair hashed inside the tree.
\<close>

theorem membership_path_sound:
  assumes "append_all (nt_append perm) nt_new leaves = Some t"
    and "length (siblings path) = depth" and "path_index path < 2 ^ depth"
    and "root_from_path perm leaf path = nt_root perm t"
  shows "leaf = leaf_at leaves (path_index path)
    \<or> compress_collides perm (set (path_inputs perm leaf (path_index path) (siblings path)))
        (tree_inputs perm (leaf_at leaves))"
proof -
  have rep: "nt_rep perm t leaves" using nt.append_all_SomeD [OF nt.rep_new assms(1)] by simp
  have "path_fold perm leaf (path_index path) (siblings path)
      = subroot perm (leaf_at leaves) (0 + length (siblings path)) (path_index path div 2 ^ length (siblings path))"
    using assms(2-4) nt_root_rep [OF rep] by (simp add: root_from_path_def merkle_root_def)
  from path_fold_binding [OF _ this] assms(2) show ?thesis by simp
qed

text \<open>
  Membership proofs are complete: the tree hands out a path for every appended leaf, and the
  path recomputes the tree's root from the leaf.
\<close>

theorem membership_path_complete:
  assumes "append_all (nt_append perm) nt_new leaves = Some t" and "i < length leaves"
  shows "\<exists>path. authentication_path perm t i = Some path \<and> path_index path = i
    \<and> root_from_path perm (leaves ! i) path = nt_root perm t"
  using authentication_path_root [OF nt.append_all_SomeD [OF nt.rep_new assms(1)], of i] assms(2) by auto

text \<open>
  The documented equality of the two roots stops at the full tree: with \<open>2^32\<close> leaves the
  frontier reports the root of the empty tree.
\<close>

lemma frontier_root_full:
  assumes "fr_rep perm f ls" and "length ls = 2 ^ depth"
  shows "fr_root perm f = merkle_root perm []"
proof -
  have "fr_root perm f = subroot perm (leaf_at ls) depth 1"
    using fr_root_levels [of ls "filled f" perm depth] assms by (simp add: fr_root_def fr_rep_def)
  also have "\<dots> = zeros perm depth"
    using assms(2) by (intro subroot_empty) (auto simp: leaf_at_def)
  also have "\<dots> = merkle_root perm []"
    unfolding merkle_root_def by (rule subroot_empty [symmetric]) (simp add: leaf_at_def)
  finally show ?thesis .
qed

text \<open>
  The count is committed through a 32-bit limb reduced into the field, so two frontiers whose
  counts differ by the field modulus have the same commitment.
\<close>

lemma fr_commit_count_alias:
  assumes "n + babybear_p < 2 ^ 32"
  shows "fr_commit perm (f \<lparr> leaf_count := n + babybear_p \<rparr>) = fr_commit perm (f \<lparr> leaf_count := n \<rparr>)"
  using assms by (simp add: fr_commit_def)

end
