(* ===== verification/Settled.thy ===== *)
theory Settled
  imports Merkle
begin

text \<open>
  The settled-burn accumulator (\<^verbatim>\<open>engine/src/settled.rs\<close>): a sparse Merkle set of depth 248 over
  the canonical bits of a nullifier (or of the key of a used peg-in). The guest holds only a root
  and is served a witness; \<^verbatim>\<open>SettledSet\<close> is the host's set that produces the witnesses.

  The lemmas relate the two: an accepted witness, honest or not, against the root of a set proves
  that the key is not in the set and yields the root of the set with the key inserted, unless it
  exhibits a collision of the compression. The locale \<open>once_register\<close> states this as the contract
  the settlement chain relies on.
\<close>

definition settled_depth :: nat where "settled_depth = 248"
definition bits_per_limb :: nat where "bits_per_limb = 31"
definition domain_pegin_used :: u32 where "domain_pegin_used = 0x0A05"

definition pegin_used_key :: "perm \<Rightarrow> bytes \<Rightarrow> digest" where
  "pegin_used_key perm box_id = hash_domain perm domain_pegin_used (id_limbs box_id)"

definition settled_empty :: digest where "settled_empty = replicate 8 0"
definition occupied :: digest where "occupied = replicate 8 1"

fun zeros_settled :: "perm \<Rightarrow> nat \<Rightarrow> digest" where
  "zeros_settled perm 0 = settled_empty"
| "zeros_settled perm (Suc level) = compress_self perm (zeros_settled perm level)"

definition empty_settled_root :: "perm \<Rightarrow> digest" where
  "empty_settled_root perm = zeros_settled perm settled_depth"

definition key_bits :: "digest \<Rightarrow> bool list" where
  "key_bits nf0 =
     (let limbs = digest_to_limbs nf0
      in map (\<lambda>k. drop_bit (k mod bits_per_limb) (limbs ! (k div bits_per_limb)) AND 1 = 1)
           [0..<settled_depth])"

definition smt_root_with_leaf :: "perm \<Rightarrow> bool list \<Rightarrow> digest \<Rightarrow> digest list \<Rightarrow> digest" where
  "smt_root_with_leaf perm key leaf sibs =
     fold (\<lambda>level node. if key ! level then compress perm (sibs ! level) node
                        else compress perm node (sibs ! level)) [0..<settled_depth] leaf"

datatype settled_error = AlreadySettled

definition verify_insert :: "perm \<Rightarrow> digest \<Rightarrow> digest \<Rightarrow> digest list \<Rightarrow> settled_error + digest" where
  "verify_insert perm root_in nf0 sibs =
     (let key = key_bits nf0 in
      if smt_root_with_leaf perm key settled_empty sibs \<noteq> root_in then Inl AlreadySettled
      else Inr (smt_root_with_leaf perm key occupied sibs))"

section \<open>The host's set\<close>

record settled_set =
  keys :: "bool list list"

definition settled_new :: settled_set where
  "settled_new = \<lparr> keys = [] \<rparr>"

definition settled_contains :: "settled_set \<Rightarrow> digest \<Rightarrow> bool" where
  "settled_contains s nf0 \<longleftrightarrow> key_bits nf0 \<in> set (keys s)"

fun subtree_root :: "perm \<Rightarrow> bool list list \<Rightarrow> nat \<Rightarrow> digest" where
  "subtree_root perm occ 0 = (if occ = [] then zeros_settled perm 0 else occupied)"
| "subtree_root perm occ (Suc lvl) =
     (if occ = [] then zeros_settled perm (Suc lvl)
      else compress perm (subtree_root perm (filter (\<lambda>k. \<not> k ! lvl) occ) lvl)
                         (subtree_root perm (filter (\<lambda>k. k ! lvl) occ) lvl))"

definition settled_root :: "perm \<Rightarrow> settled_set \<Rightarrow> digest" where
  "settled_root perm s = subtree_root perm (keys s) settled_depth"

definition settled_witness :: "perm \<Rightarrow> settled_set \<Rightarrow> digest \<Rightarrow> digest list" where
  "settled_witness perm s nf0 =
     (let key = key_bits nf0 in
      map (\<lambda>level. subtree_root perm
             (filter (\<lambda>k. k ! level \<noteq> key ! level \<and>
                       list_all (\<lambda>b. k ! b = key ! b) [level + 1..<settled_depth]) (keys s)) level)
        [0..<settled_depth])"

definition settled_insert :: "settled_set \<Rightarrow> digest \<Rightarrow> settled_set" where
  "settled_insert s nf0 =
     (let k = key_bits nf0 in if k \<in> set (keys s) then s else s \<lparr> keys := keys s @ [k] \<rparr>)"

section \<open>Keys\<close>

lemma length_key_bits [simp]: "length (key_bits d) = settled_depth"
  by (simp add: key_bits_def Let_def)

lemma key_bits_nth:
  assumes "i < 8" "j < 31" "length d = 8"
  shows "key_bits d ! (31 * i + j) = bit (as_canonical_u32 (d ! i)) j"
proof -
  have q: "31 * i + j < settled_depth" "(31 * i + j) div 31 = i" "(31 * i + j) mod 31 = j"
    using assms by (auto simp: settled_depth_def)
  have "drop_bit j w AND 1 = 1 \<longleftrightarrow> bit w j" for w :: u32
    by (simp add: and_one_eq bit_iff_odd_drop_bit mod_2_eq_odd)
  then show ?thesis
    using assms q by (simp add: key_bits_def Let_def bits_per_limb_def digest_to_limbs_def)
qed

lemma canonical_top_bit:
  assumes "x < babybear_p" and "bit (as_canonical_u32 x) n"
  shows "n < 31"
proof (rule ccontr)
  assume "\<not> n < 31"
  then have "2 ^ 31 \<le> (2 :: nat) ^ n" by (intro power_increasing) simp_all
  also have "2 ^ n \<le> unat (as_canonical_u32 x)"
  proof (rule ccontr)
    assume "\<not> 2 ^ n \<le> unat (as_canonical_u32 x)"
    then have "take_bit n (unat (as_canonical_u32 x)) = unat (as_canonical_u32 x)"
      by (simp add: take_bit_nat_eq_self)
    moreover have "bit (unat (as_canonical_u32 x)) n" using assms(2) by (simp add: bit_unsigned_iff)
    ultimately show False by (metis bit_take_bit_iff less_irrefl)
  qed
  finally show False using assms(1) by (simp add: unat_as_canonical babybear_p_def)
qed

lemma key_bits_inj:
  assumes "wf_digest a" "wf_digest b"
  shows "key_bits a = key_bits b \<longleftrightarrow> a = b"
proof
  assume eq: "key_bits a = key_bits b"
  have "a ! i = b ! i" if i: "i < 8" for i
  proof -
    have c: "a ! i < babybear_p" "b ! i < babybear_p"
      using assms that by (auto simp: wf_digest_def digest_elems_def)
    have "as_canonical_u32 (a ! i) = as_canonical_u32 (b ! i)"
    proof (rule bit_word_eqI)
      fix n
      show "bit (as_canonical_u32 (a ! i)) n = bit (as_canonical_u32 (b ! i)) n"
      proof (cases "n < 31")
        case True
        then show ?thesis
          using key_bits_nth [OF i True wf_digestD(1) [OF assms(1)]]
            key_bits_nth [OF i True wf_digestD(1) [OF assms(2)]] eq by simp
      next
        case False
        then show ?thesis using canonical_top_bit c by blast
      qed
    qed
    then show ?thesis using as_canonical_inj [OF c] by simp
  qed
  then show "a = b" using assms by (intro nth_equalityI) (auto simp: wf_digestD)
qed simp

section \<open>Witnesses recompute the root\<close>

text \<open>The keys that agree with \<open>key\<close> on the bits at and above \<open>level\<close>.\<close>

definition agreeing :: "bool list \<Rightarrow> nat \<Rightarrow> bool list list \<Rightarrow> bool list list" where
  "agreeing key level ks = filter (\<lambda>k. list_all (\<lambda>b. k ! b = key ! b) [level..<settled_depth]) ks"

definition sibling_roots :: "perm \<Rightarrow> bool list \<Rightarrow> bool list list \<Rightarrow> digest list" where
  "sibling_roots perm key ks =
     map (\<lambda>level. subtree_root perm (filter (\<lambda>k. k ! level \<noteq> key ! level) (agreeing key (level + 1) ks)) level)
       [0..<settled_depth]"

lemma settled_witness_alt: "settled_witness perm s nf0 = sibling_roots perm (key_bits nf0) (keys s)"
  by (simp add: settled_witness_def sibling_roots_def agreeing_def Let_def conj_commute)

lemma subtree_root_Nil: "subtree_root perm [] l = zeros_settled perm l"
  by (cases l) simp_all

lemma subtree_root_split:
  "subtree_root perm occ (Suc b) =
    compress perm (subtree_root perm (filter (\<lambda>k. \<not> k ! b) occ) b)
                  (subtree_root perm (filter (\<lambda>k. k ! b) occ) b)"
  by (simp add: subtree_root_Nil compress_self_def)

lemma agreeing_step:
  assumes "level < settled_depth"
  shows "filter (\<lambda>k. k ! level = key ! level) (agreeing key (Suc level) ks) = agreeing key level ks"
proof -
  have "[level..<settled_depth] = level # [Suc level..<settled_depth]"
    using assms by (rule upt_conv_Cons)
  then show ?thesis by (simp add: agreeing_def conj_commute)
qed

lemma smt_levels:
  assumes "leaf = subtree_root perm (agreeing key 0 ks) 0" and "n \<le> settled_depth"
  shows "fold (\<lambda>level node. if key ! level then compress perm (sibling_roots perm key ks ! level) node
                            else compress perm node (sibling_roots perm key ks ! level)) [0..<n] leaf
    = subtree_root perm (agreeing key n ks) n"
  using assms(2)
proof (induction n)
  case (Suc n)
  have same: "filter (\<lambda>k. k ! n = key ! n) (agreeing key (Suc n) ks) = agreeing key n ks"
    using Suc.prems by (intro agreeing_step) simp
  have sib: "sibling_roots perm key ks ! n =
      subtree_root perm (filter (\<lambda>k. k ! n \<noteq> key ! n) (agreeing key (Suc n) ks)) n"
    using Suc.prems by (simp add: sibling_roots_def)
  show ?case
    using Suc same by (cases "key ! n") (simp_all add: sib subtree_root_split del: subtree_root.simps)
qed (use assms(1) in simp)

lemma agreeing_top: "agreeing key settled_depth ks = ks"
  by (simp add: agreeing_def)

lemma agreeing_bottom:
  assumes "length key = settled_depth" and "\<forall>k \<in> set ks. length k = settled_depth"
  shows "agreeing key 0 ks = filter (\<lambda>k. k = key) ks"
proof -
  have "list_all (\<lambda>b. k ! b = key ! b) [0..<settled_depth] \<longleftrightarrow> k = key" if "k \<in> set ks" for k
    using assms that by (auto simp: list_all_iff intro: nth_equalityI)
  then show ?thesis unfolding agreeing_def by (intro filter_cong) simp_all
qed

definition wf_settled :: "settled_set \<Rightarrow> bool" where
  "wf_settled s \<longleftrightarrow> (\<forall>k \<in> set (keys s). length k = settled_depth) \<and> distinct (keys s)"

lemma wf_settled_new [simp]: "wf_settled settled_new"
  by (simp add: wf_settled_def settled_new_def)

lemma wf_settled_insert: "wf_settled s \<Longrightarrow> wf_settled (settled_insert s nf0)"
  by (auto simp: wf_settled_def settled_insert_def Let_def)

lemma smt_root_witness:
  assumes "wf_settled s"
  shows "smt_root_with_leaf perm (key_bits nf0)
      (if settled_contains s nf0 then occupied else settled_empty) (settled_witness perm s nf0)
    = settled_root perm s"
proof -
  let ?key = "key_bits nf0"
  have "agreeing ?key 0 (keys s) = filter (\<lambda>k. k = ?key) (keys s)"
    using assms by (intro agreeing_bottom) (simp_all add: wf_settled_def)
  then have "(if settled_contains s nf0 then occupied else settled_empty) =
      subtree_root perm (agreeing ?key 0 (keys s)) 0"
    by (auto simp: settled_contains_def filter_empty_conv)
  from smt_levels [OF this order_refl] show ?thesis
    by (simp add: smt_root_with_leaf_def settled_witness_alt settled_root_def agreeing_top)
qed

lemma settled_contains_insert: "settled_contains (settled_insert s x) x"
  by (simp add: settled_contains_def settled_insert_def Let_def)

lemma witness_insert_self: "settled_witness perm (settled_insert s nf0) nf0 = settled_witness perm s nf0"
  by (simp add: settled_witness_def settled_insert_def Let_def)

lemma verify_insert_honest:
  assumes "wf_settled s" and "\<not> settled_contains s nf0"
  shows "verify_insert perm (settled_root perm s) nf0 (settled_witness perm s nf0)
    = Inr (settled_root perm (settled_insert s nf0))"
  using smt_root_witness [OF assms(1), of perm nf0] assms(2)
    smt_root_witness [OF wf_settled_insert [OF assms(1)], of perm nf0 nf0]
  by (simp add: verify_insert_def Let_def settled_contains_insert witness_insert_self)


section \<open>Any accepted witness is the honest one\<close>

text \<open>The inputs of the compression when a root is recomputed from a leaf and its siblings.\<close>

definition smt_inputs :: "perm \<Rightarrow> bool list \<Rightarrow> digest \<Rightarrow> digest list \<Rightarrow> (digest \<times> digest) list" where
  "smt_inputs perm key leaf sibs =
     map (\<lambda>n. let node = fold (\<lambda>level node. if key ! level then compress perm (sibs ! level) node
                                          else compress perm node (sibs ! level)) [0..<n] leaf
              in if key ! n then (sibs ! n, node) else (node, sibs ! n)) [0..<settled_depth]"

lemma smt_levels_binding:
  assumes "n \<le> settled_depth"
    and "fold (\<lambda>level node. if key ! level then compress perm (xs ! level) node
                            else compress perm node (xs ! level)) [0..<n] a
       = fold (\<lambda>level node. if key ! level then compress perm (ys ! level) node
                            else compress perm node (ys ! level)) [0..<n] b"
  shows "(a = b \<and> (\<forall>i < n. xs ! i = ys ! i))
    \<or> compress_collides perm (set (smt_inputs perm key a xs)) (set (smt_inputs perm key b ys))"
  using assms
proof (induction n)
  case (Suc n)
  let ?f = "\<lambda>zs level node. if key ! level then compress perm (zs ! level) node
                             else compress perm node (zs ! level)"
  let ?x = "fold (?f xs) [0..<n] a" and ?y = "fold (?f ys) [0..<n] b"
  have mem: "(if key ! n then (zs ! n, fold (?f zs) [0..<n] c) else (fold (?f zs) [0..<n] c, zs ! n))
      \<in> set (smt_inputs perm key c zs)" for zs c
    using Suc.prems(1) by (auto simp: smt_inputs_def Let_def)
  have "?f xs n ?x = ?f ys n ?y" using Suc.prems(2) by simp
  then have "(?x = ?y \<and> xs ! n = ys ! n)
      \<or> compress_collides perm (set (smt_inputs perm key a xs)) (set (smt_inputs perm key b ys))"
    using compress_eqD [OF _ mem [of xs a, THEN back_subst [of "\<lambda>p. p \<in> _"]] mem [of ys b, THEN back_subst [of "\<lambda>p. p \<in> _"]]]
    by (cases "key ! n") auto
  then show ?case using Suc by (auto simp: less_Suc_eq)
qed simp

lemma length_settled_witness: "length (settled_witness perm s nf0) = settled_depth"
  by (simp add: settled_witness_alt sibling_roots_def)

definition wf_siblings :: "digest list \<Rightarrow> bool" where
  "wf_siblings sibs \<longleftrightarrow> length sibs = settled_depth"

text \<open>
  The collision a false witness would exhibit: a pair hashed by the verifier against a different
  pair hashed in the honest recomputation of the set's root along the same key.
\<close>

definition settled_collision :: "perm \<Rightarrow> settled_set \<Rightarrow> digest \<Rightarrow> digest list \<Rightarrow> bool" where
  "settled_collision perm s nf0 sibs \<longleftrightarrow>
     compress_collides perm (set (smt_inputs perm (key_bits nf0) settled_empty sibs))
       (set (smt_inputs perm (key_bits nf0) (if settled_contains s nf0 then occupied else settled_empty)
          (settled_witness perm s nf0)))"

lemma verify_insert_sound:
  assumes "wf_settled s" and "wf_siblings sibs"
    and "verify_insert perm (settled_root perm s) nf0 sibs = Inr r"
  shows "(\<not> settled_contains s nf0 \<and> r = settled_root perm (settled_insert s nf0))
    \<or> settled_collision perm s nf0 sibs"
proof -
  let ?leaf = "if settled_contains s nf0 then occupied else settled_empty"
  from assms(3) have "smt_root_with_leaf perm (key_bits nf0) settled_empty sibs = settled_root perm s"
    by (auto simp: verify_insert_def Let_def split: if_splits)
  then have "(settled_empty = ?leaf \<and> (\<forall>i < settled_depth. sibs ! i = settled_witness perm s nf0 ! i))
      \<or> settled_collision perm s nf0 sibs"
    unfolding settled_collision_def using smt_root_witness [OF assms(1), of perm nf0]
    by (intro smt_levels_binding) (simp_all add: smt_root_with_leaf_def)
  then show ?thesis
  proof
    assume eq: "settled_empty = ?leaf \<and> (\<forall>i < settled_depth. sibs ! i = settled_witness perm s nf0 ! i)"
    then have "\<not> settled_contains s nf0"
      by (auto simp: settled_empty_def occupied_def split: if_splits)
    moreover have "sibs = settled_witness perm s nf0"
      using eq assms(2) by (intro nth_equalityI) (simp_all add: wf_siblings_def length_settled_witness)
    ultimately show ?thesis
      using verify_insert_honest [OF assms(1), of nf0 perm] assms(3) by simp
  qed simp
qed

section \<open>The once-only register\<close>

text \<open>
  The contract of a root register: whoever holds only the root of a set can check and perform an
  insertion from a witness. Whatever the witness, success means that the element was absent and
  that the new root is the root of the enlarged set, unless the witness is \<open>bad\<close> for that set.
\<close>

locale once_register =
  fixes step :: "'r \<Rightarrow> 'k \<Rightarrow> 'w \<Rightarrow> 'e + 'r"
    and root_of :: "'s \<Rightarrow> 'r"
    and ins :: "'s \<Rightarrow> 'k \<Rightarrow> 's"
    and mem :: "'s \<Rightarrow> 'k \<Rightarrow> bool"
    and ok_set :: "'s \<Rightarrow> bool"
    and ok_witness :: "'w \<Rightarrow> bool"
    and bad :: "'s \<Rightarrow> 'k \<Rightarrow> 'w \<Rightarrow> bool"
  assumes step_sound: "ok_set s \<Longrightarrow> ok_witness w \<Longrightarrow> step (root_of s) k w = Inr r \<Longrightarrow>
      (\<not> mem s k \<and> r = root_of (ins s k)) \<or> bad s k w"
    and mem_ins_self: "mem (ins s k) k"
    and mem_mono: "mem s k' \<Longrightarrow> mem (ins s k) k'"
    and ok_ins: "ok_set s \<Longrightarrow> ok_set (ins s k)"
begin

definition bad_run :: "'s \<Rightarrow> ('k \<times> 'w) list \<Rightarrow> bool" where
  "bad_run s kws \<longleftrightarrow>
     (\<exists>n < length kws. bad (foldl ins s (map fst (take n kws))) (fst (kws ! n)) (snd (kws ! n)))"

lemma bad_run_Cons: "bad_run s ((k, w) # kws) \<longleftrightarrow> bad s k w \<or> bad_run (ins s k) kws"
  unfolding bad_run_def by (auto simp: less_Suc_eq_0_disj)

lemma run_sound:
  assumes "ok_set s" and "\<forall>(k, w) \<in> set kws. ok_witness w"
    and "fold_r (\<lambda>r (k, w). step r k w) (root_of s) kws = Inr r"
  shows "(distinct (map fst kws) \<and> (\<forall>k \<in> set (map fst kws). \<not> mem s k)
      \<and> r = root_of (foldl ins s (map fst kws))) \<or> bad_run s kws"
  using assms
proof (induction kws arbitrary: s)
  case (Cons kw kws)
  obtain k w where kw: "kw = (k, w)" by (cases kw)
  from Cons.prems(3) obtain r' where r': "step (root_of s) k w = Inr r'"
    and rest: "fold_r (\<lambda>r (k, w). step r k w) r' kws = Inr r"
    by (auto simp: kw result_simps)
  from step_sound [OF Cons.prems(1) _ r'] Cons.prems(2) kw
  have step: "(\<not> mem s k \<and> r' = root_of (ins s k)) \<or> bad s k w" by auto
  show ?case
  proof (cases "bad_run s (kw # kws)")
    case False
    then have nb: "\<not> bad s k w" "\<not> bad_run (ins s k) kws" by (simp_all add: kw bad_run_Cons)
    with step have k: "\<not> mem s k" "r' = root_of (ins s k)" by simp_all
    have "\<forall>(k, w) \<in> set kws. ok_witness w" using Cons.prems(2) by simp
    from Cons.IH [OF ok_ins [OF Cons.prems(1)] this rest [unfolded k(2)]] nb(2)
    have IH: "distinct (map fst kws)" "\<forall>x \<in> set (map fst kws). \<not> mem (ins s k) x"
      "r = root_of (foldl ins (ins s k) (map fst kws))"
      by blast+
    have "k \<notin> set (map fst kws)" using IH(2) mem_ins_self by blast
    moreover have "\<forall>x \<in> set (map fst kws). \<not> mem s x" using IH(2) mem_mono by blast
    ultimately show ?thesis using IH k by (simp add: kw)
  qed simp
qed simp

end

interpretation settled: once_register "verify_insert perm" "settled_root perm" settled_insert
    settled_contains wf_settled wf_siblings "settled_collision perm"
  for perm
  by unfold_locales (rule verify_insert_sound, assumption+, rule settled_contains_insert,
    simp add: settled_contains_def settled_insert_def Let_def, rule wf_settled_insert)

text \<open>The collision among the steps of a run of insertions, written out.\<close>

definition settled_run_collision :: "perm \<Rightarrow> settled_set \<Rightarrow> (digest \<times> digest list) list \<Rightarrow> bool" where
  "settled_run_collision perm s ins \<longleftrightarrow>
     (\<exists>n < length ins. settled_collision perm (foldl settled_insert s (map fst (take n ins)))
        (fst (ins ! n)) (snd (ins ! n)))"

lemma settled_bad_run: "settled.bad_run perm s ins \<longleftrightarrow> settled_run_collision perm s ins"
  by (simp add: settled.bad_run_def settled_run_collision_def)

lemmas settled_run_sound = settled.run_sound [unfolded settled_bad_run]

section \<open>Properties of the settled set\<close>

text \<open>
  The host's witness is always accepted for a fresh nullifier: against the root of the set,
  the guest's check passes and returns the root of the set after the insertion.
\<close>

theorem settled_witness_accepted:
  assumes "wf_settled s" and "\<not> settled_contains s nf0"
  shows "verify_insert perm (settled_root perm s) nf0 (settled_witness perm s nf0)
    = Inr (settled_root perm (settled_insert s nf0))"
  using assms by (rule verify_insert_honest)

text \<open>
  Replay is closed. If the guest's chain of insertions, started from the root of a set,
  accepts a sequence of nullifiers with any witnesses, then the nullifiers are pairwise distinct,
  none was in the set before, and the final root is the root of the set with all of them inserted;
  otherwise at some step the witness makes the verifier hash a pair that collides with a different
  pair of the honest recomputation.
\<close>

theorem settled_no_replay:
  assumes "wf_settled s" and "\<forall>(nf, sibs) \<in> set ins. wf_siblings sibs"
    and "fold_r (\<lambda>r (nf, sibs). verify_insert perm r nf sibs) (settled_root perm s) ins = Inr r"
  shows "(distinct (map fst ins) \<and> (\<forall>nf \<in> set (map fst ins). \<not> settled_contains s nf)
      \<and> r = settled_root perm (foldl settled_insert s (map fst ins))) \<or> settled_run_collision perm s ins"
  by (rule settled_run_sound [OF assms])

end
