(* ===== verification/ErgoProofs.thy ===== *)
theory ErgoProofs
  imports HeaderId Settled
begin

text \<open>
  The Ergo-side proofs of the epoch guest: batch-Merkle inclusion
  (\<^verbatim>\<open>engine/src/epoch/batch_merkle.rs\<close>), aux-PoW shares (\<^verbatim>\<open>engine/src/epoch/share.rs\<close>), the
  canonical-anchor walk (\<^verbatim>\<open>engine/src/epoch/anchor.rs\<close>) and the backing of peg-ins by deposits
  (\<^verbatim>\<open>engine/src/epoch/pegin.rs\<close>).

  The Ergo crates are external: the hash, the header accessors and serializers, the compact-bits
  codec, the PoW check, the transaction decoder and the STARK verifier are the fields of
  \<open>ext\<close>, a record of functions every definition takes; headers and transactions are opaque.
  A serializer that returns an error is a \<open>None\<close>.
\<close>

section \<open>External functions\<close>

datatype side = SideLeft | SideRight

record proof_entry =
  pe_digest :: "bytes option"
  pe_side :: side

record batch_proof =
  bp_indices :: "(u32 \<times> bytes) list"
  bp_proofs :: "proof_entry list"

record extension_field =
  ef_key :: bytes
  ef_value :: bytes

text \<open>The parts of an Ergo output that the deposit check reads; \<open>xo_r4\<close> is \<open>Some b\<close> when register
  R4 is a \<^verbatim>\<open>Coll[Byte]\<close> constant with bytes \<open>b\<close>.\<close>

record ergo_output =
  xo_tree :: bytes
  xo_tokens :: "(bytes \<times> u64) list"
  xo_r4 :: "bytes option"

record ('h, 't) ext =
  x_perm :: perm
  x_spend_verify :: "bytes \<Rightarrow> u32 list \<Rightarrow> bool"
  x_blake2b256 :: "bytes \<Rightarrow> bytes"
  x_decode_bits :: "u32 \<Rightarrow> nat"
  x_encode_bits :: "nat \<Rightarrow> u32"
  x_get_target :: "u32 \<Rightarrow> nat"
  x_check_pow :: "bytes \<Rightarrow> bytes \<Rightarrow> u32 \<Rightarrow> u8 \<Rightarrow> nat \<Rightarrow> bool"
  x_h_v2_nonce :: "'h \<Rightarrow> bytes option"
  x_h_bytes_without_pow :: "'h \<Rightarrow> bytes option"
  x_h_id :: "'h \<Rightarrow> bytes option"
  x_h_parent_id :: "'h \<Rightarrow> bytes"
  x_h_extension_root :: "'h \<Rightarrow> bytes"
  x_h_transactions_root :: "'h \<Rightarrow> bytes"
  x_h_height :: "'h \<Rightarrow> u32"
  x_h_version :: "'h \<Rightarrow> u8"
  x_popow_verify :: "batch_proof \<Rightarrow> bytes \<Rightarrow> bool"
  x_read_header :: "bytes \<Rightarrow> ('h \<times> bytes) option"
  x_read_vlq_u64 :: "bytes \<Rightarrow> (u64 \<times> bytes) option"
  x_read_batch_proof :: "bytes \<Rightarrow> batch_proof option"
  x_decode_frontier :: "bytes \<Rightarrow> frontier option"
  x_read_tx :: "bytes \<Rightarrow> ('t \<times> bytes) option"
  x_tx_id :: "'t \<Rightarrow> bytes option"
  x_tx_leaf :: "bytes \<Rightarrow> bytes"
  x_tx_outputs :: "'t \<Rightarrow> ergo_output list"
  x_box_id :: "'t \<Rightarrow> nat \<Rightarrow> bytes option"

section \<open>Batch-Merkle inclusion\<close>

definition internal_node_prefix :: u8 where "internal_node_prefix = 0x01"

definition internal_hash_pair :: "('h, 't) ext \<Rightarrow> bytes \<Rightarrow> bytes \<Rightarrow> bytes" where
  "internal_hash_pair E l r = x_blake2b256 E (internal_node_prefix # l @ r)"

definition internal_hash_left_only :: "('h, 't) ext \<Rightarrow> bytes \<Rightarrow> bytes" where
  "internal_hash_left_only E l = x_blake2b256 E (internal_node_prefix # l)"

definition combine_with_proof_entry :: "('h, 't) ext \<Rightarrow> proof_entry \<Rightarrow> bytes \<Rightarrow> bytes" where
  "combine_with_proof_entry E entry leaf =
     (case pe_digest entry of
        None \<Rightarrow> internal_hash_left_only E leaf
      | Some sibling \<Rightarrow>
          (case pe_side entry of
             SideLeft \<Rightarrow> internal_hash_pair E sibling leaf
           | SideRight \<Rightarrow> internal_hash_pair E leaf sibling))"

definition pair_of :: "u32 \<Rightarrow> u32 \<times> u32" where
  "pair_of i = (if i mod 2 = 0 then (i, i + 1) else (i - 1, i))"

text \<open>One level: the list \<open>e\<close> of (index, digest) pairs carries the index list \<open>a\<close> of the code as
  its first components. \<open>None\<close> is the early return on too few proof entries.\<close>

fun reduce_level ::
  "('h, 't) ext \<Rightarrow> (u32 \<times> bytes) list \<Rightarrow> proof_entry list \<Rightarrow> (bytes list \<times> proof_entry list) option" where
  "reduce_level E [] m = Some ([], m)"
| "reduce_level E [x] m =
     (case m of [] \<Rightarrow> None | entry # m' \<Rightarrow> Some ([combine_with_proof_entry E entry (snd x)], m'))"
| "reduce_level E (x # y # e) m =
     (if pair_of (fst x) = pair_of (fst y) then
        map_option (\<lambda>(ds, m'). (internal_hash_pair E (snd x) (snd y) # ds, m')) (reduce_level E e m)
      else
        (case m of [] \<Rightarrow> None | entry # m' \<Rightarrow>
           map_option (\<lambda>(ds, m''). (combine_with_proof_entry E entry (snd x) # ds, m''))
             (reduce_level E (y # e) m')))"

lemma reduce_level_shrinks:
  "reduce_level E e m = Some (ds, m') \<Longrightarrow> e \<noteq> [] \<Longrightarrow> length ds + length m' < length e + length m"
proof (induction E e m arbitrary: ds m' rule: reduce_level.induct)
  case (3 E x y e m)
  show ?case
  proof (cases "pair_of (fst x) = pair_of (fst y)")
    case True
    with 3 show ?thesis by (cases "e = []") (fastforce split: option.splits)+
  next
    case False
    with 3 show ?thesis by (fastforce split: list.splits)
  qed
qed (auto split: list.splits)

function loop_reduce :: "('h, 't) ext \<Rightarrow> (u32 \<times> bytes) list \<Rightarrow> proof_entry list \<Rightarrow> bytes list" where
  "loop_reduce E e m =
     (case reduce_level E e m of
        None \<Rightarrow> []
      | Some (e_new, m_remaining) \<Rightarrow>
          (let a_new = map (\<lambda>p. fst p div 2) (remdups_adj (map (\<lambda>x. pair_of (fst x)) e)) in
           if (m_remaining \<noteq> [] \<or> length e_new > 1) \<and> a_new \<noteq> [] then
             loop_reduce E (zip a_new e_new) m_remaining
           else e_new))"
  by pat_completeness auto
termination
  by (relation "measure (\<lambda>(E, e, m). length e + length m)")
    (auto dest!: reduce_level_shrinks)

declare loop_reduce.simps [simp del]

definition verify_batch_merkle_proof :: "('h, 't) ext \<Rightarrow> batch_proof \<Rightarrow> bytes \<Rightarrow> bool" where
  "verify_batch_merkle_proof E p expected_root =
     (if bp_indices p = [] \<and> bp_proofs p = [] then True
      else loop_reduce E (sort_key fst (bp_indices p)) (bp_proofs p) = [expected_root])"

section \<open>Aux-PoW shares\<close>

definition aegis_mm_key :: bytes where "aegis_mm_key = [0xAE, 0x00]"
definition mm_commitment_version :: u8 where "mm_commitment_version = 0x01"
definition mm_field_value_len :: nat where "mm_field_value_len = 33"
definition leaf_node_prefix :: u8 where "leaf_node_prefix = 0x00"

record 'h share_witness =
  sw_header :: 'h
  sw_field :: extension_field
  sw_proof :: batch_proof

datatype share_error =
    ShNotAutolykosV2 | ShHeaderEncode | ShProofShape nat | ShProofLeafMismatch | ShProofInvalid
  | ShWrongKey | ShBadValue | ShHeaderIdMismatch | ShZeroTarget u32 | ShPowNotCleared
  | ShShareCountMismatch nat nat | ShSharedPowMessage

definition share_pow_message :: "('h, 't) ext \<Rightarrow> 'h share_witness \<Rightarrow> share_error + bytes" where
  "share_pow_message E w =
     map_sum id (x_blake2b256 E) (ok_or (x_h_bytes_without_pow E (sw_header w)) ShHeaderEncode)"

definition mm_leaf_digest :: "('h, 't) ext \<Rightarrow> extension_field \<Rightarrow> bytes" where
  "mm_leaf_digest E f =
     x_blake2b256 E (leaf_node_prefix # of_nat (length (ef_key f)) # ef_key f @ ef_value f)"

definition verify_share ::
  "('h, 't) ext \<Rightarrow> 'h share_witness \<Rightarrow> bytes \<Rightarrow> u32 \<Rightarrow> share_error + nat" where
  "verify_share E w hid nbits =
     (case x_h_v2_nonce E (sw_header w) of None \<Rightarrow> Inl ShNotAutolykosV2 | Some nonce \<Rightarrow>
      bind_r (share_pow_message E w) (\<lambda>msg.
      if length (bp_indices (sw_proof w)) \<noteq> 1 then Inl (ShProofShape (length (bp_indices (sw_proof w))))
      else if snd (bp_indices (sw_proof w) ! 0) \<noteq> mm_leaf_digest E (sw_field w) then Inl ShProofLeafMismatch
      else if \<not> verify_batch_merkle_proof E (sw_proof w) (x_h_extension_root E (sw_header w)) then Inl ShProofInvalid
      else if ef_key (sw_field w) \<noteq> aegis_mm_key then Inl ShWrongKey
      else if length (ef_value (sw_field w)) \<noteq> mm_field_value_len
           \<or> ef_value (sw_field w) ! 0 \<noteq> mm_commitment_version then Inl ShBadValue
      else if drop 1 (ef_value (sw_field w)) \<noteq> hid then Inl ShHeaderIdMismatch
      else if x_get_target E nbits = 0 then Inl (ShZeroTarget nbits)
      else if \<not> x_check_pow E msg nonce (x_h_height E (sw_header w)) (x_h_version E (sw_header w))
                 (x_get_target E nbits) then Inl ShPowNotCleared
      else Inr (x_decode_bits E nbits)))"

definition suffix_share_step ::
  "('h, 't) ext \<Rightarrow> u32 \<Rightarrow> bytes list \<times> nat list \<Rightarrow> suffix_block \<times> 'h share_witness
     \<Rightarrow> share_error + bytes list \<times> nat list" where
  "suffix_share_step E chain_id st bw =
     (let (seen, works) = st; (block, share) = bw;
          hid = header_id (x_perm E) chain_id block
      in bind_r (verify_share E share hid (sb_nbits block)) (\<lambda>work.
         bind_r (share_pow_message E share) (\<lambda>msg.
         if msg \<in> set seen then Inl ShSharedPowMessage
         else Inr (seen @ [msg], works @ [work]))))"

definition verify_suffix_shares ::
  "('h, 't) ext \<Rightarrow> u32 \<Rightarrow> suffix_block list \<Rightarrow> 'h share_witness list \<Rightarrow> share_error + nat list" where
  "verify_suffix_shares E chain_id blocks shares =
     (if length blocks \<noteq> length shares then Inl (ShShareCountMismatch (length blocks) (length shares))
      else map_sum id snd (fold_r (suffix_share_step E chain_id) ([], []) (zip blocks shares)))"

section \<open>Anchor linkage\<close>

definition a_min :: nat where "a_min = 3"

record 'h anchor_witness =
  aw_headers :: "'h list"
  aw_field :: extension_field
  aw_proof :: batch_proof

datatype anchor_error =
    AnEmptyChain | AnRefMismatch | AnChainBroken nat nat | AnProofShape nat | AnBadCommitment
  | AnProofLeafMismatch | AnProofInvalid | AnAnchoredIdMismatch | AnInsufficientDepth nat nat
  | AnHeaderEncode

definition ergo_header_id :: "('h, 't) ext \<Rightarrow> 'h \<Rightarrow> anchor_error + bytes" where
  "ergo_header_id E h = ok_or (x_h_id E h) AnHeaderEncode"

fun verify_links :: "('h, 't) ext \<Rightarrow> nat \<Rightarrow> 'h list \<Rightarrow> anchor_error + unit" where
  "verify_links E i (h # h' # hs) =
     bind_r (ergo_header_id E h') (\<lambda>ident.
       if x_h_parent_id E h \<noteq> ident then Inl (AnChainBroken i (i + 1))
       else verify_links E (i + 1) (h' # hs))"
| "verify_links E i hs = Inr ()"

definition verify_ancestor_walk :: "('h, 't) ext \<Rightarrow> 'h list \<Rightarrow> bytes \<Rightarrow> anchor_error + unit" where
  "verify_ancestor_walk E headers ergo_ref_id =
     (case headers of [] \<Rightarrow> Inl AnEmptyChain
      | h # hs \<Rightarrow>
          bind_r (ergo_header_id E h) (\<lambda>ident.
            if ident \<noteq> ergo_ref_id then Inl AnRefMismatch else verify_links E 0 headers))"

definition verify_anchor_linkage ::
  "('h, 't) ext \<Rightarrow> 'h anchor_witness \<Rightarrow> bytes \<Rightarrow> bytes \<Rightarrow> anchor_error + nat" where
  "verify_anchor_linkage E w ergo_ref_id anchored_hn_id =
     bind_r (verify_ancestor_walk E (aw_headers w) ergo_ref_id) (\<lambda>_.
       if length (bp_indices (aw_proof w)) \<noteq> 1 then Inl (AnProofShape (length (bp_indices (aw_proof w))))
       else if ef_key (aw_field w) \<noteq> aegis_mm_key \<or> length (ef_value (aw_field w)) \<noteq> 1 + 32
            \<or> ef_value (aw_field w) ! 0 \<noteq> mm_commitment_version then Inl AnBadCommitment
       else if snd (bp_indices (aw_proof w) ! 0) \<noteq> mm_leaf_digest E (aw_field w) then Inl AnProofLeafMismatch
       else if \<not> verify_batch_merkle_proof E (aw_proof w) (x_h_extension_root E (last (aw_headers w)))
            then Inl AnProofInvalid
       else if drop 1 (ef_value (aw_field w)) \<noteq> anchored_hn_id then Inl AnAnchoredIdMismatch
       else Inr (length (aw_headers w) - 1))"

definition verify_anchor_linkage_min_depth ::
  "('h, 't) ext \<Rightarrow> 'h anchor_witness \<Rightarrow> bytes \<Rightarrow> bytes \<Rightarrow> nat \<Rightarrow> anchor_error + nat" where
  "verify_anchor_linkage_min_depth E w ergo_ref_id anchored_hn_id amin =
     bind_r (verify_anchor_linkage E w ergo_ref_id anchored_hn_id) (\<lambda>d.
       if d < amin then Inl (AnInsufficientDepth d amin) else Inr d)"


section \<open>Peg-in backing\<close>

definition pegin_confirmations_const :: nat where "pegin_confirmations_const = 10"
definition sc_dest_len :: nat where "sc_dest_len = 64"

record deposit_params =
  dep_vault_tree :: bytes
  dep_use_token :: bytes
  dep_confirmations :: nat

record deposit_proof =
  dp_tx_bytes :: bytes
  dp_output_index :: nat
  dp_tx_proof :: batch_proof
  dp_header_index :: nat
  dp_used_path :: "digest list"

record 'h pegin_witness =
  pw_headers :: "'h list"
  pw_deposits :: "deposit_proof list"

datatype pegin_error =
    PgDepositCountMismatch nat nat | PgWalkLinkage anchor_error | PgDuplicateInSuffix nat bytes
  | PgHeaderIndexOob nat nat nat | PgInsufficientConfirmations nat nat nat | PgTxDecode nat
  | PgTxTrailing nat | PgTxIdEncode nat | PgProofShape nat nat | PgProofLeafMismatch nat
  | PgProofInvalid nat | PgOutputIndexOob nat nat nat | PgWrongVaultTree nat | PgWrongUseToken nat
  | PgBadR4 nat | PgDestOwnerMismatch nat | PgBoxIdEncode nat | PgBoxIdMismatch nat
  | PgAlreadyMinted nat

definition deposit_tx_included ::
  "('h, 't) ext \<Rightarrow> nat \<Rightarrow> deposit_proof \<Rightarrow> 'h \<Rightarrow> pegin_error + 't" where
  "deposit_tx_included E i dp h_dep =
     bind_r (ok_or (x_read_tx E (dp_tx_bytes dp)) (PgTxDecode i)) (\<lambda>(tx, rest).
     if rest \<noteq> [] then Inl (PgTxTrailing i)
     else bind_r (ok_or (x_tx_id E tx) (PgTxIdEncode i)) (\<lambda>txid.
       if length (bp_indices (dp_tx_proof dp)) \<noteq> 1
       then Inl (PgProofShape i (length (bp_indices (dp_tx_proof dp))))
       else if snd (bp_indices (dp_tx_proof dp) ! 0) \<noteq> x_tx_leaf E txid then Inl (PgProofLeafMismatch i)
       else if \<not> verify_batch_merkle_proof E (dp_tx_proof dp) (x_h_transactions_root E h_dep)
            then Inl (PgProofInvalid i)
       else Inr tx))"

definition deposit_well_formed ::
  "('h, 't) ext \<Rightarrow> nat \<Rightarrow> peg_in \<Rightarrow> deposit_proof \<Rightarrow> deposit_params \<Rightarrow> 't \<Rightarrow> pegin_error + unit" where
  "deposit_well_formed E i p dp params tx =
     (if dp_output_index dp \<ge> length (x_tx_outputs E tx)
      then Inl (PgOutputIndexOob i (dp_output_index dp) (length (x_tx_outputs E tx)))
      else let out = x_tx_outputs E tx ! dp_output_index dp in
      if xo_tree out \<noteq> dep_vault_tree params then Inl (PgWrongVaultTree i)
      else if \<not> list_ex (\<lambda>(token, amount). token = dep_use_token params \<and> amount = pi_amount p) (xo_tokens out)
           then Inl (PgWrongUseToken i)
      else (case xo_r4 out of None \<Rightarrow> Inl (PgBadR4 i) | Some payload \<Rightarrow>
        if length payload \<noteq> sc_dest_len then Inl (PgBadR4 i)
        else if take 32 payload \<noteq> digest_to_bytes (pi_dest_owner p) then Inl (PgDestOwnerMismatch i)
        else bind_r (ok_or (x_box_id E tx (dp_output_index dp)) (PgBoxIdEncode i)) (\<lambda>box_id.
          if box_id \<noteq> pi_box_id p then Inl (PgBoxIdMismatch i) else Inr ())))"

definition verify_one_deposit ::
  "('h, 't) ext \<Rightarrow> nat \<Rightarrow> peg_in \<Rightarrow> deposit_proof \<Rightarrow> 'h list \<Rightarrow> deposit_params \<Rightarrow> pegin_error + unit" where
  "verify_one_deposit E i p dp headers params =
     (if dp_header_index dp \<ge> length headers
      then Inl (PgHeaderIndexOob i (dp_header_index dp) (length headers))
      else if dp_header_index dp < dep_confirmations params
      then Inl (PgInsufficientConfirmations i (dp_header_index dp) (dep_confirmations params))
      else bind_r (deposit_tx_included E i dp (headers ! dp_header_index dp))
             (deposit_well_formed E i p dp params))"

definition pegin_backing_step ::
  "('h, 't) ext \<Rightarrow> 'h list \<Rightarrow> deposit_params \<Rightarrow> bytes list \<times> digest
     \<Rightarrow> nat \<times> peg_in \<times> deposit_proof \<Rightarrow> pegin_error + bytes list \<times> digest" where
  "pegin_backing_step E headers params st ipd =
     (let (seen, settled_root) = st; (i, p, dp) = ipd in
      if pi_box_id p \<in> set seen then Inl (PgDuplicateInSuffix i (pi_box_id p))
      else bind_r (verify_one_deposit E i p dp headers params) (\<lambda>_.
        bind_r (map_err (\<lambda>_. PgAlreadyMinted i)
            (verify_insert (x_perm E) settled_root (pegin_used_key (x_perm E) (pi_box_id p)) (dp_used_path dp)))
          (\<lambda>root'. Inr (seen @ [pi_box_id p], root'))))"

definition suffix_pegins :: "suffix_block list \<Rightarrow> peg_in list" where
  "suffix_pegins blocks = concat (map sb_pegins blocks)"

definition verify_pegin_backing ::
  "('h, 't) ext \<Rightarrow> suffix_block list \<Rightarrow> 'h pegin_witness \<Rightarrow> bytes \<Rightarrow> digest \<Rightarrow> deposit_params
     \<Rightarrow> pegin_error + digest" where
  "verify_pegin_backing E blocks wit ergo_ref_id settled_root_in params =
     (let pegins = suffix_pegins blocks in
      if length (pw_deposits wit) \<noteq> length pegins
      then Inl (PgDepositCountMismatch (length (pw_deposits wit)) (length pegins))
      else if pegins = [] then Inr settled_root_in
      else bind_r (map_err PgWalkLinkage (verify_ancestor_walk E (pw_headers wit) ergo_ref_id)) (\<lambda>_.
        map_sum id snd
          (fold_r (pegin_backing_step E (pw_headers wit) params) ([], settled_root_in)
            (enumerate 0 (zip pegins (pw_deposits wit))))))"

section \<open>Facts about the checks\<close>

lemma map_sum_eq_Inr [result_simps]: "map_sum id f m = Inr v \<longleftrightarrow> (\<exists>u. m = Inr u \<and> v = f u)"
  by (cases m) auto

lemmas check_simps = result_simps if_err_eq_Inr

lemma verify_links_ok:
  "verify_links E i hs = Inr () \<longleftrightarrow>
     (\<forall>k. Suc k < length hs \<longrightarrow> x_h_id E (hs ! Suc k) = Some (x_h_parent_id E (hs ! k)))"
proof (induction E i hs rule: verify_links.induct)
  case (1 E i h h' hs)
  then show ?case
    by (auto simp: result_simps ergo_header_id_def All_less_Suc2 nth_Cons split: nat.splits)
qed auto

lemma verify_ancestor_walk_ok:
  "verify_ancestor_walk E hs ref = Inr () \<longleftrightarrow> hs \<noteq> [] \<and> x_h_id E (hd hs) = Some ref \<and>
     (\<forall>k. Suc k < length hs \<longrightarrow> x_h_id E (hs ! Suc k) = Some (x_h_parent_id E (hs ! k)))"
  by (cases hs) (auto simp: verify_ancestor_walk_def result_simps ergo_header_id_def verify_links_ok)

definition share_commits :: "('h, 't) ext \<Rightarrow> bytes \<Rightarrow> u32 \<Rightarrow> 'h share_witness \<Rightarrow> bytes \<Rightarrow> bool" where
  "share_commits E hid nbits w msg \<longleftrightarrow>
     ef_key (sw_field w) = aegis_mm_key \<and> ef_value (sw_field w) = mm_commitment_version # hid \<and>
     map snd (bp_indices (sw_proof w)) = [mm_leaf_digest E (sw_field w)] \<and>
     verify_batch_merkle_proof E (sw_proof w) (x_h_extension_root E (sw_header w)) \<and>
     map_option (x_blake2b256 E) (x_h_bytes_without_pow E (sw_header w)) = Some msg \<and>
     0 < x_get_target E nbits \<and>
     (\<exists>nonce. x_h_v2_nonce E (sw_header w) = Some nonce \<and>
        x_check_pow E msg nonce (x_h_height E (sw_header w)) (x_h_version E (sw_header w)) (x_get_target E nbits))"

lemma share_pow_message_ok:
  "share_pow_message E w = Inr msg \<longleftrightarrow>
     map_option (x_blake2b256 E) (x_h_bytes_without_pow E (sw_header w)) = Some msg"
  by (auto simp: share_pow_message_def result_simps)

lemma verify_share_ok:
  assumes "verify_share E w hid nbits = Inr work"
  shows "\<exists>msg. share_pow_message E w = Inr msg \<and> share_commits E hid nbits w msg \<and> work = x_decode_bits E nbits"
proof -
  from assms obtain nonce msg where n: "x_h_v2_nonce E (sw_header w) = Some nonce"
    and m: "share_pow_message E w = Inr msg"
    and c: "length (bp_indices (sw_proof w)) = 1" "snd (bp_indices (sw_proof w) ! 0) = mm_leaf_digest E (sw_field w)"
      "verify_batch_merkle_proof E (sw_proof w) (x_h_extension_root E (sw_header w))"
      "ef_key (sw_field w) = aegis_mm_key" "length (ef_value (sw_field w)) = mm_field_value_len"
      "ef_value (sw_field w) ! 0 = mm_commitment_version" "drop 1 (ef_value (sw_field w)) = hid"
      "x_get_target E nbits \<noteq> 0"
      "x_check_pow E msg nonce (x_h_height E (sw_header w)) (x_h_version E (sw_header w)) (x_get_target E nbits)"
    and "work = x_decode_bits E nbits"
    unfolding verify_share_def by (auto simp: result_simps split: option.splits if_splits)
  moreover have "map snd (bp_indices (sw_proof w)) = [mm_leaf_digest E (sw_field w)]"
    using c(1,2) by (cases "bp_indices (sw_proof w)") auto
  moreover have "ef_value (sw_field w) = mm_commitment_version # hid"
    using c(5-7) by (cases "ef_value (sw_field w)") (auto simp: mm_field_value_len_def)
  ultimately show ?thesis
    unfolding share_commits_def by (auto simp: share_pow_message_ok)
qed

lemma suffix_shares_invariant:
  assumes "fold_r (suffix_share_step E c) ([], []) bws = Inr (seen, works)"
  shows "length seen = length bws \<and> distinct seen
    \<and> works = map (\<lambda>bw. x_decode_bits E (sb_nbits (fst bw))) bws
    \<and> (\<forall>i < length bws. share_commits E (header_id (x_perm E) c (fst (bws ! i)))
          (sb_nbits (fst (bws ! i))) (snd (bws ! i)) (seen ! i))"
    (is "?I bws (seen, works)")
proof -
  let ?J = "\<lambda>bws st. length (fst st) = length bws \<and> distinct (fst st)
    \<and> snd st = map (\<lambda>bw. x_decode_bits E (sb_nbits (fst bw))) bws
    \<and> (\<forall>i < length bws. share_commits E (header_id (x_perm E) c (fst (bws ! i)))
          (sb_nbits (fst (bws ! i))) (snd (bws ! i)) (fst st ! i))"
  have "?J bws (seen, works)"
    by (rule fold_r_prefix_invariant [OF assms])
      (auto simp: suffix_share_step_def result_simps nth_append less_Suc_eq dest!: verify_share_ok
        split: prod.splits if_splits)
  then show ?thesis by simp
qed


section \<open>Properties of the proofs\<close>

text \<open>
  An accepted suffix pays one proof of work per block. When the share verifier accepts, there
  is one PoW message per block, the messages are pairwise distinct, and each message clears the
  target of its block's own difficulty under a header whose extension commits exactly the
  recomputed id of that block; the reported work is the decoded difficulty, block by block.
\<close>

theorem suffix_shares_distinct_work:
  assumes "verify_suffix_shares E chain_id blocks shares = Inr works"
  shows "\<exists>msgs. length msgs = length blocks \<and> length shares = length blocks \<and> distinct msgs
    \<and> works = map (\<lambda>b. x_decode_bits E (sb_nbits b)) blocks
    \<and> (\<forall>i < length blocks. share_commits E (header_id (x_perm E) chain_id (blocks ! i))
          (sb_nbits (blocks ! i)) (shares ! i) (msgs ! i))"
proof -
  let ?bws = "zip blocks shares"
  from assms have len: "length blocks = length shares"
    and run: "\<exists>seen. fold_r (suffix_share_step E chain_id) ([], []) ?bws = Inr (seen, works)"
    by (auto simp: verify_suffix_shares_def result_simps split: if_splits)
  from run obtain seen where "fold_r (suffix_share_step E chain_id) ([], []) ?bws = Inr (seen, works)" ..
  from suffix_shares_invariant [OF this] len show ?thesis
    by (intro exI [of _ seen]) (simp add: map_fst_zip flip: map_map [where f = "\<lambda>b. x_decode_bits E (sb_nbits b)" and g = fst, unfolded comp_def])
qed

text \<open>
  The anchor check proves burial. When it accepts at depth \<open>d\<close>, the witness is a chain of
  \<open>d + 1\<close> headers that starts at the reference id, is linked by parent ids header by header, is at
  least \<open>amin\<close> deep, and ends in a header whose extension commits the anchored block id.
\<close>

theorem anchor_linkage_buried:
  assumes "verify_anchor_linkage_min_depth E w ergo_ref anchored amin = Inr d"
  shows "amin \<le> d \<and> length (aw_headers w) = d + 1
    \<and> x_h_id E (aw_headers w ! 0) = Some ergo_ref
    \<and> (\<forall>k < d. x_h_id E (aw_headers w ! Suc k) = Some (x_h_parent_id E (aw_headers w ! k)))
    \<and> ef_key (aw_field w) = aegis_mm_key \<and> ef_value (aw_field w) = mm_commitment_version # anchored
    \<and> map snd (bp_indices (aw_proof w)) = [mm_leaf_digest E (aw_field w)]
    \<and> verify_batch_merkle_proof E (aw_proof w) (x_h_extension_root E (aw_headers w ! d))"
proof -
  from assms have link: "verify_anchor_linkage E w ergo_ref anchored = Inr d" and "amin \<le> d"
    by (auto simp: verify_anchor_linkage_min_depth_def result_simps split: if_splits)
  from link have walk: "verify_ancestor_walk E (aw_headers w) ergo_ref = Inr ()"
    and c: "length (bp_indices (aw_proof w)) = 1" "ef_key (aw_field w) = aegis_mm_key"
      "length (ef_value (aw_field w)) = 33" "ef_value (aw_field w) ! 0 = mm_commitment_version"
      "snd (bp_indices (aw_proof w) ! 0) = mm_leaf_digest E (aw_field w)"
      "verify_batch_merkle_proof E (aw_proof w) (x_h_extension_root E (last (aw_headers w)))"
      "drop 1 (ef_value (aw_field w)) = anchored" and d: "d = length (aw_headers w) - 1"
    unfolding verify_anchor_linkage_def by (auto simp: result_simps split: if_splits)
  from walk have ne: "aw_headers w \<noteq> []" by (simp add: verify_ancestor_walk_ok)
  moreover have "ef_value (aw_field w) = mm_commitment_version # anchored"
    using c(3,4,7) by (cases "ef_value (aw_field w)") auto
  moreover have "map snd (bp_indices (aw_proof w)) = [mm_leaf_digest E (aw_field w)]"
    using c(1,5) by (cases "bp_indices (aw_proof w)") auto
  ultimately show ?thesis
    using walk c d \<open>amin \<le> d\<close>
    by (auto simp: verify_ancestor_walk_ok hd_conv_nth last_conv_nth)
qed

lemma pegin_steps_verify_inserts:
  assumes "fold_r (pegin_backing_step E hs params) (seen, r) ipds = Inr (seen', r')"
  shows "fold_r (\<lambda>r (nf, sibs). verify_insert (x_perm E) r nf sibs) r
      (map (\<lambda>(i, p, dp). (pegin_used_key (x_perm E) (pi_box_id p), dp_used_path dp)) ipds) = Inr r'
    \<and> seen' = seen @ map (\<lambda>(i, p, dp). pi_box_id p) ipds
    \<and> (distinct seen \<longrightarrow> distinct seen')
    \<and> (\<forall>(i, p, dp) \<in> set ipds. verify_one_deposit E i p dp hs params = Inr ())"
  using assms
proof (induction ipds arbitrary: seen r)
  case (Cons ipd ipds)
  obtain i p dp where ipd: "ipd = (i, p, dp)" by (cases ipd)
  from Cons.prems obtain r1 where step: "pi_box_id p \<notin> set seen"
      "verify_one_deposit E i p dp hs params = Inr ()"
      "verify_insert (x_perm E) r (pegin_used_key (x_perm E) (pi_box_id p)) (dp_used_path dp) = Inr r1"
    and rest: "fold_r (pegin_backing_step E hs params) (seen @ [pi_box_id p], r1) ipds = Inr (seen', r')"
    by (auto simp: ipd pegin_backing_step_def [of E hs params "(seen, r)" "(i, p, dp)"] result_simps
        split: if_splits)
  note IH = Cons.IH [OF rest]
  from IH have "distinct (seen @ [pi_box_id p]) \<longrightarrow> distinct seen'" by blast
  with step(1) have d: "distinct seen \<longrightarrow> distinct seen'" by simp
  show ?case
  proof (intro conjI)
    show "distinct seen \<longrightarrow> distinct seen'" by (rule d)
  qed (use IH step(2,3) in \<open>simp_all add: ipd\<close>)
qed simp

text \<open>
  Peg-ins are backed and minted once. When the backing check accepts against the root of a
  settled set, every peg-in of the suffix has a deposit check that succeeded, the box ids are
  pairwise distinct, the one-mint keys were not in the set and are pairwise distinct, and the
  returned root is the root of the set with all of them inserted, unless at some step the
  witness makes the verifier hash a pair that collides with one of the honest recomputation.
\<close>

theorem pegin_backing_once:
  assumes ok: "verify_pegin_backing E blocks wit ergo_ref (settled_root (x_perm E) s) params = Inr r"
    and s: "wf_settled s"
    and paths: "\<forall>dp \<in> set (pw_deposits wit). wf_siblings (dp_used_path dp)"
  shows "let pegins = suffix_pegins blocks; key = (\<lambda>p. pegin_used_key (x_perm E) (pi_box_id p));
      ins = zip (map key pegins) (map dp_used_path (pw_deposits wit)) in
    length (pw_deposits wit) = length pegins \<and> distinct (map pi_box_id pegins)
    \<and> (\<forall>i < length pegins. verify_one_deposit E i (pegins ! i) (pw_deposits wit ! i) (pw_headers wit) params = Inr ())
    \<and> ((distinct (map key pegins) \<and> (\<forall>p \<in> set pegins. \<not> settled_contains s (key p))
        \<and> r = settled_root (x_perm E) (foldl settled_insert s (map key pegins)))
       \<or> settled_run_collision (x_perm E) s ins)"
proof (cases "suffix_pegins blocks = []")
  case True
  then show ?thesis using ok by (auto simp: verify_pegin_backing_def Let_def split: if_splits)
next
  case False
  let ?ps = "suffix_pegins blocks" and ?key = "\<lambda>p. pegin_used_key (x_perm E) (pi_box_id p)"
  let ?ipds = "enumerate 0 (zip ?ps (pw_deposits wit))"
  from ok False have len: "length (pw_deposits wit) = length ?ps"
    by (auto simp: verify_pegin_backing_def Let_def split: if_splits)
  from ok False len obtain seen where
    run: "fold_r (pegin_backing_step E (pw_headers wit) params) ([], settled_root (x_perm E) s) ?ipds = Inr (seen, r)"
    by (auto simp: verify_pegin_backing_def Let_def result_simps)
  note steps = pegin_steps_verify_inserts [OF run]
  have snds: "map snd ?ipds = zip ?ps (pw_deposits wit)" by simp
  have ids: "map (\<lambda>(i, p, dp). pi_box_id p) ?ipds = map pi_box_id ?ps"
  proof -
    have "map (\<lambda>(i, p, dp). pi_box_id p) ?ipds = map (\<lambda>pd. pi_box_id (fst pd)) (map snd ?ipds)"
      by (simp only: map_map comp_def case_prod_unfold)
    also have "\<dots> = map pi_box_id (map fst (zip ?ps (pw_deposits wit)))"
      unfolding snds by (simp only: map_map comp_def)
    also have "\<dots> = map pi_box_id ?ps" using len by (simp only: map_fst_zip)
    finally show ?thesis .
  qed
  have "distinct seen" using steps by (meson distinct.simps(1))
  moreover have "seen = map pi_box_id ?ps" using steps ids by simp
  ultimately have dist: "distinct (map pi_box_id ?ps)" by blast
  have dep: "verify_one_deposit E i (?ps ! i) (pw_deposits wit ! i) (pw_headers wit) params = Inr ()"
    if "i < length ?ps" for i
  proof -
    have "(i, ?ps ! i, pw_deposits wit ! i) \<in> set ?ipds"
      using that len by (auto simp: in_set_enumerate_eq)
    then show ?thesis using steps by blast
  qed
  let ?ins = "map (\<lambda>pd. (?key (fst pd), dp_used_path (snd pd))) (zip ?ps (pw_deposits wit))"
  have ins: "map (\<lambda>(i, p, dp). (?key p, dp_used_path dp)) ?ipds = ?ins"
  proof -
    have "?ins = map (\<lambda>pd. (?key (fst pd), dp_used_path (snd pd))) (map snd ?ipds)"
      by (simp only: snds)
    then show ?thesis by (simp only: map_map comp_def case_prod_unfold)
  qed
  have keys: "map fst ?ins = map ?key ?ps"
  proof -
    have "map fst ?ins = map ?key (map fst (zip ?ps (pw_deposits wit)))"
      by (simp only: map_map comp_def fst_conv)
    then show ?thesis using len by (simp only: map_fst_zip)
  qed
  have zips: "?ins = zip (map ?key ?ps) (map dp_used_path (pw_deposits wit))"
    by (simp add: zip_map_map case_prod_unfold)
  have wf: "\<forall>(nf, sibs) \<in> set ?ins. wf_siblings sibs"
    using paths by (auto dest: set_zip_rightD)
  have "fold_r (\<lambda>r (nf, sibs). verify_insert (x_perm E) r nf sibs) (settled_root (x_perm E) s) ?ins = Inr r"
    using steps unfolding ins by simp
  from settled_run_sound [OF s wf this]
  have "(distinct (map fst ?ins) \<and> (\<forall>k \<in> set (map fst ?ins). \<not> settled_contains s k)
      \<and> r = settled_root (x_perm E) (foldl settled_insert s (map fst ?ins))) \<or> settled_run_collision (x_perm E) s ?ins" .
  then have "(distinct (map ?key ?ps) \<and> (\<forall>k \<in> set (map ?key ?ps). \<not> settled_contains s k)
      \<and> r = settled_root (x_perm E) (foldl settled_insert s (map ?key ?ps)))
      \<or> settled_run_collision (x_perm E) s (zip (map ?key ?ps) (map dp_used_path (pw_deposits wit)))"
    by (simp only: keys flip: zips)
  with dist dep len show ?thesis by (simp add: Let_def)
qed

end
