(* ===== verification/Daa.thy ===== *)
theory Daa
  imports ErgoProofs
begin

text \<open>
  LWMA difficulty adjustment: the node's \<^verbatim>\<open>next_nbits\<close> (\<^verbatim>\<open>aegis-node/src/daa.rs\<close>) and the guest's
  port of it (\<^verbatim>\<open>engine/src/epoch/daa.rs\<close>). Difficulties and targets are unbounded (\<^verbatim>\<open>BigUint\<close>);
  times are 64-bit and the weighted sum is 128-bit, both wrapping. \<open>None\<close> is a panic: a clamp with
  an empty range (target of zero seconds) or a division by zero (empty window).
\<close>

type_synonym u128 = "128 word"

record daa_params =
  daa_target_secs :: u64
  daa_window :: nat
  daa_min_nbits :: u32

definition daa_ceiling :: nat where "daa_ceiling = 2 ^ 256"

definition clamp :: "'a::linorder \<Rightarrow> 'a \<Rightarrow> 'a \<Rightarrow> 'a" where
  "clamp x lo hi = (if x < lo then lo else if hi < x then hi else x)"

definition solve_ms :: "u64 \<Rightarrow> (u64 \<times> u32) list \<Rightarrow> nat \<Rightarrow> u64" where
  "solve_ms max_solve view i = clamp (saturating_sub (fst (view ! i)) (fst (view ! (i - 1)))) 1 max_solve"

definition lwma_step ::
  "('h, 't) ext \<Rightarrow> u64 \<Rightarrow> (u64 \<times> u32) list \<Rightarrow> nat \<Rightarrow> u128 \<times> nat \<Rightarrow> u128 \<times> nat" where
  "lwma_step E max_solve view i acc =
     (fst acc + ucast (solve_ms max_solve view i) * of_nat i,
      snd acc + daa_ceiling div max (x_decode_bits E (snd (view ! i))) 1)"

definition step_clamp :: "nat \<Rightarrow> nat \<Rightarrow> nat" where
  "step_clamp prev d = (if d > prev * 4 then prev * 4 else if d < max (prev div 4) 1 then max (prev div 4) 1 else d)"

definition next_nbits :: "('h, 't) ext \<Rightarrow> daa_params \<Rightarrow> (u64 \<times> u32) list \<Rightarrow> u32 option" where
  "next_nbits E params chain =
     (let n = daa_window params in
      if length chain < n + 1 then Some (daa_min_nbits params)
      else
        let view = drop (length chain - (n + 1)) chain;
            target_ms = daa_target_secs params * 1000;
            max_solve = 6 * target_ms
        in if n = 0 \<or> max_solve < 1 then None
        else
          let (weighted, target_sum) = fold (lwma_step E max_solve view) [1..<n + 1] (0, 0);
              avg_target = target_sum div n;
              k = (of_nat n * (of_nat n + 1) div 2) * ucast target_ms :: u128
          in if k = 0 then None
          else
            let next_target = max (avg_target * unat weighted div unat k) 1;
                prev = max (x_decode_bits E (snd (view ! n))) 1
            in Some (x_encode_bits E (step_clamp prev (daa_ceiling div next_target))))"

text \<open>The guest's port, transcribed from its own source.\<close>

definition guest_lwma_step ::
  "('h, 't) ext \<Rightarrow> u64 \<Rightarrow> (u64 \<times> u32) list \<Rightarrow> nat \<Rightarrow> u128 \<times> nat \<Rightarrow> u128 \<times> nat" where
  "guest_lwma_step E max_solve view i acc =
     (let solve = clamp (saturating_sub (fst (view ! i)) (fst (view ! (i - 1)))) 1 max_solve;
          difficulty = max (x_decode_bits E (snd (view ! i))) 1
      in (fst acc + ucast solve * of_nat i, snd acc + daa_ceiling div difficulty))"

definition guest_next_nbits :: "('h, 't) ext \<Rightarrow> daa_params \<Rightarrow> (u64 \<times> u32) list \<Rightarrow> u32 option" where
  "guest_next_nbits E params chain =
     (let n = daa_window params in
      if length chain < n + 1 then Some (daa_min_nbits params)
      else
        let view = drop (length chain - (n + 1)) chain;
            target_ms = daa_target_secs params * 1000;
            max_solve = 6 * target_ms
        in if n = 0 \<or> max_solve < 1 then None
        else
          let (weighted, target_sum) = fold (guest_lwma_step E max_solve view) [1..<n + 1] (0, 0);
              avg_target = target_sum div n;
              k = (of_nat n * (of_nat n + 1) div 2) * ucast target_ms :: u128
          in if k = 0 then None
          else
            let next_target = max (avg_target * unat weighted div unat k) 1;
                next_difficulty = daa_ceiling div next_target;
                prev = max (x_decode_bits E (snd (view ! n))) 1;
                hi = prev * 4;
                lo = max (prev div 4) 1
            in Some (x_encode_bits E (if next_difficulty > hi then hi
                 else if next_difficulty < lo then lo else next_difficulty)))"

definition pinned_daa_params :: "('h, 't) ext \<Rightarrow> daa_params" where
  "pinned_daa_params E =
     \<lparr> daa_target_secs = 15, daa_window = daa_window_const, daa_min_nbits = x_encode_bits E 1 \<rparr>"

section \<open>Facts\<close>

lemma guest_lwma_step_eq: "guest_lwma_step = lwma_step"
  by (intro ext) (simp add: guest_lwma_step_def lwma_step_def solve_ms_def Let_def)

lemma guest_next_nbits_eq: "guest_next_nbits = next_nbits"
  by (intro ext) (simp only: guest_next_nbits_def next_nbits_def step_clamp_def Let_def guest_lwma_step_eq)

lemma step_clamp_bounds: "1 \<le> prev \<Longrightarrow> max (prev div 4) 1 \<le> step_clamp prev d \<and> step_clamp prev d \<le> prev * 4"
proof -
  assume "1 \<le> prev"
  moreover have "prev div 4 \<le> prev * 4" by (rule order_trans [OF div_le_dividend]) simp
  ultimately have "max (prev div 4) 1 \<le> prev * 4" by simp
  then show ?thesis unfolding step_clamp_def by (simp add: not_less)
qed

lemma next_nbits_bootstrap:
  "length chain < daa_window params + 1 \<Longrightarrow> next_nbits E params chain = Some (daa_min_nbits params)"
  by (simp add: next_nbits_def Let_def)

text \<open>Only the last \<open>window + 1\<close> entries are consulted, so a view capped at that length and the
  whole history give the same difficulty once the view is full.\<close>

lemma next_nbits_suffix:
  assumes "daa_window params + 1 \<le> length ys"
  shows "next_nbits E params (xs @ ys) = next_nbits E params ys"
proof -
  have "drop (length (xs @ ys) - (daa_window params + 1)) (xs @ ys) = drop (length ys - (daa_window params + 1)) ys"
    using assms by (simp add: drop_append)
  with assms show ?thesis unfolding next_nbits_def by (simp add: Let_def not_less)
qed

lemma next_nbits_SomeD:
  assumes "next_nbits E params chain = Some r" and "daa_window params + 1 \<le> length chain"
  shows "\<exists>d. r = x_encode_bits E (step_clamp (max (x_decode_bits E (snd (last chain))) 1) d)"
proof -
  let ?view = "drop (length chain - (daa_window params + 1)) chain"
  have "?view ! daa_window params = last chain"
    using assms(2) by (simp add: last_conv_nth flip: length_greater_0_conv)
  with assms show ?thesis
    unfolding next_nbits_def by (auto simp: Let_def not_less split: if_splits prod.splits)
qed

text \<open>
  Retargeting is bounded per step and never panics for a sane configuration. With a
  non-empty window and a target of 1 second to 10^12 seconds the node's rule returns a difficulty:
  the configured floor while the history is shorter than the window plus one, and otherwise the
  encoding of a difficulty between a quarter (at least 1) and four times that of the last block;
  the guest's port returns the same value on the same history.
\<close>

theorem next_nbits_bounded:
  assumes "0 < daa_window params" "daa_window params < 2 ^ 32"
    and "0 < unat (daa_target_secs params)" "unat (daa_target_secs params) \<le> 10 ^ 12"
  shows "\<exists>r. next_nbits E params chain = Some r \<and> guest_next_nbits E params chain = Some r
    \<and> (if length chain < daa_window params + 1 then r = daa_min_nbits params
       else let prev = max (x_decode_bits E (snd (last chain))) 1 in
         \<exists>d. r = x_encode_bits E d \<and> max (prev div 4) 1 \<le> d \<and> d \<le> prev * 4)"
proof (cases "length chain < daa_window params + 1")
  case True
  then show ?thesis by (simp add: next_nbits_bootstrap guest_next_nbits_eq)
next
  case False
  let ?n = "daa_window params" and ?t = "daa_target_secs params * 1000"
  have t: "unat ?t = unat (daa_target_secs params) * 1000"
    using assms(4) by (subst unat_mul_exact) simp_all
  have m: "unat (6 * ?t) = 6 * unat ?t"
    using assms(4) t by (subst unat_mul_exact) simp_all
  have max: "\<not> 6 * ?t < 1"
    using assms(3) m t by (simp add: word_less_nat_alt)
  let ?k = "(of_nat ?n * (of_nat ?n + 1) div 2) * ucast ?t :: u128"
  have n: "unat (of_nat ?n :: u128) = ?n" and n1: "unat (of_nat ?n + 1 :: u128) = ?n + 1"
    using assms(2) by (simp_all add: unat_of_nat take_bit_nat_eq_self unat_word_ariths)
  have nn: "?n * (?n + 1) < 2 ^ 65"
  proof -
    have "?n * (?n + 1) \<le> 2 ^ 32 * 2 ^ 32" using assms(2) by (intro mult_le_mono) auto
    then show ?thesis by simp
  qed
  have "unat (of_nat ?n * (of_nat ?n + 1) :: u128) = ?n * (?n + 1)"
    using nn by (subst unat_mul_exact) (simp_all add: n n1)
  then have h: "unat (of_nat ?n * (of_nat ?n + 1) div 2 :: u128) = ?n * (?n + 1) div 2"
    by (simp add: unat_div)
  have "?n * (?n + 1) div 2 * unat ?t \<le> 2 ^ 65 * 10 ^ 15"
    using nn t assms(4) by (intro mult_le_mono) auto
  moreover have "unat (ucast ?t :: u128) = unat ?t"
    using unat_bound [of ?t] by (simp add: unsigned_ucast_eq take_bit_nat_eq_self)
  ultimately have "unat ?k = ?n * (?n + 1) div 2 * unat ?t"
    by (subst unat_mul_exact) (simp_all add: h)
  moreover have "0 < ?n * (?n + 1) div 2 * unat ?t"
  proof -
    have "2 \<le> ?n * (?n + 1)" using assms(1) by (cases ?n) auto
    then show ?thesis using t assms(3) by (simp add: div_greater_zero_iff)
  qed
  ultimately have k: "?k \<noteq> 0" by (metis less_not_refl unsigned_0)
  have "\<exists>r. next_nbits E params chain = Some r"
    using False max k assms(1) unfolding next_nbits_def by (simp add: Let_def split: prod.splits)
  then obtain r where r: "next_nbits E params chain = Some r" ..
  with next_nbits_SomeD [OF r] False show ?thesis
    using step_clamp_bounds by (fastforce simp: guest_next_nbits_eq Let_def)
qed

end
