(* ===== verification/HnParams.thy ===== *)
theory HnParams
  imports Daa
begin

text \<open>
  Chain parameters of the hash-native network (\<^verbatim>\<open>aegis-node/src/hn/params.rs\<close>) and the wallet-side
  constants they reference (\<^verbatim>\<open>engine/wallet/src/chain.rs\<close>). The faucet address, which the code
  derives from a published seed, is a parameter of the testnet profile.
\<close>

record hn_address =
  ad_owner :: digest
  ad_enc_pk :: bytes

record hn_params =
  hp_chain_id :: u32
  hp_root_window :: nat
  hp_coinbase_maturity :: u64
  hp_flat_fee :: u64
  hp_coinbase_base :: u64
  hp_coinbase_per_tx :: u64
  hp_genesis_pot :: u64
  hp_genesis :: "(hn_address \<times> u64) list"
  hp_peg_fee_percent :: u64
  hp_pegin_confirmations :: u64
  hp_pegout_delay :: u64
  hp_min_nbits :: u32
  hp_daa_target_secs :: u64
  hp_daa_window :: nat
  hp_require_aux_pow :: bool

definition wallet_root_window :: nat where "wallet_root_window = 100"
definition wallet_coinbase_maturity :: u64 where "wallet_coinbase_maturity = 120"
definition hn_block_target_secs :: u64 where "hn_block_target_secs = 15"
definition hn_daa_window :: nat where "hn_daa_window = 90"
definition hn_testnet_chain_id :: u32 where "hn_testnet_chain_id = 0x484E0005"
definition hn_flat_fee :: u64 where "hn_flat_fee = 3"
definition hn_coinbase_base :: u64 where "hn_coinbase_base = 1"
definition hn_coinbase_per_tx :: u64 where "hn_coinbase_per_tx = 1"
definition testnet_genesis_pot :: u64 where "testnet_genesis_pot = 1000000"

definition hn_testnet :: "('h, 't) ext \<Rightarrow> hn_address \<Rightarrow> hn_params" where
  "hn_testnet E faucet =
     \<lparr> hp_chain_id = hn_testnet_chain_id, hp_root_window = wallet_root_window,
       hp_coinbase_maturity = wallet_coinbase_maturity, hp_flat_fee = hn_flat_fee,
       hp_coinbase_base = hn_coinbase_base, hp_coinbase_per_tx = hn_coinbase_per_tx,
       hp_genesis_pot = testnet_genesis_pot,
       hp_genesis = [(faucet, 500000000), (faucet, 500000000)],
       hp_peg_fee_percent = 1, hp_pegin_confirmations = 10, hp_pegout_delay = 10,
       hp_min_nbits = x_encode_bits E 1, hp_daa_target_secs = hn_block_target_secs,
       hp_daa_window = hn_daa_window, hp_require_aux_pow = False \<rparr>"

definition with_strict_aux_pow :: "hn_params \<Rightarrow> hn_params" where
  "with_strict_aux_pow p = p \<lparr> hp_require_aux_pow := True \<rparr>"

definition hn_daa :: "hn_params \<Rightarrow> daa_params" where
  "hn_daa p = \<lparr> daa_target_secs = hp_daa_target_secs p, daa_window = hp_daa_window p,
     daa_min_nbits = hp_min_nbits p \<rparr>"

definition peg_fee :: "hn_params \<Rightarrow> u64 \<Rightarrow> u64" where
  "peg_fee p amount = max (saturating_mul amount (hp_peg_fee_percent p) div 100) 1"

definition with_genesis :: "hn_params \<Rightarrow> (hn_address \<times> u64) list \<Rightarrow> u64 \<Rightarrow> hn_params" where
  "with_genesis p genesis pot = p \<lparr> hp_genesis := genesis, hp_genesis_pot := pot \<rparr>"

definition coinbase_amount :: "hn_params \<Rightarrow> u64 \<Rightarrow> nat \<Rightarrow> u64" where
  "coinbase_amount p pot_parent n_txs =
     min (saturating_add (hp_coinbase_base p) (saturating_mul (hp_coinbase_per_tx p) (of_nat n_txs)))
       pot_parent"

text \<open>The guest's image constants are the testnet economics.\<close>

definition guest_economics :: "hn_params \<Rightarrow> bool" where
  "guest_economics p \<longleftrightarrow> hp_flat_fee p = flat_fee_const \<and> hp_coinbase_base p = coinbase_base_const \<and>
     hp_coinbase_per_tx p = coinbase_per_tx_const \<and> hp_peg_fee_percent p = peg_fee_percent_const \<and>
     hp_pegout_delay p = pegout_delay_const \<and> hp_root_window p = root_window_const"

lemma hn_testnet_guest: "guest_economics (hn_testnet E faucet)" "hn_daa (hn_testnet E faucet) = pinned_daa_params E"
  by (simp_all add: guest_economics_def hn_testnet_def flat_fee_const_def coinbase_base_const_def
      coinbase_per_tx_const_def peg_fee_percent_const_def pegout_delay_const_def root_window_const_def
      hn_flat_fee_def hn_coinbase_base_def hn_coinbase_per_tx_def wallet_root_window_def hn_daa_def
      pinned_daa_params_def hn_block_target_secs_def hn_daa_window_def daa_window_const_def)

lemma guest_peg_fee_eq: "guest_economics p \<Longrightarrow> peg_fee p = guest_peg_fee"
  by (simp add: fun_eq_iff peg_fee_def guest_peg_fee_def guest_economics_def)

lemma guest_coinbase_amount_eq: "guest_economics p \<Longrightarrow> coinbase_amount p = guest_coinbase_amount"
  by (simp add: fun_eq_iff coinbase_amount_def guest_coinbase_amount_def guest_economics_def)

lemma coinbase_amount_le: "coinbase_amount p pot n \<le> pot"
  by (simp add: coinbase_amount_def)

lemma peg_fee_pos: "1 \<le> peg_fee p amount"
  by (simp add: peg_fee_def)

end
