(* ===== verification/SpendPublics.thy ===== *)
theory SpendPublics
  imports Notes
begin

text \<open>
  The public values of a spend proof (\<^verbatim>\<open>engine/src/spend/monolith.rs\<close>): the offsets that the circuit, the
  node and the settlement guest share.
\<close>

definition pub_root :: nat where "pub_root = 0"
definition pub_nf0 :: nat where "pub_nf0 = 8"
definition pub_nf1 :: nat where "pub_nf1 = 16"
definition pub_cmo0 :: nat where "pub_cmo0 = 24"
definition pub_cmo1 :: nat where "pub_cmo1 = 32"
definition pub_fee :: nat where "pub_fee = 40"
definition n_pub :: nat where "n_pub = 44"

end
