(* ===== verification/HnBlock.thy ===== *)
theory HnBlock
  imports HnParams SpendPublics
begin

text \<open>
  The node's block types (\<^verbatim>\<open>aegis-node/src/hn/state.rs\<close>), the wallet's transaction and output
  record (\<^verbatim>\<open>engine/wallet/src/chain.rs\<close>), the adapter from a node block to the engine's suffix
  block with the header id (\<^verbatim>\<open>aegis-node/src/hn/header.rs\<close>), and the aux-PoW witness
  (\<^verbatim>\<open>aegis-node/src/hn/auxpow.rs\<close>).

  Public values arrive from the network as a vector of any length; reading a digest beyond its
  end, or a fee whose limbs are not canonical, panics in the code and is \<open>None\<close> here.
\<close>

section \<open>Transactions and blocks\<close>

definition note_ct_bytes :: nat where "note_ct_bytes = 152"

record hn_tx =
  tx_proof :: bytes
  tx_publics :: "u32 list"
  tx_ct0 :: bytes
  tx_ct1 :: bytes

record output_record =
  or_leaf_index :: nat
  or_cm :: digest
  or_ciphertext :: bytes
  or_height :: u64
  or_is_coinbase :: bool

definition digest_at :: "u32 list \<Rightarrow> nat \<Rightarrow> digest option" where
  "digest_at publics off =
     (if off + 8 \<le> length publics then Some (map f_of_u32 (take 8 (drop off publics))) else None)"

record aux_anchor =
  an_header_id :: bytes
  an_height :: u64

definition genesis_anchor :: aux_anchor where
  "genesis_anchor = \<lparr> an_header_id = replicate 32 0, an_height = 0 \<rparr>"

record pegin_claim =
  pc_box_id :: bytes
  pc_dest_owner :: "u32 list"
  pc_dest_enc_pk :: bytes
  pc_amount :: u64
  pc_ciphertext :: bytes

record pegout_tx =
  pt_tx :: hn_tx
  pt_amount :: u64
  pt_recipient :: bytes

record withdrawal =
  wd_nf0 :: "u32 list"
  wd_amount :: u64
  wd_recipient :: bytes
  wd_height :: u64

record hn_block =
  hb_height :: u64
  hb_prev_root :: "u32 list"
  hb_prev_header_id :: bytes
  hb_state_root :: "u32 list"
  hb_timestamp_ms :: u64
  hb_nbits :: u32
  hb_txs :: "hn_tx list"
  hb_pegouts :: "pegout_tx list"
  hb_pegins :: "pegin_claim list"
  hb_miner_owner :: "u32 list"
  hb_coinbase_amount :: u64
  hb_coinbase_cm :: "u32 list"
  hb_coinbase_ct :: bytes
  hb_coinbase_is_reward :: bool
  hb_pot_after :: u64
  hb_shielded_after :: u64
  hb_anchor :: aux_anchor
  hb_aux_pow :: "bytes option"

section \<open>The adapter to the engine's suffix block and the header id\<close>

definition spend_fee :: "u32 list \<Rightarrow> u64 option" where
  "spend_fee publics =
     (if pub_fee + n_limbs \<le> length publics
      then limbs_to_u64 (map f_of_u32 (take n_limbs (drop pub_fee publics))) else None)"

definition engine_spend :: "u32 list \<Rightarrow> spend_publics option" where
  "engine_spend publics =
     Option.bind (digest_at publics pub_root) (\<lambda>root.
     Option.bind (digest_at publics pub_nf0) (\<lambda>nf0.
     Option.bind (digest_at publics pub_nf1) (\<lambda>nf1.
     Option.bind (digest_at publics pub_cmo0) (\<lambda>cm0.
     Option.bind (digest_at publics pub_cmo1) (\<lambda>cm1.
     Option.bind (spend_fee publics) (\<lambda>fee.
       Some \<lparr> sp_root = root, sp_nf0 = nf0, sp_nf1 = nf1, sp_cm0 = cm0, sp_cm1 = cm1, sp_fee = fee \<rparr>))))))"

definition engine_pegout :: "pegout_tx \<Rightarrow> peg_out option" where
  "engine_pegout po =
     map_option (\<lambda>s. \<lparr> po_spend = s, po_amount = pt_amount po, po_recipient = pt_recipient po \<rparr>)
       (engine_spend (tx_publics (pt_tx po)))"

definition engine_pegin :: "pegin_claim \<Rightarrow> peg_in" where
  "engine_pegin p =
     \<lparr> pi_box_id = pc_box_id p, pi_dest_owner = limbs_to_digest (pc_dest_owner p), pi_amount = pc_amount p \<rparr>"

definition to_engine_block :: "hn_block \<Rightarrow> suffix_block option" where
  "to_engine_block b =
     Option.bind (those (map (\<lambda>t. engine_spend (tx_publics t)) (hb_txs b))) (\<lambda>txs.
     Option.bind (those (map engine_pegout (hb_pegouts b))) (\<lambda>pegouts.
       Some \<lparr> sb_height = hb_height b, sb_prev_header_id = hb_prev_header_id b,
         sb_prev_root = limbs_to_digest (hb_prev_root b),
         sb_state_root = limbs_to_digest (hb_state_root b),
         sb_timestamp_ms = hb_timestamp_ms b, sb_nbits = hb_nbits b,
         sb_txs = txs, sb_pegouts = pegouts, sb_pegins = map engine_pegin (hb_pegins b),
         sb_miner_owner = limbs_to_digest (hb_miner_owner b),
         sb_coinbase_amount = hb_coinbase_amount b,
         sb_coinbase_cm = limbs_to_digest (hb_coinbase_cm b),
         sb_coinbase_is_reward = hb_coinbase_is_reward b,
         sb_pot_after = hb_pot_after b, sb_shielded_after = hb_shielded_after b \<rparr>))"

definition hn_header_id :: "perm \<Rightarrow> u32 \<Rightarrow> hn_block \<Rightarrow> bytes option" where
  "hn_header_id perm chain_id b = map_option (header_id perm chain_id) (to_engine_block b)"

section \<open>The aux-PoW witness\<close>

record 'h hn_aux_pow =
  ha_header :: 'h
  ha_field :: extension_field
  ha_proof :: batch_proof

datatype aux_decode_error = AdRead | AdProof | AdTrailingBytes nat

datatype aux_error =
    AxNotAutolykosV2 | AxHeaderEncode | AxProofShape nat | AxProofLeafMismatch | AxProofInvalid
  | AxWrongKey | AxBadValue | AxHeaderIdMismatch | AxZeroTarget u32 | AxPowNotCleared | AxPanic

definition get_bytes :: "nat \<Rightarrow> bytes \<Rightarrow> aux_decode_error + bytes \<times> bytes" where
  "get_bytes n bs = (if n \<le> length bs then Inr (take n bs, drop n bs) else Inl AdRead)"

definition aux_from_bytes :: "('h, 't) ext \<Rightarrow> bytes \<Rightarrow> aux_decode_error + 'h hn_aux_pow" where
  "aux_from_bytes E bs =
     bind_r (ok_or (x_read_header E bs) AdRead) (\<lambda>(header, r1).
     bind_r (get_bytes 2 r1) (\<lambda>(key, r2).
     bind_r (get_bytes 1 r2) (\<lambda>(value_len, r3).
     bind_r (get_bytes (unat (hd value_len)) r3) (\<lambda>(val, r4).
     bind_r (ok_or (x_read_vlq_u64 E r4) AdRead) (\<lambda>(proof_len, r5).
     bind_r (get_bytes (unat proof_len) r5) (\<lambda>(proof_bytes, r6).
     bind_r (ok_or (x_read_batch_proof E proof_bytes) AdProof) (\<lambda>pf.
       if r6 \<noteq> [] then Inl (AdTrailingBytes (length r6))
       else Inr \<lparr> ha_header = header, ha_field = \<lparr> ef_key = key, ef_value = val \<rparr>, ha_proof = pf \<rparr>)))))))"

definition aux_verify :: "('h, 't) ext \<Rightarrow> u32 \<Rightarrow> 'h hn_aux_pow \<Rightarrow> hn_block \<Rightarrow> aux_error + nat" where
  "aux_verify E chain_id w b =
     (case x_h_v2_nonce E (ha_header w) of None \<Rightarrow> Inl AxNotAutolykosV2 | Some nonce \<Rightarrow>
      bind_r (ok_or (x_h_bytes_without_pow E (ha_header w)) AxHeaderEncode) (\<lambda>header_bytes.
      let msg = x_blake2b256 E header_bytes in
      if length (bp_indices (ha_proof w)) \<noteq> 1 then Inl (AxProofShape (length (bp_indices (ha_proof w))))
      else if snd (bp_indices (ha_proof w) ! 0) \<noteq> mm_leaf_digest E (ha_field w) then Inl AxProofLeafMismatch
      else if \<not> x_popow_verify E (ha_proof w) (x_h_extension_root E (ha_header w)) then Inl AxProofInvalid
      else if ef_key (ha_field w) \<noteq> aegis_mm_key then Inl AxWrongKey
      else if length (ef_value (ha_field w)) \<noteq> mm_field_value_len
           \<or> ef_value (ha_field w) ! 0 \<noteq> mm_commitment_version then Inl AxBadValue
      else bind_r (ok_or (hn_header_id (x_perm E) chain_id b) AxPanic) (\<lambda>hid.
      if drop 1 (ef_value (ha_field w)) \<noteq> hid then Inl AxHeaderIdMismatch
      else if x_get_target E (hb_nbits b) = 0 then Inl (AxZeroTarget (hb_nbits b))
      else if \<not> x_check_pow E msg nonce (x_h_height E (ha_header w)) (x_h_version E (ha_header w))
                 (x_get_target E (hb_nbits b)) then Inl AxPowNotCleared
      else Inr (x_decode_bits E (hb_nbits b)))))"

section \<open>Node and guest verify the same share\<close>

definition guest_share_of :: "'h hn_aux_pow \<Rightarrow> 'h share_witness" where
  "guest_share_of w = \<lparr> sw_header = ha_header w, sw_field = ha_field w, sw_proof = ha_proof w \<rparr>"

text \<open>
  Node and guest agree on shares. When the node's batch-Merkle verifier (a crate) is the
  function the guest vendors, the node accepts an aux-PoW witness for a block with some work
  exactly when the guest accepts the same witness for the translated block, with the same work.
\<close>

theorem node_guest_share_parity:
  assumes "x_popow_verify E = verify_batch_merkle_proof E" and "to_engine_block b = Some eb"
  shows "aux_verify E chain_id w b = Inr work \<longleftrightarrow>
    verify_share E (guest_share_of w) (header_id (x_perm E) chain_id eb) (sb_nbits eb) = Inr work"
proof -
  have "sb_nbits eb = hb_nbits b"
    using assms(2) by (auto simp: to_engine_block_def split: Option.bind_splits)
  then show ?thesis
    using assms
    by (auto simp: aux_verify_def verify_share_def guest_share_of_def share_pow_message_def hn_header_id_def
        Let_def bind_r_eq_Inr ok_or_eq_Inr map_sum_eq_Inr split: option.splits if_splits)
qed

lemma digest_at_wf: "digest_at publics off = Some d \<Longrightarrow> wf_digest d"
  by (auto simp: digest_at_def wf_digest_def digest_elems_def split: if_splits)

lemma digest_at_Some: "off + 8 \<le> length publics \<Longrightarrow> \<exists>d. digest_at publics off = Some d"
  by (simp add: digest_at_def)

end
