(* ===== verification/HnState.thy ===== *)
theory HnState
  imports HnBlock
begin

text \<open>
  The consensus ledger of the node (\<^verbatim>\<open>aegis-node/src/hn/state.rs\<close>): transaction validation, block
  application with its undo record, rollback, and the read interface. \<^verbatim>\<open>apply_block\<close> is composed
  of its sections in the order of the code: header checks, transactions, peg-outs, peg-ins,
  economics, commitments, and the mutation. A panic (a full tree, a non-canonical fee limb, a
  difficulty rule without window) is the error \<open>HnPanic\<close>.
\<close>

section \<open>State\<close>

datatype hn_error =
    HnProofInvalid | HnUnknownRoot | HnDoubleSpend | HnBadCiphertext | HnBadPublicShape | HnBadFee
  | HnPrevRootMismatch | HnAnchorRegressed | HnNbitsMismatch | HnAuxPowInvalid | HnStateRootMismatch
  | HnCoinbaseMismatch | HnCoinbaseCmMismatch | HnPotMismatch | HnBadGenesis | HnConservationViolated
  | HnShieldedMismatch | HnDuplicatePegIn | HnBadPegIn | HnBadPegOut | HnPegInNotConfirmed
  | HnPanic

record hn_state =
  hs_cm_leaves :: "digest list"
  hs_tree :: note_tree
  hs_nullifiers :: "u32 list set"
  hs_recent_roots :: "digest list"
  hs_outputs :: "output_record list"
  hs_height :: u64
  hs_anchor_height :: u64
  hs_daa_view :: "(u64 \<times> u32) list"
  hs_pot :: u64
  hs_shielded_total :: u64
  hs_used_pegins :: "bytes set"
  hs_withdrawals :: "withdrawal list"
  hs_params :: hn_params

record hn_undo =
  hu_prev_leaf_count :: nat
  hu_added_nullifiers :: "u32 list list"
  hu_prev_output_count :: nat
  hu_prev_height :: u64
  hu_prev_anchor_height :: u64
  hu_prev_pot :: u64
  hu_prev_shielded_total :: u64
  hu_added_pegin_box_ids :: "bytes list"
  hu_prev_withdrawal_count :: nat
  hu_evicted_root :: "digest option"
  hu_evicted_daa :: "(u64 \<times> u32) option"

definition hn_new :: "perm \<Rightarrow> hn_params \<Rightarrow> hn_state" where
  "hn_new perm params =
     \<lparr> hs_cm_leaves = [], hs_tree = nt_new, hs_nullifiers = {}, hs_recent_roots = [nt_root perm nt_new],
       hs_outputs = [], hs_height = 0, hs_anchor_height = 0, hs_daa_view = [],
       hs_pot = hp_genesis_pot params, hs_shielded_total = 0, hs_used_pegins = {},
       hs_withdrawals = [], hs_params = params \<rparr>"

definition hn_block_id :: "perm \<Rightarrow> u64 \<Rightarrow> digest \<Rightarrow> bytes" where
  "hn_block_id perm height prev_root = hash_id_domain perm domain_block_id height prev_root"

definition hn_tip_root :: "perm \<Rightarrow> hn_state \<Rightarrow> digest" where
  "hn_tip_root perm s = nt_root perm (hs_tree s)"

definition pegin_used :: "hn_state \<Rightarrow> bytes \<Rightarrow> bool" where
  "pegin_used s box_id \<longleftrightarrow> box_id \<in> hs_used_pegins s"

definition expected_nbits :: "('h, 't) ext \<Rightarrow> hn_state \<Rightarrow> u32 option" where
  "expected_nbits E s = next_nbits E (hn_daa (hs_params s)) (hs_daa_view s)"

definition nf_key :: "digest \<Rightarrow> u32 list" where
  "nf_key nf = map as_canonical_u32 nf"

definition append_leaf :: "perm \<Rightarrow> hn_state \<Rightarrow> digest \<times> bytes \<times> bool \<Rightarrow> hn_error + hn_state" where
  "append_leaf perm s leaf =
     (let (cm, ciphertext, is_coinbase) = leaf in
      bind_r (ok_or (nt_append perm (hs_tree s) cm) HnPanic) (\<lambda>(tree, leaf_index).
        Inr (s \<lparr> hs_cm_leaves := hs_cm_leaves s @ [cm], hs_tree := tree,
          hs_outputs := hs_outputs s @ [\<lparr> or_leaf_index = leaf_index, or_cm = cm,
            or_ciphertext = ciphertext, or_height = hs_height s, or_is_coinbase = is_coinbase \<rparr>] \<rparr>)))"

section \<open>Transaction validation\<close>

definition tx_fee :: "hn_tx \<Rightarrow> hn_error + u64 option" where
  "tx_fee tx =
     (if length (tx_publics tx) < pub_fee + n_limbs then Inr None
      else map_sum id Some (ok_or (limbs_to_u64
             (map f_of_u32 (take n_limbs (drop pub_fee (tx_publics tx))))) HnPanic))"

definition pub_digest :: "hn_tx \<Rightarrow> nat \<Rightarrow> hn_error + digest" where
  "pub_digest tx off = ok_or (digest_at (tx_publics tx) off) HnPanic"

definition validate_tx ::
  "('h, 't) ext \<Rightarrow> hn_state \<Rightarrow> hn_tx \<Rightarrow> u32 list set \<Rightarrow> hn_error + digest \<times> digest" where
  "validate_tx E s tx pending =
     (if length (tx_publics tx) \<noteq> n_pub then Inl HnBadPublicShape
      else if length (tx_ct0 tx) \<noteq> note_ct_bytes \<or> length (tx_ct1 tx) \<noteq> note_ct_bytes
      then Inl HnBadCiphertext
      else bind_r (tx_fee tx) (\<lambda>fee.
        if fee \<noteq> Some (hp_flat_fee (hs_params s)) then Inl HnBadFee
        else bind_r (pub_digest tx pub_root) (\<lambda>root.
          if root \<notin> set (hs_recent_roots s) then Inl HnUnknownRoot
          else bind_r (pub_digest tx pub_nf0) (\<lambda>nf0. bind_r (pub_digest tx pub_nf1) (\<lambda>nf1.
            if nf_key nf0 \<in> hs_nullifiers s \<or> nf_key nf0 \<in> pending
               \<or> nf_key nf1 \<in> hs_nullifiers s \<or> nf_key nf1 \<in> pending then Inl HnDoubleSpend
            else if \<not> x_spend_verify E (tx_proof tx) (tx_publics tx) then Inl HnProofInvalid
            else Inr (nf0, nf1))))))"

section \<open>Block application: validation\<close>

definition check_aux_pow :: "('h, 't) ext \<Rightarrow> hn_state \<Rightarrow> hn_block \<Rightarrow> hn_error + unit" where
  "check_aux_pow E s b =
     (if hp_require_aux_pow (hs_params s) \<and> hb_coinbase_is_reward b then
        bind_r (ok_or (hb_aux_pow b) HnAuxPowInvalid) (\<lambda>bs.
        bind_r (map_err (\<lambda>_. HnAuxPowInvalid) (aux_from_bytes E bs)) (\<lambda>aux.
        bind_r (map_err (\<lambda>e. if e = AxPanic then HnPanic else HnAuxPowInvalid)
            (aux_verify E (hp_chain_id (hs_params s)) aux b)) (\<lambda>_. Inr ())))
      else Inr ())"

definition check_header :: "('h, 't) ext \<Rightarrow> hn_state \<Rightarrow> hn_block \<Rightarrow> hn_error + unit" where
  "check_header E s b =
     (if limbs_to_digest (hb_prev_root b) \<noteq> hn_tip_root (x_perm E) s then Inl HnPrevRootMismatch
      else if an_height (hb_anchor b) < hs_anchor_height s then Inl HnAnchorRegressed
      else bind_r (ok_or (expected_nbits E s) HnPanic) (\<lambda>nbits.
        if hb_nbits b \<noteq> nbits then Inl HnNbitsMismatch
        else bind_r (check_aux_pow E s b) (\<lambda>_.
          if length (hb_coinbase_ct b) \<noteq> note_ct_bytes then Inl HnBadCiphertext else Inr ())))"

definition validate_txs_step ::
  "('h, 't) ext \<Rightarrow> hn_state \<Rightarrow> u32 list list \<Rightarrow> hn_tx \<Rightarrow> hn_error + u32 list list" where
  "validate_txs_step E s all_nfs tx =
     bind_r (validate_tx E s tx (set all_nfs)) (\<lambda>(nf0, nf1). Inr (all_nfs @ [nf_key nf0, nf_key nf1]))"

text \<open>The set \<^verbatim>\<open>seen\<close> of the code always holds exactly the keys of \<^verbatim>\<open>all_nfs\<close>, which the step above
  and the next one keep as one list.\<close>

record pegout_acc =
  pa_nfs :: "u32 list list"
  pa_outflow :: u64
  pa_fees :: u64
  pa_burn_total :: u64

definition validate_pegouts_step ::
  "('h, 't) ext \<Rightarrow> hn_state \<Rightarrow> pegout_acc \<Rightarrow> pegout_tx \<Rightarrow> hn_error + pegout_acc" where
  "validate_pegouts_step E s acc po =
     bind_r (validate_tx E s (pt_tx po) (set (pa_nfs acc))) (\<lambda>(nf0, nf1).
     let fee = peg_fee (hs_params s) (pt_amount po) in
     bind_r (ok_or (checked_add (pt_amount po) fee) HnBadPegOut) (\<lambda>burn_value.
     if pt_amount po = 0 \<or> pt_recipient po = [] \<or> length (pt_recipient po) > 4096 then Inl HnBadPegOut
     else bind_r (pub_digest (pt_tx po) pub_cmo0) (\<lambda>cm0.
       if burn_cm_expected (x_perm E) burn_value nf0 (pt_recipient po) (pt_amount po) \<noteq> cm0
       then Inl HnBadPegOut
       else Inr \<lparr> pa_nfs = pa_nfs acc @ [nf_key nf0, nf_key nf1],
         pa_outflow = pa_outflow acc + pt_amount po, pa_fees = pa_fees acc + fee,
         pa_burn_total = pa_burn_total acc + burn_value \<rparr>)))"

record pegin_acc =
  ga_in_block :: "bytes list"
  ga_cms :: "digest list"
  ga_inflow :: u64
  ga_fees :: u64

definition validate_pegins_step ::
  "perm \<Rightarrow> hn_state \<Rightarrow> pegin_acc \<Rightarrow> pegin_claim \<Rightarrow> hn_error + pegin_acc" where
  "validate_pegins_step perm s acc p =
     (if pc_box_id p \<in> hs_used_pegins s \<or> pc_box_id p \<in> set (ga_in_block acc) then Inl HnDuplicatePegIn
      else if length (pc_ciphertext p) \<noteq> note_ct_bytes then Inl HnBadPegIn
      else let fee = peg_fee (hs_params s) (pc_amount p) in
        (case checked_sub (pc_amount p) fee of None \<Rightarrow> Inl HnBadPegIn
         | Some minted \<Rightarrow>
             if \<not> 0 < minted then Inl HnBadPegIn
             else Inr \<lparr> ga_in_block = ga_in_block acc @ [pc_box_id p],
               ga_cms = ga_cms acc @
                 [hn_pegmint_cm_expected perm (limbs_to_digest (pc_dest_owner p)) minted (pc_box_id p)],
               ga_inflow = ga_inflow acc + pc_amount p, ga_fees = ga_fees acc + fee \<rparr>))"

definition reward_economics ::
  "hn_state \<Rightarrow> hn_block \<Rightarrow> pegout_acc \<Rightarrow> pegin_acc \<Rightarrow> hn_error + u64 \<times> u64" where
  "reward_economics s b pa ga =
     (let n_spends = length (hb_txs b) + length (hb_pegouts b);
          fees = hp_flat_fee (hs_params s) * of_nat n_spends;
          expected = coinbase_amount (hs_params s) (hs_pot s) n_spends
      in if hs_height s < of_nat (length (hp_genesis (hs_params s))) then Inl HnBadGenesis
      else if hb_coinbase_amount b \<noteq> expected then Inl HnCoinbaseMismatch
      else let pot_next = hs_pot s + fees + pa_fees pa + ga_fees ga - expected in
      if hb_pot_after b \<noteq> pot_next then Inl HnPotMismatch
      else bind_r (ok_or (checked_sub (hs_shielded_total s + expected + (ga_inflow ga - ga_fees ga))
                    (fees + pa_burn_total pa)) HnConservationViolated) (\<lambda>shielded_next.
        bind_r (ok_or (checked_sub (hs_shielded_total s + hs_pot s + ga_inflow ga) (pa_outflow pa))
                  HnConservationViolated) (\<lambda>system_next.
          if shielded_next + pot_next \<noteq> system_next then Inl HnConservationViolated
          else Inr (pot_next, shielded_next))))"

definition genesis_economics :: "hn_state \<Rightarrow> hn_block \<Rightarrow> hn_error + u64 \<times> u64" where
  "genesis_economics s b =
     (let genesis = hp_genesis (hs_params s) in
      if \<not> hs_height s < of_nat (length genesis) \<or> hb_txs b \<noteq> [] \<or> hb_pegouts b \<noteq> [] \<or> hb_pegins b \<noteq> []
      then Inl HnBadGenesis
      else let (dest, amount) = genesis ! unat (hs_height s) in
        if hb_miner_owner b \<noteq> digest_to_limbs (ad_owner dest) \<or> hb_coinbase_amount b \<noteq> amount
        then Inl HnBadGenesis
        else if hb_pot_after b \<noteq> hs_pot s then Inl HnPotMismatch
        else Inr (hs_pot s, hs_shielded_total s + amount))"

definition spend_txs :: "hn_block \<Rightarrow> hn_tx list" where
  "spend_txs b = hb_txs b @ map pt_tx (hb_pegouts b)"

text \<open>The two output commitments of every spend with their ciphertexts, in consensus order.\<close>

definition spend_leaves_step ::
  "(digest \<times> bytes \<times> bool) list \<Rightarrow> hn_tx \<Rightarrow> hn_error + (digest \<times> bytes \<times> bool) list" where
  "spend_leaves_step acc tx =
     bind_r (pub_digest tx pub_cmo0) (\<lambda>cm0. bind_r (pub_digest tx pub_cmo1) (\<lambda>cm1.
       Inr (acc @ [(cm0, tx_ct0 tx, False), (cm1, tx_ct1 tx, False)])))"

definition block_leaves :: "hn_block \<Rightarrow> digest list \<Rightarrow> hn_error + (digest \<times> bytes \<times> bool) list" where
  "block_leaves b pegin_cms =
     bind_r (fold_r spend_leaves_step [] (spend_txs b)) (\<lambda>spends.
       Inr (spends @ map (\<lambda>(p, cm). (cm, pc_ciphertext p, False)) (zip (hb_pegins b) pegin_cms)
            @ [(limbs_to_digest (hb_coinbase_cm b), hb_coinbase_ct b, hb_coinbase_is_reward b)]))"

definition simulate_state_root :: "perm \<Rightarrow> hn_state \<Rightarrow> digest list \<Rightarrow> hn_error + u32 list" where
  "simulate_state_root perm s cms =
     bind_r (ok_or (append_all (nt_append perm) (hs_tree s) cms) HnPanic)
       (\<lambda>t. Inr (digest_to_limbs (nt_root perm t)))"

definition check_commitments ::
  "perm \<Rightarrow> hn_state \<Rightarrow> hn_block \<Rightarrow> u64 \<Rightarrow> (digest \<times> bytes \<times> bool) list \<Rightarrow> hn_error + unit" where
  "check_commitments perm s b shielded_next leaves =
     (if hb_shielded_after b \<noteq> shielded_next then Inl HnShieldedMismatch
      else let ident = hn_block_id perm (hs_height s) (hn_tip_root perm s);
               expected_cm = hn_coinbase_cm_expected perm (limbs_to_digest (hb_miner_owner b))
                               (hb_coinbase_amount b) ident
      in if digest_to_limbs expected_cm \<noteq> hb_coinbase_cm b then Inl HnCoinbaseCmMismatch
      else bind_r (simulate_state_root perm s (map fst leaves)) (\<lambda>root.
        if root \<noteq> hb_state_root b then Inl HnStateRootMismatch else Inr ()))"

section \<open>Block application: mutation\<close>

definition block_withdrawals :: "hn_state \<Rightarrow> hn_block \<Rightarrow> hn_error + withdrawal list" where
  "block_withdrawals s b =
     fold_r (\<lambda>acc po. bind_r (pub_digest (pt_tx po) pub_nf0) (\<lambda>nf0.
       Inr (acc @ [\<lparr> wd_nf0 = digest_to_limbs nf0, wd_amount = pt_amount po,
         wd_recipient = pt_recipient po, wd_height = hs_height s \<rparr>]))) [] (hb_pegouts b)"

definition push_root :: "perm \<Rightarrow> hn_state \<Rightarrow> digest list \<times> digest option" where
  "push_root perm s =
     (let root = nt_root perm (hs_tree s) in
      if length (hs_recent_roots s) = hp_root_window (hs_params s) then
        (case hs_recent_roots s of [] \<Rightarrow> ([root], None) | r # rs \<Rightarrow> (rs @ [root], Some r))
      else (hs_recent_roots s @ [root], None))"

definition push_daa :: "hn_state \<Rightarrow> u64 \<times> u32 \<Rightarrow> (u64 \<times> u32) list \<times> (u64 \<times> u32) option" where
  "push_daa s entry =
     (let view = hs_daa_view s @ [entry] in
      if length view > hp_daa_window (hs_params s) + 1 then (tl view, Some (hd view)) else (view, None))"

definition apply_mutation ::
  "perm \<Rightarrow> hn_state \<Rightarrow> hn_block \<Rightarrow> u32 list list \<Rightarrow> (digest \<times> bytes \<times> bool) list \<Rightarrow> u64 \<Rightarrow> u64
     \<Rightarrow> hn_error + hn_state \<times> hn_undo" where
  "apply_mutation perm s b all_nfs leaves pot_next shielded_next =
     bind_r (fold_r (append_leaf perm) s leaves) (\<lambda>s1.
     bind_r (block_withdrawals s b) (\<lambda>ws.
     let s2 = s1 \<lparr> hs_used_pegins := hs_used_pegins s1 \<union> set (map pc_box_id (hb_pegins b)),
                   hs_withdrawals := hs_withdrawals s1 @ ws,
                   hs_nullifiers := hs_nullifiers s1 \<union> set all_nfs \<rparr>;
         (roots, evicted_root) = push_root perm s2;
         (view, evicted_daa) = push_daa s2 (hb_timestamp_ms b, hb_nbits b);
         undo = \<lparr> hu_prev_leaf_count = length (hs_cm_leaves s), hu_added_nullifiers = all_nfs,
           hu_prev_output_count = length (hs_outputs s), hu_prev_height = hs_height s,
           hu_prev_anchor_height = hs_anchor_height s, hu_prev_pot = hs_pot s,
           hu_prev_shielded_total = hs_shielded_total s,
           hu_added_pegin_box_ids = map pc_box_id (hb_pegins b),
           hu_prev_withdrawal_count = length (hs_withdrawals s),
           hu_evicted_root = evicted_root, hu_evicted_daa = evicted_daa \<rparr>
     in Inr (s2 \<lparr> hs_recent_roots := roots, hs_daa_view := view, hs_height := hs_height s2 + 1,
               hs_anchor_height := an_height (hb_anchor b), hs_pot := pot_next,
               hs_shielded_total := shielded_next \<rparr>, undo)))"

definition apply_block :: "('h, 't) ext \<Rightarrow> hn_state \<Rightarrow> hn_block \<Rightarrow> hn_error + hn_state \<times> hn_undo" where
  "apply_block E s b =
     bind_r (check_header E s b) (\<lambda>_.
     bind_r (fold_r (validate_txs_step E s) [] (hb_txs b)) (\<lambda>tx_nfs.
     bind_r (fold_r (validate_pegouts_step E s)
         \<lparr> pa_nfs = tx_nfs, pa_outflow = 0, pa_fees = 0, pa_burn_total = 0 \<rparr> (hb_pegouts b)) (\<lambda>pa.
     bind_r (fold_r (validate_pegins_step (x_perm E) s)
         \<lparr> ga_in_block = [], ga_cms = [], ga_inflow = 0, ga_fees = 0 \<rparr> (hb_pegins b)) (\<lambda>ga.
     bind_r (if hb_coinbase_is_reward b then reward_economics s b pa ga else genesis_economics s b)
       (\<lambda>(pot_next, shielded_next).
     bind_r (block_leaves b (ga_cms ga)) (\<lambda>leaves.
     bind_r (check_commitments (x_perm E) s b shielded_next leaves) (\<lambda>_.
       apply_mutation (x_perm E) s b (pa_nfs pa) leaves pot_next shielded_next)))))))"

section \<open>Rollback\<close>

definition rebuild :: "perm \<Rightarrow> digest list \<Rightarrow> note_tree option" where
  "rebuild perm leaves = append_all (nt_append perm) nt_new leaves"

definition rollback :: "perm \<Rightarrow> hn_state \<Rightarrow> hn_undo \<Rightarrow> hn_error + hn_state" where
  "rollback perm s u =
     (let leaves = take (hu_prev_leaf_count u) (hs_cm_leaves s);
          roots = butlast (hs_recent_roots s);
          view = butlast (hs_daa_view s)
      in bind_r (ok_or (rebuild perm leaves) HnPanic) (\<lambda>tree.
        Inr (s \<lparr> hs_recent_roots := (case hu_evicted_root u of None \<Rightarrow> roots | Some r \<Rightarrow> r # roots),
            hs_daa_view := (case hu_evicted_daa u of None \<Rightarrow> view | Some e \<Rightarrow> e # view),
            hs_nullifiers := hs_nullifiers s - set (hu_added_nullifiers u),
            hs_outputs := take (hu_prev_output_count u) (hs_outputs s),
            hs_cm_leaves := leaves, hs_tree := tree, hs_height := hu_prev_height u,
            hs_anchor_height := hu_prev_anchor_height u, hs_pot := hu_prev_pot u,
            hs_shielded_total := hu_prev_shielded_total u,
            hs_used_pegins := hs_used_pegins s - set (hu_added_pegin_box_ids u),
            hs_withdrawals := take (hu_prev_withdrawal_count u) (hs_withdrawals s) \<rparr>)))"

section \<open>The read interface\<close>

definition hn_authentication_path :: "perm \<Rightarrow> hn_state \<Rightarrow> nat \<Rightarrow> merkle_path option" where
  "hn_authentication_path perm s leaf_index =
     (if leaf_index < nt_len (hs_tree s) then authentication_path perm (hs_tree s) leaf_index else None)"

definition nullifier_seen :: "hn_state \<Rightarrow> digest \<Rightarrow> bool" where
  "nullifier_seen s nf \<longleftrightarrow> nf_key nf \<in> hs_nullifiers s"

definition outputs_since :: "hn_state \<Rightarrow> nat \<Rightarrow> output_record list" where
  "outputs_since s cursor = filter (\<lambda>r. cursor \<le> or_leaf_index r) (hs_outputs s)"

definition output_count :: "hn_state \<Rightarrow> nat" where
  "output_count s = nt_len (hs_tree s)"

end
