(* ===== verification/HnLedger.thy ===== *)
theory HnLedger
  imports HnState
begin

text \<open>
  The effect of each section of \<^verbatim>\<open>apply_block\<close> (\<^verbatim>\<open>aegis-node/src/hn/state.rs\<close>) and the exactness
  of \<^verbatim>\<open>rollback\<close>, stated through the locale \<open>undo_log\<close> of a state that applies operations and
  undoes the newest one; the ledger interprets it. \<open>hn_reach\<close> is the run of a list of blocks from
  the initial state.
\<close>

section \<open>The effect of the validation loops\<close>

lemma length8_keys: "length nf = 8 \<Longrightarrow> length (nf_key nf) = 8"
  by (simp add: nf_key_def)

definition tx_nfs :: "hn_tx \<Rightarrow> u32 list list" where
  "tx_nfs tx = map (\<lambda>off. case digest_at (tx_publics tx) off of None \<Rightarrow> [] | Some nf \<Rightarrow> nf_key nf) [pub_nf0, pub_nf1]"

definition tx_cms :: "hn_tx \<Rightarrow> digest list" where
  "tx_cms tx = map (\<lambda>off. case digest_at (tx_publics tx) off of None \<Rightarrow> [] | Some cm \<Rightarrow> cm) [pub_cmo0, pub_cmo1]"

lemma validate_tx_ok:
  assumes "validate_tx E s tx pending = Inr (nf0, nf1)"
  shows "length (tx_publics tx) = n_pub" "tx_fee tx = Inr (Some (hp_flat_fee (hs_params s)))"
    "digest_at (tx_publics tx) pub_nf0 = Some nf0" "digest_at (tx_publics tx) pub_nf1 = Some nf1"
    "tx_nfs tx = [nf_key nf0, nf_key nf1]"
    "set (tx_nfs tx) \<inter> (hs_nullifiers s \<union> pending) = {}"
    "\<exists>root \<in> set (hs_recent_roots s). digest_at (tx_publics tx) pub_root = Some root"
    "x_spend_verify E (tx_proof tx) (tx_publics tx)"
  using assms
  by (auto simp: validate_tx_def pub_digest_def result_simps tx_nfs_def split: if_splits)

lemma validate_txs_ok:
  "fold_r (validate_txs_step E s) nfs txs = Inr nfs' \<Longrightarrow>
    (nfs' = nfs @ concat (map tx_nfs txs)) \<and>
    (set (concat (map tx_nfs txs)) \<inter> (hs_nullifiers s \<union> set nfs) = {}) \<and>
    (sorted_wrt (\<lambda>t u. set (tx_nfs t) \<inter> set (tx_nfs u) = {}) txs) \<and>
    (\<forall>tx \<in> set txs. \<exists>p nf. validate_tx E s tx p = Inr nf)"
proof (induction txs arbitrary: nfs)
  case (Cons tx txs)
  {
    fix thesis
    assume *: "\<And>nf0 nf1. validate_tx E s tx (set nfs) = Inr (nf0, nf1) \<Longrightarrow>
      fold_r (validate_txs_step E s) (nfs @ [nf_key nf0, nf_key nf1]) txs = Inr nfs' \<Longrightarrow> thesis"
    have thesis
      using Cons.prems * by (auto simp: validate_txs_step_def [of E s nfs tx] result_simps)
  }
  then obtain nf0 nf1 where v: "validate_tx E s tx (set nfs) = Inr (nf0, nf1)"
    and rest: "fold_r (validate_txs_step E s) (nfs @ tx_nfs tx) txs = Inr nfs'"
    using validate_tx_ok(5) by metis
  note ih = Cons.IH [OF rest] and v' = validate_tx_ok [OF v]
  show ?case
    using ih v v'(5,6) by auto
qed simp_all

definition burn_bound :: "perm \<Rightarrow> hn_params \<Rightarrow> pegout_tx \<Rightarrow> bool" where
  "burn_bound perm p po \<longleftrightarrow> pt_amount po \<noteq> 0 \<and> pt_recipient po \<noteq> [] \<and> length (pt_recipient po) \<le> 4096 \<and>
     (\<exists>burn_value nf0. checked_add (pt_amount po) (peg_fee p (pt_amount po)) = Some burn_value \<and>
        digest_at (tx_publics (pt_tx po)) pub_nf0 = Some nf0 \<and>
        digest_at (tx_publics (pt_tx po)) pub_cmo0
          = Some (burn_cm_expected perm burn_value nf0 (pt_recipient po) (pt_amount po)))"

lemma validate_pegouts_ok:
  "fold_r (validate_pegouts_step E s) acc pos = Inr acc' \<Longrightarrow>
    (pa_nfs acc' = pa_nfs acc @ concat (map (tx_nfs \<circ> pt_tx) pos)) \<and>
    (set (concat (map (tx_nfs \<circ> pt_tx) pos)) \<inter> (hs_nullifiers s \<union> set (pa_nfs acc)) = {}) \<and>
    (sorted_wrt (\<lambda>t u. set (tx_nfs t) \<inter> set (tx_nfs u) = {}) (map pt_tx pos)) \<and>
    (\<forall>po \<in> set pos. burn_bound (x_perm E) (hs_params s) po \<and> (\<exists>p nf. validate_tx E s (pt_tx po) p = Inr nf)) \<and>
    (pa_outflow acc' = pa_outflow acc + sum_list (map pt_amount pos)) \<and>
    (pa_fees acc' = pa_fees acc + sum_list (map (\<lambda>po. peg_fee (hs_params s) (pt_amount po)) pos)) \<and>
    (pa_burn_total acc' = pa_burn_total acc
          + sum_list (map (\<lambda>po. pt_amount po + peg_fee (hs_params s) (pt_amount po)) pos))"
proof (induction pos arbitrary: acc)
  case (Cons po pos)
  {
    fix thesis
    assume *: "\<And>nf0 nf1 acc1. validate_tx E s (pt_tx po) (set (pa_nfs acc)) = Inr (nf0, nf1) \<Longrightarrow>
      burn_bound (x_perm E) (hs_params s) po \<Longrightarrow>
      pa_nfs acc1 = pa_nfs acc @ [nf_key nf0, nf_key nf1] \<Longrightarrow>
      pa_outflow acc1 = pa_outflow acc + pt_amount po \<Longrightarrow>
      pa_fees acc1 = pa_fees acc + peg_fee (hs_params s) (pt_amount po) \<Longrightarrow>
      pa_burn_total acc1 = pa_burn_total acc + (pt_amount po + peg_fee (hs_params s) (pt_amount po)) \<Longrightarrow>
      fold_r (validate_pegouts_step E s) acc1 pos = Inr acc' \<Longrightarrow> thesis"
    have thesis
      using Cons.prems
      by (auto simp: validate_pegouts_step_def [of E s acc po] result_simps Let_def checked_add_Some
          pub_digest_def burn_bound_def dest: validate_tx_ok(3) split: if_splits intro!: *)
  }
  then obtain acc1 where v: "\<exists>p nf. validate_tx E s (pt_tx po) p = Inr nf"
    and b: "burn_bound (x_perm E) (hs_params s) po"
    and n: "pa_nfs acc1 = pa_nfs acc @ tx_nfs (pt_tx po)"
    and d: "set (tx_nfs (pt_tx po)) \<inter> (hs_nullifiers s \<union> set (pa_nfs acc)) = {}"
    and a: "pa_outflow acc1 = pa_outflow acc + pt_amount po"
      "pa_fees acc1 = pa_fees acc + peg_fee (hs_params s) (pt_amount po)"
      "pa_burn_total acc1 = pa_burn_total acc + (pt_amount po + peg_fee (hs_params s) (pt_amount po))"
    and rest: "fold_r (validate_pegouts_step E s) acc1 pos = Inr acc'"
    using validate_tx_ok(5,6) by metis
  note ih = Cons.IH [OF rest]
  show ?case
    using ih v b n d by (auto simp: comp_def a add.assoc)
qed simp_all

definition pegin_minted :: "hn_params \<Rightarrow> pegin_claim \<Rightarrow> u64" where
  "pegin_minted p c = pc_amount c - peg_fee p (pc_amount c)"

lemma validate_pegins_ok:
  "fold_r (validate_pegins_step perm s) acc pis = Inr acc' \<Longrightarrow>
    (ga_in_block acc' = ga_in_block acc @ map pc_box_id pis) \<and>
    (set (map pc_box_id pis) \<inter> (hs_used_pegins s \<union> set (ga_in_block acc)) = {}) \<and>
    (distinct (map pc_box_id pis)) \<and>
    (ga_cms acc' = ga_cms acc @ map (\<lambda>p. hn_pegmint_cm_expected perm
          (limbs_to_digest (pc_dest_owner p)) (pegin_minted (hs_params s) p) (pc_box_id p)) pis) \<and>
    (ga_inflow acc' = ga_inflow acc + sum_list (map pc_amount pis)) \<and>
    (ga_fees acc' = ga_fees acc + sum_list (map (\<lambda>p. peg_fee (hs_params s) (pc_amount p)) pis)) \<and>
    (\<forall>p \<in> set pis. peg_fee (hs_params s) (pc_amount p) < pc_amount p \<and> length (pc_ciphertext p) = note_ct_bytes)"
proof (induction pis arbitrary: acc)
  case (Cons p pis)
  let ?fee = "peg_fee (hs_params s) (pc_amount p)"
  have lt: "b < a" if "b \<le> a" "0 < a - b" for a b :: u64
    using that by (metis diff_self order_le_less less_irrefl)
  {
    fix thesis
    assume *: "\<And>acc1. pc_box_id p \<notin> hs_used_pegins s \<Longrightarrow> pc_box_id p \<notin> set (ga_in_block acc) \<Longrightarrow>
      length (pc_ciphertext p) = note_ct_bytes \<Longrightarrow> ?fee < pc_amount p \<Longrightarrow>
      ga_in_block acc1 = ga_in_block acc @ [pc_box_id p] \<Longrightarrow>
      ga_cms acc1 = ga_cms acc @ [hn_pegmint_cm_expected perm
          (limbs_to_digest (pc_dest_owner p)) (pegin_minted (hs_params s) p) (pc_box_id p)] \<Longrightarrow>
      ga_inflow acc1 = ga_inflow acc + pc_amount p \<Longrightarrow> ga_fees acc1 = ga_fees acc + ?fee \<Longrightarrow>
      fold_r (validate_pegins_step perm s) acc1 pis = Inr acc' \<Longrightarrow> thesis"
    have thesis
      using Cons.prems
      by (auto simp: validate_pegins_step_def [of perm s acc p] result_simps Let_def checked_sub_Some
          pegin_minted_def split: if_splits option.splits intro!: * lt)
  }
  then obtain acc1 where n: "pc_box_id p \<notin> hs_used_pegins s" "pc_box_id p \<notin> set (ga_in_block acc)"
      "length (pc_ciphertext p) = note_ct_bytes" "?fee < pc_amount p"
    and a: "ga_in_block acc1 = ga_in_block acc @ [pc_box_id p]"
      "ga_cms acc1 = ga_cms acc @ [hn_pegmint_cm_expected perm
          (limbs_to_digest (pc_dest_owner p)) (pegin_minted (hs_params s) p) (pc_box_id p)]"
      "ga_inflow acc1 = ga_inflow acc + pc_amount p" "ga_fees acc1 = ga_fees acc + ?fee"
    and rest: "fold_r (validate_pegins_step perm s) acc1 pis = Inr acc'"
    by metis
  note ih = Cons.IH [OF rest]
  show ?case
    using ih n by (auto simp: a add.assoc)
qed simp_all

section \<open>The effect of a block\<close>

definition pegin_cm :: "perm \<Rightarrow> hn_params \<Rightarrow> pegin_claim \<Rightarrow> digest" where
  "pegin_cm perm params p =
     hn_pegmint_cm_expected perm (limbs_to_digest (pc_dest_owner p)) (pegin_minted params p) (pc_box_id p)"

definition block_nfs :: "hn_block \<Rightarrow> u32 list list" where
  "block_nfs b = concat (map tx_nfs (spend_txs b))"

definition block_cms :: "perm \<Rightarrow> hn_params \<Rightarrow> hn_block \<Rightarrow> digest list" where
  "block_cms perm params b = concat (map tx_cms (spend_txs b)) @ map (pegin_cm perm params) (hb_pegins b)
     @ [limbs_to_digest (hb_coinbase_cm b)]"

lemma append_leaves_ok:
  "fold_r (append_leaf perm) s leaves = Inr t \<Longrightarrow>
    append_all (nt_append perm) (hs_tree s) (map fst leaves) = Some (hs_tree t) \<and>
    (\<exists>outs. length outs = length leaves \<and>
      t = s \<lparr> hs_cm_leaves := hs_cm_leaves s @ map fst leaves, hs_tree := hs_tree t,
              hs_outputs := hs_outputs s @ outs \<rparr>)"
proof (induction leaves arbitrary: s)
  case (Cons leaf leaves)
  obtain cm ct c where leaf: "leaf = (cm, ct, c)" by (cases leaf) auto
  from Cons.prems obtain tree i where t: "nt_append perm (hs_tree s) cm = Some (tree, i)"
    and rest: "fold_r (append_leaf perm) (s \<lparr> hs_cm_leaves := hs_cm_leaves s @ [cm], hs_tree := tree,
        hs_outputs := hs_outputs s @ [\<lparr> or_leaf_index = i, or_cm = cm, or_ciphertext = ct,
          or_height = hs_height s, or_is_coinbase = c \<rparr>] \<rparr>) leaves = Inr t"
    by (auto simp: leaf append_leaf_def [of perm s "(cm, ct, c)"] result_simps)
  from Cons.IH [OF rest] obtain outs where "length outs = length leaves"
    and "t = s \<lparr> hs_cm_leaves := (hs_cm_leaves s @ [cm]) @ map fst leaves, hs_tree := hs_tree t,
        hs_outputs := (hs_outputs s @ [\<lparr> or_leaf_index = i, or_cm = cm, or_ciphertext = ct,
          or_height = hs_height s, or_is_coinbase = c \<rparr>]) @ outs \<rparr>"
    by auto
  then show ?case
    using Cons.IH [OF rest] t
    by (auto simp: leaf intro!: exI [of _ "\<lparr> or_leaf_index = i, or_cm = cm, or_ciphertext = ct,
          or_height = hs_height s, or_is_coinbase = c \<rparr> # outs"])
qed simp

lemma spend_leaves_ok:
  "fold_r spend_leaves_step acc txs = Inr acc' \<Longrightarrow>
    map fst acc' = map fst acc @ concat (map tx_cms txs)"
proof (induction txs arbitrary: acc)
  case (Cons tx txs)
  from Cons.prems obtain cm0 cm1 where "digest_at (tx_publics tx) pub_cmo0 = Some cm0"
    "digest_at (tx_publics tx) pub_cmo1 = Some cm1"
    "fold_r spend_leaves_step (acc @ [(cm0, tx_ct0 tx, False), (cm1, tx_ct1 tx, False)]) txs = Inr acc'"
    by (auto simp: spend_leaves_step_def [of acc tx] result_simps pub_digest_def)
  then show ?case using Cons.IH by (simp add: tx_cms_def)
qed simp

lemma block_leaves_ok:
  assumes "block_leaves b pegin_cms = Inr leaves" and "length pegin_cms = length (hb_pegins b)"
  shows "map fst leaves = concat (map tx_cms (spend_txs b)) @ pegin_cms @ [limbs_to_digest (hb_coinbase_cm b)]"
proof -
  have "map (fst \<circ> (\<lambda>(p, cm). (cm, pc_ciphertext p, False))) (zip xs ys) = ys"
    if "length ys = length xs" for xs :: "pegin_claim list" and ys :: "digest list"
    using that by (induction xs ys rule: list_induct2') auto
  with assms show ?thesis by (auto simp: block_leaves_def result_simps dest!: spend_leaves_ok)
qed

text \<open>Everything a successful \<^verbatim>\<open>apply_block\<close> has established, in one elimination rule.\<close>

lemma apply_blockE:
  assumes "apply_block E s b = Inr (s', u)"
  obtains pa ga leaves pot shielded
  where "check_header E s b = Inr ()"
    and "pa_nfs pa = block_nfs b"
    and "set (block_nfs b) \<inter> hs_nullifiers s = {}"
    and "sorted_wrt (\<lambda>t v. set (tx_nfs t) \<inter> set (tx_nfs v) = {}) (spend_txs b)"
    and "\<forall>tx \<in> set (spend_txs b). \<exists>p nf. validate_tx E s tx p = Inr nf"
    and "\<forall>po \<in> set (hb_pegouts b). burn_bound (x_perm E) (hs_params s) po"
    and "pa_outflow pa = sum_list (map pt_amount (hb_pegouts b))"
    and "pa_fees pa = sum_list (map (\<lambda>po. peg_fee (hs_params s) (pt_amount po)) (hb_pegouts b))"
    and "pa_burn_total pa = sum_list (map (\<lambda>po. pt_amount po + peg_fee (hs_params s) (pt_amount po)) (hb_pegouts b))"
    and "set (map pc_box_id (hb_pegins b)) \<inter> hs_used_pegins s = {}"
    and "distinct (map pc_box_id (hb_pegins b))"
    and "ga_inflow ga = sum_list (map pc_amount (hb_pegins b))"
    and "ga_fees ga = sum_list (map (\<lambda>p. peg_fee (hs_params s) (pc_amount p)) (hb_pegins b))"
    and "\<forall>p \<in> set (hb_pegins b). peg_fee (hs_params s) (pc_amount p) < pc_amount p"
    and "(if hb_coinbase_is_reward b then reward_economics s b pa ga else genesis_economics s b)
      = Inr (pot, shielded)"
    and "map fst leaves = block_cms (x_perm E) (hs_params s) b"
    and "check_commitments (x_perm E) s b shielded leaves = Inr ()"
    and "apply_mutation (x_perm E) s b (block_nfs b) leaves pot shielded = Inr (s', u)"
proof -
  from assms obtain nfs pa ga pot shielded leaves where
    h: "check_header E s b = Inr ()"
    and t: "fold_r (validate_txs_step E s) [] (hb_txs b) = Inr nfs"
    and p: "fold_r (validate_pegouts_step E s)
         \<lparr> pa_nfs = nfs, pa_outflow = 0, pa_fees = 0, pa_burn_total = 0 \<rparr> (hb_pegouts b) = Inr pa"
    and g: "fold_r (validate_pegins_step (x_perm E) s)
         \<lparr> ga_in_block = [], ga_cms = [], ga_inflow = 0, ga_fees = 0 \<rparr> (hb_pegins b) = Inr ga"
    and e: "(if hb_coinbase_is_reward b then reward_economics s b pa ga else genesis_economics s b)
      = Inr (pot, shielded)"
    and l: "block_leaves b (ga_cms ga) = Inr leaves"
    and c: "check_commitments (x_perm E) s b shielded leaves = Inr ()"
    and m: "apply_mutation (x_perm E) s b (pa_nfs pa) leaves pot shielded = Inr (s', u)"
    unfolding apply_block_def by (auto simp: bind_r_eq_Inr)
  note t = validate_txs_ok [OF t] and p = validate_pegouts_ok [OF p] and g = validate_pegins_ok [OF g]
  have nfs: "pa_nfs pa = block_nfs b"
    using t p by (simp add: block_nfs_def spend_txs_def)
  have dis: "set (block_nfs b) \<inter> hs_nullifiers s = {}"
    using t p by (auto simp: block_nfs_def spend_txs_def)
  have srt: "sorted_wrt (\<lambda>t v. set (tx_nfs t) \<inter> set (tx_nfs v) = {}) (spend_txs b)"
    unfolding spend_txs_def sorted_wrt_append using t p by fastforce
  have val: "\<forall>tx \<in> set (spend_txs b). \<exists>p nf. validate_tx E s tx p = Inr nf"
    using t p by (auto simp: spend_txs_def)
  have cms: "map fst leaves = block_cms (x_perm E) (hs_params s) b"
    using block_leaves_ok [OF l] g by (simp add: block_cms_def pegin_cm_def)
  show thesis
    by (rule that [OF h nfs dis srt val _ _ _ _ _ _ _ _ _ e cms c m [unfolded nfs]]) (use p g in auto)
qed

lemma append_all_append: "append_all a t (xs @ ys) = Option.bind (append_all a t xs) (\<lambda>u. append_all a u ys)"
  by (induction xs arbitrary: t) (auto split: option.splits)

lemma push_root_cong:
  "hs_tree s = hs_tree t \<Longrightarrow> hs_recent_roots s = hs_recent_roots t \<Longrightarrow> hs_params s = hs_params t \<Longrightarrow>
    push_root perm s = push_root perm t"
  by (simp add: push_root_def Let_def cong: if_cong)

lemma push_daa_cong:
  "hs_daa_view s = hs_daa_view t \<Longrightarrow> hs_params s = hs_params t \<Longrightarrow> push_daa s e = push_daa t e"
  by (simp add: push_daa_def Let_def cong: if_cong)

lemma apply_mutationE:
  assumes "apply_mutation perm s b nfs leaves pot shielded = Inr (s', u)"
  obtains outs ws tree where "append_all (nt_append perm) (hs_tree s) (map fst leaves) = Some tree"
    and "block_withdrawals s b = Inr ws"
    and "s' = s \<lparr> hs_cm_leaves := hs_cm_leaves s @ map fst leaves, hs_tree := tree,
        hs_nullifiers := hs_nullifiers s \<union> set nfs,
        hs_recent_roots := fst (push_root perm (s \<lparr> hs_tree := tree \<rparr>)),
        hs_outputs := hs_outputs s @ outs, hs_height := hs_height s + 1,
        hs_anchor_height := an_height (hb_anchor b),
        hs_daa_view := fst (push_daa s (hb_timestamp_ms b, hb_nbits b)),
        hs_pot := pot, hs_shielded_total := shielded,
        hs_used_pegins := hs_used_pegins s \<union> set (map pc_box_id (hb_pegins b)),
        hs_withdrawals := hs_withdrawals s @ ws \<rparr>"
    and "u = \<lparr> hu_prev_leaf_count = length (hs_cm_leaves s), hu_added_nullifiers = nfs,
           hu_prev_output_count = length (hs_outputs s), hu_prev_height = hs_height s,
           hu_prev_anchor_height = hs_anchor_height s, hu_prev_pot = hs_pot s,
           hu_prev_shielded_total = hs_shielded_total s,
           hu_added_pegin_box_ids = map pc_box_id (hb_pegins b),
           hu_prev_withdrawal_count = length (hs_withdrawals s),
           hu_evicted_root = snd (push_root perm (s \<lparr> hs_tree := tree \<rparr>)),
           hu_evicted_daa = snd (push_daa s (hb_timestamp_ms b, hb_nbits b)) \<rparr>"
proof -
  from assms obtain s1 ws where s1: "fold_r (append_leaf perm) s leaves = Inr s1"
    and ws: "block_withdrawals s b = Inr ws"
    by (auto simp: apply_mutation_def bind_r_eq_Inr)
  note a = append_leaves_ok [OF s1]
  then obtain outs where t: "s1 = s \<lparr> hs_cm_leaves := hs_cm_leaves s @ map fst leaves, hs_tree := hs_tree s1,
      hs_outputs := hs_outputs s @ outs \<rparr>" by blast
  have root: "push_root perm (s1 \<lparr> hs_used_pegins := x, hs_withdrawals := y, hs_nullifiers := z \<rparr>)
      = push_root perm (s \<lparr> hs_tree := hs_tree s1 \<rparr>)" for x y z
    by (rule push_root_cong) (subst t, simp)+
  have daa: "push_daa (s1 \<lparr> hs_used_pegins := x, hs_withdrawals := y, hs_nullifiers := z \<rparr>) e = push_daa s e"
    for x y z e
    by (rule push_daa_cong) (subst t, simp)+
  have eq: "s1 \<lparr> hs_used_pegins := x, hs_withdrawals := y, hs_nullifiers := z, hs_recent_roots := r,
      hs_daa_view := v, hs_height := h, hs_anchor_height := i, hs_pot := j, hs_shielded_total := k \<rparr>
    = s \<lparr> hs_cm_leaves := hs_cm_leaves s @ map fst leaves, hs_tree := hs_tree s1, hs_nullifiers := z,
        hs_recent_roots := r, hs_outputs := hs_outputs s @ outs, hs_height := h, hs_anchor_height := i,
        hs_daa_view := v, hs_pot := j, hs_shielded_total := k, hs_used_pegins := x, hs_withdrawals := y \<rparr>"
    for x y z r v h i j k
    by (subst t) simp
  have f: "hs_used_pegins s1 = hs_used_pegins s" "hs_withdrawals s1 = hs_withdrawals s"
    "hs_nullifiers s1 = hs_nullifiers s" "hs_height s1 = hs_height s"
    by (subst t; simp)+
  show thesis
    by (rule that [of "hs_tree s1" ws outs])
      (use assms a ws in \<open>auto simp: apply_mutation_def s1 root daa eq f Let_def split: prod.splits\<close>)
qed

section \<open>Accepting a block\<close>

lemma append_leaves_accept:
  "append_all (nt_append perm) (hs_tree s) (map fst leaves) = Some tree \<Longrightarrow>
    \<exists>t. fold_r (append_leaf perm) s leaves = Inr t"
proof (induction leaves arbitrary: s)
  case (Cons leaf leaves)
  obtain cm ct c where leaf: "leaf = (cm, ct, c)" by (cases leaf) auto
  from Cons.prems obtain t' i where "nt_append perm (hs_tree s) cm = Some (t', i)"
    "append_all (nt_append perm) t' (map fst leaves) = Some tree"
    by (auto simp: leaf split: option.splits)
  with Cons.IH [of "s \<lparr> hs_cm_leaves := hs_cm_leaves s @ [cm], hs_tree := t',
        hs_outputs := hs_outputs s @ [\<lparr> or_leaf_index = i, or_cm = cm, or_ciphertext = ct,
          or_height = hs_height s, or_is_coinbase = c \<rparr>] \<rparr>"]
  show ?case by (simp add: leaf append_leaf_def [of perm s "(cm, ct, c)"])
qed simp

text \<open>The converse of the elimination rule: the sections of \<open>apply_block\<close> one by one.\<close>

lemma apply_block_accept:
  assumes "check_header E s b = Inr ()"
    and "fold_r (validate_txs_step E s) [] (hb_txs b) = Inr nfs"
    and "fold_r (validate_pegouts_step E s)
         \<lparr> pa_nfs = nfs, pa_outflow = 0, pa_fees = 0, pa_burn_total = 0 \<rparr> (hb_pegouts b) = Inr pa"
    and "fold_r (validate_pegins_step (x_perm E) s)
         \<lparr> ga_in_block = [], ga_cms = [], ga_inflow = 0, ga_fees = 0 \<rparr> (hb_pegins b) = Inr ga"
    and "(if hb_coinbase_is_reward b then reward_economics s b pa ga else genesis_economics s b) = Inr (pot, shielded)"
    and "block_leaves b (ga_cms ga) = Inr leaves"
    and "check_commitments (x_perm E) s b shielded leaves = Inr ()"
    and "append_all (nt_append (x_perm E)) (hs_tree s) (map fst leaves) = Some tree"
    and "block_withdrawals s b = Inr ws"
  obtains s' u outs where "apply_block E s b = Inr (s', u)"
    and "s' = s \<lparr> hs_cm_leaves := hs_cm_leaves s @ map fst leaves, hs_tree := tree,
        hs_nullifiers := hs_nullifiers s \<union> set (pa_nfs pa),
        hs_recent_roots := fst (push_root (x_perm E) (s \<lparr> hs_tree := tree \<rparr>)),
        hs_outputs := hs_outputs s @ outs, hs_height := hs_height s + 1,
        hs_anchor_height := an_height (hb_anchor b),
        hs_daa_view := fst (push_daa s (hb_timestamp_ms b, hb_nbits b)),
        hs_pot := pot, hs_shielded_total := shielded,
        hs_used_pegins := hs_used_pegins s \<union> set (map pc_box_id (hb_pegins b)),
        hs_withdrawals := hs_withdrawals s @ ws \<rparr>"
proof -
  have eq: "apply_block E s b = apply_mutation (x_perm E) s b (pa_nfs pa) leaves pot shielded"
    using assms by (simp add: apply_block_def)
  from append_leaves_accept [OF assms(8)] obtain t where "fold_r (append_leaf (x_perm E)) s leaves = Inr t" by blast
  then have "\<exists>r. apply_mutation (x_perm E) s b (pa_nfs pa) leaves pot shielded = Inr r"
    using assms(9) by (simp add: apply_mutation_def Let_def split: prod.splits)
  then obtain s' u where m: "apply_mutation (x_perm E) s b (pa_nfs pa) leaves pot shielded = Inr (s', u)"
    by auto
  from apply_mutationE [OF m] show thesis
    using that [of s' u] eq m assms(8,9) by (metis Inr_inject option.inject)
qed

section \<open>Rollback is the exact inverse of a block\<close>

text \<open>The tree is always the tree of the leaf list; this is what makes the rebuild of \<^verbatim>\<open>rollback\<close> exact.\<close>

definition tree_inv :: "perm \<Rightarrow> hn_state \<Rightarrow> bool" where
  "tree_inv perm s \<longleftrightarrow> rebuild perm (hs_cm_leaves s) = Some (hs_tree s)"

lemma tree_inv_new: "tree_inv perm (hn_new perm params)"
  by (simp add: tree_inv_def hn_new_def rebuild_def)

lemma apply_block_tree_inv:
  assumes "tree_inv (x_perm E) s" and "apply_block E s b = Inr (s', u)"
  shows "tree_inv (x_perm E) s'"
  using assms
  by (auto simp: tree_inv_def rebuild_def append_all_append elim!: apply_blockE apply_mutationE)

lemma push_root_undo:
  "(case snd (push_root perm s) of None \<Rightarrow> butlast (fst (push_root perm s))
    | Some r \<Rightarrow> r # butlast (fst (push_root perm s))) = hs_recent_roots s"
  by (auto simp: push_root_def Let_def split: list.splits)

lemma push_daa_undo:
  "(case snd (push_daa s e) of None \<Rightarrow> butlast (fst (push_daa s e))
    | Some r \<Rightarrow> r # butlast (fst (push_daa s e))) = hs_daa_view s"
  by (cases "hs_daa_view s") (auto simp: push_daa_def Let_def)

lemma rollback_exact:
  assumes "tree_inv (x_perm E) s" and "apply_block E s b = Inr (s', u)"
  shows "rollback (x_perm E) s' u = Inr s"
proof -
  from assms(2) obtain leaves pot shielded
    where dis: "set (block_nfs b) \<inter> hs_nullifiers s = {}"
    and fresh: "set (map pc_box_id (hb_pegins b)) \<inter> hs_used_pegins s = {}"
    and m: "apply_mutation (x_perm E) s b (block_nfs b) leaves pot shielded = Inr (s', u)"
    by (elim apply_blockE)
  from fresh have fresh': "hs_used_pegins s - pc_box_id ` set (hb_pegins b) = hs_used_pegins s" by auto
  from dis have dis': "hs_nullifiers s - set (block_nfs b) = hs_nullifiers s" by auto
  from m assms(1) show ?thesis
    by (elim apply_mutationE)
      (simp add: rollback_def Let_def tree_inv_def push_root_undo push_daa_undo fresh' dis' Un_Diff)
qed

section \<open>Undo logs\<close>

text \<open>
  A chain keeps the blocks it has applied with their undo records, newest first; it may apply a
  block or undo the newest one, in any order. The relation is over any application and undo.
\<close>

inductive log_reach :: "('s \<Rightarrow> 'b \<Rightarrow> 'e + 's \<times> 'u) \<Rightarrow> ('s \<Rightarrow> 'u \<Rightarrow> 'e + 's) \<Rightarrow> 's \<Rightarrow> ('b \<times> 'u) list \<Rightarrow> 's \<Rightarrow> bool"
  for app undo s0 where
  init: "log_reach app undo s0 [] s0"
| apply_step: "log_reach app undo s0 log s \<Longrightarrow> app s b = Inr (s', u) \<Longrightarrow> log_reach app undo s0 ((b, u) # log) s'"
| undo_step: "log_reach app undo s0 ((b, u) # log) s \<Longrightarrow> undo s u = Inr s' \<Longrightarrow> log_reach app undo s0 log s'"

fun log_chain :: "('s \<Rightarrow> 'b \<Rightarrow> 'e + 's \<times> 'u) \<Rightarrow> 's \<Rightarrow> ('b \<times> 'u) list \<Rightarrow> 's \<Rightarrow> bool" where
  "log_chain app s0 [] s \<longleftrightarrow> s = s0"
| "log_chain app s0 ((b, u) # log) s \<longleftrightarrow> (\<exists>s1. log_chain app s0 log s1 \<and> app s1 b = Inr (s, u))"

definition replay :: "('s \<Rightarrow> 'b \<Rightarrow> 'e + 's \<times> 'u) \<Rightarrow> 's \<Rightarrow> 'b list \<Rightarrow> 'e + 's" where
  "replay app s0 bs = fold_r (\<lambda>s b. map_sum id fst (app s b)) s0 bs"

lemma log_chain_replay: "log_chain app s0 log s \<Longrightarrow> replay app s0 (rev (map fst log)) = Inr s"
  by (induction app s0 log s rule: log_chain.induct) (auto simp: replay_def fold_r_append)

locale undo_log =
  fixes app :: "'s \<Rightarrow> 'b \<Rightarrow> 'e + 's \<times> 'u"
    and undo :: "'s \<Rightarrow> 'u \<Rightarrow> 'e + 's"
    and inv :: "'s \<Rightarrow> bool"
  assumes app_inv: "inv s \<Longrightarrow> app s b = Inr (s', u) \<Longrightarrow> inv s'"
    and undo_app: "inv s \<Longrightarrow> app s b = Inr (s', u) \<Longrightarrow> undo s' u = Inr s"
begin

lemma chain_inv: "log_chain app s0 log s \<Longrightarrow> inv s0 \<Longrightarrow> inv s"
  by (induction log arbitrary: s) (auto, metis app_inv)

lemma reach_chain: "log_reach app undo s0 log s \<Longrightarrow> inv s0 \<Longrightarrow> log_chain app s0 log s"
proof (induction rule: log_reach.induct)
  case (undo_step b u log s s')
  then obtain s1 where s1: "log_chain app s0 log s1" "app s1 b = Inr (s, u)" by auto
  from undo_app [OF chain_inv [OF s1(1) undo_step.prems] s1(2)] undo_step.hyps(2) s1(1)
  show ?case by simp
qed auto

lemma reach_replay: "log_reach app undo s0 log s \<Longrightarrow> inv s0 \<Longrightarrow> replay app s0 (rev (map fst log)) = Inr s"
  by (simp add: reach_chain log_chain_replay)

end

interpretation ledger: undo_log "apply_block E" "rollback (x_perm E)" "tree_inv (x_perm E)" for E
  by unfold_locales (auto intro: apply_block_tree_inv rollback_exact)

section \<open>Runs of the ledger\<close>

inductive hn_reach :: "('h, 't) ext \<Rightarrow> hn_params \<Rightarrow> hn_block list \<Rightarrow> hn_state \<Rightarrow> bool" for E params where
  genesis: "hn_reach E params [] (hn_new (x_perm E) params)"
| block: "hn_reach E params bs s \<Longrightarrow> apply_block E s b = Inr (s', u) \<Longrightarrow> hn_reach E params (bs @ [b]) s'"

inductive_cases hn_reach_NilE: "hn_reach E params [] s"
inductive_cases hn_reach_snocE: "hn_reach E params (bs @ [b]) s"

lemma hn_reach_replay: "hn_reach E params bs s \<longleftrightarrow> replay (apply_block E) (hn_new (x_perm E) params) bs = Inr s"
proof
  show "hn_reach E params bs s \<Longrightarrow> replay (apply_block E) (hn_new (x_perm E) params) bs = Inr s"
    by (induction rule: hn_reach.induct) (simp_all add: replay_def fold_r_append)
next
  show "replay (apply_block E) (hn_new (x_perm E) params) bs = Inr s \<Longrightarrow> hn_reach E params bs s"
  proof (induction bs arbitrary: s rule: rev_induct)
    case (snoc b bs)
    then obtain s1 where "replay (apply_block E) (hn_new (x_perm E) params) bs = Inr s1"
      "map_sum id fst (apply_block E s1 b) = Inr s"
      by (auto simp: replay_def fold_r_append bind_r_eq_Inr)
    with snoc.IH show ?case by (cases "apply_block E s1 b") (auto intro: hn_reach.block)
  qed (auto simp: replay_def intro: hn_reach.genesis)
qed

lemma hn_reach_tree_inv: "hn_reach E params bs s \<Longrightarrow> tree_inv (x_perm E) s"
  by (induction rule: hn_reach.induct) (auto intro: tree_inv_new apply_block_tree_inv)

lemma apply_block_params: "apply_block E s b = Inr (s', u) \<Longrightarrow> hs_params s' = hs_params s"
  by (auto elim!: apply_blockE apply_mutationE)

lemma hn_reach_params: "hn_reach E params bs s \<Longrightarrow> hs_params s = params"
  by (induction rule: hn_reach.induct) (simp_all add: hn_new_def apply_block_params)

text \<open>
  C13: Whatever interleaving of block applications and rollbacks a chain performs from the initial
  state, its state is the one a straight replay of the blocks it currently holds would give.
\<close>

theorem ledger_state_is_replay:
  assumes "log_reach (apply_block E) (rollback (x_perm E)) (hn_new (x_perm E) params) log s"
  shows "replay (apply_block E) (hn_new (x_perm E) params) (rev (map fst log)) = Inr s"
  by (rule ledger.reach_replay [OF assms tree_inv_new])

text \<open>
  C12: Rolling back the tip of any chain restores the previous state exactly, every field of it.
\<close>

theorem rollback_restores:
  assumes "hn_reach E params bs s" and "apply_block E s b = Inr (s', u)"
  shows "rollback (x_perm E) s' u = Inr s"
  by (rule ledger.undo_app [OF hn_reach_tree_inv [OF assms(1)] assms(2)])

end
