(* ===== verification/HnRuns.thy ===== *)
theory HnRuns
  imports HnLedger
begin

text \<open>
  What the node's ledger guarantees on every run from the initial state, by rule induction over
  \<open>hn_reach\<close>: no nullifier is spent twice and no deposit minted twice, the tree, the anchor window,
  the difficulty view, the totals and the withdrawals are functions of the blocks, and value is
  conserved.
\<close>

section \<open>Invariants of every run\<close>

lemma apply_block_effect:
  assumes "apply_block E s b = Inr (s', u)"
  shows "hs_cm_leaves s' = hs_cm_leaves s @ block_cms (x_perm E) (hs_params s) b"
    "hs_nullifiers s' = hs_nullifiers s \<union> set (block_nfs b)"
    "hs_used_pegins s' = hs_used_pegins s \<union> set (map pc_box_id (hb_pegins b))"
    "hs_recent_roots s' = fst (push_root (x_perm E) (s \<lparr> hs_tree := hs_tree s' \<rparr>))"
    "hs_daa_view s' = fst (push_daa s (hb_timestamp_ms b, hb_nbits b))"
    "hs_height s' = hs_height s + 1"
    "hs_anchor_height s' = an_height (hb_anchor b)"
    "\<exists>ws. block_withdrawals s b = Inr ws \<and> hs_withdrawals s' = hs_withdrawals s @ ws"
  using assms by (auto elim!: apply_blockE apply_mutationE)

lemma apply_block_fresh:
  assumes "apply_block E s b = Inr (s', u)"
  shows "set (block_nfs b) \<inter> hs_nullifiers s = {}"
    "sorted_wrt (\<lambda>t v. set (tx_nfs t) \<inter> set (tx_nfs v) = {}) (spend_txs b)"
    "set (map pc_box_id (hb_pegins b)) \<inter> hs_used_pegins s = {}"
    "distinct (map pc_box_id (hb_pegins b))"
    "\<forall>tx \<in> set (spend_txs b). \<exists>p nf. validate_tx E s tx p = Inr nf"
    "\<forall>po \<in> set (hb_pegouts b). burn_bound (x_perm E) (hs_params s) po"
    "check_header E s b = Inr ()"
  by (rule apply_blockE [OF assms], assumption)+

subsection \<open>No double spend, no double mint\<close>

text \<open>
  C3: In every run from the initial state no two spends (plain transactions or the spends of
  peg-outs, in the same block or in different ones) share a nullifier, and the ledger's nullifier
  set is exactly the set of the nullifiers of the run's spends.
\<close>

theorem no_double_spend:
  assumes "hn_reach E params bs s"
  shows "sorted_wrt (\<lambda>t v. set (tx_nfs t) \<inter> set (tx_nfs v) = {}) (concat (map spend_txs bs))
    \<and> hs_nullifiers s = set (concat (map tx_nfs (concat (map spend_txs bs))))"
  using assms
proof induction
  case (block bs s b s' u)
  note f = apply_block_fresh [OF block.hyps(2)] and e = apply_block_effect [OF block.hyps(2)]
  have "set (tx_nfs t) \<inter> set (tx_nfs v) = {}"
    if "t \<in> set (concat (map spend_txs bs))" "v \<in> set (spend_txs b)" for t v
    using that block.IH f(1) by (auto simp: block_nfs_def)
  then show ?case
    using block.IH f(2) e(2) by (simp add: sorted_wrt_append block_nfs_def)
qed (simp add: hn_new_def)

text \<open>
  C15: In every run no main-chain deposit box is minted twice, and the set of used boxes is
  exactly the set of the boxes of the run's peg-in claims.
\<close>

theorem no_double_mint:
  assumes "hn_reach E params bs s"
  shows "distinct (map pc_box_id (concat (map hb_pegins bs)))
    \<and> hs_used_pegins s = set (map pc_box_id (concat (map hb_pegins bs)))"
  using assms
proof induction
  case (block bs s b s' u)
  note f = apply_block_fresh [OF block.hyps(2)] and e = apply_block_effect [OF block.hyps(2)]
  show ?case
    using block.IH f(3,4) e(3) by auto
qed (simp add: hn_new_def)

subsection \<open>The commitment state is a function of the blocks\<close>

lemma check_commitments_ok:
  assumes "check_commitments perm s b shielded leaves = Inr ()"
  shows "hb_shielded_after b = shielded"
    "digest_to_limbs (hn_coinbase_cm_expected perm (limbs_to_digest (hb_miner_owner b)) (hb_coinbase_amount b)
       (hn_block_id perm (hs_height s) (hn_tip_root perm s))) = hb_coinbase_cm b"
    "\<exists>t. append_all (nt_append perm) (hs_tree s) (map fst leaves) = Some t
       \<and> digest_to_limbs (nt_root perm t) = hb_state_root b"
  using assms by (auto simp: check_commitments_def simulate_state_root_def Let_def result_simps split: if_splits)

lemma apply_block_state_root:
  assumes "apply_block E s b = Inr (s', u)"
  shows "digest_to_limbs (hn_tip_root (x_perm E) s') = hb_state_root b"
    "append_all (nt_append (x_perm E)) (hs_tree s) (block_cms (x_perm E) (hs_params s) b) = Some (hs_tree s')"
  using assms by (auto simp: hn_tip_root_def elim!: apply_blockE apply_mutationE dest: check_commitments_ok(3))

definition run_leaves :: "perm \<Rightarrow> hn_params \<Rightarrow> hn_block list \<Rightarrow> digest list" where
  "run_leaves perm params bs = concat (map (block_cms perm params) bs)"

lemma hn_reach_leaves: "hn_reach E params bs s \<Longrightarrow> hs_cm_leaves s = run_leaves (x_perm E) params bs"
  by (induction rule: hn_reach.induct)
    (auto simp: hn_new_def run_leaves_def apply_block_effect(1) hn_reach_params)

lemma hn_reach_tree:
  assumes "hn_reach E params bs s"
  shows "nt_rep (x_perm E) (hs_tree s) (run_leaves (x_perm E) params bs)"
  using nt.append_all_SomeD [OF nt.rep_new, of "x_perm E" "hs_cm_leaves s" "hs_tree s"]
    hn_reach_tree_inv [OF assms] hn_reach_leaves [OF assms]
  by (simp add: tree_inv_def rebuild_def)

text \<open>
  C14: In every run the note tree holds exactly the commitments of the blocks in consensus order
  (spends, peg-ins, coinbase), its root is the Merkle root of that list, and the last block's
  declared state root is this root.
\<close>

theorem tree_is_run_leaves:
  assumes "hn_reach E params bs s"
  shows "hs_cm_leaves s = run_leaves (x_perm E) params bs
    \<and> output_count s = length (run_leaves (x_perm E) params bs)
    \<and> hn_tip_root (x_perm E) s = merkle_root (x_perm E) (run_leaves (x_perm E) params bs)
    \<and> (bs \<noteq> [] \<longrightarrow> hb_state_root (last bs) = digest_to_limbs (hn_tip_root (x_perm E) s))"
proof (intro conjI impI)
  note rep = hn_reach_tree [OF assms]
  show "output_count s = length (run_leaves (x_perm E) params bs)"
    using rep by (simp add: output_count_def nt_len_def nt_rep_def)
  show "hn_tip_root (x_perm E) s = merkle_root (x_perm E) (run_leaves (x_perm E) params bs)"
    by (simp add: hn_tip_root_def nt_root_rep [OF rep])
  show "hb_state_root (last bs) = digest_to_limbs (hn_tip_root (x_perm E) s)" if "bs \<noteq> []"
    using assms that by cases (simp_all add: apply_block_state_root(1))
qed (rule hn_reach_leaves [OF assms])

subsection \<open>The anchor window and the difficulty view\<close>

definition run_roots :: "perm \<Rightarrow> hn_params \<Rightarrow> hn_block list \<Rightarrow> digest list" where
  "run_roots perm params bs =
     map (\<lambda>k. merkle_root perm (run_leaves perm params (take k bs))) [0..<Suc (length bs)]"

definition run_daa :: "hn_block list \<Rightarrow> (u64 \<times> u32) list" where
  "run_daa bs = map (\<lambda>b. (hb_timestamp_ms b, hb_nbits b)) bs"

lemma run_roots_snoc: "run_roots perm params (bs @ [b]) =
    run_roots perm params bs @ [merkle_root perm (run_leaves perm params (bs @ [b]))]"
  by (simp add: run_roots_def)

lemma push_root_window:
  assumes "hs_recent_roots s = take_last (hp_root_window (hs_params s)) rs" "0 < hp_root_window (hs_params s)"
  shows "fst (push_root perm s) = take_last (hp_root_window (hs_params s)) (rs @ [nt_root perm (hs_tree s)])"
  using assms by (auto simp: push_root_def Let_def take_last_snoc split: list.splits)

lemma push_daa_window:
  assumes "hs_daa_view s = take_last (hp_daa_window (hs_params s) + 1) es"
  shows "fst (push_daa s e) = take_last (hp_daa_window (hs_params s) + 1) (es @ [e])"
  using assms length_take_last [of "hp_daa_window (hs_params s) + 1" es]
  by (auto simp: push_daa_def Let_def take_last_snoc tl_append split: list.splits)

lemma hn_reach_roots:
  assumes "hn_reach E params bs s" and w: "0 < hp_root_window params"
  shows "hs_recent_roots s = take_last (hp_root_window params) (run_roots (x_perm E) params bs)"
  using assms(1)
proof induction
  case genesis
  show ?case
    using w nt_root_rep [OF nt_rep_new, of "x_perm E"]
    by (simp add: hn_new_def run_roots_def run_leaves_def take_last_all)
next
  case (block bs s b s' u)
  have "hs_params (s \<lparr> hs_tree := hs_tree s' \<rparr>) = params"
    using hn_reach_params [OF block.hyps(1)] by simp
  with push_root_window [of "s \<lparr> hs_tree := hs_tree s' \<rparr>" "run_roots (x_perm E) params bs" "x_perm E"]
  show ?case
    using block.IH w apply_block_effect(4) [OF block.hyps(2)]
      nt_root_rep [OF hn_reach_tree [OF hn_reach.block [OF block.hyps]]]
    by (simp add: run_roots_snoc)
qed

lemma hn_reach_daa:
  assumes "hn_reach E params bs s"
  shows "hs_daa_view s = take_last (hp_daa_window params + 1) (run_daa bs)"
  using assms
proof induction
  case (block bs s b s' u)
  then show ?case
    using push_daa_window [of s "run_daa bs" "(hb_timestamp_ms b, hb_nbits b)"] hn_reach_params [OF block.hyps(1)]
      apply_block_effect(5) [OF block.hyps(2)]
    by (simp add: run_daa_def)
qed (simp add: hn_new_def run_daa_def take_last_def)

lemma hn_reach_expected_nbits:
  assumes "hn_reach E params bs s"
  shows "expected_nbits E s = next_nbits E (hn_daa params) (run_daa bs)"
proof -
  let ?w = "hp_daa_window params + 1"
  have e: "expected_nbits E s = next_nbits E (hn_daa params) (take_last ?w (run_daa bs))"
    by (simp add: expected_nbits_def hn_reach_params [OF assms] hn_reach_daa [OF assms])
  show ?thesis
  proof (cases "length (run_daa bs) \<le> ?w")
    case False
    then have "daa_window (hn_daa params) + 1 \<le> length (take_last ?w (run_daa bs))"
      by (simp add: hn_daa_def length_take_last)
    with next_nbits_suffix [OF this] show ?thesis
      unfolding e by (metis take_last_split)
  qed (simp add: e take_last_all)
qed

lemma hn_reach_step:
  assumes "hn_reach E params bs s" and "i < length bs"
  shows "\<exists>s0 s1 u. hn_reach E params (take i bs) s0 \<and> apply_block E s0 (bs ! i) = Inr (s1, u)"
  using assms
proof induction
  case (block bs s b s' u)
  then show ?case by (cases "i = length bs") (auto simp: nth_append)
qed simp

lemma check_header_ok:
  assumes "check_header E s b = Inr ()"
  shows "limbs_to_digest (hb_prev_root b) = hn_tip_root (x_perm E) s"
    "hs_anchor_height s \<le> an_height (hb_anchor b)"
    "expected_nbits E s = Some (hb_nbits b)" "check_aux_pow E s b = Inr ()"
  using assms by (auto simp: check_header_def result_simps split: if_splits)

lemma hn_reach_anchor:
  "hn_reach E params bs s \<Longrightarrow> hs_anchor_height s = (if bs = [] then 0 else an_height (hb_anchor (last bs)))"
  by (induction rule: hn_reach.induct) (simp_all add: hn_new_def apply_block_effect(7))

lemma hn_reach_height: "hn_reach E params bs s \<Longrightarrow> hs_height s = of_nat (length bs)"
  by (induction rule: hn_reach.induct) (simp_all add: hn_new_def apply_block_effect(6) add.commute)

text \<open>
  The difficulty of every block of a run is the one the retarget rule gives on the whole
  history before it: the bounded window the node keeps loses nothing. Its parent root is the root
  of the tree before it, and its main-chain anchor is not lower than the one before it.
\<close>

theorem header_follows_history:
  assumes "hn_reach E params bs s" and "i < length bs"
  shows "next_nbits E (hn_daa params) (run_daa (take i bs)) = Some (hb_nbits (bs ! i))
    \<and> limbs_to_digest (hb_prev_root (bs ! i)) = merkle_root (x_perm E) (run_leaves (x_perm E) params (take i bs))
    \<and> (0 < i \<longrightarrow> an_height (hb_anchor (bs ! (i - 1))) \<le> an_height (hb_anchor (bs ! i)))"
proof -
  from hn_reach_step [OF assms] obtain s0 s1 u
    where r: "hn_reach E params (take i bs) s0" and a: "apply_block E s0 (bs ! i) = Inr (s1, u)" by blast
  note h = check_header_ok [OF apply_block_fresh(7) [OF a]]
  have "last (take i bs) = bs ! (i - 1)" if "0 < i"
    using that assms(2) by (subst last_conv_nth) auto
  then have "hs_anchor_height s0 = an_height (hb_anchor (bs ! (i - 1)))" if "0 < i"
    using hn_reach_anchor [OF r] that assms(2) by auto
  then show ?thesis
    using h hn_reach_expected_nbits [OF r] nt_root_rep [OF hn_reach_tree [OF r]]
    by (auto simp: hn_tip_root_def)
qed

text \<open>
  Every spend of a run (plain or of a peg-out) carried a proof the spend verifier accepted for
  its public values, paid exactly the flat fee, and was made against a tree root of one of the last
  \<^verbatim>\<open>root_window\<close> blocks before it.
\<close>

theorem spends_authorised:
  assumes "hn_reach E params bs s" and "i < length bs" and "tx \<in> set (spend_txs (bs ! i))"
    and "0 < hp_root_window params"
  shows "x_spend_verify E (tx_proof tx) (tx_publics tx)
    \<and> tx_fee tx = Inr (Some (hp_flat_fee params))
    \<and> (\<exists>root \<in> set (take_last (hp_root_window params) (run_roots (x_perm E) params (take i bs))).
         digest_at (tx_publics tx) pub_root = Some root)"
proof -
  from hn_reach_step [OF assms(1,2)] obtain s0 s1 u
    where r: "hn_reach E params (take i bs) s0" and a: "apply_block E s0 (bs ! i) = Inr (s1, u)" by blast
  from apply_block_fresh(5) [OF a] assms(3) obtain p nf0 nf1 where "validate_tx E s0 tx p = Inr (nf0, nf1)"
    by fastforce
  from validate_tx_ok [OF this] show ?thesis
    using hn_reach_roots [OF r assms(4)] hn_reach_params [OF r] by auto
qed

subsection \<open>Value\<close>

lemma reward_economics_ok:
  assumes "reward_economics s b pa ga = Inr (pot, shielded)"
  shows "\<not> hs_height s < of_nat (length (hp_genesis (hs_params s)))"
    "hb_coinbase_amount b = coinbase_amount (hs_params s) (hs_pot s) (length (spend_txs b))"
    "hb_pot_after b = pot"
    "shielded + pot = hs_shielded_total s + hs_pot s + ga_inflow ga - pa_outflow pa"
  using assms
  by (auto simp: reward_economics_def Let_def result_simps checked_sub_Some spend_txs_def split: if_splits)

lemma genesis_economics_ok:
  assumes "genesis_economics s b = Inr (pot, shielded)"
  shows "hs_height s < of_nat (length (hp_genesis (hs_params s)))"
    "hb_txs b = []" "hb_pegouts b = []" "hb_pegins b = []"
    "hb_miner_owner b = digest_to_limbs (ad_owner (fst (hp_genesis (hs_params s) ! unat (hs_height s))))"
    "hb_coinbase_amount b = snd (hp_genesis (hs_params s) ! unat (hs_height s))"
    "hb_pot_after b = pot" "pot = hs_pot s" "shielded = hs_shielded_total s + hb_coinbase_amount b"
  using assms by (auto simp: genesis_economics_def Let_def split: if_splits prod.splits)

lemma apply_block_totals:
  assumes "apply_block E s b = Inr (s', u)"
  shows "hs_pot s' = hb_pot_after b" "hs_shielded_total s' = hb_shielded_after b"
    "hs_shielded_total s' + hs_pot s' + sum_list (map pt_amount (hb_pegouts b)) =
      hs_shielded_total s + hs_pot s + sum_list (map pc_amount (hb_pegins b))
      + (if hb_coinbase_is_reward b then 0 else hb_coinbase_amount b)"
proof -
  from assms obtain pa ga leaves pot shielded
    where o: "pa_outflow pa = sum_list (map pt_amount (hb_pegouts b))"
      and i: "ga_inflow ga = sum_list (map pc_amount (hb_pegins b))"
      and e: "(if hb_coinbase_is_reward b then reward_economics s b pa ga else genesis_economics s b)
        = Inr (pot, shielded)"
      and c: "check_commitments (x_perm E) s b shielded leaves = Inr ()"
      and m: "apply_mutation (x_perm E) s b (block_nfs b) leaves pot shielded = Inr (s', u)"
    by (elim apply_blockE)
  from m have s': "hs_pot s' = pot" "hs_shielded_total s' = shielded"
    by (auto elim!: apply_mutationE)
  show "hs_shielded_total s' = hb_shielded_after b"
    using s' check_commitments_ok(1) [OF c] by simp
  show "hs_pot s' = hb_pot_after b"
    using s' e reward_economics_ok(3) genesis_economics_ok(7) by (auto split: if_splits)
  show "hs_shielded_total s' + hs_pot s' + sum_list (map pt_amount (hb_pegouts b)) =
      hs_shielded_total s + hs_pot s + sum_list (map pc_amount (hb_pegins b))
      + (if hb_coinbase_is_reward b then 0 else hb_coinbase_amount b)"
  proof (cases "hb_coinbase_is_reward b")
    case True
    with e have "shielded + pot = hs_shielded_total s + hs_pot s + ga_inflow ga - pa_outflow pa"
      using reward_economics_ok(4) by simp
    then show ?thesis using True by (simp add: s' i o)
  next
    case False
    with e have "genesis_economics s b = Inr (pot, shielded)" by simp
    from genesis_economics_ok [OF this] show ?thesis using False by (simp add: s')
  qed
qed

text \<open>
  C2: Value is conserved over every run: what the ledger accounts as shielded, plus the reward
  pot, plus everything pegged out, equals the genesis pot plus the genesis issue plus everything
  pegged in (in the code's wrapping 64-bit arithmetic; no reward block creates value). The two
  totals are the ones the last block declares.
\<close>

theorem value_conserved:
  assumes "hn_reach E params bs s"
  shows "hs_shielded_total s + hs_pot s + sum_list (map pt_amount (concat (map hb_pegouts bs)))
      = hp_genesis_pot params + sum_list (map hb_coinbase_amount (filter (\<lambda>b. \<not> hb_coinbase_is_reward b) bs))
        + sum_list (map pc_amount (concat (map hb_pegins bs)))
    \<and> (bs \<noteq> [] \<longrightarrow> hs_pot s = hb_pot_after (last bs) \<and> hs_shielded_total s = hb_shielded_after (last bs))"
  using assms
proof induction
  case (block bs s b s' u)
  note t = apply_block_totals [OF block.hyps(2)]
  let ?o = "sum_list (map pt_amount (concat (map hb_pegouts bs)))"
  have "hs_shielded_total s' + hs_pot s' + (?o + sum_list (map pt_amount (hb_pegouts b)))
      = (hs_shielded_total s' + hs_pot s' + sum_list (map pt_amount (hb_pegouts b))) + ?o"
    by (simp add: algebra_simps)
  also have "\<dots> = (hs_shielded_total s + hs_pot s + ?o) + sum_list (map pc_amount (hb_pegins b))
      + (if hb_coinbase_is_reward b then 0 else hb_coinbase_amount b)"
    unfolding t(3) by (simp add: algebra_simps)
  also have "hs_shielded_total s + hs_pot s + ?o = hp_genesis_pot params
      + sum_list (map hb_coinbase_amount (filter (\<lambda>b. \<not> hb_coinbase_is_reward b) bs))
      + sum_list (map pc_amount (concat (map hb_pegins bs)))"
    using block.IH by blast
  finally show ?case using t(1,2) by (simp add: algebra_simps)
qed (simp add: hn_new_def)

lemma hn_reach_pot:
  "hn_reach E params bs s \<Longrightarrow> hs_pot s = (if bs = [] then hp_genesis_pot params else hb_pot_after (last bs))"
  by (induction rule: hn_reach.induct) (simp_all add: hn_new_def apply_block_totals(1))

text \<open>
  The emission schedule. The first blocks of a run, one per genesis entry, issue exactly the
  entry's amount to its owner and carry no transactions; every later block is a reward block whose
  coinbase is the scheduled amount for its number of spends, taken from (and never above) the pot
  its parent left.
\<close>

theorem emission_schedule:
  assumes "hn_reach E params bs s" and "i < length bs"
    and "length bs < 2 ^ 64" and "length (hp_genesis params) < 2 ^ 64"
  defines "pot \<equiv> (if i = 0 then hp_genesis_pot params else hb_pot_after (bs ! (i - 1)))"
  shows "if i < length (hp_genesis params)
    then \<not> hb_coinbase_is_reward (bs ! i) \<and> spend_txs (bs ! i) = [] \<and> hb_pegins (bs ! i) = []
      \<and> hb_miner_owner (bs ! i) = digest_to_limbs (ad_owner (fst (hp_genesis params ! i)))
      \<and> hb_coinbase_amount (bs ! i) = snd (hp_genesis params ! i)
      \<and> hb_pot_after (bs ! i) = pot
    else hb_coinbase_is_reward (bs ! i)
      \<and> hb_coinbase_amount (bs ! i) = coinbase_amount params pot (length (spend_txs (bs ! i)))
      \<and> hb_coinbase_amount (bs ! i) \<le> pot"
proof -
  let ?b = "bs ! i"
  from hn_reach_step [OF assms(1,2)] obtain s0 s1 u
    where r: "hn_reach E params (take i bs) s0" and a: "apply_block E s0 ?b = Inr (s1, u)" by blast
  from a obtain pa ga shielded pt where
    e: "(if hb_coinbase_is_reward ?b then reward_economics s0 ?b pa ga else genesis_economics s0 ?b)
        = Inr (pt, shielded)"
    by (elim apply_blockE)
  have u: "unat (of_nat n :: u64) = n" if "n < 2 ^ 64" for n
    using that by (simp add: unat_of_nat)
  have h: "hs_height s0 = of_nat i" "unat (hs_height s0) = i"
    using hn_reach_height [OF r] assms(2,3) u [of i] by auto
  have lt: "hs_height s0 < of_nat (length (hp_genesis params)) \<longleftrightarrow> i < length (hp_genesis params)"
    unfolding word_less_nat_alt h(2) u [OF assms(4)] ..
  have "last (take i bs) = bs ! (i - 1)" if "0 < i"
    using that assms(2) by (subst last_conv_nth) auto
  then have p: "hs_pot s0 = pot"
    using hn_reach_pot [OF r] assms(2) by (auto simp: pot_def)
  note par = hn_reach_params [OF r]
  show ?thesis
  proof (cases "hb_coinbase_is_reward ?b")
    case True
    with e have "reward_economics s0 ?b pa ga = Inr (pt, shielded)" by simp
    from reward_economics_ok [OF this] show ?thesis
      using True lt by (simp add: par p coinbase_amount_le)
  next
    case False
    with e have "genesis_economics s0 ?b = Inr (pt, shielded)" by simp
    from genesis_economics_ok [OF this] show ?thesis
      using False lt by (simp add: par p h(2) spend_txs_def)
  qed
qed

text \<open>The withdrawals a run has promised to pay on the main chain.\<close>

definition withdrawal_of :: "u64 \<Rightarrow> pegout_tx \<Rightarrow> withdrawal" where
  "withdrawal_of height po =
     \<lparr> wd_nf0 = (case digest_at (tx_publics (pt_tx po)) pub_nf0 of None \<Rightarrow> [] | Some nf0 \<Rightarrow> digest_to_limbs nf0),
       wd_amount = pt_amount po, wd_recipient = pt_recipient po, wd_height = height \<rparr>"

lemma block_withdrawals_ok:
  assumes "block_withdrawals s b = Inr ws"
  shows "ws = map (withdrawal_of (hs_height s)) (hb_pegouts b)"
proof -
  let ?step = "\<lambda>acc po. bind_r (pub_digest (pt_tx po) pub_nf0) (\<lambda>nf0.
       Inr (acc @ [\<lparr> wd_nf0 = digest_to_limbs nf0, wd_amount = pt_amount po,
         wd_recipient = pt_recipient po, wd_height = hs_height s \<rparr>]))"
  have "fold_r ?step acc pos = Inr ws \<Longrightarrow> ws = acc @ map (withdrawal_of (hs_height s)) pos" for acc pos
  proof (induction pos arbitrary: acc)
    case (Cons po pos)
    from Cons.prems obtain nf0 where "digest_at (tx_publics (pt_tx po)) pub_nf0 = Some nf0"
      and "fold_r ?step (acc @ [withdrawal_of (hs_height s) po]) pos = Inr ws"
      by (auto simp: bind_r_eq_Inr pub_digest_def ok_or_eq_Inr withdrawal_of_def)
    from Cons.IH [OF this(2)] show ?case by simp
  qed simp
  with assms show ?thesis unfolding block_withdrawals_def by fastforce
qed

text \<open>
  C16: The withdrawal list of a run is exactly the list of its peg-outs with the height of their
  block, and every one of them is backed by a burn: the spend's first output commits to the
  peg-out's amount plus fee, its recipient and the spent nullifier, with no overflow.
\<close>

theorem withdrawals_are_burns:
  assumes "hn_reach E params bs s"
  shows "hs_withdrawals s = concat (map (\<lambda>i. map (withdrawal_of (of_nat i)) (hb_pegouts (bs ! i))) [0..<length bs])
    \<and> (\<forall>po \<in> set (concat (map hb_pegouts bs)). burn_bound (x_perm E) params po)"
  using assms
proof induction
  case (block bs s b s' u)
  have c: "concat (map (\<lambda>i. map (withdrawal_of (of_nat i)) (hb_pegouts ((bs @ [b]) ! i))) [0..<length (bs @ [b])])
      = concat (map (\<lambda>i. map (withdrawal_of (of_nat i)) (hb_pegouts (bs ! i))) [0..<length bs])
        @ map (withdrawal_of (of_nat (length bs))) (hb_pegouts b)"
    by (auto simp: nth_append intro!: arg_cong [where f = concat] map_cong)
  show ?case
    unfolding c
    using block.IH apply_block_fresh(6) [OF block.hyps(2)] apply_block_effect(8) [OF block.hyps(2)]
      hn_reach_params [OF block.hyps(1)] hn_reach_height [OF block.hyps(1)]
    by (auto dest!: block_withdrawals_ok)
qed (simp add: hn_new_def)

end
