(* ===== verification/SettlementDigest.thy ===== *)
theory SettlementDigest
  imports HeaderId
begin

text \<open>
  The digests the recursion tree surfaces and the guests recompute
  (\<^verbatim>\<open>engine/src/settlement_digest.rs\<close>, \<^verbatim>\<open>engine/src/epoch/digest.rs\<close>): leaf digests, the padded
  fold, the withdrawals root with its batch journal, and the spend root of an epoch.
\<close>

section \<open>Leaves, padding and fold\<close>

definition identity_preimage_tag :: bytes where
  "identity_preimage_tag = [0x61, 0x65, 0x67, 0x69, 0x73, 0x2d, 0x73, 0x65, 0x74, 0x74, 0x6c, 0x65,
     0x2d, 0x69, 0x64, 0x65, 0x6e, 0x74, 0x69, 0x74, 0x79, 0x2d, 0x76, 0x31]"

definition identity_preimage :: "F list" where
  "identity_preimage =
     (let p = map f_of_byte identity_preimage_tag
      in p @ replicate ((8 - length p mod 8) mod 8) 0)"

definition identity_digest :: "perm \<Rightarrow> digest" where
  "identity_digest perm = circuit_sponge perm identity_preimage"

definition spend_leaf_inputs :: "spend_publics \<Rightarrow> F list" where
  "spend_leaf_inputs s =
     sp_root s @ sp_nf0 s @ sp_nf1 s @ sp_cm0 s @ sp_cm1 s @ amount_limbs (sp_fee s)"

definition spend_leaf_digest :: "perm \<Rightarrow> spend_publics \<Rightarrow> digest" where
  "spend_leaf_digest perm s = circuit_sponge perm (spend_leaf_inputs s)"

fun fold_pairs :: "perm \<Rightarrow> digest list \<Rightarrow> digest list" where
  "fold_pairs perm (l # r # ds) = circuit_sponge perm (l @ r) # fold_pairs perm ds"
| "fold_pairs perm ds = []"

lemma length_fold_pairs: "length (fold_pairs perm ds) = length ds div 2"
  by (induction perm ds rule: fold_pairs.induct) simp_all

text \<open>The loop of \<^verbatim>\<open>fold_tree\<close>; its callers pass a power of two of leaves (the code asserts it).\<close>

function fold_tree :: "perm \<Rightarrow> digest list \<Rightarrow> digest" where
  "fold_tree perm ds = (if 1 < length ds then fold_tree perm (fold_pairs perm ds) else hd ds)"
  by pat_completeness auto
termination
  by (relation "measure (\<lambda>(perm, ds). length ds)") (auto simp: length_fold_pairs)

declare fold_tree.simps [simp del]

fun next_pow2_from :: "nat \<Rightarrow> nat \<Rightarrow> nat \<Rightarrow> nat" where
  "next_pow2_from 0 p n = p"
| "next_pow2_from (Suc k) p n = (if n \<le> p then p else next_pow2_from k (2 * p) n)"

text \<open>\<^verbatim>\<open>usize::next_power_of_two\<close>; \<open>n\<close> doublings always suffice.\<close>

definition next_power_of_two :: "nat \<Rightarrow> nat" where
  "next_power_of_two n = next_pow2_from n 1 n"

definition epoch_spend_root :: "perm \<Rightarrow> spend_publics list \<Rightarrow> digest" where
  "epoch_spend_root perm spends =
     fold_tree perm (map (spend_leaf_digest perm) spends
       @ replicate (next_power_of_two (length spends) - length spends) (identity_digest perm))"

section \<open>The withdrawals root and the batch journal\<close>

record withdrawal_entry =
  we_amount :: u64
  we_recipient :: bytes
  we_nf0 :: digest
  we_cm0 :: digest

definition leaf_inputs :: "perm \<Rightarrow> withdrawal_entry \<Rightarrow> F list" where
  "leaf_inputs perm e =
     amount_limbs (we_amount e) @ recipient_commit perm (we_recipient e) @ we_nf0 e @ we_cm0 e"

definition leaf_digest :: "perm \<Rightarrow> withdrawal_entry \<Rightarrow> digest" where
  "leaf_digest perm e = circuit_sponge perm (leaf_inputs perm e)"

definition withdrawals_root :: "perm \<Rightarrow> withdrawal_entry list \<Rightarrow> digest" where
  "withdrawals_root perm entries =
     fold_tree perm (map (leaf_digest perm) entries
       @ replicate (next_power_of_two (length entries) - length entries) (identity_digest perm))"

definition batch_journal_tag :: bytes where
  "batch_journal_tag = [0x41, 0x45, 0x47, 0x49, 0x53, 0x50, 0x42, 0x31]"

definition to_be64 :: "u64 \<Rightarrow> bytes" where
  "to_be64 v = rev (to_le64 v)"

text \<open>The variable part of both journals: amount, recipient length, recipient.\<close>

definition journal_entry :: "u64 \<times> bytes \<Rightarrow> bytes" where
  "journal_entry ar = to_be64 (fst ar) @ to_be64 (of_nat (length (snd ar))) @ snd ar"

definition batch_journal :: "bytes \<Rightarrow> bytes \<Rightarrow> u64 \<Rightarrow> withdrawal_entry list \<Rightarrow> bytes" where
  "batch_journal prev_root new_root counter_next entries =
     batch_journal_tag @ prev_root @ new_root @ to_be64 counter_next
     @ concat (map (\<lambda>e. journal_entry (we_amount e, we_recipient e)) entries)"

section \<open>The fold is the root of a perfect tree\<close>

lemma fold_pairs_append: "even (length l) \<Longrightarrow> fold_pairs perm (l @ r) = fold_pairs perm l @ fold_pairs perm r"
  by (induction perm l rule: fold_pairs.induct) simp_all

lemma fold_tree_halves:
  assumes "length l = 2 ^ k" and "length r = 2 ^ k"
  shows "fold_tree perm (l @ r) = circuit_sponge perm (fold_tree perm l @ fold_tree perm r)"
  using assms
proof (induction k arbitrary: l r)
  case 0
  then obtain a b where "l = [a]" "r = [b]" by (auto simp: length_Suc_conv)
  then show ?case by (simp add: fold_tree.simps)
next
  case (Suc k)
  then have pairs: "fold_pairs perm (l @ r) = fold_pairs perm l @ fold_pairs perm r"
    by (intro fold_pairs_append) simp
  have gt: "1 < (2 :: nat) ^ Suc k" by (rule one_less_power) simp_all
  have step: "fold_tree perm xs = fold_tree perm (fold_pairs perm xs)" if "2 ^ Suc k \<le> length xs" for xs
    using that gt by (subst fold_tree.simps) simp
  have "fold_tree perm (l @ r) = fold_tree perm (fold_pairs perm l @ fold_pairs perm r)"
    using Suc.prems by (subst step) (simp_all add: pairs)
  also have "\<dots> = circuit_sponge perm (fold_tree perm (fold_pairs perm l) @ fold_tree perm (fold_pairs perm r))"
    using Suc.prems by (intro Suc.IH) (simp_all add: length_fold_pairs)
  also have "\<dots> = circuit_sponge perm (fold_tree perm l @ fold_tree perm r)"
    using Suc.prems step by simp
  finally show ?case .
qed

text \<open>The same tree over the preimages of its leaves, and everything it hashes.\<close>

fun sponge_root :: "perm \<Rightarrow> nat \<Rightarrow> F list list \<Rightarrow> digest" where
  "sponge_root perm 0 xs = circuit_sponge perm (hd xs)"
| "sponge_root perm (Suc k) xs =
     circuit_sponge perm (sponge_root perm k (take (2 ^ k) xs) @ sponge_root perm k (drop (2 ^ k) xs))"

fun sponge_inputs :: "perm \<Rightarrow> nat \<Rightarrow> F list list \<Rightarrow> F list list" where
  "sponge_inputs perm 0 xs = [hd xs]"
| "sponge_inputs perm (Suc k) xs =
     (sponge_root perm k (take (2 ^ k) xs) @ sponge_root perm k (drop (2 ^ k) xs))
     # sponge_inputs perm k (take (2 ^ k) xs) @ sponge_inputs perm k (drop (2 ^ k) xs)"

definition circuit_collides :: "perm \<Rightarrow> F list list \<Rightarrow> F list list \<Rightarrow> bool" where
  "circuit_collides perm xs ys \<longleftrightarrow>
     (\<exists>x \<in> set xs. \<exists>y \<in> set ys. x \<noteq> y \<and> circuit_sponge perm x = circuit_sponge perm y)"

lemma circuit_eqD:
  "circuit_sponge perm x = circuit_sponge perm y \<Longrightarrow> x \<in> set xs \<Longrightarrow> y \<in> set ys \<Longrightarrow>
    x = y \<or> circuit_collides perm xs ys"
  unfolding circuit_collides_def by blast

lemma circuit_collides_mono:
  "circuit_collides perm xs ys \<Longrightarrow> set xs \<subseteq> set xs' \<Longrightarrow> set ys \<subseteq> set ys' \<Longrightarrow> circuit_collides perm xs' ys'"
  unfolding circuit_collides_def by blast

lemma fold_tree_sponge_root:
  "length xs = 2 ^ k \<Longrightarrow> fold_tree perm (map (circuit_sponge perm) xs) = sponge_root perm k xs"
proof (induction k arbitrary: xs)
  case 0
  then obtain a where "xs = [a]" by (auto simp: length_Suc_conv)
  then show ?case by (simp add: fold_tree.simps)
next
  case (Suc k)
  have "fold_tree perm (map (circuit_sponge perm) (take (2 ^ k) xs @ drop (2 ^ k) xs)) = sponge_root perm (Suc k) xs"
    unfolding map_append using Suc.prems
    by (subst fold_tree_halves [of _ k]) (simp_all add: Suc.IH)
  then show ?case by simp
qed

definition canonical :: "F list \<Rightarrow> bool" where
  "canonical xs \<longleftrightarrow> (\<forall>x \<in> set xs. x < babybear_p)"

lemma canonical_simps [simp]:
  "canonical []" "canonical (x # xs) \<longleftrightarrow> x < babybear_p \<and> canonical xs"
  "canonical (xs @ ys) \<longleftrightarrow> canonical xs \<and> canonical ys"
  "canonical (replicate n 0)"
  by (auto simp: canonical_def)

lemma wf_digest_canonical: "wf_digest d \<longleftrightarrow> length d = 8 \<and> canonical d"
  by (simp add: wf_digest_def canonical_def digest_elems_def)

lemma chunks_elem_set: "c \<in> set (chunks n xs) \<Longrightarrow> set c \<subseteq> set xs"
proof (induction n xs rule: chunks.induct)
  case (1 n xs)
  then show ?case
    by (subst (asm) chunks.simps) (auto split: if_splits dest: in_set_takeD in_set_dropD)
qed

lemma wf_circuit_sponge:
  assumes "perm_ok perm" and "canonical xs"
  shows "wf_digest (circuit_sponge perm xs)"
proof -
  have "wf_state (fold (\<lambda>chunk state. perm (overwrite state chunk)) cs s)"
    if "wf_state s" "\<forall>c \<in> set cs. length c \<le> width \<and> canonical c" for cs s
    using that
  proof (induction cs arbitrary: s)
    case (Cons c cs)
    have "wf_state (overwrite s c)"
      using Cons.prems by (auto simp: wf_state_def overwrite_def canonical_def dest: in_set_dropD)
    then have "wf_state (perm (overwrite s c))"
      using assms(1) unfolding perm_ok_def wf_state_def by blast
    then show ?case using Cons by simp
  qed simp
  moreover have "wf_state (replicate width 0)" by (simp add: wf_state_def)
  moreover have "canonical (concat (map (\<lambda>v. [v, 0, 0, 0]) xs))"
    using assms(2) by (auto simp: canonical_def)
  then have "\<forall>c \<in> set (chunks 8 (concat (map (\<lambda>v. [v, 0, 0, 0]) xs))). length c \<le> width \<and> canonical c"
    unfolding canonical_def width_def
    by (fastforce dest: chunks_elem_length chunks_elem_set)
  ultimately have "wf_state (fold (\<lambda>chunk state. perm (overwrite state chunk))
      (chunks 8 (concat (map (\<lambda>v. [v, 0, 0, 0]) xs))) (replicate width 0))" by blast
  then show ?thesis
    by (auto simp: circuit_sponge_def Let_def wf_digest_canonical wf_state_def canonical_def width_def dest: in_set_takeD)
qed

lemma wf_sponge_root:
  "perm_ok perm \<Longrightarrow> \<forall>x \<in> set xs. canonical x \<Longrightarrow> length xs = 2 ^ k \<Longrightarrow> wf_digest (sponge_root perm k xs)"
proof (induction k arbitrary: xs)
  case 0
  then show ?case by (cases xs) (simp_all add: wf_circuit_sponge)
next
  case (Suc k)
  have "wf_digest (sponge_root perm k (take (2 ^ k) xs))" "wf_digest (sponge_root perm k (drop (2 ^ k) xs))"
    using Suc.prems by (auto intro!: Suc.IH dest: in_set_takeD in_set_dropD)
  then show ?case using Suc.prems(1) by (auto intro!: wf_circuit_sponge simp: wf_digest_canonical [of "sponge_root perm k x" for x])
qed

lemma sponge_root_binding:
  assumes "perm_ok perm"
    and "length xs = 2 ^ k" "\<forall>x \<in> set xs. canonical x \<and> length x \<noteq> 16"
    and "length ys = 2 ^ j" "\<forall>y \<in> set ys. canonical y \<and> length y \<noteq> 16"
    and "sponge_root perm k xs = sponge_root perm j ys"
  shows "xs = ys \<or> circuit_collides perm (sponge_inputs perm k xs) (sponge_inputs perm j ys)"
  using assms(2-)
proof (induction k arbitrary: xs ys j)
  case 0
  then obtain x where x: "xs = [x]" by (auto simp: length_Suc_conv)
  show ?case
  proof (cases j)
    case 0
    with \<open>length ys = 2 ^ j\<close> obtain y where "ys = [y]" by (auto simp: length_Suc_conv)
    then show ?thesis using "0.prems" x 0 circuit_eqD [of perm x y "[x]" "[y]"] by auto
  next
    case (Suc j')
    let ?a = "sponge_root perm j' (take (2 ^ j') ys)" and ?b = "sponge_root perm j' (drop (2 ^ j') ys)"
    have "wf_digest ?a" "wf_digest ?b"
      using "0.prems" Suc by (auto intro!: wf_sponge_root [OF assms(1)] dest: in_set_takeD in_set_dropD)
    then have "x \<noteq> ?a @ ?b" using "0.prems"(2) x by (auto simp: wf_digest_canonical)
    then show ?thesis
      using "0.prems"(5) circuit_eqD [of perm x "?a @ ?b" "sponge_inputs perm 0 xs" "sponge_inputs perm j ys"]
      by (auto simp: x Suc)
  qed
next
  case (Suc k)
  let ?a = "sponge_root perm k (take (2 ^ k) xs)" and ?b = "sponge_root perm k (drop (2 ^ k) xs)"
  have wa: "wf_digest ?a" "wf_digest ?b"
    using Suc.prems by (auto intro!: wf_sponge_root [OF assms(1)] dest: in_set_takeD in_set_dropD)
  show ?case
  proof (cases j)
    case 0
    with \<open>length ys = 2 ^ j\<close> obtain y where y: "ys = [y]" by (auto simp: length_Suc_conv)
    have "?a @ ?b \<noteq> y" using Suc.prems(4) y wa by (auto simp: wf_digest_canonical)
    then show ?thesis
      using Suc.prems(5) circuit_eqD [of perm "?a @ ?b" y "sponge_inputs perm (Suc k) xs" "sponge_inputs perm j ys"]
      by (auto simp: y 0)
  next
    case (Suc j')
    let ?c = "sponge_root perm j' (take (2 ^ j') ys)" and ?d = "sponge_root perm j' (drop (2 ^ j') ys)"
    let ?C = "circuit_collides perm (sponge_inputs perm (Suc k) xs) (sponge_inputs perm j ys)"
    have wc: "wf_digest ?c" "wf_digest ?d"
      using Suc.prems Suc by (auto intro!: wf_sponge_root [OF assms(1)] dest: in_set_takeD in_set_dropD)
    have "?a @ ?b = ?c @ ?d \<or> ?C"
      using Suc.prems(5) by (intro circuit_eqD) (simp_all add: Suc)
    moreover have ?thesis if eq: "?a @ ?b = ?c @ ?d"
    proof -
      from eq wa wc have e: "?a = ?c" "?b = ?d" by (auto simp: wf_digest_canonical)
      have l: "take (2 ^ k) xs = take (2 ^ j') ys
          \<or> circuit_collides perm (sponge_inputs perm k (take (2 ^ k) xs)) (sponge_inputs perm j' (take (2 ^ j') ys))"
        by (rule Suc.IH [OF _ _ _ _ e(1)])
          (use Suc.prems Suc in \<open>auto dest: in_set_takeD\<close>)
      have r: "drop (2 ^ k) xs = drop (2 ^ j') ys
          \<or> circuit_collides perm (sponge_inputs perm k (drop (2 ^ k) xs)) (sponge_inputs perm j' (drop (2 ^ j') ys))"
        by (rule Suc.IH [OF _ _ _ _ e(2)])
          (use Suc.prems Suc in \<open>auto dest: in_set_dropD\<close>)
      have up: ?C if "circuit_collides perm (sponge_inputs perm k (f xs)) (sponge_inputs perm j' (g ys))"
        "f = take (2 ^ k) \<and> g = take (2 ^ j') \<or> f = drop (2 ^ k) \<and> g = drop (2 ^ j')" for f g
        using that(2) by (intro circuit_collides_mono [OF that(1)]) (auto simp: Suc)
      show ?thesis using l r up by (metis append_take_drop_id)
    qed
    ultimately show ?thesis by blast
  qed
qed

text \<open>The depth of the padded tree.\<close>

fun pow2_exp_from :: "nat \<Rightarrow> nat \<Rightarrow> nat \<Rightarrow> nat" where
  "pow2_exp_from 0 e n = e"
| "pow2_exp_from (Suc k) e n = (if n \<le> 2 ^ e then e else pow2_exp_from k (Suc e) n)"

lemma next_pow2_from:
  "next_pow2_from m (2 ^ e) n = 2 ^ pow2_exp_from m e n" "n \<le> 2 ^ (e + m) \<Longrightarrow> n \<le> next_pow2_from m (2 ^ e) n"
  by (induction m arbitrary: e) (simp_all flip: power_Suc)

lemma next_power_of_two: "next_power_of_two n = 2 ^ pow2_exp_from n 0 n" "n \<le> next_power_of_two n"
  using next_pow2_from [of n 0 n] by (simp_all add: next_power_of_two_def less_imp_le)

definition padded :: "F list list \<Rightarrow> F list list" where
  "padded xs = xs @ replicate (next_power_of_two (length xs) - length xs) identity_preimage"

text \<open>Everything hashed for the root of a list of leaf preimages.\<close>

definition root_hashes :: "perm \<Rightarrow> F list list \<Rightarrow> F list list" where
  "root_hashes perm xs = sponge_inputs perm (pow2_exp_from (length xs) 0 (length xs)) (padded xs)"

lemma length_padded: "length (padded xs) = 2 ^ pow2_exp_from (length xs) 0 (length xs)"
  using next_power_of_two [of "length xs"] by (simp add: padded_def)

lemma fold_tree_padded:
  "fold_tree perm (map (circuit_sponge perm) xs
     @ replicate (next_power_of_two (length xs) - length xs) (identity_digest perm))
   = sponge_root perm (pow2_exp_from (length xs) 0 (length xs)) (padded xs)"
  using fold_tree_sponge_root [OF length_padded, of perm xs] by (simp add: padded_def identity_digest_def)

lemma f_of_byte_lt [simp]: "f_of_byte b < babybear_p"
  by (simp add: f_of_byte_def)

lemma identity_preimage_wf: "canonical identity_preimage" "length identity_preimage = 24"
  by (auto simp: identity_preimage_def Let_def canonical_def identity_preimage_tag_def)

lemma padded_inj:
  assumes "padded xs = padded ys" and "\<forall>x \<in> set xs \<union> set ys. length x \<noteq> 24"
  shows "xs = ys"
proof -
  have f: "filter (\<lambda>x. length x \<noteq> 24) (padded zs) = zs" if "set zs \<subseteq> set xs \<union> set ys" for zs
  proof -
    have "filter (\<lambda>x. length x \<noteq> 24) zs = zs" using that assms(2) by (intro filter_True) blast
    then show ?thesis by (simp add: padded_def identity_preimage_wf)
  qed
  show ?thesis
    using f [of xs, OF Un_upper1] f [of ys, OF Un_upper2] unfolding assms(1) by (rule trans [OF sym])
qed

lemma padded_root_binding:
  assumes "perm_ok perm"
    and "\<forall>x \<in> set xs \<union> set ys. canonical x \<and> length x \<noteq> 16 \<and> length x \<noteq> 24"
    and "sponge_root perm (pow2_exp_from (length xs) 0 (length xs)) (padded xs)
       = sponge_root perm (pow2_exp_from (length ys) 0 (length ys)) (padded ys)"
  shows "xs = ys \<or> circuit_collides perm (root_hashes perm xs) (root_hashes perm ys)"
proof -
  have "\<forall>x \<in> set (padded zs). canonical x \<and> length x \<noteq> 16" if "set zs \<subseteq> set xs \<union> set ys" for zs
    using that assms(2) by (auto simp: padded_def identity_preimage_wf)
  then have "padded xs = padded ys \<or> circuit_collides perm (root_hashes perm xs) (root_hashes perm ys)"
    unfolding root_hashes_def by (intro sponge_root_binding [OF assms(1) length_padded _ length_padded _ assms(3)]) auto
  then show ?thesis using padded_inj assms(2) by blast
qed

section \<open>Properties\<close>

definition wf_entry :: "withdrawal_entry \<Rightarrow> bool" where
  "wf_entry e \<longleftrightarrow> wf_digest (we_nf0 e) \<and> wf_digest (we_cm0 e)"

definition wf_spend_publics :: "spend_publics \<Rightarrow> bool" where
  "wf_spend_publics s \<longleftrightarrow> wf_digest (sp_root s) \<and> wf_digest (sp_nf0 s) \<and> wf_digest (sp_nf1 s) \<and>
     wf_digest (sp_cm0 s) \<and> wf_digest (sp_cm1 s)"

lemma amount_limbs_wf: "canonical (amount_limbs a)" "length (amount_limbs a) = 8"
  by (auto simp: amount_limbs_def canonical_def)

lemma amount_limbs_inj: "amount_limbs a = amount_limbs b \<longleftrightarrow> a = b"
  by (simp add: amount_limbs_def inj_map_eq_map [OF f_of_byte_inj [THEN iffD1, THEN injI]])

lemma recipient_commit_wf:
  assumes "perm_ok perm" shows "wf_digest (recipient_commit perm r)"
  unfolding recipient_commit_def by (rule wf_hash_domain [OF assms])

definition recipient_hashes :: "withdrawal_entry list \<Rightarrow> (u32 \<times> F list) list" where
  "recipient_hashes es = map (\<lambda>e. (domain_settle_recipient, map f_of_byte (we_recipient e))) es"

text \<open>
  The withdrawals root the guest checks determines the list of withdrawals, their number
  included: padding cannot hide or add one and leaves cannot be confused with inner nodes. Two
  lists with the same root are equal, unless two different inputs hashed for the two roots (by the
  circuit sponge, or by the sponge of the recipient commitment) collide.
\<close>

theorem withdrawals_root_binds:
  assumes "perm_ok perm" and "\<forall>e \<in> set es \<union> set es'. wf_entry e"
    and "withdrawals_root perm es = withdrawals_root perm es'"
  shows "es = es'
    \<or> circuit_collides perm (root_hashes perm (map (leaf_inputs perm) es)) (root_hashes perm (map (leaf_inputs perm) es'))
    \<or> sponge_collides perm (recipient_hashes es) (recipient_hashes es')"
proof -
  have root: "withdrawals_root perm xs = sponge_root perm (pow2_exp_from (length xs) 0 (length xs))
      (padded (map (leaf_inputs perm) xs))" for xs
    using fold_tree_padded [of perm "map (leaf_inputs perm) xs"]
    by (simp add: withdrawals_root_def leaf_digest_def [abs_def] comp_def)
  have wf: "canonical (leaf_inputs perm e) \<and> length (leaf_inputs perm e) = 32" if "e \<in> set es \<union> set es'" for e
    using that assms(2) recipient_commit_wf [OF assms(1)]
    by (auto simp: leaf_inputs_def amount_limbs_wf wf_entry_def wf_digest_canonical)
  have "map (leaf_inputs perm) es = map (leaf_inputs perm) es' \<or>
      circuit_collides perm (root_hashes perm (map (leaf_inputs perm) es)) (root_hashes perm (map (leaf_inputs perm) es'))"
    using assms(3) wf unfolding root by (intro padded_root_binding [OF assms(1)]) auto
  moreover have "es = es' \<or> sponge_collides perm (recipient_hashes es) (recipient_hashes es')"
    if "map (leaf_inputs perm) es = map (leaf_inputs perm) es'"
  proof (rule map_eq_collision [OF that])
    fix x y assume m: "x \<in> set es" "y \<in> set es'" and eq: "leaf_inputs perm x = leaf_inputs perm y"
    have c: "length (recipient_commit perm r) = 8" for r
      using recipient_commit_wf [OF assms(1), of r] by (simp add: wf_digest_canonical)
    have d: "length (we_nf0 x) = 8" "length (we_nf0 y) = 8"
      using assms(2) m by (auto simp: wf_entry_def wf_digest_canonical)
    from eq c d have e: "we_amount x = we_amount y" "we_nf0 x = we_nf0 y" "we_cm0 x = we_cm0 y"
      "recipient_commit perm (we_recipient x) = recipient_commit perm (we_recipient y)"
      by (simp_all add: leaf_inputs_def append_eq_append_conv amount_limbs_wf amount_limbs_inj)
    have "we_recipient x = we_recipient y \<or> sponge_collides perm (recipient_hashes es) (recipient_hashes es')"
      by (rule recipient_commit_eqD [OF e(4)]) (use m in \<open>auto simp: recipient_hashes_def\<close>)
    with e show "x = y \<or> sponge_collides perm (recipient_hashes es) (recipient_hashes es')" by auto
  qed
  ultimately show ?thesis by blast
qed

text \<open>
  Likewise the spend root binds the suffix to the spends the recursion tree verified: two
  lists of spend public values with the same root are equal, unless two different inputs of the
  circuit sponge hashed for the two roots collide.
\<close>

theorem epoch_spend_root_binds:
  assumes "perm_ok perm" and "\<forall>s \<in> set ss \<union> set ss'. wf_spend_publics s"
    and "epoch_spend_root perm ss = epoch_spend_root perm ss'"
  shows "ss = ss'
    \<or> circuit_collides perm (root_hashes perm (map spend_leaf_inputs ss)) (root_hashes perm (map spend_leaf_inputs ss'))"
proof -
  have root: "epoch_spend_root perm xs = sponge_root perm (pow2_exp_from (length xs) 0 (length xs))
      (padded (map spend_leaf_inputs xs))" for xs
    using fold_tree_padded [of perm "map spend_leaf_inputs xs"]
    by (simp add: epoch_spend_root_def spend_leaf_digest_def [abs_def] comp_def)
  have "canonical (spend_leaf_inputs s) \<and> length (spend_leaf_inputs s) = 48" if "s \<in> set ss \<union> set ss'" for s
    using that assms(2)
    by (auto simp: spend_leaf_inputs_def amount_limbs_wf wf_spend_publics_def wf_digest_canonical)
  then have "map spend_leaf_inputs ss = map spend_leaf_inputs ss' \<or>
      circuit_collides perm (root_hashes perm (map spend_leaf_inputs ss)) (root_hashes perm (map spend_leaf_inputs ss'))"
    using assms(3) unfolding root by (intro padded_root_binding [OF assms(1)]) auto
  moreover have "ss = ss' \<or> False" if "map spend_leaf_inputs ss = map spend_leaf_inputs ss'"
  proof (rule map_eq_collision [OF that])
    fix x y assume "x \<in> set ss" "y \<in> set ss'" and eq: "spend_leaf_inputs x = spend_leaf_inputs y"
    then have "wf_spend_publics x" "wf_spend_publics y" using assms(2) by auto
    with eq show "x = y \<or> False"
      by (simp add: spend_leaf_inputs_def wf_spend_publics_def wf_digest_canonical append_eq_append_conv
          amount_limbs_inj)
  qed
  ultimately show ?thesis by blast
qed

lemma length_to_be64 [simp]: "length (to_be64 v) = 8"
  by (simp add: to_be64_def)

lemma to_be64_inj [simp]: "to_be64 v = to_be64 w \<longleftrightarrow> v = w"
  by (simp add: to_be64_def)

lemma journal_entries_inj:
  assumes "\<forall>(a, r) \<in> set xs \<union> set ys. length r < 2 ^ 64"
    and "concat (map journal_entry xs) = concat (map journal_entry ys)"
  shows "xs = ys"
  using assms
proof (induction xs arbitrary: ys)
  case Nil
  then show ?case by (cases ys) (auto simp: journal_entry_def dest!: arg_cong [where f = length])
next
  case (Cons x xs)
  show ?case
  proof (cases ys)
    case Nil
    then show ?thesis using Cons.prems(2) by (auto simp: journal_entry_def dest!: arg_cong [where f = length])
  next
    case (Cons y zs)
    obtain a r where x: "x = (a, r)" by (cases x)
    obtain b q where y: "y = (b, q)" by (cases y)
    from Cons.prems(2) have eq: "to_be64 a @ to_be64 (of_nat (length r)) @ r @ concat (map journal_entry xs)
        = to_be64 b @ to_be64 (of_nat (length q)) @ q @ concat (map journal_entry zs)"
      by (simp add: Cons x y journal_entry_def [of "(_, _)"])
    then have ab: "a = b" and l: "(of_nat (length r) :: u64) = of_nat (length q)"
      and rest: "r @ concat (map journal_entry xs) = q @ concat (map journal_entry zs)"
      by (simp_all add: append_eq_append_conv)
    have "length r < 2 ^ 64" "length q < 2 ^ 64" using Cons.prems(1) by (auto simp: Cons x y)
    with l have "length r = length q"
      by (simp add: word_of_nat_eq_iff take_bit_nat_eq_self)
    with rest have "r = q" "concat (map journal_entry xs) = concat (map journal_entry zs)"
      by (simp_all add: append_eq_append_conv)
    moreover have "xs = zs"
      by (rule Cons.IH [OF _ calculation(2)]) (use Cons.prems(1) Cons in auto)
    ultimately show ?thesis by (simp add: Cons x y ab)
  qed
qed

text \<open>
  The batch journal determines the settlement: journals with 32-byte roots and recipients of
  fewer than \<open>2^64\<close> bytes are equal only if the roots, the counter and the list of amounts and
  recipients are equal, although the entry list carries no length.
\<close>

theorem batch_journal_injective:
  assumes "length p = 32" "length p' = 32" "length n = 32" "length n' = 32"
    and "\<forall>e \<in> set es \<union> set es'. length (we_recipient e) < 2 ^ 64"
    and "batch_journal p n c es = batch_journal p' n' c' es'"
  shows "p = p' \<and> n = n' \<and> c = c'
    \<and> map (\<lambda>e. (we_amount e, we_recipient e)) es = map (\<lambda>e. (we_amount e, we_recipient e)) es'"
proof -
  from assms(1-4,6) have h: "p = p'" "n = n'" "c = c'"
    and "concat (map (\<lambda>e. journal_entry (we_amount e, we_recipient e)) es)
      = concat (map (\<lambda>e. journal_entry (we_amount e, we_recipient e)) es')"
    by (simp_all add: batch_journal_def append_eq_append_conv)
  then have "map (\<lambda>e. (we_amount e, we_recipient e)) es = map (\<lambda>e. (we_amount e, we_recipient e)) es'"
    using assms(5) by (intro journal_entries_inj) (auto simp: comp_def)
  with h show ?thesis by simp
qed

end
