(* ===== verification/EpochVerify.thy ===== *)
theory EpochVerify
  imports SettlementDigest Daa
begin

text \<open>
  The settlement guest's epoch-validity statement (\<^verbatim>\<open>engine/src/epoch/verify.rs\<close>,
  \<^verbatim>\<open>engine/src/epoch/digest.rs\<close>): from the sealed tip's authenticated headers and a suffix of
  blocks it re-derives the appended leaves, the economics, the nullifier set and the withdrawals.
  The model is the build with the feature \<^verbatim>\<open>aux-pow\<close>, which the guest uses. A panic (appending to
  a full tree) is \<open>EvPanic\<close>.
\<close>

section \<open>Witness, result and errors\<close>

record guest_withdrawal =
  gw_amount :: u64
  gw_recipient :: bytes
  gw_nf0 :: digest

record epoch_witness =
  ew_chain_id :: u32
  ew_blocks :: "suffix_block list"
  ew_frontier_bytes :: bytes
  ew_tip_id_prev :: bytes
  ew_seam :: "seam_header list"
  ew_settled_root_in :: digest
  ew_settled_paths :: "digest list list"
  ew_spend_root_digest :: digest
  ew_ergo_ref_id :: bytes
  ew_counter_next :: u64

record epoch_result =
  er_prev_root :: digest
  er_new_root :: digest
  er_settled_root_out :: digest
  er_tip_id_new :: bytes
  er_pot_after :: u64
  er_shielded_after :: u64
  er_withdrawals :: "guest_withdrawal list"

datatype epoch_error =
    EvEmptySuffix | EvEmptySeam | EvSeamTipMismatch | EvSeamLinkBroken nat | EvSeamHeightBroken nat
  | EvSeamNotTerminated | EvSeamWeldBroken | EvHeightDiscontinuity nat | EvTimestampRegressed nat
  | EvNbitsMismatch nat | EvShieldedMismatch nat u64 u64 | EvFrontierDecode | EvPrevRootMismatch
  | EvHeaderChainBroken nat | EvValueChainBroken nat | EvNonRewardBlock nat | EvBadFee nat nat u64 u64
  | EvAnchorOutOfWindow nat nat | EvBadBurnBinding nat nat | EvBadPegOutBounds nat nat
  | EvDuplicateNullifier nat | EvCoinbaseAmount nat u64 u64 | EvCoinbaseCm nat | EvPotMismatch nat u64 u64
  | EvConservationViolated nat | EvStateRootMismatch nat | EvNotMatured nat u64 u64
  | EvSpendDigestMismatch | EvSettledPathCount nat nat | EvAlreadySettled nat | EvOverflow nat | EvPanic

section \<open>The authenticated seam\<close>

definition seam_anchor_window :: "perm \<Rightarrow> seam_header list \<Rightarrow> digest list" where
  "seam_anchor_window perm seam =
     (let reached_genesis = seam \<noteq> [] \<and> sh_prev_header_id (last seam) = genesis_header_id;
          roots = map sh_state_root (rev seam);
          roots = (if reached_genesis then fr_root perm (fr_new perm) # roots else roots)
      in if length roots > root_window_const then drop (length roots - root_window_const) roots else roots)"

fun check_seam_links :: "perm \<Rightarrow> u32 \<Rightarrow> nat \<Rightarrow> seam_header list \<Rightarrow> epoch_error + unit" where
  "check_seam_links perm cid i (h # h' # hs) =
     (if sh_prev_header_id h \<noteq> header_id_from_fields perm cid h' then Inl (EvSeamLinkBroken i)
      else if sh_height h \<noteq> sh_height h' + 1 then Inl (EvSeamHeightBroken i)
      else check_seam_links perm cid (i + 1) (h' # hs))"
| "check_seam_links perm cid i hs = Inr ()"

definition check_seam :: "perm \<Rightarrow> epoch_witness \<Rightarrow> epoch_error + seam_header" where
  "check_seam perm w =
     (case ew_seam w of [] \<Rightarrow> Inl EvEmptySeam
      | tip # rest \<Rightarrow>
          if header_id_from_fields perm (ew_chain_id w) tip \<noteq> ew_tip_id_prev w then Inl EvSeamTipMismatch
          else bind_r (check_seam_links perm (ew_chain_id w) 0 (ew_seam w)) (\<lambda>_.
            if length (ew_seam w) \<noteq> seam_len \<and> sh_prev_header_id (last (ew_seam w)) \<noteq> genesis_header_id
            then Inl EvSeamNotTerminated else Inr tip))"

section \<open>One block\<close>

record epoch_state =
  es_running :: frontier
  es_pot :: u64
  es_shielded :: u64
  es_recent_roots :: "digest list"
  es_daa_view :: "(u64 \<times> u32) list"
  es_seen_nf :: "u32 list list"
  es_all_spends :: "spend_publics list"
  es_withdrawals :: "guest_withdrawal list"
  es_pegout_records :: "(digest \<times> u64) list"

definition check_epoch_header ::
  "('h, 't) ext \<Rightarrow> epoch_witness \<Rightarrow> seam_header \<Rightarrow> epoch_state \<Rightarrow> nat \<Rightarrow> epoch_error + unit" where
  "check_epoch_header E w tip st i =
     (let block = ew_blocks w ! i; prev = ew_blocks w ! (i - 1);
          want_height = (if i = 0 then sh_height tip + 1 else sb_height prev + 1);
          prev_ts = (if i = 0 then sh_timestamp_ms tip else sb_timestamp_ms prev) in
      if \<not> sb_coinbase_is_reward block then Inl (EvNonRewardBlock i)
      else if i > 0 \<and> sb_prev_header_id block \<noteq> header_id (x_perm E) (ew_chain_id w) prev
      then Inl (EvHeaderChainBroken i)
      else if sb_height block \<noteq> want_height then Inl (EvHeightDiscontinuity i)
      else if sb_timestamp_ms block < prev_ts then Inl (EvTimestampRegressed i)
      else bind_r (ok_or (guest_next_nbits E (pinned_daa_params E) (es_daa_view st)) EvPanic) (\<lambda>expect.
        if sb_nbits block \<noteq> expect then Inl (EvNbitsMismatch i)
        else if sb_prev_root block \<noteq> fr_root (x_perm E) (es_running st) then Inl (EvValueChainBroken i)
        else Inr ()))"

definition epoch_spend_step ::
  "digest list \<Rightarrow> nat \<Rightarrow> u32 list list \<times> spend_publics list \<Rightarrow> nat \<times> spend_publics
     \<Rightarrow> epoch_error + u32 list list \<times> spend_publics list" where
  "epoch_spend_step window i acc js =
     (let (seen, spends) = acc; (j, s) = js in
      if sp_fee s \<noteq> flat_fee_const then Inl (EvBadFee i j (sp_fee s) flat_fee_const)
      else if sp_root s \<notin> set window then Inl (EvAnchorOutOfWindow i j)
      else if digest_to_limbs (sp_nf0 s) \<in> set seen then Inl (EvDuplicateNullifier i)
      else if digest_to_limbs (sp_nf1 s) \<in> set (seen @ [digest_to_limbs (sp_nf0 s)])
      then Inl (EvDuplicateNullifier i)
      else Inr (seen @ [digest_to_limbs (sp_nf0 s), digest_to_limbs (sp_nf1 s)], spends @ [s]))"

record epoch_pegout_acc =
  eo_outflow :: u64
  eo_fees :: u64
  eo_burn_total :: u64
  eo_withdrawals :: "guest_withdrawal list"
  eo_records :: "(digest \<times> u64) list"

definition epoch_pegout_step ::
  "perm \<Rightarrow> nat \<Rightarrow> u64 \<Rightarrow> epoch_pegout_acc \<Rightarrow> nat \<times> peg_out \<Rightarrow> epoch_error + epoch_pegout_acc" where
  "epoch_pegout_step perm i height acc jp =
     (let (j, po) = jp; fee = guest_peg_fee (po_amount po) in
      if po_amount po = 0 \<or> po_recipient po = [] \<or> length (po_recipient po) > 4096
      then Inl (EvBadPegOutBounds i j)
      else bind_r (ok_or (checked_add (po_amount po) fee) (EvOverflow i)) (\<lambda>burn_value.
        if burn_cm_expected perm burn_value (sp_nf0 (po_spend po)) (po_recipient po) (po_amount po)
           \<noteq> sp_cm0 (po_spend po) then Inl (EvBadBurnBinding i j)
        else bind_r (ok_or (checked_add (eo_outflow acc) (po_amount po)) (EvOverflow i)) (\<lambda>outflow.
          bind_r (ok_or (checked_add (eo_fees acc) fee) (EvOverflow i)) (\<lambda>fees.
          bind_r (ok_or (checked_add (eo_burn_total acc) burn_value) (EvOverflow i)) (\<lambda>burn_total.
            Inr \<lparr> eo_outflow = outflow, eo_fees = fees, eo_burn_total = burn_total,
              eo_withdrawals = eo_withdrawals acc @ [\<lparr> gw_amount = po_amount po,
                gw_recipient = po_recipient po, gw_nf0 = sp_nf0 (po_spend po) \<rparr>],
              eo_records = eo_records acc @ [(sp_nf0 (po_spend po), height)] \<rparr>)))))"

record epoch_pegin_acc =
  ei_cms :: "digest list"
  ei_inflow :: u64
  ei_fees :: u64

definition epoch_pegin_step ::
  "perm \<Rightarrow> nat \<Rightarrow> epoch_pegin_acc \<Rightarrow> peg_in \<Rightarrow> epoch_error + epoch_pegin_acc" where
  "epoch_pegin_step perm i acc p =
     (let fee = guest_peg_fee (pi_amount p) in
      (case checked_sub (pi_amount p) fee of None \<Rightarrow> Inl (EvOverflow i)
       | Some minted \<Rightarrow>
           if \<not> minted > 0 then Inl (EvOverflow i)
           else bind_r (ok_or (checked_add (ei_inflow acc) (pi_amount p)) (EvOverflow i)) (\<lambda>inflow.
             bind_r (ok_or (checked_add (ei_fees acc) fee) (EvOverflow i)) (\<lambda>fees.
               Inr \<lparr> ei_cms = ei_cms acc @ [pegmint_cm_expected perm (pi_dest_owner p) minted (pi_box_id p)],
                 ei_inflow = inflow, ei_fees = fees \<rparr>))))"

definition epoch_economics ::
  "nat \<Rightarrow> u64 \<Rightarrow> u64 \<Rightarrow> suffix_block \<Rightarrow> epoch_pegout_acc \<Rightarrow> epoch_pegin_acc \<Rightarrow> epoch_error + u64 \<times> u64" where
  "epoch_economics i pot shielded block po gi =
     (let fees = saturating_mul flat_fee_const (of_nat (n_spends block));
          expected_cb = guest_coinbase_amount pot (n_spends block) in
      if sb_coinbase_amount block \<noteq> expected_cb
      then Inl (EvCoinbaseAmount i (sb_coinbase_amount block) expected_cb)
      else bind_r (ok_or (Option.bind (Option.bind (Option.bind (checked_add pot fees)
              (\<lambda>v. checked_add v (eo_fees po))) (\<lambda>v. checked_add v (ei_fees gi)))
              (\<lambda>v. checked_sub v expected_cb)) (EvOverflow i)) (\<lambda>pot_next.
        if sb_pot_after block \<noteq> pot_next then Inl (EvPotMismatch i (sb_pot_after block) pot_next)
        else bind_r (ok_or (Option.bind (Option.bind (Option.bind (checked_add shielded expected_cb)
                (\<lambda>v. Option.bind (checked_sub (ei_inflow gi) (ei_fees gi)) (checked_add v)))
                (\<lambda>v. checked_sub v fees)) (\<lambda>v. checked_sub v (eo_burn_total po)))
                (EvConservationViolated i)) (\<lambda>shielded_next.
          bind_r (ok_or (checked_add shielded_next pot_next) (EvOverflow i)) (\<lambda>lhs.
          bind_r (ok_or (Option.bind (Option.bind (checked_add shielded pot)
                (\<lambda>v. checked_add v (ei_inflow gi))) (\<lambda>v. checked_sub v (eo_outflow po)))
                (EvConservationViolated i)) (\<lambda>rhs.
            if lhs \<noteq> rhs then Inl (EvConservationViolated i)
            else if sb_shielded_after block \<noteq> shielded_next
            then Inl (EvShieldedMismatch i (sb_shielded_after block) shielded_next)
            else Inr (pot_next, shielded_next))))))"

definition epoch_leaves :: "suffix_block \<Rightarrow> digest list \<Rightarrow> digest list" where
  "epoch_leaves block pegin_cms =
     concat (map (\<lambda>s. [sp_cm0 s, sp_cm1 s]) (spends_in_order block)) @ pegin_cms @ [sb_coinbase_cm block]"

definition epoch_block_step ::
  "('h, 't) ext \<Rightarrow> epoch_witness \<Rightarrow> seam_header \<Rightarrow> epoch_state \<Rightarrow> nat \<Rightarrow> epoch_error + epoch_state" where
  "epoch_block_step E w tip st i =
     (let block = ew_blocks w ! i;
          window = drop (length (es_recent_roots st) - root_window_const) (es_recent_roots st) in
      bind_r (check_epoch_header E w tip st i) (\<lambda>_.
      bind_r (fold_r (epoch_spend_step window i) (es_seen_nf st, es_all_spends st)
          (enumerate 0 (spends_in_order block))) (\<lambda>(seen, spends).
      bind_r (fold_r (epoch_pegout_step (x_perm E) i (sb_height block))
          \<lparr> eo_outflow = 0, eo_fees = 0, eo_burn_total = 0, eo_withdrawals = es_withdrawals st,
            eo_records = es_pegout_records st \<rparr> (enumerate 0 (sb_pegouts block))) (\<lambda>po.
      bind_r (fold_r (epoch_pegin_step (x_perm E) i) \<lparr> ei_cms = [], ei_inflow = 0, ei_fees = 0 \<rparr>
          (sb_pegins block)) (\<lambda>gi.
      bind_r (epoch_economics i (es_pot st) (es_shielded st) block po gi) (\<lambda>(pot_next, shielded_next).
      if coinbase_cm_expected (x_perm E) (sb_miner_owner block) (sb_coinbase_amount block)
           (guest_block_id (x_perm E) (sb_height block) (sb_prev_root block)) \<noteq> sb_coinbase_cm block
      then Inl (EvCoinbaseCm i)
      else bind_r (ok_or (append_all (fr_append (x_perm E)) (es_running st)
          (epoch_leaves block (ei_cms gi))) EvPanic) (\<lambda>running.
        if fr_root (x_perm E) running \<noteq> sb_state_root block then Inl (EvStateRootMismatch i)
        else Inr \<lparr> es_running = running, es_pot = pot_next, es_shielded = shielded_next,
          es_recent_roots = es_recent_roots st @ [sb_state_root block],
          es_daa_view = es_daa_view st @ [(sb_timestamp_ms block, sb_nbits block)],
          es_seen_nf = seen, es_all_spends = spends, es_withdrawals = eo_withdrawals po,
          es_pegout_records = eo_records po \<rparr>)))))))"

section \<open>The whole statement\<close>

definition maturity_step :: "u64 \<Rightarrow> unit \<Rightarrow> nat \<times> digest \<times> u64 \<Rightarrow> epoch_error + unit" where
  "maturity_step tip_height u jr =
     (let (j, _, h) = jr in
      if tip_height < saturating_add h pegout_delay_const then Inl (EvNotMatured j tip_height h) else Inr ())"

definition spend_nfs :: "spend_publics list \<Rightarrow> (nat \<times> digest) list" where
  "spend_nfs spends = concat (map (\<lambda>(j, s). [(j, sp_nf0 s), (j, sp_nf1 s)]) (enumerate 0 spends))"

definition settle_nf_step :: "perm \<Rightarrow> digest \<Rightarrow> (nat \<times> digest) \<times> digest list \<Rightarrow> epoch_error + digest" where
  "settle_nf_step perm root jnp =
     (let ((j, nf), path) = jnp in
      map_err (\<lambda>_. EvAlreadySettled j) (verify_insert perm root nf path))"

definition epoch_init :: "('h, 't) ext \<Rightarrow> epoch_witness \<Rightarrow> seam_header \<Rightarrow> epoch_error + epoch_state" where
  "epoch_init E w tip =
     bind_r (ok_or (x_decode_frontier E (ew_frontier_bytes w)) EvFrontierDecode) (\<lambda>frontier.
       let prev_root = fr_root (x_perm E) frontier; b0 = ew_blocks w ! 0 in
       if sb_prev_root b0 \<noteq> prev_root then Inl EvPrevRootMismatch
       else if sb_prev_root b0 \<noteq> sh_state_root tip then Inl EvSeamWeldBroken
       else if sb_prev_header_id b0 \<noteq> ew_tip_id_prev w then Inl (EvHeaderChainBroken 0)
       else Inr \<lparr> es_running = frontier, es_pot = sh_pot_after tip, es_shielded = sh_shielded_after tip,
         es_recent_roots = seam_anchor_window (x_perm E) (ew_seam w),
         es_daa_view = map (\<lambda>h. (sh_timestamp_ms h, sh_nbits h)) (rev (ew_seam w)),
         es_seen_nf = [], es_all_spends = [], es_withdrawals = [], es_pegout_records = [] \<rparr>)"

definition verify_epoch :: "('h, 't) ext \<Rightarrow> epoch_witness \<Rightarrow> epoch_error + epoch_result" where
  "verify_epoch E w =
     (if ew_blocks w = [] then Inl EvEmptySuffix
      else bind_r (check_seam (x_perm E) w) (\<lambda>tip.
      bind_r (epoch_init E w tip) (\<lambda>st0.
      let tip_block = last (ew_blocks w) in
      bind_r (fold_r (epoch_block_step E w tip) st0 [0..<length (ew_blocks w)]) (\<lambda>st.
      bind_r (fold_r (maturity_step (sb_height tip_block)) () (enumerate 0 (es_pegout_records st))) (\<lambda>_.
      let spends = es_all_spends st in
      if spends = [] then Inl EvSpendDigestMismatch
      else if epoch_spend_root (x_perm E) spends \<noteq> ew_spend_root_digest w then Inl EvSpendDigestMismatch
      else if length (ew_settled_paths w) \<noteq> 2 * length spends
      then Inl (EvSettledPathCount (length (ew_settled_paths w)) (2 * length spends))
      else bind_r (fold_r (settle_nf_step (x_perm E)) (ew_settled_root_in w)
          (zip (spend_nfs spends) (ew_settled_paths w))) (\<lambda>settled_root.
        Inr \<lparr> er_prev_root = fr_root (x_perm E) (es_running st0),
          er_new_root = fr_root (x_perm E) (es_running st),
          er_settled_root_out = settled_root,
          er_tip_id_new = header_id (x_perm E) (ew_chain_id w) tip_block,
          er_pot_after = es_pot st, er_shielded_after = es_shielded st,
          er_withdrawals = es_withdrawals st \<rparr>))))))"

section \<open>The journal\<close>

definition epoch_journal_tag :: bytes where
  "epoch_journal_tag = [0x41, 0x45, 0x47, 0x49, 0x53, 0x50, 0x56, 0x31]"

definition epoch_journal ::
  "epoch_result \<Rightarrow> digest \<Rightarrow> bytes \<Rightarrow> bytes \<Rightarrow> u64 \<Rightarrow> bytes" where
  "epoch_journal result settled_root_in tip_id_prev ergo_ref_id counter_next =
     epoch_journal_tag @ digest_to_bytes (er_prev_root result) @ digest_to_bytes (er_new_root result)
     @ digest_to_bytes settled_root_in @ digest_to_bytes (er_settled_root_out result)
     @ tip_id_prev @ er_tip_id_new result @ ergo_ref_id @ to_be64 counter_next
     @ concat (map (\<lambda>wd. journal_entry (gw_amount wd, gw_recipient wd)) (er_withdrawals result))"

section \<open>The effect of one block\<close>

definition spend_keys :: "spend_publics list \<Rightarrow> u32 list list" where
  "spend_keys spends = concat (map (\<lambda>s. [digest_to_limbs (sp_nf0 s), digest_to_limbs (sp_nf1 s)]) spends)"

lemma spend_keys_simps [simp]:
  "spend_keys [] = []"
  "spend_keys (s # ss) = digest_to_limbs (sp_nf0 s) # digest_to_limbs (sp_nf1 s) # spend_keys ss"
  "spend_keys (ss @ ss') = spend_keys ss @ spend_keys ss'"
  by (simp_all add: spend_keys_def)

lemma epoch_spends_ok:
  "fold_r (epoch_spend_step window i) (seen, spends) (enumerate n ss) = Inr (seen', spends') \<Longrightarrow>
    seen' = seen @ spend_keys ss \<and> spends' = spends @ ss \<and> (distinct seen \<longrightarrow> distinct seen')
    \<and> (\<forall>s \<in> set ss. sp_fee s = flat_fee_const \<and> sp_root s \<in> set window)"
proof (induction ss arbitrary: seen spends n)
  case (Cons s ss)
  let ?keys = "[digest_to_limbs (sp_nf0 s), digest_to_limbs (sp_nf1 s)]"
  from Cons.prems have s: "sp_fee s = flat_fee_const" "sp_root s \<in> set window"
      "distinct seen \<longrightarrow> distinct (seen @ ?keys)"
    and rest: "fold_r (epoch_spend_step window i) (seen @ ?keys, spends @ [s]) (enumerate (Suc n) ss) = Inr (seen', spends')"
    by (auto simp: epoch_spend_step_def [of window i "(seen, spends)" "(n, s)"] split: if_splits)
  from Cons.IH [OF rest] s show ?case by auto
qed simp

definition guest_withdrawal_of :: "peg_out \<Rightarrow> guest_withdrawal" where
  "guest_withdrawal_of po =
     \<lparr> gw_amount = po_amount po, gw_recipient = po_recipient po, gw_nf0 = sp_nf0 (po_spend po) \<rparr>"

definition guest_burn_bound :: "perm \<Rightarrow> peg_out \<Rightarrow> bool" where
  "guest_burn_bound perm po \<longleftrightarrow> po_amount po \<noteq> 0 \<and> po_recipient po \<noteq> [] \<and> length (po_recipient po) \<le> 4096 \<and>
     (\<exists>burn_value. checked_add (po_amount po) (guest_peg_fee (po_amount po)) = Some burn_value \<and>
        sp_cm0 (po_spend po)
          = burn_cm_expected perm burn_value (sp_nf0 (po_spend po)) (po_recipient po) (po_amount po))"

lemma epoch_pegouts_ok:
  "fold_r (epoch_pegout_step perm i h) acc (enumerate n pos) = Inr acc' \<Longrightarrow>
    unat (eo_outflow acc') = unat (eo_outflow acc) + sum_list (map (unat \<circ> po_amount) pos)
    \<and> eo_withdrawals acc' = eo_withdrawals acc @ map guest_withdrawal_of pos
    \<and> eo_records acc' = eo_records acc @ map (\<lambda>po. (sp_nf0 (po_spend po), h)) pos
    \<and> (\<forall>po \<in> set pos. guest_burn_bound perm po)"
proof (induction pos arbitrary: acc n)
  case (Cons po pos)
  {
    fix thesis
    assume *: "\<And>acc1. guest_burn_bound perm po \<Longrightarrow>
        unat (eo_outflow acc1) = unat (eo_outflow acc) + unat (po_amount po) \<Longrightarrow>
        eo_withdrawals acc1 = eo_withdrawals acc @ [guest_withdrawal_of po] \<Longrightarrow>
        eo_records acc1 = eo_records acc @ [(sp_nf0 (po_spend po), h)] \<Longrightarrow>
        fold_r (epoch_pegout_step perm i h) acc1 (enumerate (Suc n) pos) = Inr acc' \<Longrightarrow> thesis"
    have thesis
      using Cons.prems
      by (auto simp: epoch_pegout_step_def [of perm i h acc "(n, po)"] Let_def result_simps
          guest_burn_bound_def guest_withdrawal_of_def dest: checked_add_unat split: if_splits intro!: *)
  }
  then obtain acc1 where s: "guest_burn_bound perm po"
      "unat (eo_outflow acc1) = unat (eo_outflow acc) + unat (po_amount po)"
      "eo_withdrawals acc1 = eo_withdrawals acc @ [guest_withdrawal_of po]"
      "eo_records acc1 = eo_records acc @ [(sp_nf0 (po_spend po), h)]"
    and rest: "fold_r (epoch_pegout_step perm i h) acc1 (enumerate (Suc n) pos) = Inr acc'"
    by metis
  from Cons.IH [OF rest] s show ?case by simp
qed simp

definition guest_pegin_cm :: "perm \<Rightarrow> peg_in \<Rightarrow> digest" where
  "guest_pegin_cm perm p =
     pegmint_cm_expected perm (pi_dest_owner p) (pi_amount p - guest_peg_fee (pi_amount p)) (pi_box_id p)"

lemma epoch_pegins_ok:
  "fold_r (epoch_pegin_step perm i) acc ps = Inr acc' \<Longrightarrow>
    unat (ei_inflow acc') = unat (ei_inflow acc) + sum_list (map (unat \<circ> pi_amount) ps)
    \<and> ei_cms acc' = ei_cms acc @ map (guest_pegin_cm perm) ps"
proof (induction ps arbitrary: acc)
  case (Cons p ps)
  {
    fix thesis
    assume *: "\<And>acc1. unat (ei_inflow acc1) = unat (ei_inflow acc) + unat (pi_amount p) \<Longrightarrow>
        ei_cms acc1 = ei_cms acc @ [guest_pegin_cm perm p] \<Longrightarrow>
        fold_r (epoch_pegin_step perm i) acc1 ps = Inr acc' \<Longrightarrow> thesis"
    have thesis
      using Cons.prems
      by (auto simp: epoch_pegin_step_def [of perm i acc p] Let_def result_simps guest_pegin_cm_def
          checked_sub_Some dest: checked_add_unat split: if_splits option.splits intro!: *)
  }
  then obtain acc1 where s: "unat (ei_inflow acc1) = unat (ei_inflow acc) + unat (pi_amount p)"
      "ei_cms acc1 = ei_cms acc @ [guest_pegin_cm perm p]"
    and rest: "fold_r (epoch_pegin_step perm i) acc1 ps = Inr acc'"
    by metis
  from Cons.IH [OF rest] s show ?case by simp
qed simp

lemma epoch_economics_ok:
  assumes "epoch_economics i pot shielded b po gi = Inr (pot', shielded')"
  shows "unat pot' + unat shielded' + unat (eo_outflow po) = unat pot + unat shielded + unat (ei_inflow gi)"
    "sb_pot_after b = pot'" "sb_shielded_after b = shielded'"
    "sb_coinbase_amount b = guest_coinbase_amount pot (n_spends b)"
proof -
  from assms obtain lhs rhs where "checked_add shielded' pot' = Some lhs"
    and "Option.bind (Option.bind (checked_add shielded pot) (\<lambda>v. checked_add v (ei_inflow gi)))
          (\<lambda>v. checked_sub v (eo_outflow po)) = Some rhs" and "lhs = rhs"
    by (auto simp: epoch_economics_def Let_def result_simps split: if_splits)
  then show "unat pot' + unat shielded' + unat (eo_outflow po) = unat pot + unat shielded + unat (ei_inflow gi)"
    by (auto simp: bind_eq_Some_conv dest!: checked_add_unat checked_sub_unat)
  show "sb_pot_after b = pot'" "sb_shielded_after b = shielded'"
    "sb_coinbase_amount b = guest_coinbase_amount pot (n_spends b)"
    using assms by (auto simp: epoch_economics_def Let_def result_simps split: if_splits)
qed

definition epoch_block_leaves :: "perm \<Rightarrow> suffix_block \<Rightarrow> digest list" where
  "epoch_block_leaves perm b = epoch_leaves b (map (guest_pegin_cm perm) (sb_pegins b))"

lemma epoch_block_stepE:
  assumes "epoch_block_step E w tip st i = Inr st'"
  defines "b \<equiv> ew_blocks w ! i"
  obtains "check_epoch_header E w tip st i = Inr ()"
    "\<forall>s \<in> set (spends_in_order b). sp_fee s = flat_fee_const \<and>
       sp_root s \<in> set (drop (length (es_recent_roots st) - root_window_const) (es_recent_roots st))"
    "es_seen_nf st' = es_seen_nf st @ spend_keys (spends_in_order b)"
    "distinct (es_seen_nf st) \<longrightarrow> distinct (es_seen_nf st')"
    "es_all_spends st' = es_all_spends st @ spends_in_order b"
    "es_withdrawals st' = es_withdrawals st @ map guest_withdrawal_of (sb_pegouts b)"
    "es_pegout_records st' = es_pegout_records st @ map (\<lambda>po. (sp_nf0 (po_spend po), sb_height b)) (sb_pegouts b)"
    "\<forall>po \<in> set (sb_pegouts b). guest_burn_bound (x_perm E) po"
    "unat (es_pot st') + unat (es_shielded st') + sum_list (map (unat \<circ> po_amount) (sb_pegouts b))
      = unat (es_pot st) + unat (es_shielded st) + sum_list (map (unat \<circ> pi_amount) (sb_pegins b))"
    "es_pot st' = sb_pot_after b" "es_shielded st' = sb_shielded_after b"
    "sb_coinbase_amount b = guest_coinbase_amount (es_pot st) (n_spends b)"
    "append_all (fr_append (x_perm E)) (es_running st) (epoch_block_leaves (x_perm E) b) = Some (es_running st')"
    "fr_root (x_perm E) (es_running st') = sb_state_root b"
    "es_recent_roots st' = es_recent_roots st @ [sb_state_root b]"
    "es_daa_view st' = es_daa_view st @ [(sb_timestamp_ms b, sb_nbits b)]"
proof -
  let ?window = "drop (length (es_recent_roots st) - root_window_const) (es_recent_roots st)"
  from assms(1) obtain seen spends po gi pot shielded running where
    h: "check_epoch_header E w tip st i = Inr ()"
    and s: "fold_r (epoch_spend_step ?window i) (es_seen_nf st, es_all_spends st)
          (enumerate 0 (spends_in_order b)) = Inr (seen, spends)"
    and p: "fold_r (epoch_pegout_step (x_perm E) i (sb_height b))
          \<lparr> eo_outflow = 0, eo_fees = 0, eo_burn_total = 0, eo_withdrawals = es_withdrawals st,
            eo_records = es_pegout_records st \<rparr> (enumerate 0 (sb_pegouts b)) = Inr po"
    and g: "fold_r (epoch_pegin_step (x_perm E) i) \<lparr> ei_cms = [], ei_inflow = 0, ei_fees = 0 \<rparr>
          (sb_pegins b) = Inr gi"
    and e: "epoch_economics i (es_pot st) (es_shielded st) b po gi = Inr (pot, shielded)"
    and r: "append_all (fr_append (x_perm E)) (es_running st) (epoch_leaves b (ei_cms gi)) = Some running"
      "fr_root (x_perm E) running = sb_state_root b"
    and st': "st' = \<lparr> es_running = running, es_pot = pot, es_shielded = shielded,
          es_recent_roots = es_recent_roots st @ [sb_state_root b],
          es_daa_view = es_daa_view st @ [(sb_timestamp_ms b, sb_nbits b)],
          es_seen_nf = seen, es_all_spends = spends, es_withdrawals = eo_withdrawals po,
          es_pegout_records = eo_records po \<rparr>"
    unfolding epoch_block_step_def b_def [symmetric] Let_def
    by (auto simp: bind_r_eq_Inr ok_or_eq_Inr split: if_splits)
  note s = epoch_spends_ok [OF s] and p = epoch_pegouts_ok [OF p] and g = epoch_pegins_ok [OF g]
  note e = epoch_economics_ok [OF e]
  show thesis
    by (rule that [OF h]) (use s p g e r in \<open>auto simp: st' epoch_block_leaves_def\<close>)
qed

end
