(* ===== verification/EpochSound.thy ===== *)
theory EpochSound
  imports EpochVerify
begin

text \<open>
  What the settlement guest's \<^verbatim>\<open>verify_epoch\<close> guarantees when it accepts: the invariant of its
  block loop, and from it conservation of value, replay closure, the header chain, the re-derived
  root, the maturity and burn binding of the withdrawals and the anchoring of the spends.
\<close>

section \<open>The whole suffix\<close>

lemma verify_epochE:
  assumes "verify_epoch E w = Inr r"
  obtains tip st0 st settled where "ew_blocks w \<noteq> []" "check_seam (x_perm E) w = Inr tip"
    "epoch_init E w tip = Inr st0"
    "fold_r (epoch_block_step E w tip) st0 [0..<length (ew_blocks w)] = Inr st"
    "fold_r (maturity_step (sb_height (last (ew_blocks w)))) () (enumerate 0 (es_pegout_records st)) = Inr ()"
    "es_all_spends st \<noteq> []" "epoch_spend_root (x_perm E) (es_all_spends st) = ew_spend_root_digest w"
    "length (ew_settled_paths w) = 2 * length (es_all_spends st)"
    "fold_r (settle_nf_step (x_perm E)) (ew_settled_root_in w)
       (zip (spend_nfs (es_all_spends st)) (ew_settled_paths w)) = Inr settled"
    "r = \<lparr> er_prev_root = fr_root (x_perm E) (es_running st0),
          er_new_root = fr_root (x_perm E) (es_running st),
          er_settled_root_out = settled,
          er_tip_id_new = header_id (x_perm E) (ew_chain_id w) (last (ew_blocks w)),
          er_pot_after = es_pot st, er_shielded_after = es_shielded st,
          er_withdrawals = es_withdrawals st \<rparr>"
  using assms unfolding verify_epoch_def Let_def
  by (auto simp: bind_r_eq_Inr split: if_splits)

lemma check_seam_ok:
  assumes "check_seam perm w = Inr tip"
  shows "ew_seam w \<noteq> [] \<and> tip = hd (ew_seam w) \<and> header_id_from_fields perm (ew_chain_id w) tip = ew_tip_id_prev w
    \<and> (length (ew_seam w) = seam_len \<or> sh_prev_header_id (last (ew_seam w)) = genesis_header_id)"
  using assms by (auto simp: check_seam_def bind_r_eq_Inr split: list.splits if_splits)

lemma check_seam_links_ok:
  "check_seam_links perm cid n hs = Inr () \<Longrightarrow> Suc i < length hs \<Longrightarrow>
    sh_prev_header_id (hs ! i) = header_id_from_fields perm cid (hs ! Suc i)
    \<and> sh_height (hs ! i) = sh_height (hs ! Suc i) + 1"
proof (induction perm cid n hs arbitrary: i rule: check_seam_links.induct)
  case (1 perm cid n h h' hs)
  then show ?case by (cases i) (auto split: if_splits)
qed auto

lemma epoch_init_ok:
  assumes "epoch_init E w tip = Inr st0"
  shows "x_decode_frontier E (ew_frontier_bytes w) = Some (es_running st0)"
    "fr_root (x_perm E) (es_running st0) = sb_prev_root (ew_blocks w ! 0)"
    "fr_root (x_perm E) (es_running st0) = sh_state_root tip"
    "sb_prev_header_id (ew_blocks w ! 0) = ew_tip_id_prev w"
    "es_pot st0 = sh_pot_after tip" "es_shielded st0 = sh_shielded_after tip"
    "es_recent_roots st0 = seam_anchor_window (x_perm E) (ew_seam w)"
    "es_daa_view st0 = map (\<lambda>h. (sh_timestamp_ms h, sh_nbits h)) (rev (ew_seam w))"
    "es_seen_nf st0 = []" "es_all_spends st0 = []" "es_withdrawals st0 = []" "es_pegout_records st0 = []"
  using assms by (auto simp: epoch_init_def Let_def bind_r_eq_Inr ok_or_eq_Inr split: if_splits)

definition suffix_spends :: "suffix_block list \<Rightarrow> spend_publics list" where
  "suffix_spends bs = concat (map spends_in_order bs)"

text \<open>What holds after the first \<open>k\<close> blocks, started in \<open>st0\<close>.\<close>

definition epoch_inv :: "('h, 't) ext \<Rightarrow> epoch_witness \<Rightarrow> epoch_state \<Rightarrow> nat \<Rightarrow> epoch_state \<Rightarrow> bool" where
  "epoch_inv E w st0 k st \<longleftrightarrow>
     (let bs = take k (ew_blocks w) in
      es_all_spends st = suffix_spends bs \<and> es_seen_nf st = spend_keys (suffix_spends bs)
      \<and> distinct (es_seen_nf st)
      \<and> es_withdrawals st = map guest_withdrawal_of (concat (map sb_pegouts bs))
      \<and> es_pegout_records st
          = concat (map (\<lambda>b. map (\<lambda>po. (sp_nf0 (po_spend po), sb_height b)) (sb_pegouts b)) bs)
      \<and> es_recent_roots st = es_recent_roots st0 @ map sb_state_root bs
      \<and> es_daa_view st = es_daa_view st0 @ map (\<lambda>b. (sb_timestamp_ms b, sb_nbits b)) bs
      \<and> append_all (fr_append (x_perm E)) (es_running st0) (concat (map (epoch_block_leaves (x_perm E)) bs))
          = Some (es_running st)
      \<and> unat (es_pot st) + unat (es_shielded st)
          + sum_list (map (unat \<circ> po_amount) (concat (map sb_pegouts bs)))
        = unat (es_pot st0) + unat (es_shielded st0)
          + sum_list (map (unat \<circ> pi_amount) (concat (map sb_pegins bs)))
      \<and> (bs \<noteq> [] \<longrightarrow> es_pot st = sb_pot_after (last bs) \<and> es_shielded st = sb_shielded_after (last bs)
          \<and> fr_root (x_perm E) (es_running st) = sb_state_root (last bs)))"

lemma append_all_concat:
  "append_all a t xs = Some u \<Longrightarrow> append_all a u ys = Some v \<Longrightarrow> append_all a t (xs @ ys) = Some v"
  by (induction xs arbitrary: t) (auto split: option.splits)

lemma epoch_inv_step:
  assumes inv: "epoch_inv E w st0 k st" and k: "k < length (ew_blocks w)"
    and step: "epoch_block_step E w tip st k = Inr st'"
  shows "epoch_inv E w st0 (Suc k) st'"
  using inv unfolding epoch_inv_def Let_def take_Suc_conv_app_nth [OF k]
  by (elim conjE, intro conjI)
    (use step in \<open>auto elim!: epoch_block_stepE simp: suffix_spends_def intro: append_all_concat\<close>)

lemma epoch_inv_run:
  assumes "fold_r (epoch_block_step E w tip) st0 [0..<length (ew_blocks w)] = Inr st"
    and "epoch_init E w tip = Inr st0" and "n \<le> length (ew_blocks w)"
  shows "\<exists>st1. fold_r (epoch_block_step E w tip) st0 [0..<n] = Inr st1 \<and> epoch_inv E w st0 n st1"
proof -
  have "[0..<length (ew_blocks w)] = [0..<n] @ [n..<length (ew_blocks w)]"
    using assms(3) by (metis le_add_diff_inverse less_imp_le upt_add_eq_append zero_le)
  then obtain st1 where st1: "fold_r (epoch_block_step E w tip) st0 [0..<n] = Inr st1"
    using assms(1) by (auto simp: fold_r_append bind_r_eq_Inr)
  have "epoch_inv E w st0 0 st0"
    using epoch_init_ok [OF assms(2)] by (simp add: epoch_inv_def suffix_spends_def)
  with fold_r_upt_invariant [of "epoch_block_step E w tip" st0 n st1 "epoch_inv E w st0", OF st1]
  show ?thesis using st1 epoch_inv_step assms(3) by (metis less_le_trans)
qed

text \<open>Every block of an accepted suffix was accepted in the state the blocks before it produce.\<close>

lemma verify_epoch_blockE:
  assumes "verify_epoch E w = Inr r" and "i < length (ew_blocks w)"
  obtains tip st0 st1 st2 where "check_seam (x_perm E) w = Inr tip" "epoch_init E w tip = Inr st0"
    "epoch_inv E w st0 i st1" "epoch_block_step E w tip st1 i = Inr st2"
proof -
  from assms(1) obtain tip st0 st where a: "check_seam (x_perm E) w = Inr tip" "epoch_init E w tip = Inr st0"
    "fold_r (epoch_block_step E w tip) st0 [0..<length (ew_blocks w)] = Inr st"
    by (elim verify_epochE)
  from epoch_inv_run [OF a(3,2), of i] assms(2) obtain st1
    where 1: "fold_r (epoch_block_step E w tip) st0 [0..<i] = Inr st1" "epoch_inv E w st0 i st1" by auto
  from epoch_inv_run [OF a(3,2), of "Suc i"] assms(2) 1 obtain st2 where "epoch_block_step E w tip st1 i = Inr st2"
    by (auto simp: fold_r_append bind_r_eq_Inr)
  with a 1 show thesis by (intro that)
qed

lemma verify_epoch_finalE:
  assumes "verify_epoch E w = Inr r"
  obtains tip st0 st where "check_seam (x_perm E) w = Inr tip" "epoch_init E w tip = Inr st0"
    "epoch_inv E w st0 (length (ew_blocks w)) st" "ew_blocks w \<noteq> []"
    "fold_r (maturity_step (sb_height (last (ew_blocks w)))) () (enumerate 0 (es_pegout_records st)) = Inr ()"
    "epoch_spend_root (x_perm E) (es_all_spends st) = ew_spend_root_digest w"
    "length (ew_settled_paths w) = 2 * length (es_all_spends st)"
    "fold_r (settle_nf_step (x_perm E)) (ew_settled_root_in w)
       (zip (spend_nfs (es_all_spends st)) (ew_settled_paths w)) = Inr (er_settled_root_out r)"
    "er_prev_root r = fr_root (x_perm E) (es_running st0)" "er_new_root r = fr_root (x_perm E) (es_running st)"
    "er_tip_id_new r = header_id (x_perm E) (ew_chain_id w) (last (ew_blocks w))"
    "er_pot_after r = es_pot st" "er_shielded_after r = es_shielded st" "er_withdrawals r = es_withdrawals st"
proof -
  from assms obtain tip st0 st settled where a: "ew_blocks w \<noteq> []" "check_seam (x_perm E) w = Inr tip"
      "epoch_init E w tip = Inr st0"
      "fold_r (epoch_block_step E w tip) st0 [0..<length (ew_blocks w)] = Inr st"
      "fold_r (maturity_step (sb_height (last (ew_blocks w)))) () (enumerate 0 (es_pegout_records st)) = Inr ()"
      "epoch_spend_root (x_perm E) (es_all_spends st) = ew_spend_root_digest w"
      "length (ew_settled_paths w) = 2 * length (es_all_spends st)"
      "fold_r (settle_nf_step (x_perm E)) (ew_settled_root_in w)
         (zip (spend_nfs (es_all_spends st)) (ew_settled_paths w)) = Inr settled"
    and r: "r = \<lparr> er_prev_root = fr_root (x_perm E) (es_running st0),
          er_new_root = fr_root (x_perm E) (es_running st), er_settled_root_out = settled,
          er_tip_id_new = header_id (x_perm E) (ew_chain_id w) (last (ew_blocks w)),
          er_pot_after = es_pot st, er_shielded_after = es_shielded st, er_withdrawals = es_withdrawals st \<rparr>"
    by (elim verify_epochE)
  from epoch_inv_run [OF a(4,3) order_refl] a(4) have inv: "epoch_inv E w st0 (length (ew_blocks w)) st" by auto
  show thesis
    by (rule that [OF a(2,3) inv a(1,5-7)]) (use a(8) in \<open>simp_all add: r\<close>)
qed

section \<open>What an accepted epoch guarantees\<close>

text \<open>
  C36: The guest conserves value exactly, in unbounded arithmetic: for an accepted suffix the pot
  and the shielded total at its end plus all withdrawals equal the pot and the shielded total of
  the sealed tip plus all peg-ins of the suffix. No intermediate sum wraps around.
\<close>

theorem epoch_conserves_value:
  assumes "verify_epoch E w = Inr r"
  shows "unat (er_pot_after r) + unat (er_shielded_after r) + sum_list (map (unat \<circ> gw_amount) (er_withdrawals r))
    = unat (sh_pot_after (hd (ew_seam w))) + unat (sh_shielded_after (hd (ew_seam w)))
      + sum_list (map (unat \<circ> pi_amount) (concat (map sb_pegins (ew_blocks w))))"
proof -
  have g: "map (unat \<circ> gw_amount) (map guest_withdrawal_of pos) = map (unat \<circ> po_amount) pos" for pos
    by (simp add: guest_withdrawal_of_def)
  from assms obtain tip st0 st where seam: "check_seam (x_perm E) w = Inr tip"
    and init: "epoch_init E w tip = Inr st0" and inv: "epoch_inv E w st0 (length (ew_blocks w)) st"
    and r: "er_pot_after r = es_pot st" "er_shielded_after r = es_shielded st" "er_withdrawals r = es_withdrawals st"
    by (elim verify_epoch_finalE)
  have "tip = hd (ew_seam w)" using check_seam_ok [OF seam] by blast
  then show ?thesis
    using inv epoch_init_ok(5,6) [OF init]
    by (simp add: r epoch_inv_def Let_def g del: map_map)
qed

lemma maturity_ok:
  "fold_r (maturity_step t) u (enumerate n rs) = Inr () \<Longrightarrow>
    \<forall>(nf, h) \<in> set rs. saturating_add h pegout_delay_const \<le> t"
  by (induction rs arbitrary: n u)
    (auto simp: maturity_step_def bind_r_eq_Inr not_less split: if_splits)

text \<open>
  C38: The withdrawals of an accepted epoch are exactly the peg-outs of its blocks in order; each
  is backed by a burn note bound to its amount plus fee, its recipient and the spent nullifier, and
  its block lies at least the peg-out delay (10 blocks, the sum saturating at the largest height) below
  the sealed new tip.
\<close>

theorem epoch_withdrawals_burned_and_mature:
  assumes "verify_epoch E w = Inr r"
  shows "er_withdrawals r = map guest_withdrawal_of (concat (map sb_pegouts (ew_blocks w)))
    \<and> (\<forall>b \<in> set (ew_blocks w). \<forall>po \<in> set (sb_pegouts b). guest_burn_bound (x_perm E) po
        \<and> min (unat (sb_height b) + 10) (2 ^ 64 - 1) \<le> unat (sb_height (last (ew_blocks w))))"
proof -
  from assms obtain tip st0 st where inv: "epoch_inv E w st0 (length (ew_blocks w)) st"
    and m: "fold_r (maturity_step (sb_height (last (ew_blocks w)))) () (enumerate 0 (es_pegout_records st)) = Inr ()"
    and r: "er_withdrawals r = es_withdrawals st"
    by (elim verify_epoch_finalE)
  show ?thesis
  proof (intro conjI ballI)
    show "er_withdrawals r = map guest_withdrawal_of (concat (map sb_pegouts (ew_blocks w)))"
      using inv by (simp add: r epoch_inv_def Let_def)
  next
    fix b po assume b: "b \<in> set (ew_blocks w)" and po: "po \<in> set (sb_pegouts b)"
    then obtain i where i: "i < length (ew_blocks w)" "b = ew_blocks w ! i" by (metis in_set_conv_nth)
    obtain tip st0 st1 st2 where "epoch_block_step E w tip st1 i = Inr st2"
      by (rule verify_epoch_blockE [OF assms i(1)])
    then show "guest_burn_bound (x_perm E) po" using po i(2) by (elim epoch_block_stepE) blast
  next
    fix b po assume b: "b \<in> set (ew_blocks w)" and po: "po \<in> set (sb_pegouts b)"
    have "(sp_nf0 (po_spend po), sb_height b) \<in> set (es_pegout_records st)"
      using inv b po by (auto simp: epoch_inv_def Let_def)
    with maturity_ok [OF m] have le: "saturating_add (sb_height b) pegout_delay_const \<le> sb_height (last (ew_blocks w))"
      by blast
    then show "min (unat (sb_height b) + 10) (2 ^ 64 - 1) \<le> unat (sb_height (last (ew_blocks w)))"
      unfolding word_le_nat_alt unat_saturating_add by (simp add: pegout_delay_const_def)
  qed
qed

definition nullifiers_of :: "spend_publics list \<Rightarrow> digest list" where
  "nullifiers_of spends = concat (map (\<lambda>s. [sp_nf0 s, sp_nf1 s]) spends)"

lemma map_snd_spend_nfs: "map snd (spend_nfs spends) = nullifiers_of spends"
proof -
  have "map snd (concat (map (\<lambda>(j, s). [(j, sp_nf0 s), (j, sp_nf1 s)]) (enumerate n spends))) = nullifiers_of spends" for n
    by (induction spends arbitrary: n) (simp_all add: nullifiers_of_def)
  then show ?thesis by (simp add: spend_nfs_def)
qed

lemma spend_keys_nullifiers: "spend_keys spends = map digest_to_limbs (nullifiers_of spends)"
  by (induction spends) (simp_all add: nullifiers_of_def spend_keys_def)

lemma length_nullifiers_of: "length (nullifiers_of spends) = 2 * length spends"
  by (induction spends) (simp_all add: nullifiers_of_def)

lemma settle_nf_steps:
  "fold_r (settle_nf_step perm) root (zip jnfs paths) = Inr r \<Longrightarrow>
    fold_r (\<lambda>r (nf, sibs). verify_insert perm r nf sibs) root (zip (map snd jnfs) paths) = Inr r"
proof (induction jnfs arbitrary: root paths)
  case (Cons jn jnfs)
  then show ?case by (cases jn; cases paths) (auto simp: settle_nf_step_def bind_r_eq_Inr map_err_eq_Inr)
qed simp

text \<open>
  C37: The guest closes double spends inside the suffix and across settlements. In an accepted
  epoch the two nullifiers of every spend are pairwise distinct over the whole suffix; and when
  the settled root of the vault is the root of a set, none of them was in the set, and the root
  handed back is the root of the set with all of them inserted, unless at some step the witness
  makes the guest hash a pair that collides with one of the honest recomputation.
\<close>

theorem epoch_no_double_spend:
  assumes "verify_epoch E w = Inr r"
    and "ew_settled_root_in w = settled_root (x_perm E) s" and "wf_settled s"
    and "\<forall>p \<in> set (ew_settled_paths w). wf_siblings p"
  defines "nfs \<equiv> nullifiers_of (suffix_spends (ew_blocks w))"
  shows "distinct (map digest_to_limbs nfs) \<and> length (ew_settled_paths w) = length nfs
    \<and> (((\<forall>nf \<in> set nfs. \<not> settled_contains s nf)
        \<and> er_settled_root_out r = settled_root (x_perm E) (foldl settled_insert s nfs))
       \<or> settled_run_collision (x_perm E) s (zip nfs (ew_settled_paths w)))"
proof -
  from assms(1) obtain tip st0 st where inv: "epoch_inv E w st0 (length (ew_blocks w)) st"
    and len: "length (ew_settled_paths w) = 2 * length (es_all_spends st)"
    and fold: "fold_r (settle_nf_step (x_perm E)) (ew_settled_root_in w)
       (zip (spend_nfs (es_all_spends st)) (ew_settled_paths w)) = Inr (er_settled_root_out r)"
    by (elim verify_epoch_finalE)
  from inv have spends: "es_all_spends st = suffix_spends (ew_blocks w)"
    and dist: "distinct (map digest_to_limbs nfs)"
    by (auto simp: epoch_inv_def Let_def nfs_def spend_keys_nullifiers)
  have l: "length (ew_settled_paths w) = length nfs"
    using len by (simp add: spends nfs_def length_nullifiers_of)
  from settle_nf_steps [OF fold] have
    "fold_r (\<lambda>r (nf, sibs). verify_insert (x_perm E) r nf sibs) (settled_root (x_perm E) s)
       (zip nfs (ew_settled_paths w)) = Inr (er_settled_root_out r)"
    by (simp add: assms(2) map_snd_spend_nfs spends nfs_def)
  from settled_run_sound [OF assms(3) _ this] assms(4)
  have "(distinct nfs \<and> (\<forall>nf \<in> set nfs. \<not> settled_contains s nf)
      \<and> er_settled_root_out r = settled_root (x_perm E) (foldl settled_insert s nfs))
     \<or> settled_run_collision (x_perm E) s (zip nfs (ew_settled_paths w))"
    by (auto simp: l dest: set_zip_rightD)
  with dist l show ?thesis by blast
qed

text \<open>
  An accepted suffix extends the sealed chain. The newest seam header hashes to the vault's
  tip id, every seam header hashes to the parent id of the one after it with consecutive heights,
  every block names the id of its predecessor (the sealed tip for the first), heights rise by one,
  timestamps do not fall, and the id handed back is the id of the last block.
\<close>

theorem epoch_extends_sealed_chain:
  assumes "verify_epoch E w = Inr r"
  defines "hid \<equiv> header_id (x_perm E) (ew_chain_id w)" and "fid \<equiv> header_id_from_fields (x_perm E) (ew_chain_id w)"
    and "bs \<equiv> ew_blocks w" and "seam \<equiv> ew_seam w"
  shows "seam \<noteq> [] \<and> fid (hd seam) = ew_tip_id_prev w \<and> er_tip_id_new r = hid (last bs)
    \<and> (length seam = seam_len \<or> sh_prev_header_id (last seam) = genesis_header_id)
    \<and> (\<forall>i. Suc i < length seam \<longrightarrow> sh_prev_header_id (seam ! i) = fid (seam ! Suc i)
         \<and> sh_height (seam ! i) = sh_height (seam ! Suc i) + 1)
    \<and> (\<forall>i < length bs.
         sb_prev_header_id (bs ! i) = (if i = 0 then ew_tip_id_prev w else hid (bs ! (i - 1)))
         \<and> sb_height (bs ! i) = (if i = 0 then sh_height (hd seam) else sb_height (bs ! (i - 1))) + 1
         \<and> (if i = 0 then sh_timestamp_ms (hd seam) else sb_timestamp_ms (bs ! (i - 1))) \<le> sb_timestamp_ms (bs ! i))"
proof -
  from assms(1) obtain tip st0 st where seam: "check_seam (x_perm E) w = Inr tip"
    and init: "epoch_init E w tip = Inr st0" and new: "er_tip_id_new r = hid (last bs)"
    by (elim verify_epoch_finalE) (simp add: hid_def bs_def)
  note s = check_seam_ok [OF seam]
  have links: "check_seam_links (x_perm E) (ew_chain_id w) 0 (ew_seam w) = Inr ()"
    using seam by (auto simp: check_seam_def bind_r_eq_Inr split: list.splits if_splits)
  have blk: "sb_prev_header_id (bs ! i) = (if i = 0 then ew_tip_id_prev w else hid (bs ! (i - 1)))
         \<and> sb_height (bs ! i) = (if i = 0 then sh_height (hd seam) else sb_height (bs ! (i - 1))) + 1
         \<and> (if i = 0 then sh_timestamp_ms (hd seam) else sb_timestamp_ms (bs ! (i - 1))) \<le> sb_timestamp_ms (bs ! i)"
    if i: "i < length bs" for i
  proof -
    obtain tip' st0' st1 st2 where t: "check_seam (x_perm E) w = Inr tip'" "epoch_block_step E w tip' st1 i = Inr st2"
      by (rule verify_epoch_blockE [OF assms(1) i [unfolded bs_def]])
    then have "check_epoch_header E w tip st1 i = Inr ()" using seam by (elim epoch_block_stepE) simp
    then show ?thesis
      using epoch_init_ok(4) [OF init] s
      by (auto simp: check_epoch_header_def Let_def hid_def bs_def seam_def bind_r_eq_Inr not_less split: if_splits)
  qed
  show ?thesis
    using s new check_seam_links_ok [OF links] blk unfolding fid_def seam_def by blast
qed

text \<open>
  The new root is not fabricated. The old root is the seam tip's state root and the first
  block's parent root; the new root is the last block's state root; and when the decoded frontier
  is the frontier of a list of old leaves, the new root is the Merkle root of the old leaves
  followed by exactly the leaves re-derived from the blocks (spend outputs, peg-in mints,
  coinbases), as long as the tree is not full.
\<close>

theorem epoch_new_root_rederived:
  assumes "verify_epoch E w = Inr r"
    and "x_decode_frontier E (ew_frontier_bytes w) = fr_from_leaves (x_perm E) old"
  defines "leaves \<equiv> old @ concat (map (epoch_block_leaves (x_perm E)) (ew_blocks w))"
  assumes "length leaves < 2 ^ 32"
  shows "er_prev_root r = sh_state_root (hd (ew_seam w)) \<and> er_prev_root r = sb_prev_root (hd (ew_blocks w))
    \<and> er_prev_root r = merkle_root (x_perm E) old
    \<and> er_new_root r = sb_state_root (last (ew_blocks w)) \<and> er_new_root r = merkle_root (x_perm E) leaves"
proof -
  from assms(1) obtain tip st0 st where seam: "check_seam (x_perm E) w = Inr tip"
    and init: "epoch_init E w tip = Inr st0" and inv: "epoch_inv E w st0 (length (ew_blocks w)) st"
    and ne: "ew_blocks w \<noteq> []" and r: "er_prev_root r = fr_root (x_perm E) (es_running st0)"
      "er_new_root r = fr_root (x_perm E) (es_running st)"
    by (elim verify_epoch_finalE)
  from epoch_init_ok(1) [OF init] assms(2) have "fr_from_leaves (x_perm E) old = Some (es_running st0)" by simp
  then have 0: "fr_rep (x_perm E) (es_running st0) old"
    using fr.append_all_SomeD [OF fr.rep_new] by (simp add: fr_from_leaves_def)
  from inv have "append_all (fr_append (x_perm E)) (es_running st0)
      (concat (map (epoch_block_leaves (x_perm E)) (ew_blocks w))) = Some (es_running st)"
    by (simp add: epoch_inv_def Let_def)
  from fr.append_all_SomeD [OF 0 this] have 1: "fr_rep (x_perm E) (es_running st) leaves"
    by (simp add: leaves_def)
  have d: "(2 :: nat) ^ 32 = 2 ^ depth" by (simp add: depth_def)
  have "length old < 2 ^ depth" "length leaves < 2 ^ depth"
    using assms(4) unfolding d leaves_def by simp_all
  then show ?thesis
    using fr_root_rep [OF 0] fr_root_rep [OF 1] inv ne r epoch_init_ok(2,3) [OF init] check_seam_ok [OF seam]
    by (auto simp: epoch_inv_def Let_def hd_conv_nth)
qed

text \<open>
  Every spend of an accepted epoch pays exactly the flat fee against one of the last hundred
  state roots before its block: roots of the authenticated seam (and the empty tree's, if the seam
  reaches genesis) or of earlier blocks of the suffix. The spends of the suffix, in order, are the
  ones whose digest the recursion proof surfaced.
\<close>

theorem epoch_spends_anchored:
  assumes "verify_epoch E w = Inr r" and "i < length (ew_blocks w)"
    and "s \<in> set (spends_in_order (ew_blocks w ! i))"
  shows "sp_fee s = flat_fee_const
    \<and> sp_root s \<in> set (take_last root_window_const
        (seam_anchor_window (x_perm E) (ew_seam w) @ map sb_state_root (take i (ew_blocks w))))
    \<and> epoch_spend_root (x_perm E) (suffix_spends (ew_blocks w)) = ew_spend_root_digest w"
proof -
  obtain tip st0 st1 st2 where init: "epoch_init E w tip = Inr st0" and inv: "epoch_inv E w st0 i st1"
    and step: "epoch_block_step E w tip st1 i = Inr st2"
    by (rule verify_epoch_blockE [OF assms(1,2)])
  from assms(1) obtain st0' st where "epoch_inv E w st0' (length (ew_blocks w)) st"
    "epoch_spend_root (x_perm E) (es_all_spends st) = ew_spend_root_digest w"
    by (elim verify_epoch_finalE)
  then show ?thesis
    using step assms(3) inv epoch_init_ok(7) [OF init]
    by (auto elim!: epoch_block_stepE simp: epoch_inv_def Let_def take_last_def)
qed

text \<open>
  The difficulty of every block of an accepted suffix is the retarget rule's value on the
  authenticated history: the seam's timestamps and targets followed by those of the earlier blocks.
\<close>

theorem epoch_difficulty_inherited:
  assumes "verify_epoch E w = Inr r" and "i < length (ew_blocks w)"
  shows "next_nbits E (pinned_daa_params E)
      (map (\<lambda>h. (sh_timestamp_ms h, sh_nbits h)) (rev (ew_seam w))
       @ map (\<lambda>b. (sb_timestamp_ms b, sb_nbits b)) (take i (ew_blocks w)))
    = Some (sb_nbits (ew_blocks w ! i))"
proof -
  obtain tip st0 st1 st2 where init: "epoch_init E w tip = Inr st0" and inv: "epoch_inv E w st0 i st1"
    and step: "epoch_block_step E w tip st1 i = Inr st2"
    by (rule verify_epoch_blockE [OF assms])
  from step have "check_epoch_header E w tip st1 i = Inr ()" by (elim epoch_block_stepE)
  then show ?thesis
    using inv epoch_init_ok(8) [OF init]
    by (auto simp: check_epoch_header_def Let_def epoch_inv_def guest_next_nbits_eq bind_r_eq_Inr ok_or_eq_Inr
        split: if_splits)
qed

end
