(* ===== verification/GuestParity.thy ===== *)
theory GuestParity
  imports HnRuns EpochSound
begin

text \<open>
  The node and the settlement guest accept the same blocks. The node's \<^verbatim>\<open>HnState::apply_block\<close>
  (\<^verbatim>\<open>aegis-node/src/hn/state.rs\<close>) and one round of the guest's block loop in \<^verbatim>\<open>verify_epoch\<close>
  (\<^verbatim>\<open>engine/settlement-core/src/verify.rs\<close>) are two programs for one rule set. Here a relation
  between their states is preserved by every block the node accepts, given the links that the
  node itself does not check (height, parent header id, timestamp).
\<close>

section \<open>The guest's loops accept what the node's loops accept\<close>

lemma epoch_spends_accept:
  assumes "\<forall>s \<in> set ss. sp_fee s = flat_fee_const \<and> sp_root s \<in> set window"
    and "distinct (seen @ spend_keys ss)"
  shows "fold_r (epoch_spend_step window i) (seen, spends) (enumerate n ss) = Inr (seen @ spend_keys ss, spends @ ss)"
  using assms
proof (induction ss arbitrary: seen spends n)
  case (Cons s ss)
  let ?keys = "[digest_to_limbs (sp_nf0 s), digest_to_limbs (sp_nf1 s)]"
  have step: "epoch_spend_step window i (seen, spends) (n, s) = Inr (seen @ ?keys, spends @ [s])"
    using Cons.prems by (auto simp: epoch_spend_step_def)
  have "fold_r (epoch_spend_step window i) (seen @ ?keys, spends @ [s]) (enumerate (Suc n) ss)
      = Inr ((seen @ ?keys) @ spend_keys ss, (spends @ [s]) @ ss)"
    using Cons.prems by (intro Cons.IH) auto
  with step show ?case by simp
qed simp

lemma checked_add_fits: "unat a + unat b < 2 ^ 64 \<Longrightarrow> checked_add a b = Some (a + b)" for a b :: u64
  by (simp add: checked_add_Some)

lemma unat_add_fits: "unat a + unat b < 2 ^ 64 \<Longrightarrow> unat (a + b) = unat a + unat b" for a b :: u64
  using unat_add_exact [of a b] by simp

text \<open>What a peg-out burns, as a natural number.\<close>

definition burn_nat :: "peg_out \<Rightarrow> nat" where
  "burn_nat po = unat (po_amount po) + unat (guest_peg_fee (po_amount po))"

lemma epoch_pegouts_accept:
  assumes "\<forall>po \<in> set pos. guest_burn_bound perm po"
    and "unat (eo_burn_total acc) + sum_list (map burn_nat pos) < 2 ^ 64"
    and "unat (eo_outflow acc) + unat (eo_fees acc) \<le> unat (eo_burn_total acc)"
  shows "\<exists>acc'. fold_r (epoch_pegout_step perm i h) acc (enumerate n pos) = Inr acc'
    \<and> eo_outflow acc' = eo_outflow acc + sum_list (map po_amount pos)
    \<and> eo_fees acc' = eo_fees acc + sum_list (map (\<lambda>po. guest_peg_fee (po_amount po)) pos)
    \<and> eo_burn_total acc' = eo_burn_total acc + sum_list (map (\<lambda>po. po_amount po + guest_peg_fee (po_amount po)) pos)
    \<and> unat (eo_burn_total acc') = unat (eo_burn_total acc) + sum_list (map burn_nat pos)
    \<and> unat (eo_fees acc') = unat (eo_fees acc) + sum_list (map (\<lambda>po. unat (guest_peg_fee (po_amount po))) pos)"
  using assms
proof (induction pos arbitrary: acc n)
  case (Cons po pos)
  let ?fee = "guest_peg_fee (po_amount po)"
  let ?acc = "\<lparr> eo_outflow = eo_outflow acc + po_amount po, eo_fees = eo_fees acc + ?fee,
      eo_burn_total = eo_burn_total acc + (po_amount po + ?fee),
      eo_withdrawals = eo_withdrawals acc @ [\<lparr> gw_amount = po_amount po, gw_recipient = po_recipient po,
        gw_nf0 = sp_nf0 (po_spend po) \<rparr>],
      eo_records = eo_records acc @ [(sp_nf0 (po_spend po), h)] \<rparr>"
  from Cons.prems(2,3) have b: "unat (po_amount po) + unat ?fee < 2 ^ 64"
      "unat (eo_outflow acc) + unat (po_amount po) < 2 ^ 64" "unat (eo_fees acc) + unat ?fee < 2 ^ 64"
      "unat (eo_burn_total acc) + burn_nat po < 2 ^ 64"
    by (simp_all add: burn_nat_def)
  then have u: "unat (po_amount po + ?fee) = burn_nat po"
    by (simp only: unat_add_fits burn_nat_def)
  have t: "unat (eo_burn_total acc + (po_amount po + ?fee)) = unat (eo_burn_total acc) + burn_nat po"
    using b(4) by (simp only: unat_add_fits u)
  have c: "checked_add (po_amount po) ?fee = Some (po_amount po + ?fee)"
      "checked_add (eo_outflow acc) (po_amount po) = Some (eo_outflow acc + po_amount po)"
      "checked_add (eo_fees acc) ?fee = Some (eo_fees acc + ?fee)"
      "checked_add (eo_burn_total acc) (po_amount po + ?fee) = Some (eo_burn_total acc + (po_amount po + ?fee))"
    using b by (simp_all only: checked_add_fits u)
  have step: "epoch_pegout_step perm i h acc (n, po) = Inr ?acc"
    using Cons.prems(1) c by (auto simp: epoch_pegout_step_def guest_burn_bound_def Let_def)
  have "unat (eo_burn_total ?acc) + sum_list (map burn_nat pos) < 2 ^ 64"
    "unat (eo_outflow ?acc) + unat (eo_fees ?acc) \<le> unat (eo_burn_total ?acc)"
    using Cons.prems(2,3) b by (simp_all add: t) (simp add: unat_add_fits burn_nat_def)
  from Cons.IH [OF _ this, of "Suc n"] Cons.prems(1) obtain acc' where IH:
    "fold_r (epoch_pegout_step perm i h) ?acc (enumerate (Suc n) pos) = Inr acc'"
    "eo_outflow acc' = eo_outflow ?acc + sum_list (map po_amount pos)"
    "eo_fees acc' = eo_fees ?acc + sum_list (map (\<lambda>po. guest_peg_fee (po_amount po)) pos)"
    "eo_burn_total acc' = eo_burn_total ?acc + sum_list (map (\<lambda>po. po_amount po + guest_peg_fee (po_amount po)) pos)"
    "unat (eo_burn_total acc') = unat (eo_burn_total ?acc) + sum_list (map burn_nat pos)"
    "unat (eo_fees acc') = unat (eo_fees ?acc) + sum_list (map (\<lambda>po. unat (guest_peg_fee (po_amount po))) pos)"
    by auto
  then show ?case
    using step t unat_add_fits [OF b(3)] by (auto simp: add.assoc)
qed simp

lemma epoch_pegins_accept:
  assumes "\<forall>p \<in> set ps. guest_peg_fee (pi_amount p) < pi_amount p"
    and "unat (ei_inflow acc) + sum_list (map (\<lambda>p. unat (pi_amount p)) ps) < 2 ^ 64"
    and "unat (ei_fees acc) \<le> unat (ei_inflow acc)"
  shows "\<exists>acc'. fold_r (epoch_pegin_step perm i) acc ps = Inr acc'
    \<and> ei_cms acc' = ei_cms acc @ map (guest_pegin_cm perm) ps
    \<and> ei_inflow acc' = ei_inflow acc + sum_list (map pi_amount ps)
    \<and> ei_fees acc' = ei_fees acc + sum_list (map (\<lambda>p. guest_peg_fee (pi_amount p)) ps)
    \<and> unat (ei_inflow acc') = unat (ei_inflow acc) + sum_list (map (\<lambda>p. unat (pi_amount p)) ps)
    \<and> unat (ei_fees acc') = unat (ei_fees acc) + sum_list (map (\<lambda>p. unat (guest_peg_fee (pi_amount p))) ps)
    \<and> unat (ei_fees acc') \<le> unat (ei_inflow acc')"
  using assms
proof (induction ps arbitrary: acc)
  case (Cons p ps)
  let ?fee = "guest_peg_fee (pi_amount p)"
  let ?acc = "\<lparr> ei_cms = ei_cms acc @ [guest_pegin_cm perm p], ei_inflow = ei_inflow acc + pi_amount p,
      ei_fees = ei_fees acc + ?fee \<rparr>"
  have lt: "unat ?fee < unat (pi_amount p)" using Cons.prems(1) by (simp add: word_less_nat_alt)
  with Cons.prems have b: "unat (ei_inflow acc) + unat (pi_amount p) < 2 ^ 64" "unat (ei_fees acc) + unat ?fee < 2 ^ 64"
    by simp_all
  have sub: "checked_sub (pi_amount p) ?fee = Some (pi_amount p - ?fee)" "0 < pi_amount p - ?fee"
    using Cons.prems(1) by (auto simp: checked_sub_Some word_less_nat_alt unat_sub_exact word_le_nat_alt)
  have step: "epoch_pegin_step perm i acc p = Inr ?acc"
    using sub b by (simp add: epoch_pegin_step_def Let_def checked_add_fits guest_pegin_cm_def)
  have "unat (ei_inflow ?acc) + sum_list (map (\<lambda>p. unat (pi_amount p)) ps) < 2 ^ 64" "unat (ei_fees ?acc) \<le> unat (ei_inflow ?acc)"
    using Cons.prems(2,3) b lt by (simp_all add: unat_add_fits)
  from Cons.IH [OF _ this] Cons.prems(1) obtain acc' where
    "fold_r (epoch_pegin_step perm i) ?acc ps = Inr acc'"
    "ei_cms acc' = ei_cms ?acc @ map (guest_pegin_cm perm) ps"
    "ei_inflow acc' = ei_inflow ?acc + sum_list (map pi_amount ps)"
    "ei_fees acc' = ei_fees ?acc + sum_list (map (\<lambda>p. guest_peg_fee (pi_amount p)) ps)"
    "unat (ei_inflow acc') = unat (ei_inflow ?acc) + sum_list (map (\<lambda>p. unat (pi_amount p)) ps)"
    "unat (ei_fees acc') = unat (ei_fees ?acc) + sum_list (map (\<lambda>p. unat (guest_peg_fee (pi_amount p))) ps)"
    "unat (ei_fees acc') \<le> unat (ei_inflow acc')"
    by auto
  then show ?case using step b by (auto simp: add.assoc unat_add_fits)
qed simp

lemma unat_sub_fits: "unat b \<le> unat a \<Longrightarrow> unat (a - b) = unat a - unat b" for a b :: u64
  using unat_sub_exact [of b a] by (simp add: word_le_nat_alt)

lemma checked_sub_fits: "unat b \<le> unat a \<Longrightarrow> checked_sub a b = Some (a - b)" for a b :: u64
  by (simp add: checked_sub_Some word_le_nat_alt)

lemma epoch_economics_accept:
  fixes pot shielded shielded' :: u64 and n :: nat and po :: epoch_pegout_acc and gi :: epoch_pegin_acc and b :: suffix_block
  defines "fees \<equiv> flat_fee_const * of_nat n" and "cb \<equiv> guest_coinbase_amount pot n"
  defines "pot' \<equiv> pot + fees + eo_fees po + ei_fees gi - cb"
  assumes n: "n = n_spends b"
    and cb: "sb_coinbase_amount b = cb" and pot': "sb_pot_after b = pot'" and sh: "sb_shielded_after b = shielded'"
    and shielded: "checked_sub (shielded + cb + (ei_inflow gi - ei_fees gi)) (fees + eo_burn_total po) = Some shielded'"
    and system: "checked_sub (shielded + pot + ei_inflow gi) (eo_outflow po) = Some (shielded' + pot')"
    and infees: "unat (ei_fees gi) \<le> unat (ei_inflow gi)"
    and fits: "unat shielded + unat pot + unat (ei_inflow gi) + 3 * n + unat (eo_fees po) + unat (ei_fees gi) < 2 ^ 64"
      "3 * n + unat (eo_burn_total po) < 2 ^ 64"
  shows "epoch_economics i pot shielded b po gi = Inr (pot', shielded')"
proof -
  have nn: "unat (of_nat n :: u64) = n" "unat flat_fee_const = 3"
    using fits(2) by (simp_all add: unat_of_nat flat_fee_const_def)
  have f: "unat fees = 3 * n"
    unfolding fees_def using fits(2) nn unat_mul_exact [of flat_fee_const "of_nat n :: u64"] by simp
  have sat: "saturating_mul flat_fee_const (of_nat n) = fees"
    using fits(2) nn by (simp add: saturating_mul_def fees_def)
  have le: "unat cb \<le> unat pot"
    by (simp add: cb_def guest_coinbase_amount_def flip: word_le_nat_alt)
  let ?pf = "eo_fees po" and ?gf = "ei_fees gi" and ?in = "ei_inflow gi" and ?burn = "eo_burn_total po"
  have p1: "unat (pot + fees) = unat pot + 3 * n"
    using fits f by (simp add: unat_add_fits)
  have p2: "unat (pot + fees + ?pf) = unat pot + 3 * n + unat ?pf"
    using fits p1 by (simp add: unat_add_fits)
  have p3: "unat (pot + fees + ?pf + ?gf) = unat pot + 3 * n + unat ?pf + unat ?gf"
    using fits p2 by (simp add: unat_add_fits)
  have p4: "unat pot' = unat pot + 3 * n + unat ?pf + unat ?gf - unat cb"
    unfolding pot'_def using p3 le by (simp add: unat_sub_fits)
  have pots: "Option.bind (Option.bind (Option.bind (checked_add pot fees)
              (\<lambda>v. checked_add v ?pf)) (\<lambda>v. checked_add v ?gf)) (\<lambda>v. checked_sub v cb) = Some pot'"
    using fits f p1 p2 p3 le by (simp add: checked_add_fits checked_sub_fits pot'_def)
  have i1: "unat (?in - ?gf) = unat ?in - unat ?gf"
    using infees by (rule unat_sub_fits)
  have s1: "unat (shielded + cb) = unat shielded + unat cb"
    using fits le by (simp add: unat_add_fits)
  have s2: "unat (shielded + cb + (?in - ?gf)) = unat shielded + unat cb + (unat ?in - unat ?gf)"
    using fits le s1 i1 by (simp add: unat_add_fits)
  have b: "unat (fees + ?burn) = 3 * n + unat ?burn"
    using fits f by (simp add: unat_add_fits)
  from shielded have ge: "3 * n + unat ?burn \<le> unat shielded + unat cb + (unat ?in - unat ?gf)"
    and sv: "shielded' = shielded + cb + (?in - ?gf) - (fees + ?burn)"
    by (simp_all add: checked_sub_Some word_le_nat_alt b s2)
  have s3: "unat (shielded + cb + (?in - ?gf) - fees) = unat shielded + unat cb + (unat ?in - unat ?gf) - 3 * n"
    using ge f s2 by (simp add: unat_sub_fits)
  have s4: "unat shielded' = unat shielded + unat cb + (unat ?in - unat ?gf) - (3 * n + unat ?burn)"
    unfolding sv using ge b s2 by (simp add: unat_sub_fits)
  have sv': "shielded' = shielded + cb + (?in - ?gf) - fees - ?burn" by (simp add: sv)
  have shs: "Option.bind (Option.bind (Option.bind (checked_add shielded cb)
                (\<lambda>v. Option.bind (checked_sub ?in ?gf) (checked_add v)))
                (\<lambda>v. checked_sub v fees)) (\<lambda>v. checked_sub v ?burn) = Some shielded'"
    using fits infees le f s1 i1 s2 s3 ge
    by (simp add: checked_add_fits checked_sub_fits flip: sv')
  have lhs: "checked_add shielded' pot' = Some (shielded' + pot')"
    using fits s4 p4 le infees ge by (intro checked_add_fits) linarith
  have r1: "unat (shielded + pot) = unat shielded + unat pot"
    using fits by (simp add: unat_add_fits)
  have rhs: "Option.bind (Option.bind (checked_add shielded pot) (\<lambda>v. checked_add v ?in))
      (\<lambda>v. checked_sub v (eo_outflow po)) = Some (shielded' + pot')"
    using fits r1 system by (simp add: checked_add_fits)
  show ?thesis
    unfolding epoch_economics_def Let_def n [symmetric] sat cb_def [symmetric] cb pot' sh pots shs rhs
    by (simp add: lhs)
qed

section \<open>The translated block\<close>

lemma those_list_all2: "those (map f xs) = Some ys \<longleftrightarrow> list_all2 (\<lambda>x y. f x = Some y) xs ys"
proof (induction xs arbitrary: ys)
  case (Cons x xs)
  then show ?case by (cases ys) (auto split: option.splits simp: list_all2_Cons1)
qed auto

lemma to_engine_block_parts:
  assumes "to_engine_block b = Some eb"
  shows "list_all2 (\<lambda>tx sp. engine_spend (tx_publics tx) = Some sp) (spend_txs b) (spends_in_order eb)"
    "list_all2 (\<lambda>po epo. engine_pegout po = Some epo) (hb_pegouts b) (sb_pegouts eb)"
    "sb_pegins eb = map engine_pegin (hb_pegins b)" "n_spends eb = length (spend_txs b)"
proof -
  from assms have t: "list_all2 (\<lambda>tx sp. engine_spend (tx_publics tx) = Some sp) (hb_txs b) (sb_txs eb)"
    and p: "list_all2 (\<lambda>po epo. engine_pegout po = Some epo) (hb_pegouts b) (sb_pegouts eb)"
    by (auto simp: to_engine_block_def bind_eq_Some_conv those_list_all2)
  show "list_all2 (\<lambda>po epo. engine_pegout po = Some epo) (hb_pegouts b) (sb_pegouts eb)" by (rule p)
  have "list_all2 (\<lambda>tx sp. engine_spend (tx_publics tx) = Some sp) (map pt_tx (hb_pegouts b)) (map po_spend (sb_pegouts eb))"
    unfolding list.rel_map by (rule list_all2_mono [OF p]) (auto simp: engine_pegout_def)
  with t show s: "list_all2 (\<lambda>tx sp. engine_spend (tx_publics tx) = Some sp) (spend_txs b) (spends_in_order eb)"
    by (simp add: spend_txs_def spends_in_order_def list_all2_appendI)
  show "sb_pegins eb = map engine_pegin (hb_pegins b)"
    using assms by (auto simp: to_engine_block_def bind_eq_Some_conv)
  show "n_spends eb = length (spend_txs b)"
    using t p by (simp add: n_spends_def spend_txs_def list_all2_lengthD)
qed

lemma engine_spend_ok:
  assumes "engine_spend (tx_publics tx) = Some sp"
  shows "digest_at (tx_publics tx) pub_root = Some (sp_root sp)"
    "digest_at (tx_publics tx) pub_nf0 = Some (sp_nf0 sp)" "digest_at (tx_publics tx) pub_nf1 = Some (sp_nf1 sp)"
    "tx_nfs tx = [digest_to_limbs (sp_nf0 sp), digest_to_limbs (sp_nf1 sp)]"
    "tx_cms tx = [sp_cm0 sp, sp_cm1 sp]" "spend_fee (tx_publics tx) = Some (sp_fee sp)"
    "digest_at (tx_publics tx) pub_cmo0 = Some (sp_cm0 sp)"
  using assms
  by (auto simp: engine_spend_def bind_eq_Some_conv tx_nfs_def tx_cms_def nf_key_def digest_to_limbs_def)

lemma spends_concat:
  assumes "list_all2 (\<lambda>tx sp. engine_spend (tx_publics tx) = Some sp) txs sps"
  shows "concat (map tx_nfs txs) = spend_keys sps" "concat (map tx_cms txs) = concat (map (\<lambda>s. [sp_cm0 s, sp_cm1 s]) sps)"
  using assms by (induction rule: list_all2_induct) (auto simp: engine_spend_ok)

lemma spend_fee_tx_fee: "tx_fee tx = Inr (Some f) \<Longrightarrow> spend_fee (tx_publics tx) = Some f"
  by (auto simp: tx_fee_def spend_fee_def map_sum_eq_Inr ok_or_eq_Inr split: if_splits)

lemma pegin_cm_eq:
  "guest_economics params \<Longrightarrow> guest_pegin_cm perm (engine_pegin p) = pegin_cm perm params p"
  by (simp add: guest_pegin_cm_def pegin_cm_def engine_pegin_def pegin_minted_def guest_peg_fee_eq mint_parity)

lemma block_cms_eq:
  assumes "to_engine_block b = Some eb" and "guest_economics params"
  shows "epoch_block_leaves perm eb = block_cms perm params b"
proof -
  have "sb_coinbase_cm eb = limbs_to_digest (hb_coinbase_cm b)"
    using assms(1) by (auto simp: to_engine_block_def bind_eq_Some_conv)
  then show ?thesis
    using to_engine_block_parts(1,3) [OF assms(1)] assms(2)
    by (simp add: epoch_block_leaves_def epoch_leaves_def block_cms_def spends_concat(2) pegin_cm_eq)
qed

lemma guest_burn_bound_eq:
  assumes "engine_pegout po = Some epo" and "burn_bound perm params po" and "guest_economics params"
  shows "guest_burn_bound perm epo" "po_amount epo = pt_amount po"
  using assms
  by (auto simp: engine_pegout_def burn_bound_def guest_burn_bound_def guest_peg_fee_eq engine_spend_ok)

section \<open>All leaves of a run are canonical digests\<close>

lemma wf_note_commitment: "perm_ok perm \<Longrightarrow> wf_digest (note_commitment perm v owner rho r)"
  unfolding note_commitment_def by (rule wf_hash_domain)

lemma wf_coinbase_cm: "perm_ok perm \<Longrightarrow> wf_digest (hn_coinbase_cm_expected perm owner v ident)"
  by (simp add: hn_coinbase_cm_expected_def wf_note_commitment split: prod.splits)

lemma wf_pegmint_cm: "perm_ok perm \<Longrightarrow> wf_digest (hn_pegmint_cm_expected perm owner v ident)"
  by (simp add: hn_pegmint_cm_expected_def wf_note_commitment split: prod.splits)

lemma apply_block_cm:
  assumes "apply_block E s b = Inr (s', u)"
  shows "hb_coinbase_cm b = digest_to_limbs (hn_coinbase_cm_expected (x_perm E) (limbs_to_digest (hb_miner_owner b))
      (hb_coinbase_amount b) (hn_block_id (x_perm E) (hs_height s) (hn_tip_root (x_perm E) s)))"
  using assms by (elim apply_blockE) (metis check_commitments_ok(2))

lemma wf_block_cms:
  assumes "apply_block E s b = Inr (s', u)" and "perm_ok (x_perm E)"
  shows "\<forall>d \<in> set (block_cms (x_perm E) (hs_params s) b). wf_digest d"
proof -
  have "wf_digest d" if "tx \<in> set (spend_txs b)" "d \<in> set (tx_cms tx)" for tx d
  proof -
    from apply_block_fresh(5) [OF assms(1)] that(1) obtain p nf0 nf1 where "validate_tx E s tx p = Inr (nf0, nf1)"
      by fastforce
    from validate_tx_ok(1) [OF this] have "length (tx_publics tx) = 44" by (simp add: n_pub_def)
    then show ?thesis
      using that(2) digest_at_Some [of pub_cmo0 "tx_publics tx"] digest_at_Some [of pub_cmo1 "tx_publics tx"]
      by (auto simp: tx_cms_def pub_cmo0_def pub_cmo1_def dest: digest_at_wf)
  qed
  moreover have "wf_digest (limbs_to_digest (hb_coinbase_cm b))"
    unfolding apply_block_cm [OF assms(1)] using wf_coinbase_cm [OF assms(2)] by (simp add: wf_digest_canonical)
  ultimately show ?thesis
    by (auto simp: block_cms_def pegin_cm_def wf_pegmint_cm [OF assms(2)])
qed

lemma hn_reach_wf_leaves:
  "hn_reach E params bs s \<Longrightarrow> perm_ok (x_perm E) \<Longrightarrow> \<forall>d \<in> set (run_leaves (x_perm E) params bs). wf_digest d"
  by (induction rule: hn_reach.induct)
    (auto simp: run_leaves_def hn_reach_params dest: wf_block_cms)

lemma wf_merkle_root:
  assumes "perm_ok perm" and "\<forall>d \<in> set ls. wf_digest d"
  shows "wf_digest (merkle_root perm ls)"
proof -
  have "wf_digest (leaf_at ls i)" for i
    using assms(2) by (auto simp: leaf_at_def empty_leaf_def wf_digest_def digest_elems_def babybear_p_def)
  then have "wf_digest (subroot perm (leaf_at ls) h i)" for h i
    by (induction h arbitrary: i) (simp_all add: wf_compress [OF assms(1)])
  then show ?thesis by (simp add: merkle_root_def)
qed

lemma apply_block_state_root_digest:
  assumes "hn_reach E params bs s" and "apply_block E s b = Inr (s', u)" and "perm_ok (x_perm E)"
  shows "limbs_to_digest (hb_state_root b) = merkle_root (x_perm E) (run_leaves (x_perm E) params (bs @ [b]))"
proof -
  note reach = hn_reach.block [OF assms(1,2)]
  have "hn_tip_root (x_perm E) s' = merkle_root (x_perm E) (run_leaves (x_perm E) params (bs @ [b]))"
    using nt_root_rep [OF hn_reach_tree [OF reach]] by (simp add: hn_tip_root_def)
  then show ?thesis
    using apply_block_state_root(1) [OF assms(2)] wf_merkle_root [OF assms(3) hn_reach_wf_leaves [OF reach assms(3)]]
    by (simp flip: apply_block_state_root(1) [OF assms(2)])
qed

section \<open>Node and guest agree block by block\<close>

text \<open>The guest's loop state that corresponds to a ledger state.\<close>

definition state_rel :: "perm \<Rightarrow> hn_state \<Rightarrow> epoch_state \<Rightarrow> bool" where
  "state_rel perm s st \<longleftrightarrow> fr_rep perm (es_running st) (hs_cm_leaves s)
     \<and> es_pot st = hs_pot s \<and> es_shielded st = hs_shielded_total s
     \<and> take_last root_window_const (es_recent_roots st) = hs_recent_roots s
     \<and> take_last (daa_window_const + 1) (es_daa_view st) = hs_daa_view s
     \<and> set (es_seen_nf st) \<subseteq> hs_nullifiers s \<and> distinct (es_seen_nf st)"

text \<open>
  The spend circuit's documented guarantee (\<^verbatim>\<open>engine/src/spend/monolith.rs\<close>: "nf0 and nf1 differ"): an accepted
  proof has two different nullifiers.
\<close>

definition verifier_separates :: "('h, 't) ext \<Rightarrow> bool" where
  "verifier_separates E \<longleftrightarrow> (\<forall>pf publics nf. x_spend_verify E pf publics \<longrightarrow>
     \<not> (digest_at publics pub_nf0 = Some nf \<and> digest_at publics pub_nf1 = Some nf))"

text \<open>The three header conditions the guest checks and the node does not.\<close>

definition header_linked :: "('h, 't) ext \<Rightarrow> epoch_witness \<Rightarrow> seam_header \<Rightarrow> nat \<Rightarrow> bool" where
  "header_linked E w tip i \<longleftrightarrow>
     (let block = ew_blocks w ! i; prev = ew_blocks w ! (i - 1) in
      (0 < i \<longrightarrow> sb_prev_header_id block = header_id (x_perm E) (ew_chain_id w) prev)
      \<and> sb_height block = (if i = 0 then sh_height tip else sb_height prev) + 1
      \<and> (if i = 0 then sh_timestamp_ms tip else sb_timestamp_ms prev) \<le> sb_timestamp_ms block)"

text \<open>The totals of the state and the block fit into 64 bits together.\<close>

definition no_overflow :: "hn_params \<Rightarrow> hn_state \<Rightarrow> hn_block \<Rightarrow> bool" where
  "no_overflow params s b \<longleftrightarrow>
     (let n = length (spend_txs b) in
      unat (hs_shielded_total s) + unat (hs_pot s) + 3 * n
        + sum_list (map (\<lambda>p. unat (pc_amount p) + unat (peg_fee params (pc_amount p))) (hb_pegins b))
        + sum_list (map (\<lambda>po. unat (pt_amount po) + unat (peg_fee params (pt_amount po))) (hb_pegouts b)) < 2 ^ 64)"

lemma take_last_snoc_cong:
  "take_last n xs = take_last n ys \<Longrightarrow> 0 < n \<Longrightarrow> take_last n (xs @ [x]) = take_last n (ys @ [x])"
  by (simp add: take_last_snoc)

lemma take_last_idem: "take_last n (take_last n xs) = take_last n xs"
  by (simp add: take_last_def)

lemma drop_take_last: "drop (length xs - n) xs = take_last n xs"
  by (simp add: take_last_def)

lemma spend_accept_facts:
  assumes reach: "hn_reach E params bs s" and app: "apply_block E s b = Inr (s', u)"
    and eco: "guest_economics params" and eb: "to_engine_block b = Some eb" and rel: "state_rel (x_perm E) s st"
    and sep: "verifier_separates E"
  shows "\<forall>sp \<in> set (spends_in_order eb). sp_fee sp = flat_fee_const
      \<and> sp_root sp \<in> set (drop (length (es_recent_roots st) - root_window_const) (es_recent_roots st))"
    "distinct (es_seen_nf st @ spend_keys (spends_in_order eb))"
proof -
  note parts = to_engine_block_parts [OF eb] and par = hn_reach_params [OF reach]
  note fresh = apply_block_fresh [OF app]
  have val: "\<exists>tx \<in> set (spend_txs b). \<exists>p nf0 nf1. engine_spend (tx_publics tx) = Some sp \<and> validate_tx E s tx p = Inr (nf0, nf1)"
    if "sp \<in> set (spends_in_order eb)" for sp
    using that parts(1) fresh(5) by (fastforce simp: list_all2_conv_all_nth in_set_conv_nth)
  show "\<forall>sp \<in> set (spends_in_order eb). sp_fee sp = flat_fee_const
      \<and> sp_root sp \<in> set (drop (length (es_recent_roots st) - root_window_const) (es_recent_roots st))"
  proof (intro ballI)
    fix sp assume "sp \<in> set (spends_in_order eb)"
    from val [OF this] obtain tx p nf0 nf1 where e: "engine_spend (tx_publics tx) = Some sp"
      and v: "validate_tx E s tx p = Inr (nf0, nf1)" by blast
    note v = validate_tx_ok [OF v] and e = engine_spend_ok [OF e]
    show "sp_fee sp = flat_fee_const
      \<and> sp_root sp \<in> set (drop (length (es_recent_roots st) - root_window_const) (es_recent_roots st))"
      unfolding drop_take_last
      using v(2,7) e(1,6) spend_fee_tx_fee [OF v(2)] rel eco
      by (auto simp: par state_rel_def guest_economics_def)
  qed
  have each: "distinct (tx_nfs tx)" if tx: "tx \<in> set (spend_txs b)" for tx
  proof -
    from fresh(5) tx obtain p nf0 nf1 where v: "validate_tx E s tx p = Inr (nf0, nf1)" by fastforce
    note v' = validate_tx_ok [OF v]
    have "nf0 \<noteq> nf1" using sep v'(3,4,8) unfolding verifier_separates_def by blast
    then show ?thesis
      using digest_to_limbs_inj [OF digest_at_wf [OF v'(3)] digest_at_wf [OF v'(4)]]
      by (simp add: v'(5) nf_key_def digest_to_limbs_def)
  qed
  have "sorted_wrt (\<lambda>t v. set (tx_nfs t) \<inter> set (tx_nfs v) = {}) txs \<Longrightarrow> \<forall>tx \<in> set txs. distinct (tx_nfs tx) \<Longrightarrow>
      distinct (concat (map tx_nfs txs))" for txs
    by (induction txs) auto
  from this [OF fresh(2)] each have "distinct (block_nfs b)" by (auto simp: block_nfs_def)
  moreover have "block_nfs b = spend_keys (spends_in_order eb)"
    using spends_concat(1) [OF parts(1)] by (simp add: block_nfs_def)
  ultimately show "distinct (es_seen_nf st @ spend_keys (spends_in_order eb))"
    using rel fresh(1) by (auto simp: state_rel_def)
qed

lemma to_engine_block_fields:
  assumes "to_engine_block b = Some eb"
  shows "sb_height eb = hb_height b" "sb_prev_root eb = limbs_to_digest (hb_prev_root b)"
    "sb_state_root eb = limbs_to_digest (hb_state_root b)" "sb_timestamp_ms eb = hb_timestamp_ms b"
    "sb_nbits eb = hb_nbits b" "sb_miner_owner eb = limbs_to_digest (hb_miner_owner b)"
    "sb_coinbase_amount eb = hb_coinbase_amount b" "sb_coinbase_cm eb = limbs_to_digest (hb_coinbase_cm b)"
    "sb_coinbase_is_reward eb = hb_coinbase_is_reward b" "sb_pot_after eb = hb_pot_after b"
    "sb_shielded_after eb = hb_shielded_after b"
  using assms by (auto simp: to_engine_block_def bind_eq_Some_conv)

lemma state_rel_root:
  assumes "hn_reach E params bs s" and "state_rel (x_perm E) s st"
    and "length (run_leaves (x_perm E) params bs) < 2 ^ depth"
  shows "fr_root (x_perm E) (es_running st) = hn_tip_root (x_perm E) s"
proof -
  have "fr_rep (x_perm E) (es_running st) (run_leaves (x_perm E) params bs)"
    using assms(2) hn_reach_leaves [OF assms(1)] by (simp add: state_rel_def)
  then show ?thesis
    using fr_root_rep assms(3) nt_root_rep [OF hn_reach_tree [OF assms(1)]] by (simp add: hn_tip_root_def)
qed

lemma header_accept:
  assumes reach: "hn_reach E params bs s" and app: "apply_block E s b = Inr (s', u)"
    and eco: "hn_daa params = pinned_daa_params E" and reward: "hb_coinbase_is_reward b"
    and eb: "to_engine_block b = Some (ew_blocks w ! i)" and rel: "state_rel (x_perm E) s st"
    and linked: "header_linked E w tip i"
    and cap: "length (run_leaves (x_perm E) params bs) < 2 ^ depth"
  shows "check_epoch_header E w tip st i = Inr ()"
proof -
  note h = check_header_ok [OF apply_block_fresh(7) [OF app]] and f = to_engine_block_fields [OF eb]
  have win: "daa_window (pinned_daa_params E) = daa_window_const" by (simp add: pinned_daa_params_def)
  have "guest_next_nbits E (pinned_daa_params E) (es_daa_view st) = expected_nbits E s"
  proof -
    have "next_nbits E (pinned_daa_params E) (es_daa_view st)
        = next_nbits E (pinned_daa_params E) (take_last (daa_window_const + 1) (es_daa_view st))"
    proof (cases "length (es_daa_view st) \<le> daa_window_const + 1")
      case False
      then have "daa_window (pinned_daa_params E) + 1 \<le> length (take_last (daa_window_const + 1) (es_daa_view st))"
        by (simp add: win length_take_last)
      with next_nbits_suffix [OF this] show ?thesis by (metis take_last_split)
    qed (simp add: take_last_all)
    then show ?thesis
      using rel eco by (simp add: guest_next_nbits_eq expected_nbits_def state_rel_def hn_reach_params [OF reach])
  qed
  moreover note linked [unfolded header_linked_def Let_def f]
  ultimately show ?thesis
    unfolding check_epoch_header_def Let_def f using reward h state_rel_root [OF reach rel cap]
    by (cases "i = 0") (auto simp: not_less)
qed

lemma sum_list_word_le: "unat (sum_list xs) \<le> sum_list (map unat xs)" for xs :: "u64 list"
proof (induction xs)
  case (Cons x xs)
  have "unat (x + sum_list xs) \<le> unat x + unat (sum_list xs)" by (simp add: unat_word_ariths)
  then show ?case using Cons by simp
qed simp

lemma reward_economics_raw:
  assumes "reward_economics s b pa ga = Inr (pot, shielded)"
  defines "n \<equiv> length (spend_txs b)"
  defines "fees \<equiv> hp_flat_fee (hs_params s) * of_nat n" and "cb \<equiv> coinbase_amount (hs_params s) (hs_pot s) n"
  shows "hb_coinbase_amount b = cb" "hb_pot_after b = pot"
    "pot = hs_pot s + fees + pa_fees pa + ga_fees ga - cb"
    "checked_sub (hs_shielded_total s + cb + (ga_inflow ga - ga_fees ga)) (fees + pa_burn_total pa) = Some shielded"
    "checked_sub (hs_shielded_total s + hs_pot s + ga_inflow ga) (pa_outflow pa) = Some (shielded + pot)"
  using assms(1)
  by (auto simp: reward_economics_def Let_def bind_r_eq_Inr ok_or_eq_Inr n_def fees_def cb_def spend_txs_def split: if_splits)

text \<open>The two value sections of the guest's block step accept, with the ledger's new totals.\<close>

lemma economics_accept:
  assumes reach: "hn_reach E params bs s" and app: "apply_block E s b = Inr (s', u)"
    and eco: "guest_economics params" and reward: "hb_coinbase_is_reward b"
    and eb: "to_engine_block b = Some eb" and fits: "no_overflow params s b"
  shows "\<exists>po gi. fold_r (epoch_pegout_step (x_perm E) i h)
      \<lparr> eo_outflow = 0, eo_fees = 0, eo_burn_total = 0, eo_withdrawals = ws, eo_records = rs \<rparr>
      (enumerate 0 (sb_pegouts eb)) = Inr po
    \<and> fold_r (epoch_pegin_step (x_perm E) i) \<lparr> ei_cms = [], ei_inflow = 0, ei_fees = 0 \<rparr> (sb_pegins eb) = Inr gi
    \<and> ei_cms gi = map (guest_pegin_cm (x_perm E)) (sb_pegins eb)
    \<and> epoch_economics i (hs_pot s) (hs_shielded_total s) eb po gi = Inr (hs_pot s', hs_shielded_total s')"
proof -
  let ?perm = "x_perm E"
  note parts = to_engine_block_parts [OF eb] and f = to_engine_block_fields [OF eb]
  note par = hn_reach_params [OF reach] and pfee = guest_peg_fee_eq [OF eco] and cbe = guest_coinbase_amount_eq [OF eco]
  from app obtain pa ga leaves pot shielded where
    pa: "pa_outflow pa = sum_list (map pt_amount (hb_pegouts b))"
      "pa_fees pa = sum_list (map (\<lambda>po. peg_fee (hs_params s) (pt_amount po)) (hb_pegouts b))"
      "pa_burn_total pa = sum_list (map (\<lambda>po. pt_amount po + peg_fee (hs_params s) (pt_amount po)) (hb_pegouts b))"
    and burns: "\<forall>po \<in> set (hb_pegouts b). burn_bound ?perm (hs_params s) po"
    and ga: "ga_inflow ga = sum_list (map pc_amount (hb_pegins b))"
      "ga_fees ga = sum_list (map (\<lambda>p. peg_fee (hs_params s) (pc_amount p)) (hb_pegins b))"
    and minted: "\<forall>p \<in> set (hb_pegins b). peg_fee (hs_params s) (pc_amount p) < pc_amount p"
    and econ: "(if hb_coinbase_is_reward b then reward_economics s b pa ga else genesis_economics s b) = Inr (pot, shielded)"
    and check: "check_commitments ?perm s b shielded leaves = Inr ()"
    and mut: "apply_mutation ?perm s b (block_nfs b) leaves pot shielded = Inr (s', u)"
    by (elim apply_blockE)
  from mut have tot: "hs_pot s' = pot" "hs_shielded_total s' = shielded" by (auto elim!: apply_mutationE)
  from econ reward have re: "reward_economics s b pa ga = Inr (pot, shielded)" by simp
  note re = reward_economics_raw [OF re]
  have "list_all2 (\<lambda>po epo. guest_burn_bound ?perm epo \<and> po_amount epo = pt_amount po) (hb_pegouts b) (sb_pegouts eb)"
    by (rule list.rel_mono_strong [OF parts(2)]) (use burns guest_burn_bound_eq [OF _ _ eco] par in blast)
  then have amts: "map po_amount (sb_pegouts eb) = map pt_amount (hb_pegouts b)"
    and bounds: "\<forall>po \<in> set (sb_pegouts eb). guest_burn_bound ?perm po"
    by (induction rule: list_all2_induct) simp_all
  have via: "map (\<lambda>po. g (po_amount po)) (sb_pegouts eb) = map (\<lambda>po. g (pt_amount po)) (hb_pegouts b)" for g :: "u64 \<Rightarrow> 'x"
    using arg_cong [OF amts, of "map g"] by (simp add: comp_def)
  have "map burn_nat (sb_pegouts eb) = map (\<lambda>po. unat (pt_amount po) + unat (guest_peg_fee (pt_amount po))) (hb_pegouts b)"
    unfolding burn_nat_def by (rule via)
  with fits have bfit: "sum_list (map burn_nat (sb_pegouts eb)) + 3 * length (spend_txs b) < 2 ^ 64"
    by (simp add: no_overflow_def Let_def pfee)
  obtain po where po: "fold_r (epoch_pegout_step ?perm i h)
      \<lparr> eo_outflow = 0, eo_fees = 0, eo_burn_total = 0, eo_withdrawals = ws, eo_records = rs \<rparr>
      (enumerate 0 (sb_pegouts eb)) = Inr po"
    and pov: "eo_outflow po = pa_outflow pa" "eo_fees po = pa_fees pa" "eo_burn_total po = pa_burn_total pa"
    and pou: "unat (eo_burn_total po) = sum_list (map burn_nat (sb_pegouts eb))"
      "unat (eo_fees po) = sum_list (map (\<lambda>po. unat (guest_peg_fee (pt_amount po))) (hb_pegouts b))"
    using epoch_pegouts_accept [OF bounds, of "\<lparr> eo_outflow = 0, eo_fees = 0, eo_burn_total = 0,
        eo_withdrawals = ws, eo_records = rs \<rparr>" i h 0] bfit
    by (auto simp: pa par pfee via [of "\<lambda>x. x"] via [of guest_peg_fee] via [of "\<lambda>a. unat (guest_peg_fee a)"]
        via [of "\<lambda>a. a + guest_peg_fee a"])
  have gam: "map (\<lambda>p. g (pi_amount p)) (sb_pegins eb) = map (\<lambda>p. g (pc_amount p)) (hb_pegins b)" for g :: "u64 \<Rightarrow> 'x"
    by (simp add: parts(3) engine_pegin_def)
  have gfit: "sum_list (map (\<lambda>p. unat (pi_amount p)) (sb_pegins eb)) < 2 ^ 64"
    using fits unfolding gam no_overflow_def Let_def by (simp add: sum_list_addf)
  have minted': "\<forall>p \<in> set (sb_pegins eb). guest_peg_fee (pi_amount p) < pi_amount p"
    using minted by (auto simp: parts(3) engine_pegin_def par pfee)
  obtain gi where gi: "fold_r (epoch_pegin_step ?perm i) \<lparr> ei_cms = [], ei_inflow = 0, ei_fees = 0 \<rparr> (sb_pegins eb) = Inr gi"
    and gic: "ei_cms gi = map (guest_pegin_cm ?perm) (sb_pegins eb)"
    and giv: "ei_inflow gi = ga_inflow ga" "ei_fees gi = ga_fees ga"
    and giu: "unat (ei_inflow gi) = sum_list (map (\<lambda>p. unat (pc_amount p)) (hb_pegins b))"
      "unat (ei_fees gi) = sum_list (map (\<lambda>p. unat (guest_peg_fee (pc_amount p))) (hb_pegins b))"
      "unat (ei_fees gi) \<le> unat (ei_inflow gi)"
    using epoch_pegins_accept [OF minted', of "\<lparr> ei_cms = [], ei_inflow = 0, ei_fees = 0 \<rparr>" ?perm i] gfit
    by (auto simp: ga par pfee gam [of "\<lambda>x. x"] gam [of guest_peg_fee] gam [of unat] gam [of "\<lambda>a. unat (guest_peg_fee a)"])
  have flat: "hp_flat_fee params = flat_fee_const" using eco by (simp add: guest_economics_def)
  note re' = re [unfolded par flat cbe, folded pov giv]
  have "epoch_economics i (hs_pot s) (hs_shielded_total s) eb po gi = Inr (pot, shielded)"
    unfolding re'(3)
  proof (rule epoch_economics_accept [OF parts(4) [symmetric]])
    show "sb_coinbase_amount eb = guest_coinbase_amount (hs_pot s) (length (spend_txs b))"
      using re'(1) by (simp add: f)
    show "unat (hs_shielded_total s) + unat (hs_pot s) + unat (ei_inflow gi) + 3 * length (spend_txs b)
        + unat (eo_fees po) + unat (ei_fees gi) < 2 ^ 64"
      using fits unfolding pou giu no_overflow_def Let_def pfee sum_list_addf by simp
    show "3 * length (spend_txs b) + unat (eo_burn_total po) < 2 ^ 64" using bfit pou(1) by simp
  qed (use re' f giu(3) check_commitments_ok(1) [OF check] in simp_all)
  with po gi gic show ?thesis by (auto simp: tot)
qed

lemma state_rel_step:
  assumes reach: "hn_reach E params bs s" and app: "apply_block E s b = Inr (s', u)"
    and eco: "guest_economics params" "hn_daa params = pinned_daa_params E"
    and eb: "to_engine_block b = Some eb" and perm: "perm_ok (x_perm E)" and rel: "state_rel (x_perm E) s st"
    and new: "fr_rep (x_perm E) (es_running st') (run_leaves (x_perm E) params (bs @ [b]))"
    and tot: "es_pot st' = hs_pot s'" "es_shielded st' = hs_shielded_total s'"
    and roots: "es_recent_roots st' = es_recent_roots st @ [sb_state_root eb]"
    and view: "es_daa_view st' = es_daa_view st @ [(sb_timestamp_ms eb, sb_nbits eb)]"
    and seen: "es_seen_nf st' = es_seen_nf st @ spend_keys (spends_in_order eb)" "distinct (es_seen_nf st')"
  shows "state_rel (x_perm E) s' st'"
proof -
  note f = to_engine_block_fields [OF eb] and par = hn_reach_params [OF reach] and eff = apply_block_effect [OF app]
  have w: "hp_root_window params = root_window_const" "hp_daa_window params = daa_window_const"
    using eco by (simp_all add: guest_economics_def hn_daa_def pinned_daa_params_def)
  have "nt_root (x_perm E) (hs_tree s') = sb_state_root eb"
    using nt_root_rep [OF hn_reach_tree [OF hn_reach.block [OF reach app]]]
      apply_block_state_root_digest [OF reach app perm] by (simp add: f)
  then have "hs_recent_roots s' = take_last root_window_const (es_recent_roots st @ [sb_state_root eb])"
    using push_root_window [of "s \<lparr> hs_tree := hs_tree s' \<rparr>" "es_recent_roots st" "x_perm E"] rel eff(4)
    by (simp add: state_rel_def par w root_window_const_def)
  moreover have "hs_daa_view s' = take_last (daa_window_const + 1) (es_daa_view st @ [(hb_timestamp_ms b, hb_nbits b)])"
    using push_daa_window [of s "es_daa_view st"] rel eff(5) by (simp add: state_rel_def par w)
  moreover have "block_nfs b = spend_keys (spends_in_order eb)"
    using spends_concat(1) [OF to_engine_block_parts(1) [OF eb]] by (simp add: block_nfs_def)
  moreover have "hs_cm_leaves s' = run_leaves (x_perm E) params (bs @ [b])"
    by (rule hn_reach_leaves [OF hn_reach.block [OF reach app]])
  ultimately show ?thesis
    using rel eff(2) new seen by (auto simp: state_rel_def tot roots view f)
qed

text \<open>
  C1: Node and guest agree. When the node's ledger accepts a reward block after any run, the
  guest, in the corresponding loop state, accepts the translated block and ends in the state
  corresponding to the new ledger state (tree, anchor window, difficulty view, totals, nullifiers).
  Needed are the guest's image constants, the three header conditions the node does not check
  (parent id, height, timestamp), totals that fit into 64 bits, a tree that is not full, and the
  spend circuit's guarantee of two different nullifiers per proof.
\<close>

theorem node_block_accepted_by_guest:
  assumes reach: "hn_reach E params bs s" and app: "apply_block E s b = Inr (s', u)"
    and eco: "guest_economics params" "hn_daa params = pinned_daa_params E" and perm: "perm_ok (x_perm E)"
    and sep: "verifier_separates E" and reward: "hb_coinbase_is_reward b"
    and eb: "to_engine_block b = Some (ew_blocks w ! i)" and rel: "state_rel (x_perm E) s st"
    and linked: "header_linked E w tip i" and height: "hb_height b = hs_height s"
    and fits: "no_overflow params s b"
    and cap: "length (run_leaves (x_perm E) params (bs @ [b])) < 2 ^ 32"
  shows "\<exists>st'. epoch_block_step E w tip st i = Inr st' \<and> state_rel (x_perm E) s' st'"
proof -
  let ?eb = "ew_blocks w ! i" and ?perm = "x_perm E"
  note f = to_engine_block_fields [OF eb] and par = hn_reach_params [OF reach]
  note reach' = hn_reach.block [OF reach app] and fresh = apply_block_fresh [OF app] and eff = apply_block_effect [OF app]
  note spends = spend_accept_facts [OF reach app eco(1) eb rel sep]
  have d: "(2 :: nat) ^ 32 = 2 ^ depth" by (simp add: depth_def)
  have cap0: "length (run_leaves ?perm params bs) < 2 ^ depth"
    using cap unfolding d by (simp add: run_leaves_def)
  note head = header_accept [OF reach app eco(2) reward eb rel linked cap0]
  obtain po gi where po: "fold_r (epoch_pegout_step ?perm i (sb_height ?eb))
      \<lparr> eo_outflow = 0, eo_fees = 0, eo_burn_total = 0, eo_withdrawals = es_withdrawals st,
        eo_records = es_pegout_records st \<rparr> (enumerate 0 (sb_pegouts ?eb)) = Inr po"
    and gi: "fold_r (epoch_pegin_step ?perm i) \<lparr> ei_cms = [], ei_inflow = 0, ei_fees = 0 \<rparr> (sb_pegins ?eb) = Inr gi"
      "ei_cms gi = map (guest_pegin_cm ?perm) (sb_pegins ?eb)"
    and econ: "epoch_economics i (es_pot st) (es_shielded st) ?eb po gi = Inr (hs_pot s', hs_shielded_total s')"
    using economics_accept [OF reach app eco(1) reward eb fits, of i "sb_height ?eb" "es_withdrawals st" "es_pegout_records st"]
      rel by (auto simp: state_rel_def)
  have "hn_tip_root ?perm s = limbs_to_digest (hb_prev_root b)" using check_header_ok(1) [OF fresh(7)] by simp
  then have cm: "coinbase_cm_expected ?perm (sb_miner_owner ?eb) (sb_coinbase_amount ?eb)
      (guest_block_id ?perm (sb_height ?eb) (sb_prev_root ?eb)) = sb_coinbase_cm ?eb"
    using wf_coinbase_cm [OF perm] apply_block_cm [OF app] height
    by (simp add: f mint_parity hn_block_id_def guest_block_id_def)
  have leaves: "epoch_leaves ?eb (ei_cms gi) = block_cms ?perm params b"
    using block_cms_eq [OF eb eco(1), of ?perm] gi(2) by (simp add: epoch_block_leaves_def)
  have old: "fr_rep ?perm (es_running st) (run_leaves ?perm params bs)"
    using rel hn_reach_leaves [OF reach] by (simp add: state_rel_def)
  have snoc: "run_leaves ?perm params (bs @ [b]) = run_leaves ?perm params bs @ block_cms ?perm params b"
    by (simp add: run_leaves_def)
  obtain running where run: "append_all (fr_append ?perm) (es_running st) (epoch_leaves ?eb (ei_cms gi)) = Some running"
    and new: "fr_rep ?perm running (run_leaves ?perm params (bs @ [b]))"
    using fr.append_all_fits [OF old, of "block_cms ?perm params b"] cap unfolding d leaves snoc by auto
  have root: "fr_root ?perm running = sb_state_root ?eb"
    using fr_root_rep [OF new cap [unfolded d]] apply_block_state_root_digest [OF reach app perm] by (simp add: f)
  let ?st = "\<lparr> es_running = running, es_pot = hs_pot s', es_shielded = hs_shielded_total s',
      es_recent_roots = es_recent_roots st @ [sb_state_root ?eb],
      es_daa_view = es_daa_view st @ [(sb_timestamp_ms ?eb, sb_nbits ?eb)],
      es_seen_nf = es_seen_nf st @ spend_keys (spends_in_order ?eb),
      es_all_spends = es_all_spends st @ spends_in_order ?eb, es_withdrawals = eo_withdrawals po,
      es_pegout_records = eo_records po \<rparr>"
  have step: "epoch_block_step E w tip st i = Inr ?st"
    by (simp add: epoch_block_step_def Let_def head epoch_spends_accept [OF spends] po gi(1) econ cm run root)
  moreover have "state_rel ?perm s' ?st"
    using rel new spends(2) root by (intro state_rel_step [OF reach app eco eb perm]) simp_all
  ultimately show ?thesis by blast
qed

end
