(* ===== verification/DemoChain.thy ===== *)
theory DemoChain
  imports GuestParity
begin

text \<open>
  A concrete instance of the environment, a concrete chain of three blocks (two genesis notes, then
  a reward block with a transaction, a peg-out and a peg-in) on the testnet parameters, and a
  concrete epoch of eleven blocks. They run through the definitions of the development and
  show that the hypotheses of its theorems are met by real runs. The permutation is constant:
  every hash of a non-empty input is the zero digest.
\<close>

section \<open>A degenerate hash\<close>

definition demo_perm :: perm where "demo_perm = (\<lambda>_. replicate 16 0)"
definition demo_zero :: digest where "demo_zero = replicate 8 0"

lemma demo_compress [simp]: "compress demo_perm l r = demo_zero"
  by (simp add: compress_def demo_perm_def demo_zero_def digest_elems_def)

lemma chunks_ne: "0 < k \<Longrightarrow> xs \<noteq> [] \<Longrightarrow> chunks k xs \<noteq> []"
  by (subst chunks.simps) auto

lemma fold_const: "ys \<noteq> [] \<Longrightarrow> fold (\<lambda>c s. k) ys s0 = k"
  by (induction ys arbitrary: s0) (simp, metis fold_simps(1) fold_simps(2))

lemma demo_hash [simp]: "xs \<noteq> [] \<Longrightarrow> hash_domain demo_perm tag xs = demo_zero"
  by (simp add: hash_domain_def demo_perm_def fold_const chunks_ne demo_zero_def digest_elems_def rate_def)

lemma demo_zeros [simp]: "zeros demo_perm h = demo_zero"
  by (cases h) (simp_all add: compress_self_def empty_leaf_def demo_zero_def)

lemma demo_perm_ok: "perm_ok demo_perm"
  by (simp add: perm_ok_def demo_perm_def width_def)

lemma demo_subroot: "subroot demo_perm f (Suc h) i = demo_zero"
  by simp

lemma demo_merkle_root [simp]: "merkle_root demo_perm ls = demo_zero"
proof -
  have d: "depth = Suc 31" by (simp add: depth_def)
  show ?thesis unfolding merkle_root_def d by (rule demo_subroot)
qed

lemma demo_fr_root [simp]: "fr_root demo_perm f = demo_zero"
proof -
  have *: "fst (fr_root_level demo_perm fl k s) = demo_zero" for fl k s
    by (cases s) simp
  have d: "depth = Suc 31" by (simp add: depth_def)
  show ?thesis unfolding fr_root_def d fold_upt_Suc by (rule *)
qed

lemma demo_fits: "length ls + length xs \<le> 100 \<Longrightarrow> length ls + length xs \<le> 2 ^ depth"
  by (simp add: depth_def)

section \<open>A concrete environment\<close>

definition demo_base :: "(nat, bytes) ext" where
  "demo_base =
     \<lparr> x_perm = demo_perm,
       x_spend_verify = (\<lambda>pf publics. digest_at publics pub_nf0 \<noteq> digest_at publics pub_nf1),
       x_blake2b256 = (\<lambda>bs. replicate 32 (last (0 # bs))),
       x_decode_bits = unat, x_encode_bits = of_nat, x_get_target = unat,
       x_check_pow = (\<lambda>msg nonce height version target. True),
       x_h_v2_nonce = (\<lambda>h. Some (replicate 8 0)), x_h_bytes_without_pow = (\<lambda>h. Some [of_nat h]),
       x_h_id = (\<lambda>h. Some (replicate 32 (of_nat h))), x_h_parent_id = (\<lambda>h. replicate 32 (of_nat (h - 1))),
       x_h_extension_root = (\<lambda>h. replicate 32 0), x_h_transactions_root = (\<lambda>h. replicate 32 0),
       x_h_height = of_nat, x_h_version = (\<lambda>h. 2), x_popow_verify = (\<lambda>pf root. False),
       x_read_header = (\<lambda>bs. case bs of [] \<Rightarrow> None | b # rest \<Rightarrow> Some (unat b, rest)),
       x_read_vlq_u64 = (\<lambda>bs. case bs of [] \<Rightarrow> None | b # rest \<Rightarrow> Some (ucast b, rest)),
       x_read_batch_proof = (\<lambda>bs. None), x_decode_frontier = (\<lambda>bs. fr_from_leaves demo_perm []),
       x_read_tx = (\<lambda>bs. Some (bs, [])), x_tx_id = (\<lambda>tx. Some (replicate 32 0)),
       x_tx_leaf = (\<lambda>txid. replicate 32 0),
       x_tx_outputs = (\<lambda>tx. [\<lparr> xo_tree = [1], xo_tokens = [([2], 1000)], xo_r4 = Some (replicate 64 0) \<rparr>]),
       x_box_id = (\<lambda>tx i. Some (replicate 32 9)) \<rparr>"

definition demo :: "(nat, bytes) ext" where
  "demo = demo_base \<lparr> x_popow_verify := verify_batch_merkle_proof demo_base \<rparr>"

lemma demo_fields [simp]:
  "x_perm demo = demo_perm"
  "x_spend_verify demo pf publics \<longleftrightarrow> digest_at publics pub_nf0 \<noteq> digest_at publics pub_nf1"
  "x_blake2b256 demo bs = replicate 32 (last (0 # bs))"
  "x_decode_bits demo = unat" "x_encode_bits demo = of_nat" "x_get_target demo = unat"
  "x_check_pow demo msg nonce height version target"
  "x_h_v2_nonce demo h = Some (replicate 8 0)" "x_h_bytes_without_pow demo h = Some [of_nat h]"
  "x_h_id demo h = Some (replicate 32 (of_nat h))" "x_h_parent_id demo h = replicate 32 (of_nat (h - 1))"
  "x_h_extension_root demo h = replicate 32 0" "x_h_transactions_root demo h = replicate 32 0"
  "x_popow_verify demo = verify_batch_merkle_proof demo_base"
  "x_decode_frontier demo fb = fr_from_leaves demo_perm []"
  "x_read_tx demo tb = Some (tb, [])" "x_tx_id demo tx = Some (replicate 32 0)"
  "x_tx_leaf demo txid = replicate 32 0"
  "x_tx_outputs demo tx = [\<lparr> xo_tree = [1], xo_tokens = [([2], 1000)], xo_r4 = Some (replicate 64 0) \<rparr>]"
  "x_box_id demo tx i = Some (replicate 32 9)"
  by (simp_all add: demo_def demo_base_def)

lemma demo_hashes:
  "internal_hash_pair demo = internal_hash_pair demo_base"
  "combine_with_proof_entry demo = combine_with_proof_entry demo_base"
  by (simp_all add: fun_eq_iff internal_hash_pair_def combine_with_proof_entry_def
      internal_hash_left_only_def demo_def split: option.splits side.splits)

lemma demo_reduce_level: "reduce_level demo e m = reduce_level demo_base e m"
  by (induction demo e m rule: reduce_level.induct) (simp_all add: demo_hashes split: list.splits)

lemma demo_loop_reduce: "loop_reduce demo e m = loop_reduce demo_base e m"
proof (induction demo e m rule: loop_reduce.induct)
  case (1 e m)
  then show ?case
    by (subst (1 2) loop_reduce.simps) (auto simp: demo_reduce_level Let_def split: option.splits)
qed

lemma demo_popow: "x_popow_verify demo = verify_batch_merkle_proof demo"
  by (intro ext) (simp add: verify_batch_merkle_proof_def [of demo] verify_batch_merkle_proof_def [of demo_base]
      demo_loop_reduce)

definition demo_proof :: batch_proof where
  "demo_proof = \<lparr> bp_indices = [(0, replicate 32 0)], bp_proofs = [\<lparr> pe_digest = None, pe_side = SideRight \<rparr>] \<rparr>"

lemma demo_proof_ok: "verify_batch_merkle_proof demo demo_proof (replicate 32 0)"
  by (simp add: verify_batch_merkle_proof_def demo_proof_def loop_reduce.simps combine_with_proof_entry_def
      internal_hash_left_only_def)

section \<open>A concrete chain\<close>

definition demo_address :: hn_address where
  "demo_address = \<lparr> ad_owner = demo_zero, ad_enc_pk = replicate 32 0 \<rparr>"

definition demo_params :: hn_params where
  "demo_params = hn_testnet demo demo_address"

lemma demo_params_simps [simp]:
  "hp_flat_fee demo_params = 3" "hp_coinbase_base demo_params = 1" "hp_coinbase_per_tx demo_params = 1"
  "hp_genesis_pot demo_params = 1000000" "hp_root_window demo_params = 100"
  "hp_genesis demo_params = [(demo_address, 500000000), (demo_address, 500000000)]"
  "hp_peg_fee_percent demo_params = 1" "hp_min_nbits demo_params = 1" "hp_daa_window demo_params = 90"
  "hp_require_aux_pow demo_params = False"
  by (simp_all add: demo_params_def hn_testnet_def hn_flat_fee_def hn_coinbase_base_def hn_coinbase_per_tx_def
      testnet_genesis_pot_def wallet_root_window_def hn_daa_window_def)

definition demo_tx :: "u32 \<Rightarrow> hn_tx" where
  "demo_tx k = \<lparr> tx_proof = [],
     tx_publics = replicate 8 0 @ replicate 8 k @ replicate 8 (k + 1) @ replicate 16 0 @ [3, 0, 0, 0],
     tx_ct0 = replicate 152 0, tx_ct1 = replicate 152 0 \<rparr>"

definition demo_block :: "u64 \<Rightarrow> hn_block" where
  "demo_block h = \<lparr> hb_height = h, hb_prev_root = replicate 8 0, hb_prev_header_id = replicate 32 0,
     hb_state_root = replicate 8 0, hb_timestamp_ms = 1000 * h, hb_nbits = 1, hb_txs = [],
     hb_pegouts = [], hb_pegins = [], hb_miner_owner = replicate 8 0, hb_coinbase_amount = 500000000,
     hb_coinbase_cm = replicate 8 0, hb_coinbase_ct = replicate 152 0, hb_coinbase_is_reward = False,
     hb_pot_after = 1000000, hb_shielded_after = 500000000 * (h + 1), hb_anchor = genesis_anchor,
     hb_aux_pow = None \<rparr>"

definition demo_reward_block :: hn_block where
  "demo_reward_block = (demo_block 2) \<lparr> hb_txs := [demo_tx 1],
     hb_pegouts := [\<lparr> pt_tx = demo_tx 3, pt_amount = 100, pt_recipient = [7] \<rparr>],
     hb_pegins := [\<lparr> pc_box_id = replicate 32 9, pc_dest_owner = replicate 8 0,
       pc_dest_enc_pk = replicate 32 0, pc_amount = 1000, pc_ciphertext = replicate 152 0 \<rparr>],
     hb_coinbase_amount := 3, hb_coinbase_is_reward := True, hb_pot_after := 1000014,
     hb_shielded_after := 1000000886 \<rparr>"

lemma digest_at_demo [simp]:
  "digest_at (tx_publics (demo_tx k)) pub_root = Some demo_zero"
  "digest_at (tx_publics (demo_tx k)) pub_nf0 = Some (replicate 8 (f_of_u32 k))"
  "digest_at (tx_publics (demo_tx k)) pub_nf1 = Some (replicate 8 (f_of_u32 (k + 1)))"
  "digest_at (tx_publics (demo_tx k)) pub_cmo0 = Some demo_zero"
  "digest_at (tx_publics (demo_tx k)) pub_cmo1 = Some demo_zero"
  by (simp_all add: digest_at_def demo_tx_def pub_root_def pub_nf0_def pub_nf1_def pub_cmo0_def pub_cmo1_def
      demo_zero_def f_of_u32_def)

lemma length_demo_tx [simp]: "length (tx_publics (demo_tx k)) = n_pub"
  "length (tx_ct0 (demo_tx k)) = note_ct_bytes" "length (tx_ct1 (demo_tx k)) = note_ct_bytes"
  by (simp_all add: demo_tx_def n_pub_def note_ct_bytes_def)

lemma demo_keys [simp]: "as_canonical_u32 (f_of_u32 0) = 0" "as_canonical_u32 (f_of_u32 1) = 1" "as_canonical_u32 (f_of_u32 2) = 2"
  "as_canonical_u32 (f_of_u32 3) = 3" "as_canonical_u32 (f_of_u32 4) = 4"
  by (simp_all add: as_canonical_f_of_u32 babybear_p_def)

lemma tx_fee_demo [simp]: "tx_fee (demo_tx k) = Inr (Some 3)"
  by (simp add: tx_fee_def demo_tx_def pub_fee_def n_limbs_def limbs_to_u64_def
      Let_def limb_bound_def limb_bits_def)

lemma demo_flat: "digest_to_limbs demo_zero = replicate 8 0" "limbs_to_digest (replicate 8 0) = demo_zero"
  "replicate 8 0 = demo_zero"
  by (simp_all add: digest_to_limbs_def limbs_to_digest_def demo_zero_def as_canonical_u32_def f_of_u32_def)

lemma demo_nf_key [simp]: "nf_key (replicate 8 (f_of_u32 k)) = replicate 8 (as_canonical_u32 (f_of_u32 k))"
  by (simp add: nf_key_def)

lemma demo_nbits [simp]: "length view \<le> 90 \<Longrightarrow> next_nbits demo (hn_daa demo_params) view = Some 1"
  by (simp add: next_nbits_def hn_daa_def Let_def)

lemma demo_notes [simp]:
  "note_commitment demo_perm v owner rho r = demo_zero"
  "burn_cm_expected demo_perm v nf0 recipient amount = demo_zero"
  "coinbase_cm_expected demo_perm owner amount ident = demo_zero"
  "pegmint_cm_expected demo_perm owner amount ident = demo_zero"
proof -
  show *: "note_commitment demo_perm v owner rho r = demo_zero" for v owner rho r
    by (simp add: note_commitment_def commitment_blocks_def value_limbs_def n_limbs_def)
  show "burn_cm_expected demo_perm v nf0 recipient amount = demo_zero"
    "coinbase_cm_expected demo_perm owner amount ident = demo_zero"
    "pegmint_cm_expected demo_perm owner amount ident = demo_zero"
    by (simp_all add: burn_cm_expected_def coinbase_cm_expected_def pegmint_cm_expected_def * split: prod.splits)
qed

lemma demo_step:
  assumes "check_header demo s b = Inr ()" and "length (hs_cm_leaves s) \<le> 50" and "tree_inv demo_perm s"
    and "fold_r (validate_txs_step demo s) [] (hb_txs b) = Inr nfs"
    and "fold_r (validate_pegouts_step demo s)
         \<lparr> pa_nfs = nfs, pa_outflow = 0, pa_fees = 0, pa_burn_total = 0 \<rparr> (hb_pegouts b) = Inr pa"
    and "fold_r (validate_pegins_step demo_perm s)
         \<lparr> ga_in_block = [], ga_cms = [], ga_inflow = 0, ga_fees = 0 \<rparr> (hb_pegins b) = Inr ga"
    and "(if hb_coinbase_is_reward b then reward_economics s b pa ga else genesis_economics s b)
      = Inr (pot, hb_shielded_after b)"
    and "block_leaves b (ga_cms ga) = Inr leaves" and "length leaves \<le> 10"
    and "hb_coinbase_cm b = replicate 8 0" "hb_state_root b = replicate 8 0"
    and "block_withdrawals s b = Inr ws"
  obtains s' u where "apply_block demo s b = Inr (s', u)"
    and "hs_nullifiers s' = hs_nullifiers s \<union> set (pa_nfs pa)"
    and "hs_cm_leaves s' = hs_cm_leaves s @ map fst leaves"
    and "hs_recent_roots s' = fst (push_root demo_perm (s \<lparr> hs_tree := hs_tree s' \<rparr>))"
    and "hs_height s' = hs_height s + 1" and "hs_anchor_height s' = an_height (hb_anchor b)"
    and "hs_daa_view s' = fst (push_daa s (hb_timestamp_ms b, hb_nbits b))"
    and "hs_pot s' = pot" and "hs_shielded_total s' = hb_shielded_after b"
    and "hs_used_pegins s' = hs_used_pegins s \<union> set (map pc_box_id (hb_pegins b))"
    and "hs_withdrawals s' = hs_withdrawals s @ ws"
    and "hs_params s' = hs_params s" and "tree_inv demo_perm s'" and "nt_root demo_perm (hs_tree s') = demo_zero"
proof -
  have rep: "nt_rep demo_perm t ls" if "append_all (nt_append demo_perm) nt_new ls = Some t" for t ls
    using nt.append_all_SomeD [OF nt_rep_new that] by simp
  have root: "nt_root demo_perm t = demo_zero" if "append_all (nt_append demo_perm) nt_new ls = Some t" for t ls
    using nt_root_rep [OF rep [OF that]] by simp
  have inv: "append_all (nt_append demo_perm) nt_new (hs_cm_leaves s) = Some (hs_tree s)"
    using assms(3) by (simp add: tree_inv_def rebuild_def)
  have "length (hs_cm_leaves s) + length (map fst leaves) \<le> 2 ^ depth"
    using assms(2,9) by (simp add: depth_def)
  from nt.append_all_fits [OF rep [OF inv] this] obtain tree
    where tree: "append_all (nt_append demo_perm) (hs_tree s) (map fst leaves) = Some tree" by blast
  then have full: "append_all (nt_append demo_perm) nt_new (hs_cm_leaves s @ map fst leaves) = Some tree"
    by (simp add: append_all_append inv)
  have com: "check_commitments (x_perm demo) s b (hb_shielded_after b) leaves = Inr ()"
    using tree root [OF full] assms(10,11)
    by (simp add: check_commitments_def mint_parity Let_def simulate_state_root_def demo_flat)
  show thesis
    by (rule apply_block_accept [OF assms(1,4,5) _ assms(7,8) com _ assms(12)])
      (use assms(6) tree that full root [OF full] in \<open>auto simp: tree_inv_def rebuild_def\<close>)
qed


section \<open>The concrete run\<close>

lemma demo_check_header:
  assumes "nt_root demo_perm (hs_tree s) = demo_zero" and "hb_prev_root b = replicate 8 0"
    and "an_height (hb_anchor b) = 0" "hs_anchor_height s = 0" "hs_params s = demo_params"
    and "length (hs_daa_view s) \<le> 90" "hb_nbits b = 1" "length (hb_coinbase_ct b) = note_ct_bytes"
  shows "check_header demo s b = Inr ()"
  using assms by (simp add: check_header_def hn_tip_root_def demo_flat expected_nbits_def check_aux_pow_def)

lemmas demo_push = push_root_def push_daa_def Let_def

lemma demo_block_simps [simp]:
  "hb_prev_root (demo_block h) = replicate 8 0" "hb_state_root (demo_block h) = replicate 8 0"
  "hb_timestamp_ms (demo_block h) = 1000 * h" "hb_nbits (demo_block h) = 1" "hb_txs (demo_block h) = []"
  "hb_pegouts (demo_block h) = []" "hb_pegins (demo_block h) = []"
  "hb_miner_owner (demo_block h) = replicate 8 0" "hb_coinbase_amount (demo_block h) = 500000000"
  "hb_coinbase_cm (demo_block h) = replicate 8 0" "hb_coinbase_ct (demo_block h) = replicate 152 0"
  "\<not> hb_coinbase_is_reward (demo_block h)" "hb_pot_after (demo_block h) = 1000000"
  "hb_shielded_after (demo_block h) = 500000000 * (h + 1)" "an_height (hb_anchor (demo_block h)) = 0"
  by (simp_all add: demo_block_def genesis_anchor_def)

lemma demo_new_simps [simp]:
  "hs_cm_leaves (hn_new perm params) = []" "hs_tree (hn_new perm params) = nt_new"
  "hs_nullifiers (hn_new perm params) = {}" "hs_recent_roots (hn_new perm params) = [nt_root perm nt_new]"
  "hs_height (hn_new perm params) = 0" "hs_anchor_height (hn_new perm params) = 0"
  "hs_daa_view (hn_new perm params) = []" "hs_pot (hn_new perm params) = hp_genesis_pot params"
  "hs_shielded_total (hn_new perm params) = 0" "hs_used_pegins (hn_new perm params) = {}"
  "hs_withdrawals (hn_new perm params) = []" "hs_params (hn_new perm params) = params"
  by (simp_all add: hn_new_def)

lemma demo_new_root [simp]: "nt_root demo_perm nt_new = demo_zero"
  using nt_root_rep [OF nt_rep_new] by simp

text \<open>What the ledger state is after the first \<open>n\<close> genesis blocks of the concrete run.\<close>

definition demo_at :: "nat \<Rightarrow> hn_state \<Rightarrow> bool" where
  "demo_at n s \<longleftrightarrow> hs_nullifiers s = {} \<and> hs_cm_leaves s = replicate n demo_zero
     \<and> hs_recent_roots s = replicate (n + 1) demo_zero \<and> hs_height s = of_nat n \<and> hs_anchor_height s = 0
     \<and> length (hs_daa_view s) = n \<and> hs_pot s = 1000000 \<and> hs_shielded_total s = 500000000 * of_nat n
     \<and> hs_used_pegins s = {} \<and> hs_withdrawals s = [] \<and> hs_params s = demo_params
     \<and> tree_inv demo_perm s \<and> nt_root demo_perm (hs_tree s) = demo_zero"

lemma demo_at_0: "demo_at 0 (hn_new demo_perm demo_params)"
  by (simp add: demo_at_def tree_inv_new)

lemma demo_genesis_step:
  assumes "demo_at n s" and "n < 2"
  obtains s' u where "apply_block demo s (demo_block (of_nat n)) = Inr (s', u)" "demo_at (Suc n) s'"
proof -
  have n: "n = 0 \<or> n = 1" using assms(2) by auto
  have gen: "genesis_economics s (demo_block (of_nat n)) = Inr (1000000, hb_shielded_after (demo_block (of_nat n)))"
    using assms n by (auto simp: demo_at_def genesis_economics_def demo_address_def demo_flat)
  have hdr: "check_header demo s (demo_block (of_nat n)) = Inr ()"
    using assms by (intro demo_check_header) (auto simp: demo_at_def note_ct_bytes_def)
  have leaves: "block_leaves (demo_block h) [] = Inr [(demo_zero, replicate 152 0, False)]" for h
    by (simp add: block_leaves_def spend_txs_def demo_flat)
  have ws: "block_withdrawals s (demo_block h) = Inr []" for h
    by (simp add: block_withdrawals_def)
  show thesis
    by (rule demo_step [of s "demo_block (of_nat n)" "[]" "\<lparr> pa_nfs = [], pa_outflow = 0, pa_fees = 0, pa_burn_total = 0 \<rparr>"
          "\<lparr> ga_in_block = [], ga_cms = [], ga_inflow = 0, ga_fees = 0 \<rparr>" 1000000
          "[(demo_zero, replicate 152 0, False)]" "[]"])
      (use that hdr gen leaves ws assms n in \<open>auto simp: demo_at_def demo_push eval_nat_numeral replicate_append_same\<close>)
qed


lemma demo_key_simps [simp]:
  "tx_nfs (demo_tx 1) = [replicate 8 1, replicate 8 2]" "tx_nfs (demo_tx 3) = [replicate 8 3, replicate 8 4]"
  by (simp_all add: tx_nfs_def)

lemma demo_nf_ne: "replicate 8 (f_of_u32 1) \<noteq> replicate 8 (f_of_u32 2)"
  "replicate 8 (f_of_u32 3) \<noteq> replicate 8 (f_of_u32 4)"
  by (simp_all add: f_of_u32_def babybear_p_def)

lemma demo_reward_step:
  assumes "demo_at 2 s"
  obtains s' u where "apply_block demo s demo_reward_block = Inr (s', u)"
    and "hs_nullifiers s' = {replicate 8 1, replicate 8 2, replicate 8 3, replicate 8 4}"
    and "hs_height s' = 3" "hs_pot s' = 1000014" "hs_shielded_total s' = 1000000886"
    and "hs_used_pegins s' = {replicate 32 9}"
    and "hs_withdrawals s' = [\<lparr> wd_nf0 = replicate 8 3, wd_amount = 100, wd_recipient = [7], wd_height = 2 \<rparr>]"
    and "length (hs_cm_leaves s') = 8"
proof -
  let ?b = demo_reward_block
  let ?pa = "\<lparr> pa_nfs = [replicate 8 1, replicate 8 2, replicate 8 3, replicate 8 4], pa_outflow = 100,
     pa_fees = 1, pa_burn_total = 101 \<rparr>"
  let ?ga = "\<lparr> ga_in_block = [replicate 32 9], ga_cms = [demo_zero], ga_inflow = 1000, ga_fees = 10 \<rparr>"
  have s: "hs_nullifiers s = {}" "demo_zero \<in> set (hs_recent_roots s)" "hs_params s = demo_params" "hs_height s = 2"
    "hs_pot s = 1000000" "hs_shielded_total s = 1000000000" "hs_used_pegins s = {}" "hs_withdrawals s = []"
    "hs_cm_leaves s = replicate 2 demo_zero" "tree_inv demo_perm s" "nt_root demo_perm (hs_tree s) = demo_zero"
    "length (hs_daa_view s) = 2" "hs_anchor_height s = 0"
    using assms by (auto simp: demo_at_def)
  have hdr: "check_header demo s ?b = Inr ()"
    by (rule demo_check_header) (simp_all add: s demo_reward_block_def note_ct_bytes_def)
  have txs: "fold_r (validate_txs_step demo s) [] (hb_txs ?b) = Inr [replicate 8 1, replicate 8 2]"
    using demo_nf_ne by (simp add: demo_reward_block_def validate_txs_step_def validate_tx_def s pub_digest_def)
  have fee: "peg_fee demo_params 100 = 1" "peg_fee demo_params 1000 = 10"
    by (simp_all add: peg_fee_def saturating_mul_def max_def word_le_nat_alt)
  have pos: "fold_r (validate_pegouts_step demo s) \<lparr> pa_nfs = [replicate 8 1, replicate 8 2], pa_outflow = 0, pa_fees = 0,
      pa_burn_total = 0 \<rparr> (hb_pegouts ?b) = Inr ?pa"
    using demo_nf_ne
    by (simp add: demo_reward_block_def validate_pegouts_step_def validate_tx_def s pub_digest_def fee
        checked_add_def)
  have pis: "fold_r (validate_pegins_step demo_perm s) \<lparr> ga_in_block = [], ga_cms = [], ga_inflow = 0, ga_fees = 0 \<rparr>
      (hb_pegins ?b) = Inr ?ga"
    by (simp add: demo_reward_block_def validate_pegins_step_def s fee checked_sub_def note_ct_bytes_def mint_parity)
  have eco: "reward_economics s ?b ?pa ?ga = Inr (1000014, 1000000886)"
    by (simp add: reward_economics_def s demo_reward_block_def Let_def coinbase_amount_def saturating_add_def
        saturating_mul_def min_def checked_sub_def)
  let ?leaves = "[(demo_zero, replicate 152 0, False), (demo_zero, replicate 152 0, False),
      (demo_zero, replicate 152 0, False), (demo_zero, replicate 152 0, False),
      (demo_zero, replicate 152 0, False), (demo_zero, replicate 152 0, True)]"
  let ?ws = "[\<lparr> wd_nf0 = replicate 8 3, wd_amount = 100, wd_recipient = [7], wd_height = 2 \<rparr>]"
  have leaves: "block_leaves ?b (ga_cms ?ga) = Inr ?leaves"
    by (simp add: demo_reward_block_def block_leaves_def spend_txs_def spend_leaves_step_def pub_digest_def
        demo_flat) (simp add: demo_tx_def)
  have ws: "block_withdrawals s ?b = Inr ?ws"
    by (simp add: demo_reward_block_def block_withdrawals_def pub_digest_def digest_to_limbs_def s)
  have b: "hb_coinbase_cm ?b = replicate 8 0" "hb_state_root ?b = replicate 8 0" "hb_coinbase_is_reward ?b"
    "hb_shielded_after ?b = 1000000886" "map pc_box_id (hb_pegins ?b) = [replicate 32 9]"
    by (simp_all add: demo_reward_block_def)
  show thesis
    by (rule demo_step [OF hdr _ s(10) txs pos pis _ leaves _ b(1,2) ws, of 1000014])
      (use that eco b s in auto)
qed

definition demo_chain :: "hn_block list" where
  "demo_chain = [demo_block 0, demo_block 1, demo_reward_block]"

lemma demo_genesis_ex:
  "demo_at n s \<Longrightarrow> n < 2 \<Longrightarrow> h = of_nat n \<Longrightarrow> m = Suc n \<Longrightarrow>
    \<exists>s' u. apply_block demo s (demo_block h) = Inr (s', u) \<and> demo_at m s'"
  using demo_genesis_step by metis

lemma demo_run:
  obtains s s' u where "hn_reach demo demo_params [demo_block 0, demo_block 1] s" "demo_at 2 s"
    and "apply_block demo s demo_reward_block = Inr (s', u)" and "hn_reach demo demo_params demo_chain s'"
proof -
  have r0: "hn_reach demo demo_params [] (hn_new demo_perm demo_params)"
    using hn_reach.genesis [of demo demo_params] by simp
  obtain s1 u1 where s1: "apply_block demo (hn_new demo_perm demo_params) (demo_block 0) = Inr (s1, u1)" "demo_at 1 s1"
    using demo_genesis_ex [OF demo_at_0, of 0 1] by force
  obtain s2 u2 where s2: "apply_block demo s1 (demo_block 1) = Inr (s2, u2)" "demo_at 2 s2"
    using demo_genesis_ex [OF s1(2), of 1 2] by force
  obtain s3 u3 where s3: "apply_block demo s2 demo_reward_block = Inr (s3, u3)"
    by (rule demo_reward_step [OF s2(2)])
  from hn_reach.block [OF r0 s1(1)] have r1: "hn_reach demo demo_params [demo_block 0] s1" by (simp only: append.simps)
  from hn_reach.block [OF r1 s2(1)] have r2: "hn_reach demo demo_params [demo_block 0, demo_block 1] s2" by (simp only: append.simps)
  from hn_reach.block [OF r2 s3] have "hn_reach demo demo_params demo_chain s3" by (simp only: append.simps demo_chain_def)
  with that r2 s2(2) s3 show thesis by blast
qed

section \<open>A concrete epoch\<close>

definition demo_spend :: "nat \<Rightarrow> spend_publics" where
  "demo_spend k = \<lparr> sp_root = demo_zero, sp_nf0 = replicate 8 k, sp_nf1 = replicate 8 (k + 1),
     sp_cm0 = demo_zero, sp_cm1 = demo_zero, sp_fee = 3 \<rparr>"

lemma demo_spend_simps [simp]:
  "sp_root (demo_spend k) = demo_zero" "sp_nf0 (demo_spend k) = replicate 8 k"
  "sp_nf1 (demo_spend k) = replicate 8 (k + 1)" "sp_cm0 (demo_spend k) = demo_zero"
  "sp_cm1 (demo_spend k) = demo_zero" "sp_fee (demo_spend k) = 3"
  by (simp_all add: demo_spend_def)

text \<open>The first block carries a transaction, a peg-out and a peg-in; ten empty blocks bury it.\<close>

definition demo_epoch_block :: "nat \<Rightarrow> suffix_block" where
  "demo_epoch_block i =
     \<lparr> sb_height = of_nat (i + 2), sb_prev_header_id = replicate 32 0, sb_prev_root = demo_zero,
       sb_state_root = demo_zero, sb_timestamp_ms = 2000, sb_nbits = 1,
       sb_txs = (if i = 0 then [demo_spend 1] else []),
       sb_pegouts = (if i = 0 then [\<lparr> po_spend = demo_spend 3, po_amount = 100, po_recipient = [7] \<rparr>] else []),
       sb_pegins = (if i = 0 then [\<lparr> pi_box_id = replicate 32 9, pi_dest_owner = demo_zero, pi_amount = 1000 \<rparr>] else []),
       sb_miner_owner = demo_zero, sb_coinbase_amount = (if i = 0 then 3 else 1), sb_coinbase_cm = demo_zero,
       sb_coinbase_is_reward = True, sb_pot_after = of_nat (1000014 - i),
       sb_shielded_after = of_nat (1000000886 + i) \<rparr>"

definition demo_seam :: seam_header where
  "demo_seam =
     \<lparr> sh_height = 1, sh_prev_header_id = genesis_header_id, sh_prev_root = demo_zero,
       sh_state_root = demo_zero, sh_timestamp_ms = 1000, sh_nbits = 1, sh_miner_owner = demo_zero,
       sh_coinbase_amount = 500000000, sh_coinbase_cm = demo_zero, sh_coinbase_is_reward = False,
       sh_pot_after = 1000000, sh_shielded_after = 1000000000, sh_body_cm = demo_zero \<rparr>"

definition demo_epoch :: epoch_witness where
  "demo_epoch =
     \<lparr> ew_chain_id = hn_testnet_chain_id, ew_blocks = map demo_epoch_block [0..<11], ew_frontier_bytes = [],
       ew_tip_id_prev = replicate 32 0, ew_seam = [demo_seam],
       ew_settled_root_in = settled_root demo_perm settled_new,
       ew_settled_paths = replicate 4 (replicate settled_depth demo_zero),
       ew_spend_root_digest = epoch_spend_root demo_perm [demo_spend 1, demo_spend 3],
       ew_ergo_ref_id = replicate 32 0, ew_counter_next = 1 \<rparr>"

lemma demo_header_id [simp]: "header_id_from_fields demo_perm cid h = replicate 32 0"
proof -
  have "header_preimage cid h \<noteq> []" by (simp add: header_preimage_def push_u32_def)
  then show ?thesis
    by (simp add: header_id_from_fields_def digest_to_bytes_def demo_zero_def as_canonical_u32_def to_le32_def
        map_replicate_const eval_nat_numeral)
qed

lemma demo_header_id' [simp]: "header_id demo_perm cid b = replicate 32 0"
  by (simp add: header_id_def)

lemma demo_guest_nbits [simp]:
  "length view \<le> 90 \<Longrightarrow> guest_next_nbits demo (pinned_daa_params demo) view = Some 1"
  by (simp add: guest_next_nbits_def pinned_daa_params_def daa_window_const_def Let_def)

definition demo_es :: "nat \<Rightarrow> epoch_state \<Rightarrow> bool" where
  "demo_es i st \<longleftrightarrow> es_pot st = of_nat (1000015 - i) \<and> es_shielded st = of_nat (1000000885 + i)
     \<and> es_recent_roots st = replicate (i + 2) demo_zero \<and> length (es_daa_view st) = i + 1
     \<and> es_all_spends st = [demo_spend 1, demo_spend 3]
     \<and> es_pegout_records st = [(replicate 8 3, 2)]
     \<and> (\<exists>ls. fr_rep demo_perm (es_running st) ls \<and> length ls \<le> 10 + i)"

lemma demo_next_block [simp]: "i < 11 \<Longrightarrow> ew_blocks demo_epoch ! i = demo_epoch_block i"
  by (simp add: demo_epoch_def)

lemma demo_leaves_ok:
  assumes "fr_rep demo_perm f ls" and "length ls \<le> 100" and "length xs \<le> 10"
  obtains f' where "append_all (fr_append demo_perm) f xs = Some f'" "fr_rep demo_perm f' (ls @ xs)"
proof -
  have "length ls + length xs \<le> 2 ^ depth" using assms by (simp add: depth_def)
  from fr.append_all_fits [OF assms(1) this] that show thesis by blast
qed

lemma demo_economics:
  "list_all (\<lambda>i. epoch_economics (Suc i) (of_nat (1000015 - Suc i)) (of_nat (1000000885 + Suc i))
      (demo_epoch_block (Suc i))
      \<lparr> eo_outflow = 0, eo_fees = 0, eo_burn_total = 0, eo_withdrawals = ws, eo_records = rs \<rparr>
      \<lparr> ei_cms = [], ei_inflow = 0, ei_fees = 0 \<rparr>
    = Inr (of_nat (1000014 - Suc i), of_nat (1000000886 + Suc i))) [0..<10]"
  by (simp add: upt_rec epoch_economics_def Let_def demo_epoch_block_def n_spends_def checked_add_def checked_sub_def
      guest_coinbase_amount_def saturating_add_def saturating_mul_def coinbase_base_const_def
      coinbase_per_tx_const_def min_def flat_fee_const_def)

lemma demo_empty_block:
  assumes "demo_es (Suc i) st" and "i < 10"
  shows "\<exists>st'. epoch_block_step demo demo_epoch demo_seam st (Suc i) = Inr st' \<and> demo_es (Suc (Suc i)) st'"
proof -
  from assms obtain ls where ls: "fr_rep demo_perm (es_running st) ls" "length ls \<le> 11 + i"
    by (auto simp: demo_es_def)
  then have "length ls \<le> 100" using assms(2) by simp
  from demo_leaves_ok [OF ls(1) this, of "[demo_zero]"]
  obtain f' where f': "append_all (fr_append demo_perm) (es_running st) [demo_zero] = Some f'"
      "fr_rep demo_perm f' (ls @ [demo_zero])" by auto
  have hdr: "check_epoch_header demo demo_epoch demo_seam st (Suc i) = Inr ()"
    using assms by (simp add: check_epoch_header_def demo_es_def demo_epoch_block_def Let_def)
  have eco: "epoch_economics (Suc i) (es_pot st) (es_shielded st) (demo_epoch_block (Suc i))
      \<lparr> eo_outflow = 0, eo_fees = 0, eo_burn_total = 0, eo_withdrawals = es_withdrawals st, eo_records = es_pegout_records st \<rparr>
      \<lparr> ei_cms = [], ei_inflow = 0, ei_fees = 0 \<rparr> = Inr (of_nat (1000014 - Suc i), of_nat (1000000886 + Suc i))"
    using demo_economics assms by (simp add: demo_es_def list_all_iff)
  show ?thesis
    using assms ls(2) f' hdr eco
    by (auto simp: epoch_block_step_def Let_def demo_es_def demo_epoch_block_def spends_in_order_def epoch_leaves_def
        replicate_append_same
        intro!: exI [of _ "ls @ [demo_zero]"])
qed


lemma demo_first_block:
  assumes "fr_rep demo_perm (es_running st) ls" "length ls \<le> 2"
    and "es_pot st = 1000000" "es_shielded st = 1000000000" "es_recent_roots st = [demo_zero, demo_zero]"
    and "es_daa_view st = [(1000, 1)]" "es_seen_nf st = []" "es_all_spends st = []" "es_withdrawals st = []"
    and "es_pegout_records st = []"
  shows "\<exists>st'. epoch_block_step demo demo_epoch demo_seam st 0 = Inr st' \<and> demo_es 1 st'"
proof -
  let ?b = "demo_epoch_block 0"
  have "length ls \<le> 100" using assms(2) by simp
  from demo_leaves_ok [OF assms(1) this, of "replicate 6 demo_zero"]
  obtain f' where f': "append_all (fr_append demo_perm) (es_running st) (replicate 6 demo_zero) = Some f'"
      "fr_rep demo_perm f' (ls @ replicate 6 demo_zero)" by auto
  have hdr: "check_epoch_header demo demo_epoch demo_seam st 0 = Inr ()"
    using assms(6) by (simp add: check_epoch_header_def demo_epoch_block_def demo_seam_def Let_def)
  have spends: "fold_r (epoch_spend_step [demo_zero, demo_zero] 0) ([], []) (enumerate 0 (spends_in_order ?b))
      = Inr ([replicate 8 1, replicate 8 2, replicate 8 3, replicate 8 4], [demo_spend 1, demo_spend 3])"
    by (simp add: demo_epoch_block_def spends_in_order_def epoch_spend_step_def flat_fee_const_def digest_to_limbs_def
        as_canonical_u32_def)
  have fee: "guest_peg_fee 100 = 1" "guest_peg_fee 1000 = 10"
    by (simp_all add: guest_peg_fee_def peg_fee_percent_const_def saturating_mul_def max_def word_le_nat_alt)
  have pos: "fold_r (epoch_pegout_step demo_perm 0 (sb_height ?b)) \<lparr> eo_outflow = 0, eo_fees = 0, eo_burn_total = 0,
      eo_withdrawals = [], eo_records = [] \<rparr> (enumerate 0 (sb_pegouts ?b))
    = Inr \<lparr> eo_outflow = 100, eo_fees = 1, eo_burn_total = 101,
        eo_withdrawals = [\<lparr> gw_amount = 100, gw_recipient = [7], gw_nf0 = replicate 8 3 \<rparr>],
        eo_records = [(replicate 8 3, 2)] \<rparr>"
    by (simp add: demo_epoch_block_def epoch_pegout_step_def fee checked_add_def)
  have pis: "fold_r (epoch_pegin_step demo_perm 0) \<lparr> ei_cms = [], ei_inflow = 0, ei_fees = 0 \<rparr> (sb_pegins ?b)
    = Inr \<lparr> ei_cms = [demo_zero], ei_inflow = 1000, ei_fees = 10 \<rparr>"
    by (simp add: demo_epoch_block_def epoch_pegin_step_def fee checked_add_def checked_sub_def)
  have eco: "epoch_economics 0 1000000 1000000000 ?b
      \<lparr> eo_outflow = 100, eo_fees = 1, eo_burn_total = 101,
        eo_withdrawals = [\<lparr> gw_amount = 100, gw_recipient = [7], gw_nf0 = replicate 8 3 \<rparr>],
        eo_records = [(replicate 8 3, 2)] \<rparr>
      \<lparr> ei_cms = [demo_zero], ei_inflow = 1000, ei_fees = 10 \<rparr> = Inr (1000014, 1000000886)"
    by (simp add: epoch_economics_def Let_def demo_epoch_block_def n_spends_def checked_add_def checked_sub_def
      guest_coinbase_amount_def saturating_add_def saturating_mul_def coinbase_base_const_def
      coinbase_per_tx_const_def min_def flat_fee_const_def)
  have six: "replicate 6 demo_zero = [demo_zero, demo_zero, demo_zero, demo_zero, demo_zero, demo_zero]"
    by (simp add: eval_nat_numeral)
  have leaves: "epoch_leaves ?b [demo_zero] = replicate 6 demo_zero"
    unfolding six by (simp add: epoch_leaves_def demo_epoch_block_def spends_in_order_def)
  have b: "sb_coinbase_cm ?b = demo_zero" "sb_state_root ?b = demo_zero"
    by (simp_all add: demo_epoch_block_def)
  have win: "drop (length [demo_zero, demo_zero] - root_window_const) [demo_zero, demo_zero] = [demo_zero, demo_zero]"
    by (simp add: root_window_const_def)
  have step: "epoch_block_step demo demo_epoch demo_seam st 0 = Inr \<lparr> es_running = f', es_pot = 1000014,
      es_shielded = 1000000886, es_recent_roots = [demo_zero, demo_zero, demo_zero],
      es_daa_view = [(1000, 1), (2000, 1)], es_seen_nf = [replicate 8 1, replicate 8 2, replicate 8 3, replicate 8 4],
      es_all_spends = [demo_spend 1, demo_spend 3],
      es_withdrawals = [\<lparr> gw_amount = 100, gw_recipient = [7], gw_nf0 = replicate 8 3 \<rparr>],
      es_pegout_records = [(replicate 8 3, 2)] \<rparr>"
    unfolding epoch_block_step_def Let_def assms(3-10) win
    by (simp add: hdr spends pos pis eco leaves b f'(1) assms) (simp add: demo_epoch_block_def)
  have "replicate 3 demo_zero = [demo_zero, demo_zero, demo_zero]" by (simp add: eval_nat_numeral)
  then show ?thesis
    using f'(2) assms(2) by (auto simp: step demo_es_def intro!: exI [of _ "ls @ replicate 6 demo_zero"])
qed


lemma demo_fold_blocks:
  assumes "demo_es 1 st" and "n \<le> 10"
  shows "\<exists>st'. fold_r (epoch_block_step demo demo_epoch demo_seam) st [1..<Suc n] = Inr st' \<and> demo_es (Suc n) st'"
  using assms(2)
proof (induction n)
  case (Suc n)
  then obtain st' where "fold_r (epoch_block_step demo demo_epoch demo_seam) st [1..<Suc n] = Inr st'" "demo_es (Suc n) st'"
    by auto
  with demo_empty_block [OF this(2)] Suc.prems show ?case by (auto simp: fold_r_append)
qed (use assms(1) in simp)

lemma demo_settle:
  "smt_root_with_leaf demo_perm key leaf sibs = demo_zero" "settled_root demo_perm settled_new = demo_zero"
proof -
  have d: "settled_depth = Suc 247" by (simp add: settled_depth_def)
  show "smt_root_with_leaf demo_perm key leaf sibs = demo_zero"
    unfolding smt_root_with_leaf_def d fold_upt_Suc by simp
  have z: "zeros_settled demo_perm n = demo_zero" for n
    by (cases n) (simp_all add: compress_self_def settled_empty_def demo_zero_def)
  show "settled_root demo_perm settled_new = demo_zero"
    unfolding settled_root_def d subtree_root.simps z by (simp add: settled_new_def)
qed

lemma demo_verify_epoch:
  obtains r where "verify_epoch demo demo_epoch = Inr r"
proof -
  have ne: "ew_blocks demo_epoch \<noteq> []" "length (ew_blocks demo_epoch) = 11"
    by (simp_all add: demo_epoch_def)
  have seam: "check_seam demo_perm demo_epoch = Inr demo_seam"
    by (simp add: check_seam_def demo_epoch_def demo_seam_def)
  let ?st0 = "\<lparr> es_running = fr_new demo_perm, es_pot = 1000000, es_shielded = 1000000000,
      es_recent_roots = [demo_zero, demo_zero], es_daa_view = [(1000, 1)], es_seen_nf = [],
      es_all_spends = [], es_withdrawals = [], es_pegout_records = [] \<rparr>"
  have init: "epoch_init demo demo_epoch demo_seam = Inr ?st0"
    by (simp add: epoch_init_def demo_epoch_def demo_seam_def demo_epoch_block_def fr_from_leaves_def Let_def
        seam_anchor_window_def root_window_const_def upt_rec)
  from demo_first_block [of ?st0 "[]"] obtain st1
    where st1: "epoch_block_step demo demo_epoch demo_seam ?st0 0 = Inr st1" "demo_es 1 st1"
    by (auto simp: fr_rep_new)
  from demo_fold_blocks [OF st1(2), of 10] obtain st
    where st: "fold_r (epoch_block_step demo demo_epoch demo_seam) st1 [1..<11] = Inr st" "demo_es 11 st" by auto
  have "[0..<11] = 0 # [1..<11]" by (simp add: upt_conv_Cons)
  then have fold: "fold_r (epoch_block_step demo demo_epoch demo_seam) ?st0 [0..<11] = Inr st"
    using st1(1) st(1) by simp
  have sp: "es_all_spends st = [demo_spend 1, demo_spend 3]" "es_pegout_records st = [(replicate 8 3, 2)]"
    using st(2) by (simp_all add: demo_es_def)
  have mat: "maturity_step (sb_height (last (ew_blocks demo_epoch))) () (0, replicate 8 3, 2) = Inr ()"
    by (simp add: maturity_step_def demo_epoch_def demo_epoch_block_def saturating_add_def pegout_delay_const_def
        last_map last_upt)
  have four: "replicate 4 p = [p, p, p, p]" for p :: "digest list" by (simp add: eval_nat_numeral)
  have tail: "ew_spend_root_digest demo_epoch = epoch_spend_root demo_perm [demo_spend 1, demo_spend 3]"
      "ew_settled_root_in demo_epoch = demo_zero" "length (ew_settled_paths demo_epoch) = 4"
      "ew_settled_paths demo_epoch = replicate 4 (replicate settled_depth demo_zero)"
    by (simp_all add: demo_epoch_def demo_settle)
  show thesis
    by (rule that) (simp add: verify_epoch_def ne seam init fold sp mat tail four spend_nfs_def settle_nf_step_def
        verify_insert_def demo_settle Let_def)
qed

end
