(* ===== verification/Witnesses.thy ===== *)
theory Witnesses
  imports DemoChain
begin

text \<open>
  Each theorem with hypotheses, applied to the concrete chain, epoch or tree of \<open>DemoChain\<close>.
\<close>

section \<open>Accumulators and sets\<close>

theorem settle_tree_transition_is_rebuild_witness:
  "\<exists>f' t. settle_tree_transition demo_perm (fr_new demo_perm) [demo_zero, demo_zero]
      = Some (merkle_root demo_perm [], f')
    \<and> fr_from_leaves demo_perm [demo_zero, demo_zero] = Some f'
    \<and> append_all (nt_append demo_perm) nt_new [demo_zero, demo_zero] = Some t
    \<and> fr_root demo_perm f' = nt_root demo_perm t"
  using settle_tree_transition_is_rebuild [of demo_perm "[]" "fr_new demo_perm" "[demo_zero, demo_zero]"]
  by (simp add: fr_from_leaves_def depth_def)

lemma demo_tree:
  obtains t where "append_all (nt_append demo_perm) nt_new [demo_zero, replicate 8 1] = Some t"
    and "nt_root demo_perm t = demo_zero"
proof -
  have "length ([] :: digest list) + length [demo_zero, replicate 8 1] \<le> 2 ^ depth" by (simp add: depth_def)
  from nt.append_all_fits [OF nt_rep_new this] obtain t
    where t: "append_all (nt_append demo_perm) nt_new [demo_zero, replicate 8 1] = Some t"
      "nt_rep demo_perm t ([] @ [demo_zero, replicate 8 1])"
    by blast
  with that nt_root_rep [OF t(2)] show thesis by simp
qed

lemma path_fold_demo: "path_fold demo_perm node idx (replicate (Suc n) d) = demo_zero"
proof -
  have "path_fold demo_perm demo_zero idx (replicate n d) = demo_zero" for idx
    by (induction n arbitrary: idx) simp_all
  then show ?thesis by simp
qed

theorem membership_path_sound_witness:
  "replicate 8 1 = leaf_at [demo_zero, replicate 8 1] 1
    \<or> compress_collides demo_perm (set (path_inputs demo_perm (replicate 8 1) 1 (replicate depth demo_zero)))
        (tree_inputs demo_perm (leaf_at [demo_zero, replicate 8 1]))"
proof -
  obtain t where t: "append_all (nt_append demo_perm) nt_new [demo_zero, replicate 8 1] = Some t"
    "nt_root demo_perm t = demo_zero" by (rule demo_tree)
  have d: "depth = Suc 31" by (simp add: depth_def)
  have "path_fold demo_perm (replicate 8 1) 1 (replicate depth demo_zero) = demo_zero"
    unfolding d by (rule path_fold_demo)
  then show ?thesis
    using membership_path_sound [OF t(1), of "\<lparr> siblings = replicate depth demo_zero, path_index = 1 \<rparr>" "replicate 8 1"]
    by (simp add: root_from_path_def t(2) depth_def)
qed

theorem membership_path_complete_witness:
  "\<exists>t path. append_all (nt_append demo_perm) nt_new [demo_zero, replicate 8 1] = Some t
    \<and> authentication_path demo_perm t 1 = Some path \<and> path_index path = 1
    \<and> root_from_path demo_perm (replicate 8 1) path = nt_root demo_perm t"
proof -
  obtain t where t: "append_all (nt_append demo_perm) nt_new [demo_zero, replicate 8 1] = Some t"
    by (rule demo_tree)
  show ?thesis using membership_path_complete [OF t, of 1] t by simp
qed

lemma demo_not_settled: "\<not> settled_contains settled_new d"
  by (simp add: settled_contains_def settled_new_def)

theorem settled_witness_accepted_witness:
  "verify_insert demo_perm (settled_root demo_perm settled_new) (replicate 8 5)
      (settled_witness demo_perm settled_new (replicate 8 5))
    = Inr (settled_root demo_perm (settled_insert settled_new (replicate 8 5)))"
  by (rule settled_witness_accepted [OF wf_settled_new demo_not_settled])

theorem settled_no_replay_witness:
  "(distinct [replicate 8 (5 :: nat), replicate 8 6] \<and> (\<forall>nf \<in> {replicate 8 5, replicate 8 6}. \<not> settled_contains settled_new nf)
      \<and> demo_zero = settled_root demo_perm (foldl settled_insert settled_new [replicate 8 5, replicate 8 6]))
    \<or> settled_run_collision demo_perm settled_new
        [(replicate 8 5, replicate settled_depth demo_zero), (replicate 8 6, replicate settled_depth demo_zero)]"
  using settled_no_replay [OF wf_settled_new, of
      "[(replicate 8 5, replicate settled_depth demo_zero), (replicate 8 6, replicate settled_depth demo_zero)]"
      demo_perm demo_zero]
  by (simp add: wf_siblings_def verify_insert_def demo_settle Let_def)

section \<open>Digests\<close>

lemma from_le_zero: "set c \<subseteq> {0} \<Longrightarrow> (from_le c :: 'a::len word) = 0"
  by (induction c) auto

lemma demo_id_ok: "canonical_id (replicate 32 0)"
proof -
  have "unat (from_le32 c) < babybear_p" if "c \<in> set (chunks 4 (replicate 32 0))" for c
  proof -
    have "set c \<subseteq> {0}" using that chunks_elem_set [of c 4 "replicate 32 0"] by auto
    then show ?thesis by (simp add: from_le32_def from_le_zero)
  qed
  then show ?thesis by (simp add: canonical_id_def)
qed

theorem header_id_binds_block_witness:
  "header_collision demo_perm 1 (demo_epoch_block 1) 2 (demo_epoch_block 1)"
proof -
  have "wf_block (demo_epoch_block 1)"
    by (simp add: wf_block_def demo_epoch_block_def demo_id_ok demo_zero_def)
  from header_id_binds_block [OF demo_perm_ok this this, of 1 2] show ?thesis by simp
qed

lemma demo_circuit_sponge [simp]: "xs \<noteq> [] \<Longrightarrow> circuit_sponge demo_perm xs = demo_zero"
  by (cases xs)
    (simp_all add: circuit_sponge_def demo_perm_def fold_const chunks_ne demo_zero_def Let_def)

lemma demo_single_root:
  "withdrawals_root demo_perm [e] = demo_zero" "epoch_spend_root demo_perm [s] = demo_zero"
proof -
  have "leaf_inputs demo_perm e \<noteq> []" "amount_limbs (sp_fee s) \<noteq> []"
    by (simp_all add: leaf_inputs_def amount_limbs_def to_le64_def)
  then show "withdrawals_root demo_perm [e] = demo_zero" "epoch_spend_root demo_perm [s] = demo_zero"
    by (simp_all add: withdrawals_root_def epoch_spend_root_def next_power_of_two_def fold_tree.simps
        leaf_digest_def spend_leaf_digest_def spend_leaf_inputs_def)
qed

definition demo_entry :: "u64 \<Rightarrow> withdrawal_entry" where
  "demo_entry v = \<lparr> we_amount = v, we_recipient = [7], we_nf0 = demo_zero, we_cm0 = demo_zero \<rparr>"

lemma demo_zero_wf: "wf_digest demo_zero" "wf_digest (replicate 8 (1 :: nat))" "wf_digest (replicate 8 (2 :: nat))"
  by (simp_all add: wf_digest_def demo_zero_def digest_elems_def babybear_p_def)

theorem withdrawals_root_binds_witness:
  "demo_entry 1 \<noteq> demo_entry 2 \<and>
   (circuit_collides demo_perm (root_hashes demo_perm (map (leaf_inputs demo_perm) [demo_entry 1]))
        (root_hashes demo_perm (map (leaf_inputs demo_perm) [demo_entry 2]))
    \<or> sponge_collides demo_perm (recipient_hashes [demo_entry 1]) (recipient_hashes [demo_entry 2]))"
proof -
  have "\<forall>e \<in> set [demo_entry 1] \<union> set [demo_entry 2]. wf_entry e"
    by (simp add: wf_entry_def demo_entry_def demo_zero_wf)
  from withdrawals_root_binds [OF demo_perm_ok this] show ?thesis
    by (simp add: demo_single_root) (simp add: demo_entry_def)
qed

theorem epoch_spend_root_binds_witness:
  "circuit_collides demo_perm (root_hashes demo_perm (map spend_leaf_inputs [demo_spend 0]))
      (root_hashes demo_perm (map spend_leaf_inputs [demo_spend 1]))"
proof -
  have "\<forall>s \<in> set [demo_spend 0] \<union> set [demo_spend 1]. wf_spend_publics s"
    by (simp add: wf_spend_publics_def demo_zero_wf) (simp add: wf_digest_def digest_elems_def babybear_p_def)
  from epoch_spend_root_binds [OF demo_perm_ok this] show ?thesis
    by (simp add: demo_single_root) (simp add: demo_spend_def)
qed

theorem batch_journal_injective_witness:
  "batch_journal (replicate 32 1) (replicate 32 2) 7 [demo_entry 1]
    \<noteq> batch_journal (replicate 32 1) (replicate 32 2) 7 [demo_entry 2]"
  using batch_journal_injective [of "replicate 32 1" "replicate 32 1" "replicate 32 2" "replicate 32 2"
      "[demo_entry 1]" "[demo_entry 2]" 7 7]
  by (auto simp: demo_entry_def)

section \<open>Shares, anchors and deposits\<close>

definition demo_share :: "nat \<Rightarrow> nat share_witness" where
  "demo_share h = \<lparr> sw_header = h, sw_field = \<lparr> ef_key = aegis_mm_key, ef_value = 1 # replicate 32 0 \<rparr>,
     sw_proof = demo_proof \<rparr>"

lemma demo_leaf: "mm_leaf_digest demo \<lparr> ef_key = aegis_mm_key, ef_value = 1 # replicate 32 0 \<rparr> = replicate 32 0"
  by (simp add: mm_leaf_digest_def aegis_mm_key_def)

lemma demo_share_ok: "verify_share demo (demo_share h) (replicate 32 0) 1 = Inr 1"
  using demo_proof_ok
  by (simp add: verify_share_def demo_share_def share_pow_message_def demo_leaf mm_field_value_len_def
      mm_commitment_version_def) (simp add: demo_proof_def)

lemma demo_shares_ok:
  "verify_suffix_shares demo 1 [demo_epoch_block 0, demo_epoch_block 1] [demo_share 5, demo_share 6] = Inr [1, 1]"
proof -
  have n: "sb_nbits (demo_epoch_block i) = 1" for i by (simp add: demo_epoch_block_def)
  have m: "share_pow_message demo (demo_share h) = Inr (replicate 32 (of_nat h))" for h
    by (simp add: share_pow_message_def demo_share_def)
  show ?thesis
    by (simp add: verify_suffix_shares_def suffix_share_step_def demo_share_ok n m)
qed

theorem suffix_shares_distinct_work_witness:
  "\<exists>msgs. length msgs = 2 \<and> distinct msgs
    \<and> (\<forall>i < 2. share_commits demo (header_id demo_perm 1 ([demo_epoch_block 0, demo_epoch_block 1] ! i))
          (sb_nbits ([demo_epoch_block 0, demo_epoch_block 1] ! i)) ([demo_share 5, demo_share 6] ! i) (msgs ! i))"
proof -
  from suffix_shares_distinct_work [OF demo_shares_ok] obtain msgs
    where "length msgs = length [demo_epoch_block 0, demo_epoch_block 1]" "distinct msgs"
      "\<forall>i < length [demo_epoch_block 0, demo_epoch_block 1].
        share_commits demo (header_id demo_perm 1 ([demo_epoch_block 0, demo_epoch_block 1] ! i))
          (sb_nbits ([demo_epoch_block 0, demo_epoch_block 1] ! i)) ([demo_share 5, demo_share 6] ! i) (msgs ! i)"
    by (simp only: demo_fields) blast
  then show ?thesis by (intro exI [of _ msgs]) (simp add: numeral_2_eq_2)
qed

definition demo_anchor :: "nat anchor_witness" where
  "demo_anchor = \<lparr> aw_headers = [9, 8, 7, 6], aw_field = \<lparr> ef_key = aegis_mm_key, ef_value = 1 # replicate 32 0 \<rparr>,
     aw_proof = demo_proof \<rparr>"

lemma demo_anchor_ok:
  "verify_anchor_linkage_min_depth demo demo_anchor (replicate 32 9) (replicate 32 0) a_min = Inr 3"
proof -
  have "verify_ancestor_walk demo [9, 8, 7, 6] (replicate 32 9) = Inr ()"
    by (simp add: verify_ancestor_walk_def ergo_header_id_def)
  then show ?thesis
    using demo_proof_ok
    by (simp add: verify_anchor_linkage_min_depth_def verify_anchor_linkage_def demo_anchor_def demo_leaf a_min_def
        mm_commitment_version_def) (simp add: demo_proof_def)
qed

theorem anchor_linkage_buried_witness:
  "a_min \<le> 3 \<and> length (aw_headers demo_anchor) = 4
    \<and> map snd (bp_indices (aw_proof demo_anchor)) = [mm_leaf_digest demo (aw_field demo_anchor)]"
  using anchor_linkage_buried [OF demo_anchor_ok] by simp

definition demo_deposit :: deposit_proof where
  "demo_deposit = \<lparr> dp_tx_bytes = [], dp_output_index = 0, dp_tx_proof = demo_proof, dp_header_index = 10,
     dp_used_path = replicate settled_depth demo_zero \<rparr>"

definition demo_deposits :: "nat pegin_witness" where
  "demo_deposits = \<lparr> pw_headers = rev [0..<20], pw_deposits = [demo_deposit] \<rparr>"

definition demo_vault :: deposit_params where
  "demo_vault = \<lparr> dep_vault_tree = [1], dep_use_token = [2], dep_confirmations = pegin_confirmations_const \<rparr>"

lemma demo_backing_ok:
  "verify_pegin_backing demo [demo_epoch_block 0] demo_deposits (replicate 32 19)
     (settled_root (x_perm demo) settled_new) demo_vault = Inr demo_zero"
proof -
  have pis: "suffix_pegins [demo_epoch_block 0]
      = [\<lparr> pi_box_id = replicate 32 9, pi_dest_owner = demo_zero, pi_amount = 1000 \<rparr>]"
    by (simp add: suffix_pegins_def demo_epoch_block_def)
  have walk: "verify_ancestor_walk demo (rev [0..<20]) (replicate 32 19) = Inr ()"
    unfolding verify_ancestor_walk_ok by (auto simp: hd_rev rev_nth)
  have zero: "digest_to_bytes demo_zero = replicate 32 0"
    by (simp add: digest_to_bytes_def demo_zero_def as_canonical_u32_def to_le32_def map_replicate_const
        eval_nat_numeral)
  have one: "verify_one_deposit demo 0 \<lparr> pi_box_id = replicate 32 9, pi_dest_owner = demo_zero, pi_amount = 1000 \<rparr>
      demo_deposit (rev [0..<20]) demo_vault = Inr ()"
    using demo_proof_ok
    by (simp add: verify_one_deposit_def demo_deposit_def demo_vault_def pegin_confirmations_const_def
        deposit_tx_included_def deposit_well_formed_def Let_def sc_dest_len_def zero) (simp add: demo_proof_def)
  show ?thesis
    by (simp add: verify_pegin_backing_def pis demo_deposits_def walk pegin_backing_step_def one demo_settle
        verify_insert_def Let_def)
qed

theorem pegin_backing_once_witness:
  "length (pw_deposits demo_deposits) = length (suffix_pegins [demo_epoch_block 0])
    \<and> distinct (map pi_box_id (suffix_pegins [demo_epoch_block 0]))"
proof -
  have "\<forall>dp \<in> set (pw_deposits demo_deposits). wf_siblings (dp_used_path dp)"
    by (simp add: demo_deposits_def demo_deposit_def wf_siblings_def)
  from pegin_backing_once [OF demo_backing_ok wf_settled_new this] show ?thesis
    by (simp add: Let_def)
qed

section \<open>Difficulty and shares\<close>

theorem next_nbits_bounded_witness:
  "\<exists>r. next_nbits demo \<lparr> daa_target_secs = 15, daa_window = 1, daa_min_nbits = 1 \<rparr> [(0, 8), (15000, 8)] = Some r
    \<and> (\<exists>d. r = x_encode_bits demo d \<and> 2 \<le> d \<and> d \<le> 32)"
  using next_nbits_bounded [of "\<lparr> daa_target_secs = 15, daa_window = 1, daa_min_nbits = 1 \<rparr>" demo "[(0, 8), (15000, 8)]"]
  by (auto simp: Let_def)

definition demo_aux :: "nat hn_aux_pow" where
  "demo_aux = \<lparr> ha_header = 5, ha_field = \<lparr> ef_key = aegis_mm_key, ef_value = 1 # replicate 32 0 \<rparr>,
     ha_proof = demo_proof \<rparr>"

theorem node_guest_share_parity_witness:
  "\<exists>eb. to_engine_block (demo_block 0) = Some eb \<and> aux_verify demo 1 demo_aux (demo_block 0) = Inr 1"
proof -
  have eb: "\<exists>eb. to_engine_block (demo_block 0) = Some eb \<and> sb_nbits eb = 1"
    by (simp add: to_engine_block_def)
  then obtain eb where eb: "to_engine_block (demo_block 0) = Some eb" "sb_nbits eb = 1" by blast
  have "guest_share_of demo_aux = demo_share 5"
    by (simp add: guest_share_of_def demo_aux_def demo_share_def)
  with node_guest_share_parity [OF demo_popow eb(1), of 1 demo_aux 1] demo_share_ok eb show ?thesis
    by simp
qed

section \<open>Runs of the ledger\<close>

theorem ledger_state_is_replay_witness:
  "\<exists>s s' u. apply_block demo s demo_reward_block = Inr (s', u)
    \<and> replay (apply_block demo) (hn_new demo_perm demo_params) [demo_block 0, demo_block 1] = Inr s"
proof -
  obtain s s' u where r: "hn_reach demo demo_params [demo_block 0, demo_block 1] s" "demo_at 2 s"
    and a: "apply_block demo s demo_reward_block = Inr (s', u)" by (rule demo_run)
  from r(1) have rep: "replay (apply_block demo) (hn_new (x_perm demo) demo_params) [demo_block 0, demo_block 1] = Inr s"
    by (simp add: hn_reach_replay)
  obtain s0 u0 u1 where s: "apply_block demo (hn_new (x_perm demo) demo_params) (demo_block 0) = Inr (s0, u0)"
      "apply_block demo s0 (demo_block 1) = Inr (s, u1)"
    using rep by (auto simp: replay_def result_simps map_sum_eq_Inr)
  have l0: "log_reach (apply_block demo) (rollback (x_perm demo)) (hn_new (x_perm demo) demo_params) []
      (hn_new (x_perm demo) demo_params)" by (rule log_reach.init)
  have l1: "log_reach (apply_block demo) (rollback (x_perm demo)) (hn_new (x_perm demo) demo_params)
      [(demo_block 0, u0)] s0" by (rule log_reach.apply_step [where app = "apply_block demo", OF l0 s(1)])
  have l2: "log_reach (apply_block demo) (rollback (x_perm demo)) (hn_new (x_perm demo) demo_params)
      [(demo_block 1, u1), (demo_block 0, u0)] s" by (rule log_reach.apply_step [where app = "apply_block demo", OF l1 s(2)])
  have l3: "log_reach (apply_block demo) (rollback (x_perm demo)) (hn_new (x_perm demo) demo_params)
      [(demo_reward_block, u), (demo_block 1, u1), (demo_block 0, u0)] s'"
    by (rule log_reach.apply_step [where app = "apply_block demo", OF l2 a])
  have "rollback (x_perm demo) s' u = Inr s"
    by (rule rollback_exact [OF hn_reach_tree_inv [OF r(1)] a])
  from ledger_state_is_replay [OF log_reach.undo_step [OF l3 this]]
  have "replay (apply_block demo) (hn_new demo_perm demo_params) [demo_block 0, demo_block 1] = Inr s"
    by (simp only: demo_fields list.map rev.simps append.simps fst_conv)
  with a show ?thesis by blast
qed

theorem rollback_restores_witness:
  "\<exists>s s' u. apply_block demo s demo_reward_block = Inr (s', u) \<and> rollback demo_perm s' u = Inr s"
proof -
  obtain s s' u where r: "hn_reach demo demo_params [demo_block 0, demo_block 1] s"
    and a: "apply_block demo s demo_reward_block = Inr (s', u)" by (rule demo_run)
  from rollback_restores [OF r a] a show ?thesis by auto
qed

lemma demo_reach: obtains s where "hn_reach demo demo_params demo_chain s"
  by (rule demo_run)

lemma demo_spends: "concat (map spend_txs demo_chain) = [demo_tx 1, demo_tx 3]"
  by (simp add: demo_chain_def spend_txs_def demo_reward_block_def)

lemma demo_chain_parts:
  "concat (map hb_pegouts demo_chain) = [\<lparr> pt_tx = demo_tx 3, pt_amount = 100, pt_recipient = [7] \<rparr>]"
  "map pc_box_id (concat (map hb_pegins demo_chain)) = [replicate 32 9]"
  "map pc_amount (concat (map hb_pegins demo_chain)) = [1000]"
  "filter (\<lambda>b. \<not> hb_coinbase_is_reward b) demo_chain = [demo_block 0, demo_block 1]"
  "last demo_chain = demo_reward_block" "demo_chain \<noteq> []" "length demo_chain = 3"
  by (simp_all add: demo_chain_def demo_reward_block_def)

theorem no_double_spend_witness:
  "\<exists>s. hn_reach demo demo_params demo_chain s
    \<and> hs_nullifiers s = {replicate 8 1, replicate 8 2, replicate 8 3, replicate 8 4}"
proof -
  obtain s where r: "hn_reach demo demo_params demo_chain s" by (rule demo_reach)
  from no_double_spend [OF r] r show ?thesis by (auto simp: demo_spends)
qed

theorem no_double_mint_witness:
  "\<exists>s. hn_reach demo demo_params demo_chain s \<and> hs_used_pegins s = {replicate 32 9}"
proof -
  obtain s where r: "hn_reach demo demo_params demo_chain s" by (rule demo_reach)
  from no_double_mint [OF r] r show ?thesis unfolding demo_chain_parts by auto
qed

theorem tree_is_run_leaves_witness:
  "\<exists>s. hn_reach demo demo_params demo_chain s \<and> hs_cm_leaves s = replicate 8 demo_zero
    \<and> hb_state_root demo_reward_block = digest_to_limbs (hn_tip_root demo_perm s)"
proof -
  obtain s where r: "hn_reach demo demo_params demo_chain s" by (rule demo_reach)
  have eight: "replicate 8 demo_zero = [demo_zero, demo_zero, demo_zero, demo_zero, demo_zero, demo_zero, demo_zero, demo_zero]"
    by (simp add: eval_nat_numeral)
  have "run_leaves demo_perm demo_params demo_chain = replicate 8 demo_zero"
    unfolding eight
    by (simp add: run_leaves_def demo_chain_def block_cms_def spend_txs_def demo_reward_block_def demo_flat
        tx_cms_def pegin_cm_def mint_parity)
  with tree_is_run_leaves [OF r] r demo_chain_parts(5,6) show ?thesis by auto
qed

theorem header_follows_history_witness:
  "next_nbits demo (hn_daa demo_params) (run_daa (take 2 demo_chain)) = Some 1
    \<and> limbs_to_digest (hb_prev_root demo_reward_block)
      = merkle_root demo_perm (run_leaves demo_perm demo_params (take 2 demo_chain))"
proof -
  obtain s where r: "hn_reach demo demo_params demo_chain s" by (rule demo_reach)
  have "demo_chain ! 2 = demo_reward_block" "hb_nbits demo_reward_block = 1"
    by (simp_all add: demo_chain_def demo_reward_block_def)
  with header_follows_history [OF r, of 2] show ?thesis by (simp add: demo_chain_parts)
qed

theorem spends_authorised_witness:
  "x_spend_verify demo (tx_proof (demo_tx 1)) (tx_publics (demo_tx 1))
    \<and> (\<exists>root \<in> set (take_last 100 (run_roots demo_perm demo_params (take 2 demo_chain))).
         digest_at (tx_publics (demo_tx 1)) pub_root = Some root)"
proof -
  obtain s where r: "hn_reach demo demo_params demo_chain s" by (rule demo_reach)
  have "demo_tx 1 \<in> set (spend_txs (demo_chain ! 2))"
    by (simp add: demo_chain_def demo_reward_block_def spend_txs_def)
  from spends_authorised [OF r _ this] show ?thesis by (simp add: demo_chain_parts)
qed

theorem value_conserved_witness:
  "\<exists>s. hn_reach demo demo_params demo_chain s \<and> hs_shielded_total s + hs_pot s + 100 = 1001001000
    \<and> hs_pot s = 1000014 \<and> hs_shielded_total s = 1000000886"
proof -
  obtain s where r: "hn_reach demo demo_params demo_chain s" by (rule demo_reach)
  have "hb_pot_after demo_reward_block = 1000014" "hb_shielded_after demo_reward_block = 1000000886"
    by (simp_all add: demo_reward_block_def)
  with value_conserved [OF r] r show ?thesis by (auto simp: demo_chain_parts)
qed

theorem emission_schedule_witness:
  "hb_coinbase_amount (demo_chain ! 1) = snd (hp_genesis demo_params ! 1)
    \<and> hb_coinbase_amount (demo_chain ! 2) = coinbase_amount demo_params 1000000 2"
proof -
  obtain s where r: "hn_reach demo demo_params demo_chain s" by (rule demo_reach)
  have c: "demo_chain ! 1 = demo_block 1" "demo_chain ! 2 = demo_reward_block"
    "length (spend_txs demo_reward_block) = 2"
    by (simp_all add: demo_chain_def demo_reward_block_def spend_txs_def)
  have two: "2 - 1 = (1 :: nat)" by simp
  from emission_schedule [OF r, of 1] emission_schedule [OF r, of 2] show ?thesis
    unfolding two c by (simp add: demo_chain_parts c)
qed

theorem withdrawals_are_burns_witness:
  "\<exists>s. hn_reach demo demo_params demo_chain s
    \<and> burn_bound demo_perm demo_params \<lparr> pt_tx = demo_tx 3, pt_amount = 100, pt_recipient = [7] \<rparr>
    \<and> length (hs_withdrawals s) = 1"
proof -
  obtain s where r: "hn_reach demo demo_params demo_chain s" by (rule demo_reach)
  have "[0..<length demo_chain] = [0, 1, 2]" by (simp add: demo_chain_parts upt_rec)
  then have "length (hs_withdrawals s) = 1"
    using withdrawals_are_burns [OF r] by (simp add: demo_chain_def demo_reward_block_def)
  with withdrawals_are_burns [OF r] r show ?thesis by (auto simp: demo_chain_parts)
qed

section \<open>Epochs\<close>

lemma demo_blocks: "ew_blocks demo_epoch = map demo_epoch_block [0..<11]"
  by (simp add: demo_epoch_def)

lemma eleven: "[0..<11] = [0, 1, 2, 3, 4, 5, 6, 7, 8, 9, 10 :: nat]"
  by (simp add: upt_rec)

lemma demo_rest: "i \<noteq> 0 \<Longrightarrow> sb_txs (demo_epoch_block i) = []" "i \<noteq> 0 \<Longrightarrow> sb_pegouts (demo_epoch_block i) = []"
  "i \<noteq> 0 \<Longrightarrow> sb_pegins (demo_epoch_block i) = []"
  by (simp_all add: demo_epoch_block_def)

lemma demo_first:
  "sb_txs (demo_epoch_block 0) = [demo_spend 1]"
  "sb_pegouts (demo_epoch_block 0) = [\<lparr> po_spend = demo_spend 3, po_amount = 100, po_recipient = [7] \<rparr>]"
  "sb_pegins (demo_epoch_block 0) = [\<lparr> pi_box_id = replicate 32 9, pi_dest_owner = demo_zero, pi_amount = 1000 \<rparr>]"
  by (simp_all add: demo_epoch_block_def)

lemma demo_epoch_seam: "ew_seam demo_epoch = [demo_seam]"
  by (simp add: demo_epoch_def)

lemma demo_epoch_parts:
  "concat (map sb_pegins (ew_blocks demo_epoch)) = sb_pegins (demo_epoch_block 0)"
  "concat (map sb_pegouts (ew_blocks demo_epoch)) = sb_pegouts (demo_epoch_block 0)"
  "suffix_spends (ew_blocks demo_epoch) = [demo_spend 1, demo_spend 3]"
  by (simp_all add: demo_blocks eleven demo_rest demo_first suffix_spends_def spends_in_order_def)

theorem epoch_conserves_value_witness:
  "\<exists>r. verify_epoch demo demo_epoch = Inr r \<and>
    unat (er_pot_after r) + unat (er_shielded_after r) + sum_list (map (unat \<circ> gw_amount) (er_withdrawals r))
      = 1000000 + 1000000000 + 1000"
proof -
  obtain r where r: "verify_epoch demo demo_epoch = Inr r" by (rule demo_verify_epoch)
  have "unat (sh_pot_after demo_seam) = 1000000" "unat (sh_shielded_after demo_seam) = 1000000000"
    by (simp_all add: demo_seam_def)
  with epoch_conserves_value [OF r] r show ?thesis by (simp add: demo_epoch_parts demo_first demo_epoch_seam)
qed

theorem epoch_withdrawals_burned_and_mature_witness:
  "\<exists>r. verify_epoch demo demo_epoch = Inr r
    \<and> er_withdrawals r = [\<lparr> gw_amount = 100, gw_recipient = [7], gw_nf0 = replicate 8 3 \<rparr>]"
proof -
  obtain r where r: "verify_epoch demo demo_epoch = Inr r" by (rule demo_verify_epoch)
  from epoch_withdrawals_burned_and_mature [OF r] r show ?thesis
    by (simp add: demo_epoch_parts demo_first guest_withdrawal_of_def)
qed

theorem epoch_no_double_spend_witness:
  "\<exists>r. verify_epoch demo demo_epoch = Inr r
    \<and> (er_settled_root_out r = settled_root demo_perm (foldl settled_insert settled_new
          [replicate 8 1, replicate 8 2, replicate 8 3, replicate 8 4])
       \<or> settled_run_collision demo_perm settled_new
          (zip [replicate 8 1, replicate 8 2, replicate 8 3, replicate 8 4] (ew_settled_paths demo_epoch)))"
proof -
  obtain r where r: "verify_epoch demo demo_epoch = Inr r" by (rule demo_verify_epoch)
  have nfs: "nullifiers_of (suffix_spends (ew_blocks demo_epoch)) = [replicate 8 1, replicate 8 2, replicate 8 3, replicate 8 4]"
    by (simp add: demo_epoch_parts nullifiers_of_def)
  have h: "ew_settled_root_in demo_epoch = settled_root (x_perm demo) settled_new"
    "\<forall>p \<in> set (ew_settled_paths demo_epoch). wf_siblings p"
    by (simp_all add: demo_epoch_def wf_siblings_def)
  have "er_settled_root_out r = settled_root demo_perm (foldl settled_insert settled_new
          (nullifiers_of (suffix_spends (ew_blocks demo_epoch))))
       \<or> settled_run_collision demo_perm settled_new
          (zip (nullifiers_of (suffix_spends (ew_blocks demo_epoch))) (ew_settled_paths demo_epoch))"
    using epoch_no_double_spend [OF r h(1) wf_settled_new h(2)] by (simp only: demo_fields) blast
  with r show ?thesis unfolding nfs by blast
qed

theorem epoch_extends_sealed_chain_witness:
  "\<exists>r. verify_epoch demo demo_epoch = Inr r \<and> er_tip_id_new r = replicate 32 0
    \<and> (\<forall>i < 11. sb_height (ew_blocks demo_epoch ! i)
        = (if i = 0 then sh_height (hd (ew_seam demo_epoch)) else sb_height (ew_blocks demo_epoch ! (i - 1))) + 1)"
proof -
  obtain r where r: "verify_epoch demo demo_epoch = Inr r" by (rule demo_verify_epoch)
  have "length (ew_blocks demo_epoch) = 11" by (simp add: demo_blocks)
  then have "er_tip_id_new r = replicate 32 0" "\<forall>i < 11. sb_height (ew_blocks demo_epoch ! i)
        = (if i = 0 then sh_height (hd (ew_seam demo_epoch)) else sb_height (ew_blocks demo_epoch ! (i - 1))) + 1"
    using epoch_extends_sealed_chain [OF r] by (simp_all only: demo_fields demo_header_id') blast+
  with r show ?thesis by blast
qed

lemma demo_decode: "x_decode_frontier demo (ew_frontier_bytes demo_epoch) = fr_from_leaves (x_perm demo) []"
  by simp

lemma demo_epoch_leaf_count:
  "length ([] @ concat (map (epoch_block_leaves (x_perm demo)) (ew_blocks demo_epoch))) < 2 ^ 32"
  by (simp add: demo_blocks eleven epoch_block_leaves_def epoch_leaves_def demo_rest demo_first
      spends_in_order_def)

theorem epoch_new_root_rederived_witness:
  "\<exists>r. verify_epoch demo demo_epoch = Inr r
    \<and> er_new_root r = merkle_root demo_perm ([] @ concat (map (epoch_block_leaves demo_perm) (ew_blocks demo_epoch)))"
proof -
  obtain r where r: "verify_epoch demo demo_epoch = Inr r" by (rule demo_verify_epoch)
  from epoch_new_root_rederived [OF r demo_decode demo_epoch_leaf_count] r show ?thesis
    by (auto simp only: demo_fields)
qed

theorem epoch_spends_anchored_witness:
  "sp_root (demo_spend 1) \<in> set (take_last root_window_const (seam_anchor_window demo_perm (ew_seam demo_epoch)
      @ map sb_state_root (take 0 (ew_blocks demo_epoch))))"
proof -
  obtain r where r: "verify_epoch demo demo_epoch = Inr r" by (rule demo_verify_epoch)
  have "0 < length (ew_blocks demo_epoch)" "demo_spend 1 \<in> set (spends_in_order (ew_blocks demo_epoch ! 0))"
    by (simp_all add: demo_blocks demo_first spends_in_order_def)
  from epoch_spends_anchored [OF r this] show ?thesis by (simp only: demo_fields)
qed

theorem epoch_difficulty_inherited_witness:
  "next_nbits demo (pinned_daa_params demo)
      (map (\<lambda>h. (sh_timestamp_ms h, sh_nbits h)) (rev (ew_seam demo_epoch))
       @ map (\<lambda>b. (sb_timestamp_ms b, sb_nbits b)) (take 5 (ew_blocks demo_epoch)))
    = Some 1"
proof -
  obtain r where r: "verify_epoch demo demo_epoch = Inr r" by (rule demo_verify_epoch)
  have "5 < length (ew_blocks demo_epoch)" "sb_nbits (ew_blocks demo_epoch ! 5) = 1"
    by (simp_all add: demo_blocks demo_epoch_block_def)
  with epoch_difficulty_inherited [OF r this(1)] show ?thesis by simp
qed

section \<open>Node and guest\<close>

text \<open>An epoch whose first block is the translation of the concrete reward block.\<close>

definition demo_parity_epoch :: epoch_witness where
  "demo_parity_epoch = demo_epoch \<lparr> ew_blocks := [(demo_epoch_block 0)
     \<lparr> sb_pegins := [\<lparr> pi_box_id = replicate 32 9, pi_dest_owner = limbs_to_digest (replicate 8 0), pi_amount = 1000 \<rparr>],
       sb_txs := [the (engine_spend (tx_publics (demo_tx 1)))],
       sb_pegouts := [\<lparr> po_spend = the (engine_spend (tx_publics (demo_tx 3))), po_amount = 100, po_recipient = [7] \<rparr>] \<rparr>] \<rparr>"

theorem node_block_accepted_by_guest_witness:
  "\<exists>s s' u st st'. apply_block demo s demo_reward_block = Inr (s', u)
    \<and> epoch_block_step demo demo_parity_epoch demo_seam st 0 = Inr st' \<and> state_rel demo_perm s' st'"
proof -
  obtain s s' u where r: "hn_reach demo demo_params [demo_block 0, demo_block 1] s" "demo_at 2 s"
    and a: "apply_block demo s demo_reward_block = Inr (s', u)" by (rule demo_run)
  have s: "hs_cm_leaves s = [demo_zero, demo_zero]" "hs_pot s = 1000000" "hs_shielded_total s = 1000000000"
    "hs_recent_roots s = [demo_zero, demo_zero, demo_zero]" "length (hs_daa_view s) = 2" "hs_height s = 2"
    using r(2) by (simp_all add: demo_at_def eval_nat_numeral)
  obtain f where f: "append_all (fr_append demo_perm) (fr_new demo_perm) [demo_zero, demo_zero] = Some f"
      "fr_rep demo_perm f ([] @ [demo_zero, demo_zero])"
    by (rule demo_leaves_ok [OF fr_rep_new, of "[demo_zero, demo_zero]"]) simp_all
  let ?st = "\<lparr> es_running = f, es_pot = 1000000, es_shielded = 1000000000,
      es_recent_roots = [demo_zero, demo_zero, demo_zero], es_daa_view = hs_daa_view s, es_seen_nf = [],
      es_all_spends = [], es_withdrawals = [], es_pegout_records = [] \<rparr>"
  have rel: "state_rel (x_perm demo) s ?st"
    using f(2) s by (simp add: state_rel_def take_last_def root_window_const_def daa_window_const_def)
  have eco: "guest_economics demo_params" "hn_daa demo_params = pinned_daa_params demo"
    unfolding demo_params_def by (rule hn_testnet_guest)+
  have sep: "verifier_separates demo" by (auto simp: verifier_separates_def)
  have b: "hb_coinbase_is_reward demo_reward_block" "hb_height demo_reward_block = hs_height s"
    using s by (simp_all add: demo_reward_block_def demo_block_def)
  have sp: "\<exists>e. engine_spend (tx_publics (demo_tx k)) = Some e" for k
  proof -
    have "spend_fee (tx_publics (demo_tx k)) = Some 3"
      using tx_fee_demo [of k] by (auto simp: spend_fee_def tx_fee_def map_sum_eq_Inr ok_or_eq_Inr split: if_splits)
    then show ?thesis by (simp add: engine_spend_def)
  qed
  then obtain e1 e3 where e: "engine_spend (tx_publics (demo_tx 1)) = Some e1" "engine_spend (tx_publics (demo_tx 3)) = Some e3"
    by blast
  have eb: "to_engine_block demo_reward_block = Some (ew_blocks demo_parity_epoch ! 0)"
    by (simp add: to_engine_block_def demo_reward_block_def demo_block_def demo_parity_epoch_def e engine_pegout_def
        engine_pegin_def demo_epoch_block_def demo_flat)
  have linked: "header_linked demo demo_parity_epoch demo_seam 0"
    by (simp add: header_linked_def demo_parity_epoch_def demo_seam_def demo_epoch_block_def)
  have fee: "peg_fee demo_params 100 = 1" "peg_fee demo_params 1000 = 10"
    by (simp_all add: peg_fee_def saturating_mul_def max_def word_le_nat_alt)
  have fits: "no_overflow demo_params s demo_reward_block"
    by (simp add: no_overflow_def s fee Let_def demo_reward_block_def spend_txs_def)
  have cap: "length (run_leaves (x_perm demo) demo_params ([demo_block 0, demo_block 1] @ [demo_reward_block])) < 2 ^ 32"
    by (simp add: run_leaves_def block_cms_def demo_reward_block_def spend_txs_def tx_cms_def)
  have perm: "perm_ok (x_perm demo)" by (simp add: demo_perm_ok)
  from node_block_accepted_by_guest [OF r(1) a eco perm sep b(1) eb rel linked b(2) fits cap] a
  show ?thesis by (simp only: demo_fields) blast
qed

end
