(* ===== verification/HnChain.thy ===== *)
theory HnChain
  imports GuestParity
begin

text \<open>
  The node's chain manager (\<^verbatim>\<open>aegis-node/src/hn/chain.rs\<close>): the framed block log, the tree of
  validated blocks with heaviest-work fork choice, the mempool, block production and sync. The
  wall clock, the note encryption and the serialization of blocks are arguments.

  An operation that can only fail before it changes a field returns an error or the new chain;
  production, which gives up its pending entries before it applies the block, returns the chain
  in both cases. A panic is the error \<open>HnPanic\<close>.
\<close>

section \<open>The framed log\<close>

definition frame_record :: "bytes \<Rightarrow> bytes" where
  "frame_record payload = to_le32 (of_nat (length payload)) @ payload"

definition append_record :: "bytes \<Rightarrow> bytes \<Rightarrow> bytes" where
  "append_record file payload = file @ frame_record payload"

function read_log :: "bytes \<Rightarrow> bytes list" where
  "read_log buf =
     (if length buf < 4 then []
      else let len = unat (from_le32 (take 4 buf)); rest = drop 4 buf in
        if length rest < len then [] else take len rest # read_log (drop len rest))"
  by pat_completeness auto
termination by (relation "measure length") auto

declare read_log.simps [simp del]

section \<open>State\<close>

record hn_node =
  nd_block :: hn_block
  nd_parent :: bytes
  nd_work :: nat

record hn_chain =
  ch_state :: hn_state
  ch_mempool :: "hn_tx list"
  ch_pegouts :: "pegout_tx list"
  ch_pegin_queue :: "pegin_claim list"
  ch_pegin_check :: "(pegin_claim \<Rightarrow> bool) option"
  ch_mempool_nfs :: "u32 list set"
  ch_blocks :: "hn_block list"
  ch_nodes :: "bytes \<Rightarrow> hn_node option"
  ch_tip :: bytes
  ch_log :: bytes

text \<open>Postcard, the serialization crate of the log.\<close>

record block_codec =
  bc_encode :: "hn_block \<Rightarrow> bytes"
  bc_decode :: "bytes \<Rightarrow> hn_block option"

definition genesis_parent :: bytes where
  "genesis_parent = replicate 32 0"

definition hc_create :: "perm \<Rightarrow> hn_params \<Rightarrow> bytes \<Rightarrow> hn_chain" where
  "hc_create perm params file =
     \<lparr> ch_state = hn_new perm params, ch_mempool = [], ch_pegouts = [], ch_pegin_queue = [],
       ch_pegin_check = None, ch_mempool_nfs = {}, ch_blocks = [], ch_nodes = Map.empty,
       ch_tip = genesis_parent, ch_log = file \<rparr>"

section \<open>The block tree\<close>

definition work_of :: "(bytes \<Rightarrow> hn_node option) \<Rightarrow> bytes \<Rightarrow> nat option" where
  "work_of tree ident = (if ident = genesis_parent then Some 0 else map_option nd_work (tree ident))"

definition register_node ::
  "('h, 't) ext \<Rightarrow> (bytes \<Rightarrow> hn_node option) \<Rightarrow> bytes \<Rightarrow> hn_block \<Rightarrow> bytes \<Rightarrow> (bytes \<Rightarrow> hn_node option) option" where
  "register_node E tree ident block parent =
     map_option (\<lambda>w. tree (ident \<mapsto> \<lparr> nd_block = block, nd_parent = parent,
         nd_work = w + x_decode_bits E (hb_nbits block) \<rparr>)) (work_of tree parent)"

text \<open>The walk to the root; \<open>None\<close> is the panic on a missing id, or a walk that never ends.\<close>

partial_function (option) path_up :: "(bytes \<Rightarrow> hn_node option) \<Rightarrow> bytes \<Rightarrow> bytes list option" where
  "path_up tree cur =
     (if cur = genesis_parent then Some []
      else (case tree cur of None \<Rightarrow> None
            | Some n \<Rightarrow> Option.bind (path_up tree (nd_parent n)) (\<lambda>ids. Some (cur # ids))))"

definition path_ids :: "(bytes \<Rightarrow> hn_node option) \<Rightarrow> bytes \<Rightarrow> bytes list option" where
  "path_ids tree target = map_option rev (path_up tree target)"

definition branch_blocks :: "(bytes \<Rightarrow> hn_node option) \<Rightarrow> bytes \<Rightarrow> hn_block list option" where
  "branch_blocks tree target =
     Option.bind (path_ids tree target) (\<lambda>ids. those (map (\<lambda>i. map_option nd_block (tree i)) ids))"

definition rebuild_state_to ::
  "('h, 't) ext \<Rightarrow> hn_params \<Rightarrow> (bytes \<Rightarrow> hn_node option) \<Rightarrow> bytes \<Rightarrow> hn_state option" where
  "rebuild_state_to E params tree target =
     Option.bind (branch_blocks tree target) (\<lambda>bs.
       (case replay (apply_block E) (hn_new (x_perm E) params) bs of Inl _ \<Rightarrow> None | Inr s \<Rightarrow> Some s))"

definition drop_step :: "hn_state \<Rightarrow> hn_tx list \<Rightarrow> hn_tx \<Rightarrow> hn_error + hn_tx list" where
  "drop_step s kept tx =
     bind_r (pub_digest tx pub_nf0) (\<lambda>nf0. bind_r (pub_digest tx pub_nf1) (\<lambda>nf1.
       Inr (if nullifier_seen s nf0 \<or> nullifier_seen s nf1 then kept else kept @ [tx])))"

definition drop_conflicting_mempool :: "hn_chain \<Rightarrow> hn_error + hn_chain" where
  "drop_conflicting_mempool ch =
     bind_r (fold_r (drop_step (ch_state ch)) [] (ch_mempool ch)) (\<lambda>kept. Inr (ch \<lparr> ch_mempool := kept \<rparr>))"

definition set_canonical :: "('h, 't) ext \<Rightarrow> hn_chain \<Rightarrow> bytes \<Rightarrow> hn_error + hn_chain" where
  "set_canonical E ch target =
     bind_r (ok_or (rebuild_state_to E (hs_params (ch_state ch)) (ch_nodes ch) target) HnPanic) (\<lambda>s.
     bind_r (ok_or (branch_blocks (ch_nodes ch) target) HnPanic) (\<lambda>bs.
       Inr (ch \<lparr> ch_state := s, ch_tip := target, ch_blocks := bs \<rparr>)))"

definition persist :: "block_codec \<Rightarrow> hn_block \<Rightarrow> hn_chain \<Rightarrow> hn_chain" where
  "persist C block ch = ch \<lparr> ch_log := append_record (ch_log ch) (bc_encode C block) \<rparr>"

section \<open>Ingest\<close>

text \<open>The block extends the canonical tip: apply it in place.\<close>

definition extend_tip ::
  "('h, 't) ext \<Rightarrow> block_codec \<Rightarrow> hn_chain \<Rightarrow> bytes \<Rightarrow> hn_block \<Rightarrow> bool \<Rightarrow> hn_error + hn_chain" where
  "extend_tip E C ch ident block store =
     bind_r (apply_block E (ch_state ch) block) (\<lambda>(s, _).
     let ch1 = (if store then persist C block ch else ch) in
     bind_r (ok_or (register_node E (ch_nodes ch1) ident block (ch_tip ch)) HnPanic) (\<lambda>tree.
       Inr (ch1 \<lparr> ch_state := s, ch_blocks := ch_blocks ch1 @ [block], ch_nodes := tree, ch_tip := ident \<rparr>)))"

definition fork_choice_ingest ::
  "('h, 't) ext \<Rightarrow> block_codec \<Rightarrow> hn_chain \<Rightarrow> hn_block \<Rightarrow> bool \<Rightarrow> hn_error + hn_chain \<times> bool" where
  "fork_choice_ingest E C ch block store =
     (let params = hs_params (ch_state ch); parent = hb_prev_header_id block in
      bind_r (ok_or (hn_header_id (x_perm E) (hp_chain_id params) block) HnPanic) (\<lambda>ident.
      if ch_nodes ch ident \<noteq> None then Inr (ch, False)
      else if parent \<noteq> genesis_parent \<and> ch_nodes ch parent = None then Inr (ch, False)
      else if parent = ch_tip ch then
        bind_r (extend_tip E C ch ident block store) (\<lambda>ch1.
        bind_r (drop_conflicting_mempool ch1) (\<lambda>ch2. Inr (ch2, True)))
      else
        bind_r (ok_or (rebuild_state_to E params (ch_nodes ch) parent) HnPanic) (\<lambda>parent_state.
        bind_r (apply_block E parent_state block) (\<lambda>_.
        let ch1 = (if store then persist C block ch else ch) in
        bind_r (ok_or (work_of (ch_nodes ch1) parent) HnPanic) (\<lambda>parent_work.
        bind_r (ok_or (work_of (ch_nodes ch1) (ch_tip ch1)) HnPanic) (\<lambda>tip_work.
        bind_r (ok_or (register_node E (ch_nodes ch1) ident block parent) HnPanic) (\<lambda>tree.
        let ch2 = ch1 \<lparr> ch_nodes := tree \<rparr> in
        if tip_work < parent_work + x_decode_bits E (hb_nbits block) then
          bind_r (set_canonical E ch2 ident) (\<lambda>ch3.
          bind_r (drop_conflicting_mempool ch3) (\<lambda>ch4. Inr (ch4, True)))
        else Inr (ch2, True))))))))"

definition ingest_persisted ::
  "('h, 't) ext \<Rightarrow> block_codec \<Rightarrow> hn_chain \<Rightarrow> hn_block \<Rightarrow> hn_error + hn_chain \<times> bool" where
  "ingest_persisted E C ch block = fork_choice_ingest E C ch block False"

definition ingest_block ::
  "('h, 't) ext \<Rightarrow> block_codec \<Rightarrow> hn_chain \<Rightarrow> hn_block \<Rightarrow> hn_error + hn_chain \<times> bool" where
  "ingest_block E C ch block =
     (if hb_pegins block \<noteq> [] \<and> (case ch_pegin_check ch of None \<Rightarrow> True
           | Some confirmed \<Rightarrow> list_ex (\<lambda>p. \<not> confirmed p) (hb_pegins block))
      then Inl HnPegInNotConfirmed
      else fork_choice_ingest E C ch block True)"

fun open_from :: "('h, 't) ext \<Rightarrow> block_codec \<Rightarrow> hn_chain \<Rightarrow> bytes list \<Rightarrow> hn_error + hn_chain" where
  "open_from E C ch [] = Inr ch"
| "open_from E C ch (payload # payloads) =
     (case bc_decode C payload of None \<Rightarrow> Inr ch
      | Some block \<Rightarrow>
          (case ingest_persisted E C ch block of
             Inl _ \<Rightarrow> Inl HnPanic
           | Inr (ch', _) \<Rightarrow> open_from E C ch' payloads))"

definition hc_open :: "('h, 't) ext \<Rightarrow> block_codec \<Rightarrow> hn_params \<Rightarrow> bytes \<Rightarrow> hn_error + hn_chain" where
  "hc_open E C params file = open_from E C (hc_create (x_perm E) params file) (read_log file)"

section \<open>Admission\<close>

definition queue_pegin :: "hn_chain \<Rightarrow> pegin_claim \<Rightarrow> hn_chain" where
  "queue_pegin ch claim =
     (if pegin_used (ch_state ch) (pc_box_id claim)
         \<or> list_ex (\<lambda>c. pc_box_id c = pc_box_id claim) (ch_pegin_queue ch) then ch
      else if (case ch_pegin_check ch of None \<Rightarrow> False | Some confirmed \<Rightarrow> \<not> confirmed claim) then ch
      else ch \<lparr> ch_pegin_queue := ch_pegin_queue ch @ [claim] \<rparr>)"

definition hc_submit :: "('h, 't) ext \<Rightarrow> hn_chain \<Rightarrow> hn_tx \<Rightarrow> hn_error + hn_chain" where
  "hc_submit E ch tx =
     bind_r (validate_tx E (ch_state ch) tx (ch_mempool_nfs ch)) (\<lambda>(nf0, nf1).
       Inr (ch \<lparr> ch_mempool_nfs := ch_mempool_nfs ch \<union> {nf_key nf0, nf_key nf1},
                ch_mempool := ch_mempool ch @ [tx] \<rparr>))"

definition submit_pegout :: "('h, 't) ext \<Rightarrow> hn_chain \<Rightarrow> pegout_tx \<Rightarrow> hn_error + hn_chain" where
  "submit_pegout E ch po =
     bind_r (validate_tx E (ch_state ch) (pt_tx po) (ch_mempool_nfs ch)) (\<lambda>(nf0, nf1).
     bind_r (ok_or (checked_add (pt_amount po) (peg_fee (hs_params (ch_state ch)) (pt_amount po))) HnBadPegOut)
       (\<lambda>burn_value.
     if pt_amount po = 0 \<or> pt_recipient po = [] \<or> length (pt_recipient po) > 4096 then Inl HnBadPegOut
     else bind_r (pub_digest (pt_tx po) pub_cmo0) (\<lambda>cm0.
       if burn_cm_expected (x_perm E) burn_value nf0 (pt_recipient po) (pt_amount po) \<noteq> cm0
       then Inl HnBadPegOut
       else Inr (ch \<lparr> ch_mempool_nfs := ch_mempool_nfs ch \<union> {nf_key nf0, nf_key nf1},
                     ch_pegouts := ch_pegouts ch @ [po] \<rparr>))))"

fun pull_mempool :: "('h, 't) ext \<Rightarrow> hn_chain \<Rightarrow> nat \<Rightarrow> hn_tx list \<Rightarrow> hn_chain \<times> nat" where
  "pull_mempool E ch n [] = (ch, n)"
| "pull_mempool E ch n (tx # txs) =
     (case hc_submit E ch tx of Inl _ \<Rightarrow> pull_mempool E ch n txs | Inr ch' \<Rightarrow> pull_mempool E ch' (n + 1) txs)"

section \<open>Sync\<close>

definition block_count :: "hn_chain \<Rightarrow> nat" where
  "block_count ch = length (ch_blocks ch)"

definition blocks_since :: "hn_chain \<Rightarrow> nat \<Rightarrow> hn_block list" where
  "blocks_since ch from_height = drop from_height (ch_blocks ch)"

text \<open>One batch: the flag is false when an invalid block stopped the sync.\<close>

fun ingest_batch ::
  "('h, 't) ext \<Rightarrow> block_codec \<Rightarrow> hn_chain \<Rightarrow> nat \<Rightarrow> hn_block list \<Rightarrow> hn_chain \<times> nat \<times> bool" where
  "ingest_batch E C ch applied [] = (ch, applied, True)"
| "ingest_batch E C ch applied (b # bs) =
     (case ingest_block E C ch b of
        Inl _ \<Rightarrow> (ch, applied, False)
      | Inr (ch', ok) \<Rightarrow> ingest_batch E C ch' (if ok then applied + 1 else applied) bs)"

text \<open>The peer is its answers: the block count and the batch it serves from a height on. The loop
  need not end; \<open>None\<close> is a sync that never returns.\<close>

partial_function (option) sync_from ::
  "('h, 't) ext \<Rightarrow> block_codec \<Rightarrow> nat \<Rightarrow> (nat \<Rightarrow> hn_block list) \<Rightarrow> hn_chain \<Rightarrow> nat \<Rightarrow> (hn_chain \<times> nat) option" where
  "sync_from E C target fetch ch applied =
     (if target \<le> block_count ch then Some (ch, applied)
      else if fetch (block_count ch) = [] then Some (ch, applied)
      else (case ingest_batch E C ch applied (fetch (block_count ch)) of (ch', applied', ok) \<Rightarrow>
        if ok then sync_from E C target fetch ch' applied' else Some (ch', applied')))"

section \<open>Production\<close>

text \<open>\<^verbatim>\<open>encrypt_note\<close> with its randomness: address, commitment, value and nonces to the ciphertext,
  \<open>None\<close> for an address that cannot be paid (a panic in \<^verbatim>\<open>mint_out\<close>).\<close>

type_synonym note_seal = "hn_address \<Rightarrow> digest \<Rightarrow> u64 \<Rightarrow> digest \<Rightarrow> digest \<Rightarrow> bytes option"

definition mint_out :: "perm \<Rightarrow> note_seal \<Rightarrow> hn_address \<Rightarrow> u64 \<Rightarrow> bytes \<Rightarrow> u32 \<Rightarrow> (digest \<times> bytes) option" where
  "mint_out perm seal dest amount ident purpose =
     (let (rho, r) = hn_mint_nonces perm ident purpose;
          cm = note_commitment perm amount (ad_owner dest) rho r
      in map_option (\<lambda>ct. (cm, ct)) (seal dest cm amount rho r))"

definition coinbase_note :: "perm \<Rightarrow> note_seal \<Rightarrow> hn_address \<Rightarrow> u64 \<Rightarrow> bytes \<Rightarrow> (digest \<times> bytes) option" where
  "coinbase_note perm seal dest amount block_ident = mint_out perm seal dest amount block_ident purpose_coinbase"

definition pegmint_note :: "perm \<Rightarrow> note_seal \<Rightarrow> hn_address \<Rightarrow> u64 \<Rightarrow> bytes \<Rightarrow> (digest \<times> bytes) option" where
  "pegmint_note perm seal dest amount box_id = mint_out perm seal dest amount box_id purpose_pegin"

definition chain_block_id :: "perm \<Rightarrow> hn_chain \<Rightarrow> bytes" where
  "chain_block_id perm ch = hn_block_id perm (hs_height (ch_state ch)) (hn_tip_root perm (ch_state ch))"

definition pending_cms_step :: "digest list \<Rightarrow> hn_tx \<Rightarrow> hn_error + digest list" where
  "pending_cms_step cms tx =
     bind_r (pub_digest tx pub_cmo0) (\<lambda>cm0. bind_r (pub_digest tx pub_cmo1) (\<lambda>cm1. Inr (cms @ [cm0, cm1])))"

definition pending_cms :: "perm \<Rightarrow> hn_chain \<Rightarrow> digest \<Rightarrow> hn_error + digest list" where
  "pending_cms perm ch coinbase_cm =
     bind_r (fold_r pending_cms_step [] (ch_mempool ch @ map pt_tx (ch_pegouts ch))) (\<lambda>cms.
       Inr (cms @ map (\<lambda>p. hn_pegmint_cm_expected perm (limbs_to_digest (pc_dest_owner p))
              (pc_amount p - peg_fee (hs_params (ch_state ch)) (pc_amount p)) (pc_box_id p)) (ch_pegin_queue ch)
            @ [coinbase_cm]))"

definition pending_pot_after :: "hn_chain \<Rightarrow> u64 \<Rightarrow> u64 \<Rightarrow> u64" where
  "pending_pot_after ch fees coinbase =
     (let params = hs_params (ch_state ch);
          peg_fees = sum_list (map (peg_fee params)
            (map pt_amount (ch_pegouts ch) @ map pc_amount (ch_pegin_queue ch)))
      in hs_pot (ch_state ch) + fees + peg_fees - coinbase)"

definition pending_shielded_after :: "hn_chain \<Rightarrow> u64 \<Rightarrow> u64 \<Rightarrow> u64" where
  "pending_shielded_after ch fees coinbase =
     (let params = hs_params (ch_state ch);
          inflow = sum_list (map pc_amount (ch_pegin_queue ch));
          pegin_fees = sum_list (map (\<lambda>p. peg_fee params (pc_amount p)) (ch_pegin_queue ch));
          burn_total = sum_list (map (\<lambda>po. pt_amount po + peg_fee params (pt_amount po)) (ch_pegouts ch))
      in hs_shielded_total (ch_state ch) + coinbase + (inflow - pegin_fees) - fees - burn_total)"

definition candidate_block ::
  "('h, 't) ext \<Rightarrow> note_seal \<Rightarrow> hn_chain \<Rightarrow> hn_address \<Rightarrow> aux_anchor \<Rightarrow> u64 \<Rightarrow> hn_error + hn_block" where
  "candidate_block E seal ch miner anchor now =
     (let s = ch_state ch; params = hs_params s;
          n_spends = length (ch_mempool ch) + length (ch_pegouts ch);
          coinbase = coinbase_amount params (hs_pot s) n_spends;
          fees = hp_flat_fee params * of_nat n_spends
      in bind_r (ok_or (coinbase_note (x_perm E) seal miner coinbase (chain_block_id (x_perm E) ch)) HnPanic)
           (\<lambda>(cm, ct).
         bind_r (pending_cms (x_perm E) ch cm) (\<lambda>cms.
         bind_r (simulate_state_root (x_perm E) s cms) (\<lambda>state_root.
         bind_r (ok_or (expected_nbits E s) HnPanic) (\<lambda>nbits.
           Inr \<lparr> hb_height = hs_height s, hb_prev_root = digest_to_limbs (hn_tip_root (x_perm E) s),
             hb_prev_header_id = ch_tip ch, hb_state_root = state_root, hb_timestamp_ms = now,
             hb_nbits = nbits, hb_txs = ch_mempool ch, hb_pegouts = ch_pegouts ch,
             hb_pegins = ch_pegin_queue ch, hb_miner_owner = digest_to_limbs (ad_owner miner),
             hb_coinbase_amount = coinbase, hb_coinbase_cm = digest_to_limbs cm, hb_coinbase_ct = ct,
             hb_coinbase_is_reward = True, hb_pot_after = pending_pot_after ch fees coinbase,
             hb_shielded_after = pending_shielded_after ch fees coinbase, hb_anchor = anchor,
             hb_aux_pow = None \<rparr>)))))"

definition append_produced ::
  "('h, 't) ext \<Rightarrow> block_codec \<Rightarrow> hn_chain \<Rightarrow> hn_block \<Rightarrow> hn_error + hn_chain" where
  "append_produced E C ch block =
     bind_r (ok_or (hn_header_id (x_perm E) (hp_chain_id (hs_params (ch_state ch))) block) HnPanic)
       (\<lambda>ident. extend_tip E C ch ident block True)"

definition produce_block_anchored ::
  "('h, 't) ext \<Rightarrow> block_codec \<Rightarrow> note_seal \<Rightarrow> hn_chain \<Rightarrow> hn_address \<Rightarrow> aux_anchor \<Rightarrow> u64
     \<Rightarrow> hn_chain \<times> (hn_error + unit)" where
  "produce_block_anchored E C seal ch miner anchor now =
     (case candidate_block E seal ch miner anchor now of
        Inl e \<Rightarrow> (ch, Inl e)
      | Inr block \<Rightarrow>
          let taken = ch \<lparr> ch_mempool := [], ch_pegouts := [], ch_pegin_queue := [] \<rparr> in
          (case append_produced E C taken block of
             Inl e \<Rightarrow> (taken, Inl e)
           | Inr ch' \<Rightarrow> (ch' \<lparr> ch_mempool_nfs := {} \<rparr>, Inr ())))"

definition produce_block ::
  "('h, 't) ext \<Rightarrow> block_codec \<Rightarrow> note_seal \<Rightarrow> hn_chain \<Rightarrow> hn_address \<Rightarrow> u64 \<Rightarrow> hn_chain \<times> (hn_error + unit)" where
  "produce_block E C seal ch miner now =
     produce_block_anchored E C seal ch miner
       \<lparr> an_header_id = chain_block_id (x_perm E) ch, an_height = hs_height (ch_state ch) \<rparr> now"

definition genesis_block ::
  "('h, 't) ext \<Rightarrow> note_seal \<Rightarrow> hn_chain \<Rightarrow> hn_address \<Rightarrow> u64 \<Rightarrow> u64 \<Rightarrow> hn_error + hn_block" where
  "genesis_block E seal ch dest amount now =
     (let s = ch_state ch in
      bind_r (ok_or (coinbase_note (x_perm E) seal dest amount (chain_block_id (x_perm E) ch)) HnPanic)
        (\<lambda>(cm, ct).
      bind_r (simulate_state_root (x_perm E) s [cm]) (\<lambda>state_root.
      bind_r (ok_or (expected_nbits E s) HnPanic) (\<lambda>nbits.
        Inr \<lparr> hb_height = hs_height s, hb_prev_root = digest_to_limbs (hn_tip_root (x_perm E) s),
          hb_prev_header_id = ch_tip ch, hb_state_root = state_root, hb_timestamp_ms = now,
          hb_nbits = nbits, hb_txs = [], hb_pegouts = [], hb_pegins = [],
          hb_miner_owner = digest_to_limbs (ad_owner dest), hb_coinbase_amount = amount,
          hb_coinbase_cm = digest_to_limbs cm, hb_coinbase_ct = ct, hb_coinbase_is_reward = False,
          hb_pot_after = hs_pot s, hb_shielded_after = hs_shielded_total s + amount,
          hb_anchor = genesis_anchor, hb_aux_pow = None \<rparr>))))"

definition hc_fund ::
  "('h, 't) ext \<Rightarrow> block_codec \<Rightarrow> note_seal \<Rightarrow> hn_chain \<Rightarrow> hn_address \<times> u64 \<Rightarrow> u64 \<Rightarrow> hn_error + hn_chain" where
  "hc_fund E C seal ch entry now =
     bind_r (genesis_block E seal ch (fst entry) (snd entry) now) (append_produced E C ch)"

text \<open>The entry number \<open>i\<close> is funded at the clock reading \<open>clock i\<close>.\<close>

definition create_genesis ::
  "('h, 't) ext \<Rightarrow> block_codec \<Rightarrow> note_seal \<Rightarrow> hn_params \<Rightarrow> bytes \<Rightarrow> (nat \<Rightarrow> u64) \<Rightarrow> hn_error + hn_chain" where
  "create_genesis E C seal params file clock =
     fold_r (\<lambda>ch (i, entry). map_err (\<lambda>_. HnPanic) (hc_fund E C seal ch entry (clock i)))
       (hc_create (x_perm E) params file) (enumerate 0 (hp_genesis params))"

end
