(* ===== verification/HnChainLog.thy ===== *)
theory HnChainLog
  imports HnChain
begin

text \<open>
  The block log of the chain manager survives torn appends; branches of the block tree and the walks over them.
\<close>

section \<open>The framed log\<close>

definition framed :: "bytes list \<Rightarrow> bytes" where
  "framed payloads = concat (map frame_record payloads)"

lemma read_log_frame:
  assumes "length p < 2 ^ 32"
  shows "read_log (frame_record p @ rest) = p # read_log rest"
proof -
  have "unat (from_le32 (to_le32 (of_nat (length p)))) = length p"
    using assms by (simp add: unat_of_nat take_bit_nat_eq_self)
  then show ?thesis
    by (subst read_log.simps) (simp add: frame_record_def Let_def)
qed

lemma read_log_framed:
  "\<forall>p \<in> set ps. length p < 2 ^ 32 \<Longrightarrow> read_log (framed ps @ rest) = ps @ read_log rest"
  by (induction ps) (simp_all add: framed_def read_log_frame)

lemma read_log_Nil [simp]: "read_log [] = []"
  by (simp add: read_log.simps)

lemma framed_append: "framed ps @ frame_record p = framed (ps @ [p])"
  by (simp add: framed_def)

text \<open>A strict prefix of a record, as a crash in the middle of an append leaves it, reads as nothing.\<close>

lemma read_log_partial:
  assumes "length p < 2 ^ 32" and "k < length (frame_record p)"
  shows "read_log (take k (frame_record p)) = []"
proof (cases "k < 4")
  case False
  have "take 4 (take k (frame_record p)) = to_le32 (of_nat (length p))"
    using False by (simp add: frame_record_def)
  moreover have "unat (from_le32 (to_le32 (of_nat (length p)))) = length p"
    using assms(1) by (simp add: unat_of_nat take_bit_nat_eq_self)
  ultimately show ?thesis
    using assms(2) False by (subst read_log.simps) (auto simp: Let_def frame_record_def)
qed (simp add: read_log.simps [of "take k (frame_record p)"] min_less_iff_disj)

text \<open>
  The block log survives a crash in the middle of an append: whatever part of a record is behind
  the complete ones, reading the file gives exactly the payloads of the complete records, in order.
\<close>

theorem log_crash_safe:
  assumes "\<forall>p \<in> set ps. length p < 2 ^ 32" and "length q < 2 ^ 32" and "k < length (frame_record q)"
  shows "read_log (foldl append_record [] ps @ take k (frame_record q)) = ps"
proof -
  have "foldl append_record acc ps = acc @ framed ps" for acc
    by (induction ps arbitrary: acc) (simp_all add: framed_def append_record_def)
  then show ?thesis
    using read_log_framed [OF assms(1)] read_log_partial [OF assms(2,3)] by simp
qed

text \<open>Recovery stops there: the next append goes behind the partial record and is read as part of it.\<close>

lemma append_after_partial_lost:
  "read_log (append_record (append_record [] [1] @ take 5 (frame_record [2, 3, 4])) [9])
    \<noteq> read_log (append_record [] [1]) @ [[9]]"
proof -
  have f: "frame_record [2, 3, 4] = [3, 0, 0, 0, 2, 3, 4]" "frame_record [1] = [1, 0, 0, 0, 1]"
    "frame_record [9] = [1, 0, 0, 0, 9]"
    by (simp_all add: frame_record_def to_le32_def upt_rec)
  show ?thesis
    by (simp add: append_record_def f read_log.simps from_le32_def Let_def)
qed

section \<open>Branches of the block tree\<close>

text \<open>\<open>branch E cid tree ident bs w\<close>: the blocks \<open>bs\<close> lead from the root to \<open>ident\<close>, with total work \<open>w\<close>.\<close>

inductive branch :: "('h, 't) ext \<Rightarrow> u32 \<Rightarrow> (bytes \<Rightarrow> hn_node option) \<Rightarrow> bytes \<Rightarrow> hn_block list \<Rightarrow> nat \<Rightarrow> bool"
  for E cid tree where
  root: "branch E cid tree genesis_parent [] 0"
| node: "branch E cid tree (nd_parent n) bs w \<Longrightarrow> ident \<noteq> genesis_parent \<Longrightarrow> tree ident = Some n \<Longrightarrow>
    nd_work n = w + x_decode_bits E (hb_nbits (nd_block n)) \<Longrightarrow> nd_parent n = hb_prev_header_id (nd_block n) \<Longrightarrow>
    hn_header_id (x_perm E) cid (nd_block n) = Some ident \<Longrightarrow>
    branch E cid tree ident (bs @ [nd_block n]) (nd_work n)"

lemma branch_work: "branch E cid tree ident bs w \<Longrightarrow> work_of tree ident = Some w"
  by (induction rule: branch.induct) (simp_all add: work_of_def)

lemma branch_total: "branch E cid tree ident bs w \<Longrightarrow> w = sum_list (map (\<lambda>b. x_decode_bits E (hb_nbits b)) bs)"
  by (induction rule: branch.induct) simp_all

lemma branch_path: "branch E cid tree ident bs w \<Longrightarrow>
    \<exists>ids. path_up tree ident = Some ids \<and> map (\<lambda>i. map_option nd_block (tree i)) ids = map Some (rev bs)"
proof (induction rule: branch.induct)
  case root
  show ?case by (subst path_up.simps) simp
next
  case (node n bs w ident)
  then show ?case by (subst path_up.simps) auto
qed

lemma those_map_id: "those (map Some xs) = Some xs"
  by (induction xs) simp_all

lemma branch_branch_blocks: "branch E cid tree ident bs w \<Longrightarrow> branch_blocks tree ident = Some bs"
proof -
  assume "branch E cid tree ident bs w"
  from branch_path [OF this] obtain ids where ids: "path_up tree ident = Some ids"
    "map (\<lambda>i. map_option nd_block (tree i)) ids = map Some (rev bs)" by blast
  have "map (\<lambda>i. map_option nd_block (tree i)) (rev ids) = map Some bs"
    using ids(2) by (metis rev_map rev_rev_ident)
  then show ?thesis by (simp add: branch_blocks_def path_ids_def ids(1) those_map_id)
qed

lemma branch_unique: "branch E cid tree ident bs w \<Longrightarrow> branch E cid tree ident bs' w' \<Longrightarrow> bs' = bs \<and> w' = w"
  using branch_branch_blocks branch_work by (metis option.inject)

lemma branch_upd:
  "branch E cid tree ident bs w \<Longrightarrow> tree new_id = None \<Longrightarrow> branch E cid (tree (new_id \<mapsto> n)) ident bs w"
proof (induction rule: branch.induct)
  case (node m bs w ident)
  then have at: "(tree (new_id \<mapsto> n)) ident = Some m" by auto
  have up: "branch E cid (tree (new_id \<mapsto> n)) (nd_parent m) bs w" by (rule node.IH [OF node.prems])
  show ?case by (rule branch.node [OF up node.hyps(2) at node.hyps(4-6)])
qed (rule branch.root)

lemma branch_register:
  assumes "branch E cid tree parent bs w" and "register_node E tree ident block parent = Some tree'"
    and "tree ident = None" "ident \<noteq> genesis_parent"
    and "hn_header_id (x_perm E) cid block = Some ident" "parent = hb_prev_header_id block"
  shows "branch E cid tree' ident (bs @ [block]) (w + x_decode_bits E (hb_nbits block))"
proof -
  let ?n = "\<lparr> nd_block = block, nd_parent = parent, nd_work = w + x_decode_bits E (hb_nbits block) \<rparr>"
  have tree': "tree' = tree (ident \<mapsto> ?n)"
    using assms(2) branch_work [OF assms(1)] by (simp add: register_node_def)
  have "branch E cid tree' (nd_parent ?n) bs w"
    unfolding tree' using branch_upd [OF assms(1,3)] by simp
  from branch.node [OF this, of ident] assms show ?thesis by (simp add: tree')
qed

end
