(* ===== verification/HnChainInv.thy ===== *)
theory HnChainInv
  imports HnChainLog
begin

text \<open>
  The invariant of the chain manager (\<^verbatim>\<open>aegis-node/src/hn/chain.rs\<close>): every known block is on a branch the ledger has accepted, and the canonical branch is a heaviest one.
\<close>

section \<open>The invariant of the chain manager\<close>

abbreviation chain_cid :: "hn_chain \<Rightarrow> u32" where
  "chain_cid ch \<equiv> hp_chain_id (hs_params (ch_state ch))"

definition tree_ok :: "('h, 't) ext \<Rightarrow> hn_params \<Rightarrow> (bytes \<Rightarrow> hn_node option) \<Rightarrow> bool" where
  "tree_ok E params tree \<longleftrightarrow> (\<forall>ident n. tree ident = Some n \<longrightarrow>
     (\<exists>bs s. branch E (hp_chain_id params) tree ident bs (nd_work n) \<and> hn_reach E params bs s))"

definition chain_inv :: "('h, 't) ext \<Rightarrow> hn_params \<Rightarrow> hn_chain \<Rightarrow> bool" where
  "chain_inv E params ch \<longleftrightarrow> hn_reach E params (ch_blocks ch) (ch_state ch)
     \<and> tree_ok E params (ch_nodes ch)
     \<and> (\<exists>w. branch E (hp_chain_id params) (ch_nodes ch) (ch_tip ch) (ch_blocks ch) w
          \<and> (\<forall>ident n. ch_nodes ch ident = Some n \<longrightarrow> nd_work n \<le> w))"

text \<open>What a new block needs to enter the tree: an id that is neither the sentinel nor taken.\<close>

definition fresh_header :: "('h, 't) ext \<Rightarrow> hn_chain \<Rightarrow> hn_block \<Rightarrow> bool" where
  "fresh_header E ch block \<longleftrightarrow> (\<forall>ident. hn_header_id (x_perm E) (chain_cid ch) block = Some ident \<longrightarrow>
     ident \<noteq> genesis_parent \<and> ch_nodes ch ident = None)"

lemma chain_inv_params: "chain_inv E params ch \<Longrightarrow> hs_params (ch_state ch) = params"
  by (auto simp: chain_inv_def dest: hn_reach_params)

lemma chain_inv_create: "chain_inv E params (hc_create (x_perm E) params file)"
  by (auto simp: chain_inv_def hc_create_def tree_ok_def intro: hn_reach.genesis branch.root)

lemma chain_inv_fields:
  "ch_state ch' = ch_state ch \<Longrightarrow> ch_blocks ch' = ch_blocks ch \<Longrightarrow> ch_nodes ch' = ch_nodes ch \<Longrightarrow>
    ch_tip ch' = ch_tip ch \<Longrightarrow> chain_inv E params ch' \<longleftrightarrow> chain_inv E params ch"
  by (simp add: chain_inv_def)

lemma tree_ok_known:
  assumes "tree_ok E params tree" and "parent = genesis_parent \<or> tree parent \<noteq> None"
  obtains bs s w where "branch E (hp_chain_id params) tree parent bs w" "hn_reach E params bs s"
    "rebuild_state_to E params tree parent = Some s" "work_of tree parent = Some w"
proof -
  have "\<exists>bs s w. branch E (hp_chain_id params) tree parent bs w \<and> hn_reach E params bs s"
  proof (cases "parent = genesis_parent")
    case True
    then show ?thesis using branch.root hn_reach.genesis by metis
  next
    case False
    with assms show ?thesis by (auto simp: tree_ok_def) blast
  qed
  then obtain bs s w where b: "branch E (hp_chain_id params) tree parent bs w" and r: "hn_reach E params bs s"
    by blast
  have "rebuild_state_to E params tree parent = Some s"
    using r by (simp add: rebuild_state_to_def branch_branch_blocks [OF b] hn_reach_replay)
  with that b r branch_work [OF b] show thesis by blast
qed

lemma tree_ok_register:
  assumes "tree_ok E params tree" and "branch E (hp_chain_id params) tree parent bs w" "hn_reach E params bs s"
    and "apply_block E s block = Inr (s', u)"
    and "register_node E tree ident block parent = Some tree'" and "tree ident = None" "ident \<noteq> genesis_parent"
    and "hn_header_id (x_perm E) (hp_chain_id params) block = Some ident" "parent = hb_prev_header_id block"
  shows "tree_ok E params tree'"
  unfolding tree_ok_def
proof (intro allI impI)
  fix i n
  assume n: "tree' i = Some n"
  have tree': "tree' = tree (ident \<mapsto> \<lparr> nd_block = block, nd_parent = parent,
      nd_work = w + x_decode_bits E (hb_nbits block) \<rparr>)"
    using assms(5) branch_work [OF assms(2)] by (simp add: register_node_def)
  show "\<exists>bs s. branch E (hp_chain_id params) tree' i bs (nd_work n) \<and> hn_reach E params bs s"
  proof (cases "i = ident")
    case True
    with n tree' have "nd_work n = w + x_decode_bits E (hb_nbits block)" by auto
    with True branch_register [OF assms(2,5-9)] hn_reach.block [OF assms(3,4)] show ?thesis by auto
  next
    case False
    with n tree' have "tree i = Some n" by auto
    with assms(1) obtain bs' s'' where "branch E (hp_chain_id params) tree i bs' (nd_work n)" "hn_reach E params bs' s''"
      unfolding tree_ok_def by blast
    with branch_upd [OF this(1) assms(6)] show ?thesis unfolding tree' by blast
  qed
qed

lemma extend_tipE:
  assumes "extend_tip E C ch ident block store = Inr ch'"
  obtains s u tree where "apply_block E (ch_state ch) block = Inr (s, u)"
    and "register_node E (ch_nodes ch) ident block (ch_tip ch) = Some tree"
    and "ch' = (if store then persist C block ch else ch)
      \<lparr> ch_state := s, ch_blocks := ch_blocks ch @ [block], ch_nodes := tree, ch_tip := ident \<rparr>"
  using assms by (auto simp: extend_tip_def result_simps Let_def persist_def split: if_splits)

lemma extend_tip_inv:
  assumes inv: "chain_inv E params ch" and ext: "extend_tip E C ch ident block store = Inr ch'"
    and new: "ch_nodes ch ident = None" "ident \<noteq> genesis_parent"
    and hid: "hn_header_id (x_perm E) (hp_chain_id params) block = Some ident" "hb_prev_header_id block = ch_tip ch"
  shows "chain_inv E params ch'"
proof -
  from ext obtain s u tree where app: "apply_block E (ch_state ch) block = Inr (s, u)"
    and reg: "register_node E (ch_nodes ch) ident block (ch_tip ch) = Some tree"
    and ch': "ch' = (if store then persist C block ch else ch)
      \<lparr> ch_state := s, ch_blocks := ch_blocks ch @ [block], ch_nodes := tree, ch_tip := ident \<rparr>"
    by (rule extend_tipE)
  from inv obtain w where r: "hn_reach E params (ch_blocks ch) (ch_state ch)" and t: "tree_ok E params (ch_nodes ch)"
    and b: "branch E (hp_chain_id params) (ch_nodes ch) (ch_tip ch) (ch_blocks ch) w"
    and m: "\<forall>i n. ch_nodes ch i = Some n \<longrightarrow> nd_work n \<le> w"
    by (auto simp: chain_inv_def)
  have tree: "tree = (ch_nodes ch) (ident \<mapsto> \<lparr> nd_block = block, nd_parent = ch_tip ch,
      nd_work = w + x_decode_bits E (hb_nbits block) \<rparr>)"
    using reg branch_work [OF b] by (simp add: register_node_def)
  have "\<forall>i n. tree i = Some n \<longrightarrow> nd_work n \<le> w + x_decode_bits E (hb_nbits block)"
    using m by (auto simp: tree intro: trans_le_add1)
  moreover have "branch E (hp_chain_id params) tree ident (ch_blocks ch @ [block]) (w + x_decode_bits E (hb_nbits block))"
    by (rule branch_register [OF b reg new hid(1)]) (simp add: hid(2))
  moreover have "tree_ok E params tree"
    by (rule tree_ok_register [OF t b r app reg new hid(1)]) (simp add: hid(2))
  moreover have "hn_reach E params (ch_blocks ch @ [block]) s" by (rule hn_reach.block [OF r app])
  ultimately show ?thesis by (auto simp: chain_inv_def ch' persist_def)
qed

lemma drop_conflicting_fields:
  assumes "drop_conflicting_mempool ch = Inr ch'"
  obtains kept where "fold_r (drop_step (ch_state ch)) [] (ch_mempool ch) = Inr kept"
    and "ch' = ch \<lparr> ch_mempool := kept \<rparr>"
  using assms by (auto simp: drop_conflicting_mempool_def result_simps)

lemma drop_conflicting_inv:
  "drop_conflicting_mempool ch = Inr ch' \<Longrightarrow> chain_inv E params ch' \<longleftrightarrow> chain_inv E params ch"
  by (elim drop_conflicting_fields) (rule chain_inv_fields; simp)

text \<open>The successful outcomes of an ingest: already known or orphaned, an extension of the tip, a
  block on a branch that does not win, and a reorganisation.\<close>

lemma fork_choice_ingestE:
  assumes "fork_choice_ingest E C ch block store = Inr (ch', ok)"
  obtains (skip) "\<not> ok" "ch' = ch"
  | (extend) ident ch1 where ok "hn_header_id (x_perm E) (chain_cid ch) block = Some ident" "ch_nodes ch ident = None"
      "hb_prev_header_id block = ch_tip ch" "extend_tip E C ch ident block store = Inr ch1"
      "drop_conflicting_mempool ch1 = Inr ch'"
  | (fork) ident parent_state s' u tree pw tw ch2 where ok
      "hn_header_id (x_perm E) (chain_cid ch) block = Some ident" "ch_nodes ch ident = None"
      "hb_prev_header_id block = genesis_parent \<or> ch_nodes ch (hb_prev_header_id block) \<noteq> None"
      "hb_prev_header_id block \<noteq> ch_tip ch"
      "rebuild_state_to E (hs_params (ch_state ch)) (ch_nodes ch) (hb_prev_header_id block) = Some parent_state"
      "apply_block E parent_state block = Inr (s', u)"
      "work_of (ch_nodes ch) (hb_prev_header_id block) = Some pw" "work_of (ch_nodes ch) (ch_tip ch) = Some tw"
      "register_node E (ch_nodes ch) ident block (hb_prev_header_id block) = Some tree"
      "ch2 = (if store then persist C block ch else ch) \<lparr> ch_nodes := tree \<rparr>"
      "if tw < pw + x_decode_bits E (hb_nbits block)
       then (\<exists>ch3. set_canonical E ch2 ident = Inr ch3 \<and> drop_conflicting_mempool ch3 = Inr ch') else ch' = ch2"
proof -
  have nodes: "ch_nodes (if store then persist C block ch else ch) = ch_nodes ch"
      "ch_tip (if store then persist C block ch else ch) = ch_tip ch"
    by (simp_all add: persist_def)
  note unf = assms [unfolded fork_choice_ingest_def Let_def nodes]
  from unf obtain ident where ident: "hn_header_id (x_perm E) (chain_cid ch) block = Some ident"
    by (auto simp: result_simps)
  show thesis
  proof (cases "ch_nodes ch ident \<noteq> None \<or> (hb_prev_header_id block \<noteq> genesis_parent \<and> ch_nodes ch (hb_prev_header_id block) = None)")
    case True
    with unf ident have "\<not> ok" "ch' = ch" by (auto split: if_splits)
    then show thesis by (rule skip)
  next
    case new: False
    show thesis
    proof (cases "hb_prev_header_id block = ch_tip ch")
      case True
      with unf ident new obtain ch1 where "extend_tip E C ch ident block store = Inr ch1"
        "drop_conflicting_mempool ch1 = Inr ch'" ok
        by (auto simp: result_simps split: if_splits)
      with True ident new show thesis by (intro extend) auto
    next
      case False
      with unf ident new show thesis
        by (auto simp: result_simps split: if_splits intro!: fork)
    qed
  qed
qed


lemma set_canonicalE:
  assumes "set_canonical E ch target = Inr ch'"
  obtains s bs where "rebuild_state_to E (hs_params (ch_state ch)) (ch_nodes ch) target = Some s"
    "branch_blocks (ch_nodes ch) target = Some bs" "ch' = ch \<lparr> ch_state := s, ch_tip := target, ch_blocks := bs \<rparr>"
  using assms by (auto simp: set_canonical_def result_simps)

lemma fork_choice_ingest_inv:
  assumes inv: "chain_inv E params ch" and ing: "fork_choice_ingest E C ch block store = Inr (ch', ok)"
    and nz: "hn_header_id (x_perm E) (hp_chain_id params) block \<noteq> Some genesis_parent"
  shows "chain_inv E params ch'"
proof -
  note par = chain_inv_params [OF inv]
  from inv obtain w where r: "hn_reach E params (ch_blocks ch) (ch_state ch)" and t: "tree_ok E params (ch_nodes ch)"
    and b: "branch E (hp_chain_id params) (ch_nodes ch) (ch_tip ch) (ch_blocks ch) w"
    and m: "\<forall>i n. ch_nodes ch i = Some n \<longrightarrow> nd_work n \<le> w"
    by (auto simp: chain_inv_def)
  from ing show ?thesis
  proof (cases rule: fork_choice_ingestE)
    case skip
    with inv show ?thesis by simp
  next
    case (extend ident ch1)
    have "ident \<noteq> genesis_parent" using extend(2) nz by (auto simp: par)
    from extend_tip_inv [OF inv extend(5,3) this extend(2)[unfolded par] extend(4)]
    show ?thesis by (simp add: drop_conflicting_inv [OF extend(6)])
  next
    case (fork ident ps s' u tree pw tw ch2)
    have ne: "ident \<noteq> genesis_parent" using fork(2) nz by (auto simp: par)
    let ?p = "hb_prev_header_id block"
    obtain bs s0 w0 where known: "branch E (hp_chain_id params) (ch_nodes ch) ?p bs w0" "hn_reach E params bs s0"
      "rebuild_state_to E params (ch_nodes ch) ?p = Some s0" "work_of (ch_nodes ch) ?p = Some w0"
      by (rule tree_ok_known [OF t fork(4)])
    have eq: "ps = s0" "pw = w0" "tw = w"
      using fork(6,8,9) known(3,4) branch_work [OF b] by (simp_all add: par)
    have tree: "tree = (ch_nodes ch) (ident \<mapsto> \<lparr> nd_block = block, nd_parent = ?p,
        nd_work = w0 + x_decode_bits E (hb_nbits block) \<rparr>)"
      using fork(10) known(4) by (simp add: register_node_def)
    have hid: "hn_header_id (x_perm E) (hp_chain_id params) block = Some ident" using fork(2) by (simp add: par)
    note reg = fork(10) and app = fork(7) [unfolded eq]
    have tok: "tree_ok E params tree"
      by (rule tree_ok_register [OF t known(1,2) app reg fork(3) ne hid refl])
    have new: "branch E (hp_chain_id params) tree ident (bs @ [block]) (w0 + x_decode_bits E (hb_nbits block))"
      by (rule branch_register [OF known(1) reg fork(3) ne hid refl])
    have old: "branch E (hp_chain_id params) tree (ch_tip ch) (ch_blocks ch) w"
      unfolding tree by (rule branch_upd [OF b fork(3)])
    have le: "\<forall>i n. tree i = Some n \<longrightarrow> nd_work n \<le> max w (w0 + x_decode_bits E (hb_nbits block))"
      using m by (auto simp: tree max_def intro: order_trans)
    have f2: "ch_nodes ch2 = tree" "ch_tip ch2 = ch_tip ch" "ch_blocks ch2 = ch_blocks ch" "ch_state ch2 = ch_state ch"
      by (simp_all add: fork(11) persist_def)
    show ?thesis
    proof (cases "w < w0 + x_decode_bits E (hb_nbits block)")
      case False
      with fork(12) have "ch' = ch2" by (simp add: eq)
      moreover have "max w (w0 + x_decode_bits E (hb_nbits block)) = w" using False by simp
      ultimately show ?thesis using r tok old le f2 by (auto simp: chain_inv_def)
    next
      case True
      with fork(12) obtain ch3 where c3: "set_canonical E ch2 ident = Inr ch3" "drop_conflicting_mempool ch3 = Inr ch'"
        by (auto simp: eq)
      have reach: "hn_reach E params (bs @ [block]) s'" by (rule hn_reach.block [OF known(2) app])
      have "rebuild_state_to E params tree ident = Some s'"
        using reach by (simp add: rebuild_state_to_def branch_branch_blocks [OF new] hn_reach_replay)
      with c3(1) branch_branch_blocks [OF new] have "ch3 = ch2 \<lparr> ch_state := s', ch_tip := ident, ch_blocks := bs @ [block] \<rparr>"
        by (auto elim!: set_canonicalE simp: f2 par)
      moreover have "max w (w0 + x_decode_bits E (hb_nbits block)) = w0 + x_decode_bits E (hb_nbits block)"
        using True by simp
      ultimately have "chain_inv E params ch3" using reach tok new le f2 by (auto simp: chain_inv_def)
      then show ?thesis by (simp add: drop_conflicting_inv [OF c3(2)])
    qed
  qed
qed

end
