(* ===== verification/HnChainRun.thy ===== *)
theory HnChainRun
  imports HnChainInv
begin

text \<open>
  The mempool invariant, and the runs of the chain manager with both invariants.
\<close>

section \<open>Mempool\<close>

definition tx_apart :: "hn_tx \<Rightarrow> hn_tx \<Rightarrow> bool" where
  "tx_apart t v \<longleftrightarrow> set (tx_nfs t) \<inter> set (tx_nfs v) = {}"

definition pending_txs :: "hn_chain \<Rightarrow> hn_tx list" where
  "pending_txs ch = ch_mempool ch @ map pt_tx (ch_pegouts ch)"

definition mempool_inv :: "hn_chain \<Rightarrow> bool" where
  "mempool_inv ch \<longleftrightarrow> (\<forall>tx \<in> set (pending_txs ch). length (tx_publics tx) = n_pub
        \<and> set (tx_nfs tx) \<subseteq> ch_mempool_nfs ch)
     \<and> sorted_wrt tx_apart (pending_txs ch)
     \<and> (\<forall>tx \<in> set (ch_mempool ch). set (tx_nfs tx) \<inter> hs_nullifiers (ch_state ch) = {})"

lemma tx_nfs_shape:
  assumes "length (tx_publics tx) = n_pub"
  obtains nf0 nf1 where "pub_digest tx pub_nf0 = Inr nf0" "pub_digest tx pub_nf1 = Inr nf1"
    "tx_nfs tx = [nf_key nf0, nf_key nf1]"
  using assms by (auto simp: pub_digest_def digest_at_def n_pub_def pub_nf0_def pub_nf1_def tx_nfs_def)

lemma drop_fold:
  "\<forall>tx \<in> set txs. length (tx_publics tx) = n_pub \<Longrightarrow>
    fold_r (drop_step s) kept txs = Inr (kept @ filter (\<lambda>tx. set (tx_nfs tx) \<inter> hs_nullifiers s = {}) txs)"
proof (induction txs arbitrary: kept)
  case (Cons tx txs)
  then obtain nf0 nf1 where "pub_digest tx pub_nf0 = Inr nf0" "pub_digest tx pub_nf1 = Inr nf1"
    "tx_nfs tx = [nf_key nf0, nf_key nf1]"
    by (metis list.set_intros(1) tx_nfs_shape)
  with Cons show ?case by (auto simp: drop_step_def nullifier_seen_def)
qed simp

lemma drop_conflicting_eq:
  "mempool_inv ch \<Longrightarrow> ch_mempool ch1 = ch_mempool ch \<Longrightarrow>
    drop_conflicting_mempool ch1 = Inr (ch1 \<lparr> ch_mempool :=
      filter (\<lambda>tx. set (tx_nfs tx) \<inter> hs_nullifiers (ch_state ch1) = {}) (ch_mempool ch) \<rparr>)"
  by (simp add: drop_conflicting_mempool_def mempool_inv_def pending_txs_def drop_fold)

lemma mempool_inv_filter:
  assumes "mempool_inv ch" and "ch_mempool ch' = filter (\<lambda>tx. set (tx_nfs tx) \<inter> hs_nullifiers (ch_state ch') = {}) (ch_mempool ch)"
    and "ch_pegouts ch' = ch_pegouts ch" and "ch_mempool_nfs ch' = ch_mempool_nfs ch"
  shows "mempool_inv ch'"
  using assms by (auto simp: mempool_inv_def pending_txs_def sorted_wrt_append sorted_wrt_filter)

lemma extend_tip_mempool:
  "extend_tip E C ch ident block store = Inr ch' \<Longrightarrow> ch_mempool ch' = ch_mempool ch \<and> ch_pegouts ch' = ch_pegouts ch
    \<and> ch_mempool_nfs ch' = ch_mempool_nfs ch"
  by (elim extend_tipE) (simp add: persist_def)

lemma fork_choice_ingest_mempool:
  assumes "mempool_inv ch" and "fork_choice_ingest E C ch block store = Inr (ch', ok)"
  shows "mempool_inv ch'"
  using assms(2)
proof (cases rule: fork_choice_ingestE)
  case skip
  with assms(1) show ?thesis by simp
next
  case (extend ident ch1)
  note m = extend_tip_mempool [OF extend(5)]
  have "ch' = ch1 \<lparr> ch_mempool := filter (\<lambda>tx. set (tx_nfs tx) \<inter> hs_nullifiers (ch_state ch1) = {}) (ch_mempool ch) \<rparr>"
    using trans [OF sym [OF extend(6)] drop_conflicting_eq [OF assms(1) conjunct1 [OF m]]] by (rule Inr_inject)
  then show ?thesis by (intro mempool_inv_filter [OF assms(1)]) (simp_all add: m conjunct1 [OF m])
next
  case (fork ident ps s' u tree pw tw ch2)
  have m: "ch_mempool ch2 = ch_mempool ch" "ch_pegouts ch2 = ch_pegouts ch" "ch_mempool_nfs ch2 = ch_mempool_nfs ch"
    "ch_state ch2 = ch_state ch"
    by (simp_all add: fork(11) persist_def)
  show ?thesis
  proof (cases "tw < pw + x_decode_bits E (hb_nbits block)")
    case True
    with fork(12) obtain ch3 where c3: "set_canonical E ch2 ident = Inr ch3" "drop_conflicting_mempool ch3 = Inr ch'" by auto
    from c3(1) have m3: "ch_mempool ch3 = ch_mempool ch" "ch_pegouts ch3 = ch_pegouts ch" "ch_mempool_nfs ch3 = ch_mempool_nfs ch"
      by (rule set_canonicalE, simp add: m)+
    have "ch' = ch3 \<lparr> ch_mempool := filter (\<lambda>tx. set (tx_nfs tx) \<inter> hs_nullifiers (ch_state ch3) = {}) (ch_mempool ch) \<rparr>"
      using trans [OF sym [OF c3(2)] drop_conflicting_eq [OF assms(1) m3(1)]] by (rule Inr_inject)
    then show ?thesis by (intro mempool_inv_filter [OF assms(1)]) (simp_all add: m3)
  next
    case False
    with fork(12) have "ch' = ch2" by simp
    with assms(1) m show ?thesis by (simp add: mempool_inv_def pending_txs_def)
  qed
qed

section \<open>Runs of the chain manager\<close>

text \<open>
  Everything the manager can do from an empty directory: fund a genesis entry, admit
  transactions, peg-outs and deposits, wire the deposit view, ingest a block from a peer, produce a
  block or fail to. A produced block must have a new id; an ingested one only an id that is not the sentinel.
\<close>

inductive chain_run :: "('h, 't) ext \<Rightarrow> block_codec \<Rightarrow> note_seal \<Rightarrow> hn_params \<Rightarrow> hn_chain \<Rightarrow> bool"
  for E C seal params where
  create: "chain_run E C seal params (hc_create (x_perm E) params [])"
| fund: "chain_run E C seal params ch \<Longrightarrow> genesis_block E seal ch dest amount now = Inr block \<Longrightarrow>
    fresh_header E ch block \<Longrightarrow> hc_fund E C seal ch (dest, amount) now = Inr ch' \<Longrightarrow> chain_run E C seal params ch'"
| submit: "chain_run E C seal params ch \<Longrightarrow> hc_submit E ch tx = Inr ch' \<Longrightarrow> chain_run E C seal params ch'"
| pegout: "chain_run E C seal params ch \<Longrightarrow> submit_pegout E ch po = Inr ch' \<Longrightarrow> chain_run E C seal params ch'"
| pegin: "chain_run E C seal params ch \<Longrightarrow> chain_run E C seal params (queue_pegin ch claim)"
| check: "chain_run E C seal params ch \<Longrightarrow> chain_run E C seal params (ch \<lparr> ch_pegin_check := chk \<rparr>)"
| ingest: "chain_run E C seal params ch \<Longrightarrow> hn_header_id (x_perm E) (hp_chain_id params) block \<noteq> Some genesis_parent \<Longrightarrow>
    ingest_block E C ch block = Inr (ch', ok) \<Longrightarrow> chain_run E C seal params ch'"
| produce: "chain_run E C seal params ch \<Longrightarrow> candidate_block E seal ch miner anchor now = Inr block \<Longrightarrow>
    fresh_header E ch block \<Longrightarrow> produce_block_anchored E C seal ch miner anchor now = (ch', res) \<Longrightarrow>
    res \<noteq> Inl HnPanic \<Longrightarrow> chain_run E C seal params ch'"

lemma ingest_blockE:
  assumes "ingest_block E C ch block = Inr (ch', ok)"
  obtains "fork_choice_ingest E C ch block True = Inr (ch', ok)"
  using assms by (auto simp: ingest_block_def split: if_splits)

lemma candidate_links:
  "candidate_block E seal ch miner anchor now = Inr block \<Longrightarrow> hb_prev_header_id block = ch_tip ch"
  by (auto simp: candidate_block_def Let_def result_simps)

lemma genesis_links:
  "genesis_block E seal ch dest amount now = Inr block \<Longrightarrow> hb_prev_header_id block = ch_tip ch"
  by (auto simp: genesis_block_def Let_def result_simps)

lemma append_producedE:
  assumes "append_produced E C ch block = Inr ch'" and "fresh_header E ch block"
  obtains ident where "hn_header_id (x_perm E) (chain_cid ch) block = Some ident" "ident \<noteq> genesis_parent"
    "ch_nodes ch ident = None" "extend_tip E C ch ident block True = Inr ch'"
  using assms by (auto simp: append_produced_def result_simps fresh_header_def)

lemma append_produced_inv:
  assumes "chain_inv E params ch" "append_produced E C ch block = Inr ch'" "fresh_header E ch block"
    and "hb_prev_header_id block = ch_tip ch"
  shows "chain_inv E params ch'"
  using assms(2,3)
  by (rule append_producedE) (metis assms(1,4) chain_inv_params extend_tip_inv)

text \<open>Production: what it gives up before it applies the block.\<close>

definition taken :: "hn_chain \<Rightarrow> hn_chain" where
  "taken ch = ch \<lparr> ch_mempool := [], ch_pegouts := [], ch_pegin_queue := [] \<rparr>"

lemma taken_fields [simp]:
  "ch_state (taken ch) = ch_state ch" "ch_blocks (taken ch) = ch_blocks ch" "ch_nodes (taken ch) = ch_nodes ch"
  "ch_tip (taken ch) = ch_tip ch" "ch_log (taken ch) = ch_log ch" "ch_mempool (taken ch) = []"
  "ch_pegouts (taken ch) = []" "ch_mempool_nfs (taken ch) = ch_mempool_nfs ch"
  by (simp_all add: taken_def)

lemma produce_cases:
  assumes "produce_block_anchored E C seal ch miner anchor now = (ch', res)"
    and "candidate_block E seal ch miner anchor now = Inr block"
  obtains (ok) ch1 where "append_produced E C (taken ch) block = Inr ch1" "ch' = ch1 \<lparr> ch_mempool_nfs := {} \<rparr>" "res = Inr ()"
  | (failed) e where "append_produced E C (taken ch) block = Inl e" "ch' = taken ch" "res = Inl e"
  using assms by (auto simp: produce_block_anchored_def taken_def Let_def split: sum.splits)

lemma produce_inv:
  assumes "chain_inv E params ch" "produce_block_anchored E C seal ch miner anchor now = (ch', res)"
    and "candidate_block E seal ch miner anchor now = Inr block" "fresh_header E ch block"
  shows "chain_inv E params ch'"
  using assms(2,3)
proof (cases rule: produce_cases)
  case (ok ch1)
  have inv: "chain_inv E params (taken ch)" using assms(1) chain_inv_fields [of "taken ch" ch E params] by simp
  have fresh: "fresh_header E (taken ch) block" using assms(4) by (simp add: fresh_header_def)
  have link: "hb_prev_header_id block = ch_tip (taken ch)" using candidate_links [OF assms(3)] by simp
  have "chain_inv E params ch1" by (rule append_produced_inv [OF inv ok(1) fresh link])
  with ok(2) chain_inv_fields [of ch' ch1 E params] show ?thesis by simp
next
  case (failed e)
  with assms(1) chain_inv_fields [of ch' ch E params] show ?thesis by simp
qed

lemma chain_run_inv: "chain_run E C seal params ch \<Longrightarrow> chain_inv E params ch"
proof (induction rule: chain_run.induct)
  case create
  show ?case by (rule chain_inv_create)
next
  case (fund ch dest amount now block ch')
  then have "append_produced E C ch block = Inr ch'" by (simp add: hc_fund_def)
  from append_produced_inv [OF fund.IH this fund.hyps(3) genesis_links [OF fund.hyps(2)]] show ?case .
next
  case (submit ch tx ch')
  then have "ch_state ch' = ch_state ch" "ch_blocks ch' = ch_blocks ch" "ch_nodes ch' = ch_nodes ch" "ch_tip ch' = ch_tip ch"
    by (auto simp: hc_submit_def result_simps)
  with chain_inv_fields submit.IH show ?case by blast
next
  case (pegout ch po ch')
  then have "ch_state ch' = ch_state ch" "ch_blocks ch' = ch_blocks ch" "ch_nodes ch' = ch_nodes ch" "ch_tip ch' = ch_tip ch"
    by (auto simp: submit_pegout_def result_simps split: if_splits)
  with chain_inv_fields pegout.IH show ?case by blast
next
  case (pegin ch claim)
  have "ch_state (queue_pegin ch claim) = ch_state ch" "ch_blocks (queue_pegin ch claim) = ch_blocks ch"
    "ch_nodes (queue_pegin ch claim) = ch_nodes ch" "ch_tip (queue_pegin ch claim) = ch_tip ch"
    by (auto simp: queue_pegin_def)
  with chain_inv_fields pegin.IH show ?case by blast
next
  case (check ch chk)
  have "chain_inv E params (ch \<lparr> ch_pegin_check := chk \<rparr>) \<longleftrightarrow> chain_inv E params ch"
    by (rule chain_inv_fields) simp_all
  with check.IH show ?case by simp
next
  case (ingest ch block ch' ok)
  from ingest.hyps(3) show ?case
    by (rule ingest_blockE) (rule fork_choice_ingest_inv [OF ingest.IH _ ingest.hyps(2)])
next
  case (produce ch miner anchor now block ch' res)
  show ?case by (rule produce_inv [OF produce.IH produce.hyps(4,2,3)])
qed

lemma chain_run_mempool: "chain_run E C seal params ch \<Longrightarrow> mempool_inv ch"
proof (induction rule: chain_run.induct)
  case create
  show ?case by (simp add: mempool_inv_def pending_txs_def hc_create_def)
next
  case (fund ch dest amount now block ch')
  then have "append_produced E C ch block = Inr ch'" by (simp add: hc_fund_def)
  from this fund.hyps(3) obtain ident where ext: "extend_tip E C ch ident block True = Inr ch'"
    by (rule append_producedE)
  have "block_nfs block = []"
    using fund.hyps(2) by (auto simp: genesis_block_def Let_def result_simps block_nfs_def spend_txs_def)
  with ext have "hs_nullifiers (ch_state ch') = hs_nullifiers (ch_state ch)"
    by (auto elim!: extend_tipE apply_blockE apply_mutationE)
  with extend_tip_mempool [OF ext] fund.IH show ?case by (simp add: mempool_inv_def pending_txs_def)
next
  case (submit ch tx ch')
  then obtain nf0 nf1 where v: "validate_tx E (ch_state ch) tx (ch_mempool_nfs ch) = Inr (nf0, nf1)"
    and ch': "ch' = ch \<lparr> ch_mempool_nfs := ch_mempool_nfs ch \<union> {nf_key nf0, nf_key nf1}, ch_mempool := ch_mempool ch @ [tx] \<rparr>"
    by (auto simp: hc_submit_def result_simps)
  note v' = validate_tx_ok [OF v]
  show ?case
    using submit.IH v'(1,5,6)
    by (auto simp: mempool_inv_def pending_txs_def ch' sorted_wrt_append tx_apart_def)
next
  case (pegout ch po ch')
  then obtain nf0 nf1 where v: "validate_tx E (ch_state ch) (pt_tx po) (ch_mempool_nfs ch) = Inr (nf0, nf1)"
    and ch': "ch' = ch \<lparr> ch_mempool_nfs := ch_mempool_nfs ch \<union> {nf_key nf0, nf_key nf1}, ch_pegouts := ch_pegouts ch @ [po] \<rparr>"
    by (auto simp: submit_pegout_def result_simps split: if_splits)
  note v' = validate_tx_ok [OF v]
  show ?case
    using pegout.IH v'(1,5,6)
    by (auto simp: mempool_inv_def pending_txs_def ch' sorted_wrt_append tx_apart_def)
next
  case (pegin ch claim)
  then show ?case by (simp add: queue_pegin_def mempool_inv_def pending_txs_def)
next
  case (check ch chk)
  then show ?case by (simp add: mempool_inv_def pending_txs_def)
next
  case (ingest ch block ch' ok)
  from ingest.hyps(3) show ?case
    by (rule ingest_blockE) (rule fork_choice_ingest_mempool [OF ingest.IH])
next
  case (produce ch miner anchor now block ch' res)
  from produce.hyps(4,2) show ?case
  proof (cases rule: produce_cases)
    case (ok ch1)
    then have "ch_mempool ch1 = [] \<and> ch_pegouts ch1 = []"
      by (auto simp: append_produced_def result_simps dest!: extend_tip_mempool)
    with ok show ?thesis by (simp add: mempool_inv_def pending_txs_def)
  next
    case (failed e)
    then show ?thesis by (simp add: mempool_inv_def pending_txs_def)
  qed
qed

end
