(* ===== verification/HnChainRestart.thy ===== *)
theory HnChainRestart
  imports HnForkChoice
begin

text \<open>
  Opening the log of a run restores its chain.
\<close>

section \<open>Restart\<close>

text \<open>The chain a restart must give: tree, tip, blocks and state of \<open>ch\<close>, nothing pending.\<close>

definition restored :: "('h, 't) ext \<Rightarrow> hn_params \<Rightarrow> bytes \<Rightarrow> hn_chain \<Rightarrow> hn_chain" where
  "restored E params lg ch = (hc_create (x_perm E) params lg)
     \<lparr> ch_state := ch_state ch, ch_blocks := ch_blocks ch, ch_nodes := ch_nodes ch, ch_tip := ch_tip ch \<rparr>"

lemma restored_simps [simp]:
  "ch_state (restored E params lg ch) = ch_state ch" "ch_blocks (restored E params lg ch) = ch_blocks ch"
  "ch_nodes (restored E params lg ch) = ch_nodes ch" "ch_tip (restored E params lg ch) = ch_tip ch"
  "ch_mempool (restored E params lg ch) = []" "ch_log (restored E params lg ch) = lg"
  by (simp_all add: restored_def hc_create_def)

lemma restored_cong:
  "ch_state ch' = ch_state ch \<Longrightarrow> ch_blocks ch' = ch_blocks ch \<Longrightarrow> ch_nodes ch' = ch_nodes ch \<Longrightarrow>
    ch_tip ch' = ch_tip ch \<Longrightarrow> restored E params lg ch' = restored E params lg ch"
  by (simp add: restored_def)

lemma restored_upd:
  "(restored E params lg ch) \<lparr> ch_state := s, ch_blocks := bs, ch_nodes := tree, ch_tip := i \<rparr>
    = restored E params lg (ch \<lparr> ch_state := s, ch_blocks := bs, ch_nodes := tree, ch_tip := i \<rparr>)"
  by (simp add: restored_def)

lemma drop_restored: "drop_conflicting_mempool (restored E params lg ch) = Inr (restored E params lg ch)"
  by (simp add: drop_conflicting_mempool_def restored_def hc_create_def)

lemma extend_tip_restored:
  assumes "extend_tip E C ch ident block store = Inr ch'"
  shows "extend_tip E C (restored E params lg ch) ident block False = Inr (restored E params lg ch')"
  using assms
  by (elim extend_tipE) (simp add: extend_tip_def restored_upd persist_def restored_def)

lemma fork_choice_ingest_restored:
  assumes "fork_choice_ingest E C ch block store = Inr (ch', True)"
  shows "fork_choice_ingest E C (restored E params lg ch) block False = Inr (restored E params lg ch', True)"
  using assms
proof (cases rule: fork_choice_ingestE)
  case (extend ident ch1)
  have "restored E params lg ch1 = restored E params lg ch'"
    by (rule drop_conflicting_fields [OF extend(6)]) (rule restored_cong; simp)
  moreover have "hb_prev_header_id block = genesis_parent \<or> ch_nodes ch (hb_prev_header_id block) \<noteq> None"
    using assms extend(2-5) by (auto simp: fork_choice_ingest_def Let_def split: if_splits)
  ultimately show ?thesis
    using extend extend_tip_restored [OF extend(5), of params lg]
    by (auto simp: fork_choice_ingest_def Let_def drop_restored)
next
  case (fork ident ps s' u tree pw tw ch2)
  have f2: "ch_nodes ch2 = tree" "ch_tip ch2 = ch_tip ch" "ch_blocks ch2 = ch_blocks ch" "ch_state ch2 = ch_state ch"
    by (simp_all add: fork(11) persist_def)
  let ?r = "restored E params lg ch"
  have r2: "?r \<lparr> ch_nodes := tree \<rparr> = restored E params lg ch2"
    by (simp add: restored_def f2)
  show ?thesis
  proof (cases "tw < pw + x_decode_bits E (hb_nbits block)")
    case True
    with fork(12) obtain ch3 where c3: "set_canonical E ch2 ident = Inr ch3" "drop_conflicting_mempool ch3 = Inr ch'" by auto
    have eq: "restored E params lg ch3 = restored E params lg ch'"
      by (rule drop_conflicting_fields [OF c3(2)]) (rule restored_cong; simp)
    have "set_canonical E (restored E params lg ch2) ident = Inr (restored E params lg ch3)"
      by (rule set_canonicalE [OF c3(1)]) (simp add: set_canonical_def restored_def)
    with fork True eq show ?thesis
      by (auto simp: fork_choice_ingest_def Let_def r2 drop_restored)
  next
    case False
    with fork r2 show ?thesis by (auto simp: fork_choice_ingest_def Let_def)
  qed
qed simp

lemma open_from_append:
  assumes "\<forall>b \<in> set bs. bc_decode C (bc_encode C b) = Some b" and "open_from E C ch (map (bc_encode C) bs) = Inr ch1"
  shows "open_from E C ch (map (bc_encode C) bs @ ps) = open_from E C ch1 ps"
  using assms
proof (induction bs arbitrary: ch)
  case (Cons b bs)
  then show ?case by (auto split: sum.splits)
qed simp

definition known_block :: "hn_chain \<Rightarrow> hn_block \<Rightarrow> bool" where
  "known_block ch b \<longleftrightarrow> (\<exists>ident n. ch_nodes ch ident = Some n \<and> nd_block n = b)"

text \<open>The log is the record of known blocks; when the serialization round-trips them, opening it gives the
  chain again.\<close>

definition log_ok :: "('h, 't) ext \<Rightarrow> block_codec \<Rightarrow> hn_params \<Rightarrow> hn_chain \<Rightarrow> bool" where
  "log_ok E C params ch \<longleftrightarrow> (\<exists>bs. ch_log ch = framed (map (bc_encode C) bs) \<and> (\<forall>b \<in> set bs. known_block ch b)
     \<and> ((\<forall>b \<in> set bs. bc_decode C (bc_encode C b) = Some b) \<longrightarrow>
         (\<forall>lg. open_from E C (hc_create (x_perm E) params lg) (map (bc_encode C) bs) = Inr (restored E params lg ch))))"

lemma log_ok_same:
  "log_ok E C params ch \<Longrightarrow> ch_log ch' = ch_log ch \<Longrightarrow> ch_state ch' = ch_state ch \<Longrightarrow> ch_blocks ch' = ch_blocks ch \<Longrightarrow>
    ch_nodes ch' = ch_nodes ch \<Longrightarrow> ch_tip ch' = ch_tip ch \<Longrightarrow> log_ok E C params ch'"
  unfolding log_ok_def known_block_def using restored_cong [of ch' ch E params] by simp

definition recorded :: "block_codec \<Rightarrow> hn_block \<Rightarrow> hn_chain \<Rightarrow> hn_chain \<Rightarrow> bool" where
  "recorded C block ch ch' \<longleftrightarrow> ch_log ch' = append_record (ch_log ch) (bc_encode C block)
     \<and> (\<exists>ident n. ch_nodes ch ident = None \<and> nd_block n = block \<and> ch_nodes ch' = (ch_nodes ch)(ident \<mapsto> n))"

lemma recorded_known:
  assumes "recorded C block ch ch'"
  shows "known_block ch' block" "known_block ch b \<Longrightarrow> known_block ch' b"
proof -
  from assms obtain ident n where n: "ch_nodes ch ident = None" "nd_block n = block"
    "ch_nodes ch' = (ch_nodes ch)(ident \<mapsto> n)"
    by (auto simp: recorded_def)
  then show "known_block ch' block" by (auto simp: known_block_def)
  assume "known_block ch b"
  then obtain i m where "ch_nodes ch i = Some m" "nd_block m = b" by (auto simp: known_block_def)
  with n have "ch_nodes ch' i = Some m" by auto
  with \<open>nd_block m = b\<close> show "known_block ch' b" by (auto simp: known_block_def)
qed

lemma log_ok_ingest:
  assumes ok: "log_ok E C params ch" and rec: "recorded C block ch ch'"
    and ing: "\<And>lg. fork_choice_ingest E C (restored E params lg ch) block False = Inr (restored E params lg ch', True)"
  shows "log_ok E C params ch'"
proof -
  from ok obtain bs where bs: "ch_log ch = framed (map (bc_encode C) bs)" "\<forall>b \<in> set bs. known_block ch b"
    and op: "(\<forall>b \<in> set bs. bc_decode C (bc_encode C b) = Some b) \<longrightarrow>
      (\<forall>lg. open_from E C (hc_create (x_perm E) params lg) (map (bc_encode C) bs) = Inr (restored E params lg ch))"
    unfolding log_ok_def by blast
  have "open_from E C (hc_create (x_perm E) params lg) (map (bc_encode C) (bs @ [block]))
      = Inr (restored E params lg ch')"
    if codec: "\<forall>b \<in> set (bs @ [block]). bc_decode C (bc_encode C b) = Some b" for lg
    using open_from_append [of bs C E _ _ "[bc_encode C block]"] op ing codec
    by (simp add: ingest_persisted_def)
  moreover have "ch_log ch' = framed (map (bc_encode C) (bs @ [block]))"
    using rec by (simp add: recorded_def bs(1) append_record_def framed_append)
  moreover have "\<forall>b \<in> set (bs @ [block]). known_block ch' b"
    using recorded_known [OF rec] bs(2) by auto
  ultimately show ?thesis unfolding log_ok_def by blast
qed

lemma register_nodeE:
  assumes "register_node E tree ident block parent = Some tree'"
  obtains n where "nd_block n = block" "tree' = tree (ident \<mapsto> n)"
proof -
  from assms have "\<exists>n. nd_block n = block \<and> tree' = tree (ident \<mapsto> n)"
    by (auto simp: register_node_def) (metis hn_node.select_convs(1))
  with that show thesis by blast
qed

lemma extend_tip_log:
  assumes "extend_tip E C ch ident block True = Inr ch'" and "ch_nodes ch ident = None"
  shows "recorded C block ch ch'"
  using assms by (elim extend_tipE register_nodeE) (auto simp: recorded_def persist_def)

lemma fork_choice_ingest_log:
  assumes "fork_choice_ingest E C ch block True = Inr (ch', ok)"
  shows "if ok then recorded C block ch ch' else ch' = ch"
  using assms
proof (cases rule: fork_choice_ingestE)
  case (extend ident ch1)
  have "ch_log ch' = ch_log ch1 \<and> ch_nodes ch' = ch_nodes ch1" by (rule drop_conflicting_fields [OF extend(6)]) simp
  with extend_tip_log [OF extend(5,3)] extend(1) show ?thesis by (simp add: recorded_def)
next
  case (fork ident ps s' u tree pw tw ch2)
  obtain n where "nd_block n = block" "tree = (ch_nodes ch)(ident \<mapsto> n)" by (rule register_nodeE [OF fork(10)])
  with fork(3) have "recorded C block ch ch2" by (auto simp: fork(11) persist_def recorded_def)
  moreover have "ch_log ch' = ch_log ch2 \<and> ch_nodes ch' = ch_nodes ch2"
    using fork(12) by (auto elim!: set_canonicalE drop_conflicting_fields split: if_splits)
  ultimately show ?thesis using fork(1) by (simp add: recorded_def)
qed simp

lemma append_produced_log:
  assumes ok: "log_ok E C params ch" and inv: "chain_inv E params ch"
    and app: "append_produced E C ch block = Inr ch'" and fresh: "fresh_header E ch block"
    and link: "hb_prev_header_id block = ch_tip ch"
  shows "log_ok E C params ch'"
proof -
  from app fresh obtain ident where i: "hn_header_id (x_perm E) (chain_cid ch) block = Some ident"
    "ch_nodes ch ident = None" "extend_tip E C ch ident block True = Inr ch'"
    by (rule append_producedE)
  from inv obtain w where "branch E (hp_chain_id params) (ch_nodes ch) (ch_tip ch) (ch_blocks ch) w"
    by (auto simp: chain_inv_def)
  then have "ch_tip ch = genesis_parent \<or> ch_nodes ch (ch_tip ch) \<noteq> None" by cases auto
  then have "fork_choice_ingest E C (restored E params lg ch) block False = Inr (restored E params lg ch', True)" for lg
    using i link extend_tip_restored [OF i(3), of params lg]
    by (auto simp: fork_choice_ingest_def Let_def drop_restored)
  from log_ok_ingest [OF ok extend_tip_log [OF i(3,2)] this] show ?thesis .
qed

lemma chain_run_log:
  "chain_run E C seal params ch \<Longrightarrow> log_ok E C params ch"
proof (induction rule: chain_run.induct)
  case create
  show ?case by (auto simp: log_ok_def hc_create_def framed_def restored_def intro!: exI [of _ "[]"])
next
  case (fund ch dest amount now block ch')
  then have "append_produced E C ch block = Inr ch'" by (simp add: hc_fund_def)
  from append_produced_log [OF fund.IH chain_run_inv [OF fund.hyps(1)] this fund.hyps(3) genesis_links [OF fund.hyps(2)]]
  show ?case .
next
  case (submit ch tx ch')
  then show ?case by (intro log_ok_same [OF submit.IH]) (auto simp: hc_submit_def result_simps)
next
  case (pegout ch po ch')
  then show ?case by (intro log_ok_same [OF pegout.IH]) (auto simp: submit_pegout_def result_simps split: if_splits)
next
  case (pegin ch claim)
  show ?case by (rule log_ok_same [OF pegin.IH]) (auto simp: queue_pegin_def)
next
  case (check ch chk)
  show ?case by (rule log_ok_same [OF check.IH]) simp_all
next
  case (ingest ch block ch' ok)
  from ingest.hyps(3) have f: "fork_choice_ingest E C ch block True = Inr (ch', ok)" by (rule ingest_blockE)
  show ?case
  proof (cases ok)
    case True
    with fork_choice_ingest_log [OF f] fork_choice_ingest_restored [of E C ch block True ch'] f show ?thesis
      by (intro log_ok_ingest [OF ingest.IH]) auto
  next
    case False
    with fork_choice_ingest_log [OF f] ingest.IH show ?thesis by simp
  qed
next
  case (produce ch miner anchor now block ch' res)
  from produce.hyps(4,2) show ?case
  proof (cases rule: produce_cases)
    case (ok ch1)
    have t: "log_ok E C params (taken ch)" by (rule log_ok_same [OF produce.IH]) simp_all
    have inv: "chain_inv E params (taken ch)"
      using chain_run_inv [OF produce.hyps(1)] chain_inv_fields [of "taken ch" ch E params] by simp
    have fresh: "fresh_header E (taken ch) block" using produce.hyps(3) by (simp add: fresh_header_def)
    have link: "hb_prev_header_id block = ch_tip (taken ch)" using candidate_links [OF produce.hyps(2)] by simp
    have l1: "log_ok E C params ch1" by (rule append_produced_log [OF t inv ok(1) fresh link])
    show ?thesis by (rule log_ok_same [OF l1]) (simp_all add: ok(2))
  next
    case (failed e)
    show ?thesis by (rule log_ok_same [OF produce.IH]) (simp_all add: failed)
  qed
qed

text \<open>
  C26: A restart restores the chain. On every run, opening the log gives the same ledger state, canonical
  blocks, block tree and tip (the heaviest branch, whatever reorganisations happened) with empty
  queues, given that the serialization crate round-trips the known blocks and keeps them below 4 GiB.
\<close>

theorem restart_restores:
  assumes "chain_run E C seal params ch"
    and "\<forall>ident n. ch_nodes ch ident = Some n \<longrightarrow> bc_decode C (bc_encode C (nd_block n)) = Some (nd_block n)
       \<and> length (bc_encode C (nd_block n)) < 2 ^ 32"
  shows "hc_open E C params (ch_log ch) = Inr (hc_create (x_perm E) params (ch_log ch)
     \<lparr> ch_state := ch_state ch, ch_blocks := ch_blocks ch, ch_nodes := ch_nodes ch, ch_tip := ch_tip ch \<rparr>)"
proof -
  from chain_run_log [OF assms(1)] obtain bs where bs: "ch_log ch = framed (map (bc_encode C) bs)"
    and known: "\<forall>b \<in> set bs. known_block ch b"
    and op: "(\<forall>b \<in> set bs. bc_decode C (bc_encode C b) = Some b) \<longrightarrow>
      (\<forall>lg. open_from E C (hc_create (x_perm E) params lg) (map (bc_encode C) bs) = Inr (restored E params lg ch))"
    unfolding log_ok_def by blast
  from known assms(2) have codec: "\<forall>b \<in> set bs. bc_decode C (bc_encode C b) = Some b \<and> length (bc_encode C b) < 2 ^ 32"
    by (auto simp: known_block_def)
  then have "read_log (ch_log ch) = map (bc_encode C) bs"
    using read_log_framed [of "map (bc_encode C) bs" "[]"] by (simp add: bs(1))
  then show ?thesis using op codec by (simp add: hc_open_def restored_def)
qed

end
