(* ===== verification/HnChainProduce.thy ===== *)
theory HnChainProduce
  imports HnChainRestart
begin

text \<open>
  Block production is accepted by the ledger; what a failed production loses; a sync that never returns.
\<close>

section \<open>Production\<close>

text \<open>The pool covers what the pending entries take out of it, in the words the ledger computes with.\<close>

definition solvent :: "hn_chain \<Rightarrow> bool" where
  "solvent ch \<longleftrightarrow>
     (let s = ch_state ch; params = hs_params s; n = length (ch_mempool ch) + length (ch_pegouts ch);
          inflow = sum_list (map pc_amount (ch_pegin_queue ch));
          pegin_fees = sum_list (map (\<lambda>p. peg_fee params (pc_amount p)) (ch_pegin_queue ch));
          burn = sum_list (map (\<lambda>po. pt_amount po + peg_fee params (pt_amount po)) (ch_pegouts ch))
      in hp_flat_fee params * of_nat n + burn
           \<le> hs_shielded_total s + coinbase_amount params (hs_pot s) n + (inflow - pegin_fees)
         \<and> sum_list (map pt_amount (ch_pegouts ch)) \<le> hs_shielded_total s + hs_pot s + inflow)"

lemma pending_cms_eq:
  "fold_r pending_cms_step acc txs = Inr cms \<Longrightarrow> cms = acc @ concat (map tx_cms txs)"
proof (induction txs arbitrary: acc)
  case (Cons tx txs)
  then obtain cm0 cm1 where "digest_at (tx_publics tx) pub_cmo0 = Some cm0" "digest_at (tx_publics tx) pub_cmo1 = Some cm1"
    "fold_r pending_cms_step (acc @ [cm0, cm1]) txs = Inr cms"
    by (auto simp: pending_cms_step_def [of acc tx] result_simps pub_digest_def)
  moreover then have "tx_cms tx = [cm0, cm1]" by (simp add: tx_cms_def)
  ultimately show ?case using Cons.IH [of "acc @ [cm0, cm1]"] by simp
qed simp

lemma spend_leaves_total:
  "\<forall>tx \<in> set txs. length (tx_publics tx) = n_pub \<Longrightarrow> \<exists>leaves. fold_r spend_leaves_step acc txs = Inr leaves"
proof (induction txs arbitrary: acc)
  case (Cons tx txs)
  then obtain cm0 cm1 where "pub_digest tx pub_cmo0 = Inr cm0" "pub_digest tx pub_cmo1 = Inr cm1"
    by (auto simp: pub_digest_def digest_at_def n_pub_def pub_cmo0_def pub_cmo1_def)
  with Cons show ?case by (simp add: spend_leaves_step_def [of acc tx])
qed simp

lemma withdrawals_total:
  assumes "\<forall>po \<in> set (hb_pegouts b). length (tx_publics (pt_tx po)) = n_pub"
  shows "\<exists>ws. block_withdrawals s b = Inr ws"
proof -
  have "\<exists>ws. fold_r (\<lambda>acc po. bind_r (pub_digest (pt_tx po) pub_nf0) (\<lambda>nf0.
       Inr (acc @ [\<lparr> wd_nf0 = digest_to_limbs nf0, wd_amount = pt_amount po,
         wd_recipient = pt_recipient po, wd_height = hs_height s \<rparr>]))) acc pos = Inr ws"
    if "\<forall>po \<in> set pos. length (tx_publics (pt_tx po)) = n_pub" for acc pos
    using that
  proof (induction pos arbitrary: acc)
    case (Cons po pos)
    then obtain nf0 where "pub_digest (pt_tx po) pub_nf0 = Inr nf0" by (auto elim: tx_nfs_shape)
    with Cons show ?case by simp
  qed simp
  with assms show ?thesis by (simp add: block_withdrawals_def)
qed

lemma produce_economics:
  assumes "solvent ch" and "\<not> hs_height s < of_nat (length (hp_genesis (hs_params s)))" and "s = ch_state ch"
    and b: "hb_txs b = ch_mempool ch" "hb_pegouts b = ch_pegouts ch" 
      "hb_coinbase_amount b = coinbase_amount (hs_params s) (hs_pot s) n"
      "hb_pot_after b = pending_pot_after ch (hp_flat_fee (hs_params s) * of_nat n) (hb_coinbase_amount b)"
      "hb_shielded_after b = pending_shielded_after ch (hp_flat_fee (hs_params s) * of_nat n) (hb_coinbase_amount b)"
    and n: "n = length (ch_mempool ch) + length (ch_pegouts ch)"
    and p: "pa_outflow pa = sum_list (map pt_amount (ch_pegouts ch))"
      "pa_fees pa = sum_list (map (\<lambda>po. peg_fee (hs_params s) (pt_amount po)) (ch_pegouts ch))"
      "pa_burn_total pa = sum_list (map (\<lambda>po. pt_amount po + peg_fee (hs_params s) (pt_amount po)) (ch_pegouts ch))"
    and g: "ga_inflow ga = sum_list (map pc_amount (ch_pegin_queue ch))"
      "ga_fees ga = sum_list (map (\<lambda>p. peg_fee (hs_params s) (pc_amount p)) (ch_pegin_queue ch))"
  shows "reward_economics s b pa ga = Inr (hb_pot_after b, hb_shielded_after b)"
proof -
  have split: "sum_list (map (\<lambda>po. pt_amount po + peg_fee (hs_params s) (pt_amount po)) pos)
      = sum_list (map pt_amount pos) + sum_list (map (\<lambda>po. peg_fee (hs_params s) (pt_amount po)) pos)" for pos
    by (rule sum_list_addf)
  have le: "hp_flat_fee (hs_params s) * of_nat n + pa_burn_total pa
      \<le> hs_shielded_total s + hb_coinbase_amount b + (ga_inflow ga - ga_fees ga)"
    "pa_outflow pa \<le> hs_shielded_total s + hs_pot s + ga_inflow ga"
    using assms(1) by (simp_all add: solvent_def Let_def assms(3) b n p g)
  have pot: "hb_pot_after b = hs_pot s + hp_flat_fee (hs_params s) * of_nat n + pa_fees pa + ga_fees ga - hb_coinbase_amount b"
    by (simp add: b pending_pot_after_def Let_def assms(3) p g comp_def)
  have sh: "hb_shielded_after b = hs_shielded_total s + hb_coinbase_amount b + (ga_inflow ga - ga_fees ga)
      - (hp_flat_fee (hs_params s) * of_nat n + pa_burn_total pa)"
    by (simp add: b pending_shielded_after_def Let_def assms(3) p g)
  have bal: "hb_shielded_after b + hb_pot_after b = hs_shielded_total s + hs_pot s + ga_inflow ga - pa_outflow pa"
    unfolding pot sh p split by simp
  show ?thesis
    using le bal assms(2)
    by (simp add: reward_economics_def Let_def b(1,2) n [symmetric] b(3) [symmetric] pot [symmetric] checked_sub_def
        sh [symmetric])
qed

lemma pending_cms_block:
  assumes "pending_cms perm ch cm = Inr cms" and "hb_txs b = ch_mempool ch" "hb_pegouts b = ch_pegouts ch"
    "hb_pegins b = ch_pegin_queue ch" "hb_coinbase_cm b = digest_to_limbs cm" and "wf_digest cm"
    and "params = hs_params (ch_state ch)"
  shows "cms = block_cms perm params b"
proof -
  from assms(1) obtain xs where x: "fold_r pending_cms_step [] (ch_mempool ch @ map pt_tx (ch_pegouts ch)) = Inr xs"
    and c: "cms = xs @ map (\<lambda>p. hn_pegmint_cm_expected perm (limbs_to_digest (pc_dest_owner p))
              (pc_amount p - peg_fee params (pc_amount p)) (pc_box_id p)) (ch_pegin_queue ch) @ [cm]"
    by (auto simp: pending_cms_def result_simps assms(7))
  from pending_cms_eq [OF x] show ?thesis
    using limbs_to_digest_to_limbs [OF assms(6)]
    by (simp add: c block_cms_def spend_txs_def assms(2-5) pegin_cm_def pegin_minted_def)
qed

lemma coinbase_note_cm:
  assumes "coinbase_note perm seal miner amount ident = Some (cm, ct)" and "wf_digest (ad_owner miner)"
  shows "cm = hn_coinbase_cm_expected perm (limbs_to_digest (digest_to_limbs (ad_owner miner))) amount ident"
    "\<exists>rho r. seal miner cm amount rho r = Some ct"
  using assms limbs_to_digest_to_limbs [OF assms(2)]
  by (auto simp: coinbase_note_def mint_out_def hn_coinbase_cm_expected_def Let_def split: prod.splits)

lemma candidate_accepted:
  assumes run: "chain_run E C seal params ch" and perm: "perm_ok (x_perm E)"
    and owner: "wf_digest (ad_owner miner)"
    and seal: "\<forall>cm v rho r ct. seal miner cm v rho r = Some ct \<longrightarrow> length ct = note_ct_bytes"
    and cand: "candidate_block E seal ch miner anchor now = Inr block"
    and anchor: "hs_anchor_height (ch_state ch) \<le> an_height anchor"
    and height: "of_nat (length (hp_genesis params)) \<le> hs_height (ch_state ch)"
    and aux: "\<not> hp_require_aux_pow params"
    and txs: "fold_r (validate_txs_step E (ch_state ch)) [] (ch_mempool ch) = Inr nfs"
    and pegouts: "fold_r (validate_pegouts_step E (ch_state ch))
       \<lparr> pa_nfs = nfs, pa_outflow = 0, pa_fees = 0, pa_burn_total = 0 \<rparr> (ch_pegouts ch) = Inr pa"
    and pegins: "fold_r (validate_pegins_step (x_perm E) (ch_state ch))
       \<lparr> ga_in_block = [], ga_cms = [], ga_inflow = 0, ga_fees = 0 \<rparr> (ch_pegin_queue ch) = Inr ga"
    and solvent: "solvent ch"
  shows "\<exists>s' u. apply_block E (ch_state ch) block = Inr (s', u)"
proof -
  let ?s = "ch_state ch" and ?p = "x_perm E"
  note inv = chain_run_inv [OF run]
  note par = chain_inv_params [OF inv]
  from inv have reach: "hn_reach E params (ch_blocks ch) ?s" by (simp add: chain_inv_def)
  from cand obtain cm ct cms root nbits where
    note': "coinbase_note ?p seal miner (coinbase_amount params (hs_pot ?s) (length (ch_mempool ch) + length (ch_pegouts ch)))
        (chain_block_id ?p ch) = Some (cm, ct)"
    and cms: "pending_cms ?p ch cm = Inr cms" and root: "simulate_state_root ?p ?s cms = Inr root"
    and nbits: "expected_nbits E ?s = Some nbits"
    and b: "hb_height block = hs_height ?s" "hb_prev_root block = digest_to_limbs (hn_tip_root ?p ?s)"
      "hb_state_root block = root" "hb_nbits block = nbits" "hb_txs block = ch_mempool ch"
      "hb_pegouts block = ch_pegouts ch" "hb_pegins block = ch_pegin_queue ch"
      "hb_miner_owner block = digest_to_limbs (ad_owner miner)"
      "hb_coinbase_amount block = coinbase_amount params (hs_pot ?s) (length (ch_mempool ch) + length (ch_pegouts ch))"
      "hb_coinbase_cm block = digest_to_limbs cm" "hb_coinbase_ct block = ct" "hb_coinbase_is_reward block"
      "hb_pot_after block = pending_pot_after ch (hp_flat_fee params * of_nat (length (ch_mempool ch) + length (ch_pegouts ch))) (hb_coinbase_amount block)"
      "hb_shielded_after block = pending_shielded_after ch (hp_flat_fee params * of_nat (length (ch_mempool ch) + length (ch_pegouts ch))) (hb_coinbase_amount block)"
      "hb_anchor block = anchor" "hb_aux_pow block = None"
    by (auto simp: candidate_block_def Let_def result_simps par)
  note cmf = coinbase_note_cm [OF note' owner]
  have wcm: "wf_digest cm" unfolding cmf(1) by (rule wf_coinbase_cm [OF perm])
  have "hn_tip_root ?p ?s = merkle_root ?p (run_leaves ?p params (ch_blocks ch))"
    using nt_root_rep [OF hn_reach_tree [OF reach]] by (simp add: hn_tip_root_def)
  then have wroot: "wf_digest (hn_tip_root ?p ?s)"
    using wf_merkle_root [OF perm hn_reach_wf_leaves [OF reach perm]] by simp
  have header: "check_header E ?s block = Inr ()"
    using anchor aux nbits cmf(2) seal
    by (auto simp: check_header_def b limbs_to_digest_to_limbs [OF wroot] check_aux_pow_def par not_less)
  note t = validate_txs_ok [OF txs] and p = validate_pegouts_ok [OF pegouts] and g = validate_pegins_ok [OF pegins]
  have shapes: "\<forall>tx \<in> set (spend_txs block). length (tx_publics tx) = n_pub"
    using t p by (auto simp: spend_txs_def b dest: validate_tx_ok(1))
  obtain leaves where leaves: "block_leaves block (ga_cms ga) = Inr leaves"
    using spend_leaves_total [OF shapes, of "[]"] by (auto simp: block_leaves_def)
  have fst_leaves: "map fst leaves = cms"
    using block_leaves_ok [OF leaves] g pending_cms_block [OF cms b(5-7,10) wcm par [symmetric]]
    by (simp add: b block_cms_def pegin_cm_def par)
  from root obtain tree where tree: "append_all (nt_append ?p) (hs_tree ?s) (map fst leaves) = Some tree"
    by (auto simp: simulate_state_root_def fst_leaves result_simps)
  obtain ws where ws: "block_withdrawals ?s block = Inr ws"
    using withdrawals_total [of block ?s] shapes by (auto simp: spend_txs_def)
  have com: "check_commitments ?p ?s block (hb_shielded_after block) leaves = Inr ()"
    using root wcm by (simp add: check_commitments_def Let_def b fst_leaves cmf(1) [symmetric] chain_block_id_def [symmetric])
  have eco: "reward_economics ?s block pa ga = Inr (hb_pot_after block, hb_shielded_after block)"
    by (rule produce_economics [OF solvent, where n = "length (ch_mempool ch) + length (ch_pegouts ch)"])
      (use b p g height in \<open>simp_all add: par not_less\<close>)
  show ?thesis
    by (rule apply_block_accept [OF header, where nfs = nfs and pa = pa and ga = ga and leaves = leaves
          and pot = "hb_pot_after block" and shielded = "hb_shielded_after block" and tree = tree and ws = ws])
      (use txs pegouts pegins eco leaves com tree ws in \<open>auto simp: b\<close>)
qed

lemma engine_spend_total:
  assumes "validate_tx E s tx p = Inr nf"
  obtains sp where "engine_spend (tx_publics tx) = Some sp"
proof -
  obtain nf0 nf1 where "nf = (nf0, nf1)" by (cases nf)
  note v = validate_tx_ok [OF assms [unfolded this]]
  have "\<exists>sp. engine_spend (tx_publics tx) = Some sp"
    using spend_fee_tx_fee [OF v(2)] v(1)
    by (simp add: engine_spend_def digest_at_def n_pub_def pub_root_def pub_nf0_def pub_nf1_def pub_cmo0_def pub_cmo1_def)
  with that show thesis by blast
qed

lemma to_engine_block_total:
  assumes "\<forall>tx \<in> set (spend_txs b). \<exists>p nf. validate_tx E s tx p = Inr nf"
  obtains eb where "to_engine_block b = Some eb"
proof -
  have those_total: "\<exists>ys. those (map f xs) = Some ys" if "\<forall>x \<in> set xs. f x \<noteq> None" for f :: "'x \<Rightarrow> 'y option" and xs
    using that by (induction xs) auto
  have "\<forall>tx \<in> set (hb_txs b). engine_spend (tx_publics tx) \<noteq> None"
    "\<forall>po \<in> set (hb_pegouts b). engine_pegout po \<noteq> None"
    using assms by (auto simp: spend_txs_def engine_pegout_def elim: engine_spend_total)
  with that show thesis
    using those_total [of "hb_txs b" "\<lambda>t. engine_spend (tx_publics t)"] those_total [of "hb_pegouts b" engine_pegout]
    by (auto simp: to_engine_block_def)
qed

text \<open>The pending entries pass the checks of the ledger in the order of the block.\<close>

definition pending_valid :: "('h, 't) ext \<Rightarrow> hn_chain \<Rightarrow> bool" where
  "pending_valid E ch \<longleftrightarrow> (\<exists>nfs pa ga. fold_r (validate_txs_step E (ch_state ch)) [] (ch_mempool ch) = Inr nfs
     \<and> fold_r (validate_pegouts_step E (ch_state ch))
         \<lparr> pa_nfs = nfs, pa_outflow = 0, pa_fees = 0, pa_burn_total = 0 \<rparr> (ch_pegouts ch) = Inr pa
     \<and> fold_r (validate_pegins_step (x_perm E) (ch_state ch))
         \<lparr> ga_in_block = [], ga_cms = [], ga_inflow = 0, ga_fees = 0 \<rparr> (ch_pegin_queue ch) = Inr ga)"

text \<open>Conversely, a candidate the ledger accepts had valid entries, a solvent pool, and none of the three obstacles.\<close>

lemma accepted_candidate:
  assumes par: "hs_params (ch_state ch) = params"
    and cand: "candidate_block E seal ch miner anchor now = Inr block"
    and app: "apply_block E (ch_state ch) block = Inr (s', u)"
  shows "\<not> hp_require_aux_pow params \<and> hs_anchor_height (ch_state ch) \<le> an_height anchor
    \<and> of_nat (length (hp_genesis params)) \<le> hs_height (ch_state ch) \<and> pending_valid E ch \<and> solvent ch"
proof -
  let ?s = "ch_state ch" and ?n = "length (ch_mempool ch) + length (ch_pegouts ch)"
  from cand have b: "hb_txs block = ch_mempool ch" "hb_pegouts block = ch_pegouts ch" "hb_pegins block = ch_pegin_queue ch"
      "hb_coinbase_is_reward block" "hb_anchor block = anchor" "hb_aux_pow block = None"
    by (auto simp: candidate_block_def Let_def result_simps)
  from app obtain nfs pa ga pot sh where h: "check_header E ?s block = Inr ()"
    and txs: "fold_r (validate_txs_step E ?s) [] (ch_mempool ch) = Inr nfs"
    and po: "fold_r (validate_pegouts_step E ?s) \<lparr> pa_nfs = nfs, pa_outflow = 0, pa_fees = 0, pa_burn_total = 0 \<rparr> (ch_pegouts ch) = Inr pa"
    and pi: "fold_r (validate_pegins_step (x_perm E) ?s) \<lparr> ga_in_block = [], ga_cms = [], ga_inflow = 0, ga_fees = 0 \<rparr> (ch_pegin_queue ch) = Inr ga"
    and eco: "reward_economics ?s block pa ga = Inr (pot, sh)"
    by (auto simp: apply_block_def bind_r_eq_Inr b)
  have head: "hs_anchor_height ?s \<le> an_height anchor" "\<not> hp_require_aux_pow params"
    using h by (auto simp: check_header_def check_aux_pow_def b par bind_r_eq_Inr ok_or_def not_less split: if_splits option.splits)
  have n: "length (spend_txs block) = ?n" by (simp add: spend_txs_def b)
  note raw = reward_economics_raw [OF eco, unfolded n] and sums = validate_pegouts_ok [OF po] validate_pegins_ok [OF pi]
  have "solvent ch"
    using raw(4,5) sums by (auto simp: solvent_def Let_def checked_sub_def par split: if_splits)
  moreover have "of_nat (length (hp_genesis params)) \<le> hs_height ?s"
    using reward_economics_ok(1) [OF eco] by (simp add: par not_less)
  moreover have "pending_valid E ch" unfolding pending_valid_def using txs po pi by blast
  ultimately show ?thesis using head by simp
qed

text \<open>
  C28: What the node produces, it accepts, up to the conditions that production does not check. On a chain of a run, the candidate
  block (for a canonical payee key and an encryption of the fixed length) is accepted, becomes the tip and carries every pending entry
  exactly when aux-PoW is not required, the anchor is not below the state's, the genesis entries are funded, the pending entries pass
  the ledger's checks and the pool covers them. Otherwise production returns an error and the chain is the old one without
  its pending entries.
\<close>

theorem produced_block_accepted:
  assumes run: "chain_run E C seal params ch" and perm: "perm_ok (x_perm E)"
    and owner: "wf_digest (ad_owner miner)"
    and seal: "\<forall>cm v rho r ct. seal miner cm v rho r = Some ct \<longrightarrow> length ct = note_ct_bytes"
    and cand: "candidate_block E seal ch miner anchor now = Inr block"
  shows "if \<not> hp_require_aux_pow params \<and> hs_anchor_height (ch_state ch) \<le> an_height anchor
      \<and> of_nat (length (hp_genesis params)) \<le> hs_height (ch_state ch) \<and> pending_valid E ch \<and> solvent ch
    then \<exists>ch'. produce_block_anchored E C seal ch miner anchor now = (ch', Inr ())
      \<and> ch_blocks ch' = ch_blocks ch @ [block] \<and> Some (ch_tip ch') = hn_header_id (x_perm E) (hp_chain_id params) block
      \<and> hb_txs block = ch_mempool ch \<and> hb_pegouts block = ch_pegouts ch \<and> hb_pegins block = ch_pegin_queue ch
    else \<exists>e. produce_block_anchored E C seal ch miner anchor now = (taken ch, Inl e)"
proof -
  note inv = chain_run_inv [OF run]
  note par = chain_inv_params [OF inv]
  have b: "hb_txs block = ch_mempool ch" "hb_pegouts block = ch_pegouts ch" "hb_pegins block = ch_pegin_queue ch"
    using cand by (auto simp: candidate_block_def Let_def result_simps)
  have iff: "(\<exists>s' u. apply_block E (ch_state ch) block = Inr (s', u)) \<longleftrightarrow> \<not> hp_require_aux_pow params
      \<and> hs_anchor_height (ch_state ch) \<le> an_height anchor
      \<and> of_nat (length (hp_genesis params)) \<le> hs_height (ch_state ch) \<and> pending_valid E ch \<and> solvent ch"
    using accepted_candidate [OF par cand] candidate_accepted [OF run perm owner seal cand] unfolding pending_valid_def by blast
  show ?thesis
  proof (cases "apply_block E (ch_state ch) block")
    case (Inl e)
    then have "\<exists>e'. append_produced E C (taken ch) block = Inl e'"
      by (cases "hn_header_id (x_perm E) (hp_chain_id params) block") (simp_all add: append_produced_def extend_tip_def par)
    then have "\<exists>e. produce_block_anchored E C seal ch miner anchor now = (taken ch, Inl e)"
      by (auto simp: produce_block_anchored_def cand Let_def taken_def)
    then show ?thesis using iff Inl by auto
  next
    case (Inr su)
    obtain s' u where app: "apply_block E (ch_state ch) block = Inr (s', u)" using Inr by (cases su) auto
    obtain eb where "to_engine_block block = Some eb"
      using apply_block_fresh(5) [OF app] by (rule to_engine_block_total)
    then obtain ident where ident: "hn_header_id (x_perm E) (hp_chain_id params) block = Some ident"
      by (simp add: hn_header_id_def)
    from inv obtain w where "branch E (hp_chain_id params) (ch_nodes ch) (ch_tip ch) (ch_blocks ch) w"
      by (auto simp: chain_inv_def)
    from branch_work [OF this] obtain tree where "register_node E (ch_nodes ch) ident block (ch_tip ch) = Some tree"
      by (simp add: register_node_def)
    with app ident have "\<exists>ch'. produce_block_anchored E C seal ch miner anchor now = (ch', Inr ())
      \<and> ch_blocks ch' = ch_blocks ch @ [block] \<and> Some (ch_tip ch') = hn_header_id (x_perm E) (hp_chain_id params) block
      \<and> hb_txs block = ch_mempool ch \<and> hb_pegouts block = ch_pegouts ch \<and> hb_pegins block = ch_pegin_queue ch"
      by (simp add: produce_block_anchored_def cand append_produced_def extend_tip_def persist_def b par)
    then show ?thesis using iff app by auto
  qed
qed

text \<open>A rejected block takes the pending entries with it, but leaves their nullifiers in the pending
  index: the same transactions cannot be submitted again.\<close>

lemma failed_production_loses_mempool:
  assumes "produce_block_anchored E C seal ch miner anchor now = (ch', Inl e)"
    and "candidate_block E seal ch miner anchor now = Inr block"
  shows "ch_mempool ch' = []" "ch_pegouts ch' = []" "ch_pegin_queue ch' = []" "ch_mempool_nfs ch' = ch_mempool_nfs ch"
  using assms by (auto elim!: produce_cases simp: taken_def)

lemma resubmission_rejected:
  assumes "chain_run E C seal params ch" "tx \<in> set (ch_mempool ch)"
    and "produce_block_anchored E C seal ch miner anchor now = (ch', Inl e)"
    and "candidate_block E seal ch miner anchor now = Inr block"
  shows "\<exists>err. hc_submit E ch' tx = Inl err"
proof (rule ccontr)
  assume "\<nexists>err. hc_submit E ch' tx = Inl err"
  then obtain nf0 nf1 where v: "validate_tx E (ch_state ch') tx (ch_mempool_nfs ch') = Inr (nf0, nf1)"
    by (cases "validate_tx E (ch_state ch') tx (ch_mempool_nfs ch')") (auto simp: hc_submit_def)
  have "set (tx_nfs tx) \<subseteq> ch_mempool_nfs ch"
    using chain_run_mempool [OF assms(1)] assms(2) by (auto simp: mempool_inv_def pending_txs_def)
  with validate_tx_ok(5,6) [OF v] failed_production_loses_mempool(4) [OF assms(3,4)] show False by auto
qed

section \<open>Sync\<close>

lemma ingest_batch_stuck:
  "\<forall>b \<in> set bs. ingest_block E C ch b = Inr (ch, False) \<Longrightarrow> ingest_batch E C ch n bs = (ch, n, True)"
  by (induction bs) auto

text \<open>
  A peer whose batch holds only blocks that the chain already has, or whose parents it lacks, keeps
  the sync loop at the same height for ever.
\<close>

theorem sync_never_returns:
  assumes short: "block_count ch < target" and batch: "fetch (block_count ch) \<noteq> []"
    and stuck: "\<forall>b \<in> set (fetch (block_count ch)). ingest_block E C ch b = Inr (ch, False)"
  shows "sync_from E C target fetch ch applied = None"
proof -
  have "\<not> (block_count ch < target \<and> fetch (block_count ch) \<noteq> [] \<and>
      (\<forall>b \<in> set (fetch (block_count ch)). ingest_block E C ch b = Inr (ch, False)))"
    if "sync_from E C target fetch ch applied = Some r" for r
    using that
  proof (rule sync_from.raw_induct [rotated])
    fix sync E C target fetch ch applied r
    assume IH: "\<And>E C target fetch ch applied r. sync E C target fetch ch applied = Some r \<Longrightarrow>
        \<not> (block_count ch < target \<and> fetch (block_count ch) \<noteq> [] \<and>
          (\<forall>b \<in> set (fetch (block_count ch)). ingest_block E C ch b = Inr (ch, False)))"
      and step: "(if target \<le> block_count ch then Some (ch, applied)
        else if fetch (block_count ch) = [] then Some (ch, applied)
        else (case ingest_batch E C ch applied (fetch (block_count ch)) of (ch', applied', ok) \<Rightarrow>
          if ok then sync E C target fetch ch' applied' else Some (ch', applied'))) = Some r"
    show "\<not> (block_count ch < target \<and> fetch (block_count ch) \<noteq> [] \<and>
        (\<forall>b \<in> set (fetch (block_count ch)). ingest_block E C ch b = Inr (ch, False)))"
    proof (intro notI, elim conjE)
      assume a: "block_count ch < target" "fetch (block_count ch) \<noteq> []"
        and stuck: "\<forall>b \<in> set (fetch (block_count ch)). ingest_block E C ch b = Inr (ch, False)"
      have "ingest_batch E C ch applied (fetch (block_count ch)) = (ch, applied, True)"
        by (rule ingest_batch_stuck [OF stuck])
      with step a have "sync E C target fetch ch applied = Some r" by (simp add: not_le [symmetric])
      from IH [OF this] a stuck show False by blast
    qed
  qed
  with assms show ?thesis by (cases "sync_from E C target fetch ch applied") auto
qed
end
