(* ===== verification/ChainDemo.thy ===== *)
theory ChainDemo
  imports HnChainProduce DemoChain
begin

text \<open>
  A concrete chain manager: a chain without genesis notes, a queued deposit and a produced block,
  under a constant permutation whose digests are not the sentinel of the root.
\<close>

definition one_perm :: perm where "one_perm = (\<lambda>_. replicate 16 1)"
definition one_digest :: digest where "one_digest = replicate 8 1"
definition one_bytes :: bytes where "one_bytes = concat (replicate 8 [1, 0, 0, 0])"

lemma one_perm_ok: "perm_ok one_perm"
  by (simp add: perm_ok_def one_perm_def width_def babybear_p_def)

lemma one_compress [simp]: "compress one_perm l r = one_digest"
  by (simp add: compress_def one_perm_def one_digest_def digest_elems_def)

lemma one_hash [simp]: "xs \<noteq> [] \<Longrightarrow> hash_domain one_perm tag xs = one_digest"
  by (simp add: hash_domain_def one_perm_def fold_const chunks_ne one_digest_def digest_elems_def rate_def)

lemma one_subroot: "subroot one_perm f (Suc h) i = one_digest"
  by simp

lemma one_merkle_root [simp]: "merkle_root one_perm ls = one_digest"
proof -
  have d: "depth = Suc 31" by (simp add: depth_def)
  show ?thesis unfolding merkle_root_def d by (rule one_subroot)
qed

lemma one_root:
  assumes "append_all (nt_append one_perm) nt_new ls = Some t"
  shows "nt_root one_perm t = one_digest"
  using nt_root_rep nt.append_all_SomeD [OF nt_rep_new assms] by simp

lemma one_new_root [simp]: "nt_root one_perm nt_new = one_digest"
  using one_root [of "[]"] by simp

lemma one_commitment [simp]: "note_commitment one_perm v owner rho r = one_digest"
  by (simp add: note_commitment_def commitment_blocks_def value_limbs_def n_limbs_def)

lemma one_cm [simp]: "hn_pegmint_cm_expected one_perm owner v ident = one_digest"
  "hn_coinbase_cm_expected one_perm owner v ident = one_digest"
  by (simp_all add: hn_pegmint_cm_expected_def hn_coinbase_cm_expected_def split: prod.splits)

lemma one_limbs: "digest_to_limbs one_digest = replicate 8 1" "limbs_to_digest (replicate 8 1) = one_digest"
  by (simp_all add: digest_to_limbs_def limbs_to_digest_def one_digest_def as_canonical_u32_def f_of_u32_def babybear_p_def)

definition flat :: "(nat, bytes) ext" where
  "flat = demo \<lparr> x_perm := one_perm \<rparr>"

lemma flat_fields [simp]: "x_perm flat = one_perm" "x_decode_bits flat = unat"
  by (simp_all add: flat_def)

definition flat_params :: hn_params where
  "flat_params = demo_params \<lparr> hp_genesis := [] \<rparr>"

lemma flat_params_simps [simp]:
  "hp_flat_fee flat_params = 3" "hp_coinbase_base flat_params = 1" "hp_coinbase_per_tx flat_params = 1"
  "hp_genesis_pot flat_params = 1000000" "hp_root_window flat_params = 100" "hp_genesis flat_params = []"
  "hp_peg_fee_percent flat_params = 1" "hp_min_nbits flat_params = 1" "hp_daa_window flat_params = 90"
  "hp_require_aux_pow flat_params = False"
  by (simp_all add: flat_params_def)

lemma flat_nbits [simp]: "next_nbits flat (hn_daa flat_params) [] = Some 1"
  by (simp add: next_nbits_def hn_daa_def Let_def)

definition flat_miner :: hn_address where
  "flat_miner = \<lparr> ad_owner = one_digest, ad_enc_pk = replicate 32 0 \<rparr>"

lemma flat_miner_owner [simp]: "ad_owner flat_miner = one_digest"
  by (simp add: flat_miner_def)

definition flat_seal :: note_seal where
  "flat_seal = (\<lambda>dest cm v rho r. Some (replicate 152 0))"

definition flat_codec :: block_codec where
  "flat_codec = \<lparr> bc_encode = (\<lambda>b. []), bc_decode = (\<lambda>bs. None) \<rparr>"

definition flat_claim :: pegin_claim where
  "flat_claim = \<lparr> pc_box_id = replicate 32 9, pc_dest_owner = replicate 8 1, pc_dest_enc_pk = replicate 32 0,
     pc_amount = 1000, pc_ciphertext = replicate 152 0 \<rparr>"

lemma flat_claim_fields [simp]:
  "pc_box_id flat_claim = replicate 32 9" "pc_amount flat_claim = 1000" "pc_ciphertext flat_claim = replicate 152 0"
  by (simp_all add: flat_claim_def)

lemma flat_fee [simp]: "peg_fee flat_params 1000 = 10" "coinbase_amount flat_params 1000000 0 = 1"
  by (simp_all add: peg_fee_def coinbase_amount_def saturating_add_def saturating_mul_def)

definition flat_chain0 :: hn_chain where
  "flat_chain0 = queue_pegin (hc_create one_perm flat_params []) flat_claim"

lemma flat_chain0_fields [simp]:
  "ch_state flat_chain0 = hn_new one_perm flat_params" "ch_mempool flat_chain0 = []" "ch_pegouts flat_chain0 = []"
  "ch_pegin_queue flat_chain0 = [flat_claim]" "ch_blocks flat_chain0 = []" "ch_nodes flat_chain0 = Map.empty"
  "ch_tip flat_chain0 = genesis_parent" "ch_log flat_chain0 = []" "ch_pegin_check flat_chain0 = None"
  by (simp_all add: flat_chain0_def queue_pegin_def hc_create_def pegin_used_def)

lemma flat_run0: "chain_run flat C seal flat_params flat_chain0"
  unfolding flat_chain0_def using chain_run.pegin [OF chain_run.create [of flat]] by simp

definition flat_anchor :: aux_anchor where
  "flat_anchor = \<lparr> an_header_id = replicate 32 5, an_height = 7 \<rparr>"

definition flat_block :: hn_block where
  "flat_block = \<lparr> hb_height = 0, hb_prev_root = replicate 8 1, hb_prev_header_id = genesis_parent,
     hb_state_root = replicate 8 1, hb_timestamp_ms = 1000, hb_nbits = 1, hb_txs = [], hb_pegouts = [],
     hb_pegins = [flat_claim], hb_miner_owner = replicate 8 1, hb_coinbase_amount = 1,
     hb_coinbase_cm = replicate 8 1, hb_coinbase_ct = replicate 152 0, hb_coinbase_is_reward = True,
     hb_pot_after = 1000009, hb_shielded_after = 991, hb_anchor = flat_anchor, hb_aux_pow = None \<rparr>"

lemma flat_append:
  obtains t where "append_all (nt_append one_perm) nt_new [one_digest, one_digest] = Some t"
proof -
  have "length ([] :: digest list) + length [one_digest, one_digest] \<le> 2 ^ depth" by (simp add: depth_def)
  from nt.append_all_fits [OF nt_rep_new this] that show thesis by blast
qed

lemma flat_candidate: "candidate_block flat flat_seal flat_chain0 flat_miner flat_anchor 1000 = Inr flat_block"
proof -
  obtain t where t: "append_all (nt_append one_perm) nt_new [one_digest, one_digest] = Some t"
    by (rule flat_append)
  have seal: "coinbase_note one_perm flat_seal flat_miner v ident = Some (one_digest, replicate 152 0)" for v ident
    by (simp add: coinbase_note_def mint_out_def flat_seal_def split: prod.splits)
  have root: "simulate_state_root one_perm (hn_new one_perm flat_params) [one_digest, one_digest] = Inr (replicate 8 1)"
    using t one_root [OF t] by (simp add: simulate_state_root_def one_limbs)
  have cms: "pending_cms one_perm flat_chain0 one_digest = Inr [one_digest, one_digest]"
    by (simp add: pending_cms_def)
  show ?thesis
    by (simp add: candidate_block_def seal cms root expected_nbits_def hn_tip_root_def one_limbs
        pending_pot_after_def pending_shielded_after_def flat_block_def Let_def)
qed

lemma flat_solvent: "solvent flat_chain0"
  by (simp add: solvent_def Let_def word_le_nat_alt)

lemma flat_pegins: "fold_r (validate_pegins_step one_perm (ch_state flat_chain0))
       \<lparr> ga_in_block = [], ga_cms = [], ga_inflow = 0, ga_fees = 0 \<rparr> (ch_pegin_queue flat_chain0)
     = Inr \<lparr> ga_in_block = [replicate 32 9], ga_cms = [one_digest], ga_inflow = 1000, ga_fees = 10 \<rparr>"
  by (simp add: validate_pegins_step_def Let_def checked_sub_def word_le_nat_alt word_less_nat_alt note_ct_bytes_def)

lemma one_digest_bytes: "digest_to_bytes one_digest = one_bytes"
proof -
  have "to_le32 (as_canonical_u32 1) = [1, 0, 0, 0]"
    by (simp add: to_le32_def as_canonical_u32_def upt_rec)
  then show ?thesis by (simp add: digest_to_bytes_def one_digest_def one_bytes_def)
qed

lemma one_digest_wf: "wf_digest one_digest"
  by (simp add: one_digest_def wf_digest_def digest_elems_def babybear_p_def)

lemma flat_ident: "hn_header_id one_perm cid flat_block = Some one_bytes"
proof -
  have "header_id one_perm cid eb = one_bytes" for eb
    by (simp add: header_id_def header_id_from_fields_def header_preimage_def one_digest_bytes)
  then show ?thesis by (simp add: hn_header_id_def to_engine_block_def flat_block_def)
qed

lemma one_bytes_ne: "one_bytes \<noteq> genesis_parent"
  by (simp add: one_bytes_def genesis_parent_def eval_nat_numeral)

text \<open>The chain after the produced block.\<close>

lemma flat_produced:
  obtains ch s u where "chain_run flat C flat_seal flat_params ch"
    "produce_block_anchored flat C flat_seal flat_chain0 flat_miner flat_anchor 1000 = (ch, Inr ())"
    "apply_block flat (hn_new one_perm flat_params) flat_block = Inr (s, u)" "ch_state ch = s"
    "ch_blocks ch = [flat_block]" "ch_tip ch = one_bytes" "ch_log ch = append_record [] (bc_encode C flat_block)"
    "ch_nodes ch = [one_bytes \<mapsto> \<lparr> nd_block = flat_block, nd_parent = genesis_parent, nd_work = 1 \<rparr>]"
proof -
  have prev: "hb_nbits flat_block = 1" by (simp add: flat_block_def)
  have "\<exists>s u. apply_block flat (ch_state flat_chain0) flat_block = Inr (s, u)"
    by (rule candidate_accepted [OF flat_run0 _ _ _ flat_candidate _ _ _ _ _ flat_pegins [folded flat_fields(1)] flat_solvent])
      (simp_all add: one_perm_ok flat_seal_def note_ct_bytes_def one_digest_wf)
  then obtain s u where app: "apply_block flat (hn_new one_perm flat_params) flat_block = Inr (s, u)" by auto
  define ch where "ch = fst (produce_block_anchored flat C flat_seal flat_chain0 flat_miner flat_anchor 1000)"
  have work: "work_of Map.empty genesis_parent = Some 0" by (simp add: work_of_def)
  have prod: "produce_block_anchored flat C flat_seal flat_chain0 flat_miner flat_anchor 1000 = (ch, Inr ())
    \<and> ch_state ch = s \<and> ch_blocks ch = [flat_block] \<and> ch_tip ch = one_bytes
    \<and> ch_log ch = append_record [] (bc_encode C flat_block)
    \<and> ch_nodes ch = [one_bytes \<mapsto> \<lparr> nd_block = flat_block, nd_parent = genesis_parent, nd_work = 1 \<rparr>]"
    by (simp add: ch_def produce_block_anchored_def flat_candidate append_produced_def flat_ident extend_tip_def
        app register_node_def work persist_def Let_def prev)
  have "fresh_header flat flat_chain0 flat_block"
    by (simp add: fresh_header_def flat_ident one_bytes_ne)
  with chain_run.produce [OF flat_run0 flat_candidate, of C ch "Inr ()"] prod
  have "chain_run flat C flat_seal flat_params ch" by simp
  with prod app that show thesis by blast
qed

section \<open>Witnesses\<close>

theorem canonical_branch_heaviest_witness:
  "\<exists>ch :: hn_chain. ch_blocks ch = [flat_block] \<and> branch_blocks (ch_nodes ch) (ch_tip ch) = Some (ch_blocks ch)"
proof -
  obtain ch where "chain_run flat flat_codec flat_seal flat_params ch" "ch_blocks ch = [flat_block]"
    by (rule flat_produced [of flat_codec])
  with canonical_branch_heaviest [of flat flat_codec flat_seal flat_params ch] show ?thesis by - (rule exI [of _ ch], auto)
qed





definition one_codec :: block_codec where
  "one_codec = \<lparr> bc_encode = (\<lambda>b. [42]), bc_decode = (\<lambda>bs. Some flat_block) \<rparr>"

theorem restart_restores_witness:
  "\<exists>(ch :: hn_chain) ch'. ch_blocks ch = [flat_block] \<and> ch_log ch = [1, 0, 0, 0, 42]
     \<and> hc_open flat one_codec flat_params [1, 0, 0, 0, 42] = Inr ch' \<and> ch_blocks ch' = [flat_block]"
proof -
  obtain ch where ch: "chain_run flat one_codec flat_seal flat_params ch" "ch_blocks ch = [flat_block]"
    "ch_log ch = append_record [] (bc_encode one_codec flat_block)"
    "ch_nodes ch = [one_bytes \<mapsto> \<lparr> nd_block = flat_block, nd_parent = genesis_parent, nd_work = 1 \<rparr>]"
    by (rule flat_produced [of one_codec])
  have "to_le32 1 = [1, 0, 0, 0]" by (simp add: to_le32_def upt_rec)
  then have log: "ch_log ch = [1, 0, 0, 0, 42]"
    by (simp add: ch(3) append_record_def frame_record_def one_codec_def)
  have "\<forall>ident n. ch_nodes ch ident = Some n \<longrightarrow> bc_decode one_codec (bc_encode one_codec (nd_block n)) = Some (nd_block n)
      \<and> length (bc_encode one_codec (nd_block n)) < 2 ^ 32"
    by (simp add: ch(4) one_codec_def)
  from restart_restores [OF ch(1) this] show ?thesis
    using ch(2) log by - (rule exI [of _ ch], auto)
qed

definition flat_tx :: hn_tx where
  "flat_tx = \<lparr> tx_proof = [],
     tx_publics = replicate 8 1 @ replicate 8 5 @ replicate 8 6 @ replicate 16 0 @ [3, 0, 0, 0],
     tx_ct0 = replicate 152 0, tx_ct1 = replicate 152 0 \<rparr>"

lemma flat_tx_digests:
  "digest_at (tx_publics flat_tx) pub_root = Some one_digest"
  "digest_at (tx_publics flat_tx) pub_nf0 = Some (replicate 8 5)"
  "digest_at (tx_publics flat_tx) pub_nf1 = Some (replicate 8 6)"
  by (simp_all add: digest_at_def flat_tx_def pub_root_def pub_nf0_def pub_nf1_def one_digest_def f_of_u32_def babybear_p_def)

lemma flat_tx_valid: "validate_tx flat (ch_state flat_chain0) flat_tx {} = Inr (replicate 8 5, replicate 8 6)"
proof -
  have "tx_fee flat_tx = Inr (Some 3)"
    by (simp add: tx_fee_def flat_tx_def pub_fee_def n_limbs_def limbs_to_u64_def Let_def limb_bound_def limb_bits_def)
  moreover have "length (tx_publics flat_tx) = n_pub" "length (tx_ct0 flat_tx) = note_ct_bytes" "length (tx_ct1 flat_tx) = note_ct_bytes"
    by (simp_all add: flat_tx_def n_pub_def note_ct_bytes_def)
  moreover have "x_spend_verify flat (tx_proof flat_tx) (tx_publics flat_tx)"
    by (simp add: flat_def flat_tx_digests)
  ultimately show ?thesis
    by (simp add: validate_tx_def pub_digest_def flat_tx_digests)
qed

theorem mempool_conflict_free_witness:
  "\<exists>ch. hc_submit flat flat_chain0 flat_tx = Inr ch \<and> ch_mempool ch = [flat_tx]
     \<and> set (tx_nfs flat_tx) \<subseteq> ch_mempool_nfs ch - hs_nullifiers (ch_state ch)"
proof -
  have nfs: "ch_mempool_nfs flat_chain0 = {}"
    by (simp add: flat_chain0_def queue_pegin_def hc_create_def pegin_used_def)
  obtain ch where ch: "hc_submit flat flat_chain0 flat_tx = Inr ch" "ch_mempool ch = [flat_tx]"
    using flat_tx_valid by (auto simp: hc_submit_def nfs)
  have "chain_run flat flat_codec flat_seal flat_params ch"
    by (rule chain_run.submit [OF flat_run0 ch(1)])
  from mempool_conflict_free [OF this] ch show ?thesis by - (rule exI [of _ ch], auto)
qed

theorem produced_block_accepted_witness:
  "\<exists>ch. produce_block_anchored flat flat_codec flat_seal flat_chain0 flat_miner flat_anchor 1000 = (ch, Inr ())
     \<and> ch_blocks ch = [flat_block]"
proof -
  have "pending_valid flat flat_chain0"
    unfolding pending_valid_def by (rule exI [of _ "[]"]) (use flat_pegins in \<open>simp flip: flat_fields(1)\<close>)
  moreover have "if \<not> hp_require_aux_pow flat_params \<and> hs_anchor_height (ch_state flat_chain0) \<le> an_height flat_anchor
      \<and> of_nat (length (hp_genesis flat_params)) \<le> hs_height (ch_state flat_chain0) \<and> pending_valid flat flat_chain0 \<and> solvent flat_chain0
    then \<exists>ch'. produce_block_anchored flat flat_codec flat_seal flat_chain0 flat_miner flat_anchor 1000 = (ch', Inr ())
      \<and> ch_blocks ch' = ch_blocks flat_chain0 @ [flat_block]
      \<and> Some (ch_tip ch') = hn_header_id (x_perm flat) (hp_chain_id flat_params) flat_block
      \<and> hb_txs flat_block = ch_mempool flat_chain0 \<and> hb_pegouts flat_block = ch_pegouts flat_chain0
      \<and> hb_pegins flat_block = ch_pegin_queue flat_chain0
    else \<exists>e. produce_block_anchored flat flat_codec flat_seal flat_chain0 flat_miner flat_anchor 1000 = (taken flat_chain0, Inl e)"
    by (rule produced_block_accepted [OF flat_run0 _ _ _ flat_candidate])
      (simp_all add: one_perm_ok flat_seal_def note_ct_bytes_def one_digest_wf)
  ultimately show ?thesis using flat_solvent by auto
qed

definition flat_orphan :: hn_block where
  "flat_orphan = flat_block \<lparr> hb_pegins := [], hb_prev_header_id := replicate 32 7 \<rparr>"

theorem sync_never_returns_witness:
  "sync_from flat flat_codec 5 (\<lambda>_. [flat_orphan]) flat_chain0 0 = None"
proof -
  have "header_id one_perm cid eb = one_bytes" for cid eb
    by (simp add: header_id_def header_id_from_fields_def header_preimage_def one_digest_bytes)
  then have "hn_header_id one_perm cid flat_orphan = Some one_bytes" for cid
    by (simp add: hn_header_id_def to_engine_block_def flat_block_def flat_orphan_def)
  moreover have "(replicate 32 7 :: bytes) \<noteq> genesis_parent"
    unfolding genesis_parent_def replicate_eq_replicate by simp
  ultimately have "ingest_block flat flat_codec flat_chain0 flat_orphan = Inr (flat_chain0, False)"
    by (simp add: ingest_block_def fork_choice_ingest_def flat_orphan_def Let_def)
  then show ?thesis
    by (intro sync_never_returns) (simp_all add: block_count_def)
qed

theorem log_crash_safe_witness:
  "read_log (foldl append_record [] [[1, 2], [3]] @ take 5 (frame_record [4, 5, 6])) = [[1, 2], [3]]"
  by (rule log_crash_safe) (simp_all add: frame_record_def to_le32_def)

end
