(* ===== verification/BabyBear.thy ===== *)
theory BabyBear
  imports Poseidon
begin

text \<open>
  Arithmetic of the BabyBear field (the type \<^verbatim>\<open>F\<close> of \<^verbatim>\<open>engine/src/poseidon.rs\<close>, an external crate) on
  canonical representatives. The spend circuit needs that the field has no zero divisors, so the
  modulus is shown to be prime: 31 generates its multiplicative group.
\<close>

section \<open>Field operations\<close>

definition f_sub :: "F \<Rightarrow> F \<Rightarrow> F" where
  "f_sub a b = nat ((int a - int b) mod int babybear_p)"

definition f_mul :: "F \<Rightarrow> F \<Rightarrow> F" where
  "f_mul a b = a * b mod babybear_p"

lemma p_pos [simp]: "0 < babybear_p" by (simp add: babybear_p_def)

lemma f_ops_lt [simp]: "f_add a b < babybear_p" "f_sub a b < babybear_p" "f_mul a b < babybear_p"
  by (simp_all add: f_add_def f_sub_def f_mul_def nat_less_iff)

lemma int_f_ops:
  "int (f_add a b) = (int a + int b) mod int babybear_p"
  "int (f_sub a b) = (int a - int b) mod int babybear_p"
  "int (f_mul a b) = (int a * int b) mod int babybear_p"
  by (simp_all add: f_add_def f_sub_def f_mul_def zmod_int babybear_p_def)

lemma f_sub_0_iff: "a < babybear_p \<Longrightarrow> b < babybear_p \<Longrightarrow> f_sub a b = 0 \<longleftrightarrow> a = b"
proof -
  assume lt: "a < babybear_p" "b < babybear_p"
  have "f_sub a b = 0 \<longleftrightarrow> int a mod int babybear_p = int b mod int babybear_p"
    by (simp add: f_sub_def mod_eq_dvd_iff dvd_eq_mod_eq_0 order_antisym_conv babybear_p_def)
  with lt show ?thesis by simp
qed

section \<open>The modulus is prime\<close>

text \<open>31 generates the multiplicative group: its order is \<open>p - 1 = 2^27 * 3 * 5\<close>.\<close>

definition field_gen :: nat where "field_gen = 31"

fun sq_steps :: "'a list \<Rightarrow> nat \<Rightarrow> nat" where
  "sq_steps [] a = a"
| "sq_steps (_ # ks) a = sq_steps ks (a * a mod 2013265921)"

lemma sq_steps: "field_gen ^ n mod 2013265921 = a \<Longrightarrow> field_gen ^ (n * 2 ^ length ks) mod 2013265921 = sq_steps ks a"
proof (induction ks arbitrary: n a)
  case (Cons k ks)
  have "field_gen ^ (2 * n) mod 2013265921 = a * a mod 2013265921"
    using Cons.prems by (simp add: mult_2 power_add mod_mult_eq flip: mod_mult_eq [of "field_gen ^ n"])
  from Cons.IH [OF this] show ?case by (simp add: mult.assoc mult.left_commute mult.commute)
qed simp

lemma small_powers: "field_gen ^ 15 mod 2013265921 = 440564289" 
  "field_gen ^ 5 mod 2013265921 = 28629151" "field_gen ^ 3 mod 2013265921 = 29791"
  by (simp_all add: field_gen_def)

definition ticks :: "unit list" where
  "ticks = [(), (), (), (), (), (), (), (), (), (), (), (), (), (), (), (), (), (), (), (), (), (), (), (), (), ()]"

lemma length_ticks: "length ticks = 26" by (simp add: ticks_def)

lemma sq_values: "sq_steps ticks 440564289 = 2013265920" "sq_steps (() # ticks) 440564289 = 1"
  "sq_steps (() # ticks) 28629151 \<noteq> 1" "sq_steps (() # ticks) 29791 \<noteq> 1"
  by (simp_all add: ticks_def)

lemma gen_orders:
  "field_gen ^ 2013265920 mod 2013265921 = 1" "field_gen ^ 1006632960 mod 2013265921 \<noteq> 1"
  "field_gen ^ 671088640 mod 2013265921 \<noteq> 1" "field_gen ^ 402653184 mod 2013265921 \<noteq> 1"
  using sq_steps [OF small_powers(1), of "() # ticks"] sq_steps [OF small_powers(1), of ticks]
    sq_steps [OF small_powers(2), of "() # ticks"] sq_steps [OF small_powers(3), of "() # ticks"]
  unfolding sq_values(1,2) using sq_values(3,4) by (simp_all add: length_ticks)

definition group_order :: nat where "group_order = 2013265920"

lemma p_group: "babybear_p = Suc group_order" "0 < group_order" "1 mod babybear_p = 1" "1 < babybear_p"
  by (simp_all add: babybear_p_def group_order_def)

lemma group_facts: "field_gen ^ group_order mod babybear_p = 1" "field_gen ^ (group_order div 2) mod babybear_p \<noteq> 1"
  "field_gen ^ (group_order div 3) mod babybear_p \<noteq> 1" "field_gen ^ (group_order div 5) mod babybear_p \<noteq> 1"
  using gen_orders by (simp_all add: babybear_p_def group_order_def)

lemma pow_mod_mult: "field_gen ^ (a + b) mod babybear_p = (field_gen ^ a mod babybear_p) * (field_gen ^ b mod babybear_p) mod babybear_p"
  by (simp add: power_add mod_mult_eq)

lemma pow_mod_one: "field_gen ^ d mod babybear_p = 1 \<Longrightarrow> field_gen ^ (d * k) mod babybear_p = 1"
proof (induction k)
  case (Suc k)
  then show ?case using pow_mod_mult [of d "d * k"] p_group(3) by simp
qed (simp add: p_group)

lemma small_prime_divisor:
  assumes "g dvd q" "q = 2 \<or> q = 3 \<or> q = (5 :: nat)"
  shows "g = 1 \<or> g = q"
proof -
  have "g \<le> q" using assms by (auto dest: dvd_imp_le)
  with assms(2) have "g \<in> {0, 1, 2, 3, 4, 5}" by auto
  with assms show ?thesis by auto
qed

lemma coprime_small:
  assumes "\<not> 2 dvd m" "\<not> 3 dvd m" "\<not> 5 dvd (m :: nat)"
  shows "coprime m group_order"
proof -
  have c: "coprime m q" if "\<not> q dvd m" "q = 2 \<or> q = 3 \<or> q = 5" for q
  proof -
    have "gcd m q \<noteq> q" using that(1) by (metis gcd_dvd1)
    with small_prime_divisor [OF gcd_dvd2 that(2)] have "gcd m q = 1" by blast
    then show ?thesis by (simp add: coprime_iff_gcd_eq_1)
  qed
  have "coprime m 2" "coprime m 3" "coprime m 5" using c assms by blast+
  then have "coprime m (2 ^ k * (3 * 5))" for k :: nat
    by (metis coprime_mult_right_iff coprime_power_right_iff)
  from this [of 27] have "coprime m group_order"
    unfolding group_order_def by (rule back_subst [of "coprime m"]) simp
  then show ?thesis .
qed

lemma gen_order:
  assumes "field_gen ^ n mod babybear_p = 1" and "0 < n"
  shows "group_order \<le> n"
proof -
  define d where "d = (LEAST d. 0 < d \<and> field_gen ^ d mod babybear_p = 1)"
  have d: "0 < d" "field_gen ^ d mod babybear_p = 1"
    using LeastI [of "\<lambda>d. 0 < d \<and> field_gen ^ d mod babybear_p = 1" n] assms by (simp_all add: d_def)
  have least: "d \<le> k" if "0 < k" "field_gen ^ k mod babybear_p = 1" for k
    using that by (auto simp: d_def intro: Least_le)
  have divides: "d dvd k" if "field_gen ^ k mod babybear_p = 1" for k
  proof -
    have "field_gen ^ (d * (k div d) + k mod d) mod babybear_p = 1" using that by simp
    then have "field_gen ^ (k mod d) mod babybear_p = 1"
      using pow_mod_mult [of "d * (k div d)" "k mod d"] pow_mod_one [OF d(2)] by simp
    with least d(1) have "k mod d = 0" by (metis gr0I mod_less_divisor not_le)
    then show ?thesis by auto
  qed
  obtain m where m: "group_order = d * m" by (rule dvdE [OF divides [OF group_facts(1)]])
  have nd: "\<not> q dvd m" if "field_gen ^ (group_order div q) mod babybear_p \<noteq> 1" "0 < q" for q
  proof
    assume "q dvd m"
    then obtain k where "m = q * k" by (auto elim: dvdE)
    with m that(2) have "group_order div q = d * k" by (metis div_mult_self_is_m mult.assoc mult.commute)
    with pow_mod_one [OF d(2)] that(1) show False by simp
  qed
  have "coprime m group_order"
    by (rule coprime_small) (rule nd; use group_facts in simp)+
  with m have "m = 1" by (metis coprime_common_divisor_nat dvd_refl dvd_triv_right)
  with m least [of n] assms divides [OF assms(1)] show ?thesis by (auto dest: dvd_imp_le)
qed

lemma field_generated:
  assumes "0 < x" "x < babybear_p"
  obtains k where "k < group_order" "field_gen ^ k mod babybear_p = x"
proof -
  let ?f = "\<lambda>k. field_gen ^ k mod babybear_p"
  have inj: "inj_on ?f {..<group_order}"
  proof (rule linorder_inj_onI')
    fix a b assume ab: "a \<in> {..<group_order}" "b \<in> {..<group_order}" "a < b"
    show "?f a \<noteq> ?f b"
    proof
      assume eq: "?f a = ?f b"
      have "?f (group_order - a + a) = ?f (group_order - a + b)"
        unfolding pow_mod_mult [of "group_order - a"] eq ..
      also have "group_order - a + b = group_order + (b - a)" using ab by simp
      finally have "?f (b - a) = 1"
        using ab group_facts(1) pow_mod_mult [of group_order "b - a"] by simp
      from gen_order [OF this] ab show False by simp
    qed
  qed
  have nz: "?f k \<noteq> 0" if "k < group_order" for k
  proof
    assume "?f k = 0"
    then have "?f (k + (group_order - k)) = 0" using pow_mod_mult [of k "group_order - k"] by simp
    with that group_facts(1) show False by simp
  qed
  have "?f ` {..<group_order} = {0<..<babybear_p}"
  proof (rule card_subset_eq)
    show "?f ` {..<group_order} \<subseteq> {0<..<babybear_p}"
      using nz by (auto intro: gr0I)
    show "card (?f ` {..<group_order}) = card {0<..<babybear_p :: nat}"
      by (subst card_image [OF inj]) (simp add: p_group(1))
  qed simp
  moreover have "x \<in> {0<..<babybear_p}" using assms by simp
  ultimately show thesis using that by (metis (no_types, lifting) imageE lessThan_iff)
qed

lemma f_inverse:
  assumes "x < babybear_p" "x \<noteq> 0"
  obtains y where "y < babybear_p" "f_mul x y = 1"
proof -
  obtain k where k: "k < group_order" "field_gen ^ k mod babybear_p = x"
    using assms by (auto elim: field_generated)
  have "f_mul x (field_gen ^ (group_order - k) mod babybear_p) = 1"
    using pow_mod_mult [of k "group_order - k"] group_facts(1) k by (simp add: f_mul_def)
  with that [of "field_gen ^ (group_order - k) mod babybear_p"] show thesis by simp
qed

lemma f_mul_eq_0:
  assumes "f_mul a b = 0" and "a < babybear_p" "b < babybear_p"
  shows "a = 0 \<or> b = 0"
proof (rule disjCI)
  assume "b \<noteq> 0"
  with assms(3) obtain y where y: "f_mul b y = 1" by (rule f_inverse)
  have "f_mul (f_mul a b) y = f_mul a (f_mul b y)"
    by (simp add: f_mul_def mod_mult_left_eq mod_mult_right_eq mult.assoc)
  with assms(1,2) y show "a = 0" by (simp add: f_mul_def)
qed

lemma f_boolean:
  assumes "f_mul b (f_sub b 1) = 0" and "b < babybear_p"
  shows "b = 0 \<or> b = 1"
proof -
  from f_mul_eq_0 [OF assms(1,2) f_ops_lt(2)] f_sub_0_iff [OF assms(2) p_group(4)] show ?thesis by blast
qed

end
