(* ===== verification/PermAir.thy ===== *)
theory PermAir
  imports BabyBear
begin

text \<open>
  The Poseidon2 permutation as constraints (\<^verbatim>\<open>engine/src/spend/perm.rs\<close>) and the AIR that binds one
  permutation to public values (\<^verbatim>\<open>engine/src/spend/mod.rs\<close>).

  A constraint is a field expression that must vanish; an expression is evaluated at the cells of
  the current row. A selector multiplies it. The proof system, the linear layers and the round
  constants are the external crate's; the layers and constants are the record \<open>poseidon2\<close>.
\<close>

section \<open>Constraints\<close>

definition assert_zero :: "F \<Rightarrow> bool" where
  "assert_zero x \<longleftrightarrow> x = 0"

definition assert_eq :: "F \<Rightarrow> F \<Rightarrow> bool" where
  "assert_eq a b \<longleftrightarrow> assert_zero (f_sub a b)"

definition assert_one :: "F \<Rightarrow> bool" where
  "assert_one a \<longleftrightarrow> assert_eq a 1"

text \<open>Under a selector: \<^verbatim>\<open>builder.when(sel).assert_zero(x)\<close>.\<close>

definition when_zero :: "F \<Rightarrow> F \<Rightarrow> bool" where
  "when_zero sel x \<longleftrightarrow> assert_zero (f_mul sel x)"

definition when_eq :: "F \<Rightarrow> F \<Rightarrow> F \<Rightarrow> bool" where
  "when_eq sel a b \<longleftrightarrow> when_zero sel (f_sub a b)"

definition f_flag :: "bool \<Rightarrow> F" where
  "f_flag b = of_bool b"

lemma when_zero_flag: "x < babybear_p \<Longrightarrow> when_zero (f_flag b) x \<longleftrightarrow> (b \<longrightarrow> x = 0)"
  by (simp add: when_zero_def assert_zero_def f_flag_def f_mul_def)

lemma assert_eq_iff: "a < babybear_p \<Longrightarrow> b < babybear_p \<Longrightarrow> assert_eq a b \<longleftrightarrow> a = b"
  by (simp add: assert_eq_def assert_zero_def f_sub_0_iff)

lemma when_eq_flag:
  "a < babybear_p \<Longrightarrow> b < babybear_p \<Longrightarrow> when_eq (f_flag c) a b \<longleftrightarrow> (c \<longrightarrow> a = b)"
  by (simp add: when_eq_def when_zero_flag f_sub_0_iff)

definition canon :: "F list \<Rightarrow> bool" where
  "canon xs \<longleftrightarrow> (\<forall>x \<in> set xs. x < babybear_p)"

lemma canon_simps [simp]:
  "canon []" "canon (x # xs) \<longleftrightarrow> x < babybear_p \<and> canon xs" "canon (xs @ ys) \<longleftrightarrow> canon xs \<and> canon ys"
  by (auto simp: canon_def)

lemma canon_nth: "canon xs \<Longrightarrow> i < length xs \<Longrightarrow> xs ! i < babybear_p"
  by (simp add: canon_def)

lemma canon_sub: "canon xs \<Longrightarrow> canon (take n xs)" "canon xs \<Longrightarrow> canon (drop n xs)"
  by (auto simp: canon_def dest: in_set_takeD in_set_dropD)

lemma canon_map: "(\<And>x. f x < babybear_p) \<Longrightarrow> canon (map f xs)"
  by (auto simp: canon_def)

lemma canon_map2: "(\<And>x y. f x y < babybear_p) \<Longrightarrow> canon (map2 f xs ys)"
  by (auto simp: canon_def)

lemma zip_all_eq:
  "length xs = length ys \<Longrightarrow> canon xs \<Longrightarrow> canon ys \<Longrightarrow> list_all (\<lambda>(a, b). assert_eq a b) (zip xs ys) \<longleftrightarrow> xs = ys"
  by (induction xs ys rule: list_induct2) (auto simp: assert_eq_iff)

section \<open>The permutation gadget\<close>

record poseidon2 =
  p2_external :: "F list \<Rightarrow> F list"
  p2_internal :: "F list \<Rightarrow> F list"
  p2_rc_initial :: "F list list"
  p2_rc_internal :: "F list"
  p2_rc_final :: "F list list"

definition half_full_rounds :: nat where "half_full_rounds = 4"
definition partial_rounds :: nat where "partial_rounds = 13"

record full_round =
  fd_sbox :: "F list"
  fd_post :: "F list"

record partial_round =
  pd_sbox :: F
  pd_post_sbox :: F

record perm_cols =
  pc_inputs :: "F list"
  pc_beginning :: "full_round list"
  pc_partial :: "partial_round list"
  pc_ending :: "full_round list"

text \<open>Borrowing the columns of one permutation: the inputs, then per full round the register and the
  post state of every lane, per partial round the register and the value behind the S-box.\<close>

definition full_round_of :: "F list \<Rightarrow> full_round" where
  "full_round_of cs = \<lparr> fd_sbox = take width cs, fd_post = drop width cs \<rparr>"

definition partial_round_of :: "F list \<Rightarrow> partial_round" where
  "partial_round_of cs = \<lparr> pd_sbox = cs ! 0, pd_post_sbox = cs ! 1 \<rparr>"

definition full_cols :: nat where "full_cols = 2 * width"

definition perm_width :: nat where
  "perm_width = width + 2 * half_full_rounds * full_cols + 2 * partial_rounds"

definition perm_cols_of :: "F list \<Rightarrow> perm_cols" where
  "perm_cols_of cs =
     (let a = width; b = a + half_full_rounds * full_cols; c = b + 2 * partial_rounds in
      \<lparr> pc_inputs = take a cs,
        pc_beginning = map full_round_of (chunks full_cols (take (b - a) (drop a cs))),
        pc_partial = map partial_round_of (chunks 2 (take (c - b) (drop b cs))),
        pc_ending = map full_round_of (chunks full_cols (drop c cs)) \<rparr>)"

definition f_cube :: "F \<Rightarrow> F" where
  "f_cube x = f_mul (f_mul x x) x"

text \<open>Each step returns whether its constraints hold, and the next state.\<close>

definition eval_sbox :: "F \<Rightarrow> F \<Rightarrow> bool \<times> F" where
  "eval_sbox reg x = (assert_eq reg (f_cube x), f_mul (f_mul reg reg) x)"

definition eval_full_round :: "poseidon2 \<Rightarrow> bool \<times> F list \<Rightarrow> full_round \<times> F list \<Rightarrow> bool \<times> F list" where
  "eval_full_round L st rd_rc =
     (let (ok, state) = st; (rd, rc) = rd_rc;
          boxes = map2 eval_sbox (fd_sbox rd) (map2 f_add state rc);
          next_state = p2_external L (map snd boxes)
      in (ok \<and> list_all fst boxes \<and> list_all (\<lambda>(a, b). assert_eq a b) (zip next_state (fd_post rd)),
          fd_post rd))"

definition eval_partial_round :: "poseidon2 \<Rightarrow> bool \<times> F list \<Rightarrow> partial_round \<times> F \<Rightarrow> bool \<times> F list" where
  "eval_partial_round L st rd_rc =
     (let (ok, state) = st; (rd, rc) = rd_rc;
          (box_ok, x) = eval_sbox (pd_sbox rd) (f_add (state ! 0) rc)
      in (ok \<and> box_ok \<and> assert_eq x (pd_post_sbox rd), p2_internal L (state [0 := pd_post_sbox rd])))"

definition eval_permutation :: "poseidon2 \<Rightarrow> perm_cols \<Rightarrow> bool \<times> F list" where
  "eval_permutation L cols =
     (let s0 = (True, p2_external L (pc_inputs cols));
          s1 = foldl (eval_full_round L) s0 (zip (pc_beginning cols) (p2_rc_initial L));
          s2 = foldl (eval_partial_round L) s1 (zip (pc_partial cols) (p2_rc_internal L))
      in foldl (eval_full_round L) s2 (zip (pc_ending cols) (p2_rc_final L)))"

section \<open>The permutation it pins\<close>

definition f_pow7 :: "F \<Rightarrow> F" where
  "f_pow7 x = f_mul (f_mul (f_cube x) (f_cube x)) x"

definition p2_full_round :: "poseidon2 \<Rightarrow> F list \<Rightarrow> F list \<Rightarrow> F list" where
  "p2_full_round L state rc = p2_external L (map f_pow7 (map2 f_add state rc))"

definition p2_partial_round :: "poseidon2 \<Rightarrow> F list \<Rightarrow> F \<Rightarrow> F list" where
  "p2_partial_round L state rc = p2_internal L (state [0 := f_pow7 (f_add (state ! 0) rc)])"

text \<open>Poseidon2 with the layers and constants of \<open>L\<close>: the specification of \<^verbatim>\<open>permute\<close>.\<close>

definition p2_permute :: "poseidon2 \<Rightarrow> perm" where
  "p2_permute L input =
     foldl (p2_full_round L)
       (foldl (p2_partial_round L) (foldl (p2_full_round L) (p2_external L input) (p2_rc_initial L))
         (p2_rc_internal L)) (p2_rc_final L)"

text \<open>Shapes and canonical values: what the Rust array types and the field type guarantee.\<close>

definition state_ok :: "F list \<Rightarrow> bool" where
  "state_ok s \<longleftrightarrow> length s = width \<and> canon s"

definition layers_ok :: "poseidon2 \<Rightarrow> bool" where
  "layers_ok L \<longleftrightarrow> (\<forall>s. state_ok s \<longrightarrow> state_ok (p2_external L s) \<and> state_ok (p2_internal L s))
     \<and> length (p2_rc_initial L) = half_full_rounds \<and> length (p2_rc_final L) = half_full_rounds
     \<and> length (p2_rc_internal L) = partial_rounds
     \<and> (\<forall>rc \<in> set (p2_rc_initial L @ p2_rc_final L). length rc = width)"

definition full_round_ok :: "full_round \<Rightarrow> bool" where
  "full_round_ok rd \<longleftrightarrow> state_ok (fd_sbox rd) \<and> state_ok (fd_post rd)"

definition partial_round_ok :: "partial_round \<Rightarrow> bool" where
  "partial_round_ok rd \<longleftrightarrow> pd_sbox rd < babybear_p \<and> pd_post_sbox rd < babybear_p"

definition perm_cols_ok :: "perm_cols \<Rightarrow> bool" where
  "perm_cols_ok cols \<longleftrightarrow> state_ok (pc_inputs cols)
     \<and> length (pc_beginning cols) = half_full_rounds \<and> list_all full_round_ok (pc_beginning cols)
     \<and> length (pc_partial cols) = partial_rounds \<and> list_all partial_round_ok (pc_partial cols)
     \<and> length (pc_ending cols) = half_full_rounds \<and> list_all full_round_ok (pc_ending cols)"

lemma layers_okD:
  assumes "layers_ok L"
  shows "state_ok s \<Longrightarrow> state_ok (p2_external L s)" "state_ok s \<Longrightarrow> state_ok (p2_internal L s)"
    "length (p2_rc_initial L) = half_full_rounds" "length (p2_rc_final L) = half_full_rounds"
    "length (p2_rc_internal L) = partial_rounds"
    "rc \<in> set (p2_rc_initial L) \<or> rc \<in> set (p2_rc_final L) \<Longrightarrow> length rc = width"
  using assms by (auto simp: layers_ok_def)

lemma eval_sbox_ok:
  assumes "reg < babybear_p" and "fst (eval_sbox reg x)"
  shows "snd (eval_sbox reg x) = f_pow7 x"
  using assms by (simp add: eval_sbox_def assert_eq_iff f_pow7_def f_cube_def)

lemma boxes_ok:
  assumes "length regs = length xs" "canon regs" "list_all fst (map2 eval_sbox regs xs)"
  shows "map snd (map2 eval_sbox regs xs) = map f_pow7 xs"
  using assms by (induction regs xs rule: list_induct2) (auto simp: eval_sbox_ok simp del: split_def)

lemma f_pow7_lt: "f_pow7 x < babybear_p" by (simp add: f_pow7_def)

lemma eval_full_round_ok:
  assumes L: "layers_ok L" and rd: "full_round_ok rd" and s: "state_ok state" and rc: "length rc = width"
    and ok: "fst (eval_full_round L (b, state) (rd, rc))"
  shows "b" "snd (eval_full_round L (b, state) (rd, rc)) = p2_full_round L state rc"
    "state_ok (p2_full_round L state rc)"
proof -
  let ?xs = "map2 f_add state rc"
  let ?boxes = "map2 eval_sbox (fd_sbox rd) ?xs"
  have eq: "eval_full_round L (b, state) (rd, rc) = (b \<and> list_all fst ?boxes
      \<and> list_all (\<lambda>(a, b). assert_eq a b) (zip (p2_external L (map snd ?boxes)) (fd_post rd)), fd_post rd)"
    by (simp only: eval_full_round_def Let_def prod.case)
  have len: "length ?xs = width" using s rc by (simp add: state_ok_def)
  from ok show b by (simp only: eq fst_conv)
  have "list_all fst ?boxes" using ok by (simp only: eq fst_conv)
  with rd len have boxes: "map snd ?boxes = map f_pow7 ?xs"
    by (intro boxes_ok) (simp_all add: full_round_ok_def state_ok_def)
  have "state_ok (map f_pow7 ?xs)"
    using len by (simp only: state_ok_def length_map canon_map f_pow7_lt simp_thms)
  then show st: "state_ok (p2_full_round L state rc)"
    unfolding p2_full_round_def by (rule layers_okD(1) [OF L])
  have "list_all (\<lambda>(a, b). assert_eq a b) (zip (p2_full_round L state rc) (fd_post rd))"
    using ok unfolding eq boxes p2_full_round_def by simp
  then have "p2_full_round L state rc = fd_post rd"
    using rd st zip_all_eq [of "p2_full_round L state rc" "fd_post rd"]
    by (simp add: full_round_ok_def state_ok_def)
  then show "snd (eval_full_round L (b, state) (rd, rc)) = p2_full_round L state rc"
    by (simp add: eq)
qed

lemma eval_partial_round_ok:
  assumes L: "layers_ok L" and rd: "partial_round_ok rd" and s: "state_ok state"
    and ok: "fst (eval_partial_round L (b, state) (rd, rc))"
  shows "b" "snd (eval_partial_round L (b, state) (rd, rc)) = p2_partial_round L state rc"
    "state_ok (p2_partial_round L state rc)"
proof -
  have "fst (eval_sbox (pd_sbox rd) (f_add (state ! 0) rc))"
    and "assert_eq (snd (eval_sbox (pd_sbox rd) (f_add (state ! 0) rc))) (pd_post_sbox rd)" and b
    using ok by (simp_all add: eval_partial_round_def split_beta)
  then show b and eq: "snd (eval_partial_round L (b, state) (rd, rc)) = p2_partial_round L state rc"
    using rd eval_sbox_ok [of "pd_sbox rd" "f_add (state ! 0) rc"]
    by (simp_all add: eval_partial_round_def p2_partial_round_def partial_round_ok_def assert_eq_iff f_pow7_lt split_beta)
  have "state_ok (state [0 := f_pow7 (f_add (state ! 0) rc)])"
    using s f_pow7_lt by (auto simp: state_ok_def canon_def dest!: set_update_subset_insert [THEN subsetD])
  then show "state_ok (p2_partial_round L state rc)"
    unfolding p2_partial_round_def by (rule layers_okD(2) [OF L])
qed

lemma eval_full_rounds_ok:
  assumes L: "layers_ok L"
  shows "length rds = length rcs \<Longrightarrow> list_all full_round_ok rds \<Longrightarrow> \<forall>rc \<in> set rcs. length rc = width \<Longrightarrow>
    state_ok state \<Longrightarrow> fst (foldl (eval_full_round L) (b, state) (zip rds rcs)) \<Longrightarrow>
    b \<and> snd (foldl (eval_full_round L) (b, state) (zip rds rcs)) = foldl (p2_full_round L) state rcs
      \<and> state_ok (foldl (p2_full_round L) state rcs)"
proof (induction rds rcs arbitrary: b state rule: list_induct2)
  case (Cons rd rds rc rcs)
  obtain b' state' where e: "eval_full_round L (b, state) (rd, rc) = (b', state')" by (cases "eval_full_round L (b, state) (rd, rc)")
  have b': "b' = fst (eval_full_round L (b, state) (rd, rc))" by (simp add: e)
  have st: "state' = fd_post rd" using e by (simp add: eval_full_round_def Let_def)
  have st': "state_ok state'" using Cons.prems by (simp add: st full_round_ok_def)
  have ih: "b' \<and> snd (foldl (eval_full_round L) (b', state') (zip rds rcs))
      = foldl (p2_full_round L) state' rcs \<and> state_ok (foldl (p2_full_round L) state' rcs)"
    by (rule Cons.IH) (use Cons.prems st' in \<open>simp_all add: e\<close>)
  then have ok: "fst (eval_full_round L (b, state) (rd, rc))" and "b' = True" by (simp_all add: b')
  have r: b "state' = p2_full_round L state rc"
    using eval_full_round_ok(1,2) [OF L _ Cons.prems(3) _ ok] Cons.prems unfolding e by simp_all
  show ?case unfolding zip_Cons_Cons foldl_Cons e using ih r(1) unfolding r(2) by blast
qed simp

lemma eval_partial_rounds_ok:
  assumes L: "layers_ok L"
  shows "length rds = length rcs \<Longrightarrow> list_all partial_round_ok rds \<Longrightarrow>
    state_ok state \<Longrightarrow> fst (foldl (eval_partial_round L) (b, state) (zip rds rcs)) \<Longrightarrow>
    b \<and> snd (foldl (eval_partial_round L) (b, state) (zip rds rcs)) = foldl (p2_partial_round L) state rcs
      \<and> state_ok (foldl (p2_partial_round L) state rcs)"
proof (induction rds rcs arbitrary: b state rule: list_induct2)
  case (Cons rd rds rc rcs)
  obtain b' state' where e: "eval_partial_round L (b, state) (rd, rc) = (b', state')"
    by (cases "eval_partial_round L (b, state) (rd, rc)")
  have "state_ok (state [0 := pd_post_sbox rd])"
    using Cons.prems by (auto simp: state_ok_def canon_def partial_round_ok_def dest!: set_update_subset_insert [THEN subsetD])
  then have st': "state_ok state'"
    using e layers_okD(2) [OF L] by (auto simp: eval_partial_round_def split_beta)
  have ih: "b' \<and> snd (foldl (eval_partial_round L) (b', state') (zip rds rcs))
      = foldl (p2_partial_round L) state' rcs \<and> state_ok (foldl (p2_partial_round L) state' rcs)"
    by (rule Cons.IH) (use Cons.prems st' in \<open>simp_all add: e\<close>)
  then have ok: "fst (eval_partial_round L (b, state) (rd, rc))" and "b' = True" by (simp_all add: e)
  have r: b "state' = p2_partial_round L state rc"
    using eval_partial_round_ok(1,2) [OF L _ Cons.prems(2) ok] Cons.prems unfolding e by simp_all
  show ?case unfolding zip_Cons_Cons foldl_Cons e using ih r(1) unfolding r(2) by blast
qed simp

text \<open>The constraints pin the output columns to the permutation of the input columns.\<close>

lemma eval_permutation_ok:
  assumes L: "layers_ok L" and cols: "perm_cols_ok cols" and ok: "fst (eval_permutation L cols)"
  shows "snd (eval_permutation L cols) = p2_permute L (pc_inputs cols)" "state_ok (p2_permute L (pc_inputs cols))"
proof -
  let ?s0 = "(True, p2_external L (pc_inputs cols))"
  let ?s1 = "foldl (eval_full_round L) ?s0 (zip (pc_beginning cols) (p2_rc_initial L))"
  let ?s2 = "foldl (eval_partial_round L) ?s1 (zip (pc_partial cols) (p2_rc_internal L))"
  have mono_f: "fst (foldl (eval_full_round L) s rs) \<Longrightarrow> fst s" for s rs
    by (induction rs arbitrary: s) (force simp: eval_full_round_def Let_def split_beta)+
  have mono_p: "fst (foldl (eval_partial_round L) s rs) \<Longrightarrow> fst s" for s rs
    by (induction rs arbitrary: s) (force simp: eval_partial_round_def Let_def split_beta)+
  note d = layers_okD [OF L]
  have final: "fst (foldl (eval_full_round L) ?s2 (zip (pc_ending cols) (p2_rc_final L)))"
    using ok by (simp add: eval_permutation_def)
  have s0: "state_ok (p2_external L (pc_inputs cols))" using cols d(1) by (simp add: perm_cols_ok_def)
  note ok2 = mono_f [OF final]
  note ok1 = mono_p [OF ok2]
  have s1: "snd ?s1 = foldl (p2_full_round L) (p2_external L (pc_inputs cols)) (p2_rc_initial L)" "state_ok (snd ?s1)"
    using eval_full_rounds_ok [OF L _ _ _ s0 ok1] cols d by (simp_all add: perm_cols_ok_def)
  have s2: "snd ?s2 = foldl (p2_partial_round L) (snd ?s1) (p2_rc_internal L)" "state_ok (snd ?s2)"
    using eval_partial_rounds_ok [OF L _ _ s1(2), of "pc_partial cols" "p2_rc_internal L" "fst ?s1"] ok2 cols d
    by (simp_all add: perm_cols_ok_def)
  have "snd (foldl (eval_full_round L) ?s2 (zip (pc_ending cols) (p2_rc_final L)))
      = foldl (p2_full_round L) (snd ?s2) (p2_rc_final L) \<and> state_ok (foldl (p2_full_round L) (snd ?s2) (p2_rc_final L))"
    using eval_full_rounds_ok [OF L _ _ _ s2(2), of "pc_ending cols" "p2_rc_final L" "fst ?s2"] final cols d
    by (simp add: perm_cols_ok_def)
  then show "snd (eval_permutation L cols) = p2_permute L (pc_inputs cols)" "state_ok (p2_permute L (pc_inputs cols))"
    by (simp_all add: eval_permutation_def p2_permute_def s1(1) s2(1))
qed

lemma chunks_list_all:
  assumes "0 < n" "length xs = k * n" "canon xs"
  shows "length (chunks n xs) = k" "\<forall>c \<in> set (chunks n xs). length c = n \<and> canon c"
proof -
  show "length (chunks n xs) = k" using assms by (simp add: length_chunks_exact)
  show "\<forall>c \<in> set (chunks n xs). length c = n \<and> canon c"
  proof
    fix c assume c: "c \<in> set (chunks n xs)"
    have "set c \<subseteq> set xs"
      using c concat_chunks [OF assms(1), of xs] by (metis UN_upper set_concat)
    with assms(3) chunks_exact_elem [OF assms(1) _ c] assms(2) show "length c = n \<and> canon c" by (auto simp: canon_def)
  qed
qed

lemma perm_cols_of_ok:
  assumes "length cs = perm_width" "canon cs"
  shows "perm_cols_ok (perm_cols_of cs)"
proof -
  have n: "width = 16" "full_cols = 32" "half_full_rounds = 4" "partial_rounds = 13" "perm_width = 298"
    by (simp_all add: width_def full_cols_def half_full_rounds_def partial_rounds_def perm_width_def)
  have full: "length (map full_round_of (chunks 32 xs)) = 4 \<and> list_all full_round_ok (map full_round_of (chunks 32 xs))"
    if "length xs = 4 * 32" "canon xs" for xs
    using chunks_list_all [OF _ that(1) that(2)]
    by (auto simp: list_all_iff full_round_ok_def full_round_of_def state_ok_def n canon_sub)
  have part: "length (map partial_round_of (chunks 2 xs)) = 13 \<and> list_all partial_round_ok (map partial_round_of (chunks 2 xs))"
    if "length xs = 13 * 2" "canon xs" for xs
    using chunks_list_all [OF _ that(1) that(2)]
    by (auto simp: list_all_iff partial_round_ok_def partial_round_of_def canon_nth)
  show ?thesis
    using full [of "take 128 (drop 16 cs)"] part [of "take 26 (drop 144 cs)"] full [of "drop 170 cs"] assms
    by (simp add: perm_cols_ok_def perm_cols_of_def Let_def n state_ok_def canon_sub)
qed

lemma pc_inputs_of [simp]: "pc_inputs (perm_cols_of cs) = take width cs"
  by (simp add: perm_cols_of_def Let_def)

text \<open>What a caller of the gadget uses.\<close>

lemma permutation_columns:
  assumes "layers_ok L" "length cs = perm_width" "canon cs" "fst (eval_permutation L (perm_cols_of cs))"
  shows "snd (eval_permutation L (perm_cols_of cs)) = p2_permute L (take width cs)"
    "state_ok (p2_permute L (take width cs))"
  using eval_permutation_ok [OF assms(1) perm_cols_of_ok [OF assms(2,3)] assms(4)] by simp_all

section \<open>The binding AIR\<close>

definition perm_binding_eval :: "poseidon2 \<Rightarrow> F list \<Rightarrow> F \<Rightarrow> F list \<Rightarrow> bool" where
  "perm_binding_eval L local first pv =
     (let cols = perm_cols_of local; (ok, output) = eval_permutation L cols in
      ok \<and> list_all (\<lambda>(inp, p). when_eq first inp p) (zip (pc_inputs cols) (take width pv))
        \<and> list_all (\<lambda>(i, out). when_eq first out (pv ! (width + i))) (enumerate 0 output))"

text \<open>
  The base binding: a first row that satisfies the constraints has public values \<open>x @ y\<close> with
  \<open>y\<close> the permutation of \<open>x\<close>.
\<close>

lemma perm_binding_sound:
  assumes L: "layers_ok L" and row: "length local = perm_width" "canon local"
    and pv: "length pv = 2 * width" "canon pv" and ok: "perm_binding_eval L local (f_flag True) pv"
  shows "drop width pv = p2_permute L (take width pv)"
proof -
  let ?out = "p2_permute L (take width local)"
  have ev: "fst (eval_permutation L (perm_cols_of local))"
    using ok by (simp add: perm_binding_eval_def Let_def split_beta)
  note out = permutation_columns [OF L row ev]
  have inp: "list_all (\<lambda>(inp, p). when_eq (f_flag True) inp p) (zip (take width local) (take width pv))"
    and outp: "list_all (\<lambda>(i, out). when_eq (f_flag True) out (pv ! (width + i))) (enumerate 0 ?out)"
    using ok out(1) by (simp_all add: perm_binding_eval_def Let_def split_beta)
  have "take width local ! i = take width pv ! i" if "i < width" for i
  proof -
    have i: "i < length local" "i < length pv" using that row pv by (simp_all add: perm_width_def)
    have "when_eq (f_flag True) (local ! i) (pv ! i)"
      using inp that i by (simp add: list_all_length)
    with when_eq_flag [OF canon_nth [OF row(2) i(1)] canon_nth [OF pv(2) i(2)], of True] that show ?thesis by simp
  qed
  then have "take width local = take width pv"
    using row pv by (intro nth_equalityI) (auto simp: perm_width_def)
  moreover have "drop width pv = ?out"
  proof (rule nth_equalityI)
    fix i assume "i < length (drop width pv)"
    then have i: "i < width" using pv by simp
    with out(2) have "?out ! i < babybear_p" by (simp add: state_ok_def canon_nth)
    with outp i out(2) pv canon_nth [OF pv(2), of "width + i"] show "drop width pv ! i = ?out ! i"
      by (auto simp: list_all_length state_ok_def when_eq_flag nth_enumerate_eq)
  qed (use out(2) pv in \<open>simp add: state_ok_def\<close>)
  ultimately show ?thesis by simp
qed

end
