(* ===== verification/BalanceAir.thy ===== *)
theory BalanceAir
  imports PermAir Notes "HOL-Library.Signed_Division"
begin

text \<open>
  Value conservation and range over 64-bit amounts (\<^verbatim>\<open>engine/src/spend/balance_air.rs\<close>): limbs with their
  bit decompositions, and a carry chain that makes the field equations equivalent to an integer equation.
  The three kinds of constraint are stated for an arbitrary assertion \<open>az\<close>, because the spend circuit
  repeats them under a selector.
\<close>

section \<open>The constraints\<close>

definition n_values :: nat where "n_values = 5"
definition n_carries :: nat where "n_carries = n_limbs - 1"
definition bits_off :: nat where "bits_off = n_values * n_limbs"
definition carry_off :: nat where "carry_off = bits_off + n_values * n_limbs * limb_bits"
definition bal_row_w :: nat where "bal_row_w = carry_off + 2 * n_carries"
definition limb_col :: "nat \<Rightarrow> nat \<Rightarrow> nat" where "limb_col v j = v * n_limbs + j"

definition boolean_cell :: "(F \<Rightarrow> bool) \<Rightarrow> F \<Rightarrow> bool" where
  "boolean_cell az b = az (f_mul b (f_sub b 1))"

definition bits_value :: "F list \<Rightarrow> nat \<Rightarrow> F" where
  "bits_value row base = fold (\<lambda>i acc. f_add acc (f_mul (row ! (base + i)) (2 ^ i))) [0..<limb_bits] 0"

definition range_limb :: "(F \<Rightarrow> bool) \<Rightarrow> F list \<Rightarrow> nat \<Rightarrow> F \<Rightarrow> bool" where
  "range_limb az row base limb \<longleftrightarrow>
     list_all (\<lambda>i. boolean_cell az (row ! (base + i))) [0..<limb_bits] \<and> az (f_sub limb (bits_value row base))"

definition carry_expr :: "F list \<Rightarrow> nat \<Rightarrow> nat \<Rightarrow> F" where
  "carry_expr row off k =
     f_sub (f_add (row ! (off + 2 * k)) (f_add (row ! (off + 2 * k + 1)) (row ! (off + 2 * k + 1)))) 2"

definition carry_bits :: "(F \<Rightarrow> bool) \<Rightarrow> F list \<Rightarrow> nat \<Rightarrow> bool" where
  "carry_bits az row off \<longleftrightarrow> list_all (\<lambda>k. boolean_cell az (row ! (off + k))) [0..<2 * n_carries]"

definition limb_balance :: "(F \<Rightarrow> bool) \<Rightarrow> (nat \<Rightarrow> nat \<Rightarrow> F) \<Rightarrow> (nat \<Rightarrow> F) \<Rightarrow> nat \<Rightarrow> bool" where
  "limb_balance az limb carry j =
     (let c_in = (if j = 0 then 0 else carry (j - 1));
          c_out = (if j = n_limbs - 1 then 0 else carry j);
          lhs = f_add (f_add (limb 0 j) (limb 1 j)) c_in;
          rhs = f_add (f_add (f_add (limb 2 j) (limb 3 j)) (limb 4 j)) (f_mul c_out (2 ^ limb_bits))
      in az (f_sub lhs rhs))"

definition balance_eval :: "F list \<Rightarrow> F \<Rightarrow> F list \<Rightarrow> bool" where
  "balance_eval row first pv \<longleftrightarrow>
     list_all (\<lambda>v. list_all (\<lambda>j.
         range_limb assert_zero row (bits_off + (v * n_limbs + j) * limb_bits) (row ! limb_col v j))
       [0..<n_limbs]) [0..<n_values]
     \<and> carry_bits assert_zero row carry_off
     \<and> list_all (limb_balance assert_zero (\<lambda>v j. row ! limb_col v j) (carry_expr row carry_off)) [0..<n_limbs]
     \<and> list_all (\<lambda>(i, p). when_eq first (row ! i) p) (enumerate 0 (take (n_values * n_limbs) pv))"

section \<open>Trace generation\<close>

definition raw_limb :: "u64 \<Rightarrow> nat \<Rightarrow> int" where
  "raw_limb v j = uint (drop_bit (limb_bits * j) v AND (limb_bound - 1))"

fun carry_chain :: "u64 list \<Rightarrow> int \<Rightarrow> nat list \<Rightarrow> int list" where
  "carry_chain vals c [] = []"
| "carry_chain vals c (j # js) =
     (let diff = raw_limb (vals ! 0) j + raw_limb (vals ! 1) j + c
            - raw_limb (vals ! 2) j - raw_limb (vals ! 3) j - raw_limb (vals ! 4) j;
          c' = diff sdiv 2 ^ limb_bits
      in c' # carry_chain vals c' js)"

definition compute_carries :: "u64 list \<Rightarrow> int list option" where
  "compute_carries vals =
     (if unat (vals ! 0) + unat (vals ! 1) \<noteq> unat (vals ! 2) + unat (vals ! 3) + unat (vals ! 4) then None
      else Some (carry_chain vals 0 [0..<n_carries]))"

definition limb_bit_cells :: "u64 \<Rightarrow> nat \<Rightarrow> F list" where
  "limb_bit_cells v j = map (\<lambda>i. nat (raw_limb v j div 2 ^ i mod 2)) [0..<limb_bits]"

definition carry_cells :: "int \<Rightarrow> F list" where
  "carry_cells c = (let cp = nat (c + 2) in [cp mod 2, cp div 2])"

definition balance_row :: "u64 list \<Rightarrow> int list \<Rightarrow> F list" where
  "balance_row vals carries = concat (map value_limbs vals)
     @ concat (map (\<lambda>v. concat (map (limb_bit_cells v) [0..<n_limbs])) vals)
     @ concat (map carry_cells carries)"

text \<open>One row: the limbs, their bits, the carries. The trace repeats it.\<close>

definition balance_trace :: "u64 \<Rightarrow> u64 \<Rightarrow> u64 \<Rightarrow> u64 \<Rightarrow> u64 \<Rightarrow> (F list list \<times> F list) option" where
  "balance_trace in0 in1 out0 out1 fee =
     (let vals = [in0, in1, out0, out1, fee] in
      map_option (\<lambda>carries.
        let row = balance_row vals carries
        in ([row, row], concat (map value_limbs vals))) (compute_carries vals))"

section \<open>Soundness of the three constraint kinds\<close>

text \<open>What an assertion must mean.\<close>

definition asserts :: "(F \<Rightarrow> bool) \<Rightarrow> bool" where
  "asserts az \<longleftrightarrow> (\<forall>x < babybear_p. az x \<longleftrightarrow> x = 0)"

lemma asserts_assert_zero: "asserts assert_zero"
  by (simp add: asserts_def assert_zero_def)

lemma asserts_when: "asserts (when_zero (f_flag True))"
  by (simp add: asserts_def when_zero_flag)

lemma assertsD: "asserts az \<Longrightarrow> az (f_sub a b) \<Longrightarrow> f_sub a b = 0" "asserts az \<Longrightarrow> az (f_mul a b) \<Longrightarrow> f_mul a b = 0"
  by (auto simp: asserts_def)

lemma boolean_cellD: "asserts az \<Longrightarrow> boolean_cell az b \<Longrightarrow> b < babybear_p \<Longrightarrow> b = 0 \<or> b = 1"
  unfolding boolean_cell_def by (metis assertsD(2) f_boolean)

lemma bit_sum_bound: "(\<And>i. i < n \<Longrightarrow> b i \<le> (1 :: nat)) \<Longrightarrow> (\<Sum>i < n. b i * 2 ^ i) < 2 ^ n"
proof (induction n)
  case (Suc n)
  have "b n * 2 ^ n \<le> 2 ^ n" using Suc.prems [of n] by simp
  moreover have "(\<Sum>i < n. b i * 2 ^ i) < 2 ^ n" using Suc by simp
  ultimately show ?case unfolding sum.lessThan_Suc power_Suc by linarith
qed simp

lemma bits_value_sum:
  "fold (\<lambda>i acc. f_add acc (f_mul (b i) (2 ^ i))) [0..<n] 0 = (\<Sum>i < n. b i * 2 ^ i) mod babybear_p"
  by (induction n) (simp_all add: f_add_def f_mul_def mod_add_eq)

lemma range_limbD:
  assumes az: "asserts az" and r: "range_limb az row base limb" and lt: "limb < babybear_p"
    and cells: "\<And>i. i < 16 \<Longrightarrow> row ! (base + i) < babybear_p"
  shows "limb < 2 ^ 16"
proof -
  have b: "row ! (base + i) \<le> 1" if "i < 16" for i
    using boolean_cellD [OF az _ cells [OF that]] r that by (fastforce simp: range_limb_def list_all_iff limb_bits_def)
  have "f_sub limb (bits_value row base) = 0"
    using assertsD(1) [OF az] r by (simp add: range_limb_def)
  then have "limb = bits_value row base"
    using f_sub_0_iff [OF lt, of "bits_value row base"] bits_value_sum [of "\<lambda>i. row ! (base + i)"]
    by (simp add: bits_value_def)
  moreover have "(\<Sum>i < 16. row ! (base + i) * 2 ^ i) < 2 ^ 16"
    by (rule bit_sum_bound) (rule b)
  ultimately show ?thesis
    using bits_value_sum [of "\<lambda>i. row ! (base + i)" 16] by (simp add: bits_value_def limb_bits_def babybear_p_def)
qed

lemma int_carry_expr:
  "int (carry_expr row off k)
    = (int (row ! (off + 2 * k)) + 2 * int (row ! (off + 2 * k + 1)) - 2) mod int babybear_p"
  by (simp add: carry_expr_def int_f_ops mod_simps algebra_simps)

lemma carryD:
  assumes az: "asserts az" and c: "carry_bits az row off" and k: "k < 3"
    and cells: "\<And>i. i < 6 \<Longrightarrow> row ! (off + i) < babybear_p"
  obtains c where "-2 \<le> c" "c \<le> 1" "int (carry_expr row off k) = c mod int babybear_p"
proof -
  have b: "row ! (off + i) \<le> 1" if "i < 6" for i
    using boolean_cellD [OF az _ cells [OF that]] c that
    by (fastforce simp: carry_bits_def list_all_iff n_carries_def n_limbs_def)
  let ?c = "int (row ! (off + 2 * k)) + 2 * int (row ! (off + 2 * k + 1)) - 2"
  have "int (carry_expr row off k) = ?c mod int babybear_p"
    by (rule int_carry_expr)
  moreover have "?c \<le> 1" using b [of "2 * k"] b [of "2 * k + 1"] k by simp
  ultimately show thesis using that [of ?c] by simp
qed

lemma small_congruent: "(a - b) mod int babybear_p = 0 \<Longrightarrow> \<bar>a - b\<bar> < int babybear_p \<Longrightarrow> a = b"
  by (metis abs_ge_zero dvd_eq_mod_eq_0 dvd_imp_le_int eq_iff_diff_eq_0 linorder_not_less abs_of_nat)

lemma limb_balanceD:
  assumes az: "asserts az" and l: "limb_balance az limb carry j"
    and small: "\<And>v. v < 5 \<Longrightarrow> limb v j < 2 ^ 16"
    and cin: "int (if j = 0 then 0 else carry (j - 1)) = c mod int babybear_p" "-2 \<le> c" "c \<le> 1"
    and cout: "int (if j = 3 then 0 else carry j) = c' mod int babybear_p" "-2 \<le> c'" "c' \<le> 1"
  shows "int (limb 0 j) + int (limb 1 j) + c = int (limb 2 j) + int (limb 3 j) + int (limb 4 j) + c' * 2 ^ 16"
proof (rule small_congruent)
  let ?d = "int (limb 0 j) + int (limb 1 j) + c - (int (limb 2 j) + int (limb 3 j) + int (limb 4 j) + c' * 2 ^ 16)"
  have "f_sub (f_add (f_add (limb 0 j) (limb 1 j)) (if j = 0 then 0 else carry (j - 1)))
      (f_add (f_add (f_add (limb 2 j) (limb 3 j)) (limb 4 j)) (f_mul (if j = 3 then 0 else carry j) (2 ^ 16))) = 0"
    using assertsD(1) [OF az] l by (simp add: limb_balance_def Let_def n_limbs_def limb_bits_def)
  then have "int (f_sub (f_add (f_add (limb 0 j) (limb 1 j)) (if j = 0 then 0 else carry (j - 1)))
      (f_add (f_add (f_add (limb 2 j) (limb 3 j)) (limb 4 j)) (f_mul (if j = 3 then 0 else carry j) (2 ^ 16)))) = 0"
    by simp
  then show "?d mod int babybear_p = 0"
    unfolding int_f_ops cin(1) cout(1) by (simp add: mod_simps)
  show "\<bar>?d\<bar> < int babybear_p"
    using small [of 0] small [of 1] small [of 2] small [of 3] small [of 4] cin(2,3) cout(2,3)
    by (simp add: babybear_p_def)
qed

text \<open>The carry chain telescopes: conservation over the integers.\<close>

definition limbs_int :: "(nat \<Rightarrow> F) \<Rightarrow> int" where
  "limbs_int l = int (l 0) + 2 ^ 16 * int (l 1) + 2 ^ 32 * int (l 2) + 2 ^ 48 * int (l 3)"

lemma carry_chain_conserves:
  assumes az: "asserts az" and bal: "list_all (limb_balance az limb (carry_expr row off)) [0..<n_limbs]"
    and small: "\<And>v j. v < 5 \<Longrightarrow> j < 4 \<Longrightarrow> limb v j < 2 ^ 16"
    and bits: "carry_bits az row off" and cells: "\<And>i. i < 6 \<Longrightarrow> row ! (off + i) < babybear_p"
  shows "limbs_int (limb 0) + limbs_int (limb 1) = limbs_int (limb 2) + limbs_int (limb 3) + limbs_int (limb 4)"
proof -
  let ?c = "carry_expr row off"
  obtain c1 where c1: "-2 \<le> c1" "c1 \<le> 1" "int (?c 0) = c1 mod int babybear_p"
    by (rule carryD [OF az bits _ cells, of 0]) simp_all
  obtain c2 where c2: "-2 \<le> c2" "c2 \<le> 1" "int (?c 1) = c2 mod int babybear_p"
    by (rule carryD [OF az bits _ cells, of 1]) simp_all
  obtain c3 where c3: "-2 \<le> c3" "c3 \<le> 1" "int (?c 2) = c3 mod int babybear_p"
    by (rule carryD [OF az bits _ cells, of 2]) simp_all
  have b: "limb_balance az limb ?c j" if "j < 4" for j
    using bal that by (simp add: list_all_iff n_limbs_def)
  have "int (limb 0 0) + int (limb 1 0) + 0 = int (limb 2 0) + int (limb 3 0) + int (limb 4 0) + c1 * 2 ^ 16"
    by (rule limb_balanceD [OF az b]) (use small c1 in simp_all)
  moreover have "int (limb 0 1) + int (limb 1 1) + c1 = int (limb 2 1) + int (limb 3 1) + int (limb 4 1) + c2 * 2 ^ 16"
    by (rule limb_balanceD [OF az b]) (use small c1 c2 in simp_all)
  moreover have "int (limb 0 2) + int (limb 1 2) + c2 = int (limb 2 2) + int (limb 3 2) + int (limb 4 2) + c3 * 2 ^ 16"
    by (rule limb_balanceD [OF az b]) (use small c2 c3 in \<open>simp_all add: numeral_2_eq_2\<close>)
  moreover have "int (limb 0 3) + int (limb 1 3) + c3 = int (limb 2 3) + int (limb 3 3) + int (limb 4 3) + 0 * 2 ^ 16"
    by (rule limb_balanceD [OF az b]) (use small c3 in \<open>simp_all add: numeral_3_eq_3 numeral_2_eq_2\<close>)
  ultimately show ?thesis unfolding limbs_int_def by (simp add: algebra_simps)
qed

section \<open>Limbs of a 64-bit value\<close>

lemma value_limbs_nat: "value_limbs v = map (\<lambda>j. unat v div 2 ^ (16 * j) mod 2 ^ 16) [0..<4]"
proof -
  have "unat v mod 2 ^ 64 = unat v" using unat_bound [of v] by simp
  then show ?thesis
    by (simp add: value_limbs_unfold unat_and_mask take_bit_eq_mod unsigned_drop_bit_eq drop_bit_eq_div [where 'a = nat])
qed

lemma unat_of_nat_small: "n < 2 ^ 64 \<Longrightarrow> unat (of_nat n :: u64) = n"
  by (simp add: unat_of_nat)

lemma value_limbs_of_small:
  assumes "length l = 4" "\<forall>x \<in> set l. x < 2 ^ 16"
  obtains v where "value_limbs v = l" "int (unat v) = limbs_int ((!) l)"
proof -
  from assms(1) obtain a b c d where l: "l = [a, b, c, d]" by (auto simp: length_Suc_conv numeral_eq_Suc)
  define n2 where "n2 = c + 65536 * d"
  define n1 where "n1 = b + 65536 * n2"
  define n where "n = a + 65536 * n1"
  have lt: "a < 65536" "b < 65536" "c < 65536" "d < 65536" using assms(2) by (simp_all add: l)
  have step: "(x + 65536 * y) div 65536 = y" "(x + 65536 * y) mod 65536 = x" if "x < 65536" for x y :: nat
    using that by simp_all
  note digits = step [OF lt(1), of n1, folded n_def] step [OF lt(2), of n2, folded n1_def]
    step [OF lt(3), of d, folded n2_def]
  have "n < 2 ^ 64" using lt by (simp add: n_def n1_def n2_def)
  then obtain v :: u64 where v: "unat v = n" using unat_of_nat_small by blast
  have "map (\<lambda>j. n div 2 ^ (16 * j) mod 2 ^ 16) [0..<4] = [a, b, c, d]"
  proof -
    have "n div 4294967296 = n2" using div_mult2_eq [of n 65536 65536] digits by simp
    moreover have "n div 281474976710656 = d" using div_mult2_eq [of n 4294967296 65536] digits calculation by simp
    moreover have "[0..<4] = [0, 1, 2, 3 :: nat]" by (simp add: upt_rec)
    ultimately show ?thesis using digits lt(4) by simp
  qed
  then have "value_limbs v = l" unfolding value_limbs_nat v l .
  moreover have "int (unat v) = limbs_int ((!) l)"
    by (simp add: v limbs_int_def l n_def n1_def n2_def)
  ultimately show thesis by (rule that)
qed

lemma limbs_int_value: "limbs_int ((!) (value_limbs v)) = int (unat v)"
proof -
  have lt: "\<forall>x \<in> set (value_limbs v). x < 2 ^ 16" by (auto simp: value_limbs_nat)
  obtain w where "value_limbs w = value_limbs v" "int (unat w) = limbs_int ((!) (value_limbs v))"
    by (rule value_limbs_of_small [OF _ lt]) (simp_all add: value_limbs_nat)
  then show ?thesis by simp
qed

section \<open>Completeness of trace generation\<close>

lemma sdiv_exact: "0 < b \<Longrightarrow> (c * b) sdiv b = (c :: int)"
proof -
  assume "0 < b"
  then have "(c * b) sdiv b = sgn c * \<bar>c\<bar>" by (simp add: signed_divide_int_def abs_mult sgn_mult)
  then show ?thesis by (simp add: mult_sgn_abs)
qed

lemma carry_step:
  assumes "(2 :: int) ^ 16 dvd d" "-196607 \<le> d" "d \<le> 131071"
  shows "d sdiv 2 ^ 16 * 2 ^ 16 = d" "-2 \<le> d sdiv 2 ^ 16" "d sdiv 2 ^ 16 \<le> 1"
proof -
  from assms(1) obtain c where c: "d = c * 2 ^ 16" by (metis dvdE mult.commute)
  have "d sdiv 2 ^ 16 = c" unfolding c by (rule sdiv_exact) simp
  with c assms(2,3) show "d sdiv 2 ^ 16 * 2 ^ 16 = d" "-2 \<le> d sdiv 2 ^ 16" "d sdiv 2 ^ 16 \<le> 1" by simp_all
qed

lemma raw_limb_bounds: "0 \<le> raw_limb v j" "raw_limb v j \<le> 65535"
proof -
  have "(limb_bound - 1 :: u64) = mask 16" by (simp add: limb_bound_def limb_bits_def mask_eq_exp_minus_1)
  then have "raw_limb v j = int (unat (drop_bit (limb_bits * j) v AND mask 16))" by (simp add: raw_limb_def)
  moreover have "unat (drop_bit (limb_bits * j) v AND mask 16) < 65536"
    using unat_and_mask16 [of "drop_bit (limb_bits * j) v"] by simp
  ultimately show "0 \<le> raw_limb v j" "raw_limb v j \<le> 65535" by linarith+
qed

lemma raw_limb_value: "j < 4 \<Longrightarrow> raw_limb v j = int (value_limbs v ! j)"
proof -
  assume "j < 4"
  have "(limb_bound - 1 :: u64) = mask 16" by (simp add: limb_bound_def limb_bits_def mask_eq_exp_minus_1)
  with \<open>j < 4\<close> show ?thesis by (simp add: raw_limb_def value_limbs_unfold limb_bits_def)
qed

text \<open>The carries of balanced amounts: exact divisions, inside the pinned window, none left over.\<close>

lemma compute_carries_ok:
  assumes bal: "unat a + unat b = unat c + unat d + unat e"
  obtains c1 c2 c3 where "compute_carries [a, b, c, d, e] = Some [c1, c2, c3]"
    "\<forall>x \<in> {c1, c2, c3}. -2 \<le> x \<and> x \<le> 1"
    "\<forall>(j, x, y) \<in> {(0, 0, c1), (1, c1, c2), (2, c2, c3), (3, c3, 0)}.
       raw_limb a j + raw_limb b j + x = raw_limb c j + raw_limb d j + raw_limb e j + y * 2 ^ 16"
proof -
  define s where "s j = raw_limb a j + raw_limb b j - raw_limb c j - raw_limb d j - raw_limb e j" for j
  have s: "-196605 \<le> s j" "s j \<le> 131070" for j
    unfolding s_def using raw_limb_bounds [of a j] raw_limb_bounds [of b j] raw_limb_bounds [of c j]
      raw_limb_bounds [of d j] raw_limb_bounds [of e j] by linarith+
  have val: "int (unat v) = raw_limb v 0 + 2 ^ 16 * raw_limb v 1 + 2 ^ 32 * raw_limb v 2 + 2 ^ 48 * raw_limb v 3" for v
    using limbs_int_value [of v] by (simp add: limbs_int_def raw_limb_value)
  have total: "s 0 + 2 ^ 16 * s 1 + 2 ^ 32 * s 2 + 2 ^ 48 * s 3 = 0"
    using arg_cong [OF bal, of int] unfolding s_def of_nat_add val by (simp add: algebra_simps)
  define c1 where "c1 = s 0 sdiv 2 ^ 16"
  define c2 where "c2 = (s 1 + c1) sdiv 2 ^ 16"
  define c3 where "c3 = (s 2 + c2) sdiv 2 ^ 16"
  have "s 0 = 2 ^ 16 * - (s 1 + 2 ^ 16 * s 2 + 2 ^ 32 * s 3)" using total by simp
  then have "2 ^ 16 dvd s 0" by (metis dvd_triv_left)
  note c1 = carry_step [OF this, folded c1_def]
  have k1: "s 0 = c1 * 2 ^ 16" "-2 \<le> c1" "c1 \<le> 1" using c1 s [of 0] by simp_all
  have "s 1 + c1 = 2 ^ 16 * - (s 2 + 2 ^ 16 * s 3)" using total k1(1) by simp
  then have "2 ^ 16 dvd s 1 + c1" by (metis dvd_triv_left)
  note c2 = carry_step [OF this, folded c2_def]
  have k2: "s 1 + c1 = c2 * 2 ^ 16" "-2 \<le> c2" "c2 \<le> 1" using c2 s [of 1] k1 by simp_all
  have "s 2 + c2 = 2 ^ 16 * - s 3" using total k1(1) k2(1) by simp
  then have "2 ^ 16 dvd s 2 + c2" by (metis dvd_triv_left)
  note c3 = carry_step [OF this, folded c3_def]
  have k3: "s 2 + c2 = c3 * 2 ^ 16" "-2 \<le> c3" "c3 \<le> 1" using c3 s [of 2] k2 by simp_all
  have k4: "s 3 + c3 = 0" using total k1(1) k2(1) k3(1) by simp
  have "[0..<n_carries] = [0, 1, 2]" by (simp add: n_carries_def n_limbs_def upt_rec)
  then have "compute_carries [a, b, c, d, e] = Some [c1, c2, c3]"
    using bal by (simp add: compute_carries_def Let_def limb_bits_def c1_def c2_def c3_def s_def algebra_simps numeral_2_eq_2 numeral_3_eq_3 eval_nat_numeral)
  then show thesis
    by (rule that) (use k1 k2 k3 k4 in \<open>auto simp: s_def algebra_simps\<close>)
qed

section \<open>The AIR accepts exactly balanced amounts\<close>

lemma nth_concat_blocks:
  "\<forall>xs \<in> set xss. length xs = n \<Longrightarrow> k < length xss \<Longrightarrow> i < n \<Longrightarrow> concat xss ! (k * n + i) = xss ! k ! i"
proof (induction xss arbitrary: k)
  case (Cons xs xss)
  then show ?case
    by (cases k) (auto simp: nth_append add.assoc add.commute add.left_commute)
qed simp

lemma length_concat_blocks: "\<forall>xs \<in> set xss. length xs = n \<Longrightarrow> length (concat xss) = length xss * n"
  by (induction xss) auto

lemma balance_shape: "n_values = 5" "n_limbs = 4" "limb_bits = 16" "n_carries = 3" "bits_off = 20" "carry_off = 340"
  "bal_row_w = 346" "limb_col v j = v * 4 + j"
  by (simp_all add: n_values_def n_limbs_def limb_bits_def n_carries_def bits_off_def carry_off_def bal_row_w_def limb_col_def)

lemma limbs_int_map: "limbs_int ((!) (map f [0..<4])) = limbs_int f"
  by (simp add: limbs_int_def numeral_2_eq_2)

lemma balance_sound:
  assumes row: "length row = bal_row_w" "canon row" and pv: "length pv = 20" "canon pv"
    and ok: "balance_eval row (f_flag True) pv"
  obtains in0 in1 out0 out1 fee where "pv = concat (map value_limbs [in0, in1, out0, out1, fee])"
    "unat in0 + unat in1 = unat out0 + unat out1 + unat fee"
proof -
  have cells: "row ! i < babybear_p" if "i < 346" for i
    using canon_nth [OF row(2)] row(1) that by (simp add: balance_shape)
  have eq: "row ! i = pv ! i" if "i < 20" for i
  proof -
    have "when_eq (f_flag True) (row ! i) (pv ! i)"
      using ok that pv(1) by (auto simp: balance_eval_def balance_shape list_all_length nth_enumerate_eq)
    with when_eq_flag [OF cells canon_nth [OF pv(2)], of i i True] that pv(1) show ?thesis by simp
  qed
  let ?limb = "\<lambda>v j. row ! limb_col v j"
  have small: "?limb v j < 2 ^ 16" if "v < 5" "j < 4" for v j
  proof (rule range_limbD [OF asserts_assert_zero])
    show "range_limb assert_zero row (bits_off + (v * n_limbs + j) * limb_bits) (?limb v j)"
      using ok that by (simp add: balance_eval_def balance_shape list_all_iff)
  qed (use that cells in \<open>simp_all add: balance_shape\<close>)
  have bal: "limbs_int (?limb 0) + limbs_int (?limb 1) = limbs_int (?limb 2) + limbs_int (?limb 3) + limbs_int (?limb 4)"
    by (rule carry_chain_conserves [OF asserts_assert_zero, where row = row and off = carry_off])
      (use ok small cells in \<open>simp_all add: balance_eval_def balance_shape\<close>)
  have "\<exists>x. value_limbs x = map (?limb v) [0..<4] \<and> int (unat x) = limbs_int (?limb v)" if "v < 5" for v
  proof -
    have sm: "\<forall>x \<in> set (map (?limb v) [0..<4]). x < 2 ^ 16" using small that by auto
    have l4: "length (map (?limb v) [0..<4]) = 4" by simp
    obtain x where "value_limbs x = map (?limb v) [0..<4]" "int (unat x) = limbs_int ((!) (map (?limb v) [0..<4]))"
      by (rule value_limbs_of_small [OF l4 sm])
    then show ?thesis unfolding limbs_int_map by blast
  qed
  then obtain x where x: "\<And>v. v < 5 \<Longrightarrow> value_limbs (x v) = map (?limb v) [0..<4] \<and> int (unat (x v)) = limbs_int (?limb v)"
    by metis
  have "pv = concat (map (\<lambda>v. value_limbs (x v)) [0..<5])"
  proof (rule nth_equalityI)
    fix i assume i: "i < length pv"
    have len: "\<forall>xs \<in> set (map (\<lambda>v. value_limbs (x v)) [0..<5]). length xs = 4" by (auto simp: value_limbs_nat)
    have "concat (map (\<lambda>v. value_limbs (x v)) [0..<5]) ! (i div 4 * 4 + i mod 4) = value_limbs (x (i div 4)) ! (i mod 4)"
      using i pv(1) by (subst nth_concat_blocks [OF len]) auto
    then show "pv ! i = concat (map (\<lambda>v. value_limbs (x v)) [0..<5]) ! i"
      using i pv(1) x [of "i div 4"] eq [of i] by (simp add: balance_shape)
  qed (simp add: pv(1) value_limbs_nat length_concat_blocks [where n = 4])
  moreover have "[0..<5] = [0, 1, 2, 3, 4 :: nat]" by (simp add: upt_rec)
  moreover have "int (unat (x 0)) + int (unat (x 1)) = int (unat (x 2)) + int (unat (x 3)) + int (unat (x 4))"
    using bal x by simp
  then have "unat (x 0) + unat (x 1) = unat (x 2) + unat (x 3) + unat (x 4)"
    by (simp only: of_nat_eq_iff flip: of_nat_add)
  ultimately show thesis by (intro that [of "x 0" "x 1" "x 2" "x 3" "x 4"]) auto
qed

lemma boolean_cellI: "asserts az \<Longrightarrow> b \<in> {0, 1} \<Longrightarrow> boolean_cell az b"
  by (auto simp: boolean_cell_def asserts_def f_mul_def f_sub_def)

lemma bit_sum_mod: "(\<Sum>i < k. n div 2 ^ i mod 2 * 2 ^ i) = (n :: nat) mod 2 ^ k"
proof (induction k)
  case (Suc k)
  have "n mod 2 ^ Suc k = 2 ^ k * (n div 2 ^ k mod 2) + n mod 2 ^ k"
    using mod_mult2_eq [of n "2 ^ k" 2] by (simp add: mult.commute)
  with Suc show ?case by (simp add: mult.commute)
qed simp

lemma bit_sum: "n < 2 ^ k \<Longrightarrow> (\<Sum>i < k. n div 2 ^ i mod 2 * 2 ^ i) = (n :: nat)"
  by (simp add: bit_sum_mod)

lemma range_limbI:
  assumes az: "asserts az" and bits: "\<And>i. i < 16 \<Longrightarrow> row ! (base + i) = n div 2 ^ i mod 2" and n: "n < 2 ^ 16"
  shows "range_limb az row base n"
proof -
  have "bits_value row base = (\<Sum>i < 16. row ! (base + i) * 2 ^ i) mod babybear_p"
    using bits_value_sum [of "\<lambda>i. row ! (base + i)" 16] by (simp add: bits_value_def limb_bits_def)
  also have "(\<Sum>i < 16. row ! (base + i) * 2 ^ i) = (\<Sum>i < 16. n div 2 ^ i mod 2 * 2 ^ i)"
    by (rule sum.cong) (simp_all add: bits)
  also have "\<dots> = n" by (rule bit_sum [OF n])
  finally have "bits_value row base = n" using n by (simp add: babybear_p_def)
  moreover have "f_sub n n = 0" by (simp add: f_sub_def)
  ultimately show ?thesis
    using az bits by (auto simp: range_limb_def list_all_iff limb_bits_def asserts_def intro!: boolean_cellI)
qed

lemma carry_cells_simps:
  "carry_cells x ! 0 = nat (x + 2) mod 2" "carry_cells x ! 1 = nat (x + 2) div 2" "length (carry_cells x) = 2"
  by (simp_all add: carry_cells_def Let_def)

lemma carry_cells_value:
  assumes "-2 \<le> x"
  shows "int (carry_cells x ! 0) + 2 * int (carry_cells x ! 1) - 2 = x"
proof -
  have "int (nat (x + 2) mod 2) = (x + 2) mod 2" "int (nat (x + 2) div 2) = (x + 2) div 2"
    using assms by (simp_all add: zmod_int zdiv_int)
  then show ?thesis unfolding carry_cells_simps using mult_div_mod_eq [of 2 "x + 2"] by linarith
qed

lemma carry_cells_boolean:
  assumes "-2 \<le> x" "x \<le> 1" "i < 2"
  shows "carry_cells x ! i \<in> {0, 1}"
proof -
  have "nat (x + 2) < 4" using assms by simp
  then have "nat (x + 2) div 2 < 2" by simp
  then have "nat (x + 2) div 2 \<in> {0, 1}" by auto
  moreover have "nat (x + 2) mod 2 \<in> {0, 1}" by auto
  moreover have "i = 0 \<or> i = 1" using assms(3) by auto
  ultimately show ?thesis using carry_cells_simps by auto
qed

lemma balance_row_parts:
  assumes vals: "length vals = 5" and carries: "length carries = 3"
  shows "length (concat (map value_limbs vals)) = 20"
  "length (concat (map (\<lambda>v. concat (map (limb_bit_cells v) [0..<n_limbs])) vals)) = 320"
  "length (concat (map carry_cells carries)) = 6"
proof -
  have "\<forall>xs \<in> set (map (\<lambda>v. concat (map (limb_bit_cells v) [0..<n_limbs])) vals). length xs = 64"
    by (auto simp: length_concat_blocks [where n = 16] limb_bit_cells_def balance_shape)
  from length_concat_blocks [OF this]
  show "length (concat (map (\<lambda>v. concat (map (limb_bit_cells v) [0..<n_limbs])) vals)) = 320" by (simp add: vals)
qed (simp_all add: length_concat_blocks [where n = 4] length_concat_blocks [where n = 2] value_limbs_nat carry_cells_simps
    vals carries)

lemma balance_row_limb:
  assumes vals: "length vals = 5" and carries: "length carries = 3" and "v < 5" "j < 4"
  shows "balance_row vals carries ! (v * 4 + j) = value_limbs (vals ! v) ! j"
proof -
  have "concat (map value_limbs vals) ! (v * 4 + j) = map value_limbs vals ! v ! j"
    by (rule nth_concat_blocks) (use assms vals in \<open>auto simp: value_limbs_nat\<close>)
  with assms vals show ?thesis by (simp add: balance_row_def nth_append balance_row_parts [OF vals carries])
qed

lemma balance_row_bit:
  assumes vals: "length vals = 5" and carries: "length carries = 3" and "v < 5" "j < 4" "i < 16"
  shows "balance_row vals carries ! (20 + (v * 4 + j) * 16 + i) = nat (raw_limb (vals ! v) j div 2 ^ i mod 2)"
proof -
  let ?B = "concat (map (\<lambda>v. concat (map (limb_bit_cells v) [0..<n_limbs])) vals)"
  have "?B ! (v * 64 + (j * 16 + i)) = map (\<lambda>v. concat (map (limb_bit_cells v) [0..<n_limbs])) vals ! v ! (j * 16 + i)"
    by (rule nth_concat_blocks)
      (use assms vals in \<open>auto simp: balance_shape limb_bit_cells_def length_concat_blocks [where n = 16]\<close>)
  also have "\<dots> = concat (map (limb_bit_cells (vals ! v)) [0..<n_limbs]) ! (j * 16 + i)"
    using assms vals by simp
  also have "\<dots> = map (limb_bit_cells (vals ! v)) [0..<n_limbs] ! j ! i"
    by (rule nth_concat_blocks) (use assms(3-) in \<open>auto simp: balance_shape limb_bit_cells_def\<close>)
  finally have "?B ! (v * 64 + (j * 16 + i)) = nat (raw_limb (vals ! v) j div 2 ^ i mod 2)"
    using assms(3-) by (simp add: limb_bit_cells_def balance_shape)
  then have "?B ! (64 * v + (j * 16 + i)) = nat (raw_limb (vals ! v) j div 2 ^ i mod 2)"
    by (simp only: mult.commute [of v 64])
  moreover have "(v * 4 + j) * 16 + i = 64 * v + (j * 16 + i)" "64 * v + (j * 16 + i) < 320" using assms(3-) by simp_all
  ultimately show ?thesis
    by (simp add: balance_row_def nth_append balance_row_parts [OF vals carries] add.assoc)
qed

lemma balance_row_carry:
  assumes vals: "length vals = 5" and carries: "length carries = 3" and "k < 3" "i < 2"
  shows "balance_row vals carries ! (340 + (2 * k + i)) = carry_cells (carries ! k) ! i"
proof -
  have "concat (map carry_cells carries) ! (k * 2 + i) = map carry_cells carries ! k ! i"
    by (rule nth_concat_blocks) (use assms carries carry_cells_simps in auto)
  with assms carries show ?thesis by (simp add: balance_row_def nth_append balance_row_parts [OF vals carries] mult.commute [of k])
qed

lemma canon_concat: "(\<And>xs. xs \<in> set xss \<Longrightarrow> canon xs) \<Longrightarrow> canon (concat xss)"
  by (auto simp: canon_def)

lemma canon_value_limbs: "canon (value_limbs v)"
  by (auto simp: canon_def value_limbs_nat babybear_p_def intro: less_trans [OF mod_less_divisor])

lemma canon_balance_row:
  assumes "\<forall>x \<in> set carries. -2 \<le> x \<and> x \<le> 1"
  shows "canon (balance_row vals carries)"
proof -
  have "canon (limb_bit_cells v j)" for v j
    by (auto simp: canon_def limb_bit_cells_def babybear_p_def nat_less_iff intro: le_less_trans [of _ 1])
  moreover have "canon (carry_cells x)" if "x \<in> set carries" for x
  proof -
    have "carry_cells x ! i \<in> {0, 1}" if "i < 2" for i
      using carry_cells_boolean [OF _ _ that] assms \<open>x \<in> set carries\<close> by blast
    then have "carry_cells x ! i < babybear_p" if "i < 2" for i
      using that p_group(4) p_pos by fastforce
    then show ?thesis by (auto simp: canon_def in_set_conv_nth carry_cells_simps)
  qed
  ultimately show ?thesis
    by (auto simp: balance_row_def canon_value_limbs intro!: canon_concat)
qed

lemma limb_balanceI:
  assumes az: "asserts az" and cin: "int (if j = 0 then 0 else carry (j - 1)) = x mod int babybear_p"
    and cout: "int (if j = 3 then 0 else carry j) = y mod int babybear_p"
    and eq: "int (limb 0 j) + int (limb 1 j) + x = int (limb 2 j) + int (limb 3 j) + int (limb 4 j) + y * 2 ^ 16"
  shows "limb_balance az limb carry j"
proof -
  have "int (f_sub (f_add (f_add (limb 0 j) (limb 1 j)) (if j = 0 then 0 else carry (j - 1)))
      (f_add (f_add (f_add (limb 2 j) (limb 3 j)) (limb 4 j)) (f_mul (if j = 3 then 0 else carry j) (2 ^ 16)))) = 0"
    unfolding int_f_ops cin cout using eq by (simp add: mod_simps)
  then show ?thesis
    using az by (simp add: limb_balance_def Let_def balance_shape asserts_def)
qed

lemma nat_bit: "0 \<le> x \<Longrightarrow> nat (x div 2 ^ i mod 2) = nat x div 2 ^ i mod 2"
proof -
  assume "0 \<le> x"
  then have "nat (x div 2 ^ i mod 2) = nat (x div 2 ^ i) mod 2" by (subst nat_mod_distrib) (simp_all add: pos_imp_zdiv_nonneg_iff)
  also have "nat (x div 2 ^ i) = nat x div nat (2 ^ i)" using \<open>0 \<le> x\<close> by (rule nat_div_distrib)
  finally show ?thesis by (simp add: nat_power_eq)
qed

lemma balance_trace_ok:
  assumes bal: "unat in0 + unat in1 = unat out0 + unat out1 + unat fee"
  obtains row where "balance_trace in0 in1 out0 out1 fee = Some ([row, row], concat (map value_limbs [in0, in1, out0, out1, fee]))"
    "length row = bal_row_w" "canon row" "balance_eval row (f_flag True) (concat (map value_limbs [in0, in1, out0, out1, fee]))"
proof -
  let ?vals = "[in0, in1, out0, out1, fee]"
  obtain c1 c2 c3 where c: "compute_carries ?vals = Some [c1, c2, c3]" "\<forall>x \<in> {c1, c2, c3}. -2 \<le> x \<and> x \<le> 1"
    and eqs: "\<forall>(j, x, y) \<in> {(0, 0, c1), (1, c1, c2), (2, c2, c3), (3, c3, 0)}.
       raw_limb in0 j + raw_limb in1 j + x = raw_limb out0 j + raw_limb out1 j + raw_limb fee j + y * 2 ^ 16"
    by (rule compute_carries_ok [OF bal])
  define row where "row = balance_row ?vals [c1, c2, c3]"
  have sh: "length ?vals = 5" "length [c1, c2, c3] = 3" by simp_all
  note parts = balance_row_parts [OF sh] and limb = balance_row_limb [OF sh, folded row_def]
    and bit = balance_row_bit [OF sh, folded row_def] and carry = balance_row_carry [OF sh, folded row_def]
  have window: "-2 \<le> [c1, c2, c3] ! k \<and> [c1, c2, c3] ! k \<le> 1" if "k < 3" for k
    using c(2) nth_mem [of k "[c1, c2, c3]"] that by fastforce
  have expr: "int (carry_expr row 340 k) = ([c1, c2, c3] ! k) mod int babybear_p" if "k < 3" for k
    using carry_cells_value [of "[c1, c2, c3] ! k"] window [OF that] carry [OF that, of 0] carry [OF that, of 1]
    by (simp only: int_carry_expr add_0_right add.assoc)
  show thesis
  proof (rule that)
    show "balance_trace in0 in1 out0 out1 fee = Some ([row, row], concat (map value_limbs ?vals))"
      by (simp only: balance_trace_def Let_def c(1) option.map row_def)
    show "length row = bal_row_w" by (simp only: row_def balance_row_def length_append parts balance_shape(7))
    show "canon row" unfolding row_def by (rule canon_balance_row) (use c(2) in simp)
    have limb_value: "int (row ! limb_col v j) = raw_limb (?vals ! v) j" if "v < 5" "j < 4" for v j
      using limb [OF that] raw_limb_value [OF that(2)] by (simp only: balance_shape(8))
    have "range_limb assert_zero row (20 + (v * 4 + j) * 16) (row ! limb_col v j)" if "v < 5" "j < 4" for v j
    proof (rule range_limbI [OF asserts_assert_zero])
      have cell: "row ! limb_col v j = nat (raw_limb (?vals ! v) j)" using limb_value [OF that] by linarith
      then show "row ! limb_col v j < 2 ^ 16" using raw_limb_bounds [of "?vals ! v" j] by simp
      show "row ! (20 + (v * 4 + j) * 16 + i) = row ! limb_col v j div 2 ^ i mod 2" if "i < 16" for i
        unfolding bit [OF \<open>v < 5\<close> \<open>j < 4\<close> that] cell by (rule nat_bit [OF raw_limb_bounds(1)])
    qed
    moreover have "carry_bits assert_zero row 340"
    proof -
      have "row ! (340 + i) \<in> {0, 1}" if "i < 6" for i
        using carry [of "i div 2" "i mod 2"] window [of "i div 2"] carry_cells_boolean [of "[c1, c2, c3] ! (i div 2)" "i mod 2"] that
        by (simp del: nth_Cons_numeral)
      then have "boolean_cell assert_zero (row ! (340 + i))" if "i < 6" for i
        using that boolean_cellI [OF asserts_assert_zero] by blast
      then show ?thesis by (simp add: carry_bits_def list_all_iff balance_shape)
    qed
    moreover have "limb_balance assert_zero (\<lambda>v j. row ! limb_col v j) (carry_expr row 340) j" if "j < 4" for j
    proof -
      have "j = 0 \<or> j = 1 \<or> j = 2 \<or> j = 3" using that by auto
      then show ?thesis
        using limb_value [OF _ that] eqs expr [of 0] expr [of 1] expr [of 2]
        by (elim disjE) (auto intro!: limb_balanceI [OF asserts_assert_zero] simp: numeral_2_eq_2 numeral_3_eq_3)
    qed
    moreover have "when_eq (f_flag True) (row ! i) (concat (map value_limbs ?vals) ! i)" if "i < 20" for i
      using that parts(1) by (simp only: row_def balance_row_def nth_append if_True when_eq_def when_zero_def assert_zero_def)
        (simp add: f_sub_def f_mul_def)
    then have "list_all (\<lambda>(i, p). when_eq (f_flag True) (row ! i) p)
        (enumerate 0 (take (n_values * n_limbs) (concat (map value_limbs ?vals))))"
      using parts(1) by (simp add: list_all_length nth_enumerate_eq balance_shape(1,2) del: concat.simps list.map)
    ultimately show "balance_eval row (f_flag True) (concat (map value_limbs ?vals))"
      unfolding balance_eval_def list_all_iff by (simp add: balance_shape(1-6) del: concat.simps list.map)
  qed
qed

text \<open>
  C7: The balance AIR accepts exactly the balanced amounts: its constraints can be satisfied for a list of 20
  public field elements if and only if they are the canonical limbs of five 64-bit amounts with
  \<open>in0 + in1 = out0 + out1 + fee\<close> over the integers. No field wrap-around, no carry and no
  non-canonical limb satisfies them otherwise, and the honest prover's row does.
\<close>

theorem balance_air_exact:
  assumes "length pv = 20" "canon pv"
  shows "(\<exists>row. length row = bal_row_w \<and> canon row \<and> balance_eval row (f_flag True) pv) \<longleftrightarrow>
    (\<exists>in0 in1 out0 out1 fee. pv = concat (map value_limbs [in0, in1, out0, out1, fee])
       \<and> unat in0 + unat in1 = unat out0 + unat out1 + unat fee)"
proof
  assume "\<exists>row. length row = bal_row_w \<and> canon row \<and> balance_eval row (f_flag True) pv"
  then show "\<exists>in0 in1 out0 out1 fee. pv = concat (map value_limbs [in0, in1, out0, out1, fee])
       \<and> unat in0 + unat in1 = unat out0 + unat out1 + unat fee"
    using balance_sound [OF _ _ assms] by metis
next
  assume "\<exists>in0 in1 out0 out1 fee. pv = concat (map value_limbs [in0, in1, out0, out1, fee])
       \<and> unat in0 + unat in1 = unat out0 + unat out1 + unat fee"
  then show "\<exists>row. length row = bal_row_w \<and> canon row \<and> balance_eval row (f_flag True) pv"
    using balance_trace_ok by metis
qed

end
