(* ===== verification/PermFill.thy ===== *)
theory PermFill
  imports BalanceAir
begin

text \<open>
  Every permutation has columns that satisfy its constraints: the registers hold the cubes, the post
  columns the states. So the hypothesis \<open>trace_gen_ok\<close> on the external trace generator can hold, and the
  completeness results below need no generator.
\<close>

definition trace_gen_ok :: "poseidon2 \<Rightarrow> (F list \<Rightarrow> F list) \<Rightarrow> bool" where
  "trace_gen_ok L g \<longleftrightarrow> (\<forall>input. state_ok input \<longrightarrow> length (g input) = perm_width \<and> canon (g input)
     \<and> take width (g input) = input \<and> fst (eval_permutation L (perm_cols_of (g input))))"

lemma assert_eq_refl [simp]: "assert_eq x x"
  by (simp add: assert_eq_def assert_zero_def f_sub_def)

lemma f_cube_lt: "f_cube x < babybear_p" by (simp add: f_cube_def)

lemma eval_sbox_fill: "eval_sbox (f_cube x) x = (True, f_pow7 x)"
  by (simp add: eval_sbox_def f_pow7_def)

lemma boxes_fill: "map2 eval_sbox (map f_cube xs) xs = map (\<lambda>x. (True, f_pow7 x)) xs"
  by (induction xs) (simp_all add: eval_sbox_fill)

lemma zip_assert_refl: "list_all (\<lambda>(a, b). assert_eq a b) (zip xs xs)"
  by (induction xs) simp_all

lemma p2_full_round_ok: "layers_ok L \<Longrightarrow> state_ok s \<Longrightarrow> length rc = width \<Longrightarrow> state_ok (p2_full_round L s rc)"
  unfolding p2_full_round_def
  by (rule layers_okD(1), assumption) (simp add: state_ok_def canon_map f_pow7_lt)

lemma p2_partial_round_ok: "layers_ok L \<Longrightarrow> state_ok s \<Longrightarrow> state_ok (p2_partial_round L s rc)"
  unfolding p2_partial_round_def
  by (rule layers_okD(2), assumption)
    (auto simp: state_ok_def canon_def f_pow7_lt dest!: set_update_subset_insert [THEN subsetD])

lemma full_round_fill:
  assumes len: "length (map2 f_add s rc) = width" and st: "state_ok (p2_full_round L s rc)"
  defines "c \<equiv> map f_cube (map2 f_add s rc) @ p2_full_round L s rc"
  shows "length c = full_cols" "canon c" "eval_full_round L (True, s) (full_round_of c, rc) = (True, p2_full_round L s rc)"
proof -
  obtain xs where xs: "map2 f_add s rc = xs" by blast
  obtain s' where s': "p2_full_round L s rc = s'" by blast
  have len: "length xs = width" "length s' = width" using len st by (simp_all add: state_ok_def xs s' del: length_map length_zip)
  show "length c = full_cols" "canon c"
    using len st by (simp_all add: c_def xs s' full_cols_def state_ok_def canon_map f_cube_lt)
  have "full_round_of c = \<lparr>fd_sbox = map f_cube xs, fd_post = s'\<rparr>"
    using len by (simp add: full_round_of_def c_def xs s')
  moreover have "p2_external L (map f_pow7 xs) = s'" using s' xs by (simp add: p2_full_round_def)
  moreover have "map snd (map (\<lambda>x. (True, f_pow7 x)) xs) = map f_pow7 xs" by simp
  moreover have "list_all fst (map (\<lambda>x. (True, f_pow7 x)) xs)" by (simp add: list_all_iff)
  ultimately show "eval_full_round L (True, s) (full_round_of c, rc) = (True, p2_full_round L s rc)"
    unfolding eval_full_round_def Let_def prod.case xs s'
    using zip_assert_refl [of s'] by (simp only: full_round.simps boxes_fill simp_thms)
qed

lemma full_rounds_fill:
  assumes L: "layers_ok L"
  shows "state_ok s \<Longrightarrow> \<forall>rc \<in> set rcs. length rc = width \<Longrightarrow> \<exists>cs. length cs = length rcs * full_cols \<and> canon cs
     \<and> foldl (eval_full_round L) (True, s) (zip (map full_round_of (chunks full_cols cs)) rcs)
       = (True, foldl (p2_full_round L) s rcs) \<and> state_ok (foldl (p2_full_round L) s rcs)"
proof (induction rcs arbitrary: s)
  case (Cons rc rcs)
  let ?s' = "p2_full_round L s rc"
  have st: "state_ok ?s'" using p2_full_round_ok [OF L] Cons.prems by simp
  from Cons.IH [OF st] Cons.prems obtain cs where cs: "length cs = length rcs * full_cols" "canon cs"
    "foldl (eval_full_round L) (True, ?s') (zip (map full_round_of (chunks full_cols cs)) rcs)
       = (True, foldl (p2_full_round L) ?s' rcs)" "state_ok (foldl (p2_full_round L) ?s' rcs)"
    by auto
  have "length (map2 f_add s rc) = width" using Cons.prems by (simp add: state_ok_def)
  then obtain c where c: "length c = full_cols" "canon c" "eval_full_round L (True, s) (full_round_of c, rc) = (True, ?s')"
    using full_round_fill [OF _ st] by blast
  have "chunks full_cols (c @ cs) = c # chunks full_cols cs"
    by (rule chunks_append) (use c in \<open>simp_all add: full_cols_def width_def\<close>)
  with cs c show ?case by (intro exI [of _ "c @ cs"]) simp
qed (auto intro: exI [of _ "[]"])

lemma partial_rounds_fill:
  assumes L: "layers_ok L"
  shows "state_ok s \<Longrightarrow> \<exists>cs. length cs = length rcs * 2 \<and> canon cs
     \<and> foldl (eval_partial_round L) (True, s) (zip (map partial_round_of (chunks 2 cs)) rcs)
       = (True, foldl (p2_partial_round L) s rcs) \<and> state_ok (foldl (p2_partial_round L) s rcs)"
proof (induction rcs arbitrary: s)
  case (Cons rc rcs)
  let ?x = "f_add (s ! 0) rc" and ?s' = "p2_partial_round L s rc"
  have st: "state_ok ?s'" by (rule p2_partial_round_ok [OF L Cons.prems])
  from Cons.IH [OF st] obtain cs where cs: "length cs = length rcs * 2" "canon cs"
    "foldl (eval_partial_round L) (True, ?s') (zip (map partial_round_of (chunks 2 cs)) rcs)
       = (True, foldl (p2_partial_round L) ?s' rcs)" "state_ok (foldl (p2_partial_round L) ?s' rcs)"
    by auto
  let ?c = "[f_cube ?x, f_pow7 ?x]"
  have "eval_partial_round L (True, s) (partial_round_of ?c, rc) = (True, ?s')"
    by (simp add: eval_partial_round_def partial_round_of_def eval_sbox_fill p2_partial_round_def)
  moreover have "chunks 2 (?c @ cs) = ?c # chunks 2 cs" by (rule chunks_append) simp_all
  ultimately show ?case using cs by (intro exI [of _ "?c @ cs"]) (simp add: f_cube_lt f_pow7_lt)
qed (auto intro: exI [of _ "[]"])

lemma perm_fill_exists:
  assumes L: "layers_ok L" and input: "state_ok input"
  shows "\<exists>cs. length cs = perm_width \<and> canon cs \<and> take width cs = input \<and> fst (eval_permutation L (perm_cols_of cs))"
proof -
  note d = layers_okD [OF L]
  have s0: "state_ok (p2_external L input)" by (rule d(1) [OF input])
  from full_rounds_fill [OF L s0, of "p2_rc_initial L"] d(3,6) obtain a where
    a: "length a = half_full_rounds * full_cols" "canon a"
      "foldl (eval_full_round L) (True, p2_external L input) (zip (map full_round_of (chunks full_cols a)) (p2_rc_initial L))
       = (True, foldl (p2_full_round L) (p2_external L input) (p2_rc_initial L))"
      "state_ok (foldl (p2_full_round L) (p2_external L input) (p2_rc_initial L))" (is "state_ok ?s1")
    by metis
  from partial_rounds_fill [OF L a(4), of "p2_rc_internal L"] d(5) obtain b where
    b: "length b = partial_rounds * 2" "canon b"
      "foldl (eval_partial_round L) (True, ?s1) (zip (map partial_round_of (chunks 2 b)) (p2_rc_internal L))
       = (True, foldl (p2_partial_round L) ?s1 (p2_rc_internal L))"
      "state_ok (foldl (p2_partial_round L) ?s1 (p2_rc_internal L))" (is "state_ok ?s2")
    by metis
  from full_rounds_fill [OF L b(4), of "p2_rc_final L"] d(4,6) obtain c where
    c: "length c = half_full_rounds * full_cols" "canon c"
      "foldl (eval_full_round L) (True, ?s2) (zip (map full_round_of (chunks full_cols c)) (p2_rc_final L))
       = (True, foldl (p2_full_round L) ?s2 (p2_rc_final L))"
    by metis
  have n: "width = 16" "full_cols = 32" "half_full_rounds = 4" "partial_rounds = 13" "perm_width = 298"
    by (simp_all add: width_def full_cols_def half_full_rounds_def partial_rounds_def perm_width_def)
  have len: "length input = 16" "length a = 128" "length b = 26" "length c = 128"
    using input a(1) b(1) c(1) by (simp_all add: state_ok_def n)
  have "perm_cols_of (input @ a @ b @ c) = \<lparr> pc_inputs = input, pc_beginning = map full_round_of (chunks full_cols a),
      pc_partial = map partial_round_of (chunks 2 b), pc_ending = map full_round_of (chunks full_cols c) \<rparr>"
    using len by (simp add: perm_cols_of_def Let_def n)
  then have "fst (eval_permutation L (perm_cols_of (input @ a @ b @ c)))"
    using a(3) b(3) c(3) by (simp add: eval_permutation_def)
  then show ?thesis
    using len input a(2) b(2) c(2) by (intro exI [of _ "input @ a @ b @ c"]) (simp add: n state_ok_def)
qed

lemma trace_gen_exists: "layers_ok L \<Longrightarrow> \<exists>g. trace_gen_ok L g"
  unfolding trace_gen_ok_def using perm_fill_exists by metis

text \<open>The trace of the binding AIR, and that it satisfies its constraints.\<close>

definition perm_binding_trace :: "(F list \<Rightarrow> F list) \<Rightarrow> F list \<Rightarrow> F list list" where
  "perm_binding_trace g input = [g input, g (replicate width 0)]"

lemma when_eq_self: "when_eq sel x x"
  by (simp add: when_eq_def when_zero_def assert_zero_def f_sub_def f_mul_def)

lemma perm_binding_complete:
  assumes L: "layers_ok L" and g: "trace_gen_ok L g" and input: "state_ok input"
  shows "length (perm_binding_trace g input) = 2"
    "list_all (\<lambda>i. length (perm_binding_trace g input ! i) = perm_width \<and>
       perm_binding_eval L (perm_binding_trace g input ! i) (f_flag (i = 0)) (input @ p2_permute L input)) [0..<2]"
proof -
  show "length (perm_binding_trace g input) = 2" by (simp add: perm_binding_trace_def)
  have z: "state_ok (replicate width 0)" by (auto simp: state_ok_def canon_def babybear_p_def)
  have row: "length (g x) = perm_width" "canon (g x)" "take width (g x) = x" "fst (eval_permutation L (perm_cols_of (g x)))"
    "snd (eval_permutation L (perm_cols_of (g x))) = p2_permute L x" if "state_ok x" for x
    using g that permutation_columns(1) [OF L, of "g x"] unfolding trace_gen_ok_def by auto
  have off: "perm_binding_eval L (g x) (f_flag False) pv" if "state_ok x" for x pv
    using row(4) [OF that]
    by (simp add: perm_binding_eval_def Let_def split_beta when_eq_def when_zero_def assert_zero_def f_flag_def f_mul_def list_all_iff)
  have "length input = width" "length (p2_permute L input) = width"
    using input permutation_columns(2) [OF L row(1,2,4) [OF input]] row(3) [OF input] by (simp_all add: state_ok_def)
  then have "perm_binding_eval L (g input) (f_flag True) (input @ p2_permute L input)"
    using row(3,4,5) [OF input]
    by (auto simp: perm_binding_eval_def Let_def split_beta perm_cols_of_def list_all_length nth_enumerate_eq nth_append when_eq_self)
  moreover have "[0..<2] = [0, Suc 0]" by (simp add: upt_rec)
  ultimately show "list_all (\<lambda>i. length (perm_binding_trace g input ! i) = perm_width \<and>
       perm_binding_eval L (perm_binding_trace g input ! i) (f_flag (i = 0)) (input @ p2_permute L input)) [0..<2]"
    using off [OF z] row(1) input z by (simp add: perm_binding_trace_def)
qed

end
