(* ===== verification/MerkleAir.thy ===== *)
theory MerkleAir
  imports PermFill Merkle
begin

text \<open>
  Merkle membership and nullifier derivation as constraints (\<^verbatim>\<open>engine/src/spend/merkle_air.rs\<close>,
  \<^verbatim>\<open>engine/src/spend/nullifier_air.rs\<close>). The trace columns of a permutation are filled by the external
  crate's generator, the parameter \<open>gen\<close>; \<open>trace_gen_ok\<close> is what its documentation promises.
\<close>

section \<open>Traces\<close>

text \<open>The constraints are checked on every row with its successor (cyclically) and the row selectors.\<close>

definition air_holds :: "(F list \<Rightarrow> F list \<Rightarrow> F \<Rightarrow> F \<Rightarrow> F \<Rightarrow> bool) \<Rightarrow> F list list \<Rightarrow> bool" where
  "air_holds ev trace \<longleftrightarrow> list_all (\<lambda>i.
     ev (trace ! i) (trace ! ((i + 1) mod length trace)) (f_flag (i = 0)) (f_flag (i = length trace - 1))
        (f_flag (i \<noteq> length trace - 1))) [0..<length trace]"

definition trace_shape :: "nat \<Rightarrow> nat \<Rightarrow> F list list \<Rightarrow> bool" where
  "trace_shape rows w trace \<longleftrightarrow> length trace = rows \<and> (\<forall>row \<in> set trace. length row = w \<and> canon row)"

section \<open>Membership\<close>

definition child_off :: nat where "child_off = perm_width"
definition sib_off :: nat where "sib_off = perm_width + digest_elems"
definition bit_off :: nat where "bit_off = perm_width + 2 * digest_elems"
definition memb_row_w :: nat where "memb_row_w = perm_width + 2 * digest_elems + 1"

text \<open>The conditional swap that assembles the permutation input.\<close>

definition swap_expr :: "F \<Rightarrow> F \<Rightarrow> F \<Rightarrow> F" where
  "swap_expr c s b = f_add c (f_mul b (f_sub s c))"

definition input_assembly :: "(F \<Rightarrow> bool) \<Rightarrow> (nat \<Rightarrow> F) \<Rightarrow> (nat \<Rightarrow> F) \<Rightarrow> (nat \<Rightarrow> F) \<Rightarrow> F \<Rightarrow> bool" where
  "input_assembly az inp child sib b \<longleftrightarrow> boolean_cell az b \<and>
     list_all (\<lambda>j. az (f_sub (inp j) (swap_expr (child j) (sib j) b))
       \<and> az (f_sub (inp (j + digest_elems)) (swap_expr (sib j) (child j) b))) [0..<digest_elems]"

definition merkle_eval :: "poseidon2 \<Rightarrow> F list \<Rightarrow> F list \<Rightarrow> F list \<Rightarrow> F \<Rightarrow> F \<Rightarrow> F \<Rightarrow> bool" where
  "merkle_eval L pv cur nxt is_first is_last transition =
     (let cols = perm_cols_of (take perm_width cur); (ok, output) = eval_permutation L cols in
      input_assembly assert_zero ((!) (pc_inputs cols)) (\<lambda>j. cur ! (child_off + j)) (\<lambda>j. cur ! (sib_off + j)) (cur ! bit_off)
      \<and> ok
      \<and> list_all (\<lambda>j. when_eq transition (nxt ! (child_off + j)) (output ! j)) [0..<digest_elems]
      \<and> list_all (\<lambda>j. when_eq is_last (output ! j) (pv ! j)) [0..<digest_elems])"

fun membership_rows :: "(F list \<Rightarrow> F list) \<Rightarrow> perm \<Rightarrow> digest \<Rightarrow> nat \<Rightarrow> digest list \<Rightarrow> F list list" where
  "membership_rows gen perm child idx [] = []"
| "membership_rows gen perm child idx (sib # sibs) =
     (let b = idx AND 1;
          input = (if b = 0 then child @ sib else sib @ child);
          row = gen input @ child @ sib @ [b]
      in row # membership_rows gen perm (take digest_elems (perm input)) (idx div 2) sibs)"

definition membership_trace :: "(F list \<Rightarrow> F list) \<Rightarrow> perm \<Rightarrow> digest \<Rightarrow> merkle_path \<Rightarrow> F list list" where
  "membership_trace gen perm leaf path = membership_rows gen perm leaf (path_index path) (siblings path)"

section \<open>Soundness of a Merkle step\<close>

lemma swap_expr_bit:
  assumes "b = 0 \<or> b = 1" "c < babybear_p" "s < babybear_p"
  shows "swap_expr c s b = (if b = 0 then c else s)"
proof -
  have "int (swap_expr c s b) = int (if b = 0 then c else s)"
    using assms by (auto simp: swap_expr_def int_f_ops mod_simps simp flip: of_nat_mod)
  then show ?thesis by simp
qed

definition digest_cells :: "(nat \<Rightarrow> F) \<Rightarrow> digest" where
  "digest_cells f = map f [0..<digest_elems]"

lemma digest_cells_simps [simp]: "length (digest_cells f) = 8" "j < 8 \<Longrightarrow> digest_cells f ! j = f j"
  by (simp_all add: digest_cells_def digest_elems_def)

lemma digest_cells_wf: "(\<And>j. j < 8 \<Longrightarrow> f j < babybear_p) \<Longrightarrow> wf_digest (digest_cells f)"
  by (auto simp: wf_digest_def digest_cells_def digest_elems_def)

lemma input_assemblyD:
  assumes az: "asserts az" and a: "input_assembly az inp child sib b"
    and cells: "\<And>j. j < 16 \<Longrightarrow> inp j < babybear_p" "\<And>j. j < 8 \<Longrightarrow> child j < babybear_p"
      "\<And>j. j < 8 \<Longrightarrow> sib j < babybear_p" "b < babybear_p"
  shows "b = 0 \<or> b = 1"
    "map inp [0..<16] = (if b = 0 then digest_cells child @ digest_cells sib else digest_cells sib @ digest_cells child)"
proof -
  show b: "b = 0 \<or> b = 1"
    using boolean_cellD [OF az _ cells(4)] a by (simp add: input_assembly_def)
  have z: "az (f_sub (inp j) (swap_expr (child j) (sib j) b))" "az (f_sub (inp (j + 8)) (swap_expr (sib j) (child j) b))"
    if "j < 8" for j
    using a that by (simp_all add: input_assembly_def list_all_iff digest_elems_def)
  have e: "inp j = (if b = 0 then child j else sib j)" "inp (j + 8) = (if b = 0 then sib j else child j)" if "j < 8" for j
    using assertsD(1) [OF az z(1) [OF that]] assertsD(1) [OF az z(2) [OF that]] swap_expr_bit [OF b] cells that
    by (simp_all add: f_sub_0_iff)
  show "map inp [0..<16] = (if b = 0 then digest_cells child @ digest_cells sib else digest_cells sib @ digest_cells child)"
  proof (rule nth_equalityI)
    fix i assume i: "i < length (map inp [0..<16])"
    then show "map inp [0..<16] ! i
        = (if b = 0 then digest_cells child @ digest_cells sib else digest_cells sib @ digest_cells child) ! i"
      using e(1) [of i] e(2) [of "i - 8"] by (auto simp: nth_append)
  qed simp
qed

lemma input_assemblyI:
  assumes az: "asserts az" and b: "b = 0 \<or> b = 1" and wf: "wf_digest child" "wf_digest sib"
    and inp: "\<And>j. j < 16 \<Longrightarrow> inp j = (if b = 0 then child @ sib else sib @ child) ! j"
    and cells: "\<And>j. j < 8 \<Longrightarrow> c j = child ! j" "\<And>j. j < 8 \<Longrightarrow> s j = sib ! j"
  shows "input_assembly az inp c s b"
proof -
  have l: "length child = 8" "length sib = 8" using wf by (simp_all add: wf_digest_def digest_elems_def)
  have lt: "child ! j < babybear_p" "sib ! j < babybear_p" if "j < 8" for j
    using wf that l by (simp_all add: wf_digest_def)
  have z: "az (f_sub a a)" for a using az by (simp add: asserts_def f_sub_def)
  have "inp j = swap_expr (c j) (s j) b" "inp (j + 8) = swap_expr (s j) (c j) b" if "j < 8" for j
    using b that inp [of j] inp [of "j + 8"] l cells [OF that] lt [OF that] swap_expr_bit [OF b] by (auto simp: nth_append)
  with z b boolean_cellI [OF az] show ?thesis
    by (auto simp: input_assembly_def list_all_iff digest_elems_def)
qed

text \<open>A chain of steps folds the path whose index has the bits of the rows.\<close>

fun bits_index :: "nat list \<Rightarrow> nat" where
  "bits_index [] = 0"
| "bits_index (b # bs) = b + 2 * bits_index bs"

lemma bits_index_lt: "\<forall>b \<in> set bs. b \<le> 1 \<Longrightarrow> bits_index bs < 2 ^ length bs"
  by (induction bs) auto

lemma path_fold_steps:
  assumes "\<And>t. k \<le> t \<Longrightarrow> t < k + n \<Longrightarrow> bt t = 0 \<or> bt t = 1"
    and "\<And>t. k \<le> t \<Longrightarrow> t < k + n \<Longrightarrow>
      node (Suc t) = (if bt t = 0 then compress perm (node t) (sib t) else compress perm (sib t) (node t))"
  shows "path_fold perm (node k) (bits_index (map bt [k..<k + n])) (map sib [k..<k + n]) = node (k + n)"
  using assms
proof (induction n arbitrary: k)
  case (Suc n)
  have upt: "[k..<k + Suc n] = k # [Suc k..<Suc k + n]" by (simp add: upt_conv_Cons)
  have b: "bt k = 0 \<or> bt k = 1" using Suc.prems(1) [of k] by simp
  have "path_fold perm (node (Suc k)) (bits_index (map bt [Suc k..<Suc k + n])) (map sib [Suc k..<Suc k + n]) = node (Suc k + n)"
    using Suc.prems by (intro Suc.IH) auto
  moreover have "node (Suc k) = (if bt k = 0 then compress perm (node k) (sib k) else compress perm (sib k) (node k))"
    using Suc.prems(2) [of k] by simp
  moreover have "even (bits_index (map bt [k..<k + Suc n])) \<longleftrightarrow> bt k = 0"
    "bits_index (map bt [k..<k + Suc n]) div 2 = bits_index (map bt [Suc k..<Suc k + n])"
    using b unfolding upt by auto
  ultimately show ?case unfolding upt by (simp add: idx_simps del: and_one_eq)
qed simp


section \<open>The membership AIR is exact\<close>

lemma air_holdsD: "air_holds ev trace \<Longrightarrow> i < length trace \<Longrightarrow>
    ev (trace ! i) (trace ! ((i + 1) mod length trace)) (f_flag (i = 0)) (f_flag (i = length trace - 1)) (f_flag (i \<noteq> length trace - 1))"
  by (simp add: air_holds_def list_all_iff)

lemma trace_cell:
  "trace_shape rows w trace \<Longrightarrow> i < rows \<Longrightarrow> j < w \<Longrightarrow> trace ! i ! j < babybear_p"
  "trace_shape rows w trace \<Longrightarrow> i < rows \<Longrightarrow> length (trace ! i) = w \<and> canon (trace ! i)"
  unfolding trace_shape_def by (metis canon_nth nth_mem)+

lemma digest_cells_take: "length xs = 16 \<Longrightarrow> digest_cells ((!) xs) = take 8 xs"
  by (auto intro: nth_equalityI)

text \<open>One permutation block whose inputs are assembled by the swap computes a compression.\<close>

lemma merkle_step:
  assumes L: "layers_ok L" and az: "asserts az"
    and blk: "length blk = perm_width" "canon blk" "fst (eval_permutation L (perm_cols_of blk))"
    and a: "input_assembly az ((!) (take width blk)) child sib b"
    and cells: "\<And>j. j < 8 \<Longrightarrow> child j < babybear_p" "\<And>j. j < 8 \<Longrightarrow> sib j < babybear_p" "b < babybear_p"
  shows "b = 0 \<or> b = 1" "digest_cells ((!) (snd (eval_permutation L (perm_cols_of blk))))
    = (if b = 0 then compress (p2_permute L) (digest_cells child) (digest_cells sib)
       else compress (p2_permute L) (digest_cells sib) (digest_cells child))"
proof -
  have w: "width = 16" "16 < perm_width" by (simp_all add: width_def perm_width_def half_full_rounds_def full_cols_def)
  have inp: "take width blk ! j < babybear_p" if "j < 16" for j
    using that w blk canon_nth [OF blk(2), of j] by simp
  note A = input_assemblyD [OF az a inp cells]
  show "b = 0 \<or> b = 1" by (rule A(1))
  have "map ((!) (take width blk)) [0..<16] = take width blk"
    using w blk(1) by (intro nth_equalityI) simp_all
  then have "take width blk = (if b = 0 then digest_cells child @ digest_cells sib else digest_cells sib @ digest_cells child)"
    using A(2) by simp
  with permutation_columns [OF L blk] digest_cells_take w show "digest_cells ((!) (snd (eval_permutation L (perm_cols_of blk))))
    = (if b = 0 then compress (p2_permute L) (digest_cells child) (digest_cells sib)
       else compress (p2_permute L) (digest_cells sib) (digest_cells child))"
    by (auto simp: compress_def digest_elems_def state_ok_def)
qed

lemma memb_offs: "child_off = 298" "sib_off = 306" "bit_off = 314" "memb_row_w = 315" "perm_width = 298" "width = 16" "digest_elems = 8"
  by (simp_all add: child_off_def sib_off_def bit_off_def memb_row_w_def perm_width_def width_def half_full_rounds_def
      full_cols_def digest_elems_def partial_rounds_def)

lemma membership_sound:
  assumes L: "layers_ok L" and root: "wf_digest root" and sh: "trace_shape depth memb_row_w trace"
    and ok: "air_holds (merkle_eval L root) trace"
  defines "leaf \<equiv> digest_cells (\<lambda>j. trace ! 0 ! (child_off + j))"
  shows "wf_digest leaf" "\<exists>path. length (siblings path) = depth \<and> list_all wf_digest (siblings path)
    \<and> path_index path < 2 ^ depth \<and> root_from_path (p2_permute L) leaf path = root"
proof -
  let ?perm = "p2_permute L"
  define child where "child = (\<lambda>t. digest_cells (\<lambda>j. trace ! t ! (child_off + j)))"
  define sib where "sib = (\<lambda>t. digest_cells (\<lambda>j. trace ! t ! (sib_off + j)))"
  define bt where "bt = (\<lambda>t. trace ! t ! bit_off)"
  define node where "node = (\<lambda>t. if t = depth then root else child t)"
  have len: "length trace = 32" using sh by (simp add: trace_shape_def depth_def)
  have cell: "trace ! t ! j < babybear_p" if "t < 32" "j < 315" for t j
    using trace_cell(1) [OF sh] that by (simp add: depth_def memb_offs)
  have "bt t = 0 \<or> bt t = 1" and "node (Suc t) = (if bt t = 0 then compress ?perm (node t) (sib t) else compress ?perm (sib t) (node t))"
    if t: "t < 32" for t
  proof -
    let ?cur = "trace ! t" and ?nxt = "trace ! ((t + 1) mod 32)"
    let ?cols = "perm_cols_of (take perm_width ?cur)"
    let ?out = "snd (eval_permutation L ?cols)"
    have row: "length ?cur = 315" "canon ?cur" using trace_cell(2) [OF sh, of t] t by (simp_all add: depth_def memb_offs)
    have blk: "length (take perm_width ?cur) = perm_width" "canon (take perm_width ?cur)"
      using row by (simp_all add: memb_offs canon_sub)
    have ev: "merkle_eval L root ?cur ?nxt (f_flag (t = 0)) (f_flag (t = 31)) (f_flag (t \<noteq> 31))"
      using air_holdsD [OF ok, of t] len t by simp
    then have evs: "input_assembly assert_zero ((!) (take width (take perm_width ?cur)))
        (\<lambda>j. ?cur ! (child_off + j)) (\<lambda>j. ?cur ! (sib_off + j)) (?cur ! bit_off)"
      "fst (eval_permutation L ?cols)"
      "\<And>j. j < 8 \<Longrightarrow> when_eq (f_flag (t \<noteq> 31)) (?nxt ! (child_off + j)) (?out ! j)"
      "\<And>j. j < 8 \<Longrightarrow> when_eq (f_flag (t = 31)) (?out ! j) (root ! j)"
      by (simp_all add: merkle_eval_def Let_def split_beta list_all_iff memb_offs)
    have step: "bt t = 0 \<or> bt t = 1" "digest_cells ((!) ?out)
      = (if bt t = 0 then compress ?perm (child t) (sib t) else compress ?perm (sib t) (child t))"
      using merkle_step [OF L asserts_assert_zero blk evs(2,1)] cell [OF t] by (simp_all add: bt_def child_def sib_def memb_offs)
    then show "bt t = 0 \<or> bt t = 1" by simp
    have out_ok: "?out ! j < babybear_p" if "j < 8" for j
      using permutation_columns [OF L blk evs(2)] that by (simp add: state_ok_def canon_nth memb_offs)
    have "node (Suc t) = digest_cells ((!) ?out)"
    proof (cases "t = 31")
      case True
      then have "?out ! j = root ! j" if "j < 8" for j
        using evs(4) [OF that] that when_eq_flag [OF out_ok [OF that], of "root ! j" "t = 31"] root
        by (simp add: wf_digest_def digest_elems_def)
      then show ?thesis
        using True root by (intro nth_equalityI) (simp_all add: node_def depth_def wf_digest_def digest_elems_def)
    next
      case False
      then have "?nxt ! (child_off + j) = ?out ! j" if "j < 8" for j
        using evs(3) [OF that] that t when_eq_flag [OF cell [of "Suc t" "child_off + j"] out_ok [OF that], of "t \<noteq> 31"]
        by (simp add: memb_offs)
      with False t show ?thesis by (simp add: node_def child_def digest_cells_def depth_def memb_offs)
    qed
    with step(2) t show "node (Suc t) = (if bt t = 0 then compress ?perm (node t) (sib t) else compress ?perm (sib t) (node t))"
      by (simp add: node_def depth_def)
  qed
  note steps = this
  have "path_fold ?perm (node 0) (bits_index (map bt [0..<0 + 32])) (map sib [0..<0 + 32]) = node (0 + 32)"
    by (rule path_fold_steps) (use steps in auto)
  moreover have "bits_index (map bt [0..<32]) < 2 ^ 32"
    using bits_index_lt [of "map bt [0..<32]"] steps(1) by fastforce
  moreover have "list_all wf_digest (map sib [0..<32])"
    using cell by (auto simp: list_all_iff sib_def memb_offs intro!: digest_cells_wf)
  ultimately show "\<exists>path. length (siblings path) = depth \<and> list_all wf_digest (siblings path)
    \<and> path_index path < 2 ^ depth \<and> root_from_path ?perm leaf path = root"
    by (intro exI [of _ "\<lparr>siblings = map sib [0..<32], path_index = bits_index (map bt [0..<32])\<rparr>"])
      (simp add: root_from_path_def depth_def node_def leaf_def child_def)
  show "wf_digest leaf" unfolding leaf_def using cell [of 0] by (auto simp: memb_offs intro!: digest_cells_wf)
qed


lemma path_fold_append:
  "path_fold perm c idx (xs @ ys) = path_fold perm (path_fold perm c idx xs) (idx div 2 ^ length xs) ys"
  by (induction xs arbitrary: c idx) (simp_all add: div_mult2_eq del: and_one_eq)

lemma wf_path_fold: "perm_ok perm \<Longrightarrow> wf_digest c \<Longrightarrow> list_all wf_digest sibs \<Longrightarrow> wf_digest (path_fold perm c idx sibs)"
  by (induction sibs arbitrary: c idx) (simp_all add: wf_compress)

lemma perm_ok_p2: "layers_ok L \<Longrightarrow> perm_ok (p2_permute L)"
  using perm_fill_exists [of L] permutation_columns(2) [of L]
  unfolding perm_ok_def state_ok_def canon_def by metis

text \<open>Row \<open>t\<close> of the honest trace.\<close>

definition path_bit :: "nat \<Rightarrow> nat \<Rightarrow> nat" where
  "path_bit idx t = idx div 2 ^ t AND 1"

definition swap_input :: "nat \<Rightarrow> digest \<Rightarrow> digest \<Rightarrow> F list" where
  "swap_input b c s = (if b = 0 then c @ s else s @ c)"

lemma path_bit_boolean: "path_bit idx t = 0 \<or> path_bit idx t = 1"
  by (auto simp: path_bit_def and_one_eq)

lemma membership_row:
  "t < length sibs \<Longrightarrow> membership_rows g perm c idx sibs ! t =
     (let n = path_fold perm c idx (take t sibs); b = path_bit idx t
      in g (swap_input b n (sibs ! t)) @ n @ (sibs ! t) @ [b])"
proof (induction sibs arbitrary: c idx t)
  case (Cons s sibs)
  show ?case
  proof (cases t)
    case (Suc k)
    have "path_bit (idx div 2) k = path_bit idx t" by (simp add: path_bit_def Suc div_mult2_eq)
    with Cons Suc show ?thesis
      by (simp add: Let_def compress_def swap_input_def if_distrib cong: if_cong del: and_one_eq)
  qed (simp add: Let_def path_bit_def swap_input_def)
qed simp

lemma length_membership_rows [simp]: "length (membership_rows g perm c idx sibs) = length sibs"
  by (induction sibs arbitrary: c idx) (simp_all add: Let_def del: and_one_eq)

lemma path_fold_Suc:
  "t < length sibs \<Longrightarrow> path_fold perm c idx (take (Suc t) sibs) =
    take digest_elems (perm (swap_input (path_bit idx t) (path_fold perm c idx (take t sibs)) (sibs ! t)))"
  by (simp add: take_Suc_conv_app_nth path_fold_append path_bit_def swap_input_def compress_def del: and_one_eq)

lemma swap_input_state:
  "wf_digest c \<Longrightarrow> wf_digest s \<Longrightarrow> state_ok (swap_input b c s)"
  by (auto simp: swap_input_def wf_digest_def state_ok_def canon_def digest_elems_def width_def)

lemma when_eq_refl [simp]: "when_eq s x x"
  by (simp add: when_eq_def when_zero_def assert_zero_def f_sub_def f_mul_def)

lemma when_eq_off [simp]: "when_eq (f_flag False) x y"
  by (simp add: when_eq_def when_zero_def assert_zero_def f_flag_def f_mul_def)

lemma membership_complete:
  assumes L: "layers_ok L" and g: "trace_gen_ok L g" and leaf: "wf_digest leaf"
    and path: "length (siblings path) = depth" "list_all wf_digest (siblings path)"
  defines "trace \<equiv> membership_trace g (p2_permute L) leaf path"
  shows "trace_shape depth memb_row_w trace" "digest_cells (\<lambda>j. trace ! 0 ! (child_off + j)) = leaf"
    "air_holds (merkle_eval L (root_from_path (p2_permute L) leaf path)) trace"
proof -
  let ?perm = "p2_permute L" and ?sibs = "siblings path" and ?idx = "path_index path"
  define n where "n = (\<lambda>t. path_fold ?perm leaf ?idx (take t ?sibs))"
  define b where "b = path_bit ?idx"
  have row: "trace ! t = g (swap_input (b t) (n t) (?sibs ! t)) @ n t @ (?sibs ! t) @ [b t]" if "t < 32" for t
    using membership_row [of t ?sibs g ?perm leaf ?idx] that path(1)
    by (simp add: trace_def membership_trace_def n_def b_def Let_def depth_def)
  have len: "length trace = 32" by (simp add: trace_def membership_trace_def path(1) depth_def)
  have wf: "wf_digest (n t)" for t
    unfolding n_def using wf_path_fold [OF perm_ok_p2 [OF L] leaf] path(2) by (auto simp: list_all_iff dest: in_set_takeD)
  have sib: "wf_digest (?sibs ! t)" if "t < 32" for t using path that by (simp add: list_all_length depth_def)
  have l8: "length (n t) = 8" "t < 32 \<Longrightarrow> length (?sibs ! t) = 8" for t
    using wf sib by (simp_all add: wf_digest_def digest_elems_def)
  have gen: "length (g (swap_input (b t) (n t) (?sibs ! t))) = 298" "canon (g (swap_input (b t) (n t) (?sibs ! t)))"
    "take 16 (g (swap_input (b t) (n t) (?sibs ! t))) = swap_input (b t) (n t) (?sibs ! t)"
    "fst (eval_permutation L (perm_cols_of (g (swap_input (b t) (n t) (?sibs ! t)))))" if "t < 32" for t
    using g swap_input_state [OF wf [of t] sib [OF that], of "b t"] by (simp_all add: trace_gen_ok_def memb_offs)
  have b01: "b t = 0 \<or> b t = 1" for t unfolding b_def by (rule path_bit_boolean)
  have cells: "take 298 (trace ! t) = g (swap_input (b t) (n t) (?sibs ! t))"
    "j < 8 \<Longrightarrow> trace ! t ! (298 + j) = n t ! j" "j < 8 \<Longrightarrow> trace ! t ! (306 + j) = ?sibs ! t ! j"
    "trace ! t ! 314 = b t" if "t < 32" for t j
    using gen(1) [OF that] l8 that by (simp_all add: row nth_append)
  show "trace_shape depth memb_row_w trace"
  proof -
    have "length (trace ! t) = 315 \<and> canon (trace ! t)" if "t < 32" for t
      using gen [OF that] l8 that wf [of t] sib [OF that] b01 [of t]
      by (auto simp: row wf_digest_def canon_def) (simp_all add: babybear_p_def)
    then show ?thesis by (auto simp: trace_shape_def len depth_def memb_offs in_set_conv_nth)
  qed
  show "digest_cells (\<lambda>j. trace ! 0 ! (child_off + j)) = leaf"
    using leaf cells(2) [of 0] by (intro nth_equalityI) (simp_all add: memb_offs n_def wf_digest_def)
  have out: "snd (eval_permutation L (perm_cols_of (take 298 (trace ! t)))) ! j = n (Suc t) ! j" if "t < 32" "j < 8" for t j
    using permutation_columns(1) [OF L _ gen(2,4) [OF that(1)]] gen(1,3) [OF that(1)] that path(1)
      path_fold_Suc [of t ?sibs ?perm leaf ?idx]
    by (simp add: cells(1) [OF that(1)] memb_offs n_def b_def depth_def)
  have n32: "n 32 = root_from_path ?perm leaf path" using path(1) by (simp add: n_def root_from_path_def depth_def)
  have "merkle_eval L (n 32) (trace ! t) (trace ! ((t + 1) mod 32)) (f_flag (t = 0)) (f_flag (t = 31)) (f_flag (t \<noteq> 31))"
    if t: "t < 32" for t
  proof -
    have "input_assembly assert_zero ((!) (take 16 (take 298 (trace ! t)))) (\<lambda>j. trace ! t ! (298 + j))
        (\<lambda>j. trace ! t ! (306 + j)) (trace ! t ! 314)"
      unfolding cells(1,4) [OF t] gen(3) [OF t]
      by (rule input_assemblyI [OF asserts_assert_zero b01 wf [of t] sib [OF t]])
        (simp_all add: swap_input_def cells(2,3) [OF t])
    moreover have "when_eq (f_flag (t \<noteq> 31)) (trace ! (Suc t mod 32) ! (298 + j)) (n (Suc t) ! j)" if "j < 8" for j
      using t cells(2) [of "Suc t" j] that by (cases "t = 31") simp_all
    moreover have "when_eq (f_flag (t = 31)) (n (Suc t) ! j) (n 32 ! j)" for j
      by (cases "t = 31") simp_all
    ultimately show ?thesis
      using gen(4) [OF t] cells(1) [OF t] out [OF t]
      by (simp add: merkle_eval_def Let_def split_beta list_all_iff memb_offs)
  qed
  then show "air_holds (merkle_eval L (root_from_path ?perm leaf path)) trace"
    by (simp add: air_holds_def list_all_iff len n32)
qed

text \<open>
  The membership AIR accepts a leaf under a root exactly when an authentication path of depth 32 folds the
  leaf to the root: a satisfying trace yields the path, and every path yields a satisfying trace.
\<close>

theorem membership_air_exact:
  assumes L: "layers_ok L" and root: "wf_digest root"
  shows "(\<exists>trace. trace_shape depth memb_row_w trace \<and> air_holds (merkle_eval L root) trace
            \<and> digest_cells (\<lambda>j. trace ! 0 ! (child_off + j)) = leaf) \<longleftrightarrow>
    wf_digest leaf \<and> (\<exists>path. length (siblings path) = depth \<and> list_all wf_digest (siblings path)
       \<and> path_index path < 2 ^ depth \<and> root_from_path (p2_permute L) leaf path = root)"
proof -
  obtain g where "trace_gen_ok L g" using trace_gen_exists [OF L] by blast
  with membership_complete [OF L] membership_sound [OF L root] show ?thesis by blast
qed

end
