(* ===== verification/NullifierAir.thy ===== *)
theory NullifierAir
  imports MerkleAir
begin

text \<open>
  The nullifier derivation as constraints (\<^verbatim>\<open>engine/src/spend/nullifier_air.rs\<close>), and the facts on sponge
  states that it shares with the spend circuit: a state whose capacity lanes are carried over from
  the previous output has absorbed the block that is the difference of the rate lanes.
\<close>

section \<open>Sponge states as cells\<close>

text \<open>\<^verbatim>\<open>assert_init\<close> of \<^verbatim>\<open>monolith.rs\<close>: the capacity lanes of a fresh sponge.\<close>

definition assert_init :: "(F \<Rightarrow> bool) \<Rightarrow> (nat \<Rightarrow> F) \<Rightarrow> u32 \<Rightarrow> nat \<Rightarrow> bool" where
  "assert_init az lane domain len \<longleftrightarrow> az (f_sub (lane digest_elems) (f_of_u32 domain))
     \<and> list_all (\<lambda>j. az (lane j)) [digest_elems + 1..<width - 1]
     \<and> az (f_sub (lane (width - 1)) (len mod babybear_p))"

lemma sponge_init_nth:
  "i < 16 \<Longrightarrow> sponge_init tag len ! i = (if i = 8 then f_of_u32 tag else if i = 15 then len mod babybear_p else 0)"
  by (simp add: sponge_init_def width_def rate_def nth_list_update)

lemma length_sponge_init [simp]: "length (sponge_init tag len) = 16"
  by (simp add: sponge_init_def width_def)

lemma absorb_nth: "length s = 16 \<Longrightarrow> length c = 8 \<Longrightarrow> i < 16 \<Longrightarrow> absorb s c ! i = (if i < 8 then f_add (s ! i) (c ! i) else s ! i)"
  by (simp add: absorb_def nth_append)

lemma length_absorb [simp]: "length s = 16 \<Longrightarrow> length c = 8 \<Longrightarrow> length (absorb s c) = 16"
  by (simp add: absorb_def)

lemma f_add_sub: "a < babybear_p \<Longrightarrow> f_add b (f_sub a b) = a"
proof -
  assume "a < babybear_p"
  then have "int (f_add b (f_sub a b)) = int a" by (simp only: int_f_ops mod_simps) simp
  then show ?thesis by simp
qed

lemma f_sub_add: "a < babybear_p \<Longrightarrow> f_sub (f_add b a) b = a"
proof -
  assume "a < babybear_p"
  then have "int (f_sub (f_add b a) b) = int a" by (simp only: int_f_ops mod_simps) simp
  then show ?thesis by simp
qed

text \<open>The block a cell state has absorbed since \<open>prev\<close>.\<close>

definition absorbed :: "F list \<Rightarrow> F list \<Rightarrow> digest" where
  "absorbed prev inp = digest_cells (\<lambda>j. f_sub (inp ! j) (prev ! j))"

lemma wf_absorbed: "wf_digest (absorbed prev inp)"
  unfolding absorbed_def by (rule digest_cells_wf) simp

lemma absorb_absorbed:
  assumes "state_ok inp" "length prev = 16" and "\<And>j. 8 \<le> j \<Longrightarrow> j < 16 \<Longrightarrow> inp ! j = prev ! j"
  shows "inp = absorb prev (absorbed prev inp)"
proof (rule nth_equalityI)
  show "length inp = length (absorb prev (absorbed prev inp))"
    using assms by (simp add: state_ok_def width_def absorbed_def)
  fix i assume "i < length inp"
  then have "i < 16" "inp ! i < babybear_p" using assms(1) by (simp_all add: state_ok_def width_def canon_nth)
  with assms show "inp ! i = absorb prev (absorbed prev inp) ! i"
    by (simp add: absorb_nth absorbed_def f_add_sub)
qed

lemma absorbed_absorb: "length prev = 16 \<Longrightarrow> wf_digest c \<Longrightarrow> absorbed prev (absorb prev c) = c"
  by (intro nth_equalityI) (auto simp: absorbed_def wf_digest_def digest_elems_def absorb_nth f_sub_add)

text \<open>A fresh sponge: the block is the rate lanes themselves.\<close>

lemma assert_initD:
  assumes az: "asserts az" and a: "assert_init az ((!) inp) tag len" and inp: "state_ok inp"
  shows "inp = absorb (sponge_init tag len) (take 8 inp)"
proof -
  have lt: "inp ! j < babybear_p" if "j < 16" for j using inp that by (simp add: state_ok_def width_def canon_nth)
  have "az (inp ! j)" if "j \<in> {9..<15}" for j
    using a that by (simp add: assert_init_def list_all_iff digest_elems_def width_def del: upt_rec_numeral)
  with az lt have z: "inp ! j = 0" if "j \<in> {9..<15}" for j using that by (fastforce simp: asserts_def)
  have "f_sub (inp ! 8) (f_of_u32 tag) = 0" "f_sub (inp ! 15) (len mod babybear_p) = 0"
    using a assertsD(1) [OF az] by (simp_all add: assert_init_def digest_elems_def width_def)
  then have e: "inp ! 8 = f_of_u32 tag" "inp ! 15 = len mod babybear_p" using lt by (simp_all add: f_sub_0_iff)
  show ?thesis
  proof (rule nth_equalityI)
    fix i assume "i < length inp"
    then have i: "i < 16" using inp by (simp add: state_ok_def width_def)
    consider "i < 8" | "i = 8" | "i \<in> {9..<15}" | "i = 15" using i by fastforce
    then show "inp ! i = absorb (sponge_init tag len) (take 8 inp) ! i"
      using inp lt [OF i] e z i
      by cases (simp_all add: absorb_nth sponge_init_nth state_ok_def width_def f_add_def)
  qed (use inp in \<open>simp add: state_ok_def width_def\<close>)
qed

lemma assert_initI:
  assumes az: "asserts az" and c: "length c = 8"
  shows "assert_init az ((!) (absorb (sponge_init tag len) c)) tag len"
proof -
  have z: "az 0" "az (f_sub x x)" for x using az by (simp_all add: asserts_def f_sub_def)
  show ?thesis using c z by (simp add: assert_init_def list_all_iff absorb_nth sponge_init_nth digest_elems_def width_def)
qed

lemma hash_blocks:
  "\<forall>b \<in> set bs. length b = 8 \<Longrightarrow> hash_domain perm tag (concat bs) =
     take 8 (fold (\<lambda>c s. perm (absorb s c)) bs (sponge_init tag (8 * length bs)))"
proof -
  assume b: "\<forall>b \<in> set bs. length b = 8"
  then have "length (concat bs) = 8 * length bs" by (induction bs) simp_all
  with b show ?thesis by (simp add: hash_domain_def chunks_concat rate_def digest_elems_def)
qed

lemma wf_state_ok: "wf_state s \<longleftrightarrow> state_ok s" by (auto simp: wf_state_def state_ok_def canon_def)

lemma state_ok_absorb: "state_ok s \<Longrightarrow> length c = 8 \<Longrightarrow> state_ok (absorb s c)"
  using wf_absorb [of s c] by (simp add: wf_state_ok width_def)

lemma state_ok_init: "state_ok (sponge_init tag len)"
  using wf_sponge_init by (simp add: wf_state_ok)

lemma nullifier_chain:
  "length nk = 8 \<Longrightarrow> length rho = 8 \<Longrightarrow> nullifier perm nk rho
    = take 8 (perm (absorb (perm (absorb (sponge_init domain_nullifier 16) nk)) rho))"
  unfolding nullifier_def by (subst hash_blocks) (simp_all add: nullifier_blocks_def)

lemma owner_chain: "length nk = 8 \<Longrightarrow> owner_key perm nk = take 8 (perm (absorb (sponge_init domain_owner 8) nk))"
  unfolding owner_key_def using hash_blocks [of "[nk]" perm domain_owner] by simp

text \<open>The first block of a commitment: the limbs of the value and zeros.\<close>

definition value_block :: "u64 \<Rightarrow> digest" where
  "value_block v = value_limbs v @ replicate (digest_elems - n_limbs) 0"

lemma length_value_block [simp]: "length (value_block v) = 8"
  by (simp add: value_block_def digest_elems_def n_limbs_def)

lemma commitment_chain:
  "length owner = 8 \<Longrightarrow> length rho = 8 \<Longrightarrow> length r = 8 \<Longrightarrow> note_commitment perm v owner rho r
    = take 8 (perm (absorb (perm (absorb (perm (absorb (perm (absorb (sponge_init domain_commitment 32)
        (value_block v))) owner)) rho)) r))"
  unfolding note_commitment_def commitment_blocks_def value_block_def [symmetric]
  by (subst hash_blocks) simp_all

section \<open>The nullifier AIR\<close>

definition block_off :: nat where "block_off = perm_width"
definition nf_row_w :: nat where "nf_row_w = perm_width + digest_elems"
definition nf_len :: nat where "nf_len = 2 * digest_elems"

definition nullifier_eval :: "poseidon2 \<Rightarrow> F list \<Rightarrow> F list \<Rightarrow> F list \<Rightarrow> F \<Rightarrow> F \<Rightarrow> F \<Rightarrow> bool" where
  "nullifier_eval L pv cur nxt is_first is_last transition =
     (let cols = perm_cols_of (take perm_width cur); inp = pc_inputs cols;
          (ok, output) = eval_permutation L cols;
          nxt_inp = pc_inputs (perm_cols_of (take perm_width nxt))
      in list_all (\<lambda>j. when_eq is_first (inp ! j) (cur ! (block_off + j))) [0..<digest_elems]
       \<and> when_eq is_first (inp ! digest_elems) (f_of_u32 domain_nullifier)
       \<and> list_all (\<lambda>j. when_zero is_first (inp ! j)) [digest_elems + 1..<width - 1]
       \<and> when_eq is_first (inp ! (width - 1)) (nf_len mod babybear_p)
       \<and> ok
       \<and> list_all (\<lambda>j. when_eq transition (nxt_inp ! j) (f_add (output ! j) (nxt ! (block_off + j)))) [0..<digest_elems]
       \<and> list_all (\<lambda>(i, out). when_eq transition i out) (zip (drop digest_elems nxt_inp) (drop digest_elems output))
       \<and> list_all (\<lambda>j. when_eq is_first (cur ! (block_off + j)) (pv ! j)
           \<and> when_eq is_last (cur ! (block_off + j)) (pv ! (digest_elems + j))) [0..<digest_elems]
       \<and> list_all (\<lambda>(j, out). when_eq is_last out (pv ! (2 * digest_elems + j))) (enumerate 0 (take digest_elems output)))"

text \<open>The two rows, and the public values \<open>nk, rho, nf\<close>.\<close>

definition nullifier_trace :: "(F list \<Rightarrow> F list) \<Rightarrow> perm \<Rightarrow> digest \<Rightarrow> digest \<Rightarrow> F list list \<times> F list" where
  "nullifier_trace g perm nk rho =
     (let in0 = absorb (sponge_init domain_nullifier nf_len) nk;
          out0 = perm in0;
          in1 = absorb out0 rho;
          nf = take digest_elems (perm in1)
      in ([g in0 @ nk, g in1 @ rho], nk @ rho @ nf))"

lemma nf_offs: "block_off = 298" "nf_row_w = 306" "nf_len = 16" "perm_width = 298" "width = 16" "digest_elems = 8"
  by (simp_all add: block_off_def nf_row_w_def nf_len_def memb_offs)

lemma wf_nth: "wf_digest d \<Longrightarrow> j < 8 \<Longrightarrow> d ! j < babybear_p" "wf_digest d \<Longrightarrow> length d = 8"
  by (simp_all add: wf_digest_def digest_elems_def)

lemma nullifier_sound:
  assumes L: "layers_ok L" and wf: "wf_digest nk" "wf_digest rho" "wf_digest nf"
    and sh: "trace_shape 2 nf_row_w trace" and ok: "air_holds (nullifier_eval L (nk @ rho @ nf)) trace"
  shows "nf = nullifier (p2_permute L) nk rho"
proof -
  let ?perm = "p2_permute L"
  define inp where "inp = (\<lambda>t. take 16 (take 298 (trace ! t)))"
  define out where "out = (\<lambda>t. snd (eval_permutation L (perm_cols_of (take 298 (trace ! t)))))"
  have len: "length trace = 2" using sh by (simp add: trace_shape_def)
  have row: "length (trace ! t) = 306" "canon (trace ! t)" if "t < 2" for t
    using trace_cell(2) [OF sh that] by (simp_all add: nf_offs)
  have cell: "trace ! t ! j < babybear_p" if "t < 2" "j < 306" for t j using row that by (simp add: canon_nth)
  note ev0 = air_holdsD [OF ok, of 0, unfolded len, simplified] and ev1 = air_holdsD [OF ok, of 1, unfolded len, simplified]
  have ev: "nullifier_eval L (nk @ rho @ nf) (trace ! 0) (trace ! 1) (f_flag True) (f_flag False) (f_flag True)"
    "nullifier_eval L (nk @ rho @ nf) (trace ! 1) (trace ! 0) (f_flag False) (f_flag True) (f_flag False)"
    using ev0 ev1 by simp_all
  have perm_ok: "fst (eval_permutation L (perm_cols_of (take 298 (trace ! t))))" if "t < 2" for t
    using ev that by (auto simp: nullifier_eval_def Let_def split_beta nf_offs less_2_cases_iff)
  have outs: "out t = ?perm (inp t)" "state_ok (out t)" "state_ok (inp t)" if "t < 2" for t
    using permutation_columns [OF L _ _ perm_ok [OF that]] row [OF that]
    by (simp_all add: out_def inp_def nf_offs canon_sub state_ok_def)
  have l16: "length (inp t) = 16" "length (out t) = 16" if "t < 2" for t using outs [OF that] by (simp_all add: state_ok_def nf_offs)
  have lt: "inp t ! j < babybear_p" "out t ! j < babybear_p" if "t < 2" "j < 16" for t j
    using outs [OF that(1)] that(2) by (simp_all add: state_ok_def nf_offs canon_nth)
  have "when_eq (f_flag True) (inp 0 ! j) (trace ! 0 ! (298 + j))" "when_eq (f_flag True) (trace ! 0 ! (298 + j)) (nk ! j)"
    "when_eq (f_flag True) (inp 1 ! j) (f_add (out 0 ! j) (trace ! 1 ! (298 + j)))"
    "when_eq (f_flag True) (trace ! 1 ! (298 + j)) (rho ! j)"
    "when_eq (f_flag True) (out 1 ! j) (nf ! j)" "when_eq (f_flag True) (inp 1 ! (8 + j)) (out 0 ! (8 + j))" if "j < 8" for j
    using ev that wf [THEN wf_nth(2)] l16
    by (simp_all add: nullifier_eval_def Let_def split_beta nf_offs inp_def out_def list_all_iff nth_append
        list_all_length [unfolded list_all_iff] in_set_zip enumerate_eq_zip)
  note w = this
  have e: "inp 0 ! j = nk ! j" "inp 1 ! j = f_add (out 0 ! j) (rho ! j)" "out 1 ! j = nf ! j"
      "inp 1 ! (8 + j) = out 0 ! (8 + j)" if j: "j < 8" for j
    using w [OF j] j lt [of 0 j] lt [of 1 j] lt [of 1 "8 + j"] lt [of 0 "8 + j"] cell [of 0 "298 + j"] cell [of 1 "298 + j"]
      wf [THEN wf_nth(1), OF j]
    by (simp_all add: when_eq_flag)
  have "assert_init (when_zero (f_flag True)) ((!) (inp 0)) domain_nullifier nf_len"
    using ev(1) by (simp add: nullifier_eval_def Let_def split_beta nf_offs inp_def assert_init_def when_eq_def)
  from assert_initD [OF asserts_when this outs(3)]
  have in0: "inp 0 = absorb (sponge_init domain_nullifier 16) (take 8 (inp 0))" by (simp add: nf_offs)
  have "take 8 (inp 0) = nk" using e(1) wf_nth(2) [OF wf(1)] l16 [of 0] by (intro nth_equalityI) simp_all
  moreover have "inp 1 = absorb (out 0) rho"
  proof (rule nth_equalityI)
    fix i assume "i < length (inp 1)"
    then show "inp 1 ! i = absorb (out 0) rho ! i"
      using e(2) [of i] e(4) [of "i - 8"] l16 wf_nth(2) [OF wf(2)]
      by (cases "i < 8") (simp_all add: absorb_nth not_less)
  qed (use l16 wf_nth(2) [OF wf(2)] in simp)
  moreover have "take 8 (out 1) = nf" using e(3) wf_nth(2) [OF wf(3)] l16 [of 1] by (intro nth_equalityI) simp_all
  ultimately show ?thesis
    using outs(1) [of 0] outs(1) [of 1] in0 nullifier_chain [of nk rho ?perm] wf [THEN wf_nth(2)] by simp
qed


lemma nullifier_complete:
  assumes L: "layers_ok L" and g: "trace_gen_ok L g" and wf: "wf_digest nk" "wf_digest rho"
  obtains trace where "nullifier_trace g (p2_permute L) nk rho = (trace, nk @ rho @ nullifier (p2_permute L) nk rho)"
    "trace_shape 2 nf_row_w trace"
    "air_holds (nullifier_eval L (nk @ rho @ nullifier (p2_permute L) nk rho)) trace"
proof -
  let ?perm = "p2_permute L"
  define in0 where "in0 = absorb (sponge_init domain_nullifier 16) nk"
  define in1 where "in1 = absorb (?perm in0) rho"
  define nf where "nf = nullifier ?perm nk rho"
  note l8 = wf [THEN wf_nth(2)]
  have p: "state_ok (?perm s)" if "state_ok s" for s
    using perm_ok_p2 [OF L] that unfolding perm_ok_def state_ok_def canon_def by blast
  have st: "state_ok in0" "state_ok in1"
    unfolding in0_def in1_def using p state_ok_absorb state_ok_init l8 by metis+
  have nf: "nf = take 8 (?perm in1)" by (simp add: nf_def nullifier_chain l8 in0_def in1_def)
  have gen: "length (g s) = 298" "canon (g s)" "take 16 (g s) = s" "fst (eval_permutation L (perm_cols_of (g s)))"
    "snd (eval_permutation L (perm_cols_of (g s))) = ?perm s" if "state_ok s" for s
    using g that permutation_columns(1) [OF L, of "g s"] by (simp_all add: trace_gen_ok_def nf_offs)
  have len: "length in0 = 16" "length in1 = 16" "length (?perm in0) = 16" "length (?perm in1) = 16"
    using st p by (simp_all add: state_ok_def nf_offs)
  have i0: "in0 ! j = nk ! j" if "j < 8" for j
    using that l8 wf_nth(1) [OF wf(1) that] by (simp add: in0_def absorb_nth sponge_init_nth f_add_def)
  have init: "assert_init (when_zero (f_flag True)) ((!) in0) domain_nullifier 16"
    unfolding in0_def by (rule assert_initI [OF asserts_when l8(1)])
  have i1: "in1 ! j = f_add (?perm in0 ! j) (rho ! j)" "in1 ! (8 + j) = ?perm in0 ! (8 + j)" if "j < 8" for j
    using that l8 len by (simp_all add: in1_def absorb_nth)
  have drop: "drop 8 in1 = drop 8 (?perm in0)" using i1(2) len by (intro nth_equalityI) simp_all
  have z [simp]: "when_zero (f_flag False) x" for x by (simp add: when_zero_def f_flag_def assert_zero_def f_mul_def)
  have refl: "list_all (\<lambda>(i, out). when_eq s i out) (zip xs xs)" for s xs by (induction xs) simp_all
  have off: "list_all (\<lambda>(i, out). when_eq (f_flag False) i out) xs" for xs by (simp add: list_all_iff)
  let ?t = "[g in0 @ nk, g in1 @ rho]"
  show thesis
  proof (rule that)
    show "nullifier_trace g ?perm nk rho = (?t, nk @ rho @ nullifier ?perm nk rho)"
      using nf by (simp add: nullifier_trace_def Let_def nf_offs nf_def in0_def in1_def)
    show "trace_shape 2 nf_row_w ?t"
      using gen [OF st(1)] gen [OF st(2)] l8 wf by (auto simp: trace_shape_def nf_offs canon_def wf_digest_def)
    have "nullifier_eval L (nk @ rho @ nf) (?t ! 0) (?t ! 1) (f_flag True) (f_flag False) (f_flag True)"
      using gen [OF st(1)] gen [OF st(2)] l8 init i0 i1 refl drop
      by (simp add: nullifier_eval_def Let_def split_beta nf_offs nth_append list_all_iff assert_init_def when_eq_def
          when_eq_refl [unfolded when_eq_def] del: upt_rec_numeral)
    moreover have "nullifier_eval L (nk @ rho @ nf) (?t ! 1) (?t ! 0) (f_flag False) (f_flag True) (f_flag False)"
      using gen [OF st(1)] gen [OF st(2)] l8 nf
      by (simp add: nullifier_eval_def Let_def split_beta nf_offs nth_append list_all_iff
          enumerate_eq_zip set_zip del: upt_rec_numeral) (auto simp: len)
    ultimately show "air_holds (nullifier_eval L (nk @ rho @ nullifier ?perm nk rho)) ?t"
      by (simp add: air_holds_def list_all_iff nf_def upt_rec)
  qed
qed

text \<open>
  The nullifier AIR accepts public values \<open>nk, rho, nf\<close> exactly when \<open>nf\<close> is the nullifier of \<open>nk\<close> and \<open>rho\<close>.
\<close>

theorem nullifier_air_exact:
  assumes L: "layers_ok L" and wf: "wf_digest nk" "wf_digest rho" "wf_digest nf"
  shows "(\<exists>trace. trace_shape 2 nf_row_w trace \<and> air_holds (nullifier_eval L (nk @ rho @ nf)) trace)
    \<longleftrightarrow> nf = nullifier (p2_permute L) nk rho"
proof -
  obtain g where "trace_gen_ok L g" using trace_gen_exists [OF L] by blast
  with nullifier_complete [OF L _ wf(1,2)] nullifier_sound [OF L wf] show ?thesis by metis
qed

end
