(* ===== verification/SpendAir.thy ===== *)
theory SpendAir
  imports NullifierAir SpendPublics
begin

text \<open>
  The spend circuit (\<^verbatim>\<open>engine/src/spend/monolith.rs\<close>): the wide row of eight permutation blocks, the
  preprocessed schedule that gives every row its role, and the constraints that tie two opened notes,
  their owners, nullifiers and membership paths, two output commitments and the five amounts together.
\<close>

section \<open>Layout\<close>

definition nb :: nat where "nb = 8"
definition extra :: nat where "extra = nb * perm_width"
definition child_col :: nat where "child_col = extra"
definition sib_col :: nat where "sib_col = child_col + digest_elems"
definition bit_col :: nat where "bit_col = sib_col + digest_elems"
definition bus_col :: nat where "bus_col = bit_col + 1"
definition bus_w :: nat where "bus_w = n_values * n_limbs"
definition bus_in0 :: nat where "bus_in0 = 0"
definition bus_in1 :: nat where "bus_in1 = n_limbs"
definition bus_out0 :: nat where "bus_out0 = 2 * n_limbs"
definition bus_out1 :: nat where "bus_out1 = 3 * n_limbs"
definition bus_fee :: nat where "bus_fee = 4 * n_limbs"
definition rbits_col :: nat where "rbits_col = bus_col + bus_w"
definition n_range_bits :: nat where "n_range_bits = n_values * n_limbs * limb_bits"
definition carryb_col :: nat where "carryb_col = rbits_col + n_range_bits"
definition eneq_col :: nat where "eneq_col = carryb_col + 2 * n_carries"
definition inv_col :: nat where "inv_col = eneq_col + digest_elems"
definition row_w :: nat where "row_w = inv_col + 1"

text \<open>The preprocessed flags.\<close>

definition p_hash0 :: nat where "p_hash0 = 0"
definition p_hash1 :: nat where "p_hash1 = 1"
definition p_merkle :: nat where "p_merkle = 2"
definition p_mchain :: nat where "p_mchain = 3"
definition p_mlast :: nat where "p_mlast = 4"
definition p_cm2leaf :: nat where "p_cm2leaf = 5"
definition p_output :: nat where "p_output = 6"
definition pre_w :: nat where "pre_w = 7"

definition hash0_row :: nat where "hash0_row = 0"
definition merkle0_last :: nat where "merkle0_last = depth"
definition hash1_row :: nat where "hash1_row = depth + 1"
definition merkle1_last :: nat where "merkle1_last = 2 * depth + 1"
definition output_row :: nat where "output_row = 2 * depth + 2"

text \<open>\<^verbatim>\<open>(2 * (1 + DEPTH) + 1).next_power_of_two()\<close>, evaluated at compile time.\<close>

definition n_rows :: nat where "n_rows = 128"

record input_note =
  in_value :: u64
  in_nk :: digest
  in_rho :: digest
  in_r :: digest
  in_index :: u64

record output_note =
  out_value :: u64
  out_owner :: digest
  out_rho :: digest
  out_r :: digest

section \<open>The schedule\<close>

definition sched_set :: "nat \<times> nat \<Rightarrow> F list list \<Rightarrow> F list list" where
  "sched_set rc v = v [fst rc := (v ! fst rc) [snd rc := 1]]"

definition merkle_cells :: "nat \<Rightarrow> nat \<Rightarrow> (nat \<times> nat) list" where
  "merkle_cells from til = concat (map (\<lambda>row.
     [(row, p_merkle), (row, if row = til then p_mlast else p_mchain)]) [from..<til + 1])"

definition schedule_cells :: "(nat \<times> nat) list" where
  "schedule_cells = [(hash0_row, p_hash0), (hash0_row, p_cm2leaf), (hash1_row, p_hash1), (hash1_row, p_cm2leaf)]
     @ merkle_cells (hash0_row + 1) merkle0_last @ merkle_cells (hash1_row + 1) merkle1_last
     @ [(output_row, p_output)]"

definition schedule_trace :: "F list list" where
  "schedule_trace = fold sched_set schedule_cells (replicate n_rows (replicate pre_w 0))"

section \<open>The constraints\<close>

text \<open>Block \<open>b\<close> of a row, an input lane of it, and its output as the permutation gadget returns it.\<close>

definition blk :: "F list \<Rightarrow> nat \<Rightarrow> F list" where
  "blk row b = take perm_width (drop (b * perm_width) row)"

definition binp :: "F list \<Rightarrow> nat \<Rightarrow> nat \<Rightarrow> F" where
  "binp row b j = row ! (b * perm_width + j)"

definition bout :: "poseidon2 \<Rightarrow> F list \<Rightarrow> nat \<Rightarrow> F list" where
  "bout L row b = snd (eval_permutation L (perm_cols_of (blk row b)))"

definition blocks_hold :: "poseidon2 \<Rightarrow> F list \<Rightarrow> bool" where
  "blocks_hold L row \<longleftrightarrow> list_all (\<lambda>b. fst (eval_permutation L (perm_cols_of (blk row b)))) [0..<nb]"

text \<open>Lanes \<open>from, \<dots>, til - 1\<close> of two states are equal: the capacity of a sponge is carried over, or a block is shared.\<close>

definition lanes_eq :: "(F \<Rightarrow> bool) \<Rightarrow> nat \<Rightarrow> nat \<Rightarrow> (nat \<Rightarrow> F) \<Rightarrow> (nat \<Rightarrow> F) \<Rightarrow> bool" where
  "lanes_eq az from til x y \<longleftrightarrow> list_all (\<lambda>j. az (f_sub (x j) (y j))) [from..<til]"

definition hash_row_eval :: "(F \<Rightarrow> bool) \<Rightarrow> (nat \<Rightarrow> nat \<Rightarrow> F) \<Rightarrow> (nat \<Rightarrow> F list) \<Rightarrow> bool" where
  "hash_row_eval az inp out \<longleftrightarrow>
     assert_init az (inp 0) domain_owner digest_elems
     \<and> list_all (\<lambda>j. az (inp 1 j)) [n_limbs..<digest_elems]
     \<and> assert_init az (inp 1) domain_commitment (4 * digest_elems)
     \<and> lanes_eq az 0 digest_elems (inp 2) (\<lambda>j. f_add (out 1 ! j) (out 0 ! j))
     \<and> lanes_eq az digest_elems width (inp 2) ((!) (out 1))
     \<and> lanes_eq az digest_elems width (inp 3) ((!) (out 2))
     \<and> lanes_eq az digest_elems width (inp 4) ((!) (out 3))
     \<and> lanes_eq az 0 digest_elems (inp 5) (inp 0)
     \<and> assert_init az (inp 5) domain_nullifier (2 * digest_elems)
     \<and> lanes_eq az digest_elems width (inp 6) ((!) (out 5))
     \<and> lanes_eq az 0 digest_elems (\<lambda>j. f_sub (inp 3 j) (out 2 ! j)) (\<lambda>j. f_sub (inp 6 j) (out 5 ! j))"

definition output_row_eval :: "(F \<Rightarrow> bool) \<Rightarrow> (nat \<Rightarrow> nat \<Rightarrow> F) \<Rightarrow> (nat \<Rightarrow> F list) \<Rightarrow> bool" where
  "output_row_eval az inp out \<longleftrightarrow>
     list_all (\<lambda>b. list_all (\<lambda>j. az (inp b j)) [n_limbs..<digest_elems]
       \<and> assert_init az (inp b) domain_commitment (4 * digest_elems)
       \<and> lanes_eq az digest_elems width (inp (b + 1)) ((!) (out b))
       \<and> lanes_eq az digest_elems width (inp (b + 2)) ((!) (out (b + 1)))
       \<and> lanes_eq az digest_elems width (inp (b + 3)) ((!) (out (b + 2)))) [0, 4]"

text \<open>The revealed nullifiers and the binding of the opened values to the bus.\<close>

definition input_reveal :: "F \<Rightarrow> nat \<Rightarrow> nat \<Rightarrow> F list \<Rightarrow> F list \<Rightarrow> (nat \<Rightarrow> nat \<Rightarrow> F) \<Rightarrow> (nat \<Rightarrow> F list) \<Rightarrow> bool" where
  "input_reveal sel pub bus pv cur inp out \<longleftrightarrow>
     list_all (\<lambda>j. when_eq sel (out 6 ! j) (pv ! (pub + j))) [0..<digest_elems]
     \<and> list_all (\<lambda>j. when_eq sel (cur ! (bus_col + bus + j)) (inp 1 j)) [0..<n_limbs]"

definition output_reveal :: "F \<Rightarrow> F list \<Rightarrow> F list \<Rightarrow> (nat \<Rightarrow> nat \<Rightarrow> F) \<Rightarrow> (nat \<Rightarrow> F list) \<Rightarrow> bool" where
  "output_reveal sel pv cur inp out \<longleftrightarrow>
     list_all (\<lambda>j. when_eq sel (out 3 ! j) (pv ! (pub_cmo0 + j)) \<and> when_eq sel (out 7 ! j) (pv ! (pub_cmo1 + j)))
       [0..<digest_elems]
     \<and> list_all (\<lambda>j. when_eq sel (cur ! (bus_col + bus_out0 + j)) (inp 0 j)
         \<and> when_eq sel (cur ! (bus_col + bus_out1 + j)) (inp 4 j)) [0..<n_limbs]"

text \<open>The chain of Merkle rows, the root, and the hand-off of the opened commitment.\<close>

definition merkle_links :: "F \<Rightarrow> F \<Rightarrow> F \<Rightarrow> F list \<Rightarrow> F list \<Rightarrow> (nat \<Rightarrow> F list) \<Rightarrow> bool" where
  "merkle_links mchain mlast c2l pv nxt out \<longleftrightarrow>
     list_all (\<lambda>j. when_eq mchain (out 0 ! j) (nxt ! (child_col + j))
       \<and> when_eq mlast (out 0 ! j) (pv ! (pub_root + j))
       \<and> when_eq c2l (out 4 ! j) (nxt ! (child_col + j))) [0..<digest_elems]"

definition bus_constant :: "F \<Rightarrow> F list \<Rightarrow> F list \<Rightarrow> bool" where
  "bus_constant transition cur nxt \<longleftrightarrow>
     list_all (\<lambda>k. when_eq transition (nxt ! (bus_col + k)) (cur ! (bus_col + k))) [0..<bus_w]"

text \<open>The transaction-wide facts of the first row.\<close>

definition bus_limb :: "F list \<Rightarrow> nat \<Rightarrow> nat \<Rightarrow> F" where
  "bus_limb cur v j = cur ! (bus_col + (v * n_limbs + j))"

definition amounts_eval :: "(F \<Rightarrow> bool) \<Rightarrow> F list \<Rightarrow> F list \<Rightarrow> bool" where
  "amounts_eval az pv cur \<longleftrightarrow>
     list_all (\<lambda>k. range_limb az cur (rbits_col + k * limb_bits) (cur ! (bus_col + k))) [0..<bus_w]
     \<and> carry_bits az cur carryb_col
     \<and> list_all (limb_balance az (bus_limb cur) (carry_expr cur carryb_col)) [0..<n_limbs]
     \<and> list_all (\<lambda>j. az (f_sub (cur ! (bus_col + bus_fee + j)) (pv ! (pub_fee + j)))) [0..<n_limbs]"

definition sel_diff :: "F list \<Rightarrow> F list \<Rightarrow> F" where
  "sel_diff pv cur = fold (\<lambda>j acc. f_add acc (f_mul (cur ! (eneq_col + j)) (f_sub (pv ! (pub_nf0 + j)) (pv ! (pub_nf1 + j)))))
     [0..<digest_elems] 0"

definition distinct_eval :: "(F \<Rightarrow> bool) \<Rightarrow> F list \<Rightarrow> F list \<Rightarrow> bool" where
  "distinct_eval az pv cur \<longleftrightarrow>
     list_all (\<lambda>j. boolean_cell az (cur ! (eneq_col + j))) [0..<digest_elems]
     \<and> az (f_sub (fold (\<lambda>j acc. f_add acc (cur ! (eneq_col + j))) [0..<digest_elems] 0) 1)
     \<and> az (f_sub (f_mul (sel_diff pv cur) (cur ! inv_col)) 1)"

definition spend_eval :: "poseidon2 \<Rightarrow> F list \<Rightarrow> F list \<Rightarrow> F list \<Rightarrow> F list \<Rightarrow> F \<Rightarrow> F \<Rightarrow> bool" where
  "spend_eval L pv pre cur nxt is_first transition =
     (let h0 = pre ! p_hash0; h1 = pre ! p_hash1; is_out = pre ! p_output;
          inp = binp cur; out = bout L cur
      in blocks_hold L cur
       \<and> hash_row_eval (when_zero (f_add h0 h1)) inp out
       \<and> input_reveal h0 pub_nf0 bus_in0 pv cur inp out
       \<and> input_reveal h1 pub_nf1 bus_in1 pv cur inp out
       \<and> output_row_eval (when_zero is_out) inp out
       \<and> output_reveal is_out pv cur inp out
       \<and> input_assembly (when_zero (pre ! p_merkle)) (inp 0) (\<lambda>j. cur ! (child_col + j)) (\<lambda>j. cur ! (sib_col + j)) (cur ! bit_col)
       \<and> merkle_links (pre ! p_mchain) (pre ! p_mlast) (pre ! p_cm2leaf) pv nxt out
       \<and> bus_constant transition cur nxt
       \<and> amounts_eval (when_zero is_first) pv cur
       \<and> distinct_eval (when_zero is_first) pv cur)"

definition spend_holds :: "poseidon2 \<Rightarrow> F list \<Rightarrow> F list list \<Rightarrow> bool" where
  "spend_holds L pv trace \<longleftrightarrow> list_all (\<lambda>i.
     spend_eval L pv (schedule_trace ! i) (trace ! i) (trace ! ((i + 1) mod length trace))
       (f_flag (i = 0)) (f_flag (i \<noteq> length trace - 1))) [0..<length trace]"

section \<open>Facts on the schedule\<close>

lemma spend_offs:
  "nb = 8" "extra = 2384" "child_col = 2384" "sib_col = 2392" "bit_col = 2400" "bus_col = 2401" "bus_w = 20"
  "rbits_col = 2421" "carryb_col = 2741" "eneq_col = 2747" "inv_col = 2755" "row_w = 2756"
  "bus_in0 = 0" "bus_in1 = 4" "bus_out0 = 8" "bus_out1 = 12" "bus_fee = 16"
  "pub_root = 0" "pub_nf0 = 8" "pub_nf1 = 16" "pub_cmo0 = 24" "pub_cmo1 = 32" "pub_fee = 40"
  "n_rows = 128" "perm_width = 298" "width = 16" "digest_elems = 8" "n_limbs = 4" "limb_bits = 16" "n_carries = 3"
  by (simp_all add: nb_def extra_def child_col_def sib_col_def bit_col_def bus_col_def bus_w_def rbits_col_def carryb_col_def
      n_range_bits_def eneq_col_def inv_col_def row_w_def bus_in0_def bus_in1_def bus_out0_def bus_out1_def bus_fee_def
      pub_root_def pub_nf0_def pub_nf1_def pub_cmo0_def pub_cmo1_def pub_fee_def n_rows_def memb_offs balance_shape)

lemma sched_fold:
  assumes "\<forall>(r, c) \<in> set cells. r < n \<and> c < w" "length v = n" "\<forall>row \<in> set v. length row = w" "i < n" "j < w"
  shows "fold sched_set cells v ! i ! j = (if (i, j) \<in> set cells then 1 else v ! i ! j)"
  using assms
proof (induction cells arbitrary: v)
  case (Cons rc cells)
  have "\<forall>row \<in> set (sched_set rc v). length row = w"
    using Cons.prems by (auto simp: sched_set_def dest!: set_update_subset_insert [THEN subsetD])
  moreover have "sched_set rc v ! i ! j = (if rc = (i, j) then 1 else v ! i ! j)"
    using Cons.prems by (cases rc) (auto simp: sched_set_def nth_list_update)
  ultimately show ?case using Cons by (simp add: sched_set_def)
qed simp

lemma merkle_cells_set: "(i, j) \<in> set (merkle_cells from til) \<longleftrightarrow>
    from \<le> i \<and> i \<le> til \<and> (j = p_merkle \<or> j = (if i = til then p_mlast else p_mchain))"
proof -
  have "(i, j) \<in> set (merkle_cells from til) \<longleftrightarrow>
      (\<exists>r \<in> {from..<til + 1}. i = r \<and> j = p_merkle \<or> i = r \<and> j = (if r = til then p_mlast else p_mchain))"
    unfolding merkle_cells_def set_concat set_map set_upt image_image UN_iff
    by (simp only: list.set insert_iff empty_iff prod.inject simp_thms)
  also have "\<dots> \<longleftrightarrow> i \<in> {from..<til + 1} \<and> (j = p_merkle \<or> j = (if i = til then p_mlast else p_mchain))" by blast
  finally show ?thesis by (simp only: atLeastLessThan_iff less_Suc_eq_le Suc_eq_plus1 [symmetric] conj_assoc)
qed

lemma p_offs: "p_hash0 = 0" "p_hash1 = 1" "p_merkle = 2" "p_mchain = 3" "p_mlast = 4" "p_cm2leaf = 5" "p_output = 6" "pre_w = 7"
  by (simp_all add: p_hash0_def p_hash1_def p_merkle_def p_mchain_def p_mlast_def p_cm2leaf_def p_output_def pre_w_def)

lemma row_offs: "hash0_row = 0" "merkle0_last = 32" "hash1_row = 33" "merkle1_last = 65" "output_row = 66"
  by (simp_all add: hash0_row_def merkle0_last_def hash1_row_def merkle1_last_def output_row_def depth_def)

lemma schedule_cells_set: "(i, j) \<in> set schedule_cells \<longleftrightarrow>
    i = 0 \<and> j = 0 \<or> i = 0 \<and> j = 5 \<or> i = 33 \<and> j = 1 \<or> i = 33 \<and> j = 5
    \<or> 1 \<le> i \<and> i \<le> 32 \<and> (j = 2 \<or> j = (if i = 32 then 4 else 3))
    \<or> 34 \<le> i \<and> i \<le> 65 \<and> (j = 2 \<or> j = (if i = 65 then 4 else 3)) \<or> i = 66 \<and> j = 6"
proof -
  have "(i, j) \<in> set schedule_cells \<longleftrightarrow>
    (i = 0 \<and> j = 0 \<or> i = 0 \<and> j = 5 \<or> i = 33 \<and> j = 1 \<or> i = 33 \<and> j = 5)
    \<or> (i, j) \<in> set (merkle_cells (0 + 1) 32) \<or> (i, j) \<in> set (merkle_cells (33 + 1) 65) \<or> i = 66 \<and> j = 6"
    by (simp only: schedule_cells_def set_append Un_iff list.set(1,2) insert_iff empty_iff prod.inject p_offs row_offs simp_thms disj_assoc)
  then show ?thesis by (simp only: merkle_cells_set p_offs) simp
qed

lemma schedule_cell:
  assumes "i < 128" "j < 7"
  shows "schedule_trace ! i ! j = f_flag ((i, j) \<in> set schedule_cells)"
proof -
  have "\<forall>(r, c) \<in> set schedule_cells. r < 128 \<and> c < 7" by (auto simp: schedule_cells_set split: if_splits)
  from sched_fold [OF this, of "replicate 128 (replicate 7 0)" i j] assms show ?thesis
    by (simp add: schedule_trace_def f_flag_def spend_offs p_offs)
qed

lemma schedule_flags:
  assumes "i < 128"
  shows "schedule_trace ! i ! p_hash0 = f_flag (i = 0)" "schedule_trace ! i ! p_hash1 = f_flag (i = 33)"
    "schedule_trace ! i ! p_merkle = f_flag (1 \<le> i \<and> i \<le> 32 \<or> 34 \<le> i \<and> i \<le> 65)"
    "schedule_trace ! i ! p_mchain = f_flag (1 \<le> i \<and> i < 32 \<or> 34 \<le> i \<and> i < 65)"
    "schedule_trace ! i ! p_mlast = f_flag (i = 32 \<or> i = 65)"
    "schedule_trace ! i ! p_cm2leaf = f_flag (i = 0 \<or> i = 33)" "schedule_trace ! i ! p_output = f_flag (i = 66)"
  unfolding p_offs using assms
  by (simp_all add: schedule_cell) (intro arg_cong [of _ _ f_flag]; auto simp: schedule_cells_set)+

end
