(* ===== verification/SpendSound.thy ===== *)
theory SpendSound
  imports SpendAir
begin

text \<open>
  Soundness of the spend circuit: what a trace that satisfies every constraint proves about its public
  values. Each group of constraints gets one lemma over the states of the permutation blocks; the
  last section composes them over the 128 rows of the schedule.
\<close>

section \<open>The statement\<close>

definition input_cm :: "perm \<Rightarrow> input_note \<Rightarrow> digest" where
  "input_cm perm n = note_commitment perm (in_value n) (owner_key perm (in_nk n)) (in_rho n) (in_r n)"

definition output_cm :: "perm \<Rightarrow> output_note \<Rightarrow> digest" where
  "output_cm perm n = note_commitment perm (out_value n) (out_owner n) (out_rho n) (out_r n)"

definition wf_input :: "input_note \<Rightarrow> bool" where
  "wf_input n \<longleftrightarrow> wf_digest (in_nk n) \<and> wf_digest (in_rho n) \<and> wf_digest (in_r n)"

definition wf_output :: "output_note \<Rightarrow> bool" where
  "wf_output n \<longleftrightarrow> wf_digest (out_owner n) \<and> wf_digest (out_rho n) \<and> wf_digest (out_r n)"

definition spend_pis :: "perm \<Rightarrow> digest \<Rightarrow> input_note \<Rightarrow> input_note \<Rightarrow> output_note \<Rightarrow> output_note \<Rightarrow> u64 \<Rightarrow> F list" where
  "spend_pis perm root in0 in1 out0 out1 fee =
     root @ nullifier perm (in_nk in0) (in_rho in0) @ nullifier perm (in_nk in1) (in_rho in1)
       @ output_cm perm out0 @ output_cm perm out1 @ value_limbs fee"

definition opens_to :: "perm \<Rightarrow> digest \<Rightarrow> input_note \<Rightarrow> merkle_path \<Rightarrow> bool" where
  "opens_to perm root n path \<longleftrightarrow> wf_input n \<and> length (siblings path) = depth \<and> list_all wf_digest (siblings path)
     \<and> path_index path = unat (in_index n) \<and> path_index path < 2 ^ depth
     \<and> root_from_path perm (input_cm perm n) path = root"

definition valid_spend :: "perm \<Rightarrow> digest \<Rightarrow> input_note \<times> merkle_path \<Rightarrow> input_note \<times> merkle_path \<Rightarrow>
    output_note \<Rightarrow> output_note \<Rightarrow> u64 \<Rightarrow> bool" where
  "valid_spend perm root ip0 ip1 out0 out1 fee \<longleftrightarrow>
     opens_to perm root (fst ip0) (snd ip0) \<and> opens_to perm root (fst ip1) (snd ip1)
     \<and> wf_output out0 \<and> wf_output out1
     \<and> unat (in_value (fst ip0)) + unat (in_value (fst ip1)) = unat (out_value out0) + unat (out_value out1) + unat fee
     \<and> nullifier perm (in_nk (fst ip0)) (in_rho (fst ip0)) \<noteq> nullifier perm (in_nk (fst ip1)) (in_rho (fst ip1))"

section \<open>Sponge chains in blocks\<close>

lemma lanes_eqD:
  assumes "asserts az" "lanes_eq az from til x y" "from \<le> j" "j < til" "x j < babybear_p" "y j < babybear_p"
  shows "x j = y j"
  using assms assertsD(1) [of az "x j" "y j"] by (simp add: lanes_eq_def list_all_iff f_sub_0_iff)

lemma state_cell: "state_ok s \<Longrightarrow> j < 16 \<Longrightarrow> s ! j < babybear_p" "state_ok s \<Longrightarrow> length s = 16"
  by (simp_all add: state_ok_def width_def canon_nth)

lemma carried_absorb:
  assumes az: "asserts az" and c: "lanes_eq az 8 16 ((!) s) ((!) prev)" and st: "state_ok s" "state_ok prev"
  shows "s = absorb prev (absorbed prev s)"
proof (rule absorb_absorbed [OF st(1)])
  show "length prev = 16" using st by (simp add: state_cell)
  show "s ! j = prev ! j" if "8 \<le> j" "j < 16" for j
    by (rule lanes_eqD [OF az c that]) (use st that in \<open>simp_all add: state_cell\<close>)
qed

lemma commitment_cells:
  assumes az: "asserts az" and perm: "\<And>s. state_ok s \<Longrightarrow> state_ok (perm s)"
    and st: "state_ok a" "state_ok b" "state_ok c" "state_ok d"
    and zeros: "list_all (\<lambda>j. az (a ! j)) [4..<8]" and init: "assert_init az ((!) a) domain_commitment 32"
    and cap: "lanes_eq az 8 16 ((!) b) ((!) (perm a))" "lanes_eq az 8 16 ((!) c) ((!) (perm b))"
      "lanes_eq az 8 16 ((!) d) ((!) (perm c))"
    and v: "take 4 a = value_limbs v"
  shows "take 8 (perm d) = note_commitment perm v (absorbed (perm a) b) (absorbed (perm b) c) (absorbed (perm c) d)"
proof -
  have "a ! j = 0" if "j \<in> {4..<8}" for j
    using zeros az that state_cell(1) [OF st(1), of j] by (auto simp: list_all_iff asserts_def simp del: upt_rec_numeral)
  then have "drop 4 (take 8 a) = replicate 4 0"
    using state_cell(2) [OF st(1)] by (intro nth_equalityI) simp_all
  moreover have "take 8 a = take 4 a @ drop 4 (take 8 a)"
    by (metis append_take_drop_id min.absorb1 numeral_le_iff semiring_norm(68,71) take_take)
  ultimately have block: "take 8 a = value_block v" by (simp add: v value_block_def digest_elems_def n_limbs_def)
  have chain: "a = absorb (sponge_init domain_commitment 32) (value_block v)"
    using assert_initD [OF az init st(1)] by (simp only: block)
  note absorbs = carried_absorb [OF az cap(1) st(2) perm [OF st(1)]] carried_absorb [OF az cap(2) st(3) perm [OF st(2)]]
    carried_absorb [OF az cap(3) st(4) perm [OF st(3)]]
  have len: "length (absorbed x y) = 8" for x y by (simp add: absorbed_def)
  show ?thesis
    unfolding commitment_chain [OF len len len] chain [symmetric] absorbs [symmetric] ..
qed

lemma nullifier_cells:
  assumes az: "asserts az" and perm: "\<And>s. state_ok s \<Longrightarrow> state_ok (perm s)" and st: "state_ok a" "state_ok b"
    and init: "assert_init az ((!) a) domain_nullifier 16" and cap: "lanes_eq az 8 16 ((!) b) ((!) (perm a))"
  shows "take 8 (perm b) = nullifier perm (take 8 a) (absorbed (perm a) b)"
proof -
  have "length (take 8 a) = 8" "length (absorbed (perm a) b) = 8" using state_cell(2) [OF st(1)] by (simp_all add: absorbed_def)
  from nullifier_chain [OF this, of perm] show ?thesis
    using assert_initD [OF az init st(1)] carried_absorb [OF az cap st(2) perm [OF st(1)]] by simp
qed

lemma wf_take: "state_ok s \<Longrightarrow> wf_digest (take 8 s)"
  by (auto simp: state_ok_def wf_digest_def digest_elems_def width_def canon_def dest: in_set_takeD)

text \<open>A hash row opens one note: commitment in block 4, nullifier in block 6, of the same key and nonce.\<close>

lemma hash_row_sound:
  assumes az: "asserts az" and perm: "\<And>s. state_ok s \<Longrightarrow> state_ok (perm s)" and st: "\<And>b. b < 8 \<Longrightarrow> state_ok (I b)"
    and h: "hash_row_eval az (\<lambda>b. (!) (I b)) (\<lambda>b. perm (I b))" and v: "take 4 (I 1) = value_limbs v"
  obtains n where "wf_input n" "in_value n = v" "take 8 (perm (I 4)) = input_cm perm n"
    "take 8 (perm (I 6)) = nullifier perm (in_nk n) (in_rho n)"
proof -
  let ?nk = "take 8 (I 0)" and ?rho = "absorbed (perm (I 2)) (I 3)" and ?r = "absorbed (perm (I 3)) (I 4)"
  have c: "assert_init az ((!) (I 0)) domain_owner 8" "list_all (\<lambda>j. az (I 1 ! j)) [4..<8]"
    "assert_init az ((!) (I 1)) domain_commitment 32"
    "lanes_eq az 0 8 ((!) (I 2)) (\<lambda>j. f_add (perm (I 1) ! j) (perm (I 0) ! j))"
    "lanes_eq az 8 16 ((!) (I 2)) ((!) (perm (I 1)))" "lanes_eq az 8 16 ((!) (I 3)) ((!) (perm (I 2)))"
    "lanes_eq az 8 16 ((!) (I 4)) ((!) (perm (I 3)))" "lanes_eq az 0 8 ((!) (I 5)) ((!) (I 0))"
    "assert_init az ((!) (I 5)) domain_nullifier 16" "lanes_eq az 8 16 ((!) (I 6)) ((!) (perm (I 5)))"
    "lanes_eq az 0 8 (\<lambda>j. f_sub (I 3 ! j) (perm (I 2) ! j)) (\<lambda>j. f_sub (I 6 ! j) (perm (I 5) ! j))"
    using h unfolding hash_row_eval_def by (simp_all add: spend_offs del: upt_rec_numeral)
  have sts: "state_ok (I b)" "state_ok (perm (I b))" if "b < 8" for b using st perm that by simp_all
  have cell: "I b ! j < babybear_p" "perm (I b) ! j < babybear_p" if "b < 8" "j < 16" for b j
    using sts [OF that(1)] that(2) by (simp_all add: state_cell)
  have len: "length (I b) = 16" "length (perm (I b)) = 16" if "b < 8" for b using sts [OF that] by (simp_all add: state_cell)
  have owner: "take 8 (perm (I 0)) = owner_key perm ?nk"
    using assert_initD [OF az c(1) sts(1)] owner_chain [of ?nk perm] len by simp
  have "absorbed (perm (I 1)) (I 2) = take 8 (perm (I 0))"
  proof (rule nth_equalityI)
    fix i assume "i < length (absorbed (perm (I 1)) (I 2))"
    then have i: "i < 8" by (simp add: absorbed_def)
    have "I 2 ! i = f_add (perm (I 1) ! i) (perm (I 0) ! i)"
      by (rule lanes_eqD [OF az c(4)]) (use i cell in simp_all)
    with i cell(2) [of 0 i] show "absorbed (perm (I 1)) (I 2) ! i = take 8 (perm (I 0)) ! i"
      by (simp add: absorbed_def f_sub_add)
  qed (use len in \<open>simp add: absorbed_def\<close>)
  then have cm: "take 8 (perm (I 4)) = note_commitment perm v (owner_key perm ?nk) ?rho ?r"
    using commitment_cells [OF az, where perm = perm and a = "I 1" and b = "I 2" and c = "I 3" and d = "I 4"]
      perm sts(1) c(2,3,5,6,7) v owner by simp
  have nk: "take 8 (I 5) = ?nk"
    using lanes_eqD [OF az c(8)] cell len by (intro nth_equalityI) simp_all
  have rho: "absorbed (perm (I 5)) (I 6) = ?rho"
    using lanes_eqD [OF az c(11)] by (intro nth_equalityI) (simp_all add: absorbed_def)
  have nf: "take 8 (perm (I 6)) = nullifier perm ?nk ?rho"
    using nullifier_cells [OF az, where perm = perm and a = "I 5" and b = "I 6"] perm sts(1) c(9,10) nk rho by simp
  show thesis
    by (rule that [of "\<lparr>in_value = v, in_nk = ?nk, in_rho = ?rho, in_r = ?r, in_index = 0\<rparr>"])
      (use cm nf wf_take [OF sts(1), of 0] in \<open>simp_all add: wf_input_def wf_absorbed input_cm_def\<close>)
qed

text \<open>The output row commits to two notes.\<close>

lemma output_row_sound:
  assumes az: "asserts az" and perm: "\<And>s. state_ok s \<Longrightarrow> state_ok (perm s)" and st: "\<And>b. b < 8 \<Longrightarrow> state_ok (I b)"
    and h: "output_row_eval az (\<lambda>b. (!) (I b)) (\<lambda>b. perm (I b))" and b: "b \<in> {0, 4}" and v: "take 4 (I b) = value_limbs v"
  obtains n where "wf_output n" "out_value n = v" "take 8 (perm (I (b + 3))) = output_cm perm n"
proof -
  have c: "list_all (\<lambda>j. az (I b ! j)) [4..<8]" "assert_init az ((!) (I b)) domain_commitment 32"
    "lanes_eq az 8 16 ((!) (I (b + 1))) ((!) (perm (I b)))" "lanes_eq az 8 16 ((!) (I (b + 2))) ((!) (perm (I (b + 1))))"
    "lanes_eq az 8 16 ((!) (I (b + 3))) ((!) (perm (I (b + 2))))"
    using h b unfolding output_row_eval_def by (auto simp add: spend_offs simp del: upt_rec_numeral)
  have sts: "state_ok (I b)" "state_ok (I (b + 1))" "state_ok (I (b + 2))" "state_ok (I (b + 3))" using st b by auto
  note cc = commitment_cells [OF az, where perm = perm, OF _ sts c v]
  from cc [OF perm] show thesis
    by (intro that [of "\<lparr>out_value = v, out_owner = absorbed (perm (I b)) (I (b + 1)),
          out_rho = absorbed (perm (I (b + 1))) (I (b + 2)), out_r = absorbed (perm (I (b + 2))) (I (b + 3))\<rparr>"])
      (simp_all add: wf_output_def wf_absorbed output_cm_def)
qed

section \<open>The amounts\<close>

lemma amounts_sound:
  assumes az: "asserts az" and cur: "length cur = row_w" "canon cur" and pv: "length pv = 44" "canon pv"
    and a: "amounts_eval az pv cur"
  obtains x where "\<And>v. v < 5 \<Longrightarrow> map (bus_limb cur v) [0..<4] = value_limbs (x v)" "drop 40 pv = value_limbs (x 4)"
    "unat (x 0) + unat (x 1) = unat (x 2) + unat (x 3) + unat (x 4)"
proof -
  have cell: "cur ! j < babybear_p" if "j < 2756" for j using cur that by (simp add: canon_nth spend_offs)
  have small: "bus_limb cur v j < 2 ^ 16" if "v < 5" "j < 4" for v j
  proof -
    have k: "v * 4 + j < 20" using that by simp
    have "range_limb az cur (2421 + k * 16) (cur ! (2401 + k))" if "k < 20" for k
      using a that by (simp add: amounts_eval_def spend_offs list_all_iff del: upt_rec_numeral)
    from this [OF k] have "range_limb az cur (2421 + (v * 4 + j) * 16) (bus_limb cur v j)"
      by (simp only: bus_limb_def spend_offs)
    moreover have "bus_limb cur v j < babybear_p" using cell k by (simp add: bus_limb_def spend_offs)
    moreover have "cur ! (2421 + (v * 4 + j) * 16 + i) < babybear_p" if "i < 16" for i using cell k that by simp
    ultimately show ?thesis by (rule range_limbD [OF az])
  qed
  have "\<exists>x. map (bus_limb cur v) [0..<4] = value_limbs x \<and> int (unat x) = limbs_int (bus_limb cur v)" if "v < 5" for v
  proof -
    have "\<forall>y \<in> set (map (bus_limb cur v) [0..<4]). y < 2 ^ 16" using small [OF that] by (auto simp del: upt_rec_numeral)
    from value_limbs_of_small [OF _ this] obtain x where
      "value_limbs x = map (bus_limb cur v) [0..<4]" "int (unat x) = limbs_int ((!) (map (bus_limb cur v) [0..<4]))"
      by (metis length_map length_upt minus_nat.diff_0)
    then show ?thesis by (intro exI [of _ x]) (simp add: limbs_int_def numeral_2_eq_2)
  qed
  then obtain x where x: "map (bus_limb cur v) [0..<4] = value_limbs (x v)" "int (unat (x v)) = limbs_int (bus_limb cur v)"
    if "v < 5" for v by metis
  have "limbs_int (bus_limb cur 0) + limbs_int (bus_limb cur 1) = limbs_int (bus_limb cur 2) + limbs_int (bus_limb cur 3) + limbs_int (bus_limb cur 4)"
    by (rule carry_chain_conserves [OF az _ small, where row = cur and off = carryb_col])
      (use a cell in \<open>simp_all add: amounts_eval_def spend_offs\<close>)
  with x have "int (unat (x 0) + unat (x 1)) = int (unat (x 2) + unat (x 3) + unat (x 4))" by simp
  then have "unat (x 0) + unat (x 1) = unat (x 2) + unat (x 3) + unat (x 4)" by (simp only: of_nat_eq_iff)
  moreover have "drop 40 pv = value_limbs (x 4)"
  proof (rule nth_equalityI)
    fix i assume i: "i < length (drop 40 pv)"
    then have "i < 4" using pv by simp
    moreover from this have "f_sub (cur ! (2417 + i)) (pv ! (40 + i)) = 0"
      using assertsD(1) [OF az] a by (simp add: amounts_eval_def spend_offs list_all_iff del: upt_rec_numeral)
    moreover have "value_limbs (x 4) ! i = map (bus_limb cur 4) [0..<4] ! i" by (simp only: x(1) [of 4] numeral_less_iff semiring_norm)
    then have "value_limbs (x 4) ! i = bus_limb cur 4 i" using \<open>i < 4\<close> by (simp del: upt_rec_numeral)
    ultimately show "drop 40 pv ! i = value_limbs (x 4) ! i"
      using f_sub_0_iff [of "cur ! (2417 + i)" "pv ! (40 + i)"] cell canon_nth [OF pv(2), of "40 + i"] pv(1)
      by (simp add: bus_limb_def spend_offs)
  qed (simp add: pv)
  ultimately show thesis using that x(1) by blast
qed

lemma distinct_sound:
  assumes az: "asserts az" and d: "distinct_eval az pv cur" and pv: "length pv = 44"
  shows "take 8 (drop 8 pv) \<noteq> take 8 (drop 16 pv)"
proof
  assume eq: "take 8 (drop 8 pv) = take 8 (drop 16 pv)"
  have "pv ! (8 + j) = pv ! (16 + j)" if "j < 8" for j
    using arg_cong [OF eq, of "\<lambda>xs. xs ! j"] that pv by simp
  then have diff: "f_sub (pv ! (8 + j)) (pv ! (16 + j)) = 0" if "j < 8" for j using that by (simp add: f_sub_def)
  have "fold (\<lambda>j acc. f_add acc (f_mul (cur ! (eneq_col + j)) (f_sub (pv ! (8 + j)) (pv ! (16 + j))))) xs 0 = 0"
    if "set xs \<subseteq> {..<8}" for xs
    using that by (induction xs) (simp_all add: diff f_add_def f_mul_def)
  moreover have "set [0..<8] \<subseteq> {..<8 :: nat}" by auto
  ultimately have "sel_diff pv cur = 0" by (simp only: sel_diff_def spend_offs)
  moreover have "f_sub (f_mul (sel_diff pv cur) (cur ! inv_col)) 1 = 0"
    using d assertsD(1) [OF az] by (simp add: distinct_eval_def)
  ultimately show False using f_sub_0_iff [of 0 1] p_group(4) by (simp add: f_mul_def)
qed

end
