(* ===== verification/SpendAirSound.thy ===== *)
theory SpendAirSound
  imports SpendSound
begin

section \<open>Rows of a satisfying trace\<close>

definition block_state :: "F list \<Rightarrow> nat \<Rightarrow> F list" where
  "block_state row b = take 16 (blk row b)"

lemma row_states:
  assumes L: "layers_ok L" and row: "length row = row_w" "canon row" and ok: "blocks_hold L row" and b: "b < 8"
  shows "state_ok (block_state row b)" "bout L row b = p2_permute L (block_state row b)"
    "state_ok (p2_permute L (block_state row b))" "j < 16 \<Longrightarrow> binp row b j = block_state row b ! j"
proof -
  have blk: "length (blk row b) = perm_width" "canon (blk row b)"
    using row b by (simp_all add: blk_def spend_offs canon_sub)
  moreover have "fst (eval_permutation L (perm_cols_of (blk row b)))"
    using ok b by (simp add: blocks_hold_def list_all_iff spend_offs)
  ultimately show "bout L row b = p2_permute L (block_state row b)" "state_ok (p2_permute L (block_state row b))"
    using permutation_columns [OF L] by (simp_all add: bout_def block_state_def spend_offs)
  show "state_ok (block_state row b)" using blk by (simp add: block_state_def state_ok_def spend_offs canon_sub)
  show "j < 16 \<Longrightarrow> binp row b j = block_state row b ! j"
    using row b by (simp add: binp_def block_state_def blk_def spend_offs)
qed

lemma block_holds: "blocks_hold L row \<Longrightarrow> b < 8 \<Longrightarrow> fst (eval_permutation L (perm_cols_of (blk row b)))"
  by (simp add: blocks_hold_def list_all_iff spend_offs)

lemma hash_row_cong:
  "(\<And>b j. b < 8 \<Longrightarrow> j < 16 \<Longrightarrow> inp b j = inp' b j) \<Longrightarrow> (\<And>b. b < 8 \<Longrightarrow> out b = out' b) \<Longrightarrow>
    hash_row_eval az inp out = hash_row_eval az inp' out'"
  by (simp add: hash_row_eval_def assert_init_def lanes_eq_def list_all_iff spend_offs)

lemma output_row_cong:
  "(\<And>b j. b < 8 \<Longrightarrow> j < 16 \<Longrightarrow> inp b j = inp' b j) \<Longrightarrow> (\<And>b. b < 8 \<Longrightarrow> out b = out' b) \<Longrightarrow>
    output_row_eval az inp out = output_row_eval az inp' out'"
  by (simp add: output_row_eval_def assert_init_def lanes_eq_def list_all_iff spend_offs)

lemma input_assembly_cong:
  "(\<And>j. j < 16 \<Longrightarrow> inp j = inp' j) \<Longrightarrow> input_assembly az inp c s b = input_assembly az inp' c s b"
  by (simp add: input_assembly_def list_all_iff spend_offs)

definition accepted_trace :: "poseidon2 \<Rightarrow> F list \<Rightarrow> F list list \<Rightarrow> bool" where
  "accepted_trace L pv trace \<longleftrightarrow> layers_ok L \<and> length pv = n_pub \<and> canon pv
     \<and> trace_shape n_rows row_w trace \<and> spend_holds L pv trace"

lemma accepted_traceD:
  assumes "accepted_trace L pv trace"
  shows "layers_ok L" "length pv = 44" "canon pv" "trace_shape n_rows row_w trace" "spend_holds L pv trace"
  using assms by (simp_all add: accepted_trace_def n_pub_def)

lemma tr_len:
  assumes T: "accepted_trace L pv trace"
  shows "length trace = 128"
  using accepted_traceD(4) [OF T] by (simp add: trace_shape_def spend_offs)

lemma tr_row:
  assumes T: "accepted_trace L pv trace"
  shows "i < 128 \<Longrightarrow> length (trace ! i) = row_w" "i < 128 \<Longrightarrow> canon (trace ! i)"
  using trace_cell(2) [OF accepted_traceD(4) [OF T]] by (simp_all add: spend_offs)

lemma tr_cell:
  assumes T: "accepted_trace L pv trace"
  shows "i < 128 \<Longrightarrow> j < 2756 \<Longrightarrow> trace ! i ! j < babybear_p"
  using tr_row [OF T] by (simp add: canon_nth spend_offs)

lemma tr_pv_cell:
  assumes T: "accepted_trace L pv trace"
  shows "j < 44 \<Longrightarrow> pv ! j < babybear_p"
  using accepted_traceD(2,3) [OF T] by (simp add: canon_nth)

lemma tr_eval:
  assumes T: "accepted_trace L pv trace"
  shows "i < 128 \<Longrightarrow> spend_eval L pv (schedule_trace ! i) (trace ! i) (trace ! ((i + 1) mod 128)) (f_flag (i = 0)) (f_flag (i \<noteq> 127))"
  using accepted_traceD(5) [OF T] by (simp add: spend_holds_def list_all_iff tr_len [OF T])

lemma tr_blocks:
  assumes T: "accepted_trace L pv trace"
  shows "i < 128 \<Longrightarrow> blocks_hold L (trace ! i)"
  using tr_eval [OF T, of i] by (simp add: spend_eval_def Let_def)

lemma tr_states:
  assumes T: "accepted_trace L pv trace" and "i < 128" "b < 8"
  shows "state_ok (block_state (trace ! i) b)" "bout L (trace ! i) b = p2_permute L (block_state (trace ! i) b)" "state_ok (p2_permute L (block_state (trace ! i) b))"
    "j < 16 \<Longrightarrow> binp (trace ! i) b j = block_state (trace ! i) b ! j"
  using row_states [OF accepted_traceD(1) [OF T] tr_row [OF T assms(2)] tr_blocks [OF T assms(2)] assms(3)] by simp_all

lemma tr_out_cell:
  assumes T: "accepted_trace L pv trace"
  shows "i < 128 \<Longrightarrow> b < 8 \<Longrightarrow> j < 16 \<Longrightarrow> p2_permute L (block_state (trace ! i) b) ! j < babybear_p"
  using tr_states(3) [OF T] by (simp add: state_cell)

text \<open>The value bus has one value in all rows.\<close>

lemma tr_bus_constant:
  assumes T: "accepted_trace L pv trace"
  shows "i < 128 \<Longrightarrow> k < 20 \<Longrightarrow> trace ! i ! (2401 + k) = trace ! 0 ! (2401 + k)"
proof (induction i)
  case (Suc i)
  then have "bus_constant (f_flag True) (trace ! i) (trace ! Suc i)"
    using tr_eval [OF T, of i] by (simp add: spend_eval_def Let_def)
  then have "when_eq (f_flag True) (trace ! Suc i ! (2401 + k)) (trace ! i ! (2401 + k))"
    using Suc.prems by (simp add: bus_constant_def list_all_iff spend_offs del: upt_rec_numeral)
  with Suc show ?case by (simp add: when_eq_flag tr_cell [OF T])
qed simp

lemma tr_bus_limbs:
  assumes T: "accepted_trace L pv trace"
  shows "i < 128 \<Longrightarrow> v < 5 \<Longrightarrow> map (bus_limb (trace ! i) v) [0..<4] = map (bus_limb (trace ! 0) v) [0..<4]"
  using tr_bus_constant [OF T, of i] by (simp add: bus_limb_def spend_offs del: upt_rec_numeral)

lemma tr_amounts:
  assumes T: "accepted_trace L pv trace"
  obtains x where "\<And>i v. i < 128 \<Longrightarrow> v < 5 \<Longrightarrow> map (bus_limb (trace ! i) v) [0..<4] = value_limbs (x v)"
    "drop 40 pv = value_limbs (x 4)" "unat (x 0) + unat (x 1) = unat (x 2) + unat (x 3) + unat (x 4)"
proof -
  have "amounts_eval (when_zero (f_flag True)) pv (trace ! 0)" using tr_eval [OF T, of 0] by (simp add: spend_eval_def Let_def)
  from amounts_sound [OF asserts_when tr_row [OF T] accepted_traceD(2,3) [OF T] this] that tr_bus_limbs [OF T] show thesis by (metis zero_less_numeral)
qed

lemma tr_nullifiers_distinct:
  assumes T: "accepted_trace L pv trace"
  shows "take 8 (drop 8 pv) \<noteq> take 8 (drop 16 pv)"
proof -
  have "distinct_eval (when_zero (f_flag True)) pv (trace ! 0)" using tr_eval [OF T, of 0] by (simp add: spend_eval_def Let_def)
  then show ?thesis by (rule distinct_sound [OF asserts_when _ accepted_traceD(2) [OF T]])
qed

text \<open>A row of a Merkle chain compresses its child with its sibling.\<close>

definition child_of :: "F list list \<Rightarrow> nat \<Rightarrow> digest" where
  "child_of trace i = digest_cells (\<lambda>j. trace ! i ! (child_col + j))"

definition sib_of :: "F list list \<Rightarrow> nat \<Rightarrow> digest" where
  "sib_of trace i = digest_cells (\<lambda>j. trace ! i ! (sib_col + j))"

definition row_bit :: "F list list \<Rightarrow> nat \<Rightarrow> nat" where
  "row_bit trace i = trace ! i ! bit_col"

lemma tr_sib_wf:
  assumes T: "accepted_trace L pv trace"
  shows "i < 128 \<Longrightarrow> wf_digest (sib_of trace i)"
  unfolding sib_of_def using tr_cell [OF T] by (intro digest_cells_wf) (simp add: spend_offs)

lemma tr_digest_of_out:
  assumes T: "accepted_trace L pv trace"
  shows "i < 128 \<Longrightarrow> b < 8 \<Longrightarrow> digest_cells ((!) (p2_permute L (block_state (trace ! i) b))) = take 8 (p2_permute L (block_state (trace ! i) b))"
  using tr_states(3) [OF T] by (simp add: digest_cells_take state_cell)

lemma tr_merkle_row:
  assumes T: "accepted_trace L pv trace" and i: "i < 128" and m: "1 \<le> i \<and> i \<le> 32 \<or> 34 \<le> i \<and> i \<le> 65"
  shows "row_bit trace i = 0 \<or> row_bit trace i = 1"
    "take 8 (p2_permute L (block_state (trace ! i) 0)) = (if row_bit trace i = 0 then compress (p2_permute L) (child_of trace i) (sib_of trace i) else compress (p2_permute L) (sib_of trace i) (child_of trace i))"
proof -
  have "input_assembly (when_zero (f_flag True)) (binp (trace ! i) 0) (\<lambda>j. trace ! i ! (child_col + j))
      (\<lambda>j. trace ! i ! (sib_col + j)) (trace ! i ! bit_col)"
    using tr_eval [OF T i] m by (simp add: spend_eval_def Let_def schedule_flags [OF i])
  then have a: "input_assembly (when_zero (f_flag True)) ((!) (take width (blk (trace ! i) 0))) (\<lambda>j. trace ! i ! (child_col + j))
      (\<lambda>j. trace ! i ! (sib_col + j)) (trace ! i ! bit_col)"
    using tr_states(4) [OF T i, of 0] by (subst input_assembly_cong [where inp' = "binp (trace ! i) 0"])
      (simp_all add: block_state_def spend_offs)
  have blk: "length (blk (trace ! i) 0) = perm_width" "canon (blk (trace ! i) 0)"
    "fst (eval_permutation L (perm_cols_of (blk (trace ! i) 0)))"
    using tr_row [OF T i] block_holds [OF tr_blocks [OF T i], of 0] by (simp_all add: blk_def spend_offs canon_sub)
  from merkle_step [OF accepted_traceD(1) [OF T] asserts_when blk a] tr_cell [OF T i] tr_states(2) [OF T i, of 0] tr_digest_of_out [OF T i, of 0]
  show "row_bit trace i = 0 \<or> row_bit trace i = 1"
    "take 8 (p2_permute L (block_state (trace ! i) 0)) = (if row_bit trace i = 0 then compress (p2_permute L) (child_of trace i) (sib_of trace i) else compress (p2_permute L) (sib_of trace i) (child_of trace i))"
    by (simp_all add: row_bit_def child_of_def sib_of_def bout_def spend_offs)
qed

lemma tr_links:
  assumes T: "accepted_trace L pv trace" and i: "i < 128" and j: "j < 8"
  shows "1 \<le> i \<and> i < 32 \<or> 34 \<le> i \<and> i < 65 \<Longrightarrow> p2_permute L (block_state (trace ! i) 0) ! j = trace ! Suc i ! (child_col + j)"
    "i = 32 \<or> i = 65 \<Longrightarrow> p2_permute L (block_state (trace ! i) 0) ! j = pv ! j"
    "i = 0 \<or> i = 33 \<Longrightarrow> p2_permute L (block_state (trace ! i) 4) ! j = trace ! Suc i ! (child_col + j)"
proof -
  let ?nxt = "trace ! ((i + 1) mod 128)"
  have "merkle_links (f_flag (1 \<le> i \<and> i < 32 \<or> 34 \<le> i \<and> i < 65)) (f_flag (i = 32 \<or> i = 65)) (f_flag (i = 0 \<or> i = 33)) pv ?nxt (bout L (trace ! i))"
    using tr_eval [OF T i] by (simp add: spend_eval_def Let_def schedule_flags [OF i])
  then have w: "when_eq (f_flag (1 \<le> i \<and> i < 32 \<or> 34 \<le> i \<and> i < 65)) (p2_permute L (block_state (trace ! i) 0) ! j) (?nxt ! (child_col + j))"
    "when_eq (f_flag (i = 32 \<or> i = 65)) (p2_permute L (block_state (trace ! i) 0) ! j) (pv ! j)"
    "when_eq (f_flag (i = 0 \<or> i = 33)) (p2_permute L (block_state (trace ! i) 4) ! j) (?nxt ! (child_col + j))"
    using j tr_states(2) [OF T i] by (simp_all add: merkle_links_def list_all_iff spend_offs del: upt_rec_numeral)
  have lt: "?nxt ! (child_col + j) < babybear_p" using tr_cell [OF T] j by (simp add: spend_offs)
  show "1 \<le> i \<and> i < 32 \<or> 34 \<le> i \<and> i < 65 \<Longrightarrow> p2_permute L (block_state (trace ! i) 0) ! j = trace ! Suc i ! (child_col + j)"
    using w(1) when_eq_flag [OF tr_out_cell [OF T i, of 0 j] lt] j by auto
  show "i = 32 \<or> i = 65 \<Longrightarrow> p2_permute L (block_state (trace ! i) 0) ! j = pv ! j"
    using w(2) when_eq_flag [OF tr_out_cell [OF T i, of 0 j] tr_pv_cell [OF T, of j]] j by auto
  show "i = 0 \<or> i = 33 \<Longrightarrow> p2_permute L (block_state (trace ! i) 4) ! j = trace ! Suc i ! (child_col + j)"
    using w(3) when_eq_flag [OF tr_out_cell [OF T i, of 4 j] lt] j by auto
qed

text \<open>The 32 rows behind a hash row are a path of the opened commitment to the public root.\<close>

lemma tr_membership:
  fixes k :: nat
  assumes T: "accepted_trace L pv trace" and k: "k = 0 \<or> k = 33"
  obtains idx sibs where "idx < 2 ^ depth" "length sibs = depth" "list_all wf_digest sibs"
    "path_fold (p2_permute L) (take 8 (p2_permute L (block_state (trace ! k) 4))) idx sibs = take 8 pv"
proof -
  define node where "node = (\<lambda>i. if i = k + 33 then take 8 pv else child_of trace i)"
  have k': "k < 128" using k by auto
  have first: "take 8 (p2_permute L (block_state (trace ! k) 4)) = node (k + 1)"
    using tr_links(3) [OF T k' _ k] tr_states(3) [OF T k', of 4]
    by (intro nth_equalityI) (simp_all add: node_def child_of_def state_cell)
  have step: "row_bit trace t = 0 \<or> row_bit trace t = 1"
    "node (Suc t) = (if row_bit trace t = 0 then compress (p2_permute L) (node t) (sib_of trace t) else compress (p2_permute L) (sib_of trace t) (node t))"
    if t: "k + 1 \<le> t" "t < k + 1 + 32" for t
  proof -
    have m: "t < 128" "1 \<le> t \<and> t \<le> 32 \<or> 34 \<le> t \<and> t \<le> 65" using t k by auto
    show "row_bit trace t = 0 \<or> row_bit trace t = 1" by (rule tr_merkle_row(1) [OF T m])
    have "node (Suc t) = take 8 (p2_permute L (block_state (trace ! t) 0))"
    proof (cases "t = k + 32")
      case True
      then have "t = 32 \<or> t = 65" using k by auto
      with True tr_links(2) [OF T m(1)] accepted_traceD(2) [OF T] tr_states(3) [OF T m(1), of 0] show ?thesis
        by (intro nth_equalityI) (simp_all add: node_def state_cell)
    next
      case False
      then have "1 \<le> t \<and> t < 32 \<or> 34 \<le> t \<and> t < 65" using k t by auto
      with False tr_links(1) [OF T m(1)] tr_states(3) [OF T m(1), of 0] show ?thesis
        by (intro nth_equalityI) (simp_all add: node_def child_of_def state_cell)
    qed
    with tr_merkle_row(2) [OF T m] t show
      "node (Suc t) = (if row_bit trace t = 0 then compress (p2_permute L) (node t) (sib_of trace t) else compress (p2_permute L) (sib_of trace t) (node t))"
      by (simp add: node_def)
  qed
  have "path_fold (p2_permute L) (node (k + 1)) (bits_index (map (row_bit trace) [k + 1..<k + 1 + 32])) (map (sib_of trace) [k + 1..<k + 1 + 32]) = node (k + 1 + 32)"
    by (rule path_fold_steps) (use step in auto)
  moreover have "bits_index (map (row_bit trace) [k + 1..<k + 1 + 32]) < 2 ^ depth"
    using bits_index_lt [of "map (row_bit trace) [k + 1..<k + 1 + 32]"] step(1) by (fastforce simp: depth_def)
  moreover have "list_all wf_digest (map (sib_of trace) [k + 1..<k + 1 + 32])" using k tr_sib_wf [OF T] by (auto simp: list_all_iff)
  ultimately show thesis
    by (intro that [of "bits_index (map (row_bit trace) [k + 1..<k + 1 + 32])" "map (sib_of trace) [k + 1..<k + 1 + 32]"])
      (simp_all add: first node_def depth_def)
qed

lemma tr_input_opened:
  fixes k :: nat
  assumes T: "accepted_trace L pv trace" and k: "k = 0 \<and> pub = 8 \<and> v = 0 \<or> k = 33 \<and> pub = 16 \<and> v = 1"
    and x: "map (bus_limb (trace ! k) v) [0..<4] = value_limbs x"
  obtains n path where "opens_to (p2_permute L) (take 8 pv) n path" "in_value n = x"
    "take 8 (drop pub pv) = nullifier (p2_permute L) (in_nk n) (in_rho n)"
proof -
  have i: "k < 128" and k': "k = 0 \<or> k = 33" using k by auto
  have "f_add (f_flag (k = 0)) (f_flag (k = 33)) = f_flag True"
    using k by (auto simp: f_flag_def f_add_def babybear_p_def)
  then have h: "hash_row_eval (when_zero (f_flag True)) (binp (trace ! k)) (bout L (trace ! k))"
    using tr_eval [OF T i] by (simp add: spend_eval_def Let_def schedule_flags [OF i])
  have "input_reveal (f_flag True) pub (4 * v) pv (trace ! k) (binp (trace ! k)) (bout L (trace ! k))"
    using tr_eval [OF T i] k by (auto simp add: spend_eval_def Let_def schedule_flags [OF i] spend_offs)
  then have r: "\<And>j. j < 8 \<Longrightarrow> when_eq (f_flag True) (p2_permute L (block_state (trace ! k) 6) ! j) (pv ! (pub + j))"
    and b: "\<And>j. j < 4 \<Longrightarrow> when_eq (f_flag True) (bus_limb (trace ! k) v j) (block_state (trace ! k) 1 ! j)"
    using tr_states(2,4) [OF T i] by (simp_all add: input_reveal_def bus_limb_def list_all_iff spend_offs add.assoc
        mult.commute [of v] del: upt_rec_numeral)
  have nf: "take 8 (drop pub pv) = take 8 (p2_permute L (block_state (trace ! k) 6))"
    using r when_eq_flag [of _ _ True] tr_out_cell [OF T i, of 6] tr_pv_cell [OF T] k accepted_traceD(2) [OF T] tr_states(3) [OF T i, of 6]
    by (intro nth_equalityI) (auto simp add: state_cell)
  have "map (bus_limb (trace ! k) v) [0..<4] = take 4 (block_state (trace ! k) 1)"
  proof (rule nth_equalityI)
    fix j assume "j < length (map (bus_limb (trace ! k) v) [0..<4])"
    then have j: "j < 4" by simp
    have "bus_limb (trace ! k) v j < babybear_p" using tr_cell [OF T i] j k by (auto simp: bus_limb_def spend_offs)
    with b [OF j] when_eq_flag [of _ _ True] j state_cell(1) [OF tr_states(1) [OF T i], of 1 j] show
      "map (bus_limb (trace ! k) v) [0..<4] ! j = take 4 (block_state (trace ! k) 1) ! j" by (simp del: upt_rec_numeral)
  qed (use tr_states(1) [OF T i, of 1] in \<open>simp add: state_cell\<close>)
  with x have v: "take 4 (block_state (trace ! k) 1) = value_limbs x" by simp
  have p: "state_ok ((p2_permute L) s)" if "state_ok s" for s
    using perm_ok_p2 [OF accepted_traceD(1) [OF T]] that unfolding perm_ok_def state_ok_def canon_def by blast
  have "hash_row_eval (when_zero (f_flag True)) (\<lambda>b. (!) (block_state (trace ! k) b)) (\<lambda>b. p2_permute L (block_state (trace ! k) b))"
    using h tr_states(2,4) [OF T i] by (subst hash_row_cong [where inp' = "binp (trace ! k)" and out' = "bout L (trace ! k)"]) simp_all
  from hash_row_sound [OF asserts_when p tr_states(1) [OF T i] this v] obtain n where
    n: "wf_input n" "in_value n = x" "take 8 (p2_permute L (block_state (trace ! k) 4)) = input_cm (p2_permute L) n"
      "take 8 (p2_permute L (block_state (trace ! k) 6)) = nullifier (p2_permute L) (in_nk n) (in_rho n)" by blast
  obtain idx sibs where path: "idx < 2 ^ depth" "length sibs = depth" "list_all wf_digest sibs"
    "path_fold (p2_permute L) (take 8 (p2_permute L (block_state (trace ! k) 4))) idx sibs = take 8 pv"
    by (rule tr_membership [OF T k'])
  let ?n = "n\<lparr>in_index := of_nat idx\<rparr>"
  have "unat (of_nat idx :: u64) = idx" using path(1) by (intro unat_of_nat_small) (simp add: depth_def)
  moreover have "input_cm (p2_permute L) ?n = input_cm (p2_permute L) n" by (simp add: input_cm_def)
  ultimately show thesis
    using n nf path by (intro that [of ?n "\<lparr>siblings = sibs, path_index = idx\<rparr>"])
      (simp_all add: opens_to_def wf_input_def root_from_path_def)
qed

lemma tr_output_opened:
  fixes b :: nat
  assumes T: "accepted_trace L pv trace" and b: "b = 0 \<and> pub = 24 \<and> v = 2 \<or> b = 4 \<and> pub = 32 \<and> v = 3"
    and x: "map (bus_limb (trace ! 66) v) [0..<4] = value_limbs x"
  obtains n where "wf_output n" "out_value n = x" "take 8 (drop pub pv) = output_cm (p2_permute L) n"
proof -
  have i: "66 < (128 :: nat)" and b': "b \<in> {0, 4}" and b8: "b < 8" "b + 3 < 8" using b by auto
  have h: "output_row_eval (when_zero (f_flag True)) (binp (trace ! 66)) (bout L (trace ! 66))"
    and "output_reveal (f_flag True) pv (trace ! 66) (binp (trace ! 66)) (bout L (trace ! 66))"
    using tr_eval [OF T i] by (simp_all add: spend_eval_def Let_def schedule_flags [OF i])
  then have r: "\<And>j. j < 8 \<Longrightarrow> when_eq (f_flag True) (p2_permute L (block_state (trace ! 66) (b + 3)) ! j) (pv ! (pub + j))"
    and bus: "\<And>j. j < 4 \<Longrightarrow> when_eq (f_flag True) (bus_limb (trace ! 66) v j) (block_state (trace ! 66) b ! j)"
    using b tr_states(2,4) [OF T i] by (auto simp add: output_reveal_def bus_limb_def list_all_iff spend_offs
        simp del: upt_rec_numeral)
  have cm: "take 8 (drop pub pv) = take 8 (p2_permute L (block_state (trace ! 66) (b + 3)))"
    using r when_eq_flag [of _ _ True] tr_out_cell [OF T i b8(2)] tr_pv_cell [OF T] b accepted_traceD(2) [OF T] tr_states(3) [OF T i b8(2)]
    by (intro nth_equalityI) (auto simp add: state_cell)
  have "map (bus_limb (trace ! 66) v) [0..<4] = take 4 (block_state (trace ! 66) b)"
  proof (rule nth_equalityI)
    fix j assume "j < length (map (bus_limb (trace ! 66) v) [0..<4])"
    then have j: "j < 4" by simp
    have "bus_limb (trace ! 66) v j < babybear_p" using tr_cell [OF T i] j b by (auto simp: bus_limb_def spend_offs)
    with bus [OF j] when_eq_flag [of _ _ True] j state_cell(1) [OF tr_states(1) [OF T i b8(1)], of j] show
      "map (bus_limb (trace ! 66) v) [0..<4] ! j = take 4 (block_state (trace ! 66) b) ! j" by (simp del: upt_rec_numeral)
  qed (use tr_states(1) [OF T i b8(1)] in \<open>simp add: state_cell\<close>)
  with x have v: "take 4 (block_state (trace ! 66) b) = value_limbs x" by simp
  have p: "state_ok ((p2_permute L) s)" if "state_ok s" for s
    using perm_ok_p2 [OF accepted_traceD(1) [OF T]] that unfolding perm_ok_def state_ok_def canon_def by blast
  have "output_row_eval (when_zero (f_flag True)) (\<lambda>b. (!) (block_state (trace ! 66) b)) (\<lambda>b. p2_permute L (block_state (trace ! 66) b))"
    using h tr_states(2,4) [OF T i] by (subst output_row_cong [where inp' = "binp (trace ! 66)" and out' = "bout L (trace ! 66)"]) simp_all
  from output_row_sound [OF asserts_when p tr_states(1) [OF T i] this b' v] cm that show thesis by metis
qed


text \<open>
  What an accepted trace proves: its public values are the root, nullifiers, output commitments and fee of
  a valid spend. Both inputs are notes under the root whose keys the prover knows, the nullifiers are theirs
  and differ, and the amounts balance over the integers.
\<close>

lemma spend_air_sound:
  assumes T: "accepted_trace L pv trace"
  shows "\<exists>root ip0 ip1 out0 out1 fee. pv = spend_pis (p2_permute L) root (fst ip0) (fst ip1) out0 out1 fee
    \<and> valid_spend (p2_permute L) root ip0 ip1 out0 out1 fee"
proof -
  let ?perm = "p2_permute L"
  obtain x where x: "\<And>i v. i < 128 \<Longrightarrow> v < 5 \<Longrightarrow> map (bus_limb (trace ! i) v) [0..<4] = value_limbs (x v)"
    and fee: "drop 40 pv = value_limbs (x 4)" and sum: "unat (x 0) + unat (x 1) = unat (x 2) + unat (x 3) + unat (x 4)"
    using tr_amounts [OF T] by metis
  obtain n0 p0 where i0: "opens_to ?perm (take 8 pv) n0 p0" "in_value n0 = x 0"
    "take 8 (drop 8 pv) = nullifier ?perm (in_nk n0) (in_rho n0)"
    by (rule tr_input_opened [OF T _ x [of 0 0], of 8]) simp_all
  obtain n1 p1 where i1: "opens_to ?perm (take 8 pv) n1 p1" "in_value n1 = x 1"
    "take 8 (drop 16 pv) = nullifier ?perm (in_nk n1) (in_rho n1)"
    by (rule tr_input_opened [OF T _ x [of 33 1], of 16]) simp_all
  obtain o0 where o0: "wf_output o0" "out_value o0 = x 2" "take 8 (drop 24 pv) = output_cm ?perm o0"
    by (rule tr_output_opened [OF T _ x [of 66 2], of 0 24]) simp_all
  obtain o1 where o1: "wf_output o1" "out_value o1 = x 3" "take 8 (drop 32 pv) = output_cm ?perm o1"
    by (rule tr_output_opened [OF T _ x [of 66 3], of 4 32]) simp_all
  have split: "pv = take 8 pv @ take 8 (drop 8 pv) @ take 8 (drop 16 pv) @ take 8 (drop 24 pv) @ take 8 (drop 32 pv) @ drop 40 pv"
    using append_take_drop_id [of 8 pv] append_take_drop_id [of 8 "drop 8 pv"] append_take_drop_id [of 8 "drop 16 pv"]
      append_take_drop_id [of 8 "drop 24 pv"] append_take_drop_id [of 8 "drop 32 pv"] by (simp add: drop_drop)
  then have "pv = spend_pis ?perm (take 8 pv) n0 n1 o0 o1 (x 4)"
    unfolding spend_pis_def using i0(3) i1(3) o0(3) o1(3) fee by metis
  moreover have "valid_spend ?perm (take 8 pv) (n0, p0) (n1, p1) o0 o1 (x 4)"
    using i0 i1 o0 o1 sum tr_nullifiers_distinct [OF T] by (simp add: valid_spend_def)
  ultimately show ?thesis by (metis fst_conv)
qed

end
