(* ===== verification/SpendTrace.thy ===== *)
theory SpendTrace
  imports SpendAirSound
begin

text \<open>
  Trace generation of the spend circuit (\<^verbatim>\<open>build_spend_trace_with_paths\<close>) and its completeness: the honest
  trace of a valid spend satisfies every constraint. The columns of a permutation block come from the
  external generator \<open>g\<close>, the inverse from the external \<open>try_inverse\<close>; the panics are \<open>None\<close>.
\<close>

section \<open>Trace generation\<close>

definition fill_blocks :: "(F list \<Rightarrow> F list) \<Rightarrow> F list list \<Rightarrow> F list" where
  "fill_blocks g inputs = concat (map g inputs)"

definition spend_row :: "(F list \<Rightarrow> F list) \<Rightarrow> F list list \<Rightarrow> digest \<Rightarrow> digest \<Rightarrow> F \<Rightarrow> F list \<Rightarrow> F list \<Rightarrow> F list" where
  "spend_row g ins child sib b bus rest = fill_blocks g ins @ child @ sib @ [b] @ bus @ rest"

definition dummy :: "F list" where
  "dummy = replicate width 0"

definition no_digest :: digest where
  "no_digest = replicate digest_elems 0"

definition rest_w :: nat where
  "rest_w = n_range_bits + 2 * n_carries + digest_elems + 1"

definition no_rest :: "F list" where
  "no_rest = replicate rest_w 0"

definition commitment_inputs :: "perm \<Rightarrow> u64 \<Rightarrow> digest \<Rightarrow> digest \<Rightarrow> digest \<Rightarrow> F list list" where
  "commitment_inputs perm v owner rho r =
     (let b0 = absorb (sponge_init domain_commitment (4 * digest_elems)) (value_limbs v);
          b1 = absorb (perm b0) owner;
          b2 = absorb (perm b1) rho;
          b3 = absorb (perm b2) r
      in [b0, b1, b2, b3])"

definition hash_row_inputs :: "perm \<Rightarrow> input_note \<Rightarrow> F list list" where
  "hash_row_inputs perm n =
     (let b0 = absorb (sponge_init domain_owner digest_elems) (in_nk n);
          b5 = absorb (sponge_init domain_nullifier (2 * digest_elems)) (in_nk n);
          b6 = absorb (perm b5) (in_rho n)
      in b0 # commitment_inputs perm (in_value n) (owner_key perm (in_nk n)) (in_rho n) (in_r n) @ [b5, b6, dummy])"

definition output_row_inputs :: "perm \<Rightarrow> output_note \<Rightarrow> output_note \<Rightarrow> F list list" where
  "output_row_inputs perm out0 out1 =
     commitment_inputs perm (out_value out0) (out_owner out0) (out_rho out0) (out_r out0)
     @ commitment_inputs perm (out_value out1) (out_owner out1) (out_rho out1) (out_r out1)"

fun spend_merkle_rows :: "(F list \<Rightarrow> F list) \<Rightarrow> perm \<Rightarrow> F list \<Rightarrow> digest \<Rightarrow> nat \<Rightarrow> digest list \<Rightarrow> F list list" where
  "spend_merkle_rows g perm bus child idx [] = []"
| "spend_merkle_rows g perm bus child idx (sib # sibs) =
     (let b = idx AND 1;
          input = (if b = 0 then child @ sib else sib @ child)
      in spend_row g (input # replicate 7 dummy) child sib b bus no_rest
         # spend_merkle_rows g perm bus (take digest_elems (perm input)) (idx div 2) sibs)"

definition first_diff :: "digest \<Rightarrow> digest \<Rightarrow> nat" where
  "first_diff a b = (case find (\<lambda>j. a ! j \<noteq> b ! j) [0..<digest_elems] of Some j \<Rightarrow> j | None \<Rightarrow> 0)"

definition first_rest :: "u64 list \<Rightarrow> int list \<Rightarrow> nat \<Rightarrow> F \<Rightarrow> F list" where
  "first_rest amounts carries kdiff iv =
     concat (map (\<lambda>v. concat (map (limb_bit_cells v) [0..<n_limbs])) amounts)
     @ concat (map carry_cells carries) @ no_digest [kdiff := 1] @ [iv]"

definition spend_rows :: "(F list \<Rightarrow> F list) \<Rightarrow> perm \<Rightarrow> input_note \<times> merkle_path \<Rightarrow> input_note \<times> merkle_path \<Rightarrow>
    output_note \<Rightarrow> output_note \<Rightarrow> F list \<Rightarrow> F list \<Rightarrow> F list list" where
  "spend_rows g perm ip0 ip1 out0 out1 bus rest =
     (let plain = (\<lambda>ins. spend_row g ins no_digest no_digest 0 bus);
          chain = (\<lambda>(n, path). spend_merkle_rows g perm bus (input_cm perm n) (unat (in_index n)) (siblings path))
      in [plain (hash_row_inputs perm (fst ip0)) rest] @ chain ip0
       @ [plain (hash_row_inputs perm (fst ip1)) no_rest] @ chain ip1
       @ [plain (output_row_inputs perm out0 out1) no_rest]
       @ replicate (n_rows - (output_row + 1)) (plain (replicate nb dummy) no_rest))"

definition build_spend_trace_with_paths :: "(F list \<Rightarrow> F list) \<Rightarrow> (F \<Rightarrow> F option) \<Rightarrow> perm \<Rightarrow> input_note \<times> merkle_path \<Rightarrow>
    input_note \<times> merkle_path \<Rightarrow> digest \<Rightarrow> output_note \<Rightarrow> output_note \<Rightarrow> u64 \<Rightarrow> (F list list \<times> F list) option" where
  "build_spend_trace_with_paths g invf perm ip0 ip1 root out0 out1 fee =
     (let amounts = [in_value (fst ip0), in_value (fst ip1), out_value out0, out_value out1, fee];
          nf = (\<lambda>n. nullifier perm (in_nk n) (in_rho n));
          kdiff = first_diff (nf (fst ip0)) (nf (fst ip1))
      in if root_from_path perm (input_cm perm (fst ip0)) (snd ip0) \<noteq> root
            \<or> root_from_path perm (input_cm perm (fst ip1)) (snd ip1) \<noteq> root then None
      else case compute_carries amounts of None \<Rightarrow> None
      | Some carries \<Rightarrow>
        (case invf (f_sub (nf (fst ip0) ! kdiff) (nf (fst ip1) ! kdiff)) of None \<Rightarrow> None
         | Some i \<Rightarrow> Some (spend_rows g perm ip0 ip1 out0 out1 (concat (map value_limbs amounts))
               (first_rest amounts carries kdiff i),
             spend_pis perm root (fst ip0) (fst ip1) out0 out1 fee)))"

text \<open>The wrapper for a caller that holds the whole tree.\<close>

definition build_spend_trace :: "(F list \<Rightarrow> F list) \<Rightarrow> (F \<Rightarrow> F option) \<Rightarrow> perm \<Rightarrow> input_note \<Rightarrow> input_note \<Rightarrow> note_tree \<Rightarrow>
    output_note \<Rightarrow> output_note \<Rightarrow> u64 \<Rightarrow> (F list list \<times> F list) option" where
  "build_spend_trace g invf perm in0 in1 tree out0 out1 fee =
     (case (authentication_path perm tree (unat (in_index in0)), authentication_path perm tree (unat (in_index in1))) of
        (Some p0, Some p1) \<Rightarrow> build_spend_trace_with_paths g invf perm (in0, p0) (in1, p1) (nt_root perm tree) out0 out1 fee
      | _ \<Rightarrow> None)"

section \<open>Cells of a generated row\<close>

definition row_args_ok :: "F list list \<Rightarrow> digest \<Rightarrow> digest \<Rightarrow> F \<Rightarrow> F list \<Rightarrow> F list \<Rightarrow> bool" where
  "row_args_ok ins child sib b bus rest \<longleftrightarrow> length ins = 8 \<and> list_all state_ok ins \<and> wf_digest child \<and> wf_digest sib
     \<and> b < babybear_p \<and> length bus = 20 \<and> canon bus \<and> length rest = 335 \<and> canon rest"

lemma spend_row_cells:
  assumes L: "layers_ok L" and g: "trace_gen_ok L g" and a: "row_args_ok ins child sib b bus rest"
  defines "row \<equiv> spend_row g ins child sib b bus rest"
  shows "length row = row_w" "canon row" "blocks_hold L row"
    "k < 8 \<Longrightarrow> bout L row k = p2_permute L (ins ! k)"
    "k < 8 \<Longrightarrow> j < 16 \<Longrightarrow> binp row k j = ins ! k ! j"
    "j < 8 \<Longrightarrow> row ! (child_col + j) = child ! j" "j < 8 \<Longrightarrow> row ! (sib_col + j) = sib ! j" "row ! bit_col = b"
    "j < 355 \<Longrightarrow> row ! (bus_col + j) = (bus @ rest) ! j"
proof -
  have ins: "length ins = 8" "\<And>s. s \<in> set ins \<Longrightarrow> state_ok s" using a by (simp_all add: row_args_ok_def list_all_iff)
  have gen: "length (g s) = 298" "canon (g s)" "take 16 (g s) = s" "fst (eval_permutation L (perm_cols_of (g s)))"
    "snd (eval_permutation L (perm_cols_of (g s))) = p2_permute L s" if "state_ok s" for s
    using g that permutation_columns(1) [OF L, of "g s"] by (simp_all add: trace_gen_ok_def spend_offs)
  have l: "\<forall>xs \<in> set (map g ins). length xs = 298" using ins gen(1) by auto
  have fb: "length (fill_blocks g ins) = 2384" using length_concat_blocks [OF l] ins(1) by (simp add: fill_blocks_def)
  have d: "length child = 8" "length sib = 8" "length bus = 20" "length rest = 335"
    using a by (simp_all add: row_args_ok_def wf_digest_def digest_elems_def)
  show lenrow: "length row = row_w" by (simp add: row_def spend_row_def fb d spend_offs)
  show "canon row" using a ins gen(2)
    by (auto simp: row_def spend_row_def fill_blocks_def row_args_ok_def wf_digest_def canon_def)
  have blk: "blk row k = g (ins ! k)" if "k < 8" for k
  proof (rule nth_equalityI)
    have s: "state_ok (ins ! k)" using ins that by simp
    show "length (blk row k) = length (g (ins ! k))" using gen(1) [OF s] that
      by (simp add: blk_def row_def spend_row_def fb d spend_offs)
    fix i assume "i < length (blk row k)"
    then have i: "i < 298" using that by (simp add: blk_def spend_offs)
    have "k * 298 + i < 8 * 298" using that i by simp
    then have "blk row k ! i = fill_blocks g ins ! (k * 298 + i)"
      using i by (simp add: blk_def row_def spend_row_def fb spend_offs nth_append)
    also have "\<dots> = g (ins ! k) ! i"
      using nth_concat_blocks [OF l, of k i] that i ins(1) by (simp add: fill_blocks_def)
    finally show "blk row k ! i = g (ins ! k) ! i" .
  qed
  have s: "state_ok (ins ! k)" if "k < 8" for k using ins that by simp
  show "blocks_hold L row" using blk gen(4) s by (simp add: blocks_hold_def list_all_iff spend_offs)
  show "k < 8 \<Longrightarrow> bout L row k = p2_permute L (ins ! k)" using blk gen(5) s by (simp add: bout_def)
  show "k < 8 \<Longrightarrow> j < 16 \<Longrightarrow> binp row k j = ins ! k ! j"
  proof -
    assume k: "k < 8" "j < 16"
    have "binp row k j = blk row k ! j"
      using k lenrow by (simp add: binp_def blk_def spend_offs)
    also have "\<dots> = take 16 (g (ins ! k)) ! j" using k by (simp add: blk)
    finally show ?thesis using gen(3) [OF s [OF k(1)]] by simp
  qed
  show "j < 8 \<Longrightarrow> row ! (child_col + j) = child ! j" "j < 8 \<Longrightarrow> row ! (sib_col + j) = sib ! j" "row ! bit_col = b"
    "j < 355 \<Longrightarrow> row ! (bus_col + j) = (bus @ rest) ! j"
    by (simp_all add: row_def spend_row_def fb d spend_offs nth_append)
qed


section \<open>The constraint groups on honest inputs\<close>

lemma when_zero_off [simp]: "when_zero (f_flag False) x"
  by (simp add: when_zero_def f_flag_def assert_zero_def f_mul_def)

lemma groups_off [simp]:
  "hash_row_eval (when_zero (f_flag False)) inp out" "output_row_eval (when_zero (f_flag False)) inp out"
  "input_reveal (f_flag False) pub bus pv cur inp out" "output_reveal (f_flag False) pv cur inp out"
  "input_assembly (when_zero (f_flag False)) inp0 c s b" "amounts_eval (when_zero (f_flag False)) pv cur"
  "distinct_eval (when_zero (f_flag False)) pv cur" "bus_constant (f_flag False) cur nxt"
  by (simp_all add: hash_row_eval_def output_row_eval_def input_reveal_def output_reveal_def input_assembly_def
      amounts_eval_def distinct_eval_def bus_constant_def assert_init_def lanes_eq_def list_all_iff boolean_cell_def
      range_limb_def carry_bits_def limb_balance_def Let_def del: upt_rec_numeral)

lemma asserts_refl: "asserts az \<Longrightarrow> az (f_sub x x)" "asserts az \<Longrightarrow> az 0"
  by (simp_all add: asserts_def f_sub_def)

lemma lanes_eqI: "asserts az \<Longrightarrow> (\<And>j. from \<le> j \<Longrightarrow> j < til \<Longrightarrow> x j = y j) \<Longrightarrow> lanes_eq az from til x y"
  by (simp add: lanes_eq_def list_all_iff asserts_refl)

lemma lanes_absorb: "asserts az \<Longrightarrow> length s = 16 \<Longrightarrow> length c = 8 \<Longrightarrow> lanes_eq az 8 16 ((!) (absorb s c)) ((!) s)"
  by (rule lanes_eqI) (simp_all add: absorb_nth)

lemma absorb_limbs: "absorb (sponge_init tag len) (value_limbs v) = absorb (sponge_init tag len) (value_block v)"
proof (rule nth_equalityI)
  fix i assume "i < length (absorb (sponge_init tag len) (value_limbs v))"
  then have i: "i < 16" by (simp add: absorb_def)
  have l: "length (value_limbs v) = 4" by simp
  show "absorb (sponge_init tag len) (value_limbs v) ! i = absorb (sponge_init tag len) (value_block v) ! i"
    using i l by (auto simp: absorb_def nth_append value_block_def sponge_init_nth f_add_def digest_elems_def n_limbs_def)
qed (simp add: absorb_def)

lemma wf_value_block: "wf_digest (value_block v)"
  using canon_value_limbs [of v] by (auto simp: wf_digest_def value_block_def canon_def digest_elems_def n_limbs_def)

lemma take_init_absorb: "length c = 8 \<Longrightarrow> wf_digest c \<Longrightarrow> take 8 (absorb (sponge_init tag len) c) = c"
  by (intro nth_equalityI) (simp_all add: absorb_nth sponge_init_nth f_add_def wf_digest_def digest_elems_def)

lemma take_value_block: "take 4 (value_block v) = value_limbs v"
  by (simp add: value_block_def)

text \<open>The four blocks of a commitment.\<close>

lemma commitment_inputs_ok:
  assumes p: "\<And>s. state_ok s \<Longrightarrow> state_ok (perm s)" and wf: "wf_digest owner" "wf_digest rho" "wf_digest r"
    and az: "asserts az"
  obtains a b c d where "commitment_inputs perm v owner rho r = [a, b, c, d]" "state_ok a" "state_ok b" "state_ok c" "state_ok d"
    "take 8 (perm d) = note_commitment perm v owner rho r" "take 4 a = value_limbs v"
    "list_all (\<lambda>j. az (a ! j)) [4..<8]" "assert_init az ((!) a) domain_commitment 32"
    "b = absorb (perm a) owner" "c = absorb (perm b) rho" "d = absorb (perm c) r"
    "lanes_eq az 8 16 ((!) b) ((!) (perm a))" "lanes_eq az 8 16 ((!) c) ((!) (perm b))" "lanes_eq az 8 16 ((!) d) ((!) (perm c))"
proof -
  note l = wf [THEN wf_nth(2)]
  define a where "a = absorb (sponge_init domain_commitment 32) (value_block v)"
  define b where "b = absorb (perm a) owner"
  define c where "c = absorb (perm b) rho"
  define d where "d = absorb (perm c) r"
  have st: "state_ok a" "state_ok b" "state_ok c" "state_ok d"
    unfolding d_def c_def b_def a_def using p state_ok_absorb state_ok_init l length_value_block by simp_all
  note lp = st [THEN p, THEN state_cell(2)]
  have block: "take 8 a = value_block v" unfolding a_def by (rule take_init_absorb) (simp_all add: wf_value_block)
  then have "take 4 a = value_limbs v" using take_value_block [of v] take_take [of 4 8 a] by simp
  moreover have "a ! j = 0" if "j \<in> {4..<8}" for j
  proof -
    have "a ! j = take 8 a ! j" using that by simp
    then show ?thesis using that unfolding block by (auto simp: value_block_def nth_append digest_elems_def n_limbs_def)
  qed
  then have "list_all (\<lambda>j. az (a ! j)) [4..<8]"
    using asserts_refl(2) [OF az] by (simp add: list_all_iff del: upt_rec_numeral)
  moreover have "commitment_inputs perm v owner rho r = [a, b, c, d]"
    by (simp add: commitment_inputs_def Let_def spend_offs absorb_limbs a_def b_def c_def d_def)
  moreover have "take 8 (perm d) = note_commitment perm v owner rho r"
    by (simp add: commitment_chain [OF l] a_def b_def c_def d_def)
  moreover have "assert_init az ((!) a) domain_commitment 32" unfolding a_def by (rule assert_initI [OF az]) simp
  moreover have "lanes_eq az 8 16 ((!) b) ((!) (perm a))" "lanes_eq az 8 16 ((!) c) ((!) (perm b))"
    "lanes_eq az 8 16 ((!) d) ((!) (perm c))"
    unfolding b_def c_def d_def by (rule lanes_absorb [OF az lp(1) l(1)], fold b_def, rule lanes_absorb [OF az lp(2) l(2)],
      fold c_def, rule lanes_absorb [OF az lp(3) l(3)])
  ultimately show thesis using st that [of a b c d] by (simp add: b_def c_def d_def)
qed

lemma hash_row_complete:
  assumes p: "\<And>s. state_ok s \<Longrightarrow> state_ok (perm s)" and n: "wf_input n" and pok: "perm_ok perm" and az: "asserts az"
  defines "I \<equiv> hash_row_inputs perm n"
  shows "length I = 8" "list_all state_ok I" "hash_row_eval az (\<lambda>b. (!) (I ! b)) (\<lambda>b. perm (I ! b))"
    "take 4 (I ! 1) = value_limbs (in_value n)" "take 8 (perm (I ! 4)) = input_cm perm n"
    "take 8 (perm (I ! 6)) = nullifier perm (in_nk n) (in_rho n)"
proof -
  have wf: "wf_digest (in_nk n)" "wf_digest (in_rho n)" "wf_digest (in_r n)" using n by (simp_all add: wf_input_def)
  note l = wf [THEN wf_nth(2)]
  let ?owner = "owner_key perm (in_nk n)"
  have owner: "wf_digest ?owner" unfolding owner_key_def by (rule wf_hash_domain [OF pok])
  obtain a b c d where cm: "commitment_inputs perm (in_value n) ?owner (in_rho n) (in_r n) = [a, b, c, d]"
    "state_ok a" "state_ok b" "state_ok c" "state_ok d" "take 8 (perm d) = note_commitment perm (in_value n) ?owner (in_rho n) (in_r n)"
    "take 4 a = value_limbs (in_value n)" "list_all (\<lambda>j. az (a ! j)) [4..<8]" "assert_init az ((!) a) domain_commitment 32"
    "b = absorb (perm a) ?owner" "c = absorb (perm b) (in_rho n)" "d = absorb (perm c) (in_r n)"
    "lanes_eq az 8 16 ((!) b) ((!) (perm a))" "lanes_eq az 8 16 ((!) c) ((!) (perm b))" "lanes_eq az 8 16 ((!) d) ((!) (perm c))"
    by (rule commitment_inputs_ok [OF p owner wf(2,3) az])
  define e where "e = absorb (sponge_init domain_owner 8) (in_nk n)"
  define f where "f = absorb (sponge_init domain_nullifier 16) (in_nk n)"
  define h where "h = absorb (perm f) (in_rho n)"
  have I: "I = [e, a, b, c, d, f, h, dummy]"
    by (simp add: I_def hash_row_inputs_def Let_def cm(1) spend_offs e_def f_def h_def)
  have "state_ok dummy" by (simp add: dummy_def state_ok_def canon_def)
  moreover have "state_ok e" "state_ok f" "state_ok h"
    unfolding e_def f_def h_def by (intro state_ok_absorb state_ok_init p l)+
  ultimately have st: "state_ok e" "state_ok f" "state_ok h" "state_ok dummy" by simp_all
  show "length I = 8" "list_all state_ok I" using st cm(2-5) by (simp_all add: I)
  have out0: "take 8 (perm e) = ?owner" by (simp add: e_def owner_chain l)
  have pl: "length (perm a) = 16" "length (perm b) = 16" "length (perm f) = 16" "length (perm e) = 16"
    using p [THEN state_cell(2)] cm(2,3) st by simp_all
  have lo: "length ?owner = 8" using owner wf_nth(2) by simp
  have "f_add (perm a ! j) (perm e ! j) = b ! j" if "j < 8" for j
    using that arg_cong [OF out0, of "\<lambda>xs. xs ! j"] by (simp add: cm(10) absorb_nth pl lo)
  then have "lanes_eq az 0 8 ((!) b) (\<lambda>j. f_add (perm a ! j) (perm e ! j))"
    by (intro lanes_eqI [OF az]) simp
  moreover have "lanes_eq az 0 8 (\<lambda>j. f_sub (c ! j) (perm b ! j)) (\<lambda>j. f_sub (h ! j) (perm f ! j))"
    using wf_nth(1) [OF wf(2)] by (intro lanes_eqI [OF az]) (simp add: cm(11) h_def absorb_nth pl l f_sub_add)
  moreover have "f ! j = e ! j" if "j < 8" for j using that by (simp add: f_def e_def absorb_nth l sponge_init_nth)
  then have "lanes_eq az 0 8 ((!) f) ((!) e)" by (intro lanes_eqI [OF az]) simp
  moreover have "assert_init az ((!) e) domain_owner 8" "assert_init az ((!) f) domain_nullifier 16"
    unfolding e_def f_def by (rule assert_initI [OF az l(1)])+
  moreover have "lanes_eq az 8 16 ((!) h) ((!) (perm f))" unfolding h_def by (rule lanes_absorb [OF az pl(3) l(2)])
  ultimately show "hash_row_eval az (\<lambda>b. (!) (I ! b)) (\<lambda>b. perm (I ! b))"
    using cm(8,9,13-15) by (simp add: hash_row_eval_def I spend_offs del: upt_rec_numeral)
  show "take 4 (I ! 1) = value_limbs (in_value n)" "take 8 (perm (I ! 4)) = input_cm perm n" using cm(6,7) by (simp_all add: I input_cm_def)
  show "take 8 (perm (I ! 6)) = nullifier perm (in_nk n) (in_rho n)" by (simp add: I nullifier_chain l f_def h_def)
qed

lemma output_row_complete:
  assumes p: "\<And>s. state_ok s \<Longrightarrow> state_ok (perm s)" and n: "wf_output out0" "wf_output out1" and az: "asserts az"
  defines "I \<equiv> output_row_inputs perm out0 out1"
  shows "length I = 8" "list_all state_ok I" "output_row_eval az (\<lambda>b. (!) (I ! b)) (\<lambda>b. perm (I ! b))"
    "take 4 (I ! 0) = value_limbs (out_value out0)" "take 4 (I ! 4) = value_limbs (out_value out1)"
    "take 8 (perm (I ! 3)) = output_cm perm out0" "take 8 (perm (I ! 7)) = output_cm perm out1"
proof -
  have wf: "wf_digest (out_owner out0)" "wf_digest (out_rho out0)" "wf_digest (out_r out0)"
    "wf_digest (out_owner out1)" "wf_digest (out_rho out1)" "wf_digest (out_r out1)"
    using n by (simp_all add: wf_output_def)
  obtain a b c d where c0: "commitment_inputs perm (out_value out0) (out_owner out0) (out_rho out0) (out_r out0) = [a, b, c, d]"
    "state_ok a" "state_ok b" "state_ok c" "state_ok d" "take 8 (perm d) = output_cm perm out0"
    "take 4 a = value_limbs (out_value out0)" "list_all (\<lambda>j. az (a ! j)) [4..<8]" "assert_init az ((!) a) domain_commitment 32"
    "lanes_eq az 8 16 ((!) b) ((!) (perm a))" "lanes_eq az 8 16 ((!) c) ((!) (perm b))" "lanes_eq az 8 16 ((!) d) ((!) (perm c))"
    unfolding output_cm_def by (rule commitment_inputs_ok [OF p wf(1-3) az])
  obtain a' b' c' d' where c1: "commitment_inputs perm (out_value out1) (out_owner out1) (out_rho out1) (out_r out1) = [a', b', c', d']"
    "state_ok a'" "state_ok b'" "state_ok c'" "state_ok d'" "take 8 (perm d') = output_cm perm out1"
    "take 4 a' = value_limbs (out_value out1)" "list_all (\<lambda>j. az (a' ! j)) [4..<8]" "assert_init az ((!) a') domain_commitment 32"
    "lanes_eq az 8 16 ((!) b') ((!) (perm a'))" "lanes_eq az 8 16 ((!) c') ((!) (perm b'))" "lanes_eq az 8 16 ((!) d') ((!) (perm c'))"
    unfolding output_cm_def by (rule commitment_inputs_ok [OF p wf(4-6) az])
  have I: "I = [a, b, c, d, a', b', c', d']" by (simp add: I_def output_row_inputs_def c0(1) c1(1))
  show "output_row_eval az (\<lambda>b. (!) (I ! b)) (\<lambda>b. perm (I ! b))"
    using c0(8-) c1(8-) by (simp add: output_row_eval_def I spend_offs del: upt_rec_numeral)
  show "length I = 8" "list_all state_ok I" using c0(2-5) c1(2-5) by (simp_all add: I)
  show "take 4 (I ! 0) = value_limbs (out_value out0)" "take 4 (I ! 4) = value_limbs (out_value out1)"
    "take 8 (perm (I ! 3)) = output_cm perm out0" "take 8 (perm (I ! 7)) = output_cm perm out1"
    using c0(6,7) c1(6,7) by (simp_all add: I)
qed

end
