(* ===== verification/SpendComplete.thy ===== *)
theory SpendComplete
  imports SpendTrace
begin

text \<open>
  The honest trace satisfies the spend circuit, row by row, and the circuit is exact: its public values
  have a satisfying trace if and only if they come from a valid spend.
\<close>

section \<open>The first row\<close>

lemma asserts_sub: "asserts az \<Longrightarrow> az (f_sub a b) = assert_zero (f_sub a b)" "asserts az \<Longrightarrow> az (f_mul a b) = assert_zero (f_mul a b)"
  by (simp_all add: asserts_def assert_zero_def)

lemma range_limb_shift:
  assumes "asserts az" "\<And>i. i < 16 \<Longrightarrow> cur ! (base' + i) = row ! (base + i)"
  shows "range_limb az cur base' x = range_limb assert_zero row base x"
proof -
  have "bits_value cur base' = bits_value row base"
    unfolding bits_value_def by (rule fold_cong) (simp_all add: assms(2) limb_bits_def)
  then show ?thesis
    using assms by (simp add: range_limb_def boolean_cell_def asserts_sub list_all_iff limb_bits_def del: upt_rec_numeral)
qed

lemma amounts_complete:
  assumes az: "asserts az" and bal: "unat a + unat b = unat c + unat d + unat e"
    and carries: "compute_carries [a, b, c, d, e] = Some carries"
    and cells: "\<And>k. k < 346 \<Longrightarrow> cur ! (2401 + k) = balance_row [a, b, c, d, e] carries ! k"
    and pv: "\<And>j. j < 4 \<Longrightarrow> pv ! (40 + j) = value_limbs e ! j"
  shows "amounts_eval az pv cur"
proof -
  let ?row = "balance_row [a, b, c, d, e] carries" and ?pv = "concat (map value_limbs [a, b, c, d, e])"
  obtain row where "balance_trace a b c d e = Some ([row, row], ?pv)" and ev: "balance_eval row (f_flag True) ?pv"
    by (rule balance_trace_ok [OF bal])
  then have row: "row = ?row" by (simp add: balance_trace_def Let_def carries)
  have len: "length carries = 3" using carries by (auto simp: compute_carries_def balance_shape Let_def numeral_3_eq_3 split: if_splits)
  have r: "range_limb az cur (2421 + k * 16) (cur ! (2401 + k))" if k: "k < 20" for k
  proof -
    have "range_limb assert_zero row (bits_off + (v * n_limbs + j) * limb_bits) (row ! limb_col v j)" if "v < 5" "j < 4" for v j
      using ev that by (simp add: balance_eval_def list_all_iff balance_shape(1,2) del: upt_rec_numeral)
    from this [of "k div 4" "k mod 4"] k have "range_limb assert_zero row (20 + k * 16) (row ! k)" by (simp add: balance_shape)
    then show ?thesis
      using range_limb_shift [OF az, of cur "2421 + k * 16" row "20 + k * 16"] cells [of k] k
        cells [of "20 + k * 16 + i" for i] unfolding row by (simp add: add.assoc [symmetric])
  qed
  have cb: "carry_bits az cur 2741"
    using ev cells [of "340 + k" for k] az
    by (simp add: balance_eval_def carry_bits_def boolean_cell_def asserts_sub list_all_iff balance_shape row del: upt_rec_numeral)
  have ce: "carry_expr cur 2741 k = carry_expr row 340 k" if "k < 3" for k
    using cells [of "340 + 2 * k"] cells [of "341 + 2 * k"] that by (simp add: carry_expr_def row)
  have lim: "bus_limb cur v j = row ! limb_col v j" if "v < 5" "j < 4" for v j
    using cells [of "v * 4 + j"] that by (simp add: bus_limb_def spend_offs limb_col_def row)
  have lb: "limb_balance az (bus_limb cur) (carry_expr cur 2741) j" if j: "j < 4" for j
  proof -
    have "limb_balance assert_zero (\<lambda>v j. row ! limb_col v j) (carry_expr row 340) j"
      using ev j by (simp add: balance_eval_def list_all_iff balance_shape del: upt_rec_numeral)
    then show ?thesis using lim ce j
      by (cases "j = 0"; cases "j = 3") (simp_all add: limb_balance_def Let_def asserts_sub [OF az] balance_shape)
  qed
  have "value_limbs e ! j = cur ! (2417 + j)" if j: "j < 4" for j
    using balance_row_limb [of "[a, b, c, d, e]" carries 4 j] len j cells [of "16 + j"] by simp
  then have "az (f_sub (cur ! (2417 + j)) (pv ! (40 + j)))" if "j < 4" for j
    using that pv asserts_refl(1) [OF az] by simp
  with r cb lb show ?thesis by (simp add: amounts_eval_def spend_offs list_all_iff del: upt_rec_numeral)
qed

lemma first_diff_ok:
  assumes "length a = 8" "length b = 8" "a \<noteq> b"
  shows "first_diff a b < 8" "a ! first_diff a b \<noteq> b ! first_diff a b"
proof -
  have "\<exists>j \<in> set [0..<8]. a ! j \<noteq> b ! j"
  proof (rule ccontr)
    assume "\<not> ?thesis"
    then have "a ! j = b ! j" if "j < 8" for j using that by (simp del: upt_rec_numeral)
    with assms show False using nth_equalityI [of a b] by simp
  qed
  then obtain j where j: "find (\<lambda>j. a ! j \<noteq> b ! j) [0..<8] = Some j"
    by (metis (mono_tags, lifting) find_None_iff option.exhaust)
  then have "j < 8 \<and> a ! j \<noteq> b ! j" by (auto simp: find_Some_iff simp del: upt_rec_numeral)
  with j show "first_diff a b < 8" "a ! first_diff a b \<noteq> b ! first_diff a b" by (simp_all add: first_diff_def spend_offs)
qed

lemma one_hot_fold:
  assumes "\<And>j. j < n \<Longrightarrow> e j = (if j = k then 1 else 0)" "\<And>j. j < n \<Longrightarrow> d j < babybear_p"
  shows "fold (\<lambda>j acc. f_add acc (f_mul (e j) (d j))) [0..<n] 0 = (if k < n then d k else 0)"
  using assms by (induction n) (auto simp: f_add_def f_mul_def less_Suc_eq)

lemma distinct_complete:
  assumes az: "asserts az" and k: "k < 8" and e: "\<And>j. j < 8 \<Longrightarrow> cur ! (eneq_col + j) = (if j = k then 1 else 0)"
    and inv: "f_mul (f_sub (pv ! (8 + k)) (pv ! (16 + k))) (cur ! inv_col) = 1"
  shows "distinct_eval az pv cur"
proof -
  have p1: "1 < babybear_p" by (simp add: babybear_p_def)
  have m: "f_mul x 1 = x" if "x < babybear_p" for x using that by (simp add: f_mul_def)
  have "fold (\<lambda>j acc. f_add acc (f_mul (cur ! (eneq_col + j)) 1)) [0..<8] 0 = (if k < 8 then 1 else 0)"
    by (rule one_hot_fold) (use e p1 in auto)
  moreover have "fold (\<lambda>j acc. f_add acc (f_mul (cur ! (eneq_col + j)) 1)) [0..<8] 0 = fold (\<lambda>j acc. f_add acc (cur ! (eneq_col + j))) [0..<8] 0"
    by (rule fold_cong) (use e m p1 in auto)
  ultimately have "fold (\<lambda>j acc. f_add acc (cur ! (eneq_col + j))) [0..<8] 0 = 1" using k by simp
  moreover have "sel_diff pv cur = f_sub (pv ! (8 + k)) (pv ! (16 + k))"
    unfolding sel_diff_def spend_offs(18,19,20,27) using one_hot_fold [of 8 "\<lambda>j. cur ! (eneq_col + j)" k "\<lambda>j. f_sub (pv ! (8 + j)) (pv ! (16 + j))"] e k
    by (simp add: spend_offs del: upt_rec_numeral)
  moreover have "boolean_cell az (cur ! (eneq_col + j))" if "j < 8" for j
    using e [OF that] by (intro boolean_cellI [OF az]) simp
  ultimately show ?thesis
    using inv asserts_refl(1) [OF az] by (simp add: distinct_eval_def list_all_iff spend_offs del: upt_rec_numeral)
qed

section \<open>The rows of the honest trace\<close>

lemma spend_merkle_row:
  "t < length sibs \<Longrightarrow> spend_merkle_rows g perm bus c idx sibs ! t =
     (let n = path_fold perm c idx (take t sibs); b = path_bit idx t
      in spend_row g (swap_input b n (sibs ! t) # replicate 7 dummy) n (sibs ! t) b bus no_rest)"
proof (induction sibs arbitrary: c idx t)
  case (Cons s sibs)
  show ?case
  proof (cases t)
    case (Suc k)
    have "path_bit (idx div 2) k = path_bit idx t" by (simp add: path_bit_def Suc div_mult2_eq)
    with Cons Suc show ?thesis
      by (simp add: Let_def compress_def swap_input_def if_distrib cong: if_cong del: and_one_eq)
  qed (simp add: Let_def path_bit_def swap_input_def)
qed simp

lemma length_spend_merkle_rows [simp]: "length (spend_merkle_rows g perm bus c idx sibs) = length sibs"
  by (induction sibs arbitrary: c idx) (simp_all add: Let_def del: and_one_eq)

text \<open>The arguments of row \<open>i\<close>, as functions of the row index.\<close>

definition level_node :: "perm \<Rightarrow> input_note \<times> merkle_path \<Rightarrow> nat \<Rightarrow> digest" where
  "level_node perm ip t = path_fold perm (input_cm perm (fst ip)) (unat (in_index (fst ip))) (take t (siblings (snd ip)))"

definition chain_args :: "perm \<Rightarrow> input_note \<times> merkle_path \<Rightarrow> nat \<Rightarrow> digest \<times> digest \<times> nat" where
  "chain_args perm ip t = (level_node perm ip t, siblings (snd ip) ! t, path_bit (unat (in_index (fst ip))) t)"

definition row_args :: "perm \<Rightarrow> input_note \<times> merkle_path \<Rightarrow> input_note \<times> merkle_path \<Rightarrow> nat \<Rightarrow> digest \<times> digest \<times> nat" where
  "row_args perm ip0 ip1 i =
     (if 1 \<le> i \<and> i \<le> 32 then chain_args perm ip0 (i - 1)
      else if 34 \<le> i \<and> i \<le> 65 then chain_args perm ip1 (i - 34) else (no_digest, no_digest, 0))"

definition row_ins :: "perm \<Rightarrow> input_note \<times> merkle_path \<Rightarrow> input_note \<times> merkle_path \<Rightarrow> output_note \<Rightarrow> output_note \<Rightarrow> nat \<Rightarrow> F list list" where
  "row_ins perm ip0 ip1 out0 out1 i =
     (if i = 0 then hash_row_inputs perm (fst ip0) else if i = 33 then hash_row_inputs perm (fst ip1)
      else if i = 66 then output_row_inputs perm out0 out1
      else if i < 66 then (let (c, s, b) = row_args perm ip0 ip1 i in swap_input b c s # replicate 7 dummy)
      else replicate 8 dummy)"

definition row_rest :: "F list \<Rightarrow> nat \<Rightarrow> F list" where
  "row_rest rest i = (if i = 0 then rest else no_rest)"

lemma spend_rows_nth:
  assumes "length (siblings (snd ip0)) = 32" "length (siblings (snd ip1)) = 32"
    and trace_def: "trace = spend_rows g perm ip0 ip1 out0 out1 bus rest"
  shows "length trace = 128"
    "i < 128 \<Longrightarrow> trace ! i = (let (c, s, b) = row_args perm ip0 ip1 i
       in spend_row g (row_ins perm ip0 ip1 out0 out1 i) c s b bus (row_rest rest i))"
proof -
  show "length trace = 128"
    by (simp add: trace_def spend_rows_def Let_def split_beta assms(1,2) spend_offs row_offs)
  assume i: "i < 128"
  let ?chain = "\<lambda>(n, path). spend_merkle_rows g perm bus (input_cm perm n) (unat (in_index n)) (siblings path)"
  have chain: "?chain ip ! t = (let (c, s, b) = chain_args perm ip t
      in spend_row g (swap_input b c s # replicate 7 dummy) c s b bus no_rest)"
    if "t < 32" "length (siblings (snd ip)) = 32" for ip t
    using spend_merkle_row [of t "siblings (snd ip)"] that
    by (simp add: split_beta chain_args_def level_node_def Let_def)
  have len: "length (?chain ip0) = 32" "length (?chain ip1) = 32" using assms(1,2) by (simp_all add: split_beta)
  consider "i = 0" | "1 \<le> i \<and> i \<le> 32" | "i = 33" | "34 \<le> i \<and> i \<le> 65" | "i = 66" | "67 \<le> i" by linarith
  then show "trace ! i = (let (c, s, b) = row_args perm ip0 ip1 i
       in spend_row g (row_ins perm ip0 ip1 out0 out1 i) c s b bus (row_rest rest i))"
  proof cases
    case 2
    then obtain k where k: "i = Suc k" "k < 32" by (cases i) auto
    then have "trace ! i = ?chain ip0 ! k" using len by (simp add: trace_def spend_rows_def Let_def nth_append)
    with k chain [of k ip0] assms(1) show ?thesis
      by (simp add: row_args_def row_ins_def row_rest_def split_beta Let_def)
  next
    case 4
    define k where "k = i - 34"
    have k: "i = Suc (33 + k)" "k < 32" using 4 by (auto simp: k_def)
    then have "trace ! i = ?chain ip1 ! k" using len by (simp add: trace_def spend_rows_def Let_def nth_append)
    with k chain [of k ip1] assms(2) show ?thesis
      by (simp add: row_args_def row_ins_def row_rest_def split_beta Let_def)
  qed (use i len in \<open>auto simp add: trace_def spend_rows_def Let_def nth_append row_args_def row_ins_def row_rest_def
      spend_offs row_offs nth_Cons'\<close>)
qed


section \<open>Completeness\<close>

definition inverse_ok :: "(F \<Rightarrow> F option) \<Rightarrow> bool" where
  "inverse_ok invf \<longleftrightarrow> invf 0 = None
     \<and> (\<forall>x. x < babybear_p \<longrightarrow> x \<noteq> 0 \<longrightarrow> (\<exists>y. invf x = Some y \<and> y < babybear_p \<and> f_mul x y = 1))"

lemma inverse_exists: "\<exists>invf. inverse_ok invf"
proof -
  have "\<exists>r. (x = 0 \<longrightarrow> r = None) \<and> (x < babybear_p \<longrightarrow> x \<noteq> 0 \<longrightarrow> (\<exists>y. r = Some y \<and> y < babybear_p \<and> f_mul x y = 1))" for x
  proof (cases "x < babybear_p \<and> x \<noteq> 0")
    case True
    then obtain y where "y < babybear_p" "f_mul x y = 1" by (metis f_inverse)
    with True show ?thesis by (intro exI [of _ "Some y"]) simp
  qed (auto intro: exI [of _ None])
  then obtain f where "\<forall>x. (x = 0 \<longrightarrow> f x = None) \<and> (x < babybear_p \<longrightarrow> x \<noteq> 0 \<longrightarrow> (\<exists>y. f x = Some y \<and> y < babybear_p \<and> f_mul x y = 1))"
    using choice [of "\<lambda>x r. (x = 0 \<longrightarrow> r = None) \<and> (x < babybear_p \<longrightarrow> x \<noteq> 0 \<longrightarrow> (\<exists>y. r = Some y \<and> y < babybear_p \<and> f_mul x y = 1))"]
    by blast
  then show ?thesis unfolding inverse_ok_def by blast
qed

lemma state_ok_zeros: "state_ok dummy" by (simp add: dummy_def state_ok_def canon_def)

lemma wf_no_digest: "wf_digest no_digest" by (simp add: no_digest_def wf_digest_def digest_elems_def)

lemma input_cm_wf: "perm_ok perm \<Longrightarrow> wf_digest (input_cm perm n)"
  unfolding input_cm_def note_commitment_def by (rule wf_hash_domain)

lemma level_node_wf:
  assumes p: "perm_ok perm" and ip: "opens_to perm root (fst ip) (snd ip)"
  shows "wf_digest (level_node perm ip t)"
proof -
  have "list_all wf_digest (take t (siblings (snd ip)))" using ip by (auto simp: opens_to_def list_all_iff dest: in_set_takeD)
  then show ?thesis unfolding level_node_def by (rule wf_path_fold [OF p input_cm_wf [OF p]])
qed

lemma row_args_wf:
  assumes p: "perm_ok perm" and ip: "opens_to perm root (fst ip0) (snd ip0)" "opens_to perm root (fst ip1) (snd ip1)"
    and a: "row_args perm ip0 ip1 i = (c, s, b)"
  shows "wf_digest c" "wf_digest s" "b = 0 \<or> b = 1"
proof -
  have chain: "wf_digest c \<and> wf_digest s \<and> (b = 0 \<or> b = 1)"
    if "chain_args perm ip t = (c, s, b)" "opens_to perm root (fst ip) (snd ip)" "t < 32" for ip t
    using that path_bit_boolean level_node_wf [OF p that(2)]
    by (auto simp: chain_args_def opens_to_def list_all_iff depth_def)
  have "i - 1 < 32" if "1 \<le> i" "i \<le> 32" using that by simp
  moreover have "i - 34 < 32" if "34 \<le> i" "i \<le> 65" using that by simp
  ultimately have "wf_digest c \<and> wf_digest s \<and> (b = 0 \<or> b = 1)"
    using a chain [of ip0 "i - 1"] chain [of ip1 "i - 34"] ip wf_no_digest
    by (simp add: row_args_def split: if_splits)
  then show "wf_digest c" "wf_digest s" "b = 0 \<or> b = 1" by simp_all
qed

text \<open>The node entering row \<open>i\<close>, and the compression that leads to the next one.\<close>

lemma row_args_first:
  "fst (row_args perm ip0 ip1 1) = input_cm perm (fst ip0)" "fst (row_args perm ip0 ip1 34) = input_cm perm (fst ip1)"
  by (simp_all add: row_args_def chain_args_def level_node_def)

lemma chain_step:
  assumes ip: "opens_to perm root (fst ip) (snd ip)" and t: "t < 32" and a: "chain_args perm ip t = (c, s, b)"
  shows "take 8 (perm (swap_input b c s)) = (if t = 31 then root else fst (chain_args perm ip (Suc t)))"
proof -
  have len: "length (siblings (snd ip)) = 32" and idx: "path_index (snd ip) = unat (in_index (fst ip))"
    using ip by (simp_all add: opens_to_def depth_def)
  have "take 8 (perm (swap_input b c s)) = level_node perm ip (Suc t)"
    using path_fold_Suc [of t "siblings (snd ip)" perm "input_cm perm (fst ip)" "unat (in_index (fst ip))"] t a len
    by (simp add: level_node_def chain_args_def spend_offs)
  moreover have "level_node perm ip 32 = root"
    using ip len idx by (simp add: level_node_def opens_to_def root_from_path_def)
  ultimately show ?thesis using t by (simp add: chain_args_def)
qed

lemma merkle_row_step:
  assumes ip: "opens_to perm root (fst ip0) (snd ip0)" "opens_to perm root (fst ip1) (snd ip1)"
    and m: "1 \<le> i \<and> i \<le> 32 \<or> 34 \<le> i \<and> i \<le> 65" and a: "row_args perm ip0 ip1 i = (c, s, b)"
  shows "take 8 (perm (swap_input b c s)) = (if i = 32 \<or> i = 65 then root else fst (row_args perm ip0 ip1 (Suc i)))"
  using m
proof
  assume m: "1 \<le> i \<and> i \<le> 32"
  then obtain t where t: "i = Suc t" "t < 32" by (cases i) auto
  with a have "chain_args perm ip0 t = (c, s, b)" by (simp add: row_args_def)
  from chain_step [OF ip(1) t(2) this] t show ?thesis by (auto simp: row_args_def)
next
  assume m: "34 \<le> i \<and> i \<le> 65"
  define t where "t = i - 34"
  have t: "i = 34 + t" "t < 32" using m by (auto simp: t_def)
  with a have "chain_args perm ip1 t = (c, s, b)" by (simp add: row_args_def)
  from chain_step [OF ip(2) t(2) this] t show ?thesis by (auto simp: row_args_def)
qed

end
