(* ===== verification/SpendExact.thy ===== *)
theory SpendExact
  imports SpendComplete
begin

text \<open>The circuit is exact: satisfiable public values are those of valid spends.\<close>

lemma f_flag_add: "f_add (f_flag a) (f_flag b) = f_flag (a \<or> b)" if "\<not> (a \<and> b)"
  using that by (cases a; cases b) (simp_all add: f_flag_def f_add_def babybear_p_def)

lemma when_eqI: "(b \<Longrightarrow> x = y) \<Longrightarrow> when_eq (f_flag b) x y"
  by (cases b) simp_all

lemma take_nth: "take n xs = take n ys \<Longrightarrow> j < n \<Longrightarrow> xs ! j = ys ! j"
  by (metis nth_take)

definition merkle_at :: "nat \<Rightarrow> bool" where
  "merkle_at i \<longleftrightarrow> 1 \<le> i \<and> i \<le> 32 \<or> 34 \<le> i \<and> i \<le> 65"

text \<open>Rows given by their arguments satisfy the constraints when each kind of row meets its conditions.\<close>

lemma spend_holdsI:
  assumes L: "layers_ok L" and g: "trace_gen_ok L g" and len: "length trace = 128" and pv: "length pv = 44"
    and rows: "\<And>i. i < 128 \<Longrightarrow> trace ! i = spend_row g (ins i) (c i) (s i) (b i) bus (rest i)"
    and ok: "\<And>i. i < 128 \<Longrightarrow> row_args_ok (ins i) (c i) (s i) (b i) bus (rest i)"
    and hash: "\<And>i. i \<in> {0, 33} \<Longrightarrow> hash_row_eval (when_zero (f_flag True)) (\<lambda>k. (!) (ins i ! k)) (\<lambda>k. p2_permute L (ins i ! k))"
    and nf: "take 8 (p2_permute L (ins 0 ! 6)) = take 8 (drop 8 pv)" "take 8 (p2_permute L (ins 33 ! 6)) = take 8 (drop 16 pv)"
    and bus_in: "take 4 (ins 0 ! 1) = take 4 bus" "take 4 (ins 33 ! 1) = take 4 (drop 4 bus)"
    and outp: "output_row_eval (when_zero (f_flag True)) (\<lambda>k. (!) (ins 66 ! k)) (\<lambda>k. p2_permute L (ins 66 ! k))"
    and cmo: "take 8 (p2_permute L (ins 66 ! 3)) = take 8 (drop 24 pv)" "take 8 (p2_permute L (ins 66 ! 7)) = take 8 (drop 32 pv)"
    and bus_out: "take 4 (ins 66 ! 0) = take 4 (drop 8 bus)" "take 4 (ins 66 ! 4) = take 4 (drop 12 bus)"
    and swap: "\<And>i. merkle_at i \<Longrightarrow> ins i ! 0 = swap_input (b i) (c i) (s i) \<and> (b i = 0 \<or> b i = 1)"
    and chain: "\<And>i. merkle_at i \<Longrightarrow> i \<notin> {32, 65} \<Longrightarrow> take 8 (p2_permute L (ins i ! 0)) = take 8 (c (Suc i))"
    and anchor: "\<And>i. i \<in> {32, 65} \<Longrightarrow> take 8 (p2_permute L (ins i ! 0)) = take 8 pv"
    and leaf: "\<And>i. i \<in> {0, 33} \<Longrightarrow> take 8 (p2_permute L (ins i ! 4)) = take 8 (c (Suc i))"
    and first: "amounts_eval (when_zero (f_flag True)) pv (trace ! 0)" "distinct_eval (when_zero (f_flag True)) pv (trace ! 0)"
  shows "spend_holds L pv trace"
proof -
  have eval: "spend_eval L pv (schedule_trace ! i) (trace ! i) (trace ! ((i + 1) mod 128)) (f_flag (i = 0)) (f_flag (i \<noteq> 127))"
    if i: "i < 128" for i
  proof -
    let ?cur = "trace ! i" and ?nxt = "trace ! ((i + 1) mod 128)"
    note cells = spend_row_cells [OF L g ok [OF i], folded rows [OF i]]
    have i': "(i + 1) mod 128 < 128" by simp
    note nxt = spend_row_cells [OF L g ok [OF i'], folded rows [OF i']]
    have buslen: "length bus = 20" "length (ins i) = 8" using ok [OF i] by (simp_all add: row_args_ok_def)
    have hr: "hash_row_eval (when_zero (f_add (f_flag (i = 0)) (f_flag (i = 33)))) (binp ?cur) (bout L ?cur)"
    proof (cases "i \<in> {0, 33}")
      case True
      then have "f_add (f_flag (i = 0)) (f_flag (i = 33)) = f_flag True" by (subst f_flag_add) auto
      with hash [OF True] cells(4,5) show ?thesis
        by (subst hash_row_cong [where inp' = "\<lambda>k. (!) (ins i ! k)" and out' = "\<lambda>k. p2_permute L (ins i ! k)"]) simp_all
    qed (simp add: f_flag_add)
    have or: "output_row_eval (when_zero (f_flag (i = 66))) (binp ?cur) (bout L ?cur)"
    proof (cases "i = 66")
      case True
      with outp cells(4,5) show ?thesis
        by (subst output_row_cong [where inp' = "\<lambda>k. (!) (ins i ! k)" and out' = "\<lambda>k. p2_permute L (ins i ! k)"]) simp_all
    qed simp
    have cb: "?cur ! (bus_col + m + j) = drop m bus ! j" if "m + j < 20" for m j
      using cells(9) [of "m + j"] that buslen by (simp add: nth_append add.assoc)
    have ir: "input_reveal (f_flag (i = 0)) pub_nf0 bus_in0 pv ?cur (binp ?cur) (bout L ?cur)"
    proof (cases "i = 0")
      case True
      have "bout L ?cur 6 ! j = pv ! (8 + j)" if "j < 8" for j
        using that take_nth [OF nf(1) that] cells(4) [of 6] True pv by simp
      moreover have "?cur ! (bus_col + 0 + j) = binp ?cur 1 j" if "j < 4" for j
        using that take_nth [OF bus_in(1) that] cells(5) [of 1 j] True cb [of 0 j] by simp
      ultimately show ?thesis by (simp add: input_reveal_def list_all_iff spend_offs del: upt_rec_numeral)
    qed simp
    have ir': "input_reveal (f_flag (i = 33)) pub_nf1 bus_in1 pv ?cur (binp ?cur) (bout L ?cur)"
    proof (cases "i = 33")
      case True
      have "bout L ?cur 6 ! j = pv ! (16 + j)" if "j < 8" for j
        using that take_nth [OF nf(2) that] cells(4) [of 6] True pv by simp
      moreover have "?cur ! (bus_col + 4 + j) = binp ?cur 1 j" if "j < 4" for j
        using that take_nth [OF bus_in(2) that] cells(5) [of 1 j] True cb [of 4 j] by simp
      ultimately show ?thesis by (simp add: input_reveal_def list_all_iff spend_offs del: upt_rec_numeral)
    qed simp
    have orv: "output_reveal (f_flag (i = 66)) pv ?cur (binp ?cur) (bout L ?cur)"
    proof (cases "i = 66")
      case True
      have "bout L ?cur 3 ! j = pv ! (24 + j)" "bout L ?cur 7 ! j = pv ! (32 + j)" if "j < 8" for j
        using that take_nth [OF cmo(1) that] take_nth [OF cmo(2) that] cells(4) [of 3] cells(4) [of 7] True pv by simp_all
      moreover have "?cur ! (bus_col + 8 + j) = binp ?cur 0 j" "?cur ! (bus_col + 12 + j) = binp ?cur 4 j" if "j < 4" for j
        using that take_nth [OF bus_out(1) that] take_nth [OF bus_out(2) that] cells(5) [of 0 j] cells(5) [of 4 j] True
          cb [of 8 j] cb [of 12 j] by simp_all
      ultimately show ?thesis by (simp add: output_reveal_def list_all_iff spend_offs del: upt_rec_numeral)
    qed simp
    have ia: "input_assembly (when_zero (f_flag (merkle_at i))) (binp ?cur 0) (\<lambda>j. ?cur ! (child_col + j)) (\<lambda>j. ?cur ! (sib_col + j)) (?cur ! bit_col)"
    proof (cases "merkle_at i")
      case True
      have wf: "wf_digest (c i)" "wf_digest (s i)" using ok [OF i] by (simp_all add: row_args_ok_def)
      show ?thesis
        unfolding cells(8) using True swap [OF True] cells(5) [of 0] cells(6,7)
        by (intro input_assemblyI [OF _ _ wf]) (simp_all add: asserts_when swap_input_def)
    qed simp
    have ml: "merkle_links (f_flag (1 \<le> i \<and> i < 32 \<or> 34 \<le> i \<and> i < 65)) (f_flag (i = 32 \<or> i = 65)) (f_flag (i = 0 \<or> i = 33)) pv ?nxt (bout L ?cur)"
    proof -
      have "bout L ?cur 0 ! j = ?nxt ! (child_col + j)" if "1 \<le> i \<and> i < 32 \<or> 34 \<le> i \<and> i < 65" "j < 8" for j
        using that take_nth [OF chain [of i] that(2)] cells(4) [of 0] nxt(6) [OF that(2)] by (auto simp: merkle_at_def)
      moreover have "bout L ?cur 0 ! j = pv ! j" if "i = 32 \<or> i = 65" "j < 8" for j
        using that take_nth [OF anchor [of i] that(2)] cells(4) [of 0] by auto
      moreover have "bout L ?cur 4 ! j = ?nxt ! (child_col + j)" if "i = 0 \<or> i = 33" "j < 8" for j
        using that take_nth [OF leaf [of i] that(2)] cells(4) [of 4] nxt(6) [OF that(2)] by auto
      ultimately show ?thesis
        by (auto simp add: merkle_links_def list_all_iff spend_offs simp del: upt_rec_numeral intro!: when_eqI)
    qed
    have bc: "bus_constant (f_flag (i \<noteq> 127)) ?cur ?nxt"
      using cells(9) nxt(9) buslen by (simp add: bus_constant_def list_all_iff spend_offs nth_append del: upt_rec_numeral)
    have fs: "amounts_eval (when_zero (f_flag (i = 0))) pv ?cur" "distinct_eval (when_zero (f_flag (i = 0))) pv ?cur"
      using first by (cases "i = 0"; simp)+
    show ?thesis
      using cells(3) hr ir ir' or orv ia ml bc fs by (simp add: spend_eval_def Let_def schedule_flags [OF i] merkle_at_def)
  qed
  then show ?thesis by (simp add: spend_holds_def list_all_iff len)
qed


lemma spend_rows_shape:
  assumes L: "layers_ok L" and g: "trace_gen_ok L g" and len: "length trace = 128"
    and rows: "\<And>i. i < 128 \<Longrightarrow> trace ! i = spend_row g (ins i) (c i) (s i) (b i) bus (rest i)"
    and ok: "\<And>i. i < 128 \<Longrightarrow> row_args_ok (ins i) (c i) (s i) (b i) bus (rest i)"
  shows "trace_shape n_rows row_w trace"
proof -
  have "length (trace ! i) = row_w \<and> canon (trace ! i)" if "i < 128" for i
    using spend_row_cells(1,2) [OF L g ok [OF that]] rows [OF that] by simp
  then show ?thesis by (auto simp: trace_shape_def len n_rows_def in_set_conv_nth)
qed

text \<open>The rest of the first row: the widths and the cells that the transaction-wide constraints read.\<close>

lemma first_rest_cells:
  assumes vals: "length vals = 5" and carries: "length carries = 3" "\<forall>x \<in> set carries. -2 \<le> x \<and> x \<le> 1"
    and k: "k < 8" and iv: "iv < babybear_p"
  defines "rest \<equiv> first_rest vals carries k iv" and "bus \<equiv> concat (map value_limbs vals)"
  shows "length bus = 20" "canon bus" "length rest = 335" "canon rest"
    "j < 346 \<Longrightarrow> (bus @ rest) ! j = balance_row vals carries ! j"
    "j < 8 \<Longrightarrow> (bus @ rest) ! (346 + j) = (if j = k then 1 else 0)" "(bus @ rest) ! 354 = iv"
proof -
  note parts = balance_row_parts [OF vals carries(1)]
  have eq: "bus @ rest = balance_row vals carries @ no_digest [k := 1] @ [iv]"
    by (simp add: bus_def rest_def first_rest_def balance_row_def)
  have bl: "length (balance_row vals carries) = 346" using parts by (simp add: balance_row_def)
  show lb: "length bus = 20" using parts by (simp add: bus_def)
  have "length (bus @ rest) = 355" unfolding eq using bl by (simp add: no_digest_def digest_elems_def)
  with lb show "length rest = 335" by simp
  have "canon (no_digest [k := 1])"
    using p_group(4) by (auto simp: no_digest_def canon_def dest!: set_update_subset_insert [THEN subsetD])
  then have "canon (bus @ rest)" unfolding eq using canon_balance_row [OF carries(2)] iv by simp
  then show "canon bus" "canon rest" by simp_all
  show "j < 346 \<Longrightarrow> (bus @ rest) ! j = balance_row vals carries ! j" unfolding eq using bl by (simp add: nth_append)
  show "j < 8 \<Longrightarrow> (bus @ rest) ! (346 + j) = (if j = k then 1 else 0)"
    unfolding eq using bl k by (auto simp add: nth_append no_digest_def digest_elems_def nth_list_update simp del: upt_rec_numeral)
  show "(bus @ rest) ! 354 = iv" unfolding eq using bl by (simp add: nth_append no_digest_def digest_elems_def)
qed

lemma no_rest_ok: "length no_rest = 335" "canon no_rest"
  by (simp_all add: no_rest_def rest_w_def n_range_bits_def balance_shape digest_elems_def canon_def)

lemma row_ins_ok:
  assumes pok: "perm_ok perm" and ip: "opens_to perm root (fst ip0) (snd ip0)" "opens_to perm root (fst ip1) (snd ip1)"
    and outs: "wf_output out0" "wf_output out1"
  shows "length (row_ins perm ip0 ip1 out0 out1 i) = 8" "list_all state_ok (row_ins perm ip0 ip1 out0 out1 i)"
proof -
  have p: "state_ok (perm s)" if "state_ok s" for s
    using pok that unfolding perm_ok_def state_ok_def canon_def by blast
  have wfi: "wf_input (fst ip0)" "wf_input (fst ip1)" using ip by (simp_all add: opens_to_def)
  note h = hash_row_complete(1,2) [OF p wfi(1) pok asserts_assert_zero] hash_row_complete(1,2) [OF p wfi(2) pok asserts_assert_zero]
    output_row_complete(1,2) [where perm = perm, OF p outs asserts_assert_zero]
  obtain c s b where a: "row_args perm ip0 ip1 i = (c, s, b)" by (cases "row_args perm ip0 ip1 i")
  have "state_ok (swap_input b c s)" using row_args_wf [OF pok ip a] by (intro swap_input_state)
  then show "length (row_ins perm ip0 ip1 out0 out1 i) = 8" "list_all state_ok (row_ins perm ip0 ip1 out0 out1 i)"
    using h state_ok_zeros a by (simp_all add: row_ins_def Let_def list_all_iff)
qed

lemma spend_rows_hold:
  assumes L: "layers_ok L" and g: "trace_gen_ok L g" and root: "wf_digest root"
    and v: "valid_spend (p2_permute L) root ip0 ip1 out0 out1 fee"
    and vals: "vals = [in_value (fst ip0), in_value (fst ip1), out_value out0, out_value out1, fee]"
    and carries: "compute_carries vals = Some carries"
    and nf: "nf0 = nullifier (p2_permute L) (in_nk (fst ip0)) (in_rho (fst ip0))"
      "nf1 = nullifier (p2_permute L) (in_nk (fst ip1)) (in_rho (fst ip1))"
    and k: "k = first_diff nf0 nf1" and iv: "iv < babybear_p" "f_mul (f_sub (nf0 ! k) (nf1 ! k)) iv = 1"
    and bus: "bus = concat (map value_limbs vals)"
    and trace: "trace = spend_rows g (p2_permute L) ip0 ip1 out0 out1 bus (first_rest vals carries k iv)"
  shows "accepted_trace L (spend_pis (p2_permute L) root (fst ip0) (fst ip1) out0 out1 fee) trace"
proof -
  let ?perm = "p2_permute L"
  define pv where "pv = spend_pis ?perm root (fst ip0) (fst ip1) out0 out1 fee"
  have pok: "perm_ok ?perm" by (rule perm_ok_p2 [OF L])
  then have p: "state_ok (?perm s)" if "state_ok s" for s
    using that unfolding perm_ok_def state_ok_def canon_def by blast
  have ip: "opens_to ?perm root (fst ip0) (snd ip0)" "opens_to ?perm root (fst ip1) (snd ip1)"
    and outs: "wf_output out0" "wf_output out1" and nfs: "nf0 \<noteq> nf1"
    and bal: "unat (in_value (fst ip0)) + unat (in_value (fst ip1)) = unat (out_value out0) + unat (out_value out1) + unat fee"
    using v by (simp_all add: valid_spend_def nf)
  have wfi: "wf_input (fst ip0)" "wf_input (fst ip1)" and sibs: "length (siblings (snd ip0)) = 32" "length (siblings (snd ip1)) = 32"
    using ip by (simp_all add: opens_to_def depth_def)
  have nfwf: "wf_digest nf0" "wf_digest nf1" unfolding nf nullifier_def by (rule wf_hash_domain [OF pok])+
  have cmwf: "wf_digest (output_cm ?perm out0)" "wf_digest (output_cm ?perm out1)"
    unfolding output_cm_def note_commitment_def by (rule wf_hash_domain [OF pok])+
  note l8 = root [THEN wf_nth(2)] nfwf [THEN wf_nth(2)] cmwf [THEN wf_nth(2)]
  have pv_eq: "pv = root @ nf0 @ nf1 @ output_cm ?perm out0 @ output_cm ?perm out1 @ value_limbs fee"
    by (simp add: pv_def spend_pis_def nf)
  have pv: "length pv = n_pub" "canon pv"
    using l8 root nfwf cmwf canon_value_limbs by (auto simp: pv_eq n_pub_def wf_digest_def canon_def)
  have kd: "k < 8" "nf0 ! k \<noteq> nf1 ! k" using first_diff_ok [of nf0 nf1] l8 nfs k by simp_all
  obtain c1 c2 c3 where "compute_carries vals = Some [c1, c2, c3]" "\<forall>x \<in> {c1, c2, c3}. -2 \<le> x \<and> x \<le> 1"
    unfolding vals by (rule compute_carries_ok [OF bal])
  then have cl: "length carries = 3" "\<forall>x \<in> set carries. -2 \<le> x \<and> x \<le> 1" using carries by auto
  have vl: "length vals = 5" by (simp add: vals)
  note rest = first_rest_cells [OF vl cl kd(1) iv(1), folded bus]
  define ins where "ins = row_ins ?perm ip0 ip1 out0 out1"
  define c where "c = (\<lambda>i. fst (row_args ?perm ip0 ip1 i))"
  define s where "s = (\<lambda>i. fst (snd (row_args ?perm ip0 ip1 i)))"
  define b where "b = (\<lambda>i. snd (snd (row_args ?perm ip0 ip1 i)))"
  define rst where "rst = row_rest (first_rest vals carries k iv)"
  note nth = spend_rows_nth [OF sibs trace]
  have args: "row_args ?perm ip0 ip1 i = (c i, s i, b i)" for i by (simp add: c_def s_def b_def)
  have rows: "trace ! i = spend_row g (ins i) (c i) (s i) (b i) bus (rst i)" if "i < 128" for i
    using nth(2) [OF that] by (simp add: args ins_def rst_def)
  note wfa = row_args_wf [OF pok ip args]
  have ok: "row_args_ok (ins i) (c i) (s i) (b i) bus (rst i)" for i
  proof -
    have "b i < babybear_p" using wfa(3) [of i] p_group(4) by auto
    then show ?thesis
      using row_ins_ok [OF pok ip outs, of i] wfa(1,2) rest(1-4) no_rest_ok
      by (simp add: row_args_ok_def ins_def rst_def row_rest_def)
  qed
  have ins0: "ins 0 = hash_row_inputs ?perm (fst ip0)" "ins 33 = hash_row_inputs ?perm (fst ip1)"
    "ins 66 = output_row_inputs ?perm out0 out1" by (simp_all add: ins_def row_ins_def)
  have insm: "ins i ! 0 = swap_input (b i) (c i) (s i)" if "merkle_at i" for i
    using that by (auto simp add: ins_def row_ins_def args merkle_at_def Let_def)
  note h0 = hash_row_complete [OF p wfi(1) pok asserts_when, folded ins0] and h1 = hash_row_complete [OF p wfi(2) pok asserts_when, folded ins0]
    and o = output_row_complete [where perm = ?perm, OF p outs asserts_when, folded ins0]
  have c8: "take 8 (c i) = c i" for i using wfa(1) [of i] by (simp add: wf_digest_def digest_elems_def)
  have cm: "c 1 = input_cm ?perm (fst ip0)" "c 34 = input_cm ?perm (fst ip1)" by (simp_all only: c_def row_args_first)
  note step = merkle_row_step [OF ip _ args]
  have step': "take 8 (?perm (ins i ! 0)) = (if i = 32 \<or> i = 65 then root else c (Suc i))" if "merkle_at i" for i
    using step [of i] that insm [OF that] by (simp add: merkle_at_def c_def)
  have tb: "take 4 bus = value_limbs (in_value (fst ip0))" "take 4 (drop 4 bus) = value_limbs (in_value (fst ip1))"
    "take 4 (drop 8 bus) = value_limbs (out_value out0)" "take 4 (drop 12 bus) = value_limbs (out_value out1)"
    by (simp_all add: bus vals)
  have r0: "trace ! 0 ! (2401 + j) = (bus @ first_rest vals carries k iv) ! j" if "j < 355" for j
    using spend_row_cells(9) [OF L g ok [of 0] that] rows [of 0] by (simp add: rst_def row_rest_def spend_offs)
  have am: "amounts_eval (when_zero (f_flag True)) pv (trace ! 0)"
    using r0 rest(5) l8 carries unfolding vals
    by (intro amounts_complete [OF asserts_when bal]) (auto simp: pv_eq nth_append)
  have di: "distinct_eval (when_zero (f_flag True)) pv (trace ! 0)"
    using r0 rest(6,7) iv kd l8 r0 [of 354] r0 [of "346 + j" for j]
    by (intro distinct_complete [OF asserts_when kd(1)]) (auto simp: pv_eq nth_append spend_offs)
  have "spend_holds L pv trace"
  proof (rule spend_holdsI [OF L g nth(1) _ rows ok, where pv = pv])
    show "length pv = 44" using pv(1) by (simp add: n_pub_def)
    show "hash_row_eval (when_zero (f_flag True)) (\<lambda>k. (!) (ins i ! k)) (\<lambda>k. ?perm (ins i ! k))" if "i \<in> {0, 33}" for i
      using that h0(3) h1(3) by auto
    show "take 8 (?perm (ins i ! 0)) = take 8 (c (Suc i))" if "merkle_at i" "i \<notin> {32, 65}" for i
      using step' [OF that(1)] that(2) c8 by simp
    show "take 8 (?perm (ins i ! 0)) = take 8 pv" if "i \<in> {32, 65}" for i
      using step' [of i] that l8(1) by (auto simp: merkle_at_def pv_eq)
    show "take 8 (?perm (ins i ! 4)) = take 8 (c (Suc i))" if "i \<in> {0, 33}" for i
      using that h0(5) h1(5) cm c8 by auto
    show "ins i ! 0 = swap_input (b i) (c i) (s i) \<and> (b i = 0 \<or> b i = 1)" if "merkle_at i" for i
      using insm [OF that] wfa(3) by simp
  qed (use h0(4,6) h1(4,6) o(3-7) tb am di l8 in \<open>simp_all add: pv_eq nf\<close>)
  with L pv spend_rows_shape [OF L g nth(1) rows ok] show ?thesis
    by (simp add: accepted_trace_def pv_def)
qed


section \<open>The prover and the circuit\<close>

definition path_args_ok :: "input_note \<times> merkle_path \<Rightarrow> bool" where
  "path_args_ok ip \<longleftrightarrow> wf_input (fst ip) \<and> length (siblings (snd ip)) = depth \<and> list_all wf_digest (siblings (snd ip))
     \<and> path_index (snd ip) = unat (in_index (fst ip)) \<and> path_index (snd ip) < 2 ^ depth"

lemma opens_to_args: "opens_to perm root (fst ip) (snd ip) \<longleftrightarrow>
    path_args_ok ip \<and> root_from_path perm (input_cm perm (fst ip)) (snd ip) = root"
  by (auto simp: opens_to_def path_args_ok_def)

lemma spend_prover_lemma:
  assumes L: "layers_ok L" and g: "trace_gen_ok L g" and invf: "inverse_ok invf" and root: "wf_digest root"
    and args: "path_args_ok ip0" "path_args_ok ip1" "wf_output out0" "wf_output out1"
  shows "case build_spend_trace_with_paths g invf (p2_permute L) ip0 ip1 root out0 out1 fee of
      None \<Rightarrow> \<not> valid_spend (p2_permute L) root ip0 ip1 out0 out1 fee
    | Some (trace, pis) \<Rightarrow> valid_spend (p2_permute L) root ip0 ip1 out0 out1 fee
        \<and> pis = spend_pis (p2_permute L) root (fst ip0) (fst ip1) out0 out1 fee \<and> accepted_trace L pis trace"
proof -
  let ?perm = "p2_permute L"
  define nf0 where "nf0 = nullifier ?perm (in_nk (fst ip0)) (in_rho (fst ip0))"
  define nf1 where "nf1 = nullifier ?perm (in_nk (fst ip1)) (in_rho (fst ip1))"
  define vals where "vals = [in_value (fst ip0), in_value (fst ip1), out_value out0, out_value out1, fee]"
  let ?k = "first_diff nf0 nf1"
  have nfwf: "wf_digest nf0" "wf_digest nf1"
    unfolding nf0_def nf1_def nullifier_def by (rule wf_hash_domain [OF perm_ok_p2 [OF L]])+
  have build: "build_spend_trace_with_paths g invf ?perm ip0 ip1 root out0 out1 fee =
      (if root_from_path ?perm (input_cm ?perm (fst ip0)) (snd ip0) \<noteq> root
          \<or> root_from_path ?perm (input_cm ?perm (fst ip1)) (snd ip1) \<noteq> root then None
       else case compute_carries vals of None \<Rightarrow> None
       | Some carries \<Rightarrow> (case invf (f_sub (nf0 ! ?k) (nf1 ! ?k)) of None \<Rightarrow> None
         | Some i \<Rightarrow> Some (spend_rows g ?perm ip0 ip1 out0 out1 (concat (map value_limbs vals)) (first_rest vals carries ?k i),
             spend_pis ?perm root (fst ip0) (fst ip1) out0 out1 fee)))"
    unfolding build_spend_trace_with_paths_def Let_def nf0_def nf1_def vals_def ..
  have same: "invf (f_sub (nf0 ! ?k) (nf1 ! ?k)) = None" if "nf0 = nf1"
    using invf that by (simp add: inverse_ok_def f_sub_def)
  show ?thesis
  proof (cases "valid_spend ?perm root ip0 ip1 out0 out1 fee")
    case True
    then have paths: "root_from_path ?perm (input_cm ?perm (fst ip0)) (snd ip0) = root" "root_from_path ?perm (input_cm ?perm (fst ip1)) (snd ip1) = root"
      and bal: "unat (in_value (fst ip0)) + unat (in_value (fst ip1)) = unat (out_value out0) + unat (out_value out1) + unat fee"
      and ne: "nf0 \<noteq> nf1" by (simp_all add: valid_spend_def opens_to_args nf0_def nf1_def)
    obtain carries where c: "compute_carries vals = Some carries"
      unfolding vals_def by (rule compute_carries_ok [OF bal])
    have "nf0 ! ?k < babybear_p" "nf1 ! ?k < babybear_p" "nf0 ! ?k \<noteq> nf1 ! ?k"
      using first_diff_ok [of nf0 nf1] ne nfwf [THEN wf_nth(2)] nfwf [THEN wf_nth(1)] by auto
    then have "f_sub (nf0 ! ?k) (nf1 ! ?k) \<noteq> 0" by (simp add: f_sub_0_iff)
    then obtain i where i: "invf (f_sub (nf0 ! ?k) (nf1 ! ?k)) = Some i" "i < babybear_p" "f_mul (f_sub (nf0 ! ?k) (nf1 ! ?k)) i = 1"
      using invf unfolding inverse_ok_def by (metis f_ops_lt(2))
    from spend_rows_hold [OF L g root True vals_def c nf0_def nf1_def refl i(2,3) refl refl] True show ?thesis
      by (simp add: build paths c i(1))
  next
    case False
    have unb: "compute_carries vals = None" if "unat (in_value (fst ip0)) + unat (in_value (fst ip1)) \<noteq> unat (out_value out0) + unat (out_value out1) + unat fee"
      using that by (simp add: compute_carries_def vals_def)
    have "(root_from_path ?perm (input_cm ?perm (fst ip0)) (snd ip0) \<noteq> root
          \<or> root_from_path ?perm (input_cm ?perm (fst ip1)) (snd ip1) \<noteq> root) \<or> compute_carries vals = None \<or> nf0 = nf1"
      using False args unb unfolding valid_spend_def opens_to_args nf0_def nf1_def by blast
    then have "build_spend_trace_with_paths g invf ?perm ip0 ip1 root out0 out1 fee = None"
      unfolding build using same by (elim disjE) (simp_all split: option.split)
    with False show ?thesis by simp
  qed
qed

text \<open>
  C6: The prover builds a trace exactly for the valid spends, and the trace it builds satisfies the circuit with
  the public values of the spend. Otherwise it stops: a path does not fold to the anchor root, the amounts
  do not balance, or the two inputs have the same nullifier.
\<close>

theorem spend_prover_exact:
  assumes L: "layers_ok L" and g: "trace_gen_ok L g" and invf: "inverse_ok invf" and root: "wf_digest root"
    and args: "path_args_ok ip0" "path_args_ok ip1" "wf_output out0" "wf_output out1"
  shows "case build_spend_trace_with_paths g invf (p2_permute L) ip0 ip1 root out0 out1 fee of
      None \<Rightarrow> \<not> valid_spend (p2_permute L) root ip0 ip1 out0 out1 fee
    | Some (trace, pis) \<Rightarrow> valid_spend (p2_permute L) root ip0 ip1 out0 out1 fee
        \<and> pis = spend_pis (p2_permute L) root (fst ip0) (fst ip1) out0 out1 fee \<and> accepted_trace L pis trace"
  using spend_prover_lemma [OF assms] .

lemma valid_spend_accepted:
  assumes L: "layers_ok L" and v: "valid_spend (p2_permute L) root ip0 ip1 out0 out1 fee"
  shows "\<exists>trace. accepted_trace L (spend_pis (p2_permute L) root (fst ip0) (fst ip1) out0 out1 fee) trace"
proof -
  obtain g invf where gi: "trace_gen_ok L g" "inverse_ok invf" using trace_gen_exists [OF L] inverse_exists by blast
  have args: "path_args_ok ip0" "path_args_ok ip1" "wf_output out0" "wf_output out1" and
    r: "root_from_path (p2_permute L) (input_cm (p2_permute L) (fst ip0)) (snd ip0) = root"
    using v by (simp_all add: valid_spend_def opens_to_args)
  have "wf_digest root"
    using level_node_wf [OF perm_ok_p2 [OF L], of root ip0 depth] v args r
    by (simp add: valid_spend_def level_node_def path_args_ok_def root_from_path_def)
  from spend_prover_lemma [OF L gi this args, of fee] v show ?thesis
    by (auto split: option.splits)
qed

text \<open>
  C5: The spend circuit is exact: 44 public field elements have a trace that satisfies every constraint over the
  128 scheduled rows if and only if they are the root, nullifiers, output commitments and fee of a valid spend.
\<close>

theorem spend_air_exact:
  assumes L: "layers_ok L"
  shows "(\<exists>trace. accepted_trace L pv trace) \<longleftrightarrow> (\<exists>root ip0 ip1 out0 out1 fee.
      pv = spend_pis (p2_permute L) root (fst ip0) (fst ip1) out0 out1 fee \<and> valid_spend (p2_permute L) root ip0 ip1 out0 out1 fee)"
  using valid_spend_accepted [OF L] spend_air_sound by metis

end
