(* ===== verification/SpendLedger.thy ===== *)
theory SpendLedger
  imports GuestParity SpendExact
begin

text \<open>
  The spend circuit behind the ledger. The proof system is an external crate: the hypothesis \<open>proof_sound\<close> is
  its documented soundness, that a proof it accepts was made from a trace that satisfies the circuit (with
  the permutation the node hashes with). Under it every accepted spend opens two notes of the chain.
\<close>

definition proof_sound :: "poseidon2 \<Rightarrow> ('h, 't) ext \<Rightarrow> bool" where
  "proof_sound L E \<longleftrightarrow> x_perm E = p2_permute L
     \<and> (\<forall>pf publics. x_spend_verify E pf publics \<longrightarrow> (\<exists>trace. accepted_trace L (map f_of_u32 publics) trace))"

text \<open>The public values of a spend, read back the way the ledger reads them.\<close>

lemma spend_pis_parts:
  assumes pis: "map f_of_u32 publics = spend_pis perm root (fst ip0) (fst ip1) out0 out1 fee"
    and perm: "perm_ok perm" and root: "wf_digest root"
  shows "digest_at publics pub_root = Some root"
    "digest_at publics pub_nf0 = Some (nullifier perm (in_nk (fst ip0)) (in_rho (fst ip0)))"
    "digest_at publics pub_nf1 = Some (nullifier perm (in_nk (fst ip1)) (in_rho (fst ip1)))"
    "digest_at publics pub_cmo0 = Some (output_cm perm out0)" "digest_at publics pub_cmo1 = Some (output_cm perm out1)"
    "map f_of_u32 (take n_limbs (drop pub_fee publics)) = value_limbs fee"
proof -
  have len: "length root = 8" "length (nullifier perm a b) = 8" "length (output_cm perm n) = 8" for a b and n :: output_note
    using root wf_hash_domain [OF perm] wf_nth(2)
    unfolding nullifier_def output_cm_def note_commitment_def by blast+
  have l: "length publics = 44"
    using arg_cong [OF pis, of length] len by (simp add: spend_pis_def)
  have part: "digest_at publics off = Some (take 8 (drop off (spend_pis perm root (fst ip0) (fst ip1) out0 out1 fee)))"
    if "off + 8 \<le> 44" for off
    using that l by (simp add: digest_at_def take_map drop_map flip: pis)
  note offs = pub_root_def pub_nf0_def pub_nf1_def pub_cmo0_def pub_cmo1_def pub_fee_def
  show "digest_at publics pub_root = Some root"
    "digest_at publics pub_nf0 = Some (nullifier perm (in_nk (fst ip0)) (in_rho (fst ip0)))"
    "digest_at publics pub_nf1 = Some (nullifier perm (in_nk (fst ip1)) (in_rho (fst ip1)))"
    "digest_at publics pub_cmo0 = Some (output_cm perm out0)" "digest_at publics pub_cmo1 = Some (output_cm perm out1)"
    unfolding offs by (subst part; simp add: spend_pis_def len)+
  have "map f_of_u32 (take n_limbs (drop pub_fee publics)) = take 4 (drop 40 (map f_of_u32 publics))"
    by (simp add: take_map drop_map pub_fee_def n_limbs_def)
  then show "map f_of_u32 (take n_limbs (drop pub_fee publics)) = value_limbs fee"
    unfolding pis by (simp add: spend_pis_def len)
qed

lemma verified_spend:
  assumes S: "proof_sound L E" and v: "x_spend_verify E (tx_proof tx) (tx_publics tx)"
  obtains root ip0 ip1 out0 out1 fee where "valid_spend (x_perm E) root ip0 ip1 out0 out1 fee" "wf_digest root"
    "map f_of_u32 (tx_publics tx) = spend_pis (x_perm E) root (fst ip0) (fst ip1) out0 out1 fee" "perm_ok (x_perm E)"
proof -
  obtain trace where T: "accepted_trace L (map f_of_u32 (tx_publics tx)) trace" and p: "x_perm E = p2_permute L"
    using S v unfolding proof_sound_def by blast
  have L: "layers_ok L" using T by (simp add: accepted_trace_def)
  from spend_air_sound [OF T] obtain root ip0 ip1 out0 out1 fee where
    s: "map f_of_u32 (tx_publics tx) = spend_pis (x_perm E) root (fst ip0) (fst ip1) out0 out1 fee"
      "valid_spend (x_perm E) root ip0 ip1 out0 out1 fee" unfolding p by blast
  have pok: "perm_ok (x_perm E)" unfolding p by (rule perm_ok_p2 [OF L])
  have "wf_digest root"
    using wf_path_fold [OF pok input_cm_wf [OF pok]] s(2) unfolding valid_spend_def opens_to_def root_from_path_def by blast
  with s pok that show thesis by blast
qed

text \<open>So an accepted spend never repeats its own nullifier, the hypothesis of node and guest parity.\<close>

lemma proof_sound_separates:
  assumes "proof_sound L E"
  shows "verifier_separates E"
  unfolding verifier_separates_def
proof (intro allI impI notI)
  fix pf publics nf
  assume v: "x_spend_verify E pf publics" and nf: "digest_at publics pub_nf0 = Some nf \<and> digest_at publics pub_nf1 = Some nf"
  let ?tx = "\<lparr> tx_proof = pf, tx_publics = publics, tx_ct0 = [], tx_ct1 = [] \<rparr>"
  obtain root ip0 ip1 out0 out1 fee where *: "valid_spend (x_perm E) root ip0 ip1 out0 out1 fee" "wf_digest root"
    "map f_of_u32 publics = spend_pis (x_perm E) root (fst ip0) (fst ip1) out0 out1 fee" "perm_ok (x_perm E)"
    by (rule verified_spend [OF assms, of ?tx]) (use v in auto)
  from spend_pis_parts(2,3) [OF *(3,4,2)] nf *(1) show False by (simp add: valid_spend_def)
qed

lemma opens_to_leaf:
  assumes o: "opens_to perm (merkle_root perm leaves) n path"
  shows "leaf_at leaves (path_index path) = input_cm perm n
    \<or> compress_collides perm (set (path_inputs perm (input_cm perm n) (path_index path) (siblings path)))
        (tree_inputs perm (leaf_at leaves))"
proof -
  have f: "path_fold perm (input_cm perm n) (path_index path) (siblings path) = subroot perm (leaf_at leaves) depth 0"
    and len: "length (siblings path) = depth" and idx: "path_index path < 2 ^ depth"
    using o unfolding opens_to_def root_from_path_def merkle_root_def by blast+
  have "path_fold perm (input_cm perm n) (path_index path) (siblings path)
      = subroot perm (leaf_at leaves) (0 + length (siblings path)) (path_index path div 2 ^ length (siblings path))"
    unfolding f len using idx by simp
  from path_fold_binding [OF _ this] len show ?thesis by auto
qed

lemma run_roots_window:
  assumes "root \<in> set (take_last w (run_roots perm params bs))"
  obtains n where "n \<le> length bs" "length bs < n + w" "root = merkle_root perm (run_leaves perm params (take n bs))"
proof -
  define rs where "rs = run_roots perm params bs"
  have len: "length rs = Suc (length bs)" by (simp add: rs_def run_roots_def)
  from assms obtain m where m: "length rs - w + m < length rs" "root = rs ! (length rs - w + m)"
    unfolding take_last_def rs_def [symmetric] in_set_conv_nth length_drop by (metis add.commute less_diff_conv nth_drop less_imp_le diff_le_self)
  define n where "n = length rs - w + m"
  show thesis
  proof (rule that)
    show n: "n \<le> length bs" using m(1) by (simp add: n_def len)
    show "length bs < n + w" using assms by (cases "w = 0") (auto simp: n_def len take_last_def)
    show "root = merkle_root perm (run_leaves perm params (take n bs))"
      using m(2) n unfolding n_def [symmetric] by (simp add: rs_def run_roots_def del: upt_Suc)
  qed
qed

text \<open>
  C4: Every spend a run accepts opens two notes of the chain: under a proof system that is sound, its anchor is
  the root of the ledger's leaves after one of the last blocks, each of the two input notes is a leaf of it
  (or two different inputs of \<open>compress\<close> collide), the values balance with the flat fee, the nullifiers it
  spends are those of the notes, and its outputs commit to the notes it creates.
\<close>
theorem spends_open_chain_notes:
  assumes reach: "hn_reach E params bs s" and i: "i < length bs" and tx: "tx \<in> set (spend_txs (bs ! i))"
    and w: "0 < hp_root_window params" and S: "proof_sound L E"
  shows "\<exists>n ip0 ip1 out0 out1. n \<le> i \<and> i < n + hp_root_window params
    \<and> valid_spend (x_perm E) (merkle_root (x_perm E) (run_leaves (x_perm E) params (take n bs))) ip0 ip1 out0 out1 (hp_flat_fee params)
    \<and> tx_nfs tx = map (\<lambda>ip. nf_key (nullifier (x_perm E) (in_nk (fst ip)) (in_rho (fst ip)))) [ip0, ip1]
    \<and> digest_at (tx_publics tx) pub_cmo0 = Some (output_cm (x_perm E) out0)
    \<and> digest_at (tx_publics tx) pub_cmo1 = Some (output_cm (x_perm E) out1)
    \<and> (\<forall>ip \<in> {ip0, ip1}. leaf_at (run_leaves (x_perm E) params (take n bs)) (path_index (snd ip)) = input_cm (x_perm E) (fst ip)
        \<or> compress_collides (x_perm E) (set (path_inputs (x_perm E) (input_cm (x_perm E) (fst ip)) (path_index (snd ip)) (siblings (snd ip))))
            (tree_inputs (x_perm E) (leaf_at (run_leaves (x_perm E) params (take n bs)))))"
proof -
  let ?perm = "x_perm E"
  from hn_reach_step [OF reach i] obtain s0 s1 u
    where r: "hn_reach E params (take i bs) s0" and a: "apply_block E s0 (bs ! i) = Inr (s1, u)" by blast
  from apply_block_fresh(5) [OF a] tx obtain p nf0 nf1 where v: "validate_tx E s0 tx p = Inr (nf0, nf1)" by fastforce
  note v = validate_tx_ok [OF v]
  obtain root ip0 ip1 out0 out1 fee where vs: "valid_spend ?perm root ip0 ip1 out0 out1 fee" "wf_digest root"
    "map f_of_u32 (tx_publics tx) = spend_pis ?perm root (fst ip0) (fst ip1) out0 out1 fee" "perm_ok ?perm"
    by (rule verified_spend [OF S v(8)])
  note parts = spend_pis_parts [OF vs(3,4,2)]
  have "root \<in> set (hs_recent_roots s0)" using v(7) parts(1) by simp
  then obtain n where n: "n \<le> length (take i bs)" "length (take i bs) < n + hp_root_window params"
    "root = merkle_root ?perm (run_leaves ?perm params (take n (take i bs)))"
    using hn_reach_roots [OF r w] by (auto elim: run_roots_window)
  then have n': "n \<le> i" "i < n + hp_root_window params" "root = merkle_root ?perm (run_leaves ?perm params (take n bs))"
    using i by (simp_all add: min_def)
  have fee: "fee = hp_flat_fee params"
    using v(1,2) parts(6) hn_reach_params [OF r] limbs_roundtrip [of fee]
    by (simp add: tx_fee_def n_pub_def pub_fee_def n_limbs_def result_simps)
  have nfs: "tx_nfs tx = map (\<lambda>ip. nf_key (nullifier ?perm (in_nk (fst ip)) (in_rho (fst ip)))) [ip0, ip1]"
    using v(3,4,5) parts(2,3) by simp
  have "leaf_at (run_leaves ?perm params (take n bs)) (path_index (snd ip)) = input_cm ?perm (fst ip)
        \<or> compress_collides ?perm (set (path_inputs ?perm (input_cm ?perm (fst ip)) (path_index (snd ip)) (siblings (snd ip))))
            (tree_inputs ?perm (leaf_at (run_leaves ?perm params (take n bs))))" if "ip \<in> {ip0, ip1}" for ip
    using that vs(1) n'(3) by (intro opens_to_leaf) (auto simp: valid_spend_def)
  with n' vs(1) nfs parts(4,5) fee show ?thesis by blast
qed

end
