(* ===== verification/SpendDemo.thy ===== *)
theory SpendDemo
  imports SpendLedger ChainDemo
begin

text \<open>
  A concrete instance for the theorems on the spend circuit: Poseidon2 layers that keep of the first lane
  whether it is zero, one or something else, a valid spend under them, and a chain of one block that carries it.
\<close>

section \<open>Degenerate layers\<close>

definition tri :: "F \<Rightarrow> F" where
  "tri x = (if x = 0 then 0 else if x = 1 then 1 else 2013265920)"

definition ind_layer :: "F list \<Rightarrow> F list" where
  "ind_layer s = tri (s ! 0) # replicate 15 0"

lemma tri_simps [simp]: "tri 0 = 0" "tri 1 = 1" "tri (Suc 0) = 1" "tri (tri x) = tri x" "tri x < babybear_p"
  by (simp_all add: tri_def babybear_p_def)

definition ind_layers :: poseidon2 where
  "ind_layers = \<lparr> p2_external = ind_layer, p2_internal = ind_layer, p2_rc_initial = replicate 4 (replicate 16 0),
     p2_rc_internal = replicate 13 0, p2_rc_final = replicate 4 (replicate 16 0) \<rparr>"

definition ind_perm :: perm where "ind_perm = p2_permute ind_layers"

lemma ind_layers_ok: "layers_ok ind_layers"
  using p_group(4) by (auto simp: layers_ok_def ind_layers_def state_ok_def ind_layer_def width_def canon_def
      half_full_rounds_def partial_rounds_def)

lemma tri_pow: "f_pow7 (tri x) = tri x" "f_add (tri x) 0 = tri x" "f_pow7 0 = 0" "f_add 0 0 = 0"
proof -
  have "f_mul 2013265920 2013265920 = 1" "f_mul 1 2013265920 = 2013265920" "f_mul 0 0 = 0" "f_mul 1 1 = 1"
    by (simp_all add: f_mul_def babybear_p_def)
  then have "f_pow7 2013265920 = 2013265920" "f_pow7 1 = 1" and z: "f_pow7 0 = 0"
    by (simp_all only: f_pow7_def f_cube_def)
  then show "f_pow7 (tri x) = tri x" "f_pow7 0 = 0" unfolding tri_def by simp_all
  show "f_add (tri x) 0 = tri x" "f_add 0 0 = 0" using tri_simps(5) [of x] by (simp_all add: f_add_def babybear_p_def)
qed

lemma ind_rounds:
  "p2_full_round ind_layers (ind_layer s) (replicate 16 0) = ind_layer s"
  "p2_partial_round ind_layers (ind_layer s) 0 = ind_layer s"
  by (simp_all add: p2_full_round_def p2_partial_round_def ind_layers_def ind_layer_def tri_pow)

lemma foldl_fixed: "(\<And>x. x \<in> set xs \<Longrightarrow> f s x = s) \<Longrightarrow> foldl f s xs = s"
  by (induction xs) simp_all

lemma ind_perm: "ind_perm s = ind_layer s"
proof -
  have ext: "p2_external ind_layers s = ind_layer s" by (simp add: ind_layers_def)
  have f: "foldl (p2_full_round ind_layers) (ind_layer s) (p2_rc_initial ind_layers) = ind_layer s"
    "foldl (p2_full_round ind_layers) (ind_layer s) (p2_rc_final ind_layers) = ind_layer s"
    by (rule foldl_fixed, simp add: ind_layers_def [THEN arg_cong [of _ _ p2_rc_initial]] ind_layers_def [THEN arg_cong [of _ _ p2_rc_final]] ind_rounds)+
  have p: "foldl (p2_partial_round ind_layers) (ind_layer s) (p2_rc_internal ind_layers) = ind_layer s"
    by (rule foldl_fixed) (simp add: ind_layers_def [THEN arg_cong [of _ _ p2_rc_internal]] ind_rounds)
  show ?thesis by (simp add: ind_perm_def p2_permute_def ext f p)
qed

definition dz :: digest where "dz = 0 # replicate 7 0"
definition du :: digest where "du = 1 # replicate 7 0"
definition dm :: digest where "dm = 2013265920 # replicate 7 0"

lemma digests_wf [simp]: "wf_digest dz" "wf_digest du" "wf_digest dm"
  by (simp_all add: wf_digest_def dz_def du_def dm_def digest_elems_def babybear_p_def)

lemma length_digests [simp]: "length dz = 8" "length du = 8" "length dm = 8" "dz ! 0 = 0" "du ! 0 = 1" "dm ! 0 = 2013265920" "dz \<noteq> du"
  by (simp_all add: dz_def du_def dm_def)

lemma dz_replicate: "replicate 8 0 = dz"
  by (simp add: dz_def eval_nat_numeral)

definition ind_digest :: "nat \<Rightarrow> digest" where "ind_digest x = (if x = 0 then dz else if x = 1 then du else dm)"

lemma ind_take: "take 8 (ind_perm s) = ind_digest (s ! 0)"
  by (simp add: ind_perm ind_layer_def ind_digest_def tri_def dz_def du_def dm_def)

lemma ind_first: "ind_perm s ! 0 = tri (s ! 0)"
  by (simp add: ind_perm ind_layer_def)

lemma length_ind [simp]: "length (ind_perm s) = 16" by (simp add: ind_perm ind_layer_def)

lemma ind_compress: "length l = 8 \<Longrightarrow> compress ind_perm l r = ind_digest (l ! 0)"
  by (simp add: compress_def digest_elems_def ind_take nth_append)

lemma absorb_first: "length s = 16 \<Longrightarrow> length c = 8 \<Longrightarrow> absorb s c ! 0 = f_add (s ! 0) (c ! 0)"
  by (simp add: absorb_nth)

lemma init_first [simp]: "sponge_init tag len ! 0 = 0"
  by (simp add: sponge_init_nth)

lemma f_add_0: "x < babybear_p \<Longrightarrow> f_add 0 x = x"
  by (simp add: f_add_def)

lemma ind_owner: "length nk = 8 \<Longrightarrow> nk ! 0 < babybear_p \<Longrightarrow> owner_key ind_perm nk = ind_digest (nk ! 0)"
  by (simp add: owner_chain ind_take absorb_first f_add_0)

lemma ind_nullifier:
  "length nk = 8 \<Longrightarrow> length rho = 8 \<Longrightarrow> nk ! 0 < babybear_p \<Longrightarrow>
    nullifier ind_perm nk rho = ind_digest (f_add (tri (nk ! 0)) (rho ! 0))"
  by (simp add: nullifier_chain ind_take absorb_first f_add_0 ind_first)

lemma ind_commitment:
  assumes "length owner = 8" "length rho = 8" "length r = 8"
  shows "note_commitment ind_perm v owner rho r =
     ind_digest (f_add (tri (f_add (tri (f_add (tri (value_limbs v ! 0)) (owner ! 0))) (rho ! 0))) (r ! 0))"
proof -
  have "value_block v ! 0 = value_limbs v ! 0" by (simp add: value_block_def nth_append)
  moreover have "value_limbs v ! 0 < babybear_p" using canon_value_limbs [of v] by (simp add: canon_nth)
  ultimately show ?thesis using assms by (simp add: commitment_chain ind_take absorb_first f_add_0 ind_first)
qed

section \<open>A valid spend\<close>

definition ind_in0 :: input_note where
  "ind_in0 = \<lparr> in_value = 3, in_nk = dz, in_rho = dz, in_r = du, in_index = 0 \<rparr>"
definition ind_in1 :: input_note where
  "ind_in1 = \<lparr> in_value = 0, in_nk = du, in_rho = dz, in_r = dm, in_index = 0 \<rparr>"
definition ind_out :: output_note where
  "ind_out = \<lparr> out_value = 0, out_owner = dz, out_rho = dz, out_r = dz \<rparr>"
definition ind_path :: merkle_path where
  "ind_path = \<lparr> siblings = replicate 32 dz, path_index = 0 \<rparr>"

lemma ind_values: "value_limbs 3 = [3, 0, 0, 0]" "value_limbs 0 = [0, 0, 0, 0]"
  by (simp_all add: value_limbs_nat upt_rec)

lemma ind_cms: "input_cm ind_perm ind_in0 = dz" "input_cm ind_perm ind_in1 = dz" "output_cm ind_perm ind_out = dz"
  by (simp_all add: input_cm_def output_cm_def ind_in0_def ind_in1_def ind_out_def ind_commitment ind_owner ind_values
      ind_digest_def tri_def f_add_def babybear_p_def)

lemma ind_nfs: "nullifier ind_perm (in_nk ind_in0) (in_rho ind_in0) = dz" "nullifier ind_perm (in_nk ind_in1) (in_rho ind_in1) = du"
  by (simp_all add: ind_in0_def ind_in1_def ind_nullifier ind_digest_def tri_def f_add_def babybear_p_def)

lemma ind_fold: "path_fold ind_perm dz 0 (replicate n dz) = dz"
  by (induction n) (simp_all add: ind_compress ind_digest_def)

lemma ind_args: "path_args_ok (ind_in0, ind_path)" "path_args_ok (ind_in1, ind_path)" "wf_output ind_out"
  by (simp_all add: path_args_ok_def wf_input_def wf_output_def ind_in0_def ind_in1_def ind_path_def ind_out_def depth_def list_all_iff)

lemma ind_valid: "valid_spend ind_perm dz (ind_in0, ind_path) (ind_in1, ind_path) ind_out ind_out 3"
proof -
  have "root_from_path ind_perm dz ind_path = dz" by (simp only: root_from_path_def ind_path_def merkle_path.simps ind_fold)
  then have "opens_to ind_perm dz ind_in0 ind_path" "opens_to ind_perm dz ind_in1 ind_path"
    using opens_to_args [of ind_perm dz "(ind_in0, ind_path)"] opens_to_args [of ind_perm dz "(ind_in1, ind_path)"] ind_args ind_cms
    by simp_all
  moreover have "nullifier ind_perm (in_nk ind_in0) (in_rho ind_in0) \<noteq> nullifier ind_perm (in_nk ind_in1) (in_rho ind_in1)"
    using ind_nfs by simp
  ultimately show ?thesis using ind_args(3) by (simp add: valid_spend_def) (simp add: ind_in0_def ind_in1_def ind_out_def)
qed

definition ind_publics :: "u32 list" where
  "ind_publics = replicate 8 0 @ replicate 8 0 @ (1 # replicate 7 0) @ replicate 8 0 @ replicate 8 0 @ [3, 0, 0, 0]"

lemma ind_pis: "map f_of_u32 ind_publics = spend_pis ind_perm dz ind_in0 ind_in1 ind_out ind_out 3"
proof -
  have f: "f_of_u32 0 = 0" "f_of_u32 1 = 1" "f_of_u32 3 = 3" by (simp_all add: f_of_u32_def babybear_p_def)
  have "map f_of_u32 ind_publics = dz @ dz @ du @ dz @ dz @ [3, 0, 0, 0]"
    unfolding ind_publics_def map_append map_replicate list.map f dz_replicate du_def ..
  then show ?thesis by (simp only: spend_pis_def ind_nfs ind_cms ind_values)
qed

lemma ind_accepted: "\<exists>trace. accepted_trace ind_layers (map f_of_u32 ind_publics) trace"
  using valid_spend_accepted [OF ind_layers_ok ind_valid [unfolded ind_perm_def]] by (simp add: ind_pis ind_perm_def)


section \<open>A block that carries the spend\<close>

definition ind_env :: "(nat, bytes) ext" where
  "ind_env = demo \<lparr> x_perm := ind_perm, x_spend_verify := (\<lambda>pf publics. publics = ind_publics) \<rparr>"

lemma ind_env_fields [simp]: "x_perm ind_env = ind_perm" "x_spend_verify ind_env pf publics \<longleftrightarrow> publics = ind_publics"
  by (simp_all add: ind_env_def)

lemma ind_sound: "proof_sound ind_layers ind_env"
  using ind_accepted by (simp add: proof_sound_def ind_perm_def)

definition ind_tx :: hn_tx where
  "ind_tx = \<lparr> tx_proof = [], tx_publics = ind_publics, tx_ct0 = replicate 152 0, tx_ct1 = replicate 152 0 \<rparr>"

lemma ind_tx_fields [simp]: "tx_publics ind_tx = ind_publics" "length (tx_ct0 ind_tx) = note_ct_bytes" "length (tx_ct1 ind_tx) = note_ct_bytes"
  by (simp_all add: ind_tx_def note_ct_bytes_def)

lemma ind_digests [simp]:
  "digest_at ind_publics pub_root = Some dz" "digest_at ind_publics pub_nf0 = Some dz" "digest_at ind_publics pub_nf1 = Some du"
  "digest_at ind_publics pub_cmo0 = Some dz" "digest_at ind_publics pub_cmo1 = Some dz"
  using spend_pis_parts [where publics = ind_publics and perm = ind_perm and root = dz and ?ip0.0 = "(ind_in0, ind_path)"
      and ?ip1.0 = "(ind_in1, ind_path)" and ?out0.0 = ind_out and ?out1.0 = ind_out and fee = 3]
    perm_ok_p2 [OF ind_layers_ok] by (simp_all add: ind_pis ind_nfs ind_cms flip: ind_perm_def)

lemma ind_fee: "tx_fee ind_tx = Inr (Some 3)"
proof -
  have "map f_of_u32 (take n_limbs (drop pub_fee ind_publics)) = value_limbs 3"
    using spend_pis_parts(6) [where publics = ind_publics and perm = ind_perm and root = dz and ?ip0.0 = "(ind_in0, ind_path)"
      and ?ip1.0 = "(ind_in1, ind_path)" and ?out0.0 = ind_out and ?out1.0 = ind_out and fee = 3]
      perm_ok_p2 [OF ind_layers_ok] by (simp add: ind_pis flip: ind_perm_def)
  moreover have "length ind_publics = 44" by (simp add: ind_publics_def)
  ultimately show ?thesis using limbs_roundtrip [of 3] by (simp add: tx_fee_def pub_fee_def n_limbs_def)
qed

lemma ind_zeros: "zeros ind_perm n = dz"
  by (induction n) (simp_all add: empty_leaf_def dz_replicate compress_self_def ind_compress ind_digest_def)

lemma ind_new_root: "nt_root ind_perm nt_new = dz"
  by (simp add: nt_root_def nt_new_def node_of_def ind_zeros)

definition ind_pegin_cm :: digest where
  "ind_pegin_cm = hn_pegmint_cm_expected ind_perm (limbs_to_digest (pc_dest_owner flat_claim)) 990 (replicate 32 9)"

definition ind_coinbase_cm :: digest where
  "ind_coinbase_cm = hn_coinbase_cm_expected ind_perm dz 2 (hn_block_id ind_perm 0 dz)"

definition ind_leaves :: "digest list" where
  "ind_leaves = [dz, dz, ind_pegin_cm, ind_coinbase_cm]"

definition ind_block :: hn_block where
  "ind_block = flat_block \<lparr> hb_prev_root := replicate 8 0, hb_txs := [ind_tx], hb_miner_owner := replicate 8 0,
     hb_coinbase_amount := 2, hb_coinbase_cm := digest_to_limbs ind_coinbase_cm, hb_pot_after := 1000011,
     hb_shielded_after := 989, hb_state_root := digest_to_limbs (merkle_root ind_perm ind_leaves) \<rparr>"

lemma ind_block_fields [simp]:
  "hb_height ind_block = 0" "hb_prev_root ind_block = replicate 8 0" "hb_txs ind_block = [ind_tx]" "hb_pegouts ind_block = []"
  "hb_pegins ind_block = [flat_claim]" "hb_prev_header_id ind_block = genesis_parent" "hb_nbits ind_block = 1"
  "hb_miner_owner ind_block = replicate 8 0" "hb_coinbase_amount ind_block = 2" "hb_coinbase_is_reward ind_block"
  "hb_coinbase_cm ind_block = digest_to_limbs ind_coinbase_cm" "length (hb_coinbase_ct ind_block) = note_ct_bytes"
  "hb_pot_after ind_block = 1000011" "hb_shielded_after ind_block = 989" "hb_coinbase_ct ind_block = replicate 152 0"
  "hb_state_root ind_block = digest_to_limbs (merkle_root ind_perm ind_leaves)" "hb_aux_pow ind_block = None"
  by (simp_all add: ind_block_def flat_block_def note_ct_bytes_def)

lemma ind_flat_digest: "limbs_to_digest (replicate 8 0) = dz"
  by (simp add: limbs_to_digest_def dz_def f_of_u32_def eval_nat_numeral)

lemma ind_coinbase_wf: "wf_digest ind_coinbase_cm"
  using perm_ok_p2 [OF ind_layers_ok] wf_hash_domain
  by (simp add: ind_coinbase_cm_def hn_coinbase_cm_expected_def note_commitment_def ind_perm_def split: prod.split)

lemma ind_nbits: "next_nbits ind_env (hn_daa flat_params) [] = Some 1"
  by (simp add: next_nbits_def hn_daa_def Let_def)

lemma ind_coinbase: "coinbase_amount flat_params 1000000 (Suc 0) = 2"
  by (simp add: coinbase_amount_def saturating_add_def saturating_mul_def)

lemma ind_apply:
  obtains s u where "apply_block ind_env (hn_new ind_perm flat_params) ind_block = Inr (s, u)"
proof -
  let ?s = "hn_new ind_perm flat_params"
  have new: "hs_tree ?s = nt_new" "hs_params ?s = flat_params" "hs_recent_roots ?s = [dz]" "hs_nullifiers ?s = {}" "hs_used_pegins ?s = {}"
    "hs_height ?s = 0" "hs_pot ?s = 1000000" "hs_shielded_total ?s = 0" "hs_daa_view ?s = []"
    by (simp_all add: hn_new_def ind_new_root)
  have keys: "nf_key dz \<noteq> nf_key du"
    by (simp add: nf_key_def dz_def du_def as_canonical_u32_def)
  have tx: "validate_tx ind_env ?s ind_tx p = Inr (dz, du)" if "p = {}" for p
    using keys that by (simp add: validate_tx_def pub_digest_def result_simps ind_fee new ind_new_root n_pub_def ind_publics_def [THEN arg_cong [of _ _ length]])
  obtain tree where tree: "append_all (nt_append ind_perm) nt_new ind_leaves = Some tree"
  proof -
    have "length ([] :: digest list) + length ind_leaves \<le> 2 ^ depth" by (simp add: depth_def ind_leaves_def)
    from nt.append_all_fits [OF nt_rep_new this] that show thesis by blast
  qed
  have root: "nt_root ind_perm tree = merkle_root ind_perm ind_leaves"
    using nt_root_rep nt.append_all_SomeD [OF nt_rep_new tree] by simp
  let ?pa = "\<lparr> pa_nfs = [nf_key dz, nf_key du], pa_outflow = 0, pa_fees = 0, pa_burn_total = 0 \<rparr>"
  let ?ga = "\<lparr> ga_in_block = [replicate 32 9], ga_cms = [ind_pegin_cm], ga_inflow = 1000, ga_fees = 10 \<rparr>"
  let ?leaves = "[(dz, tx_ct0 ind_tx, False), (dz, tx_ct1 ind_tx, False), (ind_pegin_cm, replicate 152 0, False), (ind_coinbase_cm, replicate 152 0, True)]"
  have 1: "check_header ind_env ?s ind_block = Inr ()"
    by (simp add: check_header_def hn_tip_root_def new ind_new_root ind_flat_digest expected_nbits_def ind_nbits check_aux_pow_def note_ct_bytes_def)
  have 2: "fold_r (validate_txs_step ind_env ?s) [] (hb_txs ind_block) = Inr [nf_key dz, nf_key du]"
    by (simp add: validate_txs_step_def tx)
  have 3: "fold_r (validate_pegouts_step ind_env ?s) ?pa (hb_pegouts ind_block) = Inr ?pa"
    by (simp add: flat_block_def)
  have 4: "fold_r (validate_pegins_step (x_perm ind_env) ?s) \<lparr> ga_in_block = [], ga_cms = [], ga_inflow = 0, ga_fees = 0 \<rparr> (hb_pegins ind_block) = Inr ?ga"
    by (simp add: validate_pegins_step_def Let_def checked_sub_def word_le_nat_alt word_less_nat_alt
        note_ct_bytes_def new ind_pegin_cm_def)
  have 5: "(if hb_coinbase_is_reward ind_block then reward_economics ?s ind_block ?pa ?ga else genesis_economics ?s ind_block) = Inr (1000011, 989)"
    by (simp add: reward_economics_def new ind_coinbase Let_def checked_sub_def word_le_nat_alt)
  have 6: "block_leaves ind_block (ga_cms ?ga) = Inr ?leaves"
    by (simp add: block_leaves_def spend_leaves_step_def pub_digest_def result_simps spend_txs_def ind_coinbase_wf)
  have 7: "check_commitments (x_perm ind_env) ?s ind_block 989 ?leaves = Inr ()"
    using tree root by (simp add: check_commitments_def Let_def simulate_state_root_def new hn_tip_root_def
        ind_new_root ind_flat_digest ind_coinbase_cm_def ind_leaves_def)
  have 8: "append_all (nt_append (x_perm ind_env)) (hs_tree ?s) (map fst ?leaves) = Some tree"
    using tree by (simp add: new ind_leaves_def)
  have 9: "block_withdrawals ?s ind_block = Inr []" by (simp add: block_withdrawals_def flat_block_def)
  show thesis by (rule apply_block_accept [OF 1 2 3 4 5 6 7 8 9]) (rule that)
qed

lemma ind_reach:
  obtains s where "hn_reach ind_env flat_params [ind_block] s"
proof -
  obtain s u where "apply_block ind_env (hn_new ind_perm flat_params) ind_block = Inr (s, u)" by (rule ind_apply)
  then have "apply_block ind_env (hn_new (x_perm ind_env) flat_params) ind_block = Inr (s, u)" by simp
  from hn_reach.block [OF hn_reach.genesis this] that show thesis by simp
qed

text \<open>The spend theorems at this instance.\<close>

theorem spends_open_chain_notes_witness:
  "\<exists>s n ip0 ip1 out0 out1. hn_reach ind_env flat_params [ind_block] s \<and> n \<le> (0 :: nat)
    \<and> valid_spend ind_perm (merkle_root ind_perm (run_leaves ind_perm flat_params (take n [ind_block]))) ip0 ip1 out0 out1 3
    \<and> tx_nfs ind_tx = map (\<lambda>ip. nf_key (nullifier ind_perm (in_nk (fst ip)) (in_rho (fst ip)))) [ip0, ip1]"
proof -
  obtain s where s: "hn_reach ind_env flat_params [ind_block] s" by (rule ind_reach)
  have 1: "0 < length [ind_block]" "0 < hp_root_window flat_params" by simp_all
  have 2: "ind_tx \<in> set (spend_txs ([ind_block] ! 0))" by (simp add: spend_txs_def)
  from spends_open_chain_notes [OF s 1(1) 2 1(2) ind_sound] obtain n ip0 ip1 out0 out1 where
    n: "n \<le> 0" "valid_spend (x_perm ind_env) (merkle_root (x_perm ind_env) (run_leaves (x_perm ind_env) flat_params (take n [ind_block])))
        ip0 ip1 out0 out1 (hp_flat_fee flat_params)"
      "tx_nfs ind_tx = map (\<lambda>ip. nf_key (nullifier (x_perm ind_env) (in_nk (fst ip)) (in_rho (fst ip)))) [ip0, ip1]"
    by (elim exE conjE)
  from s n [unfolded ind_env_fields(1) flat_params_simps(1)] show ?thesis by blast
qed

theorem spend_air_exact_witness: "\<exists>trace. accepted_trace ind_layers (map f_of_u32 ind_publics) trace"
  using spend_air_exact [OF ind_layers_ok, of "map f_of_u32 ind_publics"] ind_valid
  unfolding ind_pis ind_perm_def by force

theorem spend_prover_exact_witness:
  "\<exists>g invf trace. build_spend_trace_with_paths g invf (p2_permute ind_layers) (ind_in0, ind_path) (ind_in1, ind_path) dz ind_out ind_out 3
     = Some (trace, map f_of_u32 ind_publics) \<and> accepted_trace ind_layers (map f_of_u32 ind_publics) trace"
proof -
  obtain g invf where gi: "trace_gen_ok ind_layers g" "inverse_ok invf"
    using trace_gen_exists [OF ind_layers_ok] inverse_exists by blast
  have pis: "spend_pis (p2_permute ind_layers) dz ind_in0 ind_in1 ind_out ind_out 3 = map f_of_u32 ind_publics"
    by (simp add: ind_pis flip: ind_perm_def)
  from spend_prover_exact [OF ind_layers_ok gi digests_wf(1) ind_args(1,2,3,3), of 3] ind_valid [unfolded ind_perm_def]
  show ?thesis by (fastforce simp: pis split: option.splits)
qed

theorem membership_air_exact_witness:
  "\<exists>trace. trace_shape depth memb_row_w trace \<and> air_holds (merkle_eval ind_layers dz) trace
     \<and> digest_cells (\<lambda>j. trace ! 0 ! (child_off + j)) = dz"
proof -
  have "root_from_path ind_perm dz ind_path = dz" by (simp only: root_from_path_def ind_path_def merkle_path.simps ind_fold)
  moreover have "length (siblings ind_path) = depth" "list_all wf_digest (siblings ind_path)" "path_index ind_path < 2 ^ depth"
    by (simp_all add: ind_path_def depth_def list_all_iff)
  ultimately show ?thesis
    using membership_air_exact [OF ind_layers_ok digests_wf(1), of dz] unfolding ind_perm_def by (meson digests_wf(1))
qed

theorem nullifier_air_exact_witness:
  "\<exists>trace. trace_shape 2 nf_row_w trace \<and> air_holds (nullifier_eval ind_layers (du @ dz @ du)) trace"
proof -
  have "nullifier (p2_permute ind_layers) du dz = du" using ind_nfs(2) by (simp add: ind_in1_def ind_perm_def)
  then show ?thesis using nullifier_air_exact [OF ind_layers_ok digests_wf(2,1,2)] by simp
qed

theorem balance_air_exact_witness:
  "\<exists>row. length row = bal_row_w \<and> canon row \<and> balance_eval row (f_flag True) (concat (map value_limbs [3, 0, 0, 0, 3]))"
proof -
  let ?pv = "concat (map value_limbs [3, 0, 0, 0, 3])"
  have 1: "length ?pv = 20" "canon ?pv" by (simp_all add: ind_values canon_def babybear_p_def)
  have 2: "unat (3 :: u64) + unat (0 :: u64) = unat (0 :: u64) + unat (0 :: u64) + unat (3 :: u64)" by simp
  show ?thesis by (rule iffD2 [OF balance_air_exact [OF 1]]) (use 2 in blast)
qed

end
