(* ===== verification/ChainFeed.thy ===== *)
theory ChainFeed
  imports GuestParity
begin

text \<open>
  The read boundary of a wallet: the scan feed of the ledger (the outputs of \<^verbatim>\<open>hn/state.rs\<close>) is determined by
  the blocks of the run, and every digest and ciphertext the node serves is well formed.
\<close>

section \<open>The outputs of a block\<close>

definition tx_outs :: "hn_tx \<Rightarrow> (digest \<times> bytes \<times> bool) list" where
  "tx_outs tx = zip (tx_cms tx) [(tx_ct0 tx, False), (tx_ct1 tx, False)]"

definition block_outs :: "perm \<Rightarrow> hn_params \<Rightarrow> hn_block \<Rightarrow> (digest \<times> bytes \<times> bool) list" where
  "block_outs perm params b = concat (map tx_outs (spend_txs b))
     @ map (\<lambda>p. (pegin_cm perm params p, pc_ciphertext p, False)) (hb_pegins b)
     @ [(limbs_to_digest (hb_coinbase_cm b), hb_coinbase_ct b, hb_coinbase_is_reward b)]"

definition feed_record :: "u64 \<Rightarrow> nat \<times> digest \<times> bytes \<times> bool \<Rightarrow> output_record" where
  "feed_record h il = (case il of (i, cm, ct, c) \<Rightarrow>
     \<lparr> or_leaf_index = i, or_cm = cm, or_ciphertext = ct, or_height = h, or_is_coinbase = c \<rparr>)"

lemma feed_record_fields [simp]:
  "or_leaf_index (feed_record h (i, l)) = i" "or_cm (feed_record h (i, l)) = fst l"
  "or_ciphertext (feed_record h (i, l)) = fst (snd l)" "or_height (feed_record h (i, l)) = h"
  "or_is_coinbase (feed_record h (i, l)) = snd (snd l)"
  by (simp_all add: feed_record_def split: prod.split)

fun run_feed :: "perm \<Rightarrow> hn_params \<Rightarrow> hn_block list \<Rightarrow> output_record list" where
  "run_feed perm params bs = concat (map (\<lambda>k.
     map (feed_record (of_nat k)) (enumerate (length (run_leaves perm params (take k bs))) (block_outs perm params (bs ! k))))
     [0..<length bs])"

declare run_feed.simps [simp del]

lemma tx_outs_cms [simp]: "map fst (tx_outs tx) = tx_cms tx"
  by (simp add: tx_outs_def tx_cms_def)

lemma block_outs_cms: "map fst (block_outs perm params b) = block_cms perm params b"
  by (simp add: block_outs_def block_cms_def map_concat comp_def)

lemma run_leaves_snoc: "run_leaves perm params (bs @ [b]) = run_leaves perm params bs @ block_cms perm params b"
  by (simp add: run_leaves_def)

lemma run_feed_snoc: "run_feed perm params (bs @ [b]) = run_feed perm params bs
    @ map (feed_record (of_nat (length bs))) (enumerate (length (run_leaves perm params bs)) (block_outs perm params b))"
proof -
  define F where "F cs k = map (feed_record (of_nat k))
      (enumerate (length (run_leaves perm params (take k cs))) (block_outs perm params (cs ! k)))" for cs k
  have "map (F (bs @ [b])) [0..<length bs] = map (F bs) [0..<length bs]"
    by (rule map_cong [OF refl]) (simp add: F_def nth_append)
  moreover have "F (bs @ [b]) (length bs) = map (feed_record (of_nat (length bs)))
      (enumerate (length (run_leaves perm params bs)) (block_outs perm params b))"
    by (simp add: F_def)
  moreover have "run_feed perm params cs = concat (map (F cs) [0..<length cs])" for cs
    by (simp add: run_feed.simps F_def [abs_def])
  ultimately show ?thesis by (simp del: map_eq_conv)
qed

lemma length_run_feed: "length (run_feed perm params bs) = length (run_leaves perm params bs)"
proof (induction bs rule: rev_induct)
  case (snoc b bs)
  then show ?case
    by (simp add: run_feed_snoc run_leaves_snoc length_map [of fst "block_outs perm params b", unfolded block_outs_cms, symmetric])
qed (simp add: run_feed.simps run_leaves_def)

lemma run_feed_nth:
  "i < length (run_leaves perm params bs) \<Longrightarrow>
    or_leaf_index (run_feed perm params bs ! i) = i \<and> or_cm (run_feed perm params bs ! i) = run_leaves perm params bs ! i"
proof (induction bs rule: rev_induct)
  case (snoc b bs)
  let ?ls = "run_leaves perm params bs" and ?os = "block_outs perm params b"
  have len: "length ?os = length (block_cms perm params b)" by (metis length_map block_outs_cms)
  show ?case
  proof (cases "i < length ?ls")
    case True
    then show ?thesis using snoc.IH by (simp add: run_feed_snoc run_leaves_snoc nth_append length_run_feed)
  next
    case False
    then have i: "i - length ?ls < length ?os" using snoc.prems len by (simp add: run_leaves_snoc)
    with False show ?thesis
      by (simp add: run_feed_snoc run_leaves_snoc nth_append length_run_feed nth_enumerate_eq flip: block_outs_cms)
  qed
qed (simp add: run_leaves_def)

lemma run_feed_prefix: "run_feed perm params (bs @ cs) = run_feed perm params bs @ drop (length (run_leaves perm params bs)) (run_feed perm params (bs @ cs))"
proof (induction cs rule: rev_induct)
  case (snoc c cs)
  have "length (run_leaves perm params bs) \<le> length (run_feed perm params (bs @ cs))"
    by (simp add: length_run_feed) (simp add: run_leaves_def)
  with snoc show ?case unfolding append_assoc [symmetric] run_feed_snoc by (metis append_assoc drop_append append_eq_conv_conj diff_is_0_eq drop0)
qed (simp add: length_run_feed)

section \<open>The feed of a run\<close>

lemma spend_leaves_outs:
  "fold_r spend_leaves_step acc txs = Inr acc' \<Longrightarrow> acc' = acc @ concat (map tx_outs txs)"
proof (induction txs arbitrary: acc)
  case (Cons tx txs)
  from Cons.prems obtain cm0 cm1 where "digest_at (tx_publics tx) pub_cmo0 = Some cm0"
    "digest_at (tx_publics tx) pub_cmo1 = Some cm1"
    "fold_r spend_leaves_step (acc @ [(cm0, tx_ct0 tx, False), (cm1, tx_ct1 tx, False)]) txs = Inr acc'"
    by (auto simp: spend_leaves_step_def [of acc tx] result_simps pub_digest_def)
  then have "acc' = (acc @ tx_outs tx) @ concat (map tx_outs txs)"
    by (intro Cons.IH) (simp add: tx_cms_def tx_outs_def)
  then show ?case by simp
qed simp

lemma block_leaves_outs:
  assumes "block_leaves b cms = Inr leaves" and "cms = map (pegin_cm perm params) (hb_pegins b)"
  shows "leaves = block_outs perm params b"
proof -
  have "map (\<lambda>(p, cm). (cm, pc_ciphertext p, False)) (zip xs (map (pegin_cm perm params) xs))
      = map (\<lambda>p. (pegin_cm perm params p, pc_ciphertext p, False)) xs" for xs
    by (induction xs) simp_all
  with assms show ?thesis by (auto simp: block_leaves_def block_outs_def result_simps dest!: spend_leaves_outs)
qed

lemma append_leaves_feed:
  "fold_r (append_leaf perm) s leaves = Inr t \<Longrightarrow> nt_rep perm (hs_tree s) ls \<Longrightarrow>
    hs_outputs t = hs_outputs s @ map (feed_record (hs_height s)) (enumerate (length ls) leaves)"
proof (induction leaves arbitrary: s ls)
  case (Cons leaf leaves)
  obtain cm ct c where leaf: "leaf = (cm, ct, c)" by (cases leaf) auto
  from Cons.prems(1) obtain tree i where t: "nt_append perm (hs_tree s) cm = Some (tree, i)"
    and rest: "fold_r (append_leaf perm) (s \<lparr> hs_cm_leaves := hs_cm_leaves s @ [cm], hs_tree := tree,
        hs_outputs := hs_outputs s @ [\<lparr> or_leaf_index = i, or_cm = cm, or_ciphertext = ct,
          or_height = hs_height s, or_is_coinbase = c \<rparr>] \<rparr>) leaves = Inr t"
    by (auto simp: leaf append_leaf_def [of perm s "(cm, ct, c)"] result_simps)
  have "length ls < 2 ^ depth" using nt_append_full [OF Cons.prems(2), of cm] t by auto
  from nt_rep_append [OF Cons.prems(2) this, of cm] t have i: "i = length ls" "nt_rep perm tree (ls @ [cm])" by auto
  have "hs_outputs t = (hs_outputs s @ [feed_record (hs_height s) (length ls, leaf)])
      @ map (feed_record (hs_height s)) (enumerate (length (ls @ [cm])) leaves)"
    using Cons.IH [OF rest] i by (simp add: leaf feed_record_def)
  then show ?case by simp
qed simp

lemma apply_block_outputs:
  assumes "apply_block E s b = Inr (s', u)" and rep: "nt_rep (x_perm E) (hs_tree s) ls"
  shows "hs_outputs s' = hs_outputs s
    @ map (feed_record (hs_height s)) (enumerate (length ls) (block_outs (x_perm E) (hs_params s) b))"
proof -
  from assms(1) obtain ga leaves nfs pot shielded where
    g: "fold_r (validate_pegins_step (x_perm E) s)
         \<lparr> ga_in_block = [], ga_cms = [], ga_inflow = 0, ga_fees = 0 \<rparr> (hb_pegins b) = Inr ga"
    and l: "block_leaves b (ga_cms ga) = Inr leaves"
    and m: "apply_mutation (x_perm E) s b nfs leaves pot shielded = Inr (s', u)"
    unfolding apply_block_def by (auto simp: bind_r_eq_Inr)
  have "ga_cms ga = map (pegin_cm (x_perm E) (hs_params s)) (hb_pegins b)"
    using validate_pegins_ok [OF g] by (simp add: pegin_cm_def [abs_def])
  note leaves = block_leaves_outs [OF l this]
  from m obtain s1 where "fold_r (append_leaf (x_perm E)) s leaves = Inr s1" "hs_outputs s' = hs_outputs s1"
    by (auto simp: apply_mutation_def bind_r_eq_Inr Let_def split_beta)
  with append_leaves_feed [OF _ rep] leaves show ?thesis by simp
qed

lemma hn_reach_outputs: "hn_reach E params bs s \<Longrightarrow> hs_outputs s = run_feed (x_perm E) params bs"
proof (induction rule: hn_reach.induct)
  case (block bs s b s' u)
  show ?case
    using apply_block_outputs [OF block.hyps(2) hn_reach_tree [OF block.hyps(1)]] block.IH
      hn_reach_params [OF block.hyps(1)] hn_reach_height [OF block.hyps(1)] by (simp add: run_feed_snoc)
qed (simp add: hn_new_def run_feed.simps)

end
