(* ===== verification/NoteEnc.thy ===== *)
theory NoteEnc
  imports HnBlock
begin

text \<open>
  Note encryption (\<^verbatim>\<open>engine/src/note_encryption.rs\<close>): the fixed-size ciphertext beside every output, made
  for an address and opened by trial decryption. The primitives (X25519, HKDF-SHA256,
  ChaCha20-Poly1305) are external crates, the fields of the record \<open>ciphers\<close>; \<open>cipher_ok\<close> states
  what the code relies on: Diffie-Hellman agreement, opening of a sealed message, and sizes.
\<close>

section \<open>The primitives\<close>

record ciphers =
  c_public :: "bytes \<Rightarrow> bytes"
  c_dh :: "bytes \<Rightarrow> bytes \<Rightarrow> bytes"
  c_hkdf :: "bytes \<Rightarrow> bytes \<Rightarrow> nat \<Rightarrow> bytes"
  c_seal :: "bytes \<Rightarrow> bytes \<Rightarrow> bytes \<Rightarrow> bytes \<Rightarrow> bytes"
  c_open :: "bytes \<Rightarrow> bytes \<Rightarrow> bytes \<Rightarrow> bytes \<Rightarrow> bytes option"

definition cipher_ok :: "ciphers \<Rightarrow> bool" where
  "cipher_ok C \<longleftrightarrow> (\<forall>sk. length (c_public C sk) = 32)
     \<and> (\<forall>a b. c_dh C a (c_public C b) = c_dh C b (c_public C a))
     \<and> (\<forall>k n ad msg. c_open C k n ad (c_seal C k n ad msg) = Some msg \<and> length (c_seal C k n ad msg) = length msg + 16)"

section \<open>The plaintext\<close>

definition epk_bytes :: nat where "epk_bytes = 32"
definition memo_bytes :: nat where "memo_bytes = 32"
definition tag_bytes :: nat where "tag_bytes = 16"
definition plaintext_bytes :: nat where "plaintext_bytes = 8 + 32 + 32 + memo_bytes"

lemma note_ct_bytes_layout: "note_ct_bytes = epk_bytes + plaintext_bytes + tag_bytes"
  by (simp add: note_ct_bytes_def epk_bytes_def plaintext_bytes_def memo_bytes_def tag_bytes_def)

text \<open>The ASCII codes of \<^verbatim>\<open>b"aegis:hn:note-enc:v1"\<close>.\<close>

definition kdf_info :: bytes where
  "kdf_info = [0x61, 0x65, 0x67, 0x69, 0x73, 0x3a, 0x68, 0x6e, 0x3a, 0x6e, 0x6f, 0x74, 0x65, 0x2d, 0x65, 0x6e,
     0x63, 0x3a, 0x76, 0x31]"

record note_plaintext =
  np_value :: u64
  np_rho :: digest
  np_r :: digest
  np_memo :: bytes

definition content_key :: "ciphers \<Rightarrow> bytes \<Rightarrow> bytes \<Rightarrow> bytes \<Rightarrow> bytes option" where
  "content_key C shared epk enc_pk =
     (if list_all (\<lambda>b. b = 0) shared then None else Some (c_hkdf C (shared @ epk @ enc_pk) kdf_info 32))"

definition serialize_plaintext :: "note_plaintext \<Rightarrow> bytes" where
  "serialize_plaintext pt =
     to_le64 (np_value pt) @ digest_to_bytes (np_rho pt) @ digest_to_bytes (np_r pt) @ np_memo pt"

definition parse_plaintext :: "bytes \<Rightarrow> note_plaintext option" where
  "parse_plaintext bs =
     (if length bs \<noteq> plaintext_bytes then None
      else Option.bind (digest_from_bytes (take 32 (drop 8 bs))) (\<lambda>rho.
           Option.bind (digest_from_bytes (take 32 (drop 40 bs))) (\<lambda>r.
             Some \<lparr> np_value = from_le (take 8 bs), np_rho = rho, np_r = r, np_memo = drop 72 bs \<rparr>)))"

definition wf_plaintext :: "note_plaintext \<Rightarrow> bool" where
  "wf_plaintext pt \<longleftrightarrow> wf_digest (np_rho pt) \<and> wf_digest (np_r pt) \<and> length (np_memo pt) = memo_bytes"

section \<open>Encryption and trial decryption\<close>

definition zero_nonce :: bytes where "zero_nonce = replicate 12 0"

definition encrypt_note_with :: "ciphers \<Rightarrow> hn_address \<Rightarrow> digest \<Rightarrow> note_plaintext \<Rightarrow> bytes \<Rightarrow> bytes option" where
  "encrypt_note_with C address cm pt esk =
     (let epk = c_public C esk; shared = c_dh C esk (ad_enc_pk address)
      in Option.bind (content_key C shared epk (ad_enc_pk address)) (\<lambda>key.
           Some (epk @ c_seal C key zero_nonce (digest_to_bytes cm) (serialize_plaintext pt))))"

definition try_decrypt :: "ciphers \<Rightarrow> perm \<Rightarrow> bytes \<Rightarrow> digest \<Rightarrow> digest \<Rightarrow> bytes \<Rightarrow> note_plaintext option" where
  "try_decrypt C perm enc_sk owner cm wire =
     (if length wire \<noteq> note_ct_bytes then None
      else let epk = take epk_bytes wire in
        Option.bind (content_key C (c_dh C enc_sk epk) epk (c_public C enc_sk)) (\<lambda>key.
        Option.bind (c_open C key zero_nonce (digest_to_bytes cm) (drop epk_bytes wire)) (\<lambda>pt_bytes.
        Option.bind (parse_plaintext pt_bytes) (\<lambda>pt.
          if note_commitment perm (np_value pt) owner (np_rho pt) (np_r pt) = cm then Some pt else None))))"

section \<open>Facts\<close>

lemma serialize_length: "wf_plaintext pt \<Longrightarrow> length (serialize_plaintext pt) = plaintext_bytes"
  by (simp add: wf_plaintext_def serialize_plaintext_def plaintext_bytes_def memo_bytes_def wf_digest_def digest_elems_def)

lemma parse_serialize: "wf_plaintext pt \<Longrightarrow> parse_plaintext (serialize_plaintext pt) = Some pt"
  using serialize_length [of pt]
  by (simp add: parse_plaintext_def serialize_plaintext_def wf_plaintext_def digest_bytes_roundtrip_aux
      wf_digest_def [THEN iffD1, THEN conjunct1] digest_elems_def)

lemma to_from_le64:
  assumes "length bs = 8"
  shows "to_le64 (from_le bs) = bs"
proof (rule nth_equalityI)
  fix i assume "i < length (to_le64 (from_le bs))"
  then have i: "i < 8" by simp
  show "to_le64 (from_le bs) ! i = bs ! i"
  proof (rule bit_word_eqI)
    fix n assume "n < LENGTH(8)"
    then have "n < 8" "(8 * i + n) div 8 = i" "(8 * i + n) mod 8 = n" by simp_all
    then show "bit (to_le64 (from_le bs) ! i) n = bit (bs ! i) n"
      using i assms by (simp add: bit_from_le nth_to_le64 bit_unsigned_iff bit_drop_bit_eq)
  qed
qed (simp add: assms)

lemma parse_plaintext_SomeD:
  assumes "parse_plaintext bs = Some pt"
  shows "wf_plaintext pt" "serialize_plaintext pt = bs"
proof -
  have len: "length bs = 104" using assms by (auto simp: parse_plaintext_def plaintext_bytes_def memo_bytes_def split: if_splits)
  with assms obtain rho r where d: "digest_from_bytes (take 32 (drop 8 bs)) = Some rho" "digest_from_bytes (take 32 (drop 40 bs)) = Some r"
    and pt: "pt = \<lparr> np_value = from_le (take 8 bs), np_rho = rho, np_r = r, np_memo = drop 72 bs \<rparr>"
    by (auto simp: parse_plaintext_def plaintext_bytes_def memo_bytes_def bind_eq_Some_conv)
  have b: "wf_digest rho" "wf_digest r" "digest_to_bytes rho = take 32 (drop 8 bs)" "digest_to_bytes r = take 32 (drop 40 bs)"
    using digest_from_bytes_SomeD [OF d(1)] digest_from_bytes_SomeD [OF d(2)] len by simp_all
  show "wf_plaintext pt" using b len by (simp add: pt wf_plaintext_def memo_bytes_def)
  have v: "to_le64 (from_le (take 8 bs)) = take 8 bs" by (rule to_from_le64) (simp add: len)
  have "bs = take 8 bs @ take 32 (drop 8 bs) @ take 32 (drop 40 bs) @ drop 72 bs"
    by (simp flip: append_assoc take_add)
  then show "serialize_plaintext pt = bs" using b by (simp add: pt serialize_plaintext_def v)
qed

lemma encrypt_note_length:
  "cipher_ok C \<Longrightarrow> wf_plaintext pt \<Longrightarrow> encrypt_note_with C address cm pt esk = Some wire \<Longrightarrow> length wire = note_ct_bytes"
  by (auto simp: encrypt_note_with_def Let_def cipher_ok_def serialize_length note_ct_bytes_layout epk_bytes_def tag_bytes_def
      bind_eq_Some_conv)

lemma encrypt_note_Some:
  "encrypt_note_with C address cm pt esk \<noteq> None \<longleftrightarrow> \<not> list_all (\<lambda>b. b = 0) (c_dh C esk (ad_enc_pk address))"
  by (simp add: encrypt_note_with_def Let_def content_key_def)

lemma decrypt_encrypted:
  assumes C: "cipher_ok C" and pt: "wf_plaintext pt" and e: "encrypt_note_with C address cm pt esk = Some wire"
    and pk: "ad_enc_pk address = c_public C enc_sk"
  shows "try_decrypt C perm enc_sk owner cm wire =
    (if note_commitment perm (np_value pt) owner (np_rho pt) (np_r pt) = cm then Some pt else None)"
proof -
  note C' = C [unfolded cipher_ok_def]
  obtain key where key: "content_key C (c_dh C esk (c_public C enc_sk)) (c_public C esk) (c_public C enc_sk) = Some key"
    and wire: "wire = c_public C esk @ c_seal C key zero_nonce (digest_to_bytes cm) (serialize_plaintext pt)"
    using e by (auto simp: encrypt_note_with_def Let_def pk bind_eq_Some_conv)
  have "take epk_bytes wire = c_public C esk" "drop epk_bytes wire = c_seal C key zero_nonce (digest_to_bytes cm) (serialize_plaintext pt)"
    using C' by (simp_all add: wire epk_bytes_def)
  moreover have "c_dh C enc_sk (c_public C esk) = c_dh C esk (c_public C enc_sk)" using C' by blast
  ultimately show ?thesis
    using encrypt_note_length [OF C pt e] key C' parse_serialize [OF pt] by (simp add: try_decrypt_def Let_def)
qed

lemma try_decrypt_SomeD:
  assumes "try_decrypt C perm enc_sk owner cm wire = Some pt"
  shows "wf_plaintext pt" "cm = note_commitment perm (np_value pt) owner (np_rho pt) (np_r pt)" "length wire = note_ct_bytes"
  using assms parse_plaintext_SomeD(1)
  by (auto simp: try_decrypt_def Let_def bind_eq_Some_conv split: if_splits)

end
