(* ===== verification/Address.thy ===== *)
theory Address
  imports NoteEnc
begin

text \<open>
  Payment addresses and wallet keys (\<^verbatim>\<open>engine/src/address.rs\<close>). The Bech32 crate is the record \<open>bech\<close>:
  its text encoding, its decoding, and the regrouping of bytes into 5-bit words.
\<close>

section \<open>Keys\<close>

text \<open>The ASCII codes of \<^verbatim>\<open>b"aegis:hn:kd:nk:v1"\<close> and \<^verbatim>\<open>b"aegis:hn:kd:enc:v1"\<close>.\<close>

definition kdf_info_nk :: bytes where
  "kdf_info_nk = [0x61, 0x65, 0x67, 0x69, 0x73, 0x3a, 0x68, 0x6e, 0x3a, 0x6b, 0x64, 0x3a, 0x6e, 0x6b, 0x3a, 0x76, 0x31]"
definition kdf_info_enc :: bytes where
  "kdf_info_enc = [0x61, 0x65, 0x67, 0x69, 0x73, 0x3a, 0x68, 0x6e, 0x3a, 0x6b, 0x64, 0x3a, 0x65, 0x6e, 0x63, 0x3a, 0x76, 0x31]"

record wallet_keys =
  wk_nk :: digest
  wk_enc_sk :: bytes

definition keys_from_seed :: "ciphers \<Rightarrow> bytes \<Rightarrow> wallet_keys" where
  "keys_from_seed C seed =
     (let nk_bytes = c_hkdf C seed kdf_info_nk (8 * digest_elems)
      in \<lparr> wk_nk = map (\<lambda>i. f_of_u64 (from_le (take 8 (drop (8 * i) nk_bytes)))) [0..<digest_elems],
           wk_enc_sk = c_hkdf C seed kdf_info_enc 32 \<rparr>)"

definition keys_address :: "ciphers \<Rightarrow> perm \<Rightarrow> wallet_keys \<Rightarrow> hn_address" where
  "keys_address C perm ks = \<lparr> ad_owner = owner_key perm (wk_nk ks), ad_enc_pk = c_public C (wk_enc_sk ks) \<rparr>"

section \<open>The text form\<close>

datatype bech_variant = Bech32 | Bech32m

record bech =
  b_encode :: "string \<Rightarrow> bytes \<Rightarrow> bech_variant \<Rightarrow> string option"
  b_decode :: "string \<Rightarrow> (string \<times> bytes \<times> bech_variant) option"
  b_to_base32 :: "bytes \<Rightarrow> bytes"
  b_from_base32 :: "bytes \<Rightarrow> bytes option"

text \<open>What the crate documents of a prefix: encoding succeeds and decodes to what was encoded.\<close>

definition bech_ok :: "bech \<Rightarrow> string \<Rightarrow> bool" where
  "bech_ok B hrp \<longleftrightarrow> (\<forall>p. b_from_base32 B (b_to_base32 B p) = Some p)
     \<and> (\<forall>p v. \<exists>s. b_encode B hrp (b_to_base32 B p) v = Some s \<and> b_decode B s = Some (hrp, b_to_base32 B p, v))"

definition address_v1 :: u8 where "address_v1 = 1"
definition hrp_main :: string where "hrp_main = ''aegishn''"
definition hrp_test :: string where "hrp_test = ''aegishnt''"

datatype address_error = AeEncoding | AeVersion u8 | AeLength nat | AeNonCanonicalOwner

text \<open>\<open>None\<close> is the panic on an invalid prefix.\<close>

definition address_encode :: "bech \<Rightarrow> hn_address \<Rightarrow> string \<Rightarrow> string option" where
  "address_encode B a hrp =
     b_encode B hrp (b_to_base32 B (address_v1 # digest_to_bytes (ad_owner a) @ ad_enc_pk a)) Bech32m"

definition address_payload :: "bytes \<Rightarrow> address_error + hn_address" where
  "address_payload payload =
     (case payload of [] \<Rightarrow> Inl (AeLength 0)
      | version # rest \<Rightarrow>
         if version \<noteq> address_v1 then Inl (AeVersion version)
         else if length rest \<noteq> 64 then Inl (AeLength (length rest))
         else bind_r (ok_or (digest_from_bytes (take 32 rest)) AeNonCanonicalOwner) (\<lambda>owner.
           Inr \<lparr> ad_owner = owner, ad_enc_pk = drop 32 rest \<rparr>))"

definition address_decode :: "bech \<Rightarrow> string \<Rightarrow> string \<Rightarrow> address_error + hn_address" where
  "address_decode B s hrp =
     bind_r (ok_or (b_decode B s) AeEncoding) (\<lambda>(got_hrp, data, variant).
       if got_hrp \<noteq> hrp \<or> variant \<noteq> Bech32m then Inl AeEncoding
       else bind_r (ok_or (b_from_base32 B data) AeEncoding) address_payload)"

definition wf_address :: "hn_address \<Rightarrow> bool" where
  "wf_address a \<longleftrightarrow> wf_digest (ad_owner a) \<and> length (ad_enc_pk a) = 32"

section \<open>Facts\<close>

lemma wf_keys: "wf_digest (wk_nk (keys_from_seed C seed))"
  by (simp add: keys_from_seed_def Let_def wf_digest_def digest_elems_def)

lemma keys_address_fields [simp]:
  "ad_owner (keys_address C perm ks) = owner_key perm (wk_nk ks)"
  "ad_enc_pk (keys_address C perm ks) = c_public C (wk_enc_sk ks)"
  by (simp_all add: keys_address_def)

lemma owner_key_wf: "perm_ok perm \<Longrightarrow> wf_digest (owner_key perm nk)"
  unfolding owner_key_def by (rule wf_hash_domain)

lemma wf_keys_address: "perm_ok perm \<Longrightarrow> cipher_ok C \<Longrightarrow> wf_address (keys_address C perm ks)"
  by (simp add: wf_address_def owner_key_wf cipher_ok_def)

text \<open>A payload is accepted exactly when it is the one the encoder writes for a well-formed address.\<close>

lemma address_payload_iff:
  "address_payload payload = Inr a \<longleftrightarrow>
    wf_address a \<and> payload = address_v1 # digest_to_bytes (ad_owner a) @ ad_enc_pk a"
proof
  assume "address_payload payload = Inr a"
  then obtain rest owner where r: "payload = address_v1 # rest" "length rest = 64"
    and o: "digest_from_bytes (take 32 rest) = Some owner" and a: "a = \<lparr> ad_owner = owner, ad_enc_pk = drop 32 rest \<rparr>"
    by (auto simp: address_payload_def result_simps split: list.splits if_splits)
  from digest_from_bytes_SomeD [OF o] r a show "wf_address a \<and> payload = address_v1 # digest_to_bytes (ad_owner a) @ ad_enc_pk a"
    by (simp add: wf_address_def)
next
  assume a: "wf_address a \<and> payload = address_v1 # digest_to_bytes (ad_owner a) @ ad_enc_pk a"
  then have "length (digest_to_bytes (ad_owner a)) = 32" by (simp add: wf_address_def wf_digest_def digest_elems_def)
  with a show "address_payload payload = Inr a"
    by (simp add: address_payload_def wf_address_def digest_bytes_roundtrip_aux)
qed

text \<open>
  C24: An address survives its text form, and the decoder is strict: what it accepts is, after the checksum and
  the prefix, the bytes the encoder writes for the address it returns.
\<close>
theorem address_roundtrip:
  assumes B: "bech_ok B hrp"
  shows "(wf_address a \<longrightarrow> (\<exists>s. address_encode B a hrp = Some s \<and> address_decode B s hrp = Inr a))
    \<and> (address_decode B t hrp = Inr a \<longleftrightarrow> wf_address a \<and> (\<exists>d. b_decode B t = Some (hrp, d, Bech32m)
        \<and> b_from_base32 B d = Some (address_v1 # digest_to_bytes (ad_owner a) @ ad_enc_pk a)))"
proof -
  have dec: "address_decode B t hrp = Inr a \<longleftrightarrow> wf_address a \<and> (\<exists>d. b_decode B t = Some (hrp, d, Bech32m)
      \<and> b_from_base32 B d = Some (address_v1 # digest_to_bytes (ad_owner a) @ ad_enc_pk a))" for t
    by (auto simp: address_decode_def result_simps address_payload_iff split: prod.splits)
  have "\<exists>s. address_encode B a hrp = Some s \<and> address_decode B s hrp = Inr a" if "wf_address a"
    using B that unfolding dec address_encode_def bech_ok_def by blast
  with dec show ?thesis by blast
qed

end
