(* ===== verification/WalletChain.thy ===== *)
theory WalletChain
  imports ChainFeed Address SpendLedger
begin

text \<open>
  The node boundary of the wallet (\<^verbatim>\<open>engine/wallet/src/chain.rs\<close>): the read interface \<^verbatim>\<open>ChainView\<close>, its two
  implementations in the repository (the node's ledger and the in-memory chain), the accept path of the
  in-memory chain, and the prover and verifier of the spend circuit (\<^verbatim>\<open>engine/wallet/src/circuit.rs\<close>). The
  proof system is the record \<open>circuit\<close>.
\<close>

section \<open>The spend circuit\<close>

record circuit =
  sc_gen :: "F list \<Rightarrow> F list"
  sc_inverse :: "F \<Rightarrow> F option"
  sc_prove :: "F list list \<Rightarrow> F list \<Rightarrow> bytes"
  sc_verify :: "bytes \<Rightarrow> F list \<Rightarrow> bool"

text \<open>\<open>None\<close> is a panic of the trace builder.\<close>

definition circuit_prove :: "circuit \<Rightarrow> perm \<Rightarrow> input_note \<times> merkle_path \<Rightarrow> input_note \<times> merkle_path \<Rightarrow> digest \<Rightarrow>
    output_note \<Rightarrow> output_note \<Rightarrow> u64 \<Rightarrow> (bytes \<times> u32 list) option" where
  "circuit_prove SC perm ip0 ip1 root out0 out1 fee =
     map_option (\<lambda>(trace, pis). (sc_prove SC trace pis, map as_canonical_u32 pis))
       (build_spend_trace_with_paths (sc_gen SC) (sc_inverse SC) perm ip0 ip1 root out0 out1 fee)"

definition circuit_verify :: "circuit \<Rightarrow> bytes \<Rightarrow> u32 list \<Rightarrow> bool" where
  "circuit_verify SC proof publics \<longleftrightarrow>
     (if length publics \<noteq> n_pub then False else sc_verify SC proof (map f_of_u32 publics))"

text \<open>What the proving side relies on: the column generator, field inversion, and completeness of the proof system.\<close>

definition prover_ok :: "poseidon2 \<Rightarrow> circuit \<Rightarrow> bool" where
  "prover_ok L SC \<longleftrightarrow> layers_ok L \<and> trace_gen_ok L (sc_gen SC) \<and> inverse_ok (sc_inverse SC)
     \<and> (\<forall>pis trace. accepted_trace L pis trace \<longrightarrow> sc_verify SC (sc_prove SC trace pis) pis)"

section \<open>The read interface\<close>

record chain_view =
  cv_root :: digest
  cv_path :: "nat \<Rightarrow> merkle_path option"
  cv_seen :: "digest \<Rightarrow> bool"
  cv_since :: "nat \<Rightarrow> output_record list"
  cv_count :: nat
  cv_tip :: u64

definition state_view :: "perm \<Rightarrow> hn_state \<Rightarrow> chain_view" where
  "state_view perm s = \<lparr> cv_root = hn_tip_root perm s, cv_path = hn_authentication_path perm s,
     cv_seen = nullifier_seen s, cv_since = outputs_since s, cv_count = output_count s, cv_tip = hs_height s \<rparr>"

section \<open>The in-memory chain\<close>

record mem_chain =
  mc_tree :: note_tree
  mc_nullifiers :: "u32 list set"
  mc_recent_roots :: "digest list"
  mc_outputs :: "output_record list"
  mc_height :: u64

datatype submit_error = SeProofInvalid | SeUnknownRoot | SeDoubleSpend | SeBadCiphertext | SeBadPublicShape | SePanic

definition mem_new :: "perm \<Rightarrow> mem_chain" where
  "mem_new perm = \<lparr> mc_tree = nt_new, mc_nullifiers = {}, mc_recent_roots = [nt_root perm nt_new], mc_outputs = [],
     mc_height = 0 \<rparr>"

definition mem_push_root :: "perm \<Rightarrow> mem_chain \<Rightarrow> mem_chain" where
  "mem_push_root perm m = m \<lparr> mc_recent_roots :=
     (if length (mc_recent_roots m) = wallet_root_window then tl (mc_recent_roots m) else mc_recent_roots m)
     @ [nt_root perm (mc_tree m)] \<rparr>"

text \<open>\<open>None\<close> is the panic of a full tree.\<close>

definition mem_append_output :: "perm \<Rightarrow> mem_chain \<Rightarrow> digest \<Rightarrow> bytes \<Rightarrow> (mem_chain \<times> nat) option" where
  "mem_append_output perm m cm ciphertext =
     map_option (\<lambda>(tree, leaf_index).
       let m1 = m \<lparr> mc_tree := tree, mc_outputs := mc_outputs m @ [\<lparr> or_leaf_index = leaf_index, or_cm = cm,
                    or_ciphertext = ciphertext, or_height = mc_height m, or_is_coinbase = False \<rparr>] \<rparr>;
           m2 = mem_push_root perm m1
       in (m2 \<lparr> mc_height := mc_height m2 + 1 \<rparr>, leaf_index)) (nt_append perm (mc_tree m) cm)"

definition mem_nullifier_seen :: "mem_chain \<Rightarrow> digest \<Rightarrow> bool" where
  "mem_nullifier_seen m nf \<longleftrightarrow> nf_key nf \<in> mc_nullifiers m"

definition mem_digest :: "hn_tx \<Rightarrow> nat \<Rightarrow> submit_error + digest" where
  "mem_digest tx off = ok_or (digest_at (tx_publics tx) off) SePanic"

definition mem_submit :: "circuit \<Rightarrow> perm \<Rightarrow> mem_chain \<Rightarrow> hn_tx \<Rightarrow> submit_error + mem_chain" where
  "mem_submit SC perm m tx =
     (if length (tx_publics tx) < pub_cmo1 + digest_elems then Inl SeBadPublicShape
      else if length (tx_ct0 tx) \<noteq> note_ct_bytes \<or> length (tx_ct1 tx) \<noteq> note_ct_bytes then Inl SeBadCiphertext
      else if \<not> circuit_verify SC (tx_proof tx) (tx_publics tx) then Inl SeProofInvalid
      else bind_r (mem_digest tx pub_root) (\<lambda>root.
        if root \<notin> set (mc_recent_roots m) then Inl SeUnknownRoot
        else bind_r (mem_digest tx pub_nf0) (\<lambda>nf0. bind_r (mem_digest tx pub_nf1) (\<lambda>nf1.
          if mem_nullifier_seen m nf0 \<or> mem_nullifier_seen m nf1 then Inl SeDoubleSpend
          else let m1 = m \<lparr> mc_nullifiers := insert (nf_key nf1) (insert (nf_key nf0) (mc_nullifiers m)) \<rparr> in
            bind_r (mem_digest tx pub_cmo0) (\<lambda>cm0. bind_r (mem_digest tx pub_cmo1) (\<lambda>cm1.
            bind_r (ok_or (mem_append_output perm m1 cm0 (tx_ct0 tx)) SePanic) (\<lambda>(m2, _).
            bind_r (ok_or (mem_append_output perm m2 cm1 (tx_ct1 tx)) SePanic) (\<lambda>(m3, _). Inr m3))))))))"

definition mem_view :: "perm \<Rightarrow> mem_chain \<Rightarrow> chain_view" where
  "mem_view perm m = \<lparr> cv_root = nt_root perm (mc_tree m),
     cv_path = (\<lambda>i. if i < nt_len (mc_tree m) then authentication_path perm (mc_tree m) i else None),
     cv_seen = mem_nullifier_seen m, cv_since = (\<lambda>cursor. filter (\<lambda>r. cursor \<le> or_leaf_index r) (mc_outputs m)),
     cv_count = nt_len (mc_tree m), cv_tip = mc_height m \<rparr>"

inductive mem_reach :: "circuit \<Rightarrow> perm \<Rightarrow> mem_chain \<Rightarrow> bool" for SC perm where
  new: "mem_reach SC perm (mem_new perm)"
| append: "mem_reach SC perm m \<Longrightarrow> wf_digest cm \<Longrightarrow> mem_append_output perm m cm ct = Some (m', i) \<Longrightarrow> mem_reach SC perm m'"
| submit: "mem_reach SC perm m \<Longrightarrow> mem_submit SC perm m tx = Inr m' \<Longrightarrow> mem_reach SC perm m'"

end
