(* ===== verification/WalletView.thy ===== *)
theory WalletView
  imports WalletChain
begin

text \<open>
  The contract of the read interface, as a locale: what a wallet may rely on when it reads a chain. The
  node's ledger provides it in every state of a run, the in-memory chain in every state it reaches.
\<close>

section \<open>The contract\<close>

definition feed_of :: "digest list \<Rightarrow> output_record list \<Rightarrow> bool" where
  "feed_of ls outs \<longleftrightarrow> length outs = length ls
     \<and> (\<forall>i < length ls. or_leaf_index (outs ! i) = i \<and> or_cm (outs ! i) = ls ! i)"

definition opens_leaf :: "perm \<Rightarrow> digest \<Rightarrow> digest \<Rightarrow> nat \<Rightarrow> merkle_path \<Rightarrow> bool" where
  "opens_leaf perm root leaf i p \<longleftrightarrow> path_index p = i \<and> length (siblings p) = depth \<and> list_all wf_digest (siblings p)
     \<and> root_from_path perm leaf p = root"

locale note_ledger =
  fixes perm :: perm and ok :: "'c \<Rightarrow> bool" and view :: "'c \<Rightarrow> chain_view" and leaves :: "'c \<Rightarrow> digest list"
    and feed :: "'c \<Rightarrow> output_record list"
  assumes ok_perm: "ok c \<Longrightarrow> perm_ok perm"
    and wf_leaves: "ok c \<Longrightarrow> list_all wf_digest (leaves c)"
    and capacity: "ok c \<Longrightarrow> length (leaves c) \<le> 2 ^ depth"
    and root: "ok c \<Longrightarrow> cv_root (view c) = merkle_root perm (leaves c)"
    and count: "ok c \<Longrightarrow> cv_count (view c) = length (leaves c)"
    and feed: "ok c \<Longrightarrow> feed_of (leaves c) (feed c)"
    and since: "ok c \<Longrightarrow> cv_since (view c) k = filter (\<lambda>r. k \<le> or_leaf_index r) (feed c)"
    and path_none: "ok c \<Longrightarrow> length (leaves c) \<le> i \<Longrightarrow> cv_path (view c) i = None"
    and path_some: "ok c \<Longrightarrow> i < length (leaves c) \<Longrightarrow>
      \<exists>p. cv_path (view c) i = Some p \<and> opens_leaf perm (cv_root (view c)) (leaves c ! i) i p"

section \<open>Paths of a note tree\<close>

lemma wf_subroot: "perm_ok perm \<Longrightarrow> \<forall>d \<in> set ls. wf_digest d \<Longrightarrow> wf_digest (subroot perm (leaf_at ls) h i)"
proof (induction h arbitrary: i)
  case 0
  then show ?case by (auto simp: leaf_at_def empty_leaf_def wf_digest_def digest_elems_def babybear_p_def)
qed (simp add: wf_compress)

lemma sibling_levels_wf:
  "(\<And>level j. level \<in> set levels \<Longrightarrow> wf_digest (nd level j)) \<Longrightarrow> list_all wf_digest (sibling_levels nd i levels)"
  by (induction levels arbitrary: i) simp_all

lemma tree_path:
  assumes rep: "nt_rep perm t ls" and i: "i < length ls" and p: "perm_ok perm" and wf: "\<forall>d \<in> set ls. wf_digest d"
  shows "\<exists>path. authentication_path perm t i = Some path \<and> opens_leaf perm (nt_root perm t) (ls ! i) i path"
proof -
  obtain path where path: "authentication_path perm t i = Some path" "path_index path = i" "length (siblings path) = depth"
    "root_from_path perm (ls ! i) path = nt_root perm t"
    using authentication_path_root [OF rep i] by blast
  have "wf_digest (node_of perm (nodes t) level j)" if "level \<in> set [0..<depth]" for level j
    using that rep wf_subroot [OF p wf] by (simp add: nt_rep_def)
  then have "list_all wf_digest (siblings path)"
    using path(1) by (auto simp: authentication_path_def split: if_splits intro!: sibling_levels_wf)
  with path show ?thesis by (auto simp: opens_leaf_def)
qed

section \<open>The node's ledger\<close>

definition ledger_ok :: "('h, 't) ext \<Rightarrow> hn_params \<Rightarrow> hn_state \<Rightarrow> bool" where
  "ledger_ok E params s \<longleftrightarrow> perm_ok (x_perm E) \<and> (\<exists>bs. hn_reach E params bs s)"

lemma run_feed_of: "feed_of (run_leaves perm params bs) (run_feed perm params bs)"
  using run_feed_nth by (simp add: feed_of_def length_run_feed)

interpretation hn_view: note_ledger "x_perm E" "ledger_ok E params" "state_view (x_perm E)" hs_cm_leaves hs_outputs
  for E params
proof unfold_locales
  fix c assume "ledger_ok E params c"
  then obtain bs where p: "perm_ok (x_perm E)" and r: "hn_reach E params bs c" by (auto simp: ledger_ok_def)
  note ls = hn_reach_leaves [OF r] and rep = hn_reach_tree [OF r] and wf = hn_reach_wf_leaves [OF r p]
  show "perm_ok (x_perm E)" by (rule p)
  show "list_all wf_digest (hs_cm_leaves c)" using wf by (simp add: ls list_all_iff)
  show "length (hs_cm_leaves c) \<le> 2 ^ depth" using rep by (simp add: ls nt_rep_def)
  show "cv_root (state_view (x_perm E) c) = merkle_root (x_perm E) (hs_cm_leaves c)"
    using nt_root_rep [OF rep] by (simp add: state_view_def hn_tip_root_def ls)
  have n: "nt_len (hs_tree c) = length (hs_cm_leaves c)" using rep by (simp add: nt_rep_def ls nt_len_def)
  show "cv_count (state_view (x_perm E) c) = length (hs_cm_leaves c)"
    using n by (simp add: state_view_def output_count_def)
  show "feed_of (hs_cm_leaves c) (hs_outputs c)" using run_feed_of by (simp add: ls hn_reach_outputs [OF r])
  show "cv_since (state_view (x_perm E) c) k = filter (\<lambda>r. k \<le> or_leaf_index r) (hs_outputs c)" for k
    by (simp add: state_view_def outputs_since_def)
  show "cv_path (state_view (x_perm E) c) i = None" if "length (hs_cm_leaves c) \<le> i" for i
    using that n by (simp add: state_view_def hn_authentication_path_def)
  show "\<exists>p. cv_path (state_view (x_perm E) c) i = Some p
      \<and> opens_leaf (x_perm E) (cv_root (state_view (x_perm E) c)) (hs_cm_leaves c ! i) i p" if "i < length (hs_cm_leaves c)" for i
    using tree_path [OF rep, of i] that p wf n
    by (simp add: state_view_def hn_authentication_path_def hn_tip_root_def ls)
qed

section \<open>The in-memory chain\<close>

definition mem_leaves :: "mem_chain \<Rightarrow> digest list" where
  "mem_leaves m = map or_cm (mc_outputs m)"

definition mem_inv :: "perm \<Rightarrow> mem_chain \<Rightarrow> bool" where
  "mem_inv perm m \<longleftrightarrow> nt_rep perm (mc_tree m) (mem_leaves m) \<and> list_all wf_digest (mem_leaves m)
     \<and> feed_of (mem_leaves m) (mc_outputs m) \<and> nt_root perm (mc_tree m) \<in> set (mc_recent_roots m)"

lemma feed_of_snoc: "feed_of (ls @ [l]) (outs @ [r]) \<longleftrightarrow> feed_of ls outs \<and> or_leaf_index r = length ls \<and> or_cm r = l"
  if "length outs = length ls"
  using that by (auto simp: feed_of_def nth_append less_Suc_eq)

lemma mem_append_ok:
  assumes "mem_append_output perm m cm ct = Some (m', i)" and inv: "mem_inv perm m" and wf: "wf_digest cm"
  shows "mem_inv perm m'" "i = length (mem_leaves m)" "mem_leaves m' = mem_leaves m @ [cm]" "mc_nullifiers m' = mc_nullifiers m"
proof -
  from assms(1) obtain tree where t: "nt_append perm (mc_tree m) cm = Some (tree, i)"
    and m': "mc_tree m' = tree" "mc_nullifiers m' = mc_nullifiers m" "nt_root perm tree \<in> set (mc_recent_roots m')"
      "mc_outputs m' = mc_outputs m @ [\<lparr> or_leaf_index = i, or_cm = cm, or_ciphertext = ct, or_height = mc_height m,
         or_is_coinbase = False \<rparr>]"
    by (auto simp: mem_append_output_def mem_push_root_def Let_def)
  have rep: "nt_rep perm (mc_tree m) (mem_leaves m)" using inv by (simp add: mem_inv_def)
  have "length (mem_leaves m) < 2 ^ depth" using nt_append_full [OF rep, of cm] t by auto
  from nt_rep_append [OF rep this, of cm] t have n: "i = length (mem_leaves m)" "nt_rep perm tree (mem_leaves m @ [cm])" by auto
  show "i = length (mem_leaves m)" "mc_nullifiers m' = mc_nullifiers m" by fact+
  show ls: "mem_leaves m' = mem_leaves m @ [cm]" by (simp add: mem_leaves_def m')
  show "mem_inv perm m'"
    using n inv wf m' by (simp add: mem_inv_def ls feed_of_snoc mem_leaves_def)
qed

lemma mem_submit_ok:
  assumes "mem_submit SC perm m tx = Inr m'" and inv: "mem_inv perm m"
  shows "mem_inv perm m'" "circuit_verify SC (tx_proof tx) (tx_publics tx)"
    "\<exists>nf0 nf1 cm0 cm1. digest_at (tx_publics tx) pub_nf0 = Some nf0 \<and> digest_at (tx_publics tx) pub_nf1 = Some nf1
       \<and> digest_at (tx_publics tx) pub_cmo0 = Some cm0 \<and> digest_at (tx_publics tx) pub_cmo1 = Some cm1
       \<and> nf_key nf0 \<notin> mc_nullifiers m \<and> nf_key nf1 \<notin> mc_nullifiers m
       \<and> mc_nullifiers m' = mc_nullifiers m \<union> {nf_key nf0, nf_key nf1} \<and> mem_leaves m' = mem_leaves m @ [cm0, cm1]"
proof -
  obtain nf0 nf1 cm0 cm1 m2 i2 i3 where v: "circuit_verify SC (tx_proof tx) (tx_publics tx)"
    and d: "digest_at (tx_publics tx) pub_nf0 = Some nf0" "digest_at (tx_publics tx) pub_nf1 = Some nf1"
      "digest_at (tx_publics tx) pub_cmo0 = Some cm0" "digest_at (tx_publics tx) pub_cmo1 = Some cm1"
    and f: "nf_key nf0 \<notin> mc_nullifiers m" "nf_key nf1 \<notin> mc_nullifiers m"
    and a: "mem_append_output perm (m \<lparr> mc_nullifiers := insert (nf_key nf1) (insert (nf_key nf0) (mc_nullifiers m)) \<rparr>) cm0 (tx_ct0 tx)
          = Some (m2, i2)" "mem_append_output perm m2 cm1 (tx_ct1 tx) = Some (m', i3)"
    using assms(1) by (auto simp: mem_submit_def mem_digest_def mem_nullifier_seen_def Let_def result_simps split: if_splits)
  let ?m1 = "m \<lparr> mc_nullifiers := insert (nf_key nf1) (insert (nf_key nf0) (mc_nullifiers m)) \<rparr>"
  have inv1: "mem_inv perm ?m1" and ls1: "mem_leaves ?m1 = mem_leaves m"
    using inv by (simp_all add: mem_inv_def mem_leaves_def)
  have wf: "wf_digest cm0" "wf_digest cm1" using d(3,4) by (auto dest: digest_at_wf)
  note a1 = mem_append_ok [OF a(1) inv1 wf(1)] and a2 = mem_append_ok [OF a(2) _ wf(2)]
  show "mem_inv perm m'" "circuit_verify SC (tx_proof tx) (tx_publics tx)" using a2 a1 v by blast+
  have "mc_nullifiers m' = mc_nullifiers m \<union> {nf_key nf0, nf_key nf1}" "mem_leaves m' = mem_leaves m @ [cm0, cm1]"
    using a1 a2 ls1 by auto
  with d f show "\<exists>nf0 nf1 cm0 cm1. digest_at (tx_publics tx) pub_nf0 = Some nf0 \<and> digest_at (tx_publics tx) pub_nf1 = Some nf1
       \<and> digest_at (tx_publics tx) pub_cmo0 = Some cm0 \<and> digest_at (tx_publics tx) pub_cmo1 = Some cm1
       \<and> nf_key nf0 \<notin> mc_nullifiers m \<and> nf_key nf1 \<notin> mc_nullifiers m
       \<and> mc_nullifiers m' = mc_nullifiers m \<union> {nf_key nf0, nf_key nf1} \<and> mem_leaves m' = mem_leaves m @ [cm0, cm1]" by blast
qed

lemma mem_reach_inv: "mem_reach SC perm m \<Longrightarrow> mem_inv perm m"
proof (induction rule: mem_reach.induct)
  case new
  then show ?case using nt_rep_new by (simp add: mem_inv_def mem_new_def mem_leaves_def feed_of_def)
qed (erule mem_append_ok(1) mem_submit_ok(1); assumption)+

interpretation mem_ledger: note_ledger perm "\<lambda>m. perm_ok perm \<and> mem_reach SC perm m" "mem_view perm" mem_leaves mc_outputs
  for SC perm
proof unfold_locales
  fix c assume "perm_ok perm \<and> mem_reach SC perm c"
  then have p: "perm_ok perm" and inv: "mem_inv perm c" using mem_reach_inv by blast+
  then have rep: "nt_rep perm (mc_tree c) (mem_leaves c)" and wf: "\<forall>d \<in> set (mem_leaves c). wf_digest d"
    and fd: "feed_of (mem_leaves c) (mc_outputs c)" by (simp_all add: mem_inv_def list_all_iff)
  have n: "nt_len (mc_tree c) = length (mem_leaves c)" using rep by (simp add: nt_rep_def nt_len_def)
  show "perm_ok perm" "feed_of (mem_leaves c) (mc_outputs c)" by fact+
  show "list_all wf_digest (mem_leaves c)" "length (mem_leaves c) \<le> 2 ^ depth" using wf rep by (simp_all add: list_all_iff nt_rep_def)
  show "cv_root (mem_view perm c) = merkle_root perm (mem_leaves c)" using nt_root_rep [OF rep] by (simp add: mem_view_def)
  show "cv_count (mem_view perm c) = length (mem_leaves c)" using n by (simp add: mem_view_def)
  show "cv_since (mem_view perm c) k = filter (\<lambda>r. k \<le> or_leaf_index r) (mc_outputs c)" for k by (simp add: mem_view_def)
  show "cv_path (mem_view perm c) i = None" if "length (mem_leaves c) \<le> i" for i using that n by (simp add: mem_view_def)
  show "\<exists>p. cv_path (mem_view perm c) i = Some p \<and> opens_leaf perm (cv_root (mem_view perm c)) (mem_leaves c ! i) i p"
    if "i < length (mem_leaves c)" for i
    using tree_path [OF rep that p wf] that n by (simp add: mem_view_def)
qed

end
