(* ===== verification/Wallet.thy ===== *)
theory Wallet
  imports WalletView
begin

text \<open>
  The wallet (\<^verbatim>\<open>engine/wallet/src/wallet.rs\<close>): note store and scanner, note selection, payments and peg-out
  burns. Fresh randomness (nonces, blindings, ephemeral keys) is an argument. Unchecked 64-bit additions
  wrap, as in the release build.
\<close>

section \<open>State\<close>

record owned_note =
  on_value :: u64
  on_rho :: digest
  on_r :: digest
  on_memo :: bytes
  on_leaf_index :: nat
  on_cm :: digest
  on_spent :: bool
  on_mined_height :: u64
  on_is_coinbase :: bool

record viewing_key =
  vk_enc_sk :: bytes
  vk_owner :: digest

datatype pay_error = PeNotEnoughNotes nat | PeInsufficientFunds | PeMissingPath | PeBadRecipient | PePanic

record wallet =
  wa_keys :: wallet_keys
  wa_owner :: digest
  wa_address :: hn_address
  wa_notes :: "owned_note list"
  wa_scan_cursor :: nat

definition wallet_from_seed :: "ciphers \<Rightarrow> perm \<Rightarrow> bytes \<Rightarrow> wallet" where
  "wallet_from_seed C perm seed =
     (let ks = keys_from_seed C seed
      in \<lparr> wa_keys = ks, wa_owner = owner_key perm (wk_nk ks), wa_address = keys_address C perm ks, wa_notes = [],
           wa_scan_cursor = 0 \<rparr>)"

definition wallet_viewing_key :: "wallet \<Rightarrow> viewing_key" where
  "wallet_viewing_key w = \<lparr> vk_enc_sk = wk_enc_sk (wa_keys w), vk_owner = wa_owner w \<rparr>"

definition vk_detect :: "ciphers \<Rightarrow> perm \<Rightarrow> viewing_key \<Rightarrow> chain_view \<Rightarrow> nat \<Rightarrow> (nat \<times> u64 \<times> bytes) list" where
  "vk_detect C perm vk chain from_cursor =
     List.map_filter (\<lambda>o'. map_option (\<lambda>pt. (or_leaf_index o', np_value pt, np_memo pt))
       (try_decrypt C perm (vk_enc_sk vk) (vk_owner vk) (or_cm o') (or_ciphertext o'))) (cv_since chain from_cursor)"

section \<open>Scanning\<close>

definition note_of :: "output_record \<Rightarrow> note_plaintext \<Rightarrow> owned_note" where
  "note_of o' pt = \<lparr> on_value = np_value pt, on_rho = np_rho pt, on_r = np_r pt, on_memo = np_memo pt,
     on_leaf_index = or_leaf_index o', on_cm = or_cm o', on_spent = False, on_mined_height = or_height o',
     on_is_coinbase = or_is_coinbase o' \<rparr>"

definition scan_output :: "ciphers \<Rightarrow> perm \<Rightarrow> wallet \<Rightarrow> output_record \<Rightarrow> wallet" where
  "scan_output C perm w o' =
     (if \<exists>n \<in> set (wa_notes w). on_leaf_index n = or_leaf_index o' then w
      else case try_decrypt C perm (wk_enc_sk (wa_keys w)) (wa_owner w) (or_cm o') (or_ciphertext o') of
          None \<Rightarrow> w
        | Some pt \<Rightarrow> w \<lparr> wa_notes := wa_notes w @ [note_of o' pt] \<rparr>)"

definition refresh_spent :: "perm \<Rightarrow> chain_view \<Rightarrow> wallet \<Rightarrow> wallet" where
  "refresh_spent perm chain w = w \<lparr> wa_notes := map (\<lambda>n.
     if \<not> on_spent n \<and> cv_seen chain (nullifier perm (wk_nk (wa_keys w)) (on_rho n)) then n \<lparr> on_spent := True \<rparr> else n)
     (wa_notes w) \<rparr>"

definition wallet_scan :: "ciphers \<Rightarrow> perm \<Rightarrow> chain_view \<Rightarrow> wallet \<Rightarrow> wallet" where
  "wallet_scan C perm chain w =
     (let w1 = foldl (scan_output C perm) w (cv_since chain (wa_scan_cursor w))
      in refresh_spent perm chain (w1 \<lparr> wa_scan_cursor := cv_count chain \<rparr>))"

section \<open>Balance and selection\<close>

definition wallet_balance :: "wallet \<Rightarrow> u64" where
  "wallet_balance w = sum_list (map on_value (filter (\<lambda>n. \<not> on_spent n) (wa_notes w)))"

definition is_spendable :: "u64 \<Rightarrow> owned_note \<Rightarrow> bool" where
  "is_spendable tip_height n \<longleftrightarrow> \<not> on_spent n
     \<and> (\<not> on_is_coinbase n \<or> wallet_coinbase_maturity \<le> saturating_sub tip_height (on_mined_height n))"

definition spendable_balance :: "wallet \<Rightarrow> u64 \<Rightarrow> u64" where
  "spendable_balance w tip_height = sum_list (map on_value (filter (is_spendable tip_height) (wa_notes w)))"

text \<open>Value descending, then leaf index ascending: a stable sort by index, then by value.\<close>

definition note_order :: "owned_note list \<Rightarrow> owned_note list" where
  "note_order ns = sort_key (\<lambda>n. 2 ^ 64 - unat (on_value n)) (sort_key on_leaf_index ns)"

definition select_notes :: "wallet \<Rightarrow> u64 \<Rightarrow> u64 \<Rightarrow> pay_error + owned_note \<times> owned_note" where
  "select_notes w need tip_height =
     (let unspent = note_order (filter (is_spendable tip_height) (wa_notes w)) in
      case unspent of
        a # b # rest \<Rightarrow>
          if need \<le> on_value a then Inr (a, last unspent)
          else if need \<le> on_value a + on_value b then Inr (a, b)
          else Inl PeInsufficientFunds
      | _ \<Rightarrow> Inl (PeNotEnoughNotes (length unspent)))"

section \<open>Spending\<close>

record spend_seeds =
  ss_rho_pay :: digest
  ss_r_pay :: digest
  ss_rho_chg :: digest
  ss_r_chg :: digest
  ss_esk_pay :: bytes
  ss_esk_chg :: bytes

definition note_input :: "wallet \<Rightarrow> owned_note \<Rightarrow> input_note" where
  "note_input w n = \<lparr> in_value = on_value n, in_nk = wk_nk (wa_keys w), in_rho = on_rho n, in_r = on_r n,
     in_index = of_nat (on_leaf_index n) \<rparr>"

definition no_memo :: bytes where "no_memo = replicate memo_bytes 0"

definition out_plaintext :: "output_note \<Rightarrow> note_plaintext" where
  "out_plaintext n = \<lparr> np_value = out_value n, np_rho = out_rho n, np_r = out_r n, np_memo = no_memo \<rparr>"

fun mark_spent :: "nat \<Rightarrow> owned_note list \<Rightarrow> owned_note list" where
  "mark_spent i [] = []"
| "mark_spent i (n # ns) = (if on_leaf_index n = i then n \<lparr> on_spent := True \<rparr> # ns else n # mark_spent i ns)"

definition spend_selected :: "wallet \<Rightarrow> owned_note \<Rightarrow> owned_note \<Rightarrow> wallet" where
  "spend_selected w a b =
     w \<lparr> wa_notes := mark_spent (on_leaf_index b) (mark_spent (on_leaf_index a) (wa_notes w)) \<rparr>"

definition spend_paths :: "chain_view \<Rightarrow> owned_note \<Rightarrow> owned_note \<Rightarrow> pay_error + merkle_path \<times> merkle_path" where
  "spend_paths chain a b =
     bind_r (ok_or (cv_path chain (on_leaf_index a)) PeMissingPath) (\<lambda>p0.
     bind_r (ok_or (cv_path chain (on_leaf_index b)) PeMissingPath) (\<lambda>p1. Inr (p0, p1)))"

definition wallet_pay :: "ciphers \<Rightarrow> circuit \<Rightarrow> perm \<Rightarrow> wallet \<Rightarrow> chain_view \<Rightarrow> spend_seeds \<Rightarrow> hn_address \<Rightarrow> u64 \<Rightarrow> u64
    \<Rightarrow> pay_error + wallet \<times> hn_tx" where
  "wallet_pay C SC perm w chain rnd recipient amount fee =
     (let need = amount + fee in
      bind_r (select_notes w need (cv_tip chain)) (\<lambda>(a, b).
      bind_r (spend_paths chain a b) (\<lambda>(p0, p1).
      let change = on_value a + on_value b - need;
          out0 = \<lparr> out_value = amount, out_owner = ad_owner recipient, out_rho = ss_rho_pay rnd, out_r = ss_r_pay rnd \<rparr>;
          out1 = \<lparr> out_value = change, out_owner = wa_owner w, out_rho = ss_rho_chg rnd, out_r = ss_r_chg rnd \<rparr>
      in bind_r (ok_or (circuit_prove SC perm (note_input w a, p0) (note_input w b, p1) (cv_root chain) out0 out1 fee) PePanic)
        (\<lambda>(proof_bytes, publics).
      bind_r (ok_or (encrypt_note_with C recipient (output_cm perm out0) (out_plaintext out0) (ss_esk_pay rnd)) PeBadRecipient)
        (\<lambda>ct_pay.
      bind_r (ok_or (encrypt_note_with C (wa_address w) (output_cm perm out1) (out_plaintext out1) (ss_esk_chg rnd)) PePanic)
        (\<lambda>ct_chg.
        Inr (spend_selected w a b,
             \<lparr> tx_proof = proof_bytes, tx_publics = publics, tx_ct0 = ct_pay, tx_ct1 = ct_chg \<rparr>)))))))"

text \<open>A peg-out burn: the first output is the burn note bound to the recipient and the amount.\<close>

definition wallet_burn_spend :: "ciphers \<Rightarrow> circuit \<Rightarrow> perm \<Rightarrow> wallet \<Rightarrow> chain_view \<Rightarrow> spend_seeds \<Rightarrow> u64 \<Rightarrow> u64 \<Rightarrow> bytes \<Rightarrow> u64
    \<Rightarrow> pay_error + wallet \<times> hn_tx" where
  "wallet_burn_spend C SC perm w chain rnd withdrawal_amount pf recipient_prop fee =
     bind_r (ok_or (checked_add withdrawal_amount pf) PeInsufficientFunds) (\<lambda>burn_value.
     bind_r (ok_or (checked_add burn_value fee) PeInsufficientFunds) (\<lambda>need.
     bind_r (select_notes w need (cv_tip chain)) (\<lambda>(a, b).
     bind_r (spend_paths chain a b) (\<lambda>(p0, p1).
     let nf0 = nullifier perm (wk_nk (wa_keys w)) (on_rho a);
         (rho_burn, r_burn) = burn_nonces perm nf0 recipient_prop withdrawal_amount;
         change = on_value a + on_value b - need;
         out0 = \<lparr> out_value = burn_value, out_owner = burn_owner perm, out_rho = rho_burn, out_r = r_burn \<rparr>;
         out1 = \<lparr> out_value = change, out_owner = wa_owner w, out_rho = ss_rho_chg rnd, out_r = ss_r_chg rnd \<rparr>
     in bind_r (ok_or (circuit_prove SC perm (note_input w a, p0) (note_input w b, p1) (cv_root chain) out0 out1 fee) PePanic)
       (\<lambda>(proof_bytes, publics).
     bind_r (ok_or (encrypt_note_with C (wa_address w) (output_cm perm out0) (out_plaintext out0) (ss_esk_pay rnd)) PePanic)
       (\<lambda>ct_burn.
     bind_r (ok_or (encrypt_note_with C (wa_address w) (output_cm perm out1) (out_plaintext out1) (ss_esk_chg rnd)) PePanic)
       (\<lambda>ct_chg.
       Inr (spend_selected w a b,
            \<lparr> tx_proof = proof_bytes, tx_publics = publics, tx_ct0 = ct_burn, tx_ct1 = ct_chg \<rparr>))))))))"

section \<open>Selection\<close>

lemma note_order_set [simp]: "set (note_order ns) = set ns" "length (note_order ns) = length ns"
  by (simp_all add: note_order_def)

lemma note_order_distinct: "distinct (note_order ns) \<longleftrightarrow> distinct ns"
  by (simp add: note_order_def)

lemma note_order_desc: "sorted_wrt (\<lambda>m n. on_value n \<le> on_value m) (note_order ns)"
proof -
  have "sorted (map (\<lambda>n. 2 ^ 64 - unat (on_value n)) (note_order ns))" by (simp add: note_order_def)
  then have 1: "sorted_wrt (\<lambda>m n. 2 ^ 64 - unat (on_value m) \<le> 2 ^ 64 - unat (on_value n)) (note_order ns)"
    by (simp add: sorted_wrt_map)
  have lt: "unat v < 2 ^ 64" for v :: u64 by (rule order.strict_trans2 [OF unsigned_less]) simp
  have 2: "on_value n \<le> on_value m" if "2 ^ 64 - unat (on_value m) \<le> 2 ^ 64 - unat (on_value n)" for m n :: owned_note
    using that lt [of "on_value m"] lt [of "on_value n"] by (simp add: word_le_nat_alt)
  from 1 show ?thesis by (rule sorted_wrt_mono_rel [rotated]) (rule 2)
qed

lemma select_notes_ok:
  assumes "select_notes w need tip = Inr (a, b)" and "distinct (map on_leaf_index (wa_notes w))"
  shows "a \<in> set (wa_notes w)" "b \<in> set (wa_notes w)" "is_spendable tip a" "is_spendable tip b"
    "on_leaf_index a \<noteq> on_leaf_index b" "need \<le> on_value a \<or> need \<le> on_value a + on_value b"
proof -
  define ns where "ns = note_order (filter (is_spendable tip) (wa_notes w))"
  from assms(1) obtain x xs where ns: "ns = a # x # xs" and b: "b \<in> set (x # xs)"
    and need: "need \<le> on_value a \<or> need \<le> on_value a + on_value b"
    by (auto simp: select_notes_def ns_def [symmetric] split: list.splits if_splits)
  have "set ns \<subseteq> set (wa_notes w)" "\<forall>n \<in> set ns. is_spendable tip n" by (auto simp: ns_def)
  then show "a \<in> set (wa_notes w)" "b \<in> set (wa_notes w)" "is_spendable tip a" "is_spendable tip b" using ns b by auto
  have "distinct (wa_notes w)" using assms(2) by (simp add: distinct_map)
  then have "distinct ns" by (simp add: ns_def note_order_distinct)
  then have "a \<noteq> b" using ns b by auto
  moreover have "inj_on on_leaf_index (set (wa_notes w))" using assms(2) by (simp add: distinct_map)
  ultimately show "on_leaf_index a \<noteq> on_leaf_index b"
    using \<open>a \<in> set (wa_notes w)\<close> \<open>b \<in> set (wa_notes w)\<close> by (auto dest: inj_onD)
  show "need \<le> on_value a \<or> need \<le> on_value a + on_value b" by (rule need)
qed

definition spendable_notes :: "wallet \<Rightarrow> u64 \<Rightarrow> owned_note set" where
  "spendable_notes w tip = {n \<in> set (wa_notes w). is_spendable tip n}"

lemma select_notes_short:
  assumes "distinct (map on_leaf_index (wa_notes w))"
  shows "select_notes w need tip = Inl (PeNotEnoughNotes k) \<longleftrightarrow> k = card (spendable_notes w tip) \<and> k < 2"
proof -
  define ns where "ns = note_order (filter (is_spendable tip) (wa_notes w))"
  have "set ns = spendable_notes w tip" "distinct ns"
    using assms by (auto simp: ns_def spendable_notes_def note_order_distinct distinct_map)
  then have "length ns = card (spendable_notes w tip)" using distinct_card [of ns] by simp
  then show ?thesis
    by (cases ns rule: remdups_adj.cases) (auto simp: select_notes_def ns_def [symmetric] Let_def)
qed

lemma select_notes_errors:
  "select_notes w need tip = Inl e \<Longrightarrow> (\<exists>k. e = PeNotEnoughNotes k) \<or> e = PeInsufficientFunds"
  by (auto simp: select_notes_def Let_def split: list.splits if_splits)

text \<open>As long as two spendable values do not overflow 64 bits, selection misses no pair that covers the need.\<close>

lemma select_notes_funds:
  assumes dist: "distinct (map on_leaf_index (wa_notes w))"
    and small: "\<forall>m \<in> spendable_notes w tip. \<forall>n \<in> spendable_notes w tip. m \<noteq> n \<longrightarrow> unat (on_value m) + unat (on_value n) < 2 ^ 64"
  shows "(select_notes w need tip = Inl PeInsufficientFunds \<longleftrightarrow> 2 \<le> card (spendable_notes w tip)
       \<and> (\<forall>m \<in> spendable_notes w tip. \<forall>n \<in> spendable_notes w tip. m \<noteq> n \<longrightarrow> unat (on_value m) + unat (on_value n) < unat need))
    \<and> (\<forall>a b. select_notes w need tip = Inr (a, b) \<longrightarrow> unat need \<le> unat (on_value a) + unat (on_value b))"
proof -
  define ns where "ns = note_order (filter (is_spendable tip) (wa_notes w))"
  have set_ns: "set ns = spendable_notes w tip" by (auto simp: ns_def spendable_notes_def)
  have d: "distinct ns" using dist by (simp add: ns_def note_order_distinct distinct_map)
  have desc: "sorted_wrt (\<lambda>m n. on_value n \<le> on_value m) ns" unfolding ns_def by (rule note_order_desc)
  consider "length ns < 2" | a b rest where "ns = a # b # rest"
    by (cases ns rule: remdups_adj.cases) auto
  then show ?thesis
  proof cases
    case 1
    then have "select_notes w need tip = Inl (PeNotEnoughNotes (length ns))"
      by (auto simp: select_notes_def ns_def [symmetric] Let_def split: list.split)
    then show ?thesis using 1 distinct_card [OF d] by (simp add: set_ns)
  next
    case 2
    have ne: "a \<noteq> b" "a \<in> spendable_notes w tip" "b \<in> spendable_notes w tip" using d by (auto simp: 2 simp flip: set_ns)
    have sum: "unat (on_value a + on_value b) = unat (on_value a) + unat (on_value b)"
      using small ne by (intro unat_add_fits) blast
    have sel: "select_notes w need tip = (if need \<le> on_value a then Inr (a, last ns)
        else if need \<le> on_value a + on_value b then Inr (a, b) else Inl PeInsufficientFunds)"
      by (simp add: select_notes_def ns_def [symmetric] 2 Let_def)
    have top: "unat (on_value m) + unat (on_value n) \<le> unat (on_value a) + unat (on_value b)"
      if "m \<in> set ns" "n \<in> set ns" "m \<noteq> n" for m n
    proof -
      have "on_value m \<le> on_value a" "on_value n \<le> on_value a" using that desc by (auto simp: 2)
      moreover have "on_value m \<le> on_value b \<or> on_value n \<le> on_value b" using that desc d by (auto simp: 2)
      ultimately show ?thesis by (auto simp: word_le_nat_alt)
    qed
    have "2 \<le> card (spendable_notes w tip)" using distinct_card [OF d] by (simp add: 2 flip: set_ns)
    moreover have "(\<forall>m \<in> spendable_notes w tip. \<forall>n \<in> spendable_notes w tip. m \<noteq> n
        \<longrightarrow> unat (on_value m) + unat (on_value n) < unat need) \<longleftrightarrow> unat (on_value a) + unat (on_value b) < unat need"
      using top ne by (auto simp: set_ns intro: le_less_trans)
    ultimately show ?thesis
      unfolding sel using sum by (auto simp: word_le_nat_alt not_le)
  qed
qed

text \<open>The change of a payment is a 64-bit amount: the two notes cover amount and fee, and not by more than 64 bits.\<close>

definition change_fits :: "owned_note \<Rightarrow> owned_note \<Rightarrow> u64 \<Rightarrow> u64 \<Rightarrow> bool" where
  "change_fits a b amount fee \<longleftrightarrow> unat amount + unat fee \<le> unat (on_value a) + unat (on_value b)
     \<and> unat (on_value a) + unat (on_value b) < unat amount + unat fee + 2 ^ 64"

lemma change_fits_iff:
  fixes amount fee :: u64
  shows "unat (on_value a) + unat (on_value b) = unat amount + unat (on_value a + on_value b - (amount + fee)) + unat fee
    \<longleftrightarrow> change_fits a b amount fee"
proof -
  let ?x = "uint (on_value a) + uint (on_value b)" and ?y = "uint amount + uint fee"
  have big: "(2 :: nat) ^ 64 = 18446744073709551616" "(2 :: int) ^ 64 = 18446744073709551616" by simp_all
  have u: "int (unat v) = uint v" for v :: u64 by simp
  have c: "uint (on_value a + on_value b - (amount + fee)) = (?x - ?y) mod 2 ^ 64"
    by (simp add: uint_word_ariths mod_simps)
  have "?x = ?y + (?x - ?y) mod 2 ^ 64 \<longleftrightarrow> 0 \<le> ?x - ?y \<and> ?x - ?y < 2 ^ 64"
  proof
    assume h: "?x = ?y + (?x - ?y) mod 2 ^ 64"
    have "0 \<le> (?x - ?y) mod 2 ^ 64" "(?x - ?y) mod 2 ^ 64 < 2 ^ 64" by simp_all
    with h show "0 \<le> ?x - ?y \<and> ?x - ?y < 2 ^ 64" by linarith
  qed simp
  moreover have "unat (on_value a) + unat (on_value b) = unat amount + unat (on_value a + on_value b - (amount + fee)) + unat fee
      \<longleftrightarrow> ?x = ?y + uint (on_value a + on_value b - (amount + fee))"
    using u [of "on_value a"] u [of "on_value b"] u [of amount] u [of fee] u [of "on_value a + on_value b - (amount + fee)"] by linarith
  moreover have "change_fits a b amount fee \<longleftrightarrow> 0 \<le> ?x - ?y \<and> ?x - ?y < 2 ^ 64"
    unfolding change_fits_def big using u [of "on_value a"] u [of "on_value b"] u [of amount] u [of fee]
    by (intro arg_cong2 [where f = conj]) linarith+
  ultimately show ?thesis unfolding c by blast
qed

end
