(* ===== verification/WalletScan.thy ===== *)
theory WalletScan
  imports Wallet
begin

text \<open>
  The note store of a wallet: every note it holds is a leaf of the chain with an opening the wallet
  decrypted, and scanning records exactly the outputs that decrypt. Proved once for the contract
  \<open>note_ledger\<close>.
\<close>

section \<open>The store\<close>

definition note_ok :: "perm \<Rightarrow> digest \<Rightarrow> digest list \<Rightarrow> owned_note \<Rightarrow> bool" where
  "note_ok perm owner ls n \<longleftrightarrow> on_leaf_index n < length ls \<and> on_cm n = ls ! on_leaf_index n
     \<and> on_cm n = note_commitment perm (on_value n) owner (on_rho n) (on_r n) \<and> wf_digest (on_rho n) \<and> wf_digest (on_r n)"

definition wallet_ok :: "ciphers \<Rightarrow> perm \<Rightarrow> digest list \<Rightarrow> wallet \<Rightarrow> bool" where
  "wallet_ok C perm ls w \<longleftrightarrow> wf_digest (wk_nk (wa_keys w)) \<and> wa_owner w = owner_key perm (wk_nk (wa_keys w))
     \<and> wa_address w = keys_address C perm (wa_keys w) \<and> distinct (map on_leaf_index (wa_notes w))
     \<and> (\<forall>n \<in> set (wa_notes w). note_ok perm (wa_owner w) ls n \<and> on_leaf_index n < wa_scan_cursor w)
     \<and> wa_scan_cursor w \<le> length ls"

lemma wallet_okD:
  assumes "wallet_ok C perm ls w"
  shows "wf_digest (wk_nk (wa_keys w))" "wa_owner w = owner_key perm (wk_nk (wa_keys w))"
    "wa_address w = keys_address C perm (wa_keys w)" "distinct (map on_leaf_index (wa_notes w))"
    "n \<in> set (wa_notes w) \<Longrightarrow> note_ok perm (wa_owner w) ls n" "wa_scan_cursor w \<le> length ls"
  using assms unfolding wallet_ok_def by blast+

lemma wallet_ok_from_seed: "wallet_ok C perm [] (wallet_from_seed C perm seed)"
  using wf_keys [of C seed] by (simp add: wallet_ok_def wallet_from_seed_def Let_def)

lemma note_ok_prefix: "note_ok perm owner ls n \<Longrightarrow> note_ok perm owner (ls @ ds) n"
  by (auto simp: note_ok_def nth_append)

lemma wallet_ok_prefix: "wallet_ok C perm ls w \<Longrightarrow> wallet_ok C perm (ls @ ds) w"
  by (auto simp: wallet_ok_def intro: note_ok_prefix)

text \<open>The notes a list of outputs adds.\<close>

definition decrypted :: "ciphers \<Rightarrow> perm \<Rightarrow> wallet \<Rightarrow> output_record \<Rightarrow> owned_note option" where
  "decrypted C perm w o' = map_option (note_of o')
     (try_decrypt C perm (wk_enc_sk (wa_keys w)) (wa_owner w) (or_cm o') (or_ciphertext o'))"

lemma note_of_fields [simp]:
  "on_leaf_index (note_of o' pt) = or_leaf_index o'" "on_cm (note_of o' pt) = or_cm o'" "\<not> on_spent (note_of o' pt)"
  "on_value (note_of o' pt) = np_value pt" "on_rho (note_of o' pt) = np_rho pt" "on_r (note_of o' pt) = np_r pt"
  by (simp_all add: note_of_def)

lemma decrypted_index: "decrypted C perm w o' = Some n \<Longrightarrow> on_leaf_index n = or_leaf_index o'"
  by (auto simp: decrypted_def)

lemma map_filter_simps' [simp]:
  "List.map_filter f [] = []" "List.map_filter f (x # xs) = (case f x of None \<Rightarrow> List.map_filter f xs | Some y \<Rightarrow> y # List.map_filter f xs)"
  by (simp_all add: List.map_filter_def split: option.split)

lemma set_map_filter': "set (List.map_filter f xs) = {y. \<exists>x \<in> set xs. f x = Some y}"
  by (induction xs) (auto split: option.split)

lemma decrypted_cong: "wa_keys w = wa_keys w' \<Longrightarrow> wa_owner w = wa_owner w' \<Longrightarrow> decrypted C perm w = decrypted C perm w'"
  by (simp add: decrypted_def [abs_def])

lemma scan_outputs:
  assumes "distinct (map or_leaf_index os)" and "\<forall>n \<in> set (wa_notes w). on_leaf_index n \<notin> or_leaf_index ` set os"
  shows "foldl (scan_output C perm) w os = w \<lparr> wa_notes := wa_notes w @ List.map_filter (decrypted C perm w) os \<rparr>"
  using assms
proof (induction os arbitrary: w)
  case (Cons o' os)
  show ?case
  proof (cases "decrypted C perm w o'")
    case None
    then have "scan_output C perm w o' = w"
      by (auto simp: scan_output_def decrypted_def split: option.split)
    with Cons.IH [of w] Cons.prems None show ?thesis by simp
  next
    case (Some n)
    then have step: "scan_output C perm w o' = w \<lparr> wa_notes := wa_notes w @ [n] \<rparr>"
      using Cons.prems(2) by (auto simp: scan_output_def decrypted_def)
    have d: "decrypted C perm (w \<lparr> wa_notes := wa_notes w @ [n] \<rparr>) = decrypted C perm w" by (rule decrypted_cong) simp_all
    show ?thesis
      using Cons.IH [of "w \<lparr> wa_notes := wa_notes w @ [n] \<rparr>"] Cons.prems Some decrypted_index [OF Some]
      by (auto simp: step d)
  qed
qed simp

lemma feed_of_since:
  assumes "feed_of ls outs" "k \<le> length ls"
  shows "filter (\<lambda>r. k \<le> or_leaf_index r) outs = drop k outs" "map or_leaf_index outs = [0..<length ls]"
proof -
  show m: "map or_leaf_index outs = [0..<length ls]"
    using assms(1) by (auto simp: feed_of_def intro!: nth_equalityI)
  have "filter (\<lambda>r. k \<le> or_leaf_index r) (take k outs) = []"
    using assms by (auto simp: feed_of_def filter_empty_conv in_set_conv_nth)
  moreover have "filter (\<lambda>r. k \<le> or_leaf_index r) (drop k outs) = drop k outs"
    using assms by (auto simp: feed_of_def filter_id_conv in_set_conv_nth)
  ultimately show "filter (\<lambda>r. k \<le> or_leaf_index r) outs = drop k outs"
    by (metis append_Nil append_take_drop_id filter_append)
qed

section \<open>Marking notes spent\<close>

lemma refresh_spent_fields [simp]:
  "wa_keys (refresh_spent perm chain w) = wa_keys w" "wa_owner (refresh_spent perm chain w) = wa_owner w"
  "wa_address (refresh_spent perm chain w) = wa_address w" "wa_scan_cursor (refresh_spent perm chain w) = wa_scan_cursor w"
  by (simp_all add: refresh_spent_def)

text \<open>Two lists of notes that differ in their marks only.\<close>

definition same_notes :: "owned_note list \<Rightarrow> owned_note list \<Rightarrow> bool" where
  "same_notes = list_all2 (\<lambda>m n. \<exists>b. n = m \<lparr> on_spent := b \<rparr>)"

lemma same_notes_index: "same_notes ms ns \<Longrightarrow> map on_leaf_index ns = map on_leaf_index ms"
  unfolding same_notes_def by (induction rule: list_all2_induct) auto

lemma same_notes_ok: "same_notes ms ns \<Longrightarrow> (\<forall>n \<in> set ns. note_ok perm owner ls n) \<longleftrightarrow> (\<forall>m \<in> set ms. note_ok perm owner ls m)"
  unfolding same_notes_def by (induction rule: list_all2_induct) (auto simp: note_ok_def)

lemma same_notes_refresh: "same_notes (wa_notes w) (wa_notes (refresh_spent perm chain w))"
proof -
  have s1: "\<exists>b. n = n \<lparr> on_spent := b \<rparr>" for n by (rule exI [of _ "on_spent n"]) simp
  have s2: "\<exists>b. n \<lparr> on_spent := True \<rparr> = n \<lparr> on_spent := b \<rparr>" for n :: owned_note by blast
  show ?thesis
    by (simp add: refresh_spent_def same_notes_def list_all2_map2 list_all2_same) (use s1 s2 in blast)
qed

lemma same_notes_mark: "same_notes ns (mark_spent i ns)"
proof (induction ns)
  case (Cons n ns)
  have "\<exists>b. n = n \<lparr> on_spent := b \<rparr>" for n by (rule exI [of _ "on_spent n"]) simp
  with Cons show ?case by (auto simp: same_notes_def list_all2_same)
qed (simp add: same_notes_def)

lemma wallet_ok_same:
  assumes "wallet_ok C perm ls w" "same_notes (wa_notes w) ns"
  shows "wallet_ok C perm ls (w \<lparr> wa_notes := ns \<rparr>)"
proof -
  have "\<forall>n \<in> set ns. on_leaf_index n < wa_scan_cursor w"
    using assms(1) arg_cong [OF same_notes_index [OF assms(2)], of set] by (force simp: wallet_ok_def)
  then show ?thesis
    using assms same_notes_index [OF assms(2)] same_notes_ok [OF assms(2), of perm "wa_owner w" ls]
    by (auto simp: wallet_ok_def)
qed

lemma refresh_notes: "refresh_spent perm chain w = w \<lparr> wa_notes := wa_notes (refresh_spent perm chain w) \<rparr>"
  by (simp add: refresh_spent_def)

lemma wallet_ok_refresh: "wallet_ok C perm ls w \<Longrightarrow> wallet_ok C perm ls (refresh_spent perm chain w)"
  using wallet_ok_same [OF _ same_notes_refresh [of w perm chain]] refresh_notes [of perm chain w] by simp

lemma same_notes_trans: "same_notes a b \<Longrightarrow> same_notes b c \<Longrightarrow> same_notes a c"
  unfolding same_notes_def by (rule list_all2_trans) auto

lemma wallet_ok_spend: "wallet_ok C perm ls w \<Longrightarrow> wallet_ok C perm ls (spend_selected w a b)"
  unfolding spend_selected_def by (rule wallet_ok_same) (blast intro: same_notes_trans same_notes_mark)+

section \<open>Scanning a chain\<close>

context note_ledger
begin

lemma scan_is:
  assumes ok: "ok c" and w: "wallet_ok C perm ls w" and ls: "leaves c = ls @ ds"
  shows "wallet_scan C perm (view c) w = refresh_spent perm (view c)
    (w \<lparr> wa_notes := wa_notes w @ List.map_filter (decrypted C perm w) (drop (wa_scan_cursor w) (feed c)),
         wa_scan_cursor := length (leaves c) \<rparr>)"
proof -
  let ?k = "wa_scan_cursor w"
  have k: "?k \<le> length (leaves c)" using w ls by (simp add: wallet_ok_def)
  note f = feed_of_since [OF feed [OF ok] k]
  have idx: "map or_leaf_index (drop ?k (feed c)) = [?k..<length (leaves c)]"
    using arg_cong [OF f(2), of "drop ?k"] by (simp add: drop_map)
  have "foldl (scan_output C perm) w (drop ?k (feed c))
      = w \<lparr> wa_notes := wa_notes w @ List.map_filter (decrypted C perm w) (drop ?k (feed c)) \<rparr>"
  proof (rule scan_outputs)
    show "distinct (map or_leaf_index (drop ?k (feed c)))" by (simp add: idx)
    have "or_leaf_index ` set (drop ?k (feed c)) = {?k..<length (leaves c)}"
      using arg_cong [OF idx, of set] by simp
    then show "\<forall>n \<in> set (wa_notes w). on_leaf_index n \<notin> or_leaf_index ` set (drop ?k (feed c))"
      using w by (auto simp: wallet_ok_def)
  qed
  then show ?thesis by (simp add: wallet_scan_def since [OF ok] f(1) count [OF ok])
qed

lemma scan_ok:
  assumes ok: "ok c" and w: "wallet_ok C perm ls w" and ls: "leaves c = ls @ ds"
  shows "wallet_ok C perm (leaves c) (wallet_scan C perm (view c) w)"
proof -
  let ?k = "wa_scan_cursor w" and ?new = "List.map_filter (decrypted C perm w) (drop (wa_scan_cursor w) (feed c))"
  have w': "wallet_ok C perm (leaves c) w" unfolding ls by (rule wallet_ok_prefix [OF w])
  have k: "?k \<le> length (leaves c)" using w' by (simp add: wallet_ok_def)
  note f = feed_of_since [OF feed [OF ok] k]
  have idx: "map or_leaf_index (drop ?k (feed c)) = [?k..<length (leaves c)]"
    using arg_cong [OF f(2), of "drop ?k"] by (simp add: drop_map)
  have src: "\<exists>o' \<in> set os. on_leaf_index n = or_leaf_index o'" if "n \<in> set (List.map_filter (decrypted C perm w) os)" for n os
    using that by (auto simp: set_map_filter' dest: decrypted_index)
  have mf: "distinct (map on_leaf_index (List.map_filter (decrypted C perm w) os)) \<and>
      on_leaf_index ` set (List.map_filter (decrypted C perm w) os) \<subseteq> or_leaf_index ` set os" if "distinct (map or_leaf_index os)" for os
    using that
  proof (induction os)
    case (Cons o' os)
    then show ?case
      by (cases "decrypted C perm w o'") (auto dest!: src decrypted_index simp: image_iff)
  qed simp
  have "distinct (map or_leaf_index (drop ?k (feed c)))" by (simp add: idx)
  note new = mf [OF this]
  have rng: "on_leaf_index ` set ?new \<subseteq> {?k..<length (leaves c)}"
    using new arg_cong [OF idx, of set] by simp
  have nok: "note_ok perm (wa_owner w) (leaves c) n" if "n \<in> set ?new" for n
  proof -
    from that obtain o' where o': "o' \<in> set (feed c)" "decrypted C perm w o' = Some n"
      by (auto simp: set_map_filter' dest: in_set_dropD)
    from o'(2) obtain pt where pt: "try_decrypt C perm (wk_enc_sk (wa_keys w)) (wa_owner w) (or_cm o') (or_ciphertext o') = Some pt"
      and n: "n = note_of o' pt" by (auto simp: decrypted_def)
    from o'(1) feed [OF ok] obtain i where "i < length (leaves c)" "or_leaf_index o' = i" "or_cm o' = leaves c ! i"
      by (auto simp: feed_of_def in_set_conv_nth)
    with try_decrypt_SomeD [OF pt] show ?thesis by (simp add: note_ok_def n wf_plaintext_def)
  qed
  have "wallet_ok C perm (leaves c) (w \<lparr> wa_notes := wa_notes w @ ?new, wa_scan_cursor := length (leaves c) \<rparr>)"
    using w' nok new rng by (force simp: wallet_ok_def)
  then show ?thesis unfolding scan_is [OF assms] by (rule wallet_ok_refresh)
qed

text \<open>After a scan every note still unspent in the store is unspent on the chain.\<close>

lemma scan_unseen:
  "n \<in> set (wa_notes (wallet_scan C perm (view c) w)) \<Longrightarrow> \<not> on_spent n \<Longrightarrow>
    \<not> cv_seen (view c) (nullifier perm (wk_nk (wa_keys (wallet_scan C perm (view c) w))) (on_rho n))"
  by (auto simp: wallet_scan_def Let_def refresh_spent_def split: if_splits)

lemma scan_keys [simp]: "wa_keys (wallet_scan C perm (view c) w) = wa_keys w" "wa_owner (wallet_scan C perm (view c) w) = wa_owner w"
proof -
  have "wa_keys (foldl (scan_output C perm) w os) = wa_keys w \<and> wa_owner (foldl (scan_output C perm) w os) = wa_owner w" for os
    by (induction os arbitrary: w) (simp_all add: scan_output_def split: option.split)
  then show "wa_keys (wallet_scan C perm (view c) w) = wa_keys w" "wa_owner (wallet_scan C perm (view c) w) = wa_owner w"
    by (simp_all add: wallet_scan_def Let_def)
qed

lemma scan_finds:
  assumes ok: "ok c" and w: "wallet_ok C perm ls w" and ls: "leaves c = ls @ ds"
    and o': "o' \<in> set (feed c)" "wa_scan_cursor w \<le> or_leaf_index o'"
    and pt: "try_decrypt C perm (wk_enc_sk (wa_keys w)) (wa_owner w) (or_cm o') (or_ciphertext o') = Some pt"
  shows "\<exists>n \<in> set (wa_notes (wallet_scan C perm (view c) w)). on_leaf_index n = or_leaf_index o' \<and> on_value n = np_value pt
     \<and> on_rho n = np_rho pt \<and> on_r n = np_r pt \<and> on_cm n = or_cm o' \<and> (on_spent n \<longrightarrow> cv_seen (view c) (nullifier perm (wk_nk (wa_keys w)) (on_rho n)))"
proof -
  have k: "wa_scan_cursor w \<le> length (leaves c)" using w ls by (simp add: wallet_ok_def)
  have "o' \<in> set (drop (wa_scan_cursor w) (feed c))"
    using feed_of_since(1) [OF feed [OF ok] k] o' by (metis (mono_tags, lifting) mem_Collect_eq set_filter)
  then have n: "note_of o' pt \<in> set (List.map_filter (decrypted C perm w) (drop (wa_scan_cursor w) (feed c)))"
    using pt by (force simp: set_map_filter' decrypted_def)
  let ?f = "\<lambda>n. if \<not> on_spent n \<and> cv_seen (view c) (nullifier perm (wk_nk (wa_keys w)) (on_rho n)) then n \<lparr> on_spent := True \<rparr> else n"
  have "?f (note_of o' pt) \<in> set (wa_notes (wallet_scan C perm (view c) w))"
    unfolding scan_is [OF ok w ls] refresh_spent_def using n by simp
  then show ?thesis by (rule bexI [rotated]) simp
qed

end

end
