(* ===== verification/WalletPay.thy ===== *)
theory WalletPay
  imports WalletScan
begin

text \<open>
  What a wallet pays is what the ledger accepts: the transaction of \<^verbatim>\<open>pay\<close> and \<^verbatim>\<open>burn_spend\<close> proves a valid
  spend under the root the chain reports, and fails only for the reasons its error type names.
\<close>

section \<open>The prover behind the circuit\<close>

lemma f_of_canonical_map: "canon pis \<Longrightarrow> map f_of_u32 (map as_canonical_u32 pis) = pis"
  by (induction pis) (simp_all add: f_of_u32_canonical)

lemma circuit_prove_exact:
  assumes S: "prover_ok L SC" and root: "wf_digest root"
    and args: "path_args_ok ip0" "path_args_ok ip1" "wf_output out0" "wf_output out1"
  shows "case circuit_prove SC (p2_permute L) ip0 ip1 root out0 out1 fee of
      None \<Rightarrow> \<not> valid_spend (p2_permute L) root ip0 ip1 out0 out1 fee
    | Some (pf, publics) \<Rightarrow> valid_spend (p2_permute L) root ip0 ip1 out0 out1 fee
        \<and> map f_of_u32 publics = spend_pis (p2_permute L) root (fst ip0) (fst ip1) out0 out1 fee
        \<and> length publics = n_pub \<and> circuit_verify SC pf publics"
proof -
  note S' = S [unfolded prover_ok_def]
  have L: "layers_ok L" and g: "trace_gen_ok L (sc_gen SC)" "inverse_ok (sc_inverse SC)" using S' by blast+
  from spend_prover_lemma [OF L g root args, of fee] show ?thesis
  proof (cases "build_spend_trace_with_paths (sc_gen SC) (sc_inverse SC) (p2_permute L) ip0 ip1 root out0 out1 fee")
    case (Some tp)
    obtain trace pis where tp: "tp = (trace, pis)" by (cases tp)
    have v': "valid_spend (p2_permute L) root ip0 ip1 out0 out1 fee
        \<and> pis = spend_pis (p2_permute L) root (fst ip0) (fst ip1) out0 out1 fee \<and> accepted_trace L pis trace"
      using spend_prover_lemma [OF L g root args, of fee] unfolding Some tp option.case prod.case .
    then have v: "valid_spend (p2_permute L) root ip0 ip1 out0 out1 fee"
      "pis = spend_pis (p2_permute L) root (fst ip0) (fst ip1) out0 out1 fee" "accepted_trace L pis trace" by blast+
    note m = f_of_canonical_map [OF accepted_traceD(3) [OF v(3)]]
    have len: "length (map as_canonical_u32 pis) = n_pub" using accepted_traceD(2) [OF v(3)] by (simp add: n_pub_def)
    have "sc_verify SC (sc_prove SC trace pis) pis" using S' v(3) by blast
    then have "circuit_verify SC (sc_prove SC trace pis) (map as_canonical_u32 pis)"
      using len unfolding circuit_verify_def m by simp
    with v m len show ?thesis by (simp add: circuit_prove_def Some tp)
  qed (simp add: circuit_prove_def)
qed

text \<open>A transaction that carries a proof of a valid spend.\<close>

definition proves_spend :: "circuit \<Rightarrow> perm \<Rightarrow> digest \<Rightarrow> input_note \<times> merkle_path \<Rightarrow> input_note \<times> merkle_path \<Rightarrow>
    output_note \<Rightarrow> output_note \<Rightarrow> u64 \<Rightarrow> hn_tx \<Rightarrow> bool" where
  "proves_spend SC perm root ip0 ip1 out0 out1 fee tx \<longleftrightarrow> valid_spend perm root ip0 ip1 out0 out1 fee
     \<and> map f_of_u32 (tx_publics tx) = spend_pis perm root (fst ip0) (fst ip1) out0 out1 fee
     \<and> length (tx_publics tx) = n_pub \<and> circuit_verify SC (tx_proof tx) (tx_publics tx)
     \<and> length (tx_ct0 tx) = note_ct_bytes \<and> length (tx_ct1 tx) = note_ct_bytes"

lemma proves_spend_accepted:
  assumes tx: "proves_spend SC (x_perm E) root ip0 ip1 out0 out1 fee tx"
    and perm: "perm_ok (x_perm E)" and root: "wf_digest root" "root \<in> set (hs_recent_roots s)"
    and V: "x_spend_verify E = circuit_verify SC" and fee: "fee = hp_flat_fee (hs_params s)"
    and fresh: "nf_key (nullifier (x_perm E) (in_nk (fst ip0)) (in_rho (fst ip0))) \<notin> hs_nullifiers s \<union> pending"
      "nf_key (nullifier (x_perm E) (in_nk (fst ip1)) (in_rho (fst ip1))) \<notin> hs_nullifiers s \<union> pending"
  shows "validate_tx E s tx pending = Inr (nullifier (x_perm E) (in_nk (fst ip0)) (in_rho (fst ip0)),
      nullifier (x_perm E) (in_nk (fst ip1)) (in_rho (fst ip1)))"
proof -
  note T = tx [unfolded proves_spend_def]
  note parts = spend_pis_parts [OF T [THEN conjunct2, THEN conjunct1] perm root(1)]
  have len: "length (tx_publics tx) = 44" using T by (simp add: n_pub_def)
  have "tx_fee tx = Inr (Some fee)"
    using parts(6) limbs_roundtrip [of fee] len by (simp add: tx_fee_def pub_fee_def n_limbs_def)
  then show ?thesis
    using T parts(1-3) root(2) fresh fee by (simp add: validate_tx_def pub_digest_def result_simps V)
qed

section \<open>Selected notes as inputs\<close>

lemma note_input_fields [simp]:
  "in_value (note_input w n) = on_value n" "in_nk (note_input w n) = wk_nk (wa_keys w)" "in_rho (note_input w n) = on_rho n"
  "in_r (note_input w n) = on_r n" "in_index (note_input w n) = of_nat (on_leaf_index n)"
  by (simp_all add: note_input_def)

lemma wf_out_plaintext: "wf_output n \<Longrightarrow> wf_plaintext (out_plaintext n)"
  by (simp add: wf_output_def wf_plaintext_def out_plaintext_def no_memo_def)

lemma out_plaintext_fields [simp]:
  "np_value (out_plaintext n) = out_value n" "np_rho (out_plaintext n) = out_rho n" "np_r (out_plaintext n) = out_r n"
  by (simp_all add: out_plaintext_def)

definition wf_seeds :: "spend_seeds \<Rightarrow> bool" where
  "wf_seeds rnd \<longleftrightarrow> wf_digest (ss_rho_pay rnd) \<and> wf_digest (ss_r_pay rnd) \<and> wf_digest (ss_rho_chg rnd) \<and> wf_digest (ss_r_chg rnd)"

context note_ledger
begin

lemma wf_root: "ok c \<Longrightarrow> wf_digest (cv_root (view c))"
  using wf_merkle_root [OF ok_perm] wf_leaves by (simp add: root list_all_iff)

lemma note_opens:
  assumes ok: "ok c" and w: "wallet_ok C perm (leaves c) w" and n: "n \<in> set (wa_notes w)"
  shows "\<exists>p. cv_path (view c) (on_leaf_index n) = Some p \<and> path_args_ok (note_input w n, p)
     \<and> opens_to perm (cv_root (view c)) (note_input w n) p"
proof -
  note n' = wallet_okD(5) [OF w n, unfolded note_ok_def]
  from path_some [OF ok, of "on_leaf_index n"] n' obtain p where p: "cv_path (view c) (on_leaf_index n) = Some p"
    "opens_leaf perm (cv_root (view c)) (on_cm n) (on_leaf_index n) p" by auto
  have lt: "on_leaf_index n < 2 ^ depth" using n' capacity [OF ok] by linarith
  then have u: "unat (of_nat (on_leaf_index n) :: u64) = on_leaf_index n"
    by (intro unat_of_nat_small) (simp add: depth_def)
  have cm: "on_cm n = note_commitment perm (on_value n) (wa_owner w) (on_rho n) (on_r n)"
    and wf: "wf_digest (on_rho n)" "wf_digest (on_r n)" using n' by blast+
  have "input_cm perm (note_input w n) = on_cm n"
    unfolding cm wallet_okD(2) [OF w] by (simp add: input_cm_def)
  then show ?thesis
    using p lt u wf wallet_okD(1) [OF w]
    by (auto simp: opens_to_def path_args_ok_def opens_leaf_def wf_input_def)
qed

lemma spend_paths_ok:
  assumes ok: "ok c" and w: "wallet_ok C perm (leaves c) w" and n: "a \<in> set (wa_notes w)" "b \<in> set (wa_notes w)"
  obtains p0 p1 where "spend_paths (view c) a b = Inr (p0, p1)" "path_args_ok (note_input w a, p0)" "path_args_ok (note_input w b, p1)"
    "opens_to perm (cv_root (view c)) (note_input w a) p0" "opens_to perm (cv_root (view c)) (note_input w b) p1"
  using note_opens [OF ok w n(1)] note_opens [OF ok w n(2)] by (auto simp: spend_paths_def)

lemma own_wf: "ok c \<Longrightarrow> wallet_ok C perm ls w \<Longrightarrow> wf_digest (wa_owner w)"
  by (simp add: wallet_okD(2) owner_key_wf ok_perm)

text \<open>A payment that succeeds.\<close>

lemma pay_proves:
  assumes ok: "ok c" and w: "wallet_ok C perm (leaves c) w" and S: "prover_ok L SC" and L: "perm = p2_permute L"
    and C: "cipher_ok C" and rec: "wf_address recipient" and rnd: "wf_seeds rnd"
    and pay: "wallet_pay C SC perm w (view c) rnd recipient amount fee = Inr (w', tx)"
  obtains a b p0 p1 out1 where "a \<in> set (wa_notes w)" "b \<in> set (wa_notes w)"
    "is_spendable (cv_tip (view c)) a" "is_spendable (cv_tip (view c)) b" "on_leaf_index a \<noteq> on_leaf_index b"
    "proves_spend SC perm (cv_root (view c)) (note_input w a, p0) (note_input w b, p1)
       \<lparr> out_value = amount, out_owner = ad_owner recipient, out_rho = ss_rho_pay rnd, out_r = ss_r_pay rnd \<rparr> out1 fee tx"
    "out_owner out1 = wa_owner w" "w' = spend_selected w a b"
    "encrypt_note_with C recipient (output_cm perm \<lparr> out_value = amount, out_owner = ad_owner recipient,
         out_rho = ss_rho_pay rnd, out_r = ss_r_pay rnd \<rparr>)
       (out_plaintext \<lparr> out_value = amount, out_owner = ad_owner recipient, out_rho = ss_rho_pay rnd, out_r = ss_r_pay rnd \<rparr>)
       (ss_esk_pay rnd) = Some (tx_ct0 tx)"
    "encrypt_note_with C (wa_address w) (output_cm perm out1) (out_plaintext out1) (ss_esk_chg rnd) = Some (tx_ct1 tx)"
proof -
  let ?out0 = "\<lparr> out_value = amount, out_owner = ad_owner recipient, out_rho = ss_rho_pay rnd, out_r = ss_r_pay rnd \<rparr>"
  from pay obtain a b where sel: "select_notes w (amount + fee) (cv_tip (view c)) = Inr (a, b)"
    by (auto simp: wallet_pay_def Let_def result_simps)
  note ab = select_notes_ok [OF sel wallet_okD(4) [OF w]]
  obtain p0 p1 where p: "spend_paths (view c) a b = Inr (p0, p1)" "path_args_ok (note_input w a, p0)" "path_args_ok (note_input w b, p1)"
    by (rule spend_paths_ok [OF ok w ab(1,2)])
  define out1 where "out1 = \<lparr> out_value = on_value a + on_value b - (amount + fee), out_owner = wa_owner w,
    out_rho = ss_rho_chg rnd, out_r = ss_r_chg rnd \<rparr>"
  from pay obtain pf publics ct0 ct1 where
    c: "circuit_prove SC perm (note_input w a, p0) (note_input w b, p1) (cv_root (view c)) ?out0 out1 fee = Some (pf, publics)"
    and e: "encrypt_note_with C recipient (output_cm perm ?out0) (out_plaintext ?out0) (ss_esk_pay rnd) = Some ct0"
      "encrypt_note_with C (wa_address w) (output_cm perm out1) (out_plaintext out1) (ss_esk_chg rnd) = Some ct1"
    and tx: "w' = spend_selected w a b" "tx = \<lparr> tx_proof = pf, tx_publics = publics, tx_ct0 = ct0, tx_ct1 = ct1 \<rparr>"
    by (auto simp: wallet_pay_def Let_def result_simps sel p out1_def)
  have wf: "wf_output ?out0" "wf_output out1"
    using rec rnd own_wf [OF ok w] by (simp_all add: wf_address_def wf_seeds_def out1_def wf_output_def)
  have lens: "length ct0 = note_ct_bytes" "length ct1 = note_ct_bytes"
    using encrypt_note_length [OF C wf_out_plaintext [OF wf(1)] e(1)] encrypt_note_length [OF C wf_out_plaintext [OF wf(2)] e(2)] by simp_all
  have "proves_spend SC perm (cv_root (view c)) (note_input w a, p0) (note_input w b, p1) ?out0 out1 fee tx"
    using circuit_prove_exact [OF S wf_root [OF ok] p(2,3) wf, of fee] c lens by (simp add: L tx proves_spend_def)
  with ab(1-5) e tx show thesis by (intro that [of a b p0 p1 out1]) (simp_all add: out1_def)
qed

text \<open>A burn that succeeds.\<close>

lemma wf_burn_note: "perm_ok perm \<Longrightarrow> burn_nonces perm nf0 prop v = (rho, r) \<Longrightarrow>
    wf_digest (burn_owner perm) \<and> wf_digest rho \<and> wf_digest r"
  by (auto simp: burn_nonces_def burn_owner_def Let_def intro: wf_hash_domain)

lemma burn_proves:
  assumes ok: "ok c" and w: "wallet_ok C perm (leaves c) w" and S: "prover_ok L SC" and L: "perm = p2_permute L"
    and C: "cipher_ok C" and rnd: "wf_seeds rnd"
    and pay: "wallet_burn_spend C SC perm w (view c) rnd amount pf prop fee = Inr (w', tx)"
  obtains a b p0 p1 out0 out1 where "a \<in> set (wa_notes w)" "b \<in> set (wa_notes w)"
    "is_spendable (cv_tip (view c)) a" "is_spendable (cv_tip (view c)) b" "on_leaf_index a \<noteq> on_leaf_index b"
    "proves_spend SC perm (cv_root (view c)) (note_input w a, p0) (note_input w b, p1) out0 out1 fee tx"
    "output_cm perm out0 = burn_cm_expected perm (amount + pf) (nullifier perm (wk_nk (wa_keys w)) (on_rho a)) prop amount"
    "checked_add amount pf = Some (amount + pf)" "w' = spend_selected w a b"
proof -
  from pay obtain bv need a b where bv: "checked_add amount pf = Some bv" "checked_add bv fee = Some need"
    and sel: "select_notes w need (cv_tip (view c)) = Inr (a, b)"
    by (auto simp: wallet_burn_spend_def Let_def result_simps)
  note ab = select_notes_ok [OF sel wallet_okD(4) [OF w]]
  obtain p0 p1 where p: "spend_paths (view c) a b = Inr (p0, p1)" "path_args_ok (note_input w a, p0)" "path_args_ok (note_input w b, p1)"
    by (rule spend_paths_ok [OF ok w ab(1,2)])
  let ?nf0 = "nullifier perm (wk_nk (wa_keys w)) (on_rho a)"
  obtain rho r where n: "burn_nonces perm ?nf0 prop amount = (rho, r)" by (cases "burn_nonces perm ?nf0 prop amount")
  define out0 where "out0 = \<lparr> out_value = bv, out_owner = burn_owner perm, out_rho = rho, out_r = r \<rparr>"
  define out1 where "out1 = \<lparr> out_value = on_value a + on_value b - need, out_owner = wa_owner w,
    out_rho = ss_rho_chg rnd, out_r = ss_r_chg rnd \<rparr>"
  from pay obtain pfb publics ct0 ct1 where
    c: "circuit_prove SC perm (note_input w a, p0) (note_input w b, p1) (cv_root (view c)) out0 out1 fee = Some (pfb, publics)"
    and e: "encrypt_note_with C (wa_address w) (output_cm perm out0) (out_plaintext out0) (ss_esk_pay rnd) = Some ct0"
      "encrypt_note_with C (wa_address w) (output_cm perm out1) (out_plaintext out1) (ss_esk_chg rnd) = Some ct1"
    and tx: "w' = spend_selected w a b" "tx = \<lparr> tx_proof = pfb, tx_publics = publics, tx_ct0 = ct0, tx_ct1 = ct1 \<rparr>"
    by (auto simp: wallet_burn_spend_def Let_def result_simps bv sel p n out0_def out1_def)
  have wf: "wf_output out0" "wf_output out1"
    using wf_burn_note [OF ok_perm [OF ok] n] rnd own_wf [OF ok w]
    by (simp_all add: wf_seeds_def out0_def out1_def wf_output_def)
  have lens: "length ct0 = note_ct_bytes" "length ct1 = note_ct_bytes"
    using encrypt_note_length [OF C wf_out_plaintext [OF wf(1)] e(1)] encrypt_note_length [OF C wf_out_plaintext [OF wf(2)] e(2)] by simp_all
  have "proves_spend SC perm (cv_root (view c)) (note_input w a, p0) (note_input w b, p1) out0 out1 fee tx"
    using circuit_prove_exact [OF S wf_root [OF ok] p(2,3) wf, of fee] c lens by (simp add: L tx proves_spend_def)
  moreover have bv': "bv = amount + pf" using bv(1) by (auto simp: checked_add_def split: if_splits)
  moreover have "output_cm perm out0 = burn_cm_expected perm (amount + pf) ?nf0 prop amount"
    by (simp add: output_cm_def out0_def burn_cm_expected_def n bv')
  ultimately show thesis using ab(1-5) tx bv(1) by (intro that [of a b p0 p1 out0 out1]) simp_all
qed

text \<open>Every outcome of a payment, from the outcome of the selection.\<close>

lemma pay_outcome:
  assumes ok: "ok c" and w: "wallet_ok C perm (leaves c) w" and S: "prover_ok L SC" and L: "perm = p2_permute L"
    and rec: "wf_address recipient" and rnd: "wf_seeds rnd"
  shows "case select_notes w (amount + fee) (cv_tip (view c)) of
      Inl e \<Rightarrow> wallet_pay C SC perm w (view c) rnd recipient amount fee = Inl e
    | Inr (a, b) \<Rightarrow>
        (if \<not> change_fits a b amount fee
            \<or> nullifier perm (wk_nk (wa_keys w)) (on_rho a) = nullifier perm (wk_nk (wa_keys w)) (on_rho b)
         then wallet_pay C SC perm w (view c) rnd recipient amount fee = Inl PePanic
         else if list_all (\<lambda>b. b = 0) (c_dh C (ss_esk_pay rnd) (ad_enc_pk recipient))
         then wallet_pay C SC perm w (view c) rnd recipient amount fee = Inl PeBadRecipient
         else if list_all (\<lambda>b. b = 0) (c_dh C (ss_esk_chg rnd) (ad_enc_pk (wa_address w)))
         then wallet_pay C SC perm w (view c) rnd recipient amount fee = Inl PePanic
         else \<exists>r. wallet_pay C SC perm w (view c) rnd recipient amount fee = Inr r)"
proof -
  let ?tip = "cv_tip (view c)" and ?pay = "wallet_pay C SC perm w (view c) rnd recipient amount fee"
  show ?thesis
  proof (cases "select_notes w (amount + fee) ?tip")
    case (Inl e)
    then have "?pay = Inl e" by (simp add: wallet_pay_def Let_def)
    with Inl show ?thesis by simp
  next
    case (Inr ab)
    obtain a b where ab: "ab = (a, b)" by (cases ab)
    note sel = Inr [unfolded ab]
    note s = select_notes_ok [OF sel wallet_okD(4) [OF w]]
    obtain p0 p1 where p: "spend_paths (view c) a b = Inr (p0, p1)" "path_args_ok (note_input w a, p0)" "path_args_ok (note_input w b, p1)"
      "opens_to perm (cv_root (view c)) (note_input w a) p0" "opens_to perm (cv_root (view c)) (note_input w b) p1"
      by (rule spend_paths_ok [OF ok w s(1,2)])
    define out0 where "out0 = \<lparr> out_value = amount, out_owner = ad_owner recipient, out_rho = ss_rho_pay rnd, out_r = ss_r_pay rnd \<rparr>"
    define out1 where "out1 = \<lparr> out_value = on_value a + on_value b - (amount + fee), out_owner = wa_owner w,
      out_rho = ss_rho_chg rnd, out_r = ss_r_chg rnd \<rparr>"
    let ?nf = "\<lambda>n. nullifier perm (wk_nk (wa_keys w)) (on_rho n)"
    have wf: "wf_output out0" "wf_output out1"
      using rec rnd own_wf [OF ok w] by (simp_all add: wf_address_def wf_seeds_def out0_def out1_def wf_output_def)
    have valid: "valid_spend perm (cv_root (view c)) (note_input w a, p0) (note_input w b, p1) out0 out1 fee
        \<longleftrightarrow> change_fits a b amount fee \<and> ?nf a \<noteq> ?nf b"
      using p(4,5) wf by (simp add: valid_spend_def out0_def out1_def change_fits_iff)
    note prove = circuit_prove_exact [OF S wf_root [OF ok] p(2,3) wf, of fee, folded L]
    have step: "?pay = bind_r (ok_or (circuit_prove SC perm (note_input w a, p0) (note_input w b, p1) (cv_root (view c)) out0 out1 fee) PePanic)
        (\<lambda>(pf, publics).
        bind_r (ok_or (encrypt_note_with C recipient (output_cm perm out0) (out_plaintext out0) (ss_esk_pay rnd)) PeBadRecipient) (\<lambda>ct0.
        bind_r (ok_or (encrypt_note_with C (wa_address w) (output_cm perm out1) (out_plaintext out1) (ss_esk_chg rnd)) PePanic) (\<lambda>ct1.
          Inr (spend_selected w a b, \<lparr> tx_proof = pf, tx_publics = publics, tx_ct0 = ct0, tx_ct1 = ct1 \<rparr>))))"
      by (simp add: wallet_pay_def Let_def sel p out0_def out1_def)
    show ?thesis
    proof (cases "circuit_prove SC perm (note_input w a, p0) (note_input w b, p1) (cv_root (view c)) out0 out1 fee")
      case None
      with prove valid step sel show ?thesis by auto
    next
      case (Some x)
      then have v: "change_fits a b amount fee" "?nf a \<noteq> ?nf b" using prove valid by (auto split: prod.splits)
      obtain pf publics where x: "x = (pf, publics)" by (cases x)
      show ?thesis
        using v sel encrypt_note_Some [of C recipient "output_cm perm out0" "out_plaintext out0" "ss_esk_pay rnd"]
          encrypt_note_Some [of C "wa_address w" "output_cm perm out1" "out_plaintext out1" "ss_esk_chg rnd"]
        unfolding step Some x by (auto simp: ok_or_def)
    qed
  qed
qed

end

end
