(* ===== verification/WalletLedger.thy ===== *)
theory WalletLedger
  imports WalletPay
begin

text \<open>
  The wallet on the node's ledger: a wallet that scans the states of one growing chain and spends from
  them, and what the ledger does with its transactions. A wallet does not follow a reorganisation, so its
  runs are along one chain; \<open>reorg_note_missed\<close> shows what it loses otherwise.
\<close>

section \<open>Runs of a wallet\<close>

inductive wallet_run :: "ciphers \<Rightarrow> circuit \<Rightarrow> ('h, 't) ext \<Rightarrow> hn_params \<Rightarrow> bytes \<Rightarrow> hn_block list \<Rightarrow> wallet \<Rightarrow> bool"
  for C SC E params seed where
  opened: "wallet_run C SC E params seed [] (wallet_from_seed C (x_perm E) seed)"
| scanned: "wallet_run C SC E params seed bs w \<Longrightarrow> hn_reach E params (bs @ cs) s \<Longrightarrow>
    wallet_run C SC E params seed (bs @ cs) (wallet_scan C (x_perm E) (state_view (x_perm E) s) w)"
| paid: "wallet_run C SC E params seed bs w \<Longrightarrow> hn_reach E params (bs @ cs) s \<Longrightarrow>
    wallet_pay C SC (x_perm E) w (state_view (x_perm E) s) rnd recipient amount fee = Inr (w', tx) \<Longrightarrow>
    wallet_run C SC E params seed bs w'"
| burned: "wallet_run C SC E params seed bs w \<Longrightarrow> hn_reach E params (bs @ cs) s \<Longrightarrow>
    wallet_burn_spend C SC (x_perm E) w (state_view (x_perm E) s) rnd amount pf prop fee = Inr (w', tx) \<Longrightarrow>
    wallet_run C SC E params seed bs w'"

lemma pay_marks:
  "wallet_pay C SC perm w chain rnd recipient amount fee = Inr (w', tx) \<Longrightarrow> \<exists>a b. w' = spend_selected w a b"
  "wallet_burn_spend C SC perm w chain rnd amount pf prop fee = Inr (w', tx) \<Longrightarrow> \<exists>a b. w' = spend_selected w a b"
  by (auto simp: wallet_pay_def wallet_burn_spend_def Let_def result_simps split_beta)

lemma spend_selected_fields [simp]:
  "wa_keys (spend_selected w a b) = wa_keys w" "wa_owner (spend_selected w a b) = wa_owner w"
  "wa_scan_cursor (spend_selected w a b) = wa_scan_cursor w" "wa_address (spend_selected w a b) = wa_address w"
  by (simp_all add: spend_selected_def)

lemma reach_leaves_append:
  "hn_reach E params (bs @ cs) s \<Longrightarrow> hs_cm_leaves s = run_leaves (x_perm E) params bs @ concat (map (block_cms (x_perm E) params) cs)"
  using hn_reach_leaves [of E params "bs @ cs" s] by (simp add: run_leaves_def)

lemma ledger_okI: "perm_ok (x_perm E) \<Longrightarrow> hn_reach E params bs s \<Longrightarrow> ledger_ok E params s"
  by (auto simp: ledger_ok_def)

lemma wallet_run_ok:
  assumes "wallet_run C SC E params seed bs w" and p: "perm_ok (x_perm E)"
  shows "wallet_ok C (x_perm E) (run_leaves (x_perm E) params bs) w"
  using assms(1)
proof induction
  case opened
  then show ?case using wallet_ok_from_seed by (simp add: run_leaves_def)
next
  case (scanned bs w cs s)
  from hn_view.scan_ok [OF ledger_okI [OF p scanned.hyps(2)] scanned.IH reach_leaves_append [OF scanned.hyps(2)]]
  show ?case using hn_reach_leaves [OF scanned.hyps(2)] by simp
next
  case (paid bs w)
  from pay_marks(1) [OF paid.hyps(3)] wallet_ok_spend [OF paid.IH] show ?case by blast
next
  case (burned bs w)
  from pay_marks(2) [OF burned.hyps(3)] wallet_ok_spend [OF burned.IH] show ?case by blast
qed

lemma wallet_run_keys: "wallet_run C SC E params seed bs w \<Longrightarrow> wa_keys w = keys_from_seed C seed
    \<and> wa_owner w = owner_key (x_perm E) (wk_nk (keys_from_seed C seed))"
proof (induction rule: wallet_run.induct)
  case opened
  then show ?case by (simp add: wallet_from_seed_def Let_def)
next
  case (paid bs w)
  from pay_marks(1) [OF paid.hyps(3)] paid.IH show ?case by auto
next
  case (burned bs w)
  from pay_marks(2) [OF burned.hyps(3)] burned.IH show ?case by auto
qed (simp add: hn_view.scan_keys)

text \<open>The wallet at a state it has just scanned.\<close>

lemma scanned_ok:
  assumes run: "wallet_run C SC E params seed bs w0" and reach: "hn_reach E params (bs @ cs) s" and p: "perm_ok (x_perm E)"
  shows "wallet_ok C (x_perm E) (hs_cm_leaves s) (wallet_scan C (x_perm E) (state_view (x_perm E) s) w0)"
  by (rule hn_view.scan_ok [OF ledger_okI [OF p reach] wallet_run_ok [OF run p] reach_leaves_append [OF reach]])

lemma tip_root_recent:
  assumes "hn_reach E params bs s" "0 < hp_root_window params"
  shows "hn_tip_root (x_perm E) s \<in> set (hs_recent_roots s)"
proof -
  have "run_roots (x_perm E) params bs \<noteq> []" "last (run_roots (x_perm E) params bs) = hn_tip_root (x_perm E) s"
    using nt_root_rep [OF hn_reach_tree [OF assms(1)]] by (simp_all add: run_roots_def hn_tip_root_def)
  then show ?thesis
    unfolding hn_reach_roots [OF assms] take_last_def using assms(2)
    by (metis diff_less drop_eq_Nil last_drop last_in_set length_greater_0_conv not_le)
qed

section \<open>Payments and burns are accepted\<close>

definition wallet_env :: "poseidon2 \<Rightarrow> circuit \<Rightarrow> ciphers \<Rightarrow> ('h, 't) ext \<Rightarrow> hn_params \<Rightarrow> bool" where
  "wallet_env L SC C E params \<longleftrightarrow> prover_ok L SC \<and> cipher_ok C \<and> x_perm E = p2_permute L
     \<and> x_spend_verify E = circuit_verify SC \<and> 0 < hp_root_window params"

lemma wallet_envD:
  assumes "wallet_env L SC C E params"
  shows "prover_ok L SC" "cipher_ok C" "x_perm E = p2_permute L" "x_spend_verify E = circuit_verify SC"
    "0 < hp_root_window params" "perm_ok (x_perm E)"
  using assms perm_ok_p2 by (auto simp: wallet_env_def prover_ok_def)

lemma state_view_seen [simp]: "cv_seen (state_view perm s) nf \<longleftrightarrow> nf_key nf \<in> hs_nullifiers s"
  "cv_tip (state_view perm s) = hs_height s" "cv_root (state_view perm s) = hn_tip_root perm s"
  by (simp_all add: state_view_def nullifier_seen_def)

lemma proves_accepted:
  fixes E :: "('h, 't) ext"
  assumes env: "wallet_env L SC C E params" and run: "wallet_run C SC E params seed bs w0"
    and reach: "hn_reach E params (bs @ cs) s" and w: "w = wallet_scan C (x_perm E) (state_view (x_perm E) s) w0"
    and ab: "a \<in> set (wa_notes w)" "b \<in> set (wa_notes w)" "is_spendable (hs_height s) a" "is_spendable (hs_height s) b"
    and tx: "proves_spend SC (x_perm E) (hn_tip_root (x_perm E) s) (note_input w a, p0) (note_input w b, p1) out0 out1
      (hp_flat_fee params) tx"
  shows "validate_tx E s tx {} = Inr (nullifier (x_perm E) (wk_nk (wa_keys w)) (on_rho a),
      nullifier (x_perm E) (wk_nk (wa_keys w)) (on_rho b))"
proof -
  note e = wallet_envD [OF env]
  have unseen: "nf_key (nullifier (x_perm E) (wk_nk (wa_keys w)) (on_rho n)) \<notin> hs_nullifiers s"
    if "n \<in> set (wa_notes w)" "is_spendable (hs_height s) n" for n
    using hn_view.scan_unseen [of n C E s w0] that unfolding w by (simp add: is_spendable_def)
  have root: "wf_digest (hn_tip_root (x_perm E) s)"
    using hn_view.wf_root [OF ledger_okI [OF e(6) reach]] by simp
  from proves_spend_accepted [OF tx e(6) root tip_root_recent [OF reach e(5)] e(4), of "{}"]
  show ?thesis using unseen ab hn_reach_params [OF reach] by simp
qed

lemma payment_lemma:
  fixes E :: "('h, 't) ext"
  assumes env: "wallet_env L SC C E params" and run: "wallet_run C SC E params seed bs w0"
    and reach: "hn_reach E params (bs @ cs) s" and w: "w = wallet_scan C (x_perm E) (state_view (x_perm E) s) w0"
    and rec: "wf_address recipient" and rnd: "wf_seeds rnd"
    and pay: "wallet_pay C SC (x_perm E) w (state_view (x_perm E) s) rnd recipient amount (hp_flat_fee params) = Inr (w', tx)"
  shows "\<exists>a \<in> set (wa_notes w). \<exists>b \<in> set (wa_notes w). \<exists>change. on_leaf_index a \<noteq> on_leaf_index b
    \<and> validate_tx E s tx {} = Inr (nullifier (x_perm E) (wk_nk (wa_keys w)) (on_rho a),
        nullifier (x_perm E) (wk_nk (wa_keys w)) (on_rho b))
    \<and> unat (on_value a) + unat (on_value b) = unat amount + unat change + unat (hp_flat_fee params)
    \<and> w' = spend_selected w a b
    \<and> (\<forall>ks. recipient = keys_address C (x_perm E) ks \<longrightarrow> (\<exists>cm pt. digest_at (tx_publics tx) pub_cmo0 = Some cm
        \<and> try_decrypt C (x_perm E) (wk_enc_sk ks) (ad_owner recipient) cm (tx_ct0 tx) = Some pt \<and> np_value pt = amount))
    \<and> (\<exists>cm pt. digest_at (tx_publics tx) pub_cmo1 = Some cm
        \<and> try_decrypt C (x_perm E) (wk_enc_sk (wa_keys w)) (wa_owner w) cm (tx_ct1 tx) = Some pt \<and> np_value pt = change)"
proof -
  note e = wallet_envD [OF env]
  have ok: "ledger_ok E params s" by (rule ledger_okI [OF e(6) reach])
  have wok: "wallet_ok C (x_perm E) (hs_cm_leaves s) w" unfolding w by (rule scanned_ok [OF run reach e(6)])
  let ?out0 = "\<lparr> out_value = amount, out_owner = ad_owner recipient, out_rho = ss_rho_pay rnd, out_r = ss_r_pay rnd \<rparr>"
  obtain a b p0 p1 out1 where ab: "a \<in> set (wa_notes w)" "b \<in> set (wa_notes w)" "is_spendable (hs_height s) a"
      "is_spendable (hs_height s) b" "on_leaf_index a \<noteq> on_leaf_index b"
    and tx: "proves_spend SC (x_perm E) (hn_tip_root (x_perm E) s) (note_input w a, p0) (note_input w b, p1) ?out0 out1
      (hp_flat_fee params) tx"
    and out1: "out_owner out1 = wa_owner w" "w' = spend_selected w a b"
      "encrypt_note_with C recipient (output_cm (x_perm E) ?out0) (out_plaintext ?out0) (ss_esk_pay rnd) = Some (tx_ct0 tx)"
      "encrypt_note_with C (wa_address w) (output_cm (x_perm E) out1) (out_plaintext out1) (ss_esk_chg rnd) = Some (tx_ct1 tx)"
    by (rule hn_view.pay_proves [OF ok wok e(1,3,2) rec rnd pay]) simp
  note v = proves_accepted [OF env run reach w ab(1-4) tx]
  note T = tx [unfolded proves_spend_def]
  have wf: "wf_output ?out0" "wf_output out1" using T by (simp_all add: valid_spend_def)
  have bal: "unat (on_value a) + unat (on_value b) = unat amount + unat (out_value out1) + unat (hp_flat_fee params)"
    using T by (simp add: valid_spend_def)
  have root: "wf_digest (hn_tip_root (x_perm E) s)" using hn_view.wf_root [OF ok] by simp
  note parts = spend_pis_parts [OF T [THEN conjunct2, THEN conjunct1] e(6) root]
  have dec: "try_decrypt C (x_perm E) (wk_enc_sk ks) (out_owner n) (output_cm (x_perm E) n) ct = Some (out_plaintext n)"
    if "wf_output n" "encrypt_note_with C (keys_address C (x_perm E) ks) (output_cm (x_perm E) n) (out_plaintext n) esk = Some ct" for n ks ct esk
    using decrypt_encrypted [OF e(2) wf_out_plaintext [OF that(1)] that(2), of "wk_enc_sk ks" "x_perm E" "out_owner n"]
    by (simp add: output_cm_def)
  have paid: "try_decrypt C (x_perm E) (wk_enc_sk ks) (ad_owner recipient) (output_cm (x_perm E) ?out0) (tx_ct0 tx) = Some (out_plaintext ?out0)"
    if "recipient = keys_address C (x_perm E) ks" for ks
    using dec [OF wf(1), of ks] out1(3) unfolding that by simp
  have chg: "try_decrypt C (x_perm E) (wk_enc_sk (wa_keys w)) (wa_owner w) (output_cm (x_perm E) out1) (tx_ct1 tx) = Some (out_plaintext out1)"
    using dec [OF wf(2), of "wa_keys w"] out1(1,4) wallet_okD(3) [OF wok] by simp
  show ?thesis
    by (rule bexI [OF _ ab(1)], rule bexI [OF _ ab(2)], rule exI [of _ "out_value out1"])
      (use ab(5) v bal out1(2) parts(4,5) paid chg in \<open>force simp: out_plaintext_def\<close>)
qed

text \<open>
  C8: A payment is accepted: a transaction that a synchronised wallet builds against the state it has just
  scanned passes the ledger's checks at that state, whoever is paid; it spends two different notes of the
  wallet, the payee can decrypt an output of exactly the amount, and the wallet itself the change.
\<close>
theorem wallet_payment_accepted:
  fixes E :: "('h, 't) ext"
  assumes env: "wallet_env L SC C E params" and run: "wallet_run C SC E params seed bs w0"
    and reach: "hn_reach E params (bs @ cs) s" and w: "w = wallet_scan C (x_perm E) (state_view (x_perm E) s) w0"
    and rec: "wf_address recipient" and rnd: "wf_seeds rnd"
    and pay: "wallet_pay C SC (x_perm E) w (state_view (x_perm E) s) rnd recipient amount (hp_flat_fee params) = Inr (w', tx)"
  shows "\<exists>a \<in> set (wa_notes w). \<exists>b \<in> set (wa_notes w). \<exists>change. on_leaf_index a \<noteq> on_leaf_index b
    \<and> validate_tx E s tx {} = Inr (nullifier (x_perm E) (wk_nk (wa_keys w)) (on_rho a),
        nullifier (x_perm E) (wk_nk (wa_keys w)) (on_rho b))
    \<and> unat (on_value a) + unat (on_value b) = unat amount + unat change + unat (hp_flat_fee params)
    \<and> w' = spend_selected w a b
    \<and> (\<forall>ks. recipient = keys_address C (x_perm E) ks \<longrightarrow> (\<exists>cm pt. digest_at (tx_publics tx) pub_cmo0 = Some cm
        \<and> try_decrypt C (x_perm E) (wk_enc_sk ks) (ad_owner recipient) cm (tx_ct0 tx) = Some pt \<and> np_value pt = amount))
    \<and> (\<exists>cm pt. digest_at (tx_publics tx) pub_cmo1 = Some cm
        \<and> try_decrypt C (x_perm E) (wk_enc_sk (wa_keys w)) (wa_owner w) cm (tx_ct1 tx) = Some pt \<and> np_value pt = change)"
  using payment_lemma [OF assms] .

text \<open>
  A burn is accepted: the transaction of a peg-out, wrapped with the amount and recipient it was built for,
  passes the ledger's check of a peg-out, burn commitment included.
\<close>
theorem wallet_burn_accepted:
  fixes E :: "('h, 't) ext"
  assumes env: "wallet_env L SC C E params" and run: "wallet_run C SC E params seed bs w0"
    and reach: "hn_reach E params (bs @ cs) s" and w: "w = wallet_scan C (x_perm E) (state_view (x_perm E) s) w0"
    and rnd: "wf_seeds rnd" and amount: "amount \<noteq> 0" "prop \<noteq> []" "length prop \<le> 4096"
    and burn: "wallet_burn_spend C SC (x_perm E) w (state_view (x_perm E) s) rnd amount (peg_fee params amount) prop
      (hp_flat_fee params) = Inr (w', tx)"
  shows "\<exists>nfs. validate_pegouts_step E s \<lparr> pa_nfs = [], pa_outflow = 0, pa_fees = 0, pa_burn_total = 0 \<rparr>
      \<lparr> pt_tx = tx, pt_amount = amount, pt_recipient = prop \<rparr>
    = Inr \<lparr> pa_nfs = nfs, pa_outflow = amount, pa_fees = peg_fee params amount, pa_burn_total = amount + peg_fee params amount \<rparr>"
proof -
  note e = wallet_envD [OF env]
  have ok: "ledger_ok E params s" by (rule ledger_okI [OF e(6) reach])
  have wok: "wallet_ok C (x_perm E) (hs_cm_leaves s) w" unfolding w by (rule scanned_ok [OF run reach e(6)])
  obtain a b p0 p1 out0 out1 where ab: "a \<in> set (wa_notes w)" "b \<in> set (wa_notes w)" "is_spendable (hs_height s) a"
      "is_spendable (hs_height s) b"
    and tx: "proves_spend SC (x_perm E) (hn_tip_root (x_perm E) s) (note_input w a, p0) (note_input w b, p1) out0 out1
      (hp_flat_fee params) tx"
    and cm: "output_cm (x_perm E) out0 = burn_cm_expected (x_perm E) (amount + peg_fee params amount)
      (nullifier (x_perm E) (wk_nk (wa_keys w)) (on_rho a)) prop amount"
    and add: "checked_add amount (peg_fee params amount) = Some (amount + peg_fee params amount)"
    by (rule hn_view.burn_proves [OF ok wok e(1,3,2) rnd burn]) simp
  note v = proves_accepted [OF env run reach w ab tx]
  have root: "wf_digest (hn_tip_root (x_perm E) s)" using hn_view.wf_root [OF ok] by simp
  note parts = spend_pis_parts [OF tx [unfolded proves_spend_def, THEN conjunct2, THEN conjunct1] e(6) root]
  show ?thesis
    using v add cm parts(4) amount hn_reach_params [OF reach]
    by (simp add: validate_pegouts_step_def pub_digest_def Let_def)
qed

section \<open>Payments are received\<close>

lemma feed_has_output:
  assumes j: "j < length es" and tx: "tx \<in> set (spend_txs (es ! j))" and cm: "digest_at (tx_publics tx) pub_cmo0 = Some cm"
  shows "\<exists>o' \<in> set (run_feed perm params (ds @ es)). or_cm o' = cm \<and> or_ciphertext o' = tx_ct0 tx
    \<and> length (run_leaves perm params ds) \<le> or_leaf_index o'"
proof -
  let ?k = "length ds + j" and ?bs = "ds @ es"
  have "(cm, tx_ct0 tx, False) \<in> set (tx_outs tx)" using cm by (simp add: tx_outs_def tx_cms_def)
  then have "(cm, tx_ct0 tx, False) \<in> set (block_outs perm params (es ! j))" using tx by (auto simp: block_outs_def)
  then obtain p where p: "p < length (block_outs perm params (es ! j))" "block_outs perm params (es ! j) ! p = (cm, tx_ct0 tx, False)"
    by (auto simp: in_set_conv_nth)
  let ?n = "length (run_leaves perm params (take ?k ?bs))"
  have "(?n + p, cm, tx_ct0 tx, False) \<in> set (enumerate ?n (block_outs perm params (?bs ! ?k)))"
    using p by (force simp: in_set_enumerate_eq)
  then have "feed_record (of_nat ?k) (?n + p, cm, tx_ct0 tx, False) \<in> set (run_feed perm params ?bs)"
    unfolding run_feed.simps using j by (auto intro!: bexI [of _ ?k])
  moreover have "length (run_leaves perm params ds) \<le> ?n" by (simp add: run_leaves_def)
  ultimately show ?thesis by (intro bexI) simp_all
qed

text \<open>
  C9: A payment reaches its payee: once any block of the chain carries the transaction, the next scan of the
  payee's wallet holds a note of exactly the amount, unspent unless its nullifier is already on the chain.
\<close>
theorem wallet_payment_received:
  fixes E :: "('h, 't) ext"
  assumes env: "wallet_env L SC C E params" and run: "wallet_run C SC E params seed bs w0"
    and reach: "hn_reach E params (bs @ cs) s" and w: "w = wallet_scan C (x_perm E) (state_view (x_perm E) s) w0"
    and rec: "recipient = keys_address C (x_perm E) (keys_from_seed C payee)" and rnd: "wf_seeds rnd"
    and pay: "wallet_pay C SC (x_perm E) w (state_view (x_perm E) s) rnd recipient amount (hp_flat_fee params) = Inr (w', tx)"
    and payee: "wallet_run C SC E params payee ds v" and later: "hn_reach E params (ds @ es) t"
    and mined: "j < length es" "tx \<in> set (spend_txs (es ! j))"
  shows "\<exists>n \<in> set (wa_notes (wallet_scan C (x_perm E) (state_view (x_perm E) t) v)). on_value n = amount
    \<and> (on_spent n \<longrightarrow> nf_key (nullifier (x_perm E) (wk_nk (keys_from_seed C payee)) (on_rho n)) \<in> hs_nullifiers t)"
proof -
  note e = wallet_envD [OF env]
  have wfr: "wf_address recipient" unfolding rec by (rule wf_keys_address [OF e(6,2)])
  from payment_lemma [OF env run reach w wfr rnd pay] rec obtain cm pt where cm: "digest_at (tx_publics tx) pub_cmo0 = Some cm"
    and pt: "try_decrypt C (x_perm E) (wk_enc_sk (keys_from_seed C payee)) (ad_owner recipient) cm (tx_ct0 tx) = Some pt" "np_value pt = amount"
    by blast
  obtain o' where o': "o' \<in> set (run_feed (x_perm E) params (ds @ es))" "or_cm o' = cm" "or_ciphertext o' = tx_ct0 tx"
    "length (run_leaves (x_perm E) params ds) \<le> or_leaf_index o'"
    using feed_has_output [OF mined cm] by blast
  note vk = wallet_run_keys [OF payee] and vok = wallet_run_ok [OF payee e(6)]
  have cur: "wa_scan_cursor v \<le> or_leaf_index o'" using wallet_okD(6) [OF vok] o'(4) by simp
  have "try_decrypt C (x_perm E) (wk_enc_sk (wa_keys v)) (wa_owner v) (or_cm o') (or_ciphertext o') = Some pt"
    using pt(1) vk o'(2,3) by (simp add: rec)
  from hn_view.scan_finds [OF ledger_okI [OF e(6) later] vok reach_leaves_append [OF later] _ cur this]
  show ?thesis using o'(1) pt(2) vk by (auto simp: hn_reach_outputs [OF later])
qed

section \<open>The store of a wallet\<close>

lemma erase_mark: "map (on_spent_update (\<lambda>_. False)) (mark_spent i ns) = map (on_spent_update (\<lambda>_. False)) ns"
  by (induction ns) simp_all

lemma spent_same:
  "map (on_spent_update (\<lambda>_. False)) (wa_notes (spend_selected w a b)) = map (on_spent_update (\<lambda>_. False)) (wa_notes w)"
  "decrypted C perm (spend_selected w a b) = decrypted C perm w"
  by (simp_all add: spend_selected_def erase_mark decrypted_def [abs_def])

text \<open>
  C11: The store is exact: after any history of scans and spends along one chain it holds, in leaf order and
  once each, exactly the outputs up to the cursor that decrypt to the wallet (marks aside), however the
  scans were cut.
\<close>
theorem wallet_store_exact:
  fixes E :: "('h, 't) ext"
  assumes run: "wallet_run C SC E params seed bs w" and perm: "perm_ok (x_perm E)"
  shows "map (on_spent_update (\<lambda>_. False)) (wa_notes w)
      = List.map_filter (decrypted C (x_perm E) w) (take (wa_scan_cursor w) (run_feed (x_perm E) params bs))"
  using run
proof induction
  case opened
  then show ?case by (simp add: wallet_from_seed_def Let_def)
next
  case (scanned bs w cs s)
  let ?perm = "x_perm E" and ?k = "wa_scan_cursor w" and ?erase = "map (on_spent_update (\<lambda>_. False)) :: owned_note list \<Rightarrow> _"
  note reach = scanned.hyps(2)
  have ok: "ledger_ok E params s" by (rule ledger_okI [OF perm reach])
  have wok: "wallet_ok C ?perm (run_leaves ?perm params bs) w" by (rule wallet_run_ok [OF scanned.hyps(1) perm])
  have feed: "hs_outputs s = run_feed ?perm params (bs @ cs)" by (rule hn_reach_outputs [OF reach])
  have k: "?k \<le> length (run_feed ?perm params bs)" using wallet_okD(6) [OF wok] by (simp add: length_run_feed)
  have tk: "take ?k (run_feed ?perm params (bs @ cs)) = take ?k (run_feed ?perm params bs)"
    by (subst run_feed_prefix) (use k in simp)
  have erase: "?erase (wa_notes (refresh_spent ?perm chain u)) = ?erase (wa_notes u)" for chain u
    by (simp add: refresh_spent_def)
  have dec: "?erase (List.map_filter (decrypted C ?perm w) os) = List.map_filter (decrypted C ?perm w) os" for os
    by (induction os) (auto simp: decrypted_def note_of_def split: option.split)
  have len: "length (hs_cm_leaves s) = length (run_feed ?perm params (bs @ cs))"
    by (simp add: length_run_feed hn_reach_leaves [OF reach])
  have mf: "List.map_filter f xs @ List.map_filter f ys = List.map_filter f (xs @ ys)" for f :: "output_record \<Rightarrow> owned_note option" and xs ys
    by (induction xs) (simp_all split: option.split)
  have d: "decrypted C ?perm (wallet_scan C ?perm (state_view ?perm s) w) = decrypted C ?perm w"
    by (rule decrypted_cong) (simp_all add: hn_view.scan_keys)
  show ?case
    unfolding d unfolding hn_view.scan_is [OF ok wok reach_leaves_append [OF reach]] erase
    by (simp add: scanned.IH dec feed len mf flip: tk)
next
  case (paid bs w)
  from pay_marks(1) [OF paid.hyps(3)] paid.IH show ?case by (auto simp: spent_same)
next
  case (burned bs w)
  from pay_marks(2) [OF burned.hyps(3)] burned.IH show ?case by (auto simp: spent_same)
qed

section \<open>Failures\<close>

text \<open>
  C10: Every way a payment to a well-formed address can fail, and exactly when, for any amount and any notes of a wallet that has
  scanned a growing chain. Too few spendable notes: exactly when there
  are fewer than two. A membership path is never missing. The payee's key is refused exactly when selection succeeds, the change
  is a 64-bit amount, the nullifiers of the two notes differ and the key contributes nothing. A panic happens exactly when selection
  succeeds and the change is not a 64-bit amount (which takes an overflow), or the two notes have one nullifier, or the
  payee's key is good and the wallet's own is degenerate. When amount plus fee and the values of any two spendable notes fit 64
  bits, funds are insufficient exactly when there are two spendable notes and no two of them cover amount and fee, and the
  change of a selected pair always fits.
\<close>
theorem wallet_pay_fails_only:
  fixes E :: "('h, 't) ext" and amount :: u64
  assumes env: "wallet_env L SC C E params" and run: "wallet_run C SC E params seed bs w0"
    and reach: "hn_reach E params (bs @ cs) s" and w: "w = wallet_scan C (x_perm E) (state_view (x_perm E) s) w0"
    and rec: "wf_address recipient" and rnd: "wf_seeds rnd"
  defines "pay \<equiv> wallet_pay C SC (x_perm E) w (state_view (x_perm E) s) rnd recipient amount (hp_flat_fee params)"
    and "selected \<equiv> \<lambda>a b. select_notes w (amount + hp_flat_fee params) (hs_height s) = Inr (a, b)"
    and "notes \<equiv> spendable_notes w (hs_height s)"
    and "nf \<equiv> \<lambda>n. nullifier (x_perm E) (wk_nk (wa_keys w)) (on_rho n)"
    and "bad_payee \<equiv> list_all (\<lambda>b. b = 0) (c_dh C (ss_esk_pay rnd) (ad_enc_pk recipient))"
    and "bad_own \<equiv> list_all (\<lambda>b. b = 0) (c_dh C (ss_esk_chg rnd) (ad_enc_pk (wa_address w)))"
  shows "(\<forall>k. pay = Inl (PeNotEnoughNotes k) \<longleftrightarrow> k = card notes \<and> k < 2)
    \<and> pay \<noteq> Inl PeMissingPath
    \<and> (pay = Inl PeBadRecipient \<longleftrightarrow> bad_payee \<and> (\<exists>a b. selected a b \<and> change_fits a b amount (hp_flat_fee params) \<and> nf a \<noteq> nf b))
    \<and> (pay = Inl PePanic \<longleftrightarrow> (\<exists>a b. selected a b \<and> (\<not> change_fits a b amount (hp_flat_fee params) \<or> nf a = nf b
          \<or> \<not> bad_payee \<and> bad_own)))
    \<and> (unat amount + unat (hp_flat_fee params) < 2 ^ 64
          \<and> (\<forall>m \<in> notes. \<forall>n \<in> notes. m \<noteq> n \<longrightarrow> unat (on_value m) + unat (on_value n) < 2 ^ 64) \<longrightarrow>
        (pay = Inl PeInsufficientFunds \<longleftrightarrow> 2 \<le> card notes \<and> (\<forall>m \<in> notes. \<forall>n \<in> notes. m \<noteq> n \<longrightarrow>
            unat (on_value m) + unat (on_value n) < unat amount + unat (hp_flat_fee params)))
        \<and> (\<forall>a b. selected a b \<longrightarrow> change_fits a b amount (hp_flat_fee params)))"
proof -
  note e = wallet_envD [OF env]
  have ok: "ledger_ok E params s" by (rule ledger_okI [OF e(6) reach])
  have wok: "wallet_ok C (x_perm E) (hs_cm_leaves s) w" unfolding w by (rule scanned_ok [OF run reach e(6)])
  note dist = wallet_okD(4) [OF wok]
  let ?need = "amount + hp_flat_fee params"
  have out: "case select_notes w ?need (hs_height s) of
      Inl e \<Rightarrow> pay = Inl e
    | Inr (a, b) \<Rightarrow> (if \<not> change_fits a b amount (hp_flat_fee params) \<or> nf a = nf b then pay = Inl PePanic
         else if bad_payee then pay = Inl PeBadRecipient else if bad_own then pay = Inl PePanic else \<exists>r. pay = Inr r)"
    using hn_view.pay_outcome [OF ok wok e(1,3) rec rnd, where amount = amount and fee = "hp_flat_fee params"]
    unfolding state_view_seen pay_def nf_def bad_payee_def bad_own_def .
  have sel: "select_notes w ?need (hs_height s) = Inl e' \<Longrightarrow> (\<exists>k. e' = PeNotEnoughNotes k) \<or> e' = PeInsufficientFunds" for e'
    by (rule select_notes_errors)
  have short: "select_notes w ?need (hs_height s) = Inl (PeNotEnoughNotes k) \<longleftrightarrow> k = card notes \<and> k < 2" for k
    unfolding notes_def by (rule select_notes_short [OF dist])
  have pay_sel: "pay = Inl e' \<longleftrightarrow> select_notes w ?need (hs_height s) = Inl e'" if "e' \<noteq> PePanic" "e' \<noteq> PeBadRecipient" for e'
    using out that by (cases "select_notes w ?need (hs_height s)") (auto split: if_splits prod.splits)
  have "pay \<noteq> Inl PeMissingPath" using pay_sel [of PeMissingPath] sel by auto
  moreover have "\<forall>k. pay = Inl (PeNotEnoughNotes k) \<longleftrightarrow> k = card notes \<and> k < 2" using pay_sel short by simp
  moreover have "pay = Inl PeBadRecipient \<longleftrightarrow> bad_payee \<and> (\<exists>a b. selected a b \<and> change_fits a b amount (hp_flat_fee params) \<and> nf a \<noteq> nf b)"
    using out sel unfolding selected_def by (cases "select_notes w ?need (hs_height s)") (auto split: if_splits prod.splits)
  moreover have "pay = Inl PePanic \<longleftrightarrow> (\<exists>a b. selected a b \<and> (\<not> change_fits a b amount (hp_flat_fee params) \<or> nf a = nf b
          \<or> \<not> bad_payee \<and> bad_own))"
    using out sel unfolding selected_def by (cases "select_notes w ?need (hs_height s)") (auto split: if_splits prod.splits)
  moreover have "(pay = Inl PeInsufficientFunds \<longleftrightarrow> 2 \<le> card notes \<and> (\<forall>m \<in> notes. \<forall>n \<in> notes. m \<noteq> n \<longrightarrow>
            unat (on_value m) + unat (on_value n) < unat amount + unat (hp_flat_fee params)))
        \<and> (\<forall>a b. selected a b \<longrightarrow> change_fits a b amount (hp_flat_fee params))"
    if fee: "unat amount + unat (hp_flat_fee params) < 2 ^ 64"
      and small: "\<forall>m \<in> notes. \<forall>n \<in> notes. m \<noteq> n \<longrightarrow> unat (on_value m) + unat (on_value n) < 2 ^ 64"
  proof -
    have need: "unat ?need = unat amount + unat (hp_flat_fee params)" by (rule unat_add_fits [OF fee])
    note funds = select_notes_funds [OF dist small [unfolded notes_def], of ?need, unfolded need, folded notes_def]
    have "change_fits a b amount (hp_flat_fee params)" if ab: "selected a b" for a b
    proof -
      note s = select_notes_ok [OF ab [unfolded selected_def] dist]
      have "a \<in> notes" "b \<in> notes" "a \<noteq> b" using s(1-5) by (auto simp: notes_def spendable_notes_def)
      then have "unat (on_value a) + unat (on_value b) < 2 ^ 64" using small by blast
      then show ?thesis using funds ab by (auto simp: change_fits_def selected_def)
    qed
    then show ?thesis using funds pay_sel [of PeInsufficientFunds] by simp
  qed
  ultimately show ?thesis by blast
qed

text \<open>
  A wallet that has scanned past a reorganisation misses the notes of the new branch: while the new branch
  is not longer than what it has scanned, a scan adds nothing.
\<close>

lemma reorg_note_missed:
  assumes reach: "hn_reach E params bs s" and p: "perm_ok (x_perm E)"
    and cur: "length (run_leaves (x_perm E) params bs) \<le> wa_scan_cursor w"
  shows "same_notes (wa_notes w) (wa_notes (wallet_scan C (x_perm E) (state_view (x_perm E) s) w))"
proof -
  note ok = ledger_okI [OF p reach]
  have "\<forall>o' \<in> set (hs_outputs s). or_leaf_index o' < length (hs_cm_leaves s)"
    using hn_view.feed [OF ok] by (auto simp: feed_of_def in_set_conv_nth)
  then have "cv_since (state_view (x_perm E) s) (wa_scan_cursor w) = []"
    using cur hn_reach_leaves [OF reach] by (auto simp: hn_view.since [OF ok] filter_empty_conv)
  then have scan: "wallet_scan C (x_perm E) (state_view (x_perm E) s) w
      = refresh_spent (x_perm E) (state_view (x_perm E) s) (w \<lparr> wa_scan_cursor := cv_count (state_view (x_perm E) s) \<rparr>)"
    by (simp add: wallet_scan_def)
  show ?thesis
    unfolding scan using same_notes_refresh [of "w \<lparr> wa_scan_cursor := cv_count (state_view (x_perm E) s) \<rparr>"] by simp
qed

end
