(* ===== verification/LedgerTypes.thy ===== *)
theory LedgerTypes
  imports ChainFeed
begin

text \<open>
  The data types of the ledger state: Rust keeps the shape of its arrays by type, the model by an invariant.
\<close>

definition state_typed :: "hn_params \<Rightarrow> hn_state \<Rightarrow> bool" where
  "state_typed params s \<longleftrightarrow> list_all wf_digest (hs_cm_leaves s) \<and> list_all wf_digest (hs_recent_roots s)
     \<and> (\<forall>k \<in> hs_nullifiers s. length k = digest_elems \<and> (\<forall>x \<in> set k. unat x < babybear_p))
     \<and> map or_cm (hs_outputs s) = hs_cm_leaves s \<and> map or_leaf_index (hs_outputs s) = [0..<length (hs_cm_leaves s)]
     \<and> (\<forall>r \<in> set (hs_outputs s). length (or_ciphertext r) = note_ct_bytes \<and> or_height r < hs_height s)
     \<and> length (hs_cm_leaves s) \<le> 2 ^ depth \<and> hs_recent_roots s \<noteq> []
     \<and> length (hs_recent_roots s) \<le> hp_root_window params \<and> length (hs_daa_view s) \<le> hp_daa_window params + 1"

lemma block_outs_ct:
  assumes "apply_block E s b = Inr (s', u)"
  shows "\<forall>l \<in> set (block_outs (x_perm E) (hs_params s) b). length (fst (snd l)) = note_ct_bytes"
proof -
  obtain ga where "fold_r (validate_pegins_step (x_perm E) s)
         \<lparr> ga_in_block = [], ga_cms = [], ga_inflow = 0, ga_fees = 0 \<rparr> (hb_pegins b) = Inr ga"
    using assms unfolding apply_block_def by (auto simp: bind_r_eq_Inr)
  from validate_pegins_ok [OF this] have p: "\<forall>p \<in> set (hb_pegins b). length (pc_ciphertext p) = note_ct_bytes" by blast
  from assms have v: "\<forall>tx \<in> set (spend_txs b). \<exists>p nf. validate_tx E s tx p = Inr nf" and h: "check_header E s b = Inr ()"
    by (rule apply_blockE, simp)+
  have c: "length (hb_coinbase_ct b) = note_ct_bytes"
    using h by (auto simp: check_header_def result_simps split: if_splits)
  have t: "length (tx_ct0 tx) = note_ct_bytes \<and> length (tx_ct1 tx) = note_ct_bytes" if "tx \<in> set (spend_txs b)" for tx
    using v that by (fastforce simp: validate_tx_def split: if_splits)
  have "\<forall>l \<in> set (tx_outs tx). length (fst (snd l)) = note_ct_bytes" if "tx \<in> set (spend_txs b)" for tx
    using t [OF that] by (simp add: tx_outs_def tx_cms_def)
  then show ?thesis using p c by (auto simp: block_outs_def)
qed

lemma block_nfs_typed:
  assumes "apply_block E s b = Inr (s', u)" "k \<in> set (block_nfs b)"
  shows "length k = digest_elems \<and> (\<forall>x \<in> set k. unat x < babybear_p)"
proof -
  from assms(1) have v: "\<forall>tx \<in> set (spend_txs b). \<exists>p nf. validate_tx E s tx p = Inr nf" by (rule apply_blockE, simp)
  from assms(2) obtain tx where tx: "tx \<in> set (spend_txs b)" "k \<in> set (tx_nfs tx)" by (auto simp: block_nfs_def)
  from v tx(1) obtain p nf0 nf1 where ok: "validate_tx E s tx p = Inr (nf0, nf1)" by auto
  note d = validate_tx_ok(3-5) [OF ok]
  have key: "length (nf_key nf) = digest_elems \<and> (\<forall>x \<in> set (nf_key nf). unat x < babybear_p)" if "wf_digest nf" for nf
    using that by (auto simp: nf_key_def wf_digest_def list_all_iff unat_as_canonical)
  show ?thesis using tx(2) d key digest_at_wf by auto
qed

text \<open>
  C17: The ledger state is well typed along every run: leaves, roots and nullifier keys are eight canonical
  field elements, the feed lists the leaves in order with ciphertexts of the fixed size, and the tree and
  both windows stay within their bounds.
\<close>
theorem ledger_state_typed:
  assumes reach: "hn_reach E params bs s" and perm: "perm_ok (x_perm E)" and w: "0 < hp_root_window params"
    and size: "length bs < 2 ^ 64"
  shows "state_typed params s"
proof -
  note ls = hn_reach_leaves [OF reach] and outs = hn_reach_outputs [OF reach] and rep = hn_reach_tree [OF reach]
  have roots: "list_all wf_digest (run_roots (x_perm E) params bs)"
  proof -
    have "wf_digest (merkle_root (x_perm E) (run_leaves (x_perm E) params (take k bs)))" for k
      by (rule wf_merkle_root [OF perm])
        (use hn_reach_wf_leaves [OF reach perm] in \<open>auto simp: run_leaves_def dest: in_set_takeD\<close>)
    then show ?thesis by (simp add: run_roots_def list_all_iff del: upt_Suc)
  qed
  have len: "0 < length (run_roots (x_perm E) params bs)" by (simp add: run_roots_def)
  have nfs: "\<forall>k \<in> hs_nullifiers s. length k = digest_elems \<and> (\<forall>x \<in> set k. unat x < babybear_p)"
    using reach
  proof induction
    case (block bs s b s' u)
    then show ?case using block_nfs_typed [OF block.hyps(2)] apply_block_effect [OF block.hyps(2)] by auto
  qed (simp add: hn_new_def)
  have feed: "\<forall>r \<in> set (hs_outputs s). length (or_ciphertext r) = note_ct_bytes \<and> unat (or_height r) < length bs"
    using reach size
  proof induction
    case (block bs s b s' u)
    have "\<forall>r \<in> set (hs_outputs s). length (or_ciphertext r) = note_ct_bytes \<and> unat (or_height r) < length bs"
      using block by simp
    then show ?case
      using block.prems block_outs_ct [OF block.hyps(2)] apply_block_outputs [OF block.hyps(2) hn_reach_tree [OF block.hyps(1)]]
        hn_reach_height [OF block.hyps(1)]
      by (auto simp: unat_of_nat enumerate_eq_zip take_bit_nat_eq_self dest!: set_zip_rightD)
  qed (simp add: hn_new_def)
  have h: "unat (hs_height s) = length bs"
    using hn_reach_height [OF reach] size by (simp add: unat_of_nat take_bit_nat_eq_self)
  have recent: "list_all wf_digest (hs_recent_roots s)" "hs_recent_roots s \<noteq> []" "length (hs_recent_roots s) \<le> hp_root_window params"
    using roots diff_less [OF w len] length_take_last [of "hp_root_window params" "run_roots (x_perm E) params bs"]
    by (auto simp: hn_reach_roots [OF reach w] take_last_def list_all_iff not_le diff_less dest: in_set_dropD)
  have view: "length (hs_daa_view s) \<le> hp_daa_window params + 1"
    by (simp add: hn_reach_daa [OF reach] length_take_last)
  have feed_ls: "map or_cm (hs_outputs s) = hs_cm_leaves s" "map or_leaf_index (hs_outputs s) = [0..<length (hs_cm_leaves s)]"
    by (rule nth_equalityI; simp add: outs ls length_run_feed run_feed_nth)+
  have "list_all wf_digest (hs_cm_leaves s)" "length (hs_cm_leaves s) \<le> 2 ^ depth"
    using hn_reach_wf_leaves [OF reach perm] rep by (simp_all add: ls list_all_iff nt_rep_def)
  moreover have "\<forall>r \<in> set (hs_outputs s). length (or_ciphertext r) = note_ct_bytes \<and> or_height r < hs_height s"
    using feed h by (simp add: word_less_nat_alt)
  ultimately show ?thesis
    unfolding state_typed_def using recent nfs feed_ls view by blast
qed

end
