(* ===== verification/WalletDemo.thy ===== *)
theory WalletDemo
  imports SpendDemo WalletLedger LedgerTypes
begin

text \<open>
  A concrete wallet on a concrete chain: two peg-ins make two notes of the wallet, which pays one of them
  to itself; a second block carries the payment.
\<close>

section \<open>Primitives\<close>

definition toy :: ciphers where
  "toy = \<lparr> c_public = (\<lambda>sk. replicate 32 1), c_dh = (\<lambda>sk pk. replicate 32 1), c_hkdf = (\<lambda>ikm info n. replicate n 0),
     c_seal = (\<lambda>k n ad msg. msg @ replicate 16 0), c_open = (\<lambda>k n ad ct. Some (take (length ct - 16) ct)) \<rparr>"

lemma toy_ok: "cipher_ok toy"
  by (simp add: cipher_ok_def toy_def)

lemma toy_encrypts: "encrypt_note_with toy a cm pt esk \<noteq> None"
  unfolding encrypt_note_Some by (simp add: toy_def list_all_length) (rule exI [of _ 0], simp)

definition toy_circuit :: "(F list \<Rightarrow> F list) \<Rightarrow> (F \<Rightarrow> F option) \<Rightarrow> circuit" where
  "toy_circuit g invf = \<lparr> sc_gen = g, sc_inverse = invf, sc_prove = (\<lambda>trace pis. []), sc_verify = (\<lambda>pf pis. True) \<rparr>"

lemma toy_prover:
  obtains g invf where "prover_ok ind_layers (toy_circuit g invf)"
  using trace_gen_exists [OF ind_layers_ok] inverse_exists that ind_layers_ok by (auto simp: prover_ok_def toy_circuit_def)

definition wd :: "(nat, bytes) ext" where
  "wd = demo \<lparr> x_perm := ind_perm, x_spend_verify := (\<lambda>pf publics. length publics = n_pub) \<rparr>"

lemma wd_fields [simp]: "x_perm wd = ind_perm" "x_spend_verify wd pf publics \<longleftrightarrow> length publics = n_pub"
  by (simp_all add: wd_def)

lemma wd_env: "prover_ok ind_layers (toy_circuit g invf) \<Longrightarrow> wallet_env ind_layers (toy_circuit g invf) toy wd flat_params"
  using toy_ok by (simp add: wallet_env_def ind_perm_def fun_eq_iff circuit_verify_def toy_circuit_def)

lemma ind_perm_ok: "perm_ok ind_perm"
  unfolding ind_perm_def by (rule perm_ok_p2 [OF ind_layers_ok])

section \<open>The wallet\<close>

definition wd_keys :: wallet_keys where
  "wd_keys = keys_from_seed toy []"

lemma wd_nk [simp]: "wk_nk wd_keys = dz"
proof -
  have z: "from_le (replicate n (0 :: u8)) = (0 :: u64)" for n by (induction n) simp_all
  have "map (\<lambda>i. f_of_u64 (from_le (take 8 (drop (8 * i) (replicate 64 (0 :: u8)))))) [0..<8] = replicate 8 0"
    by (rule nth_equalityI) (simp_all add: z f_of_u64_def)
  then show ?thesis by (simp add: wd_keys_def keys_from_seed_def toy_def digest_elems_def dz_replicate)
qed

definition wd_address :: hn_address where
  "wd_address = keys_address toy ind_perm wd_keys"

lemma wd_owner [simp]: "ad_owner wd_address = dz"
  by (simp add: wd_address_def ind_owner ind_digest_def babybear_p_def)

section \<open>The peg-in notes\<close>

lemma hash_domain_first:
  assumes "length a = 8" "length b = 1" "a ! 0 < babybear_p" "b ! 0 < babybear_p"
  shows "hash_domain ind_perm tag (a @ b) = ind_digest (f_add (tri (a ! 0)) (b ! 0))"
proof -
  have "chunks rate (a @ b) = [a, b]"
    using assms(1,2) by (subst chunks_append) (auto simp: rate_def chunks.simps [of 8 b])
  then have "hash_domain ind_perm tag (a @ b)
      = take 8 (ind_perm (absorb (ind_perm (absorb (sponge_init tag 9) a)) b))"
    using assms by (simp add: hash_domain_def digest_elems_def)
  moreover have "absorb s b ! 0 = f_add (s ! 0) (b ! 0)" if "length s = 16" for s
    using that assms(2) by (cases s; cases b) (simp_all add: absorb_def)
  ultimately show ?thesis
    using assms by (simp add: ind_take ind_first absorb_first f_add_0)
qed

definition wd_box :: "u8 \<Rightarrow> bytes" where
  "wd_box k = k # replicate 31 0"

lemma wd_nonce: "hash_domain ind_perm tag (hn_id_field (wd_box k) purpose_pegin)
    = ind_digest (f_add (tri (unat k)) 2)"
proof -
  have ch: "chunks 4 (wd_box k) = [k, 0, 0, 0] # replicate 7 [0, 0, 0, 0]"
    by (simp add: wd_box_def eval_nat_numeral chunks.simps)
  have le: "from_le32 [k, 0, 0, 0] = ucast k" "from_le32 [0, 0, 0, 0] = 0" by (simp_all add: from_le32_def)
  have lt: "unat k < 256" using unsigned_less [of k] by simp
  have "f_of_u32 (ucast k) = unat k"
    using lt by (simp add: f_of_u32_def babybear_p_def unsigned_ucast_eq take_bit_nat_eq_self)
  then have "hn_id_field (wd_box k) purpose_pegin = (unat k # replicate 7 0) @ [2]"
    by (simp add: hn_id_field_def ch le purpose_pegin_def f_of_u32_def babybear_p_def)
  moreover have "hash_domain ind_perm tag ((unat k # replicate 7 0) @ [2]) = ind_digest (f_add (tri (unat k)) 2)"
    by (subst hash_domain_first) (use lt in \<open>simp_all add: babybear_p_def\<close>)
  ultimately show ?thesis by simp
qed

definition wd_rho :: "u8 \<Rightarrow> digest" where
  "wd_rho k = ind_digest (f_add (tri (unat k)) 2)"

lemma wd_rhos [simp]: "wd_rho 0 = dm" "wd_rho 5 = du" "wf_digest (wd_rho k)"
  by (simp_all add: wd_rho_def ind_digest_def tri_def f_add_def babybear_p_def)

definition wd_note :: "u8 \<Rightarrow> output_note" where
  "wd_note k = \<lparr> out_value = 990, out_owner = dz, out_rho = wd_rho k, out_r = wd_rho k \<rparr>"

definition wd_claim :: "u8 \<Rightarrow> pegin_claim" where
  "wd_claim k = \<lparr> pc_box_id = wd_box k, pc_dest_owner = replicate 8 0, pc_dest_enc_pk = replicate 32 1, pc_amount = 1000,
     pc_ciphertext = the (encrypt_note_with toy wd_address (output_cm ind_perm (wd_note k)) (out_plaintext (wd_note k)) []) \<rparr>"

lemma wd_note_wf: "wf_output (wd_note k)"
  by (simp add: wf_output_def wd_note_def)

lemma wd_encrypted: "encrypt_note_with toy wd_address (output_cm ind_perm (wd_note k)) (out_plaintext (wd_note k)) []
    = Some (pc_ciphertext (wd_claim k))"
  using toy_encrypts by (simp add: wd_claim_def)

lemma wd_claim_fields [simp]:
  "pc_box_id (wd_claim k) = wd_box k" "pc_amount (wd_claim k) = 1000" "pc_dest_owner (wd_claim k) = replicate 8 0"
  "length (pc_ciphertext (wd_claim k)) = note_ct_bytes"
  using encrypt_note_length [OF toy_ok wf_out_plaintext [OF wd_note_wf] wd_encrypted] by (simp_all add: wd_claim_def)

lemma wd_cm: "hn_pegmint_cm_expected ind_perm dz 990 (wd_box k) = output_cm ind_perm (wd_note k)"
  by (simp add: hn_pegmint_cm_expected_def hn_mint_nonces_def Let_def wd_nonce output_cm_def wd_note_def wd_rho_def)

lemma wd_decrypts: "try_decrypt toy ind_perm (wk_enc_sk wd_keys) dz (output_cm ind_perm (wd_note k)) (pc_ciphertext (wd_claim k))
    = Some (out_plaintext (wd_note k))"
proof -
  have pk: "ad_enc_pk wd_address = c_public toy (wk_enc_sk wd_keys)" by (simp add: wd_address_def)
  show ?thesis
    using decrypt_encrypted [OF toy_ok wf_out_plaintext [OF wd_note_wf] wd_encrypted pk, of ind_perm dz]
    by (simp add: output_cm_def) (simp add: wd_note_def)
qed

section \<open>The first block\<close>

definition wd_leaves :: "digest list" where
  "wd_leaves = [output_cm ind_perm (wd_note 0), output_cm ind_perm (wd_note 5),
     hn_coinbase_cm_expected ind_perm dz 1 (hn_block_id ind_perm 0 dz)]"

definition wd_block :: hn_block where
  "wd_block = flat_block \<lparr> hb_prev_root := replicate 8 0, hb_pegins := [wd_claim 0, wd_claim 5],
     hb_miner_owner := replicate 8 0, hb_coinbase_amount := 1, hb_coinbase_cm := digest_to_limbs (wd_leaves ! 2), hb_coinbase_ct := replicate 152 255,
     hb_pot_after := 1000019, hb_shielded_after := 1981,
     hb_state_root := digest_to_limbs (merkle_root ind_perm wd_leaves) \<rparr>"

lemma wd_block_fields [simp]:
  "hb_height wd_block = 0" "hb_prev_root wd_block = replicate 8 0" "hb_txs wd_block = []" "hb_pegouts wd_block = []"
  "hb_pegins wd_block = [wd_claim 0, wd_claim 5]" "hb_prev_header_id wd_block = genesis_parent" "hb_nbits wd_block = 1"
  "hb_miner_owner wd_block = replicate 8 0" "hb_coinbase_amount wd_block = 1" "hb_coinbase_is_reward wd_block"
  "hb_coinbase_cm wd_block = digest_to_limbs (hn_coinbase_cm_expected ind_perm dz 1 (hn_block_id ind_perm 0 dz))"
  "hb_coinbase_ct wd_block = replicate 152 255" "hb_anchor wd_block = flat_anchor"
  "hb_pot_after wd_block = 1000019" "hb_shielded_after wd_block = 1981" "hb_timestamp_ms wd_block = 1000"
  "hb_state_root wd_block = digest_to_limbs (merkle_root ind_perm wd_leaves)" "hb_aux_pow wd_block = None"
  by (simp_all add: wd_block_def flat_block_def wd_leaves_def)

lemma wd_coinbase_wf: "wf_digest (hn_coinbase_cm_expected ind_perm owner v ident)"
  by (rule wf_coinbase_cm [OF ind_perm_ok])

lemma ind_new_fields:
  "hs_tree (hn_new ind_perm flat_params) = nt_new" "hs_params (hn_new ind_perm flat_params) = flat_params"
  "hs_recent_roots (hn_new ind_perm flat_params) = [dz]" "hs_nullifiers (hn_new ind_perm flat_params) = {}"
  "hs_used_pegins (hn_new ind_perm flat_params) = {}" "hs_height (hn_new ind_perm flat_params) = 0"
  "hs_pot (hn_new ind_perm flat_params) = 1000000" "hs_shielded_total (hn_new ind_perm flat_params) = 0"
  "hs_daa_view (hn_new ind_perm flat_params) = []"
  by (simp_all add: hn_new_def ind_new_root)

lemma wd_nbits: "length view \<le> 90 \<Longrightarrow> next_nbits wd (hn_daa flat_params) view = Some 1"
  by (simp add: next_nbits_def hn_daa_def Let_def)

lemma flat_coinbase: "coinbase_amount flat_params 1000000 0 = 1" "coinbase_amount flat_params 1000019 (Suc 0) = 2"
  by (simp_all add: coinbase_amount_def saturating_add_def saturating_mul_def)

lemma wd_apply:
  obtains s u where "apply_block wd (hn_new ind_perm flat_params) wd_block = Inr (s, u)"
    "hs_nullifiers s = {}" "hs_height s = 1" "hs_pot s = 1000019" "hs_shielded_total s = 1981"
    "hs_daa_view s = [(1000, 1)]" "hs_anchor_height s = 7"
proof -
  let ?s = "hn_new ind_perm flat_params"
  note new = ind_new_fields
  obtain tree where tree: "append_all (nt_append ind_perm) nt_new wd_leaves = Some tree"
  proof -
    have "length ([] :: digest list) + length wd_leaves \<le> 2 ^ depth" by (simp add: depth_def wd_leaves_def)
    from nt.append_all_fits [OF nt_rep_new this] that show thesis by blast
  qed
  have root: "nt_root ind_perm tree = merkle_root ind_perm wd_leaves"
    using nt_root_rep nt.append_all_SomeD [OF nt_rep_new tree] by simp
  let ?pa = "\<lparr> pa_nfs = [], pa_outflow = 0, pa_fees = 0, pa_burn_total = 0 \<rparr>"
  let ?ga = "\<lparr> ga_in_block = [wd_box 0, wd_box 5], ga_cms = take 2 wd_leaves, ga_inflow = 2000, ga_fees = 20 \<rparr>"
  let ?leaves = "[(wd_leaves ! 0, pc_ciphertext (wd_claim 0), False), (wd_leaves ! 1, pc_ciphertext (wd_claim 5), False),
    (wd_leaves ! 2, replicate 152 255, True)]"
  have 1: "check_header wd ?s wd_block = Inr ()"
    by (simp add: check_header_def hn_tip_root_def new ind_new_root ind_flat_digest expected_nbits_def wd_nbits check_aux_pow_def
        note_ct_bytes_def)
  have 2: "fold_r (validate_txs_step wd ?s) [] (hb_txs wd_block) = Inr []" by simp
  have 3: "fold_r (validate_pegouts_step wd ?s) ?pa (hb_pegouts wd_block) = Inr ?pa" by simp
  have box: "wd_box 0 \<noteq> wd_box 5" by (simp add: wd_box_def)
  have 4: "fold_r (validate_pegins_step (x_perm wd) ?s) \<lparr> ga_in_block = [], ga_cms = [], ga_inflow = 0, ga_fees = 0 \<rparr> (hb_pegins wd_block) = Inr ?ga"
    using box by (simp add: validate_pegins_step_def Let_def checked_sub_def word_le_nat_alt word_less_nat_alt new
        ind_flat_digest wd_cm wd_leaves_def)
  have 5: "(if hb_coinbase_is_reward wd_block then reward_economics ?s wd_block ?pa ?ga else genesis_economics ?s wd_block) = Inr (1000019, 1981)"
    by (simp add: reward_economics_def new flat_coinbase Let_def checked_sub_def word_le_nat_alt)
  have 6: "block_leaves wd_block (ga_cms ?ga) = Inr ?leaves"
    by (simp add: block_leaves_def spend_txs_def wd_coinbase_wf wd_leaves_def)
  have 7: "check_commitments (x_perm wd) ?s wd_block 1981 ?leaves = Inr ()"
    using tree root by (simp add: check_commitments_def Let_def simulate_state_root_def new hn_tip_root_def
        ind_new_root ind_flat_digest wd_leaves_def)
  have 8: "append_all (nt_append (x_perm wd)) (hs_tree ?s) (map fst ?leaves) = Some tree"
    using tree by (simp add: new wd_leaves_def)
  have 9: "block_withdrawals ?s wd_block = Inr []" by (simp add: block_withdrawals_def)
  show thesis
    by (rule apply_block_accept [OF 1 2 3 4 5 6 7 8 9], rule that, assumption)
      (simp_all add: new push_daa_def flat_anchor_def)
qed


section \<open>The scanned wallet\<close>

definition wd_state :: "hn_state \<Rightarrow> bool" where
  "wd_state s \<longleftrightarrow> hn_reach wd flat_params [wd_block] s \<and> hs_nullifiers s = {} \<and> hs_height s = 1 \<and> hs_pot s = 1000019
     \<and> hs_shielded_total s = 1981 \<and> hs_daa_view s = [(1000, 1)] \<and> hs_anchor_height s = 7"

lemma wd_stateE: obtains s where "wd_state s"
proof -
  obtain s u where s: "apply_block wd (hn_new ind_perm flat_params) wd_block = Inr (s, u)"
    "hs_nullifiers s = {}" "hs_height s = 1" "hs_pot s = 1000019" "hs_shielded_total s = 1981"
    "hs_daa_view s = [(1000, 1)]" "hs_anchor_height s = 7" by (rule wd_apply)
  from s(1) have "apply_block wd (hn_new (x_perm wd) flat_params) wd_block = Inr (s, u)" by simp
  from hn_reach.block [OF hn_reach.genesis this] s show thesis by (intro that [of s]) (simp add: wd_state_def)
qed

lemma wd_perm_ok: "perm_ok (x_perm wd)" by (simp add: ind_perm_ok)

definition wd_wallet :: wallet where
  "wd_wallet = wallet_from_seed toy ind_perm []"

lemma wd_wallet_fields [simp]:
  "wa_keys wd_wallet = wd_keys" "wa_owner wd_wallet = dz" "wa_address wd_wallet = wd_address" "wa_notes wd_wallet = []"
  "wa_scan_cursor wd_wallet = 0"
  using wd_owner by (simp_all add: wd_wallet_def wallet_from_seed_def Let_def wd_keys_def [symmetric] wd_address_def)

definition wd_owned :: "u8 \<Rightarrow> nat \<Rightarrow> owned_note" where
  "wd_owned k i = \<lparr> on_value = 990, on_rho = wd_rho k, on_r = wd_rho k, on_memo = no_memo, on_leaf_index = i,
     on_cm = output_cm ind_perm (wd_note k), on_spent = False, on_mined_height = 0, on_is_coinbase = False \<rparr>"

lemma wd_feed: "run_feed ind_perm flat_params [wd_block] = map (feed_record 0)
    [(0, output_cm ind_perm (wd_note 0), pc_ciphertext (wd_claim 0), False),
     (1, output_cm ind_perm (wd_note 5), pc_ciphertext (wd_claim 5), False), (2, wd_leaves ! 2, replicate 152 255, True)]"
proof -
  have "pegin_cm ind_perm flat_params (wd_claim k) = output_cm ind_perm (wd_note k)" for k
    by (simp add: pegin_cm_def pegin_minted_def ind_flat_digest wd_cm)
  then have "block_outs ind_perm flat_params wd_block = [(output_cm ind_perm (wd_note 0), pc_ciphertext (wd_claim 0), False),
     (output_cm ind_perm (wd_note 5), pc_ciphertext (wd_claim 5), False), (wd_leaves ! 2, replicate 152 255, True)]"
    by (simp add: block_outs_def spend_txs_def wd_coinbase_wf wd_leaves_def)
  then show ?thesis using run_feed_snoc [of ind_perm flat_params "[]" wd_block] by (simp add: run_feed.simps run_leaves_def enumerate_eq_zip)
qed

lemma wd_foreign: "try_decrypt toy ind_perm sk owner cm (replicate 152 255) = None"
proof -
  have r: "replicate 4 (255 :: u8) = [255, 255, 255, 255]" by (simp add: eval_nat_numeral)
  have "from_le32 [255, 255, 255, 255] = 0xffffffff" by (simp add: from_le32_def)
  then have "parse_limb (replicate 4 255) = None" unfolding r by (simp add: parse_limb_def babybear_p_def)
  moreover have "chunks 4 (replicate 32 255) = replicate 8 (replicate 4 (255 :: u8))"
    by (simp add: eval_nat_numeral chunks.simps)
  moreover have "those (replicate 8 (None :: F option)) = None" by (simp add: eval_nat_numeral)
  ultimately have "parse_plaintext (replicate 104 255) = None"
    by (simp add: parse_plaintext_def digest_from_bytes_def plaintext_bytes_def memo_bytes_def)
  then show ?thesis by (simp add: try_decrypt_def Let_def toy_def epk_bytes_def note_ct_bytes_def)
qed

lemma wd_scan:
  assumes "wd_state s"
  shows "wa_notes (wallet_scan toy ind_perm (state_view ind_perm s) wd_wallet) = [wd_owned 0 0, wd_owned 5 1]"
proof -
  have reach: "hn_reach wd flat_params [wd_block] s" and nf: "hs_nullifiers s = {}" using assms by (simp_all add: wd_state_def)
  have ok: "ledger_ok wd flat_params s" using reach ind_perm_ok by (auto simp: ledger_ok_def)
  have w: "wallet_ok toy (x_perm wd) [] wd_wallet" unfolding wd_wallet_def using wallet_ok_from_seed by simp
  have d: "decrypted toy ind_perm wd_wallet (feed_record 0 (i, output_cm ind_perm (wd_note k), pc_ciphertext (wd_claim k), False))
      = Some (wd_owned k i)" for i k
    by (simp add: decrypted_def wd_decrypts) (simp add: note_of_def wd_owned_def feed_record_def out_plaintext_def wd_note_def)
  have d2: "decrypted toy ind_perm wd_wallet (feed_record 0 (2, cm, replicate 152 255, True)) = None" for cm
    by (simp add: decrypted_def wd_foreign)
  from hn_view.scan_is [OF ok w, of "hs_cm_leaves s"] show ?thesis
    by (simp add: hn_reach_outputs [OF reach] wd_feed d d2 refresh_spent_def nf)
qed

section \<open>Spending from it\<close>

definition wd_seeds :: spend_seeds where
  "wd_seeds = \<lparr> ss_rho_pay = dz, ss_r_pay = dz, ss_rho_chg = dz, ss_r_chg = dz, ss_esk_pay = [], ss_esk_chg = [] \<rparr>"

lemma wd_seeds_wf: "wf_seeds wd_seeds"
  by (simp add: wf_seeds_def wd_seeds_def)

lemma wd_address_wf: "wf_address wd_address"
  unfolding wd_address_def by (rule wf_keys_address [OF ind_perm_ok toy_ok])

definition wd_scanned :: "hn_state \<Rightarrow> wallet" where
  "wd_scanned s = wallet_scan toy ind_perm (state_view ind_perm s) wd_wallet"

lemma wd_select:
  assumes "wd_state s" "need \<le> 990"
  shows "select_notes (wd_scanned s) need 1 = Inr (wd_owned 0 0, wd_owned 5 1)"
proof -
  have "is_spendable 1 (wd_owned k i)" for k i by (simp add: is_spendable_def wd_owned_def)
  moreover have "note_order [wd_owned 0 0, wd_owned 5 1] = [wd_owned 0 0, wd_owned 5 1]"
    by (simp add: note_order_def) (simp add: wd_owned_def)
  moreover have "on_value (wd_owned k i) = 990" for k i by (simp add: wd_owned_def)
  ultimately show ?thesis using assms by (simp add: select_notes_def wd_scanned_def wd_scan)
qed

lemma wd_run_scanned:
  assumes "wd_state s"
  shows "wallet_run toy SC wd flat_params [] [] wd_wallet" "wallet_run toy SC wd flat_params [] [wd_block] (wd_scanned s)"
proof -
  show 1: "wallet_run toy SC wd flat_params [] [] wd_wallet"
    using wallet_run.opened [of toy SC wd flat_params "[]"] by (simp add: wd_wallet_def)
  have "hn_reach wd flat_params ([] @ [wd_block]) s" using assms by (simp add: wd_state_def)
  from wallet_run.scanned [OF 1 this] show "wallet_run toy SC wd flat_params [] [wd_block] (wd_scanned s)"
    by (simp add: wd_scanned_def)
qed

lemma wd_prove:
  assumes st: "wd_state s" and S: "prover_ok ind_layers SC" and wf: "wf_output out0" "wf_output out1"
    and bal: "unat (out_value out0) + unat (out_value out1) + unat fee = 1980"
  shows "\<exists>p0 p1 pf publics. spend_paths (state_view ind_perm s) (wd_owned 0 0) (wd_owned 5 1) = Inr (p0, p1)
     \<and> circuit_prove SC ind_perm (note_input (wd_scanned s) (wd_owned 0 0), p0) (note_input (wd_scanned s) (wd_owned 5 1), p1)
         (cv_root (state_view ind_perm s)) out0 out1 fee = Some (pf, publics)"
proof -
  have reach: "hn_reach wd flat_params ([] @ [wd_block]) s" using st by (simp add: wd_state_def)
  have ok: "ledger_ok wd flat_params s" using ledger_okI [OF wd_perm_ok] reach by blast
  have w: "wallet_ok toy (x_perm wd) (hs_cm_leaves s) (wd_scanned s)"
    using scanned_ok [OF wd_run_scanned(1) [OF st, where SC = SC] reach wd_perm_ok] by (simp add: wd_scanned_def)
  have mem: "wd_owned 0 0 \<in> set (wa_notes (wd_scanned s))" "wd_owned 5 1 \<in> set (wa_notes (wd_scanned s))"
    using wd_scan [OF st] by (simp_all add: wd_scanned_def)
  obtain p0 p1 where p: "spend_paths (state_view (x_perm wd) s) (wd_owned 0 0) (wd_owned 5 1) = Inr (p0, p1)"
    "path_args_ok (note_input (wd_scanned s) (wd_owned 0 0), p0)" "path_args_ok (note_input (wd_scanned s) (wd_owned 5 1), p1)"
    "opens_to (x_perm wd) (cv_root (state_view (x_perm wd) s)) (note_input (wd_scanned s) (wd_owned 0 0)) p0"
    "opens_to (x_perm wd) (cv_root (state_view (x_perm wd) s)) (note_input (wd_scanned s) (wd_owned 5 1)) p1"
    by (rule hn_view.spend_paths_ok [OF ok w mem])
  have keys: "wa_keys (wd_scanned s) = wd_keys" by (simp add: wd_scanned_def hn_view.scan_keys [where E = wd, simplified])
  have "nullifier ind_perm dz (wd_rho 0) \<noteq> nullifier ind_perm dz (wd_rho 5)"
    by (simp add: ind_nullifier ind_digest_def f_add_def babybear_p_def) (simp add: dm_def du_def)
  then have "valid_spend ind_perm (cv_root (state_view ind_perm s)) (note_input (wd_scanned s) (wd_owned 0 0), p0)
      (note_input (wd_scanned s) (wd_owned 5 1), p1) out0 out1 fee"
    using p(4,5) wf bal by (simp add: valid_spend_def keys) (simp add: wd_owned_def)
  with circuit_prove_exact [OF S hn_view.wf_root [OF ok, simplified] p(2,3) wf, of fee] p(1) show ?thesis
    by (fastforce simp: ind_perm_def split: option.splits)
qed

lemma wd_encrypts: obtains ct where "encrypt_note_with toy a cm pt esk = Some ct"
  using toy_encrypts by blast

lemma wd_pay:
  assumes st: "wd_state s" and S: "prover_ok ind_layers SC"
  obtains w' tx where "wallet_pay toy SC ind_perm (wd_scanned s) (state_view ind_perm s) wd_seeds wd_address 100 3 = Inr (w', tx)"
proof -
  let ?out0 = "\<lparr> out_value = 100, out_owner = ad_owner wd_address, out_rho = ss_rho_pay wd_seeds, out_r = ss_r_pay wd_seeds \<rparr>"
  let ?out1 = "\<lparr> out_value = on_value (wd_owned 0 0) + on_value (wd_owned 5 1) - (100 + 3), out_owner = wa_owner (wd_scanned s),
    out_rho = ss_rho_chg wd_seeds, out_r = ss_r_chg wd_seeds \<rparr>"
  have tip: "cv_tip (state_view ind_perm s) = 1" using st by (simp add: wd_state_def)
  have own: "wa_owner (wd_scanned s) = dz" by (simp add: wd_scanned_def hn_view.scan_keys [where E = wd, simplified])
  have wf: "wf_output ?out0" "wf_output ?out1" by (simp_all add: wf_output_def wd_seeds_def own)
  have bal: "unat (out_value ?out0) + unat (out_value ?out1) + unat (3 :: u64) = 1980" by (simp add: wd_owned_def)
  obtain p0 p1 pf publics where p: "spend_paths (state_view ind_perm s) (wd_owned 0 0) (wd_owned 5 1) = Inr (p0, p1)"
    "circuit_prove SC ind_perm (note_input (wd_scanned s) (wd_owned 0 0), p0) (note_input (wd_scanned s) (wd_owned 5 1), p1)
         (cv_root (state_view ind_perm s)) ?out0 ?out1 3 = Some (pf, publics)"
    using wd_prove [OF st S wf bal] by blast
  have sel: "select_notes (wd_scanned s) (100 + 3) 1 = Inr (wd_owned 0 0, wd_owned 5 1)" by (rule wd_select [OF st]) simp
  obtain ct0 where 0: "encrypt_note_with toy wd_address (output_cm ind_perm ?out0) (out_plaintext ?out0) (ss_esk_pay wd_seeds) = Some ct0"
    by (rule wd_encrypts)
  obtain ct1 where 1: "encrypt_note_with toy (wa_address (wd_scanned s)) (output_cm ind_perm ?out1) (out_plaintext ?out1) (ss_esk_chg wd_seeds) = Some ct1"
    by (rule wd_encrypts)
  show thesis
    by (rule that) (simp only: wallet_pay_def Let_def tip sel bind_r_Inr prod.case p ok_or_simps 0 1)
qed

lemma wd_burn:
  assumes st: "wd_state s" and S: "prover_ok ind_layers SC"
  obtains w' tx where "wallet_burn_spend toy SC ind_perm (wd_scanned s) (state_view ind_perm s) wd_seeds 100
     (peg_fee flat_params 100) [1] 3 = Inr (w', tx)"
proof -
  let ?nf0 = "nullifier ind_perm (wk_nk (wa_keys (wd_scanned s))) (on_rho (wd_owned 0 0))"
  obtain rho r where n: "burn_nonces ind_perm ?nf0 [1] 100 = (rho, r)" by (cases "burn_nonces ind_perm ?nf0 [1] 100")
  let ?out0 = "\<lparr> out_value = 101, out_owner = burn_owner ind_perm, out_rho = rho, out_r = r \<rparr>"
  let ?out1 = "\<lparr> out_value = on_value (wd_owned 0 0) + on_value (wd_owned 5 1) - 104, out_owner = wa_owner (wd_scanned s),
    out_rho = ss_rho_chg wd_seeds, out_r = ss_r_chg wd_seeds \<rparr>"
  have tip: "cv_tip (state_view ind_perm s) = 1" using st by (simp add: wd_state_def)
  have own: "wa_owner (wd_scanned s) = dz" by (simp add: wd_scanned_def hn_view.scan_keys [where E = wd, simplified])
  have fee: "peg_fee flat_params 100 = 1" by (simp add: peg_fee_def saturating_mul_def max_def word_le_nat_alt)
  have add: "checked_add (100 :: u64) 1 = Some 101" "checked_add (101 :: u64) 3 = Some 104" by (simp_all add: checked_add_def)
  have wf: "wf_output ?out0" "wf_output ?out1" using mem_ledger.wf_burn_note [OF ind_perm_ok n] by (simp_all add: wf_output_def wd_seeds_def own)
  have bal: "unat (out_value ?out0) + unat (out_value ?out1) + unat (3 :: u64) = 1980" by (simp add: wd_owned_def)
  obtain p0 p1 pf publics where p: "spend_paths (state_view ind_perm s) (wd_owned 0 0) (wd_owned 5 1) = Inr (p0, p1)"
    "circuit_prove SC ind_perm (note_input (wd_scanned s) (wd_owned 0 0), p0) (note_input (wd_scanned s) (wd_owned 5 1), p1)
         (cv_root (state_view ind_perm s)) ?out0 ?out1 3 = Some (pf, publics)"
    using wd_prove [OF st S wf bal] by blast
  have sel: "select_notes (wd_scanned s) 104 1 = Inr (wd_owned 0 0, wd_owned 5 1)" by (rule wd_select [OF st]) simp
  obtain ct0 where 0: "encrypt_note_with toy (wa_address (wd_scanned s)) (output_cm ind_perm ?out0) (out_plaintext ?out0) (ss_esk_pay wd_seeds) = Some ct0"
    by (rule wd_encrypts)
  obtain ct1 where 1: "encrypt_note_with toy (wa_address (wd_scanned s)) (output_cm ind_perm ?out1) (out_plaintext ?out1) (ss_esk_chg wd_seeds) = Some ct1"
    by (rule wd_encrypts)
  show thesis
    by (rule that) (simp only: wallet_burn_spend_def Let_def tip fee add sel bind_r_Inr prod.case n p ok_or_simps 0 1)
qed

section \<open>The block that carries the payment\<close>

lemma validate_txD:
  assumes "validate_tx E s tx {} = Inr (nf0, nf1)"
  shows "digest_at (tx_publics tx) pub_nf0 = Some nf0" "digest_at (tx_publics tx) pub_nf1 = Some nf1"
    "length (tx_ct0 tx) = note_ct_bytes" "length (tx_ct1 tx) = note_ct_bytes"
  using assms by (auto simp: validate_tx_def result_simps pub_digest_def split: if_splits)

lemma wd_second:
  assumes st: "wd_state s" and tx: "validate_tx wd s tx {} = Inr (nf0, nf1)"
    and cms: "digest_at (tx_publics tx) pub_cmo0 = Some cm0" "digest_at (tx_publics tx) pub_cmo1 = Some cm1"
  obtains b t where "hb_txs b = [tx]" "hn_reach wd flat_params ([wd_block] @ [b]) t"
proof -
  have reach: "hn_reach wd flat_params [wd_block] s" and f: "hs_nullifiers s = {}" "hs_height s = 1" "hs_pot s = 1000019"
    "hs_shielded_total s = 1981" "hs_daa_view s = [(1000, 1)]" "hs_anchor_height s = 7" using st by (simp_all add: wd_state_def)
  have par: "hs_params s = flat_params" by (rule hn_reach_params [OF reach])
  let ?ls = "run_leaves ind_perm flat_params [wd_block]"
  have rep: "nt_rep ind_perm (hs_tree s) ?ls" using hn_reach_tree [OF reach] by simp
  have len: "length ?ls = 3" using length_run_feed [of ind_perm flat_params "[wd_block]"] by (simp add: wd_feed)
  have wfroot: "wf_digest (hn_tip_root ind_perm s)"
    using hn_view.wf_root [OF ledger_okI [OF wd_perm_ok reach]] by simp
  let ?cc = "hn_coinbase_cm_expected ind_perm dz 2 (hn_block_id ind_perm 1 (hn_tip_root ind_perm s))"
  let ?new = "[cm0, cm1, ?cc]"
  obtain tree where tree: "append_all (nt_append ind_perm) (hs_tree s) ?new = Some tree"
  proof -
    have "length ?ls + length ?new \<le> 2 ^ depth" by (simp add: depth_def len)
    from nt.append_all_fits [OF rep this] that show thesis by blast
  qed
  define b where "b = flat_block \<lparr> hb_height := 1, hb_prev_root := digest_to_limbs (hn_tip_root ind_perm s), hb_txs := [tx],
     hb_pegins := [], hb_miner_owner := replicate 8 0, hb_coinbase_amount := 2, hb_coinbase_cm := digest_to_limbs ?cc,
     hb_pot_after := 1000020, hb_shielded_after := 1980, hb_state_root := digest_to_limbs (nt_root ind_perm tree) \<rparr>"
  have b: "hb_prev_root b = digest_to_limbs (hn_tip_root ind_perm s)" "hb_txs b = [tx]" "hb_pegins b = []" "hb_pegouts b = []"
    "hb_nbits b = 1" "hb_miner_owner b = replicate 8 0" "hb_coinbase_amount b = 2" "hb_coinbase_is_reward b"
    "hb_coinbase_cm b = digest_to_limbs ?cc" "hb_coinbase_ct b = replicate 152 0" "hb_anchor b = flat_anchor"
    "hb_pot_after b = 1000020" "hb_shielded_after b = 1980" "hb_state_root b = digest_to_limbs (nt_root ind_perm tree)" "hb_aux_pow b = None"
    by (simp_all add: b_def flat_block_def)
  let ?pa = "\<lparr> pa_nfs = [nf_key nf0, nf_key nf1], pa_outflow = 0, pa_fees = 0, pa_burn_total = 0 \<rparr>"
  let ?ga = "\<lparr> ga_in_block = [], ga_cms = [], ga_inflow = 0, ga_fees = 0 \<rparr>"
  let ?leaves = "[(cm0, tx_ct0 tx, False), (cm1, tx_ct1 tx, False), (?cc, replicate 152 0, True)]"
  have nb: "next_nbits wd (hn_daa flat_params) [(1000, 1)] = Some 1" by (rule wd_nbits) simp
  have 1: "check_header wd s b = Inr ()"
    using wfroot by (simp add: check_header_def b par f expected_nbits_def nb check_aux_pow_def note_ct_bytes_def flat_anchor_def)
  have 2: "fold_r (validate_txs_step wd s) [] (hb_txs b) = Inr [nf_key nf0, nf_key nf1]"
    using tx by (simp add: b validate_txs_step_def)
  have 3: "fold_r (validate_pegouts_step wd s) ?pa (hb_pegouts b) = Inr ?pa" by (simp add: b)
  have 4: "fold_r (validate_pegins_step (x_perm wd) s) \<lparr> ga_in_block = [], ga_cms = [], ga_inflow = 0, ga_fees = 0 \<rparr> (hb_pegins b) = Inr ?ga"
    by (simp add: b)
  have 5: "(if hb_coinbase_is_reward b then reward_economics s b ?pa ?ga else genesis_economics s b) = Inr (1000020, 1980)"
    by (simp add: reward_economics_def par f b flat_coinbase Let_def checked_sub_def word_le_nat_alt)
  have 6: "block_leaves b (ga_cms ?ga) = Inr ?leaves"
    by (simp add: block_leaves_def spend_leaves_step_def pub_digest_def result_simps spend_txs_def wd_coinbase_wf b cms)
  have 7: "check_commitments (x_perm wd) s b 1980 ?leaves = Inr ()"
    using tree by (simp add: check_commitments_def Let_def simulate_state_root_def b f ind_flat_digest)
  have 8: "append_all (nt_append (x_perm wd)) (hs_tree s) (map fst ?leaves) = Some tree" using tree by simp
  have 9: "block_withdrawals s b = Inr []" by (simp add: block_withdrawals_def b)
  obtain t u where "apply_block wd s b = Inr (t, u)" by (rule apply_block_accept [OF 1 2 3 4 5 6 7 8 9]) (rule that)
  from hn_reach.block [OF reach this] show thesis by (intro that [of b t]) (simp_all add: b)
qed

section \<open>The theorems on the wallet at this instance\<close>

theorem wallet_pay_fails_only_witness:
  "\<exists>s SC. wd_state s \<and> prover_ok ind_layers SC
     \<and> wallet_pay toy SC ind_perm (wd_scanned s) (state_view ind_perm s) wd_seeds wd_address 100 3
         \<notin> {Inl (PeNotEnoughNotes 0), Inl PeMissingPath, Inl PeBadRecipient, Inl PeInsufficientFunds}"
proof -
  obtain s where st: "wd_state s" by (rule wd_stateE)
  obtain g invf where S: "prover_ok ind_layers (toy_circuit g invf)" by (rule toy_prover)
  have reach: "hn_reach wd flat_params ([] @ [wd_block]) s" using st by (simp add: wd_state_def)
  have scan: "wd_scanned s = wallet_scan toy (x_perm wd) (state_view (x_perm wd) s) wd_wallet" by (simp add: wd_scanned_def)
  have store: "wa_notes (wd_scanned s) = [wd_owned 0 0, wd_owned 5 1]" by (simp add: wd_scanned_def wd_scan [OF st])
  have vals: "on_value (wd_owned k i) = 990" "is_spendable h (wd_owned k i)" for k i h by (simp_all add: wd_owned_def is_spendable_def)
  have "on_leaf_index (wd_owned 0 0) \<noteq> on_leaf_index (wd_owned 5 1)" by (simp add: wd_owned_def)
  then have ne: "wd_owned 0 0 \<noteq> wd_owned 5 1" by metis
  have two: "spendable_notes (wd_scanned s) h = {wd_owned 0 0, wd_owned 5 1}" for h by (auto simp: spendable_notes_def store vals)
  have dh: "\<not> list_all (\<lambda>b. b = 0) (c_dh toy sk pk)" for sk pk by (simp add: toy_def list_all_length) (rule exI [of _ 0], simp)
  note r = wallet_pay_fails_only [OF wd_env [OF S] wd_run_scanned(1) [OF st] reach scan wd_address_wf wd_seeds_wf, where amount = 100]
  show ?thesis
    using st S r by (intro exI [of _ s] exI [of _ "toy_circuit g invf"]) (use ne in \<open>simp add: two vals dh\<close>)
qed

theorem wallet_payment_accepted_witness:
  "\<exists>s w' tx nf0 nf1. wd_state s \<and> validate_tx wd s tx {} = Inr (nf0, nf1)
     \<and> (\<exists>SC. wallet_pay toy SC ind_perm (wd_scanned s) (state_view ind_perm s) wd_seeds wd_address 100 3 = Inr (w', tx))"
proof -
  obtain s where st: "wd_state s" by (rule wd_stateE)
  obtain g invf where S: "prover_ok ind_layers (toy_circuit g invf)" by (rule toy_prover)
  obtain w' tx where pay: "wallet_pay toy (toy_circuit g invf) ind_perm (wd_scanned s) (state_view ind_perm s) wd_seeds wd_address 100 3
    = Inr (w', tx)" by (rule wd_pay [OF st S])
  have reach: "hn_reach wd flat_params ([] @ [wd_block]) s" using st by (simp add: wd_state_def)
  from wallet_payment_accepted [OF wd_env [OF S] wd_run_scanned(1) [OF st] reach _ wd_address_wf wd_seeds_wf] pay st
  show ?thesis unfolding wd_fields(1) flat_params_simps(1) by (metis wd_scanned_def)
qed

theorem wallet_burn_accepted_witness:
  "\<exists>s tx acc. wd_state s \<and> validate_pegouts_step wd s \<lparr> pa_nfs = [], pa_outflow = 0, pa_fees = 0, pa_burn_total = 0 \<rparr>
      \<lparr> pt_tx = tx, pt_amount = 100, pt_recipient = [1] \<rparr> = Inr acc \<and> pa_outflow acc = 100"
proof -
  obtain s where st: "wd_state s" by (rule wd_stateE)
  obtain g invf where S: "prover_ok ind_layers (toy_circuit g invf)" by (rule toy_prover)
  obtain w' tx where burn: "wallet_burn_spend toy (toy_circuit g invf) ind_perm (wd_scanned s) (state_view ind_perm s) wd_seeds 100
     (peg_fee flat_params 100) [1] 3 = Inr (w', tx)" by (rule wd_burn [OF st S])
  have reach: "hn_reach wd flat_params ([] @ [wd_block]) s" using st by (simp add: wd_state_def)
  have sizes: "(100 :: u64) \<noteq> 0" "[1 :: u8] \<noteq> []" "length [1 :: u8] \<le> 4096" by simp_all
  from wallet_burn_accepted [OF wd_env [OF S] wd_run_scanned(1) [OF st] reach _ wd_seeds_wf sizes] burn st
  show ?thesis unfolding wd_fields(1) flat_params_simps(1) by (metis wd_scanned_def pegout_acc.select_convs(2))
qed

theorem wallet_store_exact_witness:
  "\<exists>s. wd_state s \<and> map (on_spent_update (\<lambda>_. False)) (wa_notes (wd_scanned s))
     = List.map_filter (decrypted toy ind_perm (wd_scanned s)) (take (wa_scan_cursor (wd_scanned s)) (run_feed ind_perm flat_params [wd_block]))"
proof -
  obtain s where st: "wd_state s" by (rule wd_stateE)
  obtain g invf where S: "prover_ok ind_layers (toy_circuit g invf)" by (rule toy_prover)
  from wallet_store_exact [OF wd_run_scanned(2) [OF st, of "toy_circuit g invf"] wd_perm_ok] st
  show ?thesis by auto
qed

theorem wallet_payment_received_witness:
  "\<exists>b t n. hn_reach wd flat_params [wd_block, b] t \<and> n \<in> set (wa_notes (wallet_scan toy ind_perm (state_view ind_perm t) wd_wallet))
     \<and> on_value n = 100"
proof -
  obtain s where st: "wd_state s" by (rule wd_stateE)
  obtain g invf where S: "prover_ok ind_layers (toy_circuit g invf)" by (rule toy_prover)
  obtain w' tx where pay: "wallet_pay toy (toy_circuit g invf) ind_perm (wd_scanned s) (state_view ind_perm s) wd_seeds wd_address 100 3
    = Inr (w', tx)" by (rule wd_pay [OF st S])
  note run = wd_run_scanned(1) [OF st, of "toy_circuit g invf"]
  have reach: "hn_reach wd flat_params ([] @ [wd_block]) s" using st by (simp add: wd_state_def)
  have pay': "wallet_pay toy (toy_circuit g invf) (x_perm wd) (wd_scanned s) (state_view (x_perm wd) s) wd_seeds wd_address 100
      (hp_flat_fee flat_params) = Inr (w', tx)" using pay by simp
  have scan: "wd_scanned s = wallet_scan toy (x_perm wd) (state_view (x_perm wd) s) wd_wallet" by (simp add: wd_scanned_def)
  obtain nf0 nf1 cm0 cm1 where v: "validate_tx wd s tx {} = Inr (nf0, nf1)"
    "digest_at (tx_publics tx) pub_cmo0 = Some cm0" "digest_at (tx_publics tx) pub_cmo1 = Some cm1"
    using payment_lemma [OF wd_env [OF S] run reach scan wd_address_wf wd_seeds_wf pay'] wd_address_def by (metis wd_fields(1))
  obtain b t where b: "hb_txs b = [tx]" and later: "hn_reach wd flat_params ([wd_block] @ [b]) t" by (rule wd_second [OF st v])
  have addr: "wd_address = keys_address toy (x_perm wd) (keys_from_seed toy [])" by (simp add: wd_address_def wd_keys_def)
  have later': "hn_reach wd flat_params ([] @ [wd_block, b]) t" using later by simp
  have mined: "1 < length [wd_block, b]" "tx \<in> set (spend_txs ([wd_block, b] ! 1))" by (simp_all add: spend_txs_def b)
  from wallet_payment_received [OF wd_env [OF S] run reach scan addr wd_seeds_wf pay' run later' mined] later
  show ?thesis by auto
qed

section \<open>A text form of addresses\<close>

definition toy_bech :: bech where
  "toy_bech = \<lparr> b_encode = (\<lambda>hrp d v. Some (char_of (if v = Bech32 then 0 else 1 :: nat) # map (\<lambda>b. char_of (unat b)) d)),
     b_decode = (\<lambda>s. case s of [] \<Rightarrow> None
       | c # cs \<Rightarrow> Some (hrp_main, map (\<lambda>c. of_nat (of_char c)) cs, if c = char_of (0 :: nat) then Bech32 else Bech32m)),
     b_to_base32 = id, b_from_base32 = Some \<rparr>"

lemma toy_bech_ok: "bech_ok toy_bech hrp_main"
proof -
  have byte: "word_of_nat (unat b mod 256) = b" for b :: u8
    using unsigned_less [of b, where 'a = nat] by simp
  have "char_of (1 :: nat) \<noteq> char_of (0 :: nat)" by (simp add: char_of_eq_iff)
  then have "(if char_of (if v = Bech32 then 0 else 1 :: nat) = char_of (0 :: nat) then Bech32 else Bech32m) = v" for v
    by (cases v) simp_all
  then show ?thesis by (simp add: bech_ok_def toy_bech_def comp_def byte)
qed

theorem address_roundtrip_witness:
  "\<exists>s. address_encode toy_bech wd_address hrp_main = Some s \<and> address_decode toy_bech s hrp_main = Inr wd_address"
  using address_roundtrip [OF toy_bech_ok, of wd_address] wd_address_wf by blast

section \<open>The types of the ledger\<close>

theorem ledger_state_typed_witness: "\<exists>s. wd_state s \<and> state_typed flat_params s"
proof -
  obtain s where st: "wd_state s" by (rule wd_stateE)
  then have reach: "hn_reach wd flat_params [wd_block] s" by (simp add: wd_state_def)
  have "0 < hp_root_window flat_params" "length [wd_block] < 2 ^ 64" by simp_all
  from ledger_state_typed [OF reach wd_perm_ok this] st show ?thesis by blast
qed

end
