(* ===== verification/Keystore.thy ===== *)
theory Keystore
  imports Address
begin

text \<open>
  The wallet seed at rest (\<^verbatim>\<open>engine/wallet/src/keystore.rs\<close>). PBKDF2 and AES-256-GCM are external crates, the
  fields of the record \<open>sealer\<close>; salt and nonce, drawn at random by the code, are arguments.
\<close>

record sealer =
  se_kdf :: "bytes \<Rightarrow> bytes \<Rightarrow> u32 \<Rightarrow> bytes"
  se_seal :: "bytes \<Rightarrow> bytes \<Rightarrow> bytes \<Rightarrow> bytes"
  se_open :: "bytes \<Rightarrow> bytes \<Rightarrow> bytes \<Rightarrow> bytes option"

definition default_iters :: u32 where "default_iters = 600000"
definition seed_len :: nat where "seed_len = 32"

record keystore =
  ks_iters :: u32
  ks_salt :: bytes
  ks_nonce :: bytes
  ks_ct :: bytes

definition derive_key :: "sealer \<Rightarrow> bytes \<Rightarrow> bytes \<Rightarrow> u32 \<Rightarrow> bytes" where
  "derive_key S passphrase salt iters = se_kdf S passphrase salt iters"

definition seal_with :: "sealer \<Rightarrow> bytes \<Rightarrow> bytes \<Rightarrow> u32 \<Rightarrow> bytes \<Rightarrow> bytes \<Rightarrow> keystore" where
  "seal_with S seed passphrase iters salt nonce =
     \<lparr> ks_iters = iters, ks_salt = salt, ks_nonce = nonce, ks_ct = se_seal S (derive_key S passphrase salt iters) nonce seed \<rparr>"

definition keystore_seal :: "sealer \<Rightarrow> bytes \<Rightarrow> bytes \<Rightarrow> bytes \<Rightarrow> bytes \<Rightarrow> keystore" where
  "keystore_seal S seed passphrase = seal_with S seed passphrase default_iters"

definition keystore_open :: "sealer \<Rightarrow> keystore \<Rightarrow> bytes \<Rightarrow> bytes option" where
  "keystore_open S ks passphrase =
     Option.bind (se_open S (derive_key S passphrase (ks_salt ks) (ks_iters ks)) (ks_nonce ks) (ks_ct ks)) (\<lambda>pt.
       if length pt = seed_len then Some pt else None)"

text \<open>The work factor travels with the file, so a sealed seed opens whatever factor it was sealed under.\<close>

lemma keystore_roundtrip:
  assumes "\<And>k n m. se_open S k n (se_seal S k n m) = Some m" and "length seed = seed_len"
  shows "keystore_open S (seal_with S seed passphrase iters salt nonce) passphrase = Some seed"
    "keystore_open S (keystore_seal S seed passphrase salt nonce) passphrase = Some seed"
  using assms by (simp_all add: keystore_open_def keystore_seal_def seal_with_def)

lemma keystore_open_seed: "keystore_open S ks passphrase = Some seed \<Longrightarrow> length seed = seed_len"
  by (auto simp: keystore_open_def bind_eq_Some_conv split: if_splits)

end
