(* ===== verification/OrdMap.thy ===== *)
theory OrdMap
  imports Daa "HOL-Library.List_Lexorder"
begin

text \<open>
  The maps of the curve-tree node (\<^verbatim>\<open>BTreeMap\<close>, and \<^verbatim>\<open>HashMap\<close> where its order is never observed) as
  association lists with ascending keys, so that iteration in key order is a traversal of the list. Ids are byte
  strings, compared lexicographically as Rust compares arrays. Lookup is \<open>map_of\<close>.
\<close>

fun put_key :: "'k::linorder \<Rightarrow> 'v \<Rightarrow> ('k \<times> 'v) list \<Rightarrow> ('k \<times> 'v) list" where
  "put_key k v [] = [(k, v)]"
| "put_key k v ((k', v') # m) =
     (if k < k' then (k, v) # (k', v') # m else if k = k' then (k, v) # m else (k', v') # put_key k v m)"

definition del_key :: "'k \<Rightarrow> ('k \<times> 'v) list \<Rightarrow> ('k \<times> 'v) list" where
  "del_key k m = filter (\<lambda>kv. fst kv \<noteq> k) m"

definition has_key :: "('k \<times> 'v) list \<Rightarrow> 'k \<Rightarrow> bool" where
  "has_key m k \<longleftrightarrow> map_of m k \<noteq> None"

definition ord_map :: "('k::linorder \<times> 'v) list \<Rightarrow> bool" where
  "ord_map m \<longleftrightarrow> sorted_wrt (<) (map fst m)"

lemma map_of_put_key [simp]: "map_of (put_key k v m) = (map_of m)(k \<mapsto> v)"
  by (induction m) (auto simp: fun_upd_twist)

lemma map_of_del_key [simp]: "map_of (del_key k m) = (map_of m)(k := None)"
  unfolding del_key_def by (induction m) (auto simp: fun_eq_iff)

lemma set_put_key: "fst ` set (put_key k v m) = insert k (fst ` set m)"
  by (metis dom_fun_upd dom_map_of_conv_image_fst map_of_put_key option.distinct(1))

lemma set_del_key: "set (del_key k m) = {kv \<in> set m. fst kv \<noteq> k}"
  by (auto simp: del_key_def)

lemma ord_map_Nil [simp]: "ord_map []"
  by (simp add: ord_map_def)

lemma ord_map_Cons: "ord_map ((k, v) # m) \<longleftrightarrow> (\<forall>k' \<in> fst ` set m. k < k') \<and> ord_map m"
  by (auto simp: ord_map_def)

lemma ord_map_put_key [simp]: "ord_map m \<Longrightarrow> ord_map (put_key k v m)"
proof (induction m)
  case (Cons kv m)
  then show ?case by (cases kv) (auto simp: ord_map_Cons set_put_key dest: order.strict_trans)
qed (simp add: ord_map_Cons)

lemma ord_map_del_key [simp]: "ord_map m \<Longrightarrow> ord_map (del_key k m)"
  unfolding ord_map_def del_key_def by (induction m) auto

lemma ord_map_distinct: "ord_map m \<Longrightarrow> distinct (map fst m)"
  by (simp add: ord_map_def strict_sorted_iff)

lemma map_of_iff_in: "ord_map m \<Longrightarrow> map_of m k = Some v \<longleftrightarrow> (k, v) \<in> set m"
  by (auto intro: map_of_is_SomeI dest: map_of_SomeD ord_map_distinct)

lemma has_key_iff: "has_key m k \<longleftrightarrow> k \<in> fst ` set m"
  unfolding has_key_def by (simp add: map_of_eq_None_iff)

lemma length_put_key: "ord_map m \<Longrightarrow> length (put_key k v m) = (if has_key m k then length m else Suc (length m))"
proof (induction m)
  case (Cons kv m)
  then show ?case by (cases kv) (auto simp: ord_map_def has_key_iff image_iff)
qed (simp add: has_key_def)

text \<open>The representation is canonical: equal lookups are equal maps.\<close>

lemma ord_map_eqI: "ord_map m \<Longrightarrow> ord_map m' \<Longrightarrow> map_of m = map_of m' \<Longrightarrow> m = m'"
proof (induction m arbitrary: m')
  case Nil
  then show ?case by (metis map_of.simps(1) map_of_eq_empty_iff)
next
  case (Cons kv r)
  obtain k v where kv: "kv = (k, v)" by fastforce
  have "m' \<noteq> []" using Cons.prems(3) by (metis list.distinct(1) map_of.simps(1) map_of_eq_empty_iff)
  then obtain k' v' r' where m': "m' = (k', v') # r'" by (metis list.exhaust prod.exhaust)
  have dom: "insert k (fst ` set r) = insert k' (fst ` set r')"
    using arg_cong [OF Cons.prems(3), of dom] by (simp only: dom_map_of_conv_image_fst kv m' list.set image_insert fst_conv)
  have k: "k = k'"
    using Cons.prems(1,2) dom unfolding kv m' ord_map_Cons by (metis insert_iff not_less_iff_gr_or_eq)
  have v: "v = v'" using Cons.prems(3) unfolding kv m' by (metis k map_of_Cons_code(2) option.inject)
  have "map_of r = map_of r'"
  proof
    fix x
    show "map_of r x = map_of r' x"
    proof (cases "x = k")
      case True
      have "k \<notin> fst ` set r" "k \<notin> fst ` set r'"
        using Cons.prems(1,2) unfolding kv m' ord_map_Cons by (auto simp: k)
      then show ?thesis using True by (simp add: map_of_eq_None_iff [THEN iffD2])
    next
      case False
      with fun_cong [OF Cons.prems(3), of x] show ?thesis by (simp add: kv m' k)
    qed
  qed
  with Cons.IH [of r'] Cons.prems(1,2) show ?case by (simp add: kv m' k v ord_map_Cons)
qed

end
