(* ===== verification/ErgoFollow.thy ===== *)
theory ErgoFollow
  imports OrdMap
begin

text \<open>
  The Ergo header follower (\<^verbatim>\<open>aegis-node/src/ergo_follow.rs\<close>): PoW-gated ingest, heaviest-work fork choice, the
  settled reference and the settled view that the peg-mint verifier binds inclusions to, and the poll loop.

  The Ergo crates are the records \<open>ext\<close> of the epoch guest and \<open>ergo_lib\<close>; header ids are what the external
  serializer returns. Heights are 32-bit and wrap. A loop that may not end is an option, \<open>None\<close> being a call that
  never returns.
\<close>

record ('h, 't, 'w) ergo_lib =
  el_serialize_header :: "'h \<Rightarrow> (bytes \<times> bytes) option"
  el_pow_ok :: "'h \<Rightarrow> bool"
  el_nbits :: "'h \<Rightarrow> u32"
  el_level :: "'h \<Rightarrow> u32"
  el_inputs :: "'t \<Rightarrow> bytes list"
  el_write_batch :: "batch_proof \<Rightarrow> bytes"
  el_read_batch :: "bytes \<Rightarrow> batch_proof option"
  el_read_nipopow :: "bytes \<Rightarrow> ('w \<times> bytes) option"
  el_write_nipopow :: "'w \<Rightarrow> bytes option"
  el_nipopow_valid :: "'w \<Rightarrow> bool"
  el_continuous :: "'w \<Rightarrow> bool"
  el_chain :: "'w \<Rightarrow> 'h list"
  el_suffix_len :: "'w \<Rightarrow> u32"

section \<open>State\<close>

record followed_header =
  fh_id :: bytes
  fh_parent_id :: bytes
  fh_height :: u32
  fh_work :: nat
  fh_cum :: nat
  fh_level :: u32

type_synonym followed = "(bytes \<times> followed_header) list"

record settled_ref =
  sr_id :: bytes
  sr_height :: u32
  sr_cum :: nat

record settled_view =
  sv_heights :: "(bytes \<times> u32) list"
  sv_levels :: "(u32 \<times> u32) list"
  sv_h_ref :: u32

datatype ingest_outcome = IgRoot | IgExtended | IgSideBranch | IgReorg u32 | IgDuplicate

datatype follow_error = FeInvalidPow | FeSerialize | FeRootMismatch | FeUnknownParent | FeHeightGap u32 u32

record follower =
  fo_headers :: followed
  fo_best_tip :: "bytes option"
  fo_n_mint :: u64
  fo_expected_root :: "bytes option"

definition follower_new :: "u64 \<Rightarrow> follower" where
  "follower_new n_mint = \<lparr> fo_headers = [], fo_best_tip = None, fo_n_mint = n_mint, fo_expected_root = None \<rparr>"

definition follower_with_root :: "u64 \<Rightarrow> bytes \<Rightarrow> follower" where
  "follower_with_root n_mint root = \<lparr> fo_headers = [], fo_best_tip = None, fo_n_mint = n_mint, fo_expected_root = Some root \<rparr>"

definition height_of :: "settled_view \<Rightarrow> bytes \<Rightarrow> u32 option" where
  "height_of view ident = map_of (sv_heights view) ident"

definition levels_above :: "settled_view \<Rightarrow> u32 \<Rightarrow> u32 list" where
  "levels_above view height_excl = map snd (filter (\<lambda>(h, _). height_excl < h) (sv_levels view))"

definition root_height :: "settled_view \<Rightarrow> u32" where
  "root_height view = (case sv_levels view of [] \<Rightarrow> 0 | (h, _) # _ \<Rightarrow> h)"

definition fo_tip :: "follower \<Rightarrow> followed_header option" where
  "fo_tip f = Option.bind (fo_best_tip f) (map_of (fo_headers f))"

section \<open>Ingest\<close>

text \<open>The ancestors of the new tip, with the guard against cycles.\<close>

function new_ancestors :: "followed \<Rightarrow> bytes set \<Rightarrow> bytes \<Rightarrow> bytes set" where
  "new_ancestors hs seen ident =
     (if ident \<in> seen then seen
      else (case map_of hs ident of
          None \<Rightarrow> insert ident seen
        | Some n \<Rightarrow> if has_key hs (fh_parent_id n) then new_ancestors hs (insert ident seen) (fh_parent_id n)
                    else insert ident seen))"
  by pat_completeness auto
termination
proof (relation "measure (\<lambda>(hs, seen, _). card (fst ` set hs - seen))")
  fix hs :: followed and seen ident n
  assume "ident \<notin> seen" and "map_of hs ident = Some n"
  then have "ident \<in> fst ` set hs - seen" by (force dest: map_of_SomeD)
  then have "fst ` set hs - insert ident seen \<subset> fst ` set hs - seen" by blast
  then show "((hs, insert ident seen, fh_parent_id n), hs, seen, ident) \<in> measure (\<lambda>(hs, seen, _). card (fst ` set hs - seen))"
    by (simp add: psubset_card_mono)
qed simp

declare new_ancestors.simps [simp del]

partial_function (option) rolled_back :: "followed \<Rightarrow> bytes set \<Rightarrow> followed_header option \<Rightarrow> u32 \<Rightarrow> u32 option" where
  "rolled_back hs ancestors node d =
     (case node of None \<Rightarrow> Some d
      | Some h \<Rightarrow> if fh_id h \<in> ancestors then Some d
                  else rolled_back hs ancestors (map_of hs (fh_parent_id h)) (d + 1))"

definition reorg_depth :: "followed \<Rightarrow> bytes \<Rightarrow> bytes \<Rightarrow> u32 option" where
  "reorg_depth hs old_tip new_tip = rolled_back hs (new_ancestors hs {} new_tip) (map_of hs old_tip) 0"

text \<open>Root or child: the cumulative work of a header that is not yet known.\<close>

definition link_header :: "follower \<Rightarrow> bytes \<Rightarrow> bytes \<Rightarrow> u32 \<Rightarrow> nat \<Rightarrow> follow_error + nat" where
  "link_header f ident parent_id height work =
     (if fo_headers f = [] then
        (case fo_expected_root f of
           Some expected \<Rightarrow> if ident \<noteq> expected then Inl FeRootMismatch else Inr work
         | None \<Rightarrow> Inr work)
      else bind_r (ok_or (map_of (fo_headers f) parent_id) FeUnknownParent) (\<lambda>parent.
        if height \<noteq> fh_height parent + 1 then Inl (FeHeightGap (fh_height parent) height)
        else Inr (fh_cum parent + work)))"

definition choose_tip :: "follower \<Rightarrow> bytes \<Rightarrow> bytes \<Rightarrow> nat \<Rightarrow> (follower \<times> ingest_outcome) option" where
  "choose_tip f ident parent_id cum =
     (case fo_best_tip f of
        None \<Rightarrow> Some (f \<lparr> fo_best_tip := Some ident \<rparr>, IgRoot)
      | Some old_tip \<Rightarrow>
          Option.bind (map_of (fo_headers f) old_tip) (\<lambda>best.
            if fh_cum best < cum then
              if parent_id = old_tip then Some (f \<lparr> fo_best_tip := Some ident \<rparr>, IgExtended)
              else map_option (\<lambda>d. (f \<lparr> fo_best_tip := Some ident \<rparr>, IgReorg d)) (reorg_depth (fo_headers f) old_tip ident)
            else Some (f, IgSideBranch)))"

definition apply_verified_header ::
  "follower \<Rightarrow> bytes \<Rightarrow> bytes \<Rightarrow> u32 \<Rightarrow> nat \<Rightarrow> u32 \<Rightarrow> (follow_error + follower \<times> ingest_outcome) option" where
  "apply_verified_header f ident parent_id height work level =
     (if has_key (fo_headers f) ident then Some (Inr (f, IgDuplicate))
      else (case link_header f ident parent_id height work of
          Inl e \<Rightarrow> Some (Inl e)
        | Inr cum \<Rightarrow>
            let n = \<lparr> fh_id = ident, fh_parent_id = parent_id, fh_height = height, fh_work = work, fh_cum = cum, fh_level = level \<rparr>
            in map_option Inr (choose_tip (f \<lparr> fo_headers := put_key ident n (fo_headers f) \<rparr>) ident parent_id cum)))"

definition apply_header ::
  "('h, 't) ext \<Rightarrow> ('h, 't, 'w) ergo_lib \<Rightarrow> follower \<Rightarrow> 'h \<Rightarrow> (follow_error + follower \<times> ingest_outcome) option" where
  "apply_header E X f h =
     (if \<not> el_pow_ok X h then Some (Inl FeInvalidPow)
      else (case el_serialize_header X h of
          None \<Rightarrow> Some (Inl FeSerialize)
        | Some (_, ident) \<Rightarrow>
            apply_verified_header f ident (x_h_parent_id E h) (x_h_height E h) (x_decode_bits E (el_nbits X h)) (el_level X h)))"

section \<open>The settled reference and the settled view\<close>

text \<open>Both walks follow parents of strictly smaller height only.\<close>

function walk_down :: "followed \<Rightarrow> nat \<Rightarrow> followed_header \<Rightarrow> followed_header option" where
  "walk_down hs target cur =
     (if unat (fh_height cur) \<le> target then Some cur
      else (case map_of hs (fh_parent_id cur) of
          None \<Rightarrow> None
        | Some parent \<Rightarrow> if fh_height cur \<le> fh_height parent then None else walk_down hs target parent))"
  by pat_completeness auto
termination by (relation "measure (\<lambda>(_, _, cur). unat (fh_height cur))") (auto simp: word_less_nat_alt not_le)

function walk_to_root :: "followed \<Rightarrow> followed_header \<Rightarrow> followed_header list" where
  "walk_to_root hs cur =
     cur # (case map_of hs (fh_parent_id cur) of
          None \<Rightarrow> []
        | Some parent \<Rightarrow> if fh_height parent < fh_height cur then walk_to_root hs parent else [])"
  by pat_completeness auto
termination by (relation "measure (\<lambda>(_, cur). unat (fh_height cur))") (auto simp: word_less_nat_alt not_le)

declare walk_down.simps [simp del] walk_to_root.simps [simp del]

definition settled_reference :: "follower \<Rightarrow> settled_ref option" where
  "settled_reference f =
     Option.bind (fo_tip f) (\<lambda>tip.
     Option.bind (checked_sub (ucast (fh_height tip)) (fo_n_mint f)) (\<lambda>target.
     map_option (\<lambda>cur. \<lparr> sr_id = fh_id cur, sr_height = fh_height cur, sr_cum = fh_cum cur \<rparr>)
       (walk_down (fo_headers f) (unat (target :: u64)) tip)))"

definition settled_view_of :: "follower \<Rightarrow> u32 \<Rightarrow> settled_view option" where
  "settled_view_of f h_ref =
     Option.bind (fo_tip f) (\<lambda>tip.
       if fh_height tip < h_ref then None
       else Option.bind (walk_down (fo_headers f) (unat h_ref) tip) (\<lambda>cur.
         if fh_height cur \<noteq> h_ref then None
         else let settled = walk_to_root (fo_headers f) cur in
           Some \<lparr> sv_heights = fold (\<lambda>h. put_key (fh_id h) (fh_height h)) settled [],
                  sv_levels = rev (map (\<lambda>h. (fh_height h, fh_level h)) settled), sv_h_ref = h_ref \<rparr>))"

section \<open>The poll loop and the header source\<close>

datatype 'e drive_error = DrSource 'e | DrFollow follow_error

fun drive_headers ::
  "('h, 't) ext \<Rightarrow> ('h, 't, 'w) ergo_lib \<Rightarrow> follower \<Rightarrow> 'h list \<Rightarrow> (follower \<times> ('e drive_error + ingest_outcome list)) option" where
  "drive_headers E X f [] = Some (f, Inr [])"
| "drive_headers E X f (h # hs) =
     Option.bind (apply_header E X f h) (\<lambda>r. case r of
         Inl e \<Rightarrow> Some (f, Inl (DrFollow e))
       | Inr (f', out) \<Rightarrow> map_option (map_prod id (\<lambda>rest. bind_r rest (\<lambda>outs. Inr (out # outs)))) (drive_headers E X f' hs))"

definition drive ::
  "('h, 't) ext \<Rightarrow> ('h, 't, 'w) ergo_lib \<Rightarrow> (u32 \<Rightarrow> 'e + 'h list) \<Rightarrow> follower \<Rightarrow> u32 \<Rightarrow> (follower \<times> ('e drive_error + ingest_outcome list)) option" where
  "drive E X source f from_height =
     (case source from_height of Inl e \<Rightarrow> Some (f, Inl (DrSource e)) | Inr hs \<Rightarrow> drive_headers E X f hs)"

definition vec_source :: "('h, 't) ext \<Rightarrow> 'h list \<Rightarrow> u32 \<Rightarrow> 'e + 'h list" where
  "vec_source E hs from_height = Inr (filter (\<lambda>h. from_height \<le> x_h_height E h) hs)"

definition slice_bounds :: "u32 \<Rightarrow> u32 \<Rightarrow> u32 \<times> u32" where
  "slice_bounds from_height page_size =
     (let from_excl = saturating_sub from_height 1 in (from_excl, saturating_add from_excl (max page_size 1)))"

datatype 'e slice_error = SlNonAscending u32 u32 | SlDecode u32 'e

text \<open>The entries of a decoded response body: the height each states, and the header decoder.\<close>

fun parse_slice :: "('d \<Rightarrow> u32) \<Rightarrow> ('d \<Rightarrow> 'e + 'h) \<Rightarrow> u32 \<Rightarrow> u32 option \<Rightarrow> 'd list \<Rightarrow> 'e slice_error + 'h list" where
  "parse_slice height decode from_height prev [] = Inr []"
| "parse_slice height decode from_height prev (d # ds) =
     (if height d < from_height then parse_slice height decode from_height prev ds
      else if (case prev of None \<Rightarrow> False | Some p \<Rightarrow> height d \<le> p) then Inl (SlNonAscending (the prev) (height d))
      else bind_r (map_err (SlDecode (height d)) (decode d)) (\<lambda>h.
        bind_r (parse_slice height decode from_height (Some (height d)) ds) (\<lambda>hs. Inr (h # hs))))"

section \<open>The followed tree\<close>

inductive grown :: "bytes \<Rightarrow> followed \<Rightarrow> bool" for r where
  root: "fh_id n = r \<Longrightarrow> fh_cum n = fh_work n \<Longrightarrow> grown r [(r, n)]"
| child: "grown r hs \<Longrightarrow> map_of hs k = None \<Longrightarrow> fh_id n = k \<Longrightarrow> map_of hs (fh_parent_id n) = Some p
    \<Longrightarrow> fh_height n = fh_height p + 1 \<Longrightarrow> fh_cum n = fh_cum p + fh_work n \<Longrightarrow> grown r (put_key k n hs)"

lemma grown_facts:
  "grown r hs \<Longrightarrow> ord_map hs \<and> map_of hs r \<noteq> None \<and> (\<forall>k n. map_of hs k = Some n \<longrightarrow> fh_id n = k)"
  by (induction rule: grown.induct) (auto simp: ord_map_Cons)

lemma grown_linked:
  "grown r hs \<Longrightarrow> map_of hs k = Some n \<Longrightarrow> k \<noteq> r \<Longrightarrow>
     \<exists>p. map_of hs (fh_parent_id n) = Some p \<and> fh_height n = fh_height p + 1 \<and> fh_cum n = fh_cum p + fh_work n"
proof (induction arbitrary: k n rule: grown.induct)
  case (child hs k' n' p)
  have np: "fh_parent_id n' \<noteq> k'" using child.hyps by auto
  show ?case
  proof (cases "k = k'")
    case True
    then have "n = n'" using child.prems by simp
    then show ?thesis using child.hyps np by simp
  next
    case False
    then obtain q where q: "map_of hs (fh_parent_id n) = Some q" "fh_height n = fh_height q + 1" "fh_cum n = fh_cum q + fh_work n"
      using child.IH [of k n] child.prems by auto
    then have "fh_parent_id n \<noteq> k'" using child.hyps(2) by auto
    with q show ?thesis by simp
  qed
qed (auto split: if_splits)

text \<open>A set that holds a followed header and is closed under parents holds the root.\<close>

lemma closed_has_root:
  assumes "grown r hs" and "map_of hs k = Some n" and "k \<in> A"
    and "\<And>k n. k \<in> A \<Longrightarrow> map_of hs k = Some n \<Longrightarrow> map_of hs (fh_parent_id n) \<noteq> None \<Longrightarrow> fh_parent_id n \<in> A"
  shows "r \<in> A"
proof -
  have "grown r g \<Longrightarrow> (\<And>x. map_of g x \<noteq> None \<Longrightarrow> map_of hs x = map_of g x) \<Longrightarrow> map_of g k \<noteq> None \<Longrightarrow> k \<in> A \<Longrightarrow> r \<in> A" for g k
  proof (induction arbitrary: k rule: grown.induct)
    case (child g k' n' p)
    show ?case
    proof (cases "k = k'")
      case True
      have np: "fh_parent_id n' \<noteq> k'" using child.hyps by auto
      have n': "map_of hs k' = Some n'" using child.prems(1) [of k'] by simp
      have p: "map_of hs (fh_parent_id n') = Some p" using child.prems(1) [of "fh_parent_id n'"] child.hyps np by simp
      have "fh_parent_id n' \<in> A" using assms(4) [of k' n'] child.prems(3) True n' p by simp
      moreover have "\<And>x. map_of g x \<noteq> None \<Longrightarrow> map_of hs x = map_of g x"
        using child.prems(1) child.hyps(2) by (metis fun_upd_apply map_of_put_key option.distinct(1))
      ultimately show ?thesis using child.IH child.hyps(4) by (metis option.distinct(1))
    next
      case False
      have "\<And>x. map_of g x \<noteq> None \<Longrightarrow> map_of hs x = map_of g x"
        using child.prems(1) child.hyps(2) by (metis fun_upd_apply map_of_put_key option.distinct(1))
      then show ?thesis using child.IH child.prems(2,3) False by simp
    qed
  qed (auto split: if_splits)
  from this [OF assms(1) _ _ assms(3)] show ?thesis by (simp add: assms(2))
qed

lemma new_ancestors_closed:
  "(\<forall>k \<in> seen. \<forall>n. map_of hs k = Some n \<longrightarrow> map_of hs (fh_parent_id n) \<noteq> None \<longrightarrow> fh_parent_id n \<in> insert cur seen)
   \<Longrightarrow> cur \<in> new_ancestors hs seen cur \<and> seen \<subseteq> new_ancestors hs seen cur
     \<and> (\<forall>k \<in> new_ancestors hs seen cur. \<forall>n. map_of hs k = Some n \<longrightarrow> map_of hs (fh_parent_id n) \<noteq> None
          \<longrightarrow> fh_parent_id n \<in> new_ancestors hs seen cur)"
proof (induction hs seen cur rule: new_ancestors.induct)
  case (1 hs seen cur)
  show ?case
  proof (cases "cur \<in> seen")
    case True
    then show ?thesis using "1.prems" by (auto simp: new_ancestors.simps [of hs seen cur])
  next
    case out: False
    show ?thesis
    proof (cases "map_of hs cur")
      case None
      then show ?thesis using out "1.prems" by (auto simp: new_ancestors.simps [of hs seen cur])
    next
      case (Some n)
      show ?thesis
      proof (cases "has_key hs (fh_parent_id n)")
        case True
        have step: "new_ancestors hs seen cur = new_ancestors hs (insert cur seen) (fh_parent_id n)"
          using out Some True by (simp add: new_ancestors.simps [of hs seen cur])
        have "\<forall>k \<in> insert cur seen. \<forall>m. map_of hs k = Some m \<longrightarrow> map_of hs (fh_parent_id m) \<noteq> None
            \<longrightarrow> fh_parent_id m \<in> insert (fh_parent_id n) (insert cur seen)"
          using Some "1.prems" by auto
        from "1.IH" [OF out Some True this] show ?thesis unfolding step by blast
      next
        case False
        then show ?thesis using out Some "1.prems" by (auto simp: new_ancestors.simps [of hs seen cur] has_key_def)
      qed
    qed
  qed
qed

lemma rolled_back_returns:
  assumes "grown r hs" and "r \<in> A"
  shows "rolled_back hs A (map_of hs k) d \<noteq> None"
proof (cases "map_of hs k")
  case (Some n)
  have "grown r g \<Longrightarrow> (\<And>x. map_of g x \<noteq> None \<Longrightarrow> map_of hs x = map_of g x) \<Longrightarrow> map_of g k = Some n
      \<Longrightarrow> rolled_back hs A (Some n) d \<noteq> None" for g k n d
  proof (induction arbitrary: k n d rule: grown.induct)
    case (root m)
    then show ?case using assms(2) by (subst rolled_back.simps) (auto split: if_splits)
  next
    case (child g k' n' p)
    have sub: "\<And>x. map_of g x \<noteq> None \<Longrightarrow> map_of hs x = map_of g x"
      using child.prems(1) child.hyps(2) by (metis fun_upd_apply map_of_put_key option.distinct(1))
    show ?case
    proof (cases "k = k'")
      case True
      then have "n = n'" using child.prems(2) by simp
      moreover have "map_of hs (fh_parent_id n') = Some p" using sub [of "fh_parent_id n'"] child.hyps(4) by simp
      ultimately show ?thesis
        using child.IH [OF sub child.hyps(4)] by (subst rolled_back.simps) auto
    next
      case False
      then show ?thesis using child.IH [OF sub] child.prems(2) by simp
    qed
  qed
  from this [OF assms(1) _ Some] show ?thesis by (simp add: Some)
qed (subst rolled_back.simps, simp)

lemma reorg_depth_returns:
  assumes "grown r hs" and "map_of hs new \<noteq> None"
  shows "reorg_depth hs old new \<noteq> None"
proof -
  have "new \<in> new_ancestors hs {} new \<and> (\<forall>k \<in> new_ancestors hs {} new. \<forall>n. map_of hs k = Some n
      \<longrightarrow> map_of hs (fh_parent_id n) \<noteq> None \<longrightarrow> fh_parent_id n \<in> new_ancestors hs {} new)"
    using new_ancestors_closed [of "{}" hs new] by blast
  with assms have "r \<in> new_ancestors hs {} new" by (auto intro: closed_has_root)
  then show ?thesis unfolding reorg_depth_def by (rule rolled_back_returns [OF assms(1)])
qed

section \<open>Invariant\<close>

definition follower_inv :: "follower \<Rightarrow> bool" where
  "follower_inv f \<longleftrightarrow>
     (case fo_best_tip f of
        None \<Rightarrow> fo_headers f = []
      | Some tip \<Rightarrow> (\<exists>r. grown r (fo_headers f) \<and> (\<forall>e. fo_expected_root f = Some e \<longrightarrow> r = e))
          \<and> (\<exists>best. map_of (fo_headers f) tip = Some best
              \<and> (\<forall>k n. map_of (fo_headers f) k = Some n \<longrightarrow> fh_cum n \<le> fh_cum best)))"

lemma follower_inv_new: "follower_inv (follower_new n)" "follower_inv (follower_with_root n root)"
  by (simp_all add: follower_inv_def follower_new_def follower_with_root_def)

lemma grown_not_Nil: "grown r hs \<Longrightarrow> hs \<noteq> []"
  using grown_facts by fastforce

lemma apply_verified_header_inv:
  assumes inv: "follower_inv f"
  obtains e where "apply_verified_header f ident parent_id height work level = Some (Inl e)"
  | f' out where "apply_verified_header f ident parent_id height work level = Some (Inr (f', out))" and "follower_inv f'"
proof (cases "has_key (fo_headers f) ident")
  case True
  then show ?thesis using inv that(2) by (simp add: apply_verified_header_def)
next
  case fresh: False
  show ?thesis
  proof (cases "link_header f ident parent_id height work")
    case (Inl e)
    then show ?thesis using fresh that(1) by (simp add: apply_verified_header_def)
  next
    case (Inr cum)
    define n where "n = \<lparr> fh_id = ident, fh_parent_id = parent_id, fh_height = height, fh_work = work, fh_cum = cum, fh_level = level \<rparr>"
    define hs' where "hs' = put_key ident n (fo_headers f)"
    have eq: "apply_verified_header f ident parent_id height work level
        = map_option Inr (choose_tip (f \<lparr> fo_headers := hs' \<rparr>) ident parent_id cum)"
      using fresh Inr by (simp add: apply_verified_header_def n_def hs'_def)
    show ?thesis
    proof (cases "fo_best_tip f")
      case None
      then have e: "fo_headers f = []" using inv by (simp add: follower_inv_def)
      then have cum: "cum = work" "\<forall>e. fo_expected_root f = Some e \<longrightarrow> ident = e"
        using Inr by (auto simp: link_header_def split: option.splits if_splits)
      have "grown ident hs'" using e cum by (simp add: hs'_def n_def grown.root)
      then have "follower_inv (f \<lparr> fo_headers := hs', fo_best_tip := Some ident \<rparr>)"
        using e cum by (auto simp: follower_inv_def hs'_def n_def)
      then show ?thesis using eq None that(2) by (simp add: choose_tip_def)
    next
      case (Some tip)
      with inv obtain r best where g: "grown r (fo_headers f)" and r: "\<forall>e. fo_expected_root f = Some e \<longrightarrow> r = e"
        and best: "map_of (fo_headers f) tip = Some best"
        and mx: "\<forall>k n. map_of (fo_headers f) k = Some n \<longrightarrow> fh_cum n \<le> fh_cum best"
        by (auto simp: follower_inv_def)
      from Inr grown_not_Nil [OF g] obtain p where p: "map_of (fo_headers f) parent_id = Some p"
        "height = fh_height p + 1" "cum = fh_cum p + work"
        by (auto simp: link_header_def result_simps ok_or_def bind_r_def split: option.splits if_splits)
      have g': "grown r hs'"
        unfolding hs'_def by (rule grown.child [OF g, where p = p]) (use fresh p in \<open>auto simp: n_def has_key_def\<close>)
      have tip: "tip \<noteq> ident" using fresh best by (auto simp: has_key_def)
      have best': "map_of hs' tip = Some best" using best tip by (simp add: hs'_def)
      have new: "map_of hs' ident = Some n" by (simp add: hs'_def)
      have mx': "fh_cum m \<le> max (fh_cum best) cum" if "map_of hs' k = Some m" for k m
        using that mx by (auto simp: hs'_def n_def split: if_splits intro: max.coboundedI1)
      have inv_new: "follower_inv (f \<lparr> fo_headers := hs', fo_best_tip := Some ident \<rparr>)" if "fh_cum best < cum"
      proof -
        have "fh_cum m \<le> fh_cum n" if "map_of hs' k = Some m" for k m
          using mx' [OF that] \<open>fh_cum best < cum\<close> by (simp add: n_def)
        then show ?thesis using g' r new by (auto simp: follower_inv_def)
      qed
      have inv_old: "follower_inv (f \<lparr> fo_headers := hs' \<rparr>)" if "\<not> fh_cum best < cum"
      proof -
        have "fh_cum m \<le> fh_cum best" if "map_of hs' k = Some m" for k m
          using mx' [OF that] \<open>\<not> fh_cum best < cum\<close> by simp
        then show ?thesis using g' r best' Some by (auto simp: follower_inv_def)
      qed
      obtain d where d: "reorg_depth hs' tip ident = Some d"
        using reorg_depth_returns [OF g', of ident tip] new by auto
      have step: "choose_tip (f \<lparr> fo_headers := hs' \<rparr>) ident parent_id cum =
          (if fh_cum best < cum then Some (f \<lparr> fo_headers := hs', fo_best_tip := Some ident \<rparr>,
             if parent_id = tip then IgExtended else IgReorg d) else Some (f \<lparr> fo_headers := hs' \<rparr>, IgSideBranch))"
        by (simp add: choose_tip_def Some best' d)
      show ?thesis
        using eq step inv_new inv_old that(2) by (cases "fh_cum best < cum") auto
    qed
  qed
qed

lemma apply_header_inv:
  assumes "follower_inv f"
  obtains e where "apply_header E X f h = Some (Inl e)"
  | f' out where "apply_header E X f h = Some (Inr (f', out))" and "follower_inv f'"
proof (cases "el_serialize_header X h")
  case None
  then show ?thesis using that(1) [of "if el_pow_ok X h then FeSerialize else FeInvalidPow"] by (simp add: apply_header_def)
next
  case (Some bi)
  show ?thesis
  proof (cases "el_pow_ok X h")
    case True
    then have "apply_header E X f h = apply_verified_header f (snd bi) (x_h_parent_id E h) (x_h_height E h)
        (x_decode_bits E (el_nbits X h)) (el_level X h)"
      using Some by (simp add: apply_header_def split_beta)
    then show ?thesis
      using apply_verified_header_inv [OF assms, of "snd bi" "x_h_parent_id E h" "x_h_height E h" "x_decode_bits E (el_nbits X h)"
          "el_level X h"] that by metis
  qed (use that(1) in \<open>simp add: apply_header_def\<close>)
qed

lemma drive_headers_inv:
  "follower_inv f \<Longrightarrow> \<exists>f' r. drive_headers E X f hs = Some (f', r) \<and> follower_inv f'"
proof (induction hs arbitrary: f)
  case (Cons h hs)
  show ?case
  proof (rule apply_header_inv [OF Cons.prems, of E X h])
    fix f' out assume "apply_header E X f h = Some (Inr (f', out))" "follower_inv f'"
    then show ?thesis using Cons.IH [of f'] by auto
  qed (use Cons.prems in auto)
qed simp

section \<open>The settled view\<close>

inductive ancestor :: "followed \<Rightarrow> followed_header \<Rightarrow> followed_header \<Rightarrow> bool" for hs where
  self: "ancestor hs n n"
| up: "map_of hs (fh_parent_id n) = Some p \<Longrightarrow> ancestor hs a p \<Longrightarrow> ancestor hs a n"

lemma ancestor_trans: "ancestor hs b c \<Longrightarrow> ancestor hs a b \<Longrightarrow> ancestor hs a c"
  by (induction rule: ancestor.induct) (auto intro: ancestor.intros)

lemma walk_down_ancestor:
  "walk_down hs t cur = Some c \<Longrightarrow> ancestor hs c cur \<and> unat (fh_height c) \<le> t \<and> fh_height c \<le> fh_height cur"
proof (induction hs t cur rule: walk_down.induct)
  case (1 hs t cur)
  then show ?case
    by (subst (asm) (2) walk_down.simps) (auto split: if_splits option.splits intro: ancestor.intros)
qed

lemma walk_to_root_ancestors:
  "c \<in> set (walk_to_root hs cur) \<Longrightarrow> ancestor hs c cur \<and> fh_height c \<le> fh_height cur"
proof (induction hs cur rule: walk_to_root.induct)
  case (1 hs cur)
  from "1.prems" consider "c = cur" | p where "map_of hs (fh_parent_id cur) = Some p" "fh_height p < fh_height cur" "c \<in> set (walk_to_root hs p)"
    by (auto simp: walk_to_root.simps [of hs cur] eq_commute [of "Some _"] split: if_splits option.splits)
  then show ?case
    using "1.IH" by cases (fastforce intro: ancestor.intros)+
qed

text \<open>A new header above the walk does not change the walk, even if its id is the root's dangling parent id.\<close>

lemma walk_down_put_key:
  "map_of hs k = None \<Longrightarrow> fh_height cur < fh_height n \<Longrightarrow> walk_down (put_key k n hs) t cur = walk_down hs t cur"
proof (induction hs t cur rule: walk_down.induct)
  case (1 hs t cur)
  then show ?case
    by (subst (1 2) walk_down.simps) (auto split: option.splits)
qed

lemma walk_to_root_put_key:
  "map_of hs k = None \<Longrightarrow> fh_height cur < fh_height n \<Longrightarrow> walk_to_root (put_key k n hs) cur = walk_to_root hs cur"
proof (induction hs cur rule: walk_to_root.induct)
  case (1 hs cur)
  then show ?case
    by (subst (1 2) walk_to_root.simps) (auto split: option.splits)
qed

lemma fold_put_key_Some:
  "map_of (fold (\<lambda>h. put_key (f h) (g h)) xs m) k = Some v \<Longrightarrow> (\<exists>h \<in> set xs. f h = k \<and> g h = v) \<or> map_of m k = Some v"
  by (induction xs arbitrary: m) (fastforce split: if_splits)+

lemma settled_view_best_chain:
  assumes "settled_view_of f h_ref = Some view" and "height_of view ident = Some h"
  obtains tip n where "fo_tip f = Some tip" and "ancestor (fo_headers f) n tip" and "fh_id n = ident" and "fh_height n = h" and "h \<le> h_ref"
proof -
  from assms(1) obtain tip cur where tip: "fo_tip f = Some tip" and cur: "walk_down (fo_headers f) (unat h_ref) tip = Some cur"
    and hc: "fh_height cur = h_ref"
    and v: "sv_heights view = fold (\<lambda>h. put_key (fh_id h) (fh_height h)) (walk_to_root (fo_headers f) cur) []"
    by (auto simp: settled_view_of_def Let_def bind_eq_Some_conv split: if_splits)
  from assms(2) v obtain n where "n \<in> set (walk_to_root (fo_headers f) cur)" "fh_id n = ident" "fh_height n = h"
    by (auto simp: height_of_def dest: fold_put_key_Some)
  with walk_to_root_ancestors [OF this(1)] walk_down_ancestor [OF cur] tip hc show ?thesis
    by (auto intro: that ancestor_trans)
qed

text \<open>
  Extending the best chain leaves every settled view the follower was already able to give unchanged.
\<close>

lemma settled_view_stable_extend:
  assumes inv: "follower_inv f" and step: "apply_verified_header f ident parent_id height work level = Some (Inr (f', IgExtended))"
    and tip: "fo_tip f = Some tip" and small: "unat (fh_height tip) + 1 < 2 ^ 32" and h: "h_ref \<le> fh_height tip"
  shows "settled_view_of f' h_ref = settled_view_of f h_ref"
proof -
  from step obtain cum where fresh: "map_of (fo_headers f) ident = None" and l: "link_header f ident parent_id height work = Inr cum"
    and c: "choose_tip (f \<lparr> fo_headers := put_key ident \<lparr> fh_id = ident, fh_parent_id = parent_id, fh_height = height,
        fh_work = work, fh_cum = cum, fh_level = level \<rparr> (fo_headers f) \<rparr>) ident parent_id cum = Some (f', IgExtended)"
    by (auto simp: apply_verified_header_def Let_def has_key_def split: if_splits sum.splits)
  define n where "n = \<lparr> fh_id = ident, fh_parent_id = parent_id, fh_height = height, fh_work = work, fh_cum = cum, fh_level = level \<rparr>"
  define hs' where "hs' = put_key ident n (fo_headers f)"
  from tip obtain t where t: "fo_best_tip f = Some t" "map_of (fo_headers f) t = Some tip" by (auto simp: fo_tip_def bind_eq_Some_conv)
  from c t have f': "f' = f \<lparr> fo_headers := hs', fo_best_tip := Some ident \<rparr>" and p: "parent_id = t"
    by (auto simp: choose_tip_def hs'_def n_def bind_eq_Some_conv split: if_splits)
  have "height = fh_height tip + 1"
    using l t(2) p by (auto simp: link_header_def result_simps split: if_splits)
  moreover have lt: "fh_height tip < fh_height tip + 1"
    using small by (simp add: word_less_nat_alt unat_add_exact)
  ultimately have nh: "fh_height tip < fh_height n" by (simp add: n_def)
  have tn: "ident \<noteq> t" using fresh t(2) by auto
  have "walk_down hs' (unat h_ref) n = walk_down hs' (unat h_ref) tip"
    using h nh t(2) tn by (subst walk_down.simps) (simp add: n_def hs'_def p word_le_nat_alt word_less_nat_alt)
  also have "\<dots> = walk_down (fo_headers f) (unat h_ref) tip"
    unfolding hs'_def by (rule walk_down_put_key [OF fresh nh])
  finally have d: "walk_down hs' (unat h_ref) n = walk_down (fo_headers f) (unat h_ref) tip" .
  have r: "walk_to_root hs' cur = walk_to_root (fo_headers f) cur"
    if "walk_down (fo_headers f) (unat h_ref) tip = Some cur" for cur
    unfolding hs'_def using walk_down_ancestor [OF that] nh by (intro walk_to_root_put_key [OF fresh]) (auto dest: order.strict_trans1)
  have tip': "fo_tip f' = Some n" by (simp add: f' fo_tip_def hs'_def)
  have g: "\<not> fh_height n < h_ref" "\<not> fh_height tip < h_ref" using h nh by auto
  show ?thesis
    unfolding settled_view_of_def tip tip' by (cases "walk_down (fo_headers f) (unat h_ref) tip") (auto simp: g d r f' Let_def)
qed

section \<open>What the follower follows\<close>

lemma follower_inv_tip:
  assumes "follower_inv f" and "fo_headers f \<noteq> []"
  shows "\<exists>best. fo_tip f = Some best \<and> (\<forall>k n. map_of (fo_headers f) k = Some n \<longrightarrow> fh_cum n \<le> fh_cum best)"
  using assms by (auto simp: follower_inv_def fo_tip_def split: option.splits)

lemma choose_tip_keeps_root: "choose_tip f ident parent_id cum = Some (f', out) \<Longrightarrow> fo_expected_root f' = fo_expected_root f"
  by (auto simp: choose_tip_def bind_eq_Some_conv split: option.splits if_splits)

lemma apply_header_keeps_root:
  assumes "apply_header E X f h = Some (Inr (f', out))"
  shows "fo_expected_root f' = fo_expected_root f"
  using assms
  by (fastforce simp: apply_header_def apply_verified_header_def Let_def dest: choose_tip_keeps_root
      split: if_splits option.splits sum.splits)

lemma drive_headers_keeps_root:
  "drive_headers E X f hs = Some (f', r) \<Longrightarrow> fo_expected_root f' = fo_expected_root f"
proof (induction hs arbitrary: f r)
  case (Cons h hs)
  from Cons.prems obtain y where y: "apply_header E X f h = Some y" by (auto simp: bind_eq_Some_conv)
  show ?case
  proof (cases y)
    case (Inr fo)
    obtain f1 out where fo: "fo = (f1, out)" by fastforce
    with y Inr have step: "apply_header E X f h = Some (Inr (f1, out))" by simp
    then show ?thesis using Cons.prems Cons.IH [of f1] apply_header_keeps_root [OF step] by auto
  qed (use Cons.prems y in simp)
qed simp

text \<open>A path through the followed headers from a header down to the root, each the child of the next at the next height.\<close>

fun root_path :: "followed \<Rightarrow> bytes \<Rightarrow> followed_header list \<Rightarrow> bool" where
  "root_path hs root [] \<longleftrightarrow> False"
| "root_path hs root [n] \<longleftrightarrow> map_of hs (fh_id n) = Some n \<and> fh_id n = root"
| "root_path hs root (n # p # ns) \<longleftrightarrow> map_of hs (fh_id n) = Some n \<and> fh_parent_id n = fh_id p \<and> fh_height n = fh_height p + 1
     \<and> root_path hs root (p # ns)"

definition path_work :: "followed_header list \<Rightarrow> nat" where
  "path_work ns = sum_list (map fh_work ns)"

lemma root_path_mono:
  "root_path hs r ns \<Longrightarrow> (\<And>x. map_of hs x \<noteq> None \<Longrightarrow> map_of hs' x = map_of hs x) \<Longrightarrow> root_path hs' r ns"
  by (induction hs r ns rule: root_path.induct) auto

lemma grown_path:
  "grown r hs \<Longrightarrow> map_of hs k = Some n \<Longrightarrow> \<exists>ns. root_path hs r (n # ns) \<and> fh_id n = k \<and> fh_cum n = path_work (n # ns)"
proof (induction arbitrary: k n rule: grown.induct)
  case (root m)
  then show ?case by (intro exI [of _ "[]"]) (auto simp: path_work_def split: if_splits)
next
  case (child hs k' n' p)
  have keep: "map_of (put_key k' n' hs) x = map_of hs x" if "map_of hs x \<noteq> None" for x
    using that child.hyps(2) by auto
  show ?case
  proof (cases "k = k'")
    case True
    from child.IH [OF child.hyps(4)] obtain ns where ns: "root_path hs r (p # ns)" "fh_id p = fh_parent_id n'" "fh_cum p = path_work (p # ns)"
      by blast
    have "root_path (put_key k' n' hs) r (n' # p # ns)"
      using root_path_mono [OF ns(1) keep] ns(2) child.hyps(3,5) by simp
    then show ?thesis using True child.prems child.hyps(3,6) ns(3) by (intro exI [of _ "p # ns"]) (auto simp: path_work_def)
  next
    case False
    then have "map_of hs k = Some n" using child.prems by simp
    from child.IH [OF this] obtain ns where "root_path hs r (n # ns)" "fh_id n = k" "fh_cum n = path_work (n # ns)" by blast
    then show ?thesis using root_path_mono [OF _ keep] by blast
  qed
qed

text \<open>A followed header is a header of the source, with a valid proof of work, under its own id and with its own work.\<close>

definition from_source :: "('h, 't) ext \<Rightarrow> ('h, 't, 'w) ergo_lib \<Rightarrow> 'h list \<Rightarrow> followed_header \<Rightarrow> bool" where
  "from_source E X hs n \<longleftrightarrow> (\<exists>h \<in> set hs. el_pow_ok X h \<and> map_option snd (el_serialize_header X h) = Some (fh_id n)
     \<and> fh_parent_id n = x_h_parent_id E h \<and> fh_height n = x_h_height E h \<and> fh_work n = x_decode_bits E (el_nbits X h))"

lemma choose_tip_headers: "choose_tip f ident parent_id cum = Some (f', out) \<Longrightarrow> fo_headers f' = fo_headers f"
  by (auto simp: choose_tip_def bind_eq_Some_conv split: option.splits if_splits)

lemma apply_header_from_source:
  assumes "apply_header E X f h = Some (Inr (f', out))" and "map_of (fo_headers f') k = Some n"
  shows "map_of (fo_headers f) k = Some n \<or> from_source E X [h] n"
proof -
  from assms(1) obtain b ident where h: "el_pow_ok X h" "el_serialize_header X h = Some (b, ident)"
    and a: "apply_verified_header f ident (x_h_parent_id E h) (x_h_height E h) (x_decode_bits E (el_nbits X h)) (el_level X h) = Some (Inr (f', out))"
    by (auto simp: apply_header_def split: if_splits option.splits)
  show ?thesis
  proof (cases "has_key (fo_headers f) ident")
    case True
    then show ?thesis using a assms(2) by (simp add: apply_verified_header_def)
  next
    case False
    with a obtain cum where "choose_tip (f \<lparr> fo_headers := put_key ident \<lparr> fh_id = ident, fh_parent_id = x_h_parent_id E h,
          fh_height = x_h_height E h, fh_work = x_decode_bits E (el_nbits X h), fh_cum = cum, fh_level = el_level X h \<rparr> (fo_headers f) \<rparr>)
        ident (x_h_parent_id E h) cum = Some (f', out)"
      by (auto simp: apply_verified_header_def Let_def split: sum.splits)
    from choose_tip_headers [OF this] assms(2) h show ?thesis by (auto simp: from_source_def split: if_splits)
  qed
qed

lemma drive_headers_from_source:
  "drive_headers E X f hs = Some (f', r :: 'e drive_error + ingest_outcome list) \<Longrightarrow> map_of (fo_headers f') k = Some n
    \<Longrightarrow> map_of (fo_headers f) k = Some n \<or> from_source E X hs n"
proof (induction hs arbitrary: f r)
  case (Cons h hs)
  from Cons.prems(1) obtain y where y: "apply_header E X f h = Some y" by (auto simp: bind_eq_Some_conv)
  show ?case
  proof (cases y)
    case (Inr fo)
    obtain f1 out where fo: "fo = (f1, out)" by fastforce
    with y Inr have step: "apply_header E X f h = Some (Inr (f1, out))" by simp
    then obtain r' :: "'e drive_error + ingest_outcome list" where "drive_headers E X f1 hs = Some (f', r')" using Cons.prems(1) by auto
    from Cons.IH [OF this Cons.prems(2)] apply_header_from_source [OF step, of k n] show ?thesis by (auto simp: from_source_def)
  qed (use Cons.prems y in simp)
qed simp

text \<open>
  C19: The poll loop always returns, whatever headers the source hands over, in whatever order. Every followed header is a header
  of the source with a valid proof of work, linked to the pinned root by a path of parents of consecutive heights, its
  cumulative work is the sum of the work of the headers on that path, and no path has more work than that of the best tip. A settled
  view holds headers of the best chain at or below its reference height only.
\<close>
theorem follower_follows_heaviest:
  "\<exists>f (r :: 'e drive_error + ingest_outcome list). drive_headers E X (follower_with_root n_mint root) hs = Some (f, r)
     \<and> (fo_headers f = [] \<or> (\<exists>best bp. fo_tip f = Some best \<and> root_path (fo_headers f) root (best # bp)
          \<and> (\<forall>k n. map_of (fo_headers f) k = Some n \<longrightarrow> from_source E X hs n
               \<and> (\<exists>ns. root_path (fo_headers f) root (n # ns) \<and> fh_id n = k \<and> fh_cum n = path_work (n # ns)
                    \<and> path_work (n # ns) \<le> path_work (best # bp)))
          \<and> (\<forall>h_ref view ident h. settled_view_of f h_ref = Some view \<longrightarrow> height_of view ident = Some h \<longrightarrow>
               h \<le> h_ref \<and> (\<exists>n. ancestor (fo_headers f) n best \<and> fh_id n = ident \<and> fh_height n = h))))"
proof -
  obtain f and r :: "'e drive_error + ingest_outcome list" where run: "drive_headers E X (follower_with_root n_mint root) hs = Some (f, r)" and inv: "follower_inv f"
    using drive_headers_inv [OF follower_inv_new(2)] by blast
  have "\<exists>best bp. fo_tip f = Some best \<and> root_path (fo_headers f) root (best # bp)
          \<and> (\<forall>k n. map_of (fo_headers f) k = Some n \<longrightarrow> from_source E X hs n
               \<and> (\<exists>ns. root_path (fo_headers f) root (n # ns) \<and> fh_id n = k \<and> fh_cum n = path_work (n # ns)
                    \<and> path_work (n # ns) \<le> path_work (best # bp)))
          \<and> (\<forall>h_ref view ident h. settled_view_of f h_ref = Some view \<longrightarrow> height_of view ident = Some h \<longrightarrow>
               h \<le> h_ref \<and> (\<exists>n. ancestor (fo_headers f) n best \<and> fh_id n = ident \<and> fh_height n = h))" if ne: "fo_headers f \<noteq> []"
  proof -
    obtain best where best: "fo_tip f = Some best" and mx: "\<forall>k n. map_of (fo_headers f) k = Some n \<longrightarrow> fh_cum n \<le> fh_cum best"
      using follower_inv_tip [OF inv ne] by blast
    have "fo_expected_root f = Some root" using drive_headers_keeps_root [OF run] by (simp add: follower_with_root_def)
    then have g: "grown root (fo_headers f)"
      using inv best by (auto simp: follower_inv_def fo_tip_def bind_eq_Some_conv)
    from best obtain t where "map_of (fo_headers f) t = Some best" by (auto simp: fo_tip_def bind_eq_Some_conv)
    from grown_path [OF g this] obtain bp where bp: "root_path (fo_headers f) root (best # bp)" "fh_cum best = path_work (best # bp)" by blast
    have "from_source E X hs n" if "map_of (fo_headers f) k = Some n" for k n
      using drive_headers_from_source [OF run that] by (simp add: follower_with_root_def)
    moreover have "\<exists>ns. root_path (fo_headers f) root (n # ns) \<and> fh_id n = k \<and> fh_cum n = path_work (n # ns)
        \<and> path_work (n # ns) \<le> path_work (best # bp)" if "map_of (fo_headers f) k = Some n" for k n
      using grown_path [OF g that] mx that bp(2) by metis
    moreover have "h \<le> h_ref \<and> (\<exists>n. ancestor (fo_headers f) n best \<and> fh_id n = ident \<and> fh_height n = h)"
      if "settled_view_of f h_ref = Some view" "height_of view ident = Some h" for h_ref view ident h
      using settled_view_best_chain [OF that] best by (metis option.inject)
    ultimately show ?thesis using best bp(1) by blast
  qed
  then show ?thesis using run by blast
qed

end
