(* ===== verification/CtTypes.thy ===== *)
theory CtTypes
  imports Daa
begin

text \<open>
  The curve-tree generation of the sidechain: constants (\<^verbatim>\<open>aegis-spec/src/lib.rs\<close>) and wire types with their
  canonical codecs (\<^verbatim>\<open>aegis-types/src\<close>). The VLQ reader and writer, the serialization of coinbase proofs and
  the Merkle root over transaction ids are external crates, the fields of the record \<open>wire\<close>; \<open>wire_ok\<close>
  states the part of their contract the codecs rely on.
\<close>

section \<open>Networks and parameters\<close>

datatype network = NetDev | NetTest | NetMain

record net_params =
  np_network_name :: string
  np_address_hrp :: string
  np_block_target_secs :: u64
  np_sc_tx_fee :: u64
  np_peg_fee_floor :: u64
  np_peg_fee_rate_bps :: u64
  np_r_target :: u64
  np_coinbase_maturity :: u64
  np_burn_confs_m :: u64
  np_ergo_anchor_depth_n :: u64
  np_ergo_mint_confs :: u64
  np_unlock_delay :: u64
  np_vault_cap :: u64
  np_genesis_supply :: u64
  np_seed_urls :: "string list"

definition main_params :: net_params where
  "main_params = \<lparr> np_network_name = ''aegis'', np_address_hrp = ''aegis'', np_block_target_secs = 15,
     np_sc_tx_fee = 30, np_peg_fee_floor = 1000, np_peg_fee_rate_bps = 100, np_r_target = 10, np_coinbase_maturity = 120,
     np_burn_confs_m = 120, np_ergo_anchor_depth_n = 10, np_ergo_mint_confs = 10, np_unlock_delay = 720,
     np_vault_cap = 1000000, np_genesis_supply = 0, np_seed_urls = [] \<rparr>"

definition dogfood_base :: "string \<Rightarrow> string \<Rightarrow> net_params" where
  "dogfood_base name hrp = \<lparr> np_network_name = name, np_address_hrp = hrp, np_block_target_secs = 15,
     np_sc_tx_fee = 10, np_peg_fee_floor = 100, np_peg_fee_rate_bps = 100, np_r_target = 10, np_coinbase_maturity = 120,
     np_burn_confs_m = 120, np_ergo_anchor_depth_n = 10, np_ergo_mint_confs = 10, np_unlock_delay = 720,
     np_vault_cap = 1000000, np_genesis_supply = 0, np_seed_urls = [] \<rparr>"

definition net_params_of :: "network \<Rightarrow> net_params" where
  "net_params_of net = (case net of NetDev \<Rightarrow> dogfood_base ''aegis-dev'' ''aegisdev''
     | NetTest \<Rightarrow> dogfood_base ''aegis-test'' ''aegistest'' | NetMain \<Rightarrow> main_params)"

text \<open>128-bit arithmetic; \<open>None\<close> is the panic of a fee that does not fit 64 bits.\<close>

definition net_peg_fee :: "net_params \<Rightarrow> u64 \<Rightarrow> u64 option" where
  "net_peg_fee p n =
     (let prod = unat n * unat (np_peg_fee_rate_bps p); pct = (prod + 9999) div 10000
      in if 2 ^ 64 \<le> pct then None else Some (max (of_nat pct) (np_peg_fee_floor p)))"

definition coinbase_reward :: "net_params \<Rightarrow> u64 \<Rightarrow> u64 \<Rightarrow> u64" where
  "coinbase_reward p pot txs_included =
     min (saturating_add (np_r_target p) (saturating_mul (np_r_target p) txs_included)) pot"

definition nf_bytes :: nat where "nf_bytes = 32"
definition note_cm_size :: nat where "note_cm_size = 33"
definition ct_epk_size :: nat where "ct_epk_size = 33"
definition ct_note_ct_size :: nat where "ct_note_ct_size = 152"
definition ct_out_ct_size :: nat where "ct_out_ct_size = 80"
definition tx_arity :: nat where "tx_arity = 2"
definition max_proof_bytes :: nat where "max_proof_bytes = 8192"
definition max_block_txs :: nat where "max_block_txs = 128"
definition max_block_bytes :: nat where "max_block_bytes = 524288"
definition max_pegmint_proof_bytes :: nat where "max_pegmint_proof_bytes = 2 * 1024 * 1024"
definition max_block_pegmints :: nat where "max_block_pegmints = 32"

lemmas size_defs = nf_bytes_def note_cm_size_def ct_epk_size_def ct_note_ct_size_def ct_out_ct_size_def tx_arity_def
  max_proof_bytes_def max_block_txs_def max_block_bytes_def max_pegmint_proof_bytes_def max_block_pegmints_def

section \<open>Readers\<close>

record 'm wire =
  wr_put_u64 :: "u64 \<Rightarrow> bytes"
  wr_get_u64 :: "bytes \<Rightarrow> (u64 \<times> bytes) option"
  wr_get_u8 :: "bytes \<Rightarrow> (u8 \<times> bytes) option"
  wr_get_bytes :: "nat \<Rightarrow> bytes \<Rightarrow> (bytes \<times> bytes) option"
  wr_put_mint :: "'m \<Rightarrow> bytes"
  wr_get_mint :: "bytes \<Rightarrow> ('m \<times> bytes) option"
  wr_merkle_root :: "bytes list \<Rightarrow> bytes"

definition wire_ok :: "'m wire \<Rightarrow> bool" where
  "wire_ok W \<longleftrightarrow> (\<forall>v bs. wr_get_u64 W (wr_put_u64 W v @ bs) = Some (v, bs)) \<and> (\<forall>v. length (wr_put_u64 W v) \<le> 10)
     \<and> (\<forall>b bs. wr_get_u8 W (b # bs) = Some (b, bs))
     \<and> (\<forall>n bs. wr_get_bytes W n bs = (if n \<le> length bs then Some (take n bs, drop n bs) else None))
     \<and> (\<forall>m bs. wr_get_mint W (wr_put_mint W m @ bs) = Some (m, bs))"

lemma wire_okD:
  assumes "wire_ok W"
  shows "wr_get_u64 W (wr_put_u64 W v @ bs) = Some (v, bs)" "wr_get_u8 W (b # bs) = Some (b, bs)"
    "length xs = n \<Longrightarrow> wr_get_bytes W n (xs @ bs) = Some (xs, bs)" "wr_get_mint W (wr_put_mint W m @ bs) = Some (m, bs)"
    "length (wr_put_u64 W v) \<le> 10" "length xs = n \<Longrightarrow> wr_get_bytes W n xs = Some (xs, [])"
    "wr_get_mint W (wr_put_mint W m) = Some (m, [])"
proof -
  from assms have "wr_get_mint W (wr_put_mint W m @ []) = Some (m, [])" unfolding wire_ok_def by blast
  then show "wr_get_mint W (wr_put_mint W m) = Some (m, [])" by simp
qed (use assms in \<open>auto simp: wire_ok_def\<close>)

text \<open>A field of the input: a read error, or the value and the rest.\<close>

definition rd :: "'e \<Rightarrow> ('a \<times> bytes) option \<Rightarrow> ('a \<Rightarrow> bytes \<Rightarrow> 'e + 'b) \<Rightarrow> 'e + 'b" where
  "rd e r k = (case r of None \<Rightarrow> Inl e | Some (v, bs) \<Rightarrow> k v bs)"

lemma rd_Some [simp]: "rd e (Some (v, bs)) k = k v bs" and rd_None [simp]: "rd e None k = Inl e"
  by (simp_all add: rd_def)

lemma rd_Inr [result_simps]: "rd e r k = Inr y \<longleftrightarrow> (\<exists>v bs. r = Some (v, bs) \<and> k v bs = Inr y)"
  by (auto simp: rd_def split: option.splits)

fun read_items :: "(bytes \<Rightarrow> 'e + 'a \<times> bytes) \<Rightarrow> nat \<Rightarrow> bytes \<Rightarrow> 'e + 'a list \<times> bytes" where
  "read_items item 0 bs = Inr ([], bs)"
| "read_items item (Suc n) bs = bind_r (item bs) (\<lambda>(x, bs1). bind_r (read_items item n bs1) (\<lambda>(xs, bs2). Inr (x # xs, bs2)))"

lemma read_items_roundtrip:
  "(\<And>x bs. x \<in> set xs \<Longrightarrow> item (enc x @ bs) = Inr (x, bs)) \<Longrightarrow> read_items item (length xs) (concat (map enc xs) @ bs) = Inr (xs, bs)"
  by (induction xs) simp_all

lemma read_items_length: "read_items item n bs = Inr (xs, bs') \<Longrightarrow> length xs = n"
  by (induction n arbitrary: bs xs) (auto simp: result_simps)

section \<open>Headers\<close>

record ct_header =
  th_version :: u8
  th_prev_id :: bytes
  th_height :: u64
  th_timestamp_ms :: u64
  th_tx_root :: bytes
  th_cm_tree_root :: bytes
  th_nullifier_digest :: bytes
  th_pot_balance :: u64
  th_sc_nbits :: u32
  th_reward_claim :: bytes

datatype header_error = HdRead | HdTrailingBytes nat | HdNbitsOutOfRange u64

definition header_bytes :: "'m wire \<Rightarrow> ct_header \<Rightarrow> bytes" where
  "header_bytes W h = [th_version h] @ th_prev_id h @ wr_put_u64 W (th_height h) @ wr_put_u64 W (th_timestamp_ms h)
     @ th_tx_root h @ th_cm_tree_root h @ th_nullifier_digest h @ wr_put_u64 W (th_pot_balance h)
     @ wr_put_u64 W (ucast (th_sc_nbits h)) @ th_reward_claim h"

definition ct_header_id :: "('h, 't) ext \<Rightarrow> 'm wire \<Rightarrow> ct_header \<Rightarrow> bytes" where
  "ct_header_id E W h = x_blake2b256 E (header_bytes W h)"

definition header_from_bytes :: "'m wire \<Rightarrow> bytes \<Rightarrow> header_error + ct_header" where
  "header_from_bytes W bs =
     rd HdRead (wr_get_u8 W bs) (\<lambda>version r. rd HdRead (wr_get_bytes W 32 r) (\<lambda>prev_id r.
     rd HdRead (wr_get_u64 W r) (\<lambda>height r. rd HdRead (wr_get_u64 W r) (\<lambda>timestamp_ms r.
     rd HdRead (wr_get_bytes W 32 r) (\<lambda>tx_root r. rd HdRead (wr_get_bytes W 32 r) (\<lambda>cm_root r.
     rd HdRead (wr_get_bytes W 32 r) (\<lambda>digest r. rd HdRead (wr_get_u64 W r) (\<lambda>pot r.
     rd HdRead (wr_get_u64 W r) (\<lambda>raw r.
       if 2 ^ 32 \<le> unat raw then Inl (HdNbitsOutOfRange raw)
       else rd HdRead (wr_get_bytes W 33 r) (\<lambda>claim r.
         if r \<noteq> [] then Inl (HdTrailingBytes (length r))
         else Inr \<lparr> th_version = version, th_prev_id = prev_id, th_height = height, th_timestamp_ms = timestamp_ms,
           th_tx_root = tx_root, th_cm_tree_root = cm_root, th_nullifier_digest = digest, th_pot_balance = pot,
           th_sc_nbits = ucast raw, th_reward_claim = claim \<rparr>))))))))))"

definition wf_header :: "ct_header \<Rightarrow> bool" where
  "wf_header h \<longleftrightarrow> length (th_prev_id h) = 32 \<and> length (th_tx_root h) = 32 \<and> length (th_cm_tree_root h) = 32
     \<and> length (th_nullifier_digest h) = 32 \<and> length (th_reward_claim h) = 33"

lemma u64_of_u32: "unat (ucast (v :: u32) :: u64) < 2 ^ 32" "ucast (ucast v :: u64) = v"
  by (simp add: unsigned_ucast_eq take_bit_nat_eq_self order.strict_trans2 [OF unsigned_less]) (rule bit_word_eqI, simp add: bit_unsigned_iff)

lemma header_roundtrip: "wire_ok W \<Longrightarrow> wf_header h \<Longrightarrow> header_from_bytes W (header_bytes W h) = Inr h"
  using u64_of_u32 [of "th_sc_nbits h"]
  by (simp add: header_from_bytes_def header_bytes_def wire_okD wf_header_def)

section \<open>Transfers\<close>

record shielded_output =
  so_note_cm :: bytes
  so_epk :: bytes
  so_ct :: bytes
  so_out_ct :: bytes

record shielded_transfer =
  sx_nullifiers :: "bytes list"
  sx_outputs :: "shielded_output list"
  sx_proof :: bytes

datatype tx_error = TxRead | TxTrailingBytes nat | TxProofTooLarge nat

definition output_bytes :: "shielded_output \<Rightarrow> bytes" where
  "output_bytes out = so_note_cm out @ so_epk out @ so_ct out @ so_out_ct out"

definition transfer_bytes :: "'m wire \<Rightarrow> shielded_transfer \<Rightarrow> bytes" where
  "transfer_bytes W tx = concat (sx_nullifiers tx) @ concat (map output_bytes (sx_outputs tx))
     @ wr_put_u64 W (of_nat (length (sx_proof tx))) @ sx_proof tx"

definition transfer_id :: "('h, 't) ext \<Rightarrow> 'm wire \<Rightarrow> shielded_transfer \<Rightarrow> bytes" where
  "transfer_id E W tx = x_blake2b256 E (transfer_bytes W tx)"

definition read_nullifier :: "'m wire \<Rightarrow> bytes \<Rightarrow> tx_error + bytes \<times> bytes" where
  "read_nullifier W bs = rd TxRead (wr_get_bytes W nf_bytes bs) (\<lambda>nf r. Inr (nf, r))"

definition read_output :: "'m wire \<Rightarrow> bytes \<Rightarrow> tx_error + shielded_output \<times> bytes" where
  "read_output W bs =
     rd TxRead (wr_get_bytes W note_cm_size bs) (\<lambda>cm r. rd TxRead (wr_get_bytes W ct_epk_size r) (\<lambda>epk r.
     rd TxRead (wr_get_bytes W ct_note_ct_size r) (\<lambda>ct r. rd TxRead (wr_get_bytes W ct_out_ct_size r) (\<lambda>oct r.
       Inr (\<lparr> so_note_cm = cm, so_epk = epk, so_ct = ct, so_out_ct = oct \<rparr>, r)))))"

definition transfer_from_bytes :: "'m wire \<Rightarrow> bytes \<Rightarrow> tx_error + shielded_transfer" where
  "transfer_from_bytes W bs =
     bind_r (read_items (read_nullifier W) tx_arity bs) (\<lambda>(nfs, r).
     bind_r (read_items (read_output W) tx_arity r) (\<lambda>(outs, r).
     rd TxRead (wr_get_u64 W r) (\<lambda>n r.
       if max_proof_bytes < unat n then Inl (TxProofTooLarge (unat n))
       else rd TxRead (wr_get_bytes W (unat n) r) (\<lambda>proof r.
         if r \<noteq> [] then Inl (TxTrailingBytes (length r))
         else Inr \<lparr> sx_nullifiers = nfs, sx_outputs = outs, sx_proof = proof \<rparr>))))"

definition wf_transfer :: "shielded_transfer \<Rightarrow> bool" where
  "wf_transfer tx \<longleftrightarrow> length (sx_nullifiers tx) = tx_arity \<and> (\<forall>nf \<in> set (sx_nullifiers tx). length nf = nf_bytes)
     \<and> length (sx_outputs tx) = tx_arity \<and> (\<forall>out \<in> set (sx_outputs tx). length (so_note_cm out) = note_cm_size
         \<and> length (so_epk out) = ct_epk_size \<and> length (so_ct out) = ct_note_ct_size \<and> length (so_out_ct out) = ct_out_ct_size)
     \<and> length (sx_proof tx) \<le> max_proof_bytes"

lemma unat_length: "n < 2 ^ 64 \<Longrightarrow> unat (of_nat n :: u64) = n"
  by (simp add: unat_of_nat take_bit_nat_eq_self)

lemma transfer_roundtrip:
  assumes W: "wire_ok W" and tx: "wf_transfer tx"
  shows "transfer_from_bytes W (transfer_bytes W tx) = Inr tx"
proof -
  have nfs: "read_items (read_nullifier W) tx_arity (concat (sx_nullifiers tx) @ bs) = Inr (sx_nullifiers tx, bs)" for bs
    using read_items_roundtrip [of "sx_nullifiers tx" "read_nullifier W" "\<lambda>nf. nf" bs] tx
    by (simp add: wf_transfer_def read_nullifier_def wire_okD [OF W])
  have outs: "read_items (read_output W) tx_arity (concat (map output_bytes (sx_outputs tx)) @ bs) = Inr (sx_outputs tx, bs)" for bs
    using read_items_roundtrip [of "sx_outputs tx" "read_output W" output_bytes bs] tx
    by (simp add: wf_transfer_def read_output_def output_bytes_def wire_okD [OF W])
  have "length (sx_proof tx) \<le> max_proof_bytes" using tx by (simp add: wf_transfer_def)
  then show ?thesis
    by (simp add: transfer_from_bytes_def transfer_bytes_def nfs outs wire_okD [OF W] unat_length max_proof_bytes_def)
qed

section \<open>Bodies\<close>

record block_body =
  bb_transfers :: "shielded_transfer list"
  bb_peg_mints :: "bytes list"

datatype body_error = BdRead | BdTx tx_error | BdTooManyTxs nat | BdTooManyPegMints nat | BdPegMintTooLarge nat | BdTooLarge nat
  | BdTrailingBytes nat

text \<open>The ASCII codes of \<^verbatim>\<open>b"aegis/empty-tx-root/v1.........."\<close>.\<close>

definition empty_tx_root :: bytes where
  "empty_tx_root = [0x61, 0x65, 0x67, 0x69, 0x73, 0x2f, 0x65, 0x6d, 0x70, 0x74, 0x79, 0x2d, 0x74, 0x78, 0x2d, 0x72, 0x6f, 0x6f,
     0x74, 0x2f, 0x76, 0x31] @ replicate 10 0x2e"

definition empty_body :: block_body where
  "empty_body = \<lparr> bb_transfers = [], bb_peg_mints = [] \<rparr>"

definition tx_root :: "('h, 't) ext \<Rightarrow> 'm wire \<Rightarrow> block_body \<Rightarrow> bytes" where
  "tx_root E W body =
     (if bb_transfers body = [] then empty_tx_root else wr_merkle_root W (map (transfer_id E W) (bb_transfers body)))"

definition put_blob :: "'m wire \<Rightarrow> bytes \<Rightarrow> bytes" where
  "put_blob W bs = wr_put_u64 W (of_nat (length bs)) @ bs"

definition body_bytes :: "'m wire \<Rightarrow> block_body \<Rightarrow> bytes" where
  "body_bytes W body =
     wr_put_u64 W (of_nat (length (bb_transfers body))) @ concat (map (\<lambda>tx. put_blob W (transfer_bytes W tx)) (bb_transfers body))
     @ wr_put_u64 W (of_nat (length (bb_peg_mints body))) @ concat (map (put_blob W) (bb_peg_mints body))"

definition read_body_tx :: "'m wire \<Rightarrow> bytes \<Rightarrow> body_error + shielded_transfer \<times> bytes" where
  "read_body_tx W bs =
     rd BdRead (wr_get_u64 W bs) (\<lambda>n r. rd BdRead (wr_get_bytes W (min (unat n) max_block_bytes) r) (\<lambda>tx_bytes r.
       bind_r (map_err BdTx (transfer_from_bytes W tx_bytes)) (\<lambda>tx. Inr (tx, r))))"

definition read_body_pegmint :: "'m wire \<Rightarrow> bytes \<Rightarrow> body_error + bytes \<times> bytes" where
  "read_body_pegmint W bs =
     rd BdRead (wr_get_u64 W bs) (\<lambda>n r.
       if max_pegmint_proof_bytes < unat n then Inl (BdPegMintTooLarge (unat n))
       else rd BdRead (wr_get_bytes W (unat n) r) (\<lambda>pm r. Inr (pm, r)))"

definition body_from_bytes :: "'m wire \<Rightarrow> bytes \<Rightarrow> body_error + block_body" where
  "body_from_bytes W bs =
     (if max_block_bytes < length bs then Inl (BdTooLarge (length bs))
      else rd BdRead (wr_get_u64 W bs) (\<lambda>count r.
        if max_block_txs < unat count then Inl (BdTooManyTxs (unat count))
        else bind_r (read_items (read_body_tx W) (unat count) r) (\<lambda>(transfers, r).
          rd BdRead (wr_get_u64 W r) (\<lambda>pm_count r.
            if max_block_pegmints < unat pm_count then Inl (BdTooManyPegMints (unat pm_count))
            else bind_r (read_items (read_body_pegmint W) (unat pm_count) r) (\<lambda>(peg_mints, r).
              if r \<noteq> [] then Inl (BdTrailingBytes (length r))
              else Inr \<lparr> bb_transfers = transfers, bb_peg_mints = peg_mints \<rparr>)))))"

definition wf_body :: "'m wire \<Rightarrow> block_body \<Rightarrow> bool" where
  "wf_body W body \<longleftrightarrow> (\<forall>tx \<in> set (bb_transfers body). wf_transfer tx) \<and> length (bb_transfers body) \<le> max_block_txs
     \<and> length (bb_peg_mints body) \<le> max_block_pegmints \<and> length (body_bytes W body) \<le> max_block_bytes"

lemma concat_member_length: "x \<in> set xs \<Longrightarrow> length (f x) \<le> length (concat (map f xs))"
  by (induction xs) auto

lemma body_roundtrip:
  assumes W: "wire_ok W" and body: "wf_body W body"
  shows "body_from_bytes W (body_bytes W body) = Inr body"
proof -
  note b = body [unfolded wf_body_def]
  have len: "length (transfer_bytes W tx) \<le> max_block_bytes" if "tx \<in> set (bb_transfers body)" for tx
  proof -
    have "length (put_blob W (transfer_bytes W tx)) \<le> length (body_bytes W body)"
      using concat_member_length [OF that, of "\<lambda>tx. put_blob W (transfer_bytes W tx)"] by (simp add: body_bytes_def)
    with b show ?thesis by (simp add: put_blob_def)
  qed
  have pm: "length x \<le> max_block_bytes" if "x \<in> set (bb_peg_mints body)" for x
  proof -
    have "length (put_blob W x) \<le> length (body_bytes W body)"
      using concat_member_length [OF that, of "put_blob W"] by (simp add: body_bytes_def)
    with b show ?thesis by (simp add: put_blob_def)
  qed
  have txs: "read_items (read_body_tx W) (length (bb_transfers body))
      (concat (map (\<lambda>tx. put_blob W (transfer_bytes W tx)) (bb_transfers body)) @ bs) = Inr (bb_transfers body, bs)" for bs
  proof (rule read_items_roundtrip)
    fix tx bs assume "tx \<in> set (bb_transfers body)"
    then show "read_body_tx W (put_blob W (transfer_bytes W tx) @ bs) = Inr (tx, bs)"
      using len [of tx] b by (simp add: read_body_tx_def put_blob_def wire_okD [OF W] transfer_roundtrip [OF W] unat_length
          max_block_bytes_def)
  qed
  have pms: "read_items (read_body_pegmint W) (length (bb_peg_mints body)) (concat (map (put_blob W) (bb_peg_mints body)) @ bs)
      = Inr (bb_peg_mints body, bs)" for bs
  proof (rule read_items_roundtrip)
    fix x bs assume "x \<in> set (bb_peg_mints body)"
    then show "read_body_pegmint W (put_blob W x @ bs) = Inr (x, bs)"
      using pm [of x] by (simp add: read_body_pegmint_def put_blob_def wire_okD [OF W] unat_length max_block_bytes_def
          max_pegmint_proof_bytes_def)
  qed
  have "\<not> max_block_bytes < length (body_bytes W body)" using b by simp
  moreover have "unat (of_nat (length (bb_transfers body)) :: u64) = length (bb_transfers body)"
    "unat (of_nat (length (bb_peg_mints body)) :: u64) = length (bb_peg_mints body)"
    using b by (simp_all add: unat_length max_block_txs_def max_block_pegmints_def)
  ultimately show ?thesis
    using b pms [of "[]"] unfolding body_from_bytes_def by (simp add: body_bytes_def wire_okD [OF W] txs)
qed

section \<open>Blocks\<close>

record 'm ct_block =
  tb_header :: ct_header
  tb_body :: block_body
  tb_coinbase :: "'m option"

datatype block_error = BkRead | BkHeader header_error | BkBody body_error | BkBadCoinbaseFlag u8 | BkCoinbaseTooLarge nat
  | BkCoinbase | BkCoinbaseTrailing nat | BkTrailingBytes nat

definition ct_block_id :: "('h, 't) ext \<Rightarrow> 'm wire \<Rightarrow> 'm ct_block \<Rightarrow> bytes" where
  "ct_block_id E W b = ct_header_id E W (tb_header b)"

definition ct_block_bytes :: "'m wire \<Rightarrow> 'm ct_block \<Rightarrow> bytes" where
  "ct_block_bytes W b = put_blob W (header_bytes W (tb_header b)) @ put_blob W (body_bytes W (tb_body b))
     @ (case tb_coinbase b of None \<Rightarrow> [0] | Some m \<Rightarrow> [1] @ put_blob W (wr_put_mint W m))"

definition read_coinbase :: "'m wire \<Rightarrow> bytes \<Rightarrow> block_error + 'm option \<times> bytes" where
  "read_coinbase W bs =
     rd BkRead (wr_get_u8 W bs) (\<lambda>flag r.
       if flag = 0 then Inr (None, r)
       else if flag = 1 then rd BkRead (wr_get_u64 W r) (\<lambda>n r.
         if max_proof_bytes < unat n then Inl (BkCoinbaseTooLarge (unat n))
         else rd BkRead (wr_get_bytes W (unat n) r) (\<lambda>cb r. rd BkCoinbase (wr_get_mint W cb) (\<lambda>proof cb.
           if cb \<noteq> [] then Inl (BkCoinbaseTrailing (length cb)) else Inr (Some proof, r))))
       else Inl (BkBadCoinbaseFlag flag))"

definition ct_block_from_bytes :: "'m wire \<Rightarrow> bytes \<Rightarrow> block_error + 'm ct_block" where
  "ct_block_from_bytes W bs =
     rd BkRead (wr_get_u64 W bs) (\<lambda>hn r. rd BkRead (wr_get_bytes W (min (unat hn) max_block_bytes) r) (\<lambda>hb r.
     bind_r (map_err BkHeader (header_from_bytes W hb)) (\<lambda>header.
     rd BkRead (wr_get_u64 W r) (\<lambda>bn r. rd BkRead (wr_get_bytes W (min (unat bn) max_block_bytes) r) (\<lambda>bb r.
     bind_r (map_err BkBody (body_from_bytes W bb)) (\<lambda>body.
     bind_r (read_coinbase W r) (\<lambda>(coinbase, r).
       if r \<noteq> [] then Inl (BkTrailingBytes (length r))
       else Inr \<lparr> tb_header = header, tb_body = body, tb_coinbase = coinbase \<rparr>)))))))"

definition wf_ct_block :: "'m wire \<Rightarrow> 'm ct_block \<Rightarrow> bool" where
  "wf_ct_block W b \<longleftrightarrow> wf_header (tb_header b) \<and> wf_body W (tb_body b)
     \<and> (\<forall>m. tb_coinbase b = Some m \<longrightarrow> length (wr_put_mint W m) \<le> max_proof_bytes)"

lemma header_bytes_short: "wire_ok W \<Longrightarrow> wf_header h \<Longrightarrow> length (header_bytes W h) \<le> max_block_bytes"
  using wire_okD(5) [of W "th_height h"] wire_okD(5) [of W "th_timestamp_ms h"] wire_okD(5) [of W "th_pot_balance h"]
    wire_okD(5) [of W "ucast (th_sc_nbits h)"]
  by (simp add: header_bytes_def wf_header_def max_block_bytes_def)

text \<open>A block within the consensus caps survives its wire form.\<close>

lemma ct_block_roundtrip_lemma:
  assumes W: "wire_ok W" and b: "wf_ct_block W b"
  shows "ct_block_from_bytes W (ct_block_bytes W b) = Inr b"
proof -
  note wf = b [unfolded wf_ct_block_def wf_body_def]
  have h: "length (header_bytes W (tb_header b)) \<le> max_block_bytes" using header_bytes_short [OF W] wf by blast
  have bd: "length (body_bytes W (tb_body b)) \<le> max_block_bytes" using wf by blast
  have lens: "min (unat (of_nat (length xs) :: u64)) max_block_bytes = length xs" if "length xs \<le> max_block_bytes" for xs :: bytes
    using that by (simp add: unat_length max_block_bytes_def)
  have cb: "read_coinbase W (case tb_coinbase b of None \<Rightarrow> [0] | Some m \<Rightarrow> [1] @ put_blob W (wr_put_mint W m)) = Inr (tb_coinbase b, [])"
    using wf by (auto simp: read_coinbase_def put_blob_def wire_okD [OF W] unat_length max_proof_bytes_def split: option.split)
  show ?thesis
    using header_roundtrip [OF W, of "tb_header b"] body_roundtrip [OF W, of "tb_body b"] b cb
    by (simp add: ct_block_from_bytes_def ct_block_bytes_def put_blob_def [of W "header_bytes W (tb_header b)"]
        put_blob_def [of W "body_bytes W (tb_body b)"] wire_okD [OF W] lens [OF h] lens [OF bd] wf_ct_block_def)
qed

text \<open>
  The peg-mint proofs of a body are not committed: neither the transaction root nor the block id depends
  on them.
\<close>

lemma peg_mints_uncommitted: "tx_root E W (body \<lparr> bb_peg_mints := pms \<rparr>) = tx_root E W body"
  by (simp add: tx_root_def)

section \<open>What the decoder accepts\<close>

lemma read_items_all:
  assumes "\<And>bs x bs'. item bs = Inr (x, bs') \<Longrightarrow> P x" and "read_items item n bs = Inr (xs, bs')"
  shows "\<forall>x \<in> set xs. P x"
  using assms(2)
proof (induction n arbitrary: bs xs)
  case (Suc n)
  from Suc.prems obtain x ys b1 where x: "item bs = Inr (x, b1)" and ys: "read_items item n b1 = Inr (ys, bs')" and xs: "xs = x # ys"
    by (auto simp: result_simps)
  from assms(1) [OF x] Suc.IH [OF ys] show ?case by (simp add: xs)
qed simp

lemma get_bytes_length: "wire_ok W \<Longrightarrow> wr_get_bytes W n bs = Some (xs, r) \<Longrightarrow> length xs = n"
  unfolding wire_ok_def by (auto split: if_splits)

lemma transfer_from_bytes_wf: "wire_ok W \<Longrightarrow> transfer_from_bytes W bs = Inr tx \<Longrightarrow> wf_transfer tx"
proof -
  assume W: "wire_ok W" and tx: "transfer_from_bytes W bs = Inr tx"
  from tx obtain nfs r outs r' n r2 pf where nfs: "read_items (read_nullifier W) tx_arity bs = Inr (nfs, r)"
    and outs: "read_items (read_output W) tx_arity r = Inr (outs, r')"
    and "wr_get_u64 W r' = Some (n, r2)" "unat n \<le> max_proof_bytes" "wr_get_bytes W (unat n) r2 = Some (pf, [])"
    and t: "tx = \<lparr> sx_nullifiers = nfs, sx_outputs = outs, sx_proof = pf \<rparr>"
    by (auto simp: transfer_from_bytes_def result_simps not_less split: if_splits)
  then have n: "unat n \<le> max_proof_bytes" "length pf = unat n" using get_bytes_length [OF W] by simp_all
  have "\<forall>x \<in> set nfs. length x = nf_bytes"
    by (rule read_items_all [OF _ nfs]) (auto simp: read_nullifier_def result_simps dest: get_bytes_length [OF W])
  moreover have "\<forall>x \<in> set outs. length (so_note_cm x) = note_cm_size \<and> length (so_epk x) = ct_epk_size
      \<and> length (so_ct x) = ct_note_ct_size \<and> length (so_out_ct x) = ct_out_ct_size"
    by (rule read_items_all [OF _ outs]) (auto simp: read_output_def result_simps dest: get_bytes_length [OF W])
  ultimately show "wf_transfer tx"
    using read_items_length [OF nfs] read_items_length [OF outs] n by (simp add: wf_transfer_def t)
qed

definition body_in_caps :: "block_body \<Rightarrow> bool" where
  "body_in_caps body \<longleftrightarrow> (\<forall>tx \<in> set (bb_transfers body). wf_transfer tx) \<and> length (bb_transfers body) \<le> max_block_txs
     \<and> length (bb_peg_mints body) \<le> max_block_pegmints \<and> (\<forall>pm \<in> set (bb_peg_mints body). length pm \<le> max_pegmint_proof_bytes)"

lemma body_from_bytes_caps:
  assumes W: "wire_ok W" and body: "body_from_bytes W bs = Inr body"
  shows "body_in_caps body"
proof -
  from body obtain count r txs r' pmc r'' pms where "wr_get_u64 W bs = Some (count, r)"
    and txs: "read_items (read_body_tx W) (unat count) r = Inr (txs, r')" and "wr_get_u64 W r' = Some (pmc, r'')"
    and pms: "read_items (read_body_pegmint W) (unat pmc) r'' = Inr (pms, [])"
    and c: "unat count \<le> max_block_txs" "unat pmc \<le> max_block_pegmints"
    and b: "body = \<lparr> bb_transfers = txs, bb_peg_mints = pms \<rparr>"
    by (auto simp: body_from_bytes_def result_simps not_less split: if_splits)
  have "\<forall>x \<in> set txs. wf_transfer x"
    by (rule read_items_all [OF _ txs]) (auto simp: read_body_tx_def result_simps dest: transfer_from_bytes_wf [OF W])
  moreover have "\<forall>x \<in> set pms. length x \<le> max_pegmint_proof_bytes"
    by (rule read_items_all [OF _ pms])
      (auto simp: read_body_pegmint_def result_simps not_less dest: get_bytes_length [OF W] split: if_splits)
  ultimately show ?thesis
    using read_items_length [OF txs] read_items_length [OF pms] c by (simp add: body_in_caps_def b)
qed

lemma header_from_bytes_wf: "wire_ok W \<Longrightarrow> header_from_bytes W bs = Inr h \<Longrightarrow> wf_header h"
  by (auto simp: header_from_bytes_def result_simps wf_header_def dest: get_bytes_length split: if_splits)

end
