(* ===== verification/PegMint.thy ===== *)
theory PegMint
  imports ErgoFollow CtTypes
begin

text \<open>
  The peg-mint verifier: the objectivity of the carried Ergo chain proof (\<^verbatim>\<open>aegis-node/src/pegmint.rs\<close>) and the
  envelope codec, the two inclusions and the receipt steps (\<^verbatim>\<open>aegis-node/src/pegmint_steps.rs\<close>). The NiPoPoW
  verifier, the Ergo serializers and the VLQ reader and writer are external (\<open>ext\<close>, \<open>ergo_lib\<close>, \<open>vlq\<close>).
\<close>

section \<open>Errors and objectivity policy\<close>

datatype inclusion_role = RoleLock | RoleConsolidation

datatype pegmint_error =
    PmInvalidChain | PmNotContinuous | PmEmptyProof | PmWrongAnchor | PmInsufficientDepth u64 u64 | PmInsufficientWork
  | PmSerialize | PmNotCaughtUp u32 | PmNoCommonAncestor | PmDivergesFromFollowedChain u32
  | PmOversize string nat nat | PmMalformedProof string | PmInclusionNotSettled inclusion_role u32
  | PmMalformedInclusionProof inclusion_role | PmTxNotInBlock inclusion_role | PmOutputIndexOutOfRange nat nat
  | PmInputIndexOutOfRange nat nat | PmReceiptNotConsumed | PmNotConsolidatedIntoVault | PmWrongReceiptScript
  | PmWrongToken | PmZeroAmount | PmBadScDest | PmAlreadyMinted

record ergo_anchor =
  ea_header_id :: bytes
  ea_height :: u32
  ea_work_floor :: nat

record anchored_tip =
  at_tip_id :: bytes
  at_tip_height :: u32
  at_suffix_work :: nat

record comparative_anchor =
  ca_h_ref :: u32
  ca_settled_view :: settled_view

definition check_anchored_depth :: "bytes \<Rightarrow> u32 \<Rightarrow> ergo_anchor \<Rightarrow> u64 \<Rightarrow> pegmint_error + unit" where
  "check_anchored_depth genesis_id tip_height anchor n_mint =
     (if genesis_id \<noteq> ea_header_id anchor then Inl PmWrongAnchor
      else let depth = ucast (saturating_sub tip_height (ea_height anchor)) in
        if depth < n_mint then Inl (PmInsufficientDepth depth n_mint) else Inr ())"

definition check_objectivity ::
  "('h, 't) ext \<Rightarrow> bytes \<Rightarrow> u32 \<Rightarrow> u32 list \<Rightarrow> ergo_anchor \<Rightarrow> u64 \<Rightarrow> pegmint_error + nat" where
  "check_objectivity E genesis_id tip_height suffix_nbits anchor n_mint =
     bind_r (check_anchored_depth genesis_id tip_height anchor n_mint) (\<lambda>_.
       let work = sum_list (map (x_decode_bits E) suffix_nbits) in
       if work < ea_work_floor anchor then Inl PmInsufficientWork else Inr work)"

definition pm_header_id :: "('h, 't, 'w) ergo_lib \<Rightarrow> 'h \<Rightarrow> pegmint_error + bytes" where
  "pm_header_id X h = bind_r (ok_or (el_serialize_header X h) PmSerialize) (\<lambda>(_, ident). Inr ident)"

definition verify_ergo_chain ::
  "('h, 't) ext \<Rightarrow> ('h, 't, 'w) ergo_lib \<Rightarrow> 'w \<Rightarrow> ergo_anchor \<Rightarrow> u64 \<Rightarrow> pegmint_error + anchored_tip" where
  "verify_ergo_chain E X pf anchor n_mint =
     (if \<not> el_nipopow_valid X pf then Inl PmInvalidChain
      else if \<not> el_continuous X pf then Inl PmNotContinuous
      else if el_chain X pf = [] then Inl PmEmptyProof
      else let chain = el_chain X pf; tip = chain ! (length chain - 1);
               k = min (unat (el_suffix_len X pf)) (length chain);
               suffix_nbits = map (el_nbits X) (drop (length chain - k) chain) in
        bind_r (pm_header_id X (hd chain)) (\<lambda>genesis_id.
        bind_r (check_objectivity E genesis_id (x_h_height E tip) suffix_nbits anchor n_mint) (\<lambda>work.
        bind_r (pm_header_id X tip) (\<lambda>tip_id.
          Inr \<lparr> at_tip_id = tip_id, at_tip_height = x_h_height E tip, at_suffix_work = work \<rparr>))))"

fun corroborate ::
  "('h, 't) ext \<Rightarrow> ('h, 't, 'w) ergo_lib \<Rightarrow> settled_view \<Rightarrow> u32 \<Rightarrow> nat \<Rightarrow> 'h list \<Rightarrow> pegmint_error + nat" where
  "corroborate E X view root n [] = Inr n"
| "corroborate E X view root n (h # hs) =
     (if x_h_height E h < root then corroborate E X view root n hs
      else bind_r (pm_header_id X h) (\<lambda>ident.
        if height_of view ident = Some (x_h_height E h) then corroborate E X view root (n + 1) hs
        else Inl (PmDivergesFromFollowedChain (x_h_height E h))))"

definition check_comparative_objectivity ::
  "('h, 't) ext \<Rightarrow> ('h, 't, 'w) ergo_lib \<Rightarrow> 'h list \<Rightarrow> settled_view \<Rightarrow> pegmint_error + unit" where
  "check_comparative_objectivity E X settled_chain view =
     bind_r (corroborate E X view (root_height view) 0 settled_chain) (\<lambda>n.
       if n = 0 then Inl PmNoCommonAncestor else Inr ())"

definition comparative_policy ::
  "('h, 't) ext \<Rightarrow> ('h, 't, 'w) ergo_lib \<Rightarrow> 'h list \<Rightarrow> u64 \<Rightarrow> follower \<Rightarrow> pegmint_error + comparative_anchor" where
  "comparative_policy E X chain n_mint f =
     (if chain = [] then Inl PmEmptyProof
      else let tip = chain ! (length chain - 1) in
        bind_r (ok_or (checked_sub (ucast (x_h_height E tip)) n_mint)
            (PmInsufficientDepth (ucast (x_h_height E tip)) n_mint)) (\<lambda>h_ref64.
        let h_ref = ucast (h_ref64 :: u64) :: u32 in
        bind_r (ok_or (settled_view_of f h_ref) (PmNotCaughtUp h_ref)) (\<lambda>view.
        bind_r (check_comparative_objectivity E X (filter (\<lambda>h. x_h_height E h \<le> h_ref) chain) view) (\<lambda>_.
          Inr \<lparr> ca_h_ref = h_ref, ca_settled_view = view \<rparr>))))"

definition verify_ergo_chain_comparative ::
  "('h, 't) ext \<Rightarrow> ('h, 't, 'w) ergo_lib \<Rightarrow> 'w \<Rightarrow> ergo_anchor \<Rightarrow> u64 \<Rightarrow> follower \<Rightarrow> pegmint_error + comparative_anchor" where
  "verify_ergo_chain_comparative E X pf anchor n_mint f =
     (if \<not> el_nipopow_valid X pf then Inl PmInvalidChain
      else if \<not> el_continuous X pf then Inl PmNotContinuous
      else if el_chain X pf = [] then Inl PmEmptyProof
      else let chain = el_chain X pf; tip = chain ! (length chain - 1) in
        bind_r (pm_header_id X (hd chain)) (\<lambda>genesis_id.
        bind_r (check_anchored_depth genesis_id (x_h_height E tip) anchor n_mint) (\<lambda>_.
          comparative_policy E X chain n_mint f)))"

section \<open>Proofs, parameters, effects\<close>

record 'h tx_inclusion =
  ti_header :: 'h
  ti_tx_bytes :: bytes
  ti_proof :: batch_proof

record ('h, 'w) pegmint_proof =
  pp_work :: 'w
  pp_lock :: "'h tx_inclusion"
  pp_receipt_output_index :: "16 word"
  pp_consolidation :: "'h tx_inclusion"
  pp_receipt_input_index :: "16 word"

record peg_params =
  pgp_use_token_id :: bytes
  pgp_peg_vault_nft :: bytes
  pgp_receipt_script_hash :: bytes
  pgp_fee_pot_script_hash :: bytes
  pgp_peg_fee_floor :: u64
  pgp_peg_fee_rate_bps :: u64

definition pgp_fee :: "peg_params \<Rightarrow> u64 \<Rightarrow> u64" where
  "pgp_fee p n =
     (let bps = unat n * unat (pgp_peg_fee_rate_bps p) div 10000
      in max (if bps < 2 ^ 64 then of_nat bps else - 1) (pgp_peg_fee_floor p))"

record pegmint_effect =
  pe_note_value :: u64
  pe_sc_dest :: bytes
  pe_box_id :: bytes
  pe_pot_credit :: u64
  pe_rho_seed :: bytes

definition max_nipopow_proof_bytes :: nat where "max_nipopow_proof_bytes = 1024 * 1024"
definition max_peg_header_bytes :: nat where "max_peg_header_bytes = 4096"
definition max_peg_tx_bytes :: nat where "max_peg_tx_bytes = 1024 * 1024"
definition max_peg_merkle_entries :: nat where "max_peg_merkle_entries = 64"
definition max_peg_merkle_bytes :: nat where "max_peg_merkle_bytes = 8 + 36 + max_peg_merkle_entries * 33"

lemmas peg_size_defs = max_nipopow_proof_bytes_def max_peg_header_bytes_def max_peg_tx_bytes_def
  max_peg_merkle_entries_def max_peg_merkle_bytes_def

section \<open>The envelope codec\<close>

record vlq =
  vl_get_u32 :: "bytes \<Rightarrow> (u32 \<times> bytes) option"
  vl_get_u16 :: "bytes \<Rightarrow> (16 word \<times> bytes) option"
  vl_get_bytes :: "nat \<Rightarrow> bytes \<Rightarrow> (bytes \<times> bytes) option"
  vl_put_u32 :: "u32 \<Rightarrow> bytes"
  vl_put_u16 :: "16 word \<Rightarrow> bytes"

definition role_fields :: "inclusion_role \<Rightarrow> string \<times> string \<times> string" where
  "role_fields role = (case role of
       RoleLock \<Rightarrow> (''lock.header'', ''lock.tx_bytes'', ''lock.proof'')
     | RoleConsolidation \<Rightarrow> (''consolidation.header'', ''consolidation.tx_bytes'', ''consolidation.proof''))"

definition read_blob :: "vlq \<Rightarrow> bytes \<Rightarrow> string \<Rightarrow> nat \<Rightarrow> pegmint_error + bytes \<times> bytes" where
  "read_blob V bs field mx =
     rd (PmMalformedProof field) (vl_get_u32 V bs) (\<lambda>n r.
       if mx < unat n then Inl (PmOversize field (unat n) mx)
       else rd (PmMalformedProof field) (vl_get_bytes V (unat n) r) (\<lambda>blob r. Inr (blob, r)))"

definition read_tx_inclusion ::
  "('h, 't) ext \<Rightarrow> ('h, 't, 'w) ergo_lib \<Rightarrow> vlq \<Rightarrow> bytes \<Rightarrow> inclusion_role \<Rightarrow> pegmint_error + 'h tx_inclusion \<times> bytes" where
  "read_tx_inclusion E X V bs role =
     (let (hf, tf, pf) = role_fields role in
      bind_r (read_blob V bs hf max_peg_header_bytes) (\<lambda>(header_bytes, r).
      rd (PmMalformedProof hf) (x_read_header E header_bytes) (\<lambda>header hr.
        if hr \<noteq> [] then Inl (PmMalformedProof hf)
        else bind_r (read_blob V r tf max_peg_tx_bytes) (\<lambda>(tx_bytes, r).
          bind_r (read_blob V r pf max_peg_merkle_bytes) (\<lambda>(proof_bytes, r).
          bind_r (ok_or (el_read_batch X proof_bytes) (PmMalformedProof pf)) (\<lambda>bp.
            if length (bp_indices bp) \<noteq> 1 then Inl (PmMalformedProof pf)
            else if max_peg_merkle_entries < length (bp_proofs bp)
              then Inl (PmOversize pf (length (bp_proofs bp)) max_peg_merkle_entries)
            else Inr (\<lparr> ti_header = header, ti_tx_bytes = tx_bytes, ti_proof = bp \<rparr>, r)))))))"

definition read_pegmint_proof ::
  "('h, 't) ext \<Rightarrow> ('h, 't, 'w) ergo_lib \<Rightarrow> vlq \<Rightarrow> bytes \<Rightarrow> pegmint_error + ('h, 'w) pegmint_proof" where
  "read_pegmint_proof E X V bs =
     (if max_pegmint_proof_bytes < length bs then Inl (PmOversize ''proof'' (length bs) max_pegmint_proof_bytes)
      else bind_r (read_blob V bs ''work'' max_nipopow_proof_bytes) (\<lambda>(work_bytes, r).
        rd (PmMalformedProof ''work'') (el_read_nipopow X work_bytes) (\<lambda>work wr.
          if wr \<noteq> [] then Inl (PmMalformedProof ''work'')
          else bind_r (read_tx_inclusion E X V r RoleLock) (\<lambda>(lock, r).
            rd (PmMalformedProof ''receipt_output_index'') (vl_get_u16 V r) (\<lambda>out_index r.
            bind_r (read_tx_inclusion E X V r RoleConsolidation) (\<lambda>(consolidation, r).
            rd (PmMalformedProof ''receipt_input_index'') (vl_get_u16 V r) (\<lambda>in_index r.
              if r \<noteq> [] then Inl (PmMalformedProof ''trailing bytes'')
              else Inr \<lparr> pp_work = work, pp_lock = lock, pp_receipt_output_index = out_index,
                pp_consolidation = consolidation, pp_receipt_input_index = in_index \<rparr>)))))))"

definition write_blob :: "vlq \<Rightarrow> string \<Rightarrow> nat \<Rightarrow> bytes \<Rightarrow> pegmint_error + bytes" where
  "write_blob V field mx bs =
     (if mx < length bs then Inl (PmOversize field (length bs) mx) else Inr (vl_put_u32 V (of_nat (length bs)) @ bs))"

definition write_tx_inclusion ::
  "('h, 't, 'w) ergo_lib \<Rightarrow> vlq \<Rightarrow> 'h tx_inclusion \<Rightarrow> inclusion_role \<Rightarrow> pegmint_error + bytes" where
  "write_tx_inclusion X V incl role =
     (let (hf, tf, pf) = role_fields role in
      bind_r (ok_or (el_serialize_header X (ti_header incl)) PmSerialize) (\<lambda>(header_bytes, _).
      bind_r (write_blob V hf max_peg_header_bytes header_bytes) (\<lambda>w1.
      bind_r (write_blob V tf max_peg_tx_bytes (ti_tx_bytes incl)) (\<lambda>w2.
      bind_r (write_blob V pf max_peg_merkle_bytes (el_write_batch X (ti_proof incl))) (\<lambda>w3. Inr (w1 @ w2 @ w3))))))"

definition serialize_pegmint_proof ::
  "('h, 't, 'w) ergo_lib \<Rightarrow> vlq \<Rightarrow> ('h, 'w) pegmint_proof \<Rightarrow> pegmint_error + bytes" where
  "serialize_pegmint_proof X V pf =
     bind_r (ok_or (el_write_nipopow X (pp_work pf)) PmSerialize) (\<lambda>work_bytes.
     bind_r (write_blob V ''work'' max_nipopow_proof_bytes work_bytes) (\<lambda>w1.
     bind_r (write_tx_inclusion X V (pp_lock pf) RoleLock) (\<lambda>w2.
     bind_r (write_tx_inclusion X V (pp_consolidation pf) RoleConsolidation) (\<lambda>w3.
     let out = w1 @ w2 @ vl_put_u16 V (pp_receipt_output_index pf) @ w3 @ vl_put_u16 V (pp_receipt_input_index pf) in
       if max_pegmint_proof_bytes < length out then Inl (PmOversize ''proof'' (length out) max_pegmint_proof_bytes)
       else Inr out))))"

section \<open>Inclusion\<close>

definition check_bounds_of :: "inclusion_role \<Rightarrow> 'h tx_inclusion \<Rightarrow> pegmint_error + unit" where
  "check_bounds_of role incl =
     (let (_, tf, pf) = role_fields role in
      if max_peg_tx_bytes < length (ti_tx_bytes incl)
        then Inl (PmOversize tf (length (ti_tx_bytes incl)) max_peg_tx_bytes)
      else if max_peg_merkle_entries < length (bp_proofs (ti_proof incl))
        then Inl (PmOversize pf (length (bp_proofs (ti_proof incl))) max_peg_merkle_entries)
      else Inr ())"

definition check_bounds :: "('h, 'w) pegmint_proof \<Rightarrow> pegmint_error + unit" where
  "check_bounds pf =
     bind_r (check_bounds_of RoleLock (pp_lock pf)) (\<lambda>_. check_bounds_of RoleConsolidation (pp_consolidation pf))"

definition check_inclusion ::
  "('h, 't) ext \<Rightarrow> ('h, 't, 'w) ergo_lib \<Rightarrow> 'h tx_inclusion \<Rightarrow> inclusion_role \<Rightarrow> settled_view \<Rightarrow> pegmint_error + 't \<times> bytes" where
  "check_inclusion E X incl role view =
     (let (hf, tf, _) = role_fields role in
      bind_r (ok_or (el_serialize_header X (ti_header incl)) PmSerialize) (\<lambda>(header_bytes, hid).
        if max_peg_header_bytes < length header_bytes then Inl (PmOversize hf (length header_bytes) max_peg_header_bytes)
        else if height_of view hid \<noteq> Some (x_h_height E (ti_header incl))
          then Inl (PmInclusionNotSettled role (x_h_height E (ti_header incl)))
        else rd (PmMalformedProof tf) (x_read_tx E (ti_tx_bytes incl)) (\<lambda>tx tr.
          if tr \<noteq> [] then Inl (PmMalformedProof tf)
          else bind_r (ok_or (x_tx_id E tx) PmSerialize) (\<lambda>txid.
            if length (bp_indices (ti_proof incl)) \<noteq> 1 \<or> snd (bp_indices (ti_proof incl) ! 0) \<noteq> x_tx_leaf E txid
              then Inl (PmMalformedInclusionProof role)
            else if \<not> x_popow_verify E (ti_proof incl) (x_h_transactions_root E (ti_header incl))
              then Inl (PmTxNotInBlock role)
            else Inr (tx, txid)))))"

section \<open>The receipt\<close>

text \<open>
  The box id of the receipt is that of output \<open>out_index\<close> of the lock transaction, whose id the inclusion check has
  computed from the transaction itself.
\<close>

definition vault_nft_at_out0 :: "('h, 't) ext \<Rightarrow> peg_params \<Rightarrow> 't \<Rightarrow> bool" where
  "vault_nft_at_out0 E params tx =
     (case x_tx_outputs E tx of [] \<Rightarrow> False
      | out # _ \<Rightarrow> (case xo_tokens out of [] \<Rightarrow> False | (token, _) # _ \<Rightarrow> token = pgp_peg_vault_nft params))"

definition receipt_value :: "('h, 't) ext \<Rightarrow> peg_params \<Rightarrow> ergo_output \<Rightarrow> pegmint_error + u64" where
  "receipt_value E params candidate =
     (if x_blake2b256 E (xo_tree candidate) \<noteq> pgp_receipt_script_hash params then Inl PmWrongReceiptScript
      else (case xo_tokens candidate of [] \<Rightarrow> Inl PmWrongToken
        | (token, amount) # _ \<Rightarrow>
            if token \<noteq> pgp_use_token_id params then Inl PmWrongToken
            else if amount = 0 then Inl PmZeroAmount else Inr amount))"

definition receipt_dest :: "ergo_output \<Rightarrow> pegmint_error + bytes" where
  "receipt_dest candidate =
     (case xo_r4 candidate of None \<Rightarrow> Inl PmBadScDest
      | Some b \<Rightarrow> if length b = 33 then Inr b else Inl PmBadScDest)"

definition fee_paid :: "('h, 't) ext \<Rightarrow> peg_params \<Rightarrow> 't \<Rightarrow> u128" where
  "fee_paid E params tx =
     fold (\<lambda>out acc. if x_blake2b256 E (xo_tree out) = pgp_fee_pot_script_hash params
         then fold (\<lambda>(token, amount) acc. if token = pgp_use_token_id params then acc + ucast amount else acc) (xo_tokens out) acc
         else acc) (x_tx_outputs E tx) 0"

definition receipt_steps ::
  "('h, 't) ext \<Rightarrow> ('h, 't, 'w) ergo_lib \<Rightarrow> 't \<Rightarrow> 16 word \<Rightarrow> 't \<Rightarrow> 16 word \<Rightarrow> bytes set \<Rightarrow> peg_params \<Rightarrow> pegmint_error + pegmint_effect" where
  "receipt_steps E X lock_tx out_index cons_tx in_index used params =
     (let outs = x_tx_outputs E lock_tx; oi = unat out_index; ii = unat in_index; ins = el_inputs X cons_tx in
      if length outs \<le> oi then Inl (PmOutputIndexOutOfRange oi (length outs))
      else bind_r (ok_or (x_box_id E lock_tx oi) PmSerialize) (\<lambda>box_id.
        if length ins \<le> ii then Inl (PmInputIndexOutOfRange ii (length ins))
        else if ins ! ii \<noteq> box_id then Inl PmReceiptNotConsumed
        else if \<not> vault_nft_at_out0 E params cons_tx then Inl PmNotConsolidatedIntoVault
        else bind_r (receipt_value E params (outs ! oi)) (\<lambda>note_value.
          bind_r (receipt_dest (outs ! oi)) (\<lambda>sc_dest.
          let pot_credit = ucast (min (fee_paid E params lock_tx) (ucast (pgp_fee params note_value))) in
            if box_id \<in> used then Inl PmAlreadyMinted
            else Inr \<lparr> pe_note_value = note_value, pe_sc_dest = sc_dest, pe_box_id = box_id, pe_pot_credit = pot_credit,
              pe_rho_seed = box_id \<rparr>))))"

section \<open>The verifier\<close>

definition verify_pegmint ::
  "('h, 't) ext \<Rightarrow> ('h, 't, 'w) ergo_lib \<Rightarrow> ('h, 'w) pegmint_proof \<Rightarrow> comparative_anchor \<Rightarrow> bytes set \<Rightarrow> peg_params \<Rightarrow>
     pegmint_error + pegmint_effect" where
  "verify_pegmint E X pf anchor used params =
     bind_r (check_bounds pf) (\<lambda>_.
     bind_r (check_inclusion E X (pp_lock pf) RoleLock (ca_settled_view anchor)) (\<lambda>(lock_tx, _).
     bind_r (check_inclusion E X (pp_consolidation pf) RoleConsolidation (ca_settled_view anchor)) (\<lambda>(cons_tx, _).
       receipt_steps E X lock_tx (pp_receipt_output_index pf) cons_tx (pp_receipt_input_index pf) used params)))"

definition verify_pegmint_full ::
  "('h, 't) ext \<Rightarrow> ('h, 't, 'w) ergo_lib \<Rightarrow> ('h, 'w) pegmint_proof \<Rightarrow> ergo_anchor \<Rightarrow> u64 \<Rightarrow> follower \<Rightarrow> bytes set \<Rightarrow> peg_params \<Rightarrow>
     pegmint_error + pegmint_effect" where
  "verify_pegmint_full E X pf ergo_anchor n_mint f used params =
     bind_r (verify_ergo_chain_comparative E X (pp_work pf) ergo_anchor n_mint f) (\<lambda>anchor.
       verify_pegmint E X pf anchor used params)"

section \<open>The envelope round trip\<close>

definition peg_wire_ok :: "('h, 't) ext \<Rightarrow> ('h, 't, 'w) ergo_lib \<Rightarrow> vlq \<Rightarrow> bool" where
  "peg_wire_ok E X V \<longleftrightarrow> (\<forall>v bs. vl_get_u32 V (vl_put_u32 V v @ bs) = Some (v, bs)) \<and> (\<forall>v bs. vl_get_u16 V (vl_put_u16 V v @ bs) = Some (v, bs))
     \<and> (\<forall>n bs. vl_get_bytes V n bs = (if n \<le> length bs then Some (take n bs, drop n bs) else None))
     \<and> (\<forall>h bs ident. el_serialize_header X h = Some (bs, ident) \<longrightarrow> x_read_header E bs = Some (h, []))
     \<and> (\<forall>w bs. el_write_nipopow X w = Some bs \<longrightarrow> el_read_nipopow X bs = Some (w, []))
     \<and> (\<forall>bp. el_read_batch X (el_write_batch X bp) = Some bp)"

lemma peg_wire_okD:
  assumes "peg_wire_ok E X V"
  shows "vl_get_u32 V (vl_put_u32 V v @ bs) = Some (v, bs)" "vl_get_u16 V (vl_put_u16 V w @ bs) = Some (w, bs)"
    "length xs = n \<Longrightarrow> vl_get_bytes V n (xs @ bs) = Some (xs, bs)" "vl_get_u16 V (vl_put_u16 V w) = Some (w, [])"
    "el_serialize_header X h = Some (hb, ident) \<Longrightarrow> x_read_header E hb = Some (h, [])"
    "el_write_nipopow X pw = Some wb \<Longrightarrow> el_read_nipopow X wb = Some (pw, [])"
    "el_read_batch X (el_write_batch X bp) = Some bp"
proof -
  have "vl_get_u16 V (vl_put_u16 V w @ []) = Some (w, [])" using assms unfolding peg_wire_ok_def by blast
  then show "vl_get_u16 V (vl_put_u16 V w) = Some (w, [])" by simp
qed (use assms in \<open>auto simp: peg_wire_ok_def\<close>)

lemma blob_roundtrip:
  assumes "peg_wire_ok E X V" and "write_blob V field mx bs = Inr w" and "mx < 2 ^ 32"
  shows "read_blob V (w @ r) field mx = Inr (bs, r)"
proof -
  from assms(2) have len: "length bs \<le> mx" and w: "w = vl_put_u32 V (of_nat (length bs)) @ bs"
    by (auto simp: write_blob_def split: if_splits)
  then have "unat (of_nat (length bs) :: u32) = length bs" using assms(3) by (simp add: unat_of_nat take_bit_nat_eq_self)
  with len show ?thesis by (simp add: read_blob_def w peg_wire_okD [OF assms(1)])
qed

definition wf_inclusion :: "'h tx_inclusion \<Rightarrow> bool" where
  "wf_inclusion incl \<longleftrightarrow> length (bp_indices (ti_proof incl)) = 1 \<and> length (bp_proofs (ti_proof incl)) \<le> max_peg_merkle_entries"

lemma tx_inclusion_roundtrip:
  assumes W: "peg_wire_ok E X V" and w: "write_tx_inclusion X V incl role = Inr w" and wf: "wf_inclusion incl"
  shows "read_tx_inclusion E X V (w @ r) role = Inr (incl, r)"
proof -
  obtain hf tf pf where f: "role_fields role = (hf, tf, pf)" by (metis prod.exhaust)
  from w f obtain hb ident w1 w2 w3 where h: "el_serialize_header X (ti_header incl) = Some (hb, ident)"
    and w1: "write_blob V hf max_peg_header_bytes hb = Inr w1" and w2: "write_blob V tf max_peg_tx_bytes (ti_tx_bytes incl) = Inr w2"
    and w3: "write_blob V pf max_peg_merkle_bytes (el_write_batch X (ti_proof incl)) = Inr w3" and w': "w = w1 @ w2 @ w3"
    by (auto simp: write_tx_inclusion_def result_simps)
  show ?thesis
    using wf blob_roundtrip [OF W w1, of "w2 @ w3 @ r"] blob_roundtrip [OF W w2, of "w3 @ r"] blob_roundtrip [OF W w3, of r]
    by (simp add: read_tx_inclusion_def f w' peg_wire_okD(5) [OF W h] peg_wire_okD(7) [OF W] wf_inclusion_def peg_size_defs)
qed

lemma pegmint_proof_roundtrip:
  assumes W: "peg_wire_ok E X V" and w: "serialize_pegmint_proof X V pf = Inr bs"
    and wf: "wf_inclusion (pp_lock pf)" "wf_inclusion (pp_consolidation pf)"
  shows "read_pegmint_proof E X V bs = Inr pf"
proof -
  from w obtain wb w1 w2 w3 where n: "el_write_nipopow X (pp_work pf) = Some wb"
    and w1: "write_blob V ''work'' max_nipopow_proof_bytes wb = Inr w1" and w2: "write_tx_inclusion X V (pp_lock pf) RoleLock = Inr w2"
    and w3: "write_tx_inclusion X V (pp_consolidation pf) RoleConsolidation = Inr w3"
    and bs: "bs = w1 @ w2 @ vl_put_u16 V (pp_receipt_output_index pf) @ w3 @ vl_put_u16 V (pp_receipt_input_index pf)"
    and len: "\<not> max_pegmint_proof_bytes < length bs"
    by (auto simp: serialize_pegmint_proof_def result_simps Let_def)
  have b1: "read_blob V (w1 @ r) ''work'' max_nipopow_proof_bytes = Inr (wb, r)" for r
    by (rule blob_roundtrip [OF W w1]) (simp add: max_nipopow_proof_bytes_def)
  show ?thesis
    using len unfolding read_pegmint_proof_def
    by (simp add: bs b1 peg_wire_okD(2,4) [OF W] peg_wire_okD(6) [OF W n] tx_inclusion_roundtrip [OF W w2 wf(1)]
        tx_inclusion_roundtrip [OF W w3 wf(2)])
qed

section \<open>What an accepted mint is backed by\<close>

definition receipt_backs ::
  "('h, 't) ext \<Rightarrow> ('h, 't, 'w) ergo_lib \<Rightarrow> peg_params \<Rightarrow> 't \<Rightarrow> nat \<Rightarrow> 't \<Rightarrow> nat \<Rightarrow> pegmint_effect \<Rightarrow> bool" where
  "receipt_backs E X params lock_tx oi cons_tx ii eff \<longleftrightarrow>
     oi < length (x_tx_outputs E lock_tx) \<and> x_box_id E lock_tx oi = Some (pe_box_id eff)
   \<and> ii < length (el_inputs X cons_tx) \<and> el_inputs X cons_tx ! ii = pe_box_id eff \<and> vault_nft_at_out0 E params cons_tx
   \<and> x_blake2b256 E (xo_tree (x_tx_outputs E lock_tx ! oi)) = pgp_receipt_script_hash params
   \<and> (\<exists>more. xo_tokens (x_tx_outputs E lock_tx ! oi) = (pgp_use_token_id params, pe_note_value eff) # more)
   \<and> pe_note_value eff \<noteq> 0 \<and> xo_r4 (x_tx_outputs E lock_tx ! oi) = Some (pe_sc_dest eff) \<and> length (pe_sc_dest eff) = 33"

lemma receipt_value_ok_iff:
  "receipt_value E params c = Inr v \<longleftrightarrow> x_blake2b256 E (xo_tree c) = pgp_receipt_script_hash params
     \<and> (\<exists>more. xo_tokens c = (pgp_use_token_id params, v) # more) \<and> v \<noteq> 0"
  by (cases "xo_tokens c") (auto simp: receipt_value_def split: if_splits)

lemma receipt_dest_ok_iff: "receipt_dest c = Inr d \<longleftrightarrow> xo_r4 c = Some d \<and> length d = 33"
  by (auto simp: receipt_dest_def split: option.splits if_splits)

text \<open>
  The receipt steps accept exactly the consumed receipts that have not minted; a missing fee lowers the pot credit
  and nothing else.
\<close>

lemma receipt_steps_ok_iff:
  "receipt_steps E X lock_tx oi cons_tx ii used params = Inr eff \<longleftrightarrow>
     receipt_backs E X params lock_tx (unat oi) cons_tx (unat ii) eff \<and> pe_box_id eff \<notin> used \<and> pe_rho_seed eff = pe_box_id eff
     \<and> pe_pot_credit eff = ucast (min (fee_paid E params lock_tx) (ucast (pgp_fee params (pe_note_value eff))))"
proof -
  have "eff = \<lparr> pe_note_value = a, pe_sc_dest = b, pe_box_id = c, pe_pot_credit = d, pe_rho_seed = e \<rparr> \<longleftrightarrow>
      pe_note_value eff = a \<and> pe_sc_dest eff = b \<and> pe_box_id eff = c \<and> pe_pot_credit eff = d \<and> pe_rho_seed eff = e" for a b c d e
    by auto
  note ext = eq_commute [of _ eff] this
  show ?thesis
    unfolding receipt_steps_def receipt_backs_def Let_def
    by (auto simp: result_simps receipt_value_ok_iff receipt_dest_ok_iff ext not_le)
qed

lemma pot_credit_bound:
  "(ucast (min (paid :: u128) (ucast fee)) :: u64) \<le> fee"
proof -
  have f: "unat (ucast fee :: u128) = unat fee" by (simp add: unsigned_ucast_eq take_bit_nat_eq_self order.strict_trans2 [OF unsigned_less])
  have "unat (min paid (ucast fee)) \<le> unat fee"
    using f by (metis min.cobounded2 word_le_nat_alt)
  moreover have "unat (ucast x :: u64) \<le> unat x" for x :: u128
    by (simp add: unsigned_ucast_eq take_bit_nat_less_eq_self)
  ultimately show ?thesis by (meson order_trans word_le_nat_alt)
qed

definition on_best_chain :: "follower \<Rightarrow> bytes \<Rightarrow> u32 \<Rightarrow> bool" where
  "on_best_chain f ident h \<longleftrightarrow>
     (\<exists>tip n. fo_tip f = Some tip \<and> ancestor (fo_headers f) n tip \<and> fh_id n = ident \<and> fh_height n = h)"

definition tx_settled ::
  "('h, 't) ext \<Rightarrow> ('h, 't, 'w) ergo_lib \<Rightarrow> follower \<Rightarrow> u32 \<Rightarrow> 'h tx_inclusion \<Rightarrow> 't \<Rightarrow> bool" where
  "tx_settled E X f h_ref incl tx \<longleftrightarrow>
     (\<exists>hb hid txid. el_serialize_header X (ti_header incl) = Some (hb, hid) \<and> on_best_chain f hid (x_h_height E (ti_header incl))
        \<and> x_h_height E (ti_header incl) \<le> h_ref \<and> x_read_tx E (ti_tx_bytes incl) = Some (tx, []) \<and> x_tx_id E tx = Some txid
        \<and> map snd (bp_indices (ti_proof incl)) = [x_tx_leaf E txid]
        \<and> x_popow_verify E (ti_proof incl) (x_h_transactions_root E (ti_header incl)))"

lemma check_inclusion_settled:
  assumes "settled_view_of f h_ref = Some view" and "check_inclusion E X incl role view = Inr (tx, txid)"
  shows "tx_settled E X f h_ref incl tx"
proof -
  obtain hf tf pf where r: "role_fields role = (hf, tf, pf)" by (metis prod.exhaust)
  from assms(2) r obtain hb hid where h: "el_serialize_header X (ti_header incl) = Some (hb, hid)"
    and ho: "height_of view hid = Some (x_h_height E (ti_header incl))" and t: "x_read_tx E (ti_tx_bytes incl) = Some (tx, [])"
    and i: "x_tx_id E tx = Some txid" and l: "length (bp_indices (ti_proof incl)) = 1"
    and lf: "snd (bp_indices (ti_proof incl) ! 0) = x_tx_leaf E txid"
    and m: "x_popow_verify E (ti_proof incl) (x_h_transactions_root E (ti_header incl))"
    by (auto simp: check_inclusion_def result_simps split: if_splits)
  have "map snd (bp_indices (ti_proof incl)) = [x_tx_leaf E txid]"
    using l lf by (cases "bp_indices (ti_proof incl)") auto
  moreover have "on_best_chain f hid (x_h_height E (ti_header incl)) \<and> x_h_height E (ti_header incl) \<le> h_ref"
    using settled_view_best_chain [OF assms(1) ho] unfolding on_best_chain_def by metis
  ultimately show ?thesis unfolding tx_settled_def using h t i m by auto
qed

lemma comparative_policy_view:
  assumes "comparative_policy E X chain n_mint f = Inr anchor"
  obtains "settled_view_of f (ca_h_ref anchor) = Some (ca_settled_view anchor)"
    "unat (ca_h_ref anchor) + unat n_mint = unat (x_h_height E (last chain))" "chain \<noteq> []"
proof -
  from assms obtain h64 where ne: "chain \<noteq> []" and h: "checked_sub (ucast (x_h_height E (last chain))) n_mint = Some h64"
    and v: "settled_view_of f (ca_h_ref anchor) = Some (ca_settled_view anchor)" and r: "ca_h_ref anchor = ucast h64"
    by (auto simp: comparative_policy_def result_simps Let_def last_conv_nth split: if_splits)
  have u: "unat (ucast (x_h_height E (last chain)) :: u64) = unat (x_h_height E (last chain))"
    by (simp add: unsigned_ucast_eq take_bit_nat_eq_self order.strict_trans2 [OF unsigned_less])
  from checked_sub_unat [OF h] u have s: "unat h64 + unat n_mint = unat (x_h_height E (last chain))" by simp
  moreover have "unat (x_h_height E (last chain)) < 2 ^ 32" by (rule order.strict_trans2 [OF unsigned_less]) simp
  ultimately have "unat (ucast h64 :: u32) = unat h64" by (simp add: unsigned_ucast_eq take_bit_nat_eq_self)
  with s r v ne show ?thesis by (intro that) simp_all
qed

lemma pegmint_backed_lemma:
  assumes "verify_pegmint_full E X pf anchor n_mint f used params = Inr eff"
  shows "\<exists>lock_tx cons_tx h_ref. tx_settled E X f h_ref (pp_lock pf) lock_tx \<and> tx_settled E X f h_ref (pp_consolidation pf) cons_tx
     \<and> unat h_ref + unat n_mint = unat (x_h_height E (last (el_chain X (pp_work pf))))
     \<and> receipt_backs E X params lock_tx (unat (pp_receipt_output_index pf)) cons_tx (unat (pp_receipt_input_index pf)) eff
     \<and> pe_box_id eff \<notin> used \<and> pe_pot_credit eff \<le> pgp_fee params (pe_note_value eff)"
proof -
  from assms obtain ca where c: "verify_ergo_chain_comparative E X (pp_work pf) anchor n_mint f = Inr ca"
    and v: "verify_pegmint E X pf ca used params = Inr eff"
    by (auto simp: verify_pegmint_full_def result_simps)
  from c have "comparative_policy E X (el_chain X (pp_work pf)) n_mint f = Inr ca"
    by (auto simp: verify_ergo_chain_comparative_def result_simps Let_def split: if_splits)
  then obtain view: "settled_view_of f (ca_h_ref ca) = Some (ca_settled_view ca)"
    and h: "unat (ca_h_ref ca) + unat n_mint = unat (x_h_height E (last (el_chain X (pp_work pf))))"
    by (rule comparative_policy_view)
  from v obtain lock_tx i1 cons_tx i2 where l: "check_inclusion E X (pp_lock pf) RoleLock (ca_settled_view ca) = Inr (lock_tx, i1)"
    and k: "check_inclusion E X (pp_consolidation pf) RoleConsolidation (ca_settled_view ca) = Inr (cons_tx, i2)"
    and r: "receipt_steps E X lock_tx (pp_receipt_output_index pf) cons_tx (pp_receipt_input_index pf) used params = Inr eff"
    by (auto simp: verify_pegmint_def result_simps)
  from check_inclusion_settled [OF view l] check_inclusion_settled [OF view k] h r [unfolded receipt_steps_ok_iff]
  show ?thesis using pot_credit_bound by metis
qed

text \<open>
  C32: An accepted peg-mint is backed: its value, receiver and replay key are those of a receipt box with the pinned script
  and the USE token, the box is an output of a transaction and is spent by another that pays into the vault, both
  transactions sit in headers of the best Ergo chain this node follows, at least the mint depth below the tip of the
  carried proof, the key has not minted before, and the pot is credited with no more than the peg fee.
\<close>
theorem pegmint_backed:
  assumes "verify_pegmint_full E X pf anchor n_mint f used params = Inr eff"
  shows "\<exists>lock_tx cons_tx h_ref. tx_settled E X f h_ref (pp_lock pf) lock_tx \<and> tx_settled E X f h_ref (pp_consolidation pf) cons_tx
     \<and> unat h_ref + unat n_mint = unat (x_h_height E (last (el_chain X (pp_work pf))))
     \<and> receipt_backs E X params lock_tx (unat (pp_receipt_output_index pf)) cons_tx (unat (pp_receipt_input_index pf)) eff
     \<and> pe_box_id eff \<notin> used \<and> pe_pot_credit eff \<le> pgp_fee params (pe_note_value eff)"
  using pegmint_backed_lemma [OF assms] .

end
