(* ===== verification/CtState.thy ===== *)
theory CtState
  imports PegMint
begin

text \<open>
  The shielded state of the curve-tree node (\<^verbatim>\<open>aegis-node/src/state.rs\<close>) over the incremental commitment tree
  (\<^verbatim>\<open>aegis-crypto/src/tree.rs\<close>), and the binding of transfers to their proofs (\<^verbatim>\<open>aegis-node/src/proof.rs\<close>).

  The curve arithmetic, the Bulletproof systems and the static tree are the record \<open>curve\<close>; \<open>tree_append_ok\<close> is the
  documented contract of the incremental append. A panic is \<open>CsPanic\<close>. The sets of nullifiers and of receipt ids are
  Isabelle sets.
\<close>

record ('p, 'tr, 'pr, 'm) curve =
  cv_cm_from_bytes :: "bytes \<Rightarrow> 'p option"
  cv_cm_bytes :: "'p \<Rightarrow> bytes"
  cv_is_zero :: "'p \<Rightarrow> bool"
  cv_from_set :: "'p list \<Rightarrow> 'tr"
  cv_append :: "'tr \<Rightarrow> 'p \<Rightarrow> 'tr"
  cv_root_point :: "'tr \<Rightarrow> 'p"
  cv_parse_proof :: "bytes \<Rightarrow> 'pr option"
  cv_output_cms :: "'pr \<Rightarrow> 'p list"
  cv_proof_nullifiers :: "'pr \<Rightarrow> bytes list"
  cv_verify_transfer :: "'tr \<Rightarrow> 'pr \<Rightarrow> u64 \<Rightarrow> bool"
  cv_pegmint_note :: "bytes \<Rightarrow> u64 \<Rightarrow> bytes \<Rightarrow> 'p option"
  cv_verify_mint :: "u64 \<Rightarrow> 'm \<Rightarrow> bool"
  cv_mint_cm :: "'m \<Rightarrow> 'p"

section \<open>The commitment tree\<close>

definition tree_l :: nat where "tree_l = 256"
definition tree_depth :: nat where "tree_depth = 4"

definition build_tree :: "('p, 'tr, 'pr, 'm) curve \<Rightarrow> 'p list \<Rightarrow> 'tr option" where
  "build_tree C leaves =
     (if leaves = [] then None else if tree_l ^ tree_depth < length leaves then None else Some (cv_from_set C leaves))"

record 'tr cm_tree =
  ic_tree :: "'tr option"
  ic_len :: nat

definition ic_new :: "'tr cm_tree" where
  "ic_new = \<lparr> ic_tree = None, ic_len = 0 \<rparr>"

definition ic_from_leaves :: "('p, 'tr, 'pr, 'm) curve \<Rightarrow> 'p list \<Rightarrow> 'tr cm_tree option" where
  "ic_from_leaves C leaves =
     (if leaves = [] then Some ic_new
      else map_option (\<lambda>t. \<lparr> ic_tree = Some t, ic_len = length leaves \<rparr>) (build_tree C leaves))"

definition ic_push :: "('p, 'tr, 'pr, 'm) curve \<Rightarrow> 'tr cm_tree \<Rightarrow> 'p \<Rightarrow> 'tr cm_tree option" where
  "ic_push C t leaf =
     (if \<not> ic_len t < tree_l ^ tree_depth then None
      else (case ic_tree t of
          None \<Rightarrow> map_option (\<lambda>tr. \<lparr> ic_tree = Some tr, ic_len = ic_len t + 1 \<rparr>) (build_tree C [leaf])
        | Some tr \<Rightarrow> Some \<lparr> ic_tree = Some (cv_append C tr leaf), ic_len = ic_len t + 1 \<rparr>))"

definition ic_root :: "('p, 'tr, 'pr, 'm) curve \<Rightarrow> 'tr cm_tree \<Rightarrow> 'p option" where
  "ic_root C t = map_option (cv_root_point C) (ic_tree t)"

definition tree_append_ok :: "('p, 'tr, 'pr, 'm) curve \<Rightarrow> bool" where
  "tree_append_ok C \<longleftrightarrow> (\<forall>ls p. ls \<noteq> [] \<longrightarrow> cv_append C (cv_from_set C ls) p = cv_from_set C (ls @ [p]))"

section \<open>Transfer proofs\<close>

datatype ct_proof_error = CpMalformed | CpOutputMismatch nat | CpNullifierMismatch | CpInvalid

text \<open>Output \<open>i\<close> of the wire transfer against output \<open>i\<close> of the proof; a proof has two outputs.\<close>

definition check_output :: "('p, 'tr, 'pr, 'm) curve \<Rightarrow> 'pr \<Rightarrow> unit \<Rightarrow> nat \<times> shielded_output \<Rightarrow> ct_proof_error + unit" where
  "check_output C pf u io =
     (if cv_cm_bytes C (cv_output_cms C pf ! fst io) \<noteq> so_note_cm (snd io) then Inl (CpOutputMismatch (fst io)) else Inr ())"

definition verify_shielded_transfer ::
  "('p, 'tr, 'pr, 'm) curve \<Rightarrow> 'tr \<Rightarrow> shielded_transfer \<Rightarrow> u64 \<Rightarrow> ct_proof_error + unit" where
  "verify_shielded_transfer C anchor tx fee =
     bind_r (ok_or (cv_parse_proof C (sx_proof tx)) CpMalformed) (\<lambda>pf.
     bind_r (fold_r (check_output C pf) () (enumerate 0 (sx_outputs tx))) (\<lambda>_.
       if cv_proof_nullifiers C pf \<noteq> sx_nullifiers tx then Inl CpNullifierMismatch
       else if \<not> cv_verify_transfer C anchor pf fee then Inl CpInvalid else Inr ()))"

section \<open>State\<close>

text \<open>The ASCII codes of the pinned sentinels and of the domain tag of the header's tree root.\<close>

definition empty_tree_root :: bytes where
  "empty_tree_root = [0x61, 0x65, 0x67, 0x69, 0x73, 0x2f, 0x65, 0x6d, 0x70, 0x74, 0x79, 0x2d, 0x63, 0x75, 0x72, 0x76, 0x65, 0x2d,
     0x74, 0x72, 0x65, 0x65, 0x2d, 0x72, 0x6f, 0x6f, 0x74, 0x2f, 0x76, 0x31, 0x2e, 0x2e]"

definition empty_nullifier_digest :: bytes where
  "empty_nullifier_digest = [0x61, 0x65, 0x67, 0x69, 0x73, 0x2f, 0x65, 0x6d, 0x70, 0x74, 0x79, 0x2d, 0x6e, 0x75, 0x6c, 0x6c, 0x69,
     0x66, 0x69, 0x65, 0x72, 0x2d, 0x73, 0x65, 0x74, 0x2f, 0x76, 0x31, 0x2e, 0x2e, 0x2e, 0x2e]"

definition cm_root_domain :: bytes where
  "cm_root_domain = [0x61, 0x65, 0x67, 0x69, 0x73, 0x3a, 0x63, 0x6d, 0x2d, 0x72, 0x6f, 0x6f, 0x74, 0x3a, 0x76, 0x31]"

definition state_retention_blocks :: nat where "state_retention_blocks = 240"

datatype 'p reward_mode = RmDevStub | RmReal 'p

record peg_validation =
  pv_anchor :: comparative_anchor
  pv_params :: peg_params

datatype ct_state_error =
  CsDoubleSpend bytes | CsInvalidNoteCommitment nat | CsPegDisabled | CsPegMint nat pegmint_error | CsPegBadDest nat | CsPanic

record ct_undo =
  cu_added_nullifiers :: "bytes list"
  cu_added_box_ids :: "bytes list"
  cu_prev_pot :: u64
  cu_prev_digest :: bytes
  cu_prev_leaf_count :: nat
  cu_prev_cm_root :: bytes

record ('p, 'tr) ct_state =
  cs_nullifiers :: "bytes set"
  cs_peg_used :: "bytes set"
  cs_pot :: u64
  cs_digest :: bytes
  cs_leaves :: "'p list"
  cs_tree :: "'tr cm_tree"
  cs_cm_root :: bytes

definition cs_new :: "('p, 'tr) ct_state" where
  "cs_new = \<lparr> cs_nullifiers = {}, cs_peg_used = {}, cs_pot = 0, cs_digest = empty_nullifier_digest, cs_leaves = [], cs_tree = ic_new,
     cs_cm_root = empty_tree_root \<rparr>"

text \<open>Equality of states leaves the tree out, which the leaves determine.\<close>

definition cs_eq :: "('p, 'tr) ct_state \<Rightarrow> ('p, 'tr) ct_state \<Rightarrow> bool" where
  "cs_eq s t \<longleftrightarrow> cs_nullifiers s = cs_nullifiers t \<and> cs_peg_used s = cs_peg_used t \<and> cs_pot s = cs_pot t
     \<and> cs_digest s = cs_digest t \<and> cs_leaves s = cs_leaves t \<and> cs_cm_root s = cs_cm_root t"

definition cm_root_of :: "('h, 't) ext \<Rightarrow> ('p, 'tr, 'pr, 'm) curve \<Rightarrow> 'tr cm_tree \<Rightarrow> bytes" where
  "cm_root_of E C t =
     (case ic_root C t of None \<Rightarrow> empty_tree_root | Some root \<Rightarrow> x_blake2b256 E (cm_root_domain @ cv_cm_bytes C root))"

definition expected_coinbase_value :: "u64 \<Rightarrow> u64 \<Rightarrow> net_params \<Rightarrow> u64" where
  "expected_coinbase_value pot n_txs params =
     coinbase_reward params (saturating_add pot (saturating_mul (np_sc_tx_fee params) n_txs)) n_txs"

section \<open>Applying a block\<close>

definition decode_outputs :: "('p, 'tr, 'pr, 'm) curve \<Rightarrow> shielded_transfer list \<Rightarrow> ct_state_error + 'p list" where
  "decode_outputs C transfers =
     fold_r (\<lambda>acc (i, tx). fold_r (\<lambda>acc out. bind_r (ok_or (cv_cm_from_bytes C (so_note_cm out)) (CsInvalidNoteCommitment i))
         (\<lambda>p. Inr (acc @ [p]))) acc (sx_outputs tx)) [] (enumerate 0 transfers)"

definition nullifier_step :: "('p, 'tr) ct_state \<Rightarrow> bytes list \<Rightarrow> bytes \<Rightarrow> ct_state_error + bytes list" where
  "nullifier_step st seen nf = (if nf \<in> cs_nullifiers st \<or> nf \<in> set seen then Inl (CsDoubleSpend nf) else Inr (seen @ [nf]))"

definition block_nullifiers :: "('p, 'tr) ct_state \<Rightarrow> shielded_transfer list \<Rightarrow> ct_state_error + bytes list" where
  "block_nullifiers st transfers = fold_r (nullifier_step st) [] (concat (map sx_nullifiers transfers))"

record 'p peg_acc =
  pa_working :: "bytes set"
  pa_leaves :: "'p list"
  pa_box_ids :: "bytes list"
  pa_credit :: u128

definition peg_step ::
  "('h, 't) ext \<Rightarrow> ('h, 't, 'w) ergo_lib \<Rightarrow> ('p, 'tr, 'pr, 'm) curve \<Rightarrow> peg_validation \<Rightarrow> 'p peg_acc \<Rightarrow> nat \<times> ('h, 'w) pegmint_proof \<Rightarrow>
     ct_state_error + 'p peg_acc" where
  "peg_step E X C peg acc ipf =
     (let (i, pf) = ipf in
      bind_r (map_err (CsPegMint i) (verify_pegmint E X pf (pv_anchor peg) (pa_working acc) (pv_params peg))) (\<lambda>eff.
      bind_r (ok_or (cv_pegmint_note C (pe_sc_dest eff) (pe_note_value eff) (pe_box_id eff)) (CsPegBadDest i)) (\<lambda>leaf.
        Inr \<lparr> pa_working = insert (pe_box_id eff) (pa_working acc), pa_leaves = pa_leaves acc @ [leaf],
          pa_box_ids = pa_box_ids acc @ [pe_box_id eff],
          pa_credit = saturating_add (pa_credit acc) (ucast (pe_pot_credit eff)) \<rparr>)))"

definition verify_peg_mints ::
  "('h, 't) ext \<Rightarrow> ('h, 't, 'w) ergo_lib \<Rightarrow> ('p, 'tr, 'pr, 'm) curve \<Rightarrow> bytes set \<Rightarrow> peg_validation option \<Rightarrow> ('h, 'w) pegmint_proof list \<Rightarrow>
     ct_state_error + 'p peg_acc" where
  "verify_peg_mints E X C used peg pms =
     (let start = \<lparr> pa_working = used, pa_leaves = [], pa_box_ids = [], pa_credit = 0 \<rparr> in
      if pms = [] then Inr start
      else bind_r (ok_or peg CsPegDisabled) (\<lambda>pv. fold_r (peg_step E X C pv) start (enumerate 0 pms)))"

definition push_leaves :: "('p, 'tr, 'pr, 'm) curve \<Rightarrow> 'tr cm_tree \<Rightarrow> 'p list \<Rightarrow> ct_state_error + 'tr cm_tree" where
  "push_leaves C t leaves = fold_r (\<lambda>t leaf. ok_or (ic_push C t leaf) CsPanic) t leaves"

definition next_digest :: "('h, 't) ext \<Rightarrow> bytes \<Rightarrow> bytes list \<Rightarrow> bytes list \<Rightarrow> bytes" where
  "next_digest E digest nfs box_ids =
     (if nfs = [] \<and> box_ids = [] then digest else x_blake2b256 E (digest @ concat nfs @ concat box_ids))"

definition ct_apply_block ::
  "('h, 't) ext \<Rightarrow> ('h, 't, 'w) ergo_lib \<Rightarrow> ('p, 'tr, 'pr, 'm) curve \<Rightarrow> ('p, 'tr) ct_state \<Rightarrow> shielded_transfer list \<Rightarrow>
     ('h, 'w) pegmint_proof list \<Rightarrow> net_params \<Rightarrow> 'p reward_mode \<Rightarrow> peg_validation option \<Rightarrow>
     ct_state_error + ('p, 'tr) ct_state \<times> ct_undo" where
  "ct_apply_block E X C st transfers peg_mints params reward peg =
     bind_r (decode_outputs C transfers) (\<lambda>outs.
     bind_r (block_nullifiers st transfers) (\<lambda>nfs.
     bind_r (verify_peg_mints E X C (cs_peg_used st) peg peg_mints) (\<lambda>acc.
     let undo = \<lparr> cu_added_nullifiers = nfs, cu_added_box_ids = pa_box_ids acc, cu_prev_pot = cs_pot st, cu_prev_digest = cs_digest st,
           cu_prev_leaf_count = length (cs_leaves st), cu_prev_cm_root = cs_cm_root st \<rparr>;
         n_txs = of_nat (length transfers);
         pot_after_fees = saturating_add (cs_pot st) (saturating_mul (np_sc_tx_fee params) n_txs);
         coinbase = (case reward of RmDevStub \<Rightarrow> 0 | RmReal _ \<Rightarrow> expected_coinbase_value (cs_pot st) n_txs params);
         new_leaves = outs @ pa_leaves acc @ (case reward of RmDevStub \<Rightarrow> [] | RmReal cm \<Rightarrow> [cm]);
         credit = (if unat (pa_credit acc) < 2 ^ 64 then ucast (pa_credit acc) else - 1)
     in bind_r (push_leaves C (cs_tree st) new_leaves) (\<lambda>tree.
        Inr (\<lparr> cs_nullifiers = cs_nullifiers st \<union> set nfs, cs_peg_used = cs_peg_used st \<union> set (pa_box_ids acc),
               cs_pot = saturating_add (pot_after_fees - coinbase) credit,
               cs_digest = next_digest E (cs_digest st) nfs (pa_box_ids acc),
               cs_leaves = cs_leaves st @ new_leaves, cs_tree = tree,
               cs_cm_root = (if new_leaves = [] then cs_cm_root st else cm_root_of E C tree) \<rparr>, undo)))))"

definition ct_rollback :: "('p, 'tr, 'pr, 'm) curve \<Rightarrow> ('p, 'tr) ct_state \<Rightarrow> ct_undo \<Rightarrow> ct_state_error + ('p, 'tr) ct_state" where
  "ct_rollback C st undo =
     (let leaves = take (cu_prev_leaf_count undo) (cs_leaves st) in
      bind_r (ok_or (ic_from_leaves C leaves) CsPanic) (\<lambda>tree.
        Inr \<lparr> cs_nullifiers = cs_nullifiers st - set (cu_added_nullifiers undo),
              cs_peg_used = cs_peg_used st - set (cu_added_box_ids undo), cs_pot = cu_prev_pot undo,
              cs_digest = cu_prev_digest undo, cs_leaves = leaves, cs_tree = tree, cs_cm_root = cu_prev_cm_root undo \<rparr>))"

section \<open>Lockstep of the tree with its leaves\<close>

definition cs_wf :: "('h, 't) ext \<Rightarrow> ('p, 'tr, 'pr, 'm) curve \<Rightarrow> ('p, 'tr) ct_state \<Rightarrow> bool" where
  "cs_wf E C st \<longleftrightarrow> ic_from_leaves C (cs_leaves st) = Some (cs_tree st) \<and> cs_cm_root st = cm_root_of E C (cs_tree st)"

lemma cs_wf_new: "cs_wf E C cs_new"
  by (simp add: cs_wf_def cs_new_def ic_from_leaves_def cm_root_of_def ic_new_def ic_root_def)

lemma ic_push_from_leaves:
  assumes "tree_append_ok C" and "ic_from_leaves C ls = Some t" and "ic_push C t p = Some t'"
  shows "ic_from_leaves C (ls @ [p]) = Some t'"
  using assms by (auto simp: ic_from_leaves_def ic_push_def ic_new_def build_tree_def tree_append_ok_def split: if_splits option.splits)

lemma push_leaves_from_leaves:
  "tree_append_ok C \<Longrightarrow> ic_from_leaves C ls = Some t \<Longrightarrow> push_leaves C t ps = Inr t' \<Longrightarrow> ic_from_leaves C (ls @ ps) = Some t'"
proof (induction ps arbitrary: ls t)
  case (Cons p ps)
  from Cons.prems(3) obtain t1 where t1: "ic_push C t p = Some t1" "push_leaves C t1 ps = Inr t'"
    by (auto simp: push_leaves_def result_simps)
  from Cons.IH [OF Cons.prems(1) ic_push_from_leaves [OF Cons.prems(1,2) t1(1)] t1(2)] show ?case by simp
qed (simp add: push_leaves_def)

lemma block_nullifiers_fresh:
  "block_nullifiers st transfers = Inr nfs \<Longrightarrow>
     nfs = concat (map sx_nullifiers transfers) \<and> distinct nfs \<and> set nfs \<inter> cs_nullifiers st = {}"
  unfolding block_nullifiers_def
  by (erule fold_r_prefix_invariant [where I = "\<lambda>xs nfs. nfs = xs \<and> distinct nfs \<and> set nfs \<inter> cs_nullifiers st = {}"])
    (auto simp: nullifier_step_def split: if_splits)

lemma verify_pegmint_fresh: "verify_pegmint E X pf anchor used params = Inr eff \<Longrightarrow> pe_box_id eff \<notin> used"
  by (auto simp: verify_pegmint_def result_simps receipt_steps_ok_iff)

lemma peg_step_ok:
  assumes "peg_step E X C pv acc ipf = Inr acc'"
  obtains b leaf where "b \<notin> pa_working acc" and "pa_working acc' = insert b (pa_working acc)" and "pa_box_ids acc' = pa_box_ids acc @ [b]"
    and "pa_leaves acc' = pa_leaves acc @ [leaf]"
  using assms by (cases ipf) (auto simp: peg_step_def result_simps dest: verify_pegmint_fresh)

lemma verify_peg_mints_fresh:
  fixes pms :: "('b, 'd) pegmint_proof list" and acc :: "'f peg_acc"
  assumes "verify_peg_mints E X C used peg pms = Inr acc"
  shows "distinct (pa_box_ids acc) \<and> set (pa_box_ids acc) \<inter> used = {} \<and> pa_working acc = used \<union> set (pa_box_ids acc)
     \<and> length (pa_box_ids acc) = length pms \<and> length (pa_leaves acc) = length pms"
proof (cases "pms = []")
  case False
  then obtain pv where pv: "fold_r (peg_step E X C pv) \<lparr> pa_working = used, pa_leaves = [], pa_box_ids = [], pa_credit = 0 \<rparr>
      (enumerate 0 pms) = Inr acc"
    using assms by (auto simp: verify_peg_mints_def result_simps)
  define I where "I xs acc \<longleftrightarrow> distinct (pa_box_ids acc) \<and> set (pa_box_ids acc) \<inter> used = {} \<and> pa_working acc = used \<union> set (pa_box_ids acc)
      \<and> length (pa_box_ids acc) = length xs \<and> length (pa_leaves acc) = length xs" for xs :: "(nat \<times> ('b, 'd) pegmint_proof) list" and acc :: "'f peg_acc"
  have "I (enumerate 0 pms) acc"
  proof (rule fold_r_prefix_invariant [OF pv])
    fix ys x a a' assume I: "I ys a" and "peg_step E X C pv a x = Inr a'"
    from this(2) obtain b leaf where "b \<notin> pa_working a" "pa_working a' = insert b (pa_working a)" "pa_box_ids a' = pa_box_ids a @ [b]"
      "pa_leaves a' = pa_leaves a @ [leaf]" by (rule peg_step_ok)
    with I show "I (ys @ [x]) a'" unfolding I_def by auto
  qed (simp add: I_def)
  then show ?thesis by (simp add: I_def)
qed (use assms in \<open>auto simp: verify_peg_mints_def\<close>)

lemma ct_apply_parts:
  assumes "ct_apply_block E X C st transfers peg_mints params reward peg = Inr (st', undo)"
  obtains outs nfs acc new_leaves where "decode_outputs C transfers = Inr outs" and "block_nullifiers st transfers = Inr nfs"
    and "verify_peg_mints E X C (cs_peg_used st) peg peg_mints = Inr acc"
    and "new_leaves = outs @ pa_leaves acc @ (case reward of RmDevStub \<Rightarrow> [] | RmReal cm \<Rightarrow> [cm])"
    and "push_leaves C (cs_tree st) new_leaves = Inr (cs_tree st')" and "cs_leaves st' = cs_leaves st @ new_leaves"
    and "cs_nullifiers st' = cs_nullifiers st \<union> set nfs" and "cs_peg_used st' = cs_peg_used st \<union> set (pa_box_ids acc)"
    and "cs_cm_root st' = (if new_leaves = [] then cs_cm_root st else cm_root_of E C (cs_tree st'))"
    and "cs_digest st' = next_digest E (cs_digest st) nfs (pa_box_ids acc)"
    and "undo = \<lparr> cu_added_nullifiers = nfs, cu_added_box_ids = pa_box_ids acc, cu_prev_pot = cs_pot st, cu_prev_digest = cs_digest st,
           cu_prev_leaf_count = length (cs_leaves st), cu_prev_cm_root = cs_cm_root st \<rparr>"
  using assms by (fastforce simp: ct_apply_block_def result_simps Let_def)

lemma ct_apply_wf:
  assumes C: "tree_append_ok C" and wf: "cs_wf E C st"
    and step: "ct_apply_block E X C st transfers peg_mints params reward peg = Inr (st', undo)"
  shows "cs_wf E C st'"
proof -
  from step obtain new_leaves where p: "push_leaves C (cs_tree st) new_leaves = Inr (cs_tree st')"
    and l: "cs_leaves st' = cs_leaves st @ new_leaves"
    and r: "cs_cm_root st' = (if new_leaves = [] then cs_cm_root st else cm_root_of E C (cs_tree st'))"
    by (rule ct_apply_parts)
  have "ic_from_leaves C (cs_leaves st @ new_leaves) = Some (cs_tree st')"
    using push_leaves_from_leaves [OF C _ p] wf by (simp add: cs_wf_def)
  moreover have "new_leaves = [] \<Longrightarrow> cs_tree st' = cs_tree st" using p by (simp add: push_leaves_def)
  ultimately show ?thesis using l r wf by (auto simp: cs_wf_def)
qed

lemma ct_rollback_restores:
  assumes wf: "cs_wf E C st" and step: "ct_apply_block E X C st transfers peg_mints params reward peg = Inr (st', undo)"
  shows "ct_rollback C st' undo = Inr st"
proof -
  from step obtain nfs acc new_leaves where n: "block_nullifiers st transfers = Inr nfs"
    and a: "verify_peg_mints E X C (cs_peg_used st) peg peg_mints = Inr acc" and l: "cs_leaves st' = cs_leaves st @ new_leaves"
    and nf: "cs_nullifiers st' = cs_nullifiers st \<union> set nfs" and pu: "cs_peg_used st' = cs_peg_used st \<union> set (pa_box_ids acc)"
    and u: "undo = \<lparr> cu_added_nullifiers = nfs, cu_added_box_ids = pa_box_ids acc, cu_prev_pot = cs_pot st, cu_prev_digest = cs_digest st,
           cu_prev_leaf_count = length (cs_leaves st), cu_prev_cm_root = cs_cm_root st \<rparr>"
    by (rule ct_apply_parts)
  have "cs_nullifiers st' - set nfs = cs_nullifiers st" using block_nullifiers_fresh [OF n] nf by blast
  moreover have "cs_peg_used st' - set (pa_box_ids acc) = cs_peg_used st" using verify_peg_mints_fresh [OF a] pu by blast
  ultimately show ?thesis
    using wf by (simp add: ct_rollback_def u l cs_wf_def)
qed

end
