(* ===== verification/CtChain.thy ===== *)
theory CtChain
  imports CtState
begin

text \<open>
  The linear chain of the curve-tree node (\<^verbatim>\<open>aegis-node/src/chain.rs\<close>) on its genesis block
  (\<^verbatim>\<open>aegis-node/src/genesis.rs\<close>): extension with every check in the order of the code, rollback through the undo
  ring, and block production.

  \<open>try_extend\<close> returns the chain in both cases, since a block whose header does not commit to the post-state is
  applied and then rolled back. The external functions are the record \<open>ct_env\<close>. Header times and heights are 64-bit
  and wrap.
\<close>

record ('h, 't, 'w, 'p, 'tr, 'pr, 'm) ct_env =
  ce_ext :: "('h, 't) ext"
  ce_ergo :: "('h, 't, 'w) ergo_lib"
  ce_curve :: "('p, 'tr, 'pr, 'm) curve"
  ce_wire :: "'m wire"
  ce_vlq :: vlq

section \<open>Genesis\<close>

definition empty_reward_claim :: bytes where "empty_reward_claim = replicate 33 0"
definition min_difficulty :: nat where "min_difficulty = 1000"

definition genesis_timestamp_ms :: "network \<Rightarrow> u64" where
  "genesis_timestamp_ms net = (case net of NetDev \<Rightarrow> 1760000000000 | NetTest \<Rightarrow> 1760000000001 | NetMain \<Rightarrow> 1760000000002)"

definition ct_genesis_header :: "('h, 't) ext \<Rightarrow> network \<Rightarrow> ct_header" where
  "ct_genesis_header E net =
     \<lparr> th_version = 1, th_prev_id = replicate 32 0, th_height = 0, th_timestamp_ms = genesis_timestamp_ms net,
       th_tx_root = empty_tx_root, th_cm_tree_root = empty_tree_root, th_nullifier_digest = empty_nullifier_digest,
       th_pot_balance = 0, th_sc_nbits = x_encode_bits E min_difficulty, th_reward_claim = empty_reward_claim \<rparr>"

definition daa_for_network :: "('h, 't) ext \<Rightarrow> network \<Rightarrow> daa_params" where
  "daa_for_network E net =
     \<lparr> daa_target_secs = np_block_target_secs (net_params_of net), daa_window = 90,
       daa_min_nbits = th_sc_nbits (ct_genesis_header E net) \<rparr>"

definition ct_genesis :: "('h, 't) ext \<Rightarrow> network \<Rightarrow> 'm ct_block" where
  "ct_genesis E net = \<lparr> tb_header = ct_genesis_header E net, tb_body = empty_body, tb_coinbase = None \<rparr>"

section \<open>State\<close>

definition max_future_drift_ms :: u64 where "max_future_drift_ms = 60000"
definition mtp_window :: nat where "mtp_window = 11"

datatype pow_mode = PowDevStub
datatype proof_mode = PfDevStub | PfReal

datatype extend_error =
    ExUnsupportedVersion u8 | ExPrevIdMismatch bytes bytes | ExHeightMismatch u64 u64 | ExTimestampNotAfterMtp u64 u64
  | ExTimestampTooFarInFuture u64 u64 | ExWrongDifficulty u32 u32 | ExTxRootMismatch bytes bytes
  | ExNullifierDigestMismatch bytes bytes | ExPotMismatch u64 u64 | ExCmTreeRootMismatch bytes bytes | ExNoAnchor
  | ExProof nat ct_proof_error | ExCoinbaseMint | ExZeroCoinbase | ExRewardClaimMismatch | ExPegMintDecode nat
  | ExState ct_state_error | ExPanic

record ('p, 'tr, 'm) ct_chain =
  cc_network :: network
  cc_pow_mode :: pow_mode
  cc_proof_mode :: proof_mode
  cc_daa :: daa_params
  cc_blocks :: "'m ct_block list"
  cc_state :: "('p, 'tr) ct_state"
  cc_undo_ring :: "ct_undo list"
  cc_peg :: "peg_validation option"

definition ct_chain_new :: "('h, 't) ext \<Rightarrow> network \<Rightarrow> pow_mode \<Rightarrow> proof_mode \<Rightarrow> ('p, 'tr, 'm) ct_chain" where
  "ct_chain_new E net pow_mode proof_mode =
     \<lparr> cc_network = net, cc_pow_mode = pow_mode, cc_proof_mode = proof_mode, cc_daa = daa_for_network E net,
       cc_blocks = [ct_genesis E net], cc_state = cs_new, cc_undo_ring = [], cc_peg = None \<rparr>"

definition set_peg_config :: "('p, 'tr, 'm) ct_chain \<Rightarrow> peg_validation \<Rightarrow> ('p, 'tr, 'm) ct_chain" where
  "set_peg_config ch config = ch \<lparr> cc_peg := Some config \<rparr>"

definition cc_tip :: "('p, 'tr, 'm) ct_chain \<Rightarrow> ct_header" where
  "cc_tip ch = tb_header (last (cc_blocks ch))"

definition cc_header_at :: "('p, 'tr, 'm) ct_chain \<Rightarrow> u64 \<Rightarrow> ct_header option" where
  "cc_header_at ch h = (if unat h < length (cc_blocks ch) then Some (tb_header (cc_blocks ch ! unat h)) else None)"

definition median_time_past :: "('p, 'tr, 'm) ct_chain \<Rightarrow> u64" where
  "median_time_past ch =
     (let n = min (length (cc_blocks ch)) mtp_window;
          recent = sort (map (\<lambda>b. th_timestamp_ms (tb_header b)) (drop (length (cc_blocks ch) - n) (cc_blocks ch)))
      in recent ! (length recent div 2))"

definition ct_expected_nbits :: "('h, 't) ext \<Rightarrow> ('p, 'tr, 'm) ct_chain \<Rightarrow> u32 option" where
  "ct_expected_nbits E ch =
     next_nbits E (cc_daa ch) (map (\<lambda>b. (th_timestamp_ms (tb_header b), th_sc_nbits (tb_header b))) (cc_blocks ch))"

section \<open>Extension\<close>

definition check_ct_header ::
  "('h, 't, 'w, 'p, 'tr, 'pr, 'm) ct_env \<Rightarrow> ('p, 'tr, 'm) ct_chain \<Rightarrow> 'm ct_block \<Rightarrow> u64 \<Rightarrow> extend_error + unit" where
  "check_ct_header V ch block now_ms =
     (let header = tb_header block; tip_id = ct_header_id (ce_ext V) (ce_wire V) (cc_tip ch);
          want_height = th_height (cc_tip ch) + 1; mtp = median_time_past ch;
          want_tx_root = tx_root (ce_ext V) (ce_wire V) (tb_body block) in
      if th_version header \<noteq> 1 then Inl (ExUnsupportedVersion (th_version header))
      else if th_prev_id header \<noteq> tip_id then Inl (ExPrevIdMismatch (th_prev_id header) tip_id)
      else if th_height header \<noteq> want_height then Inl (ExHeightMismatch (th_height header) want_height)
      else if th_timestamp_ms header \<le> mtp then Inl (ExTimestampNotAfterMtp (th_timestamp_ms header) mtp)
      else if now_ms + max_future_drift_ms < th_timestamp_ms header
        then Inl (ExTimestampTooFarInFuture (th_timestamp_ms header) now_ms)
      else bind_r (ok_or (ct_expected_nbits (ce_ext V) ch) ExPanic) (\<lambda>want_nbits.
        if th_sc_nbits header \<noteq> want_nbits then Inl (ExWrongDifficulty (th_sc_nbits header) want_nbits)
        else if th_tx_root header \<noteq> want_tx_root then Inl (ExTxRootMismatch (th_tx_root header) want_tx_root)
        else Inr ()))"

definition check_transfer_proofs ::
  "('h, 't, 'w, 'p, 'tr, 'pr, 'm) ct_env \<Rightarrow> ('p, 'tr, 'm) ct_chain \<Rightarrow> 'm ct_block \<Rightarrow> extend_error + unit" where
  "check_transfer_proofs V ch block =
     (if cc_proof_mode ch = PfReal \<and> bb_transfers (tb_body block) \<noteq> [] then
        bind_r (ok_or (ic_tree (cs_tree (cc_state ch))) ExNoAnchor) (\<lambda>anchor.
          fold_r (\<lambda>u (i, tx). map_err (ExProof i)
              (verify_shielded_transfer (ce_curve V) anchor tx (np_sc_tx_fee (net_params_of (cc_network ch)))))
            () (enumerate 0 (bb_transfers (tb_body block))))
      else Inr ())"

definition check_ct_coinbase ::
  "('h, 't, 'w, 'p, 'tr, 'pr, 'm) ct_env \<Rightarrow> ('p, 'tr, 'm) ct_chain \<Rightarrow> 'm ct_block \<Rightarrow> extend_error + 'p reward_mode" where
  "check_ct_coinbase V ch block =
     (case tb_coinbase block of
        None \<Rightarrow> if th_reward_claim (tb_header block) \<noteq> empty_reward_claim then Inl ExRewardClaimMismatch else Inr RmDevStub
      | Some pf \<Rightarrow>
          let v = expected_coinbase_value (cs_pot (cc_state ch)) (of_nat (length (bb_transfers (tb_body block))))
                (net_params_of (cc_network ch));
              cm = cv_mint_cm (ce_curve V) pf in
          if \<not> cv_verify_mint (ce_curve V) v pf then Inl ExCoinbaseMint
          else if cv_is_zero (ce_curve V) cm then Inl ExZeroCoinbase
          else if th_reward_claim (tb_header block) \<noteq> cv_cm_bytes (ce_curve V) cm then Inl ExRewardClaimMismatch
          else Inr (RmReal cm))"

definition decode_peg_mints ::
  "('h, 't, 'w, 'p, 'tr, 'pr, 'm) ct_env \<Rightarrow> 'm ct_block \<Rightarrow> extend_error + ('h, 'w) pegmint_proof list" where
  "decode_peg_mints V block =
     fold_r (\<lambda>acc (i, bs). bind_r (map_err (\<lambda>_. ExPegMintDecode i) (read_pegmint_proof (ce_ext V) (ce_ergo V) (ce_vlq V) bs))
         (\<lambda>pf. Inr (acc @ [pf]))) [] (enumerate 0 (bb_peg_mints (tb_body block)))"

definition apply_of ::
  "('h, 't, 'w, 'p, 'tr, 'pr, 'm) ct_env \<Rightarrow> ('p, 'tr, 'm) ct_chain \<Rightarrow> shielded_transfer list \<Rightarrow> ('h, 'w) pegmint_proof list \<Rightarrow>
     'p reward_mode \<Rightarrow> extend_error + ('p, 'tr) ct_state \<times> ct_undo" where
  "apply_of V ch transfers pms reward =
     map_err ExState (ct_apply_block (ce_ext V) (ce_ergo V) (ce_curve V) (cc_state ch) transfers pms
       (net_params_of (cc_network ch)) reward (cc_peg ch))"

definition post_state_error :: "ct_header \<Rightarrow> ('p, 'tr) ct_state \<Rightarrow> extend_error option" where
  "post_state_error header st =
     (if th_nullifier_digest header \<noteq> cs_digest st then Some (ExNullifierDigestMismatch (th_nullifier_digest header) (cs_digest st))
      else if th_pot_balance header \<noteq> cs_pot st then Some (ExPotMismatch (th_pot_balance header) (cs_pot st))
      else if th_cm_tree_root header \<noteq> cs_cm_root st then Some (ExCmTreeRootMismatch (th_cm_tree_root header) (cs_cm_root st))
      else None)"

definition push_undo :: "ct_undo list \<Rightarrow> ct_undo \<Rightarrow> ct_undo list" where
  "push_undo ring undo =
     (let ring' = ring @ [undo] in if state_retention_blocks < length ring' then tl ring' else ring')"

definition try_extend ::
  "('h, 't, 'w, 'p, 'tr, 'pr, 'm) ct_env \<Rightarrow> ('p, 'tr, 'm) ct_chain \<Rightarrow> 'm ct_block \<Rightarrow> u64 \<Rightarrow>
     ('p, 'tr, 'm) ct_chain \<times> (extend_error + unit)" where
  "try_extend V ch block now_ms =
     (case bind_r (check_ct_header V ch block now_ms) (\<lambda>_. bind_r (check_transfer_proofs V ch block) (\<lambda>_.
         bind_r (check_ct_coinbase V ch block) (\<lambda>reward. bind_r (decode_peg_mints V block) (\<lambda>pms.
           apply_of V ch (bb_transfers (tb_body block)) pms reward)))) of
        Inl e \<Rightarrow> (ch, Inl e)
      | Inr (st, undo) \<Rightarrow>
          (case post_state_error (tb_header block) st of
             Some e \<Rightarrow> (case ct_rollback (ce_curve V) st undo of
                 Inl _ \<Rightarrow> (ch \<lparr> cc_state := st \<rparr>, Inl ExPanic)
               | Inr st' \<Rightarrow> (ch \<lparr> cc_state := st' \<rparr>, Inl e))
           | None \<Rightarrow> (ch \<lparr> cc_blocks := cc_blocks ch @ [block], cc_state := st,
                 cc_undo_ring := push_undo (cc_undo_ring ch) undo \<rparr>, Inr ())))"

text \<open>The flag is false at genesis or past the retention depth; \<open>None\<close> is a panic.\<close>

definition rollback_tip :: "('h, 't, 'w, 'p, 'tr, 'pr, 'm) ct_env \<Rightarrow> ('p, 'tr, 'm) ct_chain \<Rightarrow> (('p, 'tr, 'm) ct_chain \<times> bool) option" where
  "rollback_tip V ch =
     (if length (cc_blocks ch) \<le> 1 then Some (ch, False)
      else if cc_undo_ring ch = [] then Some (ch, False)
      else (case ct_rollback (ce_curve V) (cc_state ch) (last (cc_undo_ring ch)) of
          Inl _ \<Rightarrow> None
        | Inr st \<Rightarrow> Some (ch \<lparr> cc_blocks := butlast (cc_blocks ch), cc_state := st, cc_undo_ring := butlast (cc_undo_ring ch) \<rparr>, True)))"

section \<open>Production\<close>

definition serialize_peg_mints ::
  "('h, 't, 'w, 'p, 'tr, 'pr, 'm) ct_env \<Rightarrow> ('h, 'w) pegmint_proof list \<Rightarrow> extend_error + bytes list" where
  "serialize_peg_mints V pms =
     fold_r (\<lambda>acc (i, pf). bind_r (map_err (\<lambda>_. ExPegMintDecode i) (serialize_pegmint_proof (ce_ergo V) (ce_vlq V) pf))
         (\<lambda>bs. Inr (acc @ [bs]))) [] (enumerate 0 pms)"

definition produce_inner ::
  "('h, 't, 'w, 'p, 'tr, 'pr, 'm) ct_env \<Rightarrow> ('p, 'tr, 'm) ct_chain \<Rightarrow> block_body \<Rightarrow> u64 \<Rightarrow> 'p reward_mode \<Rightarrow> bytes \<Rightarrow> 'm option \<Rightarrow>
     ('h, 'w) pegmint_proof list \<Rightarrow> extend_error + 'm ct_block" where
  "produce_inner V ch body now_ms reward reward_claim coinbase pms =
     bind_r (serialize_peg_mints V pms) (\<lambda>blobs.
     let body' = body \<lparr> bb_peg_mints := blobs \<rparr> in
     bind_r (apply_of V ch (bb_transfers body') pms reward) (\<lambda>(dry, _).
     bind_r (ok_or (ct_expected_nbits (ce_ext V) ch) ExPanic) (\<lambda>nbits.
       Inr \<lparr> tb_header = \<lparr> th_version = 1, th_prev_id = ct_header_id (ce_ext V) (ce_wire V) (cc_tip ch),
               th_height = th_height (cc_tip ch) + 1, th_timestamp_ms = max now_ms (median_time_past ch + 1),
               th_tx_root = tx_root (ce_ext V) (ce_wire V) body', th_cm_tree_root = cs_cm_root dry, th_nullifier_digest = cs_digest dry,
               th_pot_balance = cs_pot dry, th_sc_nbits = nbits, th_reward_claim = reward_claim \<rparr>,
             tb_body = body', tb_coinbase = coinbase \<rparr>)))"

definition produce_next ::
  "('h, 't, 'w, 'p, 'tr, 'pr, 'm) ct_env \<Rightarrow> ('p, 'tr, 'm) ct_chain \<Rightarrow> block_body \<Rightarrow> u64 \<Rightarrow> extend_error + 'm ct_block" where
  "produce_next V ch body now_ms = produce_inner V ch body now_ms RmDevStub empty_reward_claim None []"

definition produce_next_with_pegmints ::
  "('h, 't, 'w, 'p, 'tr, 'pr, 'm) ct_env \<Rightarrow> ('p, 'tr, 'm) ct_chain \<Rightarrow> block_body \<Rightarrow> u64 \<Rightarrow> ('h, 'w) pegmint_proof list \<Rightarrow>
     extend_error + 'm ct_block" where
  "produce_next_with_pegmints V ch body now_ms pms = produce_inner V ch body now_ms RmDevStub empty_reward_claim None pms"

text \<open>The prover of the coinbase note, at the tag and blinding of the producer, is an argument.\<close>

definition produce_next_with_coinbase ::
  "('h, 't, 'w, 'p, 'tr, 'pr, 'm) ct_env \<Rightarrow> (u64 \<Rightarrow> 'm option) \<Rightarrow> ('p, 'tr, 'm) ct_chain \<Rightarrow> block_body \<Rightarrow> u64 \<Rightarrow>
     extend_error + 'm ct_block" where
  "produce_next_with_coinbase V prove_mint ch body now_ms =
     bind_r (ok_or (prove_mint (expected_coinbase_value (cs_pot (cc_state ch)) (of_nat (length (bb_transfers body)))
         (net_params_of (cc_network ch)))) ExCoinbaseMint) (\<lambda>pf.
     let cm = cv_mint_cm (ce_curve V) pf in
       produce_inner V ch body now_ms (RmReal cm) (cv_cm_bytes (ce_curve V) cm) (Some pf) [])"

section \<open>Replay of the block log\<close>

fun replay_log :: "('h, 't, 'w, 'p, 'tr, 'pr, 'm) ct_env \<Rightarrow> ('p, 'tr, 'm) ct_chain \<Rightarrow> 'm ct_block list \<Rightarrow>
    (u64 \<times> extend_error) + ('p, 'tr, 'm) ct_chain" where
  "replay_log V ch [] = Inr ch"
| "replay_log V ch (b # bs) =
     (case try_extend V ch b (th_timestamp_ms (tb_header b)) of
        (_, Inl e) \<Rightarrow> Inl (th_height (tb_header b), e)
      | (ch', Inr _) \<Rightarrow> replay_log V ch' bs)"

section \<open>Extension and rollback\<close>

definition cc_wf :: "('h, 't, 'w, 'p, 'tr, 'pr, 'm) ct_env \<Rightarrow> ('p, 'tr, 'm) ct_chain \<Rightarrow> bool" where
  "cc_wf V ch \<longleftrightarrow> cs_wf (ce_ext V) (ce_curve V) (cc_state ch) \<and> cc_blocks ch \<noteq> []"

text \<open>What an extension does to the state, without the verdict on the header's commitments.\<close>

definition extend_state ::
  "('h, 't, 'w, 'p, 'tr, 'pr, 'm) ct_env \<Rightarrow> ('p, 'tr, 'm) ct_chain \<Rightarrow> 'm ct_block \<Rightarrow> u64 \<Rightarrow> extend_error + ('p, 'tr) ct_state \<times> ct_undo" where
  "extend_state V ch block now_ms = bind_r (check_ct_header V ch block now_ms) (\<lambda>_. bind_r (check_transfer_proofs V ch block) (\<lambda>_.
     bind_r (check_ct_coinbase V ch block) (\<lambda>reward. bind_r (decode_peg_mints V block) (\<lambda>pms.
       apply_of V ch (bb_transfers (tb_body block)) pms reward))))"

lemma try_extend_alt:
  "try_extend V ch block now_ms =
     (case extend_state V ch block now_ms of
        Inl e \<Rightarrow> (ch, Inl e)
      | Inr (st, undo) \<Rightarrow>
          (case post_state_error (tb_header block) st of
             Some e \<Rightarrow> (case ct_rollback (ce_curve V) st undo of
                 Inl _ \<Rightarrow> (ch \<lparr> cc_state := st \<rparr>, Inl ExPanic)
               | Inr st' \<Rightarrow> (ch \<lparr> cc_state := st' \<rparr>, Inl e))
           | None \<Rightarrow> (ch \<lparr> cc_blocks := cc_blocks ch @ [block], cc_state := st,
                 cc_undo_ring := push_undo (cc_undo_ring ch) undo \<rparr>, Inr ())))"
  by (simp only: try_extend_def extend_state_def)

lemma extend_state_apply:
  assumes "extend_state V ch block now_ms = Inr (st, undo)"
  obtains pms reward where "ct_apply_block (ce_ext V) (ce_ergo V) (ce_curve V) (cc_state ch) (bb_transfers (tb_body block)) pms
    (net_params_of (cc_network ch)) reward (cc_peg ch) = Inr (st, undo)"
  using assms by (auto simp: extend_state_def apply_of_def result_simps)

lemma extend_state_rollback:
  "cc_wf V ch \<Longrightarrow> extend_state V ch block now_ms = Inr (st, undo) \<Longrightarrow> ct_rollback (ce_curve V) st undo = Inr (cc_state ch)"
  by (erule extend_state_apply) (auto simp: cc_wf_def intro: ct_rollback_restores)

text \<open>Exactly two outcomes: the chain as it was, or the chain with the block.\<close>

lemma try_extend_cases:
  assumes "cc_wf V ch"
  obtains e where "try_extend V ch block now_ms = (ch, Inl e)"
  | st undo where "extend_state V ch block now_ms = Inr (st, undo)" and "post_state_error (tb_header block) st = None"
    and "try_extend V ch block now_ms = (ch \<lparr> cc_blocks := cc_blocks ch @ [block], cc_state := st,
                 cc_undo_ring := push_undo (cc_undo_ring ch) undo \<rparr>, Inr ())"
proof (cases "extend_state V ch block now_ms")
  case (Inl e)
  then show ?thesis using that(1) by (simp add: try_extend_alt)
next
  case (Inr su)
  obtain st undo where su: "su = (st, undo)" by fastforce
  show ?thesis
  proof (cases "post_state_error (tb_header block) st")
    case None
    then show ?thesis using that(2) Inr su by (simp add: try_extend_alt)
  next
    case (Some e)
    then show ?thesis using that(1) extend_state_rollback [OF assms] Inr su by (simp add: try_extend_alt)
  qed
qed

lemma try_extend_error: "cc_wf V ch \<Longrightarrow> try_extend V ch block now_ms = (ch', Inl e) \<Longrightarrow> ch' = ch"
  by (erule try_extend_cases [of V ch block now_ms]) auto

lemma try_extend_ok:
  assumes "cc_wf V ch" and "try_extend V ch block now_ms = (ch', Inr u)"
  obtains st undo where "extend_state V ch block now_ms = Inr (st, undo)" and "post_state_error (tb_header block) st = None"
    and "ch' = ch \<lparr> cc_blocks := cc_blocks ch @ [block], cc_state := st, cc_undo_ring := push_undo (cc_undo_ring ch) undo \<rparr>"
  using assms(2) by (auto intro: try_extend_cases [OF assms(1), of block now_ms] that)

lemma try_extend_wf:
  assumes C: "tree_append_ok (ce_curve V)" and wf: "cc_wf V ch" and step: "try_extend V ch block now_ms = (ch', Inr u)"
  shows "cc_wf V ch'"
proof -
  from wf step obtain st undo where e: "extend_state V ch block now_ms = Inr (st, undo)"
    and ch': "ch' = ch \<lparr> cc_blocks := cc_blocks ch @ [block], cc_state := st, cc_undo_ring := push_undo (cc_undo_ring ch) undo \<rparr>"
    by (rule try_extend_ok)
  from e have "cs_wf (ce_ext V) (ce_curve V) st"
    by (rule extend_state_apply) (use wf in \<open>auto simp: cc_wf_def intro: ct_apply_wf [OF C]\<close>)
  then show ?thesis by (simp add: ch' cc_wf_def)
qed

section \<open>A chain materializes a branch\<close>

definition same_ledger :: "('p, 'tr, 'm) ct_chain \<Rightarrow> ('p, 'tr, 'm) ct_chain \<Rightarrow> bool" where
  "same_ledger c d \<longleftrightarrow> cc_network c = cc_network d \<and> cc_daa c = cc_daa d \<and> cc_proof_mode c = cc_proof_mode d
     \<and> cc_blocks c = cc_blocks d \<and> cc_state c = cc_state d \<and> cc_peg c = cc_peg d \<and> cc_pow_mode c = cc_pow_mode d"

lemma same_ledger_refl [simp]: "same_ledger c c"
  by (simp add: same_ledger_def)

lemma same_ledgerD:
  "same_ledger c d \<Longrightarrow> cc_network c = cc_network d \<and> cc_daa c = cc_daa d \<and> cc_proof_mode c = cc_proof_mode d
     \<and> cc_blocks c = cc_blocks d \<and> cc_state c = cc_state d \<and> cc_peg c = cc_peg d \<and> cc_pow_mode c = cc_pow_mode d"
  by (auto simp: same_ledger_def)

lemma same_ledgerI:
  "cc_network c = cc_network d \<Longrightarrow> cc_daa c = cc_daa d \<Longrightarrow> cc_proof_mode c = cc_proof_mode d \<Longrightarrow> cc_blocks c = cc_blocks d
     \<Longrightarrow> cc_state c = cc_state d \<Longrightarrow> cc_peg c = cc_peg d \<Longrightarrow> cc_pow_mode c = cc_pow_mode d \<Longrightarrow> same_ledger c d"
  by (simp add: same_ledger_def)

lemma same_ledger_sym: "same_ledger c d \<Longrightarrow> same_ledger d c"
  by (intro same_ledgerI) (simp_all add: same_ledgerD)

lemma same_ledger_wf: "same_ledger c d \<Longrightarrow> cc_wf V c = cc_wf V d"
  by (simp add: cc_wf_def same_ledgerD)

lemma same_ledger_extend:
  assumes "same_ledger c d"
  shows "extend_state V c b now = extend_state V d b now"
proof -
  have eqs: "cc_network c = cc_network d" "cc_daa c = cc_daa d" "cc_proof_mode c = cc_proof_mode d" "cc_blocks c = cc_blocks d"
    "cc_state c = cc_state d" "cc_peg c = cc_peg d"
    using same_ledgerD [OF assms] by simp_all
  show ?thesis
    unfolding extend_state_def check_ct_header_def check_transfer_proofs_def check_ct_coinbase_def apply_of_def cc_tip_def
      median_time_past_def ct_expected_nbits_def eqs ..
qed

text \<open>A block accepted at some wall clock is accepted at its own timestamp, unless that is within a minute of 2^64.\<close>

definition clock_ok :: "'m ct_block \<Rightarrow> bool" where
  "clock_ok b \<longleftrightarrow> unat (th_timestamp_ms (tb_header b)) + 60000 < 2 ^ 64"

lemma extend_state_pinned:
  assumes "extend_state V ch b now = Inr su" and "clock_ok b"
  shows "extend_state V ch b (th_timestamp_ms (tb_header b)) = Inr su"
proof -
  have "\<not> th_timestamp_ms (tb_header b) + max_future_drift_ms < th_timestamp_ms (tb_header b)"
    using assms(2) by (simp add: clock_ok_def max_future_drift_ms_def word_less_nat_alt unat_add_exact)
  then show ?thesis using assms(1) by (auto simp: extend_state_def check_ct_header_def result_simps Let_def)
qed

lemma accepted_clock_ok:
  assumes "cc_wf V ch" and "try_extend V ch b now = (ch', Inr u)" and "unat now + 120000 < 2 ^ 64"
  shows "clock_ok b"
proof -
  from assms(1,2) obtain st undo where "extend_state V ch b now = Inr (st, undo)" by (rule try_extend_ok)
  then have "th_timestamp_ms (tb_header b) \<le> now + max_future_drift_ms"
    by (auto simp: extend_state_def check_ct_header_def result_simps Let_def not_less)
  then have "unat (th_timestamp_ms (tb_header b)) \<le> unat now + 60000"
    using assms(3) by (simp add: max_future_drift_ms_def word_le_nat_alt unat_add_exact)
  with assms(3) show ?thesis by (simp add: clock_ok_def)
qed

lemma replay_log_append:
  "replay_log V ch (bs @ cs) = bind_r (replay_log V ch bs) (\<lambda>ch'. replay_log V ch' cs)"
  by (induction bs arbitrary: ch) (auto split: prod.splits sum.splits)

lemma replay_log_snoc:
  "replay_log V ch (bs @ [b]) = Inr c \<longleftrightarrow>
     (\<exists>d. replay_log V ch bs = Inr d \<and> try_extend V d b (th_timestamp_ms (tb_header b)) = (c, Inr ()))"
proof -
  have "replay_log V d [b] = Inr c \<longleftrightarrow> try_extend V d b (th_timestamp_ms (tb_header b)) = (c, Inr ())" for d
    by (cases "try_extend V d b (th_timestamp_ms (tb_header b))") (auto split: sum.splits)
  then show ?thesis by (simp add: replay_log_append bind_r_eq_Inr)
qed

inductive ring_ok for V base where
  empty: "ring_ok V base bs []"
| snoc: "ring_ok V base bs ring \<Longrightarrow> replay_log V base bs = Inr c \<Longrightarrow> replay_log V base (bs @ [b]) = Inr c'
    \<Longrightarrow> ct_rollback (ce_curve V) (cc_state c') u = Inr (cc_state c) \<Longrightarrow> ring_ok V base (bs @ [b]) (ring @ [u])"

lemma ring_ok_tl: "ring_ok V base bs ring \<Longrightarrow> ring_ok V base bs (tl ring)"
proof (induction rule: ring_ok.induct)
  case (snoc bs ring c b c' u)
  then show ?case by (cases ring) (auto intro: ring_ok.intros)
qed (simp add: ring_ok.empty)

inductive_cases ring_ok_snocE: "ring_ok V base bs (ring @ [u])"

definition materializes :: "('h, 't, 'w, 'p, 'tr, 'pr, 'm) ct_env \<Rightarrow> ('p, 'tr, 'm) ct_chain \<Rightarrow> ('p, 'tr, 'm) ct_chain \<Rightarrow> 'm ct_block list \<Rightarrow> bool" where
  "materializes V base ch bs \<longleftrightarrow> (\<exists>full. replay_log V base bs = Inr full \<and> same_ledger ch full) \<and> ring_ok V base bs (cc_undo_ring ch)"

definition base_ok :: "('h, 't, 'w, 'p, 'tr, 'pr, 'm) ct_env \<Rightarrow> ('p, 'tr, 'm) ct_chain \<Rightarrow> bool" where
  "base_ok V base \<longleftrightarrow> tree_append_ok (ce_curve V) \<and> cc_wf V base \<and> (\<exists>g. cc_blocks base = [g]) \<and> cc_undo_ring base = []"

lemma base_ok_new: "tree_append_ok (ce_curve V) \<Longrightarrow> base_ok V (ct_chain_new (ce_ext V) net pow pf)"
  by (simp add: base_ok_def ct_chain_new_def cc_wf_def cs_wf_new)

lemma materializes_base: "base_ok V base \<Longrightarrow> materializes V base base []"
  by (simp add: materializes_def base_ok_def ring_ok.empty)

lemma replay_wf:
  assumes "base_ok V base"
  shows "replay_log V base bs = Inr c \<Longrightarrow> cc_wf V c \<and> cc_blocks c = hd (cc_blocks base) # bs"
proof (induction bs arbitrary: c rule: rev_induct)
  case Nil
  then show ?case using assms by (auto simp: base_ok_def)
next
  case (snoc b bs)
  from snoc.prems obtain d where d: "replay_log V base bs = Inr d"
    and st: "try_extend V d b (th_timestamp_ms (tb_header b)) = (c, Inr ())"
    by (auto simp: replay_log_snoc)
  from snoc.IH [OF d] have wf: "cc_wf V d" and bl: "cc_blocks d = hd (cc_blocks base) # bs" by simp_all
  from try_extend_wf [OF _ wf st] assms have "cc_wf V c" by (simp add: base_ok_def)
  moreover from wf st have "cc_blocks c = cc_blocks d @ [b]" by (rule try_extend_ok) auto
  ultimately show ?case by (simp add: bl)
qed

lemma materializes_wf: "base_ok V base \<Longrightarrow> materializes V base ch bs \<Longrightarrow> cc_wf V ch \<and> cc_blocks ch = hd (cc_blocks base) # bs"
  unfolding materializes_def using replay_wf same_ledgerD same_ledger_wf by metis

lemma materializes_extend:
  assumes base: "base_ok V base" and m: "materializes V base ch bs" and step: "try_extend V ch b now = (ch', Inr u)" and clock: "clock_ok b"
  shows "materializes V base ch' (bs @ [b])"
proof -
  from m obtain full where full: "replay_log V base bs = Inr full" and same: "same_ledger ch full" by (auto simp: materializes_def)
  have wf: "cc_wf V ch" "cc_wf V full" using materializes_wf [OF base m] same_ledger_wf [OF same, of V] by simp_all
  from wf(1) step obtain st undo where e: "extend_state V ch b now = Inr (st, undo)" and ok: "post_state_error (tb_header b) st = None"
    and ch': "ch' = ch \<lparr> cc_blocks := cc_blocks ch @ [b], cc_state := st, cc_undo_ring := push_undo (cc_undo_ring ch) undo \<rparr>"
    by (rule try_extend_ok)
  have e': "extend_state V full b (th_timestamp_ms (tb_header b)) = Inr (st, undo)"
    using extend_state_pinned [OF e clock] by (simp only: same_ledger_extend [OF same])
  define full' where "full' = full \<lparr> cc_blocks := cc_blocks full @ [b], cc_state := st, cc_undo_ring := push_undo (cc_undo_ring full) undo \<rparr>"
  have "try_extend V full b (th_timestamp_ms (tb_header b)) = (full', Inr ())"
    by (simp add: try_extend_alt e' ok full'_def)
  then have r: "replay_log V base (bs @ [b]) = Inr full'" by (simp add: replay_log_append full)
  have "same_ledger ch' full'" using same_ledgerD [OF same] by (intro same_ledgerI) (simp_all add: ch' full'_def)
  moreover have "ring_ok V base (bs @ [b]) (cc_undo_ring ch @ [undo])"
  proof (rule ring_ok.snoc [OF _ full r])
    show "ring_ok V base bs (cc_undo_ring ch)" using m by (simp add: materializes_def)
    show "ct_rollback (ce_curve V) (cc_state full') undo = Inr (cc_state full)"
      using extend_state_rollback [OF wf(2) e'] by (simp add: full'_def)
  qed
  then have "ring_ok V base (bs @ [b]) (push_undo (cc_undo_ring ch) undo)"
    by (auto simp: push_undo_def Let_def dest: ring_ok_tl)
  ultimately show ?thesis using r by (auto simp: materializes_def ch')
qed

lemma materializes_rollback:
  assumes base: "base_ok V base" and m: "materializes V base ch bs"
  obtains "rollback_tip V ch = Some (ch, False)"
  | ch' where "rollback_tip V ch = Some (ch', True)" and "bs \<noteq> []" and "materializes V base ch' (butlast bs)"
proof (cases "length (cc_blocks ch) \<le> 1 \<or> cc_undo_ring ch = []")
  case True
  then show ?thesis using that(1) by (auto simp: rollback_tip_def)
next
  case False
  then obtain ring undo where ring: "cc_undo_ring ch = ring @ [undo]" by (metis rev_exhaust)
  from m obtain full where full: "replay_log V base bs = Inr full" and same: "same_ledger ch full" by (auto simp: materializes_def)
  from m ring have "ring_ok V base bs (ring @ [undo])" by (simp add: materializes_def)
  then obtain bs' c b where r: "ring_ok V base bs' ring" and bs: "bs = bs' @ [b]" and c: "replay_log V base bs' = Inr c"
    and rb: "ct_rollback (ce_curve V) (cc_state full) undo = Inr (cc_state c)"
    by (rule ring_ok_snocE) (use full in auto)
  have blocks: "cc_blocks ch = hd (cc_blocks base) # bs" "cc_blocks c = hd (cc_blocks base) # bs'"
    using materializes_wf [OF base m] replay_wf [OF base c] by simp_all
  define ch' where "ch' = ch \<lparr> cc_blocks := butlast (cc_blocks ch), cc_state := cc_state c, cc_undo_ring := ring \<rparr>"
  have "rollback_tip V ch = Some (ch', True)"
    using False rb same_ledgerD [OF same] by (simp add: rollback_tip_def ring ch'_def)
  moreover have "same_ledger ch' c"
  proof -
    from full bs c obtain u where st: "try_extend V c b (th_timestamp_ms (tb_header b)) = (full, Inr u)"
      by (auto simp: replay_log_snoc)
    have "cc_wf V c" using replay_wf [OF base c] by simp
    from try_extend_ok [OF this st] have "cc_network full = cc_network c \<and> cc_daa full = cc_daa c \<and> cc_proof_mode full = cc_proof_mode c
        \<and> cc_peg full = cc_peg c \<and> cc_pow_mode full = cc_pow_mode c" by fastforce
    moreover have "butlast (cc_blocks ch) = cc_blocks c" unfolding blocks bs by (simp add: butlast_append)
    ultimately show ?thesis using same_ledgerD [OF same] by (intro same_ledgerI) (simp_all add: ch'_def)
  qed
  then have "materializes V base ch' (butlast bs)"
    using r c bs by (auto simp: materializes_def ch'_def)
  ultimately show ?thesis using that(2) bs by simp
qed

lemma materializes_replay:
  assumes base: "base_ok V base" and "replay_log V base (bs @ cs) = Inr full" and "materializes V base ch bs" and "\<forall>b \<in> set cs. clock_ok b"
  shows "\<exists>ch'. replay_log V ch cs = Inr ch' \<and> materializes V base ch' (bs @ cs)"
  using assms(2-4)
proof (induction cs arbitrary: bs ch)
  case (Cons b cs)
  let ?now = "th_timestamp_ms (tb_header b)"
  have "replay_log V base ((bs @ [b]) @ cs) = Inr full" using Cons.prems(1) by simp
  then obtain f1 where f1: "replay_log V base (bs @ [b]) = Inr f1"
    unfolding replay_log_append [of V base "bs @ [b]"] by (auto simp: bind_r_eq_Inr)
  from Cons.prems(2) obtain f where f: "replay_log V base bs = Inr f" and same: "same_ledger ch f" by (auto simp: materializes_def)
  from f f1 have st: "try_extend V f b ?now = (f1, Inr ())" by (auto simp: replay_log_snoc)
  have "cc_wf V f" using replay_wf [OF base f] by simp
  from this st obtain s u where "extend_state V f b ?now = Inr (s, u)" "post_state_error (tb_header b) s = None" by (rule try_extend_ok)
  then obtain ch1 where ch1: "try_extend V ch b ?now = (ch1, Inr ())"
    by (simp add: try_extend_alt same_ledger_extend [OF same])
  have m1: "materializes V base ch1 (bs @ [b])"
    using materializes_extend [OF base Cons.prems(2) ch1] Cons.prems(3) by simp
  from Cons.IH [OF _ m1] Cons.prems(1,3) ch1 show ?case by simp
qed simp

section \<open>Produced blocks\<close>

lemma serialized_mints_decode:
  assumes W: "peg_wire_ok (ce_ext V) (ce_ergo V) (ce_vlq V)"
  shows "fold_r (\<lambda>acc (i, pf). bind_r (map_err (\<lambda>_. ExPegMintDecode i) (serialize_pegmint_proof (ce_ergo V) (ce_vlq V) pf))
         (\<lambda>bs. Inr (acc @ [bs]))) acc (enumerate n pms) = Inr blobs
    \<Longrightarrow> \<forall>pf \<in> set pms. wf_inclusion (pp_lock pf) \<and> wf_inclusion (pp_consolidation pf)
    \<Longrightarrow> \<exists>new. blobs = acc @ new \<and> (\<forall>done. fold_r (\<lambda>acc (i, bs). bind_r (map_err (\<lambda>_. ExPegMintDecode i)
         (read_pegmint_proof (ce_ext V) (ce_ergo V) (ce_vlq V) bs)) (\<lambda>pf. Inr (acc @ [pf]))) done (enumerate n new) = Inr (done @ pms))"
proof (induction pms arbitrary: acc n)
  case (Cons pf pms)
  from Cons.prems(1) obtain bs where bs: "serialize_pegmint_proof (ce_ergo V) (ce_vlq V) pf = Inr bs"
    and rest: "fold_r (\<lambda>acc (i, pf). bind_r (map_err (\<lambda>_. ExPegMintDecode i) (serialize_pegmint_proof (ce_ergo V) (ce_vlq V) pf))
         (\<lambda>bs. Inr (acc @ [bs]))) (acc @ [bs]) (enumerate (Suc n) pms) = Inr blobs"
    by (auto simp: result_simps)
  from Cons.prems(2) have wf: "wf_inclusion (pp_lock pf)" "wf_inclusion (pp_consolidation pf)" by simp_all
  from pegmint_proof_roundtrip [OF W bs wf] Cons.IH [OF rest] Cons.prems(2) show ?case
    by (fastforce intro: exI [of _ "bs # _"])
qed simp

lemma transfer_proofs_all:
  "fold_r (\<lambda>u (i, tx). map_err (ExProof i) (g tx)) () (enumerate n txs) = Inr () \<longleftrightarrow> (\<forall>tx \<in> set txs. g tx = Inr ())"
  by (induction txs arbitrary: n) (auto simp: result_simps map_err_def split: sum.split)

text \<open>What the chain still asks of a block it produced itself: proofs, unless it runs the development stub, and a timestamp
  that is not too far ahead of the wall clock.\<close>

definition transfers_proved :: "('h, 't, 'w, 'p, 'tr, 'pr, 'm) ct_env \<Rightarrow> ('p, 'tr, 'm) ct_chain \<Rightarrow> shielded_transfer list \<Rightarrow> bool" where
  "transfers_proved V ch txs \<longleftrightarrow> cc_proof_mode ch = PfDevStub \<or> txs = []
     \<or> (\<exists>anchor. ic_tree (cs_tree (cc_state ch)) = Some anchor \<and> (\<forall>tx \<in> set txs.
          verify_shielded_transfer (ce_curve V) anchor tx (np_sc_tx_fee (net_params_of (cc_network ch))) = Inr ()))"

lemma check_transfer_proofs_iff: "check_transfer_proofs V ch b = Inr () \<longleftrightarrow> transfers_proved V ch (bb_transfers (tb_body b))"
  by (cases "cc_proof_mode ch") (auto simp: check_transfer_proofs_def transfers_proved_def result_simps ok_or_def transfer_proofs_all split: option.splits)

lemma produced_header:
  assumes b: "tb_header b = \<lparr> th_version = 1, th_prev_id = ct_header_id (ce_ext V) (ce_wire V) (cc_tip ch),
      th_height = th_height (cc_tip ch) + 1, th_timestamp_ms = max now_ms (median_time_past ch + 1),
      th_tx_root = tx_root (ce_ext V) (ce_wire V) (tb_body b), th_cm_tree_root = r, th_nullifier_digest = d, th_pot_balance = pot,
      th_sc_nbits = nbits, th_reward_claim = claim \<rparr>"
    and nb: "ct_expected_nbits (ce_ext V) ch = Some nbits" and late: "unat now_ms + 60000 < 2 ^ 64"
  shows "check_ct_header V ch b now_ms = Inr () \<longleftrightarrow> unat (median_time_past ch) < unat now_ms + 60000"
proof (cases "unat (median_time_past ch) + 1 < 2 ^ 64")
  case True
  let ?m = "median_time_past ch"
  have m: "unat (?m + 1) = unat ?m + 1" using True by (simp add: unat_add_exact)
  have "\<not> max now_ms (?m + 1) \<le> ?m" using m by (simp add: word_le_nat_alt max_def)
  moreover have "now_ms + max_future_drift_ms < max now_ms (?m + 1) \<longleftrightarrow> \<not> unat ?m < unat now_ms + 60000"
    using m late by (auto simp: max_future_drift_ms_def word_less_nat_alt max_def word_le_nat_alt unat_add_exact)
  ultimately show ?thesis using nb by (simp add: check_ct_header_def b Let_def)
next
  case False
  let ?m = "median_time_past ch"
  have "unat ?m < 2 ^ 64" using unsigned_less [of ?m] by simp
  with False have u: "unat ?m = 2 ^ 64 - 1" by simp
  then have "unat (?m + 1) = 0" by (simp add: unat_word_ariths)
  then have "max now_ms (?m + 1) = now_ms" by (simp add: unat_eq_zero max_def)
  moreover have "now_ms \<le> ?m" using u late by (simp add: word_le_nat_alt)
  ultimately have "check_ct_header V ch b now_ms \<noteq> Inr ()" by (simp add: check_ct_header_def b Let_def)
  then show ?thesis using u late by simp
qed

text \<open>
  C33: Extension is transactional and reversible: a refused block leaves the chain exactly as it was, and after an accepted
  block a rollback of the tip brings back the blocks and the state before it.
\<close>
theorem ct_extend_transactional:
  assumes "cc_wf V ch"
  shows "(\<forall>ch' e. try_extend V ch b now_ms = (ch', Inl e) \<longrightarrow> ch' = ch)
    \<and> (\<forall>ch'. try_extend V ch b now_ms = (ch', Inr ()) \<longrightarrow>
        (\<exists>ch''. rollback_tip V ch' = Some (ch'', True) \<and> cc_blocks ch'' = cc_blocks ch \<and> cc_state ch'' = cc_state ch))"
proof (intro conjI allI impI)
  fix ch' e assume "try_extend V ch b now_ms = (ch', Inl e)"
  with assms show "ch' = ch" by (rule try_extend_error)
next
  fix ch' assume "try_extend V ch b now_ms = (ch', Inr ())"
  with assms obtain st undo where e: "extend_state V ch b now_ms = Inr (st, undo)"
    and ch': "ch' = ch \<lparr> cc_blocks := cc_blocks ch @ [b], cc_state := st, cc_undo_ring := push_undo (cc_undo_ring ch) undo \<rparr>"
    by (rule try_extend_ok)
  have ring: "push_undo (cc_undo_ring ch) undo \<noteq> [] \<and> last (push_undo (cc_undo_ring ch) undo) = undo"
    by (auto simp: push_undo_def Let_def state_retention_blocks_def last_tl tl_append split: list.splits)
  have "\<not> length (cc_blocks ch @ [b]) \<le> 1" using assms by (simp add: cc_wf_def)
  then show "\<exists>ch''. rollback_tip V ch' = Some (ch'', True) \<and> cc_blocks ch'' = cc_blocks ch \<and> cc_state ch'' = cc_state ch"
    using extend_state_rollback [OF assms e] ring by (simp add: rollback_tip_def ch')
qed

text \<open>
  C34: What the node produces it accepts, up to two checks that production itself does not make. A block built on a
  well-formed chain, with peg-mints whose inclusions fit their wire form and without a coinbase note or with one whose proof
  verifies for the expected amount, extends the same chain at the same wall clock (a minute short of the 64-bit end at
  least) exactly when its transfers are proved (or the node runs the development stub) and the median of the past timestamps
  is less than a minute ahead of the clock; otherwise it is refused and the chain stays as it was.
\<close>
theorem produced_block_extends:
  assumes wf: "cc_wf V ch"
    and W: "peg_wire_ok (ce_ext V) (ce_ergo V) (ce_vlq V)"
    and pms: "\<forall>pf \<in> set pms. wf_inclusion (pp_lock pf) \<and> wf_inclusion (pp_consolidation pf)"
    and reward: "case coinbase of None \<Rightarrow> reward = RmDevStub \<and> claim = empty_reward_claim
       | Some pf \<Rightarrow> reward = RmReal (cv_mint_cm (ce_curve V) pf) \<and> claim = cv_cm_bytes (ce_curve V) (cv_mint_cm (ce_curve V) pf)
           \<and> \<not> cv_is_zero (ce_curve V) (cv_mint_cm (ce_curve V) pf)
           \<and> cv_verify_mint (ce_curve V) (expected_coinbase_value (cs_pot (cc_state ch)) (of_nat (length (bb_transfers body)))
                (net_params_of (cc_network ch))) pf"
    and prod: "produce_inner V ch body now_ms reward claim coinbase pms = Inr b"
    and late: "unat now_ms + 60000 < 2 ^ 64"
  shows "if transfers_proved V ch (bb_transfers body) \<and> unat (median_time_past ch) < unat now_ms + 60000
    then \<exists>ch'. try_extend V ch b now_ms = (ch', Inr ()) \<and> cc_blocks ch' = cc_blocks ch @ [b]
    else \<exists>e. try_extend V ch b now_ms = (ch, Inl e)"
proof -
  from prod obtain blobs dry undo nbits where blobs: "serialize_peg_mints V pms = Inr blobs"
    and dry: "apply_of V ch (bb_transfers body) pms reward = Inr (dry, undo)"
    and nb: "ct_expected_nbits (ce_ext V) ch = Some nbits"
    and b: "b = \<lparr> tb_header = \<lparr> th_version = 1, th_prev_id = ct_header_id (ce_ext V) (ce_wire V) (cc_tip ch),
               th_height = th_height (cc_tip ch) + 1, th_timestamp_ms = max now_ms (median_time_past ch + 1),
               th_tx_root = tx_root (ce_ext V) (ce_wire V) (body \<lparr> bb_peg_mints := blobs \<rparr>), th_cm_tree_root = cs_cm_root dry,
               th_nullifier_digest = cs_digest dry, th_pot_balance = cs_pot dry, th_sc_nbits = nbits, th_reward_claim = claim \<rparr>,
             tb_body = body \<lparr> bb_peg_mints := blobs \<rparr>, tb_coinbase = coinbase \<rparr>"
    by (auto simp: produce_inner_def Let_def result_simps)
  have hd: "check_ct_header V ch b now_ms = Inr () \<longleftrightarrow> unat (median_time_past ch) < unat now_ms + 60000"
    by (rule produced_header [OF _ nb late]) (simp add: b)
  have pf: "check_transfer_proofs V ch b = Inr () \<longleftrightarrow> transfers_proved V ch (bb_transfers body)"
    by (simp add: check_transfer_proofs_iff b)
  have cb: "check_ct_coinbase V ch b = Inr reward"
    using reward by (cases coinbase) (auto simp: check_ct_coinbase_def b Let_def)
  have "decode_peg_mints V b = Inr pms"
    using serialized_mints_decode [OF W blobs [unfolded serialize_peg_mints_def] pms] by (auto simp: decode_peg_mints_def b)
  then have e: "extend_state V ch b now_ms
      = bind_r (check_ct_header V ch b now_ms) (\<lambda>_. bind_r (check_transfer_proofs V ch b) (\<lambda>_. Inr (dry, undo)))"
    using cb dry by (simp add: extend_state_def) (simp add: b)
  have "post_state_error (tb_header b) dry = None" by (simp add: post_state_error_def b)
  then show ?thesis
    using hd pf by (cases "check_ct_header V ch b now_ms"; cases "check_transfer_proofs V ch b") (auto simp: try_extend_alt e)
qed

end
