(* ===== verification/MmTree.thy ===== *)
theory MmTree
  imports CtChain "HOL-Library.Monad_Syntax"
begin

text \<open>
  Merge-mining fork choice (\<^verbatim>\<open>aegis-node/src/mm_forkchoice.rs\<close>): the tree of validated blocks weighted by
  aux-PoW work, pending shares, stashed bodies, permanent dead verdicts, the materialization of the canonical branch in
  the linear chain, and the peg-finality check.

  \<open>None\<close> is a panic (an index into the tree with an unknown id, the \<^verbatim>\<open>expect\<close> of a replay) or a walk that never ends.
  Ids compare as Rust compares arrays.
\<close>

section \<open>State\<close>

record 'm block_node =
  bn_block :: "'m ct_block"
  bn_parent :: bytes
  bn_height :: u64
  bn_cum :: nat
  bn_ergo_height :: u32

type_synonym 'm block_tree = "(bytes \<times> 'm block_node) list"

record pending_share =
  ps_work :: nat
  ps_ergo_height :: u32

record valid_share =
  vs_aegis_id :: bytes
  vs_work :: nat
  vs_ergo_height :: u32

datatype share_ingest = SiPending | SiKnown | SiDead | SiActivated nat

datatype body_ingest = BiActivated nat | BiAwaitingShare | BiAwaitingParent | BiAlreadyValidated | BiDead
  | BiNotSelfAuthenticating | BiRejectedTransient

text \<open>The text of a dead verdict is the error or the dead ancestor it names.\<close>

datatype dead_reason = DdInvalid extend_error | DdDeadParent | DdDescends bytes

record ('p, 'tr, 'm) mm_fc =
  mf_network :: network
  mf_pow_mode :: pow_mode
  mf_proof_mode :: proof_mode
  mf_chain :: "('p, 'tr, 'm) ct_chain"
  mf_materialized :: bytes
  mf_canonical :: bytes
  mf_genesis :: bytes
  mf_nodes :: "'m block_tree"
  mf_pending :: "(bytes \<times> pending_share) list"
  mf_stashed :: "(bytes \<times> 'm ct_block) list"
  mf_dead :: "(bytes \<times> dead_reason) list"
  mf_anchors :: "(bytes \<times> u32) list"

definition mm_new :: "('h, 't, 'w, 'p, 'tr, 'pr, 'm) ct_env \<Rightarrow> network \<Rightarrow> pow_mode \<Rightarrow> proof_mode \<Rightarrow> ('p, 'tr, 'm) mm_fc" where
  "mm_new V net pow pf =
     (let genesis = ct_block_id (ce_ext V) (ce_wire V) (ct_genesis (ce_ext V) net) in
      \<lparr> mf_network = net, mf_pow_mode = pow, mf_proof_mode = pf, mf_chain = ct_chain_new (ce_ext V) net pow pf,
        mf_materialized = genesis, mf_canonical = genesis, mf_genesis = genesis,
        mf_nodes = [(genesis, \<lparr> bn_block = ct_genesis (ce_ext V) net, bn_parent = replicate 32 0, bn_height = 0, bn_cum = 0,
          bn_ergo_height = 0 \<rparr>)],
        mf_pending = [], mf_stashed = [], mf_dead = [], mf_anchors = [] \<rparr>)"

section \<open>Walks in the tree\<close>

partial_function (option) path_walk :: "'m block_tree \<Rightarrow> bytes \<Rightarrow> bytes list option" where
  "path_walk tree cur =
     (case map_of tree cur of
        None \<Rightarrow> Some [cur]
      | Some n \<Rightarrow> if bn_height n = 0 then Some [cur]
          else Option.bind (path_walk tree (bn_parent n)) (\<lambda>p. Some (cur # p)))"

definition mm_path :: "'m block_tree \<Rightarrow> bytes \<Rightarrow> bytes list option" where
  "mm_path tree ident = map_option rev (path_walk tree ident)"

partial_function (option) ancestor_walk :: "'m block_tree \<Rightarrow> bytes \<Rightarrow> u64 \<Rightarrow> bytes \<Rightarrow> bool option" where
  "ancestor_walk tree a target_height cur =
     (if cur = a then Some True
      else (case map_of tree cur of
          None \<Rightarrow> None
        | Some n \<Rightarrow> if bn_height n \<le> target_height then Some False else ancestor_walk tree a target_height (bn_parent n)))"

definition is_ancestor_or_eq :: "'m block_tree \<Rightarrow> bytes \<Rightarrow> bytes \<Rightarrow> bool option" where
  "is_ancestor_or_eq tree a d = Option.bind (map_of tree a) (\<lambda>n. ancestor_walk tree a (bn_height n) d)"

text \<open>The length of the common prefix of two paths.\<close>

fun fork_index :: "bytes list \<Rightarrow> bytes list \<Rightarrow> nat" where
  "fork_index (x # xs) (y # ys) = (if x = y then Suc (fork_index xs ys) else 0)"
| "fork_index _ _ = 0"

definition preferred :: "'m block_tree \<Rightarrow> bytes \<Rightarrow> bytes \<Rightarrow> bool option" where
  "preferred tree a b =
     (if a = b then Some False
      else do {
        na \<leftarrow> map_of tree a;
        nb \<leftarrow> map_of tree b;
        if bn_cum nb < bn_cum na then Some True
        else if bn_cum na < bn_cum nb then Some False
        else do {
          pa \<leftarrow> mm_path tree a;
          pb \<leftarrow> mm_path tree b;
          let i = fork_index pa pb in
          if i = length pa then Some False
          else if i = length pb then Some True
          else do {
            da \<leftarrow> map_of tree (pa ! i);
            db \<leftarrow> map_of tree (pb ! i);
            Some (bn_ergo_height da < bn_ergo_height db
              \<or> bn_ergo_height da = bn_ergo_height db \<and> pa ! i < pb ! i) } } })"

section \<open>Moving the cursor\<close>

fun rollback_n :: "('h, 't, 'w, 'p, 'tr, 'pr, 'm) ct_env \<Rightarrow> nat \<Rightarrow> ('p, 'tr, 'm) ct_chain \<Rightarrow> (('p, 'tr, 'm) ct_chain \<times> bool) option" where
  "rollback_n V 0 ch = Some (ch, True)"
| "rollback_n V (Suc n) ch =
     Option.bind (rollback_tip V ch) (\<lambda>(ch', rolled). if rolled then rollback_n V n ch' else Some (ch', False))"

fun replay_nodes :: "('h, 't, 'w, 'p, 'tr, 'pr, 'm) ct_env \<Rightarrow> 'm block_tree \<Rightarrow> ('p, 'tr, 'm) ct_chain \<Rightarrow> bytes list \<Rightarrow>
    ('p, 'tr, 'm) ct_chain option" where
  "replay_nodes V tree ch [] = Some ch"
| "replay_nodes V tree ch (ident # ids) =
     Option.bind (map_of tree ident) (\<lambda>n.
       case try_extend V ch (bn_block n) (th_timestamp_ms (tb_header (bn_block n))) of
         (_, Inl _) \<Rightarrow> None | (ch', Inr _) \<Rightarrow> replay_nodes V tree ch' ids)"

definition switch_to ::
  "('h, 't, 'w, 'p, 'tr, 'pr, 'm) ct_env \<Rightarrow> ('p, 'tr, 'm) mm_fc \<Rightarrow> bytes \<Rightarrow> ('p, 'tr, 'm) mm_fc option" where
  "switch_to V mf target =
     (if mf_materialized mf = target then Some mf
      else do {
        target_path \<leftarrow> mm_path (mf_nodes mf) target;
        current_path \<leftarrow> mm_path (mf_nodes mf) (mf_materialized mf);
        let fork = fork_index target_path current_path;
        (ch, rolled_back) \<leftarrow> rollback_n V (length current_path - fork) (mf_chain mf);
        let (start, replay_from) =
          (if rolled_back then (ch, fork)
           else (ct_chain_new (ce_ext V) (mf_network mf) (mf_pow_mode mf) (mf_proof_mode mf), 1));
        ch' \<leftarrow> replay_nodes V (mf_nodes mf) start (drop replay_from target_path);
        Some (mf \<lparr> mf_chain := ch', mf_materialized := target \<rparr>) })"

fun select_best :: "'m block_tree \<Rightarrow> bytes \<Rightarrow> bytes list \<Rightarrow> bytes option" where
  "select_best tree best [] = Some best"
| "select_best tree best (ident # ids) =
     Option.bind (preferred tree ident best) (\<lambda>p. select_best tree (if p then ident else best) ids)"

definition refresh_canonical ::
  "('h, 't, 'w, 'p, 'tr, 'pr, 'm) ct_env \<Rightarrow> ('p, 'tr, 'm) mm_fc \<Rightarrow> ('p, 'tr, 'm) mm_fc option" where
  "refresh_canonical V mf =
     do {
       best \<leftarrow> select_best (mf_nodes mf) (mf_genesis mf) (map fst (mf_nodes mf));
       if mf_materialized mf \<noteq> best then switch_to V (mf \<lparr> mf_canonical := best \<rparr>) best
       else Some (mf \<lparr> mf_canonical := best \<rparr>) }"

section \<open>Verdicts\<close>

definition verdict_is_permanent :: "extend_error \<Rightarrow> bool" where
  "verdict_is_permanent e = (case e of
       ExTimestampTooFarInFuture _ _ \<Rightarrow> False | ExTxRootMismatch _ _ \<Rightarrow> False | ExRewardClaimMismatch \<Rightarrow> False
     | ExCoinbaseMint \<Rightarrow> False | _ \<Rightarrow> True)"

definition stashed_children :: "('p, 'tr, 'm) mm_fc \<Rightarrow> bytes \<Rightarrow> bytes list" where
  "stashed_children mf ident = map fst (filter (\<lambda>(_, b). th_prev_id (tb_header b) = ident) (mf_stashed mf))"

lemma length_del_key: "length (del_key k m) \<le> length m" "k \<in> fst ` set m \<Longrightarrow> length (del_key k m) < length m"
  unfolding del_key_def by (auto intro: length_filter_less)

text \<open>The work list is a stack; its last entry is popped first.\<close>

function kill_all :: "('p, 'tr, 'm) mm_fc \<Rightarrow> (bytes \<times> dead_reason) list \<Rightarrow> ('p, 'tr, 'm) mm_fc" where
  "kill_all mf work =
     (if work = [] then mf
      else let (ident, reason) = last work;
               mf' = mf \<lparr> mf_pending := del_key ident (mf_pending mf), mf_stashed := del_key ident (mf_stashed mf),
                          mf_dead := put_key ident reason (mf_dead mf) \<rparr>
           in kill_all mf' (butlast work @ map (\<lambda>child. (child, DdDescends ident)) (stashed_children mf' ident)))"
  by pat_completeness auto
termination
proof (relation "measures [\<lambda>(mf, work). length (mf_stashed mf),
      \<lambda>(mf, work). length (filter (\<lambda>(i, _). i \<notin> fst ` set (mf_stashed mf)) work)]")
  fix mf :: "('p, 'tr, 'm) mm_fc" and work x ident reason mf'
  assume w: "work \<noteq> []" and x: "x = last work" and ir: "(ident, reason) = x"
    and mf': "mf' = mf \<lparr> mf_pending := del_key ident (mf_pending mf), mf_stashed := del_key ident (mf_stashed mf),
                          mf_dead := put_key ident reason (mf_dead mf) \<rparr>"
  let ?new = "map (\<lambda>child. (child, DdDescends ident)) (stashed_children mf' ident)"
  have work: "work = butlast work @ [(ident, reason)]" using w x ir by simp
  have sub: "set (stashed_children mf' ident) \<subseteq> fst ` set (mf_stashed mf')" by (auto simp: stashed_children_def)
  show "((mf', butlast work @ ?new), mf, work) \<in> measures [\<lambda>(mf, work). length (mf_stashed mf),
      \<lambda>(mf, work). length (filter (\<lambda>(i, _). i \<notin> fst ` set (mf_stashed mf)) work)]"
  proof (cases "ident \<in> fst ` set (mf_stashed mf)")
    case True
    then show ?thesis using length_del_key(2) [OF True] by (simp add: mf')
  next
    case False
    have same: "mf_stashed mf' = mf_stashed mf" using False by (auto simp: mf' del_key_def filter_id_conv image_iff)
    have none: "filter (\<lambda>(i, _). i \<notin> fst ` set (mf_stashed mf)) ?new = []" using sub same by (auto simp: filter_empty_conv)
    have "length (filter (\<lambda>(i, _). i \<notin> fst ` set (mf_stashed mf)) work)
        = length (filter (\<lambda>(i, _). i \<notin> fst ` set (mf_stashed mf)) (butlast work)) + 1"
      using False by (subst work) simp
    then show ?thesis using none same by simp
  qed
qed simp

declare kill_all.simps [simp del]

definition mark_dead :: "('p, 'tr, 'm) mm_fc \<Rightarrow> bytes \<Rightarrow> dead_reason \<Rightarrow> ('p, 'tr, 'm) mm_fc" where
  "mark_dead mf ident reason = kill_all mf [(ident, reason)]"

section \<open>Activation\<close>

definition try_activate ::
  "('h, 't, 'w, 'p, 'tr, 'pr, 'm) ct_env \<Rightarrow> ('p, 'tr, 'm) mm_fc \<Rightarrow> bytes \<Rightarrow> u64 \<Rightarrow> (('p, 'tr, 'm) mm_fc \<times> bool) option" where
  "try_activate V mf ident now_ms =
     (case (map_of (mf_stashed mf) ident, map_of (mf_pending mf) ident) of
        (Some block, Some share) \<Rightarrow>
          let parent = th_prev_id (tb_header block) in
          if \<not> has_key (mf_nodes mf) parent then Some (mf, False)
          else do {
            mf1 \<leftarrow> switch_to V mf parent;
            case try_extend V (mf_chain mf1) block now_ms of
              (ch, Inr _) \<Rightarrow> do {
                pn \<leftarrow> map_of (mf_nodes mf1) parent;
                let n = \<lparr> bn_block = block, bn_parent = parent, bn_height = th_height (tb_header block),
                  bn_cum = bn_cum pn + x_decode_bits (ce_ext V) (th_sc_nbits (tb_header block)), bn_ergo_height = ps_ergo_height share \<rparr>;
                Some (mf1 \<lparr> mf_chain := ch, mf_materialized := ident, mf_nodes := put_key ident n (mf_nodes mf1),
                  mf_pending := del_key ident (mf_pending mf1), mf_stashed := del_key ident (mf_stashed mf1) \<rparr>, True) }
            | (ch, Inl e) \<Rightarrow>
                if verdict_is_permanent e then Some (mark_dead (mf1 \<lparr> mf_chain := ch \<rparr>) ident (DdInvalid e), False)
                else Some (mf1 \<lparr> mf_chain := ch, mf_stashed := del_key ident (mf_stashed mf1) \<rparr>, False) }
      | _ \<Rightarrow> Some (mf, False))"

lemma kill_all_stashed: "length (mf_stashed (kill_all mf work)) \<le> length (mf_stashed mf)"
proof (induction mf work rule: kill_all.induct)
  case (1 mf work)
  show ?case
  proof (cases "work = []")
    case False
    obtain ident reason where l: "last work = (ident, reason)" by fastforce
    show ?thesis
      using "1.IH" [OF False refl l [symmetric] refl] length_del_key(1) [of ident "mf_stashed mf"] False l
      by (subst kill_all.simps) (simp add: Let_def)
  qed (simp add: kill_all.simps)
qed

lemma switch_to_keeps:
  "switch_to V mf t = Some mf' \<Longrightarrow> mf_stashed mf' = mf_stashed mf \<and> mf_pending mf' = mf_pending mf \<and> mf_nodes mf' = mf_nodes mf
     \<and> mf_dead mf' = mf_dead mf \<and> mf_anchors mf' = mf_anchors mf \<and> mf_canonical mf' = mf_canonical mf \<and> mf_genesis mf' = mf_genesis mf
     \<and> mf_network mf' = mf_network mf \<and> mf_pow_mode mf' = mf_pow_mode mf \<and> mf_proof_mode mf' = mf_proof_mode mf \<and> mf_materialized mf' = t"
  by (auto simp: switch_to_def Let_def bind_eq_Some_conv split: if_splits)

lemma try_activate_cases:
  assumes "try_activate V mf ident now_ms = Some (mf', ok)"
  obtains (wait) "mf' = mf" and "\<not> ok"
  | (joined) block share mf1 ch pn where "map_of (mf_stashed mf) ident = Some block" and "map_of (mf_pending mf) ident = Some share"
      and "switch_to V mf (th_prev_id (tb_header block)) = Some mf1" and "try_extend V (mf_chain mf1) block now_ms = (ch, Inr ())"
      and "map_of (mf_nodes mf) (th_prev_id (tb_header block)) = Some pn" and ok
      and "mf' = mf1 \<lparr> mf_chain := ch, mf_materialized := ident, mf_nodes := put_key ident
         \<lparr> bn_block = block, bn_parent = th_prev_id (tb_header block), bn_height = th_height (tb_header block),
           bn_cum = bn_cum pn + x_decode_bits (ce_ext V) (th_sc_nbits (tb_header block)), bn_ergo_height = ps_ergo_height share \<rparr> (mf_nodes mf),
         mf_pending := del_key ident (mf_pending mf), mf_stashed := del_key ident (mf_stashed mf) \<rparr>"
  | (dead) block share mf1 ch e where "map_of (mf_stashed mf) ident = Some block" and "map_of (mf_pending mf) ident = Some share"
      and "has_key (mf_nodes mf) (th_prev_id (tb_header block))"
      and "switch_to V mf (th_prev_id (tb_header block)) = Some mf1" and "try_extend V (mf_chain mf1) block now_ms = (ch, Inl e)"
      and "verdict_is_permanent e" and "\<not> ok" and "mf' = mark_dead (mf1 \<lparr> mf_chain := ch \<rparr>) ident (DdInvalid e)"
  | (dropped) block share mf1 ch e where "map_of (mf_stashed mf) ident = Some block" and "map_of (mf_pending mf) ident = Some share"
      and "has_key (mf_nodes mf) (th_prev_id (tb_header block))"
      and "switch_to V mf (th_prev_id (tb_header block)) = Some mf1" and "try_extend V (mf_chain mf1) block now_ms = (ch, Inl e)"
      and "\<not> verdict_is_permanent e" and "\<not> ok"
      and "mf' = mf1 \<lparr> mf_chain := ch, mf_stashed := del_key ident (mf_stashed mf) \<rparr>"
proof (cases "map_of (mf_stashed mf) ident")
  case None
  then show ?thesis using assms that(1) by (simp add: try_activate_def)
next
  case block: (Some block)
  show ?thesis
  proof (cases "map_of (mf_pending mf) ident")
    case None
    then show ?thesis using assms block that(1) by (simp add: try_activate_def)
  next
    case share: (Some share)
    show ?thesis
    proof (cases "has_key (mf_nodes mf) (th_prev_id (tb_header block))")
      case False
      then show ?thesis using assms block share that(1) by (simp add: try_activate_def)
    next
      case True
      with assms block share obtain mf1 where sw: "switch_to V mf (th_prev_id (tb_header block)) = Some mf1"
        by (auto simp: try_activate_def Let_def bind_eq_Some_conv)
      note keep = switch_to_keeps [OF sw]
      obtain ch r where te: "try_extend V (mf_chain mf1) block now_ms = (ch, r)" by fastforce
      show ?thesis
      proof (cases r)
        case (Inr u)
        from True obtain pn where pn: "map_of (mf_nodes mf) (th_prev_id (tb_header block)) = Some pn" by (auto simp: has_key_def)
        from assms block share True sw te Inr keep pn show ?thesis
          by (intro that(2) [OF block share sw _ pn]) (auto simp: try_activate_def Let_def)
      next
        case (Inl e)
        from assms block share True sw te Inl keep show ?thesis
          by (cases "verdict_is_permanent e") (auto simp: try_activate_def Let_def intro: that(3,4) [OF block share True sw])
      qed
    qed
  qed
qed

lemma try_activate_stashed:
  assumes "try_activate V mf ident now = Some (mf', ok)"
  shows "length (mf_stashed mf') \<le> length (mf_stashed mf) \<and> (ok \<longrightarrow> length (mf_stashed mf') < length (mf_stashed mf))"
  using assms
proof (cases rule: try_activate_cases)
  case (joined block share mf1 ch pn)
  then have "ident \<in> fst ` set (mf_stashed mf)" by (auto dest: map_of_SomeD simp: image_iff intro: bexI [of _ "(ident, block)"])
  then show ?thesis using length_del_key(2) [of ident "mf_stashed mf"] joined(7) by simp
next
  case (dead block share mf1 ch e)
  then show ?thesis
    using kill_all_stashed [of "mf1 \<lparr> mf_chain := ch \<rparr>" "[(ident, DdInvalid e)]"] switch_to_keeps [OF dead(4)] by (simp add: mark_dead_def)
next
  case (dropped block share mf1 ch e)
  then show ?thesis using length_del_key(1) [of ident "mf_stashed mf"] by simp
qed auto

function activate_loop ::
  "('h, 't, 'w, 'p, 'tr, 'pr, 'm) ct_env \<Rightarrow> ('p, 'tr, 'm) mm_fc \<Rightarrow> bytes list \<Rightarrow> u64 \<Rightarrow> nat \<Rightarrow> (('p, 'tr, 'm) mm_fc \<times> nat) option" where
  "activate_loop V mf queue now_ms n =
     (if queue = [] then Some (mf, n)
      else (case try_activate V mf (last queue) now_ms of
          None \<Rightarrow> None
        | Some (mf', False) \<Rightarrow> activate_loop V mf' (butlast queue) now_ms n
        | Some (mf', True) \<Rightarrow> activate_loop V mf' (butlast queue @ stashed_children mf' (last queue)) now_ms (n + 1)))"
  by pat_completeness auto
termination
  by (relation "measures [\<lambda>(V, mf, queue, now, n). length (mf_stashed mf), \<lambda>(V, mf, queue, now, n). length queue]")
    (auto dest!: try_activate_stashed simp: order.order_iff_strict)

declare activate_loop.simps [simp del]

definition activate_ready_from ::
  "('h, 't, 'w, 'p, 'tr, 'pr, 'm) ct_env \<Rightarrow> ('p, 'tr, 'm) mm_fc \<Rightarrow> bytes \<Rightarrow> u64 \<Rightarrow> (('p, 'tr, 'm) mm_fc \<times> nat) option" where
  "activate_ready_from V mf start now_ms = activate_loop V mf [start] now_ms 0"

section \<open>Ingest\<close>

definition ingest_share ::
  "('h, 't, 'w, 'p, 'tr, 'pr, 'm) ct_env \<Rightarrow> ('p, 'tr, 'm) mm_fc \<Rightarrow> valid_share \<Rightarrow> u64 \<Rightarrow> (('p, 'tr, 'm) mm_fc \<times> share_ingest) option" where
  "ingest_share V mf share now_ms =
     (let ident = vs_aegis_id share; eh = vs_ergo_height share in
      if has_key (mf_dead mf) ident then Some (mf, SiDead)
      else (case map_of (mf_nodes mf) ident of
          Some node \<Rightarrow>
            if eh < bn_ergo_height node then
              map_option (\<lambda>mf'. (mf', SiKnown))
                (refresh_canonical V (mf \<lparr> mf_nodes := put_key ident (node \<lparr> bn_ergo_height := eh \<rparr>) (mf_nodes mf) \<rparr>))
            else Some (mf, SiKnown)
        | None \<Rightarrow>
            let entry = (case map_of (mf_pending mf) ident of
                  None \<Rightarrow> \<lparr> ps_work = vs_work share, ps_ergo_height = eh \<rparr>
                | Some e \<Rightarrow> if eh < ps_ergo_height e then e \<lparr> ps_ergo_height := eh \<rparr> else e)
            in do {
              (mf1, activated) \<leftarrow> activate_ready_from V (mf \<lparr> mf_pending := put_key ident entry (mf_pending mf) \<rparr>) ident now_ms;
              mf2 \<leftarrow> refresh_canonical V mf1;
              Some (mf2, if 0 < activated then SiActivated activated
                         else if has_key (mf_dead mf2) ident then SiDead else SiPending) }))"

definition claim_ok :: "('h, 't, 'w, 'p, 'tr, 'pr, 'm) ct_env \<Rightarrow> 'm ct_block \<Rightarrow> bool" where
  "claim_ok V block = (case tb_coinbase block of
       None \<Rightarrow> th_reward_claim (tb_header block) = empty_reward_claim
     | Some pf \<Rightarrow> th_reward_claim (tb_header block) = cv_cm_bytes (ce_curve V) (cv_mint_cm (ce_curve V) pf))"

definition ingest_body ::
  "('h, 't, 'w, 'p, 'tr, 'pr, 'm) ct_env \<Rightarrow> ('p, 'tr, 'm) mm_fc \<Rightarrow> 'm ct_block \<Rightarrow> u64 \<Rightarrow> (('p, 'tr, 'm) mm_fc \<times> body_ingest) option" where
  "ingest_body V mf block now_ms =
     (let ident = ct_block_id (ce_ext V) (ce_wire V) block in
      if has_key (mf_nodes mf) ident then Some (mf, BiAlreadyValidated)
      else if has_key (mf_dead mf) ident then Some (mf, BiDead)
      else if th_tx_root (tb_header block) \<noteq> tx_root (ce_ext V) (ce_wire V) (tb_body block) then Some (mf, BiNotSelfAuthenticating)
      else if \<not> claim_ok V block then Some (mf, BiNotSelfAuthenticating)
      else if has_key (mf_dead mf) (th_prev_id (tb_header block)) then Some (mark_dead mf ident DdDeadParent, BiDead)
      else do {
        let stashed = (if has_key (mf_stashed mf) ident then mf_stashed mf else put_key ident block (mf_stashed mf));
        (mf1, activated) \<leftarrow> activate_ready_from V (mf \<lparr> mf_stashed := stashed \<rparr>) ident now_ms;
        mf2 \<leftarrow> refresh_canonical V mf1;
        Some (mf2, if 0 < activated then BiActivated activated
                   else if has_key (mf_dead mf2) ident then BiDead
                   else if \<not> has_key (mf_stashed mf2) ident then BiRejectedTransient
                   else if has_key (mf_pending mf2) ident then BiAwaitingParent else BiAwaitingShare) })"

definition record_anchor :: "('p, 'tr, 'm) mm_fc \<Rightarrow> bytes \<Rightarrow> u32 \<Rightarrow> ('p, 'tr, 'm) mm_fc" where
  "record_anchor mf ident h =
     mf \<lparr> mf_anchors := put_key ident (case map_of (mf_anchors mf) ident of None \<Rightarrow> h | Some old \<Rightarrow> if h < old then h else old)
       (mf_anchors mf) \<rparr>"

section \<open>Finality and views\<close>

definition pending_hostile_work :: "('p, 'tr, 'm) mm_fc \<Rightarrow> nat" where
  "pending_hostile_work mf = sum_list (map (\<lambda>(_, p). ps_work p) (mf_pending mf))"

fun hostile_base :: "'m block_tree \<Rightarrow> bytes \<Rightarrow> nat \<Rightarrow> 'm block_tree \<Rightarrow> nat option" where
  "hostile_base tree target hostile [] = Some hostile"
| "hostile_base tree target hostile ((ident, n) # rest) =
     Option.bind (is_ancestor_or_eq tree target ident) (\<lambda>below.
       hostile_base tree target (if \<not> below \<and> hostile < bn_cum n then bn_cum n else hostile) rest)"

definition is_final :: "('p, 'tr, 'm) mm_fc \<Rightarrow> bytes \<Rightarrow> nat \<Rightarrow> u32 \<Rightarrow> bool option" where
  "is_final mf target l_final settled_ergo_height =
     (if \<not> has_key (mf_nodes mf) target then Some False
      else do {
        on_branch \<leftarrow> is_ancestor_or_eq (mf_nodes mf) target (mf_canonical mf);
        if \<not> on_branch then Some False
        else do {
          path \<leftarrow> mm_path (mf_nodes mf) (mf_canonical mf);
          case find (\<lambda>i. case map_of (mf_anchors mf) i of None \<Rightarrow> False | Some h \<Rightarrow> h \<le> settled_ergo_height) (rev path) of
            None \<Rightarrow> Some False
          | Some settled \<Rightarrow> do {
              under \<leftarrow> is_ancestor_or_eq (mf_nodes mf) target settled;
              if \<not> under then Some False
              else do {
                sn \<leftarrow> map_of (mf_nodes mf) settled;
                hostile \<leftarrow> hostile_base (mf_nodes mf) target 0 (mf_nodes mf);
                Some (hostile + pending_hostile_work mf + l_final \<le> bn_cum sn) } } } })"

definition mm_daa_view :: "('p, 'tr, 'm) mm_fc \<Rightarrow> bytes \<Rightarrow> (u64 \<times> u32) list option option" where
  "mm_daa_view mf tip_id =
     (if \<not> has_key (mf_nodes mf) tip_id then Some None
      else do {
        path \<leftarrow> mm_path (mf_nodes mf) tip_id;
        view \<leftarrow> those (map (\<lambda>i. map_option (\<lambda>n. (th_timestamp_ms (tb_header (bn_block n)), th_sc_nbits (tb_header (bn_block n))))
                  (map_of (mf_nodes mf) i)) path);
        Some (Some view) })"

definition mm_canonical_tip :: "('p, 'tr, 'm) mm_fc \<Rightarrow> ct_header option" where
  "mm_canonical_tip mf = map_option (\<lambda>n. tb_header (bn_block n)) (map_of (mf_nodes mf) (mf_canonical mf))"

definition mm_cumulative_work :: "('p, 'tr, 'm) mm_fc \<Rightarrow> bytes \<Rightarrow> nat option" where
  "mm_cumulative_work mf ident = map_option bn_cum (map_of (mf_nodes mf) ident)"

end
