(* ===== verification/CtAuxPow.thy ===== *)
theory CtAuxPow
  imports MmTree
begin

text \<open>
  Aux-PoW shares of the curve-tree node (\<^verbatim>\<open>aegis-node/src/auxpow.rs\<close>): the commitment field a merge-miner embeds, the
  verifier and the witness codec. The writer of Ergo headers is the argument \<open>wh\<close>; the other crates are the records
  \<open>ext\<close>, \<open>ergo_lib\<close> and \<open>wire\<close>.
\<close>

section \<open>The commitment field\<close>

definition aegis_mm_extension_field :: "bytes \<Rightarrow> extension_field" where
  "aegis_mm_extension_field aegis_id = \<lparr> ef_key = aegis_mm_key, ef_value = mm_commitment_version # aegis_id \<rparr>"

definition kv_to_leaf :: "extension_field \<Rightarrow> bytes" where
  "kv_to_leaf f = of_nat (length (ef_key f)) # ef_key f @ ef_value f"

definition ext_leaf_digest :: "('h, 't) ext \<Rightarrow> extension_field \<Rightarrow> bytes" where
  "ext_leaf_digest E f = x_blake2b256 E (leaf_node_prefix # kv_to_leaf f)"

section \<open>The verifier\<close>

record share_ctx =
  sc_follower_tip_height :: u32
  sc_k_lag :: u32
  sc_daa :: daa_params
  sc_daa_view :: "(u64 \<times> u32) list"

datatype ct_share_error =
    SeNotAutolykosV2 | SeHeightOutOfWindow u32 u32 u32 | SeHeaderEncode | SeProofShape nat | SeProofLeafMismatch | SeProofInvalid
  | SeWrongKey bytes | SeValueLen nat | SeValueVersion u8 | SeAegisIdMismatch | SeZeroTarget u32 | SePowNotCleared u32
  | SeNbitsMismatch u32 u32 | SePanic

definition check_window :: "share_ctx \<Rightarrow> u32 \<Rightarrow> ct_share_error + unit" where
  "check_window ctx height =
     (let low = saturating_sub (sc_follower_tip_height ctx) (sc_k_lag ctx); high = saturating_add (sc_follower_tip_height ctx) 1 in
      if height < low \<or> high < height then Inl (SeHeightOutOfWindow height low high) else Inr ())"

definition check_field :: "extension_field \<Rightarrow> bytes \<Rightarrow> ct_share_error + unit" where
  "check_field f aegis_id =
     (if ef_key f \<noteq> aegis_mm_key then Inl (SeWrongKey (ef_key f))
      else if length (ef_value f) \<noteq> mm_field_value_len then Inl (SeValueLen (length (ef_value f)))
      else if ef_value f ! 0 \<noteq> mm_commitment_version then Inl (SeValueVersion (ef_value f ! 0))
      else if drop 1 (ef_value f) \<noteq> aegis_id then Inl SeAegisIdMismatch else Inr ())"

definition ct_verify_share ::
  "('h, 't) ext \<Rightarrow> 'm wire \<Rightarrow> 'h \<Rightarrow> extension_field \<Rightarrow> batch_proof \<Rightarrow> ct_header \<Rightarrow> share_ctx \<Rightarrow> ct_share_error + valid_share" where
  "ct_verify_share E W ergo_header f bp header ctx =
     bind_r (ok_or (x_h_v2_nonce E ergo_header) SeNotAutolykosV2) (\<lambda>nonce.
     bind_r (check_window ctx (x_h_height E ergo_header)) (\<lambda>_.
     bind_r (ok_or (x_h_bytes_without_pow E ergo_header) SeHeaderEncode) (\<lambda>header_bytes.
     let msg = x_blake2b256 E header_bytes; nbits = th_sc_nbits header; aegis_id = ct_header_id E W header in
     if length (bp_indices bp) \<noteq> 1 then Inl (SeProofShape (length (bp_indices bp)))
     else if snd (bp_indices bp ! 0) \<noteq> ext_leaf_digest E f then Inl SeProofLeafMismatch
     else if \<not> x_popow_verify E bp (x_h_extension_root E ergo_header) then Inl SeProofInvalid
     else bind_r (check_field f aegis_id) (\<lambda>_.
     if x_get_target E nbits = 0 then Inl (SeZeroTarget nbits)
     else if \<not> x_check_pow E msg nonce (x_h_height E ergo_header) (x_h_version E ergo_header) (x_get_target E nbits)
       then Inl (SePowNotCleared nbits)
     else bind_r (ok_or (next_nbits E (sc_daa ctx) (sc_daa_view ctx)) SePanic) (\<lambda>want.
     if nbits \<noteq> want then Inl (SeNbitsMismatch nbits want)
     else Inr \<lparr> vs_aegis_id = aegis_id, vs_work = x_decode_bits E nbits, vs_ergo_height = x_h_height E ergo_header \<rparr>)))))"

section \<open>The witness\<close>

record 'h ct_witness =
  wt_ergo_header :: 'h
  wt_field :: extension_field
  wt_proof :: batch_proof
  wt_block_bytes :: bytes

datatype witness_decode_error = WdRead | WdProof | WdTrailingBytes nat

datatype witness_error = WeBlock block_error | WeShare ct_share_error

definition witness_bytes :: "('h, 't, 'w) ergo_lib \<Rightarrow> 'm wire \<Rightarrow> ('h \<Rightarrow> bytes option) \<Rightarrow> 'h ct_witness \<Rightarrow> bytes option" where
  "witness_bytes X W wh w =
     (if 255 < length (ef_value (wt_field w)) then None
      else Option.bind (wh (wt_ergo_header w)) (\<lambda>hb.
        let pb = el_write_batch X (wt_proof w) in
        Some (hb @ ef_key (wt_field w) @ [of_nat (length (ef_value (wt_field w)))] @ ef_value (wt_field w)
          @ wr_put_u64 W (of_nat (length pb)) @ pb @ wr_put_u64 W (of_nat (length (wt_block_bytes w))) @ wt_block_bytes w)))"

definition witness_from_bytes ::
  "('h, 't) ext \<Rightarrow> ('h, 't, 'w) ergo_lib \<Rightarrow> 'm wire \<Rightarrow> bytes \<Rightarrow> witness_decode_error + 'h ct_witness" where
  "witness_from_bytes E X W bs =
     rd WdRead (x_read_header E bs) (\<lambda>header r. rd WdRead (wr_get_bytes W 2 r) (\<lambda>key r.
     rd WdRead (wr_get_u8 W r) (\<lambda>value_len r. rd WdRead (wr_get_bytes W (unat value_len) r) (\<lambda>val r.
     rd WdRead (wr_get_u64 W r) (\<lambda>proof_len r. rd WdRead (wr_get_bytes W (unat proof_len) r) (\<lambda>pb r.
     bind_r (ok_or (el_read_batch X pb) WdProof) (\<lambda>bp.
     rd WdRead (wr_get_u64 W r) (\<lambda>block_len r. rd WdRead (wr_get_bytes W (unat block_len) r) (\<lambda>bb r.
       if r \<noteq> [] then Inl (WdTrailingBytes (length r))
       else Inr \<lparr> wt_ergo_header = header, wt_field = \<lparr> ef_key = key, ef_value = val \<rparr>, wt_proof = bp, wt_block_bytes = bb \<rparr>)))))))))"

definition witness_verify :: "('h, 't) ext \<Rightarrow> 'm wire \<Rightarrow> 'h ct_witness \<Rightarrow> share_ctx \<Rightarrow> witness_error + valid_share" where
  "witness_verify E W w ctx =
     bind_r (map_err WeBlock (ct_block_from_bytes W (wt_block_bytes w))) (\<lambda>block.
       map_err WeShare (ct_verify_share E W (wt_ergo_header w) (wt_field w) (wt_proof w) (tb_header block) ctx))"

section \<open>What a share proves\<close>

lemma check_window_ok:
  "check_window ctx h = Inr u \<longleftrightarrow>
     unat (sc_follower_tip_height ctx) \<le> unat h + unat (sc_k_lag ctx) \<and> unat h \<le> unat (sc_follower_tip_height ctx) + 1"
proof -
  have "unat h < 2 ^ 32" using unsigned_less [of h] by simp
  then show ?thesis
    by (auto simp: check_window_def Let_def not_less word_less_nat_alt word_le_nat_alt unat_saturating_sub unat_saturating_add)
qed

lemma check_field_ok:
  assumes "length aegis_id = 32"
  shows "check_field f aegis_id = Inr u \<longleftrightarrow> f = aegis_mm_extension_field aegis_id"
proof
  assume "check_field f aegis_id = Inr u"
  then have "ef_key f = aegis_mm_key" "length (ef_value f) = 33" "ef_value f ! 0 = mm_commitment_version" "drop 1 (ef_value f) = aegis_id"
    by (auto simp: check_field_def mm_field_value_len_def split: if_splits)
  moreover from this have "ef_value f = mm_commitment_version # aegis_id" by (cases "ef_value f") auto
  ultimately show "f = aegis_mm_extension_field aegis_id" by (simp add: aegis_mm_extension_field_def)
qed (use assms in \<open>simp add: check_field_def aegis_mm_extension_field_def mm_field_value_len_def\<close>)

text \<open>The proof has one leaf, the digest of the field for this id, and reduces to the root that the work commits to.\<close>

definition share_binds :: "('h, 't) ext \<Rightarrow> 'h \<Rightarrow> batch_proof \<Rightarrow> bytes \<Rightarrow> bool" where
  "share_binds E ergo_header bp aegis_id \<longleftrightarrow>
     map snd (bp_indices bp) = [ext_leaf_digest E (aegis_mm_extension_field aegis_id)] \<and> x_popow_verify E bp (x_h_extension_root E ergo_header)"

lemma single_leaf: "length xs = Suc 0 \<and> snd (xs ! 0) = d \<longleftrightarrow> map snd xs = [d]"
  by (cases xs) auto

text \<open>
  A share is accepted exactly when it is real Autolykos v2 work, in the height window, whose extension root commits to the
  recomputed id of the presented header and to nothing else, under the difficulty the chain expects; its weight is the
  work of that difficulty.
\<close>
lemma share_accepted:
  assumes "\<And>bs. length (x_blake2b256 E bs) = 32"
  shows "ct_verify_share E W eh f bp header ctx = Inr s \<longleftrightarrow>
    (\<exists>nonce hb. x_h_v2_nonce E eh = Some nonce \<and> x_h_bytes_without_pow E eh = Some hb
      \<and> unat (sc_follower_tip_height ctx) \<le> unat (x_h_height E eh) + unat (sc_k_lag ctx)
      \<and> unat (x_h_height E eh) \<le> unat (sc_follower_tip_height ctx) + 1
      \<and> f = aegis_mm_extension_field (ct_header_id E W header) \<and> share_binds E eh bp (ct_header_id E W header)
      \<and> x_get_target E (th_sc_nbits header) \<noteq> 0
      \<and> x_check_pow E (x_blake2b256 E hb) nonce (x_h_height E eh) (x_h_version E eh) (x_get_target E (th_sc_nbits header))
      \<and> next_nbits E (sc_daa ctx) (sc_daa_view ctx) = Some (th_sc_nbits header)
      \<and> s = \<lparr> vs_aegis_id = ct_header_id E W header, vs_work = x_decode_bits E (th_sc_nbits header), vs_ergo_height = x_h_height E eh \<rparr>)"
proof -
  have id: "length (ct_header_id E W header) = 32" using assms by (simp add: ct_header_id_def)
  show ?thesis
    unfolding ct_verify_share_def share_binds_def single_leaf [symmetric] Let_def
    by (auto simp: result_simps check_window_ok check_field_ok [OF id])
qed

text \<open>The witness codec, on the documented behaviour of the crates' readers and writers.\<close>

definition witness_wire_ok :: "('h, 't) ext \<Rightarrow> ('h, 't, 'w) ergo_lib \<Rightarrow> 'm wire \<Rightarrow> ('h \<Rightarrow> bytes option) \<Rightarrow> bool" where
  "witness_wire_ok E X W wh \<longleftrightarrow> wire_ok W \<and> (\<forall>h hb r. wh h = Some hb \<longrightarrow> x_read_header E (hb @ r) = Some (h, r))
     \<and> (\<forall>bp. el_read_batch X (el_write_batch X bp) = Some bp)"

theorem ct_witness_roundtrip:
  assumes "witness_wire_ok E X W wh" and w: "witness_bytes X W wh w = Some bs" and "length (ef_key (wt_field w)) = 2"
    and "length (el_write_batch X (wt_proof w)) < 2 ^ 64" and "length (wt_block_bytes w) < 2 ^ 64"
  shows "witness_from_bytes E X W bs = Inr w"
proof -
  have W: "wire_ok W" and H: "\<And>h hb r. wh h = Some hb \<Longrightarrow> x_read_header E (hb @ r) = Some (h, r)"
    and B: "\<And>bp. el_read_batch X (el_write_batch X bp) = Some bp" using assms(1) by (auto simp: witness_wire_ok_def)
  from w obtain hb where hb: "wh (wt_ergo_header w) = Some hb" and len: "length (ef_value (wt_field w)) \<le> 255"
    and bs: "bs = hb @ ef_key (wt_field w) @ of_nat (length (ef_value (wt_field w))) # ef_value (wt_field w)
          @ wr_put_u64 W (of_nat (length (el_write_batch X (wt_proof w)))) @ el_write_batch X (wt_proof w)
          @ wr_put_u64 W (of_nat (length (wt_block_bytes w))) @ wt_block_bytes w"
    by (auto simp: witness_bytes_def Let_def bind_eq_Some_conv split: if_splits)
  have u: "unat (of_nat (length (ef_value (wt_field w))) :: u8) = length (ef_value (wt_field w))"
    "unat (of_nat (length (el_write_batch X (wt_proof w))) :: u64) = length (el_write_batch X (wt_proof w))"
    "unat (of_nat (length (wt_block_bytes w)) :: u64) = length (wt_block_bytes w)"
    using len assms(4,5) by (simp_all add: unat_of_nat take_bit_nat_eq_self)
  show ?thesis
    unfolding witness_from_bytes_def bs by (simp add: H [OF hb] wire_okD [OF W] u B assms(3))
qed

section \<open>One work, two shares\<close>

definition leaf_proof :: "u32 \<Rightarrow> bytes \<Rightarrow> bytes \<Rightarrow> side \<Rightarrow> batch_proof" where
  "leaf_proof i leaf sibling s = \<lparr> bp_indices = [(i, leaf)], bp_proofs = [\<lparr> pe_digest = Some sibling, pe_side = s \<rparr>] \<rparr>"

lemma leaf_proof_verifies:
  "verify_batch_merkle_proof E (leaf_proof 0 l r SideRight) (internal_hash_pair E l r)"
  "verify_batch_merkle_proof E (leaf_proof 1 r l SideLeft) (internal_hash_pair E l r)"
  by (simp_all add: verify_batch_merkle_proof_def leaf_proof_def loop_reduce.simps combine_with_proof_entry_def Let_def)

text \<open>
  C20: Nothing ties one piece of work to one block: a miner that embeds two commitment fields in one extension section gets
  an accepted share for each of the two headers, each with the full work. An id does not cover the work, so the second
  header may be the child of the first. The settlement guest refuses two shares with one work message.
\<close>
theorem one_work_two_shares:
  assumes popow: "x_popow_verify E = verify_batch_merkle_proof E" and hash: "\<And>bs. length (x_blake2b256 E bs) = 32"
    and eh: "x_h_v2_nonce E eh = Some nonce" "x_h_bytes_without_pow E eh = Some hb"
    and window: "\<forall>ctx \<in> {ctx1, ctx2}. unat (sc_follower_tip_height ctx) \<le> unat (x_h_height E eh) + unat (sc_k_lag ctx)
       \<and> unat (x_h_height E eh) \<le> unat (sc_follower_tip_height ctx) + 1"
    and root: "x_h_extension_root E eh = internal_hash_pair E
       (ext_leaf_digest E (aegis_mm_extension_field (ct_header_id E W h1))) (ext_leaf_digest E (aegis_mm_extension_field (ct_header_id E W h2)))"
    and target: "\<forall>h \<in> {h1, h2}. x_get_target E (th_sc_nbits h) \<noteq> 0
       \<and> x_check_pow E (x_blake2b256 E hb) nonce (x_h_height E eh) (x_h_version E eh) (x_get_target E (th_sc_nbits h))"
    and daa: "next_nbits E (sc_daa ctx1) (sc_daa_view ctx1) = Some (th_sc_nbits h1)" "next_nbits E (sc_daa ctx2) (sc_daa_view ctx2) = Some (th_sc_nbits h2)"
  shows "\<exists>bp1 bp2 s1 s2.
      ct_verify_share E W eh (aegis_mm_extension_field (ct_header_id E W h1)) bp1 h1 ctx1 = Inr s1
    \<and> ct_verify_share E W eh (aegis_mm_extension_field (ct_header_id E W h2)) bp2 h2 ctx2 = Inr s2
    \<and> vs_aegis_id s1 = ct_header_id E W h1 \<and> vs_aegis_id s2 = ct_header_id E W h2
    \<and> vs_work s1 = x_decode_bits E (th_sc_nbits h1) \<and> vs_work s2 = x_decode_bits E (th_sc_nbits h2)"
proof -
  let ?d1 = "ext_leaf_digest E (aegis_mm_extension_field (ct_header_id E W h1))"
    and ?d2 = "ext_leaf_digest E (aegis_mm_extension_field (ct_header_id E W h2))"
  have b1: "share_binds E eh (leaf_proof 0 ?d1 ?d2 SideRight) (ct_header_id E W h1)"
    and b2: "share_binds E eh (leaf_proof 1 ?d2 ?d1 SideLeft) (ct_header_id E W h2)"
    using leaf_proof_verifies(1) [of E ?d1 ?d2] leaf_proof_verifies(2) [of E ?d2 ?d1]
    unfolding share_binds_def popow root by (simp_all add: leaf_proof_def)
  have w: "unat (sc_follower_tip_height c) \<le> unat (x_h_height E eh) + unat (sc_k_lag c)" "unat (x_h_height E eh) \<le> unat (sc_follower_tip_height c) + 1"
    if "c \<in> {ctx1, ctx2}" for c using window that by blast+
  have t: "x_get_target E (th_sc_nbits h) \<noteq> 0"
    "x_check_pow E (x_blake2b256 E hb) nonce (x_h_height E eh) (x_h_version E eh) (x_get_target E (th_sc_nbits h))" if "h \<in> {h1, h2}" for h
    using target that by blast+
  have s1: "ct_verify_share E W eh (aegis_mm_extension_field (ct_header_id E W h1)) (leaf_proof 0 ?d1 ?d2 SideRight) h1 ctx1
      = Inr \<lparr> vs_aegis_id = ct_header_id E W h1, vs_work = x_decode_bits E (th_sc_nbits h1), vs_ergo_height = x_h_height E eh \<rparr>"
    unfolding share_accepted [OF hash] using eh w [of ctx1] t [of h1] daa(1) b1 by simp
  have s2: "ct_verify_share E W eh (aegis_mm_extension_field (ct_header_id E W h2)) (leaf_proof 1 ?d2 ?d1 SideLeft) h2 ctx2
      = Inr \<lparr> vs_aegis_id = ct_header_id E W h2, vs_work = x_decode_bits E (th_sc_nbits h2), vs_ergo_height = x_h_height E eh \<rparr>"
    unfolding share_accepted [OF hash] using eh w [of ctx2] t [of h2] daa(2) b2 by simp
  show ?thesis by (rule exI, rule exI, rule exI, rule exI, rule conjI [OF s1 conjI [OF s2]]) simp
qed

end
