(* ===== verification/CtMempool.thy ===== *)
theory CtMempool
  imports CtChain
begin

text \<open>
  The transfer pool of the curve-tree node (\<^verbatim>\<open>aegis-node/src/mempool.rs\<close>): admission against a snapshot of the chain,
  selection for a block, removal and eviction. A panic is \<open>MeePanic\<close>.
\<close>

section \<open>State\<close>

definition max_mempool_txs :: nat where "max_mempool_txs = 1024"
definition max_block_transfers :: nat where "max_block_transfers = 64"

record 'p admission_view =
  av_leaves :: "'p list"
  av_spent :: "bytes set"
  av_fee :: u64

datatype admit_error = MeFull | MeAlreadySpent | MeConflict | MeNoAnchor | MeInvalid ct_proof_error | MePanic

datatype admitted = AdNew bytes | AdDuplicate bytes

record tx_pool =
  tp_by_id :: "(bytes \<times> shielded_transfer) list"
  tp_nullifiers :: "bytes set"

definition pool_new :: tx_pool where
  "pool_new = \<lparr> tp_by_id = [], tp_nullifiers = {} \<rparr>"

definition pool_tx_id :: "('h, 't) ext \<Rightarrow> 'm wire \<Rightarrow> shielded_transfer \<Rightarrow> bytes" where
  "pool_tx_id E W tx = x_blake2b256 E (transfer_bytes W tx)"

section \<open>Operations\<close>

definition view_anchor :: "('p, 'tr, 'pr, 'm) curve \<Rightarrow> 'p admission_view \<Rightarrow> admit_error + 'tr" where
  "view_anchor C view = (if av_leaves view = [] then Inl MeNoAnchor else ok_or (build_tree C (av_leaves view)) MePanic)"

definition check_free :: "'p admission_view \<Rightarrow> bytes set \<Rightarrow> unit \<Rightarrow> bytes \<Rightarrow> admit_error + unit" where
  "check_free view pending u nf =
     (if nf \<in> av_spent view then Inl MeAlreadySpent else if nf \<in> pending then Inl MeConflict else Inr ())"

definition pool_admit ::
  "('h, 't, 'w, 'p, 'tr, 'pr, 'm) ct_env \<Rightarrow> tx_pool \<Rightarrow> shielded_transfer \<Rightarrow> 'p admission_view \<Rightarrow> admit_error + tx_pool \<times> admitted" where
  "pool_admit V pool tx view =
     (let ident = pool_tx_id (ce_ext V) (ce_wire V) tx in
      if has_key (tp_by_id pool) ident then Inr (pool, AdDuplicate ident)
      else if max_mempool_txs \<le> length (tp_by_id pool) then Inl MeFull
      else bind_r (fold_r (check_free view (tp_nullifiers pool)) () (sx_nullifiers tx)) (\<lambda>_.
        bind_r (view_anchor (ce_curve V) view) (\<lambda>anchor.
        bind_r (map_err MeInvalid (verify_shielded_transfer (ce_curve V) anchor tx (av_fee view))) (\<lambda>_.
          Inr (\<lparr> tp_by_id = put_key ident tx (tp_by_id pool), tp_nullifiers = tp_nullifiers pool \<union> set (sx_nullifiers tx) \<rparr>,
               AdNew ident)))))"

definition pool_tx_bytes :: "'m wire \<Rightarrow> tx_pool \<Rightarrow> bytes list" where
  "pool_tx_bytes W pool = map (\<lambda>(_, tx). transfer_bytes W tx) (tp_by_id pool)"

fun select_loop ::
  "('p, 'tr, 'pr, 'm) curve \<Rightarrow> 'tr \<Rightarrow> u64 \<Rightarrow> (bytes \<times> shielded_transfer) list \<Rightarrow> shielded_transfer list \<times> bytes list \<Rightarrow>
     shielded_transfer list \<times> bytes list" where
  "select_loop C anchor fee [] acc = acc"
| "select_loop C anchor fee ((ident, tx) # rest) acc =
     (if max_block_transfers \<le> length (fst acc) then acc
      else select_loop C anchor fee rest
        (if verify_shielded_transfer C anchor tx fee = Inr () then (fst acc @ [tx], snd acc @ [ident]) else acc))"

definition select_for_block ::
  "('p, 'tr, 'pr, 'm) curve \<Rightarrow> tx_pool \<Rightarrow> 'tr option \<Rightarrow> u64 \<Rightarrow> shielded_transfer list \<times> bytes list" where
  "select_for_block C pool anchor fee =
     (case anchor of None \<Rightarrow> ([], []) | Some tree \<Rightarrow> select_loop C tree fee (tp_by_id pool) ([], []))"

definition pool_remove_one :: "tx_pool \<Rightarrow> bytes \<Rightarrow> tx_pool" where
  "pool_remove_one pool ident =
     (case map_of (tp_by_id pool) ident of
        None \<Rightarrow> pool
      | Some tx \<Rightarrow> \<lparr> tp_by_id = del_key ident (tp_by_id pool), tp_nullifiers = tp_nullifiers pool - set (sx_nullifiers tx) \<rparr>)"

definition pool_remove :: "tx_pool \<Rightarrow> bytes list \<Rightarrow> tx_pool" where
  "pool_remove pool ids = foldl pool_remove_one pool ids"

definition evict_spent :: "tx_pool \<Rightarrow> bytes set \<Rightarrow> tx_pool" where
  "evict_spent pool spent =
     pool_remove pool (map fst (filter (\<lambda>(_, tx). \<exists>nf \<in> set (sx_nullifiers tx). nf \<in> spent) (tp_by_id pool)))"

section \<open>Invariant\<close>

definition nullifiers_apart :: "(bytes \<times> shielded_transfer) set \<Rightarrow> bool" where
  "nullifiers_apart R \<longleftrightarrow>
     (\<forall>i tx j ty. (i, tx) \<in> R \<longrightarrow> (j, ty) \<in> R \<longrightarrow> i \<noteq> j \<longrightarrow> set (sx_nullifiers tx) \<inter> set (sx_nullifiers ty) = {})"

lemma apartD: "nullifiers_apart R \<Longrightarrow> (i, tx) \<in> R \<Longrightarrow> (j, ty) \<in> R \<Longrightarrow> i \<noteq> j \<Longrightarrow> set (sx_nullifiers tx) \<inter> set (sx_nullifiers ty) = {}"
  by (simp add: nullifiers_apart_def)

lemma apart_subset: "nullifiers_apart R \<Longrightarrow> S \<subseteq> R \<Longrightarrow> nullifiers_apart S"
  unfolding nullifiers_apart_def by (meson subsetD)

lemma apart_insert:
  "nullifiers_apart R \<Longrightarrow> (\<And>j ty. (j, ty) \<in> R \<Longrightarrow> set (sx_nullifiers tx) \<inter> set (sx_nullifiers ty) = {}) \<Longrightarrow> nullifiers_apart (insert (i, tx) R)"
  unfolding nullifiers_apart_def by (simp add: Int_commute)

text \<open>Pending transfers share no nullifier and the index holds exactly their nullifiers.\<close>

definition pool_ok :: "tx_pool \<Rightarrow> bool" where
  "pool_ok pool \<longleftrightarrow> ord_map (tp_by_id pool) \<and> length (tp_by_id pool) \<le> max_mempool_txs
     \<and> tp_nullifiers pool = (\<Union>(_, tx) \<in> set (tp_by_id pool). set (sx_nullifiers tx))
     \<and> nullifiers_apart (set (tp_by_id pool))"

lemma pool_ok_new: "pool_ok pool_new"
  by (simp add: pool_ok_def pool_new_def nullifiers_apart_def)

lemma check_free_all:
  "fold_r (check_free view pending) () nfs = Inr u \<longleftrightarrow> set nfs \<inter> av_spent view = {} \<and> set nfs \<inter> pending = {}"
  by (induction nfs) (auto simp: check_free_def result_simps)

lemma set_put_new: "\<not> has_key m k \<Longrightarrow> set (put_key k v m) = insert (k, v) (set m)"
  by (induction m) (auto simp: has_key_iff split: if_splits)

lemma pool_admit_new:
  assumes "pool_admit V pool tx view = Inr (pool', r)" and "\<not> has_key (tp_by_id pool) (pool_tx_id (ce_ext V) (ce_wire V) tx)"
  shows "length (tp_by_id pool) < max_mempool_txs \<and> set (sx_nullifiers tx) \<inter> av_spent view = {}
    \<and> set (sx_nullifiers tx) \<inter> tp_nullifiers pool = {}
    \<and> pool' = \<lparr> tp_by_id = put_key (pool_tx_id (ce_ext V) (ce_wire V) tx) tx (tp_by_id pool),
        tp_nullifiers = tp_nullifiers pool \<union> set (sx_nullifiers tx) \<rparr>"
  using assms by (auto simp: pool_admit_def Let_def result_simps check_free_all split: if_splits)

lemma pool_admit_ok:
  assumes ok: "pool_ok pool" and step: "pool_admit V pool tx view = Inr (pool', r)"
  shows "pool_ok pool'"
proof (cases "has_key (tp_by_id pool) (pool_tx_id (ce_ext V) (ce_wire V) tx)")
  case True
  then show ?thesis using step ok by (simp add: pool_admit_def Let_def)
next
  case False
  note new = pool_admit_new [OF step False]
  have rows: "set (tp_by_id pool') = insert (pool_tx_id (ce_ext V) (ce_wire V) tx, tx) (set (tp_by_id pool))"
    using new set_put_new [OF False] by simp
  have free: "set (sx_nullifiers tx) \<inter> set (sx_nullifiers ty) = {}" if "(j, ty) \<in> set (tp_by_id pool)" for j ty
    using new ok that unfolding pool_ok_def by blast
  have "ord_map (tp_by_id pool')" "length (tp_by_id pool') \<le> max_mempool_txs" using ok new False by (simp_all add: pool_ok_def length_put_key)
  moreover have "tp_nullifiers pool' = (\<Union>(_, tx) \<in> set (tp_by_id pool'). set (sx_nullifiers tx))"
    using ok new rows by (simp add: pool_ok_def Un_commute)
  moreover have "nullifiers_apart (set (tp_by_id pool'))"
    unfolding rows using ok free by (intro apart_insert) (simp_all add: pool_ok_def)
  ultimately show ?thesis by (simp add: pool_ok_def)
qed

lemma pool_remove_one_ok:
  assumes "pool_ok pool"
  shows "pool_ok (pool_remove_one pool ident)"
proof (cases "map_of (tp_by_id pool) ident")
  case (Some tx)
  have m: "(ident, tx) \<in> set (tp_by_id pool)" using Some by (rule map_of_SomeD)
  have l: "length (del_key ident (tp_by_id pool)) \<le> length (tp_by_id pool)" by (simp add: del_key_def)
  have uniq: "ty = tx" if "(ident, ty) \<in> set (tp_by_id pool)" for ty
  proof -
    have "map_of (tp_by_id pool) ident = Some ty" using that map_of_iff_in [of "tp_by_id pool" ident ty] assms by (simp add: pool_ok_def)
    then show ?thesis using Some by simp
  qed
  let ?pool' = "pool_remove_one pool ident"
  have rows: "set (tp_by_id ?pool') = {kv \<in> set (tp_by_id pool). fst kv \<noteq> ident}" by (simp add: pool_remove_one_def Some set_del_key)
  have apart: "set (sx_nullifiers tx) \<inter> set (sx_nullifiers ty) = {}" if "(j, ty) \<in> set (tp_by_id pool)" "j \<noteq> ident" for j ty
    using that m assms unfolding pool_ok_def by (metis apartD)
  have "ord_map (tp_by_id ?pool')" "length (tp_by_id ?pool') \<le> max_mempool_txs" using assms l by (simp_all add: pool_ok_def pool_remove_one_def Some)
  moreover have "tp_nullifiers ?pool' = (\<Union>(_, tx) \<in> set (tp_by_id ?pool'). set (sx_nullifiers tx))"
  proof -
    have "tp_nullifiers ?pool' = (\<Union>(_, tx) \<in> set (tp_by_id pool). set (sx_nullifiers tx)) - set (sx_nullifiers tx)"
      using assms by (simp add: pool_ok_def pool_remove_one_def Some)
    also have "\<dots> = (\<Union>(_, tx) \<in> set (tp_by_id ?pool'). set (sx_nullifiers tx))"
      unfolding rows using uniq apart by fastforce
    finally show ?thesis .
  qed
  moreover have "nullifiers_apart (set (tp_by_id ?pool'))"
    unfolding rows by (rule apart_subset [of "set (tp_by_id pool)"]) (use assms in \<open>auto simp: pool_ok_def\<close>)
  ultimately show ?thesis by (simp add: pool_ok_def)
qed (use assms in \<open>simp add: pool_remove_one_def\<close>)

lemma pool_remove_ok: "pool_ok pool \<Longrightarrow> pool_ok (pool_remove pool ids)"
  unfolding pool_remove_def by (induction ids arbitrary: pool) (simp_all add: pool_remove_one_ok)

datatype 'p pool_event = PvAdmit shielded_transfer "'p admission_view" | PvRemove "bytes list" | PvEvict "bytes set"

definition pool_step :: "('h, 't, 'w, 'p, 'tr, 'pr, 'm) ct_env \<Rightarrow> tx_pool \<Rightarrow> 'p pool_event \<Rightarrow> tx_pool" where
  "pool_step V pool ev = (case ev of
       PvAdmit tx view \<Rightarrow> (case pool_admit V pool tx view of Inl _ \<Rightarrow> pool | Inr (pool', _) \<Rightarrow> pool')
     | PvRemove ids \<Rightarrow> pool_remove pool ids
     | PvEvict spent \<Rightarrow> evict_spent pool spent)"

lemma pool_step_ok: "pool_ok pool \<Longrightarrow> pool_ok (pool_step V pool ev)"
  by (cases ev) (auto simp: pool_step_def evict_spent_def intro: pool_remove_ok pool_admit_ok split: sum.splits)

lemma pool_run_ok: "pool_ok pool \<Longrightarrow> pool_ok (foldl (pool_step V) pool evs)"
  by (induction evs arbitrary: pool) (simp_all add: pool_step_ok)

section \<open>Selection\<close>

lemma select_loop_rows:
  "length txs \<le> max_block_transfers \<Longrightarrow> select_loop C anchor fee rows (txs, ids) =
     (let sel = take (max_block_transfers - length txs) (filter (\<lambda>(_, tx). verify_shielded_transfer C anchor tx fee = Inr ()) rows)
      in (txs @ map snd sel, ids @ map fst sel))"
proof (induction rows arbitrary: txs ids)
  case (Cons row rows)
  obtain i tx where row: "row = (i, tx)" by fastforce
  show ?case
  proof (cases "max_block_transfers \<le> length txs")
    case False
    then obtain k where k: "max_block_transfers - length txs = Suc k" by (metis Suc_diff_Suc not_less)
    then have "max_block_transfers - Suc (length txs) = k" by simp
    then show ?thesis using Cons.IH [of "txs @ [tx]" "ids @ [i]"] Cons.IH [of txs ids] Cons.prems False k row by (simp add: Let_def)
  qed (use row in \<open>simp add: Let_def\<close>)
qed simp

text \<open>The first \<open>max_block_transfers\<close> pending transfers, in id order, that verify against the live anchor.\<close>

lemma select_for_block_rows:
  "select_for_block C pool (Some anchor) fee =
     (let sel = take max_block_transfers (filter (\<lambda>(_, tx). verify_shielded_transfer C anchor tx fee = Inr ()) (tp_by_id pool))
      in (map snd sel, map fst sel))"
  by (simp add: select_for_block_def select_loop_rows)

lemma distinct_nullifiers:
  assumes "distinct (map fst rows)" and "\<And>i tx. (i, tx) \<in> set rows \<Longrightarrow> distinct (sx_nullifiers tx)" and "nullifiers_apart (set rows)"
  shows "distinct (concat (map sx_nullifiers (map snd rows)))"
  using assms
proof (induction rows)
  case (Cons row rows)
  obtain i tx where row: "row = (i, tx)" by fastforce
  have apart: "set (sx_nullifiers tx) \<inter> set (sx_nullifiers ty) = {}" if "(j, ty) \<in> set rows" for j ty
  proof -
    have "i \<noteq> j" using Cons.prems(1) that by (force simp: row)
    then show ?thesis using apartD [OF Cons.prems(3), of i tx j ty] that by (simp add: row)
  qed
  have "set (sx_nullifiers tx) \<inter> set (concat (map sx_nullifiers (map snd rows))) = {}"
  proof -
    have "n \<notin> set (sx_nullifiers tx)" if "n \<in> set (concat (map sx_nullifiers (map snd rows)))" for n
    proof -
      from that obtain j ty where "(j, ty) \<in> set rows" "n \<in> set (sx_nullifiers ty)" by auto
      then show ?thesis using apart by blast
    qed
    then show ?thesis by blast
  qed
  moreover have "distinct (concat (map sx_nullifiers (map snd rows)))"
  proof (rule Cons.IH)
    show "distinct (map fst rows)" using Cons.prems(1) by simp
    show "distinct (sx_nullifiers ty)" if "(j, ty) \<in> set rows" for j ty using Cons.prems(2) that by (meson list.set_intros(2))
    show "nullifiers_apart (set rows)" by (rule apart_subset [OF Cons.prems(3)]) auto
  qed
  moreover have "distinct (sx_nullifiers tx)" using Cons.prems(2) [of i tx] by (simp add: row)
  ultimately show ?case by (simp add: row)
qed simp

lemma nullifier_fold:
  "distinct (seen @ nfs) \<Longrightarrow> set nfs \<inter> cs_nullifiers st = {} \<Longrightarrow> fold_r (nullifier_step st) seen nfs = Inr (seen @ nfs)"
  by (induction nfs arbitrary: seen) (auto simp: nullifier_step_def)

text \<open>
  Whatever the sequence of submissions, removals and evictions, the pool never holds two transfers that share a nullifier;
  so the selection of any transfers without an internal repeat passes the double-spend check of the block.
\<close>
theorem selection_is_conflict_free:
  assumes pool: "pool = foldl (pool_step V) pool_new evs" and each: "\<forall>(_, tx) \<in> set (tp_by_id pool). distinct (sx_nullifiers tx)"
    and "tp_nullifiers pool \<inter> cs_nullifiers st = {}"
  shows "\<exists>txs ids. select_for_block C pool (Some anchor) fee = (txs, ids) \<and> length txs \<le> 64
    \<and> (\<forall>tx \<in> set txs. verify_shielded_transfer C anchor tx fee = Inr ())
    \<and> block_nullifiers st txs = Inr (concat (map sx_nullifiers txs))"
proof -
  have ok: "pool_ok pool" unfolding pool by (rule pool_run_ok [OF pool_ok_new])
  define sel where "sel = take max_block_transfers (filter (\<lambda>(_, tx). verify_shielded_transfer C anchor tx fee = Inr ()) (tp_by_id pool))"
  have sub: "set sel \<subseteq> set (tp_by_id pool)"
    unfolding sel_def by (meson filter_is_subset set_take_subset subset_trans)
  have ver: "\<forall>tx \<in> set (map snd sel). verify_shielded_transfer C anchor tx fee = Inr ()"
    unfolding sel_def by (auto dest: in_set_takeD)
  have d: "distinct (map fst sel)"
    unfolding sel_def take_map [symmetric]
    by (intro distinct_take distinct_map_filter ord_map_distinct) (use ok in \<open>simp add: pool_ok_def\<close>)
  let ?nfs = "concat (map sx_nullifiers (map snd sel))"
  have "distinct ?nfs"
  proof (rule distinct_nullifiers [OF d])
    show "distinct (sx_nullifiers tx)" if "(i, tx) \<in> set sel" for i tx using that each sub by blast
    show "nullifiers_apart (set sel)" using ok sub unfolding pool_ok_def by (metis apart_subset)
  qed
  moreover have "set ?nfs \<subseteq> tp_nullifiers pool"
  proof
    fix n assume "n \<in> set ?nfs"
    then obtain i tx where "(i, tx) \<in> set sel" "n \<in> set (sx_nullifiers tx)" by auto
    with sub have "n \<in> (\<Union>(_, tx) \<in> set (tp_by_id pool). set (sx_nullifiers tx))" by blast
    then show "n \<in> tp_nullifiers pool" using ok by (simp add: pool_ok_def)
  qed
  then have "set ?nfs \<inter> cs_nullifiers st = {}" using assms(3) by blast
  ultimately have "block_nullifiers st (map snd sel) = Inr ?nfs"
    using nullifier_fold [of "[]" ?nfs st] by (simp only: block_nullifiers_def append_Nil)
  moreover have "select_for_block C pool (Some anchor) fee = (map snd sel, map fst sel)" by (simp only: select_for_block_rows sel_def Let_def)
  moreover have "length (map snd sel) \<le> 64" by (simp add: sel_def max_block_transfers_def)
  ultimately show ?thesis using ver by blast
qed

section \<open>A transfer that spends one note twice\<close>

lemma produce_needs_distinct:
  assumes "tx \<in> set (bb_transfers body)" and "\<not> distinct (sx_nullifiers tx)"
  shows "\<exists>e. produce_inner V ch body now reward claim coinbase pms = Inl e"
proof (cases "produce_inner V ch body now reward claim coinbase pms")
  case (Inr b)
  then obtain st undo where "ct_apply_block (ce_ext V) (ce_ergo V) (ce_curve V) (cc_state ch) (bb_transfers body) pms
      (net_params_of (cc_network ch)) reward (cc_peg ch) = Inr (st, undo)"
    by (auto simp: produce_inner_def apply_of_def result_simps Let_def)
  then obtain nfs where "block_nullifiers (cc_state ch) (bb_transfers body) = Inr nfs" by (rule ct_apply_parts)
  then have "distinct (concat (map sx_nullifiers (bb_transfers body)))" using block_nullifiers_fresh by blast
  then have "distinct (sx_nullifiers tx)" using assms(1) by (auto simp: distinct_concat_iff)
  with assms(2) show ?thesis by simp
qed simp

lemma evict_keeps:
  assumes "(i, tx) \<in> set (tp_by_id pool)" and "set (sx_nullifiers tx) \<inter> spent = {}" and "ord_map (tp_by_id pool)"
  shows "(i, tx) \<in> set (tp_by_id (evict_spent pool spent))"
proof -
  define doomed where "doomed = map fst (filter (\<lambda>(_, tx). \<exists>nf \<in> set (sx_nullifiers tx). nf \<in> spent) (tp_by_id pool))"
  have out: "i \<notin> set doomed"
  proof
    assume "i \<in> set doomed"
    then have "\<exists>ty. (i, ty) \<in> set (tp_by_id pool) \<and> (\<exists>nf \<in> set (sx_nullifiers ty). nf \<in> spent)" by (auto simp: doomed_def)
    then obtain ty where "(i, ty) \<in> set (tp_by_id pool)" "\<exists>nf \<in> set (sx_nullifiers ty). nf \<in> spent" by blast
    moreover from this(1) have "ty = tx" using map_of_iff_in [OF assms(3)] assms(1) by (metis option.inject)
    ultimately show False using assms(2) by blast
  qed
  have "(i, tx) \<in> set (tp_by_id p) \<Longrightarrow> i \<notin> set ids \<Longrightarrow> (i, tx) \<in> set (tp_by_id (pool_remove p ids))" for p ids
    unfolding pool_remove_def
    by (induction ids arbitrary: p) (auto simp: pool_remove_one_def set_del_key split: option.split)
  then show ?thesis using assms(1) out unfolding evict_spent_def doomed_def [symmetric] by blast
qed

text \<open>
  C22: Admission never compares the nullifiers of one transfer with each other: a transfer that spends one note twice is
  admitted when its proof verifies, is selected, stays through every eviction while the note is unspent, and every block
  built from the selection fails, at any chain.
\<close>
theorem twin_spend_stalls_producer:
  assumes pool: "pool = foldl (pool_step V) pool_new evs" and small: "length (tp_by_id pool) < 64"
    and new: "\<not> has_key (tp_by_id pool) (pool_tx_id (ce_ext V) (ce_wire V) tx)"
    and twin: "\<not> distinct (sx_nullifiers tx)" and free: "set (sx_nullifiers tx) \<inter> (av_spent view \<union> tp_nullifiers pool) = {}"
    and anchor: "av_leaves view \<noteq> []" "build_tree (ce_curve V) (av_leaves view) = Some anchor"
    and proof_ok: "verify_shielded_transfer (ce_curve V) anchor tx (av_fee view) = Inr ()"
  shows "\<exists>pool' i txs ids. pool_admit V pool tx view = Inr (pool', AdNew i)
    \<and> select_for_block (ce_curve V) pool' (Some anchor) (av_fee view) = (txs, ids)
    \<and> (\<forall>prove ch now pms. \<exists>e. produce_next_with_coinbase V prove ch \<lparr> bb_transfers = txs, bb_peg_mints = pms \<rparr> now = Inl e)
    \<and> (\<forall>spent. set (sx_nullifiers tx) \<inter> spent = {} \<longrightarrow> (i, tx) \<in> set (tp_by_id (evict_spent pool' spent)))"
proof -
  let ?i = "pool_tx_id (ce_ext V) (ce_wire V) tx"
  define pool' where "pool' = \<lparr> tp_by_id = put_key ?i tx (tp_by_id pool), tp_nullifiers = tp_nullifiers pool \<union> set (sx_nullifiers tx) \<rparr>"
  have ok: "pool_ok pool" unfolding pool by (rule pool_run_ok [OF pool_ok_new])
  have free': "fold_r (check_free view (tp_nullifiers pool)) () (sx_nullifiers tx) = Inr ()" using free by (auto simp: check_free_all)
  have admit: "pool_admit V pool tx view = Inr (pool', AdNew ?i)"
    using new small free' anchor proof_ok
    by (simp add: pool_admit_def Let_def pool'_def view_anchor_def max_mempool_txs_def)
  have rows: "set (tp_by_id pool') = insert (?i, tx) (set (tp_by_id pool))" "length (tp_by_id pool') \<le> 64" "ord_map (tp_by_id pool')"
    using set_put_new [OF new] ok new small by (simp_all add: pool'_def length_put_key pool_ok_def)
  define sel where "sel = filter (\<lambda>(_, tx). verify_shielded_transfer (ce_curve V) anchor tx (av_fee view) = Inr ()) (tp_by_id pool')"
  have "length sel \<le> 64" unfolding sel_def using rows(2) by (meson le_trans length_filter_le)
  then have select: "select_for_block (ce_curve V) pool' (Some anchor) (av_fee view) = (map snd sel, map fst sel)"
    by (simp add: select_for_block_rows Let_def sel_def [symmetric] max_block_transfers_def)
  have "(?i, tx) \<in> set sel" unfolding sel_def using rows(1) proof_ok by simp
  then have mem: "tx \<in> set (map snd sel)" by force
  have "\<exists>e. produce_next_with_coinbase V prove ch \<lparr> bb_transfers = map snd sel, bb_peg_mints = pms \<rparr> now = Inl e" for prove ch now pms
    using produce_needs_distinct [of tx "\<lparr> bb_transfers = map snd sel, bb_peg_mints = pms \<rparr>"] mem twin
    by (auto simp: produce_next_with_coinbase_def Let_def bind_r_def split: sum.split)
  then show ?thesis using admit select evict_keeps [OF _ _ rows(3)] rows(1) by blast
qed

end
