(* ===== verification/CtStore.thy ===== *)
theory CtStore
  imports CtAuxPow CtMempool
begin

text \<open>
  The append-only block and witness logs of the curve-tree node (\<^verbatim>\<open>aegis-node/src/store.rs\<close>): framing, the recovery
  from a torn append, and the rebuild of a chain by replay. A file is its bytes, \<open>None\<close> when it does not exist; input and
  output errors are not modelled. Unlike the log of the hash-native node, recovery truncates the file.
\<close>

section \<open>Framing\<close>

definition max_record_bytes :: nat where "max_record_bytes = max_block_bytes + max_proof_bytes + 1024"

datatype store_error = SrRecordTooLarge nat nat nat | SrDecode nat block_error | SrWitnessDecode nat witness_decode_error
  | SrWitnessEncode | SrReplay u64 extend_error

definition log_append :: "bytes option \<Rightarrow> bytes \<Rightarrow> bytes option" where
  "log_append file payload = Some ((case file of None \<Rightarrow> [] | Some data \<Rightarrow> data) @ to_le32 (of_nat (length payload)) @ payload)"

text \<open>The loop of the reader from \<open>offset\<close>: the records found, and the offset behind the last complete one.\<close>

function records_from :: "nat \<Rightarrow> bytes \<Rightarrow> nat \<Rightarrow> (nat \<times> bytes) list \<Rightarrow> store_error + (nat \<times> bytes) list \<times> nat" where
  "records_from cap data offset records =
     (if length data \<le> offset then Inr (records, offset)
      else if length data - offset < 4 then Inr (records, offset)
      else let len = unat (from_le32 (take 4 (drop offset data))); start = offset + 4 in
        if cap < len then Inl (SrRecordTooLarge offset len cap)
        else if length data - start < len then Inr (records, offset)
        else records_from cap data (start + len) (records @ [(offset, take len (drop start data))]))"
  by pat_completeness auto
termination by (relation "measure (\<lambda>(cap, data, offset, records). length data - offset)") auto

declare records_from.simps [simp del]

text \<open>The records of a file, and the file after a partial record was cut off.\<close>

definition read_records :: "bytes option \<Rightarrow> nat \<Rightarrow> store_error + (nat \<times> bytes) list \<times> bytes option" where
  "read_records file cap =
     (case file of None \<Rightarrow> Inr ([], None)
      | Some data \<Rightarrow> bind_r (records_from cap data 0 []) (\<lambda>(records, offset). Inr (records, Some (take offset data))))"

section \<open>Blocks and witnesses\<close>

definition save_block :: "'m wire \<Rightarrow> bytes option \<Rightarrow> 'm ct_block \<Rightarrow> bytes option" where
  "save_block W file block = log_append file (ct_block_bytes W block)"

definition ct_read_log :: "'m wire \<Rightarrow> bytes option \<Rightarrow> store_error + 'm ct_block list \<times> bytes option" where
  "ct_read_log W file =
     bind_r (read_records file max_record_bytes) (\<lambda>(records, file').
     bind_r (fold_r (\<lambda>acc (offset, payload). bind_r (map_err (SrDecode offset) (ct_block_from_bytes W payload)) (\<lambda>b. Inr (acc @ [b])))
         [] records) (\<lambda>blocks. Inr (blocks, file')))"

definition save_witness ::
  "('h, 't, 'w) ergo_lib \<Rightarrow> 'm wire \<Rightarrow> ('h \<Rightarrow> bytes option) \<Rightarrow> bytes option \<Rightarrow> 'h ct_witness \<Rightarrow> store_error + bytes option" where
  "save_witness X W wh file w = bind_r (ok_or (witness_bytes X W wh w) SrWitnessEncode) (\<lambda>bs. Inr (log_append file bs))"

definition max_witness_wire_bytes :: nat where "max_witness_wire_bytes = max_record_bytes + 4096"

definition read_witness_log ::
  "('h, 't) ext \<Rightarrow> ('h, 't, 'w) ergo_lib \<Rightarrow> 'm wire \<Rightarrow> bytes option \<Rightarrow> store_error + 'h ct_witness list \<times> bytes option" where
  "read_witness_log E X W file =
     bind_r (read_records file max_witness_wire_bytes) (\<lambda>(records, file').
     bind_r (fold_r (\<lambda>acc (offset, payload). bind_r (map_err (SrWitnessDecode offset) (witness_from_bytes E X W payload)) (\<lambda>w. Inr (acc @ [w])))
         [] records) (\<lambda>ws. Inr (ws, file')))"

definition load_chain ::
  "('h, 't, 'w, 'p, 'tr, 'pr, 'm) ct_env \<Rightarrow> bytes option \<Rightarrow> network \<Rightarrow> pow_mode \<Rightarrow> proof_mode \<Rightarrow>
     store_error + ('p, 'tr, 'm) ct_chain \<times> bytes option" where
  "load_chain V file net pow pf =
     bind_r (ct_read_log (ce_wire V) file) (\<lambda>(blocks, file').
     bind_r (map_err (\<lambda>(h, e). SrReplay h e) (replay_log V (ct_chain_new (ce_ext V) net pow pf) blocks)) (\<lambda>ch. Inr (ch, file')))"

section \<open>Recovery\<close>

definition ct_frame :: "bytes \<Rightarrow> bytes" where
  "ct_frame p = to_le32 (of_nat (length p)) @ p"

definition ct_framed :: "bytes list \<Rightarrow> bytes" where
  "ct_framed ps = concat (map ct_frame ps)"

fun offsets :: "nat \<Rightarrow> bytes list \<Rightarrow> (nat \<times> bytes) list" where
  "offsets n [] = []"
| "offsets n (p # ps) = (n, p) # offsets (n + length (ct_frame p)) ps"

lemma length_ct_frame: "length (ct_frame p) = 4 + length p"
  by (simp add: ct_frame_def)

lemma frame_length_read: "length p < 2 ^ 32 \<Longrightarrow> unat (from_le32 (take 4 (ct_frame p @ r))) = length p"
  by (simp add: ct_frame_def unat_of_nat take_bit_nat_eq_self)

lemma records_from_frame:
  assumes "length p \<le> cap" and "length p < 2 ^ 32"
  shows "records_from cap (pre @ ct_frame p @ rest) (length pre) recs
    = records_from cap (pre @ ct_frame p @ rest) (length pre + length (ct_frame p)) (recs @ [(length pre, p)])"
  using assms frame_length_read [OF assms(2), of rest]
  by (subst records_from.simps) (simp add: Let_def length_ct_frame, simp add: ct_frame_def add.assoc)

lemma records_from_framed:
  "\<forall>p \<in> set ps. length p \<le> cap \<and> length p < 2 ^ 32 \<Longrightarrow>
    records_from cap (pre @ ct_framed ps @ rest) (length pre) recs
    = records_from cap (pre @ ct_framed ps @ rest) (length pre + length (ct_framed ps)) (recs @ offsets (length pre) ps)"
proof (induction ps arbitrary: pre recs)
  case (Cons p ps)
  have "records_from cap (pre @ ct_framed (p # ps) @ rest) (length pre) recs
      = records_from cap ((pre @ ct_frame p) @ ct_framed ps @ rest) (length (pre @ ct_frame p)) (recs @ [(length pre, p)])"
    using records_from_frame [of p cap pre "ct_framed ps @ rest" recs] Cons.prems by (simp add: ct_framed_def)
  also have "\<dots> = records_from cap ((pre @ ct_frame p) @ ct_framed ps @ rest) (length (pre @ ct_frame p) + length (ct_framed ps))
      ((recs @ [(length pre, p)]) @ offsets (length (pre @ ct_frame p)) ps)"
    by (rule Cons.IH) (use Cons.prems in simp)
  finally show ?case by (simp add: ct_framed_def add.assoc)
qed (simp add: ct_framed_def)

lemma records_from_partial:
  assumes "length q \<le> cap" and "length q < 2 ^ 32" and "k < length (ct_frame q)"
  shows "records_from cap (pre @ take k (ct_frame q)) (length pre) recs = Inr (recs, length pre)"
proof (cases "k < 4")
  case False
  then have "take 4 (take k (ct_frame q)) = take 4 (ct_frame q @ [])" by simp
  then have "unat (from_le32 (take 4 (take k (ct_frame q)))) = length q" using frame_length_read [OF assms(2), of "[]"] by simp
  then show ?thesis using assms False by (subst records_from.simps) (auto simp: Let_def length_ct_frame)
qed (subst records_from.simps, auto simp: length_ct_frame)

lemma read_records_torn:
  assumes "\<forall>p \<in> set ps. length p \<le> cap \<and> length p < 2 ^ 32" and "length q \<le> cap" and "length q < 2 ^ 32" and "k < length (ct_frame q)"
  shows "read_records (Some (ct_framed ps @ take k (ct_frame q))) cap = Inr (offsets 0 ps, Some (ct_framed ps))"
  using records_from_framed [OF assms(1), of "[]" "take k (ct_frame q)" "[]"]
    records_from_partial [OF assms(2-4), of "ct_framed ps" "offsets 0 ps"]
  by (simp add: read_records_def)

lemma log_append_one: "log_append (Some (ct_framed ps)) p = Some (ct_framed (ps @ [p]))"
  by (simp add: log_append_def ct_framed_def ct_frame_def)

lemma log_append_framed: "foldl log_append (Some (ct_framed ps)) qs = Some (ct_framed (ps @ qs))"
  by (induction qs arbitrary: ps) (simp_all add: log_append_one)

lemma foldl_save_block: "foldl (save_block W) (Some []) bs = Some (ct_framed (map (ct_block_bytes W) bs))"
proof -
  have "foldl (save_block W) lg bs = foldl log_append lg (map (ct_block_bytes W) bs)" for lg
    by (induction bs arbitrary: lg) (simp_all add: save_block_def)
  then show ?thesis using log_append_framed [of "[]"] by (simp add: ct_framed_def)
qed

lemma wf_block_record:
  assumes W: "wire_ok W" and b: "wf_ct_block W b"
  shows "length (ct_block_bytes W b) \<le> max_record_bytes \<and> length (ct_block_bytes W b) < 2 ^ 32"
proof -
  have h: "length (header_bytes W (tb_header b)) \<le> 512"
    using b wire_okD(5) [OF W, of "th_height (tb_header b)"] wire_okD(5) [OF W, of "th_timestamp_ms (tb_header b)"]
      wire_okD(5) [OF W, of "th_pot_balance (tb_header b)"] wire_okD(5) [OF W, of "ucast (th_sc_nbits (tb_header b))"]
    by (simp add: header_bytes_def wf_ct_block_def wf_header_def)
  have bd: "length (body_bytes W (tb_body b)) \<le> max_block_bytes" using b by (simp add: wf_ct_block_def wf_body_def)
  have p: "length (put_blob W bs) \<le> 10 + length bs" for bs using wire_okD(5) [OF W] by (simp add: put_blob_def)
  have c: "length (case tb_coinbase b of None \<Rightarrow> [0] | Some m \<Rightarrow> [1] @ put_blob W (wr_put_mint W m)) \<le> 11 + max_proof_bytes"
    using b p [of "wr_put_mint W m" for m] by (auto simp: wf_ct_block_def split: option.split intro: order_trans [OF p])
  have "length (ct_block_bytes W b) \<le> (10 + 512) + (10 + max_block_bytes) + (11 + max_proof_bytes)"
    using p [of "header_bytes W (tb_header b)"] p [of "body_bytes W (tb_body b)"] h bd c by (simp add: ct_block_bytes_def)
  then show ?thesis by (simp add: max_record_bytes_def max_block_bytes_def max_proof_bytes_def)
qed

text \<open>A block the reader of the log gets back: its record is within the record cap, and the decoder returns the block.\<close>

definition readable :: "'m wire \<Rightarrow> 'm ct_block \<Rightarrow> bool" where
  "readable W b \<longleftrightarrow> length (ct_block_bytes W b) \<le> max_record_bytes \<and> ct_block_from_bytes W (ct_block_bytes W b) = Inr b"

lemma wf_readable: "wire_ok W \<Longrightarrow> wf_ct_block W b \<Longrightarrow> readable W b"
  by (simp add: readable_def wf_block_record ct_block_roundtrip_lemma)

lemma records_from_big:
  "\<forall>p \<in> set ps. length p < 2 ^ 32 \<Longrightarrow> \<not> (\<forall>p \<in> set ps. length p \<le> cap) \<Longrightarrow>
    \<exists>offset n. records_from cap (pre @ ct_framed ps @ rest) (length pre) recs = Inl (SrRecordTooLarge offset n cap)"
proof (induction ps arbitrary: pre recs)
  case (Cons p ps)
  have data: "pre @ ct_framed (p # ps) @ rest = pre @ ct_frame p @ ct_framed ps @ rest" by (simp add: ct_framed_def)
  show ?case
  proof (cases "length p \<le> cap")
    case True
    have "records_from cap (pre @ ct_framed (p # ps) @ rest) (length pre) recs
        = records_from cap ((pre @ ct_frame p) @ ct_framed ps @ rest) (length (pre @ ct_frame p)) (recs @ [(length pre, p)])"
      using records_from_frame [of p cap pre "ct_framed ps @ rest" recs] Cons.prems True by (simp add: data)
    with Cons.IH [of "pre @ ct_frame p" "recs @ [(length pre, p)]"] Cons.prems True show ?thesis by auto
  next
    case False
    then show ?thesis
      unfolding data using frame_length_read [of p "ct_framed ps @ rest"] Cons.prems(1)
      by (subst records_from.simps) (auto simp: Let_def length_ct_frame)
  qed
qed simp

lemma decode_offsets_Inr:
  "fold_r (\<lambda>acc (offset, payload). bind_r (map_err (SrDecode offset) (ct_block_from_bytes W payload)) (\<lambda>b. Inr (acc @ [b])))
      acc (offsets n ps) = Inr blocks
    \<Longrightarrow> \<exists>bs. blocks = acc @ bs \<and> list_all2 (\<lambda>p b. ct_block_from_bytes W p = Inr b) ps bs"
proof (induction ps arbitrary: acc n)
  case (Cons p ps)
  then obtain b where b: "ct_block_from_bytes W p = Inr b"
    and r: "fold_r (\<lambda>acc (offset, payload). bind_r (map_err (SrDecode offset) (ct_block_from_bytes W payload)) (\<lambda>b. Inr (acc @ [b])))
      (acc @ [b]) (offsets (n + length (ct_frame p)) ps) = Inr blocks"
    by (auto simp: bind_r_def map_err_def split: sum.splits)
  from Cons.IH [OF r] b show ?case by auto
qed simp

lemma decode_readable:
  "\<forall>b \<in> set bs. readable W b \<Longrightarrow>
    fold_r (\<lambda>acc (offset, payload). bind_r (map_err (SrDecode offset) (ct_block_from_bytes W payload)) (\<lambda>b. Inr (acc @ [b])))
      acc (offsets n (map (ct_block_bytes W) bs)) = Inr (acc @ bs)"
  by (induction bs arbitrary: acc n) (simp_all add: readable_def map_err_def)

lemma list_all2_self: "list_all2 P (map f xs) xs \<longleftrightarrow> (\<forall>x \<in> set xs. P (f x) x)"
  by (induction xs) simp_all

lemma max_record_small: "max_record_bytes < 2 ^ 32"
  by (simp add: max_record_bytes_def max_block_bytes_def max_proof_bytes_def)

text \<open>The log of a list of blocks with a torn record behind it reads back as these blocks exactly when each is readable.\<close>

lemma read_log_exact:
  assumes bs: "\<forall>b \<in> set bs. length (ct_block_bytes W b) < 2 ^ 32" and q: "length q \<le> max_record_bytes" and k: "k < length (ct_frame q)"
  shows "ct_read_log W (Some (ct_framed (map (ct_block_bytes W) bs) @ take k (ct_frame q))) = Inr (bs, file) \<longleftrightarrow>
    (\<forall>b \<in> set bs. readable W b) \<and> file = Some (ct_framed (map (ct_block_bytes W) bs))"
proof -
  let ?ps = "map (ct_block_bytes W) bs"
  have q': "length q < 2 ^ 32" using q max_record_small by linarith
  show ?thesis
  proof (cases "\<forall>p \<in> set ?ps. length p \<le> max_record_bytes")
    case True
    then have "\<forall>p \<in> set ?ps. length p \<le> max_record_bytes \<and> length p < 2 ^ 32" using bs by simp
    from read_records_torn [OF this q q' k]
    have r: "ct_read_log W (Some (ct_framed ?ps @ take k (ct_frame q))) = bind_r (fold_r (\<lambda>acc (offset, payload).
        bind_r (map_err (SrDecode offset) (ct_block_from_bytes W payload)) (\<lambda>b. Inr (acc @ [b]))) [] (offsets 0 ?ps))
        (\<lambda>blocks. Inr (blocks, Some (ct_framed ?ps)))" by (simp add: ct_read_log_def)
    show ?thesis
    proof
      assume "ct_read_log W (Some (ct_framed ?ps @ take k (ct_frame q))) = Inr (bs, file)"
      then have "fold_r (\<lambda>acc (offset, payload). bind_r (map_err (SrDecode offset) (ct_block_from_bytes W payload))
          (\<lambda>b. Inr (acc @ [b]))) [] (offsets 0 ?ps) = Inr bs" and f: "file = Some (ct_framed ?ps)"
        unfolding r by (auto simp: bind_r_eq_Inr)
      from decode_offsets_Inr [OF this(1)] True f show "(\<forall>b \<in> set bs. readable W b) \<and> file = Some (ct_framed ?ps)"
        by (simp add: list_all2_self readable_def)
    qed (simp add: r decode_readable)
  next
    case False
    have "\<forall>p \<in> set ?ps. length p < 2 ^ 32" using bs by simp
    from records_from_big [OF this False, of "[]" "take k (ct_frame q)" "[]"]
    have "\<exists>e. ct_read_log W (Some (ct_framed ?ps @ take k (ct_frame q))) = Inl e" by (auto simp: ct_read_log_def read_records_def)
    moreover have "\<not> (\<forall>b \<in> set bs. readable W b)" using False by (auto simp: readable_def)
    ultimately show ?thesis by auto
  qed
qed

section \<open>Restart\<close>

text \<open>A chain fed with blocks at the wall clocks they arrived at.\<close>

fun accept_all :: "('h, 't, 'w, 'p, 'tr, 'pr, 'm) ct_env \<Rightarrow> ('p, 'tr, 'm) ct_chain \<Rightarrow> ('m ct_block \<times> u64) list \<Rightarrow> ('p, 'tr, 'm) ct_chain option" where
  "accept_all V ch [] = Some ch"
| "accept_all V ch ((b, now) # xs) = (case try_extend V ch b now of (ch', Inr _) \<Rightarrow> accept_all V ch' xs | _ \<Rightarrow> None)"

lemma accept_all_materializes:
  assumes base: "base_ok V base"
  shows "materializes V base ch bs \<Longrightarrow> accept_all V ch xs = Some ch' \<Longrightarrow> \<forall>(b, now) \<in> set xs. unat now + 120000 < 2 ^ 64 \<Longrightarrow>
    materializes V base ch' (bs @ map fst xs)"
proof (induction xs arbitrary: ch bs)
  case (Cons x xs)
  obtain b now where x: "x = (b, now)" by fastforce
  from Cons.prems(2) obtain ch1 where st: "try_extend V ch b now = (ch1, Inr ())" and rest: "accept_all V ch1 xs = Some ch'"
    by (auto simp: x split: prod.splits sum.splits)
  have "clock_ok b" using accepted_clock_ok [OF _ st] materializes_wf [OF base Cons.prems(1)] Cons.prems(3) by (simp add: x)
  then have "materializes V base ch1 (bs @ [b])" by (rule materializes_extend [OF base Cons.prems(1) st])
  from Cons.IH [OF this rest] Cons.prems(3) show ?case by (simp add: x)
qed simp

text \<open>
  C27: Restart is exact for readable logs. Take the log of blocks accepted at clocks two minutes short of the 64-bit end, each
  shorter than 4 GiB, with whatever part of a further record within the record cap a crash left behind: loading it rebuilds the
  same blocks and the same state and cuts the torn record off the file, so that the next append is read, exactly when every
  accepted block is readable, that is, its record is within the record cap and decodes to the block. Every block within
  the wire caps is readable; acceptance does not imply it.
\<close>
theorem restart_restores_chain:
  assumes "tree_append_ok (ce_curve V)" and W: "wire_ok (ce_wire V)"
    and acc: "accept_all V (ct_chain_new (ce_ext V) net pow pf) xs = Some ch"
    and xs: "\<forall>(b, now) \<in> set xs. length (ct_block_bytes (ce_wire V) b) < 2 ^ 32 \<and> unat now + 120000 < 2 ^ 64"
    and q: "length (ct_block_bytes (ce_wire V) q) \<le> max_record_bytes" and k: "k < length (ct_frame (ct_block_bytes (ce_wire V) q))"
    and log: "foldl (save_block (ce_wire V)) (Some []) (map fst xs) = Some log"
  shows "((\<exists>ch'. load_chain V (Some (log @ take k (ct_frame (ct_block_bytes (ce_wire V) q)))) net pow pf = Inr (ch', Some log)
      \<and> cc_blocks ch' = cc_blocks ch \<and> cc_state ch' = cc_state ch) \<longleftrightarrow> (\<forall>(b, now) \<in> set xs. readable (ce_wire V) b))
    \<and> (\<forall>b. wf_ct_block (ce_wire V) b \<longrightarrow> readable (ce_wire V) b)"
proof -
  let ?base = "ct_chain_new (ce_ext V) net pow pf" and ?file = "Some (log @ take k (ct_frame (ct_block_bytes (ce_wire V) q)))"
  have base: "base_ok V ?base" by (rule base_ok_new [OF assms(1)])
  have "\<forall>(b, now) \<in> set xs. unat now + 120000 < 2 ^ 64" using xs by auto
  from accept_all_materializes [OF base materializes_base [OF base] acc this]
  have m: "materializes V ?base ch (map fst xs)" by simp
  then obtain full where full: "replay_log V ?base (map fst xs) = Inr full" and same: "same_ledger ch full" by (auto simp: materializes_def)
  have lens: "\<forall>b \<in> set (map fst xs). length (ct_block_bytes (ce_wire V) b) < 2 ^ 32" using xs by auto
  have framed: "log = ct_framed (map (ct_block_bytes (ce_wire V)) (map fst xs))" using log by (simp add: foldl_save_block)
  note exact = read_log_exact [OF lens q k]
  have all: "(\<forall>b \<in> set (map fst xs). readable (ce_wire V) b) \<longleftrightarrow> (\<forall>(b, now) \<in> set xs. readable (ce_wire V) b)" by auto
  have "(\<exists>ch'. load_chain V ?file net pow pf = Inr (ch', Some log) \<and> cc_blocks ch' = cc_blocks ch \<and> cc_state ch' = cc_state ch)
      \<longleftrightarrow> (\<forall>b \<in> set (map fst xs). readable (ce_wire V) b)"
  proof
    assume "\<exists>ch'. load_chain V ?file net pow pf = Inr (ch', Some log) \<and> cc_blocks ch' = cc_blocks ch \<and> cc_state ch' = cc_state ch"
    then obtain ch' blocks where r: "ct_read_log (ce_wire V) ?file = Inr (blocks, Some log)"
      and l: "replay_log V ?base blocks = Inr ch'" and b: "cc_blocks ch' = cc_blocks ch"
      by (auto simp: load_chain_def result_simps)
    have "blocks = map fst xs"
      using replay_wf [OF base l] materializes_wf [OF base m] b by simp
    with r framed exact show "\<forall>b \<in> set (map fst xs). readable (ce_wire V) b" by blast
  next
    assume "\<forall>b \<in> set (map fst xs). readable (ce_wire V) b"
    then have "ct_read_log (ce_wire V) ?file = Inr (map fst xs, Some log)" using exact framed by blast
    then have "load_chain V ?file net pow pf = Inr (full, Some log)" using full by (simp add: load_chain_def map_err_def)
    then show "\<exists>ch'. load_chain V ?file net pow pf = Inr (ch', Some log) \<and> cc_blocks ch' = cc_blocks ch \<and> cc_state ch' = cc_state ch"
      using same_ledgerD [OF same] by auto
  qed
  then show ?thesis unfolding all using wf_readable [OF W] by blast
qed

section \<open>Blocks above the caps\<close>

lemma big_transfers:
  assumes "\<forall>tx \<in> set txs. wf_transfer tx \<and> length (sx_proof tx) = max_proof_bytes"
  shows "length txs * 8852 \<le> length (concat (map (\<lambda>tx. put_blob W (transfer_bytes W tx)) txs))"
proof -
  have "8852 \<le> length (transfer_bytes W tx)" if "tx \<in> set txs" for tx
  proof -
    have wf: "wf_transfer tx" and p: "length (sx_proof tx) = 8192" using assms that by (simp_all add: max_proof_bytes_def)
    have "length (concat (sx_nullifiers tx)) = sum_list (map (\<lambda>_. 32) (sx_nullifiers tx))"
      unfolding length_concat using wf by (intro arg_cong [where f = sum_list] map_cong [OF refl]) (simp add: wf_transfer_def nf_bytes_def)
    then have nf: "length (concat (sx_nullifiers tx)) = 64" using wf by (simp add: wf_transfer_def tx_arity_def sum_list_triv)
    have "length (concat (map output_bytes (sx_outputs tx))) = sum_list (map (\<lambda>_. 298) (sx_outputs tx))"
      unfolding length_concat map_map using wf by (intro arg_cong [where f = sum_list] map_cong [OF refl])
        (simp add: wf_transfer_def output_bytes_def note_cm_size_def ct_epk_size_def ct_note_ct_size_def ct_out_ct_size_def)
    then have "length (concat (map output_bytes (sx_outputs tx))) = 596" using wf by (simp add: wf_transfer_def tx_arity_def sum_list_triv)
    then show ?thesis using nf p by (simp add: transfer_bytes_def)
  qed
  then show ?thesis using assms by (induction txs) (fastforce simp: put_blob_def)+
qed

text \<open>
  C23: Selection counts transfers, not bytes, and extension checks neither: a block of 64 transfers with proofs of the
  admitted size is above the record cap, so once it is saved the log cannot be read again.
\<close>
theorem oversized_block_unreadable:
  assumes W: "wire_ok W" and bs: "\<forall>b \<in> set bs. wf_ct_block W b"
    and txs: "\<forall>tx \<in> set (bb_transfers (tb_body b)). wf_transfer tx \<and> length (sx_proof tx) = max_proof_bytes"
    and full: "length (bb_transfers (tb_body b)) = max_block_transfers" and "length (ct_block_bytes W b) < 2 ^ 32"
  shows "\<exists>offset n. ct_read_log W (save_block W (foldl (save_block W) (Some []) bs) b) = Inl (SrRecordTooLarge offset n max_record_bytes)"
proof -
  let ?ps = "map (ct_block_bytes W) bs" and ?p = "ct_block_bytes W b"
  have "length x \<le> length (put_blob W x)" for x by (simp add: put_blob_def)
  then have "length (body_bytes W (tb_body b)) \<le> length ?p" unfolding ct_block_bytes_def by (simp add: trans_le_add1 trans_le_add2)
  then have big: "max_record_bytes < length ?p"
    using big_transfers [OF txs, of W] full
    by (simp add: body_bytes_def max_record_bytes_def max_block_bytes_def max_proof_bytes_def max_block_transfers_def)
  have ps: "\<forall>p \<in> set ?ps. length p \<le> max_record_bytes \<and> length p < 2 ^ 32" using wf_block_record [OF W] bs by simp
  have saved: "save_block W (foldl (save_block W) (Some []) bs) b = Some (ct_framed ?ps @ ct_frame ?p)"
    by (simp add: foldl_save_block save_block_def log_append_def ct_frame_def)
  have "records_from max_record_bytes (ct_framed ?ps @ ct_frame ?p) (length (ct_framed ?ps)) (offsets 0 ?ps)
      = Inl (SrRecordTooLarge (length (ct_framed ?ps)) (length ?p) max_record_bytes)"
    using big frame_length_read [of ?p "[]"] assms(5) by (subst records_from.simps) (simp add: Let_def length_ct_frame)
  then show ?thesis
    using records_from_framed [OF ps, of "[]" "ct_frame ?p" "[]"] by (simp add: saved ct_read_log_def read_records_def)
qed

end
