(* ===== verification/MmOrder.thy ===== *)
theory MmOrder
  imports MmTree
begin

text \<open>
  Paths in the block tree and the order of the fork choice: on a tree whose nodes hang from the genesis block, the walks
  of the code return, ancestry is membership in the path, and \<open>preferred\<close> is a strict linear order, so that the
  selection of the best node does not depend on the order in which nodes are compared.
\<close>

section \<open>Paths\<close>

inductive node_path :: "'m block_tree \<Rightarrow> bytes \<Rightarrow> bytes \<Rightarrow> bytes list \<Rightarrow> bool" for tree g where
  root: "map_of tree g \<noteq> None \<Longrightarrow> node_path tree g g [g]"
| step: "map_of tree i = Some n \<Longrightarrow> i \<noteq> g \<Longrightarrow> node_path tree g (bn_parent n) ps \<Longrightarrow> node_path tree g i (ps @ [i])"

inductive_cases node_path_rootE: "node_path tree g g ps"

lemma node_path_last: "node_path tree g i ps \<Longrightarrow> ps \<noteq> [] \<and> last ps = i \<and> hd ps = g \<and> map_of tree i \<noteq> None"
  by (induction rule: node_path.induct) auto

lemma node_path_unique: "node_path tree g i ps \<Longrightarrow> node_path tree g i qs \<Longrightarrow> qs = ps"
proof (induction arbitrary: qs rule: node_path.induct)
  case root
  then show ?case by (auto elim: node_path.cases)
next
  case (step i n ps)
  from step.prems step.hyps show ?case
    by (cases rule: node_path.cases) (auto dest: step.IH)
qed

lemma node_path_member:
  "node_path tree g i ps \<Longrightarrow> x \<in> set ps \<Longrightarrow> \<exists>qs rs. node_path tree g x qs \<and> ps = qs @ rs"
proof (induction rule: node_path.induct)
  case (step i n ps)
  show ?case
  proof (cases "x = i")
    case True
    then show ?thesis using node_path.step [OF step.hyps] by force
  next
    case False
    then obtain qs rs where "node_path tree g x qs" "ps = qs @ rs" using step by auto
    then show ?thesis by (intro exI [of _ qs] exI [of _ "rs @ [i]"]) simp
  qed
qed (auto intro: node_path.root)

lemma node_path_distinct: "node_path tree g i ps \<Longrightarrow> distinct ps \<and> set ps \<subseteq> fst ` set tree"
proof (induction rule: node_path.induct)
  case (step i n ps)
  have "i \<notin> set ps"
  proof
    assume "i \<in> set ps"
    from node_path_member [OF step.hyps(3) this] obtain qs rs where q: "node_path tree g i qs" and ps: "ps = qs @ rs" by blast
    have "qs = ps @ [i]" by (rule node_path_unique [OF node_path.step [OF step.hyps] q])
    with ps show False by simp
  qed
  then show ?case using step by (auto dest: map_of_SomeD intro: rev_image_eqI)
qed (auto simp: map_of_eq_None_iff)

lemma node_path_length: "node_path tree g i ps \<Longrightarrow> length ps \<le> length tree"
proof -
  assume p: "node_path tree g i ps"
  have "length ps = card (set ps)" using node_path_distinct [OF p] by (simp add: distinct_card)
  also have "\<dots> \<le> card (fst ` set tree)" using node_path_distinct [OF p] by (intro card_mono) auto
  also have "\<dots> \<le> length tree" by (meson card_image_le card_length le_trans List.finite_set)
  finally show ?thesis .
qed

definition blk :: "'m block_tree \<Rightarrow> bytes \<Rightarrow> 'm ct_block" where
  "blk tree i = bn_block (the (map_of tree i))"

definition parents_kept :: "'m block_tree \<Rightarrow> 'm block_tree \<Rightarrow> bool" where
  "parents_kept tree tree' \<longleftrightarrow> (\<forall>i n. map_of tree i = Some n \<longrightarrow>
     (\<exists>n'. map_of tree' i = Some n' \<and> bn_parent n' = bn_parent n \<and> bn_block n' = bn_block n
        \<and> bn_height n' = bn_height n \<and> bn_cum n' = bn_cum n))"

lemma parents_keptD:
  "parents_kept tree tree' \<Longrightarrow> map_of tree i = Some n \<Longrightarrow> \<exists>n'. map_of tree' i = Some n' \<and> bn_parent n' = bn_parent n
     \<and> bn_block n' = bn_block n \<and> bn_height n' = bn_height n \<and> bn_cum n' = bn_cum n"
  by (simp add: parents_kept_def)

lemma parents_kept_refl [simp]: "parents_kept tree tree"
  by (simp add: parents_kept_def)

lemma parents_kept_trans: "parents_kept a b \<Longrightarrow> parents_kept b c \<Longrightarrow> parents_kept a c"
proof -
  assume ab: "parents_kept a b" and bc: "parents_kept b c"
  show ?thesis
    unfolding parents_kept_def
  proof (intro allI impI)
    fix i n assume "map_of a i = Some n"
    from parents_keptD [OF ab this] obtain m where m: "map_of b i = Some m" "bn_parent m = bn_parent n" "bn_block m = bn_block n"
      "bn_height m = bn_height n" "bn_cum m = bn_cum n" by blast
    from parents_keptD [OF bc m(1)] show "\<exists>n'. map_of c i = Some n' \<and> bn_parent n' = bn_parent n \<and> bn_block n' = bn_block n
        \<and> bn_height n' = bn_height n \<and> bn_cum n' = bn_cum n" by (simp add: m)
  qed
qed

lemma node_path_kept:
  assumes "parents_kept tree tree'"
  shows "node_path tree g i ps \<Longrightarrow> node_path tree' g i ps"
proof (induction rule: node_path.induct)
  case (step i n ps)
  from parents_keptD [OF assms step.hyps(1)] obtain n' where "map_of tree' i = Some n'" "bn_parent n' = bn_parent n" by blast
  with step show ?case by (auto intro: node_path.step)
qed (auto intro!: node_path.root dest: parents_keptD [OF assms])

section \<open>Trees\<close>

definition shape_ok :: "bytes \<Rightarrow> 'm block_tree \<Rightarrow> bool" where
  "shape_ok g tree \<longleftrightarrow> ord_map tree \<and> length tree < 2 ^ 64 \<and> map_of tree g \<noteq> None
     \<and> (\<forall>i n. map_of tree i = Some n \<longrightarrow> (\<exists>ps. node_path tree g i ps \<and> bn_height n = of_nat (length ps - 1)))"

lemma shape_path:
  assumes "shape_ok g tree" and "map_of tree i = Some n"
  obtains ps where "node_path tree g i ps" and "unat (bn_height n) = length ps - 1" and "length ps < 2 ^ 64" and "1 \<le> length ps"
proof -
  from assms obtain ps where p: "node_path tree g i ps" and h: "bn_height n = of_nat (length ps - 1)" and l: "length tree < 2 ^ 64"
    by (auto simp: shape_ok_def)
  have "length ps < 2 ^ 64" using node_path_length [OF p] l by simp
  moreover have "1 \<le> length ps" using node_path_last [OF p] by (cases ps) auto
  moreover have "unat (of_nat (length ps - 1) :: u64) = length ps - 1"
    by (rule unat_length) (use \<open>length ps < 2 ^ 64\<close> in simp)
  ultimately show ?thesis using that [OF p] by (simp only: h)
qed

lemma height_zero_iff: "shape_ok g tree \<Longrightarrow> map_of tree i = Some n \<Longrightarrow> bn_height n = 0 \<longleftrightarrow> i = g"
proof -
  assume t: "shape_ok g tree" "map_of tree i = Some n"
  then obtain ps where p: "node_path tree g i ps" and h: "unat (bn_height n) = length ps - 1" by (rule shape_path)
  have "bn_height n = 0 \<longleftrightarrow> length ps - 1 = 0" using h by (metis unat_eq_zero)
  also have "\<dots> \<longleftrightarrow> i = g"
    using p by (cases rule: node_path.cases) (auto dest: node_path_last elim: node_path_rootE)
  finally show ?thesis .
qed

lemma path_walk_path:
  assumes t: "shape_ok g tree"
  shows "node_path tree g i ps \<Longrightarrow> path_walk tree i = Some (rev ps)"
proof (induction rule: node_path.induct)
  case root
  then obtain n where "map_of tree g = Some n" by auto
  then show ?case using height_zero_iff [OF t] by (subst path_walk.simps) simp
next
  case (step i n ps)
  then show ?case using height_zero_iff [OF t step.hyps(1)] by (subst path_walk.simps) simp
qed

lemma mm_path_path: "shape_ok g tree \<Longrightarrow> node_path tree g i ps \<Longrightarrow> mm_path tree i = Some ps"
  by (simp add: mm_path_def path_walk_path)

lemma mm_path_ex:
  assumes "shape_ok g tree" and "map_of tree i \<noteq> None"
  obtains ps where "node_path tree g i ps" and "mm_path tree i = Some ps"
  using assms shape_path mm_path_path by (metis option.exhaust)

section \<open>Ancestry\<close>

lemma path_heights:
  assumes t: "shape_ok g tree" and p: "node_path tree g i ps" and x: "x \<in> set ps" "x \<noteq> i"
    and n: "map_of tree i = Some n" "map_of tree x = Some m"
  shows "bn_height m < bn_height n"
proof -
  from node_path_member [OF p x(1)] obtain qs rs where q: "node_path tree g x qs" and ps: "ps = qs @ rs" by blast
  have rs: "rs \<noteq> []" using x(2) node_path_last [OF q] node_path_last [OF p] ps by auto
  have "unat (bn_height m) = length qs - 1" "1 \<le> length qs"
    using shape_path [OF t n(2)] node_path_unique [OF q] by metis+
  moreover have "unat (bn_height n) = length ps - 1"
    using shape_path [OF t n(1)] node_path_unique [OF p] by metis
  ultimately show ?thesis using rs by (cases rs) (simp_all add: word_less_nat_alt ps)
qed

lemma ancestor_walk_path:
  assumes t: "shape_ok g tree" and a: "map_of tree a = Some na"
  shows "node_path tree g d ps \<Longrightarrow> ancestor_walk tree a (bn_height na) d = Some (a \<in> set ps)"
proof (induction rule: node_path.induct)
  case root
  then obtain n where n: "map_of tree g = Some n" by auto
  then have "bn_height n = 0" using height_zero_iff [OF t] by simp
  then show ?case using n by (subst ancestor_walk.simps) auto
next
  case (step d n ps)
  note path = node_path.step [OF step.hyps]
  show ?case
  proof (cases "d = a")
    case True
    then show ?thesis by (subst ancestor_walk.simps) simp
  next
    case False
    show ?thesis
    proof (cases "bn_height n \<le> bn_height na")
      case True
      then have "a \<notin> set ps" using path_heights [OF t path _ _ step.hyps(1) a] False by auto
      then show ?thesis using False True step.hyps(1) by (subst ancestor_walk.simps) simp
    next
      case high: False
      then show ?thesis using False step by (subst ancestor_walk.simps) auto
    qed
  qed
qed

lemma is_ancestor_path:
  "shape_ok g tree \<Longrightarrow> map_of tree a \<noteq> None \<Longrightarrow> node_path tree g d ps \<Longrightarrow> is_ancestor_or_eq tree a d = Some (a \<in> set ps)"
  by (auto simp: is_ancestor_or_eq_def ancestor_walk_path)

section \<open>The order\<close>

fun tie :: "(bytes \<Rightarrow> u32) \<Rightarrow> bytes list \<Rightarrow> bytes list \<Rightarrow> bool" where
  "tie e (x # xs) (y # ys) = (if x = y then tie e xs ys else e x < e y \<or> e x = e y \<and> x < y)"
| "tie e (x # xs) [] = True"
| "tie e [] ys = False"

lemma tie_irrefl: "\<not> tie e xs xs"
  by (induction xs) auto

lemma tie_trans: "tie e xs ys \<Longrightarrow> tie e ys zs \<Longrightarrow> tie e xs zs"
proof (induction xs arbitrary: ys zs)
  case (Cons x xs)
  show ?case
  proof (cases ys)
    case Nil
    then show ?thesis using Cons.prems by simp
  next
    case ys: (Cons y ys')
    show ?thesis
    proof (cases zs)
      case zs: (Cons z zs')
      then show ?thesis using Cons ys by (auto split: if_splits intro: Cons.IH)
    qed simp
  qed
qed simp

lemma tie_total: "xs \<noteq> ys \<Longrightarrow> tie e xs ys \<or> tie e ys xs"
proof (induction xs arbitrary: ys)
  case (Cons x xs)
  then show ?case by (cases ys) (auto simp: not_less)
qed (metis list.exhaust tie.simps(2))

lemma tie_fork_index:
  "tie e xs ys = (let i = fork_index xs ys in
     if i = length xs then False else if i = length ys then True
     else e (xs ! i) < e (ys ! i) \<or> e (xs ! i) = e (ys ! i) \<and> xs ! i < ys ! i)"
proof (induction e xs ys rule: tie.induct)
  case (1 e x xs y ys)
  then show ?case by (cases "x = y") (simp_all add: Let_def)
qed (simp_all add: Let_def)

lemma fork_index_take:
  "take (fork_index xs ys) xs = take (fork_index xs ys) ys \<and> fork_index xs ys \<le> length xs \<and> fork_index xs ys \<le> length ys"
  by (induction xs ys rule: fork_index.induct) auto

definition tree_eh :: "'m block_tree \<Rightarrow> bytes \<Rightarrow> u32" where
  "tree_eh tree i = bn_ergo_height (the (map_of tree i))"

definition tree_cum :: "'m block_tree \<Rightarrow> bytes \<Rightarrow> nat" where
  "tree_cum tree i = bn_cum (the (map_of tree i))"

definition beats :: "'m block_tree \<Rightarrow> bytes \<Rightarrow> bytes \<Rightarrow> bool" where
  "beats tree a b \<longleftrightarrow> tree_cum tree b < tree_cum tree a
     \<or> tree_cum tree a = tree_cum tree b \<and> tie (tree_eh tree) (the (mm_path tree a)) (the (mm_path tree b))"

lemma preferred_beats:
  assumes t: "shape_ok g tree" and a: "map_of tree a \<noteq> None" and b: "map_of tree b \<noteq> None"
  shows "preferred tree a b = Some (beats tree a b)"
proof (cases "a = b")
  case True
  then show ?thesis by (simp add: preferred_def beats_def tie_irrefl)
next
  case False
  from a b obtain na nb where n: "map_of tree a = Some na" "map_of tree b = Some nb" by auto
  obtain pa where pa: "node_path tree g a pa" "mm_path tree a = Some pa" using mm_path_ex [OF t a] .
  obtain pb where pb: "node_path tree g b pb" "mm_path tree b = Some pb" using mm_path_ex [OF t b] .
  define i where "i = fork_index pa pb"
  have i: "i \<le> length pa" "i \<le> length pb" using fork_index_take [of pa pb] by (simp_all add: i_def)
  have known: "map_of tree x \<noteq> None" if "x \<in> set pa \<union> set pb" for x
    using that node_path_distinct [OF pa(1)] node_path_distinct [OF pb(1)] by (auto simp: map_of_eq_None_iff)
  have at: "\<exists>d. map_of tree (pa ! i) = Some d" if "i \<noteq> length pa" using known [of "pa ! i"] i(1) that by simp
  have bt: "\<exists>d. map_of tree (pb ! i) = Some d" if "i \<noteq> length pb" using known [of "pb ! i"] i(2) that by simp
  have tie: "tie (tree_eh tree) pa pb = (if i = length pa then False else if i = length pb then True
     else tree_eh tree (pa ! i) < tree_eh tree (pb ! i) \<or> tree_eh tree (pa ! i) = tree_eh tree (pb ! i) \<and> pa ! i < pb ! i)"
    unfolding tie_fork_index Let_def i_def ..
  show ?thesis
  proof (cases "bn_cum na = bn_cum nb")
    case True
    have "preferred tree a b = Some (tie (tree_eh tree) pa pb)"
      using False True at bt unfolding tie by (auto simp: preferred_def n pa pb Let_def tree_eh_def simp flip: i_def)
    then show ?thesis using True by (simp add: beats_def tree_cum_def n pa pb)
  next
    case False
    then show ?thesis using \<open>a \<noteq> b\<close> by (auto simp: preferred_def beats_def tree_cum_def n)
  qed
qed

lemma beats_trans: "beats tree a b \<Longrightarrow> beats tree b c \<Longrightarrow> beats tree a c"
  unfolding beats_def using tie_trans by fastforce

lemma beats_irrefl: "\<not> beats tree a a"
  by (simp add: beats_def tie_irrefl)

lemma beats_total:
  assumes "shape_ok g tree" "map_of tree a \<noteq> None" "map_of tree b \<noteq> None" "a \<noteq> b"
  shows "beats tree a b \<or> beats tree b a"
proof -
  obtain pa where pa: "node_path tree g a pa" "mm_path tree a = Some pa" using mm_path_ex [OF assms(1,2)] .
  obtain pb where pb: "node_path tree g b pb" "mm_path tree b = Some pb" using mm_path_ex [OF assms(1,3)] .
  have "pa \<noteq> pb" using node_path_last [OF pa(1)] node_path_last [OF pb(1)] assms(4) by auto
  then show ?thesis using tie_total [of pa pb "tree_eh tree"] by (auto simp: beats_def pa pb)
qed

section \<open>Selection\<close>

definition tree_best :: "'m block_tree \<Rightarrow> bytes \<Rightarrow> bool" where
  "tree_best tree b \<longleftrightarrow> map_of tree b \<noteq> None \<and> (\<forall>i. map_of tree i \<noteq> None \<longrightarrow> \<not> beats tree i b)"

lemma select_best_scan:
  assumes t: "shape_ok g tree"
  shows "map_of tree b \<noteq> None \<Longrightarrow> \<forall>i \<in> set is. map_of tree i \<noteq> None \<Longrightarrow>
    \<exists>b'. select_best tree b is = Some b' \<and> map_of tree b' \<noteq> None \<and> (b' = b \<or> beats tree b' b) \<and> (\<forall>i \<in> set is. \<not> beats tree i b')"
proof (induction "is" arbitrary: b)
  case (Cons i rest)
  then have i: "map_of tree i \<noteq> None" by simp
  define b1 where "b1 = (if beats tree i b then i else b)"
  have "map_of tree b1 \<noteq> None" using i Cons.prems(1) by (simp add: b1_def)
  from Cons.IH [OF this] Cons.prems(2) obtain b' where b': "select_best tree b1 rest = Some b'" "map_of tree b' \<noteq> None"
    "b' = b1 \<or> beats tree b' b1" "\<forall>j \<in> set rest. \<not> beats tree j b'" by auto
  have "select_best tree b (i # rest) = Some b'"
    using b'(1) preferred_beats [OF t i Cons.prems(1)] by (simp add: b1_def)
  moreover have "b' = b \<or> beats tree b' b" using b'(3) beats_trans by (auto simp: b1_def split: if_splits)
  moreover have "\<not> beats tree i b'"
    using b'(3) beats_trans beats_irrefl by (metis b1_def)
  ultimately show ?case using b'(2,4) by auto
qed simp

lemma select_best_ok:
  assumes t: "shape_ok g tree"
  obtains b where "select_best tree g (map fst tree) = Some b" and "tree_best tree b"
proof -
  have "map_of tree g \<noteq> None" "\<forall>i \<in> set (map fst tree). map_of tree i \<noteq> None"
    using t by (auto simp: shape_ok_def map_of_eq_None_iff)
  from select_best_scan [OF t this] obtain b where b: "select_best tree g (map fst tree) = Some b" "map_of tree b \<noteq> None"
    "\<forall>i \<in> set (map fst tree). \<not> beats tree i b" by blast
  moreover have "i \<in> set (map fst tree)" if "map_of tree i \<noteq> None" for i
    using that by (auto simp: map_of_eq_None_iff)
  ultimately have "tree_best tree b" unfolding tree_best_def by blast
  with b(1) show ?thesis by (rule that)
qed

lemma tree_best_unique: "shape_ok g tree \<Longrightarrow> tree_best tree a \<Longrightarrow> tree_best tree b \<Longrightarrow> a = b"
  unfolding tree_best_def using beats_total by blast

lemma tree_best_heaviest: "tree_best tree b \<Longrightarrow> map_of tree i \<noteq> None \<Longrightarrow> tree_cum tree i \<le> tree_cum tree b"
  unfolding tree_best_def beats_def by (metis not_le)

end
