(* ===== verification/MmForkChoice.thy ===== *)
theory MmForkChoice
  imports MmOrder
begin

text \<open>
  The fork choice never panics: from a fresh tree, under any sequence of shares, bodies and anchors, the embedded chain
  is the replay of a branch of the tree, so that every switch succeeds, and the canonical tip is the heaviest node.
\<close>

section \<open>Invariant\<close>

abbreviation mm_base :: "('h, 't, 'w, 'p, 'tr, 'pr, 'm) ct_env \<Rightarrow> ('p, 'tr, 'm) mm_fc \<Rightarrow> ('p, 'tr, 'm) ct_chain" where
  "mm_base V mf \<equiv> ct_chain_new (ce_ext V) (mf_network mf) (mf_pow_mode mf) (mf_proof_mode mf)"

abbreviation nbits_work :: "('h, 't, 'w, 'p, 'tr, 'pr, 'm) ct_env \<Rightarrow> 'm ct_block \<Rightarrow> nat" where
  "nbits_work V b \<equiv> x_decode_bits (ce_ext V) (th_sc_nbits (tb_header b))"

definition node_ok ::
  "('h, 't, 'w, 'p, 'tr, 'pr, 'm) ct_env \<Rightarrow> ('p, 'tr, 'm) ct_chain \<Rightarrow> bytes \<Rightarrow> 'm block_tree \<Rightarrow> bytes \<Rightarrow> 'm block_node \<Rightarrow> bool" where
  "node_ok V base g tree i n \<longleftrightarrow> ct_block_id (ce_ext V) (ce_wire V) (bn_block n) = i \<and> th_height (tb_header (bn_block n)) = bn_height n
     \<and> (if i = g then cc_blocks base = [bn_block n] \<and> bn_cum n = 0
        else bn_parent n = th_prev_id (tb_header (bn_block n)) \<and> clock_ok (bn_block n)
          \<and> bn_cum n = tree_cum tree (bn_parent n) + nbits_work V (bn_block n))
     \<and> (\<forall>ps. node_path tree g i ps \<longrightarrow> (\<exists>full. replay_log V base (map (blk tree) (tl ps)) = Inr full))"

definition tree_ok :: "('h, 't, 'w, 'p, 'tr, 'pr, 'm) ct_env \<Rightarrow> ('p, 'tr, 'm) ct_chain \<Rightarrow> bytes \<Rightarrow> 'm block_tree \<Rightarrow> bool" where
  "tree_ok V base g tree \<longleftrightarrow> shape_ok g tree \<and> (\<forall>i n. map_of tree i = Some n \<longrightarrow> node_ok V base g tree i n)"

definition cursor_ok :: "('h, 't, 'w, 'p, 'tr, 'pr, 'm) ct_env \<Rightarrow> ('p, 'tr, 'm) mm_fc \<Rightarrow> bool" where
  "cursor_ok V mf \<longleftrightarrow> map_of (mf_nodes mf) (mf_materialized mf) \<noteq> None
     \<and> (\<forall>ps. node_path (mf_nodes mf) (mf_genesis mf) (mf_materialized mf) ps \<longrightarrow>
          materializes V (mm_base V mf) (mf_chain mf) (map (blk (mf_nodes mf)) (tl ps)))"

definition mm_core :: "('h, 't, 'w, 'p, 'tr, 'pr, 'm) ct_env \<Rightarrow> nat \<Rightarrow> ('p, 'tr, 'm) mm_fc \<Rightarrow> bool" where
  "mm_core V N mf \<longleftrightarrow> tree_append_ok (ce_curve V) \<and> tree_ok V (mm_base V mf) (mf_genesis mf) (mf_nodes mf) \<and> cursor_ok V mf
     \<and> ord_map (mf_stashed mf) \<and> ord_map (mf_pending mf)
     \<and> (\<forall>i. map_of (mf_pending mf) i \<noteq> None \<longrightarrow> map_of (mf_nodes mf) i = None)
     \<and> (\<forall>i b. map_of (mf_stashed mf) i = Some b \<longrightarrow> ct_block_id (ce_ext V) (ce_wire V) b = i)
     \<and> length (mf_nodes mf) + length (mf_stashed mf) \<le> N \<and> N < 2 ^ 64"

lemma mm_core_base: "mm_core V N mf \<Longrightarrow> base_ok V (mm_base V mf)"
  by (simp add: mm_core_def base_ok_new)

lemma mm_core_shape: "mm_core V N mf \<Longrightarrow> shape_ok (mf_genesis mf) (mf_nodes mf)"
  by (simp add: mm_core_def tree_ok_def)

lemma node_path_known: "node_path tree g i ps \<Longrightarrow> x \<in> set ps \<Longrightarrow> map_of tree x \<noteq> None"
  by (auto simp: map_of_eq_None_iff dest!: node_path_distinct)

lemma node_path_hd: "node_path tree g i ps \<Longrightarrow> ps = g # tl ps"
  using node_path_last by (metis list.collapse)

lemma path_clock_ok:
  assumes t: "tree_ok V base g tree" and p: "node_path tree g i ps"
  shows "\<forall>b \<in> set (map (blk tree) (tl ps)). clock_ok b"
proof
  fix b assume "b \<in> set (map (blk tree) (tl ps))"
  then obtain x where x: "x \<in> set (tl ps)" "b = blk tree x" by auto
  have "distinct ps" using node_path_distinct [OF p] by simp
  then have "x \<noteq> g" using x(1) node_path_hd [OF p] by (metis distinct.simps(2))
  moreover have "x \<in> set ps" using x(1) node_path_hd [OF p] by (metis list.set_intros(2))
  ultimately show "clock_ok b"
    using t node_path_known [OF p, of x] x(2) by (auto simp: tree_ok_def node_ok_def blk_def)
qed

lemma tree_ok_replay: "tree_ok V base g tree \<Longrightarrow> node_path tree g i ps \<Longrightarrow> \<exists>full. replay_log V base (map (blk tree) (tl ps)) = Inr full"
  using node_path_last unfolding tree_ok_def node_ok_def by blast

section \<open>Switching\<close>

lemma rollback_n_materializes:
  assumes base: "base_ok V base"
  shows "materializes V base ch bs \<Longrightarrow> n \<le> length bs \<Longrightarrow>
    \<exists>ch' ok. rollback_n V n ch = Some (ch', ok) \<and> (ok \<longrightarrow> materializes V base ch' (take (length bs - n) bs))"
proof (induction n arbitrary: ch bs)
  case (Suc n)
  show ?case
  proof (cases rule: materializes_rollback [OF base Suc.prems(1), case_names stop undone])
    case stop
    then show ?thesis by (intro exI [of _ ch] exI [of _ False]) simp
  next
    case (undone ch1)
    have "n \<le> length (butlast bs)" using Suc.prems(2) by simp
    from Suc.IH [OF undone(3) this] obtain ch' ok where r: "rollback_n V n ch1 = Some (ch', ok)"
      and m: "ok \<longrightarrow> materializes V base ch' (take (length bs - Suc n) (butlast bs))" by auto
    moreover have "take (length bs - Suc n) (butlast bs) = take (length bs - Suc n) bs"
      by (simp add: butlast_conv_take min_def)
    ultimately show ?thesis using undone(1) by simp
  qed
qed (auto intro: exI [of _ True])

lemma replay_nodes_log:
  "\<forall>i \<in> set ids. map_of tree i \<noteq> None \<Longrightarrow>
     replay_nodes V tree ch ids = (case replay_log V ch (map (blk tree) ids) of Inl _ \<Rightarrow> None | Inr c \<Rightarrow> Some c)"
  by (induction ids arbitrary: ch) (auto simp: blk_def split: prod.splits sum.splits)

lemma switch_to_ok:
  assumes core: "mm_core V N mf" and target: "map_of (mf_nodes mf) target \<noteq> None"
  obtains mf' where "switch_to V mf target = Some mf'" and "mm_core V N mf'"
proof (cases "mf_materialized mf = target")
  case True
  then show ?thesis using that core by (simp add: switch_to_def)
next
  case False
  let ?g = "mf_genesis mf" and ?tree = "mf_nodes mf" and ?base = "mm_base V mf"
  note base = mm_core_base [OF core] and shape = mm_core_shape [OF core]
  have tree: "tree_ok V ?base ?g ?tree" and cur: "cursor_ok V mf" using core by (simp_all add: mm_core_def)
  obtain tp where tp: "node_path ?tree ?g target tp" "mm_path ?tree target = Some tp" using mm_path_ex [OF shape target] .
  obtain cp where cp: "node_path ?tree ?g (mf_materialized mf) cp" "mm_path ?tree (mf_materialized mf) = Some cp"
    using mm_path_ex [OF shape] cur unfolding cursor_ok_def by blast
  define i where "i = fork_index tp cp"
  have hd: "tp = ?g # tl tp" "cp = ?g # tl cp" by (rule node_path_hd [OF tp(1)], rule node_path_hd [OF cp(1)])
  have i1: "1 \<le> i" unfolding i_def by (subst hd(1), subst hd(2)) simp
  have i: "take i tp = take i cp" "i \<le> length cp" "i \<le> length tp" using fork_index_take [of tp cp] by (simp_all add: i_def)
  let ?bs = "map (blk ?tree) (tl cp)" and ?ts = "map (blk ?tree) (tl tp)"
  have m: "materializes V ?base (mf_chain mf) ?bs" using cur cp(1) by (simp add: cursor_ok_def)
  have n: "length cp - i \<le> length ?bs" using i1 by simp
  from rollback_n_materializes [OF base m n] obtain ch rolled where r: "rollback_n V (length cp - i) (mf_chain mf) = Some (ch, rolled)"
    and undone: "rolled \<longrightarrow> materializes V ?base ch (take (length ?bs - (length cp - i)) ?bs)" by blast
  obtain full where full: "replay_log V ?base ?ts = Inr full" using tree_ok_replay [OF tree tp(1)] by blast
  define start where "start = (if rolled then ch else ?base)"
  define from_i where "from_i = (if rolled then i else 1)"
  have fi: "1 \<le> from_i" using i1 by (simp add: from_i_def)
  have keep: "take (length ?bs - (length cp - i)) ?bs = map (blk ?tree) (tl (take i tp))"
  proof -
    have "length ?bs - (length cp - i) = i - 1" using i i1 by simp
    moreover have "take (i - 1) (tl cp) = tl (take i tp)" by (simp only: i(1) tl_take)
    ultimately show ?thesis by (simp only: take_map)
  qed
  have prefix: "materializes V ?base start (map (blk ?tree) (tl (take from_i tp)))"
  proof (cases rolled)
    case True
    then show ?thesis using undone keep by (simp add: start_def from_i_def)
  next
    case False
    have "tl (take 1 tp) = []" by (subst hd(1)) simp
    then show ?thesis using materializes_base [OF base] False by (simp add: start_def from_i_def)
  qed
  have split: "?ts = map (blk ?tree) (tl (take from_i tp)) @ map (blk ?tree) (drop from_i tp)"
    using fi hd(1) by (metis append_take_drop_id map_append tl_append2 take_eq_Nil list.distinct(1) not_one_le_zero)
  have clock: "\<forall>b \<in> set (map (blk ?tree) (drop from_i tp)). clock_ok b"
    using path_clock_ok [OF tree tp(1)] unfolding split by simp
  from materializes_replay [OF base full [unfolded split] prefix clock] obtain ch' where
    rp: "replay_log V start (map (blk ?tree) (drop from_i tp)) = Inr ch'" and m': "materializes V ?base ch' ?ts"
    unfolding split by blast
  have "\<forall>x \<in> set (drop from_i tp). map_of ?tree x \<noteq> None" using node_path_known [OF tp(1)] by (auto dest: in_set_dropD)
  then have "replay_nodes V ?tree start (drop from_i tp) = Some ch'" by (simp add: replay_nodes_log rp)
  then have sw: "switch_to V mf target = Some (mf \<lparr> mf_chain := ch', mf_materialized := target \<rparr>)"
    using False r by (cases rolled) (simp_all add: switch_to_def tp cp Let_def start_def from_i_def flip: i_def)
  have "mm_core V N (mf \<lparr> mf_chain := ch', mf_materialized := target \<rparr>)"
    using core target m' node_path_unique [OF tp(1)] by (auto simp: mm_core_def cursor_ok_def)
  with sw show ?thesis by (rule that)
qed

section \<open>Joining the tree\<close>

lemma kill_all_facts:
  "mf_nodes (kill_all mf work) = mf_nodes mf \<and> mf_chain (kill_all mf work) = mf_chain mf
   \<and> mf_materialized (kill_all mf work) = mf_materialized mf \<and> mf_canonical (kill_all mf work) = mf_canonical mf
   \<and> mf_genesis (kill_all mf work) = mf_genesis mf \<and> mf_network (kill_all mf work) = mf_network mf
   \<and> mf_pow_mode (kill_all mf work) = mf_pow_mode mf \<and> mf_proof_mode (kill_all mf work) = mf_proof_mode mf
   \<and> mf_anchors (kill_all mf work) = mf_anchors mf
   \<and> map_of (mf_pending (kill_all mf work)) \<subseteq>\<^sub>m map_of (mf_pending mf) \<and> map_of (mf_stashed (kill_all mf work)) \<subseteq>\<^sub>m map_of (mf_stashed mf)
   \<and> (ord_map (mf_pending mf) \<longrightarrow> ord_map (mf_pending (kill_all mf work)))
   \<and> (ord_map (mf_stashed mf) \<longrightarrow> ord_map (mf_stashed (kill_all mf work)))
   \<and> fst ` set (mf_dead mf) \<union> fst ` set work \<subseteq> fst ` set (mf_dead (kill_all mf work))"
proof (induction mf work rule: kill_all.induct)
  case (1 mf work)
  show ?case
  proof (cases "work = []")
    case False
    obtain ident reason where l: "last work = (ident, reason)" by fastforce
    define mf1 where "mf1 = mf \<lparr> mf_pending := del_key ident (mf_pending mf), mf_stashed := del_key ident (mf_stashed mf),
                          mf_dead := put_key ident reason (mf_dead mf) \<rparr>"
    define work1 where "work1 = butlast work @ map (\<lambda>child. (child, DdDescends ident)) (stashed_children mf1 ident)"
    have eq: "kill_all mf work = kill_all mf1 work1"
      using False l by (subst kill_all.simps) (simp add: Let_def mf1_def work1_def)
    have "work = butlast work @ [(ident, reason)]" using append_butlast_last_id [OF False] l by simp
    then have "fst ` set work = fst ` set (butlast work @ [(ident, reason)])" by simp
    then have w: "fst ` set work \<subseteq> insert ident (fst ` set work1)" by (auto simp: work1_def)
    have del: "m(ident := None) \<subseteq>\<^sub>m m" for m :: "bytes \<Rightarrow> 'x option" by (auto simp: map_le_def)
    have f: "mf_nodes mf1 = mf_nodes mf" "mf_chain mf1 = mf_chain mf" "mf_materialized mf1 = mf_materialized mf"
      "mf_canonical mf1 = mf_canonical mf" "mf_genesis mf1 = mf_genesis mf" "mf_network mf1 = mf_network mf"
      "mf_pow_mode mf1 = mf_pow_mode mf" "mf_proof_mode mf1 = mf_proof_mode mf" "mf_anchors mf1 = mf_anchors mf"
      by (simp_all add: mf1_def)
    have le: "map_of (mf_pending mf1) \<subseteq>\<^sub>m map_of (mf_pending mf)" "map_of (mf_stashed mf1) \<subseteq>\<^sub>m map_of (mf_stashed mf)"
      by (simp_all add: mf1_def del)
    have o: "ord_map (mf_pending mf) \<longrightarrow> ord_map (mf_pending mf1)" "ord_map (mf_stashed mf) \<longrightarrow> ord_map (mf_stashed mf1)"
      by (simp_all add: mf1_def)
    have d: "fst ` set (mf_dead mf1) = insert ident (fst ` set (mf_dead mf))" by (simp add: mf1_def set_put_key)
    note ih = "1.IH" [OF False refl l [symmetric] refl, folded mf1_def, folded work1_def, unfolded f d]
    have "fst ` set (mf_dead mf) \<union> fst ` set work \<subseteq> fst ` set (mf_dead (kill_all mf1 work1))" using ih w by blast
    then show ?thesis
      unfolding eq using ih o map_le_trans [OF _ le(1)] map_le_trans [OF _ le(2)] by blast
  qed (simp add: kill_all.simps)
qed

lemma mm_core_kill_all: "mm_core V N mf \<Longrightarrow> mm_core V N (kill_all mf work)"
proof -
  assume c: "mm_core V N mf"
  note k = kill_all_facts [of mf work]
  have "length (mf_nodes (kill_all mf work)) + length (mf_stashed (kill_all mf work)) \<le> N"
    using c k kill_all_stashed [of mf work] by (simp add: mm_core_def)
  moreover have "map_of (mf_nodes mf) i = None" if "map_of (mf_pending (kill_all mf work)) i \<noteq> None" for i
    using that k c by (metis (no_types, lifting) domIff map_le_def mm_core_def)
  moreover have "ct_block_id (ce_ext V) (ce_wire V) b = i" if "map_of (mf_stashed (kill_all mf work)) i = Some b" for i b
    using that k c by (metis (no_types, lifting) domI map_le_def mm_core_def)
  ultimately show ?thesis using c k by (simp add: mm_core_def cursor_ok_def)
qed

text \<open>What may change between two states: nodes are kept, and a new node was pending or has a share in \<open>K\<close>.\<close>

definition evolves :: "bytes set \<Rightarrow> ('p, 'tr, 'm) mm_fc \<Rightarrow> ('p, 'tr, 'm) mm_fc \<Rightarrow> bool" where
  "evolves K mf mf' \<longleftrightarrow> parents_kept (mf_nodes mf) (mf_nodes mf') \<and> mf_genesis mf' = mf_genesis mf \<and> mf_network mf' = mf_network mf
     \<and> mf_pow_mode mf' = mf_pow_mode mf \<and> mf_proof_mode mf' = mf_proof_mode mf
     \<and> fst ` set (mf_nodes mf') \<union> fst ` set (mf_pending mf') \<subseteq> fst ` set (mf_nodes mf) \<union> fst ` set (mf_pending mf) \<union> K"

lemma evolves_refl [simp]: "evolves K mf mf"
  by (auto simp: evolves_def)

lemma evolves_trans: "evolves K a b \<Longrightarrow> evolves L b c \<Longrightarrow> evolves (K \<union> L) a c"
  unfolding evolves_def by (intro conjI) (metis parents_kept_trans, simp_all, blast)

lemma parents_kept_put_key: "map_of tree i = None \<Longrightarrow> parents_kept tree (put_key i n tree)"
  by (auto simp: parents_kept_def)

lemma evolves_cong:
  "mf_nodes b = mf_nodes a \<Longrightarrow> fst ` set (mf_pending b) \<subseteq> fst ` set (mf_pending a) \<Longrightarrow> mf_genesis b = mf_genesis a \<Longrightarrow>
   mf_network b = mf_network a \<Longrightarrow> mf_pow_mode b = mf_pow_mode a \<Longrightarrow> mf_proof_mode b = mf_proof_mode a \<Longrightarrow> evolves K a b"
  by (auto simp: evolves_def)

lemma blk_kept: "parents_kept tree tree' \<Longrightarrow> map_of tree i \<noteq> None \<Longrightarrow> blk tree' i = blk tree i \<and> tree_cum tree' i = tree_cum tree i"
  using parents_keptD by (fastforce simp: blk_def tree_cum_def)

lemma map_blk_kept:
  assumes "parents_kept tree tree'" and "node_path tree g i ps"
  shows "map (blk tree') (tl ps) = map (blk tree) (tl ps)"
proof (rule map_cong [OF refl])
  fix x assume "x \<in> set (tl ps)"
  then have "x \<in> set ps" using node_path_hd [OF assms(2)] by (metis list.set_intros(2))
  then show "blk tree' x = blk tree x" using blk_kept [OF assms(1)] node_path_known [OF assms(2)] by blast
qed

text \<open>Nodes known before stay well-formed in a tree that keeps them.\<close>

lemma node_ok_kept:
  assumes t: "tree_ok V base g tree" and kept: "parents_kept tree tree'" and i: "map_of tree i = Some n" and i': "map_of tree' i = Some n'"
  shows "node_ok V base g tree' i n'"
proof -
  obtain m where m: "map_of tree' i = Some m" "bn_parent m = bn_parent n" "bn_block m = bn_block n" "bn_height m = bn_height n" "bn_cum m = bn_cum n"
    using parents_keptD [OF kept i] by blast
  then have eq: "bn_parent n' = bn_parent n" "bn_block n' = bn_block n" "bn_height n' = bn_height n" "bn_cum n' = bn_cum n" using i' by simp_all
  have ok: "node_ok V base g tree i n" and shape: "shape_ok g tree" using t i by (simp_all add: tree_ok_def)
  obtain ps where ps: "node_path tree g i ps" using shape_path [OF shape i] by metis
  have uniq: "qs = ps" if "node_path tree' g i qs" for qs using node_path_unique [OF node_path_kept [OF kept ps] that] .
  have cum: "i \<noteq> g \<Longrightarrow> tree_cum tree' (bn_parent n) = tree_cum tree (bn_parent n)"
    using ps i by (cases rule: node_path.cases) (auto dest!: node_path_last intro: blk_kept [OF kept, THEN conjunct2])
  have rep: "\<exists>full. replay_log V base (map (blk tree') (tl qs)) = Inr full" if "node_path tree' g i qs" for qs
    unfolding uniq [OF that] map_blk_kept [OF kept ps] by (rule tree_ok_replay [OF t ps])
  show ?thesis
    using ok cum rep unfolding node_ok_def eq by (cases "i = g") simp_all
qed

lemma check_header_links:
  assumes "extend_state V ch b now = Inr su"
  shows "th_height (tb_header b) = th_height (cc_tip ch) + 1" "th_prev_id (tb_header b) = ct_header_id (ce_ext V) (ce_wire V) (cc_tip ch)"
  using assms by (auto simp: extend_state_def check_ct_header_def result_simps Let_def)

lemma tree_ok_join:
  assumes base: "base_ok V base" and t: "tree_ok V base g tree" and size: "Suc (length tree) < 2 ^ 64"
    and p: "map_of tree parent = Some pn" and fresh: "map_of tree ident = None"
    and ident: "ct_block_id (ce_ext V) (ce_wire V) block = ident" and prev: "parent = th_prev_id (tb_header block)"
    and pp: "node_path tree g parent pp" and mat: "materializes V base ch (map (blk tree) (tl pp))"
    and step: "try_extend V ch block now = (ch', Inr ())" and now: "unat now + 120000 < 2 ^ 64"
    and n: "n = \<lparr> bn_block = block, bn_parent = parent, bn_height = th_height (tb_header block),
           bn_cum = bn_cum pn + nbits_work V block, bn_ergo_height = eh \<rparr>"
  shows "tree_ok V base g (put_key ident n tree) \<and> node_path (put_key ident n tree) g ident (pp @ [ident])
    \<and> materializes V base ch' (map (blk (put_key ident n tree)) (tl (pp @ [ident])))"
proof -
  let ?tree = "put_key ident n tree"
  have shape: "shape_ok g tree" using t by (simp add: tree_ok_def)
  have kept: "parents_kept tree ?tree" by (rule parents_kept_put_key [OF fresh])
  have wf: "cc_wf V ch" "cc_blocks ch = hd (cc_blocks base) # map (blk tree) (tl pp)" using materializes_wf [OF base mat] by simp_all
  have clock: "clock_ok block" by (rule accepted_clock_ok [OF wf(1) step now])
  have mat': "materializes V base ch' (map (blk tree) (tl pp) @ [block])" by (rule materializes_extend [OF base mat step clock])
  have ne: "ident \<noteq> g" using fresh shape by (auto simp: shape_ok_def)
  have path: "node_path ?tree g ident (pp @ [ident])"
    by (rule node_path.step [where n = n]) (use ne node_path_kept [OF kept pp] in \<open>simp_all add: n\<close>)
  have blocks: "map (blk ?tree) (tl (pp @ [ident])) = map (blk tree) (tl pp) @ [block]"
    using map_blk_kept [OF kept pp] node_path_last [OF pp] by (simp add: tl_append2 blk_def n)
  have tip: "th_height (cc_tip ch) = bn_height pn"
  proof -
    have pok: "node_ok V base g tree parent pn" using t p by (simp add: tree_ok_def)
    have "last (cc_blocks ch) = bn_block pn"
    proof (cases "tl pp = []")
      case True
      then have "parent = g" using node_path_last [OF pp] node_path_hd [OF pp] by (metis last.simps)
      then show ?thesis using pok True wf(2) by (simp add: node_ok_def)
    next
      case False
      then have "last (map (blk tree) (tl pp)) = blk tree parent"
        using node_path_last [OF pp] by (simp add: last_map last_tl)
      then show ?thesis using False wf(2) p by (simp add: blk_def)
    qed
    then show ?thesis using pok by (simp add: cc_tip_def node_ok_def)
  qed
  from wf(1) step obtain st undo where e: "extend_state V ch block now = Inr (st, undo)" by (rule try_extend_ok)
  have len: "length pp \<le> length tree" "1 \<le> length pp" using node_path_length [OF pp] node_path_last [OF pp] by (auto simp: Suc_le_eq)
  obtain pp' where pp': "node_path tree g parent pp'" "bn_height pn = of_nat (length pp' - 1)" using shape p by (auto simp: shape_ok_def)
  have "pp' = pp" by (rule node_path_unique [OF pp pp'(1)])
  then have h: "bn_height n = of_nat (length (pp @ [ident]) - 1)"
    using check_header_links(1) [OF e] tip pp'(2) len(2) by (simp add: n of_nat_diff)
  have "ord_map tree" using shape by (simp add: shape_ok_def)
  then have lt: "length ?tree = Suc (length tree)" using fresh by (simp add: length_put_key has_key_def)
  have shape': "shape_ok g ?tree"
    unfolding shape_ok_def
  proof (intro conjI allI impI)
    fix i m assume m: "map_of ?tree i = Some m"
    show "\<exists>ps. node_path ?tree g i ps \<and> bn_height m = of_nat (length ps - 1)"
    proof (cases "i = ident")
      case True
      then show ?thesis using m path h by auto
    next
      case False
      then obtain ps where "node_path tree g i ps" "bn_height m = of_nat (length ps - 1)" using m shape by (auto simp: shape_ok_def)
      then show ?thesis using node_path_kept [OF kept] by blast
    qed
  qed (use shape lt size in \<open>auto simp: shape_ok_def\<close>)
  have new: "node_ok V base g ?tree ident n"
  proof -
    have "bn_cum n = tree_cum ?tree parent + nbits_work V block"
      using p fresh by (auto simp: n tree_cum_def)
    moreover have "\<exists>full. replay_log V base (map (blk ?tree) (tl ps)) = Inr full" if "node_path ?tree g ident ps" for ps
      using node_path_unique [OF path that] mat' blocks by (auto simp: materializes_def)
    ultimately show ?thesis using ne ident prev clock by (simp add: node_ok_def n)
  qed
  have "tree_ok V base g ?tree"
    unfolding tree_ok_def
  proof (intro conjI allI impI)
    fix i m assume m: "map_of ?tree i = Some m"
    show "node_ok V base g ?tree i m"
    proof (cases "i = ident")
      case True
      then show ?thesis using m new by simp
    next
      case False
      then show ?thesis using node_ok_kept [OF t kept _ m] m by auto
    qed
  qed (rule shape')
  then show ?thesis using path mat' blocks by simp
qed

section \<open>Activation\<close>

lemma evolves_keys: "map_of m \<subseteq>\<^sub>m map_of m' \<Longrightarrow> fst ` set m \<subseteq> fst ` set m'"
  by (metis dom_map_of_conv_image_fst map_le_implies_dom_le)

lemma switch_to_evolves:
  assumes "switch_to V mf t = Some mf'"
  shows "evolves K mf mf'"
  using switch_to_keeps [OF assms] by (simp add: evolves_cong)

lemma cursor_extend_error:
  assumes core: "mm_core V N mf" and "try_extend V (mf_chain mf) b now = (ch, Inl e)"
  shows "ch = mf_chain mf"
proof -
  have cur: "cursor_ok V mf" using core by (simp add: mm_core_def)
  then obtain ps where ps: "node_path (mf_nodes mf) (mf_genesis mf) (mf_materialized mf) ps"
    using mm_path_ex [OF mm_core_shape [OF core]] unfolding cursor_ok_def by blast
  with cur have "materializes V (mm_base V mf) (mf_chain mf) (map (blk (mf_nodes mf)) (tl ps))" by (simp add: cursor_ok_def)
  then have "cc_wf V (mf_chain mf)" using materializes_wf [OF mm_core_base [OF core]] by blast
  then show ?thesis using assms(2) by (rule try_extend_error)
qed

lemma mm_core_join:
  assumes core: "mm_core V N mf" and b: "map_of (mf_stashed mf) ident = Some block" and sh: "map_of (mf_pending mf) ident = Some share"
    and cursor: "mf_materialized mf = th_prev_id (tb_header block)"
    and step: "try_extend V (mf_chain mf) block now = (ch, Inr ())" and now: "unat now + 120000 < 2 ^ 64"
    and pn: "map_of (mf_nodes mf) (th_prev_id (tb_header block)) = Some pn"
    and n: "n = \<lparr> bn_block = block, bn_parent = th_prev_id (tb_header block), bn_height = th_height (tb_header block),
           bn_cum = bn_cum pn + nbits_work V block, bn_ergo_height = eh \<rparr>"
    and mf': "mf' = mf \<lparr> mf_chain := ch, mf_materialized := ident, mf_nodes := put_key ident n (mf_nodes mf),
         mf_pending := del_key ident (mf_pending mf), mf_stashed := del_key ident (mf_stashed mf) \<rparr>"
  shows "mm_core V N mf'" and "evolves K mf mf'"
proof -
  let ?g = "mf_genesis mf" and ?tree = "mf_nodes mf" and ?parent = "th_prev_id (tb_header block)"
  have tree: "tree_ok V (mm_base V mf) ?g ?tree" and cur: "cursor_ok V mf" using core by (simp_all add: mm_core_def)
  have fresh: "map_of ?tree ident = None" and idb: "ct_block_id (ce_ext V) (ce_wire V) block = ident"
    using core b sh by (auto simp: mm_core_def)
  have in_s: "ident \<in> fst ` set (mf_stashed mf)" using b by (auto dest: map_of_SomeD intro: rev_image_eqI)
  have "0 < length (mf_stashed mf)" using in_s by auto
  moreover have "length ?tree + length (mf_stashed mf) \<le> N" "N < 2 ^ 64" using core by (simp_all add: mm_core_def)
  ultimately have size: "Suc (length ?tree) < 2 ^ 64" by linarith
  obtain pp where pp: "node_path ?tree ?g ?parent pp" using mm_path_ex [OF mm_core_shape [OF core], of ?parent] pn by auto
  have mat: "materializes V (mm_base V mf) (mf_chain mf) (map (blk ?tree) (tl pp))"
    using cur pp cursor by (simp add: cursor_ok_def)
  note j = tree_ok_join [OF mm_core_base [OF core] tree size pn fresh idb refl pp mat step now n]
  have cursor': "cursor_ok V mf'"
    unfolding cursor_ok_def
  proof (intro conjI allI impI)
    fix ps assume "node_path (mf_nodes mf') (mf_genesis mf') (mf_materialized mf') ps"
    then have "ps = pp @ [ident]" using j node_path_unique [of "put_key ident n ?tree" ?g ident "pp @ [ident]" ps] by (simp add: mf')
    then show "materializes V (mm_base V mf') (mf_chain mf') (map (blk (mf_nodes mf')) (tl ps))" using j by (simp add: mf')
  qed (simp add: mf')
  have om: "ord_map ?tree" using mm_core_shape [OF core] by (simp add: shape_ok_def)
  have "length (put_key ident n ?tree) = Suc (length ?tree)" using fresh om by (simp add: length_put_key has_key_def)
  then have "length (mf_nodes mf') + length (mf_stashed mf') \<le> N"
    using length_del_key(2) [OF in_s] core by (simp add: mf' mm_core_def)
  moreover have "mm_base V mf' = mm_base V mf" by (simp add: mf')
  ultimately show "mm_core V N mf'"
    using core j cursor' by (auto simp: mm_core_def mf' split: if_splits)
  show "evolves K mf mf'"
    using parents_kept_put_key [OF fresh] sh
    by (auto simp: evolves_def mf' set_put_key set_del_key dest: map_of_SomeD intro: rev_image_eqI)
qed

lemma mm_core_drop_stashed: "mm_core V N mf \<Longrightarrow> mm_core V N (mf \<lparr> mf_stashed := del_key ident (mf_stashed mf) \<rparr>)"
  using length_del_key(1) [of ident "mf_stashed mf"] by (auto simp: mm_core_def cursor_ok_def split: if_splits)

lemma try_activate_ok:
  assumes core: "mm_core V N mf" and now: "unat now + 120000 < 2 ^ 64"
  obtains mf' ok where "try_activate V mf ident now = Some (mf', ok)" and "mm_core V N mf'" and "evolves {} mf mf'"
proof (cases "map_of (mf_stashed mf) ident")
  case None
  then show ?thesis using that [of mf False] core by (simp add: try_activate_def)
next
  case b: (Some block)
  show ?thesis
  proof (cases "map_of (mf_pending mf) ident")
    case None
    then show ?thesis using that [of mf False] core b by (simp add: try_activate_def)
  next
    case sh: (Some share)
    let ?parent = "th_prev_id (tb_header block)"
    show ?thesis
    proof (cases "map_of (mf_nodes mf) ?parent")
      case None
      then show ?thesis using that [of mf False] core b sh by (simp add: try_activate_def has_key_def)
    next
      case pn: (Some pn)
      obtain mf1 where sw: "switch_to V mf ?parent = Some mf1" and core1: "mm_core V N mf1"
        using switch_to_ok [OF core, of ?parent] pn by blast
      note keep = switch_to_keeps [OF sw]
      obtain ch r where te: "try_extend V (mf_chain mf1) block now = (ch, r)" by fastforce
      show ?thesis
      proof (cases r)
        case (Inr u)
        define n where "n = \<lparr> bn_block = block, bn_parent = ?parent, bn_height = th_height (tb_header block),
           bn_cum = bn_cum pn + nbits_work V block, bn_ergo_height = ps_ergo_height share \<rparr>"
        define mf2 where "mf2 = mf1 \<lparr> mf_chain := ch, mf_materialized := ident, mf_nodes := put_key ident n (mf_nodes mf1),
         mf_pending := del_key ident (mf_pending mf1), mf_stashed := del_key ident (mf_stashed mf1) \<rparr>"
        have "mm_core V N mf2 \<and> evolves {} mf1 mf2"
          by (intro conjI; rule mm_core_join [OF core1 _ _ _ _ now _ n_def mf2_def]) (use b sh keep te Inr pn in auto)
        moreover have "try_activate V mf ident now = Some (mf2, True)"
          using b sh pn sw te Inr keep by (simp add: try_activate_def Let_def has_key_def n_def mf2_def)
        ultimately show ?thesis
          using that evolves_trans [OF switch_to_evolves [OF sw, of "{}"], of "{}"] by simp
      next
        case (Inl e)
        have ch: "ch = mf_chain mf1" using cursor_extend_error [OF core1] te Inl by blast
        show ?thesis
        proof (cases "verdict_is_permanent e")
          case True
          let ?mf' = "kill_all mf1 [(ident, DdInvalid e)]"
          have "evolves {} mf1 ?mf'"
            using kill_all_facts [of mf1 "[(ident, DdInvalid e)]"] by (intro evolves_cong evolves_keys) simp_all
          then have "evolves {} mf ?mf'" using evolves_trans [OF switch_to_evolves [OF sw, of "{}"], of "{}"] by simp
          moreover have "try_activate V mf ident now = Some (?mf', False)"
            using b sh pn sw te Inl True ch by (simp add: try_activate_def Let_def has_key_def mark_dead_def)
          ultimately show ?thesis using that mm_core_kill_all [OF core1] by blast
        next
          case False
          let ?mf' = "mf1 \<lparr> mf_stashed := del_key ident (mf_stashed mf1) \<rparr>"
          have "evolves {} mf1 ?mf'" by (rule evolves_cong) simp_all
          then have "evolves {} mf ?mf'" using evolves_trans [OF switch_to_evolves [OF sw, of "{}"], of "{}"] by simp
          moreover have "try_activate V mf ident now = Some (?mf', False)"
            using b sh pn sw te Inl False ch by (simp add: try_activate_def Let_def has_key_def)
          ultimately show ?thesis using that mm_core_drop_stashed [OF core1] by blast
        qed
      qed
    qed
  qed
qed

lemma activate_loop_ok:
  "unat now + 120000 < 2 ^ 64 \<Longrightarrow> mm_core V N mf \<Longrightarrow> \<exists>mf' k. activate_loop V mf queue now n = Some (mf', k) \<and> mm_core V N mf' \<and> evolves {} mf mf'"
proof (induction V mf queue now n rule: activate_loop.induct)
  case (1 V mf queue now n)
  show ?case
  proof (cases "queue = []")
    case True
    then show ?thesis using "1.prems" by (simp add: activate_loop.simps)
  next
    case False
    obtain mf1 ok where ta: "try_activate V mf (last queue) now = Some (mf1, ok)" and c1: "mm_core V N mf1" and e1: "evolves {} mf mf1"
      by (rule try_activate_ok [OF "1.prems"(2,1), of "last queue"])
    show ?thesis
    proof (cases ok)
      case True
      then have "ok = True" by simp
      from "1.IH"(1) [OF False ta refl this "1.prems"(1) c1] ta True False evolves_trans [OF e1] show ?thesis
        by (subst activate_loop.simps) force
    next
      case nok: False
      then have "ok = False" by simp
      from "1.IH"(2) [OF False ta refl this "1.prems"(1) c1] ta nok False evolves_trans [OF e1] show ?thesis
        by (subst activate_loop.simps) force
    qed
  qed
qed

lemma refresh_canonical_ok:
  assumes core: "mm_core V N mf"
  obtains mf' where "refresh_canonical V mf = Some mf'" and "mm_core V N mf'" and "evolves {} mf mf'"
    and "tree_best (mf_nodes mf') (mf_canonical mf')" and "mf_materialized mf' = mf_canonical mf'"
    and "mf_nodes mf' = mf_nodes mf" and "mf_pending mf' = mf_pending mf" and "mf_stashed mf' = mf_stashed mf"
    and "mf_dead mf' = mf_dead mf" and "mf_anchors mf' = mf_anchors mf"
proof -
  obtain best where best: "select_best (mf_nodes mf) (mf_genesis mf) (map fst (mf_nodes mf)) = Some best"
    and tb: "tree_best (mf_nodes mf) best" using select_best_ok [OF mm_core_shape [OF core]] .
  let ?mf1 = "mf \<lparr> mf_canonical := best \<rparr>"
  have core1: "mm_core V N ?mf1" using core by (simp add: mm_core_def cursor_ok_def)
  show ?thesis
  proof (cases "mf_materialized mf = best")
    case True
    then show ?thesis using that [of ?mf1] core1 best tb by (simp add: refresh_canonical_def evolves_cong)
  next
    case False
    obtain mf' where sw: "switch_to V ?mf1 best = Some mf'" and c: "mm_core V N mf'"
      using switch_to_ok [OF core1, of best] tb by (auto simp: tree_best_def)
    note keep = switch_to_keeps [OF sw]
    have "refresh_canonical V mf = Some mf'" using best False sw by (simp add: refresh_canonical_def)
    then show ?thesis using that c keep tb by (simp add: evolves_cong)
  qed
qed

section \<open>Events\<close>

definition mm_inv :: "('h, 't, 'w, 'p, 'tr, 'pr, 'm) ct_env \<Rightarrow> nat \<Rightarrow> ('p, 'tr, 'm) mm_fc \<Rightarrow> bool" where
  "mm_inv V N mf \<longleftrightarrow> mm_core V N mf \<and> tree_best (mf_nodes mf) (mf_canonical mf) \<and> mf_materialized mf = mf_canonical mf"

datatype 'm mm_event = EvShare valid_share u64 | EvBody "'m ct_block" u64 | EvAnchor bytes u32

definition mm_step :: "('h, 't, 'w, 'p, 'tr, 'pr, 'm) ct_env \<Rightarrow> ('p, 'tr, 'm) mm_fc \<Rightarrow> 'm mm_event \<Rightarrow> ('p, 'tr, 'm) mm_fc option" where
  "mm_step V mf ev = (case ev of
       EvShare share now \<Rightarrow> map_option fst (ingest_share V mf share now)
     | EvBody block now \<Rightarrow> map_option fst (ingest_body V mf block now)
     | EvAnchor ident h \<Rightarrow> Some (record_anchor mf ident h))"

fun mm_run :: "('h, 't, 'w, 'p, 'tr, 'pr, 'm) ct_env \<Rightarrow> ('p, 'tr, 'm) mm_fc \<Rightarrow> 'm mm_event list \<Rightarrow> ('p, 'tr, 'm) mm_fc option" where
  "mm_run V mf [] = Some mf"
| "mm_run V mf (ev # evs) = Option.bind (mm_step V mf ev) (\<lambda>mf'. mm_run V mf' evs)"

definition event_clock_ok :: "'m mm_event \<Rightarrow> bool" where
  "event_clock_ok ev = (case ev of EvShare _ now \<Rightarrow> unat now + 120000 < 2 ^ 64 | EvBody _ now \<Rightarrow> unat now + 120000 < 2 ^ 64 | _ \<Rightarrow> True)"

definition event_share_ids :: "'m mm_event \<Rightarrow> bytes set" where
  "event_share_ids ev = (case ev of EvShare share _ \<Rightarrow> {vs_aegis_id share} | _ \<Rightarrow> {})"

lemma mm_core_mono: "mm_core V N mf \<Longrightarrow> N \<le> M \<Longrightarrow> M < 2 ^ 64 \<Longrightarrow> mm_core V M mf"
  by (auto simp: mm_core_def)

lemma mm_core_ergo_height:
  assumes core: "mm_core V N mf" and node: "map_of (mf_nodes mf) i = Some n"
    and mf': "mf' = mf \<lparr> mf_nodes := put_key i (n \<lparr> bn_ergo_height := eh \<rparr>) (mf_nodes mf) \<rparr>"
  shows "mm_core V N mf' \<and> evolves {} mf mf'"
proof -
  let ?tree = "mf_nodes mf" and ?tree' = "put_key i (n \<lparr> bn_ergo_height := eh \<rparr>) (mf_nodes mf)" and ?g = "mf_genesis mf"
  have tree: "tree_ok V (mm_base V mf) ?g ?tree" and cur: "cursor_ok V mf" using core by (simp_all add: mm_core_def)
  have shape: "shape_ok ?g ?tree" using tree by (simp add: tree_ok_def)
  have kept: "parents_kept ?tree ?tree'" using node by (auto simp: parents_kept_def)
  have om: "ord_map ?tree" using shape by (simp add: shape_ok_def)
  have len: "length ?tree' = length ?tree" using node om by (simp add: length_put_key has_key_def)
  have old: "\<exists>m0. map_of ?tree x = Some m0 \<and> bn_height m = bn_height m0" if "map_of ?tree' x = Some m" for x m
    using that node by (auto split: if_splits)
  have "shape_ok ?g ?tree'"
    unfolding shape_ok_def
  proof (intro conjI allI impI)
    fix x m assume "map_of ?tree' x = Some m"
    with old obtain m0 where "map_of ?tree x = Some m0" "bn_height m = bn_height m0" by blast
    then show "\<exists>ps. node_path ?tree' ?g x ps \<and> bn_height m = of_nat (length ps - 1)"
      using shape node_path_kept [OF kept] unfolding shape_ok_def by metis
  qed (use shape len in \<open>auto simp: shape_ok_def\<close>)
  moreover have "node_ok V (mm_base V mf) ?g ?tree' x m" if "map_of ?tree' x = Some m" for x m
    using old [OF that] node_ok_kept [OF tree kept _ that] by blast
  ultimately have "tree_ok V (mm_base V mf) ?g ?tree'" by (simp add: tree_ok_def)
  moreover have "cursor_ok V mf'"
    unfolding cursor_ok_def
  proof (intro conjI allI impI)
    fix ps assume p: "node_path (mf_nodes mf') (mf_genesis mf') (mf_materialized mf') ps"
    obtain qs where q: "node_path ?tree ?g (mf_materialized mf) qs" using mm_path_ex [OF shape] cur unfolding cursor_ok_def by blast
    have "ps = qs" using node_path_unique [OF node_path_kept [OF kept q]] p by (simp add: mf')
    moreover have fields: "mf_nodes mf' = ?tree'" "mf_chain mf' = mf_chain mf" "mm_base V mf' = mm_base V mf" by (simp_all add: mf')
    moreover have "materializes V (mm_base V mf) (mf_chain mf) (map (blk ?tree) (tl qs))" using cur q by (simp add: cursor_ok_def)
    ultimately show "materializes V (mm_base V mf') (mf_chain mf') (map (blk (mf_nodes mf')) (tl ps))"
      unfolding fields \<open>ps = qs\<close> map_blk_kept [OF kept q] by simp
  qed (use cur in \<open>simp add: mf' cursor_ok_def\<close>)
  moreover have "evolves {} mf mf'" using kept node by (auto simp: evolves_def mf' set_put_key dest: map_of_SomeD intro: rev_image_eqI)
  ultimately show ?thesis using core len node by (auto simp: mm_core_def mf')
qed

lemma ingest_share_ok:
  assumes inv: "mm_inv V N mf" and now: "unat now + 120000 < 2 ^ 64"
  obtains mf' r where "ingest_share V mf share now = Some (mf', r)" and "mm_inv V N mf'" and "evolves {vs_aegis_id share} mf mf'"
proof -
  let ?id = "vs_aegis_id share" and ?eh = "vs_ergo_height share"
  have core: "mm_core V N mf" using inv by (simp add: mm_inv_def)
  show ?thesis
  proof (cases "has_key (mf_dead mf) ?id")
    case True
    then show ?thesis using that [of mf SiDead] inv by (simp add: ingest_share_def)
  next
    case alive: False
    show ?thesis
    proof (cases "map_of (mf_nodes mf) ?id")
      case (Some n)
      define mf1 where "mf1 = mf \<lparr> mf_nodes := put_key ?id (n \<lparr> bn_ergo_height := ?eh \<rparr>) (mf_nodes mf) \<rparr>"
      have c1: "mm_core V N mf1" "evolves {} mf mf1" using mm_core_ergo_height [OF core Some mf1_def] by simp_all
      obtain mf2 where "refresh_canonical V mf1 = Some mf2" "mm_core V N mf2" "evolves {} mf1 mf2"
        "tree_best (mf_nodes mf2) (mf_canonical mf2)" "mf_materialized mf2 = mf_canonical mf2" by (rule refresh_canonical_ok [OF c1(1)])
      note r = this
      show ?thesis
      proof (cases "?eh < bn_ergo_height n")
        case True
        have "ingest_share V mf share now = Some (mf2, SiKnown)"
          using alive Some True r(1) by (simp add: ingest_share_def mf1_def)
        moreover have "evolves {?id} mf mf2" using evolves_trans [OF c1(2) r(3)] by (auto simp: evolves_def)
        ultimately show ?thesis using that r by (simp add: mm_inv_def)
      next
        case False
        then have "ingest_share V mf share now = Some (mf, SiKnown)" using alive Some by (simp add: ingest_share_def)
        then show ?thesis using that inv by simp
      qed
    next
      case None
      define entry where "entry = (case map_of (mf_pending mf) ?id of
                  None \<Rightarrow> \<lparr> ps_work = vs_work share, ps_ergo_height = ?eh \<rparr>
                | Some e \<Rightarrow> if ?eh < ps_ergo_height e then e \<lparr> ps_ergo_height := ?eh \<rparr> else e)"
      define mf0 where "mf0 = mf \<lparr> mf_pending := put_key ?id entry (mf_pending mf) \<rparr>"
      have c0: "mm_core V N mf0" using core None by (auto simp: mm_core_def mf0_def cursor_ok_def)
      have e0: "evolves {?id} mf mf0" by (auto simp: evolves_def mf0_def set_put_key)
      obtain mf1 k where a: "activate_ready_from V mf0 ?id now = Some (mf1, k)" and c1: "mm_core V N mf1" and e1: "evolves {} mf0 mf1"
        using activate_loop_ok [OF now c0] unfolding activate_ready_from_def by metis
      obtain mf2 where r: "refresh_canonical V mf1 = Some mf2" and c2: "mm_core V N mf2" and e2: "evolves {} mf1 mf2"
        and b2: "tree_best (mf_nodes mf2) (mf_canonical mf2)" "mf_materialized mf2 = mf_canonical mf2"
        by (rule refresh_canonical_ok [OF c1])
      have "evolves {?id} mf mf2" using evolves_trans [OF evolves_trans [OF e0 e1] e2] by simp
      moreover have "\<exists>res. ingest_share V mf share now = Some (mf2, res)"
        using alive None a r by (simp add: ingest_share_def Let_def flip: entry_def mf0_def)
      ultimately show ?thesis using that c2 b2 by (auto simp: mm_inv_def)
    qed
  qed
qed

lemma ingest_body_ok:
  assumes inv: "mm_inv V N mf" and now: "unat now + 120000 < 2 ^ 64" and N: "Suc N < 2 ^ 64"
  obtains mf' r where "ingest_body V mf block now = Some (mf', r)" and "mm_inv V (Suc N) mf'" and "evolves {} mf mf'"
proof -
  let ?id = "ct_block_id (ce_ext V) (ce_wire V) block"
  have core: "mm_core V (Suc N) mf" using inv N mm_core_mono [of V N mf "Suc N"] by (simp add: mm_inv_def)
  have same: "mm_inv V (Suc N) mf" using inv core by (simp add: mm_inv_def)
  show ?thesis
  proof (cases "has_key (mf_nodes mf) ?id \<or> has_key (mf_dead mf) ?id
      \<or> th_tx_root (tb_header block) \<noteq> tx_root (ce_ext V) (ce_wire V) (tb_body block) \<or> \<not> claim_ok V block")
    case True
    then have "\<exists>r. ingest_body V mf block now = Some (mf, r)" by (auto simp: ingest_body_def Let_def)
    then show ?thesis using that same by auto
  next
    case False
    show ?thesis
    proof (cases "has_key (mf_dead mf) (th_prev_id (tb_header block))")
      case True
      let ?mf' = "kill_all mf [(?id, DdDeadParent)]"
      note k = kill_all_facts [of mf "[(?id, DdDeadParent)]"]
      have "ingest_body V mf block now = Some (?mf', BiDead)" using False True by (simp add: ingest_body_def Let_def mark_dead_def)
      moreover have "evolves {} mf ?mf'" using k by (intro evolves_cong evolves_keys) simp_all
      ultimately show ?thesis using that mm_core_kill_all [OF core] k inv by (simp add: mm_inv_def)
    next
      case alive: False
      define st where "st = (if has_key (mf_stashed mf) ?id then mf_stashed mf else put_key ?id block (mf_stashed mf))"
      define mf0 where "mf0 = mf \<lparr> mf_stashed := st \<rparr>"
      have "length (mf_stashed mf0) \<le> Suc (length (mf_stashed mf))"
        using core by (simp add: mf0_def st_def length_put_key mm_core_def)
      then have len: "length (mf_nodes mf0) + length (mf_stashed mf0) \<le> Suc N" using inv by (simp add: mm_inv_def mm_core_def mf0_def)
      have ids: "ct_block_id (ce_ext V) (ce_wire V) b = i" if "map_of st i = Some b" for i b
        using that core by (auto simp: st_def mm_core_def split: if_splits)
      have "ord_map st" using core by (simp add: st_def mm_core_def)
      then have c0: "mm_core V (Suc N) mf0" using core len ids by (auto simp: mm_core_def mf0_def cursor_ok_def)
      have e0: "evolves {} mf mf0" by (rule evolves_cong) (simp_all add: mf0_def)
      obtain mf1 k where a: "activate_ready_from V mf0 ?id now = Some (mf1, k)" and c1: "mm_core V (Suc N) mf1" and e1: "evolves {} mf0 mf1"
        using activate_loop_ok [OF now c0] unfolding activate_ready_from_def by metis
      obtain mf2 where r: "refresh_canonical V mf1 = Some mf2" and c2: "mm_core V (Suc N) mf2" and e2: "evolves {} mf1 mf2"
        and b2: "tree_best (mf_nodes mf2) (mf_canonical mf2)" "mf_materialized mf2 = mf_canonical mf2"
        by (rule refresh_canonical_ok [OF c1])
      have "evolves {} mf mf2" using evolves_trans [OF evolves_trans [OF e0 e1] e2] by simp
      moreover have "\<exists>res. ingest_body V mf block now = Some (mf2, res)"
        using False alive a r by (simp add: ingest_body_def Let_def flip: st_def mf0_def)
      ultimately show ?thesis using that c2 b2 by (auto simp: mm_inv_def)
    qed
  qed
qed

lemma mm_step_ok:
  assumes inv: "mm_inv V N mf" and clock: "event_clock_ok ev" and N: "Suc N < 2 ^ 64"
  obtains mf' where "mm_step V mf ev = Some mf'" and "mm_inv V (Suc N) mf'" and "evolves (event_share_ids ev) mf mf'"
proof (cases ev)
  case (EvShare share now)
  from ingest_share_ok [OF inv, of now share] clock EvShare obtain mf' r where "ingest_share V mf share now = Some (mf', r)"
    "mm_inv V N mf'" "evolves {vs_aegis_id share} mf mf'" by (auto simp: event_clock_ok_def)
  then show ?thesis using that EvShare N mm_core_mono [of V N mf' "Suc N"] by (simp add: mm_step_def mm_inv_def event_share_ids_def)
next
  case (EvBody block now)
  from ingest_body_ok [OF inv, of now block] clock EvBody N obtain mf' r where "ingest_body V mf block now = Some (mf', r)"
    "mm_inv V (Suc N) mf'" "evolves {} mf mf'" by (auto simp: event_clock_ok_def)
  then show ?thesis using that EvBody by (simp add: mm_step_def event_share_ids_def)
next
  case (EvAnchor ident h)
  have "mm_core V (Suc N) (record_anchor mf ident h)"
    using mm_core_mono [of V N mf "Suc N"] inv N by (auto simp: mm_inv_def mm_core_def record_anchor_def cursor_ok_def)
  then show ?thesis
    using that EvAnchor inv by (simp add: mm_step_def mm_inv_def event_share_ids_def record_anchor_def evolves_cong)
qed

lemma mm_run_ok:
  "mm_inv V N mf \<Longrightarrow> list_all event_clock_ok evs \<Longrightarrow> N + length evs < 2 ^ 64 \<Longrightarrow>
     \<exists>mf'. mm_run V mf evs = Some mf' \<and> mm_inv V (N + length evs) mf' \<and> evolves (\<Union> (event_share_ids ` set evs)) mf mf'"
proof (induction evs arbitrary: N mf)
  case (Cons ev evs)
  from Cons.prems have N: "Suc N < 2 ^ 64" "event_clock_ok ev" by simp_all
  obtain mf1 where s: "mm_step V mf ev = Some mf1" and i: "mm_inv V (Suc N) mf1" and e: "evolves (event_share_ids ev) mf mf1"
    by (rule mm_step_ok [OF Cons.prems(1) N(2,1)])
  from Cons.IH [OF i] Cons.prems(2,3) obtain mf' where "mm_run V mf1 evs = Some mf'" "mm_inv V (N + length (ev # evs)) mf'"
    "evolves (\<Union> (event_share_ids ` set evs)) mf1 mf'" by auto
  then show ?case using s evolves_trans [OF e] by auto
qed simp

end
