(* ===== verification/MmFinality.thy ===== *)
theory MmFinality
  imports MmForkChoice
begin

text \<open>
  What the fork choice promises: the canonical branch is the heaviest, is what the chain holds and depends on the tree
  alone; a block the finality check approved stays on it while the work of shares first seen later is below the margin;
  and a gap: the peg-mints of a body are not committed by the block id, yet a body whose peg-mints do not decode kills
  the id.
\<close>

section \<open>A fresh tree\<close>

lemma mm_inv_new:
  assumes "tree_append_ok (ce_curve V)"
  shows "mm_inv V 1 (mm_new V net pow pf)"
proof -
  let ?mf = "mm_new V net pow pf"
  let ?g = "mf_genesis ?mf" and ?tree = "mf_nodes ?mf"
  have n: "map_of ?tree i = Some n \<Longrightarrow> i = ?g \<and> bn_block n = ct_genesis (ce_ext V) net \<and> bn_height n = 0 \<and> bn_cum n = 0" for i n
    by (auto simp: mm_new_def Let_def split: if_splits)
  have g: "map_of ?tree ?g \<noteq> None" by (simp add: mm_new_def Let_def)
  have path: "node_path ?tree ?g ?g [?g]" using g by (rule node_path.root)
  have uniq: "node_path ?tree ?g ?g ps \<Longrightarrow> ps = [?g]" for ps by (rule node_path_unique [OF path])
  have fields: "mm_base V ?mf = ct_chain_new (ce_ext V) net pow pf" "mf_chain ?mf = ct_chain_new (ce_ext V) net pow pf"
    "mf_materialized ?mf = ?g" "mf_canonical ?mf = ?g" "mf_pending ?mf = []" "mf_stashed ?mf = []" "length ?tree = 1" "ord_map ?tree"
    "?g = ct_block_id (ce_ext V) (ce_wire V) (ct_genesis (ce_ext V) net)"
    by (simp_all add: mm_new_def Let_def ord_map_def)
  have base: "base_ok V (ct_chain_new (ce_ext V) net pow pf)" by (rule base_ok_new [OF assms])
  have shape: "shape_ok ?g ?tree"
    unfolding shape_ok_def
  proof (intro conjI allI impI)
    fix i m assume "map_of ?tree i = Some m"
    from n [OF this] show "\<exists>ps. node_path ?tree ?g i ps \<and> bn_height m = of_nat (length ps - 1)"
      using path by (intro exI [of _ "[?g]"]) simp
  qed (use fields(7,8) g in simp_all)
  have node: "node_ok V (mm_base V ?mf) ?g ?tree i m" if m: "map_of ?tree i = Some m" for i m
  proof -
    have i: "i = ?g" and b: "bn_block m = ct_genesis (ce_ext V) net" "bn_height m = 0" "bn_cum m = 0" using n [OF m] by simp_all
    have r: "\<exists>full. replay_log V (mm_base V ?mf) (map (blk ?tree) (tl ps)) = Inr full" if "node_path ?tree ?g ?g ps" for ps
      using uniq [OF that] by simp
    show ?thesis
      unfolding node_ok_def
    proof (intro conjI)
      show "ct_block_id (ce_ext V) (ce_wire V) (bn_block m) = i" using i b(1) fields(9) by simp
      show "th_height (tb_header (bn_block m)) = bn_height m" by (simp add: b ct_genesis_def ct_genesis_header_def)
      show "if i = ?g then cc_blocks (mm_base V ?mf) = [bn_block m] \<and> bn_cum m = 0 else bn_parent m = th_prev_id (tb_header (bn_block m))
          \<and> clock_ok (bn_block m) \<and> bn_cum m = tree_cum ?tree (bn_parent m) + nbits_work V (bn_block m)"
        using i b by (simp add: ct_chain_new_def) (simp add: mm_new_def Let_def)
      show "\<forall>ps. node_path ?tree ?g i ps \<longrightarrow> (\<exists>full. replay_log V (mm_base V ?mf) (map (blk ?tree) (tl ps)) = Inr full)"
        using r i by blast
    qed
  qed
  have none: "map (blk ?tree) (tl ps) = []" if "node_path ?tree ?g ?g ps" for ps using uniq [OF that] by simp
  have cur: "cursor_ok V ?mf"
    unfolding cursor_ok_def fields(1,2,3)
    using g none materializes_base [OF base] by metis
  have best: "tree_best ?tree ?g"
    using g n beats_irrefl unfolding tree_best_def by blast
  have "mm_core V 1 ?mf"
    using assms shape node cur fields unfolding mm_core_def tree_ok_def by simp
  then show ?thesis using best fields by (simp add: mm_inv_def)
qed

lemma mm_run_new:
  assumes "tree_append_ok (ce_curve V)" and "list_all event_clock_ok evs" and "1 + length evs < 2 ^ 64"
  obtains mf where "mm_run V (mm_new V net pow pf) evs = Some mf" and "mm_inv V (1 + length evs) mf"
    and "mf_network mf = net" and "mf_pow_mode mf = pow" and "mf_proof_mode mf = pf"
    and "mf_genesis mf = ct_block_id (ce_ext V) (ce_wire V) (ct_genesis (ce_ext V) net)"
proof -
  from mm_run_ok [OF mm_inv_new [OF assms(1)] assms(2,3)] obtain mf where "mm_run V (mm_new V net pow pf) evs = Some mf"
    "mm_inv V (1 + length evs) mf" "evolves (\<Union> (event_share_ids ` set evs)) (mm_new V net pow pf) mf" by blast
  then show ?thesis using that by (simp add: evolves_def mm_new_def Let_def)
qed

lemma mm_inv_chain:
  assumes inv: "mm_inv V N mf"
  obtains ps full where "mm_path (mf_nodes mf) (mf_canonical mf) = Some ps"
    and "replay_log V (mm_base V mf) (map (blk (mf_nodes mf)) (tl ps)) = Inr full" and "same_ledger (mf_chain mf) full"
    and "cc_blocks (mf_chain mf) = map (blk (mf_nodes mf)) ps" and "ct_header_id (ce_ext V) (ce_wire V) (cc_tip (mf_chain mf)) = mf_canonical mf"
proof -
  let ?tree = "mf_nodes mf" and ?g = "mf_genesis mf"
  have core: "mm_core V N mf" and best: "tree_best ?tree (mf_canonical mf)" and mat: "mf_materialized mf = mf_canonical mf"
    using inv by (simp_all add: mm_inv_def)
  have tree: "tree_ok V (mm_base V mf) ?g ?tree" and cur: "cursor_ok V mf" using core by (simp_all add: mm_core_def)
  obtain ps where ps: "node_path ?tree ?g (mf_canonical mf) ps" "mm_path ?tree (mf_canonical mf) = Some ps"
    using mm_path_ex [OF mm_core_shape [OF core]] best unfolding tree_best_def by blast
  have m: "materializes V (mm_base V mf) (mf_chain mf) (map (blk ?tree) (tl ps))" using cur ps mat by (simp add: cursor_ok_def)
  then obtain full where full: "replay_log V (mm_base V mf) (map (blk ?tree) (tl ps)) = Inr full" "same_ledger (mf_chain mf) full"
    by (auto simp: materializes_def)
  obtain gn where gn: "map_of ?tree ?g = Some gn" using mm_core_shape [OF core] by (auto simp: shape_ok_def)
  have "cc_blocks (mm_base V mf) = [bn_block gn]" using tree gn by (auto simp: tree_ok_def node_ok_def)
  then have "hd (cc_blocks (mm_base V mf)) = blk ?tree ?g" using gn by (simp add: blk_def)
  then have blocks: "cc_blocks (mf_chain mf) = map (blk ?tree) ps"
    using materializes_wf [OF mm_core_base [OF core] m] node_path_hd [OF ps(1)] by (metis list.map(2))
  obtain cn where cn: "map_of ?tree (mf_canonical mf) = Some cn" using best by (auto simp: tree_best_def)
  have "last (cc_blocks (mf_chain mf)) = bn_block cn"
    using node_path_last [OF ps(1)] cn by (simp add: blocks last_map blk_def)
  then have "ct_header_id (ce_ext V) (ce_wire V) (cc_tip (mf_chain mf)) = mf_canonical mf"
    using tree cn by (auto simp: tree_ok_def node_ok_def cc_tip_def ct_block_id_def)
  with that ps(2) full blocks show ?thesis by blast
qed

section \<open>Work\<close>

definition event_work_ok :: "('h, 't, 'w, 'p, 'tr, 'pr, 'm) ct_env \<Rightarrow> (bytes \<Rightarrow> nat) \<Rightarrow> 'm mm_event \<Rightarrow> bool" where
  "event_work_ok V wk ev = (case ev of
       EvShare share _ \<Rightarrow> vs_work share = wk (vs_aegis_id share)
     | EvBody b _ \<Rightarrow> nbits_work V b = wk (ct_block_id (ce_ext V) (ce_wire V) b)
     | EvAnchor _ _ \<Rightarrow> True)"

definition works_ok :: "('h, 't, 'w, 'p, 'tr, 'pr, 'm) ct_env \<Rightarrow> (bytes \<Rightarrow> nat) \<Rightarrow> ('p, 'tr, 'm) mm_fc \<Rightarrow> bool" where
  "works_ok V wk mf \<longleftrightarrow> (\<forall>i p. map_of (mf_pending mf) i = Some p \<longrightarrow> ps_work p = wk i)
     \<and> (\<forall>i b. map_of (mf_stashed mf) i = Some b \<longrightarrow> nbits_work V b = wk i)
     \<and> (\<forall>i n. map_of (mf_nodes mf) i = Some n \<longrightarrow> i \<noteq> mf_genesis mf \<longrightarrow> nbits_work V (bn_block n) = wk i)"

lemma works_ok_le:
  assumes "works_ok V wk mf" and "map_of (mf_pending mf') \<subseteq>\<^sub>m map_of (mf_pending mf)" and "map_of (mf_stashed mf') \<subseteq>\<^sub>m map_of (mf_stashed mf)"
    and "mf_nodes mf' = mf_nodes mf" and "mf_genesis mf' = mf_genesis mf"
  shows "works_ok V wk mf'"
  using assms unfolding works_ok_def map_le_def by (metis domI)

lemma del_key_le: "map_of (del_key k m) \<subseteq>\<^sub>m map_of m"
  by (auto simp: map_le_def)

lemma works_ok_switch: "switch_to V mf t = Some mf' \<Longrightarrow> works_ok V wk mf \<Longrightarrow> works_ok V wk mf'"
  using switch_to_keeps [of V mf t mf'] by (simp add: works_ok_def)

lemma works_ok_try_activate:
  assumes "try_activate V mf ident now = Some (mf', ok)" and w: "works_ok V wk mf"
  shows "works_ok V wk mf'"
  using assms(1)
proof (cases rule: try_activate_cases)
  case (joined block share mf1 ch pn)
  then show ?thesis using w switch_to_keeps [OF joined(3)] by (auto simp: works_ok_def split: if_splits)
next
  case (dead block share mf1 ch e)
  let ?mf2 = "mf1 \<lparr> mf_chain := ch \<rparr>"
  have "works_ok V wk ?mf2" using works_ok_switch [OF dead(4) w] by (simp add: works_ok_def)
  then show ?thesis
    unfolding dead(8) mark_dead_def using kill_all_facts [of ?mf2 "[(ident, DdInvalid e)]"] by (auto intro: works_ok_le)
next
  case (dropped block share mf1 ch e)
  then show ?thesis
    using works_ok_switch [OF dropped(4) w] switch_to_keeps [OF dropped(4)] by (auto simp: works_ok_def)
qed (use w in simp)

lemma works_ok_loop:
  "activate_loop V mf queue now n = Some (mf', k) \<Longrightarrow> works_ok V wk mf \<Longrightarrow> works_ok V wk mf'"
proof (induction V mf queue now n rule: activate_loop.induct)
  case (1 V mf queue now n)
  show ?case
  proof (cases "queue = []")
    case True
    then show ?thesis using "1.prems" by (simp add: activate_loop.simps)
  next
    case False
    then obtain mf1 ok where ta: "try_activate V mf (last queue) now = Some (mf1, ok)"
      using "1.prems"(1) by (subst (asm) activate_loop.simps) (auto split: option.splits)
    note w1 = works_ok_try_activate [OF ta "1.prems"(2)]
    show ?thesis
    proof (cases ok)
      case True
      then have o: "ok = True" by simp
      show ?thesis using "1.IH"(1) [OF False ta refl o _ w1] "1.prems"(1) False ta o by (subst (asm) (2) activate_loop.simps) simp
    next
      case nok: False
      then have o: "ok = False" by simp
      show ?thesis using "1.IH"(2) [OF False ta refl o _ w1] "1.prems"(1) False ta o by (subst (asm) (2) activate_loop.simps) simp
    qed
  qed
qed

lemma works_ok_refresh: "refresh_canonical V mf = Some mf' \<Longrightarrow> works_ok V wk mf \<Longrightarrow> works_ok V wk mf'"
  unfolding refresh_canonical_def bind_eq_Some_conv
  by (auto split: if_splits intro: works_ok_switch simp: works_ok_def) (auto simp: works_ok_def dest!: switch_to_keeps)

lemma works_ok_step:
  assumes step: "mm_step V mf ev = Some mf'" and w: "works_ok V wk mf" and ev: "event_work_ok V wk ev"
  shows "works_ok V wk mf'"
proof (cases ev)
  case (EvShare share now)
  let ?id = "vs_aegis_id share" and ?eh = "vs_ergo_height share"
  from step EvShare obtain r where i: "ingest_share V mf share now = Some (mf', r)" by (auto simp: mm_step_def)
  have wk: "vs_work share = wk ?id" using ev EvShare by (simp add: event_work_ok_def)
  show ?thesis
  proof (cases "has_key (mf_dead mf) ?id")
    case True
    then show ?thesis using i w by (simp add: ingest_share_def)
  next
    case alive: False
    show ?thesis
    proof (cases "map_of (mf_nodes mf) ?id")
      case (Some n)
      let ?mf1 = "mf \<lparr> mf_nodes := put_key ?id (n \<lparr> bn_ergo_height := ?eh \<rparr>) (mf_nodes mf) \<rparr>"
      have "works_ok V wk ?mf1" using w Some by (auto simp: works_ok_def split: if_splits)
      then show ?thesis using i alive Some w by (auto simp: ingest_share_def Let_def intro: works_ok_refresh split: if_splits)
    next
      case None
      define entry where "entry = (case map_of (mf_pending mf) ?id of
                  None \<Rightarrow> \<lparr> ps_work = vs_work share, ps_ergo_height = ?eh \<rparr>
                | Some e \<Rightarrow> if ?eh < ps_ergo_height e then e \<lparr> ps_ergo_height := ?eh \<rparr> else e)"
      define mf0 where "mf0 = mf \<lparr> mf_pending := put_key ?id entry (mf_pending mf) \<rparr>"
      have "ps_work entry = wk ?id" using w wk by (auto simp: entry_def works_ok_def split: option.split)
      then have w0: "works_ok V wk mf0" using w by (auto simp: works_ok_def mf0_def)
      from i alive None obtain mf1 k where "activate_ready_from V mf0 ?id now = Some (mf1, k)" "refresh_canonical V mf1 = Some mf'"
        by (auto simp: ingest_share_def Let_def bind_eq_Some_conv simp flip: entry_def mf0_def)
      then show ?thesis using w0 works_ok_loop works_ok_refresh unfolding activate_ready_from_def by metis
    qed
  qed
next
  case (EvBody block now)
  let ?id = "ct_block_id (ce_ext V) (ce_wire V) block"
  from step EvBody obtain r where i: "ingest_body V mf block now = Some (mf', r)" by (auto simp: mm_step_def)
  show ?thesis
  proof (cases "mf' = mf \<or> mf' = mark_dead mf ?id DdDeadParent")
    case True
    then show ?thesis
      using w works_ok_le [OF w] kill_all_facts [of mf "[(?id, DdDeadParent)]"] by (auto simp: mark_dead_def)
  next
    case False
    define st where "st = (if has_key (mf_stashed mf) ?id then mf_stashed mf else put_key ?id block (mf_stashed mf))"
    define mf0 where "mf0 = mf \<lparr> mf_stashed := st \<rparr>"
    have "works_ok V wk mf0" using w ev EvBody by (auto simp: works_ok_def mf0_def st_def event_work_ok_def)
    moreover from i False obtain mf1 k where "activate_ready_from V mf0 ?id now = Some (mf1, k)" "refresh_canonical V mf1 = Some mf'"
      by (auto simp: ingest_body_def Let_def bind_eq_Some_conv simp flip: st_def mf0_def split: if_splits)
    ultimately show ?thesis using works_ok_loop works_ok_refresh unfolding activate_ready_from_def by metis
  qed
next
  case (EvAnchor ident h)
  then show ?thesis using step w by (auto simp: mm_step_def record_anchor_def works_ok_def)
qed

lemma works_ok_run: "mm_run V mf evs = Some mf' \<Longrightarrow> works_ok V wk mf \<Longrightarrow> list_all (event_work_ok V wk) evs \<Longrightarrow> works_ok V wk mf'"
proof (induction evs arbitrary: mf)
  case (Cons ev evs)
  then show ?case by (auto simp: bind_eq_Some_conv dest: works_ok_step)
qed simp

lemma works_ok_new: "works_ok V wk (mm_new V net pow pf)"
  by (simp add: works_ok_def mm_new_def Let_def)

section \<open>Peg finality\<close>

lemma hostile_base_ge:
  "hostile_base tree target h rest = Some h' \<Longrightarrow>
     h \<le> h' \<and> (\<forall>(i, n) \<in> set rest. is_ancestor_or_eq tree target i = Some False \<longrightarrow> bn_cum n \<le> h')"
proof (induction tree target h rest rule: hostile_base.induct)
  case (2 tree target h i n rest)
  from "2.prems" obtain below where b: "is_ancestor_or_eq tree target i = Some below"
    and r: "hostile_base tree target (if \<not> below \<and> h < bn_cum n then bn_cum n else h) rest = Some h'"
    by (auto simp: bind_eq_Some_conv)
  from "2.IH" [OF b r] b show ?case by (auto split: if_splits)
qed simp

lemma hostile_branch_work:
  assumes tree: "tree_ok V base g tree'" and wk: "\<And>i n. map_of tree' i = Some n \<Longrightarrow> i \<noteq> g \<Longrightarrow> nbits_work V (bn_block n) = wk i"
    and shape: "shape_ok g tree" and kept: "parents_kept tree tree'" and target: "map_of tree target \<noteq> None"
    and hb: "hostile_base tree target 0 tree = Some hostile"
  shows "node_path tree' g i ps \<Longrightarrow> target \<notin> set ps \<Longrightarrow>
     tree_cum tree' i \<le> hostile + (\<Sum>x \<in> set ps - fst ` set tree. wk x)"
proof (induction rule: node_path.induct)
  case root
  have g: "map_of tree g \<noteq> None" using shape by (simp add: shape_ok_def)
  then obtain n where n: "map_of tree' g = Some n" using parents_keptD [OF kept] by blast
  then have "bn_cum n = 0" using tree by (auto simp: tree_ok_def node_ok_def)
  then show ?case using n by (simp add: tree_cum_def)
next
  case (step i n ps)
  show ?case
  proof (cases "map_of tree i")
    case (Some m)
    obtain qs where q: "node_path tree g i qs" using shape_path [OF shape Some] by metis
    have "qs = ps @ [i]" by (rule node_path_unique [OF node_path.step [OF step.hyps] node_path_kept [OF kept q]])
    then have "is_ancestor_or_eq tree target i = Some False" using is_ancestor_path [OF shape target q] step.prems by auto
    then have "bn_cum m \<le> hostile" using hostile_base_ge [OF hb] Some by (auto dest: map_of_SomeD)
    then have "tree_cum tree' i \<le> hostile" using blk_kept [OF kept, of i] Some by (simp add: tree_cum_def)
    then show ?thesis by linarith
  next
    case None
    have d: "i \<notin> set ps" "i \<notin> fst ` set tree"
      using node_path_distinct [OF node_path.step [OF step.hyps]] None by (auto simp: map_of_eq_None_iff)
    have "tree_cum tree' i = tree_cum tree' (bn_parent n) + wk i"
      using tree wk [OF step.hyps(1,2)] step.hyps(1,2) by (auto simp: tree_ok_def node_ok_def tree_cum_def)
    moreover have "(\<Sum>x \<in> set (ps @ [i]) - fst ` set tree. wk x) = (\<Sum>x \<in> set ps - fst ` set tree. wk x) + wk i"
      using d by (simp add: insert_Diff_if)
    ultimately show ?thesis using step.IH step.prems by simp
  qed
qed

lemma is_final_parts:
  assumes "is_final mf target l_final h = Some True"
  obtains settled sn hostile where "map_of (mf_nodes mf) target \<noteq> None" and "is_ancestor_or_eq (mf_nodes mf) target settled = Some True"
    and "map_of (mf_nodes mf) settled = Some sn" and "hostile_base (mf_nodes mf) target 0 (mf_nodes mf) = Some hostile"
    and "hostile + pending_hostile_work mf + l_final \<le> bn_cum sn"
  using assms by (auto simp: is_final_def has_key_def bind_eq_Some_conv split: if_splits option.splits)

lemma pending_work_sum:
  assumes "ord_map (mf_pending mf)" and "\<And>i p. map_of (mf_pending mf) i = Some p \<Longrightarrow> ps_work p = wk i"
  shows "pending_hostile_work mf = (\<Sum>i \<in> fst ` set (mf_pending mf). wk i)"
proof -
  have "pending_hostile_work mf = sum_list (map (\<lambda>ip. wk (fst ip)) (mf_pending mf))"
    unfolding pending_hostile_work_def
    by (rule arg_cong [where f = sum_list], rule map_cong [OF refl])
      (use assms in \<open>auto simp: split_beta map_of_iff_in\<close>)
  also have "\<dots> = sum_list (map wk (map fst (mf_pending mf)))" by (simp add: comp_def)
  also have "\<dots> = (\<Sum>i \<in> set (map fst (mf_pending mf)). wk i)"
    by (rule sum_list_distinct_conv_sum_set [OF ord_map_distinct [OF assms(1)]])
  finally show ?thesis by simp
qed

text \<open>The work of the shares in \<open>evs\<close> whose ids the fork choice did not know before.\<close>

definition new_share_work :: "(bytes \<Rightarrow> nat) \<Rightarrow> ('p, 'tr, 'm) mm_fc \<Rightarrow> 'm mm_event list \<Rightarrow> nat" where
  "new_share_work wk mf evs =
     (\<Sum>i \<in> \<Union> (event_share_ids ` set evs) - fst ` set (mf_nodes mf) - fst ` set (mf_pending mf). wk i)"

lemma peg_finality_step:
  assumes inv: "mm_inv V N mf" and works: "works_ok V wk mf" and final: "is_final mf target l_final h = Some True"
    and run: "mm_run V mf evs = Some mf'" and clock: "list_all event_clock_ok evs" and evw: "list_all (event_work_ok V wk) evs"
    and size: "N + length evs < 2 ^ 64" and new: "new_share_work wk mf evs < l_final"
  shows "is_ancestor_or_eq (mf_nodes mf') target (mf_canonical mf') = Some True"
proof -
  let ?T = "mf_nodes mf" and ?T' = "mf_nodes mf'" and ?g = "mf_genesis mf" and ?P = "fst ` set (mf_pending mf)"
  let ?K = "\<Union> (event_share_ids ` set evs)"
  from mm_run_ok [OF inv clock size] run have inv': "mm_inv V (N + length evs) mf'" and ev: "evolves ?K mf mf'" by auto
  have core: "mm_core V N mf" and core': "mm_core V (N + length evs) mf'" and best': "tree_best ?T' (mf_canonical mf')"
    using inv inv' by (simp_all add: mm_inv_def)
  have shape: "shape_ok ?g ?T" by (rule mm_core_shape [OF core])
  have g': "mf_genesis mf' = ?g" and kept: "parents_kept ?T ?T'"
    and ids: "fst ` set ?T' \<subseteq> fst ` set ?T \<union> ?P \<union> ?K"
    using ev by (auto simp: evolves_def)
  have tree': "tree_ok V (mm_base V mf') ?g ?T'" and shape': "shape_ok ?g ?T'" using core' g' by (simp_all add: mm_core_def tree_ok_def)
  have works': "works_ok V wk mf'" by (rule works_ok_run [OF run works evw])
  from final obtain settled sn hostile where target: "map_of ?T target \<noteq> None" and below: "is_ancestor_or_eq ?T target settled = Some True"
    and sn: "map_of ?T settled = Some sn" and hb: "hostile_base ?T target 0 ?T = Some hostile"
    and margin: "hostile + pending_hostile_work mf + l_final \<le> bn_cum sn"
    by (rule is_final_parts)
  have target': "map_of ?T' target \<noteq> None" using target parents_keptD [OF kept] by fastforce
  obtain ps where ps: "node_path ?T' ?g (mf_canonical mf') ps" using mm_path_ex [OF shape'] best' unfolding tree_best_def by blast
  have "target \<in> set ps"
  proof (rule ccontr)
    assume out: "target \<notin> set ps"
    have "tree_cum ?T' (mf_canonical mf') \<le> hostile + (\<Sum>x \<in> set ps - fst ` set ?T. wk x)"
      by (rule hostile_branch_work [OF tree' _ shape kept target hb ps out])
        (use works' g' in \<open>simp add: works_ok_def\<close>)
    also have "(\<Sum>x \<in> set ps - fst ` set ?T. wk x) \<le> (\<Sum>x \<in> ?P \<union> (?K - fst ` set ?T - ?P). wk x)"
    proof (rule sum_mono2)
      show "finite (?P \<union> (?K - fst ` set ?T - ?P))"
        by (auto simp: event_share_ids_def split: mm_event.splits)
      show "set ps - fst ` set ?T \<subseteq> ?P \<union> (?K - fst ` set ?T - ?P)"
        using node_path_distinct [OF ps] ids by blast
    qed simp
    also have "\<dots> = (\<Sum>x \<in> ?P. wk x) + new_share_work wk mf evs"
      unfolding new_share_work_def
      by (rule sum.union_disjoint) (auto simp: event_share_ids_def split: mm_event.splits)
    also have "(\<Sum>x \<in> ?P. wk x) = pending_hostile_work mf"
      using core works by (intro pending_work_sum [symmetric]) (simp_all add: mm_core_def works_ok_def)
    finally have "tree_cum ?T' (mf_canonical mf') < bn_cum sn" using margin new by linarith
    moreover have "bn_cum sn \<le> tree_cum ?T' (mf_canonical mf')"
      using tree_best_heaviest [OF best', of settled] blk_kept [OF kept, of settled] sn parents_keptD [OF kept sn] by (auto simp: tree_cum_def)
    ultimately show False by linarith
  qed
  then show ?thesis using is_ancestor_path [OF shape' target' ps] by simp
qed

definition blocks_work :: "('h, 't, 'w, 'p, 'tr, 'pr, 'm) ct_env \<Rightarrow> 'm ct_block list \<Rightarrow> nat" where
  "blocks_work V bs = sum_list (map (\<lambda>b. x_decode_bits (ce_ext V) (th_sc_nbits (tb_header b))) bs)"

lemma blocks_work_Nil [simp]: "blocks_work V [] = 0"
  and blocks_work_snoc [simp]: "blocks_work V (bs @ [b]) = blocks_work V bs + nbits_work V b"
  by (simp_all add: blocks_work_def)

text \<open>The cumulative work of a node is the sum of the difficulties of the blocks on its path.\<close>

lemma node_path_work:
  assumes tree: "tree_ok V base g tree" and p: "node_path tree g i ps"
  shows "bn_cum (the (map_of tree i)) = blocks_work V (map (blk tree) (tl ps)) \<and> last (map (blk tree) ps) = bn_block (the (map_of tree i))"
  using p
proof (induction rule: node_path.induct)
  case root
  then obtain n where n: "map_of tree g = Some n" by blast
  with tree have "node_ok V base g tree g n" by (simp add: tree_ok_def)
  with n show ?case by (simp add: node_ok_def blk_def)
next
  case (step i n ps)
  with tree have ok: "node_ok V base g tree i n" by (simp add: tree_ok_def)
  have "ps \<noteq> []" using node_path_last [OF step.hyps(3)] by simp
  then show ?case
    using step.IH step.hyps(1,2) ok by (simp add: node_ok_def blk_def tree_cum_def tl_append split: list.split)
qed

lemma mm_inv_node:
  assumes inv: "mm_inv V N mf" and n: "map_of (mf_nodes mf) i = Some n"
  obtains ps full where "replay_log V (mm_base V mf) (map (blk (mf_nodes mf)) (tl ps)) = Inr full"
    and "bn_cum n = blocks_work V (map (blk (mf_nodes mf)) (tl ps))" and "last (cc_blocks full) = bn_block n"
    and "mm_path (mf_nodes mf) i = Some ps" and "cc_blocks full = map (blk (mf_nodes mf)) ps"
proof -
  let ?tree = "mf_nodes mf" and ?g = "mf_genesis mf"
  have core: "mm_core V N mf" using inv by (simp add: mm_inv_def)
  have tree: "tree_ok V (mm_base V mf) ?g ?tree" using core by (simp add: mm_core_def)
  obtain ps where ps: "node_path ?tree ?g i ps" "mm_path ?tree i = Some ps"
    using mm_path_ex [OF mm_core_shape [OF core]] n by (metis option.distinct(1))
  have "node_ok V (mm_base V mf) ?g ?tree i n" using tree n by (simp add: tree_ok_def)
  then obtain full where full: "replay_log V (mm_base V mf) (map (blk ?tree) (tl ps)) = Inr full"
    using ps(1) by (auto simp: node_ok_def)
  obtain gn where gn: "map_of ?tree ?g = Some gn" using mm_core_shape [OF core] by (auto simp: shape_ok_def)
  have base: "cc_blocks (mm_base V mf) = [blk ?tree ?g]" using tree gn by (auto simp: tree_ok_def node_ok_def blk_def)
  have "cc_blocks full = blk ?tree ?g # map (blk ?tree) (tl ps)"
    using replay_wf [OF mm_core_base [OF core] full] base by simp
  then have blocks: "cc_blocks full = map (blk ?tree) ps" using node_path_hd [OF ps(1)] by (metis list.map(2))
  from node_path_work [OF tree ps(1)] n have "bn_cum n = blocks_work V (map (blk ?tree) (tl ps))" "last (cc_blocks full) = bn_block n"
    by (simp_all add: blocks)
  then show ?thesis using full ps(2) blocks by (intro that)
qed

text \<open>
  C30: The node never panics and follows the heaviest branch: after any sequence of fewer than 2^64 - 1 shares, bodies and
  anchors, at clocks two minutes short of the 64-bit end, every validated block ends a branch that a fresh chain replays, its cumulative work is the sum of the difficulties
  of the blocks of that branch after the genesis, and no such branch has more work than the chain's; the chain ends in the canonical tip,
  and its blocks and state are those of a fresh chain that replays its branch.
\<close>
theorem mm_follows_heaviest:
  assumes "tree_append_ok (ce_curve V)" and "list_all event_clock_ok evs" and "1 + length evs < 2 ^ 64"
  shows "\<exists>mf full. mm_run V (mm_new V net pow pf) evs = Some mf
    \<and> (\<forall>i n. map_of (mf_nodes mf) i = Some n \<longrightarrow>
         (\<exists>bs branch. replay_log V (ct_chain_new (ce_ext V) net pow pf) bs = Inr branch \<and> cc_tip branch = tb_header (bn_block n)
            \<and> ct_block_id (ce_ext V) (ce_wire V) (bn_block n) = i \<and> mm_cumulative_work mf i = Some (blocks_work V bs)
            \<and> blocks_work V bs \<le> blocks_work V (tl (cc_blocks (mf_chain mf)))))
    \<and> ct_header_id (ce_ext V) (ce_wire V) (cc_tip (mf_chain mf)) = mf_canonical mf
    \<and> mm_cumulative_work mf (mf_canonical mf) = Some (blocks_work V (tl (cc_blocks (mf_chain mf))))
    \<and> replay_log V (ct_chain_new (ce_ext V) net pow pf) (tl (cc_blocks (mf_chain mf))) = Inr full
    \<and> cc_blocks full = cc_blocks (mf_chain mf) \<and> cc_state full = cc_state (mf_chain mf)"
proof -
  obtain mf where run: "mm_run V (mm_new V net pow pf) evs = Some mf" and inv: "mm_inv V (1 + length evs) mf"
    and f: "mf_network mf = net" "mf_pow_mode mf = pow" "mf_proof_mode mf = pf" by (rule mm_run_new [OF assms])
  obtain ps full where p: "mm_path (mf_nodes mf) (mf_canonical mf) = Some ps"
    and r: "replay_log V (mm_base V mf) (map (blk (mf_nodes mf)) (tl ps)) = Inr full"
    and s: "same_ledger (mf_chain mf) full" and b: "cc_blocks (mf_chain mf) = map (blk (mf_nodes mf)) ps"
    and t: "ct_header_id (ce_ext V) (ce_wire V) (cc_tip (mf_chain mf)) = mf_canonical mf" by (rule mm_inv_chain [OF inv])
  have best: "tree_best (mf_nodes mf) (mf_canonical mf)" using inv by (simp add: mm_inv_def)
  then obtain m where m: "map_of (mf_nodes mf) (mf_canonical mf) = Some m" by (auto simp: tree_best_def)
  have top: "bn_cum m = blocks_work V (tl (cc_blocks (mf_chain mf)))"
    by (rule mm_inv_node [OF inv m]) (use p in \<open>simp add: b map_tl\<close>)
  have node: "\<exists>bs branch. replay_log V (ct_chain_new (ce_ext V) net pow pf) bs = Inr branch \<and> cc_tip branch = tb_header (bn_block n)
            \<and> ct_block_id (ce_ext V) (ce_wire V) (bn_block n) = i \<and> mm_cumulative_work mf i = Some (blocks_work V bs)
            \<and> blocks_work V bs \<le> blocks_work V (tl (cc_blocks (mf_chain mf)))" if n: "map_of (mf_nodes mf) i = Some n" for i n
  proof -
    obtain qs br where q: "replay_log V (mm_base V mf) (map (blk (mf_nodes mf)) (tl qs)) = Inr br"
      "bn_cum n = blocks_work V (map (blk (mf_nodes mf)) (tl qs))" "last (cc_blocks br) = bn_block n" by (rule mm_inv_node [OF inv n])
    have "node_ok V (mm_base V mf) (mf_genesis mf) (mf_nodes mf) i n"
      using inv n by (simp add: mm_inv_def mm_core_def tree_ok_def)
    then have "ct_block_id (ce_ext V) (ce_wire V) (bn_block n) = i" by (simp add: node_ok_def)
    moreover have "bn_cum n \<le> bn_cum m" using tree_best_heaviest [OF best, of i] n m by (simp add: tree_cum_def)
    ultimately show ?thesis
      using q n top by (intro exI [of _ "map (blk (mf_nodes mf)) (tl qs)"] exI [of _ br]) (simp add: f mm_cumulative_work_def cc_tip_def)
  qed
  have "replay_log V (ct_chain_new (ce_ext V) net pow pf) (tl (cc_blocks (mf_chain mf))) = Inr full"
    using r by (simp add: f b map_tl)
  then show ?thesis
    using run m node t top same_ledgerD [OF s] by (intro exI [of _ mf] exI [of _ full]) (simp add: mm_cumulative_work_def)
qed

text \<open>
  C21: The canonical tip, the chain's blocks and its state depend on the tree alone: two nodes that reached the same tree by
  different events, or in a different order, agree.
\<close>
theorem mm_tip_from_tree:
  assumes "tree_append_ok (ce_curve V)" and "list_all event_clock_ok evs" and "list_all event_clock_ok evs'"
    and "1 + length evs < 2 ^ 64" and "1 + length evs' < 2 ^ 64"
    and run: "mm_run V (mm_new V net pow pf) evs = Some mf" and run': "mm_run V (mm_new V net pow pf) evs' = Some mf'"
    and same: "mf_nodes mf = mf_nodes mf'"
  shows "mf_canonical mf = mf_canonical mf' \<and> cc_blocks (mf_chain mf) = cc_blocks (mf_chain mf')
    \<and> cc_state (mf_chain mf) = cc_state (mf_chain mf')"
proof -
  from mm_run_new [OF assms(1,2,4), of net pow pf] run have inv: "mm_inv V (1 + length evs) mf"
    and f: "mf_network mf = net" "mf_pow_mode mf = pow" "mf_proof_mode mf = pf"
      "mf_genesis mf = ct_block_id (ce_ext V) (ce_wire V) (ct_genesis (ce_ext V) net)" by (metis option.inject)+
  from mm_run_new [OF assms(1,3,5), of net pow pf] run' have inv': "mm_inv V (1 + length evs') mf'"
    and f': "mf_network mf' = net" "mf_pow_mode mf' = pow" "mf_proof_mode mf' = pf"
      "mf_genesis mf' = ct_block_id (ce_ext V) (ce_wire V) (ct_genesis (ce_ext V) net)" by (metis option.inject)+
  have shape: "shape_ok (mf_genesis mf) (mf_nodes mf)" using inv by (auto simp: mm_inv_def intro: mm_core_shape)
  have c: "mf_canonical mf = mf_canonical mf'"
    using tree_best_unique [OF shape] inv inv' same by (simp add: mm_inv_def)
  obtain ps full where p: "mm_path (mf_nodes mf) (mf_canonical mf) = Some ps"
    and r: "replay_log V (mm_base V mf) (map (blk (mf_nodes mf)) (tl ps)) = Inr full"
    and s: "same_ledger (mf_chain mf) full" by (rule mm_inv_chain [OF inv])
  obtain ps' full' where p': "mm_path (mf_nodes mf') (mf_canonical mf') = Some ps'"
    and r': "replay_log V (mm_base V mf') (map (blk (mf_nodes mf')) (tl ps')) = Inr full'"
    and s': "same_ledger (mf_chain mf') full'" by (rule mm_inv_chain [OF inv'])
  have "ps' = ps" using p p' c same by simp
  then have "full' = full" using r r' same by (simp add: f f')
  then show ?thesis using c same_ledgerD [OF s] same_ledgerD [OF s'] by simp
qed

text \<open>
  C31: Peg finality: once the check approves a block, the block stays on the canonical branch through every further event, as
  long as the work of shares whose ids were unknown at the check stays below the margin. Bodies of shares already pending
  may be revealed in any order; their work was charged in full.
\<close>
theorem peg_finality:
  assumes "tree_append_ok (ce_curve V)" and run: "mm_run V (mm_new V net pow pf) evs = Some mf"
    and final: "is_final mf target l_final h = Some True" and run': "mm_run V mf evs' = Some mf'"
    and clock: "list_all event_clock_ok (evs @ evs')" and work: "list_all (event_work_ok V wk) (evs @ evs')"
    and size: "1 + length (evs @ evs') < 2 ^ 64" and new: "new_share_work wk mf evs' < l_final"
  shows "is_ancestor_or_eq (mf_nodes mf') target (mf_canonical mf') = Some True"
proof -
  from mm_run_new [OF assms(1), of evs net pow pf] run clock size have "mm_inv V (1 + length evs) mf" by fastforce
  moreover have "works_ok V wk mf" using works_ok_run [OF run works_ok_new] work by simp
  moreover have "list_all event_clock_ok evs'" "list_all (event_work_ok V wk) evs'" "(1 + length evs) + length evs' < 2 ^ 64"
    using clock work size by simp_all
  ultimately show ?thesis using peg_finality_step [OF _ _ final run' _ _ _ new] by blast
qed

end
