(* ===== verification/MmPoison.thy ===== *)
theory MmPoison
  imports MmFinality
begin

text \<open>
  A gap of the fork choice: the peg-mint blobs of a body are committed neither by the transaction root nor by the block
  id, yet a blob that does not decode is a permanent verdict on the id. Anyone who relays the body first can swap the blobs
  and the honest block is dead.
\<close>

section \<open>The body with other blobs\<close>

definition with_blobs :: "'m ct_block \<Rightarrow> bytes list \<Rightarrow> 'm ct_block" where
  "with_blobs b blobs = b \<lparr> tb_body := (tb_body b) \<lparr> bb_peg_mints := blobs \<rparr> \<rparr>"

lemma with_blobs_simps [simp]:
  "tb_header (with_blobs b blobs) = tb_header b" "tb_coinbase (with_blobs b blobs) = tb_coinbase b"
  "bb_transfers (tb_body (with_blobs b blobs)) = bb_transfers (tb_body b)" "bb_peg_mints (tb_body (with_blobs b blobs)) = blobs"
  "tx_root E W (tb_body (with_blobs b blobs)) = tx_root E W (tb_body b)"
  "ct_block_id E W (with_blobs b blobs) = ct_block_id E W b" "claim_ok V (with_blobs b blobs) = claim_ok V b"
  by (simp_all add: with_blobs_def peg_mints_uncommitted ct_block_id_def claim_ok_def split: option.split)

lemma with_blobs_checks [simp]:
  "check_ct_header V ch (with_blobs b blobs) now = check_ct_header V ch b now"
  "check_transfer_proofs V ch (with_blobs b blobs) = check_transfer_proofs V ch b"
  "check_ct_coinbase V ch (with_blobs b blobs) = check_ct_coinbase V ch b"
  by (simp_all add: check_ct_header_def check_transfer_proofs_def check_ct_coinbase_def Let_def split: option.split)

lemma try_extend_bad_blob:
  assumes ok: "try_extend V ch b now = (ch', Inr ())" and junk: "read_pegmint_proof (ce_ext V) (ce_ergo V) (ce_vlq V) junk = Inl e"
  shows "try_extend V ch (with_blobs b [junk]) now = (ch, Inl (ExPegMintDecode 0))"
proof -
  have "decode_peg_mints V (with_blobs b [junk]) = Inl (ExPegMintDecode 0)"
    using junk by (simp add: decode_peg_mints_def enumerate_eq_zip)
  moreover obtain r where "check_ct_header V ch b now = Inr ()" "check_transfer_proofs V ch b = Inr ()" "check_ct_coinbase V ch b = Inr r"
    using ok by (auto simp: try_extend_def result_simps split: sum.splits option.splits)
  ultimately show ?thesis by (simp add: try_extend_def)
qed

section \<open>The dead verdict\<close>

lemma switch_to_stashed:
  "switch_to V (mf \<lparr> mf_stashed := st \<rparr>) t = map_option (\<lambda>m. m \<lparr> mf_stashed := st \<rparr>) (switch_to V mf t)"
  by (auto simp: switch_to_def Let_def map_option_bind comp_def split: option.splits intro!: bind_option_cong)

lemma switch_to_other_stash:
  assumes "switch_to V (mf \<lparr> mf_stashed := st \<rparr>) t = Some m"
  obtains m' where "switch_to V mf t = Some m'" and "mf_chain m = mf_chain m'"
  using assms by (auto simp: switch_to_stashed)

lemma refresh_canonical_dead:
  assumes "refresh_canonical V mf = Some mf'"
  shows "mf_dead mf' = mf_dead mf \<and> mf_nodes mf' = mf_nodes mf"
proof -
  from assms obtain best where r: "(if mf_materialized mf \<noteq> best then switch_to V (mf \<lparr> mf_canonical := best \<rparr>) best
       else Some (mf \<lparr> mf_canonical := best \<rparr>)) = Some mf'" by (auto simp: refresh_canonical_def bind_eq_Some_conv)
  show ?thesis
  proof (cases "mf_materialized mf = best")
    case True
    with r have "mf' = mf \<lparr> mf_canonical := best \<rparr>" by simp
    then show ?thesis by simp
  next
    case False
    with r have "switch_to V (mf \<lparr> mf_canonical := best \<rparr>) best = Some mf'" by simp
    from switch_to_keeps [OF this] show ?thesis by simp
  qed
qed

lemma activate_one:
  assumes "try_activate V mf i now = Some (mf', False)"
  shows "activate_ready_from V mf i now = Some (mf', 0)"
  using assms by (simp add: activate_ready_from_def activate_loop.simps)

lemma activated_first:
  assumes "activate_ready_from V mf i now = Some (mf', k)" and "0 < k"
  obtains mf1 where "try_activate V mf i now = Some (mf1, True)"
  using assms unfolding activate_ready_from_def
  by (subst (asm) activate_loop.simps) (auto simp: activate_loop.simps [of V _ "[]"] split: option.splits bool.splits)

lemma body_activated:
  assumes body: "ingest_body V mf b now = Some (mf1, BiActivated k)" and fresh: "\<not> has_key (mf_stashed mf) (ct_block_id (ce_ext V) (ce_wire V) b)"
  obtains share m ch where "map_of (mf_pending mf) (ct_block_id (ce_ext V) (ce_wire V) b) = Some share"
    and "has_key (mf_nodes mf) (th_prev_id (tb_header b))" and "switch_to V mf (th_prev_id (tb_header b)) = Some m"
    and "try_extend V (mf_chain m) b now = (ch, Inr ())"
proof -
  let ?id = "ct_block_id (ce_ext V) (ce_wire V) b"
  let ?mf0 = "mf \<lparr> mf_stashed := put_key ?id b (mf_stashed mf) \<rparr>"
  from body fresh obtain mf2 j where "activate_ready_from V ?mf0 ?id now = Some (mf2, j)" "0 < j"
    by (auto simp: ingest_body_def Let_def bind_eq_Some_conv split: if_splits)
  then obtain mf3 where "try_activate V ?mf0 ?id now = Some (mf3, True)" by (rule activated_first)
  then show ?thesis
  proof (cases rule: try_activate_cases)
    case (joined block share m ch pn)
    then have b: "block = b" by simp
    from joined(3) b obtain m' where "switch_to V mf (th_prev_id (tb_header b)) = Some m'" "mf_chain m = mf_chain m'"
      by (auto elim: switch_to_other_stash)
    then show ?thesis using joined b by (intro that [of share m' ch]) (auto simp: has_key_def)
  qed simp_all
qed

lemma bad_blob_dies:
  assumes inv: "mm_inv V N mf" and now: "unat now + 120000 < 2 ^ 64" and N: "Suc N < 2 ^ 64"
    and body: "ingest_body V mf b now = Some (mf1, BiActivated k)" and fresh: "\<not> has_key (mf_stashed mf) (ct_block_id (ce_ext V) (ce_wire V) b)"
    and junk: "read_pegmint_proof (ce_ext V) (ce_ergo V) (ce_vlq V) junk = Inl e"
  obtains mf2 where "ingest_body V mf (with_blobs b [junk]) now = Some (mf2, BiDead)"
    and "has_key (mf_dead mf2) (ct_block_id (ce_ext V) (ce_wire V) b)" and "mf_nodes mf2 = mf_nodes mf"
proof -
  let ?id = "ct_block_id (ce_ext V) (ce_wire V) b" and ?b = "with_blobs b [junk]"
  define mf0 where "mf0 = mf \<lparr> mf_stashed := put_key ?id ?b (mf_stashed mf) \<rparr>"
  obtain share m ch where share: "map_of (mf_pending mf) ?id = Some share"
    and parent: "has_key (mf_nodes mf) (th_prev_id (tb_header b))" and sw: "switch_to V mf (th_prev_id (tb_header b)) = Some m"
    and te: "try_extend V (mf_chain m) b now = (ch, Inr ())" by (rule body_activated [OF body fresh])
  define m0 where "m0 = m \<lparr> mf_stashed := put_key ?id ?b (mf_stashed mf) \<rparr>"
  define dead where "dead = mark_dead m0 ?id (DdInvalid (ExPegMintDecode 0))"
  have sw0: "switch_to V mf0 (th_prev_id (tb_header b)) = Some m0" by (simp add: mf0_def m0_def switch_to_stashed sw)
  have "try_activate V mf0 ?id now = Some (dead, False)"
    using share parent sw0 try_extend_bad_blob [OF te junk]
    by (simp add: try_activate_def mf0_def m0_def dead_def verdict_is_permanent_def)
  then have act: "activate_ready_from V mf0 ?id now = Some (dead, 0)" by (rule activate_one)
  have d: "has_key (mf_dead dead) ?id" "mf_nodes dead = mf_nodes mf"
    using kill_all_facts [of m0 "[(?id, DdInvalid (ExPegMintDecode 0))]"] switch_to_keeps [OF sw]
    by (auto simp: dead_def mark_dead_def m0_def has_key_def map_of_eq_None_iff)
  have guards: "\<not> has_key (mf_nodes mf) ?id" "\<not> has_key (mf_dead mf) ?id" "th_tx_root (tb_header b) = tx_root (ce_ext V) (ce_wire V) (tb_body b)"
    "claim_ok V b" "\<not> has_key (mf_dead mf) (th_prev_id (tb_header b))"
    using body by (auto simp: ingest_body_def Let_def split: if_splits)
  have run: "ingest_body V mf ?b now = Option.bind (refresh_canonical V dead) (\<lambda>mf2.
      Some (mf2, if has_key (mf_dead mf2) ?id then BiDead else if \<not> has_key (mf_stashed mf2) ?id then BiRejectedTransient
        else if has_key (mf_pending mf2) ?id then BiAwaitingParent else BiAwaitingShare))"
    using guards fresh act by (simp add: ingest_body_def Let_def mf0_def)
  obtain mf2 r where i: "ingest_body V mf ?b now = Some (mf2, r)" by (rule ingest_body_ok [OF inv now N])
  then have "refresh_canonical V dead = Some mf2" using run by (auto simp: bind_eq_Some_conv)
  then have "mf_dead mf2 = mf_dead dead" "mf_nodes mf2 = mf_nodes dead" using refresh_canonical_dead by blast+
  with i run d that show ?thesis by (auto simp: bind_eq_Some_conv)
qed

text \<open>
  C35: An honest block that the node would accept now is lost for good when a copy of its body with one undecodable peg-mint blob
  arrives first: the copy has the same id and passes self-authentication, the node marks the id dead, and the honest
  body is refused from then on.
\<close>
theorem honest_block_poisoned:
  assumes "tree_append_ok (ce_curve V)" and run: "mm_run V (mm_new V net pow pf) evs = Some mf"
    and clock: "list_all event_clock_ok evs" and size: "length evs + 2 < 2 ^ 64" and now: "unat now + 120000 < 2 ^ 64"
    and body: "ingest_body V mf b now = Some (mf1, BiActivated k)" and fresh: "\<not> has_key (mf_stashed mf) (ct_block_id (ce_ext V) (ce_wire V) b)"
    and junk: "read_pegmint_proof (ce_ext V) (ce_ergo V) (ce_vlq V) junk = Inl e"
  shows "ct_block_id (ce_ext V) (ce_wire V) (with_blobs b [junk]) = ct_block_id (ce_ext V) (ce_wire V) b
    \<and> (\<exists>mf2. ingest_body V mf (with_blobs b [junk]) now = Some (mf2, BiDead)
        \<and> (\<forall>later. ingest_body V mf2 b later = Some (mf2, BiDead)))"
proof -
  obtain mf' where "mm_run V (mm_new V net pow pf) evs = Some mf'" "mm_inv V (1 + length evs) mf'"
    using mm_run_new [OF assms(1) clock, of net pow pf] size by auto
  then have inv: "mm_inv V (1 + length evs) mf" using run by simp
  have N: "Suc (1 + length evs) < 2 ^ 64" using size by simp
  obtain mf2 where poisoned: "ingest_body V mf (with_blobs b [junk]) now = Some (mf2, BiDead)"
    and dead: "has_key (mf_dead mf2) (ct_block_id (ce_ext V) (ce_wire V) b)" and nodes: "mf_nodes mf2 = mf_nodes mf"
    by (rule bad_blob_dies [OF inv now N body fresh junk])
  have "\<not> has_key (mf_nodes mf2) (ct_block_id (ce_ext V) (ce_wire V) b)"
    using body by (auto simp: nodes ingest_body_def Let_def split: if_splits)
  then have "ingest_body V mf2 b later = Some (mf2, BiDead)" for later using dead by (simp add: ingest_body_def Let_def)
  then show ?thesis using poisoned by auto
qed

end
