(* ===== verification/CtDemo.thy ===== *)
theory CtDemo
  imports DemoChain CtStore MmPoison
begin

text \<open>
  A concrete environment of the curve-tree node: hashes that keep the last byte, points that are bytes, trees that are
  leaf lists, and codecs with length prefixes; and a chain of one block with a coinbase note, on which the theorems are
  applied.
\<close>

section \<open>An encoding of Merkle proofs\<close>

fun put_nat :: "nat \<Rightarrow> bytes" where
  "put_nat 0 = [0]"
| "put_nat (Suc n) = 1 # put_nat n"

fun get_nat :: "bytes \<Rightarrow> (nat \<times> bytes) option" where
  "get_nat [] = None"
| "get_nat (b # bs) = (if b = 0 then Some (0, bs) else map_option (map_prod Suc id) (get_nat bs))"

lemma get_put_nat [simp]: "get_nat (put_nat n @ r) = Some (n, r)"
  by (induction n) simp_all

fun put_many :: "('a \<Rightarrow> bytes) \<Rightarrow> 'a list \<Rightarrow> bytes" where
  "put_many enc [] = [0]"
| "put_many enc (x # xs) = 1 # enc x @ put_many enc xs"

fun get_many :: "(bytes \<Rightarrow> ('a \<times> bytes) option) \<Rightarrow> nat \<Rightarrow> bytes \<Rightarrow> ('a list \<times> bytes) option" where
  "get_many dec 0 bs = None"
| "get_many dec (Suc k) [] = None"
| "get_many dec (Suc k) (b # bs) =
     (if b = 0 then Some ([], bs)
      else Option.bind (dec bs) (\<lambda>(x, r). map_option (map_prod (Cons x) id) (get_many dec k r)))"

lemma get_put_many:
  assumes "\<And>x r. dec (enc x @ r) = Some (x, r)"
  shows "length xs < k \<Longrightarrow> get_many dec k (put_many enc xs @ r) = Some (xs, r)"
proof (induction xs arbitrary: k)
  case Nil
  then show ?case by (cases k) simp_all
next
  case (Cons x xs)
  then obtain j where "k = Suc j" "length xs < j" by (cases k) auto
  then show ?case using Cons.IH [of j] assms [of x] by simp
qed

lemma length_put_many: "length xs < length (put_many enc xs @ r)"
  by (induction xs) auto

definition put_blobn :: "bytes \<Rightarrow> bytes" where
  "put_blobn bs = put_nat (length bs) @ bs"

definition get_blobn :: "bytes \<Rightarrow> (bytes \<times> bytes) option" where
  "get_blobn bs = Option.bind (get_nat bs) (\<lambda>(n, r). if n \<le> length r then Some (take n r, drop n r) else None)"

lemma get_put_blobn [simp]: "get_blobn (put_blobn bs @ r) = Some (bs, r)"
  by (simp add: get_blobn_def put_blobn_def)

definition put_index :: "u32 \<times> bytes \<Rightarrow> bytes" where
  "put_index p = put_nat (unat (fst p)) @ put_blobn (snd p)"

definition get_index :: "bytes \<Rightarrow> ((u32 \<times> bytes) \<times> bytes) option" where
  "get_index bs = Option.bind (get_nat bs) (\<lambda>(n, r). map_option (\<lambda>(b, r). ((of_nat n, b), r)) (get_blobn r))"

definition put_entry :: "proof_entry \<Rightarrow> bytes" where
  "put_entry e = (case pe_digest e of None \<Rightarrow> [0] | Some d \<Rightarrow> 1 # put_blobn d) @ [case pe_side e of SideLeft \<Rightarrow> 0 | SideRight \<Rightarrow> 1]"

definition get_entry :: "bytes \<Rightarrow> (proof_entry \<times> bytes) option" where
  "get_entry bs =
     (case bs of [] \<Rightarrow> None
      | b # r \<Rightarrow> Option.bind (if b = 0 then Some (None, r) else map_option (map_prod Some id) (get_blobn r)) (\<lambda>(d, r).
          case r of [] \<Rightarrow> None | s # r \<Rightarrow> Some (\<lparr> pe_digest = d, pe_side = (if s = 0 then SideLeft else SideRight) \<rparr>, r)))"

lemma get_put_index: "get_index (put_index p @ r) = Some (p, r)"
  by (cases p) (simp add: get_index_def put_index_def)

lemma get_put_entry: "get_entry (put_entry e @ r) = Some (e, r)"
  by (cases e) (auto simp: get_entry_def put_entry_def split: option.split side.split)

definition put_batch :: "batch_proof \<Rightarrow> bytes" where
  "put_batch p = put_many put_index (bp_indices p) @ put_many put_entry (bp_proofs p)"

definition get_batch :: "bytes \<Rightarrow> batch_proof option" where
  "get_batch bs = Option.bind (get_many get_index (length bs) bs) (\<lambda>(ix, r).
     Option.bind (get_many get_entry (length bs) r) (\<lambda>(es, r). if r = [] then Some \<lparr> bp_indices = ix, bp_proofs = es \<rparr> else None))"

lemma get_put_batch: "get_batch (put_batch p) = Some p"
proof -
  have "length (bp_indices p) < length (put_batch p)" "length (bp_proofs p) < length (put_batch p)"
    using length_put_many [of "bp_indices p" put_index "put_many put_entry (bp_proofs p)"] length_put_many [of "bp_proofs p" put_entry "[]"]
    by (simp_all add: put_batch_def)
  then show ?thesis
    using get_put_many [of get_index put_index, OF get_put_index, of "bp_indices p" "length (put_batch p)" "put_many put_entry (bp_proofs p)"]
      get_put_many [of get_entry put_entry, OF get_put_entry, of "bp_proofs p" "length (put_batch p)" "[]"]
    by (cases p) (simp add: get_batch_def put_batch_def)
qed

section \<open>The environment\<close>

definition cd_ext :: "(nat, bytes) ext" where
  "cd_ext = demo \<lparr> x_tx_outputs := \<lambda>tx. [\<lparr> xo_tree = [1], xo_tokens = [([2], 1000)], xo_r4 = Some (replicate 33 0) \<rparr>] \<rparr>"

definition cd_header_bytes :: "nat \<Rightarrow> bytes option" where
  "cd_header_bytes h = (if h < 256 then Some [of_nat h] else None)"

definition cd_ergo :: "(nat, bytes, u8 list) ergo_lib" where
  "cd_ergo = \<lparr> el_serialize_header = (\<lambda>h. map_option (\<lambda>hb. (hb, replicate 32 (of_nat h))) (cd_header_bytes h)), el_pow_ok = (\<lambda>h. True),
     el_nbits = (\<lambda>h. 1), el_level = (\<lambda>h. 0), el_inputs = (\<lambda>tx. [replicate 32 9]), el_write_batch = put_batch, el_read_batch = get_batch,
     el_read_nipopow = (\<lambda>bs. Some (bs, [])), el_write_nipopow = Some, el_nipopow_valid = (\<lambda>w. True), el_continuous = (\<lambda>w. True),
     el_chain = map unat, el_suffix_len = (\<lambda>w. 1) \<rparr>"

definition cd_curve :: "(u8, u8 list, bytes, u8) curve" where
  "cd_curve = \<lparr> cv_cm_from_bytes = (\<lambda>bs. if bs = [] then None else Some (last bs)), cv_cm_bytes = (\<lambda>p. replicate 32 0 @ [p]),
     cv_is_zero = (\<lambda>p. p = 0), cv_from_set = (\<lambda>ls. ls), cv_append = (\<lambda>t p. t @ [p]), cv_root_point = last, cv_parse_proof = Some,
     cv_output_cms = (\<lambda>pf. [1, 1]), cv_proof_nullifiers = (\<lambda>pf. [replicate 32 (hd pf), replicate 32 7]),
     cv_verify_transfer = (\<lambda>t pf fee. True), cv_pegmint_note = (\<lambda>dest v seed. Some 5), cv_verify_mint = (\<lambda>v m. True), cv_mint_cm = id \<rparr>"

definition take_opt :: "nat \<Rightarrow> bytes \<Rightarrow> (bytes \<times> bytes) option" where
  "take_opt n bs = (if n \<le> length bs then Some (take n bs, drop n bs) else None)"

definition cd_wire :: "u8 wire" where
  "cd_wire = \<lparr> wr_put_u64 = to_le64, wr_get_u64 = (\<lambda>bs. map_option (map_prod from_le id) (take_opt 8 bs)),
     wr_get_u8 = (\<lambda>bs. case bs of [] \<Rightarrow> None | b # r \<Rightarrow> Some (b, r)), wr_get_bytes = take_opt,
     wr_put_mint = (\<lambda>m. [m]), wr_get_mint = (\<lambda>bs. case bs of [] \<Rightarrow> None | b # r \<Rightarrow> Some (b, r)), wr_merkle_root = hd \<rparr>"

definition to_le16 :: "16 word \<Rightarrow> bytes" where
  "to_le16 w = to_le32 (ucast w)"

definition cd_vlq :: vlq where
  "cd_vlq = \<lparr> vl_get_u32 = (\<lambda>bs. map_option (map_prod from_le32 id) (take_opt 4 bs)),
     vl_get_u16 = (\<lambda>bs. map_option (map_prod (\<lambda>b. ucast (from_le32 b)) id) (take_opt 4 bs)), vl_get_bytes = take_opt,
     vl_put_u32 = to_le32, vl_put_u16 = to_le16 \<rparr>"

definition cd :: "(nat, bytes, u8 list, u8, u8 list, bytes, u8) ct_env" where
  "cd = \<lparr> ce_ext = cd_ext, ce_ergo = cd_ergo, ce_curve = cd_curve, ce_wire = cd_wire, ce_vlq = cd_vlq \<rparr>"

lemma cd_simps [simp]:
  "ce_ext cd = cd_ext" "ce_ergo cd = cd_ergo" "ce_curve cd = cd_curve" "ce_wire cd = cd_wire" "ce_vlq cd = cd_vlq"
  by (simp_all add: cd_def)

lemma cd_wire_ok: "wire_ok cd_wire"
  by (auto simp: wire_ok_def cd_wire_def take_opt_def)

lemma ucast16 [simp]: "ucast (ucast (w :: 16 word) :: u32) = w"
  by (rule bit_word_eqI) (simp add: bit_unsigned_iff)

lemma cd_peg_wire_ok: "peg_wire_ok cd_ext cd_ergo cd_vlq"
  by (auto simp: peg_wire_ok_def cd_vlq_def cd_ergo_def cd_ext_def demo_def demo_base_def take_opt_def to_le16_def get_put_batch
      cd_header_bytes_def unat_of_nat take_bit_nat_eq_self split: if_splits)

lemma cd_tree_ok: "tree_append_ok cd_curve"
  by (simp add: tree_append_ok_def cd_curve_def)

lemma cd_witness_wire_ok: "witness_wire_ok cd_ext cd_ergo cd_wire cd_header_bytes"
  by (auto simp: witness_wire_ok_def cd_wire_ok cd_header_bytes_def cd_ergo_def cd_ext_def demo_def demo_base_def get_put_batch
      unat_of_nat take_bit_nat_eq_self split: if_splits)

end
