(* ===== verification/CtDemoTree.thy ===== *)
theory CtDemoTree
  imports CtDemo
begin

section \<open>One block\<close>

text \<open>The id of a block is 32 times the last byte of its reward claim, that is, of its coinbase note.\<close>

definition cd_id :: "u8 \<Rightarrow> bytes" where
  "cd_id m = replicate 32 m"

definition cd_block :: "u8 ct_block" where
  "cd_block = \<lparr> tb_header = \<lparr> th_version = 1, th_prev_id = cd_id 0, th_height = 1, th_timestamp_ms = 1760000000001,
       th_tx_root = empty_tx_root, th_cm_tree_root = cd_id 1, th_nullifier_digest = empty_nullifier_digest, th_pot_balance = 0,
       th_sc_nbits = 1000, th_reward_claim = replicate 32 0 @ [1] \<rparr>,
     tb_body = empty_body, tb_coinbase = Some 1 \<rparr>"

abbreviation cd_chain0 :: "(u8, u8 list, u8) ct_chain" where
  "cd_chain0 \<equiv> ct_chain_new cd_ext NetDev PowDevStub PfReal"

definition cd_state1 :: "(u8, u8 list) ct_state" where
  "cd_state1 = \<lparr> cs_nullifiers = {}, cs_peg_used = {}, cs_pot = 0, cs_digest = empty_nullifier_digest, cs_leaves = [1],
     cs_tree = \<lparr> ic_tree = Some [1], ic_len = 1 \<rparr>, cs_cm_root = cd_id 1 \<rparr>"

definition cd_undo1 :: ct_undo where
  "cd_undo1 = \<lparr> cu_added_nullifiers = [], cu_added_box_ids = [], cu_prev_pot = 0, cu_prev_digest = empty_nullifier_digest,
     cu_prev_leaf_count = 0, cu_prev_cm_root = empty_tree_root \<rparr>"

definition cd_chain1 :: "(u8, u8 list, u8) ct_chain" where
  "cd_chain1 = cd_chain0 \<lparr> cc_blocks := [ct_genesis cd_ext NetDev, cd_block], cc_state := cd_state1, cc_undo_ring := [cd_undo1] \<rparr>"

lemma cd_ext_simps [simp]:
  "x_blake2b256 cd_ext bs = replicate 32 (last (0 # bs))" "x_decode_bits cd_ext = unat" "x_encode_bits cd_ext = of_nat"
  "x_h_height cd_ext = of_nat" "x_h_parent_id cd_ext h = replicate 32 (of_nat (h - 1))"
  by (simp_all add: cd_ext_def demo_def demo_base_def)

lemma cd_genesis_id: "ct_block_id cd_ext cd_wire (ct_genesis cd_ext net) = cd_id 0"
  by (simp add: ct_block_id_def ct_header_id_def header_bytes_def ct_genesis_def ct_genesis_header_def empty_reward_claim_def cd_id_def)

lemma cd_block_id: "ct_block_id cd_ext cd_wire cd_block = cd_id 1"
  by (simp add: ct_block_id_def ct_header_id_def header_bytes_def cd_block_def cd_id_def)

lemma cd_curve_simps [simp]:
  "cv_cm_bytes cd_curve p = replicate 32 0 @ [p]" "cv_is_zero cd_curve p \<longleftrightarrow> p = 0" "cv_from_set cd_curve ls = ls" "cv_root_point cd_curve = last"
  "cv_verify_mint cd_curve v m" "cv_mint_cm cd_curve m = m" "cv_parse_proof cd_curve pf = Some pf" "cv_output_cms cd_curve pf = [1, 1]"
  "cv_proof_nullifiers cd_curve pf = [replicate 32 (hd pf), replicate 32 7]" "cv_verify_transfer cd_curve t pf fee"
  by (simp_all add: cd_curve_def)

lemma cd_header_ok:
  assumes "1760000000001 \<le> now + max_future_drift_ms"
  shows "check_ct_header cd cd_chain0 cd_block now = Inr ()"
proof -
  have n: "ct_expected_nbits cd_ext cd_chain0 = Some 1000"
    by (simp add: ct_expected_nbits_def ct_chain_new_def next_nbits_def daa_for_network_def ct_genesis_header_def min_difficulty_def)
  have m: "median_time_past cd_chain0 = 1760000000000"
    by (simp add: median_time_past_def ct_chain_new_def ct_genesis_def ct_genesis_header_def genesis_timestamp_ms_def mtp_window_def)
  have g: "ct_header_id cd_ext cd_wire (cc_tip cd_chain0) = cd_id 0" "th_height (cc_tip cd_chain0) = 0"
  proof -
    show "ct_header_id cd_ext cd_wire (cc_tip cd_chain0) = cd_id 0"
      using cd_genesis_id [of NetDev] by (simp add: cc_tip_def ct_chain_new_def ct_block_id_def)
    show "th_height (cc_tip cd_chain0) = 0" by (simp add: cc_tip_def ct_chain_new_def ct_genesis_def ct_genesis_header_def)
  qed
  show ?thesis
    using assms unfolding check_ct_header_def cd_simps Let_def n m g
    by (simp add: cd_block_def tx_root_def empty_body_def not_less)
qed

lemma cd_apply: "ct_apply_block cd_ext cd_ergo cd_curve cs_new [] [] params (RmReal 1) None = Inr (cd_state1, cd_undo1)"
  if "np_r_target params = 10"
  by (simp add: ct_apply_block_def decode_outputs_def block_nullifiers_def verify_peg_mints_def cs_new_def Let_def push_leaves_def
      ic_push_def ic_new_def build_tree_def tree_l_def tree_depth_def ok_or_def cd_state1_def cd_undo1_def next_digest_def cm_root_of_def
      ic_root_def cd_id_def expected_coinbase_value_def coinbase_reward_def saturating_add_def saturating_mul_def)

lemma cd_try_extend:
  assumes "1760000000001 \<le> now + max_future_drift_ms"
  shows "try_extend cd cd_chain0 cd_block now = (cd_chain1, Inr ())"
proof -
  have fields: "cc_proof_mode cd_chain0 = PfReal" "cc_network cd_chain0 = NetDev" "cc_state cd_chain0 = cs_new" "cc_peg cd_chain0 = None"
    "cc_blocks cd_chain0 = [ct_genesis cd_ext NetDev]" "cc_undo_ring cd_chain0 = []"
    by (simp_all add: ct_chain_new_def)
  have body: "bb_transfers (tb_body cd_block) = []" "bb_peg_mints (tb_body cd_block) = []" by (simp_all add: cd_block_def empty_body_def)
  have t: "check_transfer_proofs cd cd_chain0 cd_block = Inr ()" by (simp add: check_transfer_proofs_def body)
  have c: "check_ct_coinbase cd cd_chain0 cd_block = Inr (RmReal 1)" by (simp add: check_ct_coinbase_def cd_block_def)
  have d: "decode_peg_mints cd cd_block = Inr []" by (simp add: decode_peg_mints_def body)
  have a: "apply_of cd cd_chain0 [] [] (RmReal 1) = Inr (cd_state1, cd_undo1)"
    by (simp add: apply_of_def fields cd_apply net_params_of_def dogfood_base_def)
  have p: "post_state_error (tb_header cd_block) cd_state1 = None"
    by (simp add: post_state_error_def cd_block_def cd_state1_def)
  show ?thesis
    unfolding try_extend_def cd_header_ok [OF assms] t c d body bind_r_Inr a
    by (simp add: p cd_chain1_def fields push_undo_def state_retention_blocks_def)
qed

section \<open>A tree of two blocks\<close>

lemma cd_id_eq [simp]: "cd_id a = cd_id b \<longleftrightarrow> a = b"
  by (simp add: cd_id_def)

lemma cd_id_less [simp]: "cd_id a < cd_id b \<longleftrightarrow> a < b"
proof -
  have "cd_id x = x # replicate 31 x" for x by (simp add: cd_id_def numeral_eq_Suc)
  then show ?thesis by auto
qed

definition cd_gnode :: "u8 block_node" where
  "cd_gnode = \<lparr> bn_block = ct_genesis cd_ext NetDev, bn_parent = cd_id 0, bn_height = 0, bn_cum = 0, bn_ergo_height = 0 \<rparr>"

definition cd_node1 :: "u8 block_node" where
  "cd_node1 = \<lparr> bn_block = cd_block, bn_parent = cd_id 0, bn_height = 1, bn_cum = 1000, bn_ergo_height = 5 \<rparr>"

definition cd_root :: "(bytes \<times> pending_share) list \<Rightarrow> (bytes \<times> u8 ct_block) list \<Rightarrow> (u8, u8 list, u8) mm_fc" where
  "cd_root pending stashed =
     \<lparr> mf_network = NetDev, mf_pow_mode = PowDevStub, mf_proof_mode = PfReal, mf_chain = cd_chain0, mf_materialized = cd_id 0,
       mf_canonical = cd_id 0, mf_genesis = cd_id 0, mf_nodes = [(cd_id 0, cd_gnode)], mf_pending = pending, mf_stashed = stashed,
       mf_dead = [], mf_anchors = [] \<rparr>"

definition cd_grown :: "(bytes \<times> u32) list \<Rightarrow> (u8, u8 list, u8) mm_fc" where
  "cd_grown anchors =
     \<lparr> mf_network = NetDev, mf_pow_mode = PowDevStub, mf_proof_mode = PfReal, mf_chain = cd_chain1, mf_materialized = cd_id 1,
       mf_canonical = cd_id 1, mf_genesis = cd_id 0, mf_nodes = [(cd_id 0, cd_gnode), (cd_id 1, cd_node1)], mf_pending = [],
       mf_stashed = [], mf_dead = [], mf_anchors = anchors \<rparr>"

definition cd_share :: valid_share where
  "cd_share = \<lparr> vs_aegis_id = cd_id 1, vs_work = 1000, vs_ergo_height = 5 \<rparr>"

definition cd_pending :: pending_share where
  "cd_pending = \<lparr> ps_work = 1000, ps_ergo_height = 5 \<rparr>"

definition cd_now :: u64 where "cd_now = 1760000000001"

lemma cd_new: "mm_new cd NetDev PowDevStub PfReal = cd_root [] []"
  by (simp add: mm_new_def cd_root_def cd_gnode_def cd_genesis_id Let_def) (simp add: cd_id_def)

lemma cd_refresh_root: "refresh_canonical cd (cd_root pd st) = Some (cd_root pd st)"
  by (simp add: refresh_canonical_def cd_root_def preferred_def)

lemma cd_refresh_grown: "refresh_canonical cd (cd_grown anchors \<lparr> mf_canonical := cd_id 0 \<rparr>) = Some (cd_grown anchors)"
  by (simp add: refresh_canonical_def cd_grown_def preferred_def cd_gnode_def cd_node1_def)

lemma cd_block_fields: "th_prev_id (tb_header cd_block) = cd_id 0" "th_height (tb_header cd_block) = 1" "th_sc_nbits (tb_header cd_block) = 1000"
  "th_tx_root (tb_header cd_block) = tx_root E W (tb_body cd_block)" "claim_ok cd cd_block"
  by (simp_all add: cd_block_def tx_root_def empty_body_def claim_ok_def)

lemma cd_activate:
  "try_activate cd (cd_root [(cd_id 1, cd_pending)] [(cd_id 1, cd_block)]) (cd_id 1) cd_now = Some (cd_grown [] \<lparr> mf_canonical := cd_id 0 \<rparr>, True)"
proof -
  have "1760000000001 \<le> cd_now + max_future_drift_ms" by (simp add: cd_now_def max_future_drift_ms_def)
  note te = cd_try_extend [OF this]
  show ?thesis
    by (simp add: try_activate_def cd_root_def cd_grown_def has_key_def cd_block_fields switch_to_def te cd_gnode_def cd_node1_def
        cd_pending_def del_key_def Let_def)
qed

lemma cd_activate_ready:
  "activate_ready_from cd (cd_root [(cd_id 1, cd_pending)] [(cd_id 1, cd_block)]) (cd_id 1) cd_now = Some (cd_grown [] \<lparr> mf_canonical := cd_id 0 \<rparr>, 1)"
  by (simp add: activate_ready_from_def activate_loop.simps cd_activate stashed_children_def cd_grown_def)

lemma cd_idle: "pd = [] \<or> st = [] \<Longrightarrow> activate_ready_from cd (cd_root pd st) i now = Some (cd_root pd st, 0)"
  by (auto simp: activate_ready_from_def activate_loop.simps try_activate_def cd_root_def split: option.split)

lemma cd_share_first: "ingest_share cd (cd_root [] []) cd_share now = Some (cd_root [(cd_id 1, cd_pending)] [], SiPending)"
  using cd_idle [of "[(cd_id 1, cd_pending)]" "[]"] cd_refresh_root [of "[(cd_id 1, cd_pending)]" "[]"]
  by (simp add: ingest_share_def cd_share_def cd_pending_def has_key_def Let_def) (simp add: cd_root_def has_key_def)

lemma cd_body_second: "ingest_body cd (cd_root [(cd_id 1, cd_pending)] []) cd_block cd_now = Some (cd_grown [], BiActivated 1)"
  using cd_activate_ready cd_refresh_grown [of "[]"]
  by (simp add: ingest_body_def cd_block_id cd_block_fields Let_def) (simp add: cd_root_def has_key_def cd_block_fields)

lemma cd_body_first: "ingest_body cd (cd_root [] []) cd_block now = Some (cd_root [] [(cd_id 1, cd_block)], BiAwaitingShare)"
  using cd_idle [of "[]" "[(cd_id 1, cd_block)]"] cd_refresh_root [of "[]" "[(cd_id 1, cd_block)]"]
  by (simp add: ingest_body_def cd_block_id cd_block_fields Let_def) (simp add: cd_root_def has_key_def cd_block_fields)

lemma cd_share_second: "ingest_share cd (cd_root [] [(cd_id 1, cd_block)]) cd_share cd_now = Some (cd_grown [], SiActivated 1)"
  using cd_activate_ready cd_refresh_grown [of "[]"]
  by (simp add: ingest_share_def cd_share_def cd_pending_def has_key_def Let_def) (simp add: cd_root_def has_key_def)

definition cd_events :: "u8 mm_event list" where
  "cd_events = [EvShare cd_share cd_now, EvBody cd_block cd_now]"

lemma cd_run: "mm_run cd (mm_new cd NetDev PowDevStub PfReal) cd_events = Some (cd_grown [])"
  by (simp add: cd_new cd_events_def mm_step_def cd_share_first cd_body_second)

lemma cd_run_rev: "mm_run cd (mm_new cd NetDev PowDevStub PfReal) (rev cd_events) = Some (cd_grown [])"
  by (simp add: cd_new cd_events_def mm_step_def cd_body_first cd_share_second)

lemma cd_clock: "list_all event_clock_ok cd_events"
  by (simp add: cd_events_def event_clock_ok_def cd_now_def)

end
