(* ===== verification/CtGrammar.thy ===== *)
theory CtGrammar
  imports CtTypes
begin

text \<open>
  The language of the curve-tree wire form (\<^verbatim>\<open>aegis-types/src\<close>): which byte strings spell a header, a transfer, a body
  and a block, as a grammar, and the proof that the decoders of \<open>CtTypes\<close> accept exactly these. A grammar has no rest of the
  input, so a decoder that ignored bytes behind a part, or a cap, would accept more than the grammar spells.

  The external readers are streams: what they return was spelled by a prefix of the input (\<open>wire_strict\<close>). A number may have
  several spellings (the variable-length format does not ask for the shortest one).
\<close>

section \<open>Streams\<close>

definition spelled :: "(bytes \<Rightarrow> ('a \<times> bytes) option) \<Rightarrow> 'a \<Rightarrow> bytes \<Rightarrow> bool" where
  "spelled get v p \<longleftrightarrow> (\<forall>r. get (p @ r) = Some (v, r))"

definition stream :: "(bytes \<Rightarrow> ('a \<times> bytes) option) \<Rightarrow> bool" where
  "stream get \<longleftrightarrow> (\<forall>bs v r. get bs = Some (v, r) \<longrightarrow> (\<exists>p. bs = p @ r \<and> spelled get v p))"

definition wire_strict :: "'m wire \<Rightarrow> bool" where
  "wire_strict W \<longleftrightarrow> stream (wr_get_u64 W) \<and> stream (wr_get_mint W) \<and> wr_get_u8 W [] = None"

lemma stream_iff: "stream get \<Longrightarrow> get bs = Some (v, r) \<longleftrightarrow> (\<exists>p. bs = p @ r \<and> spelled get v p)"
  by (auto simp: stream_def spelled_def)

lemma rd_stream: "stream get \<Longrightarrow> rd e (get bs) k = Inr y \<longleftrightarrow> (\<exists>v p r. bs = p @ r \<and> spelled get v p \<and> k v r = Inr y)"
  unfolding rd_Inr by (metis stream_iff)

lemma rd_u8: "wire_ok W \<Longrightarrow> wire_strict W \<Longrightarrow> rd e (wr_get_u8 W bs) k = Inr y \<longleftrightarrow> (\<exists>b r. bs = b # r \<and> k b r = Inr y)"
  unfolding rd_Inr by (cases bs) (auto simp: wire_ok_def wire_strict_def)

lemma rd_bytes:
  "wire_ok W \<Longrightarrow> rd e (wr_get_bytes W n bs) k = Inr y \<longleftrightarrow> (\<exists>s r. bs = s @ r \<and> length s = n \<and> k s r = Inr y)"
  unfolding rd_Inr wire_ok_def by (auto split: if_splits) (metis append_take_drop_id length_take min.absorb2)

lemma read_items_spelled:
  assumes "\<And>bs x r. item bs = Inr (x, r) \<longleftrightarrow> (\<exists>p. bs = p @ r \<and> code x p)"
  shows "read_items item n bs = Inr (xs, r) \<longleftrightarrow> (\<exists>ps. list_all2 code xs ps \<and> length xs = n \<and> bs = concat ps @ r)"
proof (induction n arbitrary: bs xs)
  case (Suc n)
  have "read_items item (Suc n) bs = Inr (xs, r)
      \<longleftrightarrow> (\<exists>x ys p ps. xs = x # ys \<and> code x p \<and> list_all2 code ys ps \<and> length ys = n \<and> bs = p @ concat ps @ r)"
    by (auto simp: result_simps assms Suc.IH)
  also have "\<dots> \<longleftrightarrow> (\<exists>ps. list_all2 code xs ps \<and> length xs = Suc n \<and> bs = concat ps @ r)"
    by (cases xs) (force simp: list_all2_Cons1)+
  finally show ?case .
qed auto

section \<open>The grammar\<close>

text \<open>A number, a slice of a declared length (which saturates at the block cap), a blob with a cap of its own.\<close>

definition num_code :: "'m wire \<Rightarrow> u64 \<Rightarrow> bytes \<Rightarrow> bool" where
  "num_code W n a \<longleftrightarrow> spelled (wr_get_u64 W) n a"

inductive slice_code :: "'m wire \<Rightarrow> bytes \<Rightarrow> bytes \<Rightarrow> bool" for W s where
  "num_code W n a \<Longrightarrow> length s = min (unat n) max_block_bytes \<Longrightarrow> slice_code W s (a @ s)"

inductive blob_code :: "'m wire \<Rightarrow> nat \<Rightarrow> bytes \<Rightarrow> bytes \<Rightarrow> bool" for W cap s where
  "num_code W n a \<Longrightarrow> length s = unat n \<Longrightarrow> length s \<le> cap \<Longrightarrow> blob_code W cap s (a @ s)"

inductive header_code :: "'m wire \<Rightarrow> ct_header \<Rightarrow> bytes \<Rightarrow> bool" for W h where
  "num_code W (th_height h) a \<Longrightarrow> num_code W (th_timestamp_ms h) b \<Longrightarrow> num_code W (th_pot_balance h) c
   \<Longrightarrow> num_code W (ucast (th_sc_nbits h)) d \<Longrightarrow> wf_header h
   \<Longrightarrow> header_code W h ([th_version h] @ th_prev_id h @ a @ b @ th_tx_root h @ th_cm_tree_root h @ th_nullifier_digest h
         @ c @ d @ th_reward_claim h)"

inductive transfer_code :: "'m wire \<Rightarrow> shielded_transfer \<Rightarrow> bytes \<Rightarrow> bool" for W tx where
  "num_code W (of_nat (length (sx_proof tx))) a \<Longrightarrow> wf_transfer tx
   \<Longrightarrow> transfer_code W tx (concat (sx_nullifiers tx) @ concat (map output_bytes (sx_outputs tx)) @ a @ sx_proof tx)"

inductive body_tx_code :: "'m wire \<Rightarrow> shielded_transfer \<Rightarrow> bytes \<Rightarrow> bool" for W tx where
  "transfer_code W tx s \<Longrightarrow> slice_code W s p \<Longrightarrow> body_tx_code W tx p"

inductive body_code :: "'m wire \<Rightarrow> block_body \<Rightarrow> bytes \<Rightarrow> bool" for W body where
  "num_code W (of_nat (length (bb_transfers body))) a \<Longrightarrow> length (bb_transfers body) \<le> max_block_txs
   \<Longrightarrow> list_all2 (body_tx_code W) (bb_transfers body) txs
   \<Longrightarrow> num_code W (of_nat (length (bb_peg_mints body))) b \<Longrightarrow> length (bb_peg_mints body) \<le> max_block_pegmints
   \<Longrightarrow> list_all2 (blob_code W max_pegmint_proof_bytes) (bb_peg_mints body) pms
   \<Longrightarrow> bs = a @ concat txs @ b @ concat pms \<Longrightarrow> length bs \<le> max_block_bytes \<Longrightarrow> body_code W body bs"

inductive coinbase_code :: "'m wire \<Rightarrow> 'm option \<Rightarrow> bytes \<Rightarrow> bool" for W where
  "coinbase_code W None [0]"
| "spelled (wr_get_mint W) m s \<Longrightarrow> blob_code W max_proof_bytes s p \<Longrightarrow> coinbase_code W (Some m) (1 # p)"

inductive block_code :: "'m wire \<Rightarrow> 'm ct_block \<Rightarrow> bytes \<Rightarrow> bool" for W b where
  "header_code W (tb_header b) hs \<Longrightarrow> slice_code W hs p \<Longrightarrow> body_code W (tb_body b) bs \<Longrightarrow> slice_code W bs q
   \<Longrightarrow> coinbase_code W (tb_coinbase b) r \<Longrightarrow> block_code W b (p @ q @ r)"

lemmas code_intros = slice_code.intros blob_code.intros header_code.intros transfer_code.intros body_tx_code.intros
  body_code.intros coinbase_code.intros block_code.intros

section \<open>The decoders accept the grammar\<close>

lemma u32_of_u64: "unat (v :: u64) < 2 ^ 32 \<Longrightarrow> ucast (ucast v :: u32) = v"
  by (simp add: word_unat_eq_iff unsigned_ucast_eq unsigned_take_bit_eq take_bit_nat_eq_self)

lemma of_nat_length: "unat n = length s \<Longrightarrow> of_nat (length s) = (n :: u64)"
  by (drule sym) simp

lemma rd_num:
  "wire_strict W \<Longrightarrow> rd e (wr_get_u64 W bs) k = Inr y \<longleftrightarrow> (\<exists>v p r. bs = p @ r \<and> num_code W v p \<and> k v r = Inr y)"
  by (simp add: wire_strict_def rd_stream num_code_def)

lemma rd_mint:
  "wire_strict W \<Longrightarrow> rd e (wr_get_mint W bs) k = Inr y
     \<longleftrightarrow> (\<exists>v p r. bs = p @ r \<and> spelled (wr_get_mint W) v p \<and> k v r = Inr y)"
  by (simp add: wire_strict_def rd_stream)

lemmas rd_simps = rd_num rd_mint rd_u8 rd_bytes

lemma header_exact:
  assumes W: "wire_ok W" "wire_strict W"
  shows "header_from_bytes W bs = Inr h \<longleftrightarrow> header_code W h bs"
proof
  assume "header_from_bytes W bs = Inr h"
  then show "header_code W h bs"
    unfolding header_from_bytes_def
    by (auto simp: rd_simps W not_le u32_of_u64 wf_header_def header_code.simps split: if_splits) blast
next
  assume "header_code W h bs"
  then show "header_from_bytes W bs = Inr h"
    using u64_of_u32 [of "th_sc_nbits h"]
    by cases (auto simp: header_from_bytes_def num_code_def spelled_def wire_okD [OF W(1)] wf_header_def not_le)
qed

lemma transfer_exact:
  assumes W: "wire_ok W" "wire_strict W"
  shows "transfer_from_bytes W bs = Inr tx \<longleftrightarrow> transfer_code W tx bs"
proof -
  define nf_code where "nf_code = (\<lambda>nf p :: bytes. p = nf \<and> length nf = nf_bytes)"
  define out_code where "out_code = (\<lambda>out p. p = output_bytes out \<and> length (so_note_cm out) = note_cm_size
    \<and> length (so_epk out) = ct_epk_size \<and> length (so_ct out) = ct_note_ct_size \<and> length (so_out_ct out) = ct_out_ct_size)"
  have nfs: "read_items (read_nullifier W) n bs = Inr (xs, r) \<longleftrightarrow> (\<exists>ps. list_all2 nf_code xs ps \<and> length xs = n \<and> bs = concat ps @ r)"
    for n bs xs r by (rule read_items_spelled) (auto simp: read_nullifier_def rd_simps W nf_code_def)
  have outs: "read_items (read_output W) n bs = Inr (xs, r) \<longleftrightarrow> (\<exists>ps. list_all2 out_code xs ps \<and> length xs = n \<and> bs = concat ps @ r)"
    for n bs xs r
    by (rule read_items_spelled) (auto simp: read_output_def rd_simps W out_code_def output_bytes_def intro!: exI)
  have nf_all: "list_all2 nf_code xs ps \<longleftrightarrow> ps = xs \<and> (\<forall>x \<in> set xs. length x = nf_bytes)" for xs ps
    by (induction xs arbitrary: ps) (auto simp: list_all2_Cons1 nf_code_def)
  have out_all: "list_all2 out_code xs ps \<longleftrightarrow> ps = map output_bytes xs \<and> (\<forall>x \<in> set xs. length (so_note_cm x) = note_cm_size
      \<and> length (so_epk x) = ct_epk_size \<and> length (so_ct x) = ct_note_ct_size \<and> length (so_out_ct x) = ct_out_ct_size)" for xs ps
    by (induction xs arbitrary: ps) (auto simp: list_all2_Cons1 out_code_def)
  show ?thesis
  proof
    assume "transfer_from_bytes W bs = Inr tx"
    then show "transfer_code W tx bs"
      by (auto simp: transfer_from_bytes_def result_simps nfs outs nf_all out_all rd_simps W not_less of_nat_length wf_transfer_def
          transfer_code.simps simp del: rd_Inr split: if_splits)
  next
    assume "transfer_code W tx bs"
    then obtain a where a: "num_code W (of_nat (length (sx_proof tx))) a" and wf: "wf_transfer tx"
      and bs: "bs = concat (sx_nullifiers tx) @ concat (map output_bytes (sx_outputs tx)) @ a @ sx_proof tx" by cases
    have "read_items (read_nullifier W) tx_arity (concat (sx_nullifiers tx) @ r) = Inr (sx_nullifiers tx, r)"
      "read_items (read_output W) tx_arity (concat (map output_bytes (sx_outputs tx)) @ r) = Inr (sx_outputs tx, r)" for r
      using wf by (auto simp: nfs outs nf_all out_all wf_transfer_def)
    then show "transfer_from_bytes W bs = Inr tx"
      using a wf by (simp add: transfer_from_bytes_def bs num_code_def spelled_def wire_okD [OF W(1)] wf_transfer_def unat_length
          max_proof_bytes_def)
  qed
qed

lemma body_exact:
  assumes W: "wire_ok W" "wire_strict W"
  shows "body_from_bytes W bs = Inr body \<longleftrightarrow> body_code W body bs"
proof -
  have txs: "read_items (read_body_tx W) n bs = Inr (xs, r) \<longleftrightarrow> (\<exists>ps. list_all2 (body_tx_code W) xs ps \<and> length xs = n \<and> bs = concat ps @ r)"
    for n bs xs r
  proof (rule read_items_spelled)
    fix bs x r
    show "read_body_tx W bs = Inr (x, r) \<longleftrightarrow> (\<exists>p. bs = p @ r \<and> body_tx_code W x p)"
      by (fastforce simp: read_body_tx_def result_simps map_err_eq_Inr rd_simps W transfer_exact [OF W] body_tx_code.simps slice_code.simps
          simp del: rd_Inr)
  qed
  have pms: "read_items (read_body_pegmint W) n bs = Inr (xs, r)
      \<longleftrightarrow> (\<exists>ps. list_all2 (blob_code W max_pegmint_proof_bytes) xs ps \<and> length xs = n \<and> bs = concat ps @ r)" for n bs xs r
  proof (rule read_items_spelled)
    fix bs x r
    show "read_body_pegmint W bs = Inr (x, r) \<longleftrightarrow> (\<exists>p. bs = p @ r \<and> blob_code W max_pegmint_proof_bytes x p)"
      by (fastforce simp: read_body_pegmint_def result_simps rd_simps W blob_code.simps not_less simp del: rd_Inr split: if_splits)
  qed
  show ?thesis
  proof
    assume "body_from_bytes W bs = Inr body"
    then show "body_code W body bs"
      by (force simp: body_from_bytes_def result_simps txs pms rd_simps W not_less of_nat_length body_code.simps
          simp del: rd_Inr split: if_splits)
  next
    assume "body_code W body bs"
    then obtain a b ts ps where c: "num_code W (of_nat (length (bb_transfers body))) a" "num_code W (of_nat (length (bb_peg_mints body))) b"
      and n: "length (bb_transfers body) \<le> max_block_txs" "length (bb_peg_mints body) \<le> max_block_pegmints" "length bs \<le> max_block_bytes"
      and xs: "list_all2 (body_tx_code W) (bb_transfers body) ts"
        "list_all2 (blob_code W max_pegmint_proof_bytes) (bb_peg_mints body) ps"
      and bs: "bs = a @ concat ts @ b @ concat ps" by cases
    have "read_items (read_body_tx W) (length (bb_transfers body)) (concat ts @ r) = Inr (bb_transfers body, r)"
      "read_items (read_body_pegmint W) (length (bb_peg_mints body)) (concat ps) = Inr (bb_peg_mints body, [])" for r
      using xs by (auto simp: txs pms)
    moreover have "unat (of_nat (length (bb_transfers body)) :: u64) = length (bb_transfers body)"
      "unat (of_nat (length (bb_peg_mints body)) :: u64) = length (bb_peg_mints body)"
      using n by (simp_all add: unat_length max_block_txs_def max_block_pegmints_def)
    ultimately show "body_from_bytes W bs = Inr body"
      using c n unfolding body_from_bytes_def bs by (simp add: num_code_def spelled_def)
  qed
qed

lemma coinbase_exact:
  assumes W: "wire_ok W" "wire_strict W"
  shows "read_coinbase W bs = Inr (cb, r) \<longleftrightarrow> (\<exists>p. bs = p @ r \<and> coinbase_code W cb p)"
proof
  assume "read_coinbase W bs = Inr (cb, r)"
  then show "\<exists>p. bs = p @ r \<and> coinbase_code W cb p"
    by (fastforce simp: read_coinbase_def result_simps rd_simps W not_less coinbase_code.simps blob_code.simps
        simp del: rd_Inr split: if_splits)
next
  assume "\<exists>p. bs = p @ r \<and> coinbase_code W cb p"
  then obtain p where bs: "bs = p @ r" and p: "coinbase_code W cb p" by blast
  from p show "read_coinbase W bs = Inr (cb, r)"
  proof cases
    case 1
    then show ?thesis by (simp add: read_coinbase_def bs wire_okD [OF W(1)])
  next
    case (2 m s q)
    have "wr_get_mint W s = Some (m, [])" using 2(3) by (simp add: spelled_def) (metis append_Nil2)
    with 2 show ?thesis
      by (auto simp: read_coinbase_def bs wire_okD [OF W(1)] blob_code.simps num_code_def spelled_def)
  qed
qed

lemma read_slice:
  assumes W: "wire_ok W" and p: "slice_code W s p"
  shows "rd e (wr_get_u64 W (p @ r)) (\<lambda>n r. rd e (wr_get_bytes W (min (unat n) max_block_bytes) r) k) = k s r"
  using p by cases (simp add: num_code_def spelled_def wire_okD [OF W])

lemma block_prefix:
  assumes W: "wire_ok W" "wire_strict W" and b: "block_code W b bs"
  shows "ct_block_from_bytes W (bs @ x) = (if x = [] then Inr b else Inl (BkTrailingBytes (length x)))"
proof -
  from b obtain hs p bd q r where h: "header_code W (tb_header b) hs" "slice_code W hs p"
    and bd: "body_code W (tb_body b) bd" "slice_code W bd q" and r: "coinbase_code W (tb_coinbase b) r" and bs: "bs = p @ q @ r"
    by cases
  have "read_coinbase W (r @ x) = Inr (tb_coinbase b, x)" using r by (auto simp: coinbase_exact [OF W])
  then show ?thesis
    using h(1) bd(1) by (simp add: ct_block_from_bytes_def bs read_slice [OF W(1) h(2)] read_slice [OF W(1) bd(2)]
        flip: header_exact [OF W] body_exact [OF W])
qed

lemma block_exact:
  assumes W: "wire_ok W" "wire_strict W"
  shows "ct_block_from_bytes W bs = Inr b \<longleftrightarrow> block_code W b bs"
proof
  assume "ct_block_from_bytes W bs = Inr b"
  then obtain hn hp hs bn bp bd r cb header body where
    h: "num_code W hn hp" "length hs = min (unat hn) max_block_bytes" "header_from_bytes W hs = Inr header"
    and bd: "num_code W bn bp" "length bd = min (unat bn) max_block_bytes" "body_from_bytes W bd = Inr body"
    and cb: "read_coinbase W r = Inr (cb, [])" and bs: "bs = hp @ hs @ bp @ bd @ r"
    and b: "b = \<lparr> tb_header = header, tb_body = body, tb_coinbase = cb \<rparr>"
    unfolding ct_block_from_bytes_def rd_num [OF W(2)] rd_bytes [OF W(1)] bind_r_eq_Inr map_err_eq_Inr
    by (auto split: if_splits)
  note sl = slice_code.intros [OF h(1,2)] slice_code.intros [OF bd(1,2)]
  have "block_code W b ((hp @ hs) @ (bp @ bd) @ r)"
    by (rule block_code.intros [OF _ sl(1) _ sl(2)])
      (use h(3) bd(3) cb in \<open>auto simp: b header_exact [OF W] body_exact [OF W] coinbase_exact [OF W]\<close>)
  then show "block_code W b bs" by (simp add: bs)
next
  assume "block_code W b bs"
  from block_prefix [OF W this, of "[]"] show "ct_block_from_bytes W bs = Inr b" by simp
qed

section \<open>The codec\<close>

lemma block_code_caps: "wire_ok W \<Longrightarrow> wire_strict W \<Longrightarrow> block_code W b bs \<Longrightarrow> wf_header (tb_header b) \<and> body_in_caps (tb_body b)"
  by (elim block_code.cases header_code.cases) (auto simp: body_exact [symmetric] dest: body_from_bytes_caps)

text \<open>
  C18: The block codec is exact. The decoder accepts a byte string exactly when the wire grammar spells the block with it, every
  byte of the header, the transfers, the peg-mints and the coinbase note included; such a block is within the caps; the same
  bytes with anything behind them are refused as trailing; and a block within the consensus caps is read back from its
  own bytes.
\<close>
theorem ct_block_codec:
  assumes "wire_ok W" and "wire_strict W"
  shows "(ct_block_from_bytes W bs = Inr b \<longleftrightarrow> block_code W b bs)
    \<and> (block_code W b bs \<longrightarrow> wf_header (tb_header b) \<and> body_in_caps (tb_body b)
          \<and> (\<forall>x. x \<noteq> [] \<longrightarrow> ct_block_from_bytes W (bs @ x) = Inl (BkTrailingBytes (length x))))
    \<and> (wf_ct_block W b \<longrightarrow> ct_block_from_bytes W (ct_block_bytes W b) = Inr b)"
  using block_exact [OF assms] block_code_caps [OF assms] block_prefix [OF assms] ct_block_roundtrip_lemma [OF assms(1)] by simp

end
