(* ===== verification/CtWitness.thy ===== *)
theory CtWitness
  imports CtDemoTree CtGrammar
begin

text \<open>
  The theorems on the curve-tree node applied to the concrete environment: each hypothesis is met there.
\<close>

section \<open>Blocks and the chain\<close>

lemma cd_block_wf: "wf_ct_block cd_wire cd_block"
  by (simp add: wf_ct_block_def wf_header_def wf_body_def cd_block_def empty_body_def cd_id_def empty_tx_root_def empty_nullifier_digest_def
      body_bytes_def cd_wire_def size_defs)

lemma cd_wire_strict: "wire_strict cd_wire"
proof -
  have "\<exists>p. bs = p @ r \<and> spelled (wr_get_u64 cd_wire) v p" if "wr_get_u64 cd_wire bs = Some (v, r)" for bs v r
    using that by (intro exI [of _ "take 8 bs"]) (auto simp: cd_wire_def take_opt_def spelled_def split: if_splits)
  moreover have "\<exists>p. bs = p @ r \<and> spelled (wr_get_mint cd_wire) v p" if "wr_get_mint cd_wire bs = Some (v, r)" for bs v r
    using that by (intro exI [of _ "[v]"]) (auto simp: cd_wire_def spelled_def split: list.splits)
  ultimately show ?thesis by (auto simp: wire_strict_def stream_def cd_wire_def)
qed

theorem ct_block_codec_witness:
  "ct_block_from_bytes cd_wire (ct_block_bytes cd_wire cd_block) = Inr cd_block \<and> body_in_caps (tb_body cd_block)
    \<and> ct_block_from_bytes cd_wire (ct_block_bytes cd_wire cd_block @ [7]) = Inl (BkTrailingBytes 1)"
  using ct_block_codec [OF cd_wire_ok cd_wire_strict, of "ct_block_bytes cd_wire cd_block" cd_block] cd_block_wf by (metis One_nat_def length_Cons list.distinct(1) list.size(3))

lemma cd_chain0_wf: "cc_wf cd (ct_chain_new cd_ext net pow pf)"
  using base_ok_new [of cd net pow pf] cd_tree_ok by (simp add: base_ok_def)

lemma cd_accepted: "try_extend cd cd_chain0 cd_block cd_now = (cd_chain1, Inr ())"
  by (rule cd_try_extend) (simp add: cd_now_def max_future_drift_ms_def)

theorem ct_extend_transactional_witness:
  "\<exists>ch'. try_extend cd cd_chain0 cd_block cd_now = (ch', Inr ())
     \<and> (\<exists>ch''. rollback_tip cd ch' = Some (ch'', True) \<and> cc_blocks ch'' = cc_blocks cd_chain0 \<and> cc_state ch'' = cc_state cd_chain0)"
  using ct_extend_transactional [OF cd_chain0_wf, of NetDev PowDevStub PfReal cd_block cd_now] cd_accepted by blast

theorem produced_block_extends_witness:
  "\<exists>b ch'. produce_inner cd cd_chain0 empty_body cd_now (RmReal 1) (replicate 32 0 @ [1]) (Some 1) [] = Inr b
     \<and> try_extend cd cd_chain0 b cd_now = (ch', Inr ()) \<and> cc_blocks ch' = cc_blocks cd_chain0 @ [b]"
proof -
  have m: "median_time_past cd_chain0 = 1760000000000"
    by (simp add: median_time_past_def ct_chain_new_def ct_genesis_def ct_genesis_header_def genesis_timestamp_ms_def mtp_window_def)
  have "\<exists>b. produce_inner cd cd_chain0 empty_body cd_now (RmReal 1) (replicate 32 0 @ [1]) (Some 1) [] = Inr b"
    by (simp add: produce_inner_def serialize_peg_mints_def apply_of_def ct_chain_new_def empty_body_def cd_apply net_params_of_def
        dogfood_base_def ct_expected_nbits_def next_nbits_def daa_for_network_def ok_or_def Let_def)
  then obtain b where b: "produce_inner cd cd_chain0 empty_body cd_now (RmReal 1) (replicate 32 0 @ [1]) (Some 1) [] = Inr b" ..
  have t: "transfers_proved cd cd_chain0 (bb_transfers empty_body)" by (simp add: transfers_proved_def empty_body_def)
  have "if transfers_proved cd cd_chain0 (bb_transfers empty_body) \<and> unat (median_time_past cd_chain0) < unat cd_now + 60000
      then \<exists>ch'. try_extend cd cd_chain0 b cd_now = (ch', Inr ()) \<and> cc_blocks ch' = cc_blocks cd_chain0 @ [b]
      else \<exists>e. try_extend cd cd_chain0 b cd_now = (cd_chain0, Inl e)"
    by (rule produced_block_extends [OF cd_chain0_wf _ _ _ b]) (simp_all add: cd_peg_wire_ok cd_now_def)
  with b t show ?thesis by (auto simp: m cd_now_def)
qed

section \<open>Restart\<close>

theorem restart_restores_chain_witness:
  "\<exists>log ch'. foldl (save_block cd_wire) (Some []) [cd_block] = Some log \<and> readable cd_wire cd_block
     \<and> load_chain cd (Some (log @ take 3 (ct_frame (ct_block_bytes cd_wire cd_block)))) NetDev PowDevStub PfReal = Inr (ch', Some log)
     \<and> cc_blocks ch' = cc_blocks cd_chain1 \<and> cc_state ch' = cd_state1"
proof -
  have acc: "accept_all cd (ct_chain_new (ce_ext cd) NetDev PowDevStub PfReal) [(cd_block, cd_now)] = Some cd_chain1"
    by (simp add: cd_accepted)
  have len: "length (ct_block_bytes (ce_wire cd) cd_block) \<le> max_record_bytes" "length (ct_block_bytes (ce_wire cd) cd_block) < 2 ^ 32"
    using wf_block_record [OF cd_wire_ok cd_block_wf] by simp_all
  then have xs: "\<forall>(b, now) \<in> set [(cd_block, cd_now)]. length (ct_block_bytes (ce_wire cd) b) < 2 ^ 32 \<and> unat now + 120000 < 2 ^ 64"
    by (simp add: cd_now_def)
  have C: "tree_append_ok (ce_curve cd)" "wire_ok (ce_wire cd)" by (simp_all add: cd_tree_ok cd_wire_ok)
  have k: "3 < length (ct_frame (ct_block_bytes (ce_wire cd) cd_block))" by (simp add: length_ct_frame)
  obtain log where log: "foldl (save_block (ce_wire cd)) (Some []) (map fst [(cd_block, cd_now)]) = Some log"
    by (simp add: save_block_def log_append_def)
  note r = restart_restores_chain [OF C acc xs len(1) k log]
  have "readable cd_wire cd_block" using r cd_block_wf by simp
  with r log show ?thesis by (auto simp: cd_chain1_def)
qed

text \<open>A block of 64 transfers with padded proofs.\<close>

definition cd_fat_tx :: shielded_transfer where
  "cd_fat_tx = \<lparr> sx_nullifiers = [replicate 32 3, replicate 32 7],
     sx_outputs = replicate 2 \<lparr> so_note_cm = replicate 33 0, so_epk = replicate 33 0, so_ct = replicate 152 0, so_out_ct = replicate 80 0 \<rparr>,
     sx_proof = replicate 8192 0 \<rparr>"

definition cd_fat_block :: "u8 ct_block" where
  "cd_fat_block = cd_block \<lparr> tb_body := \<lparr> bb_transfers = replicate 64 cd_fat_tx, bb_peg_mints = [] \<rparr> \<rparr>"

theorem oversized_block_unreadable_witness:
  "\<exists>offset n. ct_read_log cd_wire (save_block cd_wire (foldl (save_block cd_wire) (Some []) [cd_block]) cd_fat_block)
     = Inl (SrRecordTooLarge offset n max_record_bytes)"
proof (rule oversized_block_unreadable [OF cd_wire_ok])
  have l: "length (put_blob cd_wire bs) = 8 + length bs" for bs by (simp add: put_blob_def cd_wire_def)
  have u: "length (wr_put_u64 cd_wire v) = 8" for v by (simp add: cd_wire_def)
  have m: "length (wr_put_mint cd_wire v) = 1" for v by (simp add: cd_wire_def)
  have t: "length (transfer_bytes cd_wire cd_fat_tx) = 8860"
    by (simp add: transfer_bytes_def cd_fat_tx_def output_bytes_def u numeral_2_eq_2)
  have "length (body_bytes cd_wire (tb_body cd_fat_block)) = 567568"
    by (simp add: body_bytes_def cd_fat_block_def u length_concat sum_list_replicate l t)
  then show "length (ct_block_bytes cd_wire cd_fat_block) < 2 ^ 32"
    by (simp add: ct_block_bytes_def l header_bytes_def u)
      (simp add: cd_fat_block_def cd_block_def cd_id_def empty_tx_root_def empty_nullifier_digest_def l m)
  show "\<forall>tx \<in> set (bb_transfers (tb_body cd_fat_block)). wf_transfer tx \<and> length (sx_proof tx) = max_proof_bytes"
    by (simp add: cd_fat_block_def cd_fat_tx_def wf_transfer_def size_defs)
qed (simp_all add: cd_block_wf cd_fat_block_def max_block_transfers_def)

end
