(* ===== verification/MmWitness.thy ===== *)
theory MmWitness
  imports CtWitness
begin

text \<open>
  The theorems on the fork choice, the Ergo follower, the peg-mint verifier, the shares and the pool, applied to the
  concrete environment.
\<close>

section \<open>Fork choice\<close>

theorem mm_follows_heaviest_witness:
  "\<exists>mf full. mm_run cd (mm_new cd NetDev PowDevStub PfReal) cd_events = Some mf \<and> mf = cd_grown []
     \<and> mm_cumulative_work mf (mf_canonical mf) = Some (blocks_work cd (tl (cc_blocks (mf_chain mf))))
     \<and> (\<forall>i w. mm_cumulative_work mf i = Some w \<longrightarrow> w \<le> blocks_work cd (tl (cc_blocks (mf_chain mf))))
     \<and> replay_log cd cd_chain0 (tl (cc_blocks (mf_chain mf))) = Inr full \<and> cc_state full = cc_state (mf_chain mf)"
proof -
  have "1 + length cd_events < 2 ^ 64" by (simp add: cd_events_def)
  from mm_follows_heaviest [OF _ cd_clock this, of cd NetDev PowDevStub PfReal] cd_run show ?thesis
    by (fastforce simp: cd_tree_ok mm_cumulative_work_def)
qed

theorem mm_tip_from_tree_witness:
  "mm_run cd (mm_new cd NetDev PowDevStub PfReal) cd_events = Some (cd_grown [])
   \<and> mm_run cd (mm_new cd NetDev PowDevStub PfReal) (rev cd_events) = Some (cd_grown [])
   \<and> cc_state (mf_chain (cd_grown [])) = cc_state (mf_chain (cd_grown []))"
proof -
  have c: "list_all event_clock_ok (rev cd_events)" using cd_clock by (simp add: list_all_iff)
  have l: "1 + length cd_events < 2 ^ 64" "1 + length (rev cd_events) < 2 ^ 64" by (simp_all add: cd_events_def)
  show ?thesis
    using mm_tip_from_tree [OF _ cd_clock c l cd_run cd_run_rev refl] cd_run cd_run_rev by (simp add: cd_tree_ok)
qed

definition cd_share2 :: valid_share where
  "cd_share2 = \<lparr> vs_aegis_id = cd_id 2, vs_work = 400, vs_ergo_height = 6 \<rparr>"

definition cd_work :: "bytes \<Rightarrow> nat" where
  "cd_work i = (if i = cd_id 1 then 1000 else 400)"

lemma cd_final: "is_final (cd_grown [(cd_id 1, 10)]) (cd_id 1) 500 10 = Some True"
proof -
  let ?T = "[(cd_id 0, cd_gnode), (cd_id 1, cd_node1)]"
  have n1: "bn_height cd_node1 = 1" "bn_parent cd_node1 = cd_id 0" by (simp_all add: cd_node1_def)
  have w0: "path_walk ?T (cd_id 0) = Some [cd_id 0]" by (subst path_walk.simps) (simp add: cd_gnode_def)
  have w: "path_walk ?T (cd_id 1) = Some [cd_id 1, cd_id 0]" by (subst path_walk.simps) (simp add: w0 n1)
  have a: "is_ancestor_or_eq ?T (cd_id 1) (cd_id 1) = Some True" "is_ancestor_or_eq ?T (cd_id 1) (cd_id 0) = Some False"
    by (simp_all add: is_ancestor_or_eq_def ancestor_walk.simps cd_node1_def cd_gnode_def)
  show ?thesis
    by (simp add: is_final_def cd_grown_def has_key_def mm_path_def w a pending_hostile_work_def) (simp add: cd_gnode_def cd_node1_def)
qed

lemma cd_pending_run:
  "mm_run cd (cd_grown [(cd_id 1, 10)]) [EvShare cd_share2 cd_now]
    = Some (cd_grown [(cd_id 1, 10)] \<lparr> mf_pending := [(cd_id 2, \<lparr> ps_work = 400, ps_ergo_height = 6 \<rparr>)] \<rparr>)"
  by (simp add: mm_step_def ingest_share_def cd_share2_def cd_grown_def has_key_def activate_ready_from_def activate_loop.simps
      try_activate_def refresh_canonical_def preferred_def cd_gnode_def cd_node1_def Let_def)

theorem peg_finality_witness:
  "is_final (cd_grown [(cd_id 1, 10)]) (cd_id 1) 500 10 = Some True
   \<and> (\<exists>mf'. mm_run cd (cd_grown [(cd_id 1, 10)]) [EvShare cd_share2 cd_now] = Some mf'
        \<and> is_ancestor_or_eq (mf_nodes mf') (cd_id 1) (mf_canonical mf') = Some True)"
proof -
  let ?evs = "cd_events @ [EvAnchor (cd_id 1) 10]" and ?mf = "cd_grown [(cd_id 1, 10)]"
  have run: "mm_run cd (mm_new cd NetDev PowDevStub PfReal) ?evs = Some ?mf"
    by (simp add: cd_new cd_events_def mm_step_def cd_share_first cd_body_second record_anchor_def) (simp add: cd_grown_def)
  have clock: "list_all event_clock_ok (?evs @ [EvShare cd_share2 cd_now])"
    using cd_clock by (simp add: event_clock_ok_def cd_now_def)
  have work: "list_all (event_work_ok cd cd_work) (?evs @ [EvShare cd_share2 cd_now])"
    by (simp add: cd_events_def event_work_ok_def cd_work_def cd_share_def cd_share2_def cd_block_id cd_block_fields)
  have new: "new_share_work cd_work ?mf [EvShare cd_share2 cd_now] < 500"
    by (simp add: new_share_work_def event_share_ids_def cd_share2_def cd_grown_def cd_work_def insert_Diff_if)
  have size: "1 + length (?evs @ [EvShare cd_share2 cd_now]) < 2 ^ 64" by (simp add: cd_events_def)
  have C: "tree_append_ok (ce_curve cd)" by (simp add: cd_tree_ok)
  from peg_finality [OF C run cd_final cd_pending_run clock work size new] cd_final cd_pending_run show ?thesis by blast
qed

theorem honest_block_poisoned_witness:
  "ingest_body cd (cd_root [(cd_id 1, cd_pending)] []) cd_block cd_now = Some (cd_grown [], BiActivated 1)
   \<and> (\<exists>mf2. ingest_body cd (cd_root [(cd_id 1, cd_pending)] []) (with_blobs cd_block [[]]) cd_now = Some (mf2, BiDead)
        \<and> ingest_body cd mf2 cd_block cd_now = Some (mf2, BiDead))"
proof -
  have run: "mm_run cd (mm_new cd NetDev PowDevStub PfReal) [EvShare cd_share cd_now] = Some (cd_root [(cd_id 1, cd_pending)] [])"
    by (simp add: cd_new mm_step_def cd_share_first)
  have C: "tree_append_ok (ce_curve cd)" "list_all event_clock_ok [EvShare cd_share cd_now]"
    "length [EvShare cd_share cd_now] + 2 < 2 ^ 64" "unat cd_now + 120000 < 2 ^ 64"
    by (simp_all add: cd_tree_ok event_clock_ok_def cd_now_def)
  have fresh: "\<not> has_key (mf_stashed (cd_root [(cd_id 1, cd_pending)] [])) (ct_block_id (ce_ext cd) (ce_wire cd) cd_block)"
    by (simp add: cd_root_def has_key_def)
  have junk: "read_pegmint_proof (ce_ext cd) (ce_ergo cd) (ce_vlq cd) [] = Inl (PmMalformedProof ''work'')"
    by (simp add: read_pegmint_proof_def read_blob_def cd_vlq_def take_opt_def)
  from honest_block_poisoned [OF C(1) run C(2-4) cd_body_second fresh junk] cd_body_second show ?thesis by blast
qed

section \<open>Follower and peg-mints\<close>

definition cd_fh :: "nat \<Rightarrow> followed_header" where
  "cd_fh h = \<lparr> fh_id = cd_id (of_nat h), fh_parent_id = cd_id (of_nat (h - 1)), fh_height = of_nat h, fh_work = 1, fh_cum = Suc h, fh_level = 0 \<rparr>"

definition cd_follower :: follower where
  "cd_follower = \<lparr> fo_headers = [(cd_id 0, cd_fh 0), (cd_id 1, cd_fh 1), (cd_id 2, cd_fh 2)], fo_best_tip = Some (cd_id 2), fo_n_mint = 1,
     fo_expected_root = Some (cd_id 0) \<rparr>"

lemma cd_ergo_simps [simp]:
  "el_serialize_header cd_ergo h = map_option (\<lambda>hb. (hb, cd_id (of_nat h))) (cd_header_bytes h)" "el_pow_ok cd_ergo h" "el_nbits cd_ergo h = 1"
  "el_level cd_ergo h = 0" "el_inputs cd_ergo tx = [replicate 32 9]" "el_nipopow_valid cd_ergo w" "el_continuous cd_ergo w"
  "el_chain cd_ergo w = map unat w"
  by (simp_all add: cd_ergo_def cd_id_def)

lemma cd_drive: "drive_headers cd_ext cd_ergo (follower_with_root 1 (cd_id 0)) [0, 1, 2] = Some (cd_follower, Inr [IgRoot, IgExtended, IgExtended])"
  by (simp add: apply_header_def cd_header_bytes_def apply_verified_header_def follower_with_root_def link_header_def choose_tip_def
      has_key_def Let_def flip: cd_id_def) (simp add: cd_follower_def cd_fh_def)

theorem follower_follows_heaviest_witness:
  "\<exists>f r. drive_headers cd_ext cd_ergo (follower_with_root 1 (cd_id 0)) [0, 1, 2] = Some (f, r :: unit drive_error + ingest_outcome list) \<and> f = cd_follower
     \<and> (\<exists>best bp. fo_tip f = Some best \<and> root_path (fo_headers f) (cd_id 0) (best # bp)
          \<and> (\<forall>k n. map_of (fo_headers f) k = Some n \<longrightarrow> from_source cd_ext cd_ergo [0, 1, 2] n \<and> fh_cum n \<le> path_work (best # bp)))"
proof -
  have "fo_headers cd_follower \<noteq> []" by (simp add: cd_follower_def)
  with cd_drive [where 'a = unit] follower_follows_heaviest [where 'e = unit, of cd_ext cd_ergo 1 "cd_id 0" "[0, 1, 2]"]
  obtain best bp where "fo_tip cd_follower = Some best" "root_path (fo_headers cd_follower) (cd_id 0) (best # bp)"
    and all: "\<forall>k n. map_of (fo_headers cd_follower) k = Some n \<longrightarrow> from_source cd_ext cd_ergo [0, 1, 2] n
      \<and> (\<exists>ns. root_path (fo_headers cd_follower) (cd_id 0) (n # ns) \<and> fh_id n = k \<and> fh_cum n = path_work (n # ns)
           \<and> path_work (n # ns) \<le> path_work (best # bp))" by auto
  moreover have "from_source cd_ext cd_ergo [0, 1, 2] n \<and> fh_cum n \<le> path_work (best # bp)"
    if "map_of (fo_headers cd_follower) k = Some n" for k n
    using all that by fastforce
  ultimately show ?thesis using cd_drive [where 'a = unit] by blast
qed

definition cd_params :: peg_params where
  "cd_params = \<lparr> pgp_use_token_id = [2], pgp_peg_vault_nft = [2], pgp_receipt_script_hash = replicate 32 1,
     pgp_fee_pot_script_hash = replicate 32 1, pgp_peg_fee_floor = 1, pgp_peg_fee_rate_bps = 100 \<rparr>"

definition cd_inclusion :: "nat tx_inclusion" where
  "cd_inclusion = \<lparr> ti_header = 0, ti_tx_bytes = [7], ti_proof = demo_proof \<rparr>"

definition cd_pegmint :: "(nat, u8 list) pegmint_proof" where
  "cd_pegmint = \<lparr> pp_work = [0, 1, 2], pp_lock = cd_inclusion, pp_receipt_output_index = 0, pp_consolidation = cd_inclusion,
     pp_receipt_input_index = 0 \<rparr>"

definition cd_effect :: pegmint_effect where
  "cd_effect = \<lparr> pe_note_value = 1000, pe_sc_dest = replicate 33 0, pe_box_id = replicate 32 9, pe_pot_credit = 10, pe_rho_seed = replicate 32 9 \<rparr>"

definition cd_view :: settled_view where
  "cd_view = \<lparr> sv_heights = [(cd_id 0, 0), (cd_id 1, 1)], sv_levels = [(0, 0), (1, 0)], sv_h_ref = 1 \<rparr>"

lemma cd_settled_view: "settled_view_of cd_follower 1 = Some cd_view"
  by (simp add: settled_view_of_def fo_tip_def cd_follower_def cd_fh_def walk_down.simps walk_to_root.simps cd_view_def word_le_nat_alt word_less_nat_alt)

lemma cd_comparative:
  "verify_ergo_chain_comparative cd_ext cd_ergo [0, 1, 2] \<lparr> ea_header_id = cd_id 0, ea_height = 0, ea_work_floor = 0 \<rparr> 1 cd_follower
    = Inr \<lparr> ca_h_ref = 1, ca_settled_view = cd_view \<rparr>"
  by (simp add: verify_ergo_chain_comparative_def pm_header_id_def cd_header_bytes_def check_anchored_depth_def saturating_sub_def
      comparative_policy_def checked_sub_def cd_settled_view check_comparative_objectivity_def Let_def ok_or_def word_le_nat_alt)
    (simp add: cd_view_def root_height_def height_of_def)

lemma cd_check_inclusion: "check_inclusion cd_ext cd_ergo cd_inclusion role cd_view = Inr ([7], replicate 32 0)"
proof -
  have x: "x_read_tx cd_ext tb = Some (tb, [])" "x_tx_id cd_ext tx = Some (replicate 32 0)" "x_tx_leaf cd_ext i = replicate 32 0"
    "x_h_transactions_root cd_ext h = replicate 32 0" for tb tx i h
    by (simp_all add: cd_ext_def)
  have p: "x_popow_verify cd_ext = verify_batch_merkle_proof demo"
    unfolding demo_popow [symmetric] by (simp add: cd_ext_def)
  show ?thesis
    by (cases role) (simp_all add: check_inclusion_def role_fields_def cd_inclusion_def cd_header_bytes_def x p demo_proof_ok ok_or_def
        max_peg_header_bytes_def cd_view_def height_of_def, simp_all add: demo_proof_def)
qed

lemma cd_receipt: "receipt_steps cd_ext cd_ergo [7] 0 [7] 0 {} cd_params = Inr cd_effect"
proof -
  have x: "x_tx_outputs cd_ext tx = [\<lparr> xo_tree = [1], xo_tokens = [([2], 1000)], xo_r4 = Some (replicate 33 0) \<rparr>]"
    "x_box_id cd_ext tx i = Some (replicate 32 9)" for tx i by (simp_all add: cd_ext_def)
  show ?thesis
    by (simp add: receipt_steps_def x ok_or_def vault_nft_at_out0_def cd_params_def receipt_value_def receipt_dest_def fee_paid_def
        pgp_fee_def cd_effect_def Let_def)
qed

theorem pegmint_backed_witness:
  "verify_pegmint_full cd_ext cd_ergo cd_pegmint \<lparr> ea_header_id = cd_id 0, ea_height = 0, ea_work_floor = 0 \<rparr> 1 cd_follower {} cd_params = Inr cd_effect
   \<and> (\<exists>lock_tx h_ref. tx_settled cd_ext cd_ergo cd_follower h_ref cd_inclusion lock_tx \<and> unat h_ref + 1 = 2)"
proof -
  have b: "check_bounds cd_pegmint = Inr ()"
    by (simp add: check_bounds_def check_bounds_of_def role_fields_def cd_pegmint_def cd_inclusion_def demo_proof_def peg_size_defs)
  have ok: "verify_pegmint_full cd_ext cd_ergo cd_pegmint \<lparr> ea_header_id = cd_id 0, ea_height = 0, ea_work_floor = 0 \<rparr> 1 cd_follower {} cd_params
      = Inr cd_effect"
    by (simp add: verify_pegmint_full_def verify_pegmint_def b)
      (simp add: cd_pegmint_def cd_comparative cd_check_inclusion cd_receipt)
  from pegmint_backed [OF ok] obtain lock_tx h_ref where "tx_settled cd_ext cd_ergo cd_follower h_ref cd_inclusion lock_tx"
    "unat h_ref + unat (1 :: u64) = unat (x_h_height cd_ext (last (el_chain cd_ergo (pp_work cd_pegmint))))"
    by (auto simp: cd_pegmint_def)
  then show ?thesis using ok by (auto simp: cd_pegmint_def)
qed

end
