(* ===== verification/ShareWitness.thy ===== *)
theory ShareWitness
  imports MmWitness
begin

text \<open>The theorems on aux-PoW shares and on the transfer pool, applied to the concrete environment.\<close>

section \<open>Shares\<close>

lemma cd_hashes:
  "internal_hash_pair cd_ext = internal_hash_pair demo" "combine_with_proof_entry cd_ext = combine_with_proof_entry demo"
  by (simp_all add: fun_eq_iff internal_hash_pair_def combine_with_proof_entry_def internal_hash_left_only_def
      split: option.splits side.splits)

lemma cd_reduce_level: "reduce_level cd_ext e m = reduce_level demo e m"
  by (induction cd_ext e m rule: reduce_level.induct) (simp_all add: cd_hashes split: list.splits)

lemma cd_loop_reduce: "loop_reduce cd_ext e m = loop_reduce demo e m"
proof (induction cd_ext e m rule: loop_reduce.induct)
  case (1 e m)
  then show ?case
    by (subst (1 2) loop_reduce.simps) (auto simp: cd_reduce_level Let_def split: option.splits)
qed

lemma cd_popow: "x_popow_verify cd_ext = verify_batch_merkle_proof cd_ext"
proof -
  have "x_popow_verify cd_ext = verify_batch_merkle_proof demo"
    unfolding demo_popow [symmetric] by (simp add: cd_ext_def)
  also have "\<dots> = verify_batch_merkle_proof cd_ext"
    by (intro ext) (simp add: verify_batch_merkle_proof_def [of demo] verify_batch_merkle_proof_def [of cd_ext] cd_loop_reduce)
  finally show ?thesis .
qed

definition cd_child :: ct_header where
  "cd_child = (tb_header cd_block) \<lparr> th_prev_id := cd_id 1, th_height := 2, th_reward_claim := empty_reward_claim \<rparr>"

definition cd_ctx :: share_ctx where
  "cd_ctx = \<lparr> sc_follower_tip_height = 6, sc_k_lag = 3, sc_daa = daa_for_network cd_ext NetDev, sc_daa_view = [] \<rparr>"

text \<open>The second header is the child of the first.\<close>

theorem one_work_two_shares_witness:
  "th_prev_id cd_child = ct_header_id cd_ext cd_wire (tb_header cd_block) \<and>
   (\<exists>bp1 bp2 s1 s2.
      ct_verify_share cd_ext cd_wire 5 (aegis_mm_extension_field (cd_id 1)) bp1 (tb_header cd_block) cd_ctx = Inr s1
    \<and> ct_verify_share cd_ext cd_wire 5 (aegis_mm_extension_field (cd_id 0)) bp2 cd_child cd_ctx = Inr s2
    \<and> vs_work s1 = 1000 \<and> vs_work s2 = 1000)"
proof -
  have i1: "ct_header_id cd_ext cd_wire (tb_header cd_block) = cd_id 1" using cd_block_id by (simp add: ct_block_id_def)
  have i2: "ct_header_id cd_ext cd_wire cd_child = cd_id 0"
    by (simp add: cd_child_def ct_header_id_def header_bytes_def empty_reward_claim_def cd_id_def)
  have nb: "th_sc_nbits (tb_header cd_block) = 1000" "th_sc_nbits cd_child = 1000" by (simp_all add: cd_child_def cd_block_def)
  have x: "x_h_v2_nonce cd_ext 5 = Some (replicate 8 0)" "x_h_bytes_without_pow cd_ext 5 = Some [5]"
    "x_h_extension_root cd_ext 5 = replicate 32 0" "x_get_target cd_ext n = unat n" "x_check_pow cd_ext msg nonce h v t" for n msg nonce h v t
    by (simp_all add: cd_ext_def)
  have daa: "next_nbits cd_ext (sc_daa cd_ctx) (sc_daa_view cd_ctx) = Some 1000"
    by (simp add: cd_ctx_def next_nbits_def daa_for_network_def ct_genesis_header_def min_difficulty_def)
  have hash: "length (x_blake2b256 cd_ext bs) = 32" for bs by simp
  have window: "\<forall>ctx \<in> {cd_ctx, cd_ctx}. unat (sc_follower_tip_height ctx) \<le> unat (x_h_height cd_ext 5) + unat (sc_k_lag ctx)
       \<and> unat (x_h_height cd_ext 5) \<le> unat (sc_follower_tip_height ctx) + 1"
    by (simp add: cd_ctx_def)
  have root: "x_h_extension_root cd_ext 5 = internal_hash_pair cd_ext
       (ext_leaf_digest cd_ext (aegis_mm_extension_field (ct_header_id cd_ext cd_wire (tb_header cd_block))))
       (ext_leaf_digest cd_ext (aegis_mm_extension_field (ct_header_id cd_ext cd_wire cd_child)))"
    unfolding x i2 by (simp add: internal_hash_pair_def ext_leaf_digest_def kv_to_leaf_def aegis_mm_extension_field_def cd_id_def)
  have target: "\<forall>h \<in> {tb_header cd_block, cd_child}. x_get_target cd_ext (th_sc_nbits h) \<noteq> 0
       \<and> x_check_pow cd_ext (x_blake2b256 cd_ext [5]) (replicate 8 0) (x_h_height cd_ext 5) (x_h_version cd_ext 5) (x_get_target cd_ext (th_sc_nbits h))"
    by (simp add: x nb)
  from one_work_two_shares [OF cd_popow hash x(1,2) window root target] daa nb have "\<exists>bp1 bp2 s1 s2.
      ct_verify_share cd_ext cd_wire 5 (aegis_mm_extension_field (cd_id 1)) bp1 (tb_header cd_block) cd_ctx = Inr s1
    \<and> ct_verify_share cd_ext cd_wire 5 (aegis_mm_extension_field (cd_id 0)) bp2 cd_child cd_ctx = Inr s2
    \<and> vs_work s1 = 1000 \<and> vs_work s2 = 1000"
    by (auto simp: i1 i2)
  moreover have "th_prev_id cd_child = cd_id 1" by (simp add: cd_child_def)
  ultimately show ?thesis by (simp add: i1)
qed

definition cd_witness :: "nat ct_witness" where
  "cd_witness = \<lparr> wt_ergo_header = 5, wt_field = aegis_mm_extension_field (cd_id 1), wt_proof = demo_proof, wt_block_bytes = [1, 2, 3] \<rparr>"

lemma length_put_nat: "length (put_nat n) = Suc n"
  by (induction n) simp_all

theorem ct_witness_roundtrip_witness:
  "\<exists>bs. witness_bytes cd_ergo cd_wire cd_header_bytes cd_witness = Some bs \<and> witness_from_bytes cd_ext cd_ergo cd_wire bs = Inr cd_witness"
proof -
  obtain bs where bs: "witness_bytes cd_ergo cd_wire cd_header_bytes cd_witness = Some bs"
    by (simp add: witness_bytes_def cd_witness_def aegis_mm_extension_field_def cd_id_def cd_header_bytes_def Let_def)
  have "length (el_write_batch cd_ergo (wt_proof cd_witness)) < 2 ^ 64"
    by (simp add: cd_ergo_def cd_witness_def demo_proof_def put_batch_def put_index_def put_entry_def put_blobn_def length_put_nat)
  with bs ct_witness_roundtrip [OF cd_witness_wire_ok bs] show ?thesis
    by (simp add: cd_witness_def aegis_mm_extension_field_def aegis_mm_key_def)
qed

section \<open>The pool\<close>

definition cd_tx :: "u8 \<Rightarrow> shielded_transfer" where
  "cd_tx n = \<lparr> sx_nullifiers = [replicate 32 n, replicate 32 7],
     sx_outputs = replicate 2 \<lparr> so_note_cm = replicate 32 0 @ [1], so_epk = [], so_ct = [], so_out_ct = [] \<rparr>, sx_proof = [n] \<rparr>"

definition cd_admission :: "u8 admission_view" where
  "cd_admission = \<lparr> av_leaves = [1], av_spent = {}, av_fee = 10 \<rparr>"

lemma cd_tx_verifies: "verify_shielded_transfer cd_curve anchor (cd_tx n) fee = Inr ()"
  by (simp add: verify_shielded_transfer_def cd_tx_def ok_or_def check_output_def numeral_2_eq_2)

lemma cd_admit:
  "pool_step cd pool_new (PvAdmit (cd_tx n) cd_admission) =
     \<lparr> tp_by_id = [(pool_tx_id cd_ext cd_wire (cd_tx n), cd_tx n)], tp_nullifiers = {replicate 32 n, replicate 32 7} \<rparr>"
proof -
  have "view_anchor cd_curve cd_admission = Inr [1]"
    by (simp add: view_anchor_def cd_admission_def build_tree_def tree_l_def tree_depth_def ok_or_def)
  moreover have "sx_nullifiers (cd_tx n) = [replicate 32 n, replicate 32 7]" by (simp add: cd_tx_def)
  ultimately show ?thesis
    by (simp add: pool_step_def pool_admit_def pool_new_def has_key_def max_mempool_txs_def check_free_def cd_tx_verifies Let_def)
      (simp add: cd_admission_def)
qed

theorem selection_is_conflict_free_witness:
  "\<exists>txs ids. select_for_block cd_curve (foldl (pool_step cd) pool_new [PvAdmit (cd_tx 3) cd_admission]) (Some [1]) 10 = (txs, ids)
     \<and> length txs \<le> 64 \<and> block_nullifiers (cs_new :: (u8, u8 list) ct_state) txs = Inr (concat (map sx_nullifiers txs))"
proof -
  let ?pool = "foldl (pool_step cd) pool_new [PvAdmit (cd_tx 3) cd_admission]"
  have "\<forall>(_, tx) \<in> set (tp_by_id ?pool). distinct (sx_nullifiers tx)" by (simp add: cd_admit) (simp add: cd_tx_def)
  moreover have "tp_nullifiers ?pool \<inter> cs_nullifiers (cs_new :: (u8, u8 list) ct_state) = {}" by (simp add: cs_new_def)
  ultimately show ?thesis using selection_is_conflict_free [OF refl, of cd "[PvAdmit (cd_tx 3) cd_admission]" cs_new cd_curve "[1]" 10] by blast
qed

theorem twin_spend_stalls_producer_witness:
  "\<exists>pool' i txs ids. pool_admit cd (foldl (pool_step cd) pool_new []) (cd_tx 7) cd_admission = Inr (pool', AdNew i)
    \<and> select_for_block cd_curve pool' (Some [1]) 10 = (txs, ids)
    \<and> (\<exists>e. produce_next_with_coinbase cd (\<lambda>_. Some 1) cd_chain1 \<lparr> bb_transfers = txs, bb_peg_mints = [] \<rparr> cd_now = Inl e)"
proof -
  have h: "length (tp_by_id (foldl (pool_step cd) pool_new [])) < 64"
    "\<not> has_key (tp_by_id (foldl (pool_step cd) pool_new [])) (pool_tx_id (ce_ext cd) (ce_wire cd) (cd_tx 7))"
    "\<not> distinct (sx_nullifiers (cd_tx 7))"
    "set (sx_nullifiers (cd_tx 7)) \<inter> (av_spent cd_admission \<union> tp_nullifiers (foldl (pool_step cd) pool_new [])) = {}"
    by (simp_all add: pool_new_def has_key_def cd_tx_def cd_admission_def)
  have a: "av_leaves cd_admission \<noteq> []" "build_tree (ce_curve cd) (av_leaves cd_admission) = Some [1]"
    by (simp_all add: cd_admission_def build_tree_def tree_l_def tree_depth_def)
  have v: "verify_shielded_transfer (ce_curve cd) [1] (cd_tx 7) (av_fee cd_admission) = Inr ()" by (simp add: cd_tx_verifies)
  from twin_spend_stalls_producer [OF refl h a v] show ?thesis by (auto simp: cd_admission_def)
qed

end
