(* ===== verification/AnchorWatch.thy ===== *)
theory AnchorWatch
  imports CtAuxPow MmFinality
begin

text \<open>
  The Ergo anchor watcher (\<^verbatim>\<open>aegis-node/src/anchor_watch.rs\<close>): it authenticates the extension fields of each followed
  Ergo header, extracts the merge-mining commitment, verifies the share and feeds shares, anchors and bodies to the fork
  choice, with retry buffers for headers whose fields were not served and commitments whose block is unknown.

  The header source, the block source and the block archive are functions, arguments of each pass; the Merkle functions of
  the Ergo crates are the record \<open>merkle_lib\<close>. Events are kept to the end of a failed pass, whose caller drops them.
  \<open>None\<close> is a panic.
\<close>

section \<open>Extraction\<close>

record merkle_lib =
  ml_extension_root :: "(bytes \<times> bytes) list \<Rightarrow> bytes"
  ml_proof_by_indices :: "bytes list \<Rightarrow> u32 list \<Rightarrow> ((u32 \<times> bytes) list \<times> (bytes option \<times> u8) list) option"
  ml_side :: "u8 \<Rightarrow> side"

record commitment =
  cm_aegis_id :: bytes
  cm_field :: extension_field
  cm_proof :: batch_proof

datatype malformed_reason = MrValueLen nat | MrVersion u8

datatype extracted = XtNoCommitment | XtMalformed malformed_reason | XtCommitment commitment

datatype extract_error = XeRootMismatch bytes bytes | XeDuplicateKey nat | XeProofBuild u32

definition extension_field_proof :: "merkle_lib \<Rightarrow> extension_field list \<Rightarrow> u32 \<Rightarrow> batch_proof option" where
  "extension_field_proof L kvs idx =
     map_option (\<lambda>(indices, raw). \<lparr> bp_indices = indices,
         bp_proofs = map (\<lambda>(digest, side). \<lparr> pe_digest = digest, pe_side = ml_side L side \<rparr>) raw \<rparr>)
       (ml_proof_by_indices L (map kv_to_leaf kvs) [idx])"

definition extract_commitment ::
  "('h, 't) ext \<Rightarrow> merkle_lib \<Rightarrow> 'h \<Rightarrow> extension_field list \<Rightarrow> extract_error + extracted" where
  "extract_commitment E L header kvs =
     (let got = ml_extension_root L (map (\<lambda>f. (ef_key f, ef_value f)) kvs); want = x_h_extension_root E header in
      if got \<noteq> want then Inl (XeRootMismatch got want)
      else (case filter (\<lambda>(_, f). ef_key f = aegis_mm_key) (enumerate 0 kvs) of
          [] \<Rightarrow> Inr XtNoCommitment
        | (idx, f) # rest \<Rightarrow>
            if 0 < length rest then Inl (XeDuplicateKey (length rest + 1))
            else if length (ef_value f) \<noteq> mm_field_value_len then Inr (XtMalformed (MrValueLen (length (ef_value f))))
            else if ef_value f ! 0 \<noteq> mm_commitment_version then Inr (XtMalformed (MrVersion (ef_value f ! 0)))
            else bind_r (ok_or (extension_field_proof L kvs (of_nat idx)) (XeProofBuild (of_nat idx))) (\<lambda>bp.
              Inr (XtCommitment \<lparr> cm_aegis_id = drop 1 (ef_value f), cm_field = f, cm_proof = bp \<rparr>))))"

section \<open>State\<close>

datatype 'm aegis_lookup = LkUnknown | LkHeaderOnly ct_header | LkFull "'m ct_block"

datatype unresolved_reason = UrUnknownAegisBlock | UrParentNotValidated

datatype watch_event =
    WvNoCommitment u32
  | WvMalformed u32 malformed_reason
  | WvUnresolved bytes u32 unresolved_reason
  | WvVerified bytes u32 share_ingest "body_ingest option" bool
  | WvRejected bytes u32 ct_share_error
  | WvExpired "bytes option" u32

datatype 'be scan_error = ScHeaderEncode u32 | ScBlocks 'be | ScExtract u32 extract_error

datatype ('he, 'be) watch_error = WtHeaders 'he | WtFollow follow_error | WtScan "'be scan_error"

record 'h unscanned =
  us_header :: 'h
  us_on_best_chain :: bool

record 'h unresolved =
  ur_ergo_header :: 'h
  ur_commitment :: commitment
  ur_on_best_chain :: bool

record 'm aw_pass =
  ap_follower_tip_height :: u32
  ap_now_ms :: u64
  ap_aegis :: "bytes \<Rightarrow> 'm aegis_lookup"

record 'h anchor_watch =
  aw_daa :: daa_params
  aw_k_lag :: u32
  aw_start_height :: u32
  aw_unscanned :: "'h unscanned list"
  aw_unresolved :: "'h unresolved list"

definition k_lag_const :: u32 where "k_lag_const = 6"

definition aw_new :: "('h, 't) ext \<Rightarrow> network \<Rightarrow> u32 \<Rightarrow> 'h anchor_watch" where
  "aw_new E net start_height =
     \<lparr> aw_daa = daa_for_network E net, aw_k_lag = k_lag_const, aw_start_height = start_height, aw_unscanned = [], aw_unresolved = [] \<rparr>"

definition fo_tip_height :: "follower \<Rightarrow> u32 option" where
  "fo_tip_height f = map_option fh_height (fo_tip f)"

section \<open>One commitment\<close>

type_synonym ('h, 'p, 'tr, 'm) aw_state = "'h anchor_watch \<times> ('p, 'tr, 'm) mm_fc \<times> watch_event list"

definition hold_unresolved ::
  "bool \<Rightarrow> unresolved_reason \<Rightarrow> 'h unresolved \<Rightarrow> u32 \<Rightarrow> ('h, 'p, 'tr, 'm) aw_state \<Rightarrow> ('h, 'p, 'tr, 'm) aw_state" where
  "hold_unresolved announce reason item ergo_height st =
     (case st of (w, mf, evs) \<Rightarrow>
        (w \<lparr> aw_unresolved := aw_unresolved w @ [item] \<rparr>, mf,
         if announce then evs @ [WvUnresolved (cm_aegis_id (ur_commitment item)) ergo_height reason] else evs))"

definition feed_verified ::
  "('h, 't, 'w, 'p, 'tr, 'pr, 'm) ct_env \<Rightarrow> 'm aw_pass \<Rightarrow> 'h unresolved \<Rightarrow> valid_share \<Rightarrow> 'm ct_block option \<Rightarrow>
     ('p, 'tr, 'm) mm_fc \<Rightarrow> (('p, 'tr, 'm) mm_fc \<times> share_ingest \<times> body_ingest option) option" where
  "feed_verified V p item share block mf =
     Option.bind (ingest_share V mf share (ap_now_ms p)) (\<lambda>(mf1, si).
       let mf2 = (if ur_on_best_chain item then record_anchor mf1 (vs_aegis_id share) (vs_ergo_height share) else mf1) in
       case block of
         None \<Rightarrow> Some (mf2, si, None)
       | Some b \<Rightarrow> map_option (\<lambda>(mf3, bi). (mf3, si, Some bi)) (ingest_body V mf2 b (ap_now_ms p)))"

definition resolve_and_feed ::
  "('h, 't, 'w, 'p, 'tr, 'pr, 'm) ct_env \<Rightarrow> 'm aw_pass \<Rightarrow> bool \<Rightarrow> 'h unresolved \<Rightarrow> ('h, 'p, 'tr, 'm) aw_state \<Rightarrow>
     ('h, 'p, 'tr, 'm) aw_state option" where
  "resolve_and_feed V p announce item st =
     (case st of (w, mf, evs) \<Rightarrow>
      let ergo_height = x_h_height (ce_ext V) (ur_ergo_header item); aegis_id = cm_aegis_id (ur_commitment item);
          found = (case ap_aegis p aegis_id of LkUnknown \<Rightarrow> None | LkHeaderOnly h \<Rightarrow> Some (h, None) | LkFull b \<Rightarrow> Some (tb_header b, Some b))
      in case found of
        None \<Rightarrow> Some (hold_unresolved announce UrUnknownAegisBlock item ergo_height st)
      | Some (aegis_header, block) \<Rightarrow>
          Option.bind (mm_daa_view mf (th_prev_id aegis_header)) (\<lambda>view. case view of
            None \<Rightarrow> Some (hold_unresolved announce UrParentNotValidated item ergo_height st)
          | Some daa_view \<Rightarrow>
              (case ct_verify_share (ce_ext V) (ce_wire V) (ur_ergo_header item) (cm_field (ur_commitment item))
                  (cm_proof (ur_commitment item)) aegis_header
                  \<lparr> sc_follower_tip_height = ap_follower_tip_height p, sc_k_lag = aw_k_lag w, sc_daa = aw_daa w, sc_daa_view = daa_view \<rparr> of
                Inr share \<Rightarrow>
                  map_option (\<lambda>(mf', si, bi). (w, mf', evs @ [WvVerified aegis_id ergo_height si bi (ur_on_best_chain item)]))
                    (feed_verified V p item share block mf)
              | Inl e \<Rightarrow> if e = SePanic then None else Some (w, mf, evs @ [WvRejected aegis_id ergo_height e]))))"

section \<open>One header\<close>

definition buffer_unscanned :: "'h \<Rightarrow> bool \<Rightarrow> 'h anchor_watch \<Rightarrow> 'h anchor_watch" where
  "buffer_unscanned h on_best w = w \<lparr> aw_unscanned := aw_unscanned w @ [\<lparr> us_header = h, us_on_best_chain = on_best \<rparr>] \<rparr>"

definition scan_one ::
  "('h, 't, 'w, 'p, 'tr, 'pr, 'm) ct_env \<Rightarrow> merkle_lib \<Rightarrow> (bytes \<Rightarrow> 'be + extension_field list) \<Rightarrow> 'm aw_pass \<Rightarrow> 'h \<Rightarrow> bool \<Rightarrow>
     ('h, 'p, 'tr, 'm) aw_state \<Rightarrow> (('h, 'p, 'tr, 'm) aw_state \<times> ('be scan_error + unit)) option" where
  "scan_one V L blocks p header on_best st =
     (case st of (w, mf, evs) \<Rightarrow>
      let ergo_height = x_h_height (ce_ext V) header in
      case el_serialize_header (ce_ergo V) header of
        None \<Rightarrow> Some (st, Inl (ScHeaderEncode ergo_height))
      | Some (_, ident) \<Rightarrow>
          (case blocks ident of
             Inl e \<Rightarrow> Some ((buffer_unscanned header on_best w, mf, evs), Inl (ScBlocks e))
           | Inr kvs \<Rightarrow>
               (case extract_commitment (ce_ext V) L header kvs of
                  Inl e \<Rightarrow> Some ((buffer_unscanned header on_best w, mf, evs), Inl (ScExtract ergo_height e))
                | Inr XtNoCommitment \<Rightarrow> Some ((w, mf, evs @ [WvNoCommitment ergo_height]), Inr ())
                | Inr (XtMalformed reason) \<Rightarrow> Some ((w, mf, evs @ [WvMalformed ergo_height reason]), Inr ())
                | Inr (XtCommitment c) \<Rightarrow>
                    map_option (\<lambda>st'. (st', Inr ()))
                      (resolve_and_feed V p True \<lparr> ur_ergo_header = header, ur_commitment = c, ur_on_best_chain = on_best \<rparr> st))))"

section \<open>The buffers\<close>

text \<open>Entries below the window leave their buffer with an event each, the headers first.\<close>

definition expire :: "('h, 't) ext \<Rightarrow> u32 \<Rightarrow> 'h anchor_watch \<Rightarrow> 'h anchor_watch \<times> watch_event list" where
  "expire E low w =
     (let old_u = filter (\<lambda>u. \<not> low \<le> x_h_height E (us_header u)) (aw_unscanned w);
          old_r = filter (\<lambda>u. \<not> low \<le> x_h_height E (ur_ergo_header u)) (aw_unresolved w)
      in (w \<lparr> aw_unscanned := filter (\<lambda>u. low \<le> x_h_height E (us_header u)) (aw_unscanned w),
              aw_unresolved := filter (\<lambda>u. low \<le> x_h_height E (ur_ergo_header u)) (aw_unresolved w) \<rparr>,
          map (\<lambda>u. WvExpired None (x_h_height E (us_header u))) old_u
          @ map (\<lambda>u. WvExpired (Some (cm_aegis_id (ur_commitment u))) (x_h_height E (ur_ergo_header u))) old_r))"

fun retry_unscanned ::
  "('h, 't, 'w, 'p, 'tr, 'pr, 'm) ct_env \<Rightarrow> merkle_lib \<Rightarrow> (bytes \<Rightarrow> 'be + extension_field list) \<Rightarrow> 'm aw_pass \<Rightarrow> 'h unscanned list \<Rightarrow>
     ('h, 'p, 'tr, 'm) aw_state \<Rightarrow> (('h, 'p, 'tr, 'm) aw_state \<times> ('be scan_error + unit)) option" where
  "retry_unscanned V L blocks p [] st = Some (st, Inr ())"
| "retry_unscanned V L blocks p (u # us) st =
     Option.bind (scan_one V L blocks p (us_header u) (us_on_best_chain u) st) (\<lambda>((w, mf, evs), r). case r of
       Inl e \<Rightarrow> Some ((w \<lparr> aw_unscanned := aw_unscanned w @ us \<rparr>, mf, evs), Inl e)
     | Inr _ \<Rightarrow> retry_unscanned V L blocks p us (w, mf, evs))"

fun retry_unresolved ::
  "('h, 't, 'w, 'p, 'tr, 'pr, 'm) ct_env \<Rightarrow> 'm aw_pass \<Rightarrow> 'h unresolved list \<Rightarrow> ('h, 'p, 'tr, 'm) aw_state \<Rightarrow>
     ('h, 'p, 'tr, 'm) aw_state option" where
  "retry_unresolved V p [] st = Some st"
| "retry_unresolved V p (u # us) st = Option.bind (resolve_and_feed V p False u st) (retry_unresolved V p us)"

definition retry_inner ::
  "('h, 't, 'w, 'p, 'tr, 'pr, 'm) ct_env \<Rightarrow> merkle_lib \<Rightarrow> (bytes \<Rightarrow> 'be + extension_field list) \<Rightarrow> 'm aw_pass \<Rightarrow>
     ('h, 'p, 'tr, 'm) aw_state \<Rightarrow> (('h, 'p, 'tr, 'm) aw_state \<times> ('be scan_error + unit)) option" where
  "retry_inner V L blocks p st =
     (case st of (w, mf, evs) \<Rightarrow>
      let (w1, expired) = expire (ce_ext V) (saturating_sub (ap_follower_tip_height p) (aw_k_lag w)) w in
      Option.bind (retry_unscanned V L blocks p (aw_unscanned w1) (w1 \<lparr> aw_unscanned := [] \<rparr>, mf, evs @ expired)) (\<lambda>((w2, mf2, evs2), r).
        case r of
          Inl e \<Rightarrow> Some ((w2, mf2, evs2), Inl e)
        | Inr _ \<Rightarrow> map_option (\<lambda>st'. (st', Inr ()))
            (retry_unresolved V p (aw_unresolved w2) (w2 \<lparr> aw_unresolved := [] \<rparr>, mf2, evs2))))"

section \<open>A pass\<close>

fun watch_batch ::
  "('h, 't, 'w, 'p, 'tr, 'pr, 'm) ct_env \<Rightarrow> merkle_lib \<Rightarrow> (bytes \<Rightarrow> 'be + extension_field list) \<Rightarrow> (bytes \<Rightarrow> 'm aegis_lookup) \<Rightarrow> u64 \<Rightarrow>
     'h list \<Rightarrow> follower \<Rightarrow> ('h, 'p, 'tr, 'm) aw_state \<Rightarrow>
     ((follower \<times> ('h, 'p, 'tr, 'm) aw_state) \<times> (('he, 'be) watch_error + unit)) option" where
  "watch_batch V L blocks aegis now [] f st = Some ((f, st), Inr ())"
| "watch_batch V L blocks aegis now (h # hs) f st =
     Option.bind (apply_header (ce_ext V) (ce_ergo V) f h) (\<lambda>r. case r of
       Inl e \<Rightarrow> Some ((f, st), Inl (WtFollow e))
     | Inr (f', outcome) \<Rightarrow>
         if outcome = IgDuplicate then watch_batch V L blocks aegis now hs f' st
         else Option.bind (fo_tip_height f') (\<lambda>tip.
           Option.bind (scan_one V L blocks \<lparr> ap_follower_tip_height = tip, ap_now_ms = now, ap_aegis = aegis \<rparr> h
               (outcome \<noteq> IgSideBranch) st) (\<lambda>(st', r). case r of
             Inl e \<Rightarrow> Some ((f', st'), Inl (WtScan e))
           | Inr _ \<Rightarrow> watch_batch V L blocks aegis now hs f' st')))"

definition aw_drive ::
  "('h, 't, 'w, 'p, 'tr, 'pr, 'm) ct_env \<Rightarrow> merkle_lib \<Rightarrow> (u32 \<Rightarrow> 'he + 'h list) \<Rightarrow> (bytes \<Rightarrow> 'be + extension_field list) \<Rightarrow>
     (bytes \<Rightarrow> 'm aegis_lookup) \<Rightarrow> u64 \<Rightarrow> 'h anchor_watch \<Rightarrow> follower \<Rightarrow> ('p, 'tr, 'm) mm_fc \<Rightarrow>
     (('h anchor_watch \<times> follower \<times> ('p, 'tr, 'm) mm_fc) \<times> (('he, 'be) watch_error + watch_event list)) option" where
  "aw_drive V L headers blocks aegis now w f mf =
     Option.bind (case fo_tip_height f of
         None \<Rightarrow> Some ((w, mf, []), Inr ())
       | Some tip \<Rightarrow> retry_inner V L blocks \<lparr> ap_follower_tip_height = tip, ap_now_ms = now, ap_aegis = aegis \<rparr> (w, mf, []))
       (\<lambda>((w1, mf1, evs1), r). case r of
          Inl e \<Rightarrow> Some ((w1, f, mf1), Inl (WtScan e))
        | Inr _ \<Rightarrow>
            (case headers (case fo_tip_height f of None \<Rightarrow> aw_start_height w1 | Some h \<Rightarrow> saturating_add h 1) of
               Inl e \<Rightarrow> Some ((w1, f, mf1), Inl (WtHeaders e))
             | Inr batch \<Rightarrow>
                 map_option (\<lambda>((f', (w', mf', evs')), r'). ((w', f', mf'), bind_r r' (\<lambda>_. Inr evs')))
                   (watch_batch V L blocks aegis now batch f (w1, mf1, evs1))))"

definition aw_retry_pending ::
  "('h, 't, 'w, 'p, 'tr, 'pr, 'm) ct_env \<Rightarrow> merkle_lib \<Rightarrow> (bytes \<Rightarrow> 'be + extension_field list) \<Rightarrow> u32 \<Rightarrow> (bytes \<Rightarrow> 'm aegis_lookup) \<Rightarrow>
     u64 \<Rightarrow> 'h anchor_watch \<Rightarrow> ('p, 'tr, 'm) mm_fc \<Rightarrow> (('h anchor_watch \<times> ('p, 'tr, 'm) mm_fc) \<times> ('be scan_error + watch_event list)) option" where
  "aw_retry_pending V L blocks tip aegis now w mf =
     map_option (\<lambda>((w', mf', evs), r). ((w', mf'), bind_r r (\<lambda>_. Inr evs)))
       (retry_inner V L blocks \<lparr> ap_follower_tip_height = tip, ap_now_ms = now, ap_aegis = aegis \<rparr> (w, mf, []))"

definition settled_is_final :: "('p, 'tr, 'm) mm_fc \<Rightarrow> follower \<Rightarrow> bytes \<Rightarrow> nat \<Rightarrow> bool option" where
  "settled_is_final mf f aegis_id l_final =
     (case settled_reference f of None \<Rightarrow> Some False | Some settled \<Rightarrow> is_final mf aegis_id l_final (sr_height settled))"


section \<open>What a pass does to the fork choice\<close>

text \<open>
  An event of verified origin: a share the verifier accepted, an anchor at the height of the header that carries such
  a share, a body whose id is that of such a share.
\<close>

definition share_verified :: "('h, 't) ext \<Rightarrow> 'm wire \<Rightarrow> valid_share \<Rightarrow> bool" where
  "share_verified E W share \<longleftrightarrow> (\<exists>eh f bp header ctx. ct_verify_share E W eh f bp header ctx = Inr share)"

definition verified_event :: "('h, 't, 'w, 'p, 'tr, 'pr, 'm) ct_env \<Rightarrow> 'm mm_event \<Rightarrow> bool" where
  "verified_event V ev = (case ev of
       EvShare share _ \<Rightarrow> share_verified (ce_ext V) (ce_wire V) share
     | EvBody b _ \<Rightarrow> \<exists>share. share_verified (ce_ext V) (ce_wire V) share \<and> vs_aegis_id share = ct_block_id (ce_ext V) (ce_wire V) b
     | EvAnchor i h \<Rightarrow> \<exists>share. share_verified (ce_ext V) (ce_wire V) share \<and> vs_aegis_id share = i \<and> vs_ergo_height share = h)"

definition fed :: "('h, 't, 'w, 'p, 'tr, 'pr, 'm) ct_env \<Rightarrow> nat \<Rightarrow> ('p, 'tr, 'm) mm_fc \<Rightarrow> ('p, 'tr, 'm) mm_fc \<Rightarrow> bool" where
  "fed V k mf mf' \<longleftrightarrow> (\<exists>evs. mm_run V mf evs = Some mf' \<and> list_all (verified_event V) evs \<and> list_all event_clock_ok evs \<and> length evs \<le> k)"

lemma mm_run_append: "mm_run V mf (xs @ ys) = Option.bind (mm_run V mf xs) (\<lambda>m. mm_run V m ys)"
  by (induction xs arbitrary: mf) (simp_all add: bind_assoc flip: bind_assoc)

lemma fed_refl [simp]: "fed V k mf mf"
  unfolding fed_def by (rule exI [of _ "[]"]) simp

lemma fed_trans: "fed V k a b \<Longrightarrow> fed V l b c \<Longrightarrow> fed V (k + l) a c"
  unfolding fed_def by (elim exE, rename_tac xs ys, rule_tac x = "xs @ ys" in exI) (simp add: mm_run_append)

lemma fed_mono: "fed V k a b \<Longrightarrow> k \<le> l \<Longrightarrow> fed V l a b"
  unfolding fed_def by (meson order_trans)

lemma fed_inv: "mm_inv V N a \<Longrightarrow> fed V k a b \<Longrightarrow> N + k < 2 ^ 64 \<Longrightarrow> mm_inv V (N + k) b"
proof -
  assume inv: "mm_inv V N a" and "fed V k a b" and N: "N + k < 2 ^ 64"
  then obtain evs where evs: "mm_run V a evs = Some b" "list_all event_clock_ok evs" "length evs \<le> k" by (auto simp: fed_def)
  with N have "N + length evs < 2 ^ 64" by simp
  from mm_run_ok [OF inv evs(2) this] evs(1) have "mm_inv V (N + length evs) b" by auto
  then show ?thesis using mm_core_mono [of V "N + length evs" b "N + k"] evs(3) N by (simp add: mm_inv_def)
qed

lemma fed_step: "mm_step V a ev = Some b \<Longrightarrow> verified_event V ev \<Longrightarrow> event_clock_ok ev \<Longrightarrow> fed V 1 a b"
  unfolding fed_def by (rule exI [of _ "[ev]"]) simp

lemma daa_view_total:
  assumes "mm_core V N mf"
  obtains view where "mm_daa_view mf i = Some view" and "view = None \<longleftrightarrow> map_of (mf_nodes mf) i = None"
proof (cases "map_of (mf_nodes mf) i")
  case None
  then show ?thesis using that [of None] by (simp add: mm_daa_view_def has_key_def)
next
  case (Some n)
  obtain ps where p: "node_path (mf_nodes mf) (mf_genesis mf) i ps" "mm_path (mf_nodes mf) i = Some ps"
    using mm_path_ex [OF mm_core_shape [OF assms], of i] Some by auto
  let ?at = "\<lambda>i. map_option (\<lambda>n. (th_timestamp_ms (tb_header (bn_block n)), th_sc_nbits (tb_header (bn_block n)))) (map_of (mf_nodes mf) i)"
  have "those (map ?at ps) \<noteq> None"
    using node_path_known [OF p(1)] by (induction ps) (auto split: option.splits)
  then show ?thesis using that p(2) Some by (auto simp: mm_daa_view_def has_key_def)
qed

lemma daa_never_panics: "next_nbits E (daa_for_network E net) view \<noteq> None"
  using next_nbits_bounded [of "daa_for_network E net" E view]
  by (auto simp: daa_for_network_def net_params_of_def main_params_def dogfood_base_def split: network.splits)

lemma verify_share_no_panic:
  "sc_daa ctx = daa_for_network E net \<Longrightarrow> ct_verify_share E W eh f bp header ctx \<noteq> Inl SePanic"
  using daa_never_panics [of E net "sc_daa_view ctx"]
  by (auto simp: ct_verify_share_def check_window_def check_field_def Let_def bind_r_def ok_or_def split: option.splits sum.splits if_splits)

lemma verify_share_id: "ct_verify_share E W eh f bp header ctx = Inr share \<Longrightarrow> vs_aegis_id share = ct_header_id E W header"
  by (auto simp: ct_verify_share_def Let_def result_simps split: if_splits)

lemma feed_verified_ok:
  assumes inv: "mm_inv V N mf" and now: "unat (ap_now_ms p) + 120000 < 2 ^ 64" and N: "N + 3 < 2 ^ 64"
    and share: "share_verified (ce_ext V) (ce_wire V) share"
    and block: "\<And>b. block = Some b \<Longrightarrow> vs_aegis_id share = ct_block_id (ce_ext V) (ce_wire V) b"
  obtains mf' si bi where "feed_verified V p item share block mf = Some (mf', si, bi)" and "fed V 3 mf mf'"
proof -
  obtain mf1 si where s: "ingest_share V mf share (ap_now_ms p) = Some (mf1, si)" and i1: "mm_inv V N mf1"
    using ingest_share_ok [OF inv now] by metis
  have f1: "fed V 1 mf mf1"
    by (rule fed_step [where ev = "EvShare share (ap_now_ms p)"])
      (use s share now in \<open>simp_all add: mm_step_def verified_event_def event_clock_ok_def\<close>)
  define mf2 where "mf2 = (if ur_on_best_chain item then record_anchor mf1 (vs_aegis_id share) (vs_ergo_height share) else mf1)"
  have f2: "fed V 1 mf1 mf2"
  proof (cases "ur_on_best_chain item")
    case True
    show ?thesis
      by (rule fed_step [where ev = "EvAnchor (vs_aegis_id share) (vs_ergo_height share)"])
        (use True share in \<open>auto simp: mf2_def mm_step_def verified_event_def event_clock_ok_def\<close>)
  qed (simp add: mf2_def)
  have f12: "fed V 2 mf mf2" by (rule fed_mono [OF fed_trans [OF f1 f2]]) simp
  show ?thesis
  proof (cases block)
    case None
    then show ?thesis using that [of mf2 si None] s fed_mono [OF f12, of 3] by (simp add: feed_verified_def mf2_def)
  next
    case (Some b)
    have i2: "mm_inv V (N + 2) mf2" using fed_inv [OF inv f12] N by simp
    have N3: "Suc (N + 2) < 2 ^ 64" using N by simp
    obtain mf3 bi where b: "ingest_body V mf2 b (ap_now_ms p) = Some (mf3, bi)" by (rule ingest_body_ok [OF i2 now N3])
    have "fed V 1 mf2 mf3"
      by (rule fed_step [where ev = "EvBody b (ap_now_ms p)"])
        (use b share block [OF Some] now in \<open>auto simp: mm_step_def verified_event_def event_clock_ok_def\<close>)
    from fed_trans [OF f12 this] have "fed V 3 mf mf3" by (rule fed_mono) simp
    then show ?thesis
      using that [of mf3 si "Some bi"] s b Some by (simp add: feed_verified_def flip: mf2_def)
  qed
qed

text \<open>The state of a watcher on a network, with a bound on what its buffers hold.\<close>

definition held :: "'h anchor_watch \<Rightarrow> nat" where
  "held w = length (aw_unscanned w) + length (aw_unresolved w)"

definition configured :: "('h, 't) ext \<Rightarrow> network \<Rightarrow> 'h anchor_watch \<Rightarrow> bool" where
  "configured E net w \<longleftrightarrow> aw_daa w = daa_for_network E net"

lemma resolve_and_feed_ok:
  assumes inv: "mm_inv V N mf" and now: "unat (ap_now_ms p) + 120000 < 2 ^ 64" and N: "N + 3 < 2 ^ 64"
    and net: "configured (ce_ext V) net w"
  obtains w' mf' evs' where "resolve_and_feed V p announce item (w, mf, evs) = Some (w', mf', evs')" and "fed V 3 mf mf'"
    and "configured (ce_ext V) net w'" and "held w' \<le> Suc (held w)"
proof -
  let ?id = "cm_aegis_id (ur_commitment item)" and ?h = "x_h_height (ce_ext V) (ur_ergo_header item)"
  have hold: "\<exists>w' evs'. hold_unresolved announce reason item ?h (w, mf, evs) = (w', mf, evs') \<and> configured (ce_ext V) net w'
      \<and> held w' \<le> Suc (held w)" for reason
    using net by (simp add: hold_unresolved_def configured_def held_def)
  define found where "found = (case ap_aegis p ?id of LkUnknown \<Rightarrow> None | LkHeaderOnly h \<Rightarrow> Some (h, None) | LkFull b \<Rightarrow> Some (tb_header b, Some b))"
  show ?thesis
  proof (cases found)
    case None
    with hold [of UrUnknownAegisBlock] show ?thesis
      by (elim exE conjE, intro that) (auto simp: resolve_and_feed_def Let_def simp flip: found_def)
  next
    case (Some hb)
    obtain header block where hb: "found = Some (header, block)" using Some by (cases hb) auto
    have hdr: "tb_header b = header" if "block = Some b" for b
      using hb that by (auto simp: found_def split: aegis_lookup.splits)
    obtain view where view: "mm_daa_view mf (th_prev_id header) = Some view"
      using daa_view_total [of V N mf "th_prev_id header"] inv by (auto simp: mm_inv_def)
    show ?thesis
    proof (cases view)
      case None
      with hold [of UrParentNotValidated] view hb show ?thesis
        by (elim exE conjE, intro that) (auto simp: resolve_and_feed_def Let_def simp flip: found_def)
    next
      case (Some v)
      define r where "r = ct_verify_share (ce_ext V) (ce_wire V) (ur_ergo_header item) (cm_field (ur_commitment item))
          (cm_proof (ur_commitment item)) header
          \<lparr> sc_follower_tip_height = ap_follower_tip_height p, sc_k_lag = aw_k_lag w, sc_daa = aw_daa w, sc_daa_view = v \<rparr>"
      have eq: "resolve_and_feed V p announce item (w, mf, evs) = (case r of
            Inr share \<Rightarrow> map_option (\<lambda>(mf', si, bi). (w, mf', evs @ [WvVerified ?id ?h si bi (ur_on_best_chain item)]))
                    (feed_verified V p item share block mf)
          | Inl e \<Rightarrow> if e = SePanic then None else Some (w, mf, evs @ [WvRejected ?id ?h e]))"
        using view Some hb by (simp add: resolve_and_feed_def Let_def r_def flip: found_def)
      have np: "r \<noteq> Inl SePanic" unfolding r_def by (rule verify_share_no_panic) (use net in \<open>simp add: configured_def\<close>)
      show ?thesis
      proof (cases r)
        case (Inl e)
        then show ?thesis using that [of w mf] eq np net by simp
      next
        case (Inr share)
        have sv: "share_verified (ce_ext V) (ce_wire V) share" using Inr unfolding share_verified_def r_def by blast
        have "vs_aegis_id share = ct_header_id (ce_ext V) (ce_wire V) header" using Inr unfolding r_def by (rule verify_share_id)
        then have "vs_aegis_id share = ct_block_id (ce_ext V) (ce_wire V) b" if "block = Some b" for b
          using hdr [OF that] by (simp add: ct_block_id_def)
        from feed_verified_ok [OF inv now N sv this] obtain mf' si bi where
          f: "feed_verified V p item share block mf = Some (mf', si, bi)" "fed V 3 mf mf'" .
        then show ?thesis using that eq Inr net by simp
      qed
    qed
  qed
qed

lemma scan_one_ok:
  assumes inv: "mm_inv V N mf" and now: "unat (ap_now_ms p) + 120000 < 2 ^ 64" and N: "N + 3 < 2 ^ 64"
    and net: "configured (ce_ext V) net w"
  obtains w' mf' evs' r where "scan_one V L blocks p h on_best (w, mf, evs) = Some ((w', mf', evs'), r)" and "fed V 3 mf mf'"
    and "configured (ce_ext V) net w'" and "held w' \<le> Suc (held w)"
proof -
  have b: "configured (ce_ext V) net (buffer_unscanned h on_best w)" "held (buffer_unscanned h on_best w) \<le> Suc (held w)"
    using net by (simp_all add: configured_def held_def buffer_unscanned_def)
  show ?thesis
  proof (cases "el_serialize_header (ce_ergo V) h")
    case None
    then show ?thesis using that [of w mf] net by (simp add: scan_one_def)
  next
    case (Some bi)
    show ?thesis
    proof (cases "blocks (snd bi)")
      case (Inl e)
      then show ?thesis using that [of "buffer_unscanned h on_best w" mf] b Some by (simp add: scan_one_def split_beta)
    next
      case (Inr kvs)
      show ?thesis
      proof (cases "extract_commitment (ce_ext V) L h kvs")
        case (Inl e)
        then show ?thesis using that [of "buffer_unscanned h on_best w" mf] b Some Inr by (simp add: scan_one_def split_beta)
      next
        case x: (Inr x)
        show ?thesis
        proof (cases x)
          case (XtCommitment c)
          let ?item = "\<lparr> ur_ergo_header = h, ur_commitment = c, ur_on_best_chain = on_best \<rparr>"
          obtain w' mf' evs' where "resolve_and_feed V p True ?item (w, mf, evs) = Some (w', mf', evs')" "fed V 3 mf mf'"
            "configured (ce_ext V) net w'" "held w' \<le> Suc (held w)" by (rule resolve_and_feed_ok [OF inv now N net])
          then show ?thesis using that XtCommitment x Some Inr by (simp add: scan_one_def split_beta)
        qed (use that [of w mf] net x Some Inr in \<open>simp_all add: scan_one_def split_beta\<close>)
      qed
    qed
  qed
qed


lemma retry_unresolved_ok:
  assumes now: "unat (ap_now_ms p) + 120000 < 2 ^ 64"
  shows "mm_inv V N mf \<Longrightarrow> N + 3 * length us < 2 ^ 64 \<Longrightarrow> configured (ce_ext V) net w \<Longrightarrow>
    \<exists>w' mf' evs'. retry_unresolved V p us (w, mf, evs) = Some (w', mf', evs') \<and> fed V (3 * length us) mf mf'
      \<and> configured (ce_ext V) net w' \<and> held w' \<le> held w + length us"
proof (induction us arbitrary: N mf w evs)
  case (Cons u us)
  have N: "N + 3 < 2 ^ 64" using Cons.prems(2) by simp
  obtain w1 mf1 evs1 where st: "resolve_and_feed V p False u (w, mf, evs) = Some (w1, mf1, evs1)" and f: "fed V 3 mf mf1"
    and net: "configured (ce_ext V) net w1" and h: "held w1 \<le> Suc (held w)"
    by (rule resolve_and_feed_ok [OF Cons.prems(1) now N Cons.prems(3)])
  have "mm_inv V (N + 3) mf1" using fed_inv [OF Cons.prems(1) f N] .
  from Cons.IH [OF this _ net] Cons.prems(2) obtain w' mf' evs' where "retry_unresolved V p us (w1, mf1, evs1) = Some (w', mf', evs')"
    and f': "fed V (3 * length us) mf1 mf'" and "configured (ce_ext V) net w'" "held w' \<le> held w1 + length us" by fastforce
  with st h fed_trans [OF f f'] show ?case by (auto simp: algebra_simps)
qed simp

lemma retry_unscanned_ok:
  assumes now: "unat (ap_now_ms p) + 120000 < 2 ^ 64"
  shows "mm_inv V N mf \<Longrightarrow> N + 3 * length us < 2 ^ 64 \<Longrightarrow> configured (ce_ext V) net w \<Longrightarrow>
    \<exists>w' mf' evs' r. retry_unscanned V L blocks p us (w, mf, evs) = Some ((w', mf', evs'), r) \<and> fed V (3 * length us) mf mf'
      \<and> configured (ce_ext V) net w' \<and> held w' \<le> held w + length us"
proof (induction us arbitrary: N mf w evs)
  case (Cons u us)
  have N: "N + 3 < 2 ^ 64" using Cons.prems(2) by simp
  obtain w1 mf1 evs1 r where st: "scan_one V L blocks p (us_header u) (us_on_best_chain u) (w, mf, evs) = Some ((w1, mf1, evs1), r)"
    and f: "fed V 3 mf mf1" and net: "configured (ce_ext V) net w1" and h: "held w1 \<le> Suc (held w)"
    by (rule scan_one_ok [OF Cons.prems(1) now N Cons.prems(3)])
  show ?case
  proof (cases r)
    case (Inl e)
    let ?w2 = "w1 \<lparr> aw_unscanned := aw_unscanned w1 @ us \<rparr>"
    have "configured (ce_ext V) net ?w2" "held ?w2 \<le> held w + length (u # us)" using net h by (simp_all add: configured_def held_def)
    then show ?thesis using st Inl fed_mono [OF f, of "3 * length (u # us)"] by simp
  next
    case (Inr x)
    have "mm_inv V (N + 3) mf1" using fed_inv [OF Cons.prems(1) f N] .
    from Cons.IH [OF this _ net] Cons.prems(2) obtain w' mf' evs' r' where
      "retry_unscanned V L blocks p us (w1, mf1, evs1) = Some ((w', mf', evs'), r')"
      and f': "fed V (3 * length us) mf1 mf'" and "configured (ce_ext V) net w'" "held w' \<le> held w1 + length us" by fastforce
    with st h Inr fed_trans [OF f f'] show ?thesis by (auto simp: algebra_simps)
  qed
qed simp

lemma expire_facts:
  "expire E low w = (w1, evs) \<Longrightarrow> held w1 \<le> held w \<and> configured E net w1 = configured E net w
     \<and> aw_k_lag w1 = aw_k_lag w \<and> aw_start_height w1 = aw_start_height w
     \<and> aw_unscanned w1 = filter (\<lambda>u. low \<le> x_h_height E (us_header u)) (aw_unscanned w)"
  by (auto simp: expire_def Let_def held_def configured_def intro: add_mono)

text \<open>A retry pass handles every header once and every commitment at most twice.\<close>

lemma retry_inner_ok:
  assumes inv: "mm_inv V N mf" and now: "unat (ap_now_ms p) + 120000 < 2 ^ 64" and N: "N + 6 * held w < 2 ^ 64"
    and net: "configured (ce_ext V) net w"
  shows "\<exists>w' mf' evs' r. retry_inner V L blocks p (w, mf, evs) = Some ((w', mf', evs'), r) \<and> fed V (6 * held w) mf mf'
      \<and> configured (ce_ext V) net w' \<and> held w' \<le> held w"
proof -
  obtain w1 expired where e: "expire (ce_ext V) (saturating_sub (ap_follower_tip_height p) (aw_k_lag w)) w = (w1, expired)" by fastforce
  note ef = expire_facts [OF e, of net]
  let ?us = "aw_unscanned w1" and ?w1 = "w1 \<lparr> aw_unscanned := [] \<rparr>"
  have net1: "configured (ce_ext V) net ?w1" using ef net by (simp add: configured_def)
  have us: "length ?us \<le> held w" using ef unfolding held_def by linarith
  from N us have N1: "N + 3 * length ?us < 2 ^ 64" by simp
  obtain w2 mf2 evs2 r where st: "retry_unscanned V L blocks p ?us (?w1, mf, evs @ expired) = Some ((w2, mf2, evs2), r)"
    and f: "fed V (3 * length ?us) mf mf2" and net2: "configured (ce_ext V) net w2" and h2: "held w2 \<le> held ?w1 + length ?us"
    using retry_unscanned_ok [OF now inv N1 net1] by blast
  have "held ?w1 + length ?us = held w1" by (simp add: held_def)
  with h2 ef have h2': "held w2 \<le> held w" by linarith
  have f2: "fed V (3 * held w) mf mf2" using fed_mono [OF f] us by simp
  show ?thesis
  proof (cases r)
    case (Inl err)
    then show ?thesis using e st net2 h2' fed_mono [OF f2, of "6 * held w"] by (simp add: retry_inner_def)
  next
    case (Inr x)
    let ?rs = "aw_unresolved w2" and ?w2 = "w2 \<lparr> aw_unresolved := [] \<rparr>"
    have rs: "length ?rs \<le> held w" using h2' by (simp add: held_def)
    have i2: "mm_inv V (N + 3 * held w) mf2" by (rule fed_inv [OF inv f2]) (use N in simp)
    have N2: "N + 3 * held w + 3 * length ?rs < 2 ^ 64" using N rs by simp
    have net2': "configured (ce_ext V) net ?w2" using net2 by (simp add: configured_def)
    obtain w3 mf3 evs3 where st3: "retry_unresolved V p ?rs (?w2, mf2, evs2) = Some (w3, mf3, evs3)"
      and f3: "fed V (3 * length ?rs) mf2 mf3" and net3: "configured (ce_ext V) net w3" and h3: "held w3 \<le> held ?w2 + length ?rs"
      using retry_unresolved_ok [OF now i2 N2 net2'] by blast
    have "fed V (6 * held w) mf mf3" by (rule fed_mono [OF fed_trans [OF f2 f3]]) (use rs in simp)
    moreover have "held w3 \<le> held w" using h3 h2' by (simp add: held_def)
    ultimately show ?thesis using e st st3 Inr net3 by (simp add: retry_inner_def)
  qed
qed

lemma put_key_nonempty: "put_key k v m \<noteq> []"
  by (induction k v m rule: put_key.induct) simp_all

lemma apply_header_nonempty:
  "apply_header E X f h = Some (Inr (f', out)) \<Longrightarrow> out \<noteq> IgDuplicate \<Longrightarrow> fo_headers f' \<noteq> []"
  by (auto simp: apply_header_def apply_verified_header_def choose_tip_def Let_def bind_eq_Some_conv put_key_nonempty
      split: if_splits option.splits sum.splits)

lemma watch_batch_ok:
  assumes now: "unat now + 120000 < 2 ^ 64"
  shows "mm_inv V N mf \<Longrightarrow> N + 3 * length hs < 2 ^ 64 \<Longrightarrow> configured (ce_ext V) net w \<Longrightarrow> follower_inv f \<Longrightarrow>
    \<exists>f' w' mf' evs' r. watch_batch V L blocks aegis now hs f (w, mf, evs) = Some ((f', (w', mf', evs')), r :: ('he, 'be) watch_error + unit)
      \<and> fed V (3 * length hs) mf mf' \<and> configured (ce_ext V) net w' \<and> held w' \<le> held w + length hs \<and> follower_inv f'"
proof (induction hs arbitrary: N mf w evs f)
  case (Cons h hs)
  show ?case
  proof (rule apply_header_inv [OF Cons.prems(4), of "ce_ext V" "ce_ergo V" h])
    fix e assume "apply_header (ce_ext V) (ce_ergo V) f h = Some (Inl e)"
    then show ?thesis using Cons.prems by simp
  next
    fix f1 out assume a: "apply_header (ce_ext V) (ce_ergo V) f h = Some (Inr (f1, out))" and i: "follower_inv f1"
    show ?thesis
    proof (cases "out = IgDuplicate")
      case True
      from Cons.IH [OF Cons.prems(1) _ Cons.prems(3) i] Cons.prems(2) obtain f' w' mf' evs' and r :: "('he, 'be) watch_error + unit" where
        "watch_batch V L blocks aegis now hs f1 (w, mf, evs) = Some ((f', (w', mf', evs')), r)" and f': "fed V (3 * length hs) mf mf'"
        "configured (ce_ext V) net w'" "held w' \<le> held w + length hs" "follower_inv f'" by fastforce
      then show ?thesis using a True fed_mono [OF f'(1), of "3 * length (h # hs)"] by simp
    next
      case False
      obtain tip where tip: "fo_tip_height f1 = Some tip"
        using follower_inv_tip [OF i apply_header_nonempty [OF a False]] by (auto simp: fo_tip_height_def)
      let ?p = "\<lparr> ap_follower_tip_height = tip, ap_now_ms = now, ap_aegis = aegis \<rparr>"
      have N: "N + 3 < 2 ^ 64" and now': "unat (ap_now_ms ?p) + 120000 < 2 ^ 64" using Cons.prems(2) now by simp_all
      obtain w1 mf1 evs1 and r :: "'be scan_error + unit" where
        st: "scan_one V L blocks ?p h (out \<noteq> IgSideBranch) (w, mf, evs) = Some ((w1, mf1, evs1), r)"
        and f: "fed V 3 mf mf1" and net: "configured (ce_ext V) net w1" and h: "held w1 \<le> Suc (held w)"
        by (rule scan_one_ok [OF Cons.prems(1) now' N Cons.prems(3)])
      show ?thesis
      proof (cases r)
        case (Inl e)
        then show ?thesis using a False tip st i net h fed_mono [OF f, of "3 * length (h # hs)"] by simp
      next
        case (Inr x)
        have "mm_inv V (N + 3) mf1" using fed_inv [OF Cons.prems(1) f N] .
        from Cons.IH [OF this _ net i] Cons.prems(2) obtain f' w' mf' evs' and r' :: "('he, 'be) watch_error + unit" where
          "watch_batch V L blocks aegis now hs f1 (w1, mf1, evs1) = Some ((f', (w', mf', evs')), r')" and f': "fed V (3 * length hs) mf1 mf'"
          "configured (ce_ext V) net w'" "held w' \<le> held w1 + length hs" "follower_inv f'" by fastforce
        with a False tip st Inr h fed_trans [OF f f'(1)] show ?thesis by (simp add: algebra_simps)
      qed
    qed
  qed
qed simp

lemma aw_drive_ok:
  assumes inv: "mm_inv V N mf" and now: "unat now + 120000 < 2 ^ 64" and net: "configured (ce_ext V) net w" and f: "follower_inv f"
    and batch: "\<forall>at hs. headers at = Inr hs \<longrightarrow> length hs \<le> k" and N: "N + 6 * held w + 3 * k < 2 ^ 64"
  shows "\<exists>w' f' mf' r. aw_drive V L headers blocks aegis now w f mf = Some ((w', f', mf'), r :: ('he, 'be) watch_error + watch_event list)
    \<and> fed V (6 * held w + 3 * k) mf mf' \<and> configured (ce_ext V) net w' \<and> held w' \<le> held w + k \<and> follower_inv f'"
proof -
  define first where "first = (case fo_tip_height f of None \<Rightarrow> Some ((w, mf, []), Inr ())
       | Some tip \<Rightarrow> retry_inner V L blocks \<lparr> ap_follower_tip_height = tip, ap_now_ms = now, ap_aegis = aegis \<rparr> (w, mf, []))"
  have "\<exists>w1 mf1 evs1 r. first = Some ((w1, mf1, evs1), r) \<and> fed V (6 * held w) mf mf1 \<and> configured (ce_ext V) net w1 \<and> held w1 \<le> held w"
  proof (cases "fo_tip_height f")
    case (Some tip)
    have now': "unat (ap_now_ms \<lparr> ap_follower_tip_height = tip, ap_now_ms = now, ap_aegis = aegis \<rparr>) + 120000 < 2 ^ 64" using now by simp
    have N': "N + 6 * held w < 2 ^ 64" using N by simp
    from retry_inner_ok [OF inv now' N' net, of L blocks "[]"] show ?thesis using Some by (simp add: first_def)
  qed (use net in \<open>simp add: first_def\<close>)
  then obtain w1 mf1 evs1 r where st: "first = Some ((w1, mf1, evs1), r)" and f1: "fed V (6 * held w) mf mf1"
    and net1: "configured (ce_ext V) net w1" and h1: "held w1 \<le> held w" by blast
  define start where "start = (case fo_tip_height f of None \<Rightarrow> aw_start_height w1 | Some h \<Rightarrow> saturating_add h 1)"
  have eq: "aw_drive V L headers blocks aegis now w f mf = (case r of
          Inl e \<Rightarrow> Some ((w1, f, mf1), Inl (WtScan e))
        | Inr _ \<Rightarrow> (case headers start of
               Inl e \<Rightarrow> Some ((w1, f, mf1), Inl (WtHeaders e))
             | Inr hs \<Rightarrow> map_option (\<lambda>((f', (w', mf', evs')), r'). ((w', f', mf'), bind_r r' (\<lambda>_. Inr evs')))
                   (watch_batch V L blocks aegis now hs f (w1, mf1, evs1))))"
    unfolding aw_drive_def start_def first_def [symmetric] st by simp
  have stop: "fed V (6 * held w + 3 * k) mf mf1" using fed_mono [OF f1] by simp
  show ?thesis
  proof (cases r)
    case (Inl e)
    then show ?thesis using eq stop net1 h1 f by simp
  next
    case (Inr x)
    show ?thesis
    proof (cases "headers start")
      case (Inl e)
      then show ?thesis using eq Inr stop net1 h1 f by simp
    next
      case hs: (Inr hs)
      have k: "length hs \<le> k" using batch hs by blast
      have i1: "mm_inv V (N + 6 * held w) mf1" by (rule fed_inv [OF inv f1]) (use N in simp)
      have N1: "N + 6 * held w + 3 * length hs < 2 ^ 64" using N k by simp
      from watch_batch_ok [OF now i1 N1 net1 f, of L blocks aegis evs1] obtain f' w' mf' evs' and r' :: "('he, 'be) watch_error + unit" where
        b: "watch_batch V L blocks aegis now hs f (w1, mf1, evs1) = Some ((f', (w', mf', evs')), r')"
        and f2: "fed V (3 * length hs) mf1 mf'" and net2: "configured (ce_ext V) net w'" and h2: "held w' \<le> held w1 + length hs"
        and i2: "follower_inv f'" by blast
      have "fed V (6 * held w + 3 * k) mf mf'" by (rule fed_mono [OF fed_trans [OF f1 f2]]) (use k in simp)
      moreover have "held w' \<le> held w + k" using h1 h2 k by simp
      ultimately show ?thesis using eq Inr hs b net2 i2 by simp
    qed
  qed
qed

section \<open>Runs\<close>

text \<open>What the sources of one pass answer, and the clock.\<close>

record ('h, 'he, 'be, 'm) watch_input =
  wi_headers :: "u32 \<Rightarrow> 'he + 'h list"
  wi_blocks :: "bytes \<Rightarrow> 'be + extension_field list"
  wi_aegis :: "bytes \<Rightarrow> 'm aegis_lookup"
  wi_now_ms :: u64

fun watch_run ::
  "('h, 't, 'w, 'p, 'tr, 'pr, 'm) ct_env \<Rightarrow> merkle_lib \<Rightarrow> ('h, 'he, 'be, 'm) watch_input list \<Rightarrow>
     'h anchor_watch \<Rightarrow> follower \<Rightarrow> ('p, 'tr, 'm) mm_fc \<Rightarrow>
     (('h anchor_watch \<times> follower \<times> ('p, 'tr, 'm) mm_fc) \<times> (('he, 'be) watch_error + watch_event list) list) option" where
  "watch_run V L [] w f mf = Some ((w, f, mf), [])"
| "watch_run V L (i # is) w f mf =
     Option.bind (aw_drive V L (wi_headers i) (wi_blocks i) (wi_aegis i) (wi_now_ms i) w f mf) (\<lambda>((w', f', mf'), r).
       map_option (\<lambda>(st, rs). (st, r # rs)) (watch_run V L is w' f' mf'))"

definition input_ok :: "nat \<Rightarrow> ('h, 'he, 'be, 'm) watch_input \<Rightarrow> bool" where
  "input_ok k i \<longleftrightarrow> unat (wi_now_ms i) + 120000 < 2 ^ 64 \<and> (\<forall>start hs. wi_headers i start = Inr hs \<longrightarrow> length hs \<le> k)"

lemma watch_run_ok:
  "mm_inv V N mf \<Longrightarrow> list_all (input_ok k) is \<Longrightarrow> configured (ce_ext V) net w \<Longrightarrow> follower_inv f
    \<Longrightarrow> N + 6 * (length is * held w + k * length is * length is) < 2 ^ 64 \<Longrightarrow>
    \<exists>w' f' mf' rs. watch_run V L is w f mf = Some ((w', f', mf'), rs)
      \<and> fed V (6 * (length is * held w + k * length is * length is)) mf mf' \<and> follower_inv f'"
proof (induction "is" arbitrary: N mf w f)
  case (Cons i js)
  let ?n = "length js"
  from Cons.prems(2) have io: "input_ok k i" and js: "list_all (input_ok k) js" by simp_all
  from io have i: "unat (wi_now_ms i) + 120000 < 2 ^ 64" "\<forall>at hs. wi_headers i at = Inr hs \<longrightarrow> length hs \<le> k"
    by (simp_all add: input_ok_def)
  have total: "6 * held w + 3 * k + 6 * (?n * (held w + k) + k * ?n * ?n) \<le> 6 * (Suc ?n * held w + k * Suc ?n * Suc ?n)"
    by (simp add: algebra_simps)
  have bound: "N + 6 * (Suc ?n * held w + k * Suc ?n * Suc ?n) < 2 ^ 64" using Cons.prems(5) by (simp only: length_Cons)
  have N: "N + 6 * held w + 3 * k < 2 ^ 64" using bound total by linarith
  from aw_drive_ok [where headers = "wi_headers i" and L = L and blocks = "wi_blocks i" and aegis = "wi_aegis i",
      OF Cons.prems(1) i(1) Cons.prems(3,4) i(2) N] obtain w1 f1 mf1 r where
    st: "aw_drive V L (wi_headers i) (wi_blocks i) (wi_aegis i) (wi_now_ms i) w f mf = Some ((w1, f1, mf1), r)"
    and f: "fed V (6 * held w + 3 * k) mf mf1" and net: "configured (ce_ext V) net w1" and h: "held w1 \<le> held w + k" and fi: "follower_inv f1"
    by blast
  have rest: "6 * (?n * held w1 + k * ?n * ?n) \<le> 6 * (?n * (held w + k) + k * ?n * ?n)" using h by simp
  have inv1: "mm_inv V (N + (6 * held w + 3 * k)) mf1" by (rule fed_inv [OF Cons.prems(1) f]) (use N in simp)
  have N1: "N + (6 * held w + 3 * k) + 6 * (?n * held w1 + k * ?n * ?n) < 2 ^ 64"
    using bound total rest by linarith
  from Cons.IH [OF inv1 js net fi N1] obtain w' f' mf' rs where "watch_run V L js w1 f1 mf1 = Some ((w', f', mf'), rs)"
    and f2: "fed V (6 * (?n * held w1 + k * ?n * ?n)) mf1 mf'" and "follower_inv f'" by blast
  moreover have "fed V (6 * (length (i # js) * held w + k * length (i # js) * length (i # js))) mf mf'"
    unfolding length_Cons by (rule fed_mono [OF fed_trans [OF f f2]]) (use total rest in linarith)
  ultimately show ?case using st by simp
qed simp

text \<open>
  The watcher turns Ergo data into work and nothing else: whatever headers, fields and blocks its sources serve, over any
  number of passes it never panics, and what it did to the fork choice is a sequence of shares that the verifier
  accepted, anchors of such shares at the height of the header that carries them, and bodies whose id is the id of such
  a share. So no block without verified work behind its id ever reached the tree, and the canonical tip is the heaviest.
\<close>
theorem watch_feeds_verified_work:
  assumes "tree_append_ok (ce_curve V)" and "list_all (input_ok k) is" and "1 + 6 * (k * length is * length is) < 2 ^ 64"
  shows "\<exists>w f mf rs evs c. watch_run V L is (aw_new (ce_ext V) net start_height) (follower_new n_mint) (mm_new V net pow pf) = Some ((w, f, mf), rs)
    \<and> mm_run V (mm_new V net pow pf) evs = Some mf \<and> list_all (verified_event V) evs
    \<and> mm_cumulative_work mf (mf_canonical mf) = Some c \<and> (\<forall>i c'. mm_cumulative_work mf i = Some c' \<longrightarrow> c' \<le> c)"
proof -
  let ?w = "aw_new (ce_ext V) net start_height" and ?mf = "mm_new V net pow pf"
  have net: "configured (ce_ext V) net ?w" and h: "held ?w = 0" by (simp_all add: configured_def aw_new_def held_def)
  have N: "1 + 6 * (length is * held ?w + k * length is * length is) < 2 ^ 64" using assms(3) h by simp
  from watch_run_ok [OF mm_inv_new [OF assms(1)] assms(2) net follower_inv_new(1) N] obtain w f mf rs where
    run: "watch_run V L is ?w (follower_new n_mint) ?mf = Some ((w, f, mf), rs)"
    and fd: "fed V (6 * (length is * held ?w + k * length is * length is)) ?mf mf" by blast
  from fed_inv [OF mm_inv_new [OF assms(1)] fd N] have best: "tree_best (mf_nodes mf) (mf_canonical mf)" by (simp add: mm_inv_def)
  then obtain n where n: "map_of (mf_nodes mf) (mf_canonical mf) = Some n" by (auto simp: tree_best_def)
  have "c' \<le> bn_cum n" if "mm_cumulative_work mf i = Some c'" for i c'
    using tree_best_heaviest [OF best, of i] that n by (auto simp: mm_cumulative_work_def tree_cum_def)
  with run fd n show ?thesis unfolding fed_def by (fastforce simp: mm_cumulative_work_def)
qed

section \<open>Where a pass gets stuck\<close>

lemma resolve_and_feed_keeps:
  "resolve_and_feed V p announce item (w, mf, evs) = Some (w', mf', evs') \<Longrightarrow>
     aw_unscanned w' = aw_unscanned w \<and> aw_k_lag w' = aw_k_lag w"
proof -
  assume a: "resolve_and_feed V p announce item (w, mf, evs) = Some (w', mf', evs')"
  let ?h = "x_h_height (ce_ext V) (ur_ergo_header item)"
  define found where "found = (case ap_aegis p (cm_aegis_id (ur_commitment item)) of
      LkUnknown \<Rightarrow> None | LkHeaderOnly h \<Rightarrow> Some (h, None) | LkFull b \<Rightarrow> Some (tb_header b, Some b))"
  have hold: "hold_unresolved announce reason item ?h (w, mf, evs) = (w', mf', evs') \<Longrightarrow>
      aw_unscanned w' = aw_unscanned w \<and> aw_k_lag w' = aw_k_lag w" for reason
    by (auto simp: hold_unresolved_def)
  show ?thesis
  proof (cases found)
    case None
    then show ?thesis using a hold by (simp add: resolve_and_feed_def Let_def flip: found_def)
  next
    case (Some hb)
    with a obtain view where "mm_daa_view mf (th_prev_id (fst hb)) = Some view"
      by (auto simp: resolve_and_feed_def Let_def bind_eq_Some_conv split_beta simp flip: found_def)
    with a Some hold show ?thesis
      by (cases view) (auto simp: resolve_and_feed_def Let_def split_beta simp flip: found_def split: sum.splits if_splits)
  qed
qed

lemma scan_one_keeps:
  "scan_one V L blocks p h on_best (w, mf, evs) = Some ((w', mf', evs'), r) \<Longrightarrow>
     set (aw_unscanned w) \<subseteq> set (aw_unscanned w') \<and> aw_k_lag w' = aw_k_lag w"
  by (auto simp: scan_one_def buffer_unscanned_def Let_def dest!: resolve_and_feed_keeps
      split: option.splits sum.splits prod.splits extracted.splits)

definition unserved :: "('h, 't, 'w) ergo_lib \<Rightarrow> (bytes \<Rightarrow> 'be + extension_field list) \<Rightarrow> 'h \<Rightarrow> bool" where
  "unserved X blocks h \<longleftrightarrow> (\<exists>hb ident e. el_serialize_header X h = Some (hb, ident) \<and> blocks ident = Inl e)"

lemma retry_unscanned_stuck:
  assumes u: "unserved (ce_ergo V) blocks (us_header u)"
  shows "retry_unscanned V L blocks p us (w, mf, evs) = Some ((w', mf', evs'), r) \<Longrightarrow> u \<in> set us \<Longrightarrow>
    u \<in> set (aw_unscanned w') \<and> aw_k_lag w' = aw_k_lag w \<and> (\<exists>e. r = Inl e)"
proof (induction us arbitrary: w mf evs)
  case (Cons x us)
  from Cons.prems(1) obtain w1 mf1 evs1 r1 where
    st: "scan_one V L blocks p (us_header x) (us_on_best_chain x) (w, mf, evs) = Some ((w1, mf1, evs1), r1)"
    by (auto simp: bind_eq_Some_conv)
  note keep = scan_one_keeps [OF st]
  show ?case
  proof (cases "x = u")
    case True
    with st u have "w1 = buffer_unscanned (us_header u) (us_on_best_chain u) w" "\<exists>e. r1 = Inl e"
      by (auto simp: scan_one_def unserved_def)
    then show ?thesis using Cons.prems(1) st keep by (auto simp: buffer_unscanned_def)
  next
    case False
    then have u': "u \<in> set us" using Cons.prems(2) by simp
    show ?thesis
    proof (cases r1)
      case (Inl e)
      then show ?thesis using Cons.prems(1) st keep u' by auto
    next
      case (Inr y)
      then have "retry_unscanned V L blocks p us (w1, mf1, evs1) = Some ((w', mf', evs'), r)" using Cons.prems(1) st by simp
      from Cons.IH [OF this u'] keep show ?thesis by simp
    qed
  qed
qed simp

lemma aw_drive_stuck:
  assumes u: "unserved (ce_ergo V) blocks (us_header u)" "u \<in> set (aw_unscanned w)" and tip: "fo_tip_height f = Some tip"
    and window: "saturating_sub tip (aw_k_lag w) \<le> x_h_height (ce_ext V) (us_header u)"
    and st: "aw_drive V L headers blocks aegis now w f mf = Some ((w', f', mf'), r)"
  shows "f' = f \<and> u \<in> set (aw_unscanned w') \<and> aw_k_lag w' = aw_k_lag w \<and> (\<exists>e. r = Inl (WtScan e))"
proof -
  let ?p = "\<lparr> ap_follower_tip_height = tip, ap_now_ms = now, ap_aegis = aegis \<rparr>"
  obtain w0 expired where e: "expire (ce_ext V) (saturating_sub tip (aw_k_lag w)) w = (w0, expired)" by fastforce
  have u0: "u \<in> set (aw_unscanned w0)" and k0: "aw_k_lag w0 = aw_k_lag w" using expire_facts [OF e] u(2) window by auto
  obtain w1 mf1 evs1 s where ri: "retry_inner V L blocks ?p (w, mf, []) = Some ((w1, mf1, evs1), s)"
    using st by (auto simp: aw_drive_def tip bind_eq_Some_conv)
  obtain w2 mf2 evs2 s2 where ru: "retry_unscanned V L blocks ?p (aw_unscanned w0) (w0 \<lparr> aw_unscanned := [] \<rparr>, mf, expired) = Some ((w2, mf2, evs2), s2)"
    using ri e by (auto simp: retry_inner_def bind_eq_Some_conv)
  from retry_unscanned_stuck [OF u(1) ru u0] obtain err where s2: "s2 = Inl err" and k: "u \<in> set (aw_unscanned w2)" "aw_k_lag w2 = aw_k_lag w"
    using k0 by auto
  from ri e ru s2 have "w1 = w2" "s = Inl err" by (auto simp: retry_inner_def)
  then show ?thesis using st ri k by (auto simp: aw_drive_def tip)
qed

text \<open>
  One header whose extension the block source cannot serve stops the watcher for ever: every pass fails at the retry,
  before it asks for new headers, so the follower's tip never moves, and the window that would expire the header does not
  move either. It does not matter what the sources serve otherwise.
\<close>
theorem unserved_header_stalls_watch:
  assumes "u \<in> set (aw_unscanned w)" and "fo_tip_height f = Some tip"
    and "saturating_sub tip (aw_k_lag w) \<le> x_h_height (ce_ext V) (us_header u)"
    and "\<forall>i \<in> set is. unserved (ce_ergo V) (wi_blocks i) (us_header u)"
    and "watch_run V L is w f mf = Some ((w', f', mf'), rs)"
  shows "f' = f \<and> u \<in> set (aw_unscanned w') \<and> (\<forall>r \<in> set rs. \<exists>e. r = Inl (WtScan e))"
  using assms
proof (induction "is" arbitrary: w mf rs)
  case (Cons i js)
  from Cons.prems(5) obtain w1 f1 mf1 r rs1 where
    st: "aw_drive V L (wi_headers i) (wi_blocks i) (wi_aegis i) (wi_now_ms i) w f mf = Some ((w1, f1, mf1), r)"
    and rest: "watch_run V L js w1 f1 mf1 = Some ((w', f', mf'), rs1)" and rs: "rs = r # rs1"
    by (auto simp: bind_eq_Some_conv)
  have u: "unserved (ce_ergo V) (wi_blocks i) (us_header u)" "\<forall>i \<in> set js. unserved (ce_ergo V) (wi_blocks i) (us_header u)"
    using Cons.prems(4) by simp_all
  note one = aw_drive_stuck [OF u(1) Cons.prems(1-3) st]
  with rest have "watch_run V L js w1 f mf1 = Some ((w', f', mf'), rs1)" by simp
  from Cons.IH [OF _ Cons.prems(2) _ u(2) this] one Cons.prems(3) show ?case by (simp add: rs)
qed simp

definition orphan_batch :: "('h, 't) ext \<Rightarrow> ('h, 't, 'w) ergo_lib \<Rightarrow> follower \<Rightarrow> ('he + 'h list) \<Rightarrow> bool" where
  "orphan_batch E X f r \<longleftrightarrow> (case r of Inl _ \<Rightarrow> True
     | Inr [] \<Rightarrow> False
     | Inr (h # _) \<Rightarrow> el_pow_ok X h \<and> (\<exists>hb ident. el_serialize_header X h = Some (hb, ident) \<and> map_of (fo_headers f) ident = None)
         \<and> fo_headers f \<noteq> [] \<and> map_of (fo_headers f) (x_h_parent_id E h) = None)"

text \<open>
  The watcher asks its source for headers above the followed tip only. After a reorganisation of the Ergo chain below or
  at that height the first of them has a parent the follower does not know, so every pass from then on fails as long as the
  source's chain does not come back to the old branch: the follower and the finality it judges stand still.
\<close>
theorem ergo_reorg_stalls_watch:
  assumes "fo_tip_height f = Some tip"
    and "\<forall>i \<in> set is. orphan_batch (ce_ext V) (ce_ergo V) f (wi_headers i (saturating_add tip 1))"
    and "watch_run V L is w f mf = Some ((w', f', mf'), rs)"
  shows "f' = f \<and> (\<forall>r \<in> set rs. \<exists>e. r = Inl e)"
  using assms
proof (induction "is" arbitrary: w mf rs)
  case (Cons i js)
  from Cons.prems(3) obtain w1 f1 mf1 r rs1 where
    st: "aw_drive V L (wi_headers i) (wi_blocks i) (wi_aegis i) (wi_now_ms i) w f mf = Some ((w1, f1, mf1), r)"
    and rest: "watch_run V L js w1 f1 mf1 = Some ((w', f', mf'), rs1)" and rs: "rs = r # rs1"
    by (auto simp: bind_eq_Some_conv)
  have o: "orphan_batch (ce_ext V) (ce_ergo V) f (wi_headers i (saturating_add tip 1))"
    "\<forall>i \<in> set js. orphan_batch (ce_ext V) (ce_ergo V) f (wi_headers i (saturating_add tip 1))"
    using Cons.prems(2) by simp_all
  have orphan: "apply_header (ce_ext V) (ce_ergo V) f h = Some (Inl FeUnknownParent)"
    if "wi_headers i (saturating_add tip 1) = Inr (h # hs)" for h hs
    using o(1) that by (auto simp: orphan_batch_def apply_header_def apply_verified_header_def link_header_def has_key_def)
  from st Cons.prems(1) obtain w2 mf2 evs2 s where "retry_inner V L (wi_blocks i) \<lparr> ap_follower_tip_height = tip,
      ap_now_ms = wi_now_ms i, ap_aegis = wi_aegis i \<rparr> (w, mf, []) = Some ((w2, mf2, evs2), s)"
    by (auto simp: aw_drive_def bind_eq_Some_conv)
  with st o(1) Cons.prems(1) orphan have "f1 = f \<and> (\<exists>e. r = Inl e)"
    by (cases s; cases "wi_headers i (saturating_add tip 1)") (auto simp: aw_drive_def orphan_batch_def split: list.splits)
  with rest Cons.IH [OF Cons.prems(1) o(2)] show ?case by (auto simp: rs)
qed simp

end
