(* ===== verification/Spec2Isabelle.thy ===== *)
theory Spec2Isabelle
  imports Witnesses ChainDemo SpendDemo WalletLedger WalletDemo Keystore ShareWitness AnchorWatch
begin

text \<open>
  Aegis: the hash-native sidechain node, its settlement guest and their shared engine.

  The program. A node (\<^verbatim>\<open>aegis-node/src/hn\<close>) keeps a shielded ledger: notes are commitments in a
  Merkle tree, spends reveal nullifiers and carry a proof, peg-ins mint notes for deposits on the
  Ergo main chain, peg-outs burn notes and queue withdrawals, and a reward pot pays miners. Blocks
  are merge-mined: an Autolykos share commits to the header id. A settlement guest
  (\<^verbatim>\<open>engine/src/epoch\<close>) re-verifies a suffix of blocks against the sealed tip and emits a journal
  with the withdrawals. Both use one engine (\<^verbatim>\<open>engine/src\<close>) of hashes, notes and accumulators.

  Theories and code.
    \<^item> \<open>Prelude\<close>: results, loops with early return, checked words, byte order, chunks.
    \<^item> \<open>Poseidon\<close> (\<^verbatim>\<open>poseidon.rs\<close>), \<open>Notes\<close> (\<^verbatim>\<open>commit.rs\<close>, \<^verbatim>\<open>nullifier.rs\<close>, \<^verbatim>\<open>burn.rs\<close>, \<^verbatim>\<open>mint.rs\<close>
      and the node's \<^verbatim>\<open>hn/mint.rs\<close>), \<open>Merkle\<close> (\<^verbatim>\<open>merkle.rs\<close>), \<open>Settled\<close> (\<^verbatim>\<open>settled.rs\<close>).
    \<^item> \<open>HeaderId\<close> (\<^verbatim>\<open>epoch/types.rs\<close>, \<^verbatim>\<open>epoch/header_id.rs\<close>), \<open>SettlementDigest\<close>
      (\<^verbatim>\<open>settlement_digest.rs\<close>, \<^verbatim>\<open>epoch/digest.rs\<close>), \<open>ErgoProofs\<close> (\<^verbatim>\<open>epoch/batch_merkle.rs\<close>,
      \<^verbatim>\<open>epoch/share.rs\<close>, \<^verbatim>\<open>epoch/anchor.rs\<close>, \<^verbatim>\<open>epoch/pegin.rs\<close>), \<open>Daa\<close> (the node's \<^verbatim>\<open>daa.rs\<close> and the
      guest's \<^verbatim>\<open>epoch/daa.rs\<close>), \<open>EpochVerify\<close> and \<open>EpochSound\<close> (\<^verbatim>\<open>epoch/verify.rs\<close>).
    \<^item> \<open>HnParams\<close> (\<^verbatim>\<open>hn/params.rs\<close>), \<open>HnBlock\<close> (block types, \<^verbatim>\<open>hn/header.rs\<close>, \<^verbatim>\<open>hn/auxpow.rs\<close>),
      \<open>HnState\<close> (\<^verbatim>\<open>hn/state.rs\<close>), \<open>HnLedger\<close> (effect of a block, exact rollback), \<open>HnRuns\<close>
      (invariants of every run), \<open>GuestParity\<close> (node and guest accept the same blocks).
    \<^item> \<open>HnChain\<close> (\<^verbatim>\<open>hn/chain.rs\<close>: the block log, the block tree with heaviest-work fork choice, mempool,
      sync and production), with its invariants in \<open>HnChainLog\<close>, \<open>HnChainInv\<close>, \<open>HnChainRun\<close> and its
      theorems in \<open>HnForkChoice\<close>, \<open>HnChainRestart\<close>, \<open>HnChainProduce\<close>.
    \<^item> The spend circuit (\<^verbatim>\<open>engine/src/spend\<close>): \<open>BabyBear\<close> (the field), \<open>PermAir\<close> and \<open>PermFill\<close>
      (\<^verbatim>\<open>perm.rs\<close>, \<^verbatim>\<open>mod.rs\<close>), \<open>BalanceAir\<close>, \<open>MerkleAir\<close>, \<open>NullifierAir\<close> (the component circuits, each
      exact for its relation), \<open>SpendPublics\<close>, \<open>SpendAir\<close> (\<^verbatim>\<open>monolith.rs\<close>: layout, schedule, constraints),
      \<open>SpendSound\<close> and \<open>SpendAirSound\<close> (an accepted trace is a valid spend), \<open>SpendTrace\<close> (trace
      generation), \<open>SpendComplete\<close> and \<open>SpendExact\<close> (a valid spend has an accepted trace), \<open>SpendLedger\<close>
      (what the ledger accepts opens notes of the chain). A constraint is a field expression
      evaluated at concrete cells; the proof system itself is an external crate, and its soundness is the
      hypothesis \<open>proof_sound\<close> of \<open>SpendLedger\<close>.
    \<^item> The read boundary and the wallet (\<^verbatim>\<open>engine/wallet/src\<close>): \<open>NoteEnc\<close> (\<^verbatim>\<open>note_encryption.rs\<close>), \<open>Address\<close>
      (\<^verbatim>\<open>address.rs\<close>), \<open>Keystore\<close> (\<^verbatim>\<open>keystore.rs\<close>), \<open>ChainFeed\<close> and \<open>LedgerTypes\<close> (what the ledger serves),
      \<open>WalletChain\<close> (\<^verbatim>\<open>chain.rs\<close>, \<^verbatim>\<open>circuit.rs\<close>), \<open>WalletView\<close> (the contract of the boundary, kept by the
      node's ledger and by the in-memory chain), \<open>Wallet\<close>, \<open>WalletScan\<close>, \<open>WalletPay\<close> (\<^verbatim>\<open>wallet.rs\<close>: scanning,
      selection, payments, burns), \<open>WalletLedger\<close> (a wallet on the node's ledger). A wallet follows
      one growing chain: the code does not handle reorganisations (\<open>reorg_note_missed\<close>).
    \<^item> The curve-tree generation of the node (\<^verbatim>\<open>aegis-node/src\<close> outside \<^verbatim>\<open>hn\<close>, \<^verbatim>\<open>aegis-types\<close>, \<^verbatim>\<open>aegis-spec\<close>), which is
      also merge-mined and mints against locks on the Ergo chain: \<open>CtTypes\<close> (wire types, codecs, constants), \<open>CtGrammar\<close> (the
      grammar of the wire form, which the decoder accepts exactly),
      \<open>ErgoFollow\<close> (\<^verbatim>\<open>ergo_follow.rs\<close>: the followed Ergo chain and its settled views), \<open>PegMint\<close> (\<^verbatim>\<open>pegmint.rs\<close>,
      \<^verbatim>\<open>pegmint_steps.rs\<close>: what a peg-mint proof must show), \<open>CtState\<close> (\<^verbatim>\<open>state.rs\<close>, \<^verbatim>\<open>proof.rs\<close>), \<open>CtChain\<close>
      (\<^verbatim>\<open>chain.rs\<close>, \<^verbatim>\<open>genesis.rs\<close>: extension, rollback, production), \<open>CtMempool\<close> (\<^verbatim>\<open>mempool.rs\<close>), \<open>CtAuxPow\<close>
      (\<^verbatim>\<open>auxpow.rs\<close>), \<open>CtStore\<close> (\<^verbatim>\<open>store.rs\<close>).
    \<^item> Its merge-mining fork choice (\<^verbatim>\<open>mm_forkchoice.rs\<close>): \<open>OrdMap\<close> (ordered maps as sorted lists), \<open>MmTree\<close> (the state
      machine), \<open>MmOrder\<close> (the preference is a strict order on the tree), \<open>MmForkChoice\<close> (its invariant
      over every sequence of events), \<open>MmFinality\<close> (heaviest branch, order independence, peg finality),
      \<open>MmPoison\<close> (a body that kills its block), \<open>AnchorWatch\<close> (\<^verbatim>\<open>anchor_watch.rs\<close>: the watcher that feeds it from
      the Ergo chain).
    \<^item> \<open>DemoChain\<close>, \<open>Witnesses\<close>, \<open>ChainDemo\<close>, \<open>SpendDemo\<close>, \<open>WalletDemo\<close>, \<open>CtDemo\<close>, \<open>CtDemoTree\<close>, \<open>CtWitness\<close>,
      \<open>MmWitness\<close>, \<open>ShareWitness\<close>: concrete chains, an epoch, a spend, a wallet, a block tree and shares, and every
      theorem applied to them.

  Conventions. Errors are values of \<open>'e + 'a\<close>; a panic is an error of its own (\<open>HnPanic\<close>,
  \<open>EvPanic\<close>) or \<open>None\<close>. Machine integers are words, wrapping where the code wraps and checked where
  it checks. External crates (the Poseidon2 permutation, the proof verifier, Blake2b, Ergo headers
  and transactions, Autolykos) are the fields of the record \<open>ext\<close>, and for the curve-tree generation of \<open>wire\<close>, \<open>vlq\<close>,
  \<open>ergo_lib\<close> and \<open>curve\<close> (readers and writers, Ergo parsing, the curve-tree library); nothing is assumed of them except
  where a theorem says so. A statement that depends on collision resistance names the inputs
  among which the collision would be.

  Not modelled: threads, sockets and HTTP (\<^verbatim>\<open>node.rs\<close>, \<^verbatim>\<open>api.rs\<close>, \<^verbatim>\<open>seed.rs\<close>), the proof systems and curves
  themselves, the recursion circuits, the bridge tools and the wallet of the curve-tree generation.

  Interfaces. \<open>leaf_log\<close> (an append log with a reference root; the note tree and the frontier
  interpret it), \<open>note_ledger\<close> (what a wallet may rely on of the chain it reads; the node's ledger and
  the in-memory chain interpret it), \<open>once_register\<close> (a register each key enters once; the settled set interprets it),
  \<open>undo_log\<close> (operations with an exact undo; the ledger interprets it).
\<close>

end
